(* ===== verification/Prelude.thy ===== *)
theory Prelude imports Main "HOL-Library.Word" begin

text \<open>
  What every component shares: the machine types of a 64-bit target, the faults a Rust
  program can end in, results as sums, and labelled transition systems with their runs,
  reachable states and invariants.
\<close>

section \<open>Machine types\<close>

text \<open>
  The target is fixed to \<open>target_pointer_width = "64"\<close>: \<open>usize\<close> has 64 bits,
  \<open>usize_half\<close> 32 and \<open>usize2\<close> 128 (\<open>src/atomic/atomic_impl.rs\<close>). A raw pointer is
  its address and \<open>null()\<close> is address 0.
\<close>

type_synonym usize = "64 word"
type_synonym usize_half = "32 word"
type_synonym usize2 = "128 word"
type_synonym ptr = "64 word"

abbreviation null :: ptr where
  "null \<equiv> 0"

definition usize_MAX :: usize where
  "usize_MAX = - 1"

text \<open>A thread of control that polls futures and drops guards is named by a number.\<close>

type_synonym tid = nat

section \<open>Faults and results\<close>

text \<open>
  \<open>Panic\<close> is a failed \<open>assert!\<close>, an \<open>unwrap\<close> of \<open>None\<close>, \<open>panic!\<close> or \<open>unreachable!\<close>;
  \<open>Todo\<close> is \<open>todo!()\<close>; \<open>Overflow\<close> is the overflow check of a debug build;
  \<open>Bad_Index\<close> is an index out of bounds; \<open>Bad_Pointer\<close> is the dereference of a null or
  dangling pointer and \<open>Bad_Transmute\<close> a transmute to a value its type does not have
  (both undefined behaviour); \<open>Diverges\<close> is a loop that never ends.
\<close>

datatype fault = Panic | Todo | Overflow | Bad_Index | Bad_Pointer | Bad_Transmute | Diverges

type_synonym 'a res = "fault + 'a"

named_theorems res_simps

definition bindR :: "'a res \<Rightarrow> ('a \<Rightarrow> 'b res) \<Rightarrow> 'b res" where
  "bindR m f = (case m of Inl e \<Rightarrow> Inl e | Inr x \<Rightarrow> f x)"

lemma bindR_simps [simp, res_simps]:
  "bindR (Inl e) f = Inl e"
  "bindR (Inr x) f = f x"
  by (simp_all add: bindR_def)

lemma bindR_eq_Inr: "bindR m f = Inr y \<longleftrightarrow> (\<exists>x. m = Inr x \<and> f x = Inr y)"
  by (cases m) auto

lemma bindR_cong [fundef_cong]:
  "m = m' \<Longrightarrow> (\<And>x. m' = Inr x \<Longrightarrow> f x = f' x) \<Longrightarrow> bindR m f = bindR m' f'"
  by (cases m') auto

definition mapR :: "('a \<Rightarrow> 'b) \<Rightarrow> 'a res \<Rightarrow> 'b res" where
  "mapR f m = bindR m (\<lambda>x. Inr (f x))"

lemma mapR_simps [simp, res_simps]:
  "mapR f (Inl e) = Inl e"
  "mapR f (Inr x) = Inr (f x)"
  by (simp_all add: mapR_def)

text \<open>\<open>assert!\<close>: panic unless the condition holds.\<close>

definition ensure :: "bool \<Rightarrow> unit res" where
  "ensure b = (if b then Inr () else Inl Panic)"

lemma ensure_simps [simp, res_simps]:
  "ensure True = Inr ()"
  "ensure False = Inl Panic"
  "(ensure b = Inr ()) = b"
  by (simp_all add: ensure_def)

text \<open>A loop defined by \<open>partial_function (option)\<close>: not returning is the fault \<open>Diverges\<close>.\<close>

definition total :: "'a res option \<Rightarrow> 'a res" where
  "total r = (case r of None \<Rightarrow> Inl Diverges | Some x \<Rightarrow> x)"

lemma total_simps [simp, res_simps]:
  "total None = Inl Diverges"
  "total (Some x) = x"
  by (simp_all add: total_def)

section \<open>Checked arithmetic\<close>

text \<open>
  \<open>+\<close> and \<open>-\<close> on unsigned integers with the overflow checks of a debug build. Where a
  theorem shows that no \<open>Overflow\<close> occurs, a release build computes the same values.
\<close>

definition checked_plus :: "'a::len word \<Rightarrow> 'a word \<Rightarrow> 'a word res" where
  "checked_plus a b =
     (if unat a + unat b < 2 ^ LENGTH('a) then Inr (a + b) else Inl Overflow)"

definition checked_minus :: "'a::len word \<Rightarrow> 'a word \<Rightarrow> 'a word res" where
  "checked_minus a b = (if b \<le> a then Inr (a - b) else Inl Overflow)"

text \<open>Evaluated without the power: a sum that wraps around is less than its first summand.\<close>

lemma checked_plus_code [code]:
  "checked_plus a b = (if a \<le> a + b then Inr (a + b) else Inl Overflow)"
  by (simp add: checked_plus_def no_olen_add_nat word_size)

lemma checked_plus_1:
  "unat a < n \<Longrightarrow> n < 2 ^ LENGTH('a) \<Longrightarrow> checked_plus a (1 :: 'a::len word) = Inr (a + 1)"
  by (simp add: checked_plus_def)

lemma checked_minus_1: "a \<noteq> 0 \<Longrightarrow> checked_minus a (1 :: 'a::len word) = Inr (a - 1)"
proof -
  assume "a \<noteq> 0"
  then have "1 \<le> unat a" by (simp add: unat_gt_0 Suc_le_eq)
  then show ?thesis by (simp add: checked_minus_def word_le_nat_alt)
qed

lemma unat_plus_1:
  "unat a < n \<Longrightarrow> n < 2 ^ LENGTH('a) \<Longrightarrow> unat (a + 1 :: 'a::len word) = Suc (unat a)"
  by (simp add: unat_word_ariths)

section \<open>Labelled transition systems\<close>

text \<open>
  A machine is a function from an event and a state: \<open>None\<close> where the event is not
  enabled (the wrong place in the code, or a lock that blocks), \<open>Some (Inl e)\<close> where the
  step faults and \<open>Some (Inr s')\<close> where it moves. An event names the task that moves and
  what the environment chooses for it: whether a weak compare-exchange fails spuriously,
  the address an allocation returns, the waker of the polling context.
\<close>

type_synonym ('e, 's) machine = "'e \<Rightarrow> 's \<Rightarrow> 's res option"

inductive reach :: "('s \<Rightarrow> bool) \<Rightarrow> ('e, 's) machine \<Rightarrow> 's \<Rightarrow> bool"
  for init :: "'s \<Rightarrow> bool" and step :: "('e, 's) machine" where
  start: "init s \<Longrightarrow> reach init step s"
| move: "reach init step s \<Longrightarrow> step e s = Some (Inr s') \<Longrightarrow> reach init step s'"

fun run :: "('e, 's) machine \<Rightarrow> 'e list \<Rightarrow> 's \<Rightarrow> 's res option" where
  "run step [] s = Some (Inr s)"
| "run step (e # es) s =
     (case step e s of None \<Rightarrow> None | Some r \<Rightarrow>
       (case r of Inl x \<Rightarrow> Some (Inl x) | Inr s' \<Rightarrow> run step es s'))"

lemma run_reach:
  "reach init step s \<Longrightarrow> run step es s = Some (Inr s') \<Longrightarrow> reach init step s'"
proof (induction es arbitrary: s)
  case Nil
  then show ?case by simp
next
  case (Cons e es)
  then show ?case
    by (auto split: option.splits sum.splits intro: reach.move)
qed

lemma run_append:
  "run step es s = Some (Inr s') \<Longrightarrow> run step (es @ fs) s = run step fs s'"
  by (induction es arbitrary: s) (auto split: option.splits sum.splits)

text \<open>
  The contract of an invariant: it holds initially and every step that returns keeps it, or, in
  the stronger one, every enabled step succeeds and keeps it. Every machine of the development
  interprets one of them.
\<close>

locale returning_system =
  fixes init :: "'s \<Rightarrow> bool"
    and step :: "('e, 's) machine"
    and inv :: "'s \<Rightarrow> bool"
  assumes init_inv: "init s \<Longrightarrow> inv s"
    and keep_inv: "inv s \<Longrightarrow> step e s = Some (Inr s') \<Longrightarrow> inv s'"
begin

lemma reach_inv: "reach init step s \<Longrightarrow> inv s"
  by (induction rule: reach.induct) (auto intro: init_inv keep_inv)

lemma run_inv: "init s \<Longrightarrow> run step es s = Some (Inr s') \<Longrightarrow> inv s'"
  by (blast intro: reach_inv run_reach reach.start)

end

locale invariant_system =
  fixes init :: "'s \<Rightarrow> bool"
    and step :: "('e, 's) machine"
    and inv :: "'s \<Rightarrow> bool"
  assumes inv_init: "init s \<Longrightarrow> inv s"
    and inv_step: "inv s \<Longrightarrow> step e s = Some r \<Longrightarrow> \<exists>s'. r = Inr s' \<and> inv s'"

sublocale invariant_system \<subseteq> returning_system init step inv
  by unfold_locales (auto dest: inv_init inv_step)

context invariant_system
begin

lemma reach_no_fault: "reach init step s \<Longrightarrow> step e s \<noteq> Some (Inl x)"
  using inv_step reach_inv by fastforce

lemma run_no_fault:
  "reach init step s \<Longrightarrow> run step es s \<noteq> Some (Inl x)"
proof (induction es arbitrary: s)
  case Nil
  then show ?case by simp
next
  case (Cons e es)
  then show ?case
    by (auto split: option.splits sum.splits intro: reach.move dest: reach_no_fault)
qed

end

section \<open>Functions updated at one point\<close>

text \<open>
  A task that moves changes its own program counter and no other: statements about every
  task split into the mover and the rest.
\<close>

lemma all_fun_upd: "(\<forall>u. P u ((f(t := x)) u)) \<longleftrightarrow> P t x \<and> (\<forall>u. u \<noteq> t \<longrightarrow> P u (f u))"
  by auto

declare hd_append [simp]

lemma last_append_Cons [simp]: "last (xs @ y # ys) = last (y # ys)"
  by simp

end
