(* ===== verification/Atomic_Ordering.thy ===== *)
theory Atomic_Ordering imports Prelude begin

text \<open>
  \<open>src/atomic/ordering.rs\<close>: the memory orderings, the marker types that stand for them at
  the type level, and the marker traits that say which of them an operation accepts.
  The rules of the standard library's atomics for the orderings of a load, a store and a
  compare-exchange are those of its documentation: an ordering outside them panics.
\<close>

datatype ordering = Relaxed | Release | Acquire | AcqRel | SeqCst

datatype ordering_t = SeqCstT | AcqRelT | AcquireT | ReleaseT | RelaxedT

fun ORDERING :: "ordering_t \<Rightarrow> ordering" where
  "ORDERING SeqCstT = SeqCst"
| "ORDERING AcqRelT = AcqRel"
| "ORDERING AcquireT = Acquire"
| "ORDERING ReleaseT = Release"
| "ORDERING RelaxedT = Relaxed"

definition IsAcquireT :: "ordering_t \<Rightarrow> bool" where
  "IsAcquireT o' \<longleftrightarrow> o' \<in> {SeqCstT, AcqRelT, AcquireT}"

definition IsReleaseT :: "ordering_t \<Rightarrow> bool" where
  "IsReleaseT o' \<longleftrightarrow> o' \<in> {SeqCstT, AcqRelT, ReleaseT}"

definition IsLoadT :: "ordering_t \<Rightarrow> bool" where
  "IsLoadT o' \<longleftrightarrow> o' \<in> {SeqCstT, AcquireT, RelaxedT}"

text \<open>What the standard library accepts.\<close>

definition load_order :: "ordering \<Rightarrow> bool" where
  "load_order o' \<longleftrightarrow> o' \<notin> {Release, AcqRel}"

definition store_order :: "ordering \<Rightarrow> bool" where
  "store_order o' \<longleftrightarrow> o' \<notin> {Acquire, AcqRel}"

text \<open>
  The failure ordering of a compare-exchange must be one of a load, and no stronger than the success
  ordering: the rule of every toolchain that has the features this crate enables. Rust 1.64 dropped
  its second half (\<open>cas_orders_164\<close>).
\<close>

fun cas_orders :: "ordering \<Rightarrow> ordering \<Rightarrow> bool" where
  "cas_orders _ Relaxed = True"
| "cas_orders succ Acquire = (succ \<in> {Acquire, AcqRel, SeqCst})"
| "cas_orders succ SeqCst = (succ = SeqCst)"
| "cas_orders _ _ = False"

definition cas_orders_164 :: "ordering \<Rightarrow> ordering \<Rightarrow> bool" where
  "cas_orders_164 succ fail \<longleftrightarrow> load_order fail"

lemma IsLoadT_load_order [simp]: "IsLoadT o' \<Longrightarrow> load_order (ORDERING o')"
  by (cases o') (auto simp: IsLoadT_def load_order_def)

lemma load_order_simps [simp, res_simps]:
  "load_order Relaxed" "load_order Acquire" "load_order SeqCst"
  "\<not> load_order Release" "\<not> load_order AcqRel"
  by (auto simp: load_order_def)

lemma store_order_simps [simp, res_simps]:
  "store_order Relaxed" "store_order Release" "store_order SeqCst"
  by (auto simp: store_order_def)

lemma IsLoadT_simps [simp, res_simps]:
  "IsLoadT RelaxedT" "IsLoadT AcquireT" "IsLoadT SeqCstT"
  by (auto simp: IsLoadT_def)

lemma cas_orders_load: "cas_orders s f \<Longrightarrow> cas_orders_164 s f"
  by (cases f) (simp_all add: cas_orders_164_def)

lemma cas_orders_simps [simp, res_simps]:
  "cas_orders s Relaxed" "cas_orders Acquire Acquire" "cas_orders AcqRel Acquire" "cas_orders_164 s Acquire"
  by (simp_all add: cas_orders_164_def)

end
