(* ===== verification/Atomics.thy ===== *)
theory Atomics imports Atomic_Ordering begin

text \<open>
  \<open>src/atomic/atomic_impl.rs\<close> and \<open>src/atomic/atomic_cell.rs\<close>: the native atomics, the
  bit-packing trait \<open>Packable\<close>, the container \<open>Atomic<T>\<close> built from both, and the packings of
  the primitive types. The specification of an \<open>Atomic<T>\<close> is a cell that holds the value of
  type \<open>T\<close> itself; the locale \<open>packable\<close> is what an encoding promises and proves that the
  packed container implements that cell. Operations are sequentially consistent; an ordering
  argument matters only where the standard library panics on it.
\<close>

unbundle bit_operations_syntax

section \<open>Native atomics\<close>

text \<open>
  The \<open>atomic_impl!\<close> instances forward to the standard library. An atomic integer is its
  value. The \<open>spurious\<close> argument of a weak compare-exchange is the environment's choice.
\<close>

definition native_new :: "'r \<Rightarrow> 'r" where
  "native_new x = x"

definition native_load_mut :: "'r \<Rightarrow> 'r" where
  "native_load_mut r = r"

definition native_store_mut :: "'r \<Rightarrow> 'r \<Rightarrow> 'r" where
  "native_store_mut r x = x"

definition native_load :: "ordering \<Rightarrow> 'r \<Rightarrow> 'r res" where
  "native_load o' r = (if load_order o' then Inr r else Inl Panic)"

definition native_store :: "ordering \<Rightarrow> 'r \<Rightarrow> 'r \<Rightarrow> 'r res" where
  "native_store o' r x = (if store_order o' then Inr x else Inl Panic)"

definition native_swap :: "ordering \<Rightarrow> 'r \<Rightarrow> 'r \<Rightarrow> ('r \<times> 'r) res" where
  "native_swap o' r x = Inr (r, x)"

text \<open>\<open>Result<Raw, Raw>\<close> is a sum: \<open>Inr\<close> for \<open>Ok\<close>, \<open>Inl\<close> for \<open>Err\<close>, both the value found.\<close>

definition native_compare_exchange ::
  "ordering \<Rightarrow> ordering \<Rightarrow> 'r \<Rightarrow> 'r \<Rightarrow> 'r \<Rightarrow> (('r + 'r) \<times> 'r) res" where
  "native_compare_exchange s f r current new =
     (if cas_orders s f then Inr (if r = current then (Inr r, new) else (Inl r, r))
      else Inl Panic)"

definition native_compare_exchange_weak ::
  "bool \<Rightarrow> ordering \<Rightarrow> ordering \<Rightarrow> 'r \<Rightarrow> 'r \<Rightarrow> 'r \<Rightarrow> (('r + 'r) \<times> 'r) res" where
  "native_compare_exchange_weak spurious s f r current new =
     (if cas_orders s f
      then Inr (if r = current \<and> \<not> spurious then (Inr r, new) else (Inl r, r))
      else Inl Panic)"

section \<open>Atomic<T> over an encoding\<close>

definition atomic_new :: "('a \<Rightarrow> 'r) \<Rightarrow> 'a \<Rightarrow> 'r" where
  "atomic_new enc v = native_new (enc v)"

definition atomic_load_mut :: "('r \<Rightarrow> 'a) \<Rightarrow> 'r \<Rightarrow> 'a" where
  "atomic_load_mut dec r = dec (native_load_mut r)"

definition atomic_store_mut :: "('a \<Rightarrow> 'r) \<Rightarrow> 'r \<Rightarrow> 'a \<Rightarrow> 'r" where
  "atomic_store_mut enc r v = native_store_mut r (enc v)"

definition atomic_load :: "('r \<Rightarrow> 'a) \<Rightarrow> ordering \<Rightarrow> 'r \<Rightarrow> 'a res" where
  "atomic_load dec o' r = mapR dec (native_load o' r)"

definition atomic_store :: "('a \<Rightarrow> 'r) \<Rightarrow> ordering \<Rightarrow> 'r \<Rightarrow> 'a \<Rightarrow> 'r res" where
  "atomic_store enc o' r v = native_store o' r (enc v)"

definition atomic_swap ::
  "('a \<Rightarrow> 'r) \<Rightarrow> ('r \<Rightarrow> 'a) \<Rightarrow> ordering \<Rightarrow> 'r \<Rightarrow> 'a \<Rightarrow> ('a \<times> 'r) res" where
  "atomic_swap enc dec o' r v =
     bindR (native_swap o' r (enc v)) (\<lambda>(old, r'). Inr (dec old, r'))"

text \<open>
  \<open>cmpxchg_weak\<close> and \<open>cmpxchg\<close> return the boolean, the new contents of the caller's
  \<open>current\<close> and the new contents of the cell; a success leaves \<open>current\<close> as it was.
\<close>

definition atomic_cmpxchg_weak ::
  "('a \<Rightarrow> 'r) \<Rightarrow> ('r \<Rightarrow> 'a) \<Rightarrow> bool \<Rightarrow> ordering \<Rightarrow> ordering \<Rightarrow> 'r \<Rightarrow> 'a \<Rightarrow> 'a \<Rightarrow>
     (bool \<times> 'a \<times> 'r) res" where
  "atomic_cmpxchg_weak enc dec spurious s f r current new =
     bindR (native_compare_exchange_weak spurious s f r (enc current) (enc new))
       (\<lambda>(result, r'). case result of
            Inr _ \<Rightarrow> Inr (True, current, r')
          | Inl nxt \<Rightarrow> Inr (False, dec nxt, r'))"

definition atomic_cmpxchg ::
  "('a \<Rightarrow> 'r) \<Rightarrow> ('r \<Rightarrow> 'a) \<Rightarrow> ordering \<Rightarrow> ordering \<Rightarrow> 'r \<Rightarrow> 'a \<Rightarrow> 'a \<Rightarrow>
     (bool \<times> 'a \<times> 'r) res" where
  "atomic_cmpxchg enc dec s f r current new =
     bindR (native_compare_exchange s f r (enc current) (enc new))
       (\<lambda>(result, r'). case result of
            Inr _ \<Rightarrow> Inr (True, current, r')
          | Inl nxt \<Rightarrow> Inr (False, dec nxt, r'))"

section \<open>The specification: a cell of unpacked values\<close>

definition cell_load :: "ordering \<Rightarrow> 'a \<Rightarrow> 'a res" where
  "cell_load o' v = (if load_order o' then Inr v else Inl Panic)"

definition cell_store :: "ordering \<Rightarrow> 'a \<Rightarrow> 'a \<Rightarrow> 'a res" where
  "cell_store o' v x = (if store_order o' then Inr x else Inl Panic)"

text \<open>
  With \<open>cfg(loom)\<close> the atomics are those of loom (\<open>src/loom.rs\<close>), else those of the standard
  library: \<open>accepts\<close> is what the atomics in use accept as orderings.
\<close>

definition cell_cmpxchg_weak_on ::
  "(ordering \<Rightarrow> ordering \<Rightarrow> bool) \<Rightarrow> bool \<Rightarrow> ordering \<Rightarrow> ordering \<Rightarrow> 'a \<Rightarrow> 'a \<Rightarrow> 'a \<Rightarrow> (bool \<times> 'a \<times> 'a) res" where
  "cell_cmpxchg_weak_on accepts spurious s f v current new =
     (if accepts s f
      then Inr (if v = current \<and> \<not> spurious then (True, current, new) else (False, v, v))
      else Inl Panic)"

definition cell_cmpxchg_weak ::
  "bool \<Rightarrow> ordering \<Rightarrow> ordering \<Rightarrow> 'a \<Rightarrow> 'a \<Rightarrow> 'a \<Rightarrow> (bool \<times> 'a \<times> 'a) res" where
  "cell_cmpxchg_weak = cell_cmpxchg_weak_on cas_orders"

lemma cell_load_simps [simp, res_simps]: "load_order o' \<Longrightarrow> cell_load o' v = Inr v"
  by (simp add: cell_load_def)

lemma cell_cmpxchg_weak_simps [simp, res_simps]:
  "cas_orders s f \<Longrightarrow> cell_cmpxchg_weak spurious s f v current new =
     Inr (if v = current \<and> \<not> spurious then (True, current, new) else (False, v, v))"
  "accepts s f \<Longrightarrow> cell_cmpxchg_weak_on accepts spurious s f v current new =
     Inr (if v = current \<and> \<not> spurious then (True, current, new) else (False, v, v))"
  by (simp_all add: cell_cmpxchg_weak_def cell_cmpxchg_weak_on_def)

section \<open>What a packing promises\<close>

locale packable =
  fixes encode :: "'a \<Rightarrow> 'r"
    and decode :: "'r \<Rightarrow> 'a"
    and valid :: "'a \<Rightarrow> bool"
  assumes decode_encode: "valid v \<Longrightarrow> decode (encode v) = v"
begin

lemma encode_inject: "valid v \<Longrightarrow> valid w \<Longrightarrow> encode v = encode w \<longleftrightarrow> v = w"
  by (metis decode_encode)

lemma new_load: "valid v \<Longrightarrow> atomic_load_mut decode (atomic_new encode v) = v"
  by (simp add: atomic_load_mut_def atomic_new_def native_new_def native_load_mut_def
      decode_encode)

lemma store_mut_load: "valid v \<Longrightarrow> atomic_load_mut decode (atomic_store_mut encode r v) = v"
  by (simp add: atomic_load_mut_def atomic_store_mut_def native_store_mut_def
      native_load_mut_def decode_encode)

lemma load_refines: "valid v \<Longrightarrow> atomic_load decode o' (encode v) = cell_load o' v"
  by (simp add: atomic_load_def native_load_def cell_load_def decode_encode)

lemma store_refines:
  "atomic_store encode o' (encode v) x = mapR encode (cell_store o' v x)"
  by (simp add: atomic_store_def native_store_def cell_store_def)

lemma swap_refines: "valid v \<Longrightarrow> atomic_swap encode decode o' (encode v) x = Inr (v, encode x)"
  by (simp add: atomic_swap_def native_swap_def decode_encode)

lemma cmpxchg_weak_refines:
  "valid v \<Longrightarrow> valid current \<Longrightarrow>
     atomic_cmpxchg_weak encode decode spurious s f (encode v) current new =
     mapR (\<lambda>(ok, cur, v'). (ok, cur, encode v')) (cell_cmpxchg_weak spurious s f v current new)"
  by (simp add: atomic_cmpxchg_weak_def native_compare_exchange_weak_def cell_cmpxchg_weak_def cell_cmpxchg_weak_on_def
      encode_inject decode_encode)

lemma cmpxchg_refines:
  "valid v \<Longrightarrow> valid current \<Longrightarrow>
     atomic_cmpxchg encode decode s f (encode v) current new =
     mapR (\<lambda>(ok, cur, v'). (ok, cur, encode v')) (cell_cmpxchg_weak False s f v current new)"
  by (simp add: atomic_cmpxchg_def native_compare_exchange_def cell_cmpxchg_weak_def cell_cmpxchg_weak_on_def
      encode_inject decode_encode)

end

section \<open>Packings of the primitive types\<close>

definition ptr_encode :: "ptr \<Rightarrow> usize" where "ptr_encode v = v"
definition ptr_decode :: "usize \<Rightarrow> ptr" where "ptr_decode r = r"

definition mut_ptr_encode :: "ptr \<Rightarrow> usize" where "mut_ptr_encode v = v"
definition mut_ptr_decode :: "usize \<Rightarrow> ptr" where "mut_ptr_decode r = r"

definition bool_encode :: "bool \<Rightarrow> bool" where "bool_encode v = v"
definition bool_decode :: "bool \<Rightarrow> bool" where "bool_decode r = r"

definition usize_encode :: "usize \<Rightarrow> usize" where "usize_encode v = v"
definition usize_decode :: "usize \<Rightarrow> usize" where "usize_decode r = r"

definition u8_encode :: "8 word \<Rightarrow> 8 word" where "u8_encode v = v"
definition u8_decode :: "8 word \<Rightarrow> 8 word" where "u8_decode r = r"

interpretation ptr_pack: packable ptr_encode ptr_decode "\<lambda>_. True"
  by unfold_locales (simp add: ptr_encode_def ptr_decode_def)

interpretation mut_ptr_pack: packable mut_ptr_encode mut_ptr_decode "\<lambda>_. True"
  by unfold_locales (simp add: mut_ptr_encode_def mut_ptr_decode_def)

interpretation bool_pack: packable bool_encode bool_decode "\<lambda>_. True"
  by unfold_locales (simp add: bool_encode_def bool_decode_def)

interpretation usize_pack: packable usize_encode usize_decode "\<lambda>_. True"
  by unfold_locales (simp add: usize_encode_def usize_decode_def)

interpretation u8_pack: packable u8_encode u8_decode "\<lambda>_. True"
  by unfold_locales (simp add: u8_encode_def u8_decode_def)

section \<open>CopyWaker\<close>

text \<open>
  A waker is a data pointer and a vtable pointer. The transmute to \<open>usize2\<close> and back is the
  little-endian layout, the first field in the low half.
\<close>

record copy_waker =
  cw_data :: ptr
  cw_vtable :: ptr

definition transmute2 :: "'h::len word \<Rightarrow> 'h word \<Rightarrow> 'w::len word" where
  "transmute2 lo hi = word_cat hi lo"

definition untransmute2 :: "'w::len word \<Rightarrow> 'h::len word \<times> 'h word" where
  "untransmute2 w = (ucast w, ucast (drop_bit LENGTH('h) w))"

lemma untransmute2_transmute2:
  assumes "2 * LENGTH('h) = LENGTH('w)"
  shows "untransmute2 (transmute2 lo hi :: 'w::len word) = (lo :: 'h::len word, hi)"
proof -
  let ?w = "word_cat hi lo :: 'w word"
  have "ucast ?w = lo"
    using assms by (intro bit_word_eqI) (auto simp: bit_ucast_iff bit_word_cat_iff)
  moreover have "ucast (drop_bit LENGTH('h) ?w) = hi"
    using assms
    by (intro bit_word_eqI) (auto simp: bit_ucast_iff bit_drop_bit_eq bit_word_cat_iff)
  ultimately show ?thesis by (simp add: untransmute2_def transmute2_def)
qed

lemma transmute2_untransmute2:
  assumes "2 * LENGTH('h) = LENGTH('w)"
  shows "case_prod transmute2 (untransmute2 (w :: 'w::len word) :: 'h::len word \<times> 'h word) = w"
proof -
  have "bit (word_cat (ucast (drop_bit LENGTH('h) w) :: 'h word) (ucast w :: 'h word) :: 'w word) n
        = bit w n" if "n < LENGTH('w)" for n
    using that assms by (auto simp: bit_word_cat_iff bit_ucast_iff bit_drop_bit_eq)
  then show ?thesis
    by (simp add: untransmute2_def transmute2_def bit_word_eqI)
qed

text \<open>\<open>usize_half as usize\<close> and back.\<close>

lemma half_down_up: "ucast (ucast (r :: usize_half) :: usize) = r"
  by (intro bit_word_eqI) (simp add: bit_ucast_iff)

lemma half_up_down: "unat (v :: usize) < 2 ^ 32 \<Longrightarrow> ucast (ucast v :: usize_half) = v"
  by (simp add: word_unat_eq_iff unsigned_ucast_eq unsigned_take_bit_eq take_bit_nat_eq_self)

lemma half_less: "unat (ucast (r :: usize_half) :: usize) < 2 ^ 32"
proof -
  have "unat r < 2 ^ 32" using unsigned_less [of r, where ?'a = nat] by simp
  then show ?thesis by (simp add: unsigned_ucast_eq take_bit_nat_eq_self)
qed

definition copy_waker_transmute :: "copy_waker \<Rightarrow> usize2" where
  "copy_waker_transmute w = transmute2 (cw_data w) (cw_vtable w)"

definition copy_waker_untransmute :: "usize2 \<Rightarrow> copy_waker" where
  "copy_waker_untransmute r =
     (case untransmute2 r of (d, v) \<Rightarrow> \<lparr>cw_data = d, cw_vtable = v\<rparr>)"

interpretation copy_waker_pack: packable copy_waker_transmute copy_waker_untransmute "\<lambda>_. True"
  by unfold_locales
    (simp add: copy_waker_transmute_def copy_waker_untransmute_def untransmute2_transmute2)

end
