(* ===== verification/Futex_State.thy ===== *)
theory Futex_State imports Atomics begin

text \<open>
  \<open>src/futex/state.rs\<close> and \<open>src/futex/atomic_refcell.rs\<close>: the waker slot of a waiter, the
  snapshot of a futex's atomic state, their packings into a double-wide word, and the
  atomically checked \<open>RefCell\<close> around the queues.
\<close>

section \<open>The waker slot\<close>

datatype waiter_waker = WakerNone | WakerWaiting copy_waker | WakerDone

text \<open>
  \<open>None\<close> and \<open>Done\<close> are encoded by the addresses of two statics in the vtable field. The
  addresses are chosen by the linker: they are parameters.
\<close>

definition waiter_waker_encode :: "ptr \<Rightarrow> ptr \<Rightarrow> waiter_waker \<Rightarrow> usize2" where
  "waiter_waker_encode WAITER_NONE_TAG WAITER_DONE_TAG val =
     copy_waker_transmute
       (case val of
          WakerNone \<Rightarrow> \<lparr>cw_data = null, cw_vtable = WAITER_NONE_TAG\<rparr>
        | WakerDone \<Rightarrow> \<lparr>cw_data = null, cw_vtable = WAITER_DONE_TAG\<rparr>
        | WakerWaiting waker \<Rightarrow> waker)"

definition waiter_waker_decode :: "ptr \<Rightarrow> ptr \<Rightarrow> usize2 \<Rightarrow> waiter_waker" where
  "waiter_waker_decode WAITER_NONE_TAG WAITER_DONE_TAG val =
     (let waker = copy_waker_untransmute val in
      if cw_vtable waker = WAITER_NONE_TAG then WakerNone
      else if cw_vtable waker = WAITER_DONE_TAG then WakerDone
      else WakerWaiting waker)"

text \<open>
  The packing is faithful when the two statics have different addresses and no waker uses
  one of them as its vtable.
\<close>

definition waiter_waker_valid :: "ptr \<Rightarrow> ptr \<Rightarrow> waiter_waker \<Rightarrow> bool" where
  "waiter_waker_valid nt dt val \<longleftrightarrow> nt \<noteq> dt \<and>
     (case val of WakerWaiting waker \<Rightarrow> cw_vtable waker \<notin> {nt, dt} | _ \<Rightarrow> True)"

interpretation waiter_waker_pack:
  packable "waiter_waker_encode nt dt" "waiter_waker_decode nt dt"
    "waiter_waker_valid nt dt" for nt dt
  by unfold_locales
    (auto simp: waiter_waker_encode_def waiter_waker_decode_def waiter_waker_valid_def
       copy_waker_pack.decode_encode split: waiter_waker.splits)

section \<open>The atomic state of a futex\<close>

record raw_futex_atom =
  fa_atom :: usize
  fa_inbox :: ptr

definition raw_futex_atom_encode :: "raw_futex_atom \<Rightarrow> usize2" where
  "raw_futex_atom_encode val = transmute2 (fa_atom val) (fa_inbox val)"

definition raw_futex_atom_decode :: "usize2 \<Rightarrow> raw_futex_atom" where
  "raw_futex_atom_decode val =
     (case untransmute2 val of (a, i) \<Rightarrow> \<lparr>fa_atom = a, fa_inbox = i\<rparr>)"

interpretation raw_futex_atom_pack:
  packable raw_futex_atom_encode raw_futex_atom_decode "\<lambda>_. True"
  by unfold_locales
    (simp add: raw_futex_atom_encode_def raw_futex_atom_decode_def untransmute2_transmute2)

definition has_new_waiters :: "raw_futex_atom \<Rightarrow> bool" where
  "has_new_waiters fa \<longleftrightarrow> fa_inbox fa \<noteq> null"

definition inner :: "(usize \<Rightarrow> 'a) \<Rightarrow> raw_futex_atom \<Rightarrow> 'a" where
  "inner dec fa = dec (fa_atom fa)"

section \<open>AtomicRefCell\<close>

text \<open>
  The borrow flag is an \<open>AtomicUsize\<close>, 0 or 1. The contents are a field of the structure
  around it; the model keeps the flag and the contents side by side.
\<close>

definition refcell_new :: usize where
  "refcell_new = 0"

definition borrow_mut :: "usize \<Rightarrow> usize res" where
  "borrow_mut state =
     bindR (native_compare_exchange Acquire Relaxed state 0 1) (\<lambda>(result, state').
     bindR (ensure (\<not> isl result)) (\<lambda>_. Inr state'))"

definition refmut_drop :: "usize \<Rightarrow> usize res" where
  "refmut_drop state = native_store Release state 0"

lemma borrow_mut_simps [simp, res_simps]:
  "borrow_mut 0 = Inr 1"
  "state \<noteq> 0 \<Longrightarrow> borrow_mut state = Inl Panic"
  by (simp_all add: borrow_mut_def native_compare_exchange_def)

lemma refmut_drop_simps [simp, res_simps]: "refmut_drop state = Inr 0"
  by (simp add: refmut_drop_def native_store_def)

section \<open>Properties\<close>

text \<open>
  The waker slot packs and unpacks without loss, whatever addresses the linker gives the
  two tags, as long as they differ and no real waker has one of them as its vtable.
\<close>

theorem waiter_waker_round_trip:
  assumes "waiter_waker_valid nt dt k"
  shows "waiter_waker_decode nt dt (waiter_waker_encode nt dt k) = k"
  by (rule waiter_waker_pack.decode_encode [OF assms])

theorem waiter_waker_round_trip_witness:
  "waiter_waker_decode 32 40 (waiter_waker_encode 32 40 (WakerWaiting \<lparr>cw_data = 7, cw_vtable = 48\<rparr>)) =
     WakerWaiting \<lparr>cw_data = 7, cw_vtable = 48\<rparr>"
  by (rule waiter_waker_round_trip) (simp add: waiter_waker_valid_def)

text \<open>
  The double-wide atomic of a futex behaves as a cell that holds the pair of the atom and
  the inbox: its packed weak compare-exchange succeeds exactly when both are as expected (and
  the failure is not spurious), and returns the pair it found otherwise.
\<close>

theorem futex_atom_cmpxchg_refines:
  "atomic_cmpxchg_weak raw_futex_atom_encode raw_futex_atom_decode spurious s f
     (raw_futex_atom_encode v) current new =
   mapR (\<lambda>(ok, cur, v'). (ok, cur, raw_futex_atom_encode v')) (cell_cmpxchg_weak spurious s f v current new)"
  by (rule raw_futex_atom_pack.cmpxchg_weak_refines) simp_all

end
