(* ===== verification/Waiter_List.thy ===== *)
theory Waiter_List imports Futex_State begin

text \<open>
  \<open>src/futex/waiter.rs\<close>: waiters live on a heap and are linked into intrusive doubly linked
  lists. The heap maps an address to the waiter allocated there; reading or writing through
  a pointer that is null or not allocated is the fault \<open>Bad_Pointer\<close>. The functional
  description of every operation is given by \<open>dlist h l xs\<close>: the list head \<open>l\<close> and the
  nodes reachable from it in the heap \<open>h\<close> are exactly the addresses \<open>xs\<close>, in order.
\<close>

section \<open>Waiters on the heap\<close>

record waiter =
  w_next :: ptr
  w_prev :: ptr
  w_futex :: ptr
  w_queue :: usize
  w_waker :: waiter_waker
  w_message :: usize

type_synonym heap = "ptr \<Rightarrow> waiter option"

definition waiter_new :: "ptr \<Rightarrow> usize \<Rightarrow> usize \<Rightarrow> waiter" where
  "waiter_new futex message queue =
     \<lparr>w_next = null, w_prev = null, w_futex = futex, w_queue = queue,
      w_waker = WakerNone, w_message = message\<rparr>"

definition deref :: "heap \<Rightarrow> ptr \<Rightarrow> waiter res" where
  "deref h p = (if p = null then Inl Bad_Pointer
     else case h p of None \<Rightarrow> Inl Bad_Pointer | Some w \<Rightarrow> Inr w)"

definition modify :: "(waiter \<Rightarrow> waiter) \<Rightarrow> heap \<Rightarrow> ptr \<Rightarrow> heap res" where
  "modify f h p = bindR (deref h p) (\<lambda>w. Inr (h(p \<mapsto> f w)))"

definition waiter_get_waker :: "heap \<Rightarrow> ptr \<Rightarrow> waiter_waker res" where
  "waiter_get_waker h p = mapR w_waker (deref h p)"

definition waiter_futex :: "heap \<Rightarrow> ptr \<Rightarrow> ptr res" where
  "waiter_futex h p = mapR w_futex (deref h p)"

definition waiter_message :: "heap \<Rightarrow> ptr \<Rightarrow> usize res" where
  "waiter_message h p = mapR w_message (deref h p)"

definition waiter_next :: "heap \<Rightarrow> ptr \<Rightarrow> ptr res" where
  "waiter_next h p = mapR w_next (deref h p)"

definition waiter_prev :: "heap \<Rightarrow> ptr \<Rightarrow> ptr res" where
  "waiter_prev h p = mapR w_prev (deref h p)"

definition waiter_queue :: "heap \<Rightarrow> ptr \<Rightarrow> usize res" where
  "waiter_queue h p = mapR w_queue (deref h p)"

definition set_next :: "heap \<Rightarrow> ptr \<Rightarrow> ptr \<Rightarrow> heap res" where
  "set_next h p q = modify (\<lambda>w. w\<lparr>w_next := q\<rparr>) h p"

definition set_prev :: "heap \<Rightarrow> ptr \<Rightarrow> ptr \<Rightarrow> heap res" where
  "set_prev h p q = modify (\<lambda>w. w\<lparr>w_prev := q\<rparr>) h p"

definition set_queue :: "heap \<Rightarrow> ptr \<Rightarrow> usize \<Rightarrow> heap res" where
  "set_queue h p q = modify (\<lambda>w. w\<lparr>w_queue := q\<rparr>) h p"

definition set_waker :: "heap \<Rightarrow> ptr \<Rightarrow> waiter_waker \<Rightarrow> heap res" where
  "set_waker h p k = modify (\<lambda>w. w\<lparr>w_waker := k\<rparr>) h p"

definition set_futex :: "heap \<Rightarrow> ptr \<Rightarrow> ptr \<Rightarrow> heap res" where
  "set_futex h p f = modify (\<lambda>w. w\<lparr>w_futex := f\<rparr>) h p"

section \<open>WaiterList\<close>

record waiter_list =
  wl_head :: ptr
  wl_tail :: ptr

definition waiter_list_new :: waiter_list where
  "waiter_list_new = \<lparr>wl_head = null, wl_tail = null\<rparr>"

text \<open>The loop of \<open>from_stack\<close>: follow \<open>prev\<close>, setting the \<open>next\<close> pointers on the way.\<close>

partial_function (option) from_stack_loop :: "heap \<Rightarrow> ptr \<Rightarrow> (heap \<times> ptr) res option" where
  "from_stack_loop h head =
     (case waiter_prev h head of
        Inl e \<Rightarrow> Some (Inl e)
      | Inr prev \<Rightarrow>
          if prev = null then Some (Inr (h, head))
          else (case set_next h prev head of
                  Inl e \<Rightarrow> Some (Inl e)
                | Inr h' \<Rightarrow> from_stack_loop h' prev))"

declare from_stack_loop.simps [code]

definition from_stack :: "heap \<Rightarrow> ptr \<Rightarrow> (heap \<times> waiter_list) res" where
  "from_stack h tail =
     (if tail \<noteq> null then
        bindR (total (from_stack_loop h tail)) (\<lambda>(h', head).
          Inr (h', \<lparr>wl_head = head, wl_tail = tail\<rparr>))
      else Inr (h, \<lparr>wl_head = tail, wl_tail = tail\<rparr>))"

definition append_list :: "heap \<Rightarrow> waiter_list \<Rightarrow> waiter_list \<Rightarrow> (heap \<times> waiter_list) res" where
  "append_list h self list =
     (if wl_head self = null \<and> wl_tail self = null then Inr (h, list)
      else bindR (set_next h (wl_tail self) (wl_head list)) (\<lambda>h.
           bindR (set_prev h (wl_head list) (wl_tail self)) (\<lambda>h.
             Inr (h, self\<lparr>wl_tail := wl_tail list\<rparr>))))"

definition append_stack :: "heap \<Rightarrow> waiter_list \<Rightarrow> ptr \<Rightarrow> (heap \<times> waiter_list) res" where
  "append_stack h self stack =
     bindR (from_stack h stack) (\<lambda>(h, list). append_list h self list)"

definition remove_waiter :: "heap \<Rightarrow> waiter_list \<Rightarrow> ptr \<Rightarrow> (heap \<times> waiter_list) res" where
  "remove_waiter h self waiter =
     bindR (waiter_prev h waiter) (\<lambda>prev.
     bindR (waiter_next h waiter) (\<lambda>nxt.
     bindR (if prev = null then
              Inr (h, if wl_head self = waiter then self\<lparr>wl_head := nxt\<rparr> else self)
            else mapR (\<lambda>h. (h, self)) (set_next h prev nxt)) (\<lambda>(h, self).
     if nxt = null then
       Inr (h, if wl_tail self = waiter then self\<lparr>wl_tail := prev\<rparr> else self)
     else mapR (\<lambda>h. (h, self)) (set_prev h nxt prev))))"

definition pop_front :: "heap \<Rightarrow> waiter_list \<Rightarrow> (heap \<times> waiter_list \<times> ptr option) res" where
  "pop_front h self =
     (if wl_head self = null then Inr (h, self, None)
      else let result = wl_head self in
        bindR (waiter_next h result) (\<lambda>nxt.
        let self = self\<lparr>wl_head := nxt\<rparr>;
            self = (if wl_tail self = result then self\<lparr>wl_tail := null\<rparr> else self) in
        bindR (waiter_next h result) (\<lambda>nxt.
        bindR (if nxt \<noteq> null then set_prev h nxt null else Inr h) (\<lambda>h.
        bindR (set_next h result null) (\<lambda>h.
          Inr (h, self, Some result))))))"

text \<open>The loop of \<open>pop_front_many\<close> stops after \<open>count\<close> links or at the end of the list.\<close>

fun skip_links :: "heap \<Rightarrow> ptr \<Rightarrow> nat \<Rightarrow> ptr res" where
  "skip_links h keep_head 0 = Inr keep_head"
| "skip_links h keep_head (Suc count) =
     (if keep_head \<noteq> null then
        bindR (waiter_next h keep_head) (\<lambda>nxt. skip_links h nxt count)
      else Inr keep_head)"

definition pop_front_many ::
  "heap \<Rightarrow> waiter_list \<Rightarrow> usize \<Rightarrow> (heap \<times> waiter_list \<times> waiter_list) res" where
  "pop_front_many h self count =
     (if count = usize_MAX then Inr (h, waiter_list_new, self)
      else
        bindR (skip_links h (wl_head self) (unat count)) (\<lambda>keep_head.
        if keep_head = null then Inr (h, waiter_list_new, self)
        else
          bindR (waiter_prev h keep_head) (\<lambda>ret_tail.
          if ret_tail = null then Inr (h, self, waiter_list_new)
          else
            let ret_head = wl_head self in
            bindR (set_next h ret_tail null) (\<lambda>h.
            bindR (set_prev h keep_head null) (\<lambda>h.
              Inr (h, self\<lparr>wl_head := keep_head\<rparr>, \<lparr>wl_head = ret_head, wl_tail = ret_tail\<rparr>))))))"

definition push_back :: "heap \<Rightarrow> waiter_list \<Rightarrow> ptr \<Rightarrow> (heap \<times> waiter_list) res" where
  "push_back h self waiter =
     (if wl_head self = null \<and> wl_tail self = null
      then Inr (h, \<lparr>wl_head = waiter, wl_tail = waiter\<rparr>)
      else bindR (set_next h (wl_tail self) waiter) (\<lambda>h.
           bindR (set_prev h waiter (wl_tail self)) (\<lambda>h.
             Inr (h, self\<lparr>wl_tail := waiter\<rparr>))))"

definition is_empty :: "waiter_list \<Rightarrow> bool" where
  "is_empty self \<longleftrightarrow> wl_head self = null"

text \<open>
  The borrowing iterator of a \<open>WaiterHandleList\<close> (\<open>for waiter in &list\<close>), and the loops over
  it: \<open>iter_list\<close> collects what it yields, so \<open>count()\<close> is the length of that.
\<close>

definition handle_iter_next :: "heap \<Rightarrow> waiter_list \<Rightarrow> (waiter_list \<times> ptr option) res" where
  "handle_iter_next h raw =
     (if wl_head raw \<noteq> null then
        bindR (waiter_next h (wl_head raw)) (\<lambda>nxt.
          let old_head = wl_head raw; raw = raw\<lparr>wl_head := nxt\<rparr>;
              raw = (if wl_head raw = null then raw\<lparr>wl_tail := null\<rparr> else raw)
          in Inr (raw, Some old_head))
      else Inr (raw, None))"

partial_function (option) iter_loop ::
  "heap \<Rightarrow> waiter_list \<Rightarrow> ptr list \<Rightarrow> ptr list res option" where
  "iter_loop h raw acc =
     (case handle_iter_next h raw of
        Inl e \<Rightarrow> Some (Inl e)
      | Inr r \<Rightarrow> (case snd r of
            None \<Rightarrow> Some (Inr acc)
          | Some w \<Rightarrow> iter_loop h (fst r) (acc @ [w])))"

declare iter_loop.simps [code]

definition iter_list :: "heap \<Rightarrow> waiter_list \<Rightarrow> ptr list res" where
  "iter_list h raw = total (iter_loop h raw [])"

text \<open>The consuming iterator pops from the front.\<close>

definition handle_into_iter_next ::
  "heap \<Rightarrow> waiter_list \<Rightarrow> (heap \<times> waiter_list \<times> ptr option) res" where
  "handle_into_iter_next h raw = pop_front h raw"

text \<open>
  \<open>Debug for WaiterList\<close> walks the list and asserts that its links agree; the entries it
  prints are the nodes.
\<close>

partial_function (option) debug_loop ::
  "heap \<Rightarrow> ptr \<Rightarrow> ptr \<Rightarrow> ptr list \<Rightarrow> ptr list res option" where
  "debug_loop h tail node acc =
     (case waiter_next h node of
        Inl e \<Rightarrow> Some (Inl e)
      | Inr nxt \<Rightarrow>
          if nxt = null then
            (if tail = node then Some (Inr (acc @ [node])) else Some (Inl Panic))
          else (case waiter_prev h nxt of
              Inl e \<Rightarrow> Some (Inl e)
            | Inr p \<Rightarrow> if node = p then debug_loop h tail nxt (acc @ [node])
                       else Some (Inl Panic)))"

declare debug_loop.simps [code]

definition debug_list :: "heap \<Rightarrow> waiter_list \<Rightarrow> ptr list res" where
  "debug_list h self =
     (if wl_head self = null then bindR (ensure (wl_tail self = null)) (\<lambda>_. Inr [])
      else bindR (waiter_prev h (wl_head self)) (\<lambda>p.
           bindR (ensure (p = null)) (\<lambda>_.
             total (debug_loop h (wl_tail self) (wl_head self) []))))"

section \<open>Reading and writing links\<close>

text \<open>
  The proofs read the heap through total projections; \<open>alive\<close> says that an access
  succeeds. The updates leave everything but one link as it was.
\<close>

definition alive :: "heap \<Rightarrow> ptr \<Rightarrow> bool" where
  "alive h p \<longleftrightarrow> p \<noteq> null \<and> h p \<noteq> None"

definition nxt :: "heap \<Rightarrow> ptr \<Rightarrow> ptr" where "nxt h p = w_next (the (h p))"
definition prv :: "heap \<Rightarrow> ptr \<Rightarrow> ptr" where "prv h p = w_prev (the (h p))"
definition fut :: "heap \<Rightarrow> ptr \<Rightarrow> ptr" where "fut h p = w_futex (the (h p))"
definition que :: "heap \<Rightarrow> ptr \<Rightarrow> nat" where "que h p = unat (w_queue (the (h p)))"
definition wkr :: "heap \<Rightarrow> ptr \<Rightarrow> waiter_waker" where "wkr h p = w_waker (the (h p))"
definition msg :: "heap \<Rightarrow> ptr \<Rightarrow> usize" where "msg h p = w_message (the (h p))"

definition put_next :: "heap \<Rightarrow> ptr \<Rightarrow> ptr \<Rightarrow> heap" where
  "put_next h p q = h(p \<mapsto> (the (h p))\<lparr>w_next := q\<rparr>)"

definition put_prev :: "heap \<Rightarrow> ptr \<Rightarrow> ptr \<Rightarrow> heap" where
  "put_prev h p q = h(p \<mapsto> (the (h p))\<lparr>w_prev := q\<rparr>)"

named_theorems link_simps

lemma deref_alive [simp]: "alive h p \<Longrightarrow> deref h p = Inr (the (h p))"
  by (auto simp: alive_def deref_def)

lemma access_alive [link_simps]:
  assumes "alive h p"
  shows "waiter_next h p = Inr (nxt h p)" and "waiter_prev h p = Inr (prv h p)"
    and "waiter_queue h p = Inr (w_queue (the (h p)))"
    and "waiter_get_waker h p = Inr (wkr h p)" and "waiter_futex h p = Inr (fut h p)"
    and "waiter_message h p = Inr (msg h p)"
    and "set_next h p q = Inr (put_next h p q)" and "set_prev h p q = Inr (put_prev h p q)"
  using assms
  by (simp_all add: waiter_next_def waiter_prev_def waiter_queue_def waiter_get_waker_def
      waiter_futex_def waiter_message_def set_next_def set_prev_def modify_def
      nxt_def prv_def wkr_def fut_def msg_def put_next_def put_prev_def)

lemma put_read [link_simps]:
  "nxt (put_next h p q) x = (if x = p then q else nxt h x)"
  "prv (put_next h p q) x = prv h x"
  "nxt (put_prev h p q) x = nxt h x"
  "prv (put_prev h p q) x = (if x = p then q else prv h x)"
  "alive (put_next h p q) x = (alive h x \<or> x = p \<and> p \<noteq> null)"
  "alive (put_prev h p q) x = (alive h x \<or> x = p \<and> p \<noteq> null)"
  by (auto simp: put_next_def put_prev_def nxt_def prv_def alive_def)

section \<open>Frames\<close>

text \<open>
  A list operation changes links only, and only of the nodes in the given set: the other
  nodes, and every node's futex, queue index, waker slot and message, stay.
\<close>

definition payload :: "waiter \<Rightarrow> ptr \<times> usize \<times> waiter_waker \<times> usize" where
  "payload w = (w_futex w, w_queue w, w_waker w, w_message w)"

definition links_only :: "heap \<Rightarrow> heap \<Rightarrow> ptr set \<Rightarrow> bool" where
  "links_only h h' A \<longleftrightarrow>
     (\<forall>p. p \<notin> A \<longrightarrow> h' p = h p) \<and> (\<forall>p. map_option payload (h' p) = map_option payload (h p))"

lemma links_only_refl [simp]: "links_only h h A"
  by (simp add: links_only_def)

lemma links_only_trans: "links_only h h' A \<Longrightarrow> links_only h' h'' B \<Longrightarrow> links_only h h'' (A \<union> B)"
  by (simp add: links_only_def)

lemma links_only_mono: "links_only h h' A \<Longrightarrow> A \<subseteq> B \<Longrightarrow> links_only h h' B"
  by (auto simp: links_only_def)

lemma links_only_chain: "links_only h h' A \<Longrightarrow> links_only h' h'' A \<Longrightarrow> links_only h h'' A"
  by (simp add: links_only_def)

lemma links_only_step:
  "links_only h h' A \<Longrightarrow> links_only h' h'' B \<Longrightarrow> A \<subseteq> C \<Longrightarrow> B \<subseteq> C \<Longrightarrow> links_only h h'' C"
  by (meson links_only_mono links_only_trans Un_least)

lemma links_only_put [link_simps]:
  "alive h p \<Longrightarrow> p \<in> A \<Longrightarrow> links_only h (put_next h p q) A"
  "alive h p \<Longrightarrow> p \<in> A \<Longrightarrow> links_only h (put_prev h p q) A"
  by (auto simp: links_only_def put_next_def put_prev_def payload_def alive_def)

lemma links_only_same:
  "links_only h h' A \<Longrightarrow> p \<notin> A \<Longrightarrow> h' p = h p"
  by (simp add: links_only_def)

lemma links_only_reads:
  assumes "links_only h h' A"
  shows "alive h' p = alive h p" and "(h' p = None) = (h p = None)"
    and "alive h p \<Longrightarrow> fut h' p = fut h p" and "alive h p \<Longrightarrow> que h' p = que h p"
    and "alive h p \<Longrightarrow> wkr h' p = wkr h p" and "alive h p \<Longrightarrow> msg h' p = msg h p"
proof -
  have "map_option payload (h' p) = map_option payload (h p)"
    using assms by (simp add: links_only_def)
  then show "alive h' p = alive h p" "(h' p = None) = (h p = None)"
    "alive h p \<Longrightarrow> fut h' p = fut h p" "alive h p \<Longrightarrow> que h' p = que h p"
    "alive h p \<Longrightarrow> wkr h' p = wkr h p" "alive h p \<Longrightarrow> msg h' p = msg h p"
    by (auto simp: alive_def fut_def que_def wkr_def msg_def payload_def map_option_case
        split: option.splits)
qed

section \<open>Lists on the heap\<close>

fun dls :: "heap \<Rightarrow> ptr \<Rightarrow> ptr list \<Rightarrow> ptr \<Rightarrow> bool" where
  "dls h a [] b = True"
| "dls h a (x # xs) b =
     (alive h x \<and> prv h x = a \<and> nxt h x = hd (xs @ [b]) \<and> dls h x xs b)"

definition dlist :: "heap \<Rightarrow> waiter_list \<Rightarrow> ptr list \<Rightarrow> bool" where
  "dlist h l xs \<longleftrightarrow> dls h null xs null \<and> distinct xs \<and>
     wl_head l = hd (xs @ [null]) \<and> wl_tail l = last (null # xs)"

text \<open>The inbox of a futex is a stack threaded through \<open>prev\<close>, the newest waiter on top.\<close>

fun is_stack :: "heap \<Rightarrow> ptr \<Rightarrow> ptr list \<Rightarrow> bool" where
  "is_stack h p [] = (p = null)"
| "is_stack h p (x # xs) = (p = x \<and> alive h x \<and> is_stack h (prv h x) xs)"

lemma dls_append:
  "dls h a (xs @ ys) b \<longleftrightarrow> dls h a xs (hd (ys @ [b])) \<and> dls h (last (a # xs)) ys b"
  by (induction xs arbitrary: a) auto

lemma dls_alive: "dls h a xs b \<Longrightarrow> x \<in> set xs \<Longrightarrow> alive h x"
  by (induction xs arbitrary: a) auto

lemma dls_cong:
  "(\<And>x. x \<in> set xs \<Longrightarrow> h' x = h x) \<Longrightarrow> dls h' a xs b = dls h a xs b"
  by (induction xs arbitrary: a) (auto simp: alive_def nxt_def prv_def)

lemma stack_cong:
  "(\<And>x. x \<in> set xs \<Longrightarrow> h' x = h x) \<Longrightarrow> is_stack h' p xs = is_stack h p xs"
  by (induction xs arbitrary: p) (auto simp: alive_def prv_def)

lemma stack_alive: "is_stack h p xs \<Longrightarrow> x \<in> set xs \<Longrightarrow> alive h x"
  by (induction xs arbitrary: p) auto

lemma stack_null: "is_stack h null xs \<longleftrightarrow> xs = []"
  by (cases xs) (auto simp: alive_def)

lemma stack_top: "is_stack h p xs \<Longrightarrow> p = hd (xs @ [null])"
  by (cases xs) auto

lemma dlist_alive: "dlist h l xs \<Longrightarrow> x \<in> set xs \<Longrightarrow> alive h x"
  by (auto simp: dlist_def dls_alive)

lemma dlist_cong:
  "(\<And>x. x \<in> set xs \<Longrightarrow> h' x = h x) \<Longrightarrow> dlist h' l xs = dlist h l xs"
  using dls_cong [of xs h' h null null] by (simp add: dlist_def)

lemma dlist_frame: "links_only h h' A \<Longrightarrow> dlist h l xs \<Longrightarrow> set xs \<inter> A = {} \<Longrightarrow> dlist h' l xs"
  using dlist_cong [of xs h' h l] by (auto simp: links_only_def)

lemma dls_frame: "links_only h h' A \<Longrightarrow> dls h a xs b \<Longrightarrow> set xs \<inter> A = {} \<Longrightarrow> dls h' a xs b"
  using dls_cong [of xs h' h a b] by (auto simp: links_only_def)

lemma stack_frame: "links_only h h' A \<Longrightarrow> is_stack h p xs \<Longrightarrow> set xs \<inter> A = {} \<Longrightarrow> is_stack h' p xs"
  using stack_cong [of xs h' h p] by (auto simp: links_only_def)

lemma dlist_Nil: "dlist h l [] \<longleftrightarrow> wl_head l = null \<and> wl_tail l = null"
  by (auto simp: dlist_def)

lemma dlist_new [simp]: "dlist h waiter_list_new []"
  by (simp add: dlist_Nil waiter_list_new_def)

lemma dlist_head: "dlist h l xs \<Longrightarrow> wl_head l = null \<longleftrightarrow> xs = []"
  by (cases xs) (auto simp: dlist_def alive_def)

lemma dlist_tail: "dlist h l xs \<Longrightarrow> wl_tail l = null \<longleftrightarrow> xs = []"
  by (cases xs rule: rev_cases) (auto simp: dlist_def alive_def dls_append)

lemma dls_put_next:
  "p \<notin> set xs \<Longrightarrow> dls (put_next h p q) a xs b = dls h a xs b"
  by (rule dls_cong) (metis fun_upd_other put_next_def)

lemma dls_put_prev:
  "p \<notin> set xs \<Longrightarrow> dls (put_prev h p q) a xs b = dls h a xs b"
  by (rule dls_cong) (metis fun_upd_other put_prev_def)

lemma stack_put_next:
  "p \<notin> set xs \<Longrightarrow> is_stack (put_next h p q) a xs = is_stack h a xs"
  by (rule stack_cong) (metis fun_upd_other put_next_def)

lemma stack_put_prev:
  "p \<notin> set xs \<Longrightarrow> is_stack (put_prev h p q) a xs = is_stack h a xs"
  by (rule stack_cong) (metis fun_upd_other put_prev_def)

lemma alive_null [simp]: "\<not> alive h null"
  by (simp add: alive_def)

lemma alive_not_null: "alive h p \<Longrightarrow> p \<noteq> null"
  by auto

section \<open>What the operations do\<close>

text \<open>A node outside every list, as \<open>pop_front\<close> leaves it and \<open>push_back\<close> needs it.\<close>

definition detached :: "heap \<Rightarrow> ptr \<Rightarrow> bool" where
  "detached h p \<longleftrightarrow> alive h p \<and> nxt h p = null \<and> prv h p = null"

lemma detached_dls: "detached h p \<longleftrightarrow> dls h null [p] null"
  by (auto simp: detached_def)

lemma detached_frame: "links_only h h' A \<Longrightarrow> p \<notin> A \<Longrightarrow> detached h' p = detached h p"
  by (simp add: detached_def links_only_def alive_def nxt_def prv_def)

lemma from_stack_loop_dls:
  "alive h x \<Longrightarrow> is_stack h (prv h x) ys \<Longrightarrow> dls h (prv h x) (x # zs) null \<Longrightarrow>
   distinct (rev ys @ x # zs) \<Longrightarrow>
   \<exists>h'. from_stack_loop h x = Some (Inr (h', hd (rev ys @ [x]))) \<and>
        dls h' null (rev ys @ x # zs) null \<and> links_only h h' (set ys)"
proof (induction ys arbitrary: h x zs)
  case Nil
  then show ?case
    by (subst from_stack_loop.simps) (auto simp: link_simps)
next
  case (Cons y ys)
  let ?h = "put_next h y x"
  from Cons.prems have y: "prv h x = y" "alive h y" "y \<noteq> null" "y \<notin> set (x # zs)"
    by (auto simp: alive_def)
  have keep: "is_stack ?h (prv ?h y) ys"
    using Cons.prems by (simp add: stack_put_next link_simps)
  have "dls ?h y (x # zs) null"
    using Cons.prems y by (auto simp: dls_put_next link_simps)
  then have dls: "dls ?h (prv ?h y) (y # x # zs) null"
    using y by (auto simp: link_simps)
  obtain h' where h': "from_stack_loop ?h y = Some (Inr (h', hd (rev ys @ [y])))"
    "dls h' null (rev ys @ y # x # zs) null" "links_only ?h h' (set ys)"
    using Cons.IH [of ?h y "x # zs"] keep dls Cons.prems(4) y by (auto simp: link_simps)
  have "from_stack_loop h x = from_stack_loop ?h y"
    using Cons.prems(1) y by (subst from_stack_loop.simps) (simp add: link_simps)
  moreover have "links_only h h' (set (y # ys))"
    by (rule links_only_step [of h ?h "{y}", OF _ h'(3)]) (auto simp: y link_simps)
  ultimately show ?case
    using h' by auto
qed

lemma from_stack_dlist:
  assumes "is_stack h p xs" "distinct xs" "xs \<noteq> [] \<Longrightarrow> nxt h (hd xs) = null"
  shows "\<exists>h' l. from_stack h p = Inr (h', l) \<and> dlist h' l (rev xs) \<and> links_only h h' (set xs)"
proof (cases xs)
  case Nil
  with assms show ?thesis by (auto simp: from_stack_def dlist_def)
next
  case (Cons x ys)
  with assms have x: "p = x" "alive h x" "is_stack h (prv h x) ys" "nxt h x = null" "x \<noteq> null"
    by (auto simp: alive_def)
  then obtain h' where "from_stack_loop h x = Some (Inr (h', hd (rev ys @ [x])))"
    "dls h' null (rev ys @ [x]) null" "links_only h h' (set ys)"
    using from_stack_loop_dls [of h x ys "[]"] assms(2) Cons by auto
  then show ?thesis
    using x Cons assms(2)
    by (auto simp: from_stack_def dlist_def intro: links_only_mono)
qed

lemma push_back_dlist:
  assumes l: "dlist h l xs" and p: "detached h p" "p \<notin> set xs"
  shows "\<exists>h' l'. push_back h l p = Inr (h', l') \<and> dlist h' l' (xs @ [p]) \<and>
    links_only h h' (insert p (set xs))"
proof (cases xs rule: rev_cases)
  case Nil
  with l p show ?thesis by (auto simp: push_back_def dlist_def detached_def)
next
  case (snoc ys y)
  have y: "alive h y" "wl_tail l = y" "wl_tail l \<noteq> null" "y \<notin> set ys" "y \<noteq> p" "alive h p"
    using l p snoc by (auto simp: dlist_def dls_append alive_def detached_def)
  let ?h1 = "put_next h y p" and ?h2 = "put_prev (put_next h y p) p y"
  have "push_back h l p = Inr (?h2, l\<lparr>wl_tail := p\<rparr>)"
    using y by (simp add: push_back_def link_simps)
  moreover have "dls ?h2 null (ys @ [y, p]) null"
  proof -
    have "dls ?h2 null ys y"
      using l p snoc y by (simp add: dls_put_prev dls_put_next dlist_def dls_append)
    then show ?thesis
      using l p snoc y by (auto simp: dls_append dlist_def link_simps detached_def)
  qed
  moreover have "links_only h ?h2 (insert p (set xs))"
    by (rule links_only_chain [of h ?h1]) (simp_all add: y snoc link_simps)
  ultimately show ?thesis
    using l p snoc by (auto simp: dlist_def)
qed

lemma pop_front_Nil: "dlist h l [] \<Longrightarrow> pop_front h l = Inr (h, l, None)"
  by (simp add: pop_front_def dlist_Nil)

lemma pop_front_Cons:
  assumes l: "dlist h l (x # xs)"
  shows "\<exists>h' l'. pop_front h l = Inr (h', l', Some x) \<and> dlist h' l' xs \<and> detached h' x \<and>
    links_only h h' (insert x (set xs))"
proof (cases xs)
  case Nil
  let ?h = "put_next h x null"
  from l Nil have x: "alive h x" "wl_head l = x" "wl_tail l = x" "x \<noteq> null" "nxt h x = null"
    "prv h x = null"
    by (auto simp: dlist_def alive_def)
  then have "pop_front h l = Inr (?h, l\<lparr>wl_head := null, wl_tail := null\<rparr>, Some x)"
    by (simp add: pop_front_def link_simps)
  then show ?thesis
    using x Nil by (auto simp: dlist_Nil detached_def link_simps)
next
  case (Cons y ys)
  let ?h1 = "put_prev h y null" and ?h2 = "put_next (put_prev h y null) x null"
  from l Cons have x: "alive h x" "wl_head l = x" "x \<noteq> null" "nxt h x = y" "prv h x = null"
    "x \<noteq> y" "wl_tail l \<noteq> x" and y: "alive h y" "y \<noteq> null" "y \<notin> set ys" "x \<notin> set ys"
    using last_in_set [of "y # ys"] by (auto simp: dlist_def dest: alive_not_null)
  then have "pop_front h l = Inr (?h2, l\<lparr>wl_head := y\<rparr>, Some x)"
    by (simp add: pop_front_def link_simps)
  moreover have "dls ?h2 null (y # ys) null"
  proof -
    have "dls ?h2 y ys null"
      using l Cons x y by (simp add: dls_put_prev dls_put_next dlist_def)
    then show ?thesis
      using l Cons x y by (auto simp: link_simps dlist_def)
  qed
  moreover have "links_only h ?h2 (insert x (set xs))"
    by (rule links_only_chain [of h ?h1]) (simp_all add: x y Cons link_simps)
  ultimately show ?thesis
    using l Cons x y by (auto simp: dlist_def detached_def link_simps)
qed

text \<open>How many waiters \<open>pop_front_many\<close> takes: \<open>usize::MAX\<close> means all of them.\<close>

definition taken :: "usize \<Rightarrow> ptr list \<Rightarrow> nat" where
  "taken count xs = (if count = usize_MAX then length xs else unat count)"

lemma skip_links_dls:
  "dls h a xs null \<Longrightarrow> skip_links h (hd (xs @ [null])) n = Inr (hd (drop n xs @ [null]))"
proof (induction n arbitrary: a xs)
  case 0
  then show ?case by simp
next
  case (Suc n)
  show ?case
  proof (cases xs)
    case (Cons x ys)
    with Suc.prems have "alive h x" "x \<noteq> null" "nxt h x = hd (ys @ [null])" "dls h x ys null"
      by (auto dest: alive_not_null)
    with Suc.IH [of x ys] Cons show ?thesis by (simp add: link_simps del: hd_append)
  qed simp
qed

lemma pop_front_many_dlist:
  assumes l: "dlist h l xs" and n_def: "n = taken count xs"
  shows "\<exists>h' l' r. pop_front_many h l count = Inr (h', l', r) \<and> dlist h' r (take n xs) \<and>
    dlist h' l' (drop n xs) \<and> links_only h h' (set xs)"
proof (cases "count = usize_MAX \<or> length xs \<le> n")
  case True
  then have "take n xs = xs" "drop n xs = []" "count \<noteq> usize_MAX \<Longrightarrow> n = unat count"
    by (auto simp: n_def taken_def)
  moreover have "skip_links h (wl_head l) n = Inr (hd (drop n xs @ [null]))"
    using l skip_links_dls [of h null xs n] by (simp add: dlist_def)
  ultimately have "pop_front_many h l count = Inr (h, waiter_list_new, l)"
    by (auto simp: pop_front_many_def)
  with l \<open>take n xs = xs\<close> \<open>drop n xs = []\<close> show ?thesis by auto
next
  case False
  then have n: "n = unat count" "count \<noteq> usize_MAX" "n < length xs"
    by (auto simp: n_def taken_def)
  obtain ys z zs where xs: "xs = ys @ z # zs" "take n xs = ys" "drop n xs = z # zs"
    using n(3) id_take_nth_drop [of n xs] Cons_nth_drop_Suc [of n xs] by metis
  have z: "alive h z" "prv h z = last (null # ys)" "z \<noteq> null"
    using l xs(1) by (auto simp: dlist_def dls_append)
  have "skip_links h (wl_head l) n = Inr (hd (drop n xs @ [null]))"
    using l skip_links_dls [of h null xs n] by (simp add: dlist_def del: hd_append)
  then have skip: "skip_links h (wl_head l) (unat count) = Inr z"
    unfolding xs(3) using n(1) by simp
  show ?thesis
  proof (cases ys rule: rev_cases)
    case Nil
    with skip z n(2) have "pop_front_many h l count = Inr (h, l, waiter_list_new)"
      by (simp add: pop_front_many_def link_simps)
    with l xs Nil show ?thesis by auto
  next
    case (snoc us y)
    have y: "alive h y" "y \<noteq> null" "y \<noteq> z"
      using l xs(1) snoc by (auto simp: dlist_def dls_append)
    let ?h1 = "put_next h y null" and ?h2 = "put_prev (put_next h y null) z null"
    let ?l = "l\<lparr>wl_head := z\<rparr>" and ?r = "\<lparr>wl_head = wl_head l, wl_tail = y\<rparr>"
    have "pop_front_many h l count = Inr (?h2, ?l, ?r)"
      using skip z y snoc n(2) by (simp add: pop_front_many_def link_simps Let_def)
    moreover have "links_only h ?h2 (set xs)"
      by (rule links_only_chain [of h ?h1]) (simp_all add: y z xs snoc link_simps)
    moreover have "dlist ?h2 ?l (z # zs)"
      using l xs(1) snoc z y
      by (auto simp: dlist_def dls_append dls_put_next dls_put_prev link_simps)
    moreover have "dlist ?h2 ?r ys"
      using l xs(1) snoc z y
      by (auto simp: dlist_def dls_append dls_put_next dls_put_prev link_simps)
    ultimately show ?thesis
      using xs by auto
  qed
qed

lemma remove_waiter_dlist:
  assumes l: "dlist h l (ys @ w # zs)"
  shows "\<exists>h' l'. remove_waiter h l w = Inr (h', l') \<and> dlist h' l' (ys @ zs) \<and>
    links_only h h' (set (ys @ zs))"
proof -
  have w: "alive h w" "prv h w = last (null # ys)" "nxt h w = hd (zs @ [null])"
    using l by (auto simp: dlist_def dls_append)
  define h1 where "h1 = (if ys = [] then h else put_next h (last ys) (nxt h w))"
  define h2 where "h2 = (if zs = [] then h1 else put_prev h1 (hd zs) (prv h w))"
  define l1 where "l1 = (if ys = [] then l\<lparr>wl_head := nxt h w\<rparr> else l)"
  define l2 where "l2 = (if zs = [] then l1\<lparr>wl_tail := prv h w\<rparr> else l1)"
  have y: "ys \<noteq> [] \<Longrightarrow> alive h (last ys)" "ys \<noteq> [] \<Longrightarrow> last ys \<noteq> null"
    using l dlist_alive [OF l, of "last ys"] by auto
  have z: "zs \<noteq> [] \<Longrightarrow> alive h (hd zs)" "zs \<noteq> [] \<Longrightarrow> hd zs \<noteq> null"
    using l dlist_alive [OF l, of "hd zs"] by auto
  have head: "ys = [] \<Longrightarrow> wl_head l = w" and tail: "zs = [] \<Longrightarrow> wl_tail l = w"
    using l by (auto simp: dlist_def)
  have z1: "zs \<noteq> [] \<Longrightarrow> alive h1 (hd zs)"
    using z y by (auto simp: h1_def link_simps)
  have "remove_waiter h l w = Inr (h2, l2)"
    using w y z z1 head tail
    by (auto simp: remove_waiter_def link_simps h1_def h2_def l1_def l2_def)
  moreover have "links_only h h2 (set (ys @ zs))"
  proof (rule links_only_chain [of h h1])
    show "links_only h h1 (set (ys @ zs))"
      using y by (auto simp: h1_def link_simps)
    show "links_only h1 h2 (set (ys @ zs))"
      using z1 by (auto simp: h2_def link_simps)
  qed
  moreover have "dls h2 null (ys @ zs) null"
  proof -
    have "dls h1 null ys (hd (zs @ [null]))"
    proof (cases ys rule: rev_cases)
      case (snoc us u)
      with l w show ?thesis
        by (auto simp: h1_def dlist_def dls_append dls_put_next link_simps)
    qed simp
    moreover have "zs \<noteq> [] \<Longrightarrow> hd zs \<notin> set ys" "ys \<noteq> [] \<Longrightarrow> last ys \<notin> set zs"
      using l by (auto simp: dlist_def disjoint_iff)
    ultimately have ys: "dls h2 null ys (hd (zs @ [null]))"
      by (auto simp: h2_def dls_put_prev)
    have "dls h1 w zs null"
      using l \<open>ys \<noteq> [] \<Longrightarrow> last ys \<notin> set zs\<close>
      by (auto simp: h1_def dlist_def dls_append dls_put_next)
    then have "dls h2 (last (null # ys)) zs null"
      using l w by (cases zs) (auto simp: h2_def dls_put_prev link_simps dlist_def)
    with ys show ?thesis by (auto simp: dls_append)
  qed
  moreover have "wl_head l2 = hd ((ys @ zs) @ [null])" "wl_tail l2 = last (null # ys @ zs)"
    using l w by (auto simp: l1_def l2_def dlist_def)
  ultimately show ?thesis
    using l by (auto simp: dlist_def)
qed

lemma remove_waiter_detached:
  assumes "dlist h l xs" "detached h w" "w \<notin> set xs"
  shows "remove_waiter h l w = Inr (h, l)"
proof -
  have "wl_head l \<noteq> w" "wl_tail l \<noteq> w"
    using assms by (auto simp: dlist_def detached_def split: if_splits dest: hd_in_set last_in_set)
  with assms show ?thesis
    by (auto simp: remove_waiter_def detached_def link_simps)
qed

lemma append_list_dlist:
  assumes l: "dlist h l xs" and m: "dlist h m ys" and ys: "ys \<noteq> []" "set xs \<inter> set ys = {}"
  shows "\<exists>h' l'. append_list h l m = Inr (h', l') \<and> dlist h' l' (xs @ ys) \<and>
    links_only h h' (set (xs @ ys))"
proof (cases xs rule: rev_cases)
  case Nil
  with l m show ?thesis by (auto simp: append_list_def dlist_Nil)
next
  case (snoc us u)
  obtain v vs where v: "ys = v # vs" using ys by (cases ys) auto
  have uv: "alive h u" "u \<noteq> null" "alive h v" "wl_tail l = u" "wl_head m = v" "u \<noteq> v"
    "u \<notin> set us" "u \<notin> set vs" "v \<notin> set us" "v \<notin> set vs"
    using l m snoc v ys by (auto simp: dlist_def dls_append)
  let ?h1 = "put_next h u v" and ?h2 = "put_prev (put_next h u v) v u"
  have "append_list h l m = Inr (?h2, l\<lparr>wl_tail := wl_tail m\<rparr>)"
    using uv by (simp add: append_list_def link_simps)
  moreover have "links_only h ?h2 (set (xs @ ys))"
    by (rule links_only_chain [of h ?h1]) (simp_all add: uv v snoc link_simps)
  moreover have "dls ?h2 null (us @ u # v # vs) null"
    using l m snoc v uv
    by (auto simp: dlist_def dls_append dls_put_next dls_put_prev link_simps)
  ultimately show ?thesis
    using l m ys snoc v by (auto simp: dlist_def)
qed

lemma iter_loop_dls:
  "dls h a xs null \<Longrightarrow> wl_head raw = hd (xs @ [null]) \<Longrightarrow>
     iter_loop h raw acc = Some (Inr (acc @ xs))"
proof (induction xs arbitrary: a raw acc)
  case Nil
  then show ?case by (subst iter_loop.simps) (simp add: handle_iter_next_def)
next
  case (Cons x xs)
  then have x: "alive h x" "x \<noteq> null" "nxt h x = hd (xs @ [null])" "dls h x xs null"
    by (auto dest: alive_not_null)
  have "iter_loop h raw' (acc @ [x]) = Some (Inr (acc @ x # xs))"
    if "wl_head raw' = hd (xs @ [null])" for raw'
    using Cons.IH [OF x(4) that, of "acc @ [x]"] by simp
  with x Cons.prems(2) show ?case
    by (subst iter_loop.simps)
      (auto simp: handle_iter_next_def link_simps Let_def simp del: hd_append)
qed

lemma iter_list_dlist: "dlist h l xs \<Longrightarrow> iter_list h l = Inr xs"
  using iter_loop_dls [of h null xs l "[]"] by (simp add: iter_list_def dlist_def del: hd_append)

text \<open>A heap and a list head determine the list.\<close>

lemma dls_unique:
  "dls h a xs null \<Longrightarrow> dls h b ys null \<Longrightarrow> hd (xs @ [null]) = hd (ys @ [null]) \<Longrightarrow> xs = ys"
proof (induction xs arbitrary: a b ys)
  case Nil
  then show ?case by (cases ys) auto
next
  case (Cons x xs)
  show ?case
  proof (cases ys)
    case Nil
    with Cons.prems show ?thesis by auto
  next
    case (Cons y zs)
    with Cons.prems have "x = y" "dls h x xs null" "dls h x zs null"
      "hd (xs @ [null]) = hd (zs @ [null])"
      by auto
    with Cons.IH [of x x zs] Cons show ?thesis by simp
  qed
qed

lemma dlist_unique: "dlist h l xs \<Longrightarrow> dlist h l ys \<Longrightarrow> xs = ys"
  using dls_unique by (auto simp: dlist_def simp del: hd_append)

lemma debug_loop_dls:
  "dls h a (x # xs) null \<Longrightarrow>
     debug_loop h (last (x # xs)) x acc = Some (Inr (acc @ x # xs))"
proof (induction xs arbitrary: a x acc)
  case Nil
  then show ?case by (subst debug_loop.simps) (simp add: link_simps)
next
  case (Cons y ys)
  then have "alive h x" "nxt h x = y" "y \<noteq> null" "alive h y" "prv h y = x" "dls h x (y # ys) null"
    by (auto dest: alive_not_null)
  with Cons.IH [of x y "acc @ [x]"] show ?case
    by (subst debug_loop.simps) (simp add: link_simps)
qed

lemma debug_list_dlist:
  assumes "dlist h l xs"
  shows "debug_list h l = Inr xs"
proof (cases xs)
  case Nil
  with assms show ?thesis by (simp add: debug_list_def dlist_Nil)
next
  case (Cons x ys)
  with assms have "alive h x" "wl_head l = x" "x \<noteq> null" "prv h x = null"
    "dls h null (x # ys) null" "wl_tail l = last (x # ys)"
    by (auto simp: dlist_def dest: alive_not_null)
  with debug_loop_dls [of h null x ys "[]"] Cons show ?thesis
    by (simp add: debug_list_def link_simps)
qed

section \<open>The interface to the futex\<close>

text \<open>
  What the futex relies on: queues of nodes over a shared heap. Each operation is described
  by its effect on the list a queue represents, and by its frame: queues of other nodes keep
  their contents.
\<close>

locale intrusive_queue =
  fixes rep :: "'h \<Rightarrow> 'l \<Rightarrow> 'p list \<Rightarrow> bool"
    and free :: "'h \<Rightarrow> 'p \<Rightarrow> bool"
    and frame :: "'h \<Rightarrow> 'h \<Rightarrow> 'p set \<Rightarrow> bool"
    and push :: "'h \<Rightarrow> 'l \<Rightarrow> 'p \<Rightarrow> ('h \<times> 'l) res"
    and pop :: "'h \<Rightarrow> 'l \<Rightarrow> ('h \<times> 'l \<times> 'p option) res"
    and remove :: "'h \<Rightarrow> 'l \<Rightarrow> 'p \<Rightarrow> ('h \<times> 'l) res"
  assumes rep_frame: "frame h h' A \<Longrightarrow> rep h l xs \<Longrightarrow> set xs \<inter> A = {} \<Longrightarrow> rep h' l xs"
    and frame_step: "frame h h' A \<Longrightarrow> frame h' h'' B \<Longrightarrow> A \<subseteq> C \<Longrightarrow> B \<subseteq> C \<Longrightarrow> frame h h'' C"
    and rep_distinct: "rep h l xs \<Longrightarrow> distinct xs"
    and push_rep: "rep h l xs \<Longrightarrow> free h p \<Longrightarrow> p \<notin> set xs \<Longrightarrow>
      \<exists>h' l'. push h l p = Inr (h', l') \<and> rep h' l' (xs @ [p]) \<and> frame h h' (insert p (set xs))"
    and pop_Nil: "rep h l [] \<Longrightarrow> pop h l = Inr (h, l, None)"
    and pop_Cons: "rep h l (x # xs) \<Longrightarrow>
      \<exists>h' l'. pop h l = Inr (h', l', Some x) \<and> rep h' l' xs \<and> free h' x \<and>
        frame h h' (insert x (set xs))"
    and remove_rep: "rep h l (xs @ x # ys) \<Longrightarrow>
      \<exists>h' l'. remove h l x = Inr (h', l') \<and> rep h' l' (xs @ ys) \<and> frame h h' (set (xs @ ys))"
    and remove_free: "rep h l xs \<Longrightarrow> free h x \<Longrightarrow> x \<notin> set xs \<Longrightarrow> remove h l x = Inr (h, l)"
begin

text \<open>Moving the head of one queue to the back of another, as \<open>enqueue\<close> does.\<close>

lemma move_head:
  assumes "rep h l (x # xs)" "rep h m ys" "set (x # xs) \<inter> set ys = {}"
  obtains h1 l1 h2 m2 where
    "pop h l = Inr (h1, l1, Some x)" "push h1 m x = Inr (h2, m2)"
    "rep h2 l1 xs" "rep h2 m2 (ys @ [x])"
    "frame h h1 (set (x # xs))" "frame h h2 (set (x # xs) \<union> set ys)"
proof -
  obtain h1 l1 where 1: "pop h l = Inr (h1, l1, Some x)" "rep h1 l1 xs" "free h1 x"
    "frame h h1 (insert x (set xs))"
    using pop_Cons [OF assms(1)] by blast
  have "rep h1 m ys"
    using rep_frame [OF 1(4) assms(2)] assms(3) by auto
  then obtain h2 m2 where 2: "push h1 m x = Inr (h2, m2)" "rep h2 m2 (ys @ [x])"
    "frame h1 h2 (insert x (set ys))"
    using push_rep [of h1 m ys x] 1(3) assms(3) by auto
  have "rep h2 l1 xs"
    using rep_frame [OF 2(3) 1(2)] rep_distinct [OF assms(1)] assms(3) by auto
  moreover have "frame h h2 (set (x # xs) \<union> set ys)"
    by (rule frame_step [OF 1(4) 2(3)]) auto
  moreover have "frame h h1 (set (x # xs))"
    using 1(4) by simp
  ultimately show ?thesis
    using 1(1) 2(1,2) by (intro that)
qed

text \<open>What is pushed at the back of an empty queue is what is popped.\<close>

lemma push_pop:
  assumes "rep h l []" "free h p"
  obtains h' l' h'' l'' where "push h l p = Inr (h', l')" "pop h' l' = Inr (h'', l'', Some p)"
    "rep h'' l'' []" "free h'' p"
proof -
  obtain h' l' where 1: "push h l p = Inr (h', l')" "rep h' l' [p]"
    using push_rep [OF assms] by auto
  from pop_Cons [OF 1(2)] obtain h'' l'' where
    "pop h' l' = Inr (h'', l'', Some p)" "rep h'' l'' []" "free h'' p" by metis
  with 1(1) show ?thesis by (rule that)
qed

end

interpretation wl: intrusive_queue dlist detached links_only push_back pop_front remove_waiter
proof (unfold_locales, goal_cases)
  case (1 h h' A l xs) then show ?case by (rule dlist_frame)
next
  case (2 h h' A h'' B C) then show ?case by (rule links_only_step)
next
  case (3 h l xs) then show ?case by (simp add: dlist_def)
next
  case (4 h l xs p) then show ?case by (rule push_back_dlist)
next
  case (5 h l) then show ?case by (rule pop_front_Nil)
next
  case (6 h l x xs) then show ?case by (rule pop_front_Cons)
next
  case (7 h l xs x ys) then show ?case by (rule remove_waiter_dlist)
next
  case (8 h l xs x) then show ?case by (rule remove_waiter_detached)
qed

section \<open>The list as a sequence\<close>

text \<open>
  What the iterators see of a list: the borrowing iterator and the debug printer both yield
  the represented sequence, so a statement about \<open>dlist\<close> is one about what the code reads.
\<close>

text \<open>
  \<open>from_stack\<close> turns the stack of an inbox, linked by \<open>prev\<close> from the newest waiter,
  into a list from the oldest to the newest: both directions of the links agree, nothing but
  links is written, and the loop ends.
\<close>

theorem from_stack_oldest_first:
  assumes "is_stack h p xs" "distinct xs" "xs \<noteq> [] \<Longrightarrow> nxt h (hd xs) = null"
  shows "\<exists>h' l. from_stack h p = Inr (h', l) \<and> iter_list h' l = Inr (rev xs) \<and>
    debug_list h' l = Inr (rev xs) \<and> links_only h h' (set xs)"
  using from_stack_dlist [OF assms] iter_list_dlist debug_list_dlist by blast

text \<open>Three waiters pushed on an inbox, at the addresses 8, 16 and 24.\<close>

definition stack_heap :: heap where
  "stack_heap = Map.empty(8 \<mapsto> waiter_new 100 1 0, 16 \<mapsto> (waiter_new 100 2 0)\<lparr>w_prev := 8\<rparr>,
     24 \<mapsto> (waiter_new 100 3 0)\<lparr>w_prev := 16\<rparr>)"

theorem from_stack_oldest_first_witness:
  "\<exists>h' l. from_stack stack_heap 24 = Inr (h', l) \<and> iter_list h' l = Inr [8, 16, 24]"
proof -
  have "is_stack stack_heap 24 [24, 16, 8]" "distinct [24, 16, 8 :: ptr]"
    "nxt stack_heap (hd [24, 16, 8]) = null"
    by (simp_all add: stack_heap_def alive_def prv_def nxt_def waiter_new_def)
  from from_stack_oldest_first [OF this] show ?thesis by auto
qed

text \<open>
  \<open>pop_front_many\<close> splits the list: the result is the first \<open>count\<close> waiters, or all of them
  for \<open>usize::MAX\<close> or a count beyond the length, and the rest stays, in order.
\<close>

theorem pop_front_many_splits:
  assumes "dlist h l xs"
  shows "\<exists>h' rest front. pop_front_many h l count = Inr (h', rest, front) \<and>
    iter_list h' front = Inr (if count = usize_MAX then xs else take (unat count) xs) \<and>
    iter_list h' rest = Inr (if count = usize_MAX then [] else drop (unat count) xs) \<and>
    links_only h h' (set xs)"
  using pop_front_many_dlist [OF assms refl, of count] iter_list_dlist
  by (fastforce simp: taken_def)

text \<open>The same three waiters in a list.\<close>

definition list_heap :: heap where
  "list_heap = Map.empty(8 \<mapsto> (waiter_new 100 1 0)\<lparr>w_next := 16\<rparr>,
     16 \<mapsto> (waiter_new 100 2 0)\<lparr>w_prev := 8, w_next := 24\<rparr>,
     24 \<mapsto> (waiter_new 100 3 0)\<lparr>w_prev := 16\<rparr>)"

lemma list_heap_dlist: "dlist list_heap \<lparr>wl_head = 8, wl_tail = 24\<rparr> [8, 16, 24]"
  by (simp add: dlist_def list_heap_def alive_def prv_def nxt_def waiter_new_def)

theorem pop_front_many_splits_witness:
  "\<exists>h' rest front. pop_front_many list_heap \<lparr>wl_head = 8, wl_tail = 24\<rparr> 2 = Inr (h', rest, front) \<and>
     iter_list h' front = Inr [8, 16] \<and> iter_list h' rest = Inr [24]"
  using pop_front_many_splits [OF list_heap_dlist, of 2] by (auto simp: usize_MAX_def)

text \<open>
  \<open>remove\<close> unlinks exactly the given waiter, wherever it is in the list, and does nothing
  for a waiter that was popped before.
\<close>

theorem remove_unlinks:
  assumes "dlist h l xs" "w \<in> set xs \<or> detached h w"
  shows "\<exists>h' l'. remove_waiter h l w = Inr (h', l') \<and> iter_list h' l' = Inr (remove1 w xs) \<and>
    links_only h h' (set xs - {w})"
proof (cases "w \<in> set xs")
  case True
  then obtain ys zs where xs: "xs = ys @ w # zs" "w \<notin> set ys"
    using split_list_first by metis
  then have rm: "remove1 w xs = ys @ zs" by (simp add: remove1_append)
  have "w \<notin> set zs" using assms(1) xs by (auto simp: dlist_def)
  with xs have A: "set (ys @ zs) = set xs - {w}" by auto
  obtain h' l' where "remove_waiter h l w = Inr (h', l')" "dlist h' l' (ys @ zs)"
    "links_only h h' (set (ys @ zs))"
    using remove_waiter_dlist assms(1) xs(1) by blast
  then show ?thesis
    using iter_list_dlist unfolding rm A by blast
next
  case False
  then have "remove_waiter h l w = Inr (h, l)" "remove1 w xs = xs"
    using assms remove_waiter_detached by (auto simp: remove1_idem)
  then show ?thesis using iter_list_dlist [OF assms(1)] by simp
qed

theorem remove_unlinks_witness:
  "\<exists>h' l'. remove_waiter list_heap \<lparr>wl_head = 8, wl_tail = 24\<rparr> 16 = Inr (h', l') \<and>
     iter_list h' l' = Inr [8, 24]"
  using remove_unlinks [OF list_heap_dlist, of 16] by auto

end
