(* ===== verification/Futex.thy ===== *)
theory Futex imports Waiter_List begin

text \<open>
  \<open>src/futex/mod.rs\<close>: the futex, a word (the atom) and an inbox of new waiters in one
  double-wide atomic, and an array of queues behind a reader-writer lock and an
  \<open>AtomicRefCell\<close>. An operation below is one atomic access together with the plain code that
  follows it; a loop around a weak compare-exchange is given by its iteration. The memory a
  program sees is a \<open>world\<close>: the heap of waiters, the futexes by address, and the log of
  wakers cloned, woken and dropped.
\<close>

section \<open>State\<close>

text \<open>
  The standard library's \<open>RwLock\<close> is the set of tasks that hold a read guard and the task
  that holds the write guard. It is never poisoned where no holder panics.
\<close>

record raw_futex =
  futex_atom :: raw_futex_atom
  rw_readers :: "tid set"
  rw_writer :: "tid option"
  cell_state :: usize
  queues :: "waiter_list list"

record world =
  heap :: heap
  futexes :: "ptr \<Rightarrow> raw_futex option"
  clones :: "copy_waker list"
  wakes :: "copy_waker list"
  drops :: "copy_waker list"

definition futex_new :: "usize \<Rightarrow> nat \<Rightarrow> raw_futex" where
  "futex_new atom n =
     \<lparr>futex_atom = \<lparr>fa_atom = atom, fa_inbox = null\<rparr>, rw_readers = {}, rw_writer = None,
      cell_state = refcell_new, queues = replicate n waiter_list_new\<rparr>"

definition get_futex :: "world \<Rightarrow> ptr \<Rightarrow> raw_futex res" where
  "get_futex W f = (case futexes W f of None \<Rightarrow> Inl Bad_Pointer | Some fx \<Rightarrow> Inr fx)"

definition put_futex :: "world \<Rightarrow> ptr \<Rightarrow> raw_futex \<Rightarrow> world" where
  "put_futex W f fx = W\<lparr>futexes := (futexes W)(f \<mapsto> fx)\<rparr>"

section \<open>Operations on the atom\<close>

definition futex_load :: "ordering_t \<Rightarrow> world \<Rightarrow> ptr \<Rightarrow> raw_futex_atom res" where
  "futex_load o' W f = bindR (get_futex W f) (\<lambda>fx. cell_load (ORDERING o') (futex_atom fx))"

text \<open>\<open>RawFutex::cmpxchg_weak\<close>.\<close>

definition raw_cmpxchg_weak_on ::
  "(ordering \<Rightarrow> ordering \<Rightarrow> bool) \<Rightarrow> bool \<Rightarrow> ordering_t \<Rightarrow> ordering_t \<Rightarrow> world \<Rightarrow> ptr \<Rightarrow> raw_futex_atom \<Rightarrow>
     raw_futex_atom \<Rightarrow> (bool \<times> raw_futex_atom \<times> world) res" where
  "raw_cmpxchg_weak_on accepts spurious success failure W f current new =
     bindR (get_futex W f) (\<lambda>fx.
     bindR (cell_cmpxchg_weak_on accepts spurious (ORDERING success) (ORDERING failure)
              (futex_atom fx) current new) (\<lambda>(ok, current, v).
       Inr (ok, current, put_futex W f (fx\<lparr>futex_atom := v\<rparr>))))"

definition raw_cmpxchg_weak ::
  "bool \<Rightarrow> ordering_t \<Rightarrow> ordering_t \<Rightarrow> world \<Rightarrow> ptr \<Rightarrow> raw_futex_atom \<Rightarrow> raw_futex_atom \<Rightarrow>
     (bool \<times> raw_futex_atom \<times> world) res" where
  "raw_cmpxchg_weak = raw_cmpxchg_weak_on cas_orders"

text \<open>\<open>Futex::cmpxchg_weak\<close>; \<open>new\<close> is the encoded atom.\<close>

definition futex_cmpxchg_weak_on ::
  "(ordering \<Rightarrow> ordering \<Rightarrow> bool) \<Rightarrow> bool \<Rightarrow> ordering_t \<Rightarrow> ordering_t \<Rightarrow> world \<Rightarrow> ptr \<Rightarrow> raw_futex_atom \<Rightarrow>
     usize \<Rightarrow> (bool \<times> raw_futex_atom \<times> world) res" where
  "futex_cmpxchg_weak_on accepts spurious success failure W f current new =
     raw_cmpxchg_weak_on accepts spurious success failure W f current
       \<lparr>fa_atom = new, fa_inbox = fa_inbox current\<rparr>"

definition futex_cmpxchg_weak ::
  "bool \<Rightarrow> ordering_t \<Rightarrow> ordering_t \<Rightarrow> world \<Rightarrow> ptr \<Rightarrow> raw_futex_atom \<Rightarrow> usize \<Rightarrow>
     (bool \<times> raw_futex_atom \<times> world) res" where
  "futex_cmpxchg_weak = futex_cmpxchg_weak_on cas_orders"

section \<open>Waiters\<close>

text \<open>
  \<open>Futex::waiter\<close> builds a waiter that \<open>pin_mut!\<close> pins in the frame of the async function:
  the address is the environment's, and it must be free. \<open>Waiter::drop\<close> ends its life.
\<close>

definition new_waiter :: "world \<Rightarrow> ptr \<Rightarrow> usize \<Rightarrow> usize \<Rightarrow> ptr \<Rightarrow> world option" where
  "new_waiter W f message queue addr =
     (if addr \<noteq> null \<and> heap W addr = None
      then Some (W\<lparr>heap := (heap W)(addr \<mapsto> waiter_new f message queue)\<rparr>) else None)"

definition drop_waker :: "world \<Rightarrow> copy_waker \<Rightarrow> world" where
  "drop_waker W k = W\<lparr>drops := drops W @ [k]\<rparr>"

definition clone_waker :: "world \<Rightarrow> copy_waker \<Rightarrow> world" where
  "clone_waker W k = W\<lparr>clones := clones W @ [k]\<rparr>"

definition waiter_drop :: "world \<Rightarrow> ptr \<Rightarrow> world res" where
  "waiter_drop W w =
     bindR (waiter_get_waker (heap W) w) (\<lambda>k.
       let W = (case k of WakerWaiting waker \<Rightarrow> drop_waker W waker | _ \<Rightarrow> W)
       in Inr (W\<lparr>heap := (heap W)(w := None)\<rparr>))"

text \<open>
  \<open>Waiter::wake\<close>: the swap of the waker slot, and then the call of the waker it returned.
\<close>

definition wake_swap :: "world \<Rightarrow> ptr \<Rightarrow> (copy_waker \<times> world) res" where
  "wake_swap W w =
     bindR (waiter_get_waker (heap W) w) (\<lambda>old.
     bindR (set_waker (heap W) w WakerDone) (\<lambda>h.
       case old of
         WakerWaiting waker \<Rightarrow> Inr (waker, W\<lparr>heap := h\<rparr>)
       | _ \<Rightarrow> Inl Panic))"

definition wake_call :: "world \<Rightarrow> copy_waker \<Rightarrow> world" where
  "wake_call W k = W\<lparr>wakes := wakes W @ [k]\<rparr>"

section \<open>Guards\<close>

text \<open>
  \<open>Futex::lock\<close> takes the read lock; it blocks (\<open>None\<close>) while a writer holds the lock. The
  write lock is taken by a cancellation.
\<close>

definition futex_lock :: "tid \<Rightarrow> world \<Rightarrow> ptr \<Rightarrow> world res option" where
  "futex_lock t W f =
     (case get_futex W f of
        Inl e \<Rightarrow> Some (Inl e)
      | Inr fx \<Rightarrow> if rw_writer fx \<noteq> None then None
                 else Some (Inr (put_futex W f (fx\<lparr>rw_readers := insert t (rw_readers fx)\<rparr>))))"

definition futex_unlock :: "tid \<Rightarrow> world \<Rightarrow> ptr \<Rightarrow> world res" where
  "futex_unlock t W f =
     bindR (get_futex W f) (\<lambda>fx. Inr (put_futex W f (fx\<lparr>rw_readers := rw_readers fx - {t}\<rparr>)))"

definition write_lock :: "tid \<Rightarrow> world \<Rightarrow> ptr \<Rightarrow> world res option" where
  "write_lock t W f =
     (case get_futex W f of
        Inl e \<Rightarrow> Some (Inl e)
      | Inr fx \<Rightarrow> if rw_writer fx \<noteq> None \<or> rw_readers fx \<noteq> {} then None
                 else Some (Inr (put_futex W f (fx\<lparr>rw_writer := Some t\<rparr>))))"

definition write_unlock :: "tid \<Rightarrow> world \<Rightarrow> ptr \<Rightarrow> world res" where
  "write_unlock t W f =
     bindR (get_futex W f) (\<lambda>fx. Inr (put_futex W f (fx\<lparr>rw_writer := None\<rparr>)))"

text \<open>\<open>FutexWaitersGuard::lock\<close> borrows the queues, and panics if they are borrowed.\<close>

definition queue_lock :: "world \<Rightarrow> ptr \<Rightarrow> world res" where
  "queue_lock W f =
     bindR (get_futex W f) (\<lambda>fx.
     bindR (borrow_mut (cell_state fx)) (\<lambda>c. Inr (put_futex W f (fx\<lparr>cell_state := c\<rparr>))))"

definition queue_unlock :: "world \<Rightarrow> ptr \<Rightarrow> world res" where
  "queue_unlock W f =
     bindR (get_futex W f) (\<lambda>fx.
     bindR (refmut_drop (cell_state fx)) (\<lambda>c. Inr (put_futex W f (fx\<lparr>cell_state := c\<rparr>))))"

section \<open>Operations on the queues\<close>

text \<open>\<open>RawFutex::enqueue\<close>: unstack the inbox and push every waiter on the queue it names.\<close>

partial_function (option) enqueue_loop ::
  "heap \<Rightarrow> waiter_list \<Rightarrow> waiter_list list \<Rightarrow> (heap \<times> waiter_list list) res option" where
  "enqueue_loop h list qs =
     (case pop_front h list of
        Inl e \<Rightarrow> Some (Inl e)
      | Inr r \<Rightarrow> (case snd (snd r) of
            None \<Rightarrow> Some (Inr (fst r, qs))
          | Some waiter \<Rightarrow> (case waiter_queue (fst r) waiter of
                Inl e \<Rightarrow> Some (Inl e)
              | Inr q \<Rightarrow>
                  if unat q < length qs then
                    (case push_back (fst r) (qs ! unat q) waiter of
                       Inl e \<Rightarrow> Some (Inl e)
                     | Inr p \<Rightarrow> enqueue_loop (fst p) (fst (snd r)) (qs[unat q := snd p]))
                  else Some (Inl Bad_Index))))"

declare enqueue_loop.simps [code]

definition enqueue :: "heap \<Rightarrow> waiter_list list \<Rightarrow> ptr \<Rightarrow> (heap \<times> waiter_list list) res" where
  "enqueue h qs stack = bindR (from_stack h stack) (\<lambda>(h, list). total (enqueue_loop h list qs))"

definition futex_enqueue :: "world \<Rightarrow> ptr \<Rightarrow> ptr \<Rightarrow> world res" where
  "futex_enqueue W f stack =
     bindR (get_futex W f) (\<lambda>fx.
     bindR (enqueue (heap W) (queues fx) stack) (\<lambda>(h, qs).
       Inr (put_futex (W\<lparr>heap := h\<rparr>) f (fx\<lparr>queues := qs\<rparr>))))"

text \<open>
  \<open>RawFutex::flip\<close>, one iteration of its loop on the value \<open>atom\<close> read before: \<open>None\<close> is the
  end of the loop, \<open>Some atom\<close> another iteration.
\<close>

definition flip_iter ::
  "bool \<Rightarrow> world \<Rightarrow> ptr \<Rightarrow> raw_futex_atom \<Rightarrow> (raw_futex_atom option \<times> world) res" where
  "flip_iter spurious W f atom =
     (if fa_inbox atom = null then Inr (None, W)
      else
        bindR (raw_cmpxchg_weak spurious AcqRelT AcquireT W f atom (atom\<lparr>fa_inbox := null\<rparr>))
          (\<lambda>(ok, atom, W).
             if ok then bindR (futex_enqueue W f (fa_inbox atom)) (\<lambda>W. Inr (None, W))
             else Inr (Some atom, W)))"

text \<open>\<open>state.queues[queue]\<close> panics out of bounds.\<close>

definition with_queue ::
  "world \<Rightarrow> ptr \<Rightarrow> usize \<Rightarrow> (heap \<Rightarrow> waiter_list \<Rightarrow> (heap \<times> waiter_list \<times> 'a) res) \<Rightarrow>
     ('a \<times> world) res" where
  "with_queue W f q op =
     bindR (get_futex W f) (\<lambda>fx.
       if unat q < length (queues fx) then
         bindR (op (heap W) (queues fx ! unat q)) (\<lambda>(h, l, x).
           Inr (x, put_futex (W\<lparr>heap := h\<rparr>) f (fx\<lparr>queues := (queues fx)[unat q := l]\<rparr>)))
       else Inl Bad_Index)"

definition futex_cancel :: "world \<Rightarrow> ptr \<Rightarrow> ptr \<Rightarrow> world res" where
  "futex_cancel W f waiter =
     bindR (waiter_queue (heap W) waiter) (\<lambda>q.
       mapR snd (with_queue W f q (\<lambda>h l.
         mapR (\<lambda>(h, l). (h, l, ())) (remove_waiter h l waiter))))"

text \<open>\<open>FutexQueueGuard::cmpxchg_enqueue_weak\<close>.\<close>

definition cmpxchg_enqueue_weak ::
  "bool \<Rightarrow> ordering_t \<Rightarrow> ordering_t \<Rightarrow> world \<Rightarrow> ptr \<Rightarrow> raw_futex_atom \<Rightarrow> usize \<Rightarrow>
     (bool \<times> raw_futex_atom \<times> world) res" where
  "cmpxchg_enqueue_weak spurious success failure W f current new =
     bindR (raw_cmpxchg_weak spurious success failure W f current
              \<lparr>fa_atom = new, fa_inbox = null\<rparr>) (\<lambda>(ok, current, W).
       if ok then
         bindR (if fa_inbox current \<noteq> null then futex_enqueue W f (fa_inbox current) else Inr W)
           (\<lambda>W. Inr (True, current, W))
       else Inr (False, current, W))"

definition queue_pop :: "world \<Rightarrow> ptr \<Rightarrow> usize \<Rightarrow> (ptr option \<times> world) res" where
  "queue_pop W f q = with_queue W f q pop_front"

definition queue_pop_many :: "world \<Rightarrow> ptr \<Rightarrow> usize \<Rightarrow> usize \<Rightarrow> (waiter_list \<times> world) res" where
  "queue_pop_many W f count q = with_queue W f q (\<lambda>h l. pop_front_many h l count)"

definition queue_is_empty :: "world \<Rightarrow> ptr \<Rightarrow> usize \<Rightarrow> bool res" where
  "queue_is_empty W f q =
     bindR (get_futex W f) (\<lambda>fx.
       if unat q < length (queues fx) then Inr (is_empty (queues fx ! unat q)) else Inl Bad_Index)"

text \<open>
  \<open>FutexWaitersGuard::requeue\<close>: every waiter of the list gets the new futex, one store each;
  then one iteration of the loop that pushes the whole list on the inbox.
\<close>

definition requeue_store :: "world \<Rightarrow> ptr \<Rightarrow> ptr \<Rightarrow> world res" where
  "requeue_store W f waiter =
     bindR (set_futex (heap W) waiter f) (\<lambda>h. Inr (W\<lparr>heap := h\<rparr>))"

definition requeue_iter ::
  "bool \<Rightarrow> world \<Rightarrow> ptr \<Rightarrow> waiter_list \<Rightarrow> raw_futex_atom \<Rightarrow> (raw_futex_atom option \<times> world) res" where
  "requeue_iter spurious W f list atom =
     bindR (set_prev (heap W) (wl_head list) (fa_inbox atom)) (\<lambda>h.
     bindR (raw_cmpxchg_weak spurious AcqRelT AcquireT (W\<lparr>heap := h\<rparr>) f atom
              \<lparr>fa_atom = fa_atom atom, fa_inbox = wl_tail list\<rparr>) (\<lambda>(ok, atom, W).
       Inr (if ok then None else Some atom, W)))"

section \<open>Where a waiter is\<close>

text \<open>
  The proofs follow every waiter through its life: it starts outside every list, is pushed
  on an inbox, moved to a queue, popped as a single handle or in a handle list of a task,
  and is outside again once it is woken or cancelled. \<open>world_ok\<close> ties this to the heap.
\<close>

datatype place = Loose | Inbox ptr | InQueue ptr nat | InHand tid | InList tid

record ghost =
  g_loc :: "ptr \<Rightarrow> place"
  g_inbox :: "ptr \<Rightarrow> ptr list"
  g_queues :: "ptr \<Rightarrow> ptr list list"
  g_list :: "tid \<Rightarrow> ptr list"

definition waiters_ok :: "heap \<Rightarrow> ghost \<Rightarrow> bool" where
  "waiters_ok h g \<longleftrightarrow> h null = None \<and>
     (\<forall>w. g_loc g w \<noteq> Loose \<longrightarrow> alive h w \<and> (\<exists>k. wkr h w = WakerWaiting k))"

definition hands_ok :: "heap \<Rightarrow> ghost \<Rightarrow> bool" where
  "hands_ok h g \<longleftrightarrow>
     (\<forall>t. dls h null (g_list g t) null \<and> distinct (g_list g t) \<and>
          set (g_list g t) = {w. g_loc g w = InList t}) \<and>
     (\<forall>w t. g_loc g w = InHand t \<longrightarrow> detached h w)"

definition inbox_ok :: "heap \<Rightarrow> ptr \<Rightarrow> raw_futex \<Rightarrow> ghost \<Rightarrow> bool" where
  "inbox_ok h f fx g \<longleftrightarrow>
     is_stack h (fa_inbox (futex_atom fx)) (g_inbox g f) \<and> distinct (g_inbox g f) \<and>
     set (g_inbox g f) = {w. g_loc g w = Inbox f} \<and>
     (g_inbox g f \<noteq> [] \<longrightarrow> nxt h (hd (g_inbox g f)) = null) \<and>
     (\<forall>w. g_loc g w = Inbox f \<longrightarrow> fut h w = f \<and> que h w < length (queues fx))"

definition queues_ok :: "heap \<Rightarrow> ptr \<Rightarrow> raw_futex \<Rightarrow> ghost \<Rightarrow> bool" where
  "queues_ok h f fx g \<longleftrightarrow>
     length (g_queues g f) = length (queues fx) \<and>
     (\<forall>k < length (queues fx). dlist h (queues fx ! k) (g_queues g f ! k) \<and>
        set (g_queues g f ! k) = {w. g_loc g w = InQueue f k}) \<and>
     (\<forall>w k. g_loc g w = InQueue f k \<longrightarrow> k < length (queues fx) \<and> que h w = k \<and> fut h w = f)"

definition guards_ok :: "heap \<Rightarrow> ptr \<Rightarrow> raw_futex \<Rightarrow> ghost \<Rightarrow> bool" where
  "guards_ok h f fx g \<longleftrightarrow>
     (rw_writer fx \<noteq> None \<longrightarrow> rw_readers fx = {}) \<and>
     (\<forall>w t. (g_loc g w = InHand t \<or> g_loc g w = InList t) \<and> fut h w = f \<longrightarrow> t \<in> rw_readers fx)"

definition world_ok :: "world \<Rightarrow> ghost \<Rightarrow> bool" where
  "world_ok W g \<longleftrightarrow> waiters_ok (heap W) g \<and> hands_ok (heap W) g \<and>
     (\<forall>f fx. futexes W f = Some fx \<longrightarrow>
        inbox_ok (heap W) f fx g \<and> queues_ok (heap W) f fx g \<and> guards_ok (heap W) f fx g)"

definition at_futex :: "ptr \<Rightarrow> place \<Rightarrow> bool" where
  "at_futex f p \<longleftrightarrow> p = Inbox f \<or> (\<exists>k. p = InQueue f k)"

lemma world_okD:
  assumes "world_ok W g"
  shows "waiters_ok (heap W) g" "hands_ok (heap W) g"
    and "futexes W f = Some fx \<Longrightarrow> inbox_ok (heap W) f fx g"
    and "futexes W f = Some fx \<Longrightarrow> queues_ok (heap W) f fx g"
    and "futexes W f = Some fx \<Longrightarrow> guards_ok (heap W) f fx g"
  using assms by (auto simp: world_ok_def)

lemma world_ok_alive: "world_ok W g \<Longrightarrow> g_loc g w \<noteq> Loose \<Longrightarrow> alive (heap W) w"
  by (auto simp: world_ok_def waiters_ok_def)

lemma world_ok_waiting:
  "world_ok W g \<Longrightarrow> g_loc g w \<noteq> Loose \<Longrightarrow> \<exists>k. wkr (heap W) w = WakerWaiting k"
  by (auto simp: world_ok_def waiters_ok_def)

lemma waiters_ok_frame:
  assumes "waiters_ok h g" "links_only h h' A" "\<And>w. g_loc g' w \<noteq> Loose \<Longrightarrow> g_loc g w \<noteq> Loose"
  shows "waiters_ok h' g'"
  unfolding waiters_ok_def
proof (intro conjI allI impI)
  show "h' null = None"
    using assms(1,2) links_only_reads(2) by (auto simp: waiters_ok_def)
  fix w assume "g_loc g' w \<noteq> Loose"
  with assms(1,3) have w: "alive h w" "\<exists>k. wkr h w = WakerWaiting k"
    by (auto simp: waiters_ok_def)
  with assms(2) show "alive h' w" "\<exists>k. wkr h' w = WakerWaiting k"
    by (auto simp: links_only_reads)
qed

lemma inbox_ok_frame:
  assumes "inbox_ok h f fx g" "links_only h h' A" "\<And>w. w \<in> A \<Longrightarrow> g_loc g w \<noteq> Inbox f"
    and "\<And>w. g_loc g' w = Inbox f \<longleftrightarrow> g_loc g w = Inbox f" "g_inbox g' f = g_inbox g f"
    and "fa_inbox (futex_atom fx') = fa_inbox (futex_atom fx)"
    and "length (queues fx') = length (queues fx)"
  shows "inbox_ok h' f fx' g'"
proof -
  have keep: "h' w = h w" if "g_loc g w = Inbox f" for w
    using that assms(2,3) links_only_same by blast
  have "is_stack h' (fa_inbox (futex_atom fx)) (g_inbox g f)"
    using assms(1) keep by (subst stack_cong [where h = h]) (auto simp: inbox_ok_def)
  moreover have "nxt h' (hd (g_inbox g f)) = null" if "g_inbox g f \<noteq> []"
  proof -
    have "g_loc g (hd (g_inbox g f)) = Inbox f"
      using assms(1) that hd_in_set by (force simp: inbox_ok_def)
    then show ?thesis
      using assms(1) that keep by (simp add: inbox_ok_def nxt_def)
  qed
  ultimately show ?thesis
    using assms keep by (auto simp: inbox_ok_def fut_def que_def)
qed

lemma queues_ok_frame:
  assumes "queues_ok h f fx g" "links_only h h' A" "\<And>w k. w \<in> A \<Longrightarrow> g_loc g w \<noteq> InQueue f k"
    and "\<And>w k. g_loc g' w = InQueue f k \<longleftrightarrow> g_loc g w = InQueue f k"
    and "g_queues g' f = g_queues g f" "queues fx' = queues fx"
  shows "queues_ok h' f fx' g'"
proof -
  have keep: "h' w = h w" if "g_loc g w = InQueue f k" for w k
    using that assms(2,3) links_only_same by blast
  have "dlist h' (queues fx ! k) (g_queues g f ! k)" if "k < length (queues fx)" for k
    using assms(1) that keep by (subst dlist_cong [where h = h]) (auto simp: queues_ok_def)
  then show ?thesis
    using assms keep by (auto simp: queues_ok_def fut_def que_def)
qed

lemma hands_ok_frame:
  assumes "hands_ok h g" "links_only h h' A"
    and "\<And>w t. w \<in> A \<Longrightarrow> g_loc g w \<noteq> InHand t \<and> g_loc g w \<noteq> InList t"
    and "\<And>w t. g_loc g' w = InList t \<longleftrightarrow> g_loc g w = InList t" "g_list g' = g_list g"
    and "\<And>w t. g_loc g' w = InHand t \<Longrightarrow> g_loc g w = InHand t \<or> detached h' w"
  shows "hands_ok h' g'"
proof -
  have keep: "h' w = h w" if "g_loc g w = InList t \<or> g_loc g w = InHand t" for w t
    using that assms(2,3) links_only_same by blast
  have "dls h' null (g_list g t) null" for t
    using assms(1) keep by (subst dls_cong [where h = h]) (auto simp: hands_ok_def)
  moreover have "detached h' w" if "g_loc g w = InHand t" for w t
    using assms(1) that keep [of w t] by (auto simp: hands_ok_def detached_def alive_def nxt_def prv_def)
  ultimately show ?thesis
    using assms(1,4,5,6) by (fastforce simp: hands_ok_def)
qed

lemma guards_ok_frame:
  assumes "guards_ok h f fx g" "rw_readers fx' = rw_readers fx" "rw_writer fx' = rw_writer fx"
    and "\<And>w t. fut h' w = f \<Longrightarrow> g_loc g' w = InHand t \<or> g_loc g' w = InList t \<Longrightarrow>
      fut h w = f \<and> (g_loc g w = InHand t \<or> g_loc g w = InList t)"
  shows "guards_ok h' f fx' g'"
  using assms unfolding guards_ok_def by metis

text \<open>The common shape of an operation on the lists of one futex.\<close>

lemma world_ok_futexI:
  assumes ok: "world_ok W g"
    and links: "links_only (heap W) h' A" "\<And>w f'. w \<in> A \<Longrightarrow> f' \<noteq> f \<Longrightarrow> \<not> at_futex f' (g_loc g w)"
    and W': "heap W' = h'" "futexes W' = (futexes W)(f \<mapsto> fx')"
    and f: "inbox_ok h' f fx' g'" "queues_ok h' f fx' g'" "guards_ok h' f fx' g'"
    and hands: "hands_ok h' g'"
    and loc: "\<And>w. g_loc g' w \<noteq> g_loc g w \<Longrightarrow> g_loc g w \<noteq> Loose \<and> fut (heap W) w = f \<and>
        (\<forall>f'. f' \<noteq> f \<longrightarrow> \<not> at_futex f' (g_loc g w) \<and> \<not> at_futex f' (g_loc g' w))"
    and others: "\<And>f'. f' \<noteq> f \<Longrightarrow> g_inbox g' f' = g_inbox g f' \<and> g_queues g' f' = g_queues g f'"
  shows "world_ok W' g'"
proof -
  have loc': "g_loc g' w = p \<longleftrightarrow> g_loc g w = p" if "at_futex f' p" "f' \<noteq> f" for w p f'
    using loc [of w] that by metis
  have "waiters_ok h' g'"
    by (rule waiters_ok_frame [OF world_okD(1) [OF ok] links(1)]) (metis loc)
  moreover have "inbox_ok h' f' fx g' \<and> queues_ok h' f' fx g' \<and> guards_ok h' f' fx g'"
    if fx: "futexes W f' = Some fx" "f' \<noteq> f" for f' fx
  proof (intro conjI)
    show "inbox_ok h' f' fx g'"
      by (rule inbox_ok_frame [OF world_okD(3) [OF ok fx(1)] links(1)])
        (use fx(2) others loc' links(2) in \<open>auto simp: at_futex_def\<close>)
    show "queues_ok h' f' fx g'"
      by (rule queues_ok_frame [OF world_okD(4) [OF ok fx(1)] links(1)])
        (use fx(2) others loc' links(2) in \<open>auto simp: at_futex_def\<close>)
    have fut: "fut h' w = fut (heap W) w" if "g_loc g w \<noteq> Loose" for w
      using world_ok_alive [OF ok that] links(1) links_only_reads(3) by blast
    have "g_loc g' w = g_loc g w" if "fut h' w = f'" for w
      using loc [of w] fut [of w] that fx(2) by metis
    with fut show "guards_ok h' f' fx g'"
      using world_okD(5) [OF ok fx(1)] unfolding guards_ok_def by (metis place.distinct(5,7))
  qed
  ultimately show ?thesis
    using f hands by (auto simp: world_ok_def W')
qed

section \<open>Contracts\<close>

lemma put_futex_simps [simp]:
  "heap (put_futex W f fx) = heap W"
  "futexes (put_futex W f fx) = (futexes W)(f \<mapsto> fx)"
  "clones (put_futex W f fx) = clones W"
  "wakes (put_futex W f fx) = wakes W"
  "drops (put_futex W f fx) = drops W"
  by (simp_all add: put_futex_def)

lemma put_futex_same [simp]: "futexes W f = Some fx \<Longrightarrow> put_futex W f fx = W"
  by (simp add: put_futex_def fun_upd_idem)

lemma get_futex_simps [simp]: "futexes W f = Some fx \<Longrightarrow> get_futex W f = Inr fx"
  by (simp add: get_futex_def)

lemma futex_atom_same [simp]: "fx\<lparr>futex_atom := futex_atom fx\<rparr> = fx"
  by simp

lemma futex_load_eq:
  "futexes W f = Some fx \<Longrightarrow> load_order (ORDERING o') \<Longrightarrow> futex_load o' W f = Inr (futex_atom fx)"
  by (simp add: futex_load_def)

lemma raw_cmpxchg_weak_eq:
  "futexes W f = Some fx \<Longrightarrow> cas_orders (ORDERING so) (ORDERING fo) \<Longrightarrow>
   raw_cmpxchg_weak spurious so fo W f cur new =
     Inr (if futex_atom fx = cur \<and> \<not> spurious
          then (True, cur, put_futex W f (fx\<lparr>futex_atom := new\<rparr>))
          else (False, futex_atom fx, W))"
  by (simp add: raw_cmpxchg_weak_def raw_cmpxchg_weak_on_def)

lemma futex_cmpxchg_weak_on_eq:
  "futexes W f = Some fx \<Longrightarrow>
   futex_cmpxchg_weak_on accepts spurious so fo W f cur new =
     (if accepts (ORDERING so) (ORDERING fo)
      then Inr (if futex_atom fx = cur \<and> \<not> spurious
          then (True, cur,
                put_futex W f (fx\<lparr>futex_atom := \<lparr>fa_atom = new, fa_inbox = fa_inbox cur\<rparr>\<rparr>))
          else (False, futex_atom fx, W))
      else Inl Panic)"
  by (simp add: futex_cmpxchg_weak_on_def raw_cmpxchg_weak_on_def cell_cmpxchg_weak_on_def)

lemma futex_cmpxchg_weak_eq:
  "futexes W f = Some fx \<Longrightarrow> cas_orders (ORDERING so) (ORDERING fo) \<Longrightarrow>
   futex_cmpxchg_weak spurious so fo W f cur new =
     Inr (if futex_atom fx = cur \<and> \<not> spurious
          then (True, cur,
                put_futex W f (fx\<lparr>futex_atom := \<lparr>fa_atom = new, fa_inbox = fa_inbox cur\<rparr>\<rparr>))
          else (False, futex_atom fx, W))"
  by (simp add: futex_cmpxchg_weak_def futex_cmpxchg_weak_on_eq)

text \<open>Updates of one futex that leave the lists alone.\<close>

lemma world_ok_put:
  assumes "world_ok W g" "futexes W f = Some fx" "guards_ok (heap W) f fx' g"
    and "fa_inbox (futex_atom fx') = fa_inbox (futex_atom fx)" "queues fx' = queues fx"
  shows "world_ok (put_futex W f fx') g"
proof (rule world_ok_futexI [where A = "{}" and f = f and fx' = fx', OF assms(1)])
  show "inbox_ok (heap W) f fx' g"
    by (rule inbox_ok_frame [OF world_okD(3) [OF assms(1,2)], where A = "{}"]) (use assms in auto)
  show "queues_ok (heap W) f fx' g"
    by (rule queues_ok_frame [OF world_okD(4) [OF assms(1,2)], where A = "{}"]) (use assms in auto)
qed (use assms world_okD(2) in auto)

lemma world_ok_put_atom:
  assumes "world_ok W g" "futexes W f = Some fx" "fa_inbox a = fa_inbox (futex_atom fx)"
  shows "world_ok (put_futex W f (fx\<lparr>futex_atom := a\<rparr>)) g"
  using assms world_okD(5) [OF assms(1,2)]
  by (intro world_ok_put) (auto simp: guards_ok_def)

lemma world_ok_put_cell:
  assumes "world_ok W g" "futexes W f = Some fx"
  shows "world_ok (put_futex W f (fx\<lparr>cell_state := c\<rparr>)) g"
  using assms world_okD(5) [OF assms]
  by (intro world_ok_put) (auto simp: guards_ok_def)

lemma world_ok_read_lock:
  assumes "world_ok W g" "futexes W f = Some fx" "rw_writer fx = None"
  shows "world_ok (put_futex W f (fx\<lparr>rw_readers := insert t (rw_readers fx)\<rparr>)) g"
  using assms world_okD(5) [OF assms(1,2)]
  by (intro world_ok_put) (auto simp: guards_ok_def)

lemma world_ok_read_unlock:
  assumes "world_ok W g" "futexes W f = Some fx"
    and "\<And>w. g_loc g w = InHand t \<or> g_loc g w = InList t \<Longrightarrow> fut (heap W) w \<noteq> f"
  shows "world_ok (put_futex W f (fx\<lparr>rw_readers := rw_readers fx - {t}\<rparr>)) g"
  using assms world_okD(5) [OF assms(1,2)]
  by (intro world_ok_put) (auto simp: guards_ok_def)

lemma world_ok_write_lock:
  assumes "world_ok W g" "futexes W f = Some fx" "rw_readers fx = {}"
  shows "world_ok (put_futex W f (fx\<lparr>rw_writer := Some t\<rparr>)) g"
  using assms world_okD(5) [OF assms(1,2)]
  by (intro world_ok_put) (auto simp: guards_ok_def)

lemma world_ok_write_unlock:
  assumes "world_ok W g" "futexes W f = Some fx"
  shows "world_ok (put_futex W f (fx\<lparr>rw_writer := None\<rparr>)) g"
  using assms world_okD(5) [OF assms(1,2)]
  by (intro world_ok_put) (auto simp: guards_ok_def)

text \<open>A waiter outside every list may be written, allocated and freed at will.\<close>

lemma world_ok_agree:
  assumes ok: "world_ok W g" and keep: "\<And>v. g_loc g v \<noteq> Loose \<Longrightarrow> heap W' v = heap W v"
    and W': "heap W' null = None" "futexes W' = futexes W"
  shows "world_ok W' g"
proof -
  let ?h = "heap W" and ?h' = "heap W'"
  have reads: "alive ?h' v = alive ?h v" "nxt ?h' v = nxt ?h v" "prv ?h' v = prv ?h v"
    "fut ?h' v = fut ?h v" "que ?h' v = que ?h v" "wkr ?h' v = wkr ?h v"
    "detached ?h' v = detached ?h v" if "g_loc g v \<noteq> Loose" for v
    using keep [OF that]
    by (simp_all add: alive_def nxt_def prv_def fut_def que_def wkr_def detached_def)
  have "waiters_ok ?h' g"
    using world_okD(1) [OF ok] W' reads by (auto simp: waiters_ok_def)
  moreover have "hands_ok ?h' g"
  proof -
    have "dls ?h' null (g_list g t) null = dls ?h null (g_list g t) null" for t
      by (rule dls_cong) (use world_okD(2) [OF ok] keep in \<open>auto simp: hands_ok_def\<close>)
    then show ?thesis
      using world_okD(2) [OF ok] reads by (auto simp: hands_ok_def)
  qed
  moreover have "inbox_ok ?h' f fx g \<and> queues_ok ?h' f fx g \<and> guards_ok ?h' f fx g"
    if fx: "futexes W f = Some fx" for f fx
  proof (intro conjI)
    note ib = world_okD(3) [OF ok fx] and qs = world_okD(4) [OF ok fx]
    have "is_stack ?h' (fa_inbox (futex_atom fx)) (g_inbox g f) =
          is_stack ?h (fa_inbox (futex_atom fx)) (g_inbox g f)"
      by (rule stack_cong) (use ib keep in \<open>auto simp: inbox_ok_def\<close>)
    moreover have "g_inbox g f \<noteq> [] \<Longrightarrow> g_loc g (hd (g_inbox g f)) = Inbox f"
      using ib hd_in_set by (force simp: inbox_ok_def)
    ultimately show "inbox_ok ?h' f fx g"
      using ib reads by (auto simp: inbox_ok_def)
    have "dlist ?h' (queues fx ! k) (g_queues g f ! k) = dlist ?h (queues fx ! k) (g_queues g f ! k)"
      if "k < length (queues fx)" for k
      by (rule dlist_cong) (use qs keep that in \<open>auto simp: queues_ok_def\<close>)
    then show "queues_ok ?h' f fx g"
      using qs reads by (auto simp: queues_ok_def)
    show "guards_ok ?h' f fx g"
      by (rule guards_ok_frame [OF world_okD(5) [OF ok fx]]) (metis place.distinct(5,7) reads(4))+
  qed
  ultimately show ?thesis
    by (auto simp: world_ok_def W')
qed

lemma world_ok_loose:
  assumes ok: "world_ok W g" and w: "g_loc g w = Loose" "w \<noteq> null"
    and W': "heap W' = (heap W)(w := x)" "futexes W' = futexes W"
  shows "world_ok W' g"
  by (rule world_ok_agree [OF ok]) (use w W' world_okD(1) [OF ok] in \<open>auto simp: waiters_ok_def\<close>)

text \<open>The waker of a waiter in a list may be replaced by another.\<close>

definition put_waker :: "heap \<Rightarrow> ptr \<Rightarrow> waiter_waker \<Rightarrow> heap" where
  "put_waker h w k = h(w \<mapsto> (the (h w))\<lparr>w_waker := k\<rparr>)"

lemma set_waker_alive [link_simps]: "alive h w \<Longrightarrow> set_waker h w k = Inr (put_waker h w k)"
  by (simp add: set_waker_def modify_def put_waker_def)

lemma put_waker_reads [link_simps]:
  "alive (put_waker h w k) x = (alive h x \<or> x = w \<and> w \<noteq> null)"
  "nxt (put_waker h w k) x = nxt h x" "prv (put_waker h w k) x = prv h x"
  "fut (put_waker h w k) x = fut h x" "que (put_waker h w k) x = que h x"
  "wkr (put_waker h w k) x = (if x = w then k else wkr h x)"
  "msg (put_waker h w k) x = msg h x"
  by (auto simp: put_waker_def alive_def nxt_def prv_def fut_def que_def wkr_def msg_def)

lemma put_waker_lists:
  assumes "alive h w"
  shows "dls (put_waker h w k) a xs b = dls h a xs b"
    and "dlist (put_waker h w k) l xs = dlist h l xs"
    and "is_stack (put_waker h w k) p xs = is_stack h p xs"
    and "detached (put_waker h w k) x = detached h x"
    and "alive (put_waker h w k) x = alive h x"
proof -
  have alive: "alive (put_waker h w k) x = alive h x" for x
    using assms by (auto simp: link_simps)
  show dls: "dls (put_waker h w k) a xs b = dls h a xs b" for a xs b
    by (induction xs arbitrary: a) (auto simp: alive put_waker_reads(2,3))
  show "dlist (put_waker h w k) l xs = dlist h l xs"
    by (simp add: dlist_def dls)
  show "is_stack (put_waker h w k) p xs = is_stack h p xs"
    by (induction xs arbitrary: p) (auto simp: alive put_waker_reads(2,3))
  show "detached (put_waker h w k) x = detached h x" "alive (put_waker h w k) x = alive h x"
    by (auto simp: detached_def alive put_waker_reads(2,3))
qed

lemma world_ok_put_waker:
  assumes ok: "world_ok W g" and w: "alive (heap W) w"
    and k: "g_loc g w \<noteq> Loose \<Longrightarrow> \<exists>c. k = WakerWaiting c"
    and W': "heap W' = put_waker (heap W) w k" "futexes W' = futexes W"
  shows "world_ok W' g"
proof -
  note same = put_waker_lists [OF w] put_waker_reads
  have null: "put_waker (heap W) w k null = None"
    using world_okD(1) [OF ok] w by (auto simp: waiters_ok_def put_waker_def)
  have "waiters_ok (put_waker (heap W) w k) g"
    using world_okD(1) [OF ok] k null by (auto simp: waiters_ok_def same(5,11))
  moreover have "hands_ok (put_waker (heap W) w k) g"
    using world_okD(2) [OF ok] by (simp add: hands_ok_def same)
  moreover have "inbox_ok (put_waker (heap W) w k) f fx g \<and> queues_ok (put_waker (heap W) w k) f fx g \<and>
      guards_ok (put_waker (heap W) w k) f fx g" if "futexes W f = Some fx" for f fx
    using world_okD(3-5) [OF ok that] by (simp add: inbox_ok_def queues_ok_def guards_ok_def same)
  ultimately show ?thesis
    by (simp add: world_ok_def W')
qed

text \<open>A popped waiter leaves the lists when its task is woken.\<close>

lemma world_ok_wake:
  assumes ok: "world_ok W g" and w: "g_loc g w = InHand t"
    and W': "heap W' = put_waker (heap W) w WakerDone" "futexes W' = futexes W"
  shows "world_ok W' (g\<lparr>g_loc := (g_loc g)(w := Loose)\<rparr>)"
proof -
  let ?g = "g\<lparr>g_loc := (g_loc g)(w := Loose)\<rparr>"
  have alive: "alive (heap W) w"
    using world_ok_alive [OF ok] w by simp
  have "world_ok W ?g"
    unfolding world_ok_def
  proof (intro conjI allI impI)
    show "waiters_ok (heap W) ?g"
      by (rule waiters_ok_frame [OF world_okD(1) [OF ok], where A = "{}"]) (auto split: if_splits)
    show "hands_ok (heap W) ?g"
      by (rule hands_ok_frame [OF world_okD(2) [OF ok], where A = "{}"]) (use w in \<open>auto split: if_splits\<close>)
    fix f fx assume fx: "futexes W f = Some fx"
    show "inbox_ok (heap W) f fx ?g"
      by (rule inbox_ok_frame [OF world_okD(3) [OF ok fx], where A = "{}"]) (use w in auto)
    show "queues_ok (heap W) f fx ?g"
      by (rule queues_ok_frame [OF world_okD(4) [OF ok fx], where A = "{}"]) (use w in auto)
    show "guards_ok (heap W) f fx ?g"
      by (rule guards_ok_frame [OF world_okD(5) [OF ok fx]]) (auto split: if_splits)
  qed
  from world_ok_put_waker [OF this alive _ W'] show ?thesis by simp
qed

text \<open>Pushing a waiter on the inbox: the last step of a successful wait.\<close>

lemma world_ok_push:
  assumes ok: "world_ok W g" and fx: "futexes W f = Some fx"
    and w: "g_loc g w = Loose" "alive (heap W) w" "nxt (heap W) w = null"
      "prv (heap W) w = fa_inbox (futex_atom fx)" "fut (heap W) w = f"
      "que (heap W) w < length (queues fx)" "wkr (heap W) w = WakerWaiting k"
  shows "world_ok (put_futex W f (fx\<lparr>futex_atom := \<lparr>fa_atom = a, fa_inbox = w\<rparr>\<rparr>))
           (g\<lparr>g_loc := (g_loc g)(w := Inbox f), g_inbox := (g_inbox g)(f := w # g_inbox g f)\<rparr>)"
    (is "world_ok ?W ?g")
proof -
  note ib = world_okD(3) [OF ok fx] and qs = world_okD(4) [OF ok fx]
  show ?thesis
    unfolding world_ok_def
  proof (intro conjI allI impI)
    show "waiters_ok (heap ?W) ?g"
      using world_okD(1) [OF ok] w by (auto simp: waiters_ok_def)
    show "hands_ok (heap ?W) ?g"
      by (rule hands_ok_frame [OF world_okD(2) [OF ok], where A = "{}"]) (use w in \<open>auto split: if_splits\<close>)
    fix f' fx' assume f': "futexes ?W f' = Some fx'"
    have same: "f' = f \<Longrightarrow> fx' = fx\<lparr>futex_atom := \<lparr>fa_atom = a, fa_inbox = w\<rparr>\<rparr>"
      and other: "f' \<noteq> f \<Longrightarrow> futexes W f' = Some fx'"
      using f' by auto
    show "queues_ok (heap ?W) f' fx' ?g"
    proof (cases "f' = f")
      case True
      show ?thesis unfolding True
        by (rule queues_ok_frame [OF qs, where A = "{}"]) (use w same [OF True] in auto)
    next
      case False
      show ?thesis
        by (rule queues_ok_frame [OF world_okD(4) [OF ok other [OF False]], where A = "{}"])
          (use w in auto)
    qed
    show "guards_ok (heap ?W) f' fx' ?g"
    proof (cases "f' = f")
      case True
      show ?thesis unfolding True
        by (rule guards_ok_frame [OF world_okD(5) [OF ok fx]])
          (use same [OF True] in \<open>auto split: if_splits\<close>)
    next
      case False
      show ?thesis
        by (rule guards_ok_frame [OF world_okD(5) [OF ok other [OF False]]])
          (auto split: if_splits)
    qed
    show "inbox_ok (heap ?W) f' fx' ?g"
    proof (cases "f' = f")
      case True
      with ib w same [OF True] show ?thesis
        by (auto simp: inbox_ok_def)
    next
      case False
      show ?thesis
        by (rule inbox_ok_frame [OF world_okD(3) [OF ok other [OF False]], where A = "{}"])
          (use w False in auto)
    qed
  qed
qed

text \<open>An operation on one queue of the array.\<close>

lemma queues_okD:
  "queues_ok h f fx g \<Longrightarrow> k < length (queues fx) \<Longrightarrow> dlist h (queues fx ! k) (g_queues g f ! k)"
  "queues_ok h f fx g \<Longrightarrow> k < length (queues fx) \<Longrightarrow> set (g_queues g f ! k) = {w. g_loc g w = InQueue f k}"
  by (simp_all add: queues_ok_def)

lemma queues_ok_update:
  assumes qs: "queues_ok h f fx g" and k: "k < length (queues fx)"
    and h': "links_only h h' (set (g_queues g f ! k))" "dlist h' l xs"
    and loc: "set xs = {w. g_loc g' w = InQueue f k}"
      "\<And>w. g_loc g' w = InQueue f k \<Longrightarrow> g_loc g w = InQueue f k"
      "\<And>w j. j \<noteq> k \<Longrightarrow> g_loc g' w = InQueue f j \<longleftrightarrow> g_loc g w = InQueue f j"
    and new: "queues fx' = (queues fx)[k := l]" "g_queues g' f = (g_queues g f)[k := xs]"
  shows "queues_ok h' f fx' g'"
proof -
  have alive: "alive h w" if "g_loc g w = InQueue f j" for w j
  proof -
    have "j < length (queues fx)" "w \<in> set (g_queues g f ! j)"
      using qs that by (auto simp: queues_ok_def)
    then show ?thesis using qs by (auto simp: queues_ok_def dest: dlist_alive)
  qed
  have old: "g_loc g w = InQueue f j" if "g_loc g' w = InQueue f j" for w j
    using that loc(2,3) by metis
  have "dlist h' (queues fx ! j) (g_queues g f ! j)" if j: "j < length (queues fx)" "j \<noteq> k" for j
  proof (rule dlist_frame [OF h'(1)])
    show "dlist h (queues fx ! j) (g_queues g f ! j)"
      using qs j by (simp add: queues_ok_def)
    show "set (g_queues g f ! j) \<inter> set (g_queues g f ! k) = {}"
      using qs j k by (auto simp: queues_ok_def)
  qed
  moreover have "que h' w = que h w" "fut h' w = fut h w" if "g_loc g w = InQueue f j" for w j
    using alive [OF that] links_only_reads [OF h'(1)] by auto
  moreover have "j < length (queues fx)" if "g_loc g' w = InQueue f j" for w j
    using old [OF that] qs by (auto simp: queues_ok_def)
  ultimately show ?thesis
    using qs k h'(2) loc(1,3) new old by (auto simp: queues_ok_def nth_list_update)
qed

lemma world_ok_queue:
  assumes ok: "world_ok W g" and fx: "futexes W f = Some fx" and k: "k < length (queues fx)"
    and h': "links_only (heap W) h' (set (g_queues g f ! k))" "dlist h' l xs"
    and xs: "set xs = {w. g_loc g' w = InQueue f k}"
    and loc: "\<And>w. g_loc g' w \<noteq> g_loc g w \<Longrightarrow> g_loc g w = InQueue f k \<and>
        (g_loc g' w = Loose \<or> (\<exists>t \<in> rw_readers fx. g_loc g' w = InHand t \<or> g_loc g' w = InList t))"
    and hands: "hands_ok h' g'"
    and g': "g_queues g' = (g_queues g)(f := (g_queues g f)[k := xs])" "g_inbox g' = g_inbox g"
  shows "world_ok (put_futex (W\<lparr>heap := h'\<rparr>) f (fx\<lparr>queues := (queues fx)[k := l]\<rparr>)) g'"
proof (rule world_ok_futexI [OF ok h'(1), where f = f])
  note qs = world_okD(4) [OF ok fx]
  have at: "w \<in> set (g_queues g f ! k) \<longleftrightarrow> g_loc g w = InQueue f k" for w
    using qs k by (simp add: queues_ok_def)
  have keep: "g_loc g' w = p \<longleftrightarrow> g_loc g w = p" if "p = Inbox f' \<or> (\<exists>j. j \<noteq> k \<and> p = InQueue f j)" for w p f'
    using loc [of w] that by (cases "g_loc g' w = g_loc g w") auto
  show "\<And>w f'. w \<in> set (g_queues g f ! k) \<Longrightarrow> f' \<noteq> f \<Longrightarrow> \<not> at_futex f' (g_loc g w)"
    by (simp add: at at_futex_def)
  show "inbox_ok h' f (fx\<lparr>queues := (queues fx)[k := l]\<rparr>) g'"
    by (rule inbox_ok_frame [OF world_okD(3) [OF ok fx] h'(1)]) (simp_all add: at keep g')
  show "queues_ok h' f (fx\<lparr>queues := (queues fx)[k := l]\<rparr>) g'"
  proof (rule queues_ok_update [OF qs k h' xs])
    show "\<And>w. g_loc g' w = InQueue f k \<Longrightarrow> g_loc g w = InQueue f k"
      using loc by force
  qed (auto simp: keep g')
  have fut: "fut h' w = fut (heap W) w" if "g_loc g w \<noteq> Loose" for w
    using world_ok_alive [OF ok that] h'(1) links_only_reads(3) by blast
  have "t \<in> rw_readers fx" if "g_loc g' w = InHand t \<or> g_loc g' w = InList t" "fut h' w = f" for w t
  proof (cases "g_loc g' w = g_loc g w")
    case True
    then have "fut (heap W) w = f" using that fut [of w] by auto
    with True that(1) show ?thesis
      using world_okD(5) [OF ok fx] unfolding guards_ok_def by metis
  next
    case False
    with loc [OF False] that(1) show ?thesis by auto
  qed
  then show "guards_ok h' f (fx\<lparr>queues := (queues fx)[k := l]\<rparr>) g'"
    using world_okD(5) [OF ok fx] by (auto simp: guards_ok_def)
  fix w assume "g_loc g' w \<noteq> g_loc g w"
  from loc [OF this] qs show "g_loc g w \<noteq> Loose \<and> fut (heap W) w = f \<and>
        (\<forall>f'. f' \<noteq> f \<longrightarrow> \<not> at_futex f' (g_loc g w) \<and> \<not> at_futex f' (g_loc g' w))"
    by (auto simp: queues_ok_def at_futex_def)
qed (simp_all add: hands g')

lemma queue_pop_Nil:
  assumes ok: "world_ok W g" and fx: "futexes W f = Some fx" and k: "unat q < length (queues fx)"
    and "g_queues g f ! unat q = []"
  shows "queue_pop W f q = Inr (None, W)"
proof -
  have "dlist (heap W) (queues fx ! unat q) []"
    using world_okD(4) [OF ok fx] k assms(4) by (auto simp: queues_ok_def)
  from pop_front_Nil [OF this] show ?thesis
    using fx k by (simp add: queue_pop_def with_queue_def)
qed

definition pop_ghost :: "tid \<Rightarrow> ptr \<Rightarrow> nat \<Rightarrow> ghost \<Rightarrow> ghost" where
  "pop_ghost t f k g = g\<lparr>g_loc := (g_loc g)(hd (g_queues g f ! k) := InHand t),
     g_queues := (g_queues g)(f := (g_queues g f)[k := tl (g_queues g f ! k)])\<rparr>"

lemma queue_pop_Cons:
  assumes ok: "world_ok W g" and fx: "futexes W f = Some fx" and k: "unat q < length (queues fx)"
    and t: "t \<in> rw_readers fx" and ws: "g_queues g f ! unat q = w # ws"
  obtains h' l where
    "queue_pop W f q =
       Inr (Some w, put_futex (W\<lparr>heap := h'\<rparr>) f (fx\<lparr>queues := (queues fx)[unat q := l]\<rparr>))"
    "links_only (heap W) h' {v. \<exists>j. g_loc g v = InQueue f j}"
    "world_ok (put_futex (W\<lparr>heap := h'\<rparr>) f (fx\<lparr>queues := (queues fx)[unat q := l]\<rparr>))
       (pop_ghost t f (unat q) g)"
proof -
  note qs = world_okD(4) [OF ok fx]
  have at: "set (w # ws) = {v. g_loc g v = InQueue f (unat q)}"
    and dl: "dlist (heap W) (queues fx ! unat q) (w # ws)"
    using queues_okD [OF qs k] unfolding ws by simp_all
  obtain h' l where pop: "pop_front (heap W) (queues fx ! unat q) = Inr (h', l, Some w)"
    "dlist h' l ws" "detached h' w" "links_only (heap W) h' (set (w # ws))"
    using wl.pop_Cons [OF dl] by auto
  let ?g = "pop_ghost t f (unat q) g"
  have g': "?g = g\<lparr>g_loc := (g_loc g)(w := InHand t),
      g_queues := (g_queues g)(f := (g_queues g f)[unat q := ws])\<rparr>"
    by (simp add: pop_ghost_def ws)
  have w: "w \<notin> set ws" using dl by (simp add: dlist_def)
  have at': "v \<in> set (w # ws) \<longleftrightarrow> g_loc g v = InQueue f (unat q)" for v
    using at by blast
  have wloc: "g_loc g w = InQueue f (unat q)"
    using at' [of w] by simp
  have "world_ok (put_futex (W\<lparr>heap := h'\<rparr>) f (fx\<lparr>queues := (queues fx)[unat q := l]\<rparr>)) ?g"
  proof (rule world_ok_queue [OF ok fx k _ pop(2)])
    show "links_only (heap W) h' (set (g_queues g f ! unat q))"
      using pop(4) ws by simp
    show "set ws = {v. g_loc ?g v = InQueue f (unat q)}"
      using at' w by (auto simp: g' split: if_splits)
    show "hands_ok h' ?g"
      by (rule hands_ok_frame [OF world_okD(2) [OF ok] pop(4)])
        (use at' wloc pop(3) in \<open>auto simp: g' split: if_splits\<close>)
  qed (use wloc t in \<open>auto simp: g' split: if_splits\<close>)
  moreover have "queue_pop W f q =
      Inr (Some w, put_futex (W\<lparr>heap := h'\<rparr>) f (fx\<lparr>queues := (queues fx)[unat q := l]\<rparr>))"
    using fx k pop(1) by (simp add: queue_pop_def with_queue_def)
  moreover have "links_only (heap W) h' {v. \<exists>j. g_loc g v = InQueue f j}"
    by (rule links_only_mono [OF pop(4)]) (use at in auto)
  ultimately show ?thesis by (intro that)
qed

text \<open>A cancelled waiter that is still queued is unlinked; one that was popped is left alone.\<close>

definition cancel_ghost :: "ptr \<Rightarrow> nat \<Rightarrow> ptr \<Rightarrow> ghost \<Rightarrow> ghost" where
  "cancel_ghost f k w g = g\<lparr>g_loc := (g_loc g)(w := Loose),
     g_queues := (g_queues g)(f := (g_queues g f)[k := remove1 w (g_queues g f ! k)])\<rparr>"

lemma futex_cancel_queued:
  assumes ok: "world_ok W g" and fx: "futexes W f = Some fx" and w: "g_loc g w = InQueue f k"
  obtains h' l where
    "futex_cancel W f w = Inr (put_futex (W\<lparr>heap := h'\<rparr>) f (fx\<lparr>queues := (queues fx)[k := l]\<rparr>))"
    "links_only (heap W) h' {v. v \<noteq> w \<and> (\<exists>j. g_loc g v = InQueue f j)}"
    "world_ok (put_futex (W\<lparr>heap := h'\<rparr>) f (fx\<lparr>queues := (queues fx)[k := l]\<rparr>))
       (cancel_ghost f k w g)"
proof -
  note qs = world_okD(4) [OF ok fx]
  have k: "k < length (queues fx)" "que (heap W) w = k"
    using qs w by (auto simp: queues_ok_def)
  have dl: "dlist (heap W) (queues fx ! k) (g_queues g f ! k)"
    and at: "set (g_queues g f ! k) = {v. g_loc g v = InQueue f k}"
    using queues_okD [OF qs k(1)] by simp_all
  then obtain ys zs where yz: "g_queues g f ! k = ys @ w # zs" "w \<notin> set ys"
    using split_list_first [of w "g_queues g f ! k"] w by auto
  have dist: "distinct (ys @ w # zs)" using dl yz by (simp add: dlist_def)
  have rm1: "remove1 w (g_queues g f ! k) = ys @ zs"
    using yz by (simp add: remove1_append)
  obtain h' l where rm: "remove_waiter (heap W) (queues fx ! k) w = Inr (h', l)"
    "dlist h' l (ys @ zs)" "links_only (heap W) h' (set (ys @ zs))"
    using wl.remove_rep [of "heap W" "queues fx ! k" ys w zs] dl yz by auto
  let ?g = "cancel_ghost f k w g"
  have at': "v \<in> set (ys @ w # zs) \<longleftrightarrow> g_loc g v = InQueue f k" for v
    using at yz by auto
  have "world_ok (put_futex (W\<lparr>heap := h'\<rparr>) f (fx\<lparr>queues := (queues fx)[k := l]\<rparr>)) ?g"
  proof (rule world_ok_queue [OF ok fx k(1) _ rm(2)])
    show "links_only (heap W) h' (set (g_queues g f ! k))"
      by (rule links_only_mono [OF rm(3)]) (auto simp: yz)
    show "set (ys @ zs) = {v. g_loc ?g v = InQueue f k}"
      using at' dist by (auto simp: cancel_ghost_def split: if_splits)
    show "hands_ok h' ?g"
    proof (rule hands_ok_frame [OF world_okD(2) [OF ok] rm(3)])
      fix v t assume "v \<in> set (ys @ zs)"
      then have "g_loc g v = InQueue f k" using at' [of v] by auto
      then show "g_loc g v \<noteq> InHand t \<and> g_loc g v \<noteq> InList t" by simp
    qed (use w in \<open>auto simp: cancel_ghost_def split: if_splits\<close>)
  qed (use w rm1 in \<open>auto simp: cancel_ghost_def split: if_splits\<close>)
  moreover have "futex_cancel W f w = Inr (put_futex (W\<lparr>heap := h'\<rparr>) f (fx\<lparr>queues := (queues fx)[k := l]\<rparr>))"
    using fx k rm(1) world_ok_alive [OF ok, of w] w
    by (simp add: futex_cancel_def with_queue_def link_simps que_def)
  moreover have "links_only (heap W) h' {v. v \<noteq> w \<and> (\<exists>j. g_loc g v = InQueue f j)}"
  proof (rule links_only_mono [OF rm(3)], rule subsetI)
    fix v assume "v \<in> set (ys @ zs)"
    with at' [of v] dist show "v \<in> {v. v \<noteq> w \<and> (\<exists>j. g_loc g v = InQueue f j)}" by auto
  qed
  ultimately show ?thesis by (intro that)
qed

lemma futex_cancel_detached:
  assumes ok: "world_ok W g" and fx: "futexes W f = Some fx"
    and w: "g_loc g w = Loose" "detached (heap W) w" "que (heap W) w < length (queues fx)"
  shows "futex_cancel W f w = Inr W"
proof -
  note qs = world_okD(4) [OF ok fx]
  have dl: "dlist (heap W) (queues fx ! que (heap W) w) (g_queues g f ! que (heap W) w)"
    and at: "w \<notin> set (g_queues g f ! que (heap W) w)"
    using queues_okD [OF qs w(3)] w(1) by auto
  from wl.remove_free [OF dl w(2) at]
  have "with_queue W f (w_queue (the (heap W w))) (\<lambda>h l. mapR (\<lambda>(h, l). (h, l, ())) (remove_waiter h l w))
      = Inr ((), W)"
    using fx w(3) by (simp add: with_queue_def que_def)
  then show ?thesis
    using w(2) by (simp add: futex_cancel_def link_simps detached_def)
qed

text \<open>\<open>pop_many\<close> moves the front of a queue into the task's handle list.\<close>

definition pop_many_ghost :: "tid \<Rightarrow> ptr \<Rightarrow> nat \<Rightarrow> nat \<Rightarrow> ghost \<Rightarrow> ghost" where
  "pop_many_ghost t f k n g = g\<lparr>
     g_loc := (\<lambda>w. if w \<in> set (take n (g_queues g f ! k)) then InList t else g_loc g w),
     g_queues := (g_queues g)(f := (g_queues g f)[k := drop n (g_queues g f ! k)]),
     g_list := (g_list g)(t := take n (g_queues g f ! k))\<rparr>"

lemma queue_pop_many_ok:
  assumes ok: "world_ok W g" and fx: "futexes W f = Some fx" and k: "unat q < length (queues fx)"
    and t: "t \<in> rw_readers fx" "g_list g t = []"
    and n: "n = taken count (g_queues g f ! unat q)"
  obtains h' l r where
    "queue_pop_many W f count q =
       Inr (r, put_futex (W\<lparr>heap := h'\<rparr>) f (fx\<lparr>queues := (queues fx)[unat q := l]\<rparr>))"
    "links_only (heap W) h' {v. \<exists>j. g_loc g v = InQueue f j}"
    "dlist h' r (take n (g_queues g f ! unat q))"
    "world_ok (put_futex (W\<lparr>heap := h'\<rparr>) f (fx\<lparr>queues := (queues fx)[unat q := l]\<rparr>))
       (pop_many_ghost t f (unat q) n g)"
proof -
  note qs = world_okD(4) [OF ok fx]
  define xs where "xs = g_queues g f ! unat q"
  have dl: "dlist (heap W) (queues fx ! unat q) xs"
    and at: "v \<in> set xs \<longleftrightarrow> g_loc g v = InQueue f (unat q)" for v
    using queues_okD [OF qs k] by (auto simp: xs_def)
  obtain h' l r where pop: "pop_front_many (heap W) (queues fx ! unat q) count = Inr (h', l, r)"
    "dlist h' r (take n xs)" "dlist h' l (drop n xs)" "links_only (heap W) h' (set xs)"
    using pop_front_many_dlist [OF dl n [folded xs_def]] by auto
  let ?g = "pop_many_ghost t f (unat q) n g"
  have g': "?g = g\<lparr>g_loc := (\<lambda>w. if w \<in> set (take n xs) then InList t else g_loc g w),
     g_queues := (g_queues g)(f := (g_queues g f)[unat q := drop n xs]),
     g_list := (g_list g)(t := take n xs)\<rparr>"
    by (simp add: pop_many_ghost_def xs_def)
  have dist: "distinct xs" using dl by (simp add: dlist_def)
  have in_take: "v \<in> set (take n xs) \<Longrightarrow> g_loc g v = InQueue f (unat q)" for v
    using at [of v] by (auto dest: in_set_takeD)
  have not_list: "g_loc g v \<noteq> InList t" for v
    using world_okD(2) [OF ok] t(2) by (force simp: hands_ok_def)
  have split: "v \<in> set xs \<longleftrightarrow> v \<in> set (take n xs) \<or> v \<in> set (drop n xs)" for v
    by (metis append_take_drop_id Un_iff set_append)
  have disj: "v \<in> set (take n xs) \<Longrightarrow> v \<notin> set (drop n xs)" for v
    using dist set_take_disj_set_drop_if_distinct [of xs n n] by auto
  have "world_ok (put_futex (W\<lparr>heap := h'\<rparr>) f (fx\<lparr>queues := (queues fx)[unat q := l]\<rparr>)) ?g"
  proof (rule world_ok_queue [OF ok fx k _ pop(3)])
    show "links_only (heap W) h' (set (g_queues g f ! unat q))"
      using pop(4) by (simp add: xs_def)
    show "set (drop n xs) = {v. g_loc ?g v = InQueue f (unat q)}"
      using at split disj by (auto simp: g')
    show "hands_ok h' ?g"
      unfolding hands_ok_def
    proof (intro conjI allI impI)
      fix u
      have old: "dls h' null (g_list g u) null"
        by (rule dls_frame [OF pop(4)]) (use world_okD(2) [OF ok] at in \<open>auto simp: hands_ok_def\<close>)
      show "dls h' null (g_list ?g u) null"
        using old pop(2) by (simp add: g' dlist_def)
      show "distinct (g_list ?g u)"
        using world_okD(2) [OF ok] pop(2) by (simp add: g' dlist_def hands_ok_def)
      show "set (g_list ?g u) = {w. g_loc ?g w = InList u}"
        using world_okD(2) [OF ok] not_list in_take by (auto simp: g' hands_ok_def)
    next
      fix w u assume "g_loc ?g w = InHand u"
      then have w: "g_loc g w = InHand u" by (auto simp: g' split: if_splits)
      then have "detached (heap W) w" "w \<notin> set xs"
        using world_okD(2) [OF ok] at [of w] by (auto simp: hands_ok_def)
      then show "detached h' w" using detached_frame [OF pop(4)] by simp
    qed
  qed (use in_take t in \<open>auto simp: g'\<close>)
  moreover have "queue_pop_many W f count q =
      Inr (r, put_futex (W\<lparr>heap := h'\<rparr>) f (fx\<lparr>queues := (queues fx)[unat q := l]\<rparr>))"
    using fx k pop(1) by (simp add: queue_pop_many_def with_queue_def)
  moreover have "links_only (heap W) h' {v. \<exists>j. g_loc g v = InQueue f j}"
    by (rule links_only_mono [OF pop(4)]) (use at in auto)
  ultimately show ?thesis using pop(2) by (intro that) (simp_all add: xs_def)
qed

text \<open>The handle list of a task gives up its waiters one by one.\<close>

lemma into_iter_Nil:
  "dlist (heap W) l (g_list g t) \<Longrightarrow> g_list g t = [] \<Longrightarrow>
     handle_into_iter_next (heap W) l = Inr (heap W, l, None)"
  by (simp add: handle_into_iter_next_def pop_front_Nil)

lemma into_iter_Cons:
  assumes ok: "world_ok W g" and l: "dlist (heap W) l (g_list g t)" and ws: "g_list g t = w # ws"
  obtains h' l' where "handle_into_iter_next (heap W) l = Inr (h', l', Some w)" "dlist h' l' ws"
    "links_only (heap W) h' {v. g_loc g v = InList t}"
    "world_ok (W\<lparr>heap := h'\<rparr>)
       (g\<lparr>g_loc := (g_loc g)(w := InHand t), g_list := (g_list g)(t := ws)\<rparr>)"
proof -
  have "set (g_list g t) = {v. g_loc g v = InList t}"
    using world_okD(2) [OF ok] by (simp add: hands_ok_def)
  then have at: "v \<in> set (w # ws) \<longleftrightarrow> g_loc g v = InList t" for v
    unfolding ws by blast
  obtain h' l' where pop: "pop_front (heap W) l = Inr (h', l', Some w)" "dlist h' l' ws"
    "detached h' w" "links_only (heap W) h' (set (w # ws))"
    using pop_front_Cons [of "heap W" l w ws] l ws by auto
  let ?g = "g\<lparr>g_loc := (g_loc g)(w := InHand t), g_list := (g_list g)(t := ws)\<rparr>"
  have w: "g_loc g w = InList t" "w \<notin> set ws"
    using at [of w] l ws by (auto simp: dlist_def)
  have at_list: "g_loc g v = InList t" if "v \<in> set (w # ws)" for v
    using that at by blast
  have "world_ok (W\<lparr>heap := h'\<rparr>) ?g"
    unfolding world_ok_def
  proof (intro conjI allI impI)
    show "waiters_ok (heap (W\<lparr>heap := h'\<rparr>)) ?g"
      by (rule waiters_ok_frame [OF world_okD(1) [OF ok], where A = "set (w # ws)"])
        (use pop(4) w in \<open>auto split: if_splits\<close>)
    show "hands_ok (heap (W\<lparr>heap := h'\<rparr>)) ?g"
      unfolding hands_ok_def
    proof (intro conjI allI impI)
      fix u
      have "dls h' null (g_list g u) null" if "u \<noteq> t"
        by (rule dls_frame [OF pop(4)]) (use world_okD(2) [OF ok] at_list that in \<open>auto simp: hands_ok_def\<close>)
      then show "dls (heap (W\<lparr>heap := h'\<rparr>)) null (g_list ?g u) null"
        using pop(2) by (auto simp: dlist_def)
      show "distinct (g_list ?g u)"
        using world_okD(2) [OF ok] pop(2) by (simp add: dlist_def hands_ok_def)
      show "set (g_list ?g u) = {w. g_loc ?g w = InList u}"
      proof (cases "u = t")
        case True
        have "v \<in> set ws \<longleftrightarrow> v \<noteq> w \<and> g_loc g v = InList t" for v
          using at [of v] w(2) by auto
        with True show ?thesis by auto
      next
        case False
        then have "g_loc g w \<noteq> InList u" using w(1) by simp
        moreover have "set (g_list g u) = {v. g_loc g v = InList u}"
          using world_okD(2) [OF ok] by (simp add: hands_ok_def)
        ultimately show ?thesis using False by auto
      qed
    next
      fix v u assume "g_loc ?g v = InHand u"
      then have "v = w \<or> v \<noteq> w \<and> g_loc g v = InHand u" by (auto split: if_splits)
      moreover have "detached h' v" if "g_loc g v = InHand u"
      proof -
        have "detached (heap W) v" "v \<notin> set (w # ws)"
          using that world_okD(2) [OF ok] at [of v] by (auto simp: hands_ok_def)
        then show ?thesis using detached_frame [OF pop(4)] by simp
      qed
      ultimately show "detached (heap (W\<lparr>heap := h'\<rparr>)) v"
        using pop(3) by auto
    qed
    fix f fx assume "futexes (W\<lparr>heap := h'\<rparr>) f = Some fx"
    then have fx: "futexes W f = Some fx" by simp
    show "inbox_ok (heap (W\<lparr>heap := h'\<rparr>)) f fx ?g"
      by (rule inbox_ok_frame [OF world_okD(3) [OF ok fx], where A = "set (w # ws)"])
        (use pop(4) w at_list in auto)
    show "queues_ok (heap (W\<lparr>heap := h'\<rparr>)) f fx ?g"
      by (rule queues_ok_frame [OF world_okD(4) [OF ok fx], where A = "set (w # ws)"])
        (use pop(4) w at_list in auto)
    have fut: "fut h' v = fut (heap W) v" if "g_loc g v \<noteq> Loose" for v
      using world_ok_alive [OF ok that] pop(4) links_only_reads(3) by blast
    show "guards_ok (heap (W\<lparr>heap := h'\<rparr>)) f fx ?g"
      unfolding guards_ok_def
    proof (intro conjI allI impI)
      show "rw_writer fx \<noteq> None \<Longrightarrow> rw_readers fx = {}"
        using world_okD(5) [OF ok fx] by (simp add: guards_ok_def)
      fix v u assume v: "(g_loc ?g v = InHand u \<or> g_loc ?g v = InList u) \<and> fut (heap (W\<lparr>heap := h'\<rparr>)) v = f"
      then have "g_loc g v = InHand u \<or> g_loc g v = InList u"
        using w(1) by (auto split: if_splits)
      moreover from this have "fut (heap W) v = f" using v fut [of v] by auto
      ultimately show "u \<in> rw_readers fx"
        using world_okD(5) [OF ok fx] unfolding guards_ok_def by metis
    qed
  qed
  then show ?thesis
    using pop at by (intro that [of h' l'])
      (auto simp: handle_into_iter_next_def intro: links_only_mono)
qed

text \<open>
  \<open>enqueue\<close> appends to every queue the waiters of the inbox that name it, oldest first.
\<close>

lemma enqueue_loop_ok:
  "dlist h l xs \<Longrightarrow> length ls = length qs \<Longrightarrow>
   (\<And>k. k < length qs \<Longrightarrow> dlist h (qs ! k) (ls ! k)) \<Longrightarrow>
   (\<And>k. k < length qs \<Longrightarrow> set xs \<inter> set (ls ! k) = {}) \<Longrightarrow>
   (\<And>j k. j < length qs \<Longrightarrow> k < length qs \<Longrightarrow> j \<noteq> k \<Longrightarrow> set (ls ! j) \<inter> set (ls ! k) = {}) \<Longrightarrow>
   (\<And>x. x \<in> set xs \<Longrightarrow> que h x < length qs) \<Longrightarrow>
   \<exists>h' qs'. enqueue_loop h l qs = Some (Inr (h', qs')) \<and> length qs' = length qs \<and>
     (\<forall>k < length qs. dlist h' (qs' ! k) (ls ! k @ filter (\<lambda>x. que h x = k) xs)) \<and>
     links_only h h' (set xs \<union> \<Union> (set ` set ls))"
proof (induction xs arbitrary: h l qs ls)
  case Nil
  then show ?case
    by (subst enqueue_loop.simps) (simp add: wl.pop_Nil)
next
  case (Cons x xs)
  define k where "k = que h x"
  have k: "k < length qs" "k < length ls"
    using Cons.prems(2,6) by (simp_all add: k_def)
  have disj: "set (x # xs) \<inter> set (ls ! k) = {}"
    using Cons.prems(4) k by blast
  obtain h1 l1 h2 m where mv: "pop_front h l = Inr (h1, l1, Some x)"
    "push_back h1 (qs ! k) x = Inr (h2, m)" "dlist h2 l1 xs" "dlist h2 m (ls ! k @ [x])"
    "links_only h h1 (set (x # xs))" "links_only h h2 (set (x # xs) \<union> set (ls ! k))"
    using wl.move_head [OF Cons.prems(1) Cons.prems(3) [OF k(1)] disj] by metis
  have alive: "alive h v" if "v \<in> set (x # xs)" for v
    using dlist_alive [OF Cons.prems(1) that] .
  have que: "que h2 v = que h v" if "v \<in> set (x # xs)" for v
    using alive [OF that] links_only_reads(4) [OF mv(6)] by blast
  have q: "waiter_queue h1 x = Inr (w_queue (the (h1 x)))" "unat (w_queue (the (h1 x))) = k"
    using alive [of x] links_only_reads(1,4) [OF mv(5), of x]
    by (auto simp: link_simps k_def que_def)
  let ?qs = "qs[k := m]" and ?ls = "ls[k := ls ! k @ [x]]"
  have step: "enqueue_loop h l qs = enqueue_loop h2 l1 ?qs"
    using mv(1,2) q k by (subst enqueue_loop.simps) simp
  have xs: "x \<notin> set xs" using Cons.prems(1) by (simp add: dlist_def)
  have "\<exists>h' qs'. enqueue_loop h2 l1 ?qs = Some (Inr (h', qs')) \<and> length qs' = length ?qs \<and>
     (\<forall>j < length ?qs. dlist h' (qs' ! j) (?ls ! j @ filter (\<lambda>x. que h2 x = j) xs)) \<and>
     links_only h2 h' (set xs \<union> \<Union> (set ` set ?ls))"
  proof (rule Cons.IH [OF mv(3)])
    fix j assume j: "j < length ?qs"
    show "dlist h2 (?qs ! j) (?ls ! j)"
    proof (cases "j = k")
      case True
      with mv(4) k Cons.prems(2) show ?thesis by simp
    next
      case False
      have "set (ls ! j) \<inter> (set (x # xs) \<union> set (ls ! k)) = {}"
        using Cons.prems(4) [of j] Cons.prems(5) [of j k] j k False by auto
      with False show ?thesis
        using dlist_frame [OF mv(6) Cons.prems(3) [of j]] j by simp
    qed
    show "set xs \<inter> set (?ls ! j) = {}"
      using Cons.prems(4) [of j] j k xs by (auto simp: nth_list_update)
  next
    fix j i assume "j < length ?qs" "i < length ?qs" "j \<noteq> i"
    then show "set (?ls ! j) \<inter> set (?ls ! i) = {}"
      using Cons.prems(5) [of j i] Cons.prems(4) [of j] Cons.prems(4) [of i] k
      by (auto simp: nth_list_update)
  next
    fix v assume "v \<in> set xs"
    with que [of v] Cons.prems(6) [of v] show "que h2 v < length ?qs" by simp
  qed (use Cons.prems(2) in simp)
  then obtain h' qs' where IH: "enqueue_loop h2 l1 ?qs = Some (Inr (h', qs'))" "length qs' = length qs"
    "\<forall>j < length qs. dlist h' (qs' ! j) (?ls ! j @ filter (\<lambda>x. que h2 x = j) xs)"
    "links_only h2 h' (set xs \<union> \<Union> (set ` set ?ls))"
    by auto
  have fil: "filter (\<lambda>x. que h2 x = j) xs = filter (\<lambda>x. que h x = j) xs" for j
    using que by (auto intro: filter_cong)
  have lists: "?ls ! j @ filter (\<lambda>x. que h2 x = j) xs = ls ! j @ filter (\<lambda>x. que h x = j) (x # xs)"
    if "j < length qs" for j
    using that k by (auto simp: fil nth_list_update k_def)
  have sub: "\<Union> (set ` set ?ls) \<subseteq> insert x (\<Union> (set ` set ls))"
  proof -
    have "set ?ls \<subseteq> insert (ls ! k @ [x]) (set ls)" by (rule set_update_subset_insert)
    moreover have "set (ls ! k) \<subseteq> \<Union> (set ` set ls)" using nth_mem [OF k(2)] by blast
    ultimately show ?thesis by fastforce
  qed
  have "links_only h h' (set (x # xs) \<union> \<Union> (set ` set ls))"
  proof (rule links_only_step [OF mv(6) IH(4)])
    show "set (x # xs) \<union> set (ls ! k) \<subseteq> set (x # xs) \<union> \<Union> (set ` set ls)"
      using nth_mem [OF k(2)] by blast
    show "set xs \<union> \<Union> (set ` set ?ls) \<subseteq> set (x # xs) \<union> \<Union> (set ` set ls)"
      using sub by auto
  qed
  with IH lists show ?case
    by (simp add: step)
qed

definition enqueue_ghost :: "heap \<Rightarrow> ptr \<Rightarrow> ghost \<Rightarrow> ghost" where
  "enqueue_ghost h f g = g\<lparr>
     g_loc := (\<lambda>w. if g_loc g w = Inbox f then InQueue f (que h w) else g_loc g w),
     g_inbox := (g_inbox g)(f := []),
     g_queues := (g_queues g)(f := map (\<lambda>k. g_queues g f ! k @
         filter (\<lambda>w. que h w = k) (rev (g_inbox g f))) [0..<length (g_queues g f)])\<rparr>"

lemma futex_enqueue_ok:
  assumes ok: "world_ok W g" and fx: "futexes W f = Some fx"
    and fx1: "fx1 = fx\<lparr>futex_atom := \<lparr>fa_atom = a, fa_inbox = null\<rparr>\<rparr>"
  obtains h' qs' where
    "futex_enqueue (put_futex W f fx1) f (fa_inbox (futex_atom fx)) =
       Inr (put_futex (W\<lparr>heap := h'\<rparr>) f (fx1\<lparr>queues := qs'\<rparr>))"
    "length qs' = length (queues fx)"
    "links_only (heap W) h' {v. at_futex f (g_loc g v)}"
    "world_ok (put_futex (W\<lparr>heap := h'\<rparr>) f (fx1\<lparr>queues := qs'\<rparr>)) (enqueue_ghost (heap W) f g)"
proof -
  note ib = world_okD(3) [OF ok fx] and qs = world_okD(4) [OF ok fx]
  let ?h = "heap W" and ?n = "length (queues fx)" and ?ib = "g_inbox g f" and ?ls = "g_queues g f"
  obtain h1 l where st: "from_stack ?h (fa_inbox (futex_atom fx)) = Inr (h1, l)"
    "dlist h1 l (rev ?ib)" "links_only ?h h1 (set ?ib)"
    using from_stack_dlist [of ?h "fa_inbox (futex_atom fx)" ?ib] ib by (auto simp: inbox_ok_def)
  have len: "length ?ls = ?n" using qs by (simp add: queues_ok_def)
  have at_ib: "v \<in> set ?ib \<longleftrightarrow> g_loc g v = Inbox f" for v
    using ib by (auto simp: inbox_ok_def)
  have at_q: "v \<in> set (?ls ! k) \<longleftrightarrow> g_loc g v = InQueue f k" if "k < ?n" for v k
    using queues_okD(2) [OF qs that] by auto
  have que1: "que h1 v = que ?h v" if "g_loc g v = Inbox f" for v
    using links_only_reads(4) [OF st(3)] world_ok_alive [OF ok, of v] that by simp
  have "\<exists>h' qs'. enqueue_loop h1 l (queues fx) = Some (Inr (h', qs')) \<and> length qs' = ?n \<and>
     (\<forall>k < ?n. dlist h' (qs' ! k) (?ls ! k @ filter (\<lambda>x. que h1 x = k) (rev ?ib))) \<and>
     links_only h1 h' (set (rev ?ib) \<union> \<Union> (set ` set ?ls))"
  proof (rule enqueue_loop_ok [OF st(2) len])
    fix k assume k: "k < ?n"
    show disj: "set (rev ?ib) \<inter> set (?ls ! k) = {}"
      using at_ib at_q [OF k] by (auto simp: disjoint_iff)
    then show "dlist h1 (queues fx ! k) (?ls ! k)"
      using dlist_frame [OF st(3) queues_okD(1) [OF qs k]] by auto
  next
    fix j k assume "j < ?n" "k < ?n" "j \<noteq> k"
    then show "set (?ls ! j) \<inter> set (?ls ! k) = {}"
      using at_q by (auto simp: disjoint_iff)
  next
    fix x assume "x \<in> set (rev ?ib)"
    then have "g_loc g x = Inbox f" using at_ib by simp
    with que1 [OF this] ib show "que h1 x < ?n" by (simp add: inbox_ok_def)
  qed
  then obtain h' qs' where enq: "enqueue_loop h1 l (queues fx) = Some (Inr (h', qs'))"
    "length qs' = ?n" "\<forall>k < ?n. dlist h' (qs' ! k) (?ls ! k @ filter (\<lambda>x. que h1 x = k) (rev ?ib))"
    "links_only h1 h' (set (rev ?ib) \<union> \<Union> (set ` set ?ls))"
    by blast
  let ?g = "enqueue_ghost ?h f g" and ?A = "{v. at_futex f (g_loc g v)}"
  have fil: "filter (\<lambda>x. que h1 x = k) (rev ?ib) = filter (\<lambda>x. que ?h x = k) (rev ?ib)" for k
    by (rule filter_cong) (use que1 at_ib in auto)
  have subA: "set ?ib \<subseteq> ?A"
    using at_ib by (auto simp: at_futex_def)
  have subB: "\<Union> (set ` set ?ls) \<subseteq> ?A"
  proof
    fix v assume "v \<in> \<Union> (set ` set ?ls)"
    then obtain xs where "xs \<in> set ?ls" "v \<in> set xs" by auto
    then obtain k where "k < ?n" "v \<in> set (?ls ! k)" by (metis in_set_conv_nth len)
    with at_q show "v \<in> ?A" by (auto simp: at_futex_def)
  qed
  have links: "links_only ?h h' ?A"
    using links_only_step [OF st(3) enq(4)] subA subB by simp
  have keep: "alive h' v" "que h' v = que ?h v" "fut h' v = fut ?h v" if "g_loc g v \<noteq> Loose" for v
    using links_only_reads [OF links, of v] world_ok_alive [OF ok that] by auto
  let ?W = "put_futex (W\<lparr>heap := h'\<rparr>) f (fx1\<lparr>queues := qs'\<rparr>)"
  have "world_ok ?W ?g"
  proof (rule world_ok_futexI [OF ok links, where f = f and fx' = "fx1\<lparr>queues := qs'\<rparr>"])
    show "inbox_ok h' f (fx1\<lparr>queues := qs'\<rparr>) ?g"
      by (auto simp: inbox_ok_def enqueue_ghost_def fx1)
    show "queues_ok h' f (fx1\<lparr>queues := qs'\<rparr>) ?g"
      unfolding queues_ok_def
    proof (intro conjI allI impI)
      fix k assume "k < length (queues (fx1\<lparr>queues := qs'\<rparr>))"
      then have k: "k < ?n" using enq(2) by simp
      then have gq: "g_queues ?g f ! k = ?ls ! k @ filter (\<lambda>w. que ?h w = k) (rev ?ib)"
        using len by (simp add: enqueue_ghost_def)
      show "dlist h' (queues (fx1\<lparr>queues := qs'\<rparr>) ! k) (g_queues ?g f ! k)"
        using enq(3) k by (simp add: gq fil)
      show "set (g_queues ?g f ! k) = {w. g_loc ?g w = InQueue f k}"
        unfolding gq using at_q [OF k] at_ib by (auto simp: enqueue_ghost_def)
    next
      fix w k assume "g_loc ?g w = InQueue f k"
      then have "g_loc g w = InQueue f k \<or> g_loc g w = Inbox f \<and> que ?h w = k"
        by (auto simp: enqueue_ghost_def split: if_splits)
      then show "k < length (queues (fx1\<lparr>queues := qs'\<rparr>))" "que h' w = k" "fut h' w = f"
        using keep [of w] ib qs enq(2) by (auto simp: inbox_ok_def queues_ok_def)
    qed (use enq(2) len in \<open>simp_all add: enqueue_ghost_def\<close>)
    show "guards_ok h' f (fx1\<lparr>queues := qs'\<rparr>) ?g"
      by (rule guards_ok_frame [OF world_okD(5) [OF ok fx]])
        (use keep in \<open>auto simp: fx1 enqueue_ghost_def split: if_splits\<close>)
    show "hands_ok h' ?g"
      by (rule hands_ok_frame [OF world_okD(2) [OF ok] links])
        (auto simp: at_futex_def enqueue_ghost_def split: if_splits)
    fix w assume "g_loc ?g w \<noteq> g_loc g w"
    with ib show "g_loc g w \<noteq> Loose \<and> fut (heap W) w = f \<and>
        (\<forall>f'. f' \<noteq> f \<longrightarrow> \<not> at_futex f' (g_loc g w) \<and> \<not> at_futex f' (g_loc ?g w))"
      by (auto simp: enqueue_ghost_def inbox_ok_def at_futex_def split: if_splits)
  qed (auto simp: enqueue_ghost_def at_futex_def put_futex_def)
  moreover have "futex_enqueue (put_futex W f fx1) f (fa_inbox (futex_atom fx)) = Inr ?W"
    using st(1) enq(1) by (simp add: futex_enqueue_def enqueue_def fx1 put_futex_def)
  ultimately show ?thesis
    using that links enq(2) by blast
qed

end
