(* ===== verification/Futex_Ops.thy ===== *)
theory Futex_Ops imports Futex begin

text \<open>
  The remaining contracts of \<open>src/futex/mod.rs\<close>: the operations that move the inbox to the
  queues, the test for an empty queue, and the swap that wakes a popped waiter.
\<close>

lemma inbox_null:
  assumes "world_ok W g" "futexes W f = Some fx"
  shows "fa_inbox (futex_atom fx) = null \<longleftrightarrow> g_inbox g f = []"
proof -
  have st: "is_stack (heap W) (fa_inbox (futex_atom fx)) (g_inbox g f)"
    using world_okD(3) [OF assms] by (simp add: inbox_ok_def)
  then show ?thesis
    by (cases "g_inbox g f") (auto simp: alive_not_null)
qed

lemma has_new_waiters_iff:
  "world_ok W g \<Longrightarrow> futexes W f = Some fx \<Longrightarrow>
     has_new_waiters (futex_atom fx) \<longleftrightarrow> g_inbox g f \<noteq> []"
  by (simp add: has_new_waiters_def inbox_null)

lemma enqueue_ghost_Nil:
  assumes "world_ok W g" "futexes W f = Some fx" "g_inbox g f = []"
  shows "enqueue_ghost h f g = g"
proof -
  have "set (g_inbox g f) = {w. g_loc g w = Inbox f}"
    using world_okD(3) [OF assms(1,2)] by (simp add: inbox_ok_def)
  then have "(\<lambda>w. if g_loc g w = Inbox f then InQueue f (que h w) else g_loc g w) = g_loc g"
    using assms(3) by auto
  moreover have "map ((!) (g_queues g f)) [0..<length (g_queues g f)] = g_queues g f"
    by (rule map_nth)
  ultimately show ?thesis
    using assms(3) by (simp add: enqueue_ghost_def fun_upd_idem)
qed

lemma cmpxchg_enqueue_weak_fail:
  assumes "futexes W f = Some fx" "cas_orders (ORDERING so) (ORDERING fo)" "futex_atom fx \<noteq> cur \<or> spurious"
  shows "cmpxchg_enqueue_weak spurious so fo W f cur new = Inr (False, futex_atom fx, W)"
  using assms by (auto simp: cmpxchg_enqueue_weak_def raw_cmpxchg_weak_eq)

lemma cmpxchg_enqueue_weak_ok:
  assumes ok: "world_ok W g" and fx: "futexes W f = Some fx" and fo: "cas_orders (ORDERING so) (ORDERING fo)"
  obtains h' qs' where
    "cmpxchg_enqueue_weak False so fo W f (futex_atom fx) new =
       Inr (True, futex_atom fx, put_futex (W\<lparr>heap := h'\<rparr>) f
         (fx\<lparr>futex_atom := \<lparr>fa_atom = new, fa_inbox = null\<rparr>, queues := qs'\<rparr>))"
    "length qs' = length (queues fx)"
    "links_only (heap W) h' {v. at_futex f (g_loc g v)}"
    "world_ok (put_futex (W\<lparr>heap := h'\<rparr>) f
         (fx\<lparr>futex_atom := \<lparr>fa_atom = new, fa_inbox = null\<rparr>, queues := qs'\<rparr>))
       (enqueue_ghost (heap W) f g)"
proof (cases "fa_inbox (futex_atom fx) = null")
  case True
  then have g: "enqueue_ghost (heap W) f g = g"
    using inbox_null [OF ok fx] enqueue_ghost_Nil [OF ok fx] by simp
  let ?a = "\<lparr>fa_atom = new, fa_inbox = null\<rparr>"
  have "world_ok (put_futex W f (fx\<lparr>futex_atom := ?a\<rparr>)) g"
    by (rule world_ok_put_atom [OF ok fx]) (simp add: True)
  moreover have "cmpxchg_enqueue_weak False so fo W f (futex_atom fx) new =
      Inr (True, futex_atom fx, put_futex W f (fx\<lparr>futex_atom := ?a\<rparr>))"
    using fx fo True by (simp add: cmpxchg_enqueue_weak_def raw_cmpxchg_weak_eq)
  ultimately show ?thesis
    by (intro that [of "heap W" "queues fx"]) (simp_all add: g)
next
  case False
  let ?a = "\<lparr>fa_atom = new, fa_inbox = null\<rparr>"
  obtain h' qs' where enq:
    "futex_enqueue (put_futex W f (fx\<lparr>futex_atom := ?a\<rparr>)) f (fa_inbox (futex_atom fx)) =
       Inr (put_futex (W\<lparr>heap := h'\<rparr>) f (fx\<lparr>futex_atom := ?a, queues := qs'\<rparr>))"
    "length qs' = length (queues fx)" "links_only (heap W) h' {v. at_futex f (g_loc g v)}"
    "world_ok (put_futex (W\<lparr>heap := h'\<rparr>) f (fx\<lparr>futex_atom := ?a, queues := qs'\<rparr>))
       (enqueue_ghost (heap W) f g)"
    by (rule futex_enqueue_ok [OF ok fx refl])
  then show ?thesis
    using fx fo False
    by (intro that [of h' qs']) (simp_all add: cmpxchg_enqueue_weak_def raw_cmpxchg_weak_eq)
qed

text \<open>\<open>flip\<close> ends after the iteration that finds the inbox empty or takes it.\<close>

lemma flip_iter_empty: "fa_inbox a = null \<Longrightarrow> flip_iter spurious W f a = Inr (None, W)"
  by (simp add: flip_iter_def)

lemma flip_iter_fail:
  assumes "futexes W f = Some fx" "fa_inbox a \<noteq> null" "futex_atom fx \<noteq> a \<or> spurious"
  shows "flip_iter spurious W f a = Inr (Some (futex_atom fx), W)"
  using assms by (auto simp: flip_iter_def raw_cmpxchg_weak_eq)

lemma flip_iter_ok:
  assumes ok: "world_ok W g" and fx: "futexes W f = Some fx" and inbox: "fa_inbox (futex_atom fx) \<noteq> null"
  obtains h' qs' where
    "flip_iter False W f (futex_atom fx) =
       Inr (None, put_futex (W\<lparr>heap := h'\<rparr>) f
         (fx\<lparr>futex_atom := (futex_atom fx)\<lparr>fa_inbox := null\<rparr>, queues := qs'\<rparr>))"
    "length qs' = length (queues fx)"
    "links_only (heap W) h' {v. at_futex f (g_loc g v)}"
    "world_ok (put_futex (W\<lparr>heap := h'\<rparr>) f
         (fx\<lparr>futex_atom := (futex_atom fx)\<lparr>fa_inbox := null\<rparr>, queues := qs'\<rparr>))
       (enqueue_ghost (heap W) f g)"
proof -
  let ?a = "(futex_atom fx)\<lparr>fa_inbox := null\<rparr>"
  have a: "?a = \<lparr>fa_atom = fa_atom (futex_atom fx), fa_inbox = null\<rparr>"
    by (rule raw_futex_atom.equality) simp_all
  obtain h' qs' where enq:
    "futex_enqueue (put_futex W f (fx\<lparr>futex_atom := ?a\<rparr>)) f (fa_inbox (futex_atom fx)) =
       Inr (put_futex (W\<lparr>heap := h'\<rparr>) f (fx\<lparr>futex_atom := ?a, queues := qs'\<rparr>))"
    "length qs' = length (queues fx)" "links_only (heap W) h' {v. at_futex f (g_loc g v)}"
    "world_ok (put_futex (W\<lparr>heap := h'\<rparr>) f (fx\<lparr>futex_atom := ?a, queues := qs'\<rparr>))
       (enqueue_ghost (heap W) f g)"
    by (rule futex_enqueue_ok [OF ok fx refl, of "fa_atom (futex_atom fx)"]) (simp add: a)
  then show ?thesis
    using fx inbox
    by (intro that [of h' qs']) (simp_all add: flip_iter_def raw_cmpxchg_weak_eq)
qed

lemma queue_is_empty_eq:
  assumes "world_ok W g" "futexes W f = Some fx" "unat q < length (queues fx)"
  shows "queue_is_empty W f q = Inr (g_queues g f ! unat q = [])"
proof -
  have "dlist (heap W) (queues fx ! unat q) (g_queues g f ! unat q)"
    using queues_okD(1) [OF world_okD(4) [OF assms(1,2)] assms(3)] .
  then show ?thesis
    using assms by (simp add: queue_is_empty_def is_empty_def dlist_head)
qed

text \<open>The swap of a popped waiter's waker cannot panic and returns the waker to call.\<close>

definition wake_ghost :: "ptr \<Rightarrow> ghost \<Rightarrow> ghost" where
  "wake_ghost w g = g\<lparr>g_loc := (g_loc g)(w := Loose)\<rparr>"

lemma wake_swap_ok:
  assumes ok: "world_ok W g" and w: "g_loc g w = InHand t"
  obtains k where "wkr (heap W) w = WakerWaiting k"
    "wake_swap W w = Inr (k, W\<lparr>heap := put_waker (heap W) w WakerDone\<rparr>)"
    "world_ok (W\<lparr>heap := put_waker (heap W) w WakerDone\<rparr>) (wake_ghost w g)"
proof -
  have alive: "alive (heap W) w"
    using world_ok_alive [OF ok] w by simp
  obtain k where k: "wkr (heap W) w = WakerWaiting k"
    using world_ok_waiting [OF ok, of w] w by auto
  have "wake_swap W w = Inr (k, W\<lparr>heap := put_waker (heap W) w WakerDone\<rparr>)"
    using alive k by (simp add: wake_swap_def link_simps wkr_def)
  moreover have "world_ok (W\<lparr>heap := put_waker (heap W) w WakerDone\<rparr>) (wake_ghost w g)"
    unfolding wake_ghost_def by (rule world_ok_wake [OF ok w]) simp_all
  ultimately show ?thesis using k that by blast
qed

section \<open>Properties\<close>

text \<open>
  \<open>cmpxchg_enqueue_weak\<close> either fails and changes nothing, or sets the atom, empties the
  inbox and appends to every queue the waiters of the inbox that name it, in the order in
  which they were pushed; the memory stays well formed and only links are written.
\<close>

theorem cmpxchg_enqueue_appends:
  assumes ok: "world_ok W g" and fx: "futexes W f = Some fx" and fo: "cas_orders (ORDERING so) (ORDERING fo)" and k: "k < length (queues fx)"
  shows "\<exists>W' fx'. cmpxchg_enqueue_weak spurious so fo W f cur new =
        Inr (futex_atom fx = cur \<and> \<not> spurious, if futex_atom fx = cur \<and> \<not> spurious then cur else futex_atom fx,
             if futex_atom fx = cur \<and> \<not> spurious then W' else W) \<and>
      futexes W' f = Some fx' \<and> futex_atom fx' = \<lparr>fa_atom = new, fa_inbox = null\<rparr> \<and>
      iter_list (heap W') (queues fx' ! k) =
        Inr (g_queues g f ! k @ filter (\<lambda>w. que (heap W) w = k) (rev (g_inbox g f))) \<and>
      world_ok W' (enqueue_ghost (heap W) f g) \<and>
      links_only (heap W) (heap W') {v. at_futex f (g_loc g v)}"
proof -
  obtain h' qs' where enq: "cmpxchg_enqueue_weak False so fo W f (futex_atom fx) new =
       Inr (True, futex_atom fx, put_futex (W\<lparr>heap := h'\<rparr>) f
         (fx\<lparr>futex_atom := \<lparr>fa_atom = new, fa_inbox = null\<rparr>, queues := qs'\<rparr>))"
    "length qs' = length (queues fx)" "links_only (heap W) h' {v. at_futex f (g_loc g v)}"
    "world_ok (put_futex (W\<lparr>heap := h'\<rparr>) f
         (fx\<lparr>futex_atom := \<lparr>fa_atom = new, fa_inbox = null\<rparr>, queues := qs'\<rparr>))
       (enqueue_ghost (heap W) f g)" (is "world_ok ?W ?g")
    by (rule cmpxchg_enqueue_weak_ok [OF ok fx fo])
  let ?fx = "fx\<lparr>futex_atom := \<lparr>fa_atom = new, fa_inbox = null\<rparr>, queues := qs'\<rparr>"
  have fx': "futexes ?W f = Some ?fx" by simp
  have dl: "dlist (heap ?W) (queues ?fx ! k) (g_queues ?g f ! k)"
    by (rule queues_okD(1) [OF world_okD(4) [OF enq(4) fx']]) (use k enq(2) in simp)
  have gq: "g_queues ?g f ! k = g_queues g f ! k @ filter (\<lambda>w. que (heap W) w = k) (rev (g_inbox g f))"
    using k world_okD(4) [OF ok fx] by (simp add: enqueue_ghost_def queues_ok_def)
  have "iter_list (heap ?W) (queues ?fx ! k) =
      Inr (g_queues g f ! k @ filter (\<lambda>w. que (heap W) w = k) (rev (g_inbox g f)))"
    using iter_list_dlist [OF dl] unfolding gq .
  moreover have "cmpxchg_enqueue_weak spurious so fo W f cur new =
        Inr (futex_atom fx = cur \<and> \<not> spurious, if futex_atom fx = cur \<and> \<not> spurious then cur else futex_atom fx,
             if futex_atom fx = cur \<and> \<not> spurious then ?W else W)"
  proof (cases "futex_atom fx = cur \<and> \<not> spurious")
    case True
    with enq(1) show ?thesis by auto
  next
    case False
    then show ?thesis using cmpxchg_enqueue_weak_fail [OF fx fo] by auto
  qed
  ultimately show ?thesis
    using enq(3,4) fx' by (intro exI [of _ ?W] exI [of _ ?fx]) simp
qed

text \<open>A futex at 100 with one queue, and two waiters that were pushed on its inbox.\<close>

definition demo_futex :: raw_futex where
  "demo_futex = (futex_new 1 1)\<lparr>futex_atom := \<lparr>fa_atom = 1, fa_inbox = 16\<rparr>\<rparr>"

definition demo_world :: world where
  "demo_world = \<lparr>heap = Map.empty(
       8 \<mapsto> (waiter_new 100 0 0)\<lparr>w_waker := WakerWaiting \<lparr>cw_data = 1, cw_vtable = 900\<rparr>\<rparr>,
       16 \<mapsto> (waiter_new 100 0 0)\<lparr>w_prev := 8, w_waker := WakerWaiting \<lparr>cw_data = 2, cw_vtable = 900\<rparr>\<rparr>),
     futexes = [100 \<mapsto> demo_futex], clones = [], wakes = [], drops = []\<rparr>"

definition demo_ghost :: ghost where
  "demo_ghost = \<lparr>g_loc = (\<lambda>w. if w = 8 \<or> w = 16 then Inbox 100 else Loose),
     g_inbox = (\<lambda>f. if f = 100 then [16, 8] else []), g_queues = (\<lambda>_. [[]]), g_list = (\<lambda>_. [])\<rparr>"

lemma demo_world_ok: "world_ok demo_world demo_ghost"
proof -
  have "waiters_ok (heap demo_world) demo_ghost"
    by (auto simp: waiters_ok_def demo_world_def demo_ghost_def alive_def wkr_def)
  moreover have "hands_ok (heap demo_world) demo_ghost"
    by (auto simp: hands_ok_def demo_ghost_def)
  moreover have "inbox_ok (heap demo_world) 100 demo_futex demo_ghost"
    by (auto simp: inbox_ok_def demo_world_def demo_ghost_def demo_futex_def futex_new_def alive_def
        prv_def nxt_def fut_def que_def waiter_new_def)
  moreover have "queues_ok (heap demo_world) 100 demo_futex demo_ghost"
    by (auto simp: queues_ok_def demo_ghost_def demo_futex_def futex_new_def)
  moreover have "guards_ok (heap demo_world) 100 demo_futex demo_ghost"
    by (auto simp: guards_ok_def demo_ghost_def demo_futex_def futex_new_def)
  ultimately show ?thesis
    by (auto simp: world_ok_def demo_world_def split: if_splits)
qed

theorem cmpxchg_enqueue_appends_witness:
  "\<exists>W' fx'. cmpxchg_enqueue_weak False AcquireT RelaxedT demo_world 100 \<lparr>fa_atom = 1, fa_inbox = 16\<rparr> 1 =
       Inr (True, \<lparr>fa_atom = 1, fa_inbox = 16\<rparr>, W') \<and>
     futexes W' 100 = Some fx' \<and> iter_list (heap W') (queues fx' ! 0) = Inr [8, 16]"
proof -
  have fx: "futexes demo_world 100 = Some demo_futex" by (simp add: demo_world_def)
  have "filter (\<lambda>w. que (heap demo_world) w = 0) (rev (g_inbox demo_ghost 100)) = [8, 16]"
    "g_queues demo_ghost 100 ! 0 = []"
    by (simp_all add: demo_ghost_def demo_world_def que_def waiter_new_def)
  with cmpxchg_enqueue_appends [OF demo_world_ok fx, of AcquireT RelaxedT 0 False "\<lparr>fa_atom = 1, fa_inbox = 16\<rparr>" 1]
  show ?thesis
    by (simp add: demo_futex_def futex_new_def) blast
qed

text \<open>
  The swap that wakes a popped waiter cannot panic: the slot holds the waker of the
  waiter's task, which is returned exactly once and replaced by the mark \<open>Done\<close>; the waiter
  then belongs to its task alone.
\<close>

theorem wake_swap_returns_waker:
  assumes ok: "world_ok W g" and w: "g_loc g w = InHand t"
  shows "\<exists>k W'. wake_swap W w = Inr (k, W') \<and> wkr (heap W) w = WakerWaiting k \<and>
    wkr (heap W') w = WakerDone \<and> (\<forall>v. v \<noteq> w \<longrightarrow> heap W' v = heap W v) \<and>
    wake_swap W' w = Inl Panic \<and> world_ok W' (wake_ghost w g)"
proof -
  obtain k where k: "wkr (heap W) w = WakerWaiting k"
    "wake_swap W w = Inr (k, W\<lparr>heap := put_waker (heap W) w WakerDone\<rparr>)"
    "world_ok (W\<lparr>heap := put_waker (heap W) w WakerDone\<rparr>) (wake_ghost w g)"
    by (rule wake_swap_ok [OF ok w])
  have a: "alive (heap W) w" using world_ok_alive [OF ok, of w] w by simp
  let ?W = "W\<lparr>heap := put_waker (heap W) w WakerDone\<rparr>"
  have "wake_swap ?W w = Inl Panic"
    using a by (simp add: wake_swap_def link_simps put_waker_lists [OF a] put_waker_reads)
  then show ?thesis
    using k by (intro exI [of _ k] exI [of _ ?W]) (auto simp: put_waker_reads, simp add: put_waker_def)
qed

definition hand_world :: world where
  "hand_world = \<lparr>heap = Map.empty(
       8 \<mapsto> (waiter_new 100 0 0)\<lparr>w_waker := WakerWaiting \<lparr>cw_data = 1, cw_vtable = 900\<rparr>\<rparr>),
     futexes = Map.empty, clones = [], wakes = [], drops = []\<rparr>"

definition hand_ghost :: ghost where
  "hand_ghost = \<lparr>g_loc = (\<lambda>w. if w = 8 then InHand 3 else Loose), g_inbox = (\<lambda>_. []),
     g_queues = (\<lambda>_. []), g_list = (\<lambda>_. [])\<rparr>"

theorem wake_swap_returns_waker_witness:
  "\<exists>W'. wake_swap hand_world 8 = Inr (\<lparr>cw_data = 1, cw_vtable = 900\<rparr>, W') \<and>
     wkr (heap W') 8 = WakerDone"
proof -
  have ok: "world_ok hand_world hand_ghost"
    by (auto simp: world_ok_def waiters_ok_def hands_ok_def alive_def wkr_def detached_def nxt_def
        prv_def waiter_new_def hand_world_def hand_ghost_def split: if_splits)
  have w: "g_loc hand_ghost 8 = InHand 3" by (simp add: hand_ghost_def)
  have k: "wkr (heap hand_world) 8 = WakerWaiting \<lparr>cw_data = 1, cw_vtable = 900\<rparr>"
    by (simp add: wkr_def hand_world_def)
  from wake_swap_returns_waker [OF ok w] k show ?thesis by auto
qed

end
