(* ===== verification/Wait_Future.thy ===== *)
theory Wait_Future imports Futex_Ops begin

text \<open>
  \<open>src/futex/wait_future.rs\<close>: the future of a conditional wait, from the compare-exchange
  that pushes its waiter on the inbox, over the polls that replace the waker, to the drop that
  takes the waiter back out of whatever futex it is queued on.
\<close>

section \<open>The future\<close>

datatype wait_step = Enter | Waiting | StepDone

record wait_future =
  wf_original_futex :: ptr
  wf_current :: raw_futex_atom
  wf_new :: usize
  wf_step :: wait_step
  wf_waiter :: ptr

text \<open>
  \<open>Futex::cmpxchg_wait_weak_impl\<close> asserts that the waiter belongs to this futex. The
  closures of the future are the caller's: they are run by its step function.
\<close>

definition cmpxchg_wait_weak ::
  "world \<Rightarrow> ptr \<Rightarrow> ptr \<Rightarrow> raw_futex_atom \<Rightarrow> usize \<Rightarrow> wait_future res" where
  "cmpxchg_wait_weak W f waiter current new =
     bindR (waiter_futex (heap W) waiter) (\<lambda>f'.
     bindR (ensure (f' = f)) (\<lambda>_.
       Inr \<lparr>wf_original_futex = f, wf_current = current, wf_new = new, wf_step = Enter,
            wf_waiter = waiter\<rparr>))"

section \<open>Polling\<close>

text \<open>
  \<open>poll_enter\<close>: everything before the compare-exchange touches the waiter only, which no
  other task can reach yet. \<open>True\<close> is \<open>Poll::Pending\<close>, after which the caller runs
  \<open>on_pending\<close>; \<open>False\<close> is \<open>Poll::Ready(false)\<close>.
\<close>

definition poll_enter ::
  "bool \<Rightarrow> copy_waker \<Rightarrow> world \<Rightarrow> wait_future \<Rightarrow> (bool \<times> wait_future \<times> world) res" where
  "poll_enter spurious cx W wait =
     (let waiter = wf_waiter wait in
      bindR (set_prev (heap W) waiter (fa_inbox (wf_current wait))) (\<lambda>h.
      bindR (waiter_get_waker h waiter) (\<lambda>slot.
      bindR (case slot of
               WakerNone \<Rightarrow>
                 mapR (\<lambda>h. clone_waker (W\<lparr>heap := h\<rparr>) cx) (set_waker h waiter (WakerWaiting cx))
             | WakerWaiting _ \<Rightarrow> Inr (W\<lparr>heap := h\<rparr>)
             | WakerDone \<Rightarrow> Inl Panic) (\<lambda>W.
      bindR (raw_cmpxchg_weak spurious AcqRelT AcquireT W (wf_original_futex wait) (wf_current wait)
               \<lparr>fa_atom = wf_new wait, fa_inbox = waiter\<rparr>) (\<lambda>(ok, current, W).
        Inr (ok, if ok then wait\<lparr>wf_step := Waiting\<rparr> else wait\<lparr>wf_current := current\<rparr>, W))))))"

text \<open>
  \<open>poll_waiting\<close> clones the waker and loads the slot; then it loops around a
  compare-exchange of the slot.
\<close>

datatype 'a poll = Loop 'a | Pending | Ready bool

definition poll_waiting :: "copy_waker \<Rightarrow> world \<Rightarrow> ptr \<Rightarrow> (waiter_waker \<times> world) res" where
  "poll_waiting new_waker W waiter =
     bindR (waiter_get_waker (heap W) waiter) (\<lambda>slot.
     bindR (cell_load Acquire slot) (\<lambda>waker. Inr (waker, clone_waker W new_waker)))"

definition poll_waiting_iter ::
  "bool \<Rightarrow> copy_waker \<Rightarrow> world \<Rightarrow> ptr \<Rightarrow> waiter_waker \<Rightarrow> (waiter_waker poll \<times> world) res" where
  "poll_waiting_iter spurious new_waker W waiter waker =
     (case waker of
        WakerNone \<Rightarrow> Inl Panic
      | WakerWaiting old_waker \<Rightarrow>
          bindR (waiter_get_waker (heap W) waiter) (\<lambda>slot.
          bindR (cell_cmpxchg_weak spurious AcqRel Acquire slot waker (WakerWaiting new_waker))
            (\<lambda>(ok, waker, slot).
          bindR (set_waker (heap W) waiter slot) (\<lambda>h.
            if ok then Inr (Pending, drop_waker (W\<lparr>heap := h\<rparr>) old_waker)
            else Inr (Loop waker, W\<lparr>heap := h\<rparr>))))
      | WakerDone \<Rightarrow> Inr (Ready True, drop_waker W new_waker))"

section \<open>Dropping\<close>

text \<open>
  The drop of a waiting future, one access to shared memory at a time: load the futex the
  waiter is on, take that futex's write lock, load again, and if the futex is still the same
  flip the inbox into the queues and remove the waiter. \<open>DropFinish\<close> is after the loop.
\<close>

datatype drop_pc =
  DropWrite ptr
| DropCheck ptr
| DropRelease ptr ptr
| DropLoad ptr
| DropFlip ptr raw_futex_atom
| DropCancel ptr
| DropUnlock ptr
| DropFinish

definition drop_start :: "world \<Rightarrow> ptr \<Rightarrow> drop_pc res" where
  "drop_start W waiter = mapR DropWrite (bindR (waiter_futex (heap W) waiter) (cell_load Relaxed))"

definition drop_step ::
  "bool \<Rightarrow> tid \<Rightarrow> world \<Rightarrow> ptr \<Rightarrow> drop_pc \<Rightarrow> (drop_pc \<times> world) res option" where
  "drop_step spurious t W waiter d =
     (case d of
        DropWrite owner \<Rightarrow> map_option (mapR (Pair (DropCheck owner))) (write_lock t W owner)
      | DropCheck owner \<Rightarrow> Some (
          bindR (bindR (waiter_futex (heap W) waiter) (cell_load Relaxed)) (\<lambda>owner2.
            Inr (if owner = owner2 then DropLoad owner else DropRelease owner owner2, W)))
      | DropRelease owner owner2 \<Rightarrow> Some (mapR (Pair (DropWrite owner2)) (write_unlock t W owner))
      | DropLoad owner \<Rightarrow> Some (
          bindR (futex_load AcquireT W owner) (\<lambda>atom. Inr (DropFlip owner atom, W)))
      | DropFlip owner atom \<Rightarrow> Some (
          bindR (flip_iter spurious W owner atom) (\<lambda>(r, W).
            Inr (case r of Some atom \<Rightarrow> DropFlip owner atom | None \<Rightarrow> DropCancel owner, W)))
      | DropCancel owner \<Rightarrow> Some (mapR (Pair (DropUnlock owner)) (futex_cancel W owner waiter))
      | DropUnlock owner \<Rightarrow> Some (mapR (Pair DropFinish) (write_unlock t W owner))
      | DropFinish \<Rightarrow> None)"

text \<open>
  After the loop the slot says which of the two closures to run: \<open>True\<close> is
  \<open>on_cancel_woken\<close>. The slot is cleared once the closure has returned.
\<close>

definition drop_finish :: "world \<Rightarrow> ptr \<Rightarrow> (bool \<times> world) res" where
  "drop_finish W waiter =
     bindR (waiter_get_waker (heap W) waiter) (\<lambda>slot.
       case slot of
         WakerNone \<Rightarrow> Inl Panic
       | WakerWaiting waker \<Rightarrow> Inr (False, drop_waker W waker)
       | WakerDone \<Rightarrow> Inr (True, W))"

definition drop_clear :: "world \<Rightarrow> ptr \<Rightarrow> world res" where
  "drop_clear W waiter =
     bindR (set_waker (heap W) waiter WakerNone) (\<lambda>h. Inr (W\<lparr>heap := h\<rparr>))"

section \<open>The future as a whole\<close>

text \<open>
  \<open>poll\<close> and \<open>drop\<close> dispatch on the step. \<open>Loop k\<close> is a poll inside the loop of
  \<open>poll_waiting\<close>, with the slot last seen. A future that returned \<open>Ready\<close> is dropped in the
  step \<open>Done\<close>, or \<open>Enter\<close> after a failed compare-exchange: its drop does nothing.
\<close>

definition future_poll ::
  "bool \<Rightarrow> copy_waker \<Rightarrow> world \<Rightarrow> wait_future \<Rightarrow> (waiter_waker poll \<times> wait_future \<times> world) res" where
  "future_poll spurious cx W wait =
     (case wf_step wait of
        Enter \<Rightarrow>
          bindR (poll_enter spurious cx W wait) (\<lambda>(pending, wait, W).
            Inr (if pending then Pending else Ready False, wait, W))
      | Waiting \<Rightarrow>
          bindR (poll_waiting cx W (wf_waiter wait)) (\<lambda>(k, W). Inr (Loop k, wait, W))
      | StepDone \<Rightarrow> Inl Panic)"

definition future_loop ::
  "bool \<Rightarrow> copy_waker \<Rightarrow> world \<Rightarrow> wait_future \<Rightarrow> waiter_waker \<Rightarrow>
     (waiter_waker poll \<times> wait_future \<times> world) res" where
  "future_loop spurious cx W wait k =
     bindR (poll_waiting_iter spurious cx W (wf_waiter wait) k) (\<lambda>(r, W).
       Inr (r, case r of Ready _ \<Rightarrow> wait\<lparr>wf_step := StepDone\<rparr> | _ \<Rightarrow> wait, W))"

definition future_drop :: "world \<Rightarrow> wait_future \<Rightarrow> drop_pc option res" where
  "future_drop W wait =
     (case wf_step wait of Waiting \<Rightarrow> mapR Some (drop_start W (wf_waiter wait)) | _ \<Rightarrow> Inr None)"

end
