(* ===== verification/Futex_Tasks.thy ===== *)
theory Futex_Tasks imports Wait_Future begin

text \<open>
  What a primitive built on one futex relies on. Every task plays a role: the guards it holds,
  the popped waiters it still has to wake, and the stage of its own waiter. \<open>tasks_ok\<close> ties the
  roles of all tasks to the memory, and every operation of the futex moves it from the roles
  before to the roles after. The primitives compute the roles from their program counters.
\<close>

section \<open>Roles\<close>

text \<open>
  A waiter is \<open>Fresh\<close> until it is pushed on the inbox; \<open>Parked\<close> while its future waits;
  \<open>Unboxed\<close> when a cancellation has seen that it is not in the inbox any more; \<open>Off\<close> when it
  is in no list and will not be again.
\<close>

datatype stage = NoWaiter | Fresh ptr nat | Parked ptr nat | Unboxed ptr nat | Off ptr

record role =
  r_read :: bool
  r_write :: bool
  r_borrow :: bool
  r_hand :: "ptr option"
  r_list :: "ptr list"
  r_stage :: stage

definition idle_role :: role where
  "idle_role = \<lparr>r_read = False, r_write = False, r_borrow = False, r_hand = None, r_list = [],
     r_stage = NoWaiter\<rparr>"

fun stage_waiter :: "stage \<Rightarrow> ptr option" where
  "stage_waiter NoWaiter = None"
| "stage_waiter (Fresh w q) = Some w"
| "stage_waiter (Parked w q) = Some w"
| "stage_waiter (Unboxed w q) = Some w"
| "stage_waiter (Off w) = Some w"

fun sleeper :: "stage \<Rightarrow> ptr option" where
  "sleeper (Parked w q) = Some w"
| "sleeper (Unboxed w q) = Some w"
| "sleeper _ = None"

definition listed :: "ptr \<Rightarrow> nat \<Rightarrow> place \<Rightarrow> bool" where
  "listed f q p \<longleftrightarrow> p = Inbox f \<or> p = InQueue f q \<or> (\<exists>u. p = InHand u \<or> p = InList u)"

definition parked_ok :: "heap \<Rightarrow> ghost \<Rightarrow> ptr \<Rightarrow> ptr \<Rightarrow> nat \<Rightarrow> bool" where
  "parked_ok h g f w q \<longleftrightarrow> alive h w \<and> fut h w = f \<and> que h w = q \<and>
     (listed f q (g_loc g w) \<or> g_loc g w = Loose \<and> wkr h w = WakerDone \<and> detached h w)"

fun stage_ok :: "heap \<Rightarrow> ghost \<Rightarrow> ptr \<Rightarrow> nat \<Rightarrow> stage \<Rightarrow> bool" where
  "stage_ok h g f n NoWaiter = True"
| "stage_ok h g f n (Fresh w q) =
     (alive h w \<and> fut h w = f \<and> que h w = q \<and> q < n \<and> g_loc g w = Loose \<and> nxt h w = null \<and>
      wkr h w \<noteq> WakerDone)"
| "stage_ok h g f n (Parked w q) = (q < n \<and> parked_ok h g f w q)"
| "stage_ok h g f n (Unboxed w q) = (q < n \<and> parked_ok h g f w q \<and> g_loc g w \<noteq> Inbox f)"
| "stage_ok h g f n (Off w) = (alive h w \<and> g_loc g w = Loose \<and> wkr h w \<noteq> WakerNone)"

definition guards_held :: "raw_futex \<Rightarrow> (tid \<Rightarrow> role) \<Rightarrow> bool" where
  "guards_held fx R \<longleftrightarrow>
     rw_readers fx = {t. r_read (R t)} \<and> (\<forall>t. rw_writer fx = Some t \<longleftrightarrow> r_write (R t)) \<and>
     cell_state fx = (if \<exists>t. r_borrow (R t) then 1 else 0) \<and>
     (\<forall>t u. r_borrow (R t) \<and> r_borrow (R u) \<longrightarrow> t = u)"

definition hands_held :: "ghost \<Rightarrow> (tid \<Rightarrow> role) \<Rightarrow> bool" where
  "hands_held g R \<longleftrightarrow> (\<forall>w t. g_loc g w = InHand t \<longleftrightarrow> r_hand (R t) = Some w) \<and>
     (\<forall>t. g_list g t = r_list (R t))"

definition stages_held :: "heap \<Rightarrow> ghost \<Rightarrow> ptr \<Rightarrow> nat \<Rightarrow> (tid \<Rightarrow> role) \<Rightarrow> bool" where
  "stages_held h g f n R \<longleftrightarrow> (\<forall>t. stage_ok h g f n (r_stage (R t))) \<and>
     (\<forall>t u w. stage_waiter (r_stage (R t)) = Some w \<and> stage_waiter (r_stage (R u)) = Some w \<longrightarrow> t = u) \<and>
     (\<forall>w. g_loc g w \<noteq> Loose \<longrightarrow> (\<exists>t. sleeper (r_stage (R t)) = Some w))"

definition tasks_ok :: "ptr \<Rightarrow> nat \<Rightarrow> world \<Rightarrow> ghost \<Rightarrow> raw_futex \<Rightarrow> (tid \<Rightarrow> role) \<Rightarrow> bool" where
  "tasks_ok f n W g fx R \<longleftrightarrow> world_ok W g \<and> futexes W f = Some fx \<and> length (queues fx) = n \<and>
     guards_held fx R \<and> hands_held g R \<and> stages_held (heap W) g f n R"

lemma tasks_okD:
  assumes "tasks_ok f n W g fx R"
  shows "world_ok W g" "futexes W f = Some fx" "length (queues fx) = n"
    "guards_held fx R" "hands_held g R" "stages_held (heap W) g f n R"
  using assms by (simp_all add: tasks_ok_def)

lemma sleeper_waiter: "sleeper st = Some w \<Longrightarrow> stage_waiter st = Some w"
  by (cases st) auto

lemma stage_okD: "stages_held h g f n R \<Longrightarrow> r_stage (R t) = st \<Longrightarrow> stage_ok h g f n st"
  by (auto simp: stages_held_def)

lemma stage_alive: "stage_ok h g f n st \<Longrightarrow> stage_waiter st = Some w \<Longrightarrow> alive h w"
  by (cases st) (auto simp: parked_ok_def)

section \<open>Stability\<close>

text \<open>What one task's step may do to the waiter of another.\<close>

definition kept :: "ptr \<Rightarrow> heap \<Rightarrow> ghost \<Rightarrow> heap \<Rightarrow> ghost \<Rightarrow> ptr \<Rightarrow> bool" where
  "kept f h g h' g' w \<longleftrightarrow> h' w = h w \<and> g_loc g' w = g_loc g w \<or>
     g_loc g w \<noteq> Loose \<and> (\<forall>q. parked_ok h g f w q \<longrightarrow> parked_ok h' g' f w q) \<and>
     (g_loc g' w = Inbox f \<longrightarrow> g_loc g w = Inbox f)"

lemma kept_refl [simp]: "kept f h g h g w"
  by (simp add: kept_def)

lemma parked_ok_cong:
  "h' w = h w \<Longrightarrow> g_loc g' w = g_loc g w \<Longrightarrow> parked_ok h' g' f w q = parked_ok h g f w q"
  by (simp add: parked_ok_def alive_def fut_def que_def wkr_def detached_def nxt_def prv_def)

lemma stage_ok_cong:
  assumes "\<And>w. stage_waiter st = Some w \<Longrightarrow> h' w = h w \<and> g_loc g' w = g_loc g w"
  shows "stage_ok h' g' f n st = stage_ok h g f n st"
  using assms
  by (cases st) (simp_all add: parked_ok_def alive_def fut_def que_def wkr_def detached_def nxt_def prv_def)

lemma stage_ok_kept:
  assumes "stage_ok h g f n st" "\<And>w. stage_waiter st = Some w \<Longrightarrow> kept f h g h' g' w"
  shows "stage_ok h' g' f n st"
proof (cases "\<exists>w. stage_waiter st = Some w \<and> \<not> (h' w = h w \<and> g_loc g' w = g_loc g w)")
  case True
  then obtain w where w: "stage_waiter st = Some w" "\<not> (h' w = h w \<and> g_loc g' w = g_loc g w)"
    by blast
  with assms(2) have "g_loc g w \<noteq> Loose" "\<And>q. parked_ok h g f w q \<Longrightarrow> parked_ok h' g' f w q"
    "g_loc g' w = Inbox f \<Longrightarrow> g_loc g w = Inbox f"
    by (auto simp: kept_def)
  with assms(1) w(1) show ?thesis
    by (cases st) auto
next
  case False
  with assms(1) stage_ok_cong [of st h' h g' g f n] show ?thesis by blast
qed

lemma stages_held_step:
  assumes held: "stages_held h g f n R"
    and others: "\<And>u w. u \<noteq> t \<Longrightarrow> stage_waiter (r_stage (R u)) = Some w \<Longrightarrow> kept f h g h' g' w"
    and own: "stage_ok h' g' f n (r_stage r)"
    and waiter: "\<And>w u. stage_waiter (r_stage r) = Some w \<Longrightarrow> stage_waiter (r_stage (R t)) \<noteq> Some w \<Longrightarrow>
        stage_waiter (r_stage (R u)) \<noteq> Some w"
    and sleep: "\<And>w. g_loc g' w \<noteq> Loose \<Longrightarrow> sleeper (r_stage r) = Some w \<or>
        g_loc g w \<noteq> Loose \<and> sleeper (r_stage (R t)) \<noteq> Some w"
  shows "stages_held h' g' f n (R(t := r))"
  unfolding stages_held_def
proof (intro conjI allI impI)
  fix u show "stage_ok h' g' f n (r_stage ((R(t := r)) u))"
    using own others [of u] stage_ok_kept [of h g f n "r_stage (R u)" h' g'] held
    by (auto simp: stages_held_def)
next
  fix u v w
  assume "stage_waiter (r_stage ((R(t := r)) u)) = Some w \<and> stage_waiter (r_stage ((R(t := r)) v)) = Some w"
  then show "u = v"
    using held waiter unfolding stages_held_def by (metis fun_upd_apply)
next
  fix w assume "g_loc g' w \<noteq> Loose"
  from sleep [OF this] show "\<exists>u. sleeper (r_stage ((R(t := r)) u)) = Some w"
    using held unfolding stages_held_def by (metis fun_upd_apply)
qed

text \<open>A step on the lists leaves every waiter in place or moves it between lists.\<close>

lemma stages_held_lists:
  assumes held: "stages_held h g f n R"
    and kept: "\<And>w. g_loc g w = Loose \<Longrightarrow> h' w = h w \<and> g_loc g' w = Loose"
      "\<And>w q. parked_ok h g f w q \<Longrightarrow> g_loc g w \<noteq> Loose \<Longrightarrow> parked_ok h' g' f w q"
      "\<And>w. g_loc g' w = Inbox f \<Longrightarrow> g_loc g w = Inbox f"
    and r: "r_stage r = r_stage (R t)"
  shows "stages_held h' g' f n (R(t := r))"
proof -
  have all: "kept f h g h' g' w" for w
    using kept [of w] by (cases "g_loc g w = Loose") (auto simp: kept_def)
  show ?thesis
  proof (rule stages_held_step [OF held all])
    have "stage_ok h g f n (r_stage (R t))" using held by (simp add: stages_held_def)
    from stage_ok_kept [OF this all] show "stage_ok h' g' f n (r_stage r)" by (simp add: r)
    fix w assume "g_loc g' w \<noteq> Loose"
    with kept(1) [of w] show "sleeper (r_stage r) = Some w \<or> g_loc g w \<noteq> Loose \<and> sleeper (r_stage (R t)) \<noteq> Some w"
      by (auto simp: r)
  qed (simp add: r)
qed

lemma parked_ok_links:
  assumes "parked_ok h g f w q" "links_only h h' A" "g_loc g w \<noteq> Loose" "listed f q (g_loc g' w)"
  shows "parked_ok h' g' f w q"
  using assms links_only_reads [of h h' A w] by (simp add: parked_ok_def)

text \<open>Steps that leave the heap and the ghost alone.\<close>

lemma stages_held_quiet:
  "stages_held h g f n R \<Longrightarrow> r_stage r = r_stage (R t) \<Longrightarrow> stages_held h g f n (R(t := r))"
  by (rule stages_held_lists) auto

lemma hands_held_quiet:
  "hands_held g R \<Longrightarrow> r_hand r = r_hand (R t) \<Longrightarrow> r_list r = r_list (R t) \<Longrightarrow>
   hands_held g (R(t := r))"
  by (auto simp: hands_held_def)

lemma guards_held_quiet:
  assumes "guards_held fx R" "r_read r = r_read (R t)" "r_write r = r_write (R t)"
    "r_borrow r = r_borrow (R t)"
    and "rw_readers fx' = rw_readers fx" "rw_writer fx' = rw_writer fx" "cell_state fx' = cell_state fx"
  shows "guards_held fx' (R(t := r))"
proof -
  have "r_read ((R(t := r)) u) = r_read (R u)" "r_write ((R(t := r)) u) = r_write (R u)"
    "r_borrow ((R(t := r)) u) = r_borrow (R u)" for u
    using assms by auto
  with assms show ?thesis
    unfolding guards_held_def by simp
qed

section \<open>Guards\<close>

lemma wkr_links: "links_only h h' A \<Longrightarrow> wkr h' w = wkr h w"
proof -
  assume "links_only h h' A"
  then have "map_option payload (h' w) = map_option payload (h w)"
    by (simp add: links_only_def)
  then show ?thesis
    by (cases "h w"; cases "h' w") (auto simp: wkr_def payload_def)
qed

lemma fun_upd_role: "(\<lambda>u. F ((pc(t := p)) u)) = (\<lambda>u. F (pc u))(t := F p)"
  by auto

lemma tasks_put_atom:
  assumes "tasks_ok f n W g fx R" "fa_inbox a = fa_inbox (futex_atom fx)"
  shows "tasks_ok f n (put_futex W f (fx\<lparr>futex_atom := a\<rparr>)) g (fx\<lparr>futex_atom := a\<rparr>) R"
  using assms world_ok_put_atom by (auto simp: tasks_ok_def guards_held_def)

lemma tasks_no_hands:
  assumes T: "tasks_ok f n W g fx R" and r: "r_hand (R t) = None" "r_list (R t) = []"
  shows "g_loc g w \<noteq> InHand t \<and> g_loc g w \<noteq> InList t"
proof -
  have "set (g_list g t) = {w. g_loc g w = InList t}"
    using world_okD(2) [OF tasks_okD(1) [OF T]] by (simp add: hands_ok_def)
  then show ?thesis
    using tasks_okD(5) [OF T] r by (auto simp: hands_held_def)
qed

lemma tasks_lock:
  assumes T: "tasks_ok f n W g fx R" and lock: "futex_lock t W f = Some r"
  obtains fx' where "r = Inr (put_futex W f fx')" "futex_atom fx' = futex_atom fx"
    "tasks_ok f n (put_futex W f fx') g fx' (R(t := (R t)\<lparr>r_read := True\<rparr>))"
proof -
  let ?fx = "fx\<lparr>rw_readers := insert t (rw_readers fx)\<rparr>"
  have w: "rw_writer fx = None" and r: "r = Inr (put_futex W f ?fx)"
    using lock tasks_okD(2) [OF T] by (auto simp: futex_lock_def split: if_splits)
  have "tasks_ok f n (put_futex W f ?fx) g ?fx (R(t := (R t)\<lparr>r_read := True\<rparr>))"
    unfolding tasks_ok_def
  proof (intro conjI)
    show "world_ok (put_futex W f ?fx) g"
      by (rule world_ok_read_lock [OF tasks_okD(1,2) [OF T] w])
    show "guards_held ?fx (R(t := (R t)\<lparr>r_read := True\<rparr>))"
      using tasks_okD(4) [OF T] by (auto simp: guards_held_def)
  qed (use T in \<open>auto simp: tasks_ok_def intro: hands_held_quiet stages_held_quiet\<close>)
  with r show ?thesis by (intro that [of ?fx]) simp_all
qed

lemma tasks_unlock:
  assumes T: "tasks_ok f n W g fx R" and r: "r_hand (R t) = None" "r_list (R t) = []"
  obtains fx' where "futex_unlock t W f = Inr (put_futex W f fx')" "futex_atom fx' = futex_atom fx"
    "tasks_ok f n (put_futex W f fx') g fx' (R(t := (R t)\<lparr>r_read := False\<rparr>))"
proof -
  let ?fx = "fx\<lparr>rw_readers := rw_readers fx - {t}\<rparr>"
  have "tasks_ok f n (put_futex W f ?fx) g ?fx (R(t := (R t)\<lparr>r_read := False\<rparr>))"
    unfolding tasks_ok_def
  proof (intro conjI)
    show "world_ok (put_futex W f ?fx) g"
      by (rule world_ok_read_unlock [OF tasks_okD(1,2) [OF T]]) (use tasks_no_hands [OF T r] in blast)
    show "guards_held ?fx (R(t := (R t)\<lparr>r_read := False\<rparr>))"
      using tasks_okD(4) [OF T] by (auto simp: guards_held_def)
  qed (use T in \<open>auto simp: tasks_ok_def intro: hands_held_quiet stages_held_quiet\<close>)
  then show ?thesis
    using tasks_okD(2) [OF T] by (intro that [of ?fx]) (simp_all add: futex_unlock_def)
qed

lemma tasks_write_lock:
  assumes T: "tasks_ok f n W g fx R" and lock: "write_lock t W f = Some r"
  obtains fx' where "r = Inr (put_futex W f fx')" "futex_atom fx' = futex_atom fx"
    "tasks_ok f n (put_futex W f fx') g fx' (R(t := (R t)\<lparr>r_write := True\<rparr>))"
proof -
  let ?fx = "fx\<lparr>rw_writer := Some t\<rparr>"
  have w: "rw_writer fx = None" "rw_readers fx = {}" and r: "r = Inr (put_futex W f ?fx)"
    using lock tasks_okD(2) [OF T] by (auto simp: write_lock_def split: if_splits)
  have "tasks_ok f n (put_futex W f ?fx) g ?fx (R(t := (R t)\<lparr>r_write := True\<rparr>))"
    unfolding tasks_ok_def
  proof (intro conjI)
    show "world_ok (put_futex W f ?fx) g"
      by (rule world_ok_write_lock [OF tasks_okD(1,2) [OF T] w(2)])
    show "guards_held ?fx (R(t := (R t)\<lparr>r_write := True\<rparr>))"
      using tasks_okD(4) [OF T] w by (auto simp: guards_held_def)
  qed (use T in \<open>auto simp: tasks_ok_def intro: hands_held_quiet stages_held_quiet\<close>)
  with r show ?thesis by (intro that [of ?fx]) simp_all
qed

lemma tasks_write_unlock:
  assumes T: "tasks_ok f n W g fx R" and t: "r_write (R t)"
  obtains fx' where "write_unlock t W f = Inr (put_futex W f fx')" "futex_atom fx' = futex_atom fx"
    "tasks_ok f n (put_futex W f fx') g fx' (R(t := (R t)\<lparr>r_write := False\<rparr>))"
proof -
  let ?fx = "fx\<lparr>rw_writer := None\<rparr>"
  have w: "rw_writer fx = Some t"
    using tasks_okD(4) [OF T] t by (simp add: guards_held_def)
  have "tasks_ok f n (put_futex W f ?fx) g ?fx (R(t := (R t)\<lparr>r_write := False\<rparr>))"
    unfolding tasks_ok_def
  proof (intro conjI)
    show "world_ok (put_futex W f ?fx) g"
      by (rule world_ok_write_unlock [OF tasks_okD(1,2) [OF T]])
    show "guards_held ?fx (R(t := (R t)\<lparr>r_write := False\<rparr>))"
      using tasks_okD(4) [OF T] w by (auto simp: guards_held_def)
  qed (use T in \<open>auto simp: tasks_ok_def intro: hands_held_quiet stages_held_quiet\<close>)
  then show ?thesis
    using tasks_okD(2) [OF T] by (intro that [of ?fx]) (simp_all add: write_unlock_def)
qed

text \<open>The borrow of the queues does not panic while no other task holds it.\<close>

lemma tasks_queue_lock:
  assumes T: "tasks_ok f n W g fx R" and free: "\<And>u. \<not> r_borrow (R u)"
  obtains fx' where "queue_lock W f = Inr (put_futex W f fx')" "futex_atom fx' = futex_atom fx"
    "tasks_ok f n (put_futex W f fx') g fx' (R(t := (R t)\<lparr>r_borrow := True\<rparr>))"
proof -
  let ?fx = "fx\<lparr>cell_state := 1\<rparr>"
  have c: "cell_state fx = 0"
    using tasks_okD(4) [OF T] free by (simp add: guards_held_def)
  have "tasks_ok f n (put_futex W f ?fx) g ?fx (R(t := (R t)\<lparr>r_borrow := True\<rparr>))"
    unfolding tasks_ok_def
  proof (intro conjI)
    show "world_ok (put_futex W f ?fx) g"
      by (rule world_ok_put_cell [OF tasks_okD(1,2) [OF T]])
    show "guards_held ?fx (R(t := (R t)\<lparr>r_borrow := True\<rparr>))"
      using tasks_okD(4) [OF T] free by (auto simp: guards_held_def)
  qed (use T in \<open>auto simp: tasks_ok_def intro: hands_held_quiet stages_held_quiet\<close>)
  then show ?thesis
    using tasks_okD(2) [OF T] c by (intro that [of ?fx]) (simp_all add: queue_lock_def)
qed

lemma tasks_queue_unlock:
  assumes T: "tasks_ok f n W g fx R" and t: "r_borrow (R t)"
  obtains fx' where "queue_unlock W f = Inr (put_futex W f fx')" "futex_atom fx' = futex_atom fx"
    "tasks_ok f n (put_futex W f fx') g fx' (R(t := (R t)\<lparr>r_borrow := False\<rparr>))"
proof -
  let ?fx = "fx\<lparr>cell_state := 0\<rparr>"
  have only: "\<not> r_borrow (R u)" if "u \<noteq> t" for u
    using tasks_okD(4) [OF T] t that by (auto simp: guards_held_def)
  have "tasks_ok f n (put_futex W f ?fx) g ?fx (R(t := (R t)\<lparr>r_borrow := False\<rparr>))"
    unfolding tasks_ok_def
  proof (intro conjI)
    show "world_ok (put_futex W f ?fx) g"
      by (rule world_ok_put_cell [OF tasks_okD(1,2) [OF T]])
    show "guards_held ?fx (R(t := (R t)\<lparr>r_borrow := False\<rparr>))"
      using tasks_okD(4) [OF T] by (auto simp: guards_held_def only)
  qed (use T in \<open>auto simp: tasks_ok_def intro: hands_held_quiet stages_held_quiet\<close>)
  then show ?thesis
    using tasks_okD(2) [OF T] by (intro that [of ?fx]) (simp_all add: queue_unlock_def)
qed

section \<open>The task's own waiter\<close>

lemma tasks_ok_cong:
  "tasks_ok f n W g fx R \<Longrightarrow> heap W' = heap W \<Longrightarrow> futexes W' = futexes W \<Longrightarrow> tasks_ok f n W' g fx R"
  by (simp add: tasks_ok_def world_ok_def)

lemma clone_drop_simps [simp]:
  "heap (clone_waker W k) = heap W" "futexes (clone_waker W k) = futexes W"
  "heap (drop_waker W k) = heap W" "futexes (drop_waker W k) = futexes W"
  "heap (wake_call W k) = heap W" "futexes (wake_call W k) = futexes W"
  by (simp_all add: clone_waker_def drop_waker_def wake_call_def)

lemma tasks_stage: "tasks_ok f n W g fx R \<Longrightarrow> r_stage (R t) = st \<Longrightarrow> stage_ok (heap W) g f n st"
  by (auto simp: tasks_ok_def stages_held_def)

lemma tasks_sole:
  "tasks_ok f n W g fx R \<Longrightarrow> stage_waiter (r_stage (R t)) = Some w \<Longrightarrow> u \<noteq> t \<Longrightarrow>
     stage_waiter (r_stage (R u)) \<noteq> Some w"
  unfolding tasks_ok_def stages_held_def by metis

text \<open>Writing a waiter that is in no list.\<close>

lemma tasks_loose:
  assumes T: "tasks_ok f n W g fx R"
    and w: "g_loc g w = Loose" "w \<noteq> null" "\<And>u. u \<noteq> t \<Longrightarrow> stage_waiter (r_stage (R u)) \<noteq> Some w"
      "stage_waiter (r_stage (R t)) \<in> {None, Some w}"
    and W': "heap W' = (heap W)(w := x)" "futexes W' = futexes W"
    and st: "stage_ok ((heap W)(w := x)) g f n st" "stage_waiter st \<in> {None, Some w}"
  shows "tasks_ok f n W' g fx (R(t := (R t)\<lparr>r_stage := st\<rparr>))"
  unfolding tasks_ok_def
proof (intro conjI)
  show "world_ok W' g"
    by (rule world_ok_loose [OF tasks_okD(1) [OF T] w(1,2) W'])
  show "stages_held (heap W') g f n (R(t := (R t)\<lparr>r_stage := st\<rparr>))"
  proof (rule stages_held_step [OF tasks_okD(6) [OF T]])
    fix u v assume "u \<noteq> t" "stage_waiter (r_stage (R u)) = Some v"
    with w(3) [of u] have "v \<noteq> w" by auto
    then show "kept f (heap W) g (heap W') g v" by (simp add: kept_def W')
  next
    show "stage_ok (heap W') g f n (r_stage ((R t)\<lparr>r_stage := st\<rparr>))" using st by (simp add: W')
  next
    fix v u assume "stage_waiter (r_stage ((R t)\<lparr>r_stage := st\<rparr>)) = Some v" "stage_waiter (r_stage (R t)) \<noteq> Some v"
    then have "v = w" "stage_waiter (r_stage (R t)) \<noteq> Some w" using st(2) by auto
    then show "stage_waiter (r_stage (R u)) \<noteq> Some v" using w(3) by (cases "u = t") auto
  next
    fix v assume "g_loc g v \<noteq> Loose"
    then have "v \<noteq> w" using w(1) by auto
    then have "sleeper (r_stage (R t)) \<noteq> Some v" using w(4) sleeper_waiter by fastforce
    with \<open>g_loc g v \<noteq> Loose\<close>
    show "sleeper (r_stage ((R t)\<lparr>r_stage := st\<rparr>)) = Some v \<or>
        g_loc g v \<noteq> Loose \<and> sleeper (r_stage (R t)) \<noteq> Some v" by simp
  qed
qed (use T W' in \<open>auto simp: tasks_ok_def intro: hands_held_quiet guards_held_quiet\<close>)

lemma tasks_create:
  assumes T: "tasks_ok f n W g fx R" and t: "r_stage (R t) = NoWaiter"
    and new: "new_waiter W f m q addr = Some W'" and q: "unat q < n"
  shows "tasks_ok f n W' g fx (R(t := (R t)\<lparr>r_stage := Fresh addr (unat q)\<rparr>))"
    and "W' = W\<lparr>heap := (heap W)(addr \<mapsto> waiter_new f m q)\<rparr>" "heap W addr = None"
proof -
  have a: "addr \<noteq> null" "heap W addr = None"
    and W': "W' = W\<lparr>heap := (heap W)(addr \<mapsto> waiter_new f m q)\<rparr>"
    using new by (auto simp: new_waiter_def split: if_splits)
  have loc: "g_loc g addr = Loose"
    using world_ok_alive [OF tasks_okD(1) [OF T], of addr] a by (auto simp: alive_def)
  have sole: "stage_waiter (r_stage (R u)) \<noteq> Some addr" for u
    using stage_alive [OF tasks_stage [OF T refl], of u addr] a by (auto simp: alive_def)
  show "tasks_ok f n W' g fx (R(t := (R t)\<lparr>r_stage := Fresh addr (unat q)\<rparr>))"
    by (rule tasks_loose [OF T loc a(1) sole])
      (use a loc q t in \<open>auto simp: W' alive_def fut_def que_def nxt_def wkr_def waiter_new_def\<close>)
  show "W' = W\<lparr>heap := (heap W)(addr \<mapsto> waiter_new f m q)\<rparr>" "heap W addr = None"
    by (fact W') (fact a(2))
qed

definition freed :: "world \<Rightarrow> ptr \<Rightarrow> world" where
  "freed W w = (case wkr (heap W) w of WakerWaiting k \<Rightarrow> drop_waker W k | _ \<Rightarrow> W)
     \<lparr>heap := (heap W)(w := None)\<rparr>"

lemma freed_simps [simp]:
  "heap (freed W w) = (heap W)(w := None)" "futexes (freed W w) = futexes W"
  by (simp_all add: freed_def drop_waker_def split: waiter_waker.splits)

lemma waiter_drop_alive: "alive (heap W) w \<Longrightarrow> waiter_drop W w = Inr (freed W w)"
  by (simp add: waiter_drop_def freed_def link_simps drop_waker_def split: waiter_waker.splits)

lemma parked_woken:
  assumes "tasks_ok f n W g fx R" "parked_ok (heap W) g f w q"
  shows "g_loc g w = Loose \<longleftrightarrow> wkr (heap W) w = WakerDone" "wkr (heap W) w \<noteq> WakerNone"
proof -
  have "g_loc g w \<noteq> Loose \<Longrightarrow> \<exists>k. wkr (heap W) w = WakerWaiting k"
    using world_ok_waiting [OF tasks_okD(1) [OF assms(1)]] .
  moreover have "g_loc g w = Loose \<Longrightarrow> wkr (heap W) w = WakerDone"
    using assms(2) by (auto simp: parked_ok_def listed_def)
  ultimately show "g_loc g w = Loose \<longleftrightarrow> wkr (heap W) w = WakerDone" "wkr (heap W) w \<noteq> WakerNone"
    by (metis waiter_waker.distinct(1,3,5))+
qed

lemma tasks_destroy:
  assumes T: "tasks_ok f n W g fx R"
    and t: "r_stage (R t) = Fresh w q \<or> r_stage (R t) = Off w \<or>
      (r_stage (R t) = Parked w q \<and> wkr (heap W) w = WakerDone)"
  shows "waiter_drop W w = Inr (freed W w)"
    and "tasks_ok f n (freed W w) g fx (R(t := (R t)\<lparr>r_stage := NoWaiter\<rparr>))"
proof -
  have st: "stage_ok (heap W) g f n (r_stage (R t))" "stage_waiter (r_stage (R t)) = Some w"
    using tasks_stage [OF T] t by auto
  then have alive: "alive (heap W) w" by (rule stage_alive)
  then show "waiter_drop W w = Inr (freed W w)" by (rule waiter_drop_alive)
  have "g_loc g w = Loose"
    using t st(1) parked_woken(1) [OF T, of w q] by auto
  from tasks_loose [OF T this, of t "freed W w" None NoWaiter]
  show "tasks_ok f n (freed W w) g fx (R(t := (R t)\<lparr>r_stage := NoWaiter\<rparr>))"
    using alive alive_not_null tasks_sole [OF T st(2)] st(2) by simp
qed

text \<open>The end of a cancellation: the slot is cleared and the waiter freed.\<close>

lemma tasks_clear:
  assumes T: "tasks_ok f n W g fx R" and t: "r_stage (R t) = Off w"
  shows "bindR (drop_clear W w) (\<lambda>W. waiter_drop W w) = Inr (W\<lparr>heap := (heap W)(w := None)\<rparr>)"
    and "tasks_ok f n (W\<lparr>heap := (heap W)(w := None)\<rparr>) g fx (R(t := (R t)\<lparr>r_stage := NoWaiter\<rparr>))"
proof -
  have st: "alive (heap W) w" using tasks_stage [OF T t] by simp
  then show "bindR (drop_clear W w) (\<lambda>W. waiter_drop W w) = Inr (W\<lparr>heap := (heap W)(w := None)\<rparr>)"
    by (simp add: drop_clear_def link_simps waiter_drop_alive put_waker_lists freed_def)
      (simp add: put_waker_def)
  show "tasks_ok f n (W\<lparr>heap := (heap W)(w := None)\<rparr>) g fx (R(t := (R t)\<lparr>r_stage := NoWaiter\<rparr>))"
    by (rule tasks_ok_cong [OF tasks_destroy(2) [OF T, of t w q]]) (use t in simp_all)
qed

section \<open>Waiting\<close>

definition push_ghost :: "ptr \<Rightarrow> ptr \<Rightarrow> ghost \<Rightarrow> ghost" where
  "push_ghost f w g =
     g\<lparr>g_loc := (g_loc g)(w := Inbox f), g_inbox := (g_inbox g)(f := w # g_inbox g f)\<rparr>"

lemma tasks_push:
  assumes T: "tasks_ok f n W g fx R" and t: "r_stage (R t) = Fresh w q"
    and w: "prv (heap W) w = fa_inbox (futex_atom fx)" "wkr (heap W) w = WakerWaiting k"
    and fx': "fx' = fx\<lparr>futex_atom := \<lparr>fa_atom = a, fa_inbox = w\<rparr>\<rparr>"
  shows "tasks_ok f n (put_futex W f fx') (push_ghost f w g) fx' (R(t := (R t)\<lparr>r_stage := Parked w q\<rparr>))"
  unfolding tasks_ok_def
proof (intro conjI)
  have st: "alive (heap W) w" "fut (heap W) w = f" "que (heap W) w = q" "q < n" "g_loc g w = Loose"
    "nxt (heap W) w = null"
    using tasks_stage [OF T t] by simp_all
  show "world_ok (put_futex W f fx') (push_ghost f w g)"
    unfolding push_ghost_def fx'
    by (rule world_ok_push [OF tasks_okD(1,2) [OF T] st(5,1,6) w(1) st(2) _ w(2)])
      (use st(3,4) tasks_okD(3) [OF T] in simp)
  show "stages_held (heap (put_futex W f fx')) (push_ghost f w g) f n (R(t := (R t)\<lparr>r_stage := Parked w q\<rparr>))"
  proof (rule stages_held_step [OF tasks_okD(6) [OF T]])
    fix u v assume "u \<noteq> t" "stage_waiter (r_stage (R u)) = Some v"
    then have "v \<noteq> w" using tasks_sole [OF T, of t w] t by auto
    then show "kept f (heap W) g (heap (put_futex W f fx')) (push_ghost f w g) v"
      by (simp add: kept_def push_ghost_def)
  qed (use st t in \<open>auto simp: push_ghost_def parked_ok_def listed_def split: if_splits\<close>)
  show "hands_held (push_ghost f w g) (R(t := (R t)\<lparr>r_stage := Parked w q\<rparr>))"
  proof -
    have "r_hand (R u) \<noteq> Some w" for u
      using tasks_okD(5) [OF T] st(5) unfolding hands_held_def by (metis place.distinct(5))
    then show ?thesis
      using tasks_okD(5) [OF T] by (auto simp: hands_held_def push_ghost_def)
  qed
qed (use T in \<open>auto simp: tasks_ok_def fx' intro: guards_held_quiet\<close>)

text \<open>\<open>poll_enter\<close> does not panic, and pushes the waiter when its compare-exchange succeeds.\<close>

lemma tasks_poll_enter:
  assumes T: "tasks_ok f n W g fx R" and t: "r_stage (R t) = Fresh w q"
    and wait: "wf_waiter wait = w" "wf_original_futex wait = f" "wf_current wait = cur" "wf_new wait = new"
  obtains W1 k where "poll_enter spurious cx W wait = Inr
      (if futex_atom fx = cur \<and> \<not> spurious
       then (True, wait\<lparr>wf_step := Waiting\<rparr>,
             put_futex W1 f (fx\<lparr>futex_atom := \<lparr>fa_atom = new, fa_inbox = w\<rparr>\<rparr>))
       else (False, wait\<lparr>wf_current := futex_atom fx\<rparr>, W1))"
    "tasks_ok f n W1 g fx R" "wkr (heap W1) w = WakerWaiting k" "\<forall>v. v \<noteq> w \<longrightarrow> heap W1 v = heap W v"
    "cur = futex_atom fx \<longrightarrow>
       tasks_ok f n (put_futex W1 f (fx\<lparr>futex_atom := \<lparr>fa_atom = new, fa_inbox = w\<rparr>\<rparr>))
         (push_ghost f w g) (fx\<lparr>futex_atom := \<lparr>fa_atom = new, fa_inbox = w\<rparr>\<rparr>)
         (R(t := (R t)\<lparr>r_stage := Parked w q\<rparr>))"
proof -
  have st: "alive (heap W) w" "fut (heap W) w = f" "que (heap W) w = q" "q < n" "g_loc g w = Loose"
    "nxt (heap W) w = null" "wkr (heap W) w \<noteq> WakerDone"
    using tasks_stage [OF T t] by simp_all
  let ?h = "put_prev (heap W) w (fa_inbox (cur))"
  have fresh: "wkr ?h x = wkr (heap W) x" "fut ?h x = fut (heap W) x" "que ?h x = que (heap W) x" for x
    by (simp_all add: put_prev_def wkr_def fut_def que_def)
  define W1 where "W1 = (case wkr (heap W) w of
      WakerNone \<Rightarrow> clone_waker (W\<lparr>heap := put_waker ?h w (WakerWaiting cx)\<rparr>) cx
    | _ \<Rightarrow> W\<lparr>heap := ?h\<rparr>)"
  have f1: "futexes W1 = futexes W"
    by (simp add: W1_def split: waiter_waker.splits)
  have h1: "heap W1 = (if wkr (heap W) w = WakerNone then put_waker ?h w (WakerWaiting cx) else ?h)"
    by (simp add: W1_def split: waiter_waker.splits)
  have "\<exists>x. heap W1 = (heap W)(w := x)"
    unfolding h1 by (cases "wkr (heap W) w = WakerNone") (auto simp: put_waker_def put_prev_def)
  then obtain x where x: "heap W1 = (heap W)(w := x)" ..
  have reads: "alive (heap W1) w" "fut (heap W1) w = f" "que (heap W1) w = q" "nxt (heap W1) w = null"
    "prv (heap W1) w = fa_inbox (cur)"
    using st by (auto simp: h1 link_simps put_waker_reads fresh)
  obtain k where k: "wkr (heap W1) w = WakerWaiting k"
    using st(7) by (cases "wkr (heap W) w") (simp_all add: h1 put_waker_reads fresh)
  have R: "R(t := (R t)\<lparr>r_stage := Fresh w q\<rparr>) = R"
    using t by (intro ext) (simp add: fun_upd_def)
  have T1: "tasks_ok f n W1 g fx R"
    using tasks_loose [OF T st(5) alive_not_null [OF st(1)] _ _ x f1, of t "Fresh w q"]
      tasks_sole [OF T, of t w] t reads k st(4,5) unfolding x R by simp
  have step: "poll_enter spurious cx W wait =
      bindR (raw_cmpxchg_weak spurious AcqRelT AcquireT W1 f (cur)
               \<lparr>fa_atom = new, fa_inbox = w\<rparr>) (\<lambda>(ok, current, W).
        Inr (ok, if ok then wait\<lparr>wf_step := Waiting\<rparr> else wait\<lparr>wf_current := current\<rparr>, W))"
    using st(1,7) wait
    by (cases "wkr (heap W) w")
      (simp_all add: poll_enter_def link_simps fresh W1_def)
  show ?thesis
  proof (rule that [OF _ T1 k])
    show "poll_enter spurious cx W wait = Inr
      (if futex_atom fx = cur \<and> \<not> spurious
       then (True, wait\<lparr>wf_step := Waiting\<rparr>,
             put_futex W1 f (fx\<lparr>futex_atom := \<lparr>fa_atom = new, fa_inbox = w\<rparr>\<rparr>))
       else (False, wait\<lparr>wf_current := futex_atom fx\<rparr>, W1))"
      unfolding step by (subst raw_cmpxchg_weak_eq [OF tasks_okD(2) [OF T1]]) simp_all
    show "\<forall>v. v \<noteq> w \<longrightarrow> heap W1 v = heap W v" by (simp add: x)
  qed (use tasks_push [OF T1 t _ k refl] reads(5) in simp)
qed

text \<open>\<open>poll_waiting\<close> finds a waker or the mark that the task was woken.\<close>

lemma tasks_poll_waiting:
  assumes T: "tasks_ok f n W g fx R" and t: "r_stage (R t) = Parked w q"
  shows "poll_waiting cx W w = Inr (wkr (heap W) w, clone_waker W cx)"
    and "wkr (heap W) w \<noteq> WakerNone"
proof -
  have st: "parked_ok (heap W) g f w q" using tasks_stage [OF T t] by simp
  then show "poll_waiting cx W w = Inr (wkr (heap W) w, clone_waker W cx)"
    by (simp add: poll_waiting_def link_simps parked_ok_def)
  show "wkr (heap W) w \<noteq> WakerNone"
    by (rule parked_woken(2) [OF T st])
qed

lemma put_waker_idem: "alive h w \<Longrightarrow> put_waker h w (wkr h w) = h"
  by (auto simp: put_waker_def wkr_def alive_def fun_upd_idem)

lemma tasks_poll_iter:
  assumes T: "tasks_ok f n W g fx R" and t: "r_stage (R t) = Parked w q"
    and W1_def: "W1 = W\<lparr>heap := put_waker (heap W) w (WakerWaiting new)\<rparr>"
  shows "poll_waiting_iter spurious new W w (WakerWaiting old) = Inr
      (if wkr (heap W) w = WakerWaiting old \<and> \<not> spurious then (Pending, drop_waker W1 old)
       else (Loop (wkr (heap W) w), W))"
    and "wkr (heap W) w = WakerWaiting old \<Longrightarrow> tasks_ok f n (drop_waker W1 old) g fx R"
proof -
  have st: "parked_ok (heap W) g f w q" "q < n" using tasks_stage [OF T t] by simp_all
  then have a: "alive (heap W) w" by (simp add: parked_ok_def)
  show "poll_waiting_iter spurious new W w (WakerWaiting old) = Inr
      (if wkr (heap W) w = WakerWaiting old \<and> \<not> spurious then (Pending, drop_waker W1 old)
       else (Loop (wkr (heap W) w), W))"
    using a by (simp add: poll_waiting_iter_def link_simps put_waker_idem W1_def)
  assume k: "wkr (heap W) w = WakerWaiting old"
  have R: "R(t := R t) = R" by simp
  have "tasks_ok f n W1 g fx (R(t := R t))"
    unfolding tasks_ok_def
  proof (intro conjI)
    show "world_ok W1 g"
      by (rule world_ok_put_waker [OF tasks_okD(1) [OF T] a, of "WakerWaiting new"]) (simp_all add: W1_def)
    show "stages_held (heap W1) g f n (R(t := R t))"
    proof (rule stages_held_step [OF tasks_okD(6) [OF T]])
      fix u v assume "u \<noteq> t" "stage_waiter (r_stage (R u)) = Some v"
      then have "v \<noteq> w" using tasks_sole [OF T, of t w] t by auto
      then show "kept f (heap W) g (heap W1) g v"
        by (simp add: kept_def W1_def put_waker_def)
    next
      show "stage_ok (heap W1) g f n (r_stage (R t))"
        using st t k a parked_woken(1) [OF T st(1)]
        by (simp add: W1_def parked_ok_def put_waker_reads)
    next
      fix v assume "g_loc g v \<noteq> Loose"
      then show "sleeper (r_stage (R t)) = Some v \<or> g_loc g v \<noteq> Loose \<and> sleeper (r_stage (R t)) \<noteq> Some v"
        by auto
    qed simp
  qed (use T in \<open>auto simp: tasks_ok_def W1_def\<close>)
  from tasks_ok_cong [OF this] show "tasks_ok f n (drop_waker W1 old) g fx R" unfolding R by simp
qed

section \<open>The queues\<close>

lemma tasks_lists:
  assumes T: "tasks_ok f n W g fx R" and ok: "world_ok W' g'"
    and W': "heap W' = h'" "futexes W' f = Some fx'" "length (queues fx') = n"
      "rw_readers fx' = rw_readers fx" "rw_writer fx' = rw_writer fx" "cell_state fx' = cell_state fx"
    and links: "links_only (heap W) h' A" "\<And>w. w \<in> A \<Longrightarrow> g_loc g w \<noteq> Loose"
    and loc: "\<And>w. g_loc g w = Loose \<Longrightarrow> g_loc g' w = Loose"
      "\<And>w q. listed f q (g_loc g w) \<Longrightarrow> que (heap W) w = q \<Longrightarrow> listed f q (g_loc g' w)"
      "\<And>w. g_loc g' w = Inbox f \<Longrightarrow> g_loc g w = Inbox f"
    and hands: "hands_held g' (R(t := r))"
    and r: "r_stage r = r_stage (R t)" "r_read r = r_read (R t)" "r_write r = r_write (R t)"
      "r_borrow r = r_borrow (R t)"
  shows "tasks_ok f n W' g' fx' (R(t := r))"
  unfolding tasks_ok_def
proof (intro conjI)
  show "stages_held (heap W') g' f n (R(t := r))"
    unfolding W'(1)
  proof (rule stages_held_lists [OF tasks_okD(6) [OF T]])
    fix w assume w: "g_loc g w = Loose"
    then have "w \<notin> A" using links(2) by blast
    with w loc(1) links_only_same [OF links(1)] show "h' w = heap W w \<and> g_loc g' w = Loose" by simp
  next
    fix w q assume p: "parked_ok (heap W) g f w q" "g_loc g w \<noteq> Loose"
    then have "listed f q (g_loc g w)" "que (heap W) w = q" by (auto simp: parked_ok_def)
    from parked_ok_links [OF p(1) links(1) p(2) loc(2) [OF this]] show "parked_ok h' g' f w q" .
  qed (use loc r in auto)
qed (use T ok W' hands r in \<open>auto simp: tasks_ok_def intro: guards_held_quiet\<close>)

lemma tasks_place:
  assumes T: "tasks_ok f n W g fx R" and w: "g_loc g w \<noteq> Loose"
  shows "\<exists>t q. sleeper (r_stage (R t)) = Some w \<and> q < n \<and> parked_ok (heap W) g f w q \<and>
    listed f q (g_loc g w)"
proof -
  obtain t where t: "sleeper (r_stage (R t)) = Some w"
    using tasks_okD(6) [OF T] w by (auto simp: stages_held_def)
  with tasks_stage [OF T refl, of t] w show ?thesis
    by (cases "r_stage (R t)") (auto simp: parked_ok_def intro!: exI [of _ t])
qed

lemma tasks_pop_Nil:
  "tasks_ok f n W g fx R \<Longrightarrow> unat q < n \<Longrightarrow> g_queues g f ! unat q = [] \<Longrightarrow> queue_pop W f q = Inr (None, W)"
  by (rule queue_pop_Nil) (auto simp: tasks_ok_def)

lemma tasks_pop_Cons:
  assumes T: "tasks_ok f n W g fx R" and q: "unat q < n"
    and t: "r_read (R t)" "r_hand (R t) = None" and ws: "g_queues g f ! unat q = w # ws"
  obtains h' fx' where "queue_pop W f q = Inr (Some w, put_futex (W\<lparr>heap := h'\<rparr>) f fx')"
    "futex_atom fx' = futex_atom fx" "\<And>v. wkr h' v = wkr (heap W) v"
    "tasks_ok f n (put_futex (W\<lparr>heap := h'\<rparr>) f fx') (pop_ghost t f (unat q) g) fx'
       (R(t := (R t)\<lparr>r_hand := Some w\<rparr>))"
proof -
  let ?k = "unat q"
  have k: "?k < length (queues fx)" and len: "length (queues fx) = n"
    using q tasks_okD(3) [OF T] by simp_all
  have rd: "t \<in> rw_readers fx" using tasks_okD(4) [OF T] t by (simp add: guards_held_def)
  note ok = tasks_okD(1) [OF T] and fx = tasks_okD(2) [OF T]
  obtain h' l where pop:
    "queue_pop W f q = Inr (Some w, put_futex (W\<lparr>heap := h'\<rparr>) f (fx\<lparr>queues := (queues fx)[?k := l]\<rparr>))"
    "links_only (heap W) h' {v. \<exists>j. g_loc g v = InQueue f j}"
    "world_ok (put_futex (W\<lparr>heap := h'\<rparr>) f (fx\<lparr>queues := (queues fx)[?k := l]\<rparr>)) (pop_ghost t f ?k g)"
    by (rule queue_pop_Cons [OF ok fx k rd ws])
  have wl: "g_loc g w = InQueue f ?k"
    using queues_okD(2) [OF world_okD(4) [OF ok fx] k] ws by auto
  have loc: "g_loc (pop_ghost t f ?k g) v = (if v = w then InHand t else g_loc g v)" for v
    by (simp add: pop_ghost_def ws)
  have hh: "r_hand (R u) = Some v \<longleftrightarrow> g_loc g v = InHand u" for u v
    using tasks_okD(5) [OF T] by (simp add: hands_held_def)
  show ?thesis
  proof (rule that [OF pop(1)])
    show "tasks_ok f n (put_futex (W\<lparr>heap := h'\<rparr>) f (fx\<lparr>queues := (queues fx)[?k := l]\<rparr>))
        (pop_ghost t f ?k g) (fx\<lparr>queues := (queues fx)[?k := l]\<rparr>) (R(t := (R t)\<lparr>r_hand := Some w\<rparr>))"
    proof (rule tasks_lists [OF T pop(3) _ _ _ _ _ _ pop(2)])
      show "hands_held (pop_ghost t f ?k g) (R(t := (R t)\<lparr>r_hand := Some w\<rparr>))"
        unfolding hands_held_def
      proof (intro conjI allI)
        fix v u show "g_loc (pop_ghost t f ?k g) v = InHand u \<longleftrightarrow>
            r_hand ((R(t := (R t)\<lparr>r_hand := Some w\<rparr>)) u) = Some v"
          using hh [of u v] hh [of t v] t(2) wl by (auto simp: loc)
      next
        fix u show "g_list (pop_ghost t f ?k g) u = r_list ((R(t := (R t)\<lparr>r_hand := Some w\<rparr>)) u)"
          using tasks_okD(5) [OF T] by (simp add: pop_ghost_def hands_held_def)
      qed
    qed (use wl len in \<open>auto simp: loc listed_def split: if_splits\<close>)
    show "wkr h' v = wkr (heap W) v" for v by (rule wkr_links [OF pop(2)])
  qed simp
qed

lemma tasks_is_empty:
  "tasks_ok f n W g fx R \<Longrightarrow> unat q < n \<Longrightarrow>
     queue_is_empty W f q = Inr (g_queues g f ! unat q = [])"
  by (rule queue_is_empty_eq) (auto simp: tasks_ok_def)

lemma enqueue_lists:
  assumes "tasks_ok f n W g fx R"
  shows "g_queues (enqueue_ghost h f g) f =
      map (\<lambda>k. g_queues g f ! k @ filter (\<lambda>w. que h w = k) (rev (g_inbox g f))) [0..<n]"
    and "g_inbox (enqueue_ghost h f g) f = []"
    and "length (g_queues g f) = n"
  using world_okD(4) [OF tasks_okD(1,2) [OF assms]] tasks_okD(3) [OF assms]
  by (auto simp: enqueue_ghost_def queues_ok_def)

lemma enqueue_one:
  assumes T: "tasks_ok f 1 W g fx R"
  shows "g_queues (enqueue_ghost (heap W) f g) f ! 0 = g_queues g f ! 0 @ rev (g_inbox g f)"
proof -
  have "que (heap W) w = 0" if "w \<in> set (g_inbox g f)" for w
    using world_okD(3) [OF tasks_okD(1,2) [OF T]] tasks_okD(3) [OF T] that by (auto simp: inbox_ok_def)
  then have "filter (\<lambda>w. que (heap W) w = 0) (rev (g_inbox g f)) = rev (g_inbox g f)"
    by (auto simp: filter_id_conv)
  then show ?thesis
    using enqueue_lists(1) [OF T, of "heap W"] by simp
qed

text \<open>The common part of the two operations that take the inbox.\<close>

lemma tasks_enqueue:
  assumes T: "tasks_ok f n W g fx R" and len: "length qs' = length (queues fx)"
    and links: "links_only (heap W) h' {v. at_futex f (g_loc g v)}"
    and ok: "world_ok (put_futex (W\<lparr>heap := h'\<rparr>) f (fx\<lparr>futex_atom := a, queues := qs'\<rparr>))
        (enqueue_ghost (heap W) f g)"
  shows "tasks_ok f n (put_futex (W\<lparr>heap := h'\<rparr>) f (fx\<lparr>futex_atom := a, queues := qs'\<rparr>))
      (enqueue_ghost (heap W) f g) (fx\<lparr>futex_atom := a, queues := qs'\<rparr>) R"
proof -
  have R: "R(t := R t) = R" for t by simp
  have "tasks_ok f n (put_futex (W\<lparr>heap := h'\<rparr>) f (fx\<lparr>futex_atom := a, queues := qs'\<rparr>))
      (enqueue_ghost (heap W) f g) (fx\<lparr>futex_atom := a, queues := qs'\<rparr>) (R(t := R t))" for t
  proof (rule tasks_lists [OF T ok _ _ _ _ _ _ links])
    show "hands_held (enqueue_ghost (heap W) f g) (R(t := R t))"
    proof -
      have hh: "r_hand (R u) = Some v \<longleftrightarrow> g_loc g v = InHand u" for u v
        using tasks_okD(5) [OF T] by (simp add: hands_held_def)
      then show ?thesis
        using tasks_okD(5) [OF T] by (simp add: hands_held_def enqueue_ghost_def hh)
    qed
  qed (use len tasks_okD(3) [OF T] in \<open>auto simp: enqueue_ghost_def at_futex_def listed_def split: if_splits\<close>)
  then show ?thesis unfolding R .
qed

lemma tasks_cmpxchg_enqueue:
  assumes T: "tasks_ok f n W g fx R" and fo: "cas_orders (ORDERING so) (ORDERING fo)"
  obtains h' qs' where "cmpxchg_enqueue_weak spurious so fo W f cur new = Inr
      (if futex_atom fx = cur \<and> \<not> spurious
       then (True, cur, put_futex (W\<lparr>heap := h'\<rparr>) f
               (fx\<lparr>futex_atom := \<lparr>fa_atom = new, fa_inbox = null\<rparr>, queues := qs'\<rparr>))
       else (False, futex_atom fx, W))"
    "\<And>v. wkr h' v = wkr (heap W) v"
    "tasks_ok f n (put_futex (W\<lparr>heap := h'\<rparr>) f
        (fx\<lparr>futex_atom := \<lparr>fa_atom = new, fa_inbox = null\<rparr>, queues := qs'\<rparr>))
      (enqueue_ghost (heap W) f g)
      (fx\<lparr>futex_atom := \<lparr>fa_atom = new, fa_inbox = null\<rparr>, queues := qs'\<rparr>) R"
proof -
  obtain h' qs' where enq: "cmpxchg_enqueue_weak False so fo W f (futex_atom fx) new =
       Inr (True, futex_atom fx, put_futex (W\<lparr>heap := h'\<rparr>) f
         (fx\<lparr>futex_atom := \<lparr>fa_atom = new, fa_inbox = null\<rparr>, queues := qs'\<rparr>))"
    "length qs' = length (queues fx)"
    "links_only (heap W) h' {v. at_futex f (g_loc g v)}"
    "world_ok (put_futex (W\<lparr>heap := h'\<rparr>) f
         (fx\<lparr>futex_atom := \<lparr>fa_atom = new, fa_inbox = null\<rparr>, queues := qs'\<rparr>))
       (enqueue_ghost (heap W) f g)"
    by (rule cmpxchg_enqueue_weak_ok [OF tasks_okD(1,2) [OF T] fo])
  show ?thesis
  proof (rule that)
    show "cmpxchg_enqueue_weak spurious so fo W f cur new = Inr
      (if futex_atom fx = cur \<and> \<not> spurious
       then (True, cur, put_futex (W\<lparr>heap := h'\<rparr>) f
               (fx\<lparr>futex_atom := \<lparr>fa_atom = new, fa_inbox = null\<rparr>, queues := qs'\<rparr>))
       else (False, futex_atom fx, W))"
      using enq(1) cmpxchg_enqueue_weak_fail [OF tasks_okD(2) [OF T] fo]
      by (cases "futex_atom fx = cur \<and> \<not> spurious") auto
    show "tasks_ok f n (put_futex (W\<lparr>heap := h'\<rparr>) f
        (fx\<lparr>futex_atom := \<lparr>fa_atom = new, fa_inbox = null\<rparr>, queues := qs'\<rparr>))
      (enqueue_ghost (heap W) f g)
      (fx\<lparr>futex_atom := \<lparr>fa_atom = new, fa_inbox = null\<rparr>, queues := qs'\<rparr>) R"
      by (rule tasks_enqueue [OF T enq(2-4)])
    show "wkr h' v = wkr (heap W) v" for v by (rule wkr_links [OF enq(3)])
  qed
qed

section \<open>Waking\<close>

lemma tasks_wake:
  assumes T: "tasks_ok f n W g fx R" and t: "r_hand (R t) = Some w"
    and W': "W' = W\<lparr>heap := put_waker (heap W) w WakerDone\<rparr>"
  obtains k where "wake_swap W w = Inr (k, W')" "wkr (heap W) w = WakerWaiting k"
    "tasks_ok f n W' (wake_ghost w g) fx (R(t := (R t)\<lparr>r_hand := None\<rparr>))"
proof -
  have w: "g_loc g w = InHand t"
    using tasks_okD(5) [OF T] t by (simp add: hands_held_def)
  note ok = tasks_okD(1) [OF T]
  obtain k where k: "wkr (heap W) w = WakerWaiting k" "wake_swap W w = Inr (k, W')"
    "world_ok W' (wake_ghost w g)"
    unfolding W' by (rule wake_swap_ok [OF ok w])
  have a: "alive (heap W) w" and d: "detached (heap W) w"
    using world_ok_alive [OF ok, of w] world_okD(2) [OF ok] w by (auto simp: hands_ok_def)
  have "tasks_ok f n W' (wake_ghost w g) fx (R(t := (R t)\<lparr>r_hand := None\<rparr>))"
    unfolding tasks_ok_def
  proof (intro conjI)
    show "stages_held (heap W') (wake_ghost w g) f n (R(t := (R t)\<lparr>r_hand := None\<rparr>))"
    proof (rule stages_held_lists [OF tasks_okD(6) [OF T]])
      fix v assume "g_loc g v = Loose"
      then show "heap W' v = heap W v \<and> g_loc (wake_ghost w g) v = Loose"
        using w by (auto simp: W' put_waker_def wake_ghost_def)
    next
      fix v q assume "parked_ok (heap W) g f v q" "g_loc g v \<noteq> Loose"
      then show "parked_ok (heap W') (wake_ghost w g) f v q"
        using d by (auto simp: parked_ok_def wake_ghost_def W' put_waker_reads put_waker_lists [OF a])
    qed (auto simp: wake_ghost_def split: if_splits)
    show "hands_held (wake_ghost w g) (R(t := (R t)\<lparr>r_hand := None\<rparr>))"
    proof -
      have hh: "r_hand (R u) = Some v \<longleftrightarrow> g_loc g v = InHand u" for u v
        using tasks_okD(5) [OF T] by (simp add: hands_held_def)
      have "g_loc g v \<noteq> InHand t" if "v \<noteq> w" for v
        using hh [of t v] t that by auto
      moreover have "g_loc g w \<noteq> InHand u" if "u \<noteq> t" for u
        using w that by simp
      moreover have "g_list g u = r_list (R u)" for u
        using tasks_okD(5) [OF T] by (simp add: hands_held_def)
      ultimately show ?thesis
        using hh by (auto simp: hands_held_def wake_ghost_def)
    qed
  qed (use T k(3) in \<open>auto simp: tasks_ok_def W' intro: guards_held_quiet\<close>)
  with k that show ?thesis by blast
qed

section \<open>Cancellation\<close>

lemma tasks_stage_only:
  assumes T: "tasks_ok f n W g fx R" and st: "stage_ok (heap W) g f n st"
    "stage_waiter st = stage_waiter (r_stage (R t))"
    and sleep: "\<And>w. g_loc g w \<noteq> Loose \<Longrightarrow> sleeper (r_stage (R t)) = Some w \<Longrightarrow> sleeper st = Some w"
  shows "tasks_ok f n W g fx (R(t := (R t)\<lparr>r_stage := st\<rparr>))"
  unfolding tasks_ok_def
proof (intro conjI)
  show "stages_held (heap W) g f n (R(t := (R t)\<lparr>r_stage := st\<rparr>))"
    by (rule stages_held_step [OF tasks_okD(6) [OF T]]) (use st sleep in auto)
qed (use T in \<open>auto simp: tasks_ok_def intro: hands_held_quiet guards_held_quiet\<close>)

lemma tasks_unbox:
  assumes T: "tasks_ok f n W g fx R" and t: "r_stage (R t) = Parked w q" "g_loc g w \<noteq> Inbox f"
  shows "tasks_ok f n W g fx (R(t := (R t)\<lparr>r_stage := Unboxed w q\<rparr>))"
  by (rule tasks_stage_only [OF T]) (use tasks_stage [OF T t(1)] t in auto)

lemma tasks_flip:
  assumes T: "tasks_ok f n W g fx R" and inbox: "fa_inbox atom \<noteq> null"
  obtains h' qs' where "flip_iter spurious W f atom = Inr
      (if futex_atom fx = atom \<and> \<not> spurious
       then (None, put_futex (W\<lparr>heap := h'\<rparr>) f
               (fx\<lparr>futex_atom := (futex_atom fx)\<lparr>fa_inbox := null\<rparr>, queues := qs'\<rparr>))
       else (Some (futex_atom fx), W))"
    "\<And>v. wkr h' v = wkr (heap W) v"
    "futex_atom fx = atom \<Longrightarrow> tasks_ok f n (put_futex (W\<lparr>heap := h'\<rparr>) f
        (fx\<lparr>futex_atom := (futex_atom fx)\<lparr>fa_inbox := null\<rparr>, queues := qs'\<rparr>))
      (enqueue_ghost (heap W) f g)
      (fx\<lparr>futex_atom := (futex_atom fx)\<lparr>fa_inbox := null\<rparr>, queues := qs'\<rparr>) R"
proof (cases "futex_atom fx = atom")
  case True
  obtain h' qs' where enq: "flip_iter False W f (futex_atom fx) =
       Inr (None, put_futex (W\<lparr>heap := h'\<rparr>) f
         (fx\<lparr>futex_atom := (futex_atom fx)\<lparr>fa_inbox := null\<rparr>, queues := qs'\<rparr>))"
    "length qs' = length (queues fx)"
    "links_only (heap W) h' {v. at_futex f (g_loc g v)}"
    "world_ok (put_futex (W\<lparr>heap := h'\<rparr>) f
         (fx\<lparr>futex_atom := (futex_atom fx)\<lparr>fa_inbox := null\<rparr>, queues := qs'\<rparr>))
       (enqueue_ghost (heap W) f g)"
    by (rule flip_iter_ok [OF tasks_okD(1,2) [OF T]]) (use True inbox in simp)
  show ?thesis
  proof (rule that)
    show "flip_iter spurious W f atom = Inr
      (if futex_atom fx = atom \<and> \<not> spurious
       then (None, put_futex (W\<lparr>heap := h'\<rparr>) f
               (fx\<lparr>futex_atom := (futex_atom fx)\<lparr>fa_inbox := null\<rparr>, queues := qs'\<rparr>))
       else (Some (futex_atom fx), W))"
      using enq(1) True inbox flip_iter_fail [OF tasks_okD(2) [OF T] inbox] by (cases spurious) auto
    show "tasks_ok f n (put_futex (W\<lparr>heap := h'\<rparr>) f
        (fx\<lparr>futex_atom := (futex_atom fx)\<lparr>fa_inbox := null\<rparr>, queues := qs'\<rparr>))
      (enqueue_ghost (heap W) f g)
      (fx\<lparr>futex_atom := (futex_atom fx)\<lparr>fa_inbox := null\<rparr>, queues := qs'\<rparr>) R"
      by (rule tasks_enqueue [OF T enq(2-4)])
    show "wkr h' v = wkr (heap W) v" for v by (rule wkr_links [OF enq(3)])
  qed
next
  case False
  then show ?thesis
    using flip_iter_fail [OF tasks_okD(2) [OF T] inbox, of spurious]
    by (intro that [of "heap W" "queues fx"]) auto
qed

lemma enqueue_not_inbox: "g_loc (enqueue_ghost h f g) w \<noteq> Inbox f"
  by (simp add: enqueue_ghost_def)

text \<open>Under the write lock no waiter of this futex is in a task's hands.\<close>

lemma tasks_writer:
  assumes T: "tasks_ok f n W g fx R" and t: "r_write (R t)"
  shows "r_read (R u) \<longleftrightarrow> False" and "g_loc g w \<noteq> Loose \<Longrightarrow> g_loc g w = Inbox f \<or> (\<exists>q. g_loc g w = InQueue f q)"
proof -
  have "rw_writer fx = Some t" using tasks_okD(4) [OF T] t by (simp add: guards_held_def)
  then have rd: "rw_readers fx = {}"
    using world_okD(5) [OF tasks_okD(1,2) [OF T]] by (simp add: guards_ok_def)
  then show "r_read (R u) \<longleftrightarrow> False" using tasks_okD(4) [OF T] by (auto simp: guards_held_def)
  assume w: "g_loc g w \<noteq> Loose"
  then obtain q where q: "parked_ok (heap W) g f w q" "listed f q (g_loc g w)"
    using tasks_place [OF T w] by blast
  then have "fut (heap W) w = f" by (simp add: parked_ok_def)
  then have "g_loc g w \<noteq> InHand u \<and> g_loc g w \<noteq> InList u" for u
    using world_okD(5) [OF tasks_okD(1,2) [OF T]] rd by (auto simp: guards_ok_def)
  with q(2) show "g_loc g w = Inbox f \<or> (\<exists>q. g_loc g w = InQueue f q)"
    by (auto simp: listed_def)
qed

lemma tasks_cancel:
  assumes T: "tasks_ok f n W g fx R" and t: "r_write (R t)" "r_stage (R t) = Unboxed w q"
    and g': "g' = (if g_loc g w = Loose then g else cancel_ghost f q w g)"
  obtains h' fx' where "futex_cancel W f w = Inr (put_futex (W\<lparr>heap := h'\<rparr>) f fx')"
    "futex_atom fx' = futex_atom fx" "\<And>v. wkr h' v = wkr (heap W) v"
    "tasks_ok f n (put_futex (W\<lparr>heap := h'\<rparr>) f fx') g' fx' (R(t := (R t)\<lparr>r_stage := Off w\<rparr>))"
proof -
  have st: "q < n" "parked_ok (heap W) g f w q" "g_loc g w \<noteq> Inbox f"
    using tasks_stage [OF T t(2)] by simp_all
  then have a: "alive (heap W) w" "que (heap W) w = q" by (simp_all add: parked_ok_def)
  have len: "length (queues fx) = n" by (rule tasks_okD(3) [OF T])
  note slot = parked_woken [OF T st(2)]
  show ?thesis
  proof (cases "g_loc g w = Loose")
    case True
    then have "detached (heap W) w" using st(2) by (auto simp: parked_ok_def listed_def)
    then have "futex_cancel W f w = Inr W"
      by (rule futex_cancel_detached [OF tasks_okD(1,2) [OF T] True]) (simp add: a st len)
    moreover have "tasks_ok f n W g fx (R(t := (R t)\<lparr>r_stage := Off w\<rparr>))"
      by (rule tasks_stage_only [OF T]) (use t True a slot in auto)
    ultimately show ?thesis
      using True g' tasks_okD(2) [OF T] by (intro that [of "heap W" fx]) simp_all
  next
    case False
    then have loc: "g_loc g w = InQueue f q"
      using tasks_writer(2) [OF T t(1) False] st(2,3) by (auto simp: parked_ok_def listed_def)
    obtain h' l where c:
      "futex_cancel W f w = Inr (put_futex (W\<lparr>heap := h'\<rparr>) f (fx\<lparr>queues := (queues fx)[q := l]\<rparr>))"
      "links_only (heap W) h' {v. v \<noteq> w \<and> (\<exists>j. g_loc g v = InQueue f j)}"
      "world_ok (put_futex (W\<lparr>heap := h'\<rparr>) f (fx\<lparr>queues := (queues fx)[q := l]\<rparr>)) (cancel_ghost f q w g)"
      by (rule futex_cancel_queued [OF tasks_okD(1,2) [OF T] loc])
    let ?fx = "fx\<lparr>queues := (queues fx)[q := l]\<rparr>" and ?g = "cancel_ghost f q w g"
    have gl: "g_loc ?g v = (if v = w then Loose else g_loc g v)" for v
      by (simp add: cancel_ghost_def)
    have "tasks_ok f n (put_futex (W\<lparr>heap := h'\<rparr>) f ?fx) ?g ?fx (R(t := (R t)\<lparr>r_stage := Off w\<rparr>))"
      unfolding tasks_ok_def
    proof (intro conjI)
      show "world_ok (put_futex (W\<lparr>heap := h'\<rparr>) f ?fx) ?g" by (rule c(3))
      show "guards_held ?fx (R(t := (R t)\<lparr>r_stage := Off w\<rparr>))"
        by (rule guards_held_quiet [OF tasks_okD(4) [OF T]]) simp_all
      have hh: "r_hand (R u) = Some v \<longleftrightarrow> g_loc g v = InHand u" for u v
        using tasks_okD(5) [OF T] by (simp add: hands_held_def)
      show "hands_held ?g (R(t := (R t)\<lparr>r_stage := Off w\<rparr>))"
        using tasks_okD(5) [OF T] loc hh by (auto simp: hands_held_def gl cancel_ghost_def)
      show "stages_held (heap (put_futex (W\<lparr>heap := h'\<rparr>) f ?fx)) ?g f n (R(t := (R t)\<lparr>r_stage := Off w\<rparr>))"
      proof (rule stages_held_step [OF tasks_okD(6) [OF T]])
        fix u v assume "u \<noteq> t" "stage_waiter (r_stage (R u)) = Some v"
        then have v: "v \<noteq> w" using tasks_sole [OF T, of t w] t by auto
        show "kept f (heap W) g (heap (put_futex (W\<lparr>heap := h'\<rparr>) f ?fx)) ?g v"
        proof (cases "g_loc g v = Loose")
          case True
          then show ?thesis using v links_only_same [OF c(2), of v] by (simp add: kept_def gl)
        next
          case False
          then show ?thesis using v parked_ok_links [OF _ c(2) False, of f _ ?g]
            by (auto simp: kept_def gl parked_ok_def)
        qed
      next
        have "wkr h' w = wkr (heap W) w" "alive h' w"
          using wkr_links [OF c(2)] links_only_reads(1) [OF c(2)] a by auto
        then show "stage_ok (heap (put_futex (W\<lparr>heap := h'\<rparr>) f ?fx)) ?g f n (r_stage ((R t)\<lparr>r_stage := Off w\<rparr>))"
          using slot by (simp add: gl)
      qed (use t in \<open>auto simp: gl split: if_splits\<close>)
    qed (use tasks_okD(2) [OF T] len in simp_all)
    with c(1) show ?thesis
      using False g' wkr_links [OF c(2)] by (intro that [of h' ?fx]) simp_all
  qed
qed

end
