(* ===== verification/Wait_Task.thy ===== *)
theory Wait_Task imports Futex_Tasks begin

text \<open>
  The waiting half of the primitives built on a futex: a task that awaits \<open>cmpxchg_wait_weak\<close>
  is suspended, inside a later poll, or inside the drop of the future. \<open>wait_advance\<close> composes
  the operations of \<open>src/futex/wait_future.rs\<close> into the steps of such a task, and one theorem
  says what every step does to the roles and the lists, for every primitive.
\<close>

section \<open>The steps of a waiting task\<close>

datatype wait_task =
  Suspended wait_future
| Polling wait_future copy_waker waiter_waker
| Dropping ptr drop_pc

text \<open>The environment polls the task with a waker, drops its future, or lets it take a step.\<close>

datatype wait_act = Repoll copy_waker | Abandon | Step bool

text \<open>
  A step leaves the task waiting, returns from the await, or reaches the cancellation closures:
  \<open>Cancelled None\<close> runs neither of them, \<open>Some True\<close> is \<open>on_cancel_woken\<close>.
\<close>

datatype wait_out = Still wait_task | Returned bool wait_future copy_waker | Cancelled "bool option" ptr

text \<open>
  The first poll: the assertion of \<open>cmpxchg_wait_weak\<close> and \<open>poll_enter\<close>. \<open>Inl\<close> is a failed
  compare-exchange with the atom it found.
\<close>

definition wait_begin ::
  "bool \<Rightarrow> ptr \<Rightarrow> world \<Rightarrow> ptr \<Rightarrow> raw_futex_atom \<Rightarrow> usize \<Rightarrow> copy_waker \<Rightarrow>
     ((raw_futex_atom + wait_task) \<times> world) res" where
  "wait_begin spurious f W waiter atom new cx =
     bindR (cmpxchg_wait_weak W f waiter atom new) (\<lambda>wait.
     bindR (future_poll spurious cx W wait) (\<lambda>(r, wait, W).
       Inr (case r of
              Pending \<Rightarrow> Inr (Suspended wait)
            | Loop k \<Rightarrow> Inr (Polling wait cx k)
            | Ready _ \<Rightarrow> Inl (wf_current wait), W)))"

definition wait_polled ::
  "copy_waker \<Rightarrow> waiter_waker poll \<times> wait_future \<times> world \<Rightarrow> wait_out \<times> world" where
  "wait_polled cx = (\<lambda>(r, wait, W).
     (case r of
        Pending \<Rightarrow> Still (Suspended wait)
      | Loop k \<Rightarrow> Still (Polling wait cx k)
      | Ready woken \<Rightarrow> Returned woken wait cx, W))"

definition wait_advance ::
  "tid \<Rightarrow> wait_act \<Rightarrow> world \<Rightarrow> wait_task \<Rightarrow> (wait_out \<times> world) res option" where
  "wait_advance t act W p =
     (case (p, act) of
        (Suspended wait, Repoll cx) \<Rightarrow> Some (mapR (wait_polled cx) (future_poll False cx W wait))
      | (Polling wait cx k, Step spurious) \<Rightarrow>
          Some (mapR (wait_polled cx) (future_loop spurious cx W wait k))
      | (Suspended wait, Abandon) \<Rightarrow> Some (
          bindR (future_drop W wait) (\<lambda>d.
            Inr (case d of
                   Some d \<Rightarrow> Still (Dropping (wf_waiter wait) d)
                 | None \<Rightarrow> Cancelled None (wf_waiter wait), W)))
      | (Dropping w d, Step spurious) \<Rightarrow>
          (case d of
             DropFinish \<Rightarrow> Some (
               bindR (drop_finish W w) (\<lambda>(woken, W). Inr (Cancelled (Some woken) w, W)))
           | _ \<Rightarrow> map_option (mapR (\<lambda>(d, W). (Still (Dropping w d), W))) (drop_step spurious t W w d))
      | _ \<Rightarrow> None)"

text \<open>
  After a cancellation closure has returned the slot is cleared, and then the waiter is dropped
  with the rest of the frame.
\<close>

definition wait_finish :: "world \<Rightarrow> bool option \<Rightarrow> ptr \<Rightarrow> world res" where
  "wait_finish W c w =
     (case c of
        None \<Rightarrow> waiter_drop W w
      | Some _ \<Rightarrow> bindR (drop_clear W w) (\<lambda>W. waiter_drop W w))"

section \<open>Roles of a waiting task\<close>

definition drop_stage :: "ptr \<Rightarrow> nat \<Rightarrow> drop_pc \<Rightarrow> stage" where
  "drop_stage w q d =
     (case d of
        DropFlip _ atom \<Rightarrow> if fa_inbox atom = null then Unboxed w q else Parked w q
      | DropCancel _ \<Rightarrow> Unboxed w q
      | DropUnlock _ \<Rightarrow> Off w
      | DropFinish \<Rightarrow> Off w
      | _ \<Rightarrow> Parked w q)"

definition drop_role :: "ptr \<Rightarrow> nat \<Rightarrow> drop_pc \<Rightarrow> role" where
  "drop_role w q d = idle_role\<lparr>
     r_write := (case d of DropWrite _ \<Rightarrow> False | DropFinish \<Rightarrow> False | _ \<Rightarrow> True),
     r_stage := drop_stage w q d\<rparr>"

definition wait_ok :: "ptr \<Rightarrow> wait_future \<Rightarrow> bool" where
  "wait_ok f wait \<longleftrightarrow> wf_step wait = Waiting \<and> wf_original_futex wait = f"

definition drop_ok :: "ptr \<Rightarrow> drop_pc \<Rightarrow> bool" where
  "drop_ok f d =
     (case d of
        DropWrite owner \<Rightarrow> owner = f
      | DropCheck owner \<Rightarrow> owner = f
      | DropRelease _ _ \<Rightarrow> False
      | DropLoad owner \<Rightarrow> owner = f
      | DropFlip owner _ \<Rightarrow> owner = f
      | DropCancel owner \<Rightarrow> owner = f
      | DropUnlock owner \<Rightarrow> owner = f
      | DropFinish \<Rightarrow> True)"

fun wait_waiter :: "wait_task \<Rightarrow> ptr" where
  "wait_waiter (Suspended wait) = wf_waiter wait"
| "wait_waiter (Polling wait cx k) = wf_waiter wait"
| "wait_waiter (Dropping w d) = w"

fun wait_role :: "nat \<Rightarrow> wait_task \<Rightarrow> role" where
  "wait_role q (Suspended wait) = idle_role\<lparr>r_stage := Parked (wf_waiter wait) q\<rparr>"
| "wait_role q (Polling wait cx k) = idle_role\<lparr>r_stage := Parked (wf_waiter wait) q\<rparr>"
| "wait_role q (Dropping w d) = drop_role w q d"

fun wait_task_ok :: "ptr \<Rightarrow> heap \<Rightarrow> wait_task \<Rightarrow> bool" where
  "wait_task_ok f h (Suspended wait) = wait_ok f wait"
| "wait_task_ok f h (Polling wait cx k) =
     (wait_ok f wait \<and> k \<noteq> WakerNone \<and> (k = WakerDone \<longrightarrow> wkr h (wf_waiter wait) = WakerDone))"
| "wait_task_ok f h (Dropping w d) = drop_ok f d"

text \<open>A waiter whose future has returned or been cancelled is in no list any more.\<close>

definition off_role :: "ptr \<Rightarrow> role" where
  "off_role w = idle_role\<lparr>r_stage := Off w\<rparr>"

fun out_role :: "nat \<Rightarrow> wait_out \<Rightarrow> role" where
  "out_role q (Still p) = wait_role q p"
| "out_role q (Returned woken wait cx) = off_role (wf_waiter wait)"
| "out_role q (Cancelled c w) = off_role w"

fun out_waiter :: "wait_out \<Rightarrow> ptr" where
  "out_waiter (Still p) = wait_waiter p"
| "out_waiter (Returned woken wait cx) = wf_waiter wait"
| "out_waiter (Cancelled c w) = w"

fun out_ok :: "ptr \<Rightarrow> heap \<Rightarrow> wait_out \<Rightarrow> bool" where
  "out_ok f h (Still p) = wait_task_ok f h p"
| "out_ok f h (Returned woken wait cx) = (woken \<and> wkr h (wf_waiter wait) = WakerDone)"
| "out_ok f h (Cancelled c w) = (c = Some (wkr h w = WakerDone))"

lemmas drop_simps = drop_role_def drop_stage_def drop_ok_def idle_role_def

text \<open>
  The effect on everything but the task itself: the atom and the set of woken waiters stay, and
  the lists stay too, or, under the write lock, the inbox is moved to the queues or
  the task's own waiter is taken out of its queue.
\<close>

definition wait_moves ::
  "ptr \<Rightarrow> nat \<Rightarrow> ptr \<Rightarrow> (tid \<Rightarrow> role) \<Rightarrow> world \<Rightarrow> ghost \<Rightarrow> raw_futex \<Rightarrow> world \<Rightarrow> ghost \<Rightarrow> raw_futex \<Rightarrow> bool" where
  "wait_moves f q w R W g fx W' g' fx' \<longleftrightarrow>
     fa_atom (futex_atom fx') = fa_atom (futex_atom fx) \<and>
     (\<forall>v. wkr (heap W') v = WakerDone \<longleftrightarrow> wkr (heap W) v = WakerDone) \<and>
     (g' = g \<or> (\<exists>u. r_write (R u)) \<and> (\<forall>u. \<not> r_read (R u)) \<and>
        (g' = enqueue_ghost (heap W) f g \<or> g_loc g w = InQueue f q \<and> g' = cancel_ghost f q w g))"

definition wait_good ::
  "ptr \<Rightarrow> nat \<Rightarrow> nat \<Rightarrow> tid \<Rightarrow> (tid \<Rightarrow> role) \<Rightarrow> world \<Rightarrow> ghost \<Rightarrow> raw_futex \<Rightarrow> ptr \<Rightarrow>
     (wait_out \<times> world) res \<Rightarrow> bool" where
  "wait_good f n q t R W g fx w r \<longleftrightarrow> (\<exists>out W' g' fx'. r = Inr (out, W') \<and>
     tasks_ok f n W' g' fx' (R(t := out_role q out)) \<and> out_ok f (heap W') out \<and> out_waiter out = w \<and>
     wait_moves f q w R W g fx W' g' fx')"

lemma wait_goodI:
  "tasks_ok f n W' g' fx' (R(t := out_role q out)) \<Longrightarrow> out_ok f (heap W') out \<Longrightarrow> out_waiter out = w \<Longrightarrow>
     wait_moves f q w R W g fx W' g' fx' \<Longrightarrow> wait_good f n q t R W g fx w (Inr (out, W'))"
  unfolding wait_good_def by blast

lemma wait_good_quiet:
  "tasks_ok f n W' g fx' (R(t := out_role q out)) \<Longrightarrow> out_ok f (heap W') out \<Longrightarrow> out_waiter out = w \<Longrightarrow>
     futex_atom fx' = futex_atom fx \<Longrightarrow>
     (\<And>v. wkr (heap W') v = WakerDone \<longleftrightarrow> wkr (heap W) v = WakerDone) \<Longrightarrow>
     wait_good f n q t R W g fx w (Inr (out, W'))"
  by (rule wait_goodI [where g' = g and fx' = fx']) (simp_all add: wait_moves_def)

lemma same_role: "tasks_ok f n W g fx R \<Longrightarrow> R t = r \<Longrightarrow> tasks_ok f n W g fx (R(t := r))"
  by (simp add: fun_upd_idem)

lemma not_in_inbox:
  assumes "tasks_ok f n W g fx R" "fa_inbox (futex_atom fx) = null"
  shows "g_loc g w \<noteq> Inbox f"
  using inbox_null [OF tasks_okD(1,2) [OF assms(1)]] world_okD(3) [OF tasks_okD(1,2) [OF assms(1)]] assms(2)
  by (auto simp: inbox_ok_def)

section \<open>Polls\<close>

lemma wait_repoll:
  assumes T: "tasks_ok f n W g fx R" and t: "R t = wait_role q (Suspended wait)"
    and p: "wait_ok f wait" and step: "wait_advance t (Repoll cx) W (Suspended wait) = Some r"
  shows "wait_good f n q t R W g fx (wf_waiter wait) r"
proof -
  have st: "r_stage (R t) = Parked (wf_waiter wait) q" by (simp add: t)
  note poll = tasks_poll_waiting [OF T st]
  let ?out = "Still (Polling wait cx (wkr (heap W) (wf_waiter wait)))"
  have "r = Inr (?out, clone_waker W cx)"
    using step p poll(1) by (simp add: wait_advance_def future_poll_def wait_ok_def wait_polled_def)
  moreover have "tasks_ok f n (clone_waker W cx) g fx (R(t := out_role q ?out))"
    by (rule same_role [OF tasks_ok_cong [OF T]]) (simp_all add: t)
  ultimately show ?thesis
    using p poll(2) by (auto intro!: wait_good_quiet)
qed

lemma wait_off:
  assumes T: "tasks_ok f n W g fx R" and t: "R t = idle_role\<lparr>r_stage := Parked w q\<rparr>"
    and woken: "wkr (heap W) w = WakerDone"
  shows "tasks_ok f n W g fx (R(t := off_role w))"
proof -
  have st: "r_stage (R t) = Parked w q" by (simp add: t)
  have p: "parked_ok (heap W) g f w q" using tasks_stage [OF T st] by simp
  have "tasks_ok f n W g fx (R(t := (R t)\<lparr>r_stage := Off w\<rparr>))"
    by (rule tasks_stage_only [OF T])
      (use parked_woken [OF T p] woken p t in \<open>auto simp: parked_ok_def\<close>)
  then show ?thesis by (simp add: t off_role_def)
qed

lemma wait_loop:
  assumes T: "tasks_ok f n W g fx R" and t: "R t = wait_role q (Polling wait cx k)"
    and p: "wait_task_ok f (heap W) (Polling wait cx k)"
    and step: "wait_advance t (Step spurious) W (Polling wait cx k) = Some r"
  shows "wait_good f n q t R W g fx (wf_waiter wait) r"
proof -
  let ?w = "wf_waiter wait"
  have st: "r_stage (R t) = Parked ?w q" by (simp add: t)
  show ?thesis
  proof (cases k)
    case WakerNone
    with p show ?thesis by simp
  next
    case WakerDone
    let ?out = "Returned True (wait\<lparr>wf_step := StepDone\<rparr>) cx"
    have "r = Inr (?out, drop_waker W cx)"
      using step WakerDone by (simp add: wait_advance_def future_loop_def poll_waiting_iter_def wait_polled_def)
    moreover have "tasks_ok f n (drop_waker W cx) g fx (R(t := out_role q ?out))"
      using wait_off [OF tasks_ok_cong [OF T], of "drop_waker W cx" t ?w q] t p WakerDone by simp
    ultimately show ?thesis
      using p WakerDone by (auto intro!: wait_good_quiet)
  next
    case (WakerWaiting old)
    let ?W = "W\<lparr>heap := put_waker (heap W) ?w (WakerWaiting cx)\<rparr>"
    note iter = tasks_poll_iter [OF T st, of ?W cx, OF refl]
    show ?thesis
    proof (cases "wkr (heap W) ?w = WakerWaiting old \<and> \<not> spurious")
      case True
      let ?out = "Still (Suspended wait)"
      have "r = Inr (?out, drop_waker ?W old)"
        using step True WakerWaiting by (simp add: wait_advance_def future_loop_def iter(1) wait_polled_def)
      moreover have "tasks_ok f n (drop_waker ?W old) g fx (R(t := out_role q ?out))"
        by (rule same_role [OF iter(2)]) (use True t in simp_all)
      ultimately show ?thesis
        using p True by (auto intro!: wait_good_quiet simp: put_waker_reads split: if_splits)
    next
      case False
      let ?out = "Still (Polling wait cx (wkr (heap W) ?w))"
      have "r = Inr (?out, W)"
        using step False WakerWaiting by (auto simp: wait_advance_def future_loop_def iter(1) wait_polled_def)
      moreover have "tasks_ok f n W g fx (R(t := out_role q ?out))"
        by (rule same_role [OF T]) (simp add: t)
      ultimately show ?thesis
        using p tasks_poll_waiting(2) [OF T st] by (auto intro!: wait_good_quiet)
    qed
  qed
qed

section \<open>Cancellation\<close>

lemma wait_abandon:
  assumes T: "tasks_ok f n W g fx R" and t: "R t = wait_role q (Suspended wait)"
    and p: "wait_ok f wait" and step: "wait_advance t Abandon W (Suspended wait) = Some r"
  shows "wait_good f n q t R W g fx (wf_waiter wait) r"
proof -
  let ?w = "wf_waiter wait" and ?out = "Still (Dropping (wf_waiter wait) (DropWrite f))"
  have st: "alive (heap W) ?w" "fut (heap W) ?w = f"
    using tasks_stage [OF T, of t "Parked ?w q"] t by (simp_all add: parked_ok_def)
  have "r = Inr (?out, W)"
    using step p st by (simp add: wait_advance_def future_drop_def wait_ok_def drop_start_def link_simps)
  moreover have "tasks_ok f n W g fx (R(t := out_role q ?out))"
    by (rule same_role [OF T]) (simp add: t drop_simps)
  ultimately show ?thesis by (auto intro!: wait_good_quiet simp: drop_ok_def)
qed

lemma wait_drop_guard:
  assumes T: "tasks_ok f n W g fx R" and t: "R t = drop_role w q d" and d: "d = DropWrite f \<or> d = DropUnlock f"
    and step: "drop_step spurious t W w d = Some r"
  shows "wait_good f n q t R W g fx w (mapR (\<lambda>(d, W). (Still (Dropping w d), W)) r)"
proof (cases "d = DropWrite f")
  case True
  let ?out = "Still (Dropping w (DropCheck f))"
  obtain r0 where r0: "write_lock t W f = Some r0" "r = mapR (Pair (DropCheck f)) r0"
    using step True by (auto simp: drop_step_def)
  have role: "out_role q ?out = (R t)\<lparr>r_write := True\<rparr>"
    by (simp add: t True drop_simps)
  obtain fx' where l: "r0 = Inr (put_futex W f fx')" "futex_atom fx' = futex_atom fx"
    "tasks_ok f n (put_futex W f fx') g fx' (R(t := out_role q ?out))"
    unfolding role by (rule tasks_write_lock [OF T r0(1)])
  then have "wait_good f n q t R W g fx w (Inr (?out, put_futex W f fx'))"
    by (auto intro!: wait_good_quiet simp: drop_ok_def)
  then show ?thesis by (simp add: r0(2) l(1))
next
  case False
  with d have d: "d = DropUnlock f" by simp
  let ?out = "Still (Dropping w DropFinish)"
  have role: "out_role q ?out = (R t)\<lparr>r_write := False\<rparr>" and wr: "r_write (R t)"
    by (simp_all add: t d drop_simps)
  obtain fx' where l: "write_unlock t W f = Inr (put_futex W f fx')" "futex_atom fx' = futex_atom fx"
    "tasks_ok f n (put_futex W f fx') g fx' (R(t := out_role q ?out))"
    unfolding role by (rule tasks_write_unlock [OF T wr])
  then have "wait_good f n q t R W g fx w (Inr (?out, put_futex W f fx'))"
    by (auto intro!: wait_good_quiet simp: drop_ok_def)
  moreover have "r = Inr (DropFinish, put_futex W f fx')"
    using step l(1) by (auto simp: d drop_step_def)
  ultimately show ?thesis by simp
qed

lemma tasks_found:
  assumes T: "tasks_ok f n W g fx R" and t: "R t = (drop_role w q (DropLoad f))"
  shows "tasks_ok f n W g fx (R(t := drop_role w q (DropFlip f (futex_atom fx))))"
proof (cases "fa_inbox (futex_atom fx) = null")
  case True
  have "tasks_ok f n W g fx (R(t := (R t)\<lparr>r_stage := Unboxed w q\<rparr>))"
    by (rule tasks_unbox [OF T _ not_in_inbox [OF T True]]) (simp add: t drop_simps)
  with True show ?thesis by (simp add: t drop_simps)
next
  case False
  then show ?thesis by (intro same_role [OF T]) (simp add: t drop_simps)
qed

lemma wait_drop_load:
  assumes T: "tasks_ok f n W g fx R" and t: "R t = drop_role w q d" and d: "d = DropCheck f \<or> d = DropLoad f"
    and step: "drop_step spurious t W w d = Some r"
  shows "wait_good f n q t R W g fx w (mapR (\<lambda>(d, W). (Still (Dropping w d), W)) r)"
proof -
  have st: "alive (heap W) w" "fut (heap W) w = f"
    using tasks_stage [OF T, of t "Parked w q"] t d by (auto simp: parked_ok_def drop_simps)
  show ?thesis
  proof (cases "d = DropCheck f")
    case True
    let ?out = "Still (Dropping w (DropLoad f))"
    have "tasks_ok f n W g fx (R(t := out_role q ?out))"
      by (rule same_role [OF T]) (simp add: t True drop_simps)
    then have "wait_good f n q t R W g fx w (Inr (?out, W))"
      by (auto intro!: wait_good_quiet simp: drop_ok_def)
    moreover have "r = Inr (DropLoad f, W)"
      using step st by (auto simp: True drop_step_def link_simps)
    ultimately show ?thesis by simp
  next
    case False
    with d have d: "d = DropLoad f" by simp
    let ?out = "Still (Dropping w (DropFlip f (futex_atom fx)))"
    have "wait_good f n q t R W g fx w (Inr (?out, W))"
      using tasks_found [OF T t [unfolded d]] by (auto intro!: wait_good_quiet simp: drop_ok_def)
    moreover have "r = Inr (DropFlip f (futex_atom fx), W)"
      using step futex_load_eq [OF tasks_okD(2) [OF T], of AcquireT] by (auto simp: d drop_step_def)
    ultimately show ?thesis by simp
  qed
qed

lemma wait_drop_flip:
  assumes T: "tasks_ok f n W g fx R" and t: "R t = drop_role w q (DropFlip f a)"
    and step: "drop_step spurious t W w (DropFlip f a) = Some r"
  shows "wait_good f n q t R W g fx w (mapR (\<lambda>(d, W). (Still (Dropping w d), W)) r)"
proof (cases "fa_inbox a = null")
  case True
  let ?out = "Still (Dropping w (DropCancel f))"
  have "tasks_ok f n W g fx (R(t := out_role q ?out))"
    by (rule same_role [OF T]) (simp add: t True drop_simps)
  then have "wait_good f n q t R W g fx w (Inr (?out, W))"
    by (auto intro!: wait_good_quiet simp: drop_ok_def)
  moreover have "r = Inr (DropCancel f, W)"
    using step True by (auto simp: drop_step_def flip_iter_empty)
  ultimately show ?thesis by simp
next
  case False
  have wr: "r_write (R t)" by (simp add: t drop_simps)
  obtain h' qs' where flip: "flip_iter spurious W f a = Inr
      (if futex_atom fx = a \<and> \<not> spurious
       then (None, put_futex (W\<lparr>heap := h'\<rparr>) f
               (fx\<lparr>futex_atom := (futex_atom fx)\<lparr>fa_inbox := null\<rparr>, queues := qs'\<rparr>))
       else (Some (futex_atom fx), W))"
    "\<And>v. wkr h' v = wkr (heap W) v"
    "futex_atom fx = a \<Longrightarrow> tasks_ok f n (put_futex (W\<lparr>heap := h'\<rparr>) f
        (fx\<lparr>futex_atom := (futex_atom fx)\<lparr>fa_inbox := null\<rparr>, queues := qs'\<rparr>))
      (enqueue_ghost (heap W) f g)
      (fx\<lparr>futex_atom := (futex_atom fx)\<lparr>fa_inbox := null\<rparr>, queues := qs'\<rparr>) R"
    using tasks_flip [OF T False, of spurious] by blast
  let ?fx = "fx\<lparr>futex_atom := (futex_atom fx)\<lparr>fa_inbox := null\<rparr>, queues := qs'\<rparr>"
  let ?W = "put_futex (W\<lparr>heap := h'\<rparr>) f ?fx" and ?g = "enqueue_ghost (heap W) f g"
  have r: "r = mapR (\<lambda>(r, W). (case r of Some atom \<Rightarrow> DropFlip f atom | None \<Rightarrow> DropCancel f, W))
      (flip_iter spurious W f a)"
    using step by (auto simp: drop_step_def mapR_def case_prod_unfold)
  show ?thesis
  proof (cases "futex_atom fx = a \<and> \<not> spurious")
    case True
    let ?out = "Still (Dropping w (DropCancel f))"
    have role: "out_role q ?out = (R t)\<lparr>r_stage := Unboxed w q\<rparr>"
      using False by (simp add: t drop_simps)
    have "tasks_ok f n ?W ?g ?fx (R(t := out_role q ?out))"
      unfolding role
      by (rule tasks_unbox [OF flip(3)]) (use True False enqueue_not_inbox in \<open>auto simp: t drop_simps\<close>)
    then have "wait_good f n q t R W g fx w (Inr (?out, ?W))"
      by (rule wait_goodI) (use wr tasks_writer(1) [OF T wr] flip(2) in \<open>auto simp: wait_moves_def drop_ok_def\<close>)
    then show ?thesis unfolding r flip(1) using True by simp
  next
    case nok: False
    let ?out = "Still (Dropping w (DropFlip f (futex_atom fx)))"
    have "R t = drop_role w q (DropLoad f)" using False by (simp add: t drop_simps)
    then have "wait_good f n q t R W g fx w (Inr (?out, W))"
      using tasks_found [OF T] by (auto intro!: wait_good_quiet simp: drop_ok_def)
    moreover have "r = Inr (DropFlip f (futex_atom fx), W)"
      unfolding r flip(1) using nok by auto
    ultimately show ?thesis by simp
  qed
qed

lemma wait_drop_cancel:
  assumes T: "tasks_ok f n W g fx R" and t: "R t = drop_role w q (DropCancel f)"
    and step: "drop_step spurious t W w (DropCancel f) = Some r"
  shows "wait_good f n q t R W g fx w (mapR (\<lambda>(d, W). (Still (Dropping w d), W)) r)"
proof -
  let ?out = "Still (Dropping w (DropUnlock f))"
  define g' where "g' = (if g_loc g w = Loose then g else cancel_ghost f q w g)"
  have st: "r_stage (R t) = Unboxed w q" and wr: "r_write (R t)"
    and role: "out_role q ?out = (R t)\<lparr>r_stage := Off w\<rparr>"
    by (simp_all add: t drop_simps)
  obtain h' fx' where c: "futex_cancel W f w = Inr (put_futex (W\<lparr>heap := h'\<rparr>) f fx')"
    "futex_atom fx' = futex_atom fx" "\<And>v. wkr h' v = wkr (heap W) v"
    "tasks_ok f n (put_futex (W\<lparr>heap := h'\<rparr>) f fx') g' fx' (R(t := out_role q ?out))"
    unfolding role using tasks_cancel [OF T wr st g'_def] by blast
  have "g_loc g w = Loose \<or> g_loc g w = InQueue f q"
    using tasks_stage [OF T st] tasks_writer(2) [OF T wr, of w] by (auto simp: parked_ok_def listed_def)
  then have "wait_good f n q t R W g fx w (Inr (?out, put_futex (W\<lparr>heap := h'\<rparr>) f fx'))"
    by (intro wait_goodI [OF c(4)])
      (use c(2,3) wr tasks_writer(1) [OF T wr] in \<open>auto simp: g'_def wait_moves_def drop_ok_def\<close>)
  moreover have "r = Inr (DropUnlock f, put_futex (W\<lparr>heap := h'\<rparr>) f fx')"
    using step c(1) by (auto simp: drop_step_def)
  ultimately show ?thesis by simp
qed

lemma wait_drop_finish:
  assumes T: "tasks_ok f n W g fx R" and t: "R t = drop_role w q DropFinish"
  shows "wait_good f n q t R W g fx w
    (bindR (drop_finish W w) (\<lambda>(woken, W). Inr (Cancelled (Some woken) w, W)))"
proof -
  have st: "alive (heap W) w" "wkr (heap W) w \<noteq> WakerNone"
    using tasks_stage [OF T, of t "Off w"] by (simp_all add: t drop_simps)
  have role: "tasks_ok f n W' g fx (R(t := out_role q (Cancelled c w)))"
    if "heap W' = heap W" "futexes W' = futexes W" for W' c
    by (rule same_role [OF tasks_ok_cong [OF T that]]) (simp add: t off_role_def drop_simps)
  show ?thesis
  proof (cases "wkr (heap W) w")
    case (WakerWaiting k)
    have "wait_good f n q t R W g fx w (Inr (Cancelled (Some False) w, drop_waker W k))"
      by (rule wait_good_quiet [OF role]) (simp_all add: WakerWaiting)
    with st WakerWaiting show ?thesis by (simp add: drop_finish_def link_simps)
  next
    case WakerDone
    have "wait_good f n q t R W g fx w (Inr (Cancelled (Some True) w, W))"
      by (rule wait_good_quiet [OF role]) (simp_all add: WakerDone)
    with st WakerDone show ?thesis by (simp add: drop_finish_def link_simps)
  qed (use st in simp)
qed

lemma wait_dropping:
  assumes T: "tasks_ok f n W g fx R" and t: "R t = drop_role w q d" and ok: "drop_ok f d"
    and step: "wait_advance t (Step spurious) W (Dropping w d) = Some r"
  shows "wait_good f n q t R W g fx w r"
proof (cases "d = DropFinish")
  case True
  with wait_drop_finish [OF T t [unfolded True]] step show ?thesis by (auto simp: wait_advance_def)
next
  case False
  then obtain r0 where r0: "drop_step spurious t W w d = Some r0"
    "r = mapR (\<lambda>(d, W). (Still (Dropping w d), W)) r0"
    using step by (cases d) (auto simp: wait_advance_def)
  consider "d = DropWrite f \<or> d = DropUnlock f" | "d = DropCheck f \<or> d = DropLoad f"
    | a where "d = DropFlip f a" | "d = DropCancel f"
    using ok False by (cases d) (auto simp: drop_ok_def)
  then show ?thesis
  proof cases
    case 1
    show ?thesis unfolding r0(2) by (rule wait_drop_guard [OF T t 1 r0(1)])
  next
    case 2
    show ?thesis unfolding r0(2) by (rule wait_drop_load [OF T t 2 r0(1)])
  next
    case 3
    show ?thesis unfolding r0(2)
      by (rule wait_drop_flip [OF T t [unfolded 3] r0(1) [unfolded 3]])
  next
    case 4
    show ?thesis unfolding r0(2)
      by (rule wait_drop_cancel [OF T t [unfolded 4] r0(1) [unfolded 4]])
  qed
qed

section \<open>All steps\<close>

lemma wait_advance_good:
  assumes T: "tasks_ok f n W g fx R" and t: "R t = wait_role q p" and p: "wait_task_ok f (heap W) p"
    and step: "wait_advance t act W p = Some r"
  shows "wait_good f n q t R W g fx (wait_waiter p) r"
proof (cases p)
  case (Suspended wait)
  show ?thesis
  proof (cases act)
    case (Repoll cx)
    then show ?thesis using wait_repoll [OF T t [unfolded Suspended]] p step Suspended by simp
  next
    case Abandon
    then show ?thesis using wait_abandon [OF T t [unfolded Suspended]] p step Suspended by simp
  next
    case (Step spurious)
    then show ?thesis using step Suspended by (simp add: wait_advance_def)
  qed
next
  case (Polling wait cx k)
  show ?thesis
  proof (cases act)
    case (Step spurious)
    then show ?thesis using wait_loop [OF T t [unfolded Polling]] p step Polling by simp
  qed (use step Polling in \<open>simp_all add: wait_advance_def\<close>)
next
  case (Dropping w d)
  show ?thesis
  proof (cases act)
    case (Step spurious)
    then show ?thesis using wait_dropping [OF T] t p step Dropping by simp
  qed (use step Dropping in \<open>simp_all add: wait_advance_def\<close>)
qed

text \<open>The end of a cancellation and the end of an await free the waiter.\<close>

lemma wait_finish_off:
  assumes T: "tasks_ok f n W g fx R" and t: "r_stage (R t) = Off w"
  obtains W' where "wait_finish W (Some b) w = Inr W'" "heap W' = (heap W)(w := None)"
    "futexes W' = futexes W" "tasks_ok f n W' g fx (R(t := (R t)\<lparr>r_stage := NoWaiter\<rparr>))"
  using tasks_clear [OF T t] by (intro that [of "W\<lparr>heap := (heap W)(w := None)\<rparr>"]) (simp_all add: wait_finish_def)

text \<open>The first poll pushes the waiter, or leaves it fresh.\<close>

lemma wait_begin_good:
  assumes T: "tasks_ok f n W g fx R" and t: "r_stage (R t) = Fresh w q"
  obtains W1 wait where "wait_begin spurious f W w atom new cx = Inr
      (if futex_atom fx = atom \<and> \<not> spurious
       then (Inr (Suspended wait), put_futex W1 f (fx\<lparr>futex_atom := \<lparr>fa_atom = new, fa_inbox = w\<rparr>\<rparr>))
       else (Inl (futex_atom fx), W1))"
    "wait_ok f wait" "wf_waiter wait = w" "wf_current wait = atom"
    "tasks_ok f n W1 g fx R" "\<forall>v. v \<noteq> w \<longrightarrow> heap W1 v = heap W v"
    "\<forall>v. wkr (heap W1) v = WakerDone \<longleftrightarrow> wkr (heap W) v = WakerDone"
    "atom = futex_atom fx \<longrightarrow>
       tasks_ok f n (put_futex W1 f (fx\<lparr>futex_atom := \<lparr>fa_atom = new, fa_inbox = w\<rparr>\<rparr>))
         (push_ghost f w g) (fx\<lparr>futex_atom := \<lparr>fa_atom = new, fa_inbox = w\<rparr>\<rparr>)
         (R(t := (R t)\<lparr>r_stage := Parked w q\<rparr>))"
proof -
  have st: "alive (heap W) w" "fut (heap W) w = f" "wkr (heap W) w \<noteq> WakerDone"
    using tasks_stage [OF T t] by simp_all
  let ?wait = "\<lparr>wf_original_futex = f, wf_current = atom, wf_new = new, wf_step = Enter, wf_waiter = w\<rparr>"
  let ?fx = "fx\<lparr>futex_atom := \<lparr>fa_atom = new, fa_inbox = w\<rparr>\<rparr>"
  have wf: "cmpxchg_wait_weak W f w atom new = Inr ?wait"
    using st by (simp add: cmpxchg_wait_weak_def link_simps)
  obtain W1 k where p: "poll_enter spurious cx W ?wait = Inr
      (if futex_atom fx = atom \<and> \<not> spurious
       then (True, ?wait\<lparr>wf_step := Waiting\<rparr>, put_futex W1 f ?fx)
       else (False, ?wait\<lparr>wf_current := futex_atom fx\<rparr>, W1))"
    "tasks_ok f n W1 g fx R" "wkr (heap W1) w = WakerWaiting k"
    "\<forall>v. v \<noteq> w \<longrightarrow> heap W1 v = heap W v"
    "atom = futex_atom fx \<longrightarrow> tasks_ok f n (put_futex W1 f ?fx) (push_ghost f w g) ?fx
         (R(t := (R t)\<lparr>r_stage := Parked w q\<rparr>))"
    by (rule tasks_poll_enter [OF T t, of ?wait atom new spurious cx]) simp_all
  have "wkr (heap W1) v = WakerDone \<longleftrightarrow> wkr (heap W) v = WakerDone" for v
    using p(3,4) st(3) by (cases "v = w") (simp_all add: wkr_def)
  with p st show ?thesis
    by (intro that [of "?wait\<lparr>wf_step := Waiting\<rparr>" W1])
      (simp_all add: wait_begin_def wf future_poll_def wait_ok_def)
qed

text \<open>Only a drop starts a cancellation.\<close>

lemma wait_polled_out:
  "mapR (wait_polled cx) r = Inr (out, W') \<Longrightarrow> out \<noteq> Still (Dropping w d) \<and> out \<noteq> Cancelled c w"
  by (cases r) (auto simp: wait_polled_def split: poll.splits)

lemma wait_not_dropped:
  assumes "wait_advance t act W p = Some (Inr (out, W'))" "act \<noteq> Abandon" "\<And>w d. p \<noteq> Dropping w d"
  shows "out \<noteq> Still (Dropping w d)" "out \<noteq> Cancelled c w"
  using assms wait_polled_out by (auto simp: wait_advance_def split: wait_task.splits wait_act.splits)

text \<open>The snapshot of the atom that a future was made with stays with it.\<close>

fun wait_current :: "wait_task \<Rightarrow> raw_futex_atom" where
  "wait_current (Suspended wait) = wf_current wait"
| "wait_current (Polling wait cx k) = wf_current wait"
| "wait_current (Dropping w d) = \<lparr>fa_atom = 0, fa_inbox = null\<rparr>"

lemma wait_polled_current:
  assumes "mapR (wait_polled cx) r = Inr (out, W')" "\<And>x wait W. r = Inr (x, wait, W) \<Longrightarrow> wf_current wait = a"
  shows "(\<forall>q. out = Still q \<longrightarrow> wait_current q = a) \<and> (\<forall>b wait cx. out = Returned b wait cx \<longrightarrow> wf_current wait = a)"
proof -
  obtain x wait W where r: "r = Inr (x, wait, W)"
    using assms(1) by (cases r) auto
  then have "out = fst (wait_polled cx (x, wait, W))" using assms(1) by simp
  with assms(2) [OF r] show ?thesis by (cases x) (simp_all add: wait_polled_def)
qed

lemma wait_advance_current:
  assumes "wait_advance t act W p = Some (Inr (out, W'))" "wait_task_ok f h p" "act \<noteq> Abandon" "\<And>w d. p \<noteq> Dropping w d"
  shows "(\<forall>q. out = Still q \<longrightarrow> wait_current q = wait_current p) \<and>
    (\<forall>b wait cx. out = Returned b wait cx \<longrightarrow> wf_current wait = wait_current p)"
proof (cases p)
  case (Suspended wait)
  then obtain cx where "act = Repoll cx" using assms(1,3) by (cases act) (auto simp: wait_advance_def)
  then have "mapR (wait_polled cx) (future_poll False cx W wait) = Inr (out, W')"
    using assms(1) Suspended by (simp add: wait_advance_def)
  then show ?thesis
  proof (rule wait_polled_current)
    fix x wait' W2 assume "future_poll False cx W wait = Inr (x, wait', W2)"
    then show "wf_current wait' = wait_current p"
      using assms(2) Suspended by (auto simp: future_poll_def wait_ok_def bindR_eq_Inr)
  qed
next
  case (Polling wait cx k)
  then obtain b where "act = Step b" using assms(1) by (cases act) (auto simp: wait_advance_def)
  then have "mapR (wait_polled cx) (future_loop b cx W wait k) = Inr (out, W')"
    using assms(1) Polling by (simp add: wait_advance_def)
  then show ?thesis
  proof (rule wait_polled_current)
    fix x wait' W2 assume "future_loop b cx W wait k = Inr (x, wait', W2)"
    then show "wf_current wait' = wait_current p"
      using Polling by (auto simp: future_loop_def bindR_eq_Inr split: poll.splits)
  qed
qed (use assms(4) in blast)

end
