(* ===== verification/Fair_Mutex.thy ===== *)
theory Fair_Mutex imports Wait_Task begin

text \<open>
  \<open>src/fair_mutex.rs\<close>: the mutex that hands itself to its waiters in order. Its atom is 1
  while the mutex is owned and its futex has one queue. A state is the memory and, for every
  task, its place in \<open>lock\<close>, in the drop of a pending \<open>lock\<close>, or in the drop of a guard.
\<close>

section \<open>Unlocking\<close>

text \<open>
  The atomic accesses of \<open>unlock\<close>, in the order of the code: \<open>ULock\<close> takes the read guard,
  \<open>UBorrow\<close> borrows the queues and pops, \<open>UDrop\<close> releases the borrow before \<open>UWake\<close> swaps
  the popped waiter's waker and \<open>UCall\<close> calls it; \<open>ULoad\<close>, \<open>ULoop\<close>, \<open>UCas\<close> and \<open>UReborrow\<close>
  are the load and the loop; \<open>UUnlock\<close> drops the read guard and \<open>UDone\<close> has returned.
\<close>

datatype unlock_pc =
  ULock
| UBorrow
| UDrop ptr
| UWake ptr
| UCall copy_waker
| ULoad
| ULoop raw_futex_atom
| UCas raw_futex_atom
| UReborrow raw_futex_atom
| UUnlock
| UDone

definition unlock_step ::
  "bool \<Rightarrow> tid \<Rightarrow> ptr \<Rightarrow> world \<Rightarrow> unlock_pc \<Rightarrow> (unlock_pc \<times> world) res option" where
  "unlock_step spurious t f W u =
     (case u of
        ULock \<Rightarrow> map_option (mapR (Pair UBorrow)) (futex_lock t W f)
      | UBorrow \<Rightarrow> Some (
          bindR (queue_lock W f) (\<lambda>W.
          bindR (queue_pop W f 0) (\<lambda>(popped, W).
            Inr (case popped of Some waiter \<Rightarrow> UDrop waiter | None \<Rightarrow> ULoad, W))))
      | UDrop waiter \<Rightarrow> Some (mapR (Pair (UWake waiter)) (queue_unlock W f))
      | UWake waiter \<Rightarrow> Some (bindR (wake_swap W waiter) (\<lambda>(k, W). Inr (UCall k, W)))
      | UCall k \<Rightarrow> Some (Inr (UUnlock, wake_call W k))
      | ULoad \<Rightarrow> Some (bindR (futex_load RelaxedT W f) (\<lambda>atom. Inr (ULoop atom, W)))
      | ULoop atom \<Rightarrow> Some (
          if has_new_waiters atom then
            bindR (cmpxchg_enqueue_weak spurious AcquireT RelaxedT W f atom 1) (\<lambda>(ok, atom, W).
              if ok then
                bindR (queue_pop W f 0) (\<lambda>(popped, W).
                  case popped of Some waiter \<Rightarrow> Inr (UDrop waiter, W) | None \<Rightarrow> Inl Panic)
              else Inr (ULoop atom, W))
          else mapR (Pair (UCas atom)) (queue_unlock W f))
      | UCas atom \<Rightarrow> Some (
          bindR (futex_cmpxchg_weak spurious ReleaseT RelaxedT W f atom 0) (\<lambda>(ok, atom, W).
            Inr (if ok then UUnlock else UReborrow atom, W)))
      | UReborrow atom \<Rightarrow> Some (mapR (Pair (ULoop atom)) (queue_lock W f))
      | UUnlock \<Rightarrow> Some (mapR (Pair UDone) (futex_unlock t W f))
      | UDone \<Rightarrow> None)"

section \<open>Locking\<close>

text \<open>
  A task is \<open>Idle\<close>, at the top of the loop of \<open>lock\<close> (\<open>LTop\<close>, with its waiter, its local
  \<open>futex_atom\<close> and the waker of the poll), suspended in the wait (\<open>LPending\<close>), inside a later
  poll (\<open>LPolling\<close>), dropping a suspended \<open>lock\<close> (\<open>LDrop\<close>, and \<open>LCancel\<close> in the \<open>unlock\<close> of
  \<open>on_cancel_woken\<close>), the holder of a guard (\<open>Held\<close>), or in the drop of a guard.
\<close>

datatype fair_pc =
  Idle
| LTop ptr raw_futex_atom copy_waker
| LPending wait_future
| LPolling wait_future copy_waker waiter_waker
| LDrop ptr drop_pc
| LCancel ptr unlock_pc
| Held
| Unlocking unlock_pc

text \<open>
  The environment polls a task with a waker (and gives the address where \<open>lock\<close> pins its
  waiter), drops its future or its guard, or lets it take one step in which a weak
  compare-exchange may fail spuriously.
\<close>

datatype action = Poll copy_waker ptr | Drop | Run bool

record fair_state =
  fm_world :: world
  fm_pc :: "tid \<Rightarrow> fair_pc"

text \<open>
  What \<open>lock\<close> does with the result of a poll of its wait. \<open>break\<close> leaves the scope of the
  waiter, which is dropped.
\<close>

definition lock_polled ::
  "ptr \<Rightarrow> copy_waker \<Rightarrow> waiter_waker poll \<times> wait_future \<times> world \<Rightarrow> (fair_pc \<times> world) res" where
  "lock_polled waiter cx = (\<lambda>(r, wait, W).
     case r of
       Pending \<Rightarrow> Inr (LPending wait, W)
     | Loop k \<Rightarrow> Inr (LPolling wait cx k, W)
     | Ready woken \<Rightarrow>
         if woken then mapR (Pair Held) (waiter_drop W waiter)
         else Inr (LTop waiter (wf_current wait) cx, W))"

definition lock_start :: "ptr \<Rightarrow> copy_waker \<Rightarrow> ptr \<Rightarrow> world \<Rightarrow> (fair_pc \<times> world) res option" where
  "lock_start f cx addr W =
     (case new_waiter W f 0 0 addr of
        None \<Rightarrow> None
      | Some W \<Rightarrow> Some (bindR (futex_load RelaxedT W f) (\<lambda>atom. Inr (LTop addr atom cx, W))))"

definition lock_iter ::
  "bool \<Rightarrow> ptr \<Rightarrow> world \<Rightarrow> ptr \<Rightarrow> raw_futex_atom \<Rightarrow> copy_waker \<Rightarrow> (fair_pc \<times> world) res" where
  "lock_iter spurious f W waiter atom cx =
     (if inner id atom = 0 then
        bindR (futex_cmpxchg_weak spurious AcquireT RelaxedT W f atom 1) (\<lambda>(ok, atom, W).
          if ok then mapR (Pair Held) (waiter_drop W waiter) else Inr (LTop waiter atom cx, W))
      else
        bindR (cmpxchg_wait_weak W f waiter atom 1) (\<lambda>wait.
        bindR (future_poll spurious cx W wait) (lock_polled waiter cx)))"

text \<open>The drop of a pending \<open>lock\<close>: its wait is dropped first, then its waiter.\<close>

definition lock_cancelled :: "world \<Rightarrow> ptr \<Rightarrow> (fair_pc \<times> world) res" where
  "lock_cancelled W waiter =
     mapR (Pair Idle) (bindR (drop_clear W waiter) (\<lambda>W. waiter_drop W waiter))"

definition lock_drop :: "world \<Rightarrow> wait_future \<Rightarrow> (fair_pc \<times> world) res" where
  "lock_drop W wait =
     bindR (future_drop W wait) (\<lambda>d.
       case d of
         Some d \<Rightarrow> Inr (LDrop (wf_waiter wait) d, W)
       | None \<Rightarrow> mapR (Pair Idle) (waiter_drop W (wf_waiter wait)))"

definition lock_drop_step ::
  "bool \<Rightarrow> tid \<Rightarrow> world \<Rightarrow> ptr \<Rightarrow> drop_pc \<Rightarrow> (fair_pc \<times> world) res option" where
  "lock_drop_step spurious t W waiter d =
     (case d of
        DropFinish \<Rightarrow> Some (
          bindR (drop_finish W waiter) (\<lambda>(woken, W).
            if woken then Inr (LCancel waiter ULock, W) else lock_cancelled W waiter))
      | _ \<Rightarrow> map_option (mapR (\<lambda>(d, W). (LDrop waiter d, W))) (drop_step spurious t W waiter d))"

definition fair_task ::
  "ptr \<Rightarrow> tid \<Rightarrow> action \<Rightarrow> world \<Rightarrow> fair_pc \<Rightarrow> (fair_pc \<times> world) res option" where
  "fair_task f t act W p =
     (case (p, act) of
        (Idle, Poll cx addr) \<Rightarrow> lock_start f cx addr W
      | (LTop waiter atom cx, Run spurious) \<Rightarrow> Some (lock_iter spurious f W waiter atom cx)
      | (LPending wait, Poll cx _) \<Rightarrow> Some (
          bindR (future_poll False cx W wait) (lock_polled (wf_waiter wait) cx))
      | (LPolling wait cx k, Run spurious) \<Rightarrow> Some (
          bindR (future_loop spurious cx W wait k) (lock_polled (wf_waiter wait) cx))
      | (LPending wait, Drop) \<Rightarrow> Some (lock_drop W wait)
      | (LDrop waiter d, Run spurious) \<Rightarrow> lock_drop_step spurious t W waiter d
      | (LCancel waiter u, Run spurious) \<Rightarrow>
          map_option (\<lambda>r. bindR r (\<lambda>(u, W).
            if u = UDone then lock_cancelled W waiter else Inr (LCancel waiter u, W)))
            (unlock_step spurious t f W u)
      | (Held, Drop) \<Rightarrow> Some (Inr (Unlocking ULock, W))
      | (Unlocking u, Run spurious) \<Rightarrow>
          map_option (mapR (\<lambda>(u, W). (if u = UDone then Idle else Unlocking u, W)))
            (unlock_step spurious t f W u)
      | _ \<Rightarrow> None)"

definition fair_step :: "ptr \<Rightarrow> (tid \<times> action, fair_state) machine" where
  "fair_step f = (\<lambda>(t, act) s.
     map_option (mapR (\<lambda>(p, W). s\<lparr>fm_world := W, fm_pc := (fm_pc s)(t := p)\<rparr>))
       (fair_task f t act (fm_world s) (fm_pc s t)))"

text \<open>\<open>Mutex::new\<close>: the atom is 0, the futex has one queue, and no task has begun.\<close>

definition fair_new :: "ptr \<Rightarrow> fair_state" where
  "fair_new f =
     \<lparr>fm_world = \<lparr>heap = Map.empty, futexes = [f \<mapsto> futex_new 0 1], clones = [], wakes = [],
                  drops = []\<rparr>,
      fm_pc = (\<lambda>_. Idle)\<rparr>"

end
