(* ===== verification/Fair_Mutex_Inv.thy ===== *)
theory Fair_Mutex_Inv imports Fair_Mutex begin

text \<open>
  The invariant of \<open>src/fair_mutex.rs\<close> and its preservation. The mutex has one token: the
  atom is 1 while some task has it. The token is with a guard, in \<open>unlock\<close> up to the swap of
  the waker, and then with the task whose waiter was woken, whether that task has been polled
  since, is being polled, or is being cancelled.
\<close>

section \<open>Roles and ownership\<close>

definition unlock_role :: "unlock_pc \<Rightarrow> role" where
  "unlock_role u = idle_role\<lparr>
     r_read := (case u of ULock \<Rightarrow> False | UDone \<Rightarrow> False | _ \<Rightarrow> True),
     r_borrow := (case u of UDrop _ \<Rightarrow> True | ULoad \<Rightarrow> True | ULoop _ \<Rightarrow> True | _ \<Rightarrow> False),
     r_hand := (case u of UDrop w \<Rightarrow> Some w | UWake w \<Rightarrow> Some w | _ \<Rightarrow> None)\<rparr>"

fun fair_role :: "fair_pc \<Rightarrow> role" where
  "fair_role Idle = idle_role"
| "fair_role (LTop w a cx) = idle_role\<lparr>r_stage := Fresh w 0\<rparr>"
| "fair_role (LPending wait) = idle_role\<lparr>r_stage := Parked (wf_waiter wait) 0\<rparr>"
| "fair_role (LPolling wait cx k) = idle_role\<lparr>r_stage := Parked (wf_waiter wait) 0\<rparr>"
| "fair_role (LDrop w d) = drop_role w 0 d"
| "fair_role (LCancel w u) = (unlock_role u)\<lparr>r_stage := Off w\<rparr>"
| "fair_role Held = idle_role"
| "fair_role (Unlocking u) = unlock_role u"

definition unlock_owns :: "unlock_pc \<Rightarrow> bool" where
  "unlock_owns u = (case u of UCall _ \<Rightarrow> False | UUnlock \<Rightarrow> False | UDone \<Rightarrow> False | _ \<Rightarrow> True)"

fun owns :: "heap \<Rightarrow> fair_pc \<Rightarrow> bool" where
  "owns h Idle = False"
| "owns h (LTop w a cx) = False"
| "owns h (LPending wait) = (wkr h (wf_waiter wait) = WakerDone)"
| "owns h (LPolling wait cx k) = (wkr h (wf_waiter wait) = WakerDone)"
| "owns h (LDrop w d) = (wkr h w = WakerDone)"
| "owns h (LCancel w u) = unlock_owns u"
| "owns h Held = True"
| "owns h (Unlocking u) = unlock_owns u"

text \<open>The loop of \<open>unlock\<close> runs with an empty queue, and leaves it with an empty inbox.\<close>

definition unlock_empty :: "unlock_pc \<Rightarrow> bool" where
  "unlock_empty u =
     (case u of ULoad \<Rightarrow> True | ULoop _ \<Rightarrow> True | UCas _ \<Rightarrow> True | UReborrow _ \<Rightarrow> True | _ \<Rightarrow> False)"

fun in_unlock :: "fair_pc \<Rightarrow> unlock_pc option" where
  "in_unlock (LCancel w u) = Some u"
| "in_unlock (Unlocking u) = Some u"
| "in_unlock _ = None"

fun pc_ok :: "ptr \<Rightarrow> heap \<Rightarrow> fair_pc \<Rightarrow> bool" where
  "pc_ok f h (LPending wait) = wait_ok f wait"
| "pc_ok f h (LPolling wait cx k) =
     (wait_ok f wait \<and> k \<noteq> WakerNone \<and> (k = WakerDone \<longrightarrow> wkr h (wf_waiter wait) = WakerDone))"
| "pc_ok f h (LDrop w d) = drop_ok f d"
| "pc_ok f h (LCancel w u) = (\<forall>a. u = UCas a \<longrightarrow> fa_inbox a = null)"
| "pc_ok f h (Unlocking u) = (\<forall>a. u = UCas a \<longrightarrow> fa_inbox a = null)"
| "pc_ok f h _ = True"

section \<open>The invariant\<close>

definition fair_ok ::
  "ptr \<Rightarrow> world \<Rightarrow> (tid \<Rightarrow> fair_pc) \<Rightarrow> ghost \<Rightarrow> raw_futex \<Rightarrow> tid option \<Rightarrow> bool" where
  "fair_ok f W pc g fx own \<longleftrightarrow> tasks_ok f 1 W g fx (\<lambda>t. fair_role (pc t)) \<and>
     (\<forall>t. pc_ok f (heap W) (pc t)) \<and>
     (\<forall>t u. in_unlock (pc t) = Some u \<and> unlock_empty u \<longrightarrow> g_queues g f ! 0 = []) \<and>
     (\<forall>t. owns (heap W) (pc t) \<longleftrightarrow> own = Some t) \<and>
     fa_atom (futex_atom fx) = (if own = None then 0 else 1) \<and>
     (own = None \<longrightarrow> (\<forall>w. g_loc g w = Loose))"

definition fair_inv :: "ptr \<Rightarrow> fair_state \<Rightarrow> bool" where
  "fair_inv f s \<longleftrightarrow> (\<exists>g fx own. fair_ok f (fm_world s) (fm_pc s) g fx own)"

lemma fair_okD:
  assumes "fair_ok f W pc g fx own"
  shows "tasks_ok f 1 W g fx (\<lambda>t. fair_role (pc t))" "pc_ok f (heap W) (pc t)"
    "in_unlock (pc t) = Some u \<Longrightarrow> unlock_empty u \<Longrightarrow> g_queues g f ! 0 = []"
    "owns (heap W) (pc t) \<longleftrightarrow> own = Some t"
    "fa_atom (futex_atom fx) = (if own = None then 0 else 1)"
    "own = None \<Longrightarrow> g_loc g w = Loose"
  using assms by (auto simp: fair_ok_def)

text \<open>
  Other tasks see of a step that their waiter's waker slot has the same contents, or that
  they have been woken.
\<close>

lemma owns_cong:
  "(\<And>w. stage_waiter (r_stage (fair_role p)) = Some w \<Longrightarrow> wkr h' w = wkr h w) \<Longrightarrow>
     owns h' p = owns h p"
  by (cases p) (auto simp: drop_role_def drop_stage_def split: drop_pc.splits)

lemma pc_ok_mono:
  "pc_ok f h p \<Longrightarrow>
     (\<And>w. stage_waiter (r_stage (fair_role p)) = Some w \<Longrightarrow> wkr h w = WakerDone \<Longrightarrow> wkr h' w = WakerDone) \<Longrightarrow>
     pc_ok f h' p"
  by (cases p) auto

lemma fair_roles: "(\<lambda>u. fair_role ((pc(t := p)) u)) = (\<lambda>u. fair_role (pc u))(t := fair_role p)"
  by auto

lemma fair_ok_step:
  assumes ok: "fair_ok f W pc g fx own"
    and T: "tasks_ok f 1 W' g' fx' ((\<lambda>u. fair_role (pc u))(t := fair_role p))"
    and wkr: "\<And>u w. u \<noteq> t \<Longrightarrow> stage_waiter (r_stage (fair_role (pc u))) = Some w \<Longrightarrow>
        wkr (heap W') w = wkr (heap W) w"
    and p: "pc_ok f (heap W') p"
    and empty: "\<And>u. in_unlock p = Some u \<Longrightarrow> unlock_empty u \<Longrightarrow> g_queues g' f ! 0 = []"
      "\<And>u v. u \<noteq> t \<Longrightarrow> in_unlock (pc u) = Some v \<Longrightarrow> unlock_empty v \<Longrightarrow>
        g_queues g f ! 0 = [] \<Longrightarrow> g_queues g' f ! 0 = []"
    and own: "owns (heap W') p \<longleftrightarrow> own' = Some t" "\<And>u. u \<noteq> t \<Longrightarrow> own' = Some u \<longleftrightarrow> own = Some u"
    and atom: "fa_atom (futex_atom fx') = (if own' = None then 0 else 1)"
    and free: "\<And>w. own' = None \<Longrightarrow> g_loc g' w = Loose"
  shows "fair_ok f W' (pc(t := p)) g' fx' own'"
  unfolding fair_ok_def
proof (intro conjI allI impI)
  fix u show "pc_ok f (heap W') ((pc(t := p)) u)"
    using p pc_ok_mono [OF fair_okD(2) [OF ok, of u]] wkr [of u] by simp
next
  fix u v assume "in_unlock ((pc(t := p)) u) = Some v \<and> unlock_empty v"
  then show "g_queues g' f ! 0 = []"
    using empty fair_okD(3) [OF ok, of u v] by (auto split: if_splits)
next
  fix u
  have "owns (heap W') (pc u) = owns (heap W) (pc u)" if "u \<noteq> t"
    by (rule owns_cong) (use wkr that in blast)
  then show "owns (heap W') ((pc(t := p)) u) \<longleftrightarrow> own' = Some u"
    using own fair_okD(4) [OF ok, of u] by simp
qed (use T atom free in \<open>simp_all only: fair_roles simp_thms\<close>)

text \<open>Steps that touch neither the lists nor the ownership.\<close>

lemma fair_ok_quiet:
  assumes ok: "fair_ok f W pc g fx own"
    and T: "tasks_ok f 1 W' g fx' ((\<lambda>u. fair_role (pc u))(t := fair_role p))"
    and fx': "fa_atom (futex_atom fx') = fa_atom (futex_atom fx)"
    and wkr: "\<And>w. stage_waiter (r_stage (fair_role (pc t))) \<noteq> Some w \<Longrightarrow>
      wkr (heap W') w = wkr (heap W) w"
    and p: "pc_ok f (heap W') p" "owns (heap W') p = owns (heap W) (pc t)"
    and empty: "\<And>u. in_unlock p = Some u \<Longrightarrow> unlock_empty u \<Longrightarrow>
        (\<exists>v. in_unlock (pc t) = Some v \<and> unlock_empty v) \<or> g_queues g f ! 0 = []"
  shows "fair_ok f W' (pc(t := p)) g fx' own"
proof (rule fair_ok_step [OF ok T])
  fix u w assume "u \<noteq> t" "stage_waiter (r_stage (fair_role (pc u))) = Some w"
  then show "wkr (heap W') w = wkr (heap W) w"
    using tasks_sole [OF fair_okD(1) [OF ok], of u w t] wkr by blast
qed (use ok p fx' empty in \<open>auto simp: fair_ok_def\<close>)

lemma fair_unique:
  "fair_ok f W pc g fx own \<Longrightarrow> owns (heap W) (pc t) \<Longrightarrow> owns (heap W) (pc u) \<Longrightarrow> t = u"
  using fair_okD(4) by fastforce

text \<open>A borrow of the queues belongs to the owner.\<close>

lemma borrow_owns: "r_borrow (fair_role p) \<Longrightarrow> owns h p"
  by (cases p) (auto simp: idle_role_def unlock_role_def drop_role_def unlock_owns_def
      split: unlock_pc.splits)

lemma empty_owns: "in_unlock p = Some u \<Longrightarrow> unlock_empty u \<Longrightarrow> owns h p"
  by (cases p) (auto simp: unlock_empty_def unlock_owns_def split: unlock_pc.splits)

lemma empty_reads: "in_unlock p = Some u \<Longrightarrow> unlock_empty u \<Longrightarrow> r_read (fair_role p)"
  by (cases p) (auto simp: unlock_empty_def unlock_role_def idle_role_def split: unlock_pc.splits)

section \<open>The order of the waiters\<close>

text \<open>
  The waiters in the order in which they will get the mutex: the one in the owner's hand, the
  queue, and the inbox, which is a stack. A step of task \<open>t\<close> moves the owner and this line
  in one of the ways of \<open>fair_trans\<close>.
\<close>

definition hand_of :: "fair_pc \<Rightarrow> ptr list" where
  "hand_of p = (case r_hand (fair_role p) of Some w \<Rightarrow> [w] | None \<Rightarrow> [])"

definition line :: "ptr \<Rightarrow> ghost \<Rightarrow> (tid \<Rightarrow> fair_pc) \<Rightarrow> tid option \<Rightarrow> ptr list" where
  "line f g pc own =
     (case own of Some t \<Rightarrow> hand_of (pc t) | None \<Rightarrow> []) @ g_queues g f ! 0 @ rev (g_inbox g f)"

definition sleeps :: "(tid \<Rightarrow> fair_pc) \<Rightarrow> tid \<Rightarrow> ptr \<Rightarrow> bool" where
  "sleeps pc t w \<longleftrightarrow> sleeper (r_stage (fair_role (pc t))) = Some w"

inductive fair_trans ::
  "tid \<Rightarrow> (tid \<Rightarrow> fair_pc) \<Rightarrow> tid option \<Rightarrow> ptr list \<Rightarrow> (tid \<Rightarrow> fair_pc) \<Rightarrow> tid option \<Rightarrow> ptr list \<Rightarrow> bool"
  for t pc where
  stay: "(\<And>w. w \<in> set ws \<Longrightarrow> sleeps pc t w = sleeps pc' t w) \<Longrightarrow> fair_trans t pc own ws pc' own ws"
| acquire: "fair_trans t pc None [] pc' (Some t) []"
| release: "fair_trans t pc (Some t) [] pc' None []"
| enqueue: "own \<noteq> None \<Longrightarrow> (\<And>v. \<not> sleeps pc t v) \<Longrightarrow> sleeps pc' t w \<Longrightarrow>
    fair_trans t pc own ws pc' own (ws @ [w])"
| handoff: "sleeps pc u w \<Longrightarrow> u \<noteq> t \<Longrightarrow> fair_trans t pc (Some t) (w # ws) pc' (Some u) ws"
| leave: "sleeps pc t w \<Longrightarrow> fair_trans t pc own ws pc' own (remove1 w ws)"

section \<open>Unlocking\<close>

definition wraps :: "(unlock_pc \<Rightarrow> fair_pc) \<Rightarrow> stage \<Rightarrow> bool" where
  "wraps C st \<longleftrightarrow> sleeper st = None \<and>
     (\<forall>u. fair_role (C u) = (unlock_role u)\<lparr>r_stage := st\<rparr> \<and> in_unlock (C u) = Some u \<and>
        (\<forall>h. owns h (C u) = unlock_owns u) \<and>
        (\<forall>f h. pc_ok f h (C u) = (\<forall>a. u = UCas a \<longrightarrow> fa_inbox a = null)))"

lemma wraps_Unlocking: "wraps Unlocking NoWaiter"
  by (simp add: wraps_def unlock_role_def idle_role_def)

lemma wraps_LCancel: "wraps (LCancel w) (Off w)"
  by (simp add: wraps_def unlock_role_def idle_role_def)

lemma wrapsD:
  assumes "wraps C st"
  shows "fair_role (C u) = (unlock_role u)\<lparr>r_stage := st\<rparr>" "in_unlock (C u) = Some u"
    "owns h (C u) = unlock_owns u" "pc_ok f h (C u) = (\<forall>a. u = UCas a \<longrightarrow> fa_inbox a = null)"
    "sleeper st = None"
  using assms by (simp_all add: wraps_def)

lemmas unlock_simps = unlock_role_def idle_role_def unlock_owns_def unlock_empty_def

definition unlock_good ::
  "ptr \<Rightarrow> tid \<Rightarrow> (unlock_pc \<Rightarrow> fair_pc) \<Rightarrow> (tid \<Rightarrow> fair_pc) \<Rightarrow> ghost \<Rightarrow> tid option \<Rightarrow>
     (unlock_pc \<times> world) res \<Rightarrow> bool" where
  "unlock_good f t C pc g own r \<longleftrightarrow> (\<exists>u' W' g' fx' own'. r = Inr (u', W') \<and>
     fair_ok f W' (pc(t := C u')) g' fx' own' \<and>
     fair_trans t pc own (line f g pc own) (pc(t := C u')) own' (line f g' (pc(t := C u')) own'))"

lemma role_same:
  assumes "tasks_ok f n W g fx (\<lambda>v. fair_role (pc v))" "fair_role p = fair_role (pc t)"
  shows "tasks_ok f n W g fx ((\<lambda>v. fair_role (pc v))(t := fair_role p))"
proof -
  have "(\<lambda>v. fair_role (pc v))(t := fair_role p) = (\<lambda>v. fair_role (pc v))"
    using assms(2) by auto
  with assms(1) show ?thesis by simp
qed

lemma unlock_goodI:
  "fair_ok f W' (pc(t := C u')) g' fx' own' \<and>
     fair_trans t pc own (line f g pc own) (pc(t := C u')) own' (line f g' (pc(t := C u')) own') \<Longrightarrow>
   unlock_good f t C pc g own (Inr (u', W'))"
  unfolding unlock_good_def by blast

text \<open>A step inside \<open>unlock\<close> that touches neither the lists nor the ownership.\<close>

lemma unlock_quiet:
  assumes ok: "fair_ok f W pc g fx own" and C: "wraps C st" "pc t = C u"
    and T: "tasks_ok f 1 W' g fx' ((\<lambda>v. fair_role (pc v))(t := fair_role (C u')))"
    and same: "futex_atom fx' = futex_atom fx" "heap W' = heap W" "unlock_owns u' = unlock_owns u"
      "unlock_empty u' \<Longrightarrow> unlock_empty u \<or> g_queues g f ! 0 = []"
      "\<And>a. u' = UCas a \<Longrightarrow> fa_inbox a = null" "r_hand (unlock_role u') = r_hand (unlock_role u)"
  shows "unlock_good f t C pc g own (Inr (u', W'))"
proof (rule unlock_goodI, rule conjI)
  show "fair_ok f W' (pc(t := C u')) g fx' own"
    by (rule fair_ok_quiet [OF ok T]) (use C same in \<open>auto simp: wrapsD [OF C(1)]\<close>)
  have "line f g (pc(t := C u')) own = line f g pc own"
    using C same(6) by (auto simp: line_def hand_of_def wrapsD [OF C(1)] split: option.splits)
  then show "fair_trans t pc own (line f g pc own) (pc(t := C u')) own (line f g (pc(t := C u')) own)"
    using C by (auto intro!: fair_trans.stay simp: sleeps_def wrapsD [OF C(1)])
qed

lemma unlock_owner:
  assumes ok: "fair_ok f W pc g fx own" and C: "wraps C st" "pc t = C u" and u: "unlock_owns u"
  shows "own = Some t" "v \<noteq> t \<Longrightarrow> \<not> r_borrow (fair_role (pc v))"
    "v \<noteq> t \<Longrightarrow> in_unlock (pc v) = Some x \<Longrightarrow> \<not> unlock_empty x"
proof -
  show own: "own = Some t"
    using fair_okD(4) [OF ok, of t] u C by (simp add: wrapsD [OF C(1)])
  show "\<not> r_borrow (fair_role (pc v))" if "v \<noteq> t"
    using borrow_owns [of "pc v" "heap W"] fair_okD(4) [OF ok, of v] own that by auto
  show "\<not> unlock_empty x" if "v \<noteq> t" "in_unlock (pc v) = Some x"
    using empty_owns [of "pc v" x "heap W"] fair_okD(4) [OF ok, of v] own that by auto
qed

text \<open>Popping a waiter puts it in the owner's hand and keeps the line.\<close>

lemma unlock_pop:
  assumes ok: "fair_ok f W pc g fx own" and C: "wraps C st" "pc t = C u" and u: "unlock_owns u"
    and T: "tasks_ok f 1 W' (pop_ghost t f 0 g) fx'
        ((\<lambda>v. fair_role (pc v))(t := fair_role (C (UDrop w))))"
    and same: "futex_atom fx' = futex_atom fx" "\<And>v. wkr (heap W') v = wkr (heap W) v"
    and q: "g_queues g f ! 0 = w # ws" "r_hand (unlock_role u) = None"
  shows "unlock_good f t C pc g own (Inr (UDrop w, W'))"
proof (rule unlock_goodI, rule conjI)
  note owner = unlock_owner [OF ok C u]
  have len: "length (g_queues g f) = 1"
    using enqueue_lists(3) [OF fair_okD(1) [OF ok]] .
  show "fair_ok f W' (pc(t := C (UDrop w))) (pop_ghost t f 0 g) fx' own"
    by (rule fair_ok_step [OF ok T])
      (use same owner fair_okD(4,5) [OF ok] in \<open>auto simp: wrapsD [OF C(1)] unlock_simps\<close>)
  have "line f (pop_ghost t f 0 g) (pc(t := C (UDrop w))) own = line f g pc own"
    using owner(1) q len C by (simp add: line_def hand_of_def wrapsD [OF C(1)] pop_ghost_def unlock_simps)
  then show "fair_trans t pc own (line f g pc own) (pc(t := C (UDrop w))) own
      (line f (pop_ghost t f 0 g) (pc(t := C (UDrop w))) own)"
    using C by (auto intro!: fair_trans.stay simp: sleeps_def wrapsD [OF C(1)])
qed

lemma unlock_ULock:
  assumes ok: "fair_ok f W pc g fx own" and C: "wraps C st" "pc t = C ULock"
    and step: "unlock_step spurious t f W ULock = Some r"
  shows "unlock_good f t C pc g own r"
proof -
  obtain r0 where r0: "futex_lock t W f = Some r0" "r = mapR (Pair UBorrow) r0"
    using step by (auto simp: unlock_step_def)
  have role: "fair_role (C UBorrow) = (fair_role (pc t))\<lparr>r_read := True\<rparr>"
    by (simp add: C wrapsD [OF C(1)] unlock_simps)
  obtain fx' where l: "r0 = Inr (put_futex W f fx')" "futex_atom fx' = futex_atom fx"
    "tasks_ok f 1 (put_futex W f fx') g fx' ((\<lambda>v. fair_role (pc v))(t := fair_role (C UBorrow)))"
    unfolding role by (rule tasks_lock [OF fair_okD(1) [OF ok] r0(1)])
  show ?thesis
    unfolding r0(2) l(1) mapR_simps
    by (rule unlock_quiet [OF ok C l(3,2)]) (simp_all add: unlock_simps)
qed

lemma unlock_UBorrow:
  assumes ok: "fair_ok f W pc g fx own" and C: "wraps C st" "pc t = C UBorrow"
    and step: "unlock_step spurious t f W UBorrow = Some r"
  shows "unlock_good f t C pc g own r"
proof -
  have u: "unlock_owns UBorrow" by (simp add: unlock_owns_def)
  note T = fair_okD(1) [OF ok] and owner = unlock_owner [OF ok C u]
  have free: "\<not> r_borrow (fair_role (pc v))" for v
    using owner(2) [of v] C by (cases "v = t") (auto simp: wrapsD [OF C(1)] unlock_simps)
  have role: "fair_role (C ULoad) = (fair_role (pc t))\<lparr>r_borrow := True\<rparr>"
    "fair_role (C (UDrop w)) = (fair_role (C ULoad))\<lparr>r_hand := Some w\<rparr>" for w
    by (simp_all add: C wrapsD [OF C(1)] unlock_simps)
  obtain fx1 where l: "queue_lock W f = Inr (put_futex W f fx1)" "futex_atom fx1 = futex_atom fx"
    "tasks_ok f 1 (put_futex W f fx1) g fx1 ((\<lambda>v. fair_role (pc v))(t := fair_role (C ULoad)))"
    unfolding role by (rule tasks_queue_lock [OF T free])
  have r: "r = bindR (queue_pop (put_futex W f fx1) f 0) (\<lambda>(popped, W).
      Inr (case popped of Some waiter \<Rightarrow> UDrop waiter | None \<Rightarrow> ULoad, W))"
    using step l(1) by (simp add: unlock_step_def)
  show ?thesis
  proof (cases "g_queues g f ! 0")
    case Nil
    have "r = Inr (ULoad, put_futex W f fx1)"
      using tasks_pop_Nil [OF l(3), of 0] Nil by (simp add: r)
    then show ?thesis
      by (simp only:) (rule unlock_quiet [OF ok C l(3,2)];
        simp add: unlock_simps Nil)
  next
    case (Cons w ws)
    let ?W = "put_futex W f fx1"
    obtain h' fx' where pop: "queue_pop ?W f 0 = Inr (Some w, put_futex (?W\<lparr>heap := h'\<rparr>) f fx')"
      "futex_atom fx' = futex_atom fx1" "\<And>v. wkr h' v = wkr (heap ?W) v"
      "tasks_ok f 1 (put_futex (?W\<lparr>heap := h'\<rparr>) f fx') (pop_ghost t f (unat 0) g) fx'
        (((\<lambda>v. fair_role (pc v))(t := fair_role (C ULoad)))
          (t := (((\<lambda>v. fair_role (pc v))(t := fair_role (C ULoad))) t)\<lparr>r_hand := Some w\<rparr>))"
      by (rule tasks_pop_Cons [OF l(3), of 0 t w ws])
        (use Cons in \<open>simp_all add: wrapsD [OF C(1)] unlock_simps\<close>)
    have T': "tasks_ok f 1 (put_futex (?W\<lparr>heap := h'\<rparr>) f fx') (pop_ghost t f 0 g) fx'
        ((\<lambda>v. fair_role (pc v))(t := fair_role (C (UDrop w))))"
      using pop(4) by (simp only: role(2) fun_upd_same fun_upd_upd unat_0)
    have "r = Inr (UDrop w, put_futex (?W\<lparr>heap := h'\<rparr>) f fx')"
      by (simp add: r pop(1))
    then show ?thesis
      by (simp only:) (rule unlock_pop [OF ok C u T'];
        (use l pop Cons in \<open>simp add: unlock_simps\<close>))
  qed
qed

lemma unlock_UDrop:
  assumes ok: "fair_ok f W pc g fx own" and C: "wraps C st" "pc t = C (UDrop w)"
    and step: "unlock_step spurious t f W (UDrop w) = Some r"
  shows "unlock_good f t C pc g own r"
proof -
  have role: "fair_role (C (UWake w)) = (fair_role (pc t))\<lparr>r_borrow := False\<rparr>"
    and b: "r_borrow (fair_role (pc t))"
    by (simp_all add: C wrapsD [OF C(1)] unlock_simps)
  obtain fx' where l: "queue_unlock W f = Inr (put_futex W f fx')" "futex_atom fx' = futex_atom fx"
    "tasks_ok f 1 (put_futex W f fx') g fx' ((\<lambda>v. fair_role (pc v))(t := fair_role (C (UWake w))))"
    unfolding role by (rule tasks_queue_unlock [OF fair_okD(1) [OF ok] b])
  have "r = Inr (UWake w, put_futex W f fx')"
    using step l(1) by (simp add: unlock_step_def)
  then show ?thesis
    by (simp only:) (rule unlock_quiet [OF ok C l(3,2)]; simp add: unlock_simps)
qed

lemma unlock_UCall:
  assumes ok: "fair_ok f W pc g fx own" and C: "wraps C st" "pc t = C (UCall k)"
    and step: "unlock_step spurious t f W (UCall k) = Some r"
  shows "unlock_good f t C pc g own r"
proof -
  have role: "fair_role (C UUnlock) = fair_role (pc t)"
    by (simp add: C wrapsD [OF C(1)] unlock_simps)
  have T: "tasks_ok f 1 (wake_call W k) g fx ((\<lambda>v. fair_role (pc v))(t := fair_role (C UUnlock)))"
    by (rule role_same [OF tasks_ok_cong [OF fair_okD(1) [OF ok]]]) (simp_all add: role)
  have "r = Inr (UUnlock, wake_call W k)"
    using step by (simp add: unlock_step_def)
  then show ?thesis
    by (simp only:) (rule unlock_quiet [OF ok C T]; simp add: unlock_simps)
qed

lemma unlock_ULoad:
  assumes ok: "fair_ok f W pc g fx own" and C: "wraps C st" "pc t = C ULoad"
    and step: "unlock_step spurious t f W ULoad = Some r"
  shows "unlock_good f t C pc g own r"
proof -
  have role: "fair_role (C (ULoop a)) = fair_role (pc t)" for a
    by (simp add: C wrapsD [OF C(1)] unlock_simps)
  have T: "tasks_ok f 1 W g fx ((\<lambda>v. fair_role (pc v))(t := fair_role (C (ULoop a))))" for a
    by (rule role_same [OF fair_okD(1) [OF ok] role])
  have "r = Inr (ULoop (futex_atom fx), W)"
    using step futex_load_eq [OF tasks_okD(2) [OF fair_okD(1) [OF ok]]]
    by (simp add: unlock_step_def)
  then show ?thesis
    by (simp only:) (rule unlock_quiet [OF ok C T]; simp add: unlock_simps)
qed

lemma unlock_UReborrow:
  assumes ok: "fair_ok f W pc g fx own" and C: "wraps C st" "pc t = C (UReborrow a)"
    and step: "unlock_step spurious t f W (UReborrow a) = Some r"
  shows "unlock_good f t C pc g own r"
proof -
  have u: "unlock_owns (UReborrow a)" by (simp add: unlock_owns_def)
  have free: "\<not> r_borrow (fair_role (pc v))" for v
    using unlock_owner(2) [OF ok C u, of v] C by (cases "v = t") (auto simp: wrapsD [OF C(1)] unlock_simps)
  have role: "fair_role (C (ULoop a)) = (fair_role (pc t))\<lparr>r_borrow := True\<rparr>"
    by (simp add: C wrapsD [OF C(1)] unlock_simps)
  obtain fx' where l: "queue_lock W f = Inr (put_futex W f fx')" "futex_atom fx' = futex_atom fx"
    "tasks_ok f 1 (put_futex W f fx') g fx' ((\<lambda>v. fair_role (pc v))(t := fair_role (C (ULoop a))))"
    unfolding role by (rule tasks_queue_lock [OF fair_okD(1) [OF ok] free])
  have "r = Inr (ULoop a, put_futex W f fx')"
    using step l(1) by (simp add: unlock_step_def)
  then show ?thesis
    by (simp only:) (rule unlock_quiet [OF ok C l(3,2)]; simp add: unlock_simps)
qed

lemma unlock_UUnlock:
  assumes ok: "fair_ok f W pc g fx own" and C: "wraps C st" "pc t = C UUnlock"
    and step: "unlock_step spurious t f W UUnlock = Some r"
  shows "unlock_good f t C pc g own r"
proof -
  have role: "fair_role (C UDone) = (fair_role (pc t))\<lparr>r_read := False\<rparr>"
    and h: "r_hand (fair_role (pc t)) = None" "r_list (fair_role (pc t)) = []"
    by (simp_all add: C wrapsD [OF C(1)] unlock_simps)
  obtain fx' where l: "futex_unlock t W f = Inr (put_futex W f fx')" "futex_atom fx' = futex_atom fx"
    "tasks_ok f 1 (put_futex W f fx') g fx' ((\<lambda>v. fair_role (pc v))(t := fair_role (C UDone)))"
    unfolding role by (rule tasks_unlock [OF fair_okD(1) [OF ok] h])
  have "r = Inr (UDone, put_futex W f fx')"
    using step l(1) by (simp add: unlock_step_def)
  then show ?thesis
    by (simp only:) (rule unlock_quiet [OF ok C l(3,2)]; simp add: unlock_simps)
qed

text \<open>The swap of the waker passes the mutex to the task of the popped waiter.\<close>

lemma sleeper_owns:
  assumes "sleeper (r_stage (fair_role p)) = Some w"
  shows "owns h p \<longleftrightarrow> wkr h w = WakerDone" "hand_of p = []" "in_unlock p = None"
  using assms
  by (cases p; auto simp: hand_of_def drop_role_def drop_stage_def unlock_simps
      split: drop_pc.splits if_splits)+

lemma unlock_UWake:
  assumes ok: "fair_ok f W pc g fx own" and C: "wraps C st" "pc t = C (UWake w)"
    and step: "unlock_step spurious t f W (UWake w) = Some r"
  shows "unlock_good f t C pc g own r"
proof -
  have u: "unlock_owns (UWake w)" by (simp add: unlock_owns_def)
  note T = fair_okD(1) [OF ok] and owner = unlock_owner [OF ok C u]
  have hand: "r_hand (fair_role (pc t)) = Some w"
    and role: "fair_role (C (UCall k)) = (fair_role (pc t))\<lparr>r_hand := None\<rparr>" for k
    by (simp_all add: C wrapsD [OF C(1)] unlock_simps)
  let ?W = "W\<lparr>heap := put_waker (heap W) w WakerDone\<rparr>"
  obtain k where k: "wake_swap W w = Inr (k, ?W)"
    "tasks_ok f 1 ?W (wake_ghost w g) fx ((\<lambda>v. fair_role (pc v))(t := (fair_role (pc t))\<lparr>r_hand := None\<rparr>))"
    using tasks_wake [OF T, of t w ?W] hand by auto
  have T': "tasks_ok f 1 ?W (wake_ghost w g) fx ((\<lambda>v. fair_role (pc v))(t := fair_role (C (UCall k))))"
    unfolding role by (rule k(2))
  have "g_loc g w = InHand t"
    using tasks_okD(5) [OF T] hand by (simp add: hands_held_def)
  then have "g_loc g w \<noteq> Loose" by simp
  then obtain v where v: "sleeper (r_stage (fair_role (pc v))) = Some w"
    using tasks_place [OF T, of w] by auto
  have vt: "v \<noteq> t"
    using v C(2) wrapsD(1,5) [OF C(1)] by auto
  note vsl = sleeper_owns [OF v]
  let ?pc = "pc(t := C (UCall k))"
  have "fair_ok f ?W ?pc (wake_ghost w g) fx (Some v)"
    unfolding fair_ok_def
  proof (intro conjI allI impI)
    fix x show "pc_ok f (heap ?W) (?pc x)"
      using pc_ok_mono [OF fair_okD(2) [OF ok, of x], of "heap ?W"]
      by (simp add: wrapsD [OF C(1)] put_waker_reads)
  next
    fix x y assume "in_unlock (?pc x) = Some y \<and> unlock_empty y"
    then show "g_queues (wake_ghost w g) f ! 0 = []"
      using owner(3) [of x y] wrapsD(2) [OF C(1)] by (auto simp: unlock_simps split: if_splits)
  next
    fix x
    have "owns (heap ?W) (pc x) = owns (heap W) (pc x)" if "x \<noteq> v"
      by (rule owns_cong) (use tasks_sole [OF T sleeper_waiter [OF v] that] in \<open>auto simp: put_waker_reads\<close>)
    then show "owns (heap ?W) (?pc x) \<longleftrightarrow> Some v = Some x"
      using fair_okD(4) [OF ok, of x] owner(1) vt vsl(1) wrapsD(3) [OF C(1)]
      by (auto simp: put_waker_reads unlock_simps)
  next
    show "tasks_ok f 1 ?W (wake_ghost w g) fx (\<lambda>x. fair_role (?pc x))"
      unfolding fair_roles by (rule T')
  qed (use fair_okD(5) [OF ok] owner(1) in simp_all)
  moreover have "line f g pc own = w # line f (wake_ghost w g) ?pc (Some v)"
    using owner(1) hand vt vsl(2) by (simp add: line_def hand_of_def wake_ghost_def)
  ultimately have "fair_ok f ?W ?pc (wake_ghost w g) fx (Some v) \<and>
      fair_trans t pc own (line f g pc own) ?pc (Some v) (line f (wake_ghost w g) ?pc (Some v))"
    using fair_trans.handoff [of pc v w t] v vt owner(1) by (simp add: sleeps_def)
  moreover have "r = Inr (UCall k, ?W)"
    using step k(1) by (simp add: unlock_step_def)
  ultimately show ?thesis
    by (simp only: unlock_goodI)
qed

lemma unlock_ULoop_new:
  assumes ok: "fair_ok f W pc g fx own" and C: "wraps C st" "pc t = C (ULoop a)"
    and new: "has_new_waiters a"
    and step: "unlock_step spurious t f W (ULoop a) = Some r"
  shows "unlock_good f t C pc g own r"
proof -
  have u: "unlock_owns (ULoop a)" by (simp add: unlock_owns_def)
  note T = fair_okD(1) [OF ok] and owner = unlock_owner [OF ok C u]
  have empty: "g_queues g f ! 0 = []"
    by (rule fair_okD(3) [OF ok, of t "ULoop a"]) (simp_all add: C wrapsD [OF C(1)] unlock_simps)
  have fo: "cas_orders s (ORDERING RelaxedT)" for s by simp
  let ?a = "\<lparr>fa_atom = 1, fa_inbox = null\<rparr>" and ?g = "enqueue_ghost (heap W) f g"
  obtain h' qs' where enq: "cmpxchg_enqueue_weak spurious AcquireT RelaxedT W f a 1 = Inr
      (if futex_atom fx = a \<and> \<not> spurious
       then (True, a, put_futex (W\<lparr>heap := h'\<rparr>) f (fx\<lparr>futex_atom := ?a, queues := qs'\<rparr>))
       else (False, futex_atom fx, W))"
    "\<And>v. wkr h' v = wkr (heap W) v"
    "tasks_ok f 1 (put_futex (W\<lparr>heap := h'\<rparr>) f (fx\<lparr>futex_atom := ?a, queues := qs'\<rparr>)) ?g
      (fx\<lparr>futex_atom := ?a, queues := qs'\<rparr>) (\<lambda>v. fair_role (pc v))"
    using tasks_cmpxchg_enqueue [OF T fo, of spurious AcquireT a 1] by blast
  let ?W = "put_futex (W\<lparr>heap := h'\<rparr>) f (fx\<lparr>futex_atom := ?a, queues := qs'\<rparr>)"
  have r: "r = bindR (cmpxchg_enqueue_weak spurious AcquireT RelaxedT W f a 1) (\<lambda>(ok, atom, W).
              if ok then
                bindR (queue_pop W f 0) (\<lambda>(popped, W).
                  case popped of Some waiter \<Rightarrow> Inr (UDrop waiter, W) | None \<Rightarrow> Inl Panic)
              else Inr (ULoop atom, W))"
    using step new by (simp add: unlock_step_def)
  show ?thesis
  proof (cases "futex_atom fx = a \<and> \<not> spurious")
    case False
    have role: "fair_role (C (ULoop x)) = fair_role (pc t)" for x
      by (simp add: C wrapsD [OF C(1)] unlock_simps)
    have "r = Inr (ULoop (futex_atom fx), W)"
      using False by (auto simp: r enq(1))
    then show ?thesis
      by (simp only:) (rule unlock_quiet [OF ok C role_same [OF T role]]; simp add: unlock_simps)
  next
    case True
    then have "g_inbox g f \<noteq> []"
      using new has_new_waiters_iff [OF tasks_okD(1,2) [OF T]] by simp
    then obtain w ws where ws: "rev (g_inbox g f) = w # ws"
      by (metis neq_Nil_conv rev_is_Nil_conv)
    have q: "g_queues ?g f ! 0 = w # ws"
      using enqueue_one [OF T] empty ws by simp
    have role: "fair_role (C (UDrop w)) = (fair_role (pc t))\<lparr>r_hand := Some w\<rparr>"
      and hand: "r_hand (fair_role (pc t)) = None" "r_read (fair_role (pc t))"
      by (simp_all add: C wrapsD [OF C(1)] unlock_simps)
    obtain h2 fx' where pop: "queue_pop ?W f 0 = Inr (Some w, put_futex (?W\<lparr>heap := h2\<rparr>) f fx')"
      "futex_atom fx' = futex_atom (fx\<lparr>futex_atom := ?a, queues := qs'\<rparr>)"
      "\<And>v. wkr h2 v = wkr (heap ?W) v"
      "tasks_ok f 1 (put_futex (?W\<lparr>heap := h2\<rparr>) f fx') (pop_ghost t f (unat 0) ?g) fx'
        ((\<lambda>v. fair_role (pc v))(t := fair_role (C (UDrop w))))"
      unfolding role by (rule tasks_pop_Cons [OF enq(3), of 0 t w ws]) (use q hand in simp_all)
    let ?W2 = "put_futex (?W\<lparr>heap := h2\<rparr>) f fx'" and ?g2 = "pop_ghost t f 0 ?g"
    have T2: "tasks_ok f 1 ?W2 ?g2 fx' ((\<lambda>v. fair_role (pc v))(t := fair_role (C (UDrop w))))"
      using pop(4) by (simp only: unat_0)
    have "fair_ok f ?W2 (pc(t := C (UDrop w))) ?g2 fx' own"
      by (rule fair_ok_step [OF ok T2])
        (use pop(2,3) enq(2) owner in \<open>auto simp: wrapsD [OF C(1)] unlock_simps\<close>)
    moreover have "line f ?g2 (pc(t := C (UDrop w))) own = line f g pc own"
      using owner(1) q ws empty hand(1) enqueue_lists(2,3) [OF T]
      by (simp add: line_def hand_of_def role pop_ghost_def enqueue_lists(3) [OF enq(3)])
    then have "fair_trans t pc own (line f g pc own) (pc(t := C (UDrop w))) own
        (line f ?g2 (pc(t := C (UDrop w))) own)"
      using C by (auto intro!: fair_trans.stay simp: sleeps_def wrapsD [OF C(1)])
    moreover have "r = Inr (UDrop w, ?W2)"
      unfolding r enq(1) using True pop(1) by simp
    ultimately show ?thesis
      by (simp only: unlock_goodI)
  qed
qed

lemma unlock_ULoop_none:
  assumes ok: "fair_ok f W pc g fx own" and C: "wraps C st" "pc t = C (ULoop a)"
    and none: "\<not> has_new_waiters a"
    and step: "unlock_step spurious t f W (ULoop a) = Some r"
  shows "unlock_good f t C pc g own r"
proof -
  have role: "fair_role (C (UCas a)) = (fair_role (pc t))\<lparr>r_borrow := False\<rparr>"
    and b: "r_borrow (fair_role (pc t))"
    by (simp_all add: C wrapsD [OF C(1)] unlock_simps)
  obtain fx' where l: "queue_unlock W f = Inr (put_futex W f fx')" "futex_atom fx' = futex_atom fx"
    "tasks_ok f 1 (put_futex W f fx') g fx' ((\<lambda>v. fair_role (pc v))(t := fair_role (C (UCas a))))"
    unfolding role by (rule tasks_queue_unlock [OF fair_okD(1) [OF ok] b])
  have "r = Inr (UCas a, put_futex W f fx')"
    using step l(1) none by (simp add: unlock_step_def)
  then show ?thesis
    by (simp only:) (rule unlock_quiet [OF ok C l(3,2)];
      use none in \<open>simp add: unlock_simps has_new_waiters_def\<close>)
qed

text \<open>The compare-exchange to 0 releases the mutex, and only when nobody waits.\<close>

lemma unlock_UCas:
  assumes ok: "fair_ok f W pc g fx own" and C: "wraps C st" "pc t = C (UCas a)"
    and step: "unlock_step spurious t f W (UCas a) = Some r"
  shows "unlock_good f t C pc g own r"
proof -
  have u: "unlock_owns (UCas a)" by (simp add: unlock_owns_def)
  note T = fair_okD(1) [OF ok] and owner = unlock_owner [OF ok C u]
  have a: "fa_inbox a = null"
    using fair_okD(2) [OF ok, of t] C by (simp add: wrapsD [OF C(1)])
  have empty: "g_queues g f ! 0 = []"
    by (rule fair_okD(3) [OF ok, of t "UCas a"]) (simp_all add: C wrapsD [OF C(1)] unlock_simps)
  let ?fx = "fx\<lparr>futex_atom := \<lparr>fa_atom = 0, fa_inbox = fa_inbox a\<rparr>\<rparr>"
  have r: "r = (if futex_atom fx = a \<and> \<not> spurious then Inr (UUnlock, put_futex W f ?fx)
      else Inr (UReborrow (futex_atom fx), W))"
    using step futex_cmpxchg_weak_eq [OF tasks_okD(2) [OF T], of _ RelaxedT] by (auto simp: unlock_step_def)
  have role: "fair_role (C (UReborrow x)) = fair_role (pc t)" "fair_role (C UUnlock) = fair_role (pc t)" for x
    by (simp_all add: C wrapsD [OF C(1)] unlock_simps)
  show ?thesis
  proof (cases "futex_atom fx = a \<and> \<not> spurious")
    case False
    then have "r = Inr (UReborrow (futex_atom fx), W)" by (auto simp: r)
    then show ?thesis
      by (simp only:) (rule unlock_quiet [OF ok C role_same [OF T role(1)]]; simp add: unlock_simps)
  next
    case True
    then have inbox: "g_inbox g f = []"
      using inbox_null [OF tasks_okD(1,2) [OF T]] a by simp
    have free: "g_loc g w = Loose" for w
    proof (rule ccontr)
      assume w: "g_loc g w \<noteq> Loose"
      obtain v q where v: "q < 1" "listed f q (g_loc g w)"
        using tasks_place [OF T w] by blast
      have "g_loc g w \<noteq> Inbox f"
        using world_okD(3) [OF tasks_okD(1,2) [OF T]] inbox by (auto simp: inbox_ok_def)
      moreover have "g_loc g w \<noteq> InQueue f 0"
        using queues_okD(2) [OF world_okD(4) [OF tasks_okD(1,2) [OF T]], of 0] empty
          tasks_okD(3) [OF T] by auto
      moreover have "r_hand (fair_role (pc x)) \<noteq> Some w" for x
      proof
        assume x: "r_hand (fair_role (pc x)) = Some w"
        then have "owns (heap W) (pc x)"
          by (cases "pc x") (auto simp: unlock_simps drop_role_def split: unlock_pc.splits)
        then have "x = t" using fair_okD(4) [OF ok, of x] owner(1) by simp
        with x C show False by (simp add: wrapsD [OF C(1)] unlock_simps)
      qed
      then have "g_loc g w \<noteq> InHand x" for x
        using tasks_okD(5) [OF T] by (simp add: hands_held_def)
      moreover have "g_loc g w \<noteq> InList x" for x
      proof
        assume "g_loc g w = InList x"
        then have "w \<in> set (g_list g x)"
          using world_okD(2) [OF tasks_okD(1) [OF T]] by (simp add: hands_ok_def)
        moreover have "g_list g x = []"
          using tasks_okD(5) [OF T] by (cases "pc x") (simp_all add: hands_held_def unlock_simps drop_role_def)
        ultimately show False by simp
      qed
      ultimately show False using v by (auto simp: listed_def)
    qed
    have T': "tasks_ok f 1 (put_futex W f ?fx) g ?fx ((\<lambda>v. fair_role (pc v))(t := fair_role (C UUnlock)))"
      by (rule role_same [OF tasks_put_atom [OF T] role(2)]) (use True in simp)
    have "fair_ok f (put_futex W f ?fx) (pc(t := C UUnlock)) g ?fx None"
      by (rule fair_ok_step [OF ok T'])
        (use owner free in \<open>auto simp: wrapsD [OF C(1)] unlock_simps\<close>)
    moreover have "line f g pc own = []" "line f g (pc(t := C UUnlock)) None = []"
      using owner(1) empty inbox C by (simp_all add: line_def hand_of_def wrapsD [OF C(1)] unlock_simps)
    then have "fair_trans t pc own (line f g pc own) (pc(t := C UUnlock)) None (line f g (pc(t := C UUnlock)) None)"
      using owner(1) fair_trans.release by simp
    moreover have "r = Inr (UUnlock, put_futex W f ?fx)"
      using True by (simp add: r)
    ultimately show ?thesis
      by (simp only: unlock_goodI)
  qed
qed

lemma fair_unlock_step:
  assumes ok: "fair_ok f W pc g fx own" and C: "wraps C st" "pc t = C u"
    and step: "unlock_step spurious t f W u = Some r"
  shows "unlock_good f t C pc g own r"
proof (cases u)
  case UDone
  then show ?thesis using step by (simp add: unlock_step_def)
qed (use assms unlock_ULock unlock_UBorrow unlock_UDrop unlock_UWake unlock_UCall unlock_ULoad
      unlock_ULoop_new unlock_ULoop_none unlock_UCas unlock_UReborrow unlock_UUnlock in metis)+

section \<open>Locking\<close>

definition fair_good ::
  "ptr \<Rightarrow> tid \<Rightarrow> (tid \<Rightarrow> fair_pc) \<Rightarrow> ghost \<Rightarrow> tid option \<Rightarrow> (fair_pc \<times> world) res \<Rightarrow> bool" where
  "fair_good f t pc g own r \<longleftrightarrow> (\<exists>p W' g' fx' own'. r = Inr (p, W') \<and>
     fair_ok f W' (pc(t := p)) g' fx' own' \<and>
     fair_trans t pc own (line f g pc own) (pc(t := p)) own' (line f g' (pc(t := p)) own'))"

lemma fair_goodI:
  "fair_ok f W' (pc(t := p)) g' fx' own' \<Longrightarrow>
     fair_trans t pc own (line f g pc own) (pc(t := p)) own' (line f g' (pc(t := p)) own') \<Longrightarrow>
   fair_good f t pc g own (Inr (p, W'))"
  unfolding fair_good_def by blast

lemma line_same: "hand_of p = hand_of (pc t) \<Longrightarrow> line f g (pc(t := p)) own = line f g pc own"
  by (auto simp: line_def split: option.splits)

lemma line_listed:
  assumes ok: "fair_ok f W pc g fx own" and w: "w \<in> set (line f g pc own)"
  shows "g_loc g w \<noteq> Loose"
proof -
  note T = fair_okD(1) [OF ok]
  consider t where "own = Some t" "r_hand (fair_role (pc t)) = Some w"
    | "w \<in> set (g_queues g f ! 0)" | "w \<in> set (g_inbox g f)"
    using w by (auto simp: line_def hand_of_def split: option.splits)
  then show ?thesis
  proof cases
    case 1
    then have "g_loc g w = InHand t" using tasks_okD(5) [OF T] by (simp add: hands_held_def)
    then show ?thesis by simp
  next
    case 2
    then have "g_loc g w = InQueue f 0"
      using queues_okD(2) [OF world_okD(4) [OF tasks_okD(1,2) [OF T]], of 0] tasks_okD(3) [OF T] by auto
    then show ?thesis by simp
  next
    case 3
    then have "g_loc g w = Inbox f"
      using world_okD(3) [OF tasks_okD(1,2) [OF T]] by (auto simp: inbox_ok_def)
    then show ?thesis by simp
  qed
qed

lemma fair_stay:
  assumes ok: "fair_ok f W pc g fx own" and ok': "fair_ok f W' (pc(t := p)) g fx' own"
    and hand: "hand_of p = hand_of (pc t)"
    and sleep: "\<And>w. g_loc g w \<noteq> Loose \<Longrightarrow>
      (sleeper (r_stage (fair_role (pc t))) = Some w) = (sleeper (r_stage (fair_role p)) = Some w)"
  shows "fair_good f t pc g own (Inr (p, W'))"
proof (rule fair_goodI [OF ok'])
  have "fair_trans t pc own (line f g pc own) (pc(t := p)) own (line f g pc own)"
    by (rule fair_trans.stay) (use line_listed [OF ok] sleep in \<open>auto simp: sleeps_def\<close>)
  then show "fair_trans t pc own (line f g pc own) (pc(t := p)) own (line f g (pc(t := p)) own)"
    using line_same [of p pc t f g own] hand by simp
qed

lemma fair_quiet:
  assumes ok: "fair_ok f W pc g fx own"
    and T: "tasks_ok f 1 W' g fx' ((\<lambda>u. fair_role (pc u))(t := fair_role p))"
    and fx': "fa_atom (futex_atom fx') = fa_atom (futex_atom fx)"
    and wkr: "\<And>w. stage_waiter (r_stage (fair_role (pc t))) \<noteq> Some w \<Longrightarrow>
      wkr (heap W') w = wkr (heap W) w"
    and p: "pc_ok f (heap W') p" "owns (heap W') p = owns (heap W) (pc t)"
    and unlock: "\<And>u. in_unlock p = Some u \<Longrightarrow> \<not> unlock_empty u"
    and hand: "hand_of p = hand_of (pc t)"
    and sleep: "\<And>w. g_loc g w \<noteq> Loose \<Longrightarrow>
      (sleeper (r_stage (fair_role (pc t))) = Some w) = (sleeper (r_stage (fair_role p)) = Some w)"
  shows "fair_good f t pc g own (Inr (p, W'))"
  by (rule fair_stay [OF ok fair_ok_quiet [OF ok T fx' wkr p] hand sleep]) (use unlock in auto)

lemma fair_lock_start:
  assumes ok: "fair_ok f W pc g fx own" and t: "pc t = Idle" and start: "lock_start f cx addr W = Some r"
  shows "fair_good f t pc g own r"
proof -
  note T = fair_okD(1) [OF ok]
  obtain W' where new: "new_waiter W f 0 0 addr = Some W'"
    using start by (auto simp: lock_start_def split: option.splits)
  have T': "tasks_ok f 1 W' g fx ((\<lambda>v. fair_role (pc v))(t := fair_role (LTop addr a cx)))" for a
    using tasks_create(1) [OF T _ new, of t] by (simp add: t idle_role_def)
  have h: "heap W' = (heap W)(addr \<mapsto> waiter_new f 0 0)" "heap W addr = None"
    using tasks_create(2,3) [OF T _ new, of t] by (simp_all add: t idle_role_def)
  have load: "futex_load RelaxedT W' f = Inr (futex_atom fx)"
    using futex_load_eq [OF tasks_okD(2) [OF T']] by simp
  have r: "r = Inr (LTop addr (futex_atom fx) cx, W')"
    using start new load by (simp add: lock_start_def)
  have ok': "fair_ok f W' (pc(t := LTop addr (futex_atom fx) cx)) g fx own"
  proof (rule fair_ok_step [OF ok T'])
    fix u w assume u: "u \<noteq> t" "stage_waiter (r_stage (fair_role (pc u))) = Some w"
    then have "w \<noteq> addr"
      using stage_alive [OF tasks_stage [OF T refl], of u w] h(2) by (auto simp: alive_def)
    then show "wkr (heap W') w = wkr (heap W) w" by (simp add: h wkr_def)
  qed (use fair_okD(4-6) [OF ok] fair_okD(4) [OF ok, of t] t in auto)
  show ?thesis
    unfolding r by (rule fair_stay [OF ok ok']) (simp_all add: t hand_of_def idle_role_def)
qed

text \<open>The compare-exchange from 0 takes the mutex, and the waiter of \<open>lock\<close> is dropped.\<close>

lemma freed_wkr: "v \<noteq> w \<Longrightarrow> wkr (h(w := x)) v = wkr h v"
  by (simp add: wkr_def)

lemma fair_lock_acquire:
  assumes ok: "fair_ok f W pc g fx own" and t: "pc t = LTop w a cx"
    and free: "futex_atom fx = a" "fa_atom a = 0"
  defines "W1 \<equiv> put_futex W f (fx\<lparr>futex_atom := \<lparr>fa_atom = 1, fa_inbox = fa_inbox a\<rparr>\<rparr>)"
  shows "fair_good f t pc g own (mapR (Pair Held) (waiter_drop W1 w))"
proof -
  note T = fair_okD(1) [OF ok]
  let ?fx = "fx\<lparr>futex_atom := \<lparr>fa_atom = 1, fa_inbox = fa_inbox a\<rparr>\<rparr>"
  have own: "own = None"
    using fair_okD(5) [OF ok] free by (auto split: if_splits)
  have st: "r_stage (fair_role (pc t)) = Fresh w 0" by (simp add: t)
  have T1: "tasks_ok f 1 W1 g ?fx (\<lambda>v. fair_role (pc v))"
    unfolding W1_def by (rule tasks_put_atom [OF T]) (use free in simp)
  have d: "waiter_drop W1 w = Inr (freed W1 w)"
    "tasks_ok f 1 (freed W1 w) g ?fx ((\<lambda>v. fair_role (pc v))(t := fair_role Held))"
    using tasks_destroy [OF T1, of t w 0] by (simp_all add: t idle_role_def)
  have ok': "fair_ok f (freed W1 w) (pc(t := Held)) g ?fx (Some t)"
  proof (rule fair_ok_step [OF ok d(2)])
    fix u v assume "u \<noteq> t" "stage_waiter (r_stage (fair_role (pc u))) = Some v"
    then have "v \<noteq> w" using tasks_sole [OF T, of t w u] by (auto simp: t)
    then show "wkr (heap (freed W1 w)) v = wkr (heap W) v" by (simp add: freed_wkr W1_def)
  qed (use own in auto)
  have none: "line f g pc own = []" "line f g (pc(t := Held)) (Some t) = []"
  proof -
    have "line f g pc own = []"
      using line_listed [OF ok] fair_okD(6) [OF ok own] by (cases "line f g pc own") auto
    then show "line f g pc own = []" "line f g (pc(t := Held)) (Some t) = []"
      by (simp_all add: line_def own hand_of_def idle_role_def)
  qed
  show ?thesis
    unfolding d(1) mapR_simps
    by (rule fair_goodI [OF ok']) (use none own fair_trans.acquire in simp)
qed

lemma fair_lock_iter:
  assumes ok: "fair_ok f W pc g fx own" and t: "pc t = LTop w a cx"
  shows "fair_good f t pc g own (lock_iter spurious f W w a cx)"
proof (cases "fa_atom a = 0")
  case True
  note T = fair_okD(1) [OF ok]
  have r: "lock_iter spurious f W w a cx =
      (if futex_atom fx = a \<and> \<not> spurious
       then mapR (Pair Held) (waiter_drop (put_futex W f
              (fx\<lparr>futex_atom := \<lparr>fa_atom = 1, fa_inbox = fa_inbox a\<rparr>\<rparr>)) w)
       else Inr (LTop w (futex_atom fx) cx, W))"
    using True futex_cmpxchg_weak_eq [OF tasks_okD(2) [OF T], of _ RelaxedT]
    by (auto simp: lock_iter_def inner_def)
  show ?thesis
  proof (cases "futex_atom fx = a \<and> \<not> spurious")
    case True
    with fair_lock_acquire [OF ok t] \<open>fa_atom a = 0\<close> show ?thesis unfolding r by simp
  next
    case False
    have "fair_good f t pc g own (Inr (LTop w (futex_atom fx) cx, W))"
      by (rule fair_quiet [OF ok role_same [OF T]]) (simp_all add: t hand_of_def)
    moreover have "lock_iter spurious f W w a cx = Inr (LTop w (futex_atom fx) cx, W)"
      using False by (auto simp: r)
    ultimately show ?thesis by simp
  qed
next
  case False
  note T = fair_okD(1) [OF ok]
  have st: "r_stage (fair_role (pc t)) = Fresh w 0" by (simp add: t)
  have wf: "cmpxchg_wait_weak W f w a 1 = Inr \<lparr>wf_original_futex = f, wf_current = a, wf_new = 1,
      wf_step = Enter, wf_waiter = w\<rparr>" (is "_ = Inr ?wait")
    using tasks_stage [OF T st] by (simp add: cmpxchg_wait_weak_def link_simps)
  let ?fx = "fx\<lparr>futex_atom := \<lparr>fa_atom = 1, fa_inbox = w\<rparr>\<rparr>"
  obtain W1 k where p: "poll_enter spurious cx W ?wait = Inr
      (if futex_atom fx = a \<and> \<not> spurious
       then (True, ?wait\<lparr>wf_step := Waiting\<rparr>, put_futex W1 f ?fx)
       else (False, ?wait\<lparr>wf_current := futex_atom fx\<rparr>, W1))"
    "tasks_ok f 1 W1 g fx (\<lambda>v. fair_role (pc v))" "wkr (heap W1) w = WakerWaiting k"
    "\<forall>v. v \<noteq> w \<longrightarrow> heap W1 v = heap W v"
    "a = futex_atom fx \<longrightarrow> tasks_ok f 1 (put_futex W1 f ?fx) (push_ghost f w g) ?fx
         ((\<lambda>v. fair_role (pc v))(t := (fair_role (pc t))\<lparr>r_stage := Parked w 0\<rparr>))"
    by (rule tasks_poll_enter [OF T st, of ?wait a 1 spurious cx]) simp_all
  have wkr: "v \<noteq> w \<Longrightarrow> wkr (heap W1) v = wkr (heap W) v" for v
    using p(4) by (simp add: wkr_def)
  have r: "lock_iter spurious f W w a cx =
      (if futex_atom fx = a \<and> \<not> spurious
       then Inr (LPending (?wait\<lparr>wf_step := Waiting\<rparr>), put_futex W1 f ?fx)
       else Inr (LTop w (futex_atom fx) cx, W1))"
    using False p(1) by (simp add: lock_iter_def inner_def wf future_poll_def lock_polled_def)
  show ?thesis
  proof (cases "futex_atom fx = a \<and> \<not> spurious")
    case True
    let ?p = "LPending (?wait\<lparr>wf_step := Waiting\<rparr>)" and ?g = "push_ghost f w g"
    have own: "own \<noteq> None" "own \<noteq> Some t"
      using fair_okD(4) [OF ok, of t] fair_okD(5) [OF ok] True False t by (auto split: if_splits)
    have role: "fair_role ?p = (fair_role (pc t))\<lparr>r_stage := Parked w 0\<rparr>"
      by (simp add: t idle_role_def)
    have T1: "tasks_ok f 1 (put_futex W1 f ?fx) ?g ?fx ((\<lambda>v. fair_role (pc v))(t := fair_role ?p))"
      unfolding role using p(5) True by blast
    have ok': "fair_ok f (put_futex W1 f ?fx) (pc(t := ?p)) ?g ?fx own"
    proof (rule fair_ok_step [OF ok T1])
      fix u v assume "u \<noteq> t" "stage_waiter (r_stage (fair_role (pc u))) = Some v"
      then have "v \<noteq> w" using tasks_sole [OF T, of t w u] by (auto simp: t)
      then show "wkr (heap (put_futex W1 f ?fx)) v = wkr (heap W) v" by (simp add: wkr)
    qed (use own p(3) in \<open>auto simp: wait_ok_def push_ghost_def\<close>)
    have "line f ?g (pc(t := ?p)) own = line f g pc own @ [w]"
      using own by (cases own) (simp_all add: line_def push_ghost_def)
    moreover have "sleeps (pc(t := ?p)) t w" "\<And>v. \<not> sleeps pc t v"
      by (simp_all add: sleeps_def t)
    ultimately have "fair_good f t pc g own (Inr (?p, put_futex W1 f ?fx))"
      using fair_trans.enqueue [OF own(1), of pc t "pc(t := ?p)" w "line f g pc own"]
      by (intro fair_goodI [OF ok']) simp
    then show ?thesis unfolding r using True by simp
  next
    case False
    have "fair_good f t pc g own (Inr (LTop w (futex_atom fx) cx, W1))"
      by (rule fair_quiet [OF ok role_same [OF p(2)]]) (use wkr in \<open>auto simp: t hand_of_def\<close>)
    moreover have "lock_iter spurious f W w a cx = Inr (LTop w (futex_atom fx) cx, W1)"
      using False by (auto simp: r)
    ultimately show ?thesis by simp
  qed
qed

text \<open>Later polls, and what \<open>lock\<close> does when its wait was woken.\<close>

lemma fair_poll_pending:
  assumes ok: "fair_ok f W pc g fx own" and t: "pc t = LPending wait"
  shows "fair_good f t pc g own
    (bindR (future_poll spurious cx W wait) (lock_polled (wf_waiter wait) cx))"
proof -
  note T = fair_okD(1) [OF ok]
  let ?w = "wf_waiter wait" and ?W = "clone_waker W cx"
  let ?p = "LPolling wait cx (wkr (heap W) ?w)"
  have wait: "wait_ok f wait" using fair_okD(2) [OF ok, of t] t by simp
  have st: "r_stage (fair_role (pc t)) = Parked ?w 0" by (simp add: t)
  have T': "tasks_ok f 1 ?W g fx ((\<lambda>v. fair_role (pc v))(t := fair_role ?p))"
    by (rule role_same [OF tasks_ok_cong [OF T]]) (simp_all add: t)
  have "fair_good f t pc g own (Inr (?p, ?W))"
    by (rule fair_quiet [OF ok T'])
      (use wait tasks_poll_waiting(2) [OF T st] in \<open>simp_all add: t hand_of_def\<close>)
  moreover have "bindR (future_poll spurious cx W wait) (lock_polled ?w cx) = Inr (?p, ?W)"
    using wait tasks_poll_waiting(1) [OF T st]
    by (simp add: future_poll_def wait_ok_def lock_polled_def)
  ultimately show ?thesis by simp
qed

lemma fair_woken:
  assumes ok: "fair_ok f W pc g fx own" and t: "pc t = LPolling wait cx k"
    and woken: "wkr (heap W) (wf_waiter wait) = WakerDone"
    and W1: "heap W1 = heap W" "futexes W1 = futexes W"
  shows "fair_good f t pc g own (mapR (Pair Held) (waiter_drop W1 (wf_waiter wait)))"
proof -
  let ?w = "wf_waiter wait"
  have T1: "tasks_ok f 1 W1 g fx (\<lambda>v. fair_role (pc v))"
    by (rule tasks_ok_cong [OF fair_okD(1) [OF ok] W1])
  have d: "waiter_drop W1 ?w = Inr (freed W1 ?w)"
    "tasks_ok f 1 (freed W1 ?w) g fx ((\<lambda>v. fair_role (pc v))(t := fair_role Held))"
    using tasks_destroy [OF T1, of t ?w 0] woken by (simp_all add: t W1 idle_role_def)
  have "parked_ok (heap W) g f ?w 0"
    using tasks_stage [OF fair_okD(1) [OF ok], of t "Parked ?w 0"] t by simp
  then have loose: "g_loc g ?w = Loose"
    using parked_woken(1) [OF fair_okD(1) [OF ok]] woken by blast
  show ?thesis
    unfolding d(1) mapR_simps
    by (rule fair_quiet [OF ok d(2)])
      (use woken loose in \<open>auto simp: t freed_wkr W1 hand_of_def idle_role_def\<close>)
qed

lemma fair_poll_loop:
  assumes ok: "fair_ok f W pc g fx own" and t: "pc t = LPolling wait cx k"
  shows "fair_good f t pc g own
    (bindR (future_loop spurious cx W wait k) (lock_polled (wf_waiter wait) cx))"
proof -
  note T = fair_okD(1) [OF ok]
  let ?w = "wf_waiter wait"
  have wait: "wait_ok f wait" "k \<noteq> WakerNone" "k = WakerDone \<Longrightarrow> wkr (heap W) ?w = WakerDone"
    using fair_okD(2) [OF ok, of t] t by simp_all
  have st: "r_stage (fair_role (pc t)) = Parked ?w 0" by (simp add: t)
  show ?thesis
  proof (cases k)
    case WakerNone
    with wait show ?thesis by simp
  next
    case WakerDone
    then have "bindR (future_loop spurious cx W wait k) (lock_polled ?w cx) =
        mapR (Pair Held) (waiter_drop (drop_waker W cx) ?w)"
      by (simp add: future_loop_def poll_waiting_iter_def lock_polled_def)
    with fair_woken [OF ok t wait(3) [OF WakerDone], of "drop_waker W cx"] show ?thesis by simp
  next
    case (WakerWaiting old)
    let ?W = "W\<lparr>heap := put_waker (heap W) ?w (WakerWaiting cx)\<rparr>"
    note iter = tasks_poll_iter [OF T st, of ?W cx, OF refl]
    show ?thesis
    proof (cases "wkr (heap W) ?w = WakerWaiting old \<and> \<not> spurious")
      case True
      have T': "tasks_ok f 1 (drop_waker ?W old) g fx ((\<lambda>v. fair_role (pc v))(t := fair_role (LPending wait)))"
        by (rule role_same [OF iter(2)]) (use True t in simp_all)
      have "fair_good f t pc g own (Inr (LPending wait, drop_waker ?W old))"
        by (rule fair_quiet [OF ok T'])
          (use wait True in \<open>auto simp: t hand_of_def put_waker_reads\<close>)
      moreover have "bindR (future_loop spurious cx W wait k) (lock_polled ?w cx) =
          Inr (LPending wait, drop_waker ?W old)"
        using True WakerWaiting by (simp add: future_loop_def iter(1) lock_polled_def)
      ultimately show ?thesis by simp
    next
      case False
      let ?p = "LPolling wait cx (wkr (heap W) ?w)"
      have "fair_good f t pc g own (Inr (?p, W))"
        by (rule fair_quiet [OF ok role_same [OF T]])
          (use wait tasks_poll_waiting(2) [OF T st] in \<open>simp_all add: t hand_of_def\<close>)
      moreover have "bindR (future_loop spurious cx W wait k) (lock_polled ?w cx) = Inr (?p, W)"
        using False WakerWaiting by (auto simp: future_loop_def iter(1) lock_polled_def)
      ultimately show ?thesis by simp
    qed
  qed
qed

section \<open>Cancellation\<close>

lemma fair_lock_drop:
  assumes ok: "fair_ok f W pc g fx own" and t: "pc t = LPending wait"
  shows "fair_good f t pc g own (lock_drop W wait)"
proof -
  note T = fair_okD(1) [OF ok]
  let ?w = "wf_waiter wait" and ?p = "LDrop (wf_waiter wait) (DropWrite f)"
  have wait: "wait_ok f wait" using fair_okD(2) [OF ok, of t] t by simp
  have st: "alive (heap W) ?w" "fut (heap W) ?w = f"
    using tasks_stage [OF T, of t "Parked ?w 0"] t by (simp_all add: parked_ok_def)
  have "fair_good f t pc g own (Inr (?p, W))"
    by (rule fair_quiet [OF ok role_same [OF T]])
      (simp_all add: t hand_of_def drop_role_def drop_stage_def idle_role_def drop_ok_def)
  moreover have "lock_drop W wait = Inr (?p, W)"
    using wait st by (simp add: lock_drop_def future_drop_def wait_ok_def drop_start_def link_simps)
  ultimately show ?thesis by simp
qed

lemmas fair_drop_simps = drop_simps hand_of_def

text \<open>The steps of the drop of a waiting future, up to the removal of the waiter.\<close>

lemma fair_drop_guard:
  assumes ok: "fair_ok f W pc g fx own" and t: "pc t = LDrop w d" and d: "d = DropWrite f \<or> d = DropUnlock f"
    and step: "drop_step spurious t W w d = Some r"
  shows "fair_good f t pc g own (mapR (\<lambda>(d, W). (LDrop w d, W)) r)"
proof -
  note T = fair_okD(1) [OF ok]
  show ?thesis
  proof (cases "d = DropWrite f")
    case True
    then obtain r0 where r0: "write_lock t W f = Some r0" "r = mapR (Pair (DropCheck f)) r0"
      using step by (auto simp: drop_step_def)
    have role: "fair_role (LDrop w (DropCheck f)) = (fair_role (pc t))\<lparr>r_write := True\<rparr>"
      by (simp add: t True fair_drop_simps)
    obtain fx' where l: "r0 = Inr (put_futex W f fx')" "futex_atom fx' = futex_atom fx"
      "tasks_ok f 1 (put_futex W f fx') g fx' ((\<lambda>v. fair_role (pc v))(t := fair_role (LDrop w (DropCheck f))))"
      unfolding role by (rule tasks_write_lock [OF T r0(1)])
    have "fair_good f t pc g own (Inr (LDrop w (DropCheck f), put_futex W f fx'))"
      by (rule fair_quiet [OF ok l(3)]) (use l(2) in \<open>simp_all add: t True fair_drop_simps\<close>)
    then show ?thesis by (simp add: r0(2) l(1))
  next
    case False
    with d have d: "d = DropUnlock f" by simp
    have role: "fair_role (LDrop w DropFinish) = (fair_role (pc t))\<lparr>r_write := False\<rparr>"
      and wr: "r_write (fair_role (pc t))"
      by (simp_all add: t d fair_drop_simps)
    obtain fx' where l: "write_unlock t W f = Inr (put_futex W f fx')" "futex_atom fx' = futex_atom fx"
      "tasks_ok f 1 (put_futex W f fx') g fx' ((\<lambda>v. fair_role (pc v))(t := fair_role (LDrop w DropFinish)))"
      unfolding role by (rule tasks_write_unlock [OF T wr])
    have "fair_good f t pc g own (Inr (LDrop w DropFinish, put_futex W f fx'))"
      by (rule fair_quiet [OF ok l(3)]) (use l(2) in \<open>simp_all add: t d fair_drop_simps\<close>)
    moreover have "r = Inr (DropFinish, put_futex W f fx')"
      using step l(1) by (auto simp: d drop_step_def)
    ultimately show ?thesis by simp
  qed
qed

lemma fair_drop_load:
  assumes ok: "fair_ok f W pc g fx own" and t: "pc t = LDrop w d" and d: "d = DropCheck f \<or> d = DropLoad f"
    and step: "drop_step spurious t W w d = Some r"
  shows "fair_good f t pc g own (mapR (\<lambda>(d, W). (LDrop w d, W)) r)"
proof -
  note T = fair_okD(1) [OF ok]
  have st: "alive (heap W) w" "fut (heap W) w = f" "parked_ok (heap W) g f w 0"
    using tasks_stage [OF T, of t "Parked w 0"] t d by (auto simp: parked_ok_def fair_drop_simps)
  show ?thesis
  proof (cases "d = DropCheck f")
    case True
    have role: "fair_role (LDrop w (DropLoad f)) = fair_role (pc t)"
      by (simp add: t True fair_drop_simps)
    have "fair_good f t pc g own (Inr (LDrop w (DropLoad f), W))"
      by (rule fair_quiet [OF ok role_same [OF T role]]) (simp_all add: t True fair_drop_simps)
    moreover have "r = Inr (DropLoad f, W)"
      using step st by (auto simp: True drop_step_def link_simps)
    ultimately show ?thesis by simp
  next
    case False
    with d have d: "d = DropLoad f" by simp
    let ?p = "LDrop w (DropFlip f (futex_atom fx))"
    have T': "tasks_ok f 1 W g fx ((\<lambda>v. fair_role (pc v))(t := fair_role ?p))"
    proof (cases "fa_inbox (futex_atom fx) = null")
      case True
      then have "g_loc g w \<noteq> Inbox f"
        using inbox_null [OF tasks_okD(1,2) [OF T]] world_okD(3) [OF tasks_okD(1,2) [OF T]]
        by (auto simp: inbox_ok_def)
      from tasks_unbox [OF T _ this, of t 0] True show ?thesis by (simp add: t d fair_drop_simps)
    next
      case False
      then show ?thesis by (intro role_same [OF T]) (simp add: t d fair_drop_simps)
    qed
    have "fair_good f t pc g own (Inr (?p, W))"
      by (rule fair_quiet [OF ok T']) (simp_all add: t d fair_drop_simps)
    moreover have "r = Inr (DropFlip f (futex_atom fx), W)"
      using step futex_load_eq [OF tasks_okD(2) [OF T], of AcquireT] by (auto simp: d drop_step_def)
    ultimately show ?thesis by simp
  qed
qed

lemma fair_drop_flip:
  assumes ok: "fair_ok f W pc g fx own" and t: "pc t = LDrop w (DropFlip f a)"
    and step: "drop_step spurious t W w (DropFlip f a) = Some r"
  shows "fair_good f t pc g own (mapR (\<lambda>(d, W). (LDrop w d, W)) r)"
proof (cases "fa_inbox a = null")
  case True
  have "fair_good f t pc g own (Inr (LDrop w (DropCancel f), W))"
    by (rule fair_quiet [OF ok role_same [OF fair_okD(1) [OF ok]]]) (simp_all add: t True fair_drop_simps)
  moreover have "r = Inr (DropCancel f, W)"
    using step True by (auto simp: drop_step_def flip_iter_empty)
  ultimately show ?thesis by simp
next
  case False
  note T = fair_okD(1) [OF ok]
  obtain h' qs' where flip: "flip_iter spurious W f a = Inr
      (if futex_atom fx = a \<and> \<not> spurious
       then (None, put_futex (W\<lparr>heap := h'\<rparr>) f
               (fx\<lparr>futex_atom := (futex_atom fx)\<lparr>fa_inbox := null\<rparr>, queues := qs'\<rparr>))
       else (Some (futex_atom fx), W))"
    "\<And>v. wkr h' v = wkr (heap W) v"
    "futex_atom fx = a \<Longrightarrow> tasks_ok f 1 (put_futex (W\<lparr>heap := h'\<rparr>) f
        (fx\<lparr>futex_atom := (futex_atom fx)\<lparr>fa_inbox := null\<rparr>, queues := qs'\<rparr>))
      (enqueue_ghost (heap W) f g)
      (fx\<lparr>futex_atom := (futex_atom fx)\<lparr>fa_inbox := null\<rparr>, queues := qs'\<rparr>) (\<lambda>v. fair_role (pc v))"
    using tasks_flip [OF T False, of spurious] by blast
  let ?fx = "fx\<lparr>futex_atom := (futex_atom fx)\<lparr>fa_inbox := null\<rparr>, queues := qs'\<rparr>"
  let ?W = "put_futex (W\<lparr>heap := h'\<rparr>) f ?fx" and ?g = "enqueue_ghost (heap W) f g"
  have r: "r = mapR (\<lambda>(r, W). (case r of Some atom \<Rightarrow> DropFlip f atom | None \<Rightarrow> DropCancel f, W))
      (flip_iter spurious W f a)"
    using step by (auto simp: drop_step_def mapR_def case_prod_unfold)
  show ?thesis
  proof (cases "futex_atom fx = a \<and> \<not> spurious")
    case True
    let ?p = "LDrop w (DropCancel f)"
    have st: "r_stage (fair_role (pc t)) = Parked w 0" and wr: "r_write (fair_role (pc t))"
      using False by (simp_all add: t fair_drop_simps)
    have role: "fair_role ?p = (fair_role (pc t))\<lparr>r_stage := Unboxed w 0\<rparr>"
      using False by (simp add: t fair_drop_simps)
    have T': "tasks_ok f 1 ?W ?g ?fx ((\<lambda>v. fair_role (pc v))(t := fair_role ?p))"
      unfolding role by (rule tasks_unbox [OF flip(3)]) (use True st enqueue_not_inbox in auto)
    have ok': "fair_ok f ?W (pc(t := ?p)) ?g ?fx own"
    proof (rule fair_ok_step [OF ok T'])
      fix u v assume "u \<noteq> t" "in_unlock (pc u) = Some v" "unlock_empty v"
      then show "g_queues ?g f ! 0 = []"
        using empty_reads [of "pc u" v] tasks_writer(1) [OF T wr, of u] by simp
    qed (use flip(2) fair_okD(4-6) [OF ok] fair_okD(4) [OF ok, of t] t in
        \<open>auto simp: fair_drop_simps enqueue_ghost_def\<close>)
    have "line f ?g (pc(t := ?p)) own = line f g pc own"
      using enqueue_one [OF T] enqueue_lists(2) [OF T]
      by (auto simp: line_def hand_of_def t fair_drop_simps split: option.splits)
    then have "fair_trans t pc own (line f g pc own) (pc(t := ?p)) own (line f ?g (pc(t := ?p)) own)"
      using False by (auto intro!: fair_trans.stay simp: sleeps_def t fair_drop_simps)
    then have "fair_good f t pc g own (Inr (?p, ?W))"
      by (rule fair_goodI [OF ok'])
    then show ?thesis unfolding r flip(1) using True by simp
  next
    case nok: False
    let ?p = "LDrop w (DropFlip f (futex_atom fx))"
    have T': "tasks_ok f 1 W g fx ((\<lambda>v. fair_role (pc v))(t := fair_role ?p))"
    proof (cases "fa_inbox (futex_atom fx) = null")
      case True
      then have "g_loc g w \<noteq> Inbox f"
        using inbox_null [OF tasks_okD(1,2) [OF T]] world_okD(3) [OF tasks_okD(1,2) [OF T]]
        by (auto simp: inbox_ok_def)
      from tasks_unbox [OF T _ this, of t 0] True False show ?thesis by (simp add: t fair_drop_simps)
    next
      case nn: False
      show ?thesis by (rule role_same [OF T]) (use False nn in \<open>simp add: t fair_drop_simps\<close>)
    qed
    have "fair_good f t pc g own (Inr (?p, W))"
      by (rule fair_quiet [OF ok T']) (use False in \<open>simp_all add: t fair_drop_simps\<close>)
    then show ?thesis unfolding r flip(1) using nok by auto
  qed
qed

lemma fair_drop_cancel:
  assumes ok: "fair_ok f W pc g fx own" and t: "pc t = LDrop w (DropCancel f)"
    and step: "drop_step spurious t W w (DropCancel f) = Some r"
  shows "fair_good f t pc g own (mapR (\<lambda>(d, W). (LDrop w d, W)) r)"
proof -
  note T = fair_okD(1) [OF ok]
  let ?p = "LDrop w (DropUnlock f)"
  define g' where "g' = (if g_loc g w = Loose then g else cancel_ghost f 0 w g)"
  have st: "r_stage (fair_role (pc t)) = Unboxed w 0" and wr: "r_write (fair_role (pc t))"
    and role: "fair_role ?p = (fair_role (pc t))\<lparr>r_stage := Off w\<rparr>"
    by (simp_all add: t fair_drop_simps)
  obtain h' fx' where c: "futex_cancel W f w = Inr (put_futex (W\<lparr>heap := h'\<rparr>) f fx')"
    "futex_atom fx' = futex_atom fx" "\<And>v. wkr h' v = wkr (heap W) v"
    "tasks_ok f 1 (put_futex (W\<lparr>heap := h'\<rparr>) f fx') g' fx' ((\<lambda>v. fair_role (pc v))(t := fair_role ?p))"
    unfolding role using tasks_cancel [OF T wr st g'_def] by blast
  let ?W = "put_futex (W\<lparr>heap := h'\<rparr>) f fx'"
  have q: "g_queues g' f ! 0 = (if g_loc g w = Loose then g_queues g f ! 0 else remove1 w (g_queues g f ! 0))"
    "g_inbox g' = g_inbox g"
    using enqueue_lists(3) [OF T] by (auto simp: g'_def cancel_ghost_def)
  have ok': "fair_ok f ?W (pc(t := ?p)) g' fx' own"
    by (rule fair_ok_step [OF ok c(4)])
      (use c(2,3) q fair_okD(4-6) [OF ok] fair_okD(4) [OF ok, of t] t in
        \<open>auto simp: fair_drop_simps g'_def cancel_ghost_def\<close>)
  have "fair_trans t pc own (line f g pc own) (pc(t := ?p)) own (line f g' (pc(t := ?p)) own)"
  proof (cases "g_loc g w = Loose")
    case True
    then have g: "g' = g" by (simp add: g'_def)
    have "line f g (pc(t := ?p)) own = line f g pc own"
      by (rule line_same) (simp add: t fair_drop_simps)
    moreover have "w \<notin> set (line f g pc own)" using line_listed [OF ok] True by blast
    ultimately show ?thesis
      unfolding g by (auto intro!: fair_trans.stay simp: sleeps_def t fair_drop_simps)
  next
    case False
    have nh: "w \<notin> set (case own of Some u \<Rightarrow> hand_of (pc u) | None \<Rightarrow> [])"
    proof
      assume "w \<in> set (case own of Some u \<Rightarrow> hand_of (pc u) | None \<Rightarrow> [])"
      then obtain u where "r_hand (fair_role (pc u)) = Some w"
        by (auto simp: hand_of_def split: option.splits)
      then have "g_loc g w = InHand u" using tasks_okD(5) [OF T] by (simp add: hands_held_def)
      with tasks_writer(2) [OF T wr False] show False by simp
    qed
    have "w \<in> set (g_queues g f ! 0)"
    proof -
      have "g_loc g w = InQueue f 0"
        using tasks_stage [OF T st] False tasks_writer(2) [OF T wr False]
        by (auto simp: parked_ok_def listed_def)
      then show ?thesis
        using queues_okD(2) [OF world_okD(4) [OF tasks_okD(1,2) [OF T]], of 0] tasks_okD(3) [OF T] by auto
    qed
    then have "line f g' (pc(t := ?p)) own = remove1 w (line f g pc own)"
      using nh q False by (auto simp: line_def remove1_append t fair_drop_simps split: option.splits)
    moreover have "sleeps pc t w" by (simp add: sleeps_def t fair_drop_simps)
    ultimately show ?thesis using fair_trans.leave by simp
  qed
  then have "fair_good f t pc g own (Inr (?p, ?W))"
    by (rule fair_goodI [OF ok'])
  moreover have "r = Inr (DropUnlock f, ?W)"
    using step c(1) by (auto simp: drop_step_def)
  ultimately show ?thesis by simp
qed

text \<open>The end of the cancellation.\<close>

lemma fair_cancelled:
  assumes ok: "fair_ok f W pc g fx own" and W1: "heap W1 = heap W" "futexes W1 = futexes W"
    and t: "fair_role (pc t) = idle_role\<lparr>r_stage := Off w\<rparr>" "own \<noteq> Some t"
  shows "fair_good f t pc g own (lock_cancelled W1 w)"
proof -
  have T1: "tasks_ok f 1 W1 g fx (\<lambda>v. fair_role (pc v))"
    by (rule tasks_ok_cong [OF fair_okD(1) [OF ok] W1])
  have st: "r_stage (fair_role (pc t)) = Off w" by (simp add: t)
  note c = tasks_clear [OF T1 st]
  have T': "tasks_ok f 1 (W1\<lparr>heap := (heap W1)(w := None)\<rparr>) g fx
      ((\<lambda>v. fair_role (pc v))(t := fair_role Idle))"
    using c(2) by (simp add: t idle_role_def)
  have h: "hand_of Idle = hand_of (pc t)" by (simp add: hand_of_def t idle_role_def)
  have ok': "fair_ok f (W1\<lparr>heap := (heap W1)(w := None)\<rparr>) (pc(t := Idle)) g fx own"
    by (rule fair_ok_quiet [OF ok T'])
      (use fair_okD(4) [OF ok, of t] t W1 in \<open>auto simp: freed_wkr\<close>)
  show ?thesis
    unfolding lock_cancelled_def c(1) mapR_simps
    by (rule fair_stay [OF ok ok' h]) (simp add: t idle_role_def)
qed

lemma fair_drop_finish:
  assumes ok: "fair_ok f W pc g fx own" and t: "pc t = LDrop w DropFinish"
  shows "fair_good f t pc g own (bindR (drop_finish W w) (\<lambda>(woken, W).
      if woken then Inr (LCancel w ULock, W) else lock_cancelled W w))"
proof -
  note T = fair_okD(1) [OF ok]
  have st: "alive (heap W) w" "wkr (heap W) w \<noteq> WakerNone"
    using tasks_stage [OF T, of t "Off w"] t by (simp_all add: fair_drop_simps)
  show ?thesis
  proof (cases "wkr (heap W) w")
    case (WakerWaiting k)
    then have "own \<noteq> Some t" using fair_okD(4) [OF ok, of t] t by simp
    with fair_cancelled [OF ok, of "drop_waker W k" t w] t st WakerWaiting show ?thesis
      by (simp add: drop_finish_def link_simps fair_drop_simps)
  next
    case WakerDone
    have "fair_good f t pc g own (Inr (LCancel w ULock, W))"
      by (rule fair_quiet [OF ok role_same [OF T]])
        (simp_all add: t fair_drop_simps unlock_simps WakerDone)
    with st WakerDone show ?thesis by (simp add: drop_finish_def link_simps)
  qed (use st in simp)
qed

lemma fair_drop_step:
  assumes ok: "fair_ok f W pc g fx own" and t: "pc t = LDrop w d"
    and step: "lock_drop_step spurious t W w d = Some r"
  shows "fair_good f t pc g own r"
proof -
  have d: "drop_ok f d" using fair_okD(2) [OF ok, of t] t by simp
  show ?thesis
  proof (cases "d = DropFinish")
    case True
    with fair_drop_finish [OF ok] t step show ?thesis by (auto simp: lock_drop_step_def)
  next
    case False
    then obtain r0 where r0: "drop_step spurious t W w d = Some r0"
      "r = mapR (\<lambda>(d, W). (LDrop w d, W)) r0"
      using step by (cases d) (auto simp: lock_drop_step_def)
    show ?thesis
    proof (cases d)
      case (DropWrite owner)
      then have "d = DropWrite f" using d by (simp add: drop_ok_def)
      with fair_drop_guard [OF ok t _ r0(1)] show ?thesis by (simp add: r0(2))
    next
      case (DropCheck owner)
      then have "d = DropCheck f" using d by (simp add: drop_ok_def)
      with fair_drop_load [OF ok t _ r0(1)] show ?thesis by (simp add: r0(2))
    next
      case (DropRelease owner owner2)
      then show ?thesis using d by (simp add: drop_ok_def)
    next
      case (DropLoad owner)
      then have "d = DropLoad f" using d by (simp add: drop_ok_def)
      with fair_drop_load [OF ok t _ r0(1)] show ?thesis by (simp add: r0(2))
    next
      case (DropFlip owner a)
      then have "d = DropFlip f a" using d by (simp add: drop_ok_def)
      with fair_drop_flip [OF ok, of t w a spurious r0] t r0(1) show ?thesis by (simp add: r0(2))
    next
      case (DropCancel owner)
      then have "d = DropCancel f" using d by (simp add: drop_ok_def)
      with fair_drop_cancel [OF ok, of t w spurious r0] t r0(1) show ?thesis by (simp add: r0(2))
    next
      case (DropUnlock owner)
      then have "d = DropUnlock f" using d by (simp add: drop_ok_def)
      with fair_drop_guard [OF ok t _ r0(1)] show ?thesis by (simp add: r0(2))
    qed (use False in simp)
  qed
qed

section \<open>The whole machine\<close>

lemma fair_trans_base:
  assumes "fair_trans t (pc(t := p)) own ws pc' own' ws'"
    and same: "sleeper (r_stage (fair_role p)) = sleeper (r_stage (fair_role (pc t)))"
  shows "fair_trans t pc own ws pc' own' ws'"
proof -
  have sl: "sleeps (pc(t := p)) u w = sleeps pc u w" for u w
    using same by (simp add: sleeps_def)
  from assms(1) show ?thesis
  proof cases
    case stay
    then show ?thesis using sl by (auto intro: fair_trans.stay)
  next
    case (enqueue w)
    then show ?thesis using sl by (auto intro: fair_trans.enqueue)
  next
    case (handoff u w)
    then show ?thesis using sl by (auto intro: fair_trans.handoff)
  next
    case (leave w)
    then show ?thesis using sl by (auto intro: fair_trans.leave)
  qed (auto intro: fair_trans.intros)
qed

lemma fair_good_base:
  assumes good: "fair_good f t (pc(t := p)) g own r"
    and same: "sleeper (r_stage (fair_role p)) = sleeper (r_stage (fair_role (pc t)))"
      "hand_of p = hand_of (pc t)"
  shows "fair_good f t pc g own r"
proof -
  obtain p' W' g' fx' own' where r: "r = Inr (p', W')" "fair_ok f W' (pc(t := p')) g' fx' own'"
    "fair_trans t (pc(t := p)) own (line f g (pc(t := p)) own) (pc(t := p')) own' (line f g' (pc(t := p')) own')"
    using good by (auto simp: fair_good_def)
  have "fair_trans t pc own (line f g pc own) (pc(t := p')) own' (line f g' (pc(t := p')) own')"
    using fair_trans_base [OF r(3) same(1)] line_same [of p pc t f g own] same(2) by simp
  with r show ?thesis unfolding fair_good_def by blast
qed

lemma unlock_last:
  assumes ok: "fair_ok f W pc g fx own" and C: "wraps C st" "pc t = C UUnlock"
    and step: "unlock_step spurious t f W UUnlock = Some r"
  obtains W' fx' where "r = Inr (UDone, W')" "fair_ok f W' (pc(t := C UDone)) g fx' own" "own \<noteq> Some t"
proof -
  have role: "fair_role (C UDone) = (fair_role (pc t))\<lparr>r_read := False\<rparr>"
    and h: "r_hand (fair_role (pc t)) = None" "r_list (fair_role (pc t)) = []"
    by (simp_all add: C wrapsD [OF C(1)] unlock_simps)
  obtain fx' where l: "futex_unlock t W f = Inr (put_futex W f fx')" "futex_atom fx' = futex_atom fx"
    "tasks_ok f 1 (put_futex W f fx') g fx' ((\<lambda>v. fair_role (pc v))(t := fair_role (C UDone)))"
    unfolding role by (rule tasks_unlock [OF fair_okD(1) [OF ok] h])
  have "fair_ok f (put_futex W f fx') (pc(t := C UDone)) g fx' own"
    by (rule fair_ok_quiet [OF ok l(3)]) (use l(2) C in \<open>simp_all add: wrapsD [OF C(1)] unlock_simps\<close>)
  moreover have "own \<noteq> Some t"
    using fair_okD(4) [OF ok, of t] C by (simp add: wrapsD [OF C(1)] unlock_simps)
  moreover have "r = Inr (UDone, put_futex W f fx')"
    using step l(1) by (simp add: unlock_step_def)
  ultimately show ?thesis using that by blast
qed

lemma unlock_not_done:
  "unlock_step spurious t f W u = Some (Inr (UDone, W')) \<Longrightarrow> u = UUnlock"
  by (cases u) (auto simp: unlock_step_def mapR_def bindR_eq_Inr
      split: option.splits prod.splits if_splits)

lemma fair_lcancel:
  assumes ok: "fair_ok f W pc g fx own" and t: "pc t = LCancel w u"
    and step: "unlock_step spurious t f W u = Some r"
  shows "fair_good f t pc g own (bindR r (\<lambda>(u, W).
      if u = UDone then lock_cancelled W w else Inr (LCancel w u, W)))"
proof (cases "u = UUnlock")
  case True
  obtain W' fx' where l: "r = Inr (UDone, W')" "fair_ok f W' (pc(t := LCancel w UDone)) g fx' own" "own \<noteq> Some t"
    by (rule unlock_last [OF ok wraps_LCancel _ step [unfolded True]]) (use t True in simp)
  have "fair_good f t (pc(t := LCancel w UDone)) g own (lock_cancelled W' w)"
    by (rule fair_cancelled [OF l(2)]) (use l(3) in \<open>simp_all add: unlock_simps\<close>)
  then show ?thesis
    using fair_good_base [of f t pc "LCancel w UDone" g own "lock_cancelled W' w"] t True
    by (simp add: l(1) hand_of_def unlock_simps)
next
  case False
  have "unlock_good f t (LCancel w) pc g own r"
    by (rule fair_unlock_step [OF ok wraps_LCancel t step])
  then obtain u' W' g' fx' own' where l: "r = Inr (u', W')" "fair_ok f W' (pc(t := LCancel w u')) g' fx' own'"
    "fair_trans t pc own (line f g pc own) (pc(t := LCancel w u')) own' (line f g' (pc(t := LCancel w u')) own')"
    by (auto simp: unlock_good_def)
  have "u' \<noteq> UDone" using unlock_not_done step l(1) False by blast
  with fair_goodI [OF l(2,3)] show ?thesis by (simp add: l(1))
qed

lemma fair_unlocking:
  assumes ok: "fair_ok f W pc g fx own" and t: "pc t = Unlocking u"
    and step: "unlock_step spurious t f W u = Some r"
  shows "fair_good f t pc g own (mapR (\<lambda>(u, W). (if u = UDone then Idle else Unlocking u, W)) r)"
proof (cases "u = UUnlock")
  case True
  obtain W' fx' where l: "r = Inr (UDone, W')" "fair_ok f W' (pc(t := Unlocking UDone)) g fx' own" "own \<noteq> Some t"
    by (rule unlock_last [OF ok wraps_Unlocking _ step [unfolded True]]) (use t True in simp)
  have T': "tasks_ok f 1 W' g fx' ((\<lambda>v. fair_role ((pc(t := Unlocking UDone)) v))(t := fair_role Idle))"
    by (rule role_same [OF fair_okD(1) [OF l(2)]]) (simp add: unlock_simps)
  have "fair_good f t (pc(t := Unlocking UDone)) g own (Inr (Idle, W'))"
    by (rule fair_quiet [OF l(2) T']) (use l(3) in \<open>simp_all add: hand_of_def unlock_simps\<close>)
  then show ?thesis
    using fair_good_base [of f t pc "Unlocking UDone" g own "Inr (Idle, W')"] t True
    by (simp add: l(1) hand_of_def unlock_simps)
next
  case False
  have "unlock_good f t Unlocking pc g own r"
    by (rule fair_unlock_step [OF ok wraps_Unlocking t step])
  then obtain u' W' g' fx' own' where l: "r = Inr (u', W')" "fair_ok f W' (pc(t := Unlocking u')) g' fx' own'"
    "fair_trans t pc own (line f g pc own) (pc(t := Unlocking u')) own' (line f g' (pc(t := Unlocking u')) own')"
    by (auto simp: unlock_good_def)
  have "u' \<noteq> UDone" using unlock_not_done step l(1) False by blast
  with fair_goodI [OF l(2,3)] show ?thesis by (simp add: l(1))
qed

lemma fair_task_good:
  assumes ok: "fair_ok f W pc g fx own" and step: "fair_task f t act W (pc t) = Some r"
  shows "fair_good f t pc g own r"
proof (cases "pc t")
  case Idle
  with step fair_lock_start [OF ok Idle] show ?thesis
    by (cases act) (auto simp: fair_task_def)
next
  case (LTop w a cx)
  with step fair_lock_iter [OF ok LTop] show ?thesis
    by (cases act) (auto simp: fair_task_def)
next
  case (LPending wait)
  with step fair_poll_pending [OF ok LPending] fair_lock_drop [OF ok LPending] show ?thesis
    by (cases act) (auto simp: fair_task_def)
next
  case (LPolling wait cx k)
  with step fair_poll_loop [OF ok LPolling] show ?thesis
    by (cases act) (auto simp: fair_task_def)
next
  case (LDrop w d)
  with step fair_drop_step [OF ok LDrop] show ?thesis
    by (cases act) (auto simp: fair_task_def)
next
  case (LCancel w u)
  with step fair_lcancel [OF ok LCancel] show ?thesis
    by (cases act) (auto simp: fair_task_def)
next
  case Held
  have "fair_good f t pc g own (Inr (Unlocking ULock, W))"
    by (rule fair_quiet [OF ok role_same [OF fair_okD(1) [OF ok]]])
      (simp_all add: Held hand_of_def unlock_simps)
  with step Held show ?thesis
    by (cases act) (auto simp: fair_task_def)
next
  case (Unlocking u)
  with step fair_unlocking [OF ok Unlocking] show ?thesis
    by (cases act) (auto simp: fair_task_def)
qed

lemma fair_ok_new: "f \<noteq> null \<Longrightarrow> fair_ok f (fm_world (fair_new f)) (fm_pc (fair_new f))
    \<lparr>g_loc = (\<lambda>_. Loose), g_inbox = (\<lambda>_. []), g_queues = (\<lambda>_. [[]]), g_list = (\<lambda>_. [])\<rparr>
    (futex_new 0 1) None"
  by (simp add: fair_ok_def fair_new_def tasks_ok_def world_ok_def waiters_ok_def hands_ok_def
      inbox_ok_def queues_ok_def guards_ok_def futex_new_def guards_held_def hands_held_def
      stages_held_def idle_role_def refcell_new_def)

end
