(* ===== verification/Fair_Mutex_Spec.thy ===== *)
theory Fair_Mutex_Spec imports Fair_Mutex_Inv begin

text \<open>
  What \<open>src/fair_mutex.rs\<close> promises: no step faults, at most one task owns the mutex, a task
  that waits is never forgotten, no state is stuck, a woken task gets the mutex, and the
  whole machine implements a fair lock that serves its waiters in the order they came.
\<close>

section \<open>Safety\<close>

definition fair_init :: "ptr \<Rightarrow> fair_state \<Rightarrow> bool" where
  "fair_init f s \<longleftrightarrow> f \<noteq> null \<and> s = fair_new f"

lemma fair_step_good:
  assumes ok: "fair_ok f (fm_world s) (fm_pc s) g fx own" and step: "fair_step f (t, act) s = Some r"
  obtains p W' g' fx' own' where "r = Inr (s\<lparr>fm_world := W', fm_pc := (fm_pc s)(t := p)\<rparr>)"
    "fair_ok f W' ((fm_pc s)(t := p)) g' fx' own'"
    "fair_trans t (fm_pc s) own (line f g (fm_pc s) own) ((fm_pc s)(t := p)) own'
       (line f g' ((fm_pc s)(t := p)) own')"
    "fair_task f t act (fm_world s) (fm_pc s t) = Some (Inr (p, W'))"
proof -
  obtain r0 where r0: "fair_task f t act (fm_world s) (fm_pc s t) = Some r0"
    "r = mapR (\<lambda>(p, W). s\<lparr>fm_world := W, fm_pc := (fm_pc s)(t := p)\<rparr>) r0"
    using step by (auto simp: fair_step_def)
  have "fair_good f t (fm_pc s) g own r0"
    by (rule fair_task_good [OF ok r0(1)])
  then show ?thesis
    unfolding fair_good_def using r0 by (auto intro: that)
qed

interpretation fair: invariant_system "fair_init f" "fair_step f" "fair_inv f" for f
proof
  fix s assume "fair_init f s"
  then show "fair_inv f s"
    using fair_ok_new [of f] unfolding fair_init_def fair_inv_def by blast
next
  fix s e r assume inv: "fair_inv f s" and step: "fair_step f e s = Some r"
  obtain t act where e: "e = (t, act)" by (cases e)
  obtain g fx own where ok: "fair_ok f (fm_world s) (fm_pc s) g fx own"
    using inv by (auto simp: fair_inv_def)
  obtain p W' g' fx' own' where "r = Inr (s\<lparr>fm_world := W', fm_pc := (fm_pc s)(t := p)\<rparr>)"
    "fair_ok f W' ((fm_pc s)(t := p)) g' fx' own'"
    by (rule fair_step_good [OF ok step [unfolded e]])
  then show "\<exists>s'. r = Inr s' \<and> fair_inv f s'"
    by (auto simp: fair_inv_def)
qed

text \<open>
  C2: whatever the tasks do and in whatever order, no step of the fair mutex faults: no
  \<open>panic!\<close>, \<open>unwrap\<close> of \<open>None\<close> or failed borrow is reached, no dangling or null waiter is
  dereferenced, and no loop over a list diverges.
\<close>

theorem fair_mutex_no_fault:
  "reach (fair_init f) (fair_step f) s \<Longrightarrow> fair_step f e s \<noteq> Some (Inl x)"
  by (rule fair.reach_no_fault)

definition owner_of :: "fair_state \<Rightarrow> tid \<Rightarrow> bool" where
  "owner_of s t \<longleftrightarrow> owns (heap (fm_world s)) (fm_pc s t)"

text \<open>
  C3: mutual exclusion. At most one task owns the mutex, where the owner holds a guard, is
  in \<open>unlock\<close> before it has passed the mutex on, or has been woken by the last owner. In
  particular no two tasks hold a guard.
\<close>

theorem fair_mutex_exclusion:
  assumes "reach (fair_init f) (fair_step f) s"
  shows "(owner_of s t \<and> owner_of s u \<longrightarrow> t = u) \<and>
    (fm_pc s t = Held \<and> fm_pc s u = Held \<longrightarrow> t = u)"
proof -
  obtain g fx own where ok: "fair_ok f (fm_world s) (fm_pc s) g fx own"
    using fair.reach_inv [OF assms] by (auto simp: fair_inv_def)
  have "owner_of s t \<Longrightarrow> owner_of s u \<Longrightarrow> t = u"
    unfolding owner_of_def by (rule fair_unique [OF ok])
  then show ?thesis by (auto simp: owner_of_def)
qed

text \<open>A task waits when its future is suspended and has not been woken.\<close>

definition waits :: "fair_state \<Rightarrow> tid \<Rightarrow> bool" where
  "waits s t \<longleftrightarrow> (\<exists>wait. fm_pc s t = LPending wait \<and>
     wkr (heap (fm_world s)) (wf_waiter wait) \<noteq> WakerDone)"

text \<open>
  C4: no lost wake-up. The atom is 1 exactly while some task owns the mutex, and while a
  task waits there is an owner, whose \<open>unlock\<close> will find it: a mutex that nobody owns has
  no waiter, in its inbox, in its queue or on the way to being woken.
\<close>

theorem fair_mutex_no_lost_wakeup:
  assumes "reach (fair_init f) (fair_step f) s"
  shows "\<exists>fx. futexes (fm_world s) f = Some fx \<and>
      fa_atom (futex_atom fx) = (if \<exists>u. owner_of s u then 1 else 0) \<and>
      ((\<forall>u. \<not> owner_of s u) \<longrightarrow> fa_inbox (futex_atom fx) = null \<and>
         is_empty (queues fx ! 0) \<and> (\<forall>t. \<not> waits s t))"
proof -
  obtain g fx own where ok: "fair_ok f (fm_world s) (fm_pc s) g fx own"
    using fair.reach_inv [OF assms] by (auto simp: fair_inv_def)
  note T = fair_okD(1) [OF ok]
  have own: "owner_of s u \<longleftrightarrow> own = Some u" for u
    using fair_okD(4) [OF ok] by (simp add: owner_of_def)
  have "fa_inbox (futex_atom fx) = null \<and> is_empty (queues fx ! 0) \<and> (\<forall>t. \<not> waits s t)"
    if none: "own = None"
  proof (intro conjI allI)
    have loose: "g_loc g w = Loose" for w using fair_okD(6) [OF ok none] .
    have "g_inbox g f = []"
      using world_okD(3) [OF tasks_okD(1,2) [OF T]] loose by (auto simp: inbox_ok_def)
    then show "fa_inbox (futex_atom fx) = null"
      using inbox_null [OF tasks_okD(1,2) [OF T]] by simp
    have "dlist (heap (fm_world s)) (queues fx ! 0) (g_queues g f ! 0)" "set (g_queues g f ! 0) = {}"
      using queues_okD [OF world_okD(4) [OF tasks_okD(1,2) [OF T]], of 0] tasks_okD(3) [OF T] loose by auto
    then show "is_empty (queues fx ! 0)" by (simp add: is_empty_def dlist_Nil)
    fix t
    have "\<not> owner_of s t" using none own by simp
    moreover have "wkr (heap (fm_world s)) (wf_waiter wait) = WakerDone" if "fm_pc s t = LPending wait" for wait
    proof -
      have "parked_ok (heap (fm_world s)) g f (wf_waiter wait) 0"
        using tasks_stage [OF T, of t "Parked (wf_waiter wait) 0"] that by simp
      then show ?thesis using parked_woken(1) [OF T] loose by blast
    qed
    ultimately show "\<not> waits s t" by (auto simp: waits_def)
  qed
  then show ?thesis
    using tasks_okD(2) [OF T] fair_okD(5) [OF ok] own by (intro exI [of _ fx]) auto
qed

section \<open>Progress\<close>

fun running :: "fair_pc \<Rightarrow> bool" where
  "running Idle = False"
| "running Held = False"
| "running (LPending wait) = False"
| "running _ = True"

lemma lock_polled_pc: "lock_polled w cx x = Inr (p, W) \<Longrightarrow> in_unlock p = None"
  by (cases x; cases "fst x") (auto simp: lock_polled_def bindR_eq_Inr mapR_def split: if_splits)

lemma fair_task_not_done:
  "fair_task f t act W p = Some (Inr (p', W')) \<Longrightarrow> in_unlock p' \<noteq> Some UDone"
  by (cases p; cases act)
    (auto simp: fair_task_def lock_start_def lock_iter_def lock_drop_def
      lock_drop_step_def lock_cancelled_def bindR_eq_Inr mapR_def
      split: option.splits if_splits drop_pc.splits prod.splits dest: lock_polled_pc)

lemma fair_not_done: "reach (fair_init f) (fair_step f) s \<Longrightarrow> in_unlock (fm_pc s t) \<noteq> Some UDone"
proof (induction rule: reach.induct)
  case (start s)
  then show ?case by (simp add: fair_init_def fair_new_def)
next
  case (move s e s')
  obtain u act p W' where "fair_task f u act (fm_world s) (fm_pc s u) = Some (Inr (p, W'))"
    "s' = s\<lparr>fm_world := W', fm_pc := (fm_pc s)(u := p)\<rparr>"
    using move.hyps(2) by (cases e) (auto simp: fair_step_def mapR_def bindR_eq_Inr)
  with move.IH fair_task_not_done show ?case by auto
qed

lemma reader_runs:
  assumes "r_read (fair_role p)" "in_unlock p \<noteq> Some UDone"
  shows "running p" "fair_task f t (Run b) W p \<noteq> None"
  using assms
  by (cases p; auto simp: fair_task_def unlock_step_def unlock_simps drop_role_def split: unlock_pc.splits)+

lemma writer_runs:
  assumes "r_write (fair_role p)"
  shows "running p" "fair_task f t (Run b) W p \<noteq> None"
  using assms
  by (cases p; auto simp: fair_task_def lock_drop_step_def drop_step_def unlock_simps drop_role_def
      split: drop_pc.splits)+

text \<open>
  No deadlock. While some task is inside a poll, a drop or an \<open>unlock\<close>, some such task
  can take its next step: the read lock and the write lock that \<open>unlock\<close> and cancellation
  take on the futex never block each other for ever.
\<close>

theorem fair_mutex_not_stuck:
  assumes reach: "reach (fair_init f) (fair_step f) s" and t: "running (fm_pc s t)"
  shows "\<exists>u. running (fm_pc s u) \<and> fair_step f (u, Run b) s \<noteq> None"
proof -
  obtain g fx own where ok: "fair_ok f (fm_world s) (fm_pc s) g fx own"
    using fair.reach_inv [OF reach] by (auto simp: fair_inv_def)
  note T = fair_okD(1) [OF ok]
  have fx: "get_futex (fm_world s) f = Inr fx" using tasks_okD(2) [OF T] by simp
  have step: "fair_step f (u, Run b) s \<noteq> None \<longleftrightarrow> fair_task f u (Run b) (fm_world s) (fm_pc s u) \<noteq> None" for u
    by (auto simp: fair_step_def)
  show ?thesis
  proof (cases "rw_writer fx")
    case (Some v)
    then have "r_write (fair_role (fm_pc s v))"
      using tasks_okD(4) [OF T] unfolding guards_held_def by blast
    then show ?thesis using writer_runs step by blast
  next
    case None
    show ?thesis
    proof (cases "\<exists>v. r_read (fair_role (fm_pc s v))")
      case True
      then show ?thesis using reader_runs fair_not_done [OF reach] step by blast
    next
      case False
      then have rd: "rw_readers fx = {}"
        using tasks_okD(4) [OF T] by (auto simp: guards_held_def)
      have d: "fm_pc s t = LDrop w (DropWrite owner) \<Longrightarrow> owner = f" for w owner
        using fair_okD(2) [OF ok, of t] by (simp add: drop_ok_def)
      have "fair_task f t (Run b) (fm_world s) (fm_pc s t) \<noteq> None"
        using t fair_not_done [OF reach, of t] d None rd fx
        by (cases "fm_pc s t")
          (auto simp: fair_task_def lock_drop_step_def drop_step_def unlock_step_def write_lock_def
            futex_lock_def split: drop_pc.splits unlock_pc.splits)
      then show ?thesis using t step by blast
    qed
  qed
qed

text \<open>
  A task that was woken gets the mutex: its next poll, with any waker, and one step of
  the loop of \<open>poll_waiting\<close> return the guard and free its waiter.
\<close>

theorem fair_mutex_woken_gets_lock:
  assumes reach: "reach (fair_init f) (fair_step f) s"
    and t: "fm_pc s t = LPending wait" "wkr (heap (fm_world s)) (wf_waiter wait) = WakerDone"
  shows "\<exists>s'. run (fair_step f) [(t, Poll cx a), (t, Run b)] s = Some (Inr s') \<and> fm_pc s' t = Held \<and>
    heap (fm_world s') = (heap (fm_world s))(wf_waiter wait := None)"
proof -
  obtain g fx own where ok: "fair_ok f (fm_world s) (fm_pc s) g fx own"
    using fair.reach_inv [OF reach] by (auto simp: fair_inv_def)
  note T = fair_okD(1) [OF ok]
  let ?W = "fm_world s" and ?w = "wf_waiter wait"
  have st: "r_stage (fair_role (fm_pc s t)) = Parked ?w 0" by (simp add: t)
  have wait: "wf_step wait = Waiting" using fair_okD(2) [OF ok, of t] by (simp add: t wait_ok_def)
  have alive: "alive (heap ?W) ?w"
    using tasks_stage [OF T st] by (simp add: parked_ok_def)
  have 1: "fair_step f (t, Poll cx a) s = Some (Inr (s\<lparr>fm_world := clone_waker ?W cx,
      fm_pc := (fm_pc s)(t := LPolling wait cx WakerDone)\<rparr>))"
    using tasks_poll_waiting(1) [OF T st] t(2) wait
    by (simp add: fair_step_def fair_task_def t future_poll_def lock_polled_def)
  have "waiter_drop (drop_waker (clone_waker ?W cx) cx) ?w = Inr (freed (drop_waker (clone_waker ?W cx) cx) ?w)"
    by (rule waiter_drop_alive) (simp add: alive)
  then show ?thesis
    by (simp add: 1) (simp add: fair_step_def fair_task_def future_loop_def poll_waiting_iter_def lock_polled_def)
qed

section \<open>Refinement of a fair lock\<close>

text \<open>
  The abstract lock: an owner and the line of the waiting tasks. A task enters the line at
  the end, only while the lock is owned; the lock is taken only when nobody waits, is handed
  to the first of the line, and is released only when the line is empty; a task may leave the
  line. Nothing overtakes.
\<close>

record fair_lock =
  fl_owner :: "tid option"
  fl_line :: "tid list"

inductive fair_lock_step :: "tid \<Rightarrow> fair_lock \<Rightarrow> fair_lock \<Rightarrow> bool" for t where
  stutter: "fair_lock_step t l l"
| take: "fl_owner l = None \<Longrightarrow> fl_line l = [] \<Longrightarrow> fair_lock_step t l (l\<lparr>fl_owner := Some t\<rparr>)"
| join: "fl_owner l \<noteq> None \<Longrightarrow> t \<notin> set (fl_line l) \<Longrightarrow>
    fair_lock_step t l (l\<lparr>fl_line := fl_line l @ [t]\<rparr>)"
| pass: "fl_owner l = Some t \<Longrightarrow> fl_line l = u # us \<Longrightarrow>
    fair_lock_step t l \<lparr>fl_owner = Some u, fl_line = us\<rparr>"
| free: "fl_owner l = Some t \<Longrightarrow> fl_line l = [] \<Longrightarrow> fair_lock_step t l (l\<lparr>fl_owner := None\<rparr>)"
| quit: "t \<in> set (fl_line l) \<Longrightarrow> fair_lock_step t l (l\<lparr>fl_line := remove1 t (fl_line l)\<rparr>)"

inductive_cases fair_lock_step_cases: "fair_lock_step t l l'"

text \<open>
  The abstraction relation: the owner is the task with the token, and the line is the waiters
  of \<open>line\<close>, each under the name of its task.
\<close>

definition fair_abs :: "ptr \<Rightarrow> fair_state \<Rightarrow> fair_lock \<Rightarrow> bool" where
  "fair_abs f s l \<longleftrightarrow> (\<exists>g fx. fair_ok f (fm_world s) (fm_pc s) g fx (fl_owner l) \<and>
     list_all2 (sleeps (fm_pc s)) (fl_line l) (line f g (fm_pc s) (fl_owner l)))"

lemma sleeps_fun: "sleeps pc t v \<Longrightarrow> sleeps pc t w \<Longrightarrow> v = w"
  by (simp add: sleeps_def)

lemma sleeps_inj:
  assumes "fair_ok f W pc g fx own" "sleeps pc t w" "sleeps pc u w"
  shows "t = u"
  using tasks_okD(6) [OF fair_okD(1) [OF assms(1)]] assms(2,3) sleeper_waiter
  unfolding sleeps_def stages_held_def by blast

lemma line_distinct:
  assumes ok: "fair_ok f W pc g fx own"
  shows "distinct (line f g pc own)"
proof -
  note T = fair_okD(1) [OF ok]
  have q: "distinct (g_queues g f ! 0)" "set (g_queues g f ! 0) = {w. g_loc g w = InQueue f 0}"
    using queues_okD [OF world_okD(4) [OF tasks_okD(1,2) [OF T]], of 0] tasks_okD(3) [OF T]
    by (auto simp: dlist_def)
  have i: "distinct (g_inbox g f)" "set (g_inbox g f) = {w. g_loc g w = Inbox f}"
    using world_okD(3) [OF tasks_okD(1,2) [OF T]] by (auto simp: inbox_ok_def)
  have h: "r_hand (fair_role (pc t)) = Some w \<Longrightarrow> g_loc g w = InHand t" for t w
    using tasks_okD(5) [OF T] by (simp add: hands_held_def)
  show ?thesis
    using q i h by (auto simp: line_def hand_of_def split: option.splits)
qed

lemma list_all2_remove1:
  assumes "list_all2 P ts ws" "P t w" "\<And>t u w. P t w \<Longrightarrow> P u w \<Longrightarrow> t = u" "\<And>t v w. P t v \<Longrightarrow> P t w \<Longrightarrow> v = w"
  shows "list_all2 P (remove1 t ts) (remove1 w ws) \<and> (t \<in> set ts \<longleftrightarrow> w \<in> set ws)"
  using assms(1)
proof (induction rule: list_all2_induct)
  case Nil
  then show ?case by simp
next
  case (Cons u us v vs)
  have "u = t \<longleftrightarrow> v = w" using Cons.hyps assms(2-4) by metis
  with Cons show ?case by auto
qed

lemma list_all2_distinct:
  "list_all2 P ts ws \<Longrightarrow> distinct ws \<Longrightarrow> (\<And>t v w. P t v \<Longrightarrow> P t w \<Longrightarrow> v = w) \<Longrightarrow> distinct ts"
proof (induction rule: list_all2_induct)
  case Nil
  then show ?case by simp
next
  case (Cons t ts w ws)
  have "t \<notin> set ts"
  proof
    assume "t \<in> set ts"
    with Cons.hyps(2) obtain v where "v \<in> set ws" "P t v"
      by (metis in_set_conv_nth list_all2_conv_all_nth)
    with Cons.hyps(1) Cons.prems show False by (metis distinct.simps(2))
  qed
  with Cons show ?case by simp
qed

lemma fair_abs_distinct:
  assumes "fair_ok f W pc g fx own" "list_all2 (sleeps pc) ts (line f g pc own)"
  shows "distinct ts"
  by (rule list_all2_distinct [OF assms(2) line_distinct [OF assms(1)]]) (rule sleeps_fun)

definition registered :: "fair_state \<Rightarrow> tid \<Rightarrow> bool" where
  "registered s t \<longleftrightarrow> (\<exists>w. sleeps (fm_pc s) t w \<and> wkr (heap (fm_world s)) w \<noteq> WakerDone)"

lemma line_set:
  assumes ok: "fair_ok f W pc g fx own" and w: "g_loc g w \<noteq> Loose"
  shows "w \<in> set (line f g pc own)"
proof -
  note T = fair_okD(1) [OF ok]
  obtain v q where v: "q < 1" "listed f q (g_loc g w)" using tasks_place [OF T w] by blast
  have q: "g_loc g w = InQueue f 0 \<Longrightarrow> w \<in> set (g_queues g f ! 0)"
    using queues_okD(2) [OF world_okD(4) [OF tasks_okD(1,2) [OF T]], of 0] tasks_okD(3) [OF T] by auto
  have i: "g_loc g w = Inbox f \<Longrightarrow> w \<in> set (g_inbox g f)"
    using world_okD(3) [OF tasks_okD(1,2) [OF T]] by (auto simp: inbox_ok_def)
  have h: "w \<in> set (hand_of (pc t)) \<and> own = Some t" if "g_loc g w = InHand t" for t
  proof -
    have hand: "r_hand (fair_role (pc t)) = Some w"
      using tasks_okD(5) [OF T] that by (simp add: hands_held_def)
    then have "owns (heap W) (pc t)"
      by (cases "pc t") (auto simp: unlock_simps drop_role_def split: unlock_pc.splits)
    with hand fair_okD(4) [OF ok, of t] show ?thesis by (simp add: hand_of_def)
  qed
  have "g_loc g w \<noteq> InList t" for t
  proof
    assume "g_loc g w = InList t"
    then have "w \<in> set (g_list g t)"
      using world_okD(2) [OF tasks_okD(1) [OF T]] by (simp add: hands_ok_def)
    moreover have "g_list g t = []"
      using tasks_okD(5) [OF T] by (cases "pc t") (simp_all add: hands_held_def unlock_simps drop_role_def)
    ultimately show False by simp
  qed
  with v q i h show ?thesis by (auto simp: listed_def line_def)
qed

lemma registered_line:
  assumes ok: "fair_ok f (fm_world s) (fm_pc s) g fx own"
    and line: "list_all2 (sleeps (fm_pc s)) ts (line f g (fm_pc s) own)"
  shows "t \<in> set ts \<longleftrightarrow> registered s t"
proof
  assume "t \<in> set ts"
  then obtain w where w: "w \<in> set (line f g (fm_pc s) own)" "sleeps (fm_pc s) t w"
    using line by (metis in_set_conv_nth list_all2_conv_all_nth)
  have "\<exists>k. wkr (heap (fm_world s)) w = WakerWaiting k"
    by (rule world_ok_waiting [OF tasks_okD(1) [OF fair_okD(1) [OF ok]] line_listed [OF ok w(1)]])
  with w show "registered s t" by (auto simp: registered_def)
next
  assume "registered s t"
  then obtain w where w: "sleeps (fm_pc s) t w" "wkr (heap (fm_world s)) w \<noteq> WakerDone"
    by (auto simp: registered_def)
  have "\<exists>q. parked_ok (heap (fm_world s)) g f w q"
    using tasks_stage [OF fair_okD(1) [OF ok] refl, of t] w(1)
    by (cases "r_stage (fair_role (fm_pc s t))") (auto simp: sleeps_def)
  then have "g_loc g w \<noteq> Loose"
    using parked_woken(1) [OF fair_okD(1) [OF ok]] w(2) by blast
  then have "w \<in> set (line f g (fm_pc s) own)" by (rule line_set [OF ok])
  then obtain u where "u \<in> set ts" "sleeps (fm_pc s) u w"
    using line by (metis in_set_conv_nth list_all2_conv_all_nth)
  with sleeps_inj [OF ok w(1)] show "t \<in> set ts" by blast
qed

lemma fair_abs_reach:
  assumes "reach (fair_init f) (fair_step f) s"
  shows "\<exists>l. fair_abs f s l \<and> (\<forall>t. fl_owner l = Some t \<longleftrightarrow> owner_of s t) \<and> distinct (fl_line l) \<and>
    (\<forall>t. t \<in> set (fl_line l) \<longleftrightarrow> registered s t) \<and> (\<forall>t. waits s t \<longrightarrow> t \<in> set (fl_line l))"
proof -
  obtain g fx own where ok: "fair_ok f (fm_world s) (fm_pc s) g fx own"
    using fair.reach_inv [OF assms] by (auto simp: fair_inv_def)
  let ?ws = "line f g (fm_pc s) own"
  have "\<forall>w \<in> set ?ws. \<exists>t. sleeps (fm_pc s) t w"
    using tasks_place [OF fair_okD(1) [OF ok] line_listed [OF ok]] by (auto simp: sleeps_def)
  then obtain T where "\<forall>w \<in> set ?ws. sleeps (fm_pc s) (T w) w" by metis
  then have line: "list_all2 (sleeps (fm_pc s)) (map T ?ws) ?ws"
    by (simp add: list_all2_conv_all_nth)
  let ?l = "\<lparr>fl_owner = own, fl_line = map T ?ws\<rparr>"
  have "fair_abs f s ?l"
    using ok line by (auto simp: fair_abs_def)
  moreover have "waits s t \<Longrightarrow> registered s t" for t
    by (auto simp: waits_def registered_def sleeps_def)
  ultimately show ?thesis
    using fair_okD(4) [OF ok] registered_line [OF ok line] fair_abs_distinct [OF ok line]
    by (intro exI [of _ ?l]) (auto simp: owner_of_def)
qed

text \<open>
  What the abstraction means. Every reachable state has one, whose owner is the owner of
  the mutex and whose line holds, each once, exactly the tasks whose waiter is registered
  with the futex and has not been woken; a task that waits is in it.
\<close>

theorem fair_mutex_abstraction:
  assumes "reach (fair_init f) (fair_step f) s"
  shows "\<exists>l. fair_abs f s l \<and> (\<forall>t. fl_owner l = Some t \<longleftrightarrow> owner_of s t) \<and> distinct (fl_line l) \<and>
    (\<forall>t. t \<in> set (fl_line l) \<longleftrightarrow> registered s t) \<and> (\<forall>t. waits s t \<longrightarrow> t \<in> set (fl_line l))"
  by (rule fair_abs_reach [OF assms])

text \<open>
  C1: the fair mutex implements the abstract lock. It starts free with an empty line, and
  every step of a task is a step of the abstract lock by the same task.
\<close>

theorem fair_mutex_refines_fair_lock:
  assumes abs: "fair_abs f s l" and step: "fair_step f (t, act) s = Some (Inr s')"
  shows "\<exists>l'. fair_lock_step t l l' \<and> fair_abs f s' l'"
proof -
  obtain g fx where ok: "fair_ok f (fm_world s) (fm_pc s) g fx (fl_owner l)"
    and line: "list_all2 (sleeps (fm_pc s)) (fl_line l) (line f g (fm_pc s) (fl_owner l))"
    using abs by (auto simp: fair_abs_def)
  obtain p W' g' fx' own' where
    s0: "(Inr s' :: fair_state res) = Inr (s\<lparr>fm_world := W', fm_pc := (fm_pc s)(t := p)\<rparr>)"
    and ok': "fair_ok f W' ((fm_pc s)(t := p)) g' fx' own'"
    and trans: "fair_trans t (fm_pc s) (fl_owner l) (line f g (fm_pc s) (fl_owner l))
       ((fm_pc s)(t := p)) own' (line f g' ((fm_pc s)(t := p)) own')"
    by (rule fair_step_good [OF ok step])
  have s': "s' = s\<lparr>fm_world := W', fm_pc := (fm_pc s)(t := p)\<rparr>" using s0 by simp
  let ?pc = "fm_pc s" and ?pc' = "(fm_pc s)(t := p)"
  have absI: "fair_abs f s' \<lparr>fl_owner = own', fl_line = ts\<rparr>"
    if "list_all2 (sleeps ?pc') ts (line f g' ?pc' own')" for ts
    using ok' that by (auto simp: fair_abs_def s')
  have same: "sleeps ?pc' u w = sleeps ?pc u w" if "u \<noteq> t" for u w
    using that by (simp add: sleeps_def)
  note inj = sleeps_inj [OF ok] and dist = fair_abs_distinct [OF ok line]
  have keep: "list_all2 (sleeps ?pc') ts ws"
    if "list_all2 (sleeps ?pc) ts ws" "\<And>w. w \<in> set ws \<Longrightarrow> t \<in> set ts \<Longrightarrow> sleeps ?pc t w = sleeps ?pc' t w" for ts ws
  proof (rule list.rel_mono_strong [OF that(1)])
    fix u w assume "u \<in> set ts" "w \<in> set ws" "sleeps ?pc u w"
    then show "sleeps ?pc' u w" using that(2) [of w] same [of u w] by (cases "u = t") auto
  qed
  have l: "l = \<lparr>fl_owner = fl_owner l, fl_line = fl_line l\<rparr>"
    "l\<lparr>fl_owner := x\<rparr> = \<lparr>fl_owner = x, fl_line = fl_line l\<rparr>"
    "l\<lparr>fl_line := ts\<rparr> = \<lparr>fl_owner = fl_owner l, fl_line = ts\<rparr>" for x ts
    by (cases l; simp)+
  show ?thesis
    using trans
  proof cases
    case stay
    have "fair_abs f s' \<lparr>fl_owner = own', fl_line = fl_line l\<rparr>"
      by (rule absI, rule keep) (use stay line in auto)
    then show ?thesis using stay(1) l(1) fair_lock_step.stutter by metis
  next
    case acquire
    then have "fl_line l = []" using line by simp
    then have "fair_lock_step t l \<lparr>fl_owner = own', fl_line = []\<rparr>"
      using fair_lock_step.take [of l t] acquire by (simp add: l(2))
    then show ?thesis using absI [of "[]"] acquire by auto
  next
    case release
    then have "fl_line l = []" using line by simp
    then have "fair_lock_step t l \<lparr>fl_owner = own', fl_line = []\<rparr>"
      using fair_lock_step.free [of l t] release by (simp add: l(2))
    then show ?thesis using absI [of "[]"] release by auto
  next
    case (enqueue w)
    have nt: "t \<notin> set (fl_line l)"
      using registered_line [OF ok line, of t] enqueue by (auto simp: registered_def)
    then have "fair_lock_step t l \<lparr>fl_owner = own', fl_line = fl_line l @ [t]\<rparr>"
      using fair_lock_step.join [of l t] enqueue by (simp add: l(3))
    moreover have "list_all2 (sleeps ?pc') (fl_line l) (line f g ?pc (fl_owner l))"
      by (rule keep [OF line]) (use nt in simp)
    then have "fair_abs f s' \<lparr>fl_owner = own', fl_line = fl_line l @ [t]\<rparr>"
      using enqueue by (intro absI) (simp add: list_all2_appendI)
    ultimately show ?thesis by blast
  next
    case (handoff u w)
    then obtain v us where us: "fl_line l = v # us" "sleeps ?pc v w"
      "list_all2 (sleeps ?pc) us (line f g' ?pc' own')"
      using line by (auto simp: list_all2_Cons2)
    then have "v = u" using inj handoff by blast
    then have "fair_lock_step t l \<lparr>fl_owner = own', fl_line = us\<rparr>"
      using fair_lock_step.pass [of l t u us] handoff us by simp
    moreover have "t \<notin> set us"
    proof
      assume "t \<in> set us"
      then have "registered s t"
        using registered_line [OF ok line, of t] us(1) by simp
      then have "\<not> owns (heap (fm_world s)) (?pc t)"
        by (auto simp: registered_def sleeps_def sleeper_owns(1))
      then show False using fair_okD(4) [OF ok, of t] handoff by simp
    qed
    then have "fair_abs f s' \<lparr>fl_owner = own', fl_line = us\<rparr>"
      by (intro absI keep [OF us(3)]) simp
    ultimately show ?thesis by blast
  next
    case (leave w)
    have rm: "list_all2 (sleeps ?pc) (remove1 t (fl_line l)) (line f g' ?pc' own')"
      using list_all2_remove1 [OF line leave(3)] inj sleeps_fun leave(2) by metis
    have "fair_lock_step t l \<lparr>fl_owner = own', fl_line = remove1 t (fl_line l)\<rparr>"
    proof (cases "t \<in> set (fl_line l)")
      case True
      from fair_lock_step.quit [OF this] leave(1) show ?thesis by (simp add: l(3))
    next
      case False
      with leave(1) have "\<lparr>fl_owner = own', fl_line = remove1 t (fl_line l)\<rparr> = l"
        by (simp add: remove1_idem)
      then show ?thesis by (simp only: fair_lock_step.stutter)
    qed
    moreover have "t \<notin> set (remove1 t (fl_line l))" using dist by simp
    then have "fair_abs f s' \<lparr>fl_owner = own', fl_line = remove1 t (fl_line l)\<rparr>"
      by (intro absI keep [OF rm]) simp
    ultimately show ?thesis by blast
  qed
qed

section \<open>A run\<close>

text \<open>
  The states of a run of the machine, for the theorems above at concrete inputs: task 1 takes
  the mutex, tasks 2 and 3 wait for it, and task 1 drops its guard.
\<close>

definition fair_after :: "(tid \<times> action) list \<Rightarrow> fair_state" where
  "fair_after es = (case run (fair_step 100) es (fair_new 100) of
     Some (Inr s) \<Rightarrow> s | _ \<Rightarrow> fair_new 100)"

definition waker_of :: "tid \<Rightarrow> copy_waker" where
  "waker_of t = \<lparr>cw_data = of_nat t, cw_vtable = 900\<rparr>"

definition trace_wait :: "(tid \<times> action) list" where
  "trace_wait = [(1, Poll (waker_of 1) 8), (1, Run False), (2, Poll (waker_of 2) 16), (2, Run False),
     (3, Poll (waker_of 3) 24), (3, Run True), (3, Run False)]"

definition trace_unlock :: "(tid \<times> action) list" where
  "trace_unlock = trace_wait @ (1, Drop) # replicate 6 (1, Run False)"

definition trace_woken :: "(tid \<times> action) list" where
  "trace_woken = trace_unlock @ [(1, Run False)]"

lemma fair_after_reach: "reach (fair_init 100) (fair_step 100) (fair_after es)"
proof -
  have start: "reach (fair_init 100) (fair_step 100) (fair_new 100)"
    by (rule reach.start) (simp add: fair_init_def)
  then show ?thesis
    using run_reach [OF start, of es]
    by (auto simp: fair_after_def split: option.splits sum.splits)
qed

theorem fair_mutex_no_fault_witness:
  "fair_step 100 (1, Run False) (fair_after trace_unlock) \<noteq> Some (Inl Panic) \<and>
   fair_step 100 (1, Run False) (fair_after trace_unlock) \<noteq> None"
proof
  show "fair_step 100 (1, Run False) (fair_after trace_unlock) \<noteq> Some (Inl Panic)"
    by (rule fair_mutex_no_fault [OF fair_after_reach])
  have "(case fair_step 100 (1, Run False) (fair_after trace_unlock) of None \<Rightarrow> False | _ \<Rightarrow> True)"
    by code_simp
  then show "fair_step 100 (1, Run False) (fair_after trace_unlock) \<noteq> None"
    by (auto split: option.splits)
qed

theorem fair_mutex_exclusion_witness:
  "owner_of (fair_after trace_wait) 1 \<and> \<not> owner_of (fair_after trace_wait) 2"
proof -
  have 1: "owner_of (fair_after trace_wait) 1" by code_simp
  with fair_mutex_exclusion [OF fair_after_reach, of trace_wait 1 2] show ?thesis by auto
qed

theorem fair_mutex_no_lost_wakeup_witness:
  "waits (fair_after trace_wait) 2 \<and> (\<exists>u. owner_of (fair_after trace_wait) u)"
proof -
  have "(case fm_pc (fair_after trace_wait) 2 of LPending wait \<Rightarrow>
      wkr (heap (fm_world (fair_after trace_wait))) (wf_waiter wait) \<noteq> WakerDone | _ \<Rightarrow> False)"
    by code_simp
  then have "waits (fair_after trace_wait) 2"
    by (auto simp: waits_def split: fair_pc.splits)
  with fair_mutex_no_lost_wakeup [OF fair_after_reach, of trace_wait] show ?thesis by auto
qed

theorem fair_mutex_not_stuck_witness:
  "\<exists>u. running (fm_pc (fair_after trace_unlock) u) \<and>
     fair_step 100 (u, Run True) (fair_after trace_unlock) \<noteq> None"
proof (rule fair_mutex_not_stuck [OF fair_after_reach])
  show "running (fm_pc (fair_after trace_unlock) 1)" by code_simp
qed

theorem fair_mutex_woken_gets_lock_witness:
  "\<exists>s'. run (fair_step 100) [(2, Poll (waker_of 9) 0), (2, Run True)] (fair_after trace_woken) = Some (Inr s') \<and>
     fm_pc s' 2 = Held"
proof -
  have "(case fm_pc (fair_after trace_woken) 2 of LPending wait \<Rightarrow>
      wkr (heap (fm_world (fair_after trace_woken))) (wf_waiter wait) = WakerDone | _ \<Rightarrow> False)"
    by code_simp
  then obtain wait where "fm_pc (fair_after trace_woken) 2 = LPending wait"
    "wkr (heap (fm_world (fair_after trace_woken))) (wf_waiter wait) = WakerDone"
    by (auto split: fair_pc.splits)
  from fair_mutex_woken_gets_lock [OF fair_after_reach this] show ?thesis by blast
qed

theorem fair_mutex_abstraction_witness:
  "\<exists>l. fair_abs 100 (fair_after trace_wait) l \<and> 2 \<in> set (fl_line l)"
proof -
  have "(case fm_pc (fair_after trace_wait) 2 of LPending wait \<Rightarrow>
      wkr (heap (fm_world (fair_after trace_wait))) (wf_waiter wait) \<noteq> WakerDone | _ \<Rightarrow> False)"
    by code_simp
  then have "waits (fair_after trace_wait) 2"
    by (auto simp: waits_def split: fair_pc.splits)
  with fair_mutex_abstraction [OF fair_after_reach, of trace_wait] show ?thesis by blast
qed

theorem fair_mutex_refines_fair_lock_witness:
  "\<exists>s' l l'. fair_step 100 (1, Run False) (fair_after trace_unlock) = Some (Inr s') \<and>
     fair_abs 100 (fair_after trace_unlock) l \<and> fair_lock_step 1 l l' \<and> fair_abs 100 s' l'"
proof -
  obtain l where l: "fair_abs 100 (fair_after trace_unlock) l"
    using fair_abs_reach [OF fair_after_reach] by blast
  have "(case fair_step 100 (1, Run False) (fair_after trace_unlock) of Some (Inr s) \<Rightarrow> True | _ \<Rightarrow> False)"
    by code_simp
  then obtain s' where s': "fair_step 100 (1, Run False) (fair_after trace_unlock) = Some (Inr s')"
    by (auto split: option.splits sum.splits)
  from fair_mutex_refines_fair_lock [OF l s'] l s' show ?thesis by blast
qed

end
