(* ===== verification/Spin_Lock.thy ===== *)
theory Spin_Lock imports Atomics begin

text \<open>
  \<open>src/spin_lock.rs\<close> and \<open>yield_now\<close> of \<open>src/util.rs\<close>: a mutex whose \<open>lock\<close> tries once per
  poll and otherwise asks to be polled again. A state is the flag, the place of every task, and
  the wakers called by \<open>wake_by_ref\<close>.
\<close>

section \<open>yield_now\<close>

text \<open>
  \<open>YieldNow(bool)\<close>: the first poll sets the flag, wakes the polling task and is pending; the
  second is ready. The result is the flag, whether the poll is ready, and whether it woke.
\<close>

definition yield_now :: bool where
  "yield_now = False"

definition yield_poll :: "bool \<Rightarrow> bool \<times> bool \<times> bool" where
  "yield_poll yielded = (if yielded then (True, True, False) else (True, False, True))"

section \<open>The lock\<close>

text \<open>
  \<open>SpinTry\<close> is the top of the loop, \<open>SpinYield\<close> the await of \<open>yield_now\<close>, \<open>SpinHeld\<close> the
  possession of a guard. The future of \<open>lock\<close> has no state but its place: dropping it, pending,
  does nothing.
\<close>

datatype spin_pc = SpinIdle | SpinTry copy_waker | SpinYield bool | SpinHeld

datatype spin_action = SpinPoll copy_waker | SpinDrop | SpinRun bool

record spin_state =
  sp_state :: bool
  sp_pc :: "tid \<Rightarrow> spin_pc"
  sp_wakes :: "copy_waker list"

definition spin_new :: spin_state where
  "spin_new = \<lparr>sp_state = native_new False, sp_pc = (\<lambda>_. SpinIdle), sp_wakes = []\<rparr>"

definition spin_task ::
  "spin_action \<Rightarrow> bool \<Rightarrow> copy_waker list \<Rightarrow> spin_pc \<Rightarrow> (bool \<times> copy_waker list \<times> spin_pc) res option" where
  "spin_task act state wakes p =
     (case (p, act) of
        (SpinIdle, SpinPoll cx) \<Rightarrow> Some (Inr (state, wakes, SpinTry cx))
      | (SpinTry cx, SpinRun spurious) \<Rightarrow> Some (
          bindR (native_compare_exchange_weak spurious Acquire Relaxed state False True)
            (\<lambda>(result, state).
               if \<not> isl result then Inr (state, wakes, SpinHeld)
               else (case yield_poll yield_now of (flag, ready, woke) \<Rightarrow>
                 Inr (state, if woke then wakes @ [cx] else wakes,
                      if ready then SpinTry cx else SpinYield flag))))
      | (SpinYield flag, SpinPoll cx) \<Rightarrow> Some (
          case yield_poll flag of (flag, ready, woke) \<Rightarrow>
            Inr (state, if woke then wakes @ [cx] else wakes,
                 if ready then SpinTry cx else SpinYield flag))
      | (SpinYield flag, SpinDrop) \<Rightarrow> Some (Inr (state, wakes, SpinIdle))
      | (SpinHeld, SpinDrop) \<Rightarrow> Some (
          bindR (native_store Release state False) (\<lambda>state. Inr (state, wakes, SpinIdle)))
      | _ \<Rightarrow> None)"

definition spin_step :: "(tid \<times> spin_action, spin_state) machine" where
  "spin_step = (\<lambda>(t, act) s.
     map_option (mapR (\<lambda>(state, wakes, p).
         s\<lparr>sp_state := state, sp_pc := (sp_pc s)(t := p), sp_wakes := wakes\<rparr>))
       (spin_task act (sp_state s) (sp_wakes s) (sp_pc s t)))"

section \<open>The invariant\<close>

text \<open>
  The flag is set exactly while some task has the guard, and that task is unique; a task that
  yields has its flag set, so that its next poll tries again.
\<close>

definition spin_ok :: "bool \<Rightarrow> (tid \<Rightarrow> spin_pc) \<Rightarrow> tid option \<Rightarrow> bool" where
  "spin_ok state pc own \<longleftrightarrow> (state \<longleftrightarrow> own \<noteq> None) \<and>
     (\<forall>t. pc t = SpinHeld \<longleftrightarrow> own = Some t) \<and> (\<forall>t. pc t \<noteq> SpinYield False)"

definition spin_inv :: "spin_state \<Rightarrow> bool" where
  "spin_inv s \<longleftrightarrow> (\<exists>own. spin_ok (sp_state s) (sp_pc s) own)"

lemma spin_ok_keep:
  "spin_ok state pc own \<Longrightarrow> pc t \<noteq> SpinHeld \<Longrightarrow> p \<noteq> SpinHeld \<Longrightarrow> p \<noteq> SpinYield False \<Longrightarrow>
     spin_ok state (pc(t := p)) own"
  by (auto simp: spin_ok_def)

lemma spin_ok_acquire: "spin_ok False pc own \<Longrightarrow> spin_ok True (pc(t := SpinHeld)) (Some t)"
  by (auto simp: spin_ok_def)

lemma spin_ok_release: "spin_ok state pc own \<Longrightarrow> pc t = SpinHeld \<Longrightarrow> spin_ok False (pc(t := SpinIdle)) None"
  by (auto simp: spin_ok_def)

definition spin_good :: "(tid \<Rightarrow> spin_pc) \<Rightarrow> tid \<Rightarrow> (bool \<times> copy_waker list \<times> spin_pc) res \<Rightarrow> bool" where
  "spin_good pc t r \<longleftrightarrow> (\<exists>state wakes p own. r = Inr (state, wakes, p) \<and> spin_ok state (pc(t := p)) own)"

lemma spin_goodI: "spin_ok state (pc(t := p)) own \<Longrightarrow> spin_good pc t (Inr (state, wakes, p))"
  by (auto simp: spin_good_def)

lemma spin_task_good:
  assumes ok: "spin_ok state pc own" and step: "spin_task act state wakes (pc t) = Some r"
  shows "spin_good pc t r"
proof (cases "pc t")
  case SpinIdle
  with step obtain cx where "r = Inr (state, wakes, SpinTry cx)"
    by (auto simp: spin_task_def split: spin_action.splits)
  then show ?thesis
    using spin_ok_keep [OF ok, of t] SpinIdle by (auto intro: spin_goodI)
next
  case (SpinTry cx)
  with step obtain spurious where "act = SpinRun spurious"
    by (auto simp: spin_task_def split: spin_action.splits)
  with step SpinTry have "r = Inr (if \<not> state \<and> \<not> spurious then (True, wakes, SpinHeld)
      else (state, wakes @ [cx], SpinYield True))"
    by (auto simp: spin_task_def native_compare_exchange_weak_def yield_poll_def yield_now_def)
  then show ?thesis
    using spin_ok_keep [OF ok, of t] spin_ok_acquire [of pc own t] ok SpinTry
    by (cases state) (auto intro!: spin_goodI split: if_splits)
next
  case (SpinYield flag)
  then have flag using ok by (cases flag) (auto simp: spin_ok_def)
  with step SpinYield obtain cx where "r = Inr (state, wakes, SpinTry cx) \<or> r = Inr (state, wakes, SpinIdle)"
    by (auto simp: spin_task_def yield_poll_def split: spin_action.splits)
  then show ?thesis
    using spin_ok_keep [OF ok, of t] SpinYield by (auto intro: spin_goodI)
next
  case SpinHeld
  with step have "r = Inr (False, wakes, SpinIdle)"
    by (auto simp: spin_task_def native_store_def split: spin_action.splits)
  then show ?thesis
    using spin_ok_release [OF ok] SpinHeld by (auto intro: spin_goodI)
qed

interpretation spin: invariant_system "\<lambda>s. s = spin_new" spin_step spin_inv
proof
  show "spin_inv s" if "s = spin_new" for s
    using that by (auto simp: spin_new_def spin_inv_def spin_ok_def native_new_def intro!: exI [of _ None])
next
  fix s e r assume inv: "spin_inv s" and step: "spin_step e s = Some r"
  obtain t act where e: "e = (t, act)" by (cases e)
  from step obtain r0 where r0: "spin_task act (sp_state s) (sp_wakes s) (sp_pc s t) = Some r0"
    "r = mapR (\<lambda>(state, wakes, p).
         s\<lparr>sp_state := state, sp_pc := (sp_pc s)(t := p), sp_wakes := wakes\<rparr>) r0"
    by (auto simp: spin_step_def e)
  obtain own where "spin_ok (sp_state s) (sp_pc s) own" using inv by (auto simp: spin_inv_def)
  from spin_task_good [OF this r0(1)] show "\<exists>s'. r = Inr s' \<and> spin_inv s'"
    by (auto simp: r0(2) spin_good_def spin_inv_def)
qed

section \<open>Properties\<close>

text \<open>
  C38: the spin lock never faults and excludes: in every reachable state at most one task has
  the guard, and the flag is set exactly while one has it.
\<close>

theorem spin_lock_exclusion:
  assumes "reach (\<lambda>s. s = spin_new) spin_step s"
  shows "(\<exists>t. sp_pc s t = SpinHeld) = sp_state s \<and>
    (\<forall>t u. sp_pc s t = SpinHeld \<longrightarrow> sp_pc s u = SpinHeld \<longrightarrow> t = u) \<and> spin_step e s \<noteq> Some (Inl x)"
proof -
  obtain own where "spin_ok (sp_state s) (sp_pc s) own"
    using spin.reach_inv [OF assms] by (auto simp: spin_inv_def)
  then show ?thesis
    using spin.reach_no_fault [OF assms] by (auto simp: spin_ok_def)
qed

text \<open>
  A poll of a pending \<open>lock\<close> tries the flag again, gets the guard when the flag is clear and
  the exchange does not fail spuriously, and otherwise wakes the polling task before it is
  pending, so that the task is polled again.
\<close>

theorem spin_lock_retries:
  assumes "reach (\<lambda>s. s = spin_new) spin_step s" "sp_pc s t = SpinYield flag"
  shows "run spin_step [(t, SpinPoll cx), (t, SpinRun spurious)] s = Some (Inr
    (if \<not> sp_state s \<and> \<not> spurious
     then s\<lparr>sp_state := True, sp_pc := (sp_pc s)(t := SpinHeld)\<rparr>
     else s\<lparr>sp_pc := (sp_pc s)(t := SpinYield True), sp_wakes := sp_wakes s @ [cx]\<rparr>))"
proof -
  obtain own where "spin_ok (sp_state s) (sp_pc s) own"
    using spin.reach_inv [OF assms(1)] by (auto simp: spin_inv_def)
  then have flag using assms(2) by (cases flag) (auto simp: spin_ok_def)
  then show ?thesis
    using assms(2) by (simp add: spin_step_def spin_task_def yield_poll_def yield_now_def
        native_compare_exchange_weak_def)
qed

text \<open>Task 1 has the guard, and task 2 yields.\<close>

definition spin_demo :: "(tid \<times> spin_action) list" where
  "spin_demo =
     [(1, SpinPoll \<lparr>cw_data = 1, cw_vtable = 9\<rparr>), (1, SpinRun False),
      (2, SpinPoll \<lparr>cw_data = 2, cw_vtable = 9\<rparr>), (2, SpinRun False)]"

definition spin_after :: "(tid \<times> spin_action) list \<Rightarrow> spin_state" where
  "spin_after es = (case run spin_step es spin_new of Some (Inr s) \<Rightarrow> s | _ \<Rightarrow> spin_new)"

lemma spin_demo_reach: "reach (\<lambda>s. s = spin_new) spin_step (spin_after spin_demo)"
proof -
  have "run spin_step spin_demo spin_new = Some (Inr (spin_after spin_demo))"
    by (simp add: spin_demo_def spin_after_def spin_new_def spin_step_def spin_task_def native_new_def
        native_compare_exchange_weak_def yield_poll_def yield_now_def)
  then show ?thesis by (blast intro: run_reach reach.start)
qed

theorem spin_lock_exclusion_witness:
  "sp_state (spin_after spin_demo) \<and> sp_pc (spin_after spin_demo) 1 = SpinHeld \<and>
   sp_pc (spin_after spin_demo) 2 \<noteq> SpinHeld"
proof -
  have "sp_state (spin_after spin_demo)" "sp_pc (spin_after spin_demo) 1 = SpinHeld"
    by code_simp+
  then show ?thesis using spin_lock_exclusion [OF spin_demo_reach] by fastforce
qed

theorem spin_lock_retries_witness:
  "run spin_step [(2, SpinPoll \<lparr>cw_data = 3, cw_vtable = 9\<rparr>), (2, SpinRun False)] (spin_after spin_demo) =
   Some (Inr ((spin_after spin_demo)\<lparr>sp_pc := (sp_pc (spin_after spin_demo))(2 := SpinYield True),
     sp_wakes := sp_wakes (spin_after spin_demo) @ [\<lparr>cw_data = 3, cw_vtable = 9\<rparr>]\<rparr>))"
proof -
  have a: "sp_pc (spin_after spin_demo) 2 = SpinYield True" and b: "sp_state (spin_after spin_demo)"
    by code_simp+
  show ?thesis using spin_lock_retries [OF spin_demo_reach a] b by simp
qed

end
