(* ===== verification/Wake_Task.thy ===== *)
theory Wake_Task imports Wait_Task begin

text \<open>
  The waking half of the primitives built on a futex: a task that has popped many waiters with
  \<open>pop_many\<close> owns them as a handle list, and \<open>for waiter in list { waiter.wake() }\<close> takes them
  off one by one. Their contracts are lifted to the roles of the tasks, and the loop is given
  as a little machine of its own.
\<close>

section \<open>Handle lists\<close>

text \<open>The two ends of a list fit its elements; the links between are kept by \<open>hands_ok\<close>.\<close>

definition list_ends :: "waiter_list \<Rightarrow> ptr list \<Rightarrow> bool" where
  "list_ends l xs \<longleftrightarrow> wl_head l = hd (xs @ [null]) \<and> wl_tail l = last (null # xs)"

lemma dlist_ends: "dlist h l xs \<Longrightarrow> list_ends l xs"
  by (simp add: dlist_def list_ends_def)

lemma tasks_dlist:
  "tasks_ok f n W g fx R \<Longrightarrow> list_ends l (g_list g t) \<Longrightarrow> dlist (heap W) l (g_list g t)"
  using world_okD(2) [OF tasks_okD(1)] by (auto simp: dlist_def list_ends_def hands_ok_def)

lemma tasks_list: "tasks_ok f n W g fx R \<Longrightarrow> g_list g t = r_list (R t)"
  using tasks_okD(5) by (auto simp: hands_held_def)

lemma tasks_pop_many:
  assumes T: "tasks_ok f n W g fx R" and q: "unat q < n"
    and t: "r_read (R t)" "r_list (R t) = []" and m: "m = taken count (g_queues g f ! unat q)"
  obtains h' fx' l where "queue_pop_many W f count q = Inr (l, put_futex (W\<lparr>heap := h'\<rparr>) f fx')"
    "futex_atom fx' = futex_atom fx" "\<And>v. wkr h' v = wkr (heap W) v"
    "list_ends l (take m (g_queues g f ! unat q))"
    "tasks_ok f n (put_futex (W\<lparr>heap := h'\<rparr>) f fx') (pop_many_ghost t f (unat q) m g) fx'
       (R(t := (R t)\<lparr>r_list := take m (g_queues g f ! unat q)\<rparr>))"
proof -
  let ?k = "unat q"
  define xs where "xs = take m (g_queues g f ! ?k)"
  have k: "?k < length (queues fx)" and len: "length (queues fx) = n"
    using q tasks_okD(3) [OF T] by simp_all
  have rd: "t \<in> rw_readers fx" using tasks_okD(4) [OF T] t by (simp add: guards_held_def)
  note ok = tasks_okD(1) [OF T] and fx = tasks_okD(2) [OF T]
  have nil: "g_list g t = []" using tasks_list [OF T, of t] t by simp
  let ?g = "pop_many_ghost t f ?k m g"
  obtain h' l r where pop: "queue_pop_many W f count q =
       Inr (r, put_futex (W\<lparr>heap := h'\<rparr>) f (fx\<lparr>queues := (queues fx)[?k := l]\<rparr>))"
    "links_only (heap W) h' {v. \<exists>j. g_loc g v = InQueue f j}" "dlist h' r xs"
    "world_ok (put_futex (W\<lparr>heap := h'\<rparr>) f (fx\<lparr>queues := (queues fx)[?k := l]\<rparr>)) ?g"
    unfolding xs_def by (rule queue_pop_many_ok [OF ok fx k rd nil m])
  have at: "g_loc g w = InQueue f ?k" if "w \<in> set xs" for w
    using queues_okD(2) [OF world_okD(4) [OF ok fx] k] that set_take_subset unfolding xs_def by fastforce
  have loc: "g_loc ?g v = (if v \<in> set xs then InList t else g_loc g v)" for v
    by (simp add: pop_many_ghost_def xs_def)
  have hh: "r_hand (R u) = Some v \<longleftrightarrow> g_loc g v = InHand u" for u v
    using tasks_okD(5) [OF T] by (simp add: hands_held_def)
  show ?thesis
  proof (rule that [OF pop(1)])
    show "tasks_ok f n (put_futex (W\<lparr>heap := h'\<rparr>) f (fx\<lparr>queues := (queues fx)[?k := l]\<rparr>)) ?g
        (fx\<lparr>queues := (queues fx)[?k := l]\<rparr>) (R(t := (R t)\<lparr>r_list := take m (g_queues g f ! ?k)\<rparr>))"
    proof (rule tasks_lists [OF T pop(4) _ _ _ _ _ _ pop(2)])
      show "hands_held ?g (R(t := (R t)\<lparr>r_list := take m (g_queues g f ! ?k)\<rparr>))"
        unfolding hands_held_def
      proof (intro conjI allI)
        fix v u show "g_loc ?g v = InHand u \<longleftrightarrow>
            r_hand ((R(t := (R t)\<lparr>r_list := take m (g_queues g f ! ?k)\<rparr>)) u) = Some v"
          using hh [of u v] at [of v] by (auto simp: loc)
      next
        fix u show "g_list ?g u = r_list ((R(t := (R t)\<lparr>r_list := take m (g_queues g f ! ?k)\<rparr>)) u)"
          using tasks_list [OF T, of u] by (simp add: pop_many_ghost_def)
      qed
    qed (use at len in \<open>auto simp: loc listed_def split: if_splits\<close>)
    show "wkr h' v = wkr (heap W) v" for v by (rule wkr_links [OF pop(2)])
    show "list_ends r (take m (g_queues g f ! ?k))"
      using dlist_ends [OF pop(3)] by (simp add: xs_def)
  qed simp
qed

definition into_ghost :: "tid \<Rightarrow> ptr \<Rightarrow> ghost \<Rightarrow> ghost" where
  "into_ghost t w g = g\<lparr>g_loc := (g_loc g)(w := InHand t), g_list := (g_list g)(t := tl (g_list g t))\<rparr>"

lemma tasks_into_Nil:
  assumes "tasks_ok f n W g fx R" "list_ends l (r_list (R t))" "r_list (R t) = []"
  shows "handle_into_iter_next (heap W) l = Inr (heap W, l, None)"
  using into_iter_Nil [of W l g t] tasks_dlist [OF assms(1), of l t] tasks_list [OF assms(1), of t] assms
  by simp

lemma tasks_into_Cons:
  assumes T: "tasks_ok f n W g fx R" and ws: "r_list (R t) = w # ws"
    and l: "list_ends l (w # ws)" and t: "r_hand (R t) = None"
  obtains h' l' where "handle_into_iter_next (heap W) l = Inr (h', l', Some w)"
    "list_ends l' ws" "\<And>v. wkr h' v = wkr (heap W) v"
    "tasks_ok f n (W\<lparr>heap := h'\<rparr>) (into_ghost t w g) fx (R(t := (R t)\<lparr>r_hand := Some w, r_list := ws\<rparr>))"
proof -
  note ok = tasks_okD(1) [OF T] and fx = tasks_okD(2) [OF T]
  have gl: "g_list g t = w # ws" using tasks_list [OF T, of t] ws by simp
  have dl: "dlist (heap W) l (g_list g t)"
    by (rule tasks_dlist [OF T]) (use l gl in simp)
  obtain h' l' where pop: "handle_into_iter_next (heap W) l = Inr (h', l', Some w)" "dlist h' l' ws"
    "links_only (heap W) h' {v. g_loc g v = InList t}"
    "world_ok (W\<lparr>heap := h'\<rparr>) (g\<lparr>g_loc := (g_loc g)(w := InHand t), g_list := (g_list g)(t := ws)\<rparr>)"
    by (rule into_iter_Cons [OF ok dl gl])
  have g': "g\<lparr>g_loc := (g_loc g)(w := InHand t), g_list := (g_list g)(t := ws)\<rparr> = into_ghost t w g"
    by (simp add: into_ghost_def gl)
  have "w \<in> set (g_list g t)" by (simp add: gl)
  then have at: "g_loc g w = InList t"
    using world_okD(2) [OF ok] by (auto simp: hands_ok_def)
  have hh: "r_hand (R u) = Some v \<longleftrightarrow> g_loc g v = InHand u" for u v
    using tasks_okD(5) [OF T] by (simp add: hands_held_def)
  show ?thesis
  proof (rule that [OF pop(1)])
    show "tasks_ok f n (W\<lparr>heap := h'\<rparr>) (into_ghost t w g) fx (R(t := (R t)\<lparr>r_hand := Some w, r_list := ws\<rparr>))"
    proof (rule tasks_lists [OF T pop(4) [unfolded g'] _ _ _ _ _ _ pop(3)])
      show "hands_held (into_ghost t w g) (R(t := (R t)\<lparr>r_hand := Some w, r_list := ws\<rparr>))"
        unfolding hands_held_def
      proof (intro conjI allI)
        fix v u show "g_loc (into_ghost t w g) v = InHand u \<longleftrightarrow>
            r_hand ((R(t := (R t)\<lparr>r_hand := Some w, r_list := ws\<rparr>)) u) = Some v"
          using hh [of u v] hh [of t v] t at by (auto simp: into_ghost_def)
      next
        fix u show "g_list (into_ghost t w g) u = r_list ((R(t := (R t)\<lparr>r_hand := Some w, r_list := ws\<rparr>)) u)"
          using tasks_list [OF T, of u] gl by (simp add: into_ghost_def)
      qed
    qed (use at T in \<open>auto simp: into_ghost_def listed_def tasks_ok_def split: if_splits\<close>)
    show "wkr h' v = wkr (heap W) v" for v by (rule wkr_links [OF pop(3)])
    show "list_ends l' ws" by (rule dlist_ends [OF pop(2)])
  qed
qed

section \<open>Waking a whole list\<close>

text \<open>
  \<open>WakeNext\<close> is the top of the loop: the iterator pops a handle, whose waker slot is swapped;
  \<open>WakeCall\<close> calls the waker. \<open>None\<close> is the end of the loop.
\<close>

datatype wake_pc = WakeNext waiter_list | WakeCall waiter_list copy_waker

definition wake_step :: "world \<Rightarrow> wake_pc \<Rightarrow> (wake_pc option \<times> world) res" where
  "wake_step W p =
     (case p of
        WakeNext l \<Rightarrow>
          bindR (handle_into_iter_next (heap W) l) (\<lambda>(h, l, popped).
            case popped of
              None \<Rightarrow> Inr (None, W\<lparr>heap := h\<rparr>)
            | Some waiter \<Rightarrow> mapR (\<lambda>(k, W). (Some (WakeCall l k), W)) (wake_swap (W\<lparr>heap := h\<rparr>) waiter))
      | WakeCall l k \<Rightarrow> Inr (Some (WakeNext l), wake_call W k))"

fun wake_list :: "wake_pc \<Rightarrow> waiter_list" where
  "wake_list (WakeNext l) = l"
| "wake_list (WakeCall l k) = l"

text \<open>
  A step of the loop ends it with an empty list, or takes the first waiter, whose slot it marks
  as woken, or leaves everything as it is.
\<close>

lemma wake_step_good:
  assumes T: "tasks_ok f n W g fx R" and l: "list_ends (wake_list p) (r_list (R t))"
    and t: "r_hand (R t) = None"
  obtains (stop) W' where "wake_step W p = Inr (None, W')" "r_list (R t) = []" "heap W' = heap W"
      "futexes W' = futexes W"
    | (wake) w ws l' k W' where "r_list (R t) = w # ws" "wake_step W p = Inr (Some (WakeCall l' k), W')"
      "list_ends l' ws" "wkr (heap W') w = WakerDone" "\<And>v. v \<noteq> w \<Longrightarrow> wkr (heap W') v = wkr (heap W) v"
      "futexes W' = futexes W" "wkr (heap W) w = WakerWaiting k" "wakes W' = wakes W"
      "tasks_ok f n W' (wake_ghost w (into_ghost t w g)) fx (R(t := (R t)\<lparr>r_list := ws\<rparr>))"
    | (call) l' W' where "wake_step W p = Inr (Some (WakeNext l'), W')" "list_ends l' (r_list (R t))"
      "heap W' = heap W" "futexes W' = futexes W"
proof (cases p)
  case (WakeCall l' k)
  then show ?thesis using l by (intro call [of l' "wake_call W k"]) (simp_all add: wake_step_def)
next
  case (WakeNext l')
  show ?thesis
  proof (cases "r_list (R t)")
    case Nil
    then show ?thesis
      using tasks_into_Nil [OF T l] WakeNext by (intro stop [of W]) (simp_all add: wake_step_def)
  next
    case (Cons w ws)
    obtain h1 l1 where i: "handle_into_iter_next (heap W) l' = Inr (h1, l1, Some w)"
      "list_ends l1 ws" "\<And>v. wkr h1 v = wkr (heap W) v"
      "tasks_ok f n (W\<lparr>heap := h1\<rparr>) (into_ghost t w g) fx (R(t := (R t)\<lparr>r_hand := Some w, r_list := ws\<rparr>))"
      using tasks_into_Cons [OF T Cons _ t, of l'] l WakeNext Cons by auto
    let ?W = "W\<lparr>heap := put_waker h1 w WakerDone\<rparr>"
    have hand: "r_hand ((R(t := (R t)\<lparr>r_hand := Some w, r_list := ws\<rparr>)) t) = Some w" by simp
    have e: "?W = W\<lparr>heap := h1\<rparr>\<lparr>heap := put_waker (heap (W\<lparr>heap := h1\<rparr>)) w WakerDone\<rparr>" by simp
    obtain k where k: "wake_swap (W\<lparr>heap := h1\<rparr>) w = Inr (k, ?W)"
      "wkr (heap (W\<lparr>heap := h1\<rparr>)) w = WakerWaiting k"
      "tasks_ok f n ?W (wake_ghost w (into_ghost t w g)) fx
        ((R(t := (R t)\<lparr>r_hand := Some w, r_list := ws\<rparr>))(t :=
           ((R(t := (R t)\<lparr>r_hand := Some w, r_list := ws\<rparr>)) t)\<lparr>r_hand := None\<rparr>))"
      by (rule tasks_wake [OF i(4) hand e])
    have role: "(R(t := (R t)\<lparr>r_hand := Some w, r_list := ws\<rparr>))(t :=
           ((R(t := (R t)\<lparr>r_hand := Some w, r_list := ws\<rparr>)) t)\<lparr>r_hand := None\<rparr>) =
        R(t := (R t)\<lparr>r_list := ws\<rparr>)"
      using t by (cases "R t") simp
    have a: "alive h1 w"
      using world_ok_alive [OF tasks_okD(1) [OF i(4)], of w] by (simp add: into_ghost_def)
    show ?thesis
    proof (rule wake [OF Cons _ i(2)])
      show "wake_step W p = Inr (Some (WakeCall l1 k), ?W)"
        by (simp add: wake_step_def WakeNext i(1) k(1))
      show "tasks_ok f n ?W (wake_ghost w (into_ghost t w g)) fx (R(t := (R t)\<lparr>r_list := ws\<rparr>))"
        using k(3) unfolding role .
    qed (use a k(2) i(3) in \<open>simp_all add: put_waker_reads\<close>)
  qed
qed

section \<open>Reading roles\<close>

lemma waiter_stage: "stage_waiter (r_stage (wait_role q p)) = Some (wait_waiter p)"
  by (cases p) (auto simp: drop_simps split: drop_pc.splits)

lemma tasks_in_list: "tasks_ok f n W g fx R \<Longrightarrow> w \<in> set (g_list g u) \<longleftrightarrow> g_loc g w = InList u"
  using world_okD(2) [OF tasks_okD(1)] by (auto simp: hands_ok_def)

lemma tasks_in_hand: "tasks_ok f n W g fx R \<Longrightarrow> r_hand (R u) = Some w \<longleftrightarrow> g_loc g w = InHand u"
  using tasks_okD(5) by (simp add: hands_held_def)

lemma tasks_in_queue:
  "tasks_ok f n W g fx R \<Longrightarrow> k < n \<Longrightarrow> w \<in> set (g_queues g f ! k) \<longleftrightarrow> g_loc g w = InQueue f k"
  using queues_okD(2) [OF world_okD(4)] by (auto simp: tasks_ok_def)

lemma wait_role_list [simp]: "r_list (wait_role q p) = []" "r_hand (wait_role q p) = None"
    "r_read (wait_role q p) = False" "r_borrow (wait_role q p) = False"
  by (cases p; simp add: drop_simps)+

lemma off_role_simps [simp]: "r_list (off_role w) = []" "r_hand (off_role w) = None"
    "r_read (off_role w) = False" "r_borrow (off_role w) = False" "r_stage (off_role w) = Off w"
  by (simp_all add: off_role_def idle_role_def)

lemma idle_role_simps [simp]: "r_list idle_role = []" "r_hand idle_role = None"
    "r_read idle_role = False" "r_borrow idle_role = False" "r_stage idle_role = NoWaiter" "r_write idle_role = False"
  by (simp_all add: idle_role_def)

lemma off_role_NoWaiter [simp]: "(off_role w)\<lparr>r_stage := NoWaiter\<rparr> = idle_role"
  by (simp add: off_role_def idle_role_def)

text \<open>What the moves of a waiting task do to the lists.\<close>

lemma wait_moves_lists:
  assumes "wait_moves f q w R W g fx W' g' fx'"
  shows "g_list g' = g_list g" "wkr (heap W') v = WakerDone \<longleftrightarrow> wkr (heap W) v = WakerDone"
    "fa_atom (futex_atom fx') = fa_atom (futex_atom fx)"
  using assms by (auto simp: wait_moves_def enqueue_ghost_def cancel_ghost_def)

lemma wait_moves_empty:
  assumes "wait_moves f q w R W g fx W' g' fx'" "tasks_ok f n W g fx R" "k < n"
    and "g_inbox g f = []" "g_queues g f ! k = []"
  shows "g_inbox g' f = [] \<and> g_queues g' f ! k = []"
proof -
  have "length (g_queues g f) = n" by (rule enqueue_lists(3) [OF assms(2)])
  then show ?thesis
    using assms by (cases "k = q") (auto simp: wait_moves_def enqueue_ghost_def cancel_ghost_def)
qed

section \<open>Blocking\<close>

text \<open>
  The only steps that block take a lock of the futex, and they block only while some task holds
  a guard. The futures of \<open>wait_advance\<close> block only on the write lock.
\<close>

lemma tasks_unblocked:
  assumes T: "tasks_ok f n W g fx R"
  shows "(\<exists>u. r_write (R u)) \<or> (\<exists>u. r_read (R u)) \<or> (\<forall>t. futex_lock t W f \<noteq> None \<and> write_lock t W f \<noteq> None)"
  using tasks_okD(2,4) [OF T] by (auto simp: guards_held_def futex_lock_def write_lock_def)

lemma wait_write_runs:
  "r_write (wait_role q p) \<Longrightarrow> wait_advance t (Step b) W p \<noteq> None"
  by (cases p) (auto simp: wait_advance_def drop_simps drop_step_def split: drop_pc.splits)

definition mid_wait :: "wait_task \<Rightarrow> bool" where
  "mid_wait p \<longleftrightarrow> (case p of Suspended _ \<Rightarrow> False | _ \<Rightarrow> True)"

lemma wait_mid_runs:
  "mid_wait p \<Longrightarrow> wait_task_ok f h p \<Longrightarrow> write_lock t W f \<noteq> None \<Longrightarrow> wait_advance t (Step b) W p \<noteq> None"
  by (cases p) (auto simp: wait_advance_def mid_wait_def drop_step_def drop_ok_def split: drop_pc.splits)

end
