(* ===== verification/Once_Cell.thy ===== *)
theory Once_Cell imports Wake_Task begin

text \<open>
  \<open>src/lazy.rs\<close>: a cell that is initialised by the first task that finds it empty, while the
  others wait. The atom of its futex says how far the initialisation is. The value is of any
  type; the future that computes it is the environment's.
\<close>

section \<open>The atom\<close>

text \<open>\<open>CellAtom\<close> is \<open>repr(usize)\<close>: a transmute from another value is undefined behaviour.\<close>

datatype cell_atom = CellUninit | CellActive | CellPoison | CellInit

definition cell_atom_encode :: "cell_atom \<Rightarrow> usize" where
  "cell_atom_encode val =
     (case val of CellUninit \<Rightarrow> 0 | CellActive \<Rightarrow> 1 | CellPoison \<Rightarrow> 2 | CellInit \<Rightarrow> 3)"

definition cell_atom_decode :: "usize \<Rightarrow> cell_atom res" where
  "cell_atom_decode val =
     (if val = 0 then Inr CellUninit else if val = 1 then Inr CellActive
      else if val = 2 then Inr CellPoison else if val = 3 then Inr CellInit
      else Inl Bad_Transmute)"

lemma cell_atom_decode_encode [simp]: "cell_atom_decode (cell_atom_encode val) = Inr val"
  by (cases val) (simp_all add: cell_atom_encode_def cell_atom_decode_def)

interpretation cell_atom_pack: packable cell_atom_encode "\<lambda>r. projr (cell_atom_decode r)" "\<lambda>_. True"
  by unfold_locales simp

section \<open>Finishing\<close>

text \<open>
  \<open>finish\<close> stores the final state, and wakes every waiter while it holds the read guard and
  the borrow of the queues.
\<close>

datatype finish_pc =
  FinLock
| FinBorrow
| FinLoad
| FinLoop raw_futex_atom
| FinWake wake_pc
| FinUnborrow
| FinUnlock
| FinDone

definition finish_step ::
  "bool \<Rightarrow> tid \<Rightarrow> ptr \<Rightarrow> cell_atom \<Rightarrow> world \<Rightarrow> finish_pc \<Rightarrow> (finish_pc \<times> world) res option" where
  "finish_step spurious t f new W u =
     (case u of
        FinLock \<Rightarrow> map_option (mapR (Pair FinBorrow)) (futex_lock t W f)
      | FinBorrow \<Rightarrow> Some (mapR (Pair FinLoad) (queue_lock W f))
      | FinLoad \<Rightarrow> Some (bindR (futex_load RelaxedT W f) (\<lambda>atom. Inr (FinLoop atom, W)))
      | FinLoop atom \<Rightarrow> Some (
          bindR (cell_atom_decode (fa_atom atom)) (\<lambda>a.
          bindR (ensure (a = CellActive)) (\<lambda>_.
          bindR (cmpxchg_enqueue_weak spurious AcqRelT RelaxedT W f atom (cell_atom_encode new))
            (\<lambda>(ok, atom, W).
              if ok then
                bindR (queue_pop_many W f usize_MAX 0) (\<lambda>(list, W). Inr (FinWake (WakeNext list), W))
              else Inr (FinLoop atom, W)))))
      | FinWake p \<Rightarrow> Some (
          bindR (wake_step W p) (\<lambda>(r, W).
            Inr (case r of Some p \<Rightarrow> FinWake p | None \<Rightarrow> FinUnborrow, W)))
      | FinUnborrow \<Rightarrow> Some (mapR (Pair FinUnlock) (queue_unlock W f))
      | FinUnlock \<Rightarrow> Some (mapR (Pair FinDone) (futex_unlock t W f))
      | FinDone \<Rightarrow> None)"

section \<open>The cell\<close>

text \<open>
  A task is \<open>CIdle\<close>; at the top of the loop of \<open>get_or_init\<close> (\<open>CTop\<close>, with its waiter, whether
  that waiter has been woken, its local \<open>atom\<close> and the waker of the poll); awaiting the future
  \<open>init\<close> (\<open>CInit\<close>); in \<open>finish\<close> (\<open>CFinish\<close>, with the new state); awaiting its waiter (\<open>CWait\<close>);
  it has the reference (\<open>CDone\<close>, with the value it refers to), or has panicked.
\<close>

datatype 'v once_pc =
  CIdle
| CTop bool ptr raw_futex_atom copy_waker
| CInit ptr
| CFinish ptr cell_atom finish_pc
| CWait wait_task
| CDone 'v
| CPanicked

text \<open>
  The environment polls (giving the address where the waiter is pinned), drops the future, lets
  the task take a step, or lets \<open>init\<close> return a value. A drop during \<open>init\<close> also stands for a
  panic of \<open>init\<close>: both run \<open>OnDrop\<close>.
\<close>

datatype 'v once_act = CPoll copy_waker ptr | CDrop | CRun bool | CValue 'v

record 'v once_state =
  oc_world :: world
  oc_content :: "'v option"
  oc_pc :: "tid \<Rightarrow> 'v once_pc"

definition once_new :: "ptr \<Rightarrow> 'v once_state" where
  "once_new f =
     \<lparr>oc_world = \<lparr>heap = Map.empty, futexes = [f \<mapsto> futex_new (cell_atom_encode CellUninit) 1],
                  clones = [], wakes = [], drops = []\<rparr>,
      oc_content = None, oc_pc = (\<lambda>_. CIdle)\<rparr>"

text \<open>The read of uninitialised memory is undefined behaviour.\<close>

definition assume_init_ref :: "'v option \<Rightarrow> 'v res" where
  "assume_init_ref content = (case content of Some v \<Rightarrow> Inr v | None \<Rightarrow> Inl Bad_Pointer)"

definition once_get :: "ptr \<Rightarrow> world \<Rightarrow> 'v option \<Rightarrow> 'v option res" where
  "once_get f W content =
     bindR (futex_load AcquireT W f) (\<lambda>atom.
     bindR (cell_atom_decode (fa_atom atom)) (\<lambda>a.
       case a of
         CellUninit \<Rightarrow> Inr None
       | CellActive \<Rightarrow> Inr None
       | CellPoison \<Rightarrow> Inl Panic
       | CellInit \<Rightarrow> mapR Some (assume_init_ref content)))"

definition once_start :: "ptr \<Rightarrow> copy_waker \<Rightarrow> ptr \<Rightarrow> world \<Rightarrow> ('v once_pc \<times> world) res option" where
  "once_start f cx addr W =
     (case new_waiter W f 0 0 addr of
        None \<Rightarrow> None
      | Some W \<Rightarrow> Some (bindR (futex_load AcquireT W f) (\<lambda>atom. Inr (CTop False addr atom cx, W))))"

text \<open>
  One iteration of the loop of \<open>get_or_init\<close>. Returning and panicking drop the waiter. The
  compare-exchange that claims the cell has the failure ordering \<open>Acquire\<close> and the success ordering
  \<open>Relaxed\<close>, which the atomics of the standard library reject with a panic (\<open>cas_orders\<close>). What
  those in use \<open>accepts\<close> is an argument, since the crate can be built with the atomics of loom.
\<close>

definition once_iter ::
  "(ordering \<Rightarrow> ordering \<Rightarrow> bool) \<Rightarrow> bool \<Rightarrow> ptr \<Rightarrow> world \<Rightarrow> 'v option \<Rightarrow> bool \<Rightarrow> ptr \<Rightarrow> raw_futex_atom \<Rightarrow> copy_waker \<Rightarrow>
     ('v once_pc \<times> world) res" where
  "once_iter accepts spurious f W content woken w atom cx =
     bindR (cell_atom_decode (fa_atom atom)) (\<lambda>a.
       case a of
         CellUninit \<Rightarrow>
           bindR (futex_cmpxchg_weak_on accepts spurious RelaxedT AcquireT W f atom (cell_atom_encode CellActive))
             (\<lambda>(ok, atom, W). Inr (if ok then CInit w else CTop woken w atom cx, W))
       | CellActive \<Rightarrow>
           bindR (wait_begin spurious f W w atom (cell_atom_encode CellActive) cx) (\<lambda>(r, W).
             Inr (case r of Inl atom \<Rightarrow> CTop woken w atom cx | Inr p \<Rightarrow> CWait p, W))
       | CellPoison \<Rightarrow> mapR (Pair CPanicked) (waiter_drop W w)
       | CellInit \<Rightarrow> bindR (assume_init_ref content) (\<lambda>v. mapR (Pair (CDone v)) (waiter_drop W w)))"

text \<open>What \<open>get_or_init\<close> does after a step of its wait; its closures do nothing.\<close>

definition once_waited :: "ptr \<Rightarrow> wait_out \<times> world \<Rightarrow> ('v once_pc \<times> world) res" where
  "once_waited f = (\<lambda>(out, W).
     case out of
       Still p \<Rightarrow> Inr (CWait p, W)
     | Returned woken wait cx \<Rightarrow>
         if woken then bindR (futex_load AcquireT W f) (\<lambda>atom. Inr (CTop True (wf_waiter wait) atom cx, W))
         else Inr (CTop False (wf_waiter wait) (wf_current wait) cx, W)
     | Cancelled c w \<Rightarrow> mapR (Pair CIdle) (wait_finish W c w))"

text \<open>
  After \<open>finish\<close>: with the state \<open>Init\<close> the task returns the reference, with \<open>Poison\<close> it is
  being dropped.
\<close>

definition once_finished :: "'v option \<Rightarrow> world \<Rightarrow> ptr \<Rightarrow> cell_atom \<Rightarrow> ('v once_pc \<times> world) res" where
  "once_finished content W w new =
     (if new = CellInit
      then bindR (assume_init_ref content) (\<lambda>v. mapR (Pair (CDone v)) (waiter_drop W w))
      else mapR (Pair CIdle) (waiter_drop W w))"

definition once_task ::
  "(ordering \<Rightarrow> ordering \<Rightarrow> bool) \<Rightarrow> ptr \<Rightarrow> tid \<Rightarrow> 'v once_act \<Rightarrow> world \<Rightarrow> 'v option \<Rightarrow> 'v once_pc \<Rightarrow>
     ('v once_pc \<times> world \<times> 'v option) res option" where
  "once_task accepts f t act W content p =
     (case p of
        CIdle \<Rightarrow> (case act of
          CPoll cx addr \<Rightarrow> map_option (mapR (\<lambda>(p, W). (p, W, content))) (once_start f cx addr W)
        | _ \<Rightarrow> None)
      | CTop woken w atom cx \<Rightarrow> (case act of
          CRun spurious \<Rightarrow> Some (mapR (\<lambda>(p, W). (p, W, content)) (once_iter accepts spurious f W content woken w atom cx))
        | _ \<Rightarrow> None)
      | CInit w \<Rightarrow> (case act of
          CValue v \<Rightarrow> Some (Inr (CFinish w CellInit FinLock, W, Some v))
        | CDrop \<Rightarrow> Some (Inr (CFinish w CellPoison FinLock, W, content))
        | _ \<Rightarrow> None)
      | CFinish w new u \<Rightarrow> (case act of
          CRun spurious \<Rightarrow>
            if u = FinDone then Some (mapR (\<lambda>(p, W). (p, W, content)) (once_finished content W w new))
            else map_option (mapR (\<lambda>(u, W). (CFinish w new u, W, content))) (finish_step spurious t f new W u)
        | _ \<Rightarrow> None)
      | CWait p \<Rightarrow> map_option (\<lambda>r. mapR (\<lambda>(p, W). (p, W, content)) (bindR r (once_waited f)))
          (case act of
             CPoll cx _ \<Rightarrow> wait_advance t (Repoll cx) W p
           | CDrop \<Rightarrow> wait_advance t Abandon W p
           | CRun spurious \<Rightarrow> wait_advance t (Step spurious) W p
           | CValue _ \<Rightarrow> None)
      | _ \<Rightarrow> None)"

definition once_step :: "(ordering \<Rightarrow> ordering \<Rightarrow> bool) \<Rightarrow> ptr \<Rightarrow> (tid \<times> 'v once_act, 'v once_state) machine" where
  "once_step accepts f = (\<lambda>(t, act) s.
     map_option (mapR (\<lambda>(p, W, content). s\<lparr>oc_world := W, oc_content := content, oc_pc := (oc_pc s)(t := p)\<rparr>))
       (once_task accepts f t act (oc_world s) (oc_content s) (oc_pc s t)))"

end
