(* ===== verification/Once_Inv.thy ===== *)
theory Once_Inv imports Once_Cell begin

text \<open>
  The invariant of \<open>src/lazy.rs\<close> and its preservation. The atom is \<open>Active\<close> exactly while one
  task runs \<open>init\<close> or is about to store the final state; a final state never changes; waiters
  are on the lists only while it is \<open>Active\<close>, and in the hands of the finishing task after.
\<close>

section \<open>Roles\<close>

definition finish_role :: "ptr list \<Rightarrow> finish_pc \<Rightarrow> role" where
  "finish_role xs u = idle_role\<lparr>
     r_read := (case u of FinLock \<Rightarrow> False | FinDone \<Rightarrow> False | _ \<Rightarrow> True),
     r_borrow := (case u of FinLoad \<Rightarrow> True | FinLoop _ \<Rightarrow> True | FinWake _ \<Rightarrow> True | FinUnborrow \<Rightarrow> True
                  | _ \<Rightarrow> False),
     r_list := (case u of FinWake _ \<Rightarrow> xs | _ \<Rightarrow> [])\<rparr>"

fun once_role :: "ptr list \<Rightarrow> 'v once_pc \<Rightarrow> role" where
  "once_role xs (CTop woken w a cx) =
     (if woken then off_role w else idle_role\<lparr>r_stage := Fresh w 0\<rparr>)"
| "once_role xs (CInit w) = idle_role\<lparr>r_stage := Fresh w 0\<rparr>"
| "once_role xs (CFinish w new u) = (finish_role xs u)\<lparr>r_stage := Fresh w 0\<rparr>"
| "once_role xs (CWait p) = wait_role 0 p"
| "once_role xs _ = idle_role"

definition early :: "finish_pc \<Rightarrow> bool" where
  "early u = (case u of FinLock \<Rightarrow> True | FinBorrow \<Rightarrow> True | FinLoad \<Rightarrow> True | FinLoop _ \<Rightarrow> True | _ \<Rightarrow> False)"

fun active :: "'v once_pc \<Rightarrow> bool" where
  "active (CInit w) = True"
| "active (CFinish w new u) = early u"
| "active _ = False"

definition final :: "cell_atom \<Rightarrow> bool" where
  "final a \<longleftrightarrow> a = CellPoison \<or> a = CellInit"

section \<open>The invariant\<close>

text \<open>A snapshot of the atom that is final is the present one.\<close>

definition snap_ok :: "cell_atom \<Rightarrow> raw_futex_atom \<Rightarrow> bool" where
  "snap_ok a s \<longleftrightarrow> (\<exists>c. fa_atom s = cell_atom_encode c \<and> (final c \<longrightarrow> a = c))"

fun once_pc_ok :: "ptr \<Rightarrow> heap \<Rightarrow> cell_atom \<Rightarrow> 'v option \<Rightarrow> ptr list \<Rightarrow> 'v once_pc \<Rightarrow> bool" where
  "once_pc_ok f h a c xs (CTop woken w s cx) =
     (snap_ok a s \<and> (woken \<longrightarrow> final a \<and> fa_atom s = cell_atom_encode a))"
| "once_pc_ok f h a c xs (CFinish w new u) =
     (final new \<and> (new = CellInit \<longrightarrow> c \<noteq> None) \<and> (\<not> early u \<longrightarrow> a = new) \<and>
      (\<forall>s. u = FinLoop s \<longrightarrow> fa_atom s = cell_atom_encode CellActive) \<and>
      (\<forall>p. u = FinWake p \<longrightarrow> list_ends (wake_list p) xs))"
| "once_pc_ok f h a c xs (CWait p) =
     (wait_task_ok f h p \<and> (wkr h (wait_waiter p) = WakerDone \<longrightarrow> final a))"
| "once_pc_ok f h a c xs (CDone v) = (a = CellInit \<and> c = Some v)"
| "once_pc_ok f h a c xs _ = True"

definition once_ok ::
  "ptr \<Rightarrow> world \<Rightarrow> 'v option \<Rightarrow> (tid \<Rightarrow> 'v once_pc) \<Rightarrow> ghost \<Rightarrow> raw_futex \<Rightarrow> cell_atom \<Rightarrow> tid option \<Rightarrow> bool" where
  "once_ok f W c pc g fx a own \<longleftrightarrow>
     tasks_ok f 1 W g fx (\<lambda>t. once_role (g_list g t) (pc t)) \<and>
     (\<forall>t. once_pc_ok f (heap W) a c (g_list g t) (pc t)) \<and>
     fa_atom (futex_atom fx) = cell_atom_encode a \<and>
     (\<forall>t. active (pc t) \<longleftrightarrow> own = Some t) \<and> (a = CellActive \<longleftrightarrow> own \<noteq> None) \<and>
     (a \<noteq> CellActive \<longrightarrow> g_inbox g f = [] \<and> g_queues g f ! 0 = []) \<and>
     (a = CellInit \<longrightarrow> c \<noteq> None)"

definition once_inv :: "ptr \<Rightarrow> 'v once_state \<Rightarrow> bool" where
  "once_inv f s \<longleftrightarrow> (\<exists>g fx a own. once_ok f (oc_world s) (oc_content s) (oc_pc s) g fx a own)"

lemma once_okD:
  assumes "once_ok f W c pc g fx a own"
  shows "tasks_ok f 1 W g fx (\<lambda>t. once_role (g_list g t) (pc t))"
    "once_pc_ok f (heap W) a c (g_list g t) (pc t)"
    "fa_atom (futex_atom fx) = cell_atom_encode a"
    "active (pc t) \<longleftrightarrow> own = Some t" "a = CellActive \<longleftrightarrow> own \<noteq> None"
    "a \<noteq> CellActive \<Longrightarrow> g_inbox g f = []" "a \<noteq> CellActive \<Longrightarrow> g_queues g f ! 0 = []"
    "a = CellInit \<Longrightarrow> c \<noteq> None"
  using assms by (auto simp: once_ok_def)

lemma cell_atom_encode_eq [simp]: "cell_atom_encode x = cell_atom_encode y \<longleftrightarrow> x = y"
  using cell_atom_pack.encode_inject by simp

lemma once_list:
  assumes "tasks_ok f 1 W g fx (\<lambda>t. once_role (g_list g t) (pc t))"
    "\<And>w new p. pc t \<noteq> CFinish w new (FinWake p)"
  shows "g_list g t = []"
  using tasks_list [OF assms(1), of t] assms(2)
  by (cases "pc t") (auto simp: finish_role_def split: if_splits finish_pc.splits)

text \<open>What a step of \<open>t\<close> must leave alone of the other tasks.\<close>

lemma once_pc_ok_step:
  assumes p: "once_pc_ok f h a c xs p" and act: "active p \<Longrightarrow> a = CellActive"
    and a: "final a \<Longrightarrow> a' = a \<and> c' = c" "c' = None \<Longrightarrow> c = None"
    and w: "\<And>w. wkr h w = WakerDone \<Longrightarrow> stage_waiter (r_stage (once_role xs p)) = Some w \<Longrightarrow> wkr h' w = WakerDone"
      "\<And>w. wkr h' w = WakerDone \<Longrightarrow> stage_waiter (r_stage (once_role xs p)) = Some w \<Longrightarrow> wkr h w = WakerDone \<or> final a'"
  shows "once_pc_ok f h' a' c' xs p"
proof (cases p)
  case (CTop woken w s cx)
  with p a show ?thesis by (auto simp: snap_ok_def)
next
  case (CFinish w new u)
  with p a act show ?thesis by (auto simp: final_def)
next
  case (CWait q)
  have s: "stage_waiter (r_stage (once_role xs p)) = Some (wait_waiter q)"
    by (cases q) (auto simp: CWait drop_simps split: drop_pc.splits)
  have "wait_task_ok f h' q" using p CWait w(1) s by (cases q) auto
  with p CWait w(2) [OF _ s] a show ?thesis by auto
next
  case (CDone v)
  with p a show ?thesis by (auto simp: final_def)
qed auto

lemma once_roles:
  "(\<And>u. u \<noteq> t \<Longrightarrow> g_list g' u = g_list g u) \<Longrightarrow>
     (\<lambda>u. once_role (g_list g' u) ((pc(t := p)) u)) =
     (\<lambda>u. once_role (g_list g u) (pc u))(t := once_role (g_list g' t) p)"
  by auto

text \<open>The general step: the mover's new place, and the state of the cell before and after.\<close>

lemma once_ok_step:
  assumes ok: "once_ok f W c pc g fx a own"
    and T: "tasks_ok f 1 W' g' fx' ((\<lambda>u. once_role (g_list g u) (pc u))(t := once_role (g_list g' t) p))"
    and lists: "\<And>u. u \<noteq> t \<Longrightarrow> g_list g' u = g_list g u"
    and wkr: "\<And>u w. u \<noteq> t \<Longrightarrow> stage_waiter (r_stage (once_role (g_list g u) (pc u))) = Some w \<Longrightarrow>
        (wkr (heap W') w = WakerDone \<longleftrightarrow> wkr (heap W) w = WakerDone) \<or>
        wkr (heap W') w = WakerDone \<and> final a'"
    and p: "once_pc_ok f (heap W') a' c' (g_list g' t) p"
    and a: "final a \<Longrightarrow> a' = a \<and> c' = c" "c' = None \<Longrightarrow> c = None"
    and atom: "fa_atom (futex_atom fx') = cell_atom_encode a'"
    and own: "active p \<longleftrightarrow> own' = Some t" "\<And>u. u \<noteq> t \<Longrightarrow> own' = Some u \<longleftrightarrow> own = Some u"
      "a' = CellActive \<longleftrightarrow> own' \<noteq> None"
    and empty: "a' \<noteq> CellActive \<Longrightarrow> g_inbox g' f = [] \<and> g_queues g' f ! 0 = []"
    and init: "a' = CellInit \<Longrightarrow> c' \<noteq> None"
  shows "once_ok f W' c' (pc(t := p)) g' fx' a' own'"
  unfolding once_ok_def
proof (intro conjI allI)
  show "tasks_ok f 1 W' g' fx' (\<lambda>u. once_role (g_list g' u) ((pc(t := p)) u))"
    using T by (subst once_roles [OF lists])
  fix u
  show "once_pc_ok f (heap W') a' c' (g_list g' u) ((pc(t := p)) u)"
  proof (cases "u = t")
    case False
    have "once_pc_ok f (heap W') a' c' (g_list g u) (pc u)"
    proof (rule once_pc_ok_step [OF once_okD(2) [OF ok] _ a])
      show "active (pc u) \<Longrightarrow> a = CellActive" using once_okD(4,5) [OF ok] by auto
    qed (use wkr [OF False] in blast)+
    with False lists show ?thesis by simp
  qed (use p in simp)
  show "active ((pc(t := p)) u) \<longleftrightarrow> own' = Some u"
    using own once_okD(4) [OF ok, of u] by simp
qed (use atom own(3) empty init in \<open>simp_all\<close>)

text \<open>Steps that change neither the cell nor the lists.\<close>

lemma once_ok_quiet:
  assumes ok: "once_ok f W c pc g fx a own"
    and T: "tasks_ok f 1 W' g fx' ((\<lambda>u. once_role (g_list g u) (pc u))(t := once_role (g_list g t) p))"
    and fx': "fa_atom (futex_atom fx') = fa_atom (futex_atom fx)"
    and wkr: "\<And>w. stage_waiter (r_stage (once_role (g_list g t) (pc t))) \<noteq> Some w \<Longrightarrow>
        (wkr (heap W') w = WakerDone \<longleftrightarrow> wkr (heap W) w = WakerDone)"
    and p: "once_pc_ok f (heap W') a c (g_list g t) p" "active p \<longleftrightarrow> active (pc t)"
  shows "once_ok f W' c (pc(t := p)) g fx' a own"
proof (rule once_ok_step [OF ok T])
  fix u w assume "u \<noteq> t" "stage_waiter (r_stage (once_role (g_list g u) (pc u))) = Some w"
  then have "stage_waiter (r_stage (once_role (g_list g t) (pc t))) \<noteq> Some w"
    using tasks_sole [OF once_okD(1) [OF ok], of u w t] by auto
  then show "(wkr (heap W') w = WakerDone \<longleftrightarrow> wkr (heap W) w = WakerDone) \<or>
      wkr (heap W') w = WakerDone \<and> final a" using wkr by blast
qed (use ok p fx' in \<open>auto simp: once_ok_def\<close>)

definition once_good ::
  "ptr \<Rightarrow> tid \<Rightarrow> (tid \<Rightarrow> 'v once_pc) \<Rightarrow> cell_atom \<Rightarrow> 'v option \<Rightarrow> ('v once_pc \<times> world \<times> 'v option) res \<Rightarrow> bool" where
  "once_good f t pc a c r \<longleftrightarrow> (\<exists>p W' c' g' fx' a' own'. r = Inr (p, W', c') \<and>
     once_ok f W' c' (pc(t := p)) g' fx' a' own' \<and> (final a \<longrightarrow> a' = a \<and> c' = c))"

lemma once_goodI:
  "once_ok f W' c' (pc(t := p)) g' fx' a' own' \<Longrightarrow> (final a \<Longrightarrow> a' = a \<and> c' = c) \<Longrightarrow>
     once_good f t pc a c (Inr (p, W', c'))"
  unfolding once_good_def by blast

lemma once_quiet:
  assumes ok: "once_ok f W c pc g fx a own"
    and T: "tasks_ok f 1 W' g fx' ((\<lambda>u. once_role (g_list g u) (pc u))(t := once_role (g_list g t) p))"
    and fx': "fa_atom (futex_atom fx') = fa_atom (futex_atom fx)"
    and wkr: "\<And>w. stage_waiter (r_stage (once_role (g_list g t) (pc t))) \<noteq> Some w \<Longrightarrow>
        (wkr (heap W') w = WakerDone \<longleftrightarrow> wkr (heap W) w = WakerDone)"
    and p: "once_pc_ok f (heap W') a c (g_list g t) p" "active p \<longleftrightarrow> active (pc t)"
  shows "once_good f t pc a c (Inr (p, W', c))"
  by (rule once_goodI [OF once_ok_quiet [OF ok T fx' wkr p]]) simp_all

section \<open>Starting\<close>

lemma once_start_good:
  assumes ok: "once_ok f W c pc g fx a own" and t: "pc t = CIdle" and start: "once_start f cx addr W = Some r"
  shows "once_good f t pc a c (mapR (\<lambda>(p, W). (p, W, c)) r)"
proof -
  note T = once_okD(1) [OF ok]
  let ?p = "CTop False addr (futex_atom fx) cx"
  obtain W' where new: "new_waiter W f 0 0 addr = Some W'"
    using start by (auto simp: once_start_def split: option.splits)
  have T': "tasks_ok f 1 W' g fx ((\<lambda>v. once_role (g_list g v) (pc v))(t := once_role (g_list g t) ?p))"
    using tasks_create(1) [OF T _ new, of t] by (simp add: t)
  have h: "heap W' = (heap W)(addr \<mapsto> waiter_new f 0 0)"
    using tasks_create(2) [OF T _ new, of t] by (simp add: t)
  have a: "heap W addr = None"
    using tasks_create(3) [OF T _ new, of t] by (simp add: t)
  have load: "futex_load AcquireT W' f = Inr (futex_atom fx)"
    using futex_load_eq [OF tasks_okD(2) [OF T']] by simp
  have r: "r = Inr (?p, W')"
    using start new load by (simp add: once_start_def)
  have "once_ok f W' c (pc(t := ?p)) g fx a own"
  proof (rule once_ok_step [OF ok T'])
    fix u w assume u: "u \<noteq> t" "stage_waiter (r_stage (once_role (g_list g u) (pc u))) = Some w"
    then have "w \<noteq> addr"
      using stage_alive [OF tasks_stage [OF T refl], of u w] a by (auto simp: alive_def)
    then show "(wkr (heap W') w = WakerDone \<longleftrightarrow> wkr (heap W) w = WakerDone) \<or>
      wkr (heap W') w = WakerDone \<and> final a" by (simp add: h wkr_def)
  qed (use ok once_okD(4) [OF ok, of t] t in \<open>auto simp: once_ok_def snap_ok_def\<close>)
  then have "once_good f t pc a c (Inr (?p, W', c))"
    by (rule once_goodI) simp
  then show ?thesis by (simp add: r)
qed

section \<open>The loop of get_or_init\<close>

lemma once_freed:
  assumes ok: "once_ok f W c pc g fx a own"
    and st: "r_stage (once_role (g_list g t) (pc t)) = Fresh w 0 \<or> r_stage (once_role (g_list g t) (pc t)) = Off w"
    and t: "once_role (g_list g t) (pc t) = idle_role\<lparr>r_stage := r_stage (once_role (g_list g t) (pc t))\<rparr>"
    and p: "once_role (g_list g t) p = idle_role" "once_pc_ok f h a c (g_list g t) p"
      "active p \<longleftrightarrow> active (pc t)" "\<not> (\<exists>q. p = CWait q)"
  shows "once_good f t pc a c (mapR (\<lambda>W. (p, W, c)) (waiter_drop W w))"
proof -
  note T = once_okD(1) [OF ok]
  have d: "waiter_drop W w = Inr (freed W w)"
    "tasks_ok f 1 (freed W w) g fx ((\<lambda>v. once_role (g_list g v) (pc v))(t :=
       (once_role (g_list g t) (pc t))\<lparr>r_stage := NoWaiter\<rparr>))"
    using tasks_destroy [OF T, of t w 0] st by auto
  have role: "(once_role (g_list g t) (pc t))\<lparr>r_stage := NoWaiter\<rparr> = once_role (g_list g t) p"
    by (subst t) (simp add: p(1) idle_role_def)
  have pc: "once_pc_ok f (heap (freed W w)) a c (g_list g t) p"
    using p(2,4) by (cases p) auto
  have "once_good f t pc a c (Inr (p, freed W w, c))"
    by (rule once_quiet [OF ok d(2) [unfolded role]]) (use st pc p(3) in \<open>auto simp: wkr_def\<close>)
  then show ?thesis by (simp add: d(1))
qed

lemma once_iter_good:
  assumes ok: "once_ok f W c pc g fx a own" and t: "pc t = CTop woken w s cx"
  shows "once_good f t pc a c (mapR (\<lambda>(p, W). (p, W, c)) (once_iter cas_orders_164 spurious f W c woken w s cx))"
proof -
  note T = once_okD(1) [OF ok]
  have snap: "snap_ok a s" and wk: "woken \<Longrightarrow> final a \<and> fa_atom s = cell_atom_encode a"
    using once_okD(2) [OF ok, of t] t by auto
  obtain b where b: "fa_atom s = cell_atom_encode b" "final b \<Longrightarrow> a = b"
    using snap by (auto simp: snap_ok_def)
  have now: "snap_ok a (futex_atom fx)"
    using once_okD(3) [OF ok] by (auto simp: snap_ok_def)
  have again: "once_good f t pc a c (Inr (CTop False w (futex_atom fx) cx, W1, c))"
    if "tasks_ok f 1 W1 g fx (\<lambda>v. once_role (g_list g v) (pc v))" "\<not> woken"
      "\<forall>v. wkr (heap W1) v = WakerDone \<longleftrightarrow> wkr (heap W) v = WakerDone" for W1
    by (rule once_quiet [OF ok same_role [OF that(1)]]) (use t that now in auto)
  show ?thesis
  proof (cases b)
    case CellUninit
    have nw: "\<not> woken" using wk b CellUninit by (auto simp: final_def)
    let ?fx = "fx\<lparr>futex_atom := \<lparr>fa_atom = cell_atom_encode CellActive, fa_inbox = fa_inbox s\<rparr>\<rparr>"
    have r: "once_iter cas_orders_164 spurious f W c woken w s cx = Inr
        (if futex_atom fx = s \<and> \<not> spurious then (CInit w, put_futex W f ?fx)
         else (CTop False w (futex_atom fx) cx, W))"
      using b CellUninit nw futex_cmpxchg_weak_on_eq [OF tasks_okD(2) [OF T], of cas_orders_164]
      by (auto simp: once_iter_def)
    show ?thesis
    proof (cases "futex_atom fx = s \<and> \<not> spurious")
      case True
      then have a: "a = CellUninit" using once_okD(3) [OF ok] b CellUninit by auto
      have own: "own = None" using once_okD(5) [OF ok] a by auto
      have T': "tasks_ok f 1 (put_futex W f ?fx) g ?fx
          ((\<lambda>v. once_role (g_list g v) (pc v))(t := once_role (g_list g t) (CInit w)))"
        by (rule same_role [OF tasks_put_atom [OF T]]) (use True t nw in auto)
      have "once_ok f (put_futex W f ?fx) c (pc(t := CInit w)) g ?fx CellActive (Some t)"
        by (rule once_ok_step [OF ok T']) (use own a in \<open>auto simp: final_def\<close>)
      then show ?thesis unfolding r using True a by (auto simp: final_def intro: once_goodI)
    next
      case False
      then show ?thesis unfolding r using again [OF T nw] by auto
    qed
  next
    case CellActive
    have nw: "\<not> woken" using wk b CellActive by (auto simp: final_def)
    have st: "r_stage (once_role (g_list g t) (pc t)) = Fresh w 0" using t nw by simp
    let ?fx = "fx\<lparr>futex_atom := \<lparr>fa_atom = cell_atom_encode CellActive, fa_inbox = w\<rparr>\<rparr>"
    obtain W1 wait where p: "wait_begin spurious f W w s (cell_atom_encode CellActive) cx = Inr
        (if futex_atom fx = s \<and> \<not> spurious then (Inr (Suspended wait), put_futex W1 f ?fx)
         else (Inl (futex_atom fx), W1))"
      "wait_ok f wait" "wf_waiter wait = w"
      "tasks_ok f 1 W1 g fx (\<lambda>v. once_role (g_list g v) (pc v))"
      "\<forall>v. wkr (heap W1) v = WakerDone \<longleftrightarrow> wkr (heap W) v = WakerDone"
      "s = futex_atom fx \<longrightarrow> tasks_ok f 1 (put_futex W1 f ?fx) (push_ghost f w g) ?fx
         ((\<lambda>v. once_role (g_list g v) (pc v))(t := (once_role (g_list g t) (pc t))\<lparr>r_stage := Parked w 0\<rparr>))"
      by (rule wait_begin_good [OF T st, of spurious s "cell_atom_encode CellActive" cx])
    have r: "once_iter cas_orders_164 spurious f W c woken w s cx = Inr
        (if futex_atom fx = s \<and> \<not> spurious then (CWait (Suspended wait), put_futex W1 f ?fx)
         else (CTop False w (futex_atom fx) cx, W1))"
      using b CellActive nw p(1) by (auto simp: once_iter_def)
    show ?thesis
    proof (cases "futex_atom fx = s \<and> \<not> spurious")
      case True
      let ?p = "CWait (Suspended wait)"
      have a: "a = CellActive" using once_okD(3) [OF ok] b CellActive True by auto
      have own: "own \<noteq> None" "own \<noteq> Some t"
        using once_okD(4) [OF ok, of t] once_okD(5) [OF ok] a t by auto
      have role: "once_role (g_list (push_ghost f w g) t) ?p =
          (once_role (g_list g t) (pc t))\<lparr>r_stage := Parked w 0\<rparr>"
        using t nw p(3) by simp
      have nd: "wkr (heap W) w \<noteq> WakerDone" using tasks_stage [OF T st] by simp
      have "once_ok f (put_futex W1 f ?fx) c (pc(t := ?p)) (push_ghost f w g) ?fx CellActive own"
      proof (rule once_ok_step [OF ok])
        show "tasks_ok f 1 (put_futex W1 f ?fx) (push_ghost f w g) ?fx
          ((\<lambda>v. once_role (g_list g v) (pc v))(t := once_role (g_list (push_ghost f w g) t) ?p))"
          unfolding role using p(6) True by blast
      qed (use own a p(2,3,5) nd in \<open>auto simp: push_ghost_def final_def\<close>)
      then show ?thesis unfolding r using True a by (auto simp: final_def intro: once_goodI)
    next
      case False
      then show ?thesis unfolding r using again [OF p(4) nw p(5)] by auto
    qed
  next
    case CellPoison
    have "once_good f t pc a c (mapR (\<lambda>W. (CPanicked, W, c)) (waiter_drop W w))"
      by (rule once_freed [OF ok]) (use t in \<open>simp_all add: off_role_def\<close>)
    then show ?thesis
      using b CellPoison by (cases "waiter_drop W w") (simp_all add: once_iter_def)
  next
    case CellInit
    then have "a = CellInit" using b by (simp add: final_def)
    then obtain v where v: "c = Some v" using once_okD(8) [OF ok] by auto
    have "once_good f t pc a c (mapR (\<lambda>W. (CDone v, W, c)) (waiter_drop W w))"
      by (rule once_freed [OF ok]) (use t v \<open>a = CellInit\<close> in \<open>simp_all add: off_role_def\<close>)
    then show ?thesis
      using b CellInit v by (cases "waiter_drop W w") (simp_all add: once_iter_def assume_init_ref_def)
  qed
qed

section \<open>Waiting\<close>

lemma once_wait_good:
  assumes ok: "once_ok f W c pc g fx a own" and t: "pc t = CWait p"
    and step: "wait_advance t act W p = Some r"
  shows "once_good f t pc a c (mapR (\<lambda>(p, W). (p, W, c)) (bindR r (once_waited f)))"
proof -
  note T = once_okD(1) [OF ok]
  let ?R = "\<lambda>v. once_role (g_list g v) (pc v)" and ?w = "wait_waiter p"
  have pok: "wait_task_ok f (heap W) p" "wkr (heap W) ?w = WakerDone \<Longrightarrow> final a"
    using once_okD(2) [OF ok, of t] t by auto
  have role: "?R t = wait_role 0 p" using t by simp
  from wait_advance_good [OF T role pok(1) step]
  obtain out W' g' fx' where r: "r = Inr (out, W')" "tasks_ok f 1 W' g' fx' (?R(t := out_role 0 out))"
    "out_ok f (heap W') out" "out_waiter out = ?w" "wait_moves f 0 ?w ?R W g fx W' g' fx'"
    by (auto simp: wait_good_def)
  note mv = wait_moves_lists [OF r(5)]
  have empty: "a \<noteq> CellActive \<Longrightarrow> g_inbox g' f = [] \<and> g_queues g' f ! 0 = []"
    using wait_moves_empty [OF r(5) T] once_okD(6,7) [OF ok] by simp
  have go: "once_good f t pc a c (Inr (p', W2, c))"
    if "tasks_ok f 1 W2 g' fx' (?R(t := once_role (g_list g t) p'))" "once_pc_ok f (heap W2) a c (g_list g t) p'"
      "\<not> active p'" "\<And>v. v \<noteq> ?w \<Longrightarrow> wkr (heap W2) v = wkr (heap W') v" for p' W2
  proof (rule once_goodI)
    show "once_ok f W2 c (pc(t := p')) g' fx' a own"
    proof (rule once_ok_step [OF ok])
      fix u v assume u: "u \<noteq> t" "stage_waiter (r_stage (?R u)) = Some v"
      have "stage_waiter (r_stage (?R t)) = Some ?w"
        by (cases p) (auto simp: t drop_simps split: drop_pc.splits)
      then have "v \<noteq> ?w" using tasks_sole [OF T _ u(1), of ?w] u(2) by auto
      then show "(wkr (heap W2) v = WakerDone \<longleftrightarrow> wkr (heap W) v = WakerDone) \<or> wkr (heap W2) v = WakerDone \<and> final a"
        using that(4) mv(2) by simp
    qed (use that ok once_okD(4) [OF ok, of t] t mv empty in \<open>auto simp: once_ok_def\<close>)
  qed simp
  show ?thesis
  proof (cases out)
    case (Still p')
    have "once_good f t pc a c (Inr (CWait p', W', c))"
      by (rule go) (use r pok(2) mv(2) [of ?w] Still in auto)
    then show ?thesis using Still by (simp add: r(1) once_waited_def)
  next
    case (Returned woken wait cx)
    let ?p = "CTop True (wf_waiter wait) (futex_atom fx') cx"
    have "once_good f t pc a c (Inr (?p, W', c))"
      by (rule go) (use r pok(2) mv(2) [of ?w] mv(3) once_okD(3) [OF ok] Returned in \<open>auto simp: snap_ok_def\<close>)
    moreover have "futex_load AcquireT W' f = Inr (futex_atom fx')"
      using futex_load_eq [OF tasks_okD(2) [OF r(2)]] by simp
    ultimately show ?thesis using Returned r(1,3) by (simp add: once_waited_def)
  next
    case (Cancelled co w)
    have off: "r_stage ((?R(t := out_role 0 out)) t) = Off w" using Cancelled by simp
    have co: "co = Some (wkr (heap W') w = WakerDone)" using r(3) Cancelled by simp
    obtain W2 where f: "wait_finish W' co w = Inr W2" "heap W2 = (heap W')(w := None)"
      "tasks_ok f 1 W2 g' fx' ((?R(t := out_role 0 out))(t := ((?R(t := out_role 0 out)) t)\<lparr>r_stage := NoWaiter\<rparr>))"
      unfolding co by (rule wait_finish_off [OF r(2) off]) blast
    have "once_good f t pc a c (Inr (CIdle, W2, c))"
      by (rule go) (use f(2,3) r(4) Cancelled in \<open>auto simp: wkr_def\<close>)
    then show ?thesis using Cancelled r(3) f(1) by (auto simp: r(1) once_waited_def)
  qed
qed

section \<open>Finishing\<close>

lemmas finish_simps = finish_role_def idle_role_def early_def

lemma once_finish_quiet:
  fixes pc :: "tid \<Rightarrow> 'v once_pc"
  assumes ok: "once_ok f W c pc g fx a own" and t: "pc t = CFinish w new u"
    and T: "tasks_ok f 1 W' g fx' ((\<lambda>u. once_role (g_list g u) (pc u))(t := once_role (g_list g t) (CFinish w new u' :: 'v once_pc)))"
    and same: "futex_atom fx' = futex_atom fx" "heap W' = heap W" "early u' = early u"
      "\<And>s. u' = FinLoop s \<Longrightarrow> fa_atom s = cell_atom_encode CellActive"
      "\<And>p. u' = FinWake p \<Longrightarrow> list_ends (wake_list p) (g_list g t)"
  shows "once_good f t pc a c (Inr (CFinish w new u', W', c))"
  by (rule once_quiet [OF ok T]) (use once_okD(2) [OF ok, of t] t same in auto)

lemma once_finish_load:
  fixes pc :: "tid \<Rightarrow> 'v once_pc"
  assumes ok: "once_ok f W c pc g fx a own" and t: "pc t = CFinish w new u" and u: "early u"
    and fx: "fx2 = futex_atom fx" and role: "finish_role (g_list g t) (FinLoop fx2) = finish_role (g_list g t) u"
  shows "once_good f t pc a c (Inr (CFinish w new (FinLoop fx2), W, c))"
proof (rule once_finish_quiet [OF ok t])
  have "a = CellActive" using once_okD(4) [OF ok, of t] once_okD(5) [OF ok] t u by auto
  then show "fa_atom s = cell_atom_encode CellActive" if "FinLoop fx2 = FinLoop s" for s
    using once_okD(3) [OF ok] fx that by simp
  show "tasks_ok f 1 W g fx ((\<lambda>u. once_role (g_list g u) (pc u))(t := once_role (g_list g t) (CFinish w new (FinLoop fx2) :: 'v once_pc)))"
    by (rule same_role [OF once_okD(1) [OF ok]]) (use t role in simp)
qed (use u in \<open>simp_all add: early_def\<close>)

lemma once_store:
  fixes pc :: "tid \<Rightarrow> 'v once_pc"
  assumes ok: "once_ok f W c pc g fx a own" and t: "pc t = CFinish w new (FinLoop s)"
  shows "once_good f t pc a c (mapR (\<lambda>(u, W). (CFinish w new u, W, c))
    (bindR (cmpxchg_enqueue_weak spurious AcqRelT RelaxedT W f s (cell_atom_encode new))
       (\<lambda>(ok, atom, W).
          if ok then
            bindR (queue_pop_many W f usize_MAX 0) (\<lambda>(list, W). Inr (FinWake (WakeNext list), W))
          else Inr (FinLoop atom, W))))"
proof -
  note T = once_okD(1) [OF ok]
  let ?R = "\<lambda>v. once_role (g_list g v) (pc v)"
  have new: "final new" "new = CellInit \<Longrightarrow> c \<noteq> None" using once_okD(2) [OF ok, of t] t by auto
  have a: "a = CellActive" and own: "own = Some t"
    using once_okD(4) [OF ok, of t] once_okD(5) [OF ok] t by (auto simp: early_def)
  have R: "r_read (?R t)" "r_list (?R t) = []" using t by (simp_all add: finish_simps)
  have relaxed: "cas_orders s (ORDERING RelaxedT)" for s by simp
  obtain h' qs' where e: "cmpxchg_enqueue_weak spurious AcqRelT RelaxedT W f s (cell_atom_encode new) = Inr
      (if futex_atom fx = s \<and> \<not> spurious
       then (True, s, put_futex (W\<lparr>heap := h'\<rparr>) f
               (fx\<lparr>futex_atom := \<lparr>fa_atom = cell_atom_encode new, fa_inbox = null\<rparr>, queues := qs'\<rparr>))
       else (False, futex_atom fx, W))"
    "\<And>v. wkr h' v = wkr (heap W) v"
    "tasks_ok f 1 (put_futex (W\<lparr>heap := h'\<rparr>) f
        (fx\<lparr>futex_atom := \<lparr>fa_atom = cell_atom_encode new, fa_inbox = null\<rparr>, queues := qs'\<rparr>))
      (enqueue_ghost (heap W) f g)
      (fx\<lparr>futex_atom := \<lparr>fa_atom = cell_atom_encode new, fa_inbox = null\<rparr>, queues := qs'\<rparr>) ?R"
    using tasks_cmpxchg_enqueue [OF T relaxed, of spurious AcqRelT s "cell_atom_encode new"] by blast
  let ?fx1 = "fx\<lparr>futex_atom := \<lparr>fa_atom = cell_atom_encode new, fa_inbox = null\<rparr>, queues := qs'\<rparr>"
  let ?W1 = "put_futex (W\<lparr>heap := h'\<rparr>) f ?fx1" and ?g1 = "enqueue_ghost (heap W) f g"
  show ?thesis
  proof (cases "futex_atom fx = s \<and> \<not> spurious")
    case False
    have "once_good f t pc a c (Inr (CFinish w new (FinLoop (futex_atom fx)), W, c))"
      by (rule once_finish_load [OF ok t]) (simp_all add: finish_simps)
    then show ?thesis unfolding e(1) using False by auto
  next
    case True
    define xs where "xs = g_queues ?g1 f ! 0"
    obtain h2 fx2 l where m: "queue_pop_many ?W1 f usize_MAX 0 = Inr (l, put_futex (?W1\<lparr>heap := h2\<rparr>) f fx2)"
      "futex_atom fx2 = futex_atom ?fx1" "\<And>v. wkr h2 v = wkr (heap ?W1) v"
      "list_ends l (take (length xs) (g_queues ?g1 f ! unat (0::usize)))"
      "tasks_ok f 1 (put_futex (?W1\<lparr>heap := h2\<rparr>) f fx2) (pop_many_ghost t f (unat (0::usize)) (length xs) ?g1) fx2
         (?R(t := (?R t)\<lparr>r_list := take (length xs) (g_queues ?g1 f ! unat (0::usize))\<rparr>))"
      by (rule tasks_pop_many [OF e(3) _ R, of 0 "length xs" usize_MAX])
        (simp_all add: taken_def xs_def)
    let ?g2 = "pop_many_ghost t f 0 (length xs) ?g1" and ?W2 = "put_futex (?W1\<lparr>heap := h2\<rparr>) f fx2"
    let ?p = "CFinish w new (FinWake (WakeNext l)) :: 'v once_pc"
    have l2: "g_list ?g2 t = xs" "list_ends l xs" "g_list ?g2 v = g_list g v" if "v \<noteq> t" for v
      using m(4) that by (simp_all add: pop_many_ghost_def enqueue_ghost_def xs_def)
    have l1: "g_list ?g2 t = xs" by (simp add: pop_many_ghost_def xs_def)
    have role: "(?R t)\<lparr>r_list := xs\<rparr> = once_role (g_list ?g2 t) ?p"
      using t l1 by (simp add: finish_simps)
    have T2: "tasks_ok f 1 ?W2 ?g2 fx2 (?R(t := once_role (g_list ?g2 t) ?p))"
      using m(5) unfolding role [symmetric] by (simp add: xs_def)
    have len: "length (g_queues ?g1 f) = 1" by (rule enqueue_lists(3) [OF e(3)])
    have "once_ok f ?W2 c (pc(t := ?p)) ?g2 fx2 new None"
    proof (rule once_ok_step [OF ok T2])
      show "once_pc_ok f (heap ?W2) new c (g_list ?g2 t) ?p"
        using new m(4) l1 by (simp add: early_def xs_def)
      show "g_inbox ?g2 f = [] \<and> g_queues ?g2 f ! 0 = []"
        using len by (simp add: pop_many_ghost_def xs_def) (simp add: enqueue_ghost_def)
    qed (use m(2,3) e(2) a own new in \<open>auto simp: pop_many_ghost_def enqueue_ghost_def final_def early_def\<close>)
    then have "once_good f t pc a c (Inr (?p, ?W2, c))"
      by (rule once_goodI) (simp add: a final_def)
    then show ?thesis unfolding e(1) using True m(1) by simp
  qed
qed

text \<open>The steps that take and release the guard and the borrow.\<close>

lemma once_no_borrow:
  assumes ok: "once_ok f W c pc g fx a own" and t: "pc t = CFinish w new FinBorrow"
  shows "\<not> r_borrow (once_role (g_list g v) (pc v))"
proof
  assume b: "r_borrow (once_role (g_list g v) (pc v))"
  have own: "own = Some t" and a: "a = CellActive"
    using once_okD(4) [OF ok, of t] once_okD(5) [OF ok] t by (auto simp: early_def)
  from b obtain w' new' u where v: "pc v = CFinish w' new' u" "r_borrow (finish_role (g_list g v) u)"
    by (cases "pc v") (auto split: if_splits)
  have "early u"
    using once_okD(2) [OF ok, of v] v a by (auto simp: final_def)
  then have "v = t" using once_okD(4) [OF ok, of v] v own by simp
  with v t show False by (simp add: finish_simps)
qed

lemma once_finish_guard:
  fixes pc :: "tid \<Rightarrow> 'v once_pc"
  assumes ok: "once_ok f W c pc g fx a own" and t: "pc t = CFinish w new u"
    and u: "u = FinLock \<or> u = FinBorrow \<or> u = FinUnborrow \<or> u = FinUnlock"
    and step: "finish_step spurious t f new W u = Some r"
  shows "once_good f t pc a c (mapR (\<lambda>(u, W). (CFinish w new u, W, c)) r)"
proof -
  note T = once_okD(1) [OF ok]
  let ?R = "\<lambda>v. once_role (g_list g v) (pc v)" and ?r = "\<lambda>u. once_role (g_list g t) (CFinish w new u :: 'v once_pc)"
  have go: "once_good f t pc a c (Inr (CFinish w new u', W', c))"
    if "tasks_ok f 1 W' g fx' (?R(t := ?r u'))" "futex_atom fx' = futex_atom fx" "heap W' = heap W"
      "early u' = early u" "\<forall>s. u' \<noteq> FinLoop s" "\<forall>p. u' \<noteq> FinWake p" for u' W' fx'
    by (rule once_finish_quiet [OF ok t that(1-4)]) (use that in auto)
  from u show ?thesis
  proof (elim disjE)
    assume u: "u = FinLock"
    have role: "?r FinBorrow = (?R t)\<lparr>r_read := True\<rparr>" by (simp add: t u finish_simps)
    obtain r0 where r0: "futex_lock t W f = Some r0" "r = mapR (Pair FinBorrow) r0"
      using step u by (auto simp: finish_step_def)
    obtain fx' where l: "r0 = Inr (put_futex W f fx')" "futex_atom fx' = futex_atom fx"
      "tasks_ok f 1 (put_futex W f fx') g fx' (?R(t := ?r FinBorrow))"
      unfolding role by (rule tasks_lock [OF T r0(1)])
    show ?thesis using go [OF l(3,2)] by (simp add: r0 l(1) u early_def)
  next
    assume u: "u = FinBorrow"
    have role: "?r FinLoad = (?R t)\<lparr>r_borrow := True\<rparr>" by (simp add: t u finish_simps)
    obtain fx' where l: "queue_lock W f = Inr (put_futex W f fx')" "futex_atom fx' = futex_atom fx"
      "tasks_ok f 1 (put_futex W f fx') g fx' (?R(t := ?r FinLoad))"
      unfolding role by (rule tasks_queue_lock [OF T once_no_borrow [OF ok t [unfolded u]]])
    show ?thesis using go [OF l(3,2)] step l(1) by (auto simp: finish_step_def u early_def)
  next
    assume u: "u = FinUnborrow"
    have role: "?r FinUnlock = (?R t)\<lparr>r_borrow := False\<rparr>" and b: "r_borrow (?R t)"
      by (simp_all add: t u finish_simps)
    obtain fx' where l: "queue_unlock W f = Inr (put_futex W f fx')" "futex_atom fx' = futex_atom fx"
      "tasks_ok f 1 (put_futex W f fx') g fx' (?R(t := ?r FinUnlock))"
      unfolding role by (rule tasks_queue_unlock [OF T b])
    show ?thesis using go [OF l(3,2)] step l(1) by (auto simp: finish_step_def u early_def)
  next
    assume u: "u = FinUnlock"
    have role: "?r FinDone = (?R t)\<lparr>r_read := False\<rparr>" and h: "r_hand (?R t) = None" "r_list (?R t) = []"
      by (simp_all add: t u finish_simps)
    obtain fx' where l: "futex_unlock t W f = Inr (put_futex W f fx')" "futex_atom fx' = futex_atom fx"
      "tasks_ok f 1 (put_futex W f fx') g fx' (?R(t := ?r FinDone))"
      unfolding role by (rule tasks_unlock [OF T h])
    show ?thesis using go [OF l(3,2)] step l(1) by (auto simp: finish_step_def u early_def)
  qed
qed

text \<open>Waking the waiters one by one.\<close>

lemma once_finish_wake:
  fixes pc :: "tid \<Rightarrow> 'v once_pc"
  assumes ok: "once_ok f W c pc g fx a own" and t: "pc t = CFinish w new (FinWake p)"
  shows "once_good f t pc a c (mapR (\<lambda>(u, W). (CFinish w new u, W, c))
    (bindR (wake_step W p) (\<lambda>(r, W). Inr (case r of Some p \<Rightarrow> FinWake p | None \<Rightarrow> FinUnborrow, W))))"
proof -
  note T = once_okD(1) [OF ok]
  let ?R = "\<lambda>v. once_role (g_list g v) (pc v)"
  have R: "r_list (?R t) = g_list g t" "r_hand (?R t) = None" using t by (simp_all add: finish_simps)
  have ends: "list_ends (wake_list p) (r_list (?R t))" and fin: "final a"
    using once_okD(2) [OF ok, of t] t R by (auto simp: early_def)
  show ?thesis
  proof (cases rule: wake_step_good [OF T ends R(2), case_names stop wake call])
    case (stop W')
    have "once_good f t pc a c (Inr (CFinish w new FinUnborrow, W', c))"
    proof (rule once_finish_quiet [OF ok t])
      show "tasks_ok f 1 W' g fx (?R(t := once_role (g_list g t) (CFinish w new FinUnborrow :: 'v once_pc)))"
        by (rule same_role [OF tasks_ok_cong [OF T stop(3,4)]])
          (use stop(2) R t in \<open>simp add: finish_simps\<close>)
    qed (use stop in \<open>simp_all add: early_def\<close>)
    then show ?thesis by (simp add: stop(1))
  next
    case (call l' W')
    have "once_good f t pc a c (Inr (CFinish w new (FinWake (WakeNext l')), W', c))"
    proof (rule once_finish_quiet [OF ok t])
      show "tasks_ok f 1 W' g fx (?R(t := once_role (g_list g t) (CFinish w new (FinWake (WakeNext l')) :: 'v once_pc)))"
        by (rule same_role [OF tasks_ok_cong [OF T call(3,4)]]) (use t in \<open>simp add: finish_simps\<close>)
    qed (use call R in \<open>simp_all add: early_def\<close>)
    then show ?thesis by (simp add: call(1))
  next
    case (wake w' ws l' k W')
    let ?g = "wake_ghost w' (into_ghost t w' g)"
    let ?p = "CFinish w new (FinWake (WakeCall l' k)) :: 'v once_pc"
    have gl: "g_list ?g t = ws" "g_list ?g v = g_list g v" if "v \<noteq> t" for v
      using wake(1) R that by (simp_all add: wake_ghost_def into_ghost_def)
    have gt: "g_list ?g t = ws" using wake(1) R by (simp add: wake_ghost_def into_ghost_def)
    have role: "(?R t)\<lparr>r_list := ws\<rparr> = once_role (g_list ?g t) ?p"
      using t gt by (simp add: finish_simps)
    have "once_ok f W' c (pc(t := ?p)) ?g fx a own"
    proof (rule once_ok_step [OF ok wake(9) [unfolded role]])
      show "once_pc_ok f (heap W') a c (g_list ?g t) ?p"
        using once_okD(2) [OF ok, of t] t wake(3) gt by (auto simp: early_def)
      fix u v
      show "(wkr (heap W') v = WakerDone \<longleftrightarrow> wkr (heap W) v = WakerDone) \<or> wkr (heap W') v = WakerDone \<and> final a"
        using wake(4,5) fin by (cases "v = w'") auto
    qed (use ok once_okD(4) [OF ok, of t] t gl in \<open>auto simp: once_ok_def early_def wake_ghost_def into_ghost_def\<close>)
    then have "once_good f t pc a c (Inr (?p, W', c))"
      by (rule once_goodI) simp
    then show ?thesis by (simp add: wake(2))
  qed
qed

lemma once_finish_good:
  fixes pc :: "tid \<Rightarrow> 'v once_pc"
  assumes ok: "once_ok f W c pc g fx a own" and t: "pc t = CFinish w new u"
    and step: "finish_step spurious t f new W u = Some r"
  shows "once_good f t pc a c (mapR (\<lambda>(u, W). (CFinish w new u, W, c)) r)"
proof -
  consider "u = FinLock \<or> u = FinBorrow \<or> u = FinUnborrow \<or> u = FinUnlock" | "u = FinLoad"
    | s where "u = FinLoop s" | p where "u = FinWake p"
    using step by (cases u) (auto simp: finish_step_def)
  then show ?thesis
  proof cases
    case 1
    show ?thesis by (rule once_finish_guard [OF ok t 1 step])
  next
    case 2
    have "once_good f t pc a c (Inr (CFinish w new (FinLoop (futex_atom fx)), W, c))"
      by (rule once_finish_load [OF ok t]) (simp_all add: finish_simps 2)
    then show ?thesis
      using step futex_load_eq [OF tasks_okD(2) [OF once_okD(1) [OF ok]], of RelaxedT]
      by (auto simp: finish_step_def 2)
  next
    case (3 s)
    have "fa_atom s = cell_atom_encode CellActive" using once_okD(2) [OF ok, of t] t 3 by simp
    then show ?thesis using once_store [OF ok t [unfolded 3], of spurious] step 3 by (auto simp: finish_step_def)
  next
    case (4 p)
    then show ?thesis using once_finish_wake [OF ok t [unfolded 4]] step by (auto simp: finish_step_def)
  qed
qed

lemma once_finished_good:
  assumes ok: "once_ok f W c pc g fx a own" and t: "pc t = CFinish w new FinDone"
  shows "once_good f t pc a c (mapR (\<lambda>(p, W). (p, W, c)) (once_finished c W w new))"
proof (cases "new = CellInit")
  case True
  then have a: "a = CellInit" using once_okD(2) [OF ok, of t] t by (simp add: early_def)
  then obtain v where v: "c = Some v" using once_okD(8) [OF ok] by auto
  have "once_good f t pc a c (mapR (\<lambda>W. (CDone v, W, c)) (waiter_drop W w))"
    by (rule once_freed [OF ok]) (use t v a in \<open>simp_all add: finish_simps\<close>)
  then show ?thesis
    using True v by (cases "waiter_drop W w") (simp_all add: once_finished_def assume_init_ref_def)
next
  case False
  have "once_good f t pc a c (mapR (\<lambda>W. (CIdle, W, c)) (waiter_drop W w))"
    by (rule once_freed [OF ok]) (use t in \<open>simp_all add: finish_simps\<close>)
  then show ?thesis using False by (cases "waiter_drop W w") (simp_all add: once_finished_def)
qed

section \<open>The whole machine\<close>

lemma once_init_good:
  fixes pc :: "tid \<Rightarrow> 'v once_pc"
  assumes ok: "once_ok f W c pc g fx a own" and t: "pc t = CInit w"
    and new: "new = CellInit \<and> c' \<noteq> None \<or> new = CellPoison \<and> c' = c"
  shows "once_good f t pc a c (Inr (CFinish w new FinLock, W, c'))"
proof (rule once_goodI)
  let ?p = "CFinish w new FinLock :: 'v once_pc"
  have a: "a = CellActive" and own: "own = Some t"
    using once_okD(4) [OF ok, of t] once_okD(5) [OF ok] t by auto
  have T: "tasks_ok f 1 W g fx ((\<lambda>u. once_role (g_list g u) (pc u))(t := once_role (g_list g t) ?p))"
    by (rule same_role [OF once_okD(1) [OF ok]]) (simp add: t finish_simps)
  show "once_ok f W c' (pc(t := ?p)) g fx a own"
    by (rule once_ok_step [OF ok T])
      (use new a own once_okD(3) [OF ok] in \<open>auto simp: final_def early_def\<close>)
  show "final a \<Longrightarrow> a = a \<and> c' = c" by (simp add: a final_def)
qed

lemma once_task_good:
  assumes ok: "once_ok f W c pc g fx a own" and step: "once_task cas_orders_164 f t act W c (pc t) = Some r"
  shows "once_good f t pc a c r"
proof (cases "pc t")
  case CIdle
  then obtain cx addr r0 where r0: "once_start f cx addr W = Some r0" "r = mapR (\<lambda>(p, W). (p, W, c)) r0"
    using step by (cases act) (auto simp: once_task_def)
  show ?thesis unfolding r0(2) by (rule once_start_good [OF ok CIdle r0(1)])
next
  case (CTop woken w s cx)
  with step once_iter_good [OF ok CTop] show ?thesis
    by (cases act) (auto simp: once_task_def)
next
  case (CInit w)
  with step once_init_good [OF ok CInit] show ?thesis
    by (cases act) (auto simp: once_task_def)
next
  case (CFinish w new u)
  show ?thesis
  proof (cases "u = FinDone")
    case True
    with step once_finished_good [OF ok CFinish [unfolded True]] CFinish show ?thesis
      by (cases act) (auto simp: once_task_def)
  next
    case False
    then obtain spurious r0 where "finish_step spurious t f new W u = Some r0"
      "r = mapR (\<lambda>(u, W). (CFinish w new u, W, c)) r0"
      using step CFinish by (cases act) (auto simp: once_task_def)
    with once_finish_good [OF ok CFinish] show ?thesis by simp
  qed
next
  case (CWait p)
  then obtain act' r0 where r0: "wait_advance t act' W p = Some r0"
    "r = mapR (\<lambda>(p, W). (p, W, c)) (bindR r0 (once_waited f))"
    using step by (cases act) (auto simp: once_task_def)
  show ?thesis unfolding r0(2) by (rule once_wait_good [OF ok CWait r0(1)])
qed (use step in \<open>simp_all add: once_task_def\<close>)

lemma once_ok_new: "f \<noteq> null \<Longrightarrow> once_ok f (oc_world (once_new f)) None (\<lambda>_. CIdle)
    \<lparr>g_loc = (\<lambda>_. Loose), g_inbox = (\<lambda>_. []), g_queues = (\<lambda>_. [[]]), g_list = (\<lambda>_. [])\<rparr>
    (futex_new (cell_atom_encode CellUninit) 1) CellUninit None"
  by (simp add: once_ok_def once_new_def tasks_ok_def world_ok_def waiters_ok_def hands_ok_def
      inbox_ok_def queues_ok_def guards_ok_def futex_new_def guards_held_def hands_held_def
      stages_held_def refcell_new_def)

lemma once_step_good:
  assumes ok: "once_ok f (oc_world s) (oc_content s) (oc_pc s) g fx a own" and step: "once_step cas_orders_164 f e s = Some r"
  obtains s' g' fx' a' own' where "r = Inr s'"
    "once_ok f (oc_world s') (oc_content s') (oc_pc s') g' fx' a' own'"
    "final a \<longrightarrow> a' = a \<and> oc_content s' = oc_content s"
proof -
  obtain t act where e: "e = (t, act)" by (cases e)
  from step obtain r0 where r0: "once_task cas_orders_164 f t act (oc_world s) (oc_content s) (oc_pc s t) = Some r0"
    "r = mapR (\<lambda>(p, W, c). s\<lparr>oc_world := W, oc_content := c, oc_pc := (oc_pc s)(t := p)\<rparr>) r0"
    by (auto simp: once_step_def e)
  from once_task_good [OF ok r0(1)] obtain p W' c' g' fx' a' own' where
    "r0 = Inr (p, W', c')" "once_ok f W' c' ((oc_pc s)(t := p)) g' fx' a' own'"
    "final a \<longrightarrow> a' = a \<and> c' = oc_content s"
    unfolding once_good_def by blast
  then show ?thesis
    by (intro that [of "s\<lparr>oc_world := W', oc_content := c', oc_pc := (oc_pc s)(t := p)\<rparr>" g' fx' a' own'])
      (simp_all add: r0(2))
qed

end
