(* ===== verification/Once_Spec.thy ===== *)
theory Once_Spec imports Once_Inv begin

text \<open>
  What \<open>src/lazy.rs\<close> promises: no undefined behaviour, and no fault but the rejected orderings of its
  claim; one initialiser at a time, one value for ever, and no waiter that is left behind. The
  properties are stated on the reachable states of \<open>once_step\<close>, whatever orderings the atomics
  accept. Runs that get past the claim need atomics that accept it; the witnesses take the rule of
  later versions of the standard library.
\<close>

section \<open>The invariant of the machine\<close>

definition once_init :: "ptr \<Rightarrow> 'v once_state \<Rightarrow> bool" where
  "once_init f s \<longleftrightarrow> f \<noteq> null \<and> s = once_new f"

interpretation once: invariant_system "once_init f" "once_step cas_orders_164 f" "once_inv f" for f
proof
  show "once_init f s \<Longrightarrow> once_inv f s" for s :: "'v once_state"
    using once_ok_new [of f]
    by (auto simp: once_init_def once_inv_def once_new_def)
  show "\<exists>s'. r = Inr s' \<and> once_inv f s'"
    if inv: "once_inv f s" and step: "once_step cas_orders_164 f e s = Some r" for s :: "'v once_state" and e r
  proof -
    obtain g fx a own where ok: "once_ok f (oc_world s) (oc_content s) (oc_pc s) g fx a own"
      using inv by (auto simp: once_inv_def)
    show ?thesis by (rule once_step_good [OF ok step]) (auto simp: once_inv_def)
  qed
qed


lemma cas_accepts:
  assumes "futex_cmpxchg_weak_on accepts spurious RelaxedT AcquireT W f a x = Inr r"
  shows "futex_cmpxchg_weak_on cas_orders_164 spurious RelaxedT AcquireT W f a x = Inr r"
  using assms by (auto simp: futex_cmpxchg_weak_on_def raw_cmpxchg_weak_on_def cell_cmpxchg_weak_on_def bindR_eq_Inr
      split: if_splits)

lemma once_iter_accepts:
  assumes "once_iter accepts spurious f W c woken w a cx = Inr r"
  shows "once_iter cas_orders_164 spurious f W c woken w a cx = Inr r"
proof (cases "cell_atom_decode (fa_atom a) = Inr CellUninit")
  case True
  then obtain q where "futex_cmpxchg_weak_on accepts spurious RelaxedT AcquireT W f a (cell_atom_encode CellActive) = Inr q"
    using assms by (auto simp: once_iter_def bindR_eq_Inr)
  then have "futex_cmpxchg_weak_on cas_orders_164 spurious RelaxedT AcquireT W f a (cell_atom_encode CellActive) =
      futex_cmpxchg_weak_on accepts spurious RelaxedT AcquireT W f a (cell_atom_encode CellActive)"
    using cas_accepts by metis
  then have "once_iter cas_orders_164 spurious f W c woken w a cx = once_iter accepts spurious f W c woken w a cx"
    using True by (simp add: once_iter_def)
  then show ?thesis using assms by simp
next
  case False
  have "once_iter accepts spurious f W c woken w a cx = once_iter cas_orders_164 spurious f W c woken w a cx"
    unfolding once_iter_def by (rule bindR_cong) (use False in \<open>auto split: cell_atom.split\<close>)
  then show ?thesis using assms by simp
qed

lemma once_task_accepts:
  assumes "\<And>b woken w a cx. act = CRun b \<Longrightarrow> p = CTop woken w a cx \<Longrightarrow>
     once_iter accepts b f W c woken w a cx = once_iter cas_orders_164 b f W c woken w a cx"
  shows "once_task accepts f t act W c p = once_task cas_orders_164 f t act W c p"
proof (cases p)
  case (CTop woken w a cx)
  then show ?thesis using assms by (cases act) (simp_all add: once_task_def)
qed (simp_all add: once_task_def)

lemma once_step_accepts:
  assumes "once_step accepts f e s = Some (Inr s')"
  shows "once_step cas_orders_164 f e s = Some (Inr s')"
proof -
  obtain t act where e: "e = (t, act)" by (cases e)
  show ?thesis
  proof (cases "\<exists>b woken w a cx. act = CRun b \<and> oc_pc s t = CTop woken w a cx")
    case True
    then obtain b woken w a cx where top: "act = CRun b" "oc_pc s t = CTop woken w a cx" by blast
    then obtain r where r: "once_iter accepts b f (oc_world s) (oc_content s) woken w a cx = Inr r"
      using assms by (auto simp: e once_step_def once_task_def mapR_def bindR_eq_Inr)
    then show ?thesis using assms top once_iter_accepts [OF r] by (simp add: e once_step_def once_task_def)
  next
    case False
    then have "once_task accepts f t act (oc_world s) (oc_content s) (oc_pc s t) =
        once_task cas_orders_164 f t act (oc_world s) (oc_content s) (oc_pc s t)"
      by (intro once_task_accepts) auto
    then show ?thesis using assms by (simp add: e once_step_def)
  qed
qed

lemma once_run_accepts:
  "run (once_step accepts f) es s = Some (Inr s') \<Longrightarrow> run (once_step cas_orders_164 f) es s = Some (Inr s')"
proof (induction es arbitrary: s)
  case (Cons e es)
  then obtain s1 where "once_step accepts f e s = Some (Inr s1)" "run (once_step accepts f) es s1 = Some (Inr s')"
    by (auto split: option.splits sum.splits)
  with Cons.IH once_step_accepts show ?case by fastforce
qed simp

lemma once_reach_accepts:
  "reach (once_init f) (once_step accepts f) s \<Longrightarrow> reach (once_init f) (once_step cas_orders_164 f) s"
  by (induction rule: reach.induct) (auto intro: reach.intros once_step_accepts)

lemma once_reach_ok:
  assumes "reach (once_init f) (once_step accepts f) s"
  obtains g fx a own where "once_ok f (oc_world s) (oc_content s) (oc_pc s) g fx a own"
  using once.reach_inv [OF once_reach_accepts [OF assms]] by (auto simp: once_inv_def)

lemma once_get_eq:
  assumes ok: "once_ok f W c pc g fx a own"
  shows "once_get f W c = (case a of CellUninit \<Rightarrow> Inr None | CellActive \<Rightarrow> Inr None
    | CellPoison \<Rightarrow> Inl Panic | CellInit \<Rightarrow> Inr c)"
  using once_okD(3,8) [OF ok] futex_load_eq [OF tasks_okD(2) [OF once_okD(1) [OF ok]], of AcquireT]
  by (cases a) (auto simp: once_get_def assume_init_ref_def)

text \<open>A final cell stays as it is in every run.\<close>

lemma once_run_final:
  assumes "once_ok f (oc_world s) (oc_content s) (oc_pc s) g fx a own" "final a"
    "run (once_step cas_orders_164 f) es s = Some (Inr s')"
  shows "oc_content s' = oc_content s \<and>
    (\<exists>g fx own. once_ok f (oc_world s') (oc_content s') (oc_pc s') g fx a own)"
  using assms
proof (induction es arbitrary: s g fx own)
  case Nil
  then show ?case by auto
next
  case (Cons e es)
  then obtain r where step: "once_step cas_orders_164 f e s = Some r"
    by (auto split: option.splits)
  obtain s1 g1 fx1 a1 own1 where s1: "r = Inr s1"
    "once_ok f (oc_world s1) (oc_content s1) (oc_pc s1) g1 fx1 a1 own1"
    "final a \<longrightarrow> a1 = a \<and> oc_content s1 = oc_content s"
    by (rule once_step_good [OF Cons.prems(1) step])
  then have "a1 = a" "oc_content s1 = oc_content s" using Cons.prems(2) by auto
  moreover have "run (once_step cas_orders_164 f) es s1 = Some (Inr s')" using Cons.prems(3) step s1(1) by simp
  ultimately have "oc_content s' = oc_content s1"
    "\<exists>g fx own. once_ok f (oc_world s') (oc_content s') (oc_pc s') g fx a own"
    using Cons.IH [of s1 g1 fx1 own1] s1(2) Cons.prems(2) by blast+
  with \<open>oc_content s1 = oc_content s\<close> show ?case by (intro conjI) simp_all
qed

section \<open>Properties\<close>


text \<open>
  C36: at most one task at a time runs \<open>init\<close> or is about to publish its result, and then no task
  has a reference to the value yet.
\<close>

theorem once_cell_single_init:
  assumes "reach (once_init f) (once_step accepts f) s" "active (oc_pc s t)"
  shows "(active (oc_pc s u) \<longrightarrow> u = t) \<and> oc_pc s u \<noteq> CDone v"
proof -
  obtain g fx a own where ok: "once_ok f (oc_world s) (oc_content s) (oc_pc s) g fx a own"
    by (rule once_reach_ok [OF assms(1)])
  have "own = Some t" "a = CellActive"
    using once_okD(4) [OF ok, of t] once_okD(5) [OF ok] assms(2) by auto
  then show ?thesis using once_okD(4) [OF ok, of u] once_okD(2) [OF ok, of u] by auto
qed

text \<open>
  C34: the value never changes. Once a task has a reference to \<open>v\<close>, in every later state \<open>get\<close>
  returns \<open>v\<close> and every task that has a reference has one to \<open>v\<close>.
\<close>

theorem once_cell_stable:
  assumes "reach (once_init f) (once_step accepts f) s" "oc_pc s t = CDone v"
    and "run (once_step accepts f) es s = Some (Inr s')"
  shows "once_get f (oc_world s') (oc_content s') = Inr (Some v) \<and> (oc_pc s' u = CDone v' \<longrightarrow> v' = v)"
proof -
  obtain g fx a own where ok: "once_ok f (oc_world s) (oc_content s) (oc_pc s) g fx a own"
    by (rule once_reach_ok [OF assms(1)])
  have a: "a = CellInit" "oc_content s = Some v" using once_okD(2) [OF ok, of t] assms(2) by simp_all
  with once_run_final [OF ok _ once_run_accepts [OF assms(3)]] obtain g' fx' own' where
    ok': "once_ok f (oc_world s') (Some v) (oc_pc s') g' fx' CellInit own'" "oc_content s' = Some v"
    by (auto simp: final_def)
  with once_get_eq [OF ok'(1)] show ?thesis using once_okD(2) [OF ok'(1), of u] by auto
qed

text \<open>
  \<open>get\<close> panics exactly when the cell is poisoned, returns nothing before the
  initialisation is complete, and the value after; it never reads uninitialised memory.
\<close>

theorem once_cell_get:
  assumes "reach (once_init f) (once_step accepts f) s"
  shows "\<exists>a fx. futexes (oc_world s) f = Some fx \<and> fa_atom (futex_atom fx) = cell_atom_encode a \<and>
    once_get f (oc_world s) (oc_content s) =
      (case a of CellPoison \<Rightarrow> Inl Panic | CellInit \<Rightarrow> Inr (Some (the (oc_content s))) | _ \<Rightarrow> Inr None)"
proof -
  obtain g fx a own where ok: "once_ok f (oc_world s) (oc_content s) (oc_pc s) g fx a own"
    by (rule once_reach_ok [OF assms])
  show ?thesis
    using once_get_eq [OF ok] once_okD(3,8) [OF ok] tasks_okD(2) [OF once_okD(1) [OF ok]]
    by (intro exI [of _ a] exI [of _ fx]) (auto split: cell_atom.splits)
qed

definition finishing :: "'v once_pc \<Rightarrow> bool" where
  "finishing p \<longleftrightarrow> active p \<or> (\<exists>w new q. p = CFinish w new (FinWake q))"

text \<open>
  C37: no lost wakeup. While a task is suspended and has not been woken, some task is
  initialising the cell or is waking the waiters.
\<close>

theorem once_cell_no_lost_wakeup:
  assumes "reach (once_init f) (once_step accepts f) s" "oc_pc s t = CWait (Suspended wait)"
    and "wkr (heap (oc_world s)) (wf_waiter wait) \<noteq> WakerDone"
  shows "\<exists>u. finishing (oc_pc s u)"
proof -
  obtain g fx a own where ok: "once_ok f (oc_world s) (oc_content s) (oc_pc s) g fx a own"
    by (rule once_reach_ok [OF assms(1)])
  note T = once_okD(1) [OF ok]
  let ?w = "wf_waiter wait"
  have st: "parked_ok (heap (oc_world s)) g f ?w 0"
    using tasks_stage [OF T, of t "Parked ?w 0"] assms(2) by simp
  then have w: "listed f 0 (g_loc g ?w)"
    using assms(3) by (auto simp: parked_ok_def)
  show ?thesis
  proof (cases "a = CellActive")
    case True
    then show ?thesis using once_okD(4,5) [OF ok] by (auto simp: finishing_def)
  next
    case False
    have "g_loc g ?w \<noteq> Inbox f"
      using world_okD(3) [OF tasks_okD(1,2) [OF T]] once_okD(6) [OF ok False] by (auto simp: inbox_ok_def)
    moreover have "g_loc g ?w \<noteq> InQueue f 0"
      using queues_okD(2) [OF world_okD(4) [OF tasks_okD(1,2) [OF T]], of 0] once_okD(7) [OF ok False]
        tasks_okD(3) [OF T] by auto
    moreover have "g_loc g ?w \<noteq> InHand u" for u
    proof
      assume "g_loc g ?w = InHand u"
      then have "r_hand (once_role (g_list g u) (oc_pc s u)) = Some ?w"
        using tasks_okD(5) [OF T] by (simp add: hands_held_def)
      then show False by (cases "oc_pc s u") (auto simp: finish_simps off_role_def split: if_splits)
    qed
    ultimately obtain u where u: "g_loc g ?w = InList u" using w by (auto simp: listed_def)
    then have "?w \<in> set (g_list g u)"
      using world_okD(2) [OF tasks_okD(1) [OF T]] by (simp add: hands_ok_def)
    then have "\<exists>w' new q. oc_pc s u = CFinish w' new (FinWake q)"
      using once_list [OF T, of u] by fastforce
    then show ?thesis by (auto simp: finishing_def)
  qed
qed

fun once_running :: "'v once_pc \<Rightarrow> bool" where
  "once_running (CTop woken w a cx) = True"
| "once_running (CFinish w new u) = True"
| "once_running (CWait p) = mid_wait p"
| "once_running _ = False"

lemma once_reader_runs:
  "r_read (once_role xs p) \<Longrightarrow> once_running p \<and> once_task accepts f t (CRun b) W c p \<noteq> None"
  by (cases p) (auto simp: once_task_def finish_step_def finish_simps off_role_def split: finish_pc.splits if_splits)

lemma once_writer_runs:
  assumes "r_write (once_role xs p)"
  shows "once_running p \<and> once_task accepts f t (CRun b) W c p \<noteq> None"
proof (cases p)
  case (CWait q)
  then have "mid_wait q" using assms by (cases q) (auto simp: mid_wait_def)
  then show ?thesis using wait_write_runs [of 0 q t b W] assms CWait by (auto simp: once_task_def)
qed (use assms in \<open>auto simp: finish_simps off_role_def split: if_splits\<close>)

text \<open>
  No deadlock. While some task is inside a poll, a drop or \<open>finish\<close>, some such task can take
  its next step. Outside are the tasks that await their waiter or \<open>init\<close>.
\<close>

theorem once_cell_not_stuck:
  assumes "reach (once_init f) (once_step accepts f) s" "once_running (oc_pc s t)"
  shows "\<exists>u. once_running (oc_pc s u) \<and> once_step accepts f (u, CRun b) s \<noteq> None"
proof -
  obtain g fx a own where ok: "once_ok f (oc_world s) (oc_content s) (oc_pc s) g fx a own"
    by (rule once_reach_ok [OF assms(1)])
  note T = once_okD(1) [OF ok]
  have step: "once_step accepts f (u, CRun b) s \<noteq> None \<longleftrightarrow>
      once_task accepts f u (CRun b) (oc_world s) (oc_content s) (oc_pc s u) \<noteq> None" for u
    by (auto simp: once_step_def)
  from tasks_unblocked [OF T] show ?thesis
  proof (elim disjE exE)
    assume free: "\<forall>t. futex_lock t (oc_world s) f \<noteq> None \<and> write_lock t (oc_world s) f \<noteq> None"
    have "once_task accepts f t (CRun b) (oc_world s) (oc_content s) (oc_pc s t) \<noteq> None"
    proof (cases "oc_pc s t")
      case (CWait p)
      then show ?thesis
        using wait_mid_runs [of p f "heap (oc_world s)" t "oc_world s" b] free once_okD(2) [OF ok, of t] assms(2)
        by (auto simp: once_task_def)
    next
      case (CFinish w new u)
      then show ?thesis using free by (auto simp: once_task_def finish_step_def split: finish_pc.splits)
    qed (use assms(2) in \<open>simp_all add: once_task_def\<close>)
    then show ?thesis using step assms(2) by blast
  next
    fix u assume "r_write (once_role (g_list g u) (oc_pc s u))"
    from once_writer_runs [OF this] show ?thesis using step by blast
  next
    fix u assume "r_read (once_role (g_list g u) (oc_pc s u))"
    from once_reader_runs [OF this] show ?thesis using step by blast
  qed
qed

section \<open>Witnesses\<close>

text \<open>
  Task 1 finds the cell empty, task 2 waits, and task 1 gets its value (\<open>once_init_trace\<close>),
  publishes it (\<open>once_publish_trace\<close>), and both return it (\<open>once_all_trace\<close>).
\<close>

definition once_waker :: "nat \<Rightarrow> copy_waker" where
  "once_waker n = \<lparr>cw_data = of_nat n, cw_vtable = 9\<rparr>"

definition once_init_trace :: "(tid \<times> nat once_act) list" where
  "once_init_trace =
     [(1, CPoll (once_waker 1) 16), (1, CRun False), (2, CPoll (once_waker 2) 32), (2, CRun False)]"

definition once_publish_trace :: "(tid \<times> nat once_act) list" where
  "once_publish_trace = once_init_trace @ (1, CValue 42) # replicate 5 (1, CRun False)"

definition once_all_trace :: "(tid \<times> nat once_act) list" where
  "once_all_trace = once_publish_trace @ replicate 5 (1, CRun False) @
     [(2, CPoll (once_waker 2) 0), (2, CRun False), (2, CRun False)]"

definition once_after :: "(tid \<times> nat once_act) list \<Rightarrow> nat once_state" where
  "once_after es = (case run (once_step cas_orders_164 100) es (once_new 100) of Some (Inr s) \<Rightarrow> s | _ \<Rightarrow> once_new 100)"


lemma once_after_reach: "reach (once_init 100) (once_step cas_orders_164 100) (once_after es)"
proof (cases "\<exists>s. run (once_step cas_orders_164 100) es (once_new 100) = Some (Inr s)")
  case True
  then obtain s where s: "run (once_step cas_orders_164 100) es (once_new 100) = Some (Inr s)" by blast
  have "reach (once_init 100) (once_step cas_orders_164 100) (once_new 100 :: nat once_state)"
    by (rule reach.start) (simp add: once_init_def)
  from run_reach [OF this s] show ?thesis by (simp add: once_after_def s)
next
  case False
  then have "once_after es = once_new 100"
    by (auto simp: once_after_def split: option.splits sum.splits)
  then show ?thesis by (auto intro: reach.start simp: once_init_def)
qed


text \<open>With the atomics of the standard library the first call of \<open>get_or_init\<close> panics.\<close>

theorem once_std_panics:
  "run (once_step cas_orders 100) [(1, CPoll (once_waker 1) 16), (1, CRun False)] (once_new 100 :: nat once_state) =
     Some (Inl Panic)"
proof -
  have "(case run (once_step cas_orders 100) [(1, CPoll (once_waker 1) 16), (1, CRun False)] (once_new 100 :: nat once_state) of
      Some (Inl x) \<Rightarrow> x = Panic | _ \<Rightarrow> False)" by code_simp
  then show ?thesis by (auto split: option.splits sum.splits)
qed

theorem once_cell_single_init_witness:
  "active (oc_pc (once_after once_init_trace) 1) \<and> \<not> active (oc_pc (once_after once_init_trace) 2)"
proof -
  have a: "active (oc_pc (once_after once_init_trace) 1)" by code_simp
  with once_cell_single_init [OF once_after_reach a, of 2] show ?thesis by auto
qed

theorem once_cell_stable_witness:
  "\<exists>s'. run (once_step cas_orders_164 100) [(3, CPoll (once_waker 3) 48), (3, CRun False)] (once_after once_all_trace) = Some (Inr s') \<and>
     once_get 100 (oc_world s') (oc_content s') = Inr (Some 42)"
proof -
  let ?s = "once_after once_all_trace" and ?es = "[(3, CPoll (once_waker 3) 48), (3, CRun False)]"
  have "(case oc_pc ?s 2 of CDone v \<Rightarrow> v = 42 | _ \<Rightarrow> False)" by code_simp
  then have d: "oc_pc ?s 2 = CDone 42" by (auto split: once_pc.splits)
  have "(case run (once_step cas_orders_164 100) ?es ?s of Some (Inr _) \<Rightarrow> True | _ \<Rightarrow> False)" by code_simp
  then obtain s' where s': "run (once_step cas_orders_164 100) ?es ?s = Some (Inr s')"
    by (auto split: option.splits sum.splits)
  from once_cell_stable [OF once_after_reach d s'] s' show ?thesis by blast
qed

theorem once_cell_get_witness:
  "\<exists>a fx. futexes (oc_world (once_after once_init_trace)) 100 = Some fx \<and>
     fa_atom (futex_atom fx) = cell_atom_encode a \<and>
     once_get 100 (oc_world (once_after once_init_trace)) (oc_content (once_after once_init_trace)) =
       (case a of CellPoison \<Rightarrow> Inl Panic
        | CellInit \<Rightarrow> Inr (Some (the (oc_content (once_after once_init_trace)))) | _ \<Rightarrow> Inr None)"
  by (rule once_cell_get [OF once_after_reach])

theorem once_cell_no_lost_wakeup_witness:
  "(\<exists>u. finishing (oc_pc (once_after once_init_trace) u)) \<and> \<not> finishing (oc_pc (once_after once_init_trace) 2)"
proof -
  have "(case oc_pc (once_after once_init_trace) 2 of CWait (Suspended wait) \<Rightarrow>
      wkr (heap (oc_world (once_after once_init_trace))) (wf_waiter wait) \<noteq> WakerDone | _ \<Rightarrow> False)"
    by code_simp
  then obtain wait where w: "oc_pc (once_after once_init_trace) 2 = CWait (Suspended wait)"
    "wkr (heap (oc_world (once_after once_init_trace))) (wf_waiter wait) \<noteq> WakerDone"
    by (auto split: once_pc.splits wait_task.splits)
  from once_cell_no_lost_wakeup [OF once_after_reach w] w(1) show ?thesis by (auto simp: finishing_def)
qed

theorem once_cell_not_stuck_witness:
  "\<exists>u. once_running (oc_pc (once_after once_publish_trace) u) \<and>
     once_step cas_orders_164 100 (u, CRun True) (once_after once_publish_trace) \<noteq> None"
proof (rule once_cell_not_stuck [OF once_after_reach])
  show "once_running (oc_pc (once_after once_publish_trace) 1)" by code_simp
qed

end
