(* ===== verification/Rw_Lock.thy ===== *)
theory Rw_Lock imports Wake_Task begin

text \<open>
  \<open>src/rwlock.rs\<close>: the reader-writer lock. Its atom counts the active readers and the writers,
  the queued ones included, and its futex has one queue for each kind. A state is the memory
  and, for every task, its place in \<open>read\<close>, \<open>write\<close>, \<open>read_unlock\<close> or \<open>write_unlock\<close>.
\<close>

section \<open>The atom\<close>

text \<open>Both counters are truncated to half a word by \<open>as usize_half\<close>.\<close>

record rw_atom =
  ra_readers :: usize
  ra_writers :: usize

definition rw_encode :: "rw_atom \<Rightarrow> usize" where
  "rw_encode val = transmute2 (ucast (ra_readers val) :: usize_half) (ucast (ra_writers val))"

definition rw_decode :: "usize \<Rightarrow> rw_atom" where
  "rw_decode val =
     (case untransmute2 val of (readers, writers) \<Rightarrow>
        \<lparr>ra_readers = ucast (readers :: usize_half), ra_writers = ucast writers\<rparr>)"

definition rw_fits :: "rw_atom \<Rightarrow> bool" where
  "rw_fits a \<longleftrightarrow> unat (ra_readers a) < 2 ^ 32 \<and> unat (ra_writers a) < 2 ^ 32"

interpretation rw_pack: packable rw_encode rw_decode rw_fits
  by unfold_locales
    (simp add: rw_encode_def rw_decode_def rw_fits_def untransmute2_transmute2 half_up_down)

lemma rw_encode_decode: "rw_encode (rw_decode x) = x"
proof -
  obtain r w where e: "untransmute2 x = (r :: usize_half, w :: usize_half)"
    by (cases "untransmute2 x :: usize_half \<times> usize_half")
  have "transmute2 r w = x"
    using transmute2_untransmute2 [where 'h = 32 and 'w = 64, of x] e by simp
  then show ?thesis by (simp add: rw_encode_def rw_decode_def e half_down_up)
qed

lemma rw_decode_fits: "rw_fits (rw_decode x)"
  using half_less by (simp add: rw_fits_def rw_decode_def split: prod.split)

definition READ_QUEUE :: usize where "READ_QUEUE = 0"
definition WRITE_QUEUE :: usize where "WRITE_QUEUE = 1"

section \<open>read_unlock\<close>

text \<open>
  \<open>RULoad\<close> and \<open>RUTry\<close> are the load and the first loop; a leader, the last reader with writers
  queued, goes on to \<open>RULock\<close>, \<open>RUBorrow\<close> and the second loop \<open>RULoop\<close>, from where it hands the
  lock to a writer (\<open>RUDrop\<close>, \<open>RUWake\<close>, \<open>RUCall\<close>); \<open>RUUnborrow\<close> is the end of the branch in which
  no writer was found.
\<close>

datatype read_unlock_pc =
  RULoad
| RUTry raw_futex_atom
| RULock raw_futex_atom
| RUBorrow raw_futex_atom
| RULoop raw_futex_atom
| RUDrop ptr
| RUWake ptr
| RUCall copy_waker
| RUUnborrow
| RUUnlock
| RUDone

definition read_unlock_try ::
  "bool \<Rightarrow> ptr \<Rightarrow> world \<Rightarrow> raw_futex_atom \<Rightarrow> (read_unlock_pc \<times> world) res" where
  "read_unlock_try spurious f W s =
     (let atom = inner rw_decode s in
      if ra_readers atom = 1 \<and> ra_writers atom > 0 then Inr (RULock s, W)
      else
        bindR (checked_minus (ra_readers atom) 1) (\<lambda>readers.
        bindR (futex_cmpxchg_weak spurious ReleaseT RelaxedT W f s
                 (rw_encode (atom\<lparr>ra_readers := readers\<rparr>))) (\<lambda>(ok, s, W).
          Inr (if ok then RUDone else RUTry s, W))))"

definition read_unlock_hand ::
  "bool \<Rightarrow> ptr \<Rightarrow> world \<Rightarrow> raw_futex_atom \<Rightarrow> (read_unlock_pc \<times> world) res" where
  "read_unlock_hand spurious f W s =
     (let atom = inner rw_decode s in
      bindR (cmpxchg_enqueue_weak spurious AcqRelT RelaxedT W f s (rw_encode (atom\<lparr>ra_readers := 0\<rparr>)))
        (\<lambda>(ok, s, W).
           if ok then
             bindR (queue_pop W f WRITE_QUEUE) (\<lambda>(popped, W).
               case popped of
                 Some writer \<Rightarrow> bindR (ensure (ra_writers atom > 0)) (\<lambda>_. Inr (RUDrop writer, W))
               | None \<Rightarrow>
                   bindR (ensure (ra_writers atom = 0)) (\<lambda>_.
                   bindR (queue_pop W f READ_QUEUE) (\<lambda>(popped, W).
                   bindR (ensure (popped = None)) (\<lambda>_. Inr (RUUnborrow, W)))))
           else Inr (RULoop s, W)))"

definition read_unlock_step ::
  "bool \<Rightarrow> tid \<Rightarrow> ptr \<Rightarrow> world \<Rightarrow> read_unlock_pc \<Rightarrow> (read_unlock_pc \<times> world) res option" where
  "read_unlock_step spurious t f W u =
     (case u of
        RULoad \<Rightarrow> Some (bindR (futex_load RelaxedT W f) (\<lambda>s. Inr (RUTry s, W)))
      | RUTry s \<Rightarrow> Some (read_unlock_try spurious f W s)
      | RULock s \<Rightarrow> map_option (mapR (Pair (RUBorrow s))) (futex_lock t W f)
      | RUBorrow s \<Rightarrow> Some (mapR (Pair (RULoop s)) (queue_lock W f))
      | RULoop s \<Rightarrow> Some (read_unlock_hand spurious f W s)
      | RUDrop writer \<Rightarrow> Some (mapR (Pair (RUWake writer)) (queue_unlock W f))
      | RUWake writer \<Rightarrow> Some (bindR (wake_swap W writer) (\<lambda>(k, W). Inr (RUCall k, W)))
      | RUCall k \<Rightarrow> Some (Inr (RUUnlock, wake_call W k))
      | RUUnborrow \<Rightarrow> Some (mapR (Pair RUUnlock) (queue_unlock W f))
      | RUUnlock \<Rightarrow> Some (mapR (Pair RUDone) (futex_unlock t W f))
      | RUDone \<Rightarrow> None)"

section \<open>write_unlock\<close>

text \<open>
  The loop \<open>WULoop\<close> knows whether readers are queued. Without waiters it releases the borrow and
  tries to clear the atom (\<open>WUCas\<close>, \<open>WUReborrow\<close>). As the only writer it downgrades itself to a
  placeholder reader, takes all readers (\<open>WUUnborrow\<close>), adds them to the count (\<open>WUAdd\<close>) and wakes
  them (\<open>WUWake\<close>). Otherwise it hands the lock to the next writer (\<open>WUDrop\<close>, \<open>WUSwap\<close>, \<open>WUCall\<close>).
\<close>

datatype write_unlock_pc =
  WULock
| WUBorrow
| WULoad
| WULoop bool raw_futex_atom
| WUCas bool raw_futex_atom
| WUReborrow bool raw_futex_atom
| WUUnborrow waiter_list raw_futex_atom
| WUAdd waiter_list usize raw_futex_atom
| WUWake wake_pc
| WUDrop ptr
| WUSwap ptr
| WUCall copy_waker
| WUUnlock
| WUDone

definition write_unlock_downgrade ::
  "bool \<Rightarrow> ptr \<Rightarrow> world \<Rightarrow> bool \<Rightarrow> raw_futex_atom \<Rightarrow> (write_unlock_pc \<times> world) res" where
  "write_unlock_downgrade spurious f W has_readers s =
     bindR (cmpxchg_enqueue_weak spurious AcqRelT RelaxedT W f s
              (rw_encode \<lparr>ra_readers = 1, ra_writers = 0\<rparr>)) (\<lambda>(ok, s, W).
       if ok then
         bindR (queue_pop W f WRITE_QUEUE) (\<lambda>(popped, W).
         bindR (ensure (popped = None)) (\<lambda>_.
         bindR (queue_pop_many W f usize_MAX READ_QUEUE) (\<lambda>(readers, W). Inr (WUUnborrow readers s, W))))
       else Inr (WULoop has_readers s, W))"

definition write_unlock_hand ::
  "bool \<Rightarrow> ptr \<Rightarrow> world \<Rightarrow> bool \<Rightarrow> raw_futex_atom \<Rightarrow> (write_unlock_pc \<times> world) res" where
  "write_unlock_hand spurious f W has_readers s =
     (let atom = inner rw_decode s in
      bindR (checked_minus (ra_writers atom) 1) (\<lambda>writers.
      bindR (cmpxchg_enqueue_weak spurious AcqRelT RelaxedT W f s
               (rw_encode (atom\<lparr>ra_writers := writers\<rparr>))) (\<lambda>(ok, s, W).
        if ok then
          bindR (ensure (ra_writers atom > 1)) (\<lambda>_.
          bindR (queue_pop W f WRITE_QUEUE) (\<lambda>(popped, W).
            case popped of Some writer \<Rightarrow> Inr (WUDrop writer, W) | None \<Rightarrow> Inl Panic))
        else Inr (WULoop has_readers s, W))))"

definition write_unlock_loop ::
  "bool \<Rightarrow> ptr \<Rightarrow> world \<Rightarrow> bool \<Rightarrow> raw_futex_atom \<Rightarrow> (write_unlock_pc \<times> world) res" where
  "write_unlock_loop spurious f W has_readers s =
     (let atom = inner rw_decode s in
      bindR (ensure (ra_readers atom = 0)) (\<lambda>_.
        if ra_writers atom = 1 \<and> \<not> has_readers \<and> \<not> has_new_waiters s then
          mapR (Pair (WUCas has_readers s)) (queue_unlock W f)
        else if ra_writers atom = 1 then write_unlock_downgrade spurious f W has_readers s
        else write_unlock_hand spurious f W has_readers s))"

text \<open>The placeholder is replaced by the readers that were popped.\<close>

definition write_unlock_add ::
  "bool \<Rightarrow> ptr \<Rightarrow> world \<Rightarrow> waiter_list \<Rightarrow> usize \<Rightarrow> raw_futex_atom \<Rightarrow> (write_unlock_pc \<times> world) res" where
  "write_unlock_add spurious f W readers count s =
     (let atom = inner rw_decode s in
      bindR (bindR (checked_plus (ra_readers atom) count) (\<lambda>n. checked_minus n 1)) (\<lambda>n.
      bindR (futex_cmpxchg_weak spurious RelaxedT RelaxedT W f s (rw_encode (atom\<lparr>ra_readers := n\<rparr>)))
        (\<lambda>(ok, s, W). Inr (if ok then WUWake (WakeNext readers) else WUAdd readers count s, W))))"

definition write_unlock_step ::
  "bool \<Rightarrow> tid \<Rightarrow> ptr \<Rightarrow> world \<Rightarrow> write_unlock_pc \<Rightarrow> (write_unlock_pc \<times> world) res option" where
  "write_unlock_step spurious t f W u =
     (case u of
        WULock \<Rightarrow> map_option (mapR (Pair WUBorrow)) (futex_lock t W f)
      | WUBorrow \<Rightarrow> Some (mapR (Pair WULoad) (queue_lock W f))
      | WULoad \<Rightarrow> Some (
          bindR (futex_load RelaxedT W f) (\<lambda>s.
          bindR (queue_is_empty W f READ_QUEUE) (\<lambda>empty. Inr (WULoop (\<not> empty) s, W))))
      | WULoop has_readers s \<Rightarrow> Some (write_unlock_loop spurious f W has_readers s)
      | WUCas has_readers s \<Rightarrow> Some (
          bindR (futex_cmpxchg_weak spurious ReleaseT RelaxedT W f s
                   (rw_encode \<lparr>ra_readers = 0, ra_writers = 0\<rparr>)) (\<lambda>(ok, s, W).
            Inr (if ok then WUUnlock else WUReborrow has_readers s, W)))
      | WUReborrow has_readers s \<Rightarrow> Some (mapR (Pair (WULoop has_readers s)) (queue_lock W f))
      | WUUnborrow readers s \<Rightarrow> Some (
          bindR (queue_unlock W f) (\<lambda>W.
          bindR (iter_list (heap W) readers) (\<lambda>ws.
            Inr (WUAdd readers (of_nat (length ws)) s, W))))
      | WUAdd readers count s \<Rightarrow> Some (write_unlock_add spurious f W readers count s)
      | WUWake p \<Rightarrow> Some (
          bindR (wake_step W p) (\<lambda>(r, W).
            Inr (case r of Some p \<Rightarrow> WUWake p | None \<Rightarrow> WUUnlock, W)))
      | WUDrop writer \<Rightarrow> Some (mapR (Pair (WUSwap writer)) (queue_unlock W f))
      | WUSwap writer \<Rightarrow> Some (bindR (wake_swap W writer) (\<lambda>(k, W). Inr (WUCall k, W)))
      | WUCall k \<Rightarrow> Some (Inr (WUUnlock, wake_call W k))
      | WUUnlock \<Rightarrow> Some (mapR (Pair WUDone) (futex_unlock t W f))
      | WUDone \<Rightarrow> None)"

section \<open>read and write\<close>

text \<open>
  A task is \<open>RwIdle\<close>; at the top of the loop of \<open>read\<close> or \<open>write\<close> (\<open>RwTop\<close>, the flag says
  \<open>write\<close>), suspended in the wait (\<open>RwWait\<close>), the holder of a guard (\<open>RwHeld\<close>), or inside one of
  the unlock functions, called by the drop of a guard or by \<open>on_cancel_woken\<close> with the waiter
  that is still to be cleared (\<open>RwUnlock\<close>).
\<close>

datatype rw_unlock = RU read_unlock_pc | WU write_unlock_pc

datatype rw_pc =
  RwIdle
| RwTop bool ptr raw_futex_atom copy_waker
| RwWait bool wait_task
| RwHeld bool
| RwUnlock "ptr option" rw_unlock

text \<open>
  The environment starts \<open>read\<close> or \<open>write\<close> (with the address where the waiter is pinned), polls
  again, drops a future or a guard, or lets the task take a step.
\<close>

datatype rw_act = RwStart bool copy_waker ptr | RwPoll copy_waker | RwDrop | RwRun bool

record rw_state =
  rw_world :: world
  rw_pcs :: "tid \<Rightarrow> rw_pc"

definition rw_new :: "ptr \<Rightarrow> rw_state" where
  "rw_new f =
     \<lparr>rw_world = \<lparr>heap = Map.empty,
        futexes = [f \<mapsto> futex_new (rw_encode \<lparr>ra_readers = 0, ra_writers = 0\<rparr>) 2],
        clones = [], wakes = [], drops = []\<rparr>,
      rw_pcs = (\<lambda>_. RwIdle)\<rparr>"

definition rw_queue :: "bool \<Rightarrow> usize" where
  "rw_queue write = (if write then WRITE_QUEUE else READ_QUEUE)"

definition rw_start :: "ptr \<Rightarrow> bool \<Rightarrow> copy_waker \<Rightarrow> ptr \<Rightarrow> world \<Rightarrow> (rw_pc \<times> world) res option" where
  "rw_start f write cx addr W =
     (case new_waiter W f 0 (rw_queue write) addr of
        None \<Rightarrow> None
      | Some W \<Rightarrow> Some (bindR (futex_load RelaxedT W f) (\<lambda>s. Inr (RwTop write addr s cx, W))))"

text \<open>
  One iteration of the loop: the compare-exchange that takes the lock, after which the waiter is
  dropped, or the first poll of the wait.
\<close>

definition rw_acquire ::
  "bool \<Rightarrow> ptr \<Rightarrow> world \<Rightarrow> bool \<Rightarrow> ptr \<Rightarrow> raw_futex_atom \<Rightarrow> copy_waker \<Rightarrow> usize \<Rightarrow> (rw_pc \<times> world) res" where
  "rw_acquire spurious f W write w s cx new =
     bindR (futex_cmpxchg_weak spurious AcquireT RelaxedT W f s new) (\<lambda>(ok, s, W).
       if ok then mapR (Pair (RwHeld write)) (waiter_drop W w) else Inr (RwTop write w s cx, W))"

definition rw_park ::
  "bool \<Rightarrow> ptr \<Rightarrow> world \<Rightarrow> bool \<Rightarrow> ptr \<Rightarrow> raw_futex_atom \<Rightarrow> copy_waker \<Rightarrow> usize \<Rightarrow> (rw_pc \<times> world) res" where
  "rw_park spurious f W write w s cx new =
     bindR (wait_begin spurious f W w s new cx) (\<lambda>(r, W).
       Inr (case r of Inl s \<Rightarrow> RwTop write w s cx | Inr p \<Rightarrow> RwWait write p, W))"

definition read_iter ::
  "bool \<Rightarrow> ptr \<Rightarrow> world \<Rightarrow> ptr \<Rightarrow> raw_futex_atom \<Rightarrow> copy_waker \<Rightarrow> (rw_pc \<times> world) res" where
  "read_iter spurious f W w s cx =
     (let atom = inner rw_decode s in
      if ra_writers atom = 0 then
        bindR (checked_plus (ra_readers atom) 1) (\<lambda>readers.
          rw_acquire spurious f W False w s cx (rw_encode \<lparr>ra_readers = readers, ra_writers = 0\<rparr>))
      else rw_park spurious f W False w s cx (rw_encode atom))"

definition write_iter ::
  "bool \<Rightarrow> ptr \<Rightarrow> world \<Rightarrow> ptr \<Rightarrow> raw_futex_atom \<Rightarrow> copy_waker \<Rightarrow> (rw_pc \<times> world) res" where
  "write_iter spurious f W w s cx =
     (let atom = inner rw_decode s in
      if atom = \<lparr>ra_readers = 0, ra_writers = 0\<rparr> then
        rw_acquire spurious f W True w s cx (rw_encode \<lparr>ra_readers = 0, ra_writers = 1\<rparr>)
      else
        bindR (checked_plus (ra_writers atom) 1) (\<lambda>writers.
          rw_park spurious f W True w s cx (rw_encode (atom\<lparr>ra_writers := writers\<rparr>))))"

text \<open>
  After a step of the wait. A woken task has the lock. Cancelled, a woken task unlocks; a
  sleeping reader just leaves, and a sleeping writer runs into the \<open>todo!()\<close> of \<open>write_abort\<close>.
\<close>

definition rw_waited :: "bool \<Rightarrow> wait_out \<times> world \<Rightarrow> (rw_pc \<times> world) res" where
  "rw_waited write = (\<lambda>(out, W).
     case out of
       Still p \<Rightarrow> Inr (RwWait write p, W)
     | Returned woken wait cx \<Rightarrow>
         if woken then mapR (Pair (RwHeld write)) (waiter_drop W (wf_waiter wait))
         else Inr (RwTop write (wf_waiter wait) (wf_current wait) cx, W)
     | Cancelled c w \<Rightarrow> (case c of
           Some True \<Rightarrow> Inr (RwUnlock (Some w) (if write then WU WULock else RU RULoad), W)
         | Some False \<Rightarrow>
             if write then Inl Todo else mapR (Pair RwIdle) (wait_finish W c w)
         | None \<Rightarrow> mapR (Pair RwIdle) (wait_finish W c w)))"

definition rw_unlock_step ::
  "bool \<Rightarrow> tid \<Rightarrow> ptr \<Rightarrow> world \<Rightarrow> rw_unlock \<Rightarrow> (rw_unlock \<times> world) res option" where
  "rw_unlock_step spurious t f W u =
     (case u of
        RU u \<Rightarrow> map_option (mapR (\<lambda>(u, W). (RU u, W))) (read_unlock_step spurious t f W u)
      | WU u \<Rightarrow> map_option (mapR (\<lambda>(u, W). (WU u, W))) (write_unlock_step spurious t f W u))"

definition rw_unlocked :: "world \<Rightarrow> ptr option \<Rightarrow> (rw_pc \<times> world) res" where
  "rw_unlocked W c =
     (case c of None \<Rightarrow> Inr (RwIdle, W) | Some w \<Rightarrow> mapR (Pair RwIdle) (wait_finish W (Some True) w))"

definition rw_task ::
  "ptr \<Rightarrow> tid \<Rightarrow> rw_act \<Rightarrow> world \<Rightarrow> rw_pc \<Rightarrow> (rw_pc \<times> world) res option" where
  "rw_task f t act W p =
     (case p of
        RwIdle \<Rightarrow> (case act of RwStart write cx addr \<Rightarrow> rw_start f write cx addr W | _ \<Rightarrow> None)
      | RwTop write w s cx \<Rightarrow> (case act of
          RwRun spurious \<Rightarrow> Some (
            if write then write_iter spurious f W w s cx else read_iter spurious f W w s cx)
        | _ \<Rightarrow> None)
      | RwWait write p \<Rightarrow> map_option (\<lambda>r. bindR r (rw_waited write))
          (case act of
             RwPoll cx \<Rightarrow> wait_advance t (Repoll cx) W p
           | RwDrop \<Rightarrow> wait_advance t Abandon W p
           | RwRun spurious \<Rightarrow> wait_advance t (Step spurious) W p
           | RwStart _ _ _ \<Rightarrow> None)
      | RwHeld write \<Rightarrow> (case act of
          RwDrop \<Rightarrow> Some (Inr (RwUnlock None (if write then WU WULock else RU RULoad), W))
        | _ \<Rightarrow> None)
      | RwUnlock c u \<Rightarrow> (case act of
          RwRun spurious \<Rightarrow>
            if u = RU RUDone \<or> u = WU WUDone then Some (rw_unlocked W c)
            else map_option (mapR (\<lambda>(u, W). (RwUnlock c u, W))) (rw_unlock_step spurious t f W u)
        | _ \<Rightarrow> None))"

definition rw_step :: "ptr \<Rightarrow> (tid \<times> rw_act, rw_state) machine" where
  "rw_step f = (\<lambda>(t, act) s.
     map_option (mapR (\<lambda>(p, W). s\<lparr>rw_world := W, rw_pcs := (rw_pcs s)(t := p)\<rparr>))
       (rw_task f t act (rw_world s) (rw_pcs s t)))"

text \<open>
  The use of the lock that its code supports: a pending \<open>write\<close> is only dropped once it has been
  woken (\<open>write_abort\<close>, which runs otherwise, is \<open>todo!()\<close>), and there are at most \<open>N\<close> tasks, so
  that the counters fit into half a word.
\<close>

definition rw_allowed :: "nat \<Rightarrow> tid \<times> rw_act \<Rightarrow> rw_state \<Rightarrow> bool" where
  "rw_allowed N = (\<lambda>(t, act) s. t < N \<and>
     (case rw_pcs s t of
        RwWait write p \<Rightarrow> write \<and> act = RwDrop \<longrightarrow> wkr (heap (rw_world s)) (wait_waiter p) = WakerDone
      | _ \<Rightarrow> True))"

definition rw_machine :: "ptr \<Rightarrow> nat \<Rightarrow> (tid \<times> rw_act, rw_state) machine" where
  "rw_machine f N e s = (if rw_allowed N e s then rw_step f e s else None)"

end
