(* ===== verification/Rw_Inv.thy ===== *)
theory Rw_Inv imports Rw_Lock begin

text \<open>
  The invariant of \<open>src/rwlock.rs\<close>. The reader count is the number of tasks with a reader
  token, the writer count the number of tasks with a writer token; the lock is owned by at most
  one writer, and then no task has a reader token. A reader that was popped by a downgrading
  writer has its token from the moment the writer has added it to the count.
\<close>

section \<open>Roles\<close>

definition ru_role :: "read_unlock_pc \<Rightarrow> role" where
  "ru_role u = idle_role\<lparr>
     r_read := (case u of RULoad \<Rightarrow> False | RUTry _ \<Rightarrow> False | RULock _ \<Rightarrow> False | RUDone \<Rightarrow> False | _ \<Rightarrow> True),
     r_borrow := (case u of RULoop _ \<Rightarrow> True | RUDrop _ \<Rightarrow> True | RUUnborrow \<Rightarrow> True | _ \<Rightarrow> False),
     r_hand := (case u of RUDrop w \<Rightarrow> Some w | RUWake w \<Rightarrow> Some w | _ \<Rightarrow> None)\<rparr>"

definition wu_role :: "ptr list \<Rightarrow> write_unlock_pc \<Rightarrow> role" where
  "wu_role xs u = idle_role\<lparr>
     r_read := (case u of WULock \<Rightarrow> False | WUDone \<Rightarrow> False | _ \<Rightarrow> True),
     r_borrow := (case u of WULoad \<Rightarrow> True | WULoop _ _ \<Rightarrow> True | WUUnborrow _ _ \<Rightarrow> True | WUDrop _ \<Rightarrow> True
                  | _ \<Rightarrow> False),
     r_hand := (case u of WUDrop w \<Rightarrow> Some w | WUSwap w \<Rightarrow> Some w | _ \<Rightarrow> None),
     r_list := (case u of WUUnborrow _ _ \<Rightarrow> xs | WUAdd _ _ _ \<Rightarrow> xs | WUWake _ \<Rightarrow> xs | _ \<Rightarrow> [])\<rparr>"

definition rw_q :: "bool \<Rightarrow> nat" where
  "rw_q write = (if write then 1 else 0)"

definition kept_stage :: "ptr option \<Rightarrow> stage" where
  "kept_stage c = (case c of None \<Rightarrow> NoWaiter | Some w \<Rightarrow> Off w)"

fun rw_role :: "ptr list \<Rightarrow> rw_pc \<Rightarrow> role" where
  "rw_role xs (RwTop write w s cx) = idle_role\<lparr>r_stage := Fresh w (rw_q write)\<rparr>"
| "rw_role xs (RwWait write p) = wait_role (rw_q write) p"
| "rw_role xs (RwUnlock c (RU u)) = (ru_role u)\<lparr>r_stage := kept_stage c\<rparr>"
| "rw_role xs (RwUnlock c (WU u)) = (wu_role xs u)\<lparr>r_stage := kept_stage c\<rparr>"
| "rw_role xs _ = idle_role"

lemmas rw_simps = ru_role_def wu_role_def

section \<open>Tokens\<close>

definition ru_reads :: "read_unlock_pc \<Rightarrow> bool" where
  "ru_reads u = (case u of RULoad \<Rightarrow> True | RUTry _ \<Rightarrow> True | RULock _ \<Rightarrow> True | RUBorrow _ \<Rightarrow> True
     | RULoop _ \<Rightarrow> True | _ \<Rightarrow> False)"

definition wu_writes :: "write_unlock_pc \<Rightarrow> bool" where
  "wu_writes u = (case u of WULock \<Rightarrow> True | WUBorrow \<Rightarrow> True | WULoad \<Rightarrow> True | WULoop _ _ \<Rightarrow> True
     | WUCas _ _ \<Rightarrow> True | WUReborrow _ _ \<Rightarrow> True | _ \<Rightarrow> False)"

definition wu_placeholder :: "write_unlock_pc \<Rightarrow> bool" where
  "wu_placeholder u = (case u of WUUnborrow _ _ \<Rightarrow> True | WUAdd _ _ _ \<Rightarrow> True | _ \<Rightarrow> False)"

text \<open>\<open>C\<close> is the set of popped readers that have been added to the count.\<close>

fun rtok :: "heap \<Rightarrow> ptr set \<Rightarrow> rw_pc \<Rightarrow> bool" where
  "rtok h C (RwHeld write) = (\<not> write)"
| "rtok h C (RwWait write p) =
     (\<not> write \<and> (wkr h (wait_waiter p) = WakerDone \<or> wait_waiter p \<in> C))"
| "rtok h C (RwUnlock c (RU u)) = ru_reads u"
| "rtok h C (RwUnlock c (WU u)) = wu_placeholder u"
| "rtok h C _ = False"

fun wtok :: "rw_pc \<Rightarrow> bool" where
  "wtok (RwHeld write) = write"
| "wtok (RwWait write p) = write"
| "wtok (RwUnlock c (WU u)) = wu_writes u"
| "wtok _ = False"

text \<open>
  The writer that owns the lock, or the task that is handing it to one.
\<close>

definition ru_owns :: "read_unlock_pc \<Rightarrow> bool" where
  "ru_owns u = (case u of RUDrop _ \<Rightarrow> True | RUWake _ \<Rightarrow> True | _ \<Rightarrow> False)"

definition wu_owns :: "write_unlock_pc \<Rightarrow> bool" where
  "wu_owns u \<longleftrightarrow> wu_writes u \<or> (case u of WUDrop _ \<Rightarrow> True | WUSwap _ \<Rightarrow> True | _ \<Rightarrow> False)"

fun rw_owns :: "heap \<Rightarrow> rw_pc \<Rightarrow> bool" where
  "rw_owns h (RwHeld write) = write"
| "rw_owns h (RwWait write p) = (write \<and> wkr h (wait_waiter p) = WakerDone)"
| "rw_owns h (RwUnlock c (RU u)) = ru_owns u"
| "rw_owns h (RwUnlock c (WU u)) = wu_owns u"
| "rw_owns h _ = False"

text \<open>The last reader, from the snapshot that shows it to the hand-over to a writer.\<close>

fun leader :: "rw_pc \<Rightarrow> bool" where
  "leader (RwUnlock c (RU u)) =
     (case u of
        RUTry s \<Rightarrow> ra_readers (rw_decode (fa_atom s)) = 1 \<and> ra_writers (rw_decode (fa_atom s)) > 0
      | RULock _ \<Rightarrow> True | RUBorrow _ \<Rightarrow> True | RULoop _ \<Rightarrow> True | _ \<Rightarrow> False)"
| "leader _ = False"

fun waking :: "rw_pc \<Rightarrow> bool" where
  "waking (RwUnlock c (WU u)) = (case u of WUWake _ \<Rightarrow> True | _ \<Rightarrow> False)"
| "waking _ = False"

definition counted :: "(tid \<Rightarrow> ptr list) \<Rightarrow> (tid \<Rightarrow> rw_pc) \<Rightarrow> ptr set" where
  "counted L pc = {w. \<exists>u. waking (pc u) \<and> w \<in> set (L u)}"

section \<open>The invariant\<close>

definition wu_snap :: "raw_futex_atom \<Rightarrow> bool" where
  "wu_snap s \<longleftrightarrow> ra_readers (rw_decode (fa_atom s)) = 0 \<and> ra_writers (rw_decode (fa_atom s)) \<noteq> 0"

definition wu_ok :: "ptr list \<Rightarrow> bool \<Rightarrow> write_unlock_pc \<Rightarrow> bool" where
  "wu_ok xs queued u =
     (case u of
        WULoop hr s \<Rightarrow> hr = queued \<and> wu_snap s
      | WUReborrow hr s \<Rightarrow> hr = queued \<and> wu_snap s
      | WUCas hr s \<Rightarrow> hr = queued \<and> \<not> queued \<and> ra_writers (rw_decode (fa_atom s)) = 1 \<and> fa_inbox s = null \<and> wu_snap s
      | WUUnborrow l s \<Rightarrow> list_ends l xs \<and> xs \<noteq> []
      | WUAdd l c s \<Rightarrow> list_ends l xs \<and> xs \<noteq> [] \<and> c = of_nat (length xs)
      | WUWake q \<Rightarrow> list_ends (wake_list q) xs
      | _ \<Rightarrow> True)"

definition ru_ok :: "read_unlock_pc \<Rightarrow> bool" where
  "ru_ok u =
     (case u of RUTry s \<Rightarrow> ra_readers (rw_decode (fa_atom s)) \<noteq> 0 | RUUnborrow \<Rightarrow> False | _ \<Rightarrow> True)"

text \<open>Readers are popped many at a time, writers one by one.\<close>

definition rw_sorted :: "ghost \<Rightarrow> bool \<Rightarrow> ptr \<Rightarrow> bool" where
  "rw_sorted g write w \<longleftrightarrow>
     (if write then \<forall>u. g_loc g w \<noteq> InList u else \<forall>u. g_loc g w \<noteq> InHand u)"

fun rw_pc_ok :: "ptr \<Rightarrow> heap \<Rightarrow> ghost \<Rightarrow> tid \<Rightarrow> rw_pc \<Rightarrow> bool" where
  "rw_pc_ok f h g t (RwWait write p) =
     (wait_task_ok f h p \<and> (write \<longrightarrow> (\<forall>w d. p = Dropping w d \<longrightarrow> wkr h w = WakerDone)) \<and> rw_sorted g write (wait_waiter p))"
| "rw_pc_ok f h g t (RwUnlock c (RU u)) = ru_ok u"
| "rw_pc_ok f h g t (RwUnlock c (WU u)) = wu_ok (g_list g t) (g_queues g f ! 0 \<noteq> []) u"
| "rw_pc_ok f h g t _ = True"

definition rw_count :: "tid set \<Rightarrow> tid set \<Rightarrow> usize" where
  "rw_count rs ws = rw_encode \<lparr>ra_readers = of_nat (card rs), ra_writers = of_nat (card ws)\<rparr>"

definition rw_ok ::
  "ptr \<Rightarrow> nat \<Rightarrow> world \<Rightarrow> (tid \<Rightarrow> rw_pc) \<Rightarrow> ghost \<Rightarrow> raw_futex \<Rightarrow> tid option \<Rightarrow> tid set \<Rightarrow> tid set \<Rightarrow> bool" where
  "rw_ok f N W pc g fx own rs ws \<longleftrightarrow>
     tasks_ok f 2 W g fx (\<lambda>t. rw_role (g_list g t) (pc t)) \<and>
     (\<forall>t. rw_pc_ok f (heap W) g t (pc t)) \<and> (\<forall>t. pc t \<noteq> RwIdle \<longrightarrow> t < N) \<and> N < 2 ^ 32 \<and>
     (\<forall>t. t \<in> rs \<longleftrightarrow> rtok (heap W) (counted (g_list g) pc) (pc t)) \<and> (\<forall>t. t \<in> ws \<longleftrightarrow> wtok (pc t)) \<and>
     (\<forall>t. rw_owns (heap W) (pc t) \<longleftrightarrow> own = Some t) \<and>
     fa_atom (futex_atom fx) = rw_count rs ws \<and>
     (\<forall>t. leader (pc t) \<longrightarrow> rs = {t} \<and> ws \<noteq> {}) \<and>
     (own \<noteq> None \<longrightarrow> rs = {} \<and> ws \<noteq> {}) \<and> (own = None \<and> ws \<noteq> {} \<longrightarrow> rs \<noteq> {}) \<and>
     (ws = {} \<longrightarrow> g_inbox g f = [] \<and> g_queues g f ! 0 = [])"

definition rw_inv :: "ptr \<Rightarrow> nat \<Rightarrow> rw_state \<Rightarrow> bool" where
  "rw_inv f N s \<longleftrightarrow> (\<exists>g fx own rs ws. rw_ok f N (rw_world s) (rw_pcs s) g fx own rs ws)"

lemma rw_okD:
  assumes "rw_ok f N W pc g fx own rs ws"
  shows "tasks_ok f 2 W g fx (\<lambda>t. rw_role (g_list g t) (pc t))" "rw_pc_ok f (heap W) g t (pc t)"
    "pc t \<noteq> RwIdle \<Longrightarrow> t < N" "N < 2 ^ 32"
    "t \<in> rs \<longleftrightarrow> rtok (heap W) (counted (g_list g) pc) (pc t)" "t \<in> ws \<longleftrightarrow> wtok (pc t)"
    "rw_owns (heap W) (pc t) \<longleftrightarrow> own = Some t" "fa_atom (futex_atom fx) = rw_count rs ws"
    "leader (pc t) \<Longrightarrow> rs = {t} \<and> ws \<noteq> {}" "own \<noteq> None \<Longrightarrow> rs = {} \<and> ws \<noteq> {}"
    "own = None \<Longrightarrow> ws \<noteq> {} \<Longrightarrow> rs \<noteq> {}" "ws = {} \<Longrightarrow> g_inbox g f = [] \<and> g_queues g f ! 0 = []"
  using assms unfolding rw_ok_def by blast+

text \<open>The counters are within their half words, and can be read back.\<close>

lemma rw_bounds:
  assumes ok: "rw_ok f N W pc g fx own rs ws"
  shows "finite rs" "finite ws" "card rs \<le> N" "card ws \<le> N"
    "rw_decode (fa_atom (futex_atom fx)) = \<lparr>ra_readers = of_nat (card rs), ra_writers = of_nat (card ws)\<rparr>"
proof -
  have "rs \<subseteq> {..<N}" using rw_okD(3,5) [OF ok] by (force simp: subset_iff)
  then show rs: "finite rs" "card rs \<le> N"
    using finite_subset card_mono [of "{..<N}" rs] by auto
  have "ws \<subseteq> {..<N}" using rw_okD(3,6) [OF ok] by (force simp: subset_iff)
  then show ws: "finite ws" "card ws \<le> N"
    using finite_subset card_mono [of "{..<N}" ws] by auto
  have "rw_fits \<lparr>ra_readers = of_nat (card rs), ra_writers = of_nat (card ws)\<rparr>"
    using rs ws rw_okD(4) [OF ok] by (simp add: rw_fits_def unat_of_nat take_bit_nat_eq_self)
  then show "rw_decode (fa_atom (futex_atom fx)) = \<lparr>ra_readers = of_nat (card rs), ra_writers = of_nat (card ws)\<rparr>"
    using rw_okD(8) [OF ok] rw_pack.decode_encode by (simp add: rw_count_def)
qed

lemma usize_of_nat_eq:
  "n < 2 ^ 32 \<Longrightarrow> m < 2 ^ 32 \<Longrightarrow> (of_nat n :: usize) = of_nat m \<longleftrightarrow> n = m"
  by (simp add: of_nat_eq_iff unat_of_nat take_bit_nat_eq_self word_unat_eq_iff)

lemma rw_zero:
  assumes ok: "rw_ok f N W pc g fx own rs ws"
  shows "(of_nat (card rs) :: usize) = 0 \<longleftrightarrow> rs = {}" "(of_nat (card ws) :: usize) = 0 \<longleftrightarrow> ws = {}"
    "(of_nat (card rs) :: usize) = 1 \<longleftrightarrow> card rs = 1" "(of_nat (card ws) :: usize) = 1 \<longleftrightarrow> card ws = 1"
  using rw_bounds [OF ok] rw_okD(4) [OF ok] usize_of_nat_eq [of "card rs" 0] usize_of_nat_eq [of "card ws" 0]
    usize_of_nat_eq [of "card rs" 1] usize_of_nat_eq [of "card ws" 1]
  by auto

section \<open>Steps\<close>

lemma rw_roles:
  "(\<And>u. u \<noteq> t \<Longrightarrow> g_list g' u = g_list g u) \<Longrightarrow>
     (\<lambda>u. rw_role (g_list g' u) ((pc(t := p)) u)) =
     (\<lambda>u. rw_role (g_list g u) (pc u))(t := rw_role (g_list g' t) p)"
  by auto

text \<open>The tasks that rely on the read queue being as they found it hold the read guard.\<close>

definition scans :: "rw_pc \<Rightarrow> bool" where
  "scans p \<longleftrightarrow> (\<exists>c hr s. p = RwUnlock c (WU (WULoop hr s)) \<or> p = RwUnlock c (WU (WUReborrow hr s)) \<or>
     p = RwUnlock c (WU (WUCas hr s)))"

lemma scans_reads: "scans p \<Longrightarrow> r_read (rw_role xs p)" "scans p \<Longrightarrow> rw_owns h p"
  by (auto simp: scans_def rw_simps wu_owns_def wu_writes_def)

text \<open>What another task's step must leave alone.\<close>

lemma rw_pc_ok_step:
  assumes p: "rw_pc_ok f h g u p" and lists: "g_list g' u = g_list g u"
    and woken: "\<And>w. stage_waiter (r_stage (rw_role xs p)) = Some w \<Longrightarrow> wkr h w = WakerDone \<Longrightarrow> wkr h' w = WakerDone"
    and sort: "\<And>b q. p = RwWait b q \<Longrightarrow> rw_sorted g b (wait_waiter q) \<Longrightarrow> rw_sorted g' b (wait_waiter q)"
    and queue: "scans p \<Longrightarrow> (g_queues g' f ! 0 = []) = (g_queues g f ! 0 = [])"
  shows "rw_pc_ok f h' g' u p"
proof (cases p)
  case (RwWait b q)
  have "wkr h (wait_waiter q) = WakerDone \<Longrightarrow> wkr h' (wait_waiter q) = WakerDone"
    using woken RwWait waiter_stage by auto
  moreover from this have "wait_task_ok f h' q" using p RwWait by (cases q) auto
  ultimately show ?thesis using p sort RwWait by auto
next
  case (RwUnlock c v)
  show ?thesis
  proof (cases v)
    case (WU x)
    with p lists queue RwUnlock show ?thesis
      by (cases x) (auto simp: wu_ok_def scans_def)
  qed (use p RwUnlock in auto)
qed (use p in auto)

lemma rw_ok_step:
  assumes ok: "rw_ok f N W pc g fx own rs ws" and N: "t < N"
    and T: "tasks_ok f 2 W' g' fx' ((\<lambda>u. rw_role (g_list g u) (pc u))(t := rw_role (g_list g' t) p))"
    and lists: "\<And>u. u \<noteq> t \<Longrightarrow> g_list g' u = g_list g u"
    and woken: "\<And>u w. u \<noteq> t \<Longrightarrow> stage_waiter (r_stage (rw_role (g_list g u) (pc u))) = Some w \<Longrightarrow>
        wkr (heap W) w = WakerDone \<Longrightarrow> wkr (heap W') w = WakerDone"
    and p: "rw_pc_ok f (heap W') g' t p"
    and sort: "\<And>u b q. u \<noteq> t \<Longrightarrow> pc u = RwWait b q \<Longrightarrow> rw_sorted g b (wait_waiter q) \<Longrightarrow> rw_sorted g' b (wait_waiter q)"
    and queue: "\<And>u. u \<noteq> t \<Longrightarrow> scans (pc u) \<Longrightarrow> (g_queues g' f ! 0 = []) = (g_queues g f ! 0 = [])"
    and rs: "\<And>u. u \<in> rs' \<longleftrightarrow> rtok (heap W') (counted (g_list g') (pc(t := p))) ((pc(t := p)) u)"
    and ws: "\<And>u. u \<in> ws' \<longleftrightarrow> wtok ((pc(t := p)) u)"
    and own: "\<And>u. rw_owns (heap W') ((pc(t := p)) u) \<longleftrightarrow> own' = Some u"
    and atom: "fa_atom (futex_atom fx') = rw_count rs' ws'"
    and lead: "\<And>u. leader ((pc(t := p)) u) \<Longrightarrow> rs' = {u} \<and> ws' \<noteq> {}"
    and c: "own' \<noteq> None \<Longrightarrow> rs' = {} \<and> ws' \<noteq> {}" "own' = None \<Longrightarrow> ws' \<noteq> {} \<Longrightarrow> rs' \<noteq> {}"
      "ws' = {} \<Longrightarrow> g_inbox g' f = [] \<and> g_queues g' f ! 0 = []"
  shows "rw_ok f N W' (pc(t := p)) g' fx' own' rs' ws'"
  unfolding rw_ok_def
proof (intro conjI allI impI)
  show "tasks_ok f 2 W' g' fx' (\<lambda>u. rw_role (g_list g' u) ((pc(t := p)) u))"
    using T by (subst rw_roles [OF lists])
  fix u show "rw_pc_ok f (heap W') g' u ((pc(t := p)) u)"
  proof (cases "u = t")
    case False
    have "rw_pc_ok f (heap W') g' u (pc u)"
      by (rule rw_pc_ok_step [OF rw_okD(2) [OF ok] lists [OF False] woken [OF False] sort [OF False] queue [OF False]])
    with False show ?thesis by simp
  qed (use p in simp)
  show "(pc(t := p)) u \<noteq> RwIdle \<Longrightarrow> u < N" using N rw_okD(3) [OF ok, of u] by (auto split: if_splits)
qed (use rs ws own atom lead c rw_okD(4) [OF ok] in \<open>auto simp del: fun_upd_apply\<close>)

text \<open>
  A step that wakes nobody and leaves the set of counted readers alone changes the tokens of
  the mover only.
\<close>

lemma rtok_cong:
  assumes "\<And>w. stage_waiter (r_stage (rw_role xs p)) = Some w \<Longrightarrow> (wkr h' w = WakerDone \<longleftrightarrow> wkr h w = WakerDone)"
  shows "rtok h' C p = rtok h C p" "rw_owns h' p = rw_owns h p"
proof -
  have "wkr h' (wait_waiter q) = WakerDone \<longleftrightarrow> wkr h (wait_waiter q) = WakerDone" if "p = RwWait b q" for b q
    using assms waiter_stage that by simp
  then show "rtok h' C p = rtok h C p" "rw_owns h' p = rw_owns h p"
    by (cases rule: rtok.cases [of "(h, C, p)"]; simp)+
qed

lemma rw_ok_plain:
  assumes ok: "rw_ok f N W pc g fx own rs ws" and N: "t < N"
    and T: "tasks_ok f 2 W' g' fx' ((\<lambda>u. rw_role (g_list g u) (pc u))(t := rw_role (g_list g' t) p))"
    and lists: "\<And>u. u \<noteq> t \<Longrightarrow> g_list g' u = g_list g u"
    and wkr: "\<And>u w. u \<noteq> t \<Longrightarrow> stage_waiter (r_stage (rw_role (g_list g u) (pc u))) = Some w \<Longrightarrow>
        (wkr (heap W') w = WakerDone \<longleftrightarrow> wkr (heap W) w = WakerDone)"
    and cnt: "counted (g_list g') (pc(t := p)) = counted (g_list g) pc"
    and p: "rw_pc_ok f (heap W') g' t p"
    and sort: "\<And>u b q. u \<noteq> t \<Longrightarrow> pc u = RwWait b q \<Longrightarrow> rw_sorted g b (wait_waiter q) \<Longrightarrow> rw_sorted g' b (wait_waiter q)"
    and queue: "\<And>u. u \<noteq> t \<Longrightarrow> scans (pc u) \<Longrightarrow> (g_queues g' f ! 0 = []) = (g_queues g f ! 0 = [])"
    and rs: "rs' = (if rtok (heap W') (counted (g_list g) pc) p then insert t rs else rs - {t})"
    and ws: "ws' = (if wtok p then insert t ws else ws - {t})"
    and own: "rw_owns (heap W') p \<longleftrightarrow> own' = Some t" "\<And>u. u \<noteq> t \<Longrightarrow> own' = Some u \<longleftrightarrow> own = Some u"
    and atom: "fa_atom (futex_atom fx') = rw_count rs' ws'"
    and lead: "leader p \<Longrightarrow> rs' = {t} \<and> ws' \<noteq> {}" "\<And>u. u \<noteq> t \<Longrightarrow> rs = {u} \<Longrightarrow> ws \<noteq> {} \<Longrightarrow> rs' = {u} \<and> ws' \<noteq> {}"
    and c: "own' \<noteq> None \<Longrightarrow> rs' = {} \<and> ws' \<noteq> {}" "own' = None \<Longrightarrow> ws' \<noteq> {} \<Longrightarrow> rs' \<noteq> {}"
      "ws' = {} \<Longrightarrow> g_inbox g' f = [] \<and> g_queues g' f ! 0 = []"
  shows "rw_ok f N W' (pc(t := p)) g' fx' own' rs' ws'"
proof (rule rw_ok_step [OF ok N T lists])
  fix u
  have tok: "u \<noteq> t \<Longrightarrow> rtok (heap W') (counted (g_list g) pc) (pc u) = (u \<in> rs)"
    "u \<noteq> t \<Longrightarrow> rw_owns (heap W') (pc u) = rw_owns (heap W) (pc u)"
    using rtok_cong [where p = "pc u" and xs = "g_list g u" and h' = "heap W'" and h = "heap W"] wkr [of u]
      rw_okD(5) [OF ok, of u] by blast+
  show "u \<in> rs' \<longleftrightarrow> rtok (heap W') (counted (g_list g') (pc(t := p))) ((pc(t := p)) u)"
    unfolding cnt using tok(1) rs by auto
  show "u \<in> ws' \<longleftrightarrow> wtok ((pc(t := p)) u)"
    using ws rw_okD(6) [OF ok, of u] by auto
  show "rw_owns (heap W') ((pc(t := p)) u) \<longleftrightarrow> own' = Some u"
    using own tok(2) rw_okD(7) [OF ok, of u] by (cases "u = t") auto
  show "leader ((pc(t := p)) u) \<Longrightarrow> rs' = {u} \<and> ws' \<noteq> {}"
    using lead rw_okD(9) [OF ok, of u] by (cases "u = t") auto
qed (use p sort queue atom c wkr in auto)

lemma counted_same:
  assumes "\<And>u. u \<noteq> t \<Longrightarrow> g_list g' u = g_list g u" and "\<not> waking (pc t)" "\<not> waking p"
  shows "counted (g_list g') (pc(t := p)) = counted (g_list g) pc"
  using assms by (auto simp: counted_def) metis+

definition rw_good :: "ptr \<Rightarrow> nat \<Rightarrow> tid \<Rightarrow> (tid \<Rightarrow> rw_pc) \<Rightarrow> (rw_pc \<times> world) res \<Rightarrow> bool" where
  "rw_good f N t pc r \<longleftrightarrow> (\<exists>p W' g' fx' own' rs' ws'. r = Inr (p, W') \<and>
     rw_ok f N W' (pc(t := p)) g' fx' own' rs' ws')"

lemma rw_goodI: "rw_ok f N W' (pc(t := p)) g' fx' own' rs' ws' \<Longrightarrow> rw_good f N t pc (Inr (p, W'))"
  unfolding rw_good_def by blast

text \<open>A step that changes neither the tokens nor the lists.\<close>

lemma rw_quiet:
  assumes ok: "rw_ok f N W pc g fx own rs ws" and N: "t < N"
    and T: "tasks_ok f 2 W' g fx' ((\<lambda>u. rw_role (g_list g u) (pc u))(t := rw_role (g_list g t) p))"
    and fx': "fa_atom (futex_atom fx') = fa_atom (futex_atom fx)"
    and wkr: "\<And>w. stage_waiter (r_stage (rw_role (g_list g t) (pc t))) \<noteq> Some w \<Longrightarrow>
        (wkr (heap W') w = WakerDone \<longleftrightarrow> wkr (heap W) w = WakerDone)"
    and cnt: "waking p = waking (pc t)"
    and p: "rw_pc_ok f (heap W') g t p"
    and tok: "rtok (heap W') (counted (g_list g) pc) p = rtok (heap W) (counted (g_list g) pc) (pc t)"
      "wtok p = wtok (pc t)" "rw_owns (heap W') p = rw_owns (heap W) (pc t)"
      "leader p \<Longrightarrow> leader (pc t) \<or> rs = {t} \<and> ws \<noteq> {}"
  shows "rw_good f N t pc (Inr (p, W'))"
proof (rule rw_goodI, rule rw_ok_plain [OF ok N T])
  fix u w assume "u \<noteq> t" "stage_waiter (r_stage (rw_role (g_list g u) (pc u))) = Some w"
  then have "stage_waiter (r_stage (rw_role (g_list g t) (pc t))) \<noteq> Some w"
    using tasks_sole [OF rw_okD(1) [OF ok], of u w t] by auto
  then show "wkr (heap W') w = WakerDone \<longleftrightarrow> wkr (heap W) w = WakerDone" by (rule wkr)
next
  show "counted (g_list g) (pc(t := p)) = counted (g_list g) pc"
    unfolding counted_def using cnt by (metis fun_upd_apply)
  show "rs = (if rtok (heap W') (counted (g_list g) pc) p then insert t rs else rs - {t})"
    using tok(1) rw_okD(5) [OF ok, of t] by auto
  show "ws = (if wtok p then insert t ws else ws - {t})"
    using tok(2) rw_okD(6) [OF ok, of t] by auto
  show "rw_owns (heap W') p \<longleftrightarrow> own = Some t" using tok(3) rw_okD(7) [OF ok, of t] by simp
  show "leader p \<Longrightarrow> rs = {t} \<and> ws \<noteq> {}" using tok(4) rw_okD(9) [OF ok, of t] by blast
qed (use p fx' rw_okD(8,10,11,12) [OF ok] in auto)

lemma counted_loc: "tasks_ok f n W g fx R \<Longrightarrow> w \<in> counted (g_list g) pc \<Longrightarrow> \<exists>u. g_loc g w = InList u \<and> waking (pc u)"
  using tasks_in_list by (fastforce simp: counted_def)

section \<open>Starting, acquiring and parking\<close>

lemma rw_q_unat [simp]: "unat (rw_queue b) = rw_q b" "rw_q b < 2"
  by (simp_all add: rw_queue_def rw_q_def READ_QUEUE_def WRITE_QUEUE_def)

lemma rw_start_good:
  assumes ok: "rw_ok f N W pc g fx own rs ws" and t: "pc t = RwIdle" "t < N"
    and start: "rw_start f b cx addr W = Some r"
  shows "rw_good f N t pc r"
proof -
  note T = rw_okD(1) [OF ok]
  let ?p = "RwTop b addr (futex_atom fx) cx"
  obtain W' where new: "new_waiter W f 0 (rw_queue b) addr = Some W'"
    using start by (auto simp: rw_start_def split: option.splits)
  have nw: "r_stage (rw_role (g_list g t) (pc t)) = NoWaiter" by (simp add: t)
  have q: "unat (rw_queue b) < 2" by simp
  note c = tasks_create [OF T nw new q]
  have T': "tasks_ok f 2 W' g fx ((\<lambda>v. rw_role (g_list g v) (pc v))(t := rw_role (g_list g t) ?p))"
    using c(1) by (simp add: t)
  have load: "futex_load RelaxedT W' f = Inr (futex_atom fx)"
    using futex_load_eq [OF tasks_okD(2) [OF T']] by simp
  have r: "r = Inr (?p, W')"
    using start new load by (simp add: rw_start_def)
  have ok': "rw_ok f N W' (pc(t := ?p)) g fx own rs ws"
  proof (rule rw_ok_plain [OF ok t(2) T'])
    fix u w assume u: "u \<noteq> t" "stage_waiter (r_stage (rw_role (g_list g u) (pc u))) = Some w"
    then have "w \<noteq> addr"
      using stage_alive [OF tasks_stage [OF T refl], of u w] c(3) by (auto simp: alive_def)
    then show "wkr (heap W') w = WakerDone \<longleftrightarrow> wkr (heap W) w = WakerDone"
      using c(2) by (simp add: wkr_def)
  next
    show "counted (g_list g) (pc(t := ?p)) = counted (g_list g) pc"
      by (rule counted_same) (simp_all add: t)
  qed (use rw_okD(5-7) [OF ok, of t] rw_okD(8,10,11,12) [OF ok] t in auto)
  show ?thesis unfolding r by (rule rw_goodI [OF ok'])
qed

lemma rw_retry:
  assumes ok: "rw_ok f N W pc g fx own rs ws" and t: "pc t = RwTop b w s cx" "t < N"
    and T: "tasks_ok f 2 W1 g fx (\<lambda>v. rw_role (g_list g v) (pc v))"
    and wkr: "\<forall>v. wkr (heap W1) v = WakerDone \<longleftrightarrow> wkr (heap W) v = WakerDone"
  shows "rw_good f N t pc (Inr (RwTop b w (futex_atom fx) cx, W1))"
  by (rule rw_quiet [OF ok t(2) same_role [OF T]]) (use t wkr in auto)

text \<open>
  Taking the lock. The counters after it are those of the state with the mover's token.
\<close>

lemma rw_acquire_good:
  assumes ok: "rw_ok f N W pc g fx own rs ws" and t: "pc t = RwTop b w s cx" "t < N"
    and new: "futex_atom fx = s \<Longrightarrow> ws = {} \<and> (b \<longrightarrow> rs = {}) \<and>
        new = rw_count (if b then rs else insert t rs) (if b then {t} else {})"
  shows "rw_good f N t pc (rw_acquire spurious f W b w s cx new)"
proof -
  note T = rw_okD(1) [OF ok]
  let ?fx = "fx\<lparr>futex_atom := \<lparr>fa_atom = new, fa_inbox = fa_inbox s\<rparr>\<rparr>"
  have r: "rw_acquire spurious f W b w s cx new =
      (if futex_atom fx = s \<and> \<not> spurious then mapR (Pair (RwHeld b)) (waiter_drop (put_futex W f ?fx) w)
       else Inr (RwTop b w (futex_atom fx) cx, W))"
    using futex_cmpxchg_weak_eq [OF tasks_okD(2) [OF T], of AcquireT RelaxedT spurious s new]
    by (cases spurious; cases "futex_atom fx = s") (simp_all add: rw_acquire_def)
  show ?thesis
  proof (cases "futex_atom fx = s \<and> \<not> spurious")
    case False
    have "rw_good f N t pc (Inr (RwTop b w (futex_atom fx) cx, W))"
      by (rule rw_retry [OF ok t T]) simp
    moreover have "rw_acquire spurious f W b w s cx new = Inr (RwTop b w (futex_atom fx) cx, W)"
      unfolding r by (rule if_not_P [OF False])
    ultimately show ?thesis by simp
  next
    case True
    let ?W = "put_futex W f ?fx"
    have e: "ws = {}" "b \<longrightarrow> rs = {}" "new = rw_count (if b then rs else insert t rs) (if b then {t} else {})"
      using new True by auto
    have own: "own = None" using rw_okD(10) [OF ok] e(1) by blast
    have T1: "tasks_ok f 2 ?W g ?fx (\<lambda>v. rw_role (g_list g v) (pc v))"
      by (rule tasks_put_atom [OF T]) (use True in auto)
    have st: "r_stage (rw_role (g_list g t) (pc t)) = Fresh w (rw_q b)" by (simp add: t)
    have d: "waiter_drop ?W w = Inr (freed ?W w)"
      "tasks_ok f 2 (freed ?W w) g ?fx ((\<lambda>v. rw_role (g_list g v) (pc v))(t := rw_role (g_list g t) (RwHeld b)))"
      using tasks_destroy [OF T1, of t w "rw_q b"] st by (simp_all add: t idle_role_def)
    have ok': "rw_ok f N (freed ?W w) (pc(t := RwHeld b)) g ?fx (if b then Some t else None)
        (if b then rs else insert t rs) (if b then {t} else {})"
    proof (rule rw_ok_plain [OF ok t(2) d(2)])
      fix u v assume "u \<noteq> t" "stage_waiter (r_stage (rw_role (g_list g u) (pc u))) = Some v"
      then have "v \<noteq> w" using tasks_sole [OF T, of t w u] by (auto simp: t)
      then show "wkr (heap (freed ?W w)) v = WakerDone \<longleftrightarrow> wkr (heap W) v = WakerDone"
        by (simp add: wkr_def)
    next
      show "counted (g_list g) (pc(t := RwHeld b)) = counted (g_list g) pc"
        by (rule counted_same) (simp_all add: t)
    qed (use e own rw_okD(12) [OF ok] rw_okD(5) [OF ok, of t] t in \<open>auto split: if_splits\<close>)
    have "rw_acquire spurious f W b w s cx new = Inr (RwHeld b, freed ?W w)"
      unfolding r using True d(1) by simp
    then show ?thesis using rw_goodI [OF ok'] by simp
  qed
qed

text \<open>Queueing.\<close>

lemma rw_park_good:
  assumes ok: "rw_ok f N W pc g fx own rs ws" and t: "pc t = RwTop b w s cx" "t < N"
    and new: "futex_atom fx = s \<Longrightarrow> (if b then insert t ws else ws) \<noteq> {} \<and> (own = None \<longrightarrow> rs \<noteq> {}) \<and>
        new = rw_count rs (if b then insert t ws else ws)"
  shows "rw_good f N t pc (rw_park spurious f W b w s cx new)"
proof -
  note T = rw_okD(1) [OF ok]
  have st: "r_stage (rw_role (g_list g t) (pc t)) = Fresh w (rw_q b)" by (simp add: t)
  have nd: "wkr (heap W) w \<noteq> WakerDone" "g_loc g w = Loose" using tasks_stage [OF T st] by simp_all
  let ?fx = "fx\<lparr>futex_atom := \<lparr>fa_atom = new, fa_inbox = w\<rparr>\<rparr>" and ?g = "push_ghost f w g"
  obtain W1 wait where p: "wait_begin spurious f W w s new cx = Inr
      (if futex_atom fx = s \<and> \<not> spurious then (Inr (Suspended wait), put_futex W1 f ?fx)
       else (Inl (futex_atom fx), W1))"
    "wait_ok f wait" "wf_waiter wait = w"
    "tasks_ok f 2 W1 g fx (\<lambda>v. rw_role (g_list g v) (pc v))"
    "\<forall>v. wkr (heap W1) v = WakerDone \<longleftrightarrow> wkr (heap W) v = WakerDone"
    "s = futex_atom fx \<longrightarrow> tasks_ok f 2 (put_futex W1 f ?fx) ?g ?fx
       ((\<lambda>v. rw_role (g_list g v) (pc v))(t := (rw_role (g_list g t) (pc t))\<lparr>r_stage := Parked w (rw_q b)\<rparr>))"
    by (rule wait_begin_good [OF T st, of spurious s new cx])
  have r: "rw_park spurious f W b w s cx new = Inr
      (if futex_atom fx = s \<and> \<not> spurious then (RwWait b (Suspended wait), put_futex W1 f ?fx)
       else (RwTop b w (futex_atom fx) cx, W1))"
    using p(1) by (auto simp: rw_park_def)
  show ?thesis
  proof (cases "futex_atom fx = s \<and> \<not> spurious")
    case False
    then show ?thesis unfolding r using rw_retry [OF ok t p(4,5)] by auto
  next
    case True
    let ?p = "RwWait b (Suspended wait)" and ?ws = "if b then insert t ws else ws"
    have e: "?ws \<noteq> {}" "own = None \<longrightarrow> rs \<noteq> {}" "new = rw_count rs ?ws" using new True by auto
    have role: "rw_role (g_list ?g t) ?p = (rw_role (g_list g t) (pc t))\<lparr>r_stage := Parked w (rw_q b)\<rparr>"
      using t p(3) by simp
    have T1: "tasks_ok f 2 (put_futex W1 f ?fx) ?g ?fx
        ((\<lambda>v. rw_role (g_list g v) (pc v))(t := rw_role (g_list ?g t) ?p))"
      unfolding role using p(6) True by blast
    have c: "w \<notin> counted (g_list g) pc" using counted_loc [OF T, of w pc] nd by auto
    have "rw_ok f N (put_futex W1 f ?fx) (pc(t := ?p)) ?g ?fx own rs ?ws"
    proof (rule rw_ok_plain [OF ok t(2) T1])
      show "counted (g_list ?g) (pc(t := ?p)) = counted (g_list g) pc"
        by (rule counted_same) (simp_all add: t push_ghost_def)
      show "rw_pc_ok f (heap (put_futex W1 f ?fx)) ?g t ?p"
        using p(2,3) by (simp add: rw_sorted_def push_ghost_def)
      fix u d q assume "rw_sorted g d (wait_waiter q)"
      then show "rw_sorted ?g d (wait_waiter q)" by (simp add: rw_sorted_def push_ghost_def)
    qed (use e nd c p(3,5) rw_okD(5-7) [OF ok, of t] rw_okD(8,10,12) [OF ok] t in
        \<open>auto simp: push_ghost_def split: if_splits\<close>)
    then show ?thesis unfolding r using True rw_goodI by simp
  qed
qed

text \<open>The iterations of the two loops: a snapshot that is up to date shows the two counts.\<close>

lemma rw_snap:
  assumes ok: "rw_ok f N W pc g fx own rs ws" and s: "futex_atom fx = s"
  shows "ra_readers (rw_decode (fa_atom s)) = of_nat (card rs)"
    "ra_writers (rw_decode (fa_atom s)) = of_nat (card ws)" "fa_atom s = rw_count rs ws"
  using rw_bounds(5) [OF ok] rw_okD(8) [OF ok] s by simp_all

lemma rw_more:
  "checked_plus (ra_readers (rw_decode x)) 1 = Inr (ra_readers (rw_decode x) + 1)"
  "checked_plus (ra_writers (rw_decode x)) 1 = Inr (ra_writers (rw_decode x) + 1)"
  using rw_decode_fits [of x] by (auto simp: rw_fits_def intro: checked_plus_1)

lemma read_iter_good:
  assumes ok: "rw_ok f N W pc g fx own rs ws" and t: "pc t = RwTop False w s cx" "t < N"
  shows "rw_good f N t pc (read_iter spurious f W w s cx)"
proof -
  have nt: "t \<notin> rs" using rw_okD(5) [OF ok, of t] t by simp
  let ?d = "rw_decode (fa_atom s)"
  show ?thesis
  proof (cases "ra_writers ?d = 0")
    case True
    have "rw_good f N t pc (rw_acquire spurious f W False w s cx (rw_encode \<lparr>ra_readers = ra_readers ?d + 1, ra_writers = 0\<rparr>))"
    proof (rule rw_acquire_good [OF ok t])
      assume s: "futex_atom fx = s"
      then have "ws = {}" using True rw_snap(2) [OF ok s] rw_zero(2) [OF ok] by simp
      then show "ws = {} \<and> (False \<longrightarrow> rs = {}) \<and>
          rw_encode \<lparr>ra_readers = ra_readers ?d + 1, ra_writers = 0\<rparr> =
          rw_count (if False then rs else insert t rs) (if False then {t} else {})"
        using rw_snap(1) [OF ok s] nt rw_bounds(1) [OF ok] by (simp add: rw_count_def add.commute)
    qed
    then show ?thesis using True by (simp add: read_iter_def inner_def rw_more Let_def)
  next
    case False
    have "rw_good f N t pc (rw_park spurious f W False w s cx (fa_atom s))"
    proof (rule rw_park_good [OF ok t])
      assume s: "futex_atom fx = s"
      then have "ws \<noteq> {}" using False rw_snap(2) [OF ok s] rw_zero(2) [OF ok] by simp
      then show "(if False then insert t ws else ws) \<noteq> {} \<and> (own = None \<longrightarrow> rs \<noteq> {}) \<and>
          fa_atom s = rw_count rs (if False then insert t ws else ws)"
        using rw_snap(3) [OF ok s] rw_okD(11) [OF ok] by simp
    qed
    then show ?thesis using False by (simp add: read_iter_def inner_def rw_encode_decode Let_def)
  qed
qed

lemma write_iter_good:
  assumes ok: "rw_ok f N W pc g fx own rs ws" and t: "pc t = RwTop True w s cx" "t < N"
  shows "rw_good f N t pc (write_iter spurious f W w s cx)"
proof -
  have nt: "t \<notin> ws" using rw_okD(6) [OF ok, of t] t by simp
  let ?d = "rw_decode (fa_atom s)"
  have zero: "?d = \<lparr>ra_readers = 0, ra_writers = 0\<rparr> \<longleftrightarrow> rs = {} \<and> ws = {}" if s: "futex_atom fx = s"
    using rw_bounds(5) [OF ok] s rw_zero(1,2) [OF ok] by simp
  show ?thesis
  proof (cases "?d = \<lparr>ra_readers = 0, ra_writers = 0\<rparr>")
    case True
    have "rw_good f N t pc (rw_acquire spurious f W True w s cx (rw_encode \<lparr>ra_readers = 0, ra_writers = 1\<rparr>))"
      by (rule rw_acquire_good [OF ok t]) (use True zero in \<open>simp add: rw_count_def\<close>)
    then show ?thesis using True by (simp add: write_iter_def inner_def Let_def)
  next
    case False
    have "rw_good f N t pc (rw_park spurious f W True w s cx (rw_encode (?d\<lparr>ra_writers := ra_writers ?d + 1\<rparr>)))"
    proof (rule rw_park_good [OF ok t])
      assume s: "futex_atom fx = s"
      have "own = None \<Longrightarrow> rs \<noteq> {}" using False zero [OF s] rw_okD(11) [OF ok] by blast
      then show "(if True then insert t ws else ws) \<noteq> {} \<and> (own = None \<longrightarrow> rs \<noteq> {}) \<and>
          rw_encode (?d\<lparr>ra_writers := ra_writers ?d + 1\<rparr>) = rw_count rs (if True then insert t ws else ws)"
        using rw_bounds(2,5) [OF ok] s nt by (simp add: rw_count_def add.commute)
    qed
    then show ?thesis using False by (simp add: write_iter_def inner_def rw_more Let_def)
  qed
qed

section \<open>Waiting\<close>

lemma wait_moves_sorted:
  "wait_moves f q w R W g fx W' g' fx' \<Longrightarrow> rw_sorted g b v \<Longrightarrow> rw_sorted g' b v"
  by (auto simp: wait_moves_def rw_sorted_def enqueue_ghost_def cancel_ghost_def split: if_splits)

lemma rw_wait_good:
  assumes ok: "rw_ok f N W pc g fx own rs ws" and t: "pc t = RwWait b p" "t < N"
    and b: "b \<Longrightarrow> act = Abandon \<Longrightarrow> wkr (heap W) (wait_waiter p) = WakerDone" and step: "wait_advance t act W p = Some r"
  shows "rw_good f N t pc (bindR r (rw_waited b))"
proof -
  note T = rw_okD(1) [OF ok]
  let ?R = "\<lambda>v. rw_role (g_list g v) (pc v)" and ?w = "wait_waiter p"
  have pok: "wait_task_ok f (heap W) p" "b \<Longrightarrow> p = Dropping w d \<Longrightarrow> wkr (heap W) ?w = WakerDone" "rw_sorted g b ?w" for w d
    using rw_okD(2) [OF ok, of t] t by auto
  have role: "?R t = wait_role (rw_q b) p" using t by simp
  from wait_advance_good [OF T role pok(1) step]
  obtain out W' g' fx' where r: "r = Inr (out, W')" "tasks_ok f 2 W' g' fx' (?R(t := out_role (rw_q b) out))"
    "out_ok f (heap W') out" "out_waiter out = ?w" "wait_moves f (rw_q b) ?w ?R W g fx W' g' fx'"
    by (auto simp: wait_good_def)
  note mv = wait_moves_lists [OF r(5)]
  have nd: "wkr (heap W) ?w = WakerDone" if b "out = Still (Dropping w d) \<or> out = Cancelled c w" for w d c
  proof (rule ccontr)
    assume n: "wkr (heap W) ?w \<noteq> WakerDone"
    have "act \<noteq> Abandon" "p \<noteq> Dropping w d" for w d using b pok(2) that(1) n by auto
    from wait_not_dropped [OF step [unfolded r(1)] this] that(2) show False by blast
  qed
  have empty: "ws = {} \<Longrightarrow> g_inbox g' f = [] \<and> g_queues g' f ! 0 = []"
    using wait_moves_empty [OF r(5) T, of 0] rw_okD(12) [OF ok] by simp
  have go: "rw_good f N t pc (Inr (p', W2))"
    if "tasks_ok f 2 W2 g' fx' (?R(t := rw_role (g_list g t) p'))" "rw_pc_ok f (heap W2) g' t p'"
      "rtok (heap W2) (counted (g_list g) pc) p' \<longleftrightarrow> t \<in> rs" "wtok p' = b" "rw_owns (heap W2) p' \<longleftrightarrow> own = Some t"
      "\<not> leader p'" "\<not> waking p'" "\<And>v. v \<noteq> ?w \<Longrightarrow> wkr (heap W2) v = wkr (heap W') v" for p' W2
  proof -
    have "rw_ok f N W2 (pc(t := p')) g' fx' own rs ws"
    proof (rule rw_ok_plain [OF ok t(2)])
      fix u v assume u: "u \<noteq> t" "stage_waiter (r_stage (?R u)) = Some v"
      have "stage_waiter (r_stage (?R t)) = Some ?w" using waiter_stage t by simp
      then have "v \<noteq> ?w" using tasks_sole [OF T _ u(1), of ?w] u(2) by auto
      then show "wkr (heap W2) v = WakerDone \<longleftrightarrow> wkr (heap W) v = WakerDone"
        using that(8) mv(2) by simp
    next
      show "counted (g_list g') (pc(t := p')) = counted (g_list g) pc"
        by (rule counted_same) (use mv(1) that(7) t in simp_all)
      fix u assume u: "u \<noteq> t" "scans (pc u)"
      then show "(g_queues g' f ! 0 = []) = (g_queues g f ! 0 = [])"
        using r(5) scans_reads(1) [OF u(2)] by (auto simp: wait_moves_def)
    next
      fix u c q assume "rw_sorted g c (wait_waiter q)"
      then show "rw_sorted g' c (wait_waiter q)" by (rule wait_moves_sorted [OF r(5)])
    qed (use that mv empty rw_okD(6) [OF ok, of t] rw_okD(8-11) [OF ok] t in \<open>auto simp: insert_absorb\<close>)
    then show ?thesis by (rule rw_goodI)
  qed
  have tok: "t \<in> rs \<longleftrightarrow> \<not> b \<and> (wkr (heap W) ?w = WakerDone \<or> ?w \<in> counted (g_list g) pc)"
    "own = Some t \<longleftrightarrow> b \<and> wkr (heap W) ?w = WakerDone"
    using rw_okD(5,7) [OF ok, of t] t by auto
  show ?thesis
  proof (cases out)
    case (Still p')
    have "rw_good f N t pc (Inr (RwWait b p', W'))"
      by (rule go) (use r tok mv(2) [of ?w] nd wait_moves_sorted [OF r(5) pok(3)] Still in auto)
    then show ?thesis using Still by (simp add: r(1) rw_waited_def)
  next
    case (Returned woken wait cx)
    have off: "r_stage ((?R(t := out_role (rw_q b) out)) t) = Off ?w" using Returned r(4) by simp
    have d: "waiter_drop W' ?w = Inr (freed W' ?w)"
      "tasks_ok f 2 (freed W' ?w) g' fx' (?R(t := rw_role (g_list g t) (RwHeld b)))"
      using tasks_destroy [OF r(2), of t ?w 0] off Returned r(4) by simp_all
    have "rw_good f N t pc (Inr (RwHeld b, freed W' ?w))"
      by (rule go [OF d(2)]) (use r tok mv(2) [of ?w] Returned in \<open>auto simp: wkr_def\<close>)
    then show ?thesis using Returned r d(1) by (simp add: rw_waited_def)
  next
    case (Cancelled co w)
    have w: "w = ?w" using r(4) Cancelled by simp
    have co: "co = Some (wkr (heap W') w = WakerDone)" using r(3) Cancelled by simp
    have off: "r_stage ((?R(t := out_role (rw_q b) out)) t) = Off w" using Cancelled by simp
    show ?thesis
    proof (cases "wkr (heap W') w = WakerDone")
      case True
      have "rw_good f N t pc (Inr (RwUnlock (Some w) (if b then WU WULock else RU RULoad), W'))"
        by (rule go) (use r(2) tok mv(2) [of ?w] True w Cancelled in
          \<open>simp_all add: off_role_def rw_simps kept_stage_def ru_ok_def ru_reads_def ru_owns_def wu_ok_def
            wu_writes_def wu_placeholder_def wu_owns_def idle_role_def\<close>)
      then show ?thesis using Cancelled co True by (simp add: r(1) rw_waited_def)
    next
      case False
      have nb: "\<not> b" using nd [OF _ disjI2 [OF Cancelled]] mv(2) [of w] False w by blast
      have "g_loc g' w = Loose" using tasks_stage [OF r(2) off] by simp
      then have "w \<notin> counted (g_list g) pc"
        using counted_loc [OF r(2), of w pc] mv(1) by auto
      then have nt: "t \<notin> rs" "own \<noteq> Some t" using tok nb w mv(2) [of w] False by auto
      obtain W2 where f: "wait_finish W' co w = Inr W2" "heap W2 = (heap W')(w := None)"
        "tasks_ok f 2 W2 g' fx' ((?R(t := out_role (rw_q b) out))(t := ((?R(t := out_role (rw_q b) out)) t)\<lparr>r_stage := NoWaiter\<rparr>))"
        unfolding co by (rule wait_finish_off [OF r(2) off]) blast
      have "rw_good f N t pc (Inr (RwIdle, W2))"
        by (rule go) (use f(2,3) nt nb w Cancelled in \<open>auto simp: wkr_def\<close>)
      then show ?thesis using Cancelled co False nb f(1) by (simp add: r(1) rw_waited_def)
    qed
  qed
qed

end
