(* ===== verification/Rw_Unlock.thy ===== *)
theory Rw_Unlock imports Rw_Inv begin

text \<open>
  The two unlock functions of \<open>src/rwlock.rs\<close> preserve the invariant: who is queued where, the
  hand-over of the lock to the next writer, the release of the readers by a writer, and every
  step of \<open>read_unlock\<close> and \<open>write_unlock\<close>.
\<close>

section \<open>Where the waiters are\<close>

text \<open>Whatever is on a list belongs to a task that waits for it.\<close>

lemma rw_sleeper:
  assumes T: "tasks_ok f 2 W g fx (\<lambda>t. rw_role (L t) (pc t))" and w: "g_loc g w \<noteq> Loose"
  obtains u b p where "pc u = RwWait b p" "wait_waiter p = w" "listed f (rw_q b) (g_loc g w)"
proof -
  obtain u where u: "sleeper (r_stage (rw_role (L u) (pc u))) = Some w"
    using tasks_okD(6) [OF T] w by (auto simp: stages_held_def)
  then obtain b p where p: "pc u = RwWait b p"
    by (cases "(L u, pc u)" rule: rw_role.cases) (auto simp: rw_simps kept_stage_def split: option.splits)
  have "r_stage (rw_role (L u) (pc u)) = Parked w (rw_q b) \<or> r_stage (rw_role (L u) (pc u)) = Unboxed w (rw_q b)"
    using u p by (cases p) (auto simp: drop_simps split: drop_pc.splits if_splits)
  then have "parked_ok (heap W) g f w (rw_q b)"
    using tasks_stage [OF T, of u] by auto
  then have "listed f (rw_q b) (g_loc g w)" using w by (simp add: parked_ok_def)
  moreover have "wait_waiter p = w"
    using sleeper_waiter [OF u] p waiter_stage by simp
  ultimately show ?thesis using that p by blast
qed

lemma rw_q_inject [simp]: "rw_q b = rw_q c \<longleftrightarrow> b = c" "rw_q b = 0 \<longleftrightarrow> \<not> b" "rw_q b = Suc 0 \<longleftrightarrow> b"
  by (simp_all add: rw_q_def)

lemma rw_place:
  assumes T: "tasks_ok f 2 W g fx (\<lambda>t. rw_role (L t) (pc t))" and p: "pc u = RwWait b p"
    and w: "g_loc g (wait_waiter p) \<noteq> Loose"
  shows "listed f (rw_q b) (g_loc g (wait_waiter p))"
proof -
  obtain v c q where v: "pc v = RwWait c q" "wait_waiter q = wait_waiter p"
    "listed f (rw_q c) (g_loc g (wait_waiter p))"
    by (rule rw_sleeper [OF T w])
  have "v = u" using tasks_sole [OF T, of u "wait_waiter p" v] v p waiter_stage by auto
  with v p show ?thesis by simp
qed

lemma rw_in_queue:
  assumes T: "tasks_ok f 2 W g fx (\<lambda>t. rw_role (L t) (pc t))" and p: "pc u = RwWait b p"
    and w: "g_loc g (wait_waiter p) = InQueue f k"
  shows "rw_q b = k"
  using rw_place [OF T p] w by (auto simp: listed_def)

text \<open>A popped waiter that is about to be woken is in the hands of the owner.\<close>

lemma rw_hand_owner:
  assumes "rw_ok f N W pc g fx own rs ws" "r_hand (rw_role (g_list g u) (pc u)) = Some w"
  shows "own = Some u"
proof -
  have "rw_owns (heap W) (pc u)"
    using assms(2) by (cases "(g_list g u, pc u)" rule: rw_role.cases)
      (auto simp: rw_simps wu_owns_def ru_owns_def split: read_unlock_pc.splits write_unlock_pc.splits)
  then show ?thesis using rw_okD(7) [OF assms(1)] by simp
qed

text \<open>A writer that sleeps while nobody is handing the lock over is queued.\<close>

lemma rw_queued_writer:
  assumes ok: "rw_ok f N W pc g fx own rs ws" and u: "u \<in> ws" "own \<noteq> Some u"
    and hands: "\<And>v. own = Some v \<Longrightarrow> r_hand (rw_role (g_list g v) (pc v)) = None"
    and T: "tasks_ok f 2 W' (enqueue_ghost (heap W) f g) fx' (\<lambda>t. rw_role (g_list g t) (pc t))"
  shows "g_queues (enqueue_ghost (heap W) f g) f ! 1 \<noteq> []"
proof -
  let ?g = "enqueue_ghost (heap W) f g"
  have o: "\<not> rw_owns (heap W) (pc u)" using rw_okD(7) [OF ok, of u] u(2) by simp
  have wt: "wtok (pc u)" using rw_okD(6) [OF ok, of u] u(1) by simp
  then obtain p where p: "pc u = RwWait True p" "wkr (heap W) (wait_waiter p) \<noteq> WakerDone"
    using o by (cases "pc u" rule: wtok.cases) (auto simp: wu_owns_def)
  let ?w = "wait_waiter p"
  have pok: "rw_sorted g True ?w" "\<And>w d. p \<noteq> Dropping w d"
    using rw_okD(2) [OF ok, of u] p by (cases p; auto)+
  have "r_stage (rw_role (g_list g u) (pc u)) = Parked ?w 1"
    using p pok(2) by (cases p) (auto simp: rw_q_def)
  then have "parked_ok (heap W) g f ?w 1" using tasks_stage [OF rw_okD(1) [OF ok], of u] by auto
  then have "listed f 1 (g_loc g ?w)" "que (heap W) ?w = 1" using p by (auto simp: parked_ok_def)
  moreover have "g_loc g ?w \<noteq> InHand v" for v
    using rw_hand_owner [OF ok, of v ?w] hands [of v] tasks_in_hand [OF rw_okD(1) [OF ok], of v ?w] by auto
  ultimately have "g_loc ?g ?w = InQueue f 1"
    using pok(1) by (auto simp: listed_def rw_sorted_def enqueue_ghost_def)
  then show ?thesis using tasks_in_queue [OF T, of 1 ?w] by auto
qed

section \<open>Handing the lock to a writer\<close>

lemma enqueue_sorted [simp]: "rw_sorted (enqueue_ghost h f g) b w \<longleftrightarrow> rw_sorted g b w"
  by (simp add: rw_sorted_def enqueue_ghost_def)

text \<open>The pop that follows the compare-exchange: a writer comes off the write queue.\<close>

lemma rw_pop_sorted:
  assumes T: "tasks_ok f 2 W g fx (\<lambda>t. rw_role (L t) (pc t))" and ws: "g_queues g f ! 1 = w # xs"
    and u: "pc u = RwWait b p" "rw_sorted g b (wait_waiter p)"
  shows "rw_sorted (pop_ghost t f 1 g) b (wait_waiter p)"
proof (cases "wait_waiter p = w")
  case True
  have "g_loc g w = InQueue f 1" using tasks_in_queue [OF T, of 1 w] ws by auto
  then have "rw_q b = 1" using rw_in_queue [OF T u(1)] True by blast
  then have "b" by simp
  with u(2) show ?thesis by (simp add: rw_sorted_def pop_ghost_def)
next
  case False
  have "g_loc (pop_ghost t f 1 g) (wait_waiter p) = g_loc g (wait_waiter p)"
    using False ws by (simp add: pop_ghost_def)
  with u(2) show ?thesis by (simp add: rw_sorted_def)
qed

text \<open>The swap of the waker of the popped writer makes the writer the owner.\<close>

lemma rw_wake_writer:
  assumes ok: "rw_ok f N W pc g fx own rs ws" and t: "pc t = RwUnlock c v" "t < N" "t \<notin> ws" "\<not> waking (pc t)"
    and hand: "r_hand (rw_role (g_list g t) (pc t)) = Some w"
    and p: "\<And>k. rw_role (g_list g t) (p k) = (rw_role (g_list g t) (pc t))\<lparr>r_hand := None\<rparr>"
      "\<And>k. \<not> waking (p k)" "\<And>k h C. \<not> rtok h C (p k)" "\<And>k. \<not> wtok (p k)" "\<And>k h. \<not> rw_owns h (p k)"
      "\<And>k. \<not> leader (p k)" "\<And>k h g'. rw_pc_ok f h g' t (p k)"
  shows "rw_good f N t pc (mapR (\<lambda>(k, W). (p k, W)) (wake_swap W w))"
proof -
  note T = rw_okD(1) [OF ok]
  let ?W = "W\<lparr>heap := put_waker (heap W) w WakerDone\<rparr>" and ?g = "wake_ghost w g"
  obtain k where k: "wake_swap W w = Inr (k, ?W)" "wkr (heap W) w = WakerWaiting k"
    "tasks_ok f 2 ?W ?g fx ((\<lambda>v. rw_role (g_list g v) (pc v))(t := (rw_role (g_list g t) (pc t))\<lparr>r_hand := None\<rparr>))"
    by (rule tasks_wake [OF T hand refl])
  have at: "g_loc g w = InHand t" using tasks_in_hand [OF T] hand by blast
  have own: "own = Some t" by (rule rw_hand_owner [OF ok hand])
  then have rs: "rs = {}" "ws \<noteq> {}" using rw_okD(10) [OF ok] by auto
  obtain u b q where u: "pc u = RwWait b q" "wait_waiter q = w"
    by (rule rw_sleeper [OF T, of w]) (use at in auto)
  have b: "b" using rw_okD(2) [OF ok, of u] u at by (cases b) (simp_all add: rw_sorted_def)
  have ut: "u \<noteq> t" using u t by auto
  have alive: "alive (heap W) w" using world_ok_alive [OF tasks_okD(1) [OF T], of w] at by simp
  have wk: "wkr (heap ?W) v = (if v = w then WakerDone else wkr (heap W) v)" for v
    using alive by (simp add: put_waker_reads)
  have other: "wait_waiter q' \<noteq> w" if "pc v = RwWait b' q'" "v \<noteq> u" for v b' q'
    using tasks_sole [OF T, of u w v] that u waiter_stage by auto
  have cnt: "counted (g_list ?g) (pc(t := p k)) = counted (g_list g) pc"
    by (rule counted_same) (use p(2) t in \<open>simp_all add: wake_ghost_def\<close>)
  have "rw_ok f N ?W (pc(t := p k)) ?g fx (Some u) rs ws"
  proof (rule rw_ok_step [OF ok t(2)])
    show "tasks_ok f 2 ?W ?g fx ((\<lambda>v. rw_role (g_list g v) (pc v))(t := rw_role (g_list ?g t) (p k)))"
      using k(3) p(1) [of k] by (simp add: wake_ghost_def)
  next
    fix v show "v \<in> rs \<longleftrightarrow> rtok (heap ?W) (counted (g_list ?g) (pc(t := p k))) ((pc(t := p k)) v)"
    proof (cases "v = t \<or> v = u")
      case False
      have "rtok (heap ?W) (counted (g_list g) pc) (pc v) = rtok (heap W) (counted (g_list g) pc) (pc v)"
        using wk other [of v] False by (cases "pc v" rule: wtok.cases) auto
      then show ?thesis unfolding cnt using rw_okD(5) [OF ok, of v] False by simp
    qed (use rs p(3) u b ut in auto)
    show "v \<in> ws \<longleftrightarrow> wtok ((pc(t := p k)) v)"
      using rw_okD(6) [OF ok, of v] p(4) t(3) by auto
    show "rw_owns (heap ?W) ((pc(t := p k)) v) \<longleftrightarrow> Some u = Some v"
    proof (cases "v = t \<or> v = u")
      case False
      have "rw_owns (heap ?W) (pc v) = rw_owns (heap W) (pc v)"
        using wk other [of v] False by (cases "pc v" rule: wtok.cases) auto
      then show ?thesis using rw_okD(7) [OF ok, of v] False own by auto
    qed (use p(5) u b ut wk in auto)
    show "leader ((pc(t := p k)) v) \<Longrightarrow> rs = {v} \<and> ws \<noteq> {}"
      using rw_okD(9) [OF ok, of v] p(6) [of k] by (cases "v = t") auto
  next
    fix v d q' assume "rw_sorted g d (wait_waiter q')"
    then show "rw_sorted ?g d (wait_waiter q')" by (auto simp: rw_sorted_def wake_ghost_def)
  qed (use rs p(7) wk rw_okD(8) [OF ok] in \<open>auto simp: wake_ghost_def\<close>)
  then show ?thesis using rw_goodI by (simp add: k(1))
qed

section \<open>read_unlock\<close>

text \<open>The steps of an unlock that change neither the tokens nor the lists.\<close>

lemma rw_unlock_quiet:
  assumes ok: "rw_ok f N W pc g fx own rs ws" and t: "pc t = RwUnlock c v" "t < N"
    and T: "tasks_ok f 2 W' g fx' ((\<lambda>u. rw_role (g_list g u) (pc u))(t := rw_role (g_list g t) (RwUnlock c v')))"
    and same: "futex_atom fx' = futex_atom fx" "heap W' = heap W"
    and p: "rw_pc_ok f (heap W) g t (RwUnlock c v')"
    and tok: "waking (RwUnlock c v') = waking (RwUnlock c v)"
      "\<And>h C. rtok h C (RwUnlock c v') = rtok h C (RwUnlock c v)" "wtok (RwUnlock c v') = wtok (RwUnlock c v)"
      "\<And>h. rw_owns h (RwUnlock c v') = rw_owns h (RwUnlock c v)"
      "leader (RwUnlock c v') \<Longrightarrow> leader (RwUnlock c v) \<or> rs = {t} \<and> ws \<noteq> {}"
  shows "rw_good f N t pc (Inr (RwUnlock c v', W'))"
  by (rule rw_quiet [OF ok t(2) T]) (use same p tok t in simp_all)

lemmas ru_simps = ru_role_def ru_reads_def ru_owns_def ru_ok_def idle_role_def

lemma card_one: "card A = 1 \<Longrightarrow> x \<in> A \<Longrightarrow> A = {x}"
  by (auto simp: card_1_singleton_iff)

text \<open>The present atom as the snapshot of a reader.\<close>

lemma rw_reader_snap:
  assumes ok: "rw_ok f N W pc g fx own rs ws" and t: "t \<in> rs" and s: "s = futex_atom fx"
  shows "ra_readers (rw_decode (fa_atom s)) \<noteq> 0"
    "ra_readers (rw_decode (fa_atom s)) = 1 \<and> ra_writers (rw_decode (fa_atom s)) > 0 \<longleftrightarrow> rs = {t} \<and> ws \<noteq> {}"
proof -
  note e = rw_snap(1,2) [OF ok s [symmetric]] and z = rw_zero [OF ok]
  show "ra_readers (rw_decode (fa_atom s)) \<noteq> 0" using e(1) z(1) t by auto
  show "ra_readers (rw_decode (fa_atom s)) = 1 \<and> ra_writers (rw_decode (fa_atom s)) > 0 \<longleftrightarrow> rs = {t} \<and> ws \<noteq> {}"
    unfolding e word_neq_0_conv [symmetric] z using card_one [of rs t] t by auto
qed

lemma ru_load:
  assumes ok: "rw_ok f N W pc g fx own rs ws" and t: "pc t = RwUnlock c (RU u)" "t < N"
    and u: "u = RULoad \<or> (\<exists>s. u = RUTry s)"
  shows "rw_good f N t pc (Inr (RwUnlock c (RU (RUTry (futex_atom fx))), W))"
proof -
  have t': "t \<in> rs" using rw_okD(5) [OF ok, of t] t u by (auto simp: ru_reads_def)
  note s = rw_reader_snap [OF ok t' refl]
  show ?thesis
  proof (rule rw_unlock_quiet [OF ok t])
    show "tasks_ok f 2 W g fx ((\<lambda>u. rw_role (g_list g u) (pc u))(t := rw_role (g_list g t)
        (RwUnlock c (RU (RUTry (futex_atom fx))))))"
      by (rule same_role [OF rw_okD(1) [OF ok]]) (use t u in \<open>auto simp: ru_simps\<close>)
  qed (use u s in \<open>auto simp: ru_simps\<close>)
qed

lemma rw_less:
  "x \<noteq> 0 \<Longrightarrow> checked_minus x 1 = Inr (x - 1)" for x :: usize
  by (rule checked_minus_1)

lemma usize_more: "x \<noteq> 0 \<Longrightarrow> x \<noteq> 1 \<Longrightarrow> x > 1" for x :: usize
  by (simp add: word_less_nat_alt word_unat_eq_iff)

lemma rw_count_less:
  assumes ok: "rw_ok f N W pc g fx own rs ws" and s: "s = futex_atom fx"
  shows "t \<in> rs \<Longrightarrow> rw_encode ((rw_decode (fa_atom s))\<lparr>ra_readers := ra_readers (rw_decode (fa_atom s)) - 1\<rparr>) =
      rw_count (rs - {t}) ws"
    "t \<in> ws \<Longrightarrow> rw_encode ((rw_decode (fa_atom s))\<lparr>ra_writers := ra_writers (rw_decode (fa_atom s)) - 1\<rparr>) =
      rw_count rs (ws - {t})"
proof -
  have less: "(of_nat (card A) :: usize) - 1 = of_nat (card (A - {t}))" if "finite A" "t \<in> A" for A :: "tid set"
  proof -
    have "(of_nat (card A) :: usize) = 1 + of_nat (card (A - {t}))"
      unfolding card_Suc_Diff1 [OF that, symmetric] by (rule of_nat_Suc)
    then show ?thesis by simp
  qed
  show "t \<in> rs \<Longrightarrow> rw_encode ((rw_decode (fa_atom s))\<lparr>ra_readers := ra_readers (rw_decode (fa_atom s)) - 1\<rparr>) =
      rw_count (rs - {t}) ws"
    using rw_bounds(1,5) [OF ok] less [of rs] s by (simp add: rw_count_def)
  show "t \<in> ws \<Longrightarrow> rw_encode ((rw_decode (fa_atom s))\<lparr>ra_writers := ra_writers (rw_decode (fa_atom s)) - 1\<rparr>) =
      rw_count rs (ws - {t})"
    using rw_bounds(2,5) [OF ok] less [of ws] s by (simp add: rw_count_def)
qed

text \<open>A reader that is not the leader leaves by decrementing the count.\<close>

lemma ru_try:
  assumes ok: "rw_ok f N W pc g fx own rs ws" and t: "pc t = RwUnlock c (RU (RUTry s))" "t < N"
  shows "rw_good f N t pc (mapR (\<lambda>(u, W). (RwUnlock c (RU u), W)) (read_unlock_try spurious f W s))"
proof -
  note T = rw_okD(1) [OF ok]
  let ?d = "rw_decode (fa_atom s)" and ?R = "\<lambda>u. rw_role (g_list g u) (pc u)"
  have t': "t \<in> rs" using rw_okD(5) [OF ok, of t] t by (simp add: ru_reads_def)
  have nz: "ra_readers ?d \<noteq> 0" using rw_okD(2) [OF ok, of t] t by (simp add: ru_ok_def)
  show ?thesis
  proof (cases "ra_readers ?d = 1 \<and> ra_writers ?d > 0")
    case True
    have "rw_good f N t pc (Inr (RwUnlock c (RU (RULock s)), W))"
    proof (rule rw_unlock_quiet [OF ok t])
      show "tasks_ok f 2 W g fx (?R(t := rw_role (g_list g t) (RwUnlock c (RU (RULock s)))))"
        by (rule same_role [OF T]) (use t in \<open>simp add: ru_simps\<close>)
    qed (use True in \<open>simp_all add: ru_simps\<close>)
    then show ?thesis using True by (simp add: read_unlock_try_def inner_def Let_def)
  next
    case nl: False
    let ?new = "rw_encode (?d\<lparr>ra_readers := ra_readers ?d - 1\<rparr>)"
    let ?fx = "fx\<lparr>futex_atom := \<lparr>fa_atom = ?new, fa_inbox = fa_inbox s\<rparr>\<rparr>"
    have r: "read_unlock_try spurious f W s = Inr
        (if futex_atom fx = s \<and> \<not> spurious then (RUDone, put_futex W f ?fx) else (RUTry (futex_atom fx), W))"
      using nl nz futex_cmpxchg_weak_eq [OF tasks_okD(2) [OF T], of ReleaseT RelaxedT spurious s ?new]
      by (cases spurious; cases "futex_atom fx = s") (auto simp: read_unlock_try_def inner_def Let_def rw_less)
    show ?thesis
    proof (cases "futex_atom fx = s \<and> \<not> spurious")
      case False
      have e: "read_unlock_try spurious f W s = Inr (RUTry (futex_atom fx), W)"
        unfolding r if_not_P [OF False] by (rule refl)
      have "rw_good f N t pc (Inr (RwUnlock c (RU (RUTry (futex_atom fx))), W))"
        by (rule ru_load [OF ok t]) simp
      then show ?thesis by (simp add: e)
    next
      case True
      let ?p = "RwUnlock c (RU RUDone)"
      have T1: "tasks_ok f 2 (put_futex W f ?fx) g ?fx (?R(t := rw_role (g_list g t) ?p))"
        by (rule same_role [OF tasks_put_atom [OF T]]) (use True t in \<open>auto simp: ru_simps\<close>)
      have own: "own = None" using rw_okD(10) [OF ok] t' by blast
      have s: "s = futex_atom fx" using True by simp
      have nl': "ws \<noteq> {} \<Longrightarrow> rs \<noteq> {t}" using nl rw_reader_snap(2) [OF ok t' s] by blast
      have "rw_ok f N (put_futex W f ?fx) (pc(t := ?p)) g ?fx own (rs - {t}) ws"
      proof (rule rw_ok_plain [OF ok t(2) T1])
        show "counted (g_list g) (pc(t := ?p)) = counted (g_list g) pc"
          by (rule counted_same) (simp_all add: t)
      qed (use t' own nl' rw_count_less(1) [OF ok s t'] rw_okD(6) [OF ok, of t] rw_okD(12) [OF ok] t in
          \<open>auto simp: ru_simps\<close>)
      then show ?thesis unfolding r using True rw_goodI by simp
    qed
  qed
qed

text \<open>The borrow of the queues is free for a leader and for the owner.\<close>

lemma rw_borrower:
  assumes "r_borrow (rw_role xs p)"
  shows "leader p \<or> rw_owns h p \<or> rtok h C p \<or> (\<exists>c. p = RwUnlock c (RU RUUnborrow))"
  using assms by (cases "(xs, p)" rule: rw_role.cases)
    (auto simp: rw_simps ru_owns_def wu_owns_def wu_writes_def wu_placeholder_def
      split: read_unlock_pc.splits write_unlock_pc.splits)

lemma rw_no_borrow:
  assumes ok: "rw_ok f N W pc g fx own rs ws" and t: "rs = {t} \<or> own = Some t"
    and nb: "\<not> r_borrow (rw_role (g_list g t) (pc t))"
  shows "\<not> r_borrow (rw_role (g_list g u) (pc u))"
proof
  assume b: "r_borrow (rw_role (g_list g u) (pc u))"
  then have ne: "u \<noteq> t" using nb by blast
  have "\<forall>c. pc u \<noteq> RwUnlock c (RU RUUnborrow)" using rw_okD(2) [OF ok, of u] by (auto simp: ru_ok_def)
  then have "rs = {u} \<or> own = Some u \<or> u \<in> rs"
    using rw_borrower [OF b, of "heap W" "counted (g_list g) pc"] rw_okD(5,7,9) [OF ok, of u] by blast
  then show False using t ne rw_okD(10) [OF ok] by auto
qed

lemma ru_guard:
  assumes ok: "rw_ok f N W pc g fx own rs ws" and t: "pc t = RwUnlock c (RU u)" "t < N"
    and u: "(\<exists>s. u = RULock s) \<or> (\<exists>s. u = RUBorrow s) \<or> (\<exists>w. u = RUDrop w) \<or> u = RUUnlock"
    and step: "read_unlock_step spurious t f W u = Some r"
  shows "rw_good f N t pc (mapR (\<lambda>(u, W). (RwUnlock c (RU u), W)) r)"
proof -
  note T = rw_okD(1) [OF ok]
  let ?R = "\<lambda>u. rw_role (g_list g u) (pc u)" and ?r = "\<lambda>u. rw_role (g_list g t) (RwUnlock c (RU u))"
  have go: "rw_good f N t pc (Inr (RwUnlock c (RU u'), put_futex W f fx'))"
    if "tasks_ok f 2 (put_futex W f fx') g fx' (?R(t := ?r u'))" "futex_atom fx' = futex_atom fx"
      "ru_ok u'" "ru_reads u' = ru_reads u" "ru_owns u' = ru_owns u"
      "leader (RwUnlock c (RU u')) \<Longrightarrow> leader (RwUnlock c (RU u))" for u' fx'
    by (rule rw_unlock_quiet [OF ok t that(1,2)]) (use that in auto)
  from u show ?thesis
  proof (elim disjE exE)
    fix s assume u: "u = RULock s"
    have role: "?r (RUBorrow s) = (?R t)\<lparr>r_read := True\<rparr>" by (simp add: t u ru_simps)
    obtain r0 where r0: "futex_lock t W f = Some r0" "r = mapR (Pair (RUBorrow s)) r0"
      using step u by (auto simp: read_unlock_step_def)
    obtain fx' where l: "r0 = Inr (put_futex W f fx')" "futex_atom fx' = futex_atom fx"
      "tasks_ok f 2 (put_futex W f fx') g fx' (?R(t := ?r (RUBorrow s)))"
      unfolding role by (rule tasks_lock [OF T r0(1)])
    show ?thesis using go [OF l(3,2)] by (simp add: r0 l(1) u ru_simps)
  next
    fix s assume u: "u = RUBorrow s"
    have role: "?r (RULoop s) = (?R t)\<lparr>r_borrow := True\<rparr>" by (simp add: t u ru_simps)
    have rs: "rs = {t}" using rw_okD(9) [OF ok, of t] t u by simp
    have free: "\<not> r_borrow (?R v)" for v
      by (rule rw_no_borrow [OF ok, of t]) (use rs t u in \<open>simp_all add: ru_simps\<close>)
    obtain fx' where l: "queue_lock W f = Inr (put_futex W f fx')" "futex_atom fx' = futex_atom fx"
      "tasks_ok f 2 (put_futex W f fx') g fx' (?R(t := ?r (RULoop s)))"
      unfolding role by (rule tasks_queue_lock [OF T free])
    show ?thesis using go [OF l(3,2)] step l(1) by (auto simp: read_unlock_step_def u ru_simps)
  next
    fix w assume u: "u = RUDrop w"
    have role: "?r (RUWake w) = (?R t)\<lparr>r_borrow := False\<rparr>" and b: "r_borrow (?R t)"
      by (simp_all add: t u ru_simps)
    obtain fx' where l: "queue_unlock W f = Inr (put_futex W f fx')" "futex_atom fx' = futex_atom fx"
      "tasks_ok f 2 (put_futex W f fx') g fx' (?R(t := ?r (RUWake w)))"
      unfolding role by (rule tasks_queue_unlock [OF T b])
    show ?thesis using go [OF l(3,2)] step l(1) by (auto simp: read_unlock_step_def u ru_simps)
  next
    assume u: "u = RUUnlock"
    have role: "?r RUDone = (?R t)\<lparr>r_read := False\<rparr>" and h: "r_hand (?R t) = None" "r_list (?R t) = []"
      by (simp_all add: t u ru_simps)
    obtain fx' where l: "futex_unlock t W f = Inr (put_futex W f fx')" "futex_atom fx' = futex_atom fx"
      "tasks_ok f 2 (put_futex W f fx') g fx' (?R(t := ?r RUDone))"
      unfolding role by (rule tasks_unlock [OF T h])
    show ?thesis using go [OF l(3,2)] step l(1) by (auto simp: read_unlock_step_def u ru_simps)
  qed
qed

text \<open>The leader gives up its count and pops the writer it hands the lock to.\<close>

lemma ru_hand:
  assumes ok: "rw_ok f N W pc g fx own rs ws" and t: "pc t = RwUnlock c (RU (RULoop s))" "t < N"
  shows "rw_good f N t pc (mapR (\<lambda>(u, W). (RwUnlock c (RU u), W)) (read_unlock_hand spurious f W s))"
proof -
  note T = rw_okD(1) [OF ok]
  let ?d = "rw_decode (fa_atom s)" and ?R = "\<lambda>u. rw_role (g_list g u) (pc u)"
  let ?new = "rw_encode (?d\<lparr>ra_readers := 0\<rparr>)"
  have rs: "rs = {t}" "ws \<noteq> {}" and own: "own = None"
    using rw_okD(9) [OF ok, of t] rw_okD(10) [OF ok] t by auto
  have relaxed: "cas_orders s (ORDERING RelaxedT)" for s by simp
  obtain h' qs' where e: "cmpxchg_enqueue_weak spurious AcqRelT RelaxedT W f s ?new = Inr
      (if futex_atom fx = s \<and> \<not> spurious
       then (True, s, put_futex (W\<lparr>heap := h'\<rparr>) f
               (fx\<lparr>futex_atom := \<lparr>fa_atom = ?new, fa_inbox = null\<rparr>, queues := qs'\<rparr>))
       else (False, futex_atom fx, W))"
    "\<And>v. wkr h' v = wkr (heap W) v"
    "tasks_ok f 2 (put_futex (W\<lparr>heap := h'\<rparr>) f
        (fx\<lparr>futex_atom := \<lparr>fa_atom = ?new, fa_inbox = null\<rparr>, queues := qs'\<rparr>))
      (enqueue_ghost (heap W) f g)
      (fx\<lparr>futex_atom := \<lparr>fa_atom = ?new, fa_inbox = null\<rparr>, queues := qs'\<rparr>) ?R"
    using tasks_cmpxchg_enqueue [OF T relaxed, of spurious AcqRelT s ?new] by blast
  let ?fx1 = "fx\<lparr>futex_atom := \<lparr>fa_atom = ?new, fa_inbox = null\<rparr>, queues := qs'\<rparr>"
  let ?W1 = "put_futex (W\<lparr>heap := h'\<rparr>) f ?fx1" and ?g1 = "enqueue_ghost (heap W) f g"
  show ?thesis
  proof (cases "futex_atom fx = s \<and> \<not> spurious")
    case False
    have "read_unlock_hand spurious f W s = Inr (RULoop (futex_atom fx), W)"
      by (simp add: read_unlock_hand_def inner_def Let_def e(1) if_not_P [OF False])
    moreover have "rw_good f N t pc (Inr (RwUnlock c (RU (RULoop (futex_atom fx))), W))"
    proof (rule rw_unlock_quiet [OF ok t])
      show "tasks_ok f 2 W g fx (?R(t := rw_role (g_list g t) (RwUnlock c (RU (RULoop (futex_atom fx))))))"
        by (rule same_role [OF T]) (use t in \<open>simp add: ru_simps\<close>)
    qed (simp_all add: ru_simps)
    ultimately show ?thesis by simp
  next
    case True
    have s: "futex_atom fx = s" using True by simp
    have "u \<noteq> t" if "u \<in> ws" for u using that rw_okD(6) [OF ok, of u] t by auto
    moreover obtain u where u: "u \<in> ws" using rs(2) by blast
    ultimately have "g_queues ?g1 f ! 1 \<noteq> []"
      using rw_queued_writer [OF ok u _ _ e(3)] own by simp
    then obtain w xs where q: "g_queues ?g1 f ! unat WRITE_QUEUE = w # xs"
      by (cases "g_queues ?g1 f ! 1") (auto simp: WRITE_QUEUE_def)
    have r: "r_read (?R t)" "r_hand (?R t) = None" by (simp_all add: t ru_simps)
    have one: "unat WRITE_QUEUE = 1" and k: "unat WRITE_QUEUE < 2" by (simp_all add: WRITE_QUEUE_def)
    obtain h2 fx2 where p: "queue_pop ?W1 f WRITE_QUEUE = Inr (Some w, put_futex (?W1\<lparr>heap := h2\<rparr>) f fx2)"
      "futex_atom fx2 = futex_atom ?fx1" "\<And>v. wkr h2 v = wkr (heap ?W1) v"
      "tasks_ok f 2 (put_futex (?W1\<lparr>heap := h2\<rparr>) f fx2) (pop_ghost t f (unat WRITE_QUEUE) ?g1) fx2
         (?R(t := (?R t)\<lparr>r_hand := Some w\<rparr>))"
      using tasks_pop_Cons [OF e(3) k r q] by blast
    let ?W2 = "put_futex (?W1\<lparr>heap := h2\<rparr>) f fx2" and ?g2 = "pop_ghost t f 1 ?g1"
    let ?p = "RwUnlock c (RU (RUDrop w))"
    have role: "(?R t)\<lparr>r_hand := Some w\<rparr> = rw_role (g_list ?g2 t) ?p" by (simp add: t ru_simps)
    have T2: "tasks_ok f 2 ?W2 ?g2 fx2 (?R(t := rw_role (g_list ?g2 t) ?p))"
      using p(4) unfolding one role .
    have gl: "g_list (pop_ghost t f k ?g1) = g_list g" for k by (simp add: pop_ghost_def enqueue_ghost_def)
    have ok2: "rw_ok f N ?W2 (pc(t := ?p)) ?g2 fx2 (Some t) {} ws"
    proof (rule rw_ok_plain [OF ok t(2) T2])
      show "counted (g_list ?g2) (pc(t := ?p)) = counted (g_list g) pc"
        by (rule counted_same) (simp_all add: t gl)
      fix u b q assume "u \<noteq> t" "pc u = RwWait b q" "rw_sorted g b (wait_waiter q)"
      then show "rw_sorted ?g2 b (wait_waiter q)"
        using rw_pop_sorted [OF e(3), of w xs] \<open>g_queues ?g1 f ! unat WRITE_QUEUE = w # xs\<close> one by simp
    next
      fix u assume "scans (pc u)"
      then show "(g_queues ?g2 f ! 0 = []) = (g_queues g f ! 0 = [])"
        using scans_reads(2) [of "pc u" "heap W"] rw_okD(7) [OF ok, of u] own by simp
    next
      show "fa_atom (futex_atom fx2) = rw_count {} ws"
        using p(2) rw_bounds(5) [OF ok] s by (simp add: rw_count_def)
    qed (use rs own gl e(2) p(3) rw_okD(6,7) [OF ok, of t] t in \<open>auto simp: ru_simps\<close>)
    have "ra_writers ?d > 0" using rs(2) rw_snap(2) [OF ok s] rw_zero(2) [OF ok] by (simp add: word_neq_0_conv)
    then have "read_unlock_hand spurious f W s = Inr (RUDrop w, ?W2)"
      unfolding read_unlock_hand_def inner_def Let_def e(1) if_P [OF True] using p(1) by simp
    then show ?thesis using rw_goodI [OF ok2] by simp
  qed
qed

lemma ru_good:
  assumes ok: "rw_ok f N W pc g fx own rs ws" and t: "pc t = RwUnlock c (RU u)" "t < N"
    and step: "read_unlock_step spurious t f W u = Some r"
  shows "rw_good f N t pc (mapR (\<lambda>(u, W). (RwUnlock c (RU u), W)) r)"
proof -
  note T = rw_okD(1) [OF ok]
  consider "(\<exists>s. u = RULock s) \<or> (\<exists>s. u = RUBorrow s) \<or> (\<exists>w. u = RUDrop w) \<or> u = RUUnlock"
    | "u = RULoad" | s where "u = RUTry s" | s where "u = RULoop s" | w where "u = RUWake w"
    | k where "u = RUCall k" | "u = RUUnborrow"
    using step by (cases u) (auto simp: read_unlock_step_def)
  then show ?thesis
  proof cases
    case 1
    show ?thesis by (rule ru_guard [OF ok t 1 step])
  next
    case 2
    then have "r = Inr (RUTry (futex_atom fx), W)"
      using step futex_load_eq [OF tasks_okD(2) [OF T], of RelaxedT] by (auto simp: read_unlock_step_def)
    then show ?thesis using ru_load [OF ok t] 2 by simp
  next
    case (3 s)
    then show ?thesis using ru_try [OF ok t(1) [unfolded 3] t(2), of spurious] step by (auto simp: read_unlock_step_def)
  next
    case (4 s)
    then show ?thesis using ru_hand [OF ok t(1) [unfolded 4] t(2), of spurious] step by (auto simp: read_unlock_step_def)
  next
    case (5 w)
    have "rw_good f N t pc (mapR (\<lambda>(k, W). (RwUnlock c (RU (RUCall k)), W)) (wake_swap W w))"
      by (rule rw_wake_writer [OF ok t]) (use t 5 rw_okD(6) [OF ok, of t] in \<open>simp_all add: ru_simps\<close>)
    moreover have "r = bindR (wake_swap W w) (\<lambda>(k, W). Inr (RUCall k, W))"
      using step 5 by (simp add: read_unlock_step_def)
    ultimately show ?thesis by (cases "wake_swap W w") auto
  next
    case (6 k)
    have "rw_good f N t pc (Inr (RwUnlock c (RU RUUnlock), wake_call W k))"
    proof (rule rw_unlock_quiet [OF ok t])
      show "tasks_ok f 2 (wake_call W k) g fx ((\<lambda>u. rw_role (g_list g u) (pc u))(t := rw_role (g_list g t) (RwUnlock c (RU RUUnlock))))"
        by (rule same_role [OF tasks_ok_cong [OF T]]) (use t 6 in \<open>simp_all add: ru_simps\<close>)
    qed (use 6 in \<open>simp_all add: ru_simps\<close>)
    then show ?thesis using step 6 by (auto simp: read_unlock_step_def)
  next
    case 7
    then show ?thesis using rw_okD(2) [OF ok, of t] t by (simp add: ru_ok_def)
  qed
qed

section \<open>write_unlock\<close>

lemmas wu_simps = wu_role_def wu_writes_def wu_owns_def wu_placeholder_def wu_ok_def idle_role_def

text \<open>The present atom as the snapshot of the owner.\<close>

lemma rw_owner_snap:
  assumes ok: "rw_ok f N W pc g fx own rs ws" and own: "own = Some t"
  shows "wu_snap (futex_atom fx)" "rs = {}" "ws \<noteq> {}"
  using rw_okD(10) [OF ok] own rw_snap(1,2) [OF ok refl] rw_zero(1,2) [OF ok]
  by (auto simp: wu_snap_def)

lemma wu_guard:
  assumes ok: "rw_ok f N W pc g fx own rs ws" and t: "pc t = RwUnlock c (WU u)" "t < N"
    and u: "u = WULock \<or> u = WUBorrow \<or> (\<exists>hr s. u = WUReborrow hr s) \<or> (\<exists>w. u = WUDrop w) \<or> u = WUUnlock"
    and step: "write_unlock_step spurious t f W u = Some r"
  shows "rw_good f N t pc (mapR (\<lambda>(u, W). (RwUnlock c (WU u), W)) r)"
proof -
  note T = rw_okD(1) [OF ok]
  let ?R = "\<lambda>u. rw_role (g_list g u) (pc u)" and ?r = "\<lambda>u. rw_role (g_list g t) (RwUnlock c (WU u))"
  have go: "rw_good f N t pc (Inr (RwUnlock c (WU u'), put_futex W f fx'))"
    if "tasks_ok f 2 (put_futex W f fx') g fx' (?R(t := ?r u'))" "futex_atom fx' = futex_atom fx"
      "wu_ok (g_list g t) (g_queues g f ! 0 \<noteq> []) u'" "wu_writes u' = wu_writes u" "wu_owns u' = wu_owns u"
      "wu_placeholder u' = wu_placeholder u" "waking (RwUnlock c (WU u')) = waking (RwUnlock c (WU u))" for u' fx'
    by (rule rw_unlock_quiet [OF ok t that(1,2)]) (use that in auto)
  have pok: "wu_ok (g_list g t) (g_queues g f ! 0 \<noteq> []) u" using rw_okD(2) [OF ok, of t] t by simp
  have free: "\<not> r_borrow (?R v)" if "wu_owns u" "\<not> r_borrow (?R t)" for v
    by (rule rw_no_borrow [OF ok, of t]) (use that rw_okD(7) [OF ok, of t] t in simp_all)
  from u show ?thesis
  proof (elim disjE exE)
    assume u: "u = WULock"
    have role: "?r WUBorrow = (?R t)\<lparr>r_read := True\<rparr>" by (simp add: t u wu_simps)
    obtain r0 where r0: "futex_lock t W f = Some r0" "r = mapR (Pair WUBorrow) r0"
      using step u by (auto simp: write_unlock_step_def)
    obtain fx' where l: "r0 = Inr (put_futex W f fx')" "futex_atom fx' = futex_atom fx"
      "tasks_ok f 2 (put_futex W f fx') g fx' (?R(t := ?r WUBorrow))"
      unfolding role by (rule tasks_lock [OF T r0(1)])
    show ?thesis using go [OF l(3,2)] by (simp add: r0 l(1) u wu_simps)
  next
    assume u: "u = WUBorrow"
    have role: "?r WULoad = (?R t)\<lparr>r_borrow := True\<rparr>" by (simp add: t u wu_simps)
    have nb: "\<not> r_borrow (?R v)" for v by (rule free) (simp_all add: t u wu_simps)
    obtain fx' where l: "queue_lock W f = Inr (put_futex W f fx')" "futex_atom fx' = futex_atom fx"
      "tasks_ok f 2 (put_futex W f fx') g fx' (?R(t := ?r WULoad))"
      unfolding role by (rule tasks_queue_lock [OF T nb])
    show ?thesis using go [OF l(3,2)] step l(1) by (auto simp: write_unlock_step_def u wu_simps)
  next
    fix hr s assume u: "u = WUReborrow hr s"
    have role: "?r (WULoop hr s) = (?R t)\<lparr>r_borrow := True\<rparr>" by (simp add: t u wu_simps)
    have nb: "\<not> r_borrow (?R v)" for v by (rule free) (simp_all add: t u wu_simps)
    obtain fx' where l: "queue_lock W f = Inr (put_futex W f fx')" "futex_atom fx' = futex_atom fx"
      "tasks_ok f 2 (put_futex W f fx') g fx' (?R(t := ?r (WULoop hr s)))"
      unfolding role by (rule tasks_queue_lock [OF T nb])
    show ?thesis using go [OF l(3,2)] step pok l(1) by (auto simp: write_unlock_step_def u wu_simps)
  next
    fix w assume u: "u = WUDrop w"
    have role: "?r (WUSwap w) = (?R t)\<lparr>r_borrow := False\<rparr>" and b: "r_borrow (?R t)"
      by (simp_all add: t u wu_simps)
    obtain fx' where l: "queue_unlock W f = Inr (put_futex W f fx')" "futex_atom fx' = futex_atom fx"
      "tasks_ok f 2 (put_futex W f fx') g fx' (?R(t := ?r (WUSwap w)))"
      unfolding role by (rule tasks_queue_unlock [OF T b])
    show ?thesis using go [OF l(3,2)] step l(1) by (auto simp: write_unlock_step_def u wu_simps)
  next
    assume u: "u = WUUnlock"
    have role: "?r WUDone = (?R t)\<lparr>r_read := False\<rparr>" and h: "r_hand (?R t) = None" "r_list (?R t) = []"
      by (simp_all add: t u wu_simps)
    obtain fx' where l: "futex_unlock t W f = Inr (put_futex W f fx')" "futex_atom fx' = futex_atom fx"
      "tasks_ok f 2 (put_futex W f fx') g fx' (?R(t := ?r WUDone))"
      unfolding role by (rule tasks_unlock [OF T h])
    show ?thesis using go [OF l(3,2)] step l(1) by (auto simp: write_unlock_step_def u wu_simps)
  qed
qed

text \<open>Reading the atom at the top of the loop.\<close>

lemma wu_load:
  assumes ok: "rw_ok f N W pc g fx own rs ws" and t: "pc t = RwUnlock c (WU u)" "t < N"
    and u: "u = WULoad \<or> (\<exists>hr s. u = WULoop hr s)" and hr: "hr = (g_queues g f ! 0 \<noteq> [])"
  shows "rw_good f N t pc (Inr (RwUnlock c (WU (WULoop hr (futex_atom fx))), W))"
proof (rule rw_unlock_quiet [OF ok t])
  have "own = Some t" using rw_okD(7) [OF ok, of t] t u by (auto simp: wu_simps)
  then show "rw_pc_ok f (heap W) g t (RwUnlock c (WU (WULoop hr (futex_atom fx))))"
    using rw_owner_snap(1) [OF ok] hr by (simp add: wu_ok_def)
  show "tasks_ok f 2 W g fx ((\<lambda>u. rw_role (g_list g u) (pc u))(t :=
      rw_role (g_list g t) (RwUnlock c (WU (WULoop hr (futex_atom fx))))))"
    by (rule same_role [OF rw_okD(1) [OF ok]]) (use t u in \<open>auto simp: wu_simps\<close>)
qed (use u in \<open>auto simp: wu_simps\<close>)

text \<open>No waiters: the borrow is released, and the atom is cleared unless it has changed.\<close>

lemma wu_release:
  assumes ok: "rw_ok f N W pc g fx own rs ws" and t: "pc t = RwUnlock c (WU (WULoop hr s))" "t < N"
    and s: "ra_writers (rw_decode (fa_atom s)) = 1" "\<not> hr" "\<not> has_new_waiters s"
  shows "rw_good f N t pc (mapR (\<lambda>W. (RwUnlock c (WU (WUCas hr s)), W)) (queue_unlock W f))"
proof -
  note T = rw_okD(1) [OF ok]
  let ?R = "\<lambda>u. rw_role (g_list g u) (pc u)" and ?p = "RwUnlock c (WU (WUCas hr s))"
  have role: "rw_role (g_list g t) ?p = (?R t)\<lparr>r_borrow := False\<rparr>" and b: "r_borrow (?R t)"
    by (simp_all add: t wu_simps)
  obtain fx' where l: "queue_unlock W f = Inr (put_futex W f fx')" "futex_atom fx' = futex_atom fx"
    "tasks_ok f 2 (put_futex W f fx') g fx' (?R(t := rw_role (g_list g t) ?p))"
    unfolding role by (rule tasks_queue_unlock [OF T b])
  have "rw_good f N t pc (Inr (?p, put_futex W f fx'))"
    by (rule rw_unlock_quiet [OF ok t l(3,2)])
      (use rw_okD(2) [OF ok, of t] t s in \<open>auto simp: wu_simps has_new_waiters_def\<close>)
  then show ?thesis by (simp add: l(1))
qed

lemma wu_cas:
  assumes ok: "rw_ok f N W pc g fx own rs ws" and t: "pc t = RwUnlock c (WU (WUCas hr s))" "t < N"
  shows "rw_good f N t pc (mapR (\<lambda>(u, W). (RwUnlock c (WU u), W))
    (bindR (futex_cmpxchg_weak spurious ReleaseT RelaxedT W f s (rw_encode \<lparr>ra_readers = 0, ra_writers = 0\<rparr>))
      (\<lambda>(ok, s, W). Inr (if ok then WUUnlock else WUReborrow hr s, W))))"
proof -
  note T = rw_okD(1) [OF ok]
  let ?R = "\<lambda>u. rw_role (g_list g u) (pc u)" and ?new = "rw_encode \<lparr>ra_readers = 0, ra_writers = 0\<rparr>"
  let ?fx = "fx\<lparr>futex_atom := \<lparr>fa_atom = ?new, fa_inbox = fa_inbox s\<rparr>\<rparr>"
  note cas = futex_cmpxchg_weak_eq [OF tasks_okD(2) [OF T], of ReleaseT RelaxedT spurious s ?new]
  have own: "own = Some t" and w: "t \<in> ws" using rw_okD(6,7) [OF ok, of t] t by (auto simp: wu_simps)
  have pok: "\<not> hr" "g_queues g f ! 0 = []" "ra_writers (rw_decode (fa_atom s)) = 1" "fa_inbox s = null"
    using rw_okD(2) [OF ok, of t] t by (auto simp: wu_simps)
  show ?thesis
  proof (cases "futex_atom fx = s \<and> \<not> spurious")
    case False
    have "rw_good f N t pc (Inr (RwUnlock c (WU (WUReborrow hr (futex_atom fx))), W))"
    proof (rule rw_unlock_quiet [OF ok t])
      show "tasks_ok f 2 W g fx (?R(t := rw_role (g_list g t) (RwUnlock c (WU (WUReborrow hr (futex_atom fx))))))"
        by (rule same_role [OF T]) (use t in \<open>simp add: wu_simps\<close>)
    qed (use pok rw_owner_snap(1) [OF ok own] in \<open>simp_all add: wu_simps\<close>)
    then show ?thesis using cas False by (simp add: if_not_P [OF False])
  next
    case True
    let ?p = "RwUnlock c (WU WUUnlock)"
    have s: "futex_atom fx = s" using True by simp
    have ws: "ws = {t}" using card_one [OF _ w] rw_snap(2) [OF ok s] rw_zero(4) [OF ok] pok(3) by simp
    have T1: "tasks_ok f 2 (put_futex W f ?fx) g ?fx (?R(t := rw_role (g_list g t) ?p))"
      by (rule same_role [OF tasks_put_atom [OF T]]) (use True t in \<open>auto simp: wu_simps\<close>)
    have inbox: "g_inbox g f = []" using inbox_null [OF tasks_okD(1,2) [OF T]] s pok(4) by simp
    have "rw_ok f N (put_futex W f ?fx) (pc(t := ?p)) g ?fx None {} {}"
    proof (rule rw_ok_plain [OF ok t(2) T1])
      show "counted (g_list g) (pc(t := ?p)) = counted (g_list g) pc"
        by (rule counted_same) (simp_all add: t)
    qed (use own ws inbox pok rw_owner_snap(2) [OF ok own] in \<open>auto simp: wu_simps rw_count_def\<close>)
    then show ?thesis using cas rw_goodI by (simp add: if_P [OF True])
  qed
qed

text \<open>The last writer becomes a placeholder reader and takes all the queued readers.\<close>

lemma wu_downgrade:
  assumes ok: "rw_ok f N W pc g fx own rs ws" and t: "pc t = RwUnlock c (WU (WULoop hr s))" "t < N"
    and s: "ra_writers (rw_decode (fa_atom s)) = 1" "hr \<or> has_new_waiters s"
  shows "rw_good f N t pc (mapR (\<lambda>(u, W). (RwUnlock c (WU u), W)) (write_unlock_downgrade spurious f W hr s))"
proof -
  note T = rw_okD(1) [OF ok]
  let ?R = "\<lambda>u. rw_role (g_list g u) (pc u)" and ?new = "rw_encode \<lparr>ra_readers = 1, ra_writers = 0\<rparr>"
  have own: "own = Some t" and w: "t \<in> ws" using rw_okD(6,7) [OF ok, of t] t by (auto simp: wu_simps)
  have hr: "hr = (g_queues g f ! 0 \<noteq> [])" using rw_okD(2) [OF ok, of t] t by (auto simp: wu_ok_def)
  have rs: "rs = {}" by (rule rw_owner_snap [OF ok own])
  have relaxed: "cas_orders s (ORDERING RelaxedT)" for s by simp
  obtain h' qs' where e: "cmpxchg_enqueue_weak spurious AcqRelT RelaxedT W f s ?new = Inr
      (if futex_atom fx = s \<and> \<not> spurious
       then (True, s, put_futex (W\<lparr>heap := h'\<rparr>) f
               (fx\<lparr>futex_atom := \<lparr>fa_atom = ?new, fa_inbox = null\<rparr>, queues := qs'\<rparr>))
       else (False, futex_atom fx, W))"
    "\<And>v. wkr h' v = wkr (heap W) v"
    "tasks_ok f 2 (put_futex (W\<lparr>heap := h'\<rparr>) f
        (fx\<lparr>futex_atom := \<lparr>fa_atom = ?new, fa_inbox = null\<rparr>, queues := qs'\<rparr>))
      (enqueue_ghost (heap W) f g)
      (fx\<lparr>futex_atom := \<lparr>fa_atom = ?new, fa_inbox = null\<rparr>, queues := qs'\<rparr>) ?R"
    using tasks_cmpxchg_enqueue [OF T relaxed, of spurious AcqRelT s ?new] by blast
  let ?fx1 = "fx\<lparr>futex_atom := \<lparr>fa_atom = ?new, fa_inbox = null\<rparr>, queues := qs'\<rparr>"
  let ?W1 = "put_futex (W\<lparr>heap := h'\<rparr>) f ?fx1" and ?g1 = "enqueue_ghost (heap W) f g"
  show ?thesis
  proof (cases "futex_atom fx = s \<and> \<not> spurious")
    case False
    have "write_unlock_downgrade spurious f W hr s = Inr (WULoop hr (futex_atom fx), W)"
      by (simp add: write_unlock_downgrade_def e(1) if_not_P [OF False])
    moreover have "rw_good f N t pc (Inr (RwUnlock c (WU (WULoop hr (futex_atom fx))), W))"
      by (rule wu_load [OF ok t _ hr]) simp
    ultimately show ?thesis by simp
  next
    case True
    define xs where "xs = g_queues ?g1 f ! 0"
    have s': "futex_atom fx = s" using True by simp
    have ws: "ws = {t}" using card_one [OF _ w] rw_snap(2) [OF ok s'] rw_zero(4) [OF ok] s(1) by simp
    have noW: "g_loc ?g1 v \<noteq> InQueue f 1" for v
    proof
      assume v: "g_loc ?g1 v = InQueue f 1"
      obtain u b p where u: "pc u = RwWait b p" "listed f (rw_q b) (g_loc ?g1 v)"
        by (rule rw_sleeper [OF e(3), of v]) (use v in auto)
      have "rw_q b = 1" using u(2) v by (simp add: listed_def)
      then have "u \<in> ws" using rw_okD(6) [OF ok, of u] u(1) by simp
      with ws u t show False by auto
    qed
    then have "g_queues ?g1 f ! 1 = []"
      using tasks_in_queue [OF e(3), of 1 "hd (g_queues ?g1 f ! 1)"] hd_in_set by auto
    then have nil: "g_queues ?g1 f ! unat WRITE_QUEUE = []" by (simp add: WRITE_QUEUE_def)
    have "xs \<noteq> []"
    proof (cases hr)
      case True
      then show ?thesis using hr enqueue_lists(1) [OF T, of "heap W"] by (simp add: xs_def)
    next
      case False
      then have "g_inbox g f \<noteq> []"
        using s(2) inbox_null [OF tasks_okD(1,2) [OF T]] s' by (simp add: has_new_waiters_def)
      then obtain v where "v \<in> set (g_inbox g f)" by (cases "g_inbox g f") auto
      then have "g_loc g v = Inbox f"
        using world_okD(3) [OF tasks_okD(1,2) [OF T]] by (auto simp: inbox_ok_def)
      then have v: "g_loc ?g1 v = InQueue f (que (heap W) v)" by (simp add: enqueue_ghost_def)
      obtain b where "rw_q b = que (heap W) v"
        by (rule rw_sleeper [OF e(3), of v]) (use v in \<open>auto simp: listed_def\<close>)
      then have "que (heap W) v = 0" using noW [of v] v by (cases b) (simp_all add: rw_q_def)
      then show ?thesis using tasks_in_queue [OF e(3), of 0 v] v by (auto simp: xs_def)
    qed
    have R: "r_read (?R t)" "r_list (?R t) = []" using t by (simp_all add: wu_simps)
    have k: "unat READ_QUEUE < 2" "unat READ_QUEUE = 0" by (simp_all add: READ_QUEUE_def)
    have m0: "length xs = taken usize_MAX (g_queues ?g1 f ! unat READ_QUEUE)"
      by (simp add: taken_def xs_def k(2))
    obtain h2 fx2 l where m: "queue_pop_many ?W1 f usize_MAX READ_QUEUE = Inr (l, put_futex (?W1\<lparr>heap := h2\<rparr>) f fx2)"
      "futex_atom fx2 = futex_atom ?fx1" "\<And>v. wkr h2 v = wkr (heap ?W1) v"
      "list_ends l (take (length xs) (g_queues ?g1 f ! unat READ_QUEUE))"
      "tasks_ok f 2 (put_futex (?W1\<lparr>heap := h2\<rparr>) f fx2) (pop_many_ghost t f (unat READ_QUEUE) (length xs) ?g1) fx2
         (?R(t := (?R t)\<lparr>r_list := take (length xs) (g_queues ?g1 f ! unat READ_QUEUE)\<rparr>))"
      by (rule tasks_pop_many [OF e(3) k(1) R m0]) (rule that)
    let ?g2 = "pop_many_ghost t f 0 (length xs) ?g1" and ?W2 = "put_futex (?W1\<lparr>heap := h2\<rparr>) f fx2"
    let ?p = "RwUnlock c (WU (WUUnborrow l s))"
    have l1: "g_list ?g2 t = xs" and l2: "\<And>v. v \<noteq> t \<Longrightarrow> g_list ?g2 v = g_list g v"
      by (simp_all add: pop_many_ghost_def enqueue_ghost_def xs_def)
    have role: "(?R t)\<lparr>r_list := xs\<rparr> = rw_role (g_list ?g2 t) ?p"
      using t l1 by (simp add: wu_simps)
    have T2: "tasks_ok f 2 ?W2 ?g2 fx2 (?R(t := rw_role (g_list ?g2 t) ?p))"
      using m(5) unfolding role [symmetric] by (simp add: xs_def k(2))
    have len: "length (g_queues ?g1 f) = 2" by (rule enqueue_lists(3) [OF e(3)])
    have ok2: "rw_ok f N ?W2 (pc(t := ?p)) ?g2 fx2 None {t} {}"
    proof (rule rw_ok_plain [OF ok t(2) T2])
      show "counted (g_list ?g2) (pc(t := ?p)) = counted (g_list g) pc"
        by (rule counted_same) (use l2 t in simp_all)
      show "rw_pc_ok f (heap ?W2) ?g2 t ?p"
        using m(4) l1 \<open>xs \<noteq> []\<close> by (simp add: wu_ok_def xs_def k(2))
      show "g_inbox ?g2 f = [] \<and> g_queues ?g2 f ! 0 = []"
        using len by (simp add: pop_many_ghost_def xs_def) (simp add: enqueue_ghost_def)
    next
      fix u b q assume u: "u \<noteq> t" "pc u = RwWait b q" "rw_sorted g b (wait_waiter q)"
      show "rw_sorted ?g2 b (wait_waiter q)"
      proof (cases "wait_waiter q \<in> set xs")
        case True
        then have "g_loc ?g1 (wait_waiter q) = InQueue f 0"
          using tasks_in_queue [OF e(3), of 0] by (simp add: xs_def)
        then have "\<not> b" using rw_in_queue [OF e(3) u(2)] by auto
        with True show ?thesis by (simp add: rw_sorted_def pop_many_ghost_def xs_def)
      next
        case False
        then have same: "g_loc ?g2 (wait_waiter q) = g_loc ?g1 (wait_waiter q)"
          by (simp add: pop_many_ghost_def xs_def)
        have "rw_sorted ?g1 b (wait_waiter q)" using u(3) by simp
        then show ?thesis unfolding rw_sorted_def same .
      qed
    next
      fix u assume "u \<noteq> t" "scans (pc u)"
      then show "(g_queues ?g2 f ! 0 = []) = (g_queues g f ! 0 = [])"
        using scans_reads(2) [of "pc u" "heap W"] rw_okD(7) [OF ok, of u] own by simp
    qed (use m(2,3) e(2) rs own ws l2 in \<open>auto simp: wu_simps rw_count_def\<close>)
    have one: "unat WRITE_QUEUE < 2" by (simp add: WRITE_QUEUE_def)
    have "write_unlock_downgrade spurious f W hr s = Inr (WUUnborrow l s, ?W2)"
      unfolding write_unlock_downgrade_def e(1) if_P [OF True]
      using m(1) tasks_pop_Nil [OF e(3) one nil] by simp
    then show ?thesis using rw_goodI [OF ok2] by simp
  qed
qed

text \<open>With more writers queued the owner pops the next one.\<close>

lemma wu_hand:
  assumes ok: "rw_ok f N W pc g fx own rs ws" and t: "pc t = RwUnlock c (WU (WULoop hr s))" "t < N"
    and s: "ra_writers (rw_decode (fa_atom s)) \<noteq> 1"
  shows "rw_good f N t pc (mapR (\<lambda>(u, W). (RwUnlock c (WU u), W)) (write_unlock_hand spurious f W hr s))"
proof -
  note T = rw_okD(1) [OF ok]
  let ?d = "rw_decode (fa_atom s)" and ?R = "\<lambda>u. rw_role (g_list g u) (pc u)"
  let ?new = "rw_encode (?d\<lparr>ra_writers := ra_writers ?d - 1\<rparr>)"
  have own: "own = Some t" and w: "t \<in> ws" using rw_okD(6,7) [OF ok, of t] t by (auto simp: wu_simps)
  have pok: "hr = (g_queues g f ! 0 \<noteq> [])" "ra_writers ?d \<noteq> 0"
    using rw_okD(2) [OF ok, of t] t by (auto simp: wu_ok_def wu_snap_def)
  have rs: "rs = {}" by (rule rw_owner_snap [OF ok own])
  have relaxed: "cas_orders s (ORDERING RelaxedT)" for s by simp
  obtain h' qs' where e: "cmpxchg_enqueue_weak spurious AcqRelT RelaxedT W f s ?new = Inr
      (if futex_atom fx = s \<and> \<not> spurious
       then (True, s, put_futex (W\<lparr>heap := h'\<rparr>) f
               (fx\<lparr>futex_atom := \<lparr>fa_atom = ?new, fa_inbox = null\<rparr>, queues := qs'\<rparr>))
       else (False, futex_atom fx, W))"
    "\<And>v. wkr h' v = wkr (heap W) v"
    "tasks_ok f 2 (put_futex (W\<lparr>heap := h'\<rparr>) f
        (fx\<lparr>futex_atom := \<lparr>fa_atom = ?new, fa_inbox = null\<rparr>, queues := qs'\<rparr>))
      (enqueue_ghost (heap W) f g)
      (fx\<lparr>futex_atom := \<lparr>fa_atom = ?new, fa_inbox = null\<rparr>, queues := qs'\<rparr>) ?R"
    using tasks_cmpxchg_enqueue [OF T relaxed, of spurious AcqRelT s ?new] by blast
  let ?fx1 = "fx\<lparr>futex_atom := \<lparr>fa_atom = ?new, fa_inbox = null\<rparr>, queues := qs'\<rparr>"
  let ?W1 = "put_futex (W\<lparr>heap := h'\<rparr>) f ?fx1" and ?g1 = "enqueue_ghost (heap W) f g"
  show ?thesis
  proof (cases "futex_atom fx = s \<and> \<not> spurious")
    case False
    have "write_unlock_hand spurious f W hr s = Inr (WULoop hr (futex_atom fx), W)"
      by (simp add: write_unlock_hand_def inner_def Let_def rw_less [OF pok(2)] e(1) if_not_P [OF False])
    moreover have "rw_good f N t pc (Inr (RwUnlock c (WU (WULoop hr (futex_atom fx))), W))"
      by (rule wu_load [OF ok t _ pok(1)]) simp
    ultimately show ?thesis by simp
  next
    case True
    have s': "futex_atom fx = s" using True by simp
    have "card ws \<noteq> 1" using rw_snap(2) [OF ok s'] rw_zero(4) [OF ok] s by simp
    then have "ws \<noteq> {t}" by auto
    then obtain u where u: "u \<in> ws" "u \<noteq> t" using w by blast
    have hand0: "r_hand (?R t) = None" by (simp add: t wu_simps)
    have "g_queues ?g1 f ! 1 \<noteq> []"
      by (rule rw_queued_writer [OF ok u(1) _ _ e(3)]) (use own u(2) hand0 in auto)
    then obtain w' xs where q: "g_queues ?g1 f ! unat WRITE_QUEUE = w' # xs"
      by (cases "g_queues ?g1 f ! 1") (auto simp: WRITE_QUEUE_def)
    have r: "r_read (?R t)" "r_hand (?R t) = None" by (simp_all add: t wu_simps)
    have one: "unat WRITE_QUEUE = 1" and k: "unat WRITE_QUEUE < 2" by (simp_all add: WRITE_QUEUE_def)
    obtain h2 fx2 where p: "queue_pop ?W1 f WRITE_QUEUE = Inr (Some w', put_futex (?W1\<lparr>heap := h2\<rparr>) f fx2)"
      "futex_atom fx2 = futex_atom ?fx1" "\<And>v. wkr h2 v = wkr (heap ?W1) v"
      "tasks_ok f 2 (put_futex (?W1\<lparr>heap := h2\<rparr>) f fx2) (pop_ghost t f (unat WRITE_QUEUE) ?g1) fx2
         (?R(t := (?R t)\<lparr>r_hand := Some w'\<rparr>))"
      by (rule tasks_pop_Cons [OF e(3) k r q]) (rule that)
    let ?W2 = "put_futex (?W1\<lparr>heap := h2\<rparr>) f fx2" and ?g2 = "pop_ghost t f 1 ?g1"
    let ?p = "RwUnlock c (WU (WUDrop w'))"
    have role: "(?R t)\<lparr>r_hand := Some w'\<rparr> = rw_role (g_list ?g2 t) ?p" by (simp add: t wu_simps)
    have T2: "tasks_ok f 2 ?W2 ?g2 fx2 (?R(t := rw_role (g_list ?g2 t) ?p))"
      using p(4) unfolding one role .
    have gl: "g_list (pop_ghost t f k ?g1) = g_list g" for k by (simp add: pop_ghost_def enqueue_ghost_def)
    have ok2: "rw_ok f N ?W2 (pc(t := ?p)) ?g2 fx2 (Some t) {} (ws - {t})"
    proof (rule rw_ok_plain [OF ok t(2) T2])
      show "counted (g_list ?g2) (pc(t := ?p)) = counted (g_list g) pc"
        by (rule counted_same) (simp_all add: t gl)
      fix u b q' assume "u \<noteq> t" "pc u = RwWait b q'" "rw_sorted g b (wait_waiter q')"
      then show "rw_sorted ?g2 b (wait_waiter q')"
        using rw_pop_sorted [OF e(3) q [unfolded one]] by simp
    next
      fix u assume "u \<noteq> t" "scans (pc u)"
      then show "(g_queues ?g2 f ! 0 = []) = (g_queues g f ! 0 = [])"
        using scans_reads(2) [of "pc u" "heap W"] rw_okD(7) [OF ok, of u] own by simp
    next
      show "fa_atom (futex_atom fx2) = rw_count {} (ws - {t})"
        using p(2) rw_count_less(2) [OF ok s' [symmetric] w] rs by simp
    qed (use rs own u gl e(2) p(3) t in \<open>auto simp: wu_simps\<close>)
    have "ra_writers ?d > 1" using s pok(2) by (rule usize_more [rotated])
    then have "write_unlock_hand spurious f W hr s = Inr (WUDrop w', ?W2)"
      unfolding write_unlock_hand_def inner_def Let_def rw_less [OF pok(2)] bindR_simps e(1) if_P [OF True]
      using p(1) by simp
    then show ?thesis using rw_goodI [OF ok2] by simp
  qed
qed

lemma wu_loop:
  assumes ok: "rw_ok f N W pc g fx own rs ws" and t: "pc t = RwUnlock c (WU (WULoop hr s))" "t < N"
  shows "rw_good f N t pc (mapR (\<lambda>(u, W). (RwUnlock c (WU u), W)) (write_unlock_loop spurious f W hr s))"
proof -
  have z: "ra_readers (rw_decode (fa_atom s)) = 0"
    using rw_okD(2) [OF ok, of t] t by (simp add: wu_ok_def wu_snap_def)
  consider "ra_writers (rw_decode (fa_atom s)) = 1" "\<not> hr" "\<not> has_new_waiters s"
    | "ra_writers (rw_decode (fa_atom s)) = 1" "hr \<or> has_new_waiters s"
    | "ra_writers (rw_decode (fa_atom s)) \<noteq> 1" by blast
  then show ?thesis
  proof cases
    case 1
    have "mapR (\<lambda>(u, W). (RwUnlock c (WU u), W)) (mapR (Pair (WUCas hr s)) (queue_unlock W f)) =
        mapR (\<lambda>W. (RwUnlock c (WU (WUCas hr s)), W)) (queue_unlock W f)"
      by (cases "queue_unlock W f") simp_all
    then show ?thesis
      using wu_release [OF ok t 1] 1 z by (simp add: write_unlock_loop_def inner_def Let_def)
  next
    case 2
    then show ?thesis
      using wu_downgrade [OF ok t 2] z by (auto simp: write_unlock_loop_def inner_def Let_def)
  next
    case 3
    then show ?thesis
      using wu_hand [OF ok t 3] z by (simp add: write_unlock_loop_def inner_def Let_def)
  qed
qed

text \<open>The count of the popped readers, after the borrow has been released.\<close>

lemma wu_unborrow:
  assumes ok: "rw_ok f N W pc g fx own rs ws" and t: "pc t = RwUnlock c (WU (WUUnborrow l s))" "t < N"
  shows "rw_good f N t pc (mapR (\<lambda>(u, W). (RwUnlock c (WU u), W))
    (bindR (queue_unlock W f) (\<lambda>W. bindR (iter_list (heap W) l) (\<lambda>ws. Inr (WUAdd l (of_nat (length ws)) s, W)))))"
proof -
  note T = rw_okD(1) [OF ok]
  let ?R = "\<lambda>u. rw_role (g_list g u) (pc u)" and ?p = "RwUnlock c (WU (WUAdd l (of_nat (length (g_list g t))) s))"
  have pok: "list_ends l (g_list g t)" "g_list g t \<noteq> []" using rw_okD(2) [OF ok, of t] t by (auto simp: wu_ok_def)
  have role: "rw_role (g_list g t) ?p = (?R t)\<lparr>r_borrow := False\<rparr>" and b: "r_borrow (?R t)"
    by (simp_all add: t wu_simps)
  obtain fx' where q: "queue_unlock W f = Inr (put_futex W f fx')" "futex_atom fx' = futex_atom fx"
    "tasks_ok f 2 (put_futex W f fx') g fx' (?R(t := rw_role (g_list g t) ?p))"
    unfolding role by (rule tasks_queue_unlock [OF T b])
  have "iter_list (heap W) l = Inr (g_list g t)"
    by (rule iter_list_dlist [OF tasks_dlist [OF T pok(1)]])
  moreover have "rw_good f N t pc (Inr (?p, put_futex W f fx'))"
    by (rule rw_unlock_quiet [OF ok t q(3,2)]) (use pok in \<open>simp_all add: wu_simps\<close>)
  ultimately show ?thesis by (simp add: q(1))
qed

text \<open>The tasks of the popped readers, and their number.\<close>

definition popped :: "ghost \<Rightarrow> (tid \<Rightarrow> rw_pc) \<Rightarrow> tid \<Rightarrow> tid set" where
  "popped g pc t = {u. \<exists>p. pc u = RwWait False p \<and> wait_waiter p \<in> set (g_list g t)}"

lemma rw_popped:
  assumes ok: "rw_ok f N W pc g fx own rs ws" and t: "\<not> waking (pc t)"
  shows "card (popped g pc t) = length (g_list g t)" "popped g pc t \<inter> rs = {}" "finite (popped g pc t)"
    "card (popped g pc t) < 2 ^ 32"
proof -
  note T = rw_okD(1) [OF ok]
  let ?A = "popped g pc t" and ?f = "\<lambda>u. case pc u of RwWait b p \<Rightarrow> wait_waiter p | _ \<Rightarrow> null"
  have sub: "?A \<subseteq> {..<N}" using rw_okD(3) [OF ok] by (force simp: popped_def)
  then show fin: "finite ?A" using finite_subset by blast
  have "card ?A \<le> N" using card_mono [OF _ sub] by simp
  then show "card ?A < 2 ^ 32" using rw_okD(4) [OF ok] by simp
  have inj: "inj_on ?f ?A"
  proof (rule inj_onI)
    fix u v assume "u \<in> ?A" "v \<in> ?A" "?f u = ?f v"
    then obtain p q where "pc u = RwWait False p" "pc v = RwWait False q" "wait_waiter p = wait_waiter q"
      by (auto simp: popped_def)
    then show "u = v" using tasks_sole [OF T, of u "wait_waiter p" v] waiter_stage by auto
  qed
  have "?f ` ?A = set (g_list g t)"
  proof
    show "set (g_list g t) \<subseteq> ?f ` ?A"
    proof
      fix w assume w: "w \<in> set (g_list g t)"
      then have at: "g_loc g w = InList t" using tasks_in_list [OF T] by blast
      obtain u b p where u: "pc u = RwWait b p" "wait_waiter p = w"
        by (rule rw_sleeper [OF T, of w]) (use at in auto)
      have "\<not> b" using rw_okD(2) [OF ok, of u] u at by (cases b) (simp_all add: rw_sorted_def)
      with u w show "w \<in> ?f ` ?A" by (intro image_eqI [of _ _ u]) (simp_all add: popped_def)
    qed
  qed (auto simp: popped_def)
  moreover have "distinct (g_list g t)"
    using world_okD(2) [OF tasks_okD(1) [OF T]] by (simp add: hands_ok_def)
  ultimately show "card ?A = length (g_list g t)"
    using card_image [OF inj] distinct_card by metis
  show "?A \<inter> rs = {}"
  proof (rule equals0I)
    fix u assume u: "u \<in> ?A \<inter> rs"
    then obtain p where p: "pc u = RwWait False p" "g_loc g (wait_waiter p) = InList t"
      using tasks_in_list [OF T] by (auto simp: popped_def)
    have "wkr (heap W) (wait_waiter p) \<noteq> WakerDone"
      using world_ok_waiting [OF tasks_okD(1) [OF T], of "wait_waiter p"] p by auto
    moreover have "wait_waiter p \<notin> counted (g_list g) pc"
      using counted_loc [OF T, of "wait_waiter p" pc] p t by auto
    ultimately show False using u rw_okD(5) [OF ok, of u] p by simp
  qed
qed

text \<open>The sum of the two counts and the removal of the placeholder cannot overflow.\<close>

lemma add_readers:
  assumes a: "unat a < 2 ^ 32" and n: "0 < n" "n < 2 ^ 32"
  shows "bindR (checked_plus a (of_nat n :: usize)) (\<lambda>n. checked_minus n 1) = Inr (a + of_nat n - 1)"
proof -
  have n': "unat (of_nat n :: usize) = n" using n(2) by (simp add: unat_of_nat take_bit_nat_eq_self)
  then have "checked_plus a (of_nat n :: usize) = Inr (a + of_nat n)"
    using a n by (simp add: checked_plus_def)
  moreover have "unat (a + of_nat n) = unat a + n"
    by (subst unat_add_lem [THEN iffD1]) (use a n n' in simp_all)
  then have "a + of_nat n \<noteq> 0" using n(1) by (metis add_is_0 less_irrefl unat_0)
  ultimately show ?thesis by (simp add: checked_minus_1)
qed

lemma wu_add:
  assumes ok: "rw_ok f N W pc g fx own rs ws" and t: "pc t = RwUnlock c (WU (WUAdd l n s))" "t < N"
  shows "rw_good f N t pc (mapR (\<lambda>(u, W). (RwUnlock c (WU u), W)) (write_unlock_add spurious f W l n s))"
proof -
  note T = rw_okD(1) [OF ok]
  let ?R = "\<lambda>u. rw_role (g_list g u) (pc u)" and ?d = "rw_decode (fa_atom s)" and ?A = "popped g pc t"
  have pok: "list_ends l (g_list g t)" "g_list g t \<noteq> []" "n = of_nat (card ?A)"
    using rw_okD(2) [OF ok, of t] rw_popped(1) [OF ok, of t] t by (auto simp: wu_ok_def)
  have nw: "\<not> waking (pc t)" using t by simp
  note A = rw_popped [OF ok nw]
  have pos: "0 < card ?A" using A(1) pok(2) by simp
  have t': "t \<in> rs" using rw_okD(5) [OF ok, of t] t by (simp add: wu_simps)
  then have own: "own = None" using rw_okD(10) [OF ok] by blast
  let ?n = "ra_readers ?d + of_nat (card ?A) - 1"
  let ?new = "rw_encode (?d\<lparr>ra_readers := ?n\<rparr>)"
  let ?fx = "fx\<lparr>futex_atom := \<lparr>fa_atom = ?new, fa_inbox = fa_inbox s\<rparr>\<rparr>"
  have sum: "bindR (checked_plus (ra_readers ?d) n) (\<lambda>n. checked_minus n 1) = Inr ?n"
    unfolding pok(3) by (rule add_readers [OF _ pos A(4)]) (use rw_decode_fits [of "fa_atom s"] in \<open>simp add: rw_fits_def\<close>)
  have r: "write_unlock_add spurious f W l n s = Inr
      (if futex_atom fx = s \<and> \<not> spurious then (WUWake (WakeNext l), put_futex W f ?fx)
       else (WUAdd l n (futex_atom fx), W))"
    using futex_cmpxchg_weak_eq [OF tasks_okD(2) [OF T], of RelaxedT RelaxedT spurious s ?new]
    by (cases spurious; cases "futex_atom fx = s") (simp_all add: write_unlock_add_def inner_def Let_def sum)
  show ?thesis
  proof (cases "futex_atom fx = s \<and> \<not> spurious")
    case False
    have e: "write_unlock_add spurious f W l n s = Inr (WUAdd l n (futex_atom fx), W)"
      unfolding r if_not_P [OF False] by (rule refl)
    have "rw_good f N t pc (Inr (RwUnlock c (WU (WUAdd l n (futex_atom fx))), W))"
    proof (rule rw_unlock_quiet [OF ok t])
      show "tasks_ok f 2 W g fx (?R(t := rw_role (g_list g t) (RwUnlock c (WU (WUAdd l n (futex_atom fx))))))"
        by (rule same_role [OF T]) (use t in \<open>simp add: wu_simps\<close>)
    qed (use pok A(1) in \<open>simp_all add: wu_simps\<close>)
    then show ?thesis by (simp add: e)
  next
    case True
    let ?p = "RwUnlock c (WU (WUWake (WakeNext l)))" and ?rs = "rs - {t} \<union> ?A"
    let ?C = "counted (g_list g) (pc(t := ?p))"
    have s: "futex_atom fx = s" using True by simp
    have T1: "tasks_ok f 2 (put_futex W f ?fx) g ?fx (?R(t := rw_role (g_list g t) ?p))"
      by (rule same_role [OF tasks_put_atom [OF T]]) (use True t in \<open>auto simp: wu_simps\<close>)
    have C: "v \<in> ?C \<longleftrightarrow> v \<in> counted (g_list g) pc \<or> v \<in> set (g_list g t)" for v
      using t by (auto simp: counted_def split: if_splits)
    have fin: "finite rs" by (rule rw_bounds [OF ok])
    have "(rs - {t}) \<inter> ?A = {}" using A(2) by blast
    then have "card ?rs + 1 = card rs + card ?A"
      using card_Un_disjoint [of "rs - {t}" ?A] A(2,3) card_Suc_Diff1 [OF fin t'] fin by auto
    then have "(of_nat (card ?rs) :: usize) + 1 = of_nat (card rs) + of_nat (card ?A)"
      by (metis of_nat_add of_nat_1)
    then have n: "?n = of_nat (card ?rs)"
      using rw_snap(1) [OF ok s] by (simp add: algebra_simps)
    have "rw_ok f N (put_futex W f ?fx) (pc(t := ?p)) g ?fx own ?rs ws"
    proof (rule rw_ok_step [OF ok t(2) T1])
      fix u
      show "u \<in> ?rs \<longleftrightarrow> rtok (heap (put_futex W f ?fx)) ?C ((pc(t := ?p)) u)"
      proof (cases "u = t")
        case True
        then show ?thesis using t by (simp add: popped_def wu_simps)
      next
        case False
        have "rtok (heap W) ?C (pc u) \<longleftrightarrow> rtok (heap W) (counted (g_list g) pc) (pc u) \<or> u \<in> ?A"
          by (cases "pc u" rule: wtok.cases) (auto simp: C popped_def)
        then show ?thesis using False rw_okD(5) [OF ok, of u] by simp
      qed
      show "leader ((pc(t := ?p)) u) \<Longrightarrow> ?rs = {u} \<and> ws \<noteq> {}"
        using rw_okD(9) [OF ok, of u] t' by (cases "u = t") auto
      show "u \<in> ws \<longleftrightarrow> wtok ((pc(t := ?p)) u)" using rw_okD(6) [OF ok, of u] t by (auto simp: wu_simps)
      show "rw_owns (heap (put_futex W f ?fx)) ((pc(t := ?p)) u) \<longleftrightarrow> own = Some u"
        using rw_okD(7) [OF ok, of u] t own by (auto simp: wu_simps)
    next
      show "fa_atom (futex_atom ?fx) = rw_count ?rs ws"
        using n rw_bounds(5) [OF ok] s by (simp add: rw_count_def)
      show "own = None \<Longrightarrow> ws \<noteq> {} \<Longrightarrow> ?rs \<noteq> {}" using pos by auto
    qed (use own pok rw_okD(12) [OF ok] in \<open>auto simp: wu_simps\<close>)
    then show ?thesis unfolding r using True rw_goodI by simp
  qed
qed

lemma counted_split:
  "v \<in> counted L pc \<longleftrightarrow>
     waking (pc t) \<and> v \<in> set (L t) \<or> (\<exists>u. u \<noteq> t \<and> waking (pc u) \<and> v \<in> set (L u))"
  by (auto simp: counted_def)

text \<open>Waking the readers one by one: each passes from the popped ones to the woken ones.\<close>

lemma wu_wake:
  assumes ok: "rw_ok f N W pc g fx own rs ws" and t: "pc t = RwUnlock c (WU (WUWake p))" "t < N"
  shows "rw_good f N t pc (mapR (\<lambda>(u, W). (RwUnlock c (WU u), W))
    (bindR (wake_step W p) (\<lambda>(r, W). Inr (case r of Some p \<Rightarrow> WUWake p | None \<Rightarrow> WUUnlock, W))))"
proof -
  note T = rw_okD(1) [OF ok]
  let ?R = "\<lambda>v. rw_role (g_list g v) (pc v)"
  have R: "r_list (?R t) = g_list g t" "r_hand (?R t) = None" using t by (simp_all add: wu_simps)
  have ends: "list_ends (wake_list p) (r_list (?R t))"
    using rw_okD(2) [OF ok, of t] t R by (simp add: wu_ok_def)
  have nt: "t \<notin> rs" "t \<notin> ws" "own \<noteq> Some t"
    using rw_okD(5-7) [OF ok, of t] t by (auto simp: wu_simps)
  show ?thesis
  proof (cases rule: wake_step_good [OF T ends R(2), case_names stop wake call])
    case (stop W')
    let ?p = "RwUnlock c (WU WUUnlock)"
    have T1: "tasks_ok f 2 W' g fx (?R(t := rw_role (g_list g t) ?p))"
      by (rule same_role [OF tasks_ok_cong [OF T stop(3,4)]]) (use stop(2) R t in \<open>simp add: wu_simps\<close>)
    have np: "\<not> waking ?p" by simp
    have nil: "set (g_list g t) = {}" using stop(2) R(1) by simp
    have "rw_ok f N W' (pc(t := ?p)) g fx own rs ws"
    proof (rule rw_ok_plain [OF ok t(2) T1])
      show "counted (g_list g) (pc(t := ?p)) = counted (g_list g) pc"
        unfolding counted_def by (intro Collect_cong) (metis np nil fun_upd_apply empty_iff)
    qed (use nt stop(3) rw_okD(8,10,11,12) [OF ok] in \<open>auto simp: wu_simps\<close>)
    then show ?thesis using rw_goodI by (simp add: stop(1))
  next
    case (call l' W')
    have "rw_good f N t pc (Inr (RwUnlock c (WU (WUWake (WakeNext l'))), W'))"
    proof (rule rw_unlock_quiet [OF ok t])
      show "tasks_ok f 2 W' g fx (?R(t := rw_role (g_list g t) (RwUnlock c (WU (WUWake (WakeNext l'))))))"
        by (rule same_role [OF tasks_ok_cong [OF T call(3,4)]]) (use t in \<open>simp add: wu_simps\<close>)
    qed (use call R in \<open>simp_all add: wu_simps\<close>)
    then show ?thesis by (simp add: call(1))
  next
    case (wake w' xs l' k W')
    let ?g = "wake_ghost w' (into_ghost t w' g)" and ?p = "RwUnlock c (WU (WUWake (WakeCall l' k)))"
    let ?C = "counted (g_list ?g) (pc(t := ?p))"
    have gt: "g_list ?g t = xs" and gl: "\<And>v. v \<noteq> t \<Longrightarrow> g_list ?g v = g_list g v"
      using wake(1) R by (simp_all add: wake_ghost_def into_ghost_def)
    have role: "(?R t)\<lparr>r_list := xs\<rparr> = rw_role (g_list ?g t) ?p" using t gt by (simp add: wu_simps)
    have inl: "g_list g t = w' # xs" using wake(1) R by simp
    have at: "g_loc g w' = InList t" using tasks_in_list [OF T, of w' t] inl by simp
    have C: "v \<in> counted (g_list g) pc \<longleftrightarrow> v = w' \<or> v \<in> ?C" for v
      unfolding counted_split [of _ _ _ t] using t gt gl inl by auto
    have wk: "wkr (heap W') v = WakerDone \<longleftrightarrow> v = w' \<or> wkr (heap W) v = WakerDone" for v
      using wake(4,5) by (cases "v = w'") simp_all
    have nw: "wait_waiter q \<noteq> w'" if "pc u = RwWait True q" for u q
      using rw_okD(2) [OF ok, of u] that at by (auto simp: rw_sorted_def)
    have "rw_ok f N W' (pc(t := ?p)) ?g fx own rs ws"
    proof (rule rw_ok_step [OF ok t(2) wake(9) [unfolded role]])
      show "rw_pc_ok f (heap W') ?g t ?p" using wake(3) gt by (simp add: wu_ok_def)
      fix u
      have "rtok (heap W') ?C (pc u) = rtok (heap W) (counted (g_list g) pc) (pc u)"
        by (cases "pc u" rule: wtok.cases) (auto simp: wk C)
      then show "u \<in> rs \<longleftrightarrow> rtok (heap W') ?C ((pc(t := ?p)) u)"
        using rw_okD(5) [OF ok, of u] nt by (auto simp: wu_simps)
      have "rw_owns (heap W') (pc u) = rw_owns (heap W) (pc u)"
        using nw [of u] by (cases "(heap W, pc u)" rule: rw_owns.cases) (auto simp: wk)
      then show "rw_owns (heap W') ((pc(t := ?p)) u) \<longleftrightarrow> own = Some u"
        using rw_okD(7) [OF ok, of u] nt by (auto simp: wu_simps)
      show "leader ((pc(t := ?p)) u) \<Longrightarrow> rs = {u} \<and> ws \<noteq> {}"
        using rw_okD(9) [OF ok, of u] by (cases "u = t") auto
      show "u \<in> ws \<longleftrightarrow> wtok ((pc(t := ?p)) u)" using rw_okD(6) [OF ok, of u] nt by (auto simp: wu_simps)
    next
      fix u b q assume "rw_sorted g b (wait_waiter q)"
      then show "rw_sorted ?g b (wait_waiter q)" by (auto simp: rw_sorted_def wake_ghost_def into_ghost_def)
    next
      show "ws = {} \<Longrightarrow> g_inbox ?g f = [] \<and> g_queues ?g f ! 0 = []"
        using rw_okD(12) [OF ok] by (simp add: wake_ghost_def into_ghost_def)
    qed (use gl wk rw_okD(8,10,11) [OF ok] in \<open>auto simp: wake_ghost_def into_ghost_def\<close>)
    then show ?thesis using rw_goodI by (simp add: wake(2))
  qed
qed

lemma wu_good:
  assumes ok: "rw_ok f N W pc g fx own rs ws" and t: "pc t = RwUnlock c (WU u)" "t < N"
    and step: "write_unlock_step spurious t f W u = Some r"
  shows "rw_good f N t pc (mapR (\<lambda>(u, W). (RwUnlock c (WU u), W)) r)"
proof -
  note T = rw_okD(1) [OF ok]
  consider "u = WULock \<or> u = WUBorrow \<or> (\<exists>hr s. u = WUReborrow hr s) \<or> (\<exists>w. u = WUDrop w) \<or> u = WUUnlock"
    | "u = WULoad" | hr s where "u = WULoop hr s" | hr s where "u = WUCas hr s"
    | l s where "u = WUUnborrow l s" | l n s where "u = WUAdd l n s" | p where "u = WUWake p"
    | w where "u = WUSwap w" | k where "u = WUCall k"
    using step by (cases u) (auto simp: write_unlock_step_def)
  then show ?thesis
  proof cases
    case 1
    show ?thesis by (rule wu_guard [OF ok t 1 step])
  next
    case 2
    have "unat READ_QUEUE < 2" "unat READ_QUEUE = 0" by (simp_all add: READ_QUEUE_def)
    then have "r = Inr (WULoop (g_queues g f ! 0 \<noteq> []) (futex_atom fx), W)"
      using step futex_load_eq [OF tasks_okD(2) [OF T], of RelaxedT] tasks_is_empty [OF T, of READ_QUEUE]
      by (auto simp: write_unlock_step_def 2)
    then show ?thesis using wu_load [OF ok t _ refl] 2 by simp
  next
    case (3 hr s)
    then show ?thesis using wu_loop [OF ok t(1) [unfolded 3] t(2), of spurious] step by (auto simp: write_unlock_step_def)
  next
    case (4 hr s)
    then show ?thesis using wu_cas [OF ok t(1) [unfolded 4] t(2), of spurious] step by (auto simp: write_unlock_step_def)
  next
    case (5 l s)
    then show ?thesis using wu_unborrow [OF ok t(1) [unfolded 5] t(2)] step by (auto simp: write_unlock_step_def)
  next
    case (6 l n s)
    then show ?thesis using wu_add [OF ok t(1) [unfolded 6] t(2), of spurious] step by (auto simp: write_unlock_step_def)
  next
    case (7 p)
    then show ?thesis using wu_wake [OF ok t(1) [unfolded 7] t(2)] step by (auto simp: write_unlock_step_def)
  next
    case (8 w)
    have "rw_good f N t pc (mapR (\<lambda>(k, W). (RwUnlock c (WU (WUCall k)), W)) (wake_swap W w))"
      by (rule rw_wake_writer [OF ok t]) (use t 8 rw_okD(6) [OF ok, of t] in \<open>simp_all add: wu_simps\<close>)
    moreover have "r = bindR (wake_swap W w) (\<lambda>(k, W). Inr (WUCall k, W))"
      using step 8 by (simp add: write_unlock_step_def)
    ultimately show ?thesis by (cases "wake_swap W w") auto
  next
    case (9 k)
    have "rw_good f N t pc (Inr (RwUnlock c (WU WUUnlock), wake_call W k))"
    proof (rule rw_unlock_quiet [OF ok t])
      show "tasks_ok f 2 (wake_call W k) g fx ((\<lambda>u. rw_role (g_list g u) (pc u))(t := rw_role (g_list g t) (RwUnlock c (WU WUUnlock))))"
        by (rule same_role [OF tasks_ok_cong [OF T]]) (use t 9 in \<open>simp_all add: wu_simps\<close>)
    qed (use 9 in \<open>simp_all add: wu_simps\<close>)
    then show ?thesis using step 9 by (auto simp: write_unlock_step_def)
  qed
qed

end
