(* ===== verification/Rw_Spec.thy ===== *)
theory Rw_Spec imports Rw_Unlock begin

text \<open>
  What \<open>src/rwlock.rs\<close> promises: no fault, writers exclude everybody, counters that fit their
  half words, no lost wakeup and no deadlock. The properties are stated on the reachable states
  of \<open>rw_machine\<close>, the use of the lock that its code supports; the last one shows what happens
  outside of it.
\<close>

section \<open>The invariant of the machine\<close>

lemma rw_leave_good:
  assumes ok: "rw_ok f N W pc g fx own rs ws" and t: "pc t = RwUnlock c u" "t < N"
    and u: "u = RU RUDone \<or> u = WU WUDone"
  shows "rw_good f N t pc (rw_unlocked W c)"
proof -
  note T = rw_okD(1) [OF ok]
  let ?R = "\<lambda>v. rw_role (g_list g v) (pc v)"
  have role: "?R t = idle_role\<lparr>r_stage := kept_stage c\<rparr>"
    using u t by (auto simp: ru_simps wu_simps)
  have tok: "t \<notin> rs" "t \<notin> ws" "own \<noteq> Some t"
    using rw_okD(5-7) [OF ok, of t] t u by (auto simp: ru_simps wu_simps)
  have wk: "\<not> waking (pc t)" using t u by auto
  have go: "rw_good f N t pc (Inr (RwIdle, W'))"
    if T1: "tasks_ok f 2 W' g fx (?R(t := rw_role (g_list g t) RwIdle))"
      and "\<And>v. stage_waiter (r_stage (?R t)) \<noteq> Some v \<Longrightarrow> wkr (heap W') v = wkr (heap W) v" for W'
    by (rule rw_quiet [OF ok t(2) T1])
      (use that(2) wk tok rw_okD(5-7) [OF ok, of t] in auto)
  show ?thesis
  proof (cases c)
    case None
    have "tasks_ok f 2 W g fx (?R(t := rw_role (g_list g t) RwIdle))"
      by (rule same_role [OF T]) (use role None in \<open>simp add: kept_stage_def idle_role_def\<close>)
    then show ?thesis using go None by (simp add: rw_unlocked_def)
  next
    case (Some w)
    have off: "r_stage (?R t) = Off w" using role Some by (simp add: kept_stage_def)
    obtain W' where f: "wait_finish W (Some True) w = Inr W'" "heap W' = (heap W)(w := None)"
      "tasks_ok f 2 W' g fx (?R(t := (?R t)\<lparr>r_stage := NoWaiter\<rparr>))"
      by (rule wait_finish_off [OF T off]) (rule that)
    have "tasks_ok f 2 W' g fx (?R(t := rw_role (g_list g t) RwIdle))"
      using f(3) unfolding role by (simp add: idle_role_def)
    then show ?thesis using go f(2) off Some by (simp add: rw_unlocked_def f(1) wkr_def)
  qed
qed

lemma rw_held_good:
  assumes ok: "rw_ok f N W pc g fx own rs ws" and t: "pc t = RwHeld b" "t < N"
  shows "rw_good f N t pc (Inr (RwUnlock None (if b then WU WULock else RU RULoad), W))"
proof (rule rw_quiet [OF ok t(2)])
  show "tasks_ok f 2 W g fx ((\<lambda>u. rw_role (g_list g u) (pc u))(t := rw_role (g_list g t)
      (RwUnlock None (if b then WU WULock else RU RULoad))))"
    by (rule same_role [OF rw_okD(1) [OF ok]]) (use t in \<open>simp add: ru_simps wu_simps kept_stage_def\<close>)
qed (use t in \<open>simp_all add: ru_simps wu_simps split: if_splits\<close>)

lemma rw_task_good:
  assumes ok: "rw_ok f N W pc g fx own rs ws" and N: "t < N"
    and allowed: "\<And>p. pc t = RwWait True p \<Longrightarrow> act = RwDrop \<Longrightarrow> wkr (heap W) (wait_waiter p) = WakerDone"
    and step: "rw_task f t act W (pc t) = Some r"
  shows "rw_good f N t pc r"
proof (cases "pc t")
  case RwIdle
  then show ?thesis using rw_start_good [OF ok RwIdle N] step by (cases act) (auto simp: rw_task_def)
next
  case (RwTop b w s cx)
  then show ?thesis
    using read_iter_good [OF ok _ N, of w s cx] write_iter_good [OF ok _ N, of w s cx] step
    by (cases act; cases b) (auto simp: rw_task_def)
next
  case (RwWait b p)
  then obtain act' r0 where r0: "wait_advance t act' W p = Some r0" "r = bindR r0 (rw_waited b)"
    "act' = Abandon \<Longrightarrow> act = RwDrop"
    using step by (cases act) (auto simp: rw_task_def)
  have "b \<Longrightarrow> act' = Abandon \<Longrightarrow> wkr (heap W) (wait_waiter p) = WakerDone" using r0(3) allowed RwWait by auto
  then show ?thesis unfolding r0(2) by (rule rw_wait_good [OF ok RwWait N _ r0(1)])
next
  case (RwHeld b)
  then show ?thesis using rw_held_good [OF ok RwHeld N] step by (cases act) (auto simp: rw_task_def)
next
  case (RwUnlock c u)
  show ?thesis
  proof (cases "u = RU RUDone \<or> u = WU WUDone")
    case True
    then show ?thesis using rw_leave_good [OF ok RwUnlock N] step RwUnlock by (cases act) (auto simp: rw_task_def)
  next
    case False
    then obtain b r0 where r0: "rw_unlock_step b t f W u = Some r0" "r = mapR (\<lambda>(u, W). (RwUnlock c u, W)) r0"
      using step RwUnlock by (cases act) (auto simp: rw_task_def)
    show ?thesis
    proof (cases u)
      case (RU v)
      then obtain r1 where r1: "read_unlock_step b t f W v = Some r1" "r0 = mapR (\<lambda>(u, W). (RU u, W)) r1"
        using r0(1) by (auto simp: rw_unlock_step_def)
      show ?thesis using ru_good [OF ok RwUnlock [unfolded RU] N r1(1)] by (cases r1) (auto simp: r0(2) r1(2))
    next
      case (WU v)
      then obtain r1 where r1: "write_unlock_step b t f W v = Some r1" "r0 = mapR (\<lambda>(u, W). (WU u, W)) r1"
        using r0(1) by (auto simp: rw_unlock_step_def)
      show ?thesis using wu_good [OF ok RwUnlock [unfolded WU] N r1(1)] by (cases r1) (auto simp: r0(2) r1(2))
    qed
  qed
qed

definition rw_init :: "ptr \<Rightarrow> nat \<Rightarrow> rw_state \<Rightarrow> bool" where
  "rw_init f N s \<longleftrightarrow> f \<noteq> null \<and> N < 2 ^ 32 \<and> s = rw_new f"

lemma rw_ok_new: "f \<noteq> null \<Longrightarrow> N < 2 ^ 32 \<Longrightarrow> rw_ok f N (rw_world (rw_new f)) (\<lambda>_. RwIdle)
    \<lparr>g_loc = (\<lambda>_. Loose), g_inbox = (\<lambda>_. []), g_queues = (\<lambda>_. [[], []]), g_list = (\<lambda>_. [])\<rparr>
    (futex_new (rw_encode \<lparr>ra_readers = 0, ra_writers = 0\<rparr>) 2) None {} {}"
  by (auto simp: rw_ok_def rw_new_def tasks_ok_def world_ok_def waiters_ok_def hands_ok_def
      inbox_ok_def queues_ok_def guards_ok_def futex_new_def guards_held_def hands_held_def
      stages_held_def refcell_new_def rw_count_def nth_Cons split: nat.splits)

interpretation rw: invariant_system "rw_init f N" "rw_machine f N" "rw_inv f N" for f N
proof
  show "rw_inv f N s" if "rw_init f N s" for s
  proof -
    have "f \<noteq> null" "N < 2 ^ 32" and s: "s = rw_new f" using that unfolding rw_init_def by blast+
    note ok = rw_ok_new [OF this(1,2)]
    have pcs: "rw_pcs s = (\<lambda>_. RwIdle)" by (simp add: s rw_new_def)
    show ?thesis unfolding rw_inv_def pcs using ok unfolding s by blast
  qed
  show "\<exists>s'. r = Inr s' \<and> rw_inv f N s'" if inv: "rw_inv f N s" and step: "rw_machine f N e s = Some r" for s e r
  proof -
    obtain t act where e: "e = (t, act)" by (cases e)
    obtain g fx own rs ws where ok: "rw_ok f N (rw_world s) (rw_pcs s) g fx own rs ws"
      using inv by (auto simp: rw_inv_def)
    have al: "rw_allowed N (t, act) s" and st: "rw_step f (t, act) s = Some r"
      using step by (auto simp: rw_machine_def e split: if_splits)
    have t: "t < N" 
      "\<And>p. rw_pcs s t = RwWait True p \<Longrightarrow> act = RwDrop \<Longrightarrow> wkr (heap (rw_world s)) (wait_waiter p) = WakerDone"
      using al by (auto simp: rw_allowed_def)
    from st obtain r0 where r0: "rw_task f t act (rw_world s) (rw_pcs s t) = Some r0"
      "r = mapR (\<lambda>(p, W). s\<lparr>rw_world := W, rw_pcs := (rw_pcs s)(t := p)\<rparr>) r0"
      by (auto simp: rw_step_def)
    have "rw_good f N t (rw_pcs s) r0"
      by (rule rw_task_good [OF ok t(1) _ r0(1)]) (use t(2) in blast)
    then obtain p W' g' fx' own' rs' ws' where r1: "r0 = Inr (p, W')"
      and ok': "rw_ok f N W' ((rw_pcs s)(t := p)) g' fx' own' rs' ws'"
      unfolding rw_good_def by blast
    have "rw_inv f N (s\<lparr>rw_world := W', rw_pcs := (rw_pcs s)(t := p)\<rparr>)"
      unfolding rw_inv_def by (intro exI) (use ok' in simp)
    then show ?thesis by (simp add: r0(2) r1)
  qed
qed

lemma rw_reach_ok:
  assumes "reach (rw_init f N) (rw_machine f N) s"
  obtains g fx own rs ws where "rw_ok f N (rw_world s) (rw_pcs s) g fx own rs ws"
  using rw.reach_inv [OF assms] by (auto simp: rw_inv_def)

lemma rw_futex:
  assumes ok: "rw_ok f N W pc g fx own rs ws"
  shows "get_futex W f = Inr fx"
  using tasks_okD(2) [OF rw_okD(1) [OF ok]] by simp

section \<open>Properties\<close>

text \<open>
  C27: used by fewer than \<open>2 ^ 32\<close> tasks, none of which drops a pending \<open>write\<close> before it
  was woken, the lock never fails: no assertion and no \<open>unwrap\<close> of the two unlock functions panics, no counter overflows,
  and no step dereferences a bad pointer, whatever the interleaving and the spurious failures.
\<close>

theorem rw_lock_no_fault:
  assumes "reach (rw_init f N) (rw_machine f N) s"
  shows "rw_machine f N e s \<noteq> Some (Inl x)"
  by (rule rw.reach_no_fault [OF assms])

text \<open>
  C28: a write guard excludes every other guard: while a task holds one, it is the only task that
  holds any guard.
\<close>

theorem rw_lock_exclusion:
  assumes "reach (rw_init f N) (rw_machine f N) s" "rw_pcs s t = RwHeld True" "rw_pcs s u = RwHeld b"
  shows "u = t"
proof -
  obtain g fx own rs ws where ok: "rw_ok f N (rw_world s) (rw_pcs s) g fx own rs ws"
    by (rule rw_reach_ok [OF assms(1)])
  have "own = Some t" using rw_okD(7) [OF ok, of t] assms(2) by simp
  then show ?thesis
    using rw_okD(5,7) [OF ok, of u] rw_okD(10) [OF ok] assms(3) by (cases b) auto
qed

text \<open>
  C39: the two counters of the atom never leave their half words, so that packing them loses
  nothing: they are at most the number of tasks, and at least the number of read guards and the
  number of tasks that hold or await a write guard.
\<close>

theorem rw_lock_counters:
  assumes "reach (rw_init f N) (rw_machine f N) s"
  shows "\<exists>fx a. get_futex (rw_world s) f = Inr fx \<and> fa_atom (futex_atom fx) = rw_encode a \<and>
    rw_decode (rw_encode a) = a \<and> N < 2 ^ 32 \<and>
    card {t. rw_pcs s t = RwHeld False} \<le> unat (ra_readers a) \<and> unat (ra_readers a) \<le> N \<and>
    card {t. rw_pcs s t = RwHeld True \<or> (\<exists>p. rw_pcs s t = RwWait True p)} \<le> unat (ra_writers a) \<and>
    unat (ra_writers a) \<le> N"
proof -
  obtain g fx own rs ws where ok: "rw_ok f N (rw_world s) (rw_pcs s) g fx own rs ws"
    by (rule rw_reach_ok [OF assms])
  let ?a = "\<lparr>ra_readers = of_nat (card rs) :: usize, ra_writers = of_nat (card ws)\<rparr>"
  note b = rw_bounds [OF ok] and N = rw_okD(4) [OF ok]
  have u: "unat (of_nat (card rs) :: usize) = card rs" "unat (of_nat (card ws) :: usize) = card ws"
    using b(3,4) N by (simp_all add: unat_of_nat take_bit_nat_eq_self)
  have "{t. rw_pcs s t = RwHeld False} \<subseteq> rs"
    by (rule subsetI) (simp add: rw_okD(5) [OF ok])
  then have r: "card {t. rw_pcs s t = RwHeld False} \<le> card rs" by (rule card_mono [OF b(1)])
  have "{t. rw_pcs s t = RwHeld True \<or> (\<exists>p. rw_pcs s t = RwWait True p)} \<subseteq> ws"
    by (rule subsetI) (auto simp: rw_okD(6) [OF ok])
  then have w: "card {t. rw_pcs s t = RwHeld True \<or> (\<exists>p. rw_pcs s t = RwWait True p)} \<le> card ws"
    by (rule card_mono [OF b(2)])
  have a: "fa_atom (futex_atom fx) = rw_encode ?a" using rw_okD(8) [OF ok] by (simp add: rw_count_def)
  have "rw_decode (rw_encode ?a) = ?a" using b(5) a by simp
  moreover have "unat (ra_readers ?a) = card rs" "unat (ra_writers ?a) = card ws" by (simp_all only: rw_atom.select_convs u)
  ultimately show ?thesis
    using rw_futex [OF ok] a b(3,4) N r w by (intro exI [of _ fx] exI [of _ ?a] conjI) simp_all
qed

text \<open>
  A task that has a share of the lock: a guard, the wake-up that brings one, or an unlock that
  has not yet passed the lock on.
\<close>

fun rw_engaged :: "heap \<Rightarrow> rw_pc \<Rightarrow> bool" where
  "rw_engaged h (RwHeld b) = True"
| "rw_engaged h (RwWait b p) = (wkr h (wait_waiter p) = WakerDone)"
| "rw_engaged h (RwUnlock c (RU u)) = (ru_reads u \<or> ru_owns u)"
| "rw_engaged h (RwUnlock c (WU u)) = (wu_owns u \<or> wu_placeholder u \<or> (\<exists>q. u = WUWake q))"
| "rw_engaged h _ = False"

lemma rw_owner_engaged: "rw_owns h p \<Longrightarrow> rw_engaged h p"
  by (cases "(h, p)" rule: rw_owns.cases) auto

text \<open>
  C29: no lost wakeup. While a task is suspended and has not been woken, some task has a share of
  the lock and will pass it on.
\<close>

theorem rw_lock_no_lost_wakeup:
  assumes "reach (rw_init f N) (rw_machine f N) s" "rw_pcs s t = RwWait b (Suspended wait)"
    and "wkr (heap (rw_world s)) (wf_waiter wait) \<noteq> WakerDone"
  shows "\<exists>u. u \<noteq> t \<and> rw_engaged (heap (rw_world s)) (rw_pcs s u)"
proof -
  let ?h = "heap (rw_world s)" and ?w = "wf_waiter wait"
  obtain g fx own rs ws where ok: "rw_ok f N (rw_world s) (rw_pcs s) g fx own rs ws"
    by (rule rw_reach_ok [OF assms(1)])
  note T = rw_okD(1) [OF ok]
  have not_t: "\<not> rw_engaged ?h (rw_pcs s t)" using assms(2,3) by simp
  have list: "\<exists>u. rw_engaged ?h (rw_pcs s u)" if "g_loc g v = InList u" for u v
  proof -
    have "v \<in> set (g_list g u)" using that tasks_in_list [OF T] by blast
    then have "r_list (rw_role (g_list g u) (rw_pcs s u)) \<noteq> []" using tasks_list [OF T, of u] by auto
    then have "rw_engaged ?h (rw_pcs s u)"
      by (cases "(g_list g u, rw_pcs s u)" rule: rw_role.cases)
        (auto simp: ru_simps wu_simps split: write_unlock_pc.splits)
    then show ?thesis by blast
  qed
  have "\<exists>u. rw_engaged ?h (rw_pcs s u)"
  proof (cases own)
    case (Some u)
    then show ?thesis using rw_okD(7) [OF ok, of u] rw_owner_engaged by blast
  next
    case own: None
    show ?thesis
    proof (cases "rs = {}")
      case False
      then obtain u where u: "rtok ?h (counted (g_list g) (rw_pcs s)) (rw_pcs s u)"
        using rw_okD(5) [OF ok] by blast
      show ?thesis
      proof (cases "rw_engaged ?h (rw_pcs s u)")
        case False
        then obtain p where "rw_pcs s u = RwWait False p" "wait_waiter p \<in> counted (g_list g) (rw_pcs s)"
          using u by (cases "(?h, counted (g_list g) (rw_pcs s), rw_pcs s u)" rule: rtok.cases) auto
        then show ?thesis using counted_loc [OF T] list by blast
      qed blast
    next
      case True
      then have ws: "ws = {}" using rw_okD(11) [OF ok own] by blast
      then have b: "\<not> b" using rw_okD(6) [OF ok, of t] assms(2) by auto
      have "parked_ok ?h g f ?w 0"
        using tasks_stage [OF T, of t "Parked ?w 0"] assms(2) b by (simp add: rw_q_def)
      then have w: "listed f 0 (g_loc g ?w)" using assms(3) by (auto simp: parked_ok_def)
      have "g_loc g ?w \<noteq> Inbox f" "g_loc g ?w \<noteq> InQueue f 0"
        using rw_okD(12) [OF ok ws] world_okD(3) [OF tasks_okD(1,2) [OF T]] tasks_in_queue [OF T, of 0 ?w]
        by (auto simp: inbox_ok_def)
      moreover have "g_loc g ?w \<noteq> InHand u" for u
        using rw_hand_owner [OF ok, of u ?w] tasks_in_hand [OF T, of u ?w] own by auto
      ultimately obtain u where "g_loc g ?w = InList u" using w by (auto simp: listed_def)
      then show ?thesis by (rule list)
    qed
  qed
  then show ?thesis using not_t by metis
qed

text \<open>
  C40: writers come first. While a writer holds or awaits the lock, no reader that arrives gets
  in, whatever snapshot it has: a step of \<open>read\<close> retries or waits.
\<close>

theorem rw_lock_writers_first:
  assumes "get_futex (rw_world s) f = Inr fx" "ra_writers (rw_decode (fa_atom (futex_atom fx))) \<noteq> 0"
    and "rw_pcs s t = RwTop False w a cx" "rw_machine f N (t, act) s = Some (Inr s')"
  shows "(\<exists>a'. rw_pcs s' t = RwTop False w a' cx) \<or> (\<exists>p. rw_pcs s' t = RwWait False p)"
proof -
  have fx: "futexes (rw_world s) f = Some fx"
    using assms(1) by (simp add: get_futex_def split: option.splits)
  obtain b W' where it: "read_iter b f (rw_world s) w a cx = Inr (rw_pcs s' t, W')"
    using assms(3,4) by (cases act)
      (auto simp: rw_machine_def rw_step_def rw_task_def mapR_def bindR_eq_Inr split: if_splits)
  show ?thesis
  proof (cases "ra_writers (rw_decode (fa_atom a)) = 0")
    case True
    then have "futex_atom fx \<noteq> a" using assms(2) by auto
    then have "read_iter b f (rw_world s) w a cx = Inr (RwTop False w (futex_atom fx) cx, rw_world s)"
      using True futex_cmpxchg_weak_eq [OF fx, of _ RelaxedT]
      by (simp add: read_iter_def inner_def Let_def rw_more rw_acquire_def)
    then show ?thesis using it by simp
  next
    case False
    then have "rw_park b f (rw_world s) False w a cx (fa_atom a) = Inr (rw_pcs s' t, W')"
      using it by (simp add: read_iter_def inner_def Let_def rw_encode_decode)
    then obtain r where "(case r of Inl s \<Rightarrow> RwTop False w s cx | Inr p \<Rightarrow> RwWait False p) = rw_pcs s' t"
      by (auto simp: rw_park_def bindR_eq_Inr)
    then show ?thesis by (cases r) (metis sum.case)+
  qed
qed

text \<open>
  A woken task gets its guard: the next poll of its future, with any waker, and one step of
  the loop of \<open>poll_waiting\<close> return it and free the waiter.
\<close>

theorem rw_lock_woken_gets_lock:
  assumes reach: "reach (rw_init f N) (rw_machine f N) s"
    and t: "rw_pcs s t = RwWait b (Suspended wait)" "wkr (heap (rw_world s)) (wf_waiter wait) = WakerDone"
  shows "\<exists>s'. run (rw_machine f N) [(t, RwPoll cx), (t, RwRun c)] s = Some (Inr s') \<and> rw_pcs s' t = RwHeld b \<and>
    heap (rw_world s') = (heap (rw_world s))(wf_waiter wait := None)"
proof -
  obtain g fx own rs ws where ok: "rw_ok f N (rw_world s) (rw_pcs s) g fx own rs ws"
    by (rule rw_reach_ok [OF reach])
  note T = rw_okD(1) [OF ok]
  let ?W = "rw_world s" and ?w = "wf_waiter wait"
  have N: "t < N" using rw_okD(3) [OF ok, of t] t by simp
  have st: "r_stage (rw_role (g_list g t) (rw_pcs s t)) = Parked ?w (rw_q b)" by (simp add: t)
  have wait: "wf_step wait = Waiting" using rw_okD(2) [OF ok, of t] by (simp add: t wait_ok_def)
  have alive: "alive (heap ?W) ?w" using tasks_stage [OF T st] by (simp add: parked_ok_def)
  have 1: "rw_machine f N (t, RwPoll cx) s = Some (Inr (s\<lparr>rw_world := clone_waker ?W cx,
      rw_pcs := (rw_pcs s)(t := RwWait b (Polling wait cx WakerDone))\<rparr>))"
    using tasks_poll_waiting(1) [OF T st] t(2) wait N
    by (simp add: rw_machine_def rw_allowed_def rw_step_def rw_task_def t wait_advance_def future_poll_def
        wait_polled_def rw_waited_def)
  have "waiter_drop (drop_waker (clone_waker ?W cx) cx) ?w = Inr (freed (drop_waker (clone_waker ?W cx) cx) ?w)"
    by (rule waiter_drop_alive) (simp add: alive)
  then show ?thesis
    by (simp add: 1) (simp add: rw_machine_def rw_allowed_def N rw_step_def rw_task_def wait_advance_def
        future_loop_def poll_waiting_iter_def wait_polled_def rw_waited_def)
qed

fun rw_running :: "rw_pc \<Rightarrow> bool" where
  "rw_running (RwTop b w s cx) = True"
| "rw_running (RwWait b p) = mid_wait p"
| "rw_running (RwUnlock c u) = True"
| "rw_running _ = False"

lemma rw_reader_runs:
  "r_read (rw_role xs p) \<Longrightarrow> rw_running p \<and> rw_task f t (RwRun b) W p \<noteq> None"
  by (cases "(xs, p)" rule: rw_role.cases)
    (auto simp: rw_task_def rw_unlock_step_def read_unlock_step_def write_unlock_step_def ru_simps wu_simps
      split: read_unlock_pc.splits write_unlock_pc.splits)

lemma rw_writer_runs:
  assumes "r_write (rw_role xs p)"
  shows "rw_running p \<and> rw_task f t (RwRun b) W p \<noteq> None"
proof (cases "(xs, p)" rule: rw_role.cases)
  case (2 ys c q)
  then have "mid_wait q" using assms by (cases q) (auto simp: mid_wait_def)
  then show ?thesis using wait_write_runs [of "rw_q c" q t b W] assms 2 by (auto simp: rw_task_def)
qed (use assms in \<open>simp_all add: ru_simps wu_simps\<close>)

text \<open>
  No deadlock. While some task is inside \<open>read\<close>, \<open>write\<close>, an unlock or a drop, some such task
  can take its next step. Outside are the tasks that await their waiter or hold a guard.
\<close>

theorem rw_lock_not_stuck:
  assumes "reach (rw_init f N) (rw_machine f N) s" "rw_running (rw_pcs s t)"
  shows "\<exists>u. rw_running (rw_pcs s u) \<and> rw_machine f N (u, RwRun b) s \<noteq> None"
proof -
  obtain g fx own rs ws where ok: "rw_ok f N (rw_world s) (rw_pcs s) g fx own rs ws"
    by (rule rw_reach_ok [OF assms(1)])
  note T = rw_okD(1) [OF ok]
  have step: "rw_machine f N (u, RwRun b) s \<noteq> None"
    if "rw_running (rw_pcs s u) \<and> rw_task f u (RwRun b) (rw_world s) (rw_pcs s u) \<noteq> None" for u
  proof -
    have "u < N" using rw_okD(3) [OF ok, of u] that by (cases "rw_pcs s u") auto
    then have "rw_allowed N (u, RwRun b) s" by (simp add: rw_allowed_def split: rw_pc.split)
    then show ?thesis using that by (auto simp: rw_machine_def rw_step_def)
  qed
  from tasks_unblocked [OF T] show ?thesis
  proof (elim disjE exE)
    assume free: "\<forall>t. futex_lock t (rw_world s) f \<noteq> None \<and> write_lock t (rw_world s) f \<noteq> None"
    have "rw_task f t (RwRun b) (rw_world s) (rw_pcs s t) \<noteq> None"
    proof (cases "rw_pcs s t")
      case (RwWait c p)
      then show ?thesis
        using wait_mid_runs [of p f "heap (rw_world s)" t "rw_world s" b] free rw_okD(2) [OF ok, of t] assms(2)
        by (auto simp: rw_task_def)
    next
      case (RwUnlock c u)
      then show ?thesis using free
        by (cases u) (auto simp: rw_task_def rw_unlock_step_def read_unlock_step_def write_unlock_step_def
          split: read_unlock_pc.splits write_unlock_pc.splits)
    qed (use assms(2) in \<open>simp_all add: rw_task_def\<close>)
    then show ?thesis using step assms(2) by blast
  next
    fix u assume "r_write (rw_role (g_list g u) (rw_pcs s u))"
    from rw_writer_runs [OF this] show ?thesis using step by blast
  next
    fix u assume "r_read (rw_role (g_list g u) (rw_pcs s u))"
    from rw_reader_runs [OF this] show ?thesis using step by blast
  qed
qed

text \<open>
  The packing of the atom: every word of memory is the packing of what it decodes to, and
  packing two counters keeps each of them modulo \<open>2 ^ 32\<close>, so that exactly the counters that fit
  come back.
\<close>

theorem rw_atom_packing:
  "rw_encode (rw_decode x) = x \<and>
   rw_decode (rw_encode a) = \<lparr>ra_readers = of_nat (unat (ra_readers a) mod 2 ^ 32),
                              ra_writers = of_nat (unat (ra_writers a) mod 2 ^ 32)\<rparr> \<and>
   (rw_decode (rw_encode a) = a \<longleftrightarrow> rw_fits a)"
proof (intro conjI)
  have down: "ucast (ucast v :: usize_half) = (of_nat (unat v mod 2 ^ 32) :: usize)" for v :: usize
    by (simp add: word_unat_eq_iff unsigned_ucast_eq unsigned_take_bit_eq take_bit_eq_mod unat_of_nat unat_mod_distrib)
  show e: "rw_decode (rw_encode a) = \<lparr>ra_readers = of_nat (unat (ra_readers a) mod 2 ^ 32),
      ra_writers = of_nat (unat (ra_writers a) mod 2 ^ 32)\<rparr>"
    by (simp add: rw_decode_def rw_encode_def untransmute2_transmute2 down)
  show "rw_decode (rw_encode a) = a \<longleftrightarrow> rw_fits a"
    using rw_decode_fits [of "rw_encode a"] rw_pack.decode_encode [of a] by auto
qed (rule rw_encode_decode)

section \<open>Runs\<close>

text \<open>
  Tasks 1 and 2 read, task 3 waits for a write guard and task 4 for a read guard
  (\<open>rw_wait_trace\<close>); the two readers leave and the second hands the lock to the writer
  (\<open>rw_hand_trace\<close>), which takes its guard (\<open>rw_write_trace\<close>), drops it and counts the reader it
  has popped (\<open>rw_count_trace\<close>).
\<close>

definition rw_waker :: "nat \<Rightarrow> copy_waker" where
  "rw_waker n = \<lparr>cw_data = of_nat n, cw_vtable = 9\<rparr>"

definition rw_wait_trace :: "(tid \<times> rw_act) list" where
  "rw_wait_trace =
     [(1, RwStart False (rw_waker 1) 16), (1, RwRun False), (2, RwStart False (rw_waker 2) 32), (2, RwRun False),
      (3, RwStart True (rw_waker 3) 48), (3, RwRun False), (4, RwStart False (rw_waker 4) 64), (4, RwRun False)]"

definition rw_hand_trace :: "(tid \<times> rw_act) list" where
  "rw_hand_trace = rw_wait_trace @ (1, RwDrop) # replicate 3 (1, RwRun False) @ (2, RwDrop) # replicate 7 (2, RwRun False)"

definition rw_write_trace :: "(tid \<times> rw_act) list" where
  "rw_write_trace = rw_hand_trace @ [(3, RwPoll (rw_waker 3)), (3, RwRun False)]"

definition rw_count_trace :: "(tid \<times> rw_act) list" where
  "rw_count_trace = rw_write_trace @ (3, RwDrop) # replicate 5 (3, RwRun False)"

definition rw_after :: "(tid \<times> rw_act) list \<Rightarrow> rw_state" where
  "rw_after es = (case run (rw_machine 100 10) es (rw_new 100) of Some (Inr s) \<Rightarrow> s | _ \<Rightarrow> rw_new 100)"

lemma rw_after_reach: "reach (rw_init 100 10) (rw_machine 100 10) (rw_after es)"
proof -
  have start: "reach (rw_init 100 10) (rw_machine 100 10) (rw_new 100)"
    by (rule reach.start) (simp add: rw_init_def)
  then show ?thesis
    using run_reach [OF start, of es]
    by (auto simp: rw_after_def split: option.splits sum.splits)
qed

text \<open>
  Outside of that use: a \<open>write\<close> that is dropped while it waits behind a reader reaches the
  \<open>todo!()\<close> of \<open>write_abort\<close>.
\<close>

theorem rw_lock_write_abort:
  "run (rw_step 100) (rw_wait_trace @ (3, RwDrop) # replicate 8 (3, RwRun False)) (rw_new 100) = Some (Inl Todo)"
proof -
  have "(case run (rw_step 100) (rw_wait_trace @ (3, RwDrop) # replicate 8 (3, RwRun False)) (rw_new 100) of
      Some (Inl e) \<Rightarrow> e = Todo | _ \<Rightarrow> False)"
    by code_simp
  then show ?thesis by (auto split: option.splits sum.splits)
qed

section \<open>Witnesses\<close>

theorem rw_lock_no_fault_witness:
  "rw_machine 100 10 (3, RwRun False) (rw_after rw_count_trace) \<noteq> Some (Inl Overflow) \<and>
   rw_machine 100 10 (3, RwRun False) (rw_after rw_count_trace) \<noteq> None"
proof
  show "rw_machine 100 10 (3, RwRun False) (rw_after rw_count_trace) \<noteq> Some (Inl Overflow)"
    by (rule rw_lock_no_fault [OF rw_after_reach])
  have "(case rw_machine 100 10 (3, RwRun False) (rw_after rw_count_trace) of None \<Rightarrow> False | _ \<Rightarrow> True)"
    by code_simp
  then show "rw_machine 100 10 (3, RwRun False) (rw_after rw_count_trace) \<noteq> None"
    by (auto split: option.splits)
qed

lemma rw_write_trace_held: "rw_pcs (rw_after rw_write_trace) 3 = RwHeld True"
proof -
  have "(case rw_pcs (rw_after rw_write_trace) 3 of RwHeld b \<Rightarrow> b | _ \<Rightarrow> False)" by code_simp
  then show ?thesis by (auto split: rw_pc.splits)
qed

theorem rw_lock_exclusion_witness:
  "rw_pcs (rw_after rw_write_trace) 3 = RwHeld True \<and> rw_pcs (rw_after rw_write_trace) 4 \<noteq> RwHeld False"
  using rw_write_trace_held rw_lock_exclusion [OF rw_after_reach rw_write_trace_held, of 4 False] by auto

theorem rw_lock_counters_witness:
  "\<exists>fx a. get_futex (rw_world (rw_after rw_wait_trace)) 100 = Inr fx \<and> fa_atom (futex_atom fx) = rw_encode a \<and>
    rw_decode (rw_encode a) = a \<and> (10::nat) < 2 ^ 32 \<and>
    card {t. rw_pcs (rw_after rw_wait_trace) t = RwHeld False} \<le> unat (ra_readers a) \<and> unat (ra_readers a) \<le> 10 \<and>
    card {t. rw_pcs (rw_after rw_wait_trace) t = RwHeld True \<or> (\<exists>p. rw_pcs (rw_after rw_wait_trace) t = RwWait True p)}
      \<le> unat (ra_writers a) \<and> unat (ra_writers a) \<le> 10"
  by (rule rw_lock_counters [OF rw_after_reach])

theorem rw_lock_no_lost_wakeup_witness:
  "\<exists>u. u \<noteq> 4 \<and> rw_engaged (heap (rw_world (rw_after rw_wait_trace))) (rw_pcs (rw_after rw_wait_trace) u)"
proof -
  have "(case rw_pcs (rw_after rw_wait_trace) 4 of RwWait b (Suspended wait) \<Rightarrow>
      wkr (heap (rw_world (rw_after rw_wait_trace))) (wf_waiter wait) \<noteq> WakerDone | _ \<Rightarrow> False)"
    by code_simp
  then obtain b wait where w: "rw_pcs (rw_after rw_wait_trace) 4 = RwWait b (Suspended wait)"
    "wkr (heap (rw_world (rw_after rw_wait_trace))) (wf_waiter wait) \<noteq> WakerDone"
    by (auto split: rw_pc.splits wait_task.splits)
  show ?thesis by (rule rw_lock_no_lost_wakeup [OF rw_after_reach w])
qed

theorem rw_lock_writers_first_witness:
  "\<exists>s' w a cx. rw_machine 100 10 (4, RwRun False) (rw_after (butlast rw_wait_trace)) = Some (Inr s') \<and>
     ((\<exists>a'. rw_pcs s' 4 = RwTop False w a' cx) \<or> (\<exists>p. rw_pcs s' 4 = RwWait False p))"
proof -
  let ?s = "rw_after (butlast rw_wait_trace)"
  have "(case rw_pcs ?s 4 of RwTop b w a cx \<Rightarrow> \<not> b | _ \<Rightarrow> False)" by code_simp
  then obtain w a cx where t: "rw_pcs ?s 4 = RwTop False w a cx" by (auto split: rw_pc.splits)
  have "(case get_futex (rw_world ?s) 100 of Inr fx \<Rightarrow> ra_writers (rw_decode (fa_atom (futex_atom fx))) \<noteq> 0
      | _ \<Rightarrow> False)" by code_simp
  then obtain fx where fx: "get_futex (rw_world ?s) 100 = Inr fx"
    "ra_writers (rw_decode (fa_atom (futex_atom fx))) \<noteq> 0" by (auto split: sum.splits)
  have "(case rw_machine 100 10 (4, RwRun False) ?s of Some (Inr s) \<Rightarrow> True | _ \<Rightarrow> False)" by code_simp
  then obtain s' where s': "rw_machine 100 10 (4, RwRun False) ?s = Some (Inr s')"
    by (auto split: option.splits sum.splits)
  from rw_lock_writers_first [OF fx t s'] s' show ?thesis by blast
qed

theorem rw_lock_woken_gets_lock_witness:
  "\<exists>s'. run (rw_machine 100 10) [(3, RwPoll (rw_waker 9)), (3, RwRun True)] (rw_after rw_hand_trace) = Some (Inr s') \<and>
     rw_pcs s' 3 = RwHeld True"
proof -
  have "(case rw_pcs (rw_after rw_hand_trace) 3 of RwWait b (Suspended wait) \<Rightarrow>
      b \<and> wkr (heap (rw_world (rw_after rw_hand_trace))) (wf_waiter wait) = WakerDone | _ \<Rightarrow> False)"
    by code_simp
  then obtain wait where "rw_pcs (rw_after rw_hand_trace) 3 = RwWait True (Suspended wait)"
    "wkr (heap (rw_world (rw_after rw_hand_trace))) (wf_waiter wait) = WakerDone"
    by (auto split: rw_pc.splits wait_task.splits)
  from rw_lock_woken_gets_lock [OF rw_after_reach this] show ?thesis by blast
qed

theorem rw_lock_not_stuck_witness:
  "\<exists>u. rw_running (rw_pcs (rw_after rw_count_trace) u) \<and>
     rw_machine 100 10 (u, RwRun True) (rw_after rw_count_trace) \<noteq> None"
proof (rule rw_lock_not_stuck [OF rw_after_reach])
  show "rw_running (rw_pcs (rw_after rw_count_trace) 3)" by code_simp
qed

end
