(* ===== verification/Fast_Mutex.thy ===== *)
theory Fast_Mutex imports Wake_Task begin

text \<open>
  \<open>src/fast_mutex.rs\<close>: the mutex that lets running tasks overtake queued ones. Its atom says
  whether the mutex is locked, whether a task is being woken, and how many tasks wait. A state
  is the memory and, for every task, its place in \<open>lock\<close> or \<open>unlock\<close>.
\<close>

section \<open>The atom\<close>

record fast_atom =
  at_locked :: bool
  at_waking :: bool
  at_waiters :: usize

definition fast_encode :: "fast_atom \<Rightarrow> usize" where
  "fast_encode val =
     of_bool (at_locked val) OR push_bit 1 (of_bool (at_waking val)) OR push_bit 2 (at_waiters val)"

definition fast_decode :: "usize \<Rightarrow> fast_atom" where
  "fast_decode val =
     \<lparr>at_locked = (val AND 1 = 1), at_waking = (drop_bit 1 val AND 1 = 1), at_waiters = drop_bit 2 val\<rparr>"

definition fast_fits :: "fast_atom \<Rightarrow> bool" where
  "fast_fits a \<longleftrightarrow> unat (at_waiters a) < 2 ^ 62"

lemma and_one_eq: "x AND 1 = (1 :: usize) \<longleftrightarrow> bit x 0"
  by (simp add: and_one_eq bit_0 odd_iff_mod_2_eq_one)

lemma high_bits:
  assumes "unat (n :: usize) < 2 ^ 62" "62 \<le> i"
  shows "\<not> bit n i"
proof -
  have "take_bit 62 n = n"
    using assms by (simp add: word_unat_eq_iff unsigned_take_bit_eq take_bit_nat_eq_self)
  then show ?thesis using assms(2) by (metis bit_take_bit_iff not_le)
qed

lemma drop_push:
  assumes "unat (n :: usize) < 2 ^ 62"
  shows "drop_bit 2 (push_bit 2 n) = n"
proof (rule bit_word_eqI)
  fix i show "bit (drop_bit 2 (push_bit 2 n)) i \<longleftrightarrow> bit n i"
    using high_bits [OF assms, of i] by (cases "i < 62") (auto simp: bit_simps)
qed

lemma fast_bits:
  "bit (fast_encode a) 0 \<longleftrightarrow> at_locked a"
  "bit (fast_encode a) 1 \<longleftrightarrow> at_waking a"
  "drop_bit 2 (fast_encode a) = drop_bit 2 (push_bit 2 (at_waiters a))"
  by (auto simp: fast_encode_def bit_simps intro!: bit_word_eqI)

interpretation fast_pack: packable fast_encode fast_decode fast_fits
proof
  fix a assume "fast_fits a"
  then have "drop_bit 2 (fast_encode a) = at_waiters a"
    by (simp add: fast_bits(3) fast_fits_def drop_push)
  then show "fast_decode (fast_encode a) = a"
    using fast_bits(1,2) [of a] by (simp add: fast_decode_def and_one_eq bit_drop_bit_eq)
qed

lemma fast_decode_fits: "fast_fits (fast_decode x)"
proof -
  have "unat (drop_bit 2 x) = drop_bit 2 (unat x)" by (simp only: unat_drop_bit_eq)
  then have "unat (drop_bit 2 x) < 2 ^ 62"
    using unsigned_less [of x, where ?'a = nat] by (simp only: drop_bit_eq_div) simp
  then show ?thesis by (simp add: fast_fits_def fast_decode_def)
qed

lemma fast_encode_decode: "fast_encode (fast_decode x) = x"
proof (rule bit_word_eqI)
  fix i assume i: "i < LENGTH(64)"
  consider "i = 0" | "i = 1" | j where "i = Suc (Suc j)" by (metis One_nat_def not0_implies_Suc)
  then show "bit (fast_encode (fast_decode x)) i \<longleftrightarrow> bit x i"
    using i by cases (auto simp: fast_encode_def fast_decode_def and_one_eq bit_simps)
qed

section \<open>unlock\<close>

text \<open>
  \<open>FULoad\<close> and \<open>FUTry\<close> are the load and the first loop, whose fast path releases the mutex; the
  slow path takes the guard (\<open>FULock\<close>) and the queues (\<open>FUBorrow\<close>), and its loop \<open>FULoop\<close> knows
  whether waiters were queued. A popped waiter is woken after the borrow is released (\<open>FUDrop\<close>,
  \<open>FUWake\<close>, \<open>FUCall\<close>); \<open>FUUnborrow\<close> is the way out without one.
\<close>

datatype fast_unlock =
  FULoad
| FUTry raw_futex_atom
| FULock raw_futex_atom
| FUBorrow raw_futex_atom
| FULoop bool raw_futex_atom
| FUDrop ptr
| FUWake ptr
| FUCall copy_waker
| FUUnborrow
| FUUnlock
| FUDone

definition fast_unlock_try ::
  "bool \<Rightarrow> ptr \<Rightarrow> world \<Rightarrow> raw_futex_atom \<Rightarrow> (fast_unlock \<times> world) res" where
  "fast_unlock_try spurious f W s =
     (let atom = inner fast_decode s in
      if at_waking atom \<or> at_waiters atom = 0 then
        bindR (futex_cmpxchg_weak spurious ReleaseT RelaxedT W f s (fast_encode (atom\<lparr>at_locked := False\<rparr>)))
          (\<lambda>(ok, s, W). Inr (if ok then FUDone else FUTry s, W))
      else if at_waking atom then Inr (FUDone, W)
      else Inr (FULock s, W))"

text \<open>The end of the slow path: \<open>atom\<close> is the state before the mutex was released.\<close>

definition fast_unlock_pop :: "ptr \<Rightarrow> world \<Rightarrow> fast_atom \<Rightarrow> (fast_unlock \<times> world) res" where
  "fast_unlock_pop f W atom =
     (if \<not> at_waking atom then
        bindR (queue_pop W f 0) (\<lambda>(popped, W).
          case popped of Some waiter \<Rightarrow> Inr (FUDrop waiter, W) | None \<Rightarrow> Inl Panic)
      else Inr (FUUnborrow, W))"

definition fast_unlock_loop ::
  "bool \<Rightarrow> ptr \<Rightarrow> world \<Rightarrow> bool \<Rightarrow> raw_futex_atom \<Rightarrow> (fast_unlock \<times> world) res" where
  "fast_unlock_loop spurious f W had_waiters s =
     (let atom = inner fast_decode s;
          released = fast_encode (atom\<lparr>at_locked := False, at_waking := True\<rparr>) in
      if had_waiters then
        bindR (futex_cmpxchg_weak spurious ReleaseT RelaxedT W f s released) (\<lambda>(ok, s, W).
          if ok then fast_unlock_pop f W atom else Inr (FULoop had_waiters s, W))
      else if has_new_waiters s then
        bindR (cmpxchg_enqueue_weak spurious AcqRelT RelaxedT W f s released) (\<lambda>(ok, s, W).
          if ok then fast_unlock_pop f W atom else Inr (FULoop had_waiters s, W))
      else
        bindR (ensure (at_waiters atom = 0)) (\<lambda>_.
        bindR (futex_cmpxchg_weak spurious ReleaseT RelaxedT W f s
                 (fast_encode \<lparr>at_locked = False, at_waking = False, at_waiters = 0\<rparr>)) (\<lambda>(ok, s, W).
          Inr (if ok then FUUnborrow else FULoop had_waiters s, W))))"

definition fast_unlock_step ::
  "bool \<Rightarrow> tid \<Rightarrow> ptr \<Rightarrow> world \<Rightarrow> fast_unlock \<Rightarrow> (fast_unlock \<times> world) res option" where
  "fast_unlock_step spurious t f W u =
     (case u of
        FULoad \<Rightarrow> Some (bindR (futex_load RelaxedT W f) (\<lambda>s. Inr (FUTry s, W)))
      | FUTry s \<Rightarrow> Some (fast_unlock_try spurious f W s)
      | FULock s \<Rightarrow> map_option (mapR (Pair (FUBorrow s))) (futex_lock t W f)
      | FUBorrow s \<Rightarrow> Some (
          bindR (queue_lock W f) (\<lambda>W.
          bindR (queue_is_empty W f 0) (\<lambda>empty. Inr (FULoop (\<not> empty) s, W))))
      | FULoop had_waiters s \<Rightarrow> Some (fast_unlock_loop spurious f W had_waiters s)
      | FUDrop waiter \<Rightarrow> Some (mapR (Pair (FUWake waiter)) (queue_unlock W f))
      | FUWake waiter \<Rightarrow> Some (bindR (wake_swap W waiter) (\<lambda>(k, W). Inr (FUCall k, W)))
      | FUCall k \<Rightarrow> Some (Inr (FUUnlock, wake_call W k))
      | FUUnborrow \<Rightarrow> Some (mapR (Pair FUUnlock) (queue_unlock W f))
      | FUUnlock \<Rightarrow> Some (mapR (Pair FUDone) (futex_unlock t W f))
      | FUDone \<Rightarrow> None)"

section \<open>lock\<close>

text \<open>
  A task is \<open>FIdle\<close>; at the top of the first loop (\<open>FTop\<close>) or suspended in its wait (\<open>FWait\<close>);
  woken, and about to pin a new waiter (\<open>FNext\<close>, with the first one, which lives on); at the top
  of the second loop (\<open>FTop2\<close>) or suspended in its wait (\<open>FWait2\<close>); the holder of a guard
  (\<open>FHeld\<close>), or in its drop (\<open>FUnlock\<close>).
\<close>

datatype fast_pc =
  FIdle
| FTop ptr raw_futex_atom copy_waker
| FWait wait_task
| FNext ptr raw_futex_atom copy_waker
| FTop2 ptr ptr raw_futex_atom copy_waker
| FWait2 ptr wait_task
| FHeld
| FUnlock fast_unlock

text \<open>
  The environment starts \<open>lock\<close> and gives the addresses where the waiters are pinned (\<open>FStart\<close>,
  \<open>FPin\<close>), polls again, drops a future or a guard, or lets the task take a step.
\<close>

datatype fast_act = FStart copy_waker ptr | FPin ptr | FPoll copy_waker | FDrop | FRun bool

record fast_state =
  fast_world :: world
  fast_pcs :: "tid \<Rightarrow> fast_pc"

definition fast_new :: "ptr \<Rightarrow> fast_state" where
  "fast_new f =
     \<lparr>fast_world = \<lparr>heap = Map.empty,
        futexes = [f \<mapsto> futex_new (fast_encode \<lparr>at_locked = False, at_waking = False, at_waiters = 0\<rparr>) 1],
        clones = [], wakes = [], drops = []\<rparr>,
      fast_pcs = (\<lambda>_. FIdle)\<rparr>"

definition fast_start :: "ptr \<Rightarrow> copy_waker \<Rightarrow> ptr \<Rightarrow> world \<Rightarrow> (fast_pc \<times> world) res option" where
  "fast_start f cx addr W =
     (case new_waiter W f 0 0 addr of
        None \<Rightarrow> None
      | Some W \<Rightarrow> Some (bindR (futex_load RelaxedT W f) (\<lambda>s. Inr (FTop addr s cx, W))))"

text \<open>\<open>checked_add(1).unwrap()\<close> panics where the sum would wrap around.\<close>

definition unwrap_add :: "usize \<Rightarrow> usize res" where
  "unwrap_add n = (case checked_plus n 1 of Inl _ \<Rightarrow> Inl Panic | Inr m \<Rightarrow> Inr m)"

definition fast_iter ::
  "bool \<Rightarrow> ptr \<Rightarrow> world \<Rightarrow> ptr \<Rightarrow> raw_futex_atom \<Rightarrow> copy_waker \<Rightarrow> (fast_pc \<times> world) res" where
  "fast_iter spurious f W w s cx =
     (let atom = inner fast_decode s in
      if at_locked atom then
        bindR (unwrap_add (at_waiters atom)) (\<lambda>waiters.
        bindR (wait_begin spurious f W w s (fast_encode (atom\<lparr>at_waiters := waiters\<rparr>)) cx) (\<lambda>(r, W).
          Inr (case r of Inl s \<Rightarrow> FTop w s cx | Inr p \<Rightarrow> FWait p, W)))
      else
        bindR (futex_cmpxchg_weak spurious AcquireT RelaxedT W f s (fast_encode (atom\<lparr>at_locked := True\<rparr>)))
          (\<lambda>(ok, s, W). if ok then mapR (Pair FHeld) (waiter_drop W w) else Inr (FTop w s cx, W)))"

definition fast_pin ::
  "ptr \<Rightarrow> world \<Rightarrow> ptr \<Rightarrow> raw_futex_atom \<Rightarrow> copy_waker \<Rightarrow> ptr \<Rightarrow> (fast_pc \<times> world) res option" where
  "fast_pin f W w s cx addr = map_option (\<lambda>W. Inr (FTop2 w addr s cx, W)) (new_waiter W f 0 0 addr)"

text \<open>The second loop. A guard is returned after both waiters have been dropped.\<close>

definition fast_iter2 ::
  "bool \<Rightarrow> ptr \<Rightarrow> world \<Rightarrow> ptr \<Rightarrow> ptr \<Rightarrow> raw_futex_atom \<Rightarrow> copy_waker \<Rightarrow> (fast_pc \<times> world) res" where
  "fast_iter2 spurious f W w w2 s cx =
     (let atom = inner fast_decode s in
      if at_locked atom then
        bindR (wait_begin spurious f W w2 s (fast_encode (atom\<lparr>at_waking := False\<rparr>)) cx) (\<lambda>(r, W).
          Inr (case r of Inl s \<Rightarrow> FTop2 w w2 s cx | Inr p \<Rightarrow> FWait2 w p, W))
      else
        bindR (checked_minus (at_waiters atom) 1) (\<lambda>waiters.
        bindR (futex_cmpxchg_weak spurious AcquireT RelaxedT W f s
                 (fast_encode \<lparr>at_locked = True, at_waking = False, at_waiters = waiters\<rparr>)) (\<lambda>(ok, s, W).
          if ok then bindR (waiter_drop W w2) (\<lambda>W. mapR (Pair FHeld) (waiter_drop W w))
          else Inr (FTop2 w w2 s cx, W))))"

text \<open>
  After a step of a wait. Both cancellation closures are \<open>todo!()\<close>. A task that was woken in
  the second loop drops the waiter of that round.
\<close>

definition fast_waited :: "wait_out \<times> world \<Rightarrow> (fast_pc \<times> world) res" where
  "fast_waited = (\<lambda>(out, W).
     case out of
       Still p \<Rightarrow> Inr (FWait p, W)
     | Returned woken wait cx \<Rightarrow>
         Inr (if woken then FNext (wf_waiter wait) (wf_current wait) cx
              else FTop (wf_waiter wait) (wf_current wait) cx, W)
     | Cancelled c w \<Rightarrow> (case c of Some _ \<Rightarrow> Inl Todo | None \<Rightarrow> mapR (Pair FIdle) (wait_finish W c w)))"

definition fast_waited2 :: "ptr \<Rightarrow> wait_out \<times> world \<Rightarrow> (fast_pc \<times> world) res" where
  "fast_waited2 w = (\<lambda>(out, W).
     case out of
       Still p \<Rightarrow> Inr (FWait2 w p, W)
     | Returned woken wait cx \<Rightarrow>
         if woken then mapR (Pair (FNext w (wf_current wait) cx)) (waiter_drop W (wf_waiter wait))
         else Inr (FTop2 w (wf_waiter wait) (wf_current wait) cx, W)
     | Cancelled c w2 \<Rightarrow> (case c of
           Some _ \<Rightarrow> Inl Todo
         | None \<Rightarrow> bindR (wait_finish W c w2) (\<lambda>W. mapR (Pair FIdle) (waiter_drop W w))))"

definition fast_wait_step ::
  "tid \<Rightarrow> fast_act \<Rightarrow> world \<Rightarrow> wait_task \<Rightarrow> (wait_out \<times> world) res option" where
  "fast_wait_step t act W p =
     (case act of
        FPoll cx \<Rightarrow> wait_advance t (Repoll cx) W p
      | FDrop \<Rightarrow> wait_advance t Abandon W p
      | FRun spurious \<Rightarrow> wait_advance t (Step spurious) W p
      | _ \<Rightarrow> None)"

definition fast_task ::
  "ptr \<Rightarrow> tid \<Rightarrow> fast_act \<Rightarrow> world \<Rightarrow> fast_pc \<Rightarrow> (fast_pc \<times> world) res option" where
  "fast_task f t act W p =
     (case p of
        FIdle \<Rightarrow> (case act of FStart cx addr \<Rightarrow> fast_start f cx addr W | _ \<Rightarrow> None)
      | FTop w s cx \<Rightarrow> (case act of FRun spurious \<Rightarrow> Some (fast_iter spurious f W w s cx) | _ \<Rightarrow> None)
      | FWait p \<Rightarrow> map_option (\<lambda>r. bindR r fast_waited) (fast_wait_step t act W p)
      | FNext w s cx \<Rightarrow> (case act of FPin addr \<Rightarrow> fast_pin f W w s cx addr | _ \<Rightarrow> None)
      | FTop2 w w2 s cx \<Rightarrow> (case act of FRun spurious \<Rightarrow> Some (fast_iter2 spurious f W w w2 s cx) | _ \<Rightarrow> None)
      | FWait2 w p \<Rightarrow> map_option (\<lambda>r. bindR r (fast_waited2 w)) (fast_wait_step t act W p)
      | FHeld \<Rightarrow> (case act of FDrop \<Rightarrow> Some (Inr (FUnlock FULoad, W)) | _ \<Rightarrow> None)
      | FUnlock u \<Rightarrow> (case act of
          FRun spurious \<Rightarrow>
            map_option (mapR (\<lambda>(u, W). (if u = FUDone then FIdle else FUnlock u, W)))
              (fast_unlock_step spurious t f W u)
        | _ \<Rightarrow> None))"

definition fast_step :: "ptr \<Rightarrow> (tid \<times> fast_act, fast_state) machine" where
  "fast_step f = (\<lambda>(t, act) s.
     map_option (mapR (\<lambda>(p, W). s\<lparr>fast_world := W, fast_pcs := (fast_pcs s)(t := p)\<rparr>))
       (fast_task f t act (fast_world s) (fast_pcs s t)))"

text \<open>
  The use of the mutex that its code supports: no pending \<open>lock\<close> is dropped (the closures are
  \<open>todo!()\<close>), and there are at most \<open>N\<close> tasks, so that their number fits into the 62 bits of the
  count.
\<close>

definition fast_allowed :: "nat \<Rightarrow> tid \<times> fast_act \<Rightarrow> fast_state \<Rightarrow> bool" where
  "fast_allowed N = (\<lambda>(t, act) s. t < N \<and> (act = FDrop \<longrightarrow> fast_pcs s t = FHeld))"

definition fast_machine :: "ptr \<Rightarrow> nat \<Rightarrow> (tid \<times> fast_act, fast_state) machine" where
  "fast_machine f N e s = (if fast_allowed N e s then fast_step f e s else None)"

end
