(* ===== verification/Fast_Inv.thy ===== *)
theory Fast_Inv imports Fast_Mutex begin

text \<open>
  The invariant of \<open>src/fast_mutex.rs\<close>. The atom is locked exactly while one task owns the mutex;
  \<open>waking\<close> is set exactly while one task has the wake-up: the unlocker that is about to wake a
  waiter, or the woken task until it locks or waits again; the count is the number of tasks
  that wait or have been woken. A woken task keeps its first waiter and pins a new one for every
  round: the first waiter of task \<open>t\<close> is held by the role at index \<open>N + t\<close>.
\<close>

section \<open>Roles\<close>

definition fu_role :: "fast_unlock \<Rightarrow> role" where
  "fu_role u = idle_role\<lparr>
     r_read := (case u of FULoad \<Rightarrow> False | FUTry _ \<Rightarrow> False | FULock _ \<Rightarrow> False | FUDone \<Rightarrow> False | _ \<Rightarrow> True),
     r_borrow := (case u of FULoop _ _ \<Rightarrow> True | FUDrop _ \<Rightarrow> True | FUUnborrow \<Rightarrow> True | _ \<Rightarrow> False),
     r_hand := (case u of FUDrop w \<Rightarrow> Some w | FUWake w \<Rightarrow> Some w | _ \<Rightarrow> None)\<rparr>"

fun fast_role :: "fast_pc \<Rightarrow> role" where
  "fast_role (FTop w s cx) = idle_role\<lparr>r_stage := Fresh w 0\<rparr>"
| "fast_role (FWait p) = wait_role 0 p"
| "fast_role (FTop2 w w2 s cx) = idle_role\<lparr>r_stage := Fresh w2 0\<rparr>"
| "fast_role (FWait2 w p) = wait_role 0 p"
| "fast_role (FUnlock u) = fu_role u"
| "fast_role _ = idle_role"

fun spare_role :: "fast_pc \<Rightarrow> role" where
  "spare_role (FNext w s cx) = off_role w"
| "spare_role (FTop2 w w2 s cx) = off_role w"
| "spare_role (FWait2 w p) = off_role w"
| "spare_role _ = idle_role"

definition fast_roles :: "nat \<Rightarrow> (tid \<Rightarrow> fast_pc) \<Rightarrow> tid \<Rightarrow> role" where
  "fast_roles N pc u = (if u < N then fast_role (pc u) else if u < 2 * N then spare_role (pc (u - N)) else idle_role)"

lemmas fu_simps = fu_role_def idle_role_def

lemma fast_roles_same:
  "t < N \<Longrightarrow> spare_role p = spare_role (pc t) \<Longrightarrow> fast_roles N (pc(t := p)) = (fast_roles N pc)(t := fast_role p)"
  by (rule ext) (auto simp: fast_roles_def)

lemma fast_roles_both:
  "t < N \<Longrightarrow> fast_roles N (pc(t := p)) = (fast_roles N pc)(t := fast_role p, N + t := spare_role p)"
  by (rule ext) (auto simp: fast_roles_def)

lemma fast_roles_at [simp]:
  "t < N \<Longrightarrow> fast_roles N pc t = fast_role (pc t)" "t < N \<Longrightarrow> fast_roles N pc (N + t) = spare_role (pc t)"
  by (auto simp: fast_roles_def)

section \<open>Tokens\<close>

definition fu_owns :: "fast_unlock \<Rightarrow> bool" where
  "fu_owns u = (case u of FULoad \<Rightarrow> True | FUTry _ \<Rightarrow> True | FULock _ \<Rightarrow> True | FUBorrow _ \<Rightarrow> True
     | FULoop _ _ \<Rightarrow> True | _ \<Rightarrow> False)"

fun fast_owns :: "fast_pc \<Rightarrow> bool" where
  "fast_owns FHeld = True"
| "fast_owns (FUnlock u) = fu_owns u"
| "fast_owns _ = False"

fun fast_wakes :: "heap \<Rightarrow> fast_pc \<Rightarrow> bool" where
  "fast_wakes h (FWait p) = (wkr h (wait_waiter p) = WakerDone)"
| "fast_wakes h (FNext w s cx) = True"
| "fast_wakes h (FTop2 w w2 s cx) = True"
| "fast_wakes h (FWait2 w p) = (wkr h (wait_waiter p) = WakerDone)"
| "fast_wakes h (FUnlock u) = (case u of FUDrop w \<Rightarrow> True | FUWake w \<Rightarrow> True | _ \<Rightarrow> False)"
| "fast_wakes h _ = False"

fun fast_waits :: "fast_pc \<Rightarrow> bool" where
  "fast_waits (FWait p) = True"
| "fast_waits (FNext w s cx) = True"
| "fast_waits (FTop2 w w2 s cx) = True"
| "fast_waits (FWait2 w p) = True"
| "fast_waits _ = False"

section \<open>The invariant\<close>

text \<open>
  The snapshot of an unlocker: if it shows no wake-up there is none, since only the owner starts
  one; if it also shows waiters but no new ones, then they are in the queue.
\<close>

definition fast_snap :: "ptr list \<Rightarrow> bool \<Rightarrow> bool \<Rightarrow> raw_futex_atom \<Rightarrow> bool" where
  "fast_snap xs wk wt s \<longleftrightarrow>
     (let a = fast_decode (fa_atom s) in
      (\<not> at_waking a \<longrightarrow> \<not> wk) \<and> (at_waiters a \<noteq> 0 \<longrightarrow> wt) \<and>
      (\<not> at_waking a \<and> at_waiters a \<noteq> 0 \<and> fa_inbox s = null \<longrightarrow> xs \<noteq> []))"

definition fast_slow :: "raw_futex_atom \<Rightarrow> bool" where
  "fast_slow s \<longleftrightarrow> \<not> at_waking (fast_decode (fa_atom s)) \<and> at_waiters (fast_decode (fa_atom s)) \<noteq> 0"

definition fu_ok :: "ptr list \<Rightarrow> bool \<Rightarrow> bool \<Rightarrow> fast_unlock \<Rightarrow> bool" where
  "fu_ok xs wk wt u =
     (case u of
        FUTry s \<Rightarrow> fast_snap xs wk wt s
      | FULock s \<Rightarrow> fast_snap xs wk wt s \<and> fast_slow s
      | FUBorrow s \<Rightarrow> fast_snap xs wk wt s \<and> fast_slow s
      | FULoop had s \<Rightarrow> fast_snap xs wk wt s \<and> fast_slow s \<and> had = (xs \<noteq> [])
      | FUUnborrow \<Rightarrow> False
      | FUDone \<Rightarrow> False
      | _ \<Rightarrow> True)"

definition wait_kept :: "ptr \<Rightarrow> heap \<Rightarrow> wait_task \<Rightarrow> bool" where
  "wait_kept f h p \<longleftrightarrow> wait_task_ok f h p \<and> (\<forall>w d. p \<noteq> Dropping w d) \<and>
     at_locked (fast_decode (fa_atom (wait_current p)))"

fun fast_pc_ok :: "ptr \<Rightarrow> heap \<Rightarrow> ptr list \<Rightarrow> bool \<Rightarrow> bool \<Rightarrow> fast_pc \<Rightarrow> bool" where
  "fast_pc_ok f h xs wk wt (FWait p) = wait_kept f h p"
| "fast_pc_ok f h xs wk wt (FWait2 w p) = wait_kept f h p"
| "fast_pc_ok f h xs wk wt (FNext w s cx) = at_locked (fast_decode (fa_atom s))"
| "fast_pc_ok f h xs wk wt (FTop2 w w2 s cx) =
     (\<not> at_locked (fast_decode (fa_atom s)) \<longrightarrow> at_waiters (fast_decode (fa_atom s)) \<noteq> 0)"
| "fast_pc_ok f h xs wk wt (FUnlock u) = fu_ok xs wk wt u"
| "fast_pc_ok f h xs wk wt _ = True"

definition fast_count :: "tid option \<Rightarrow> tid option \<Rightarrow> tid set \<Rightarrow> usize" where
  "fast_count own wk ws =
     fast_encode \<lparr>at_locked = (own \<noteq> None), at_waking = (wk \<noteq> None), at_waiters = of_nat (card ws)\<rparr>"

definition fast_ok ::
  "ptr \<Rightarrow> nat \<Rightarrow> world \<Rightarrow> (tid \<Rightarrow> fast_pc) \<Rightarrow> ghost \<Rightarrow> raw_futex \<Rightarrow> tid option \<Rightarrow> tid option \<Rightarrow> tid set \<Rightarrow> bool" where
  "fast_ok f N W pc g fx own wk ws \<longleftrightarrow>
     tasks_ok f 1 W g fx (fast_roles N pc) \<and>
     (\<forall>t. fast_pc_ok f (heap W) (g_queues g f ! 0) (wk \<noteq> None) (ws \<noteq> {}) (pc t)) \<and>
     (\<forall>t. pc t \<noteq> FIdle \<longrightarrow> t < N) \<and> N < 2 ^ 62 \<and>
     (\<forall>t. t \<in> ws \<longleftrightarrow> fast_waits (pc t)) \<and> (\<forall>t. fast_owns (pc t) \<longleftrightarrow> own = Some t) \<and>
     (\<forall>t. fast_wakes (heap W) (pc t) \<longleftrightarrow> wk = Some t) \<and>
     fa_atom (futex_atom fx) = fast_count own wk ws \<and>
     (own = None \<and> ws \<noteq> {} \<longrightarrow> wk \<noteq> None)"

definition fast_inv :: "ptr \<Rightarrow> nat \<Rightarrow> fast_state \<Rightarrow> bool" where
  "fast_inv f N s \<longleftrightarrow> (\<exists>g fx own wk ws. fast_ok f N (fast_world s) (fast_pcs s) g fx own wk ws)"

lemma fast_okD:
  assumes "fast_ok f N W pc g fx own wk ws"
  shows "tasks_ok f 1 W g fx (fast_roles N pc)"
    "fast_pc_ok f (heap W) (g_queues g f ! 0) (wk \<noteq> None) (ws \<noteq> {}) (pc t)"
    "pc t \<noteq> FIdle \<Longrightarrow> t < N" "N < 2 ^ 62" "t \<in> ws \<longleftrightarrow> fast_waits (pc t)"
    "fast_owns (pc t) \<longleftrightarrow> own = Some t" "fast_wakes (heap W) (pc t) \<longleftrightarrow> wk = Some t"
    "fa_atom (futex_atom fx) = fast_count own wk ws" "own = None \<Longrightarrow> ws \<noteq> {} \<Longrightarrow> wk \<noteq> None"
proof -
  note ok = assms [unfolded fast_ok_def]
  show "tasks_ok f 1 W g fx (fast_roles N pc)"
    "fast_pc_ok f (heap W) (g_queues g f ! 0) (wk \<noteq> None) (ws \<noteq> {}) (pc t)"
    "pc t \<noteq> FIdle \<Longrightarrow> t < N" "N < 2 ^ 62" "t \<in> ws \<longleftrightarrow> fast_waits (pc t)"
    "fast_owns (pc t) \<longleftrightarrow> own = Some t" "fast_wakes (heap W) (pc t) \<longleftrightarrow> wk = Some t"
    "fa_atom (futex_atom fx) = fast_count own wk ws" "own = None \<Longrightarrow> ws \<noteq> {} \<Longrightarrow> wk \<noteq> None"
    using ok by simp_all
qed

lemma fast_bounds:
  assumes ok: "fast_ok f N W pc g fx own wk ws"
  shows "finite ws" "card ws \<le> N"
    "fast_decode (fa_atom (futex_atom fx)) =
       \<lparr>at_locked = (own \<noteq> None), at_waking = (wk \<noteq> None), at_waiters = of_nat (card ws)\<rparr>"
    "(of_nat (card ws) :: usize) = 0 \<longleftrightarrow> ws = {}"
proof -
  have "u < N" if "u \<in> ws" for u
  proof (rule fast_okD(3) [OF ok])
    show "pc u \<noteq> FIdle" using that fast_okD(5) [OF ok, of u] by auto
  qed
  then have "ws \<subseteq> {..<N}" by blast
  then show ws: "finite ws" "card ws \<le> N"
    using finite_subset card_mono [of "{..<N}" ws] by auto
  have u: "unat (of_nat (card ws) :: usize) = card ws"
    using ws fast_okD(4) [OF ok] by (simp add: unat_of_nat take_bit_nat_eq_self)
  then show "(of_nat (card ws) :: usize) = 0 \<longleftrightarrow> ws = {}"
    using ws(1) by (simp add: word_unat_eq_iff)
  have "fast_fits \<lparr>at_locked = (own \<noteq> None), at_waking = (wk \<noteq> None), at_waiters = of_nat (card ws)\<rparr>"
    using u ws fast_okD(4) [OF ok] by (simp add: fast_fits_def)
  then show "fast_decode (fa_atom (futex_atom fx)) =
       \<lparr>at_locked = (own \<noteq> None), at_waking = (wk \<noteq> None), at_waiters = of_nat (card ws)\<rparr>"
    using fast_okD(8) [OF ok] fast_pack.decode_encode by (simp add: fast_count_def)
qed

text \<open>The present atom as a snapshot.\<close>

lemma fast_now:
  assumes ok: "fast_ok f N W pc g fx own wk ws" and s: "futex_atom fx = s"
  shows "at_locked (fast_decode (fa_atom s)) \<longleftrightarrow> own \<noteq> None" "at_waking (fast_decode (fa_atom s)) \<longleftrightarrow> wk \<noteq> None"
    "at_waiters (fast_decode (fa_atom s)) = of_nat (card ws)" "at_waiters (fast_decode (fa_atom s)) = 0 \<longleftrightarrow> ws = {}"
  using fast_bounds [OF ok] s by simp_all

section \<open>Steps\<close>

lemma fu_ok_step:
  assumes "fu_ok xs wk wt u" "fu_owns u \<Longrightarrow> (wk' \<longrightarrow> wk) \<and> (wt \<longrightarrow> wt') \<and> (xs' = []) = (xs = [])"
  shows "fu_ok xs' wk' wt' u"
  using assms by (cases u) (auto simp: fu_ok_def fu_owns_def fast_snap_def Let_def)

lemma fast_pc_ok_step:
  assumes p: "fast_pc_ok f h xs wk wt p"
    and woken: "\<And>w. stage_waiter (r_stage (fast_role p)) = Some w \<Longrightarrow> wkr h w = WakerDone \<Longrightarrow> wkr h' w = WakerDone"
    and snap: "fast_owns p \<Longrightarrow> (wk' \<longrightarrow> wk) \<and> (wt \<longrightarrow> wt') \<and> (xs' = []) = (xs = [])"
  shows "fast_pc_ok f h' xs' wk' wt' p"
proof -
  have wait: "wait_kept f h' q"
    if q: "wait_kept f h q" and "\<And>w. stage_waiter (r_stage (wait_role 0 q)) = Some w \<Longrightarrow> wkr h w = WakerDone \<Longrightarrow> wkr h' w = WakerDone"
    for q
  proof (cases q)
    case (Suspended wait)
    with q show ?thesis by (simp add: wait_kept_def)
  next
    case (Polling wait cx k)
    with that show ?thesis by (auto simp: wait_kept_def)
  next
    case (Dropping w d)
    with q show ?thesis by (simp add: wait_kept_def)
  qed
  show ?thesis
    using assms wait fu_ok_step by (cases p) auto
qed

lemma fast_ok_step:
  assumes ok: "fast_ok f N W pc g fx own wk ws" and N: "t < N"
    and T: "tasks_ok f 1 W' g' fx' (fast_roles N (pc(t := p)))"
    and woken: "\<And>u w. u \<noteq> t \<Longrightarrow> stage_waiter (r_stage (fast_role (pc u))) = Some w \<Longrightarrow>
        wkr (heap W) w = WakerDone \<Longrightarrow> wkr (heap W') w = WakerDone"
    and p: "fast_pc_ok f (heap W') (g_queues g' f ! 0) (wk' \<noteq> None) (ws' \<noteq> {}) p"
    and snap: "\<And>u. u \<noteq> t \<Longrightarrow> own = Some u \<Longrightarrow> (wk' \<noteq> None \<longrightarrow> wk \<noteq> None) \<and> (ws \<noteq> {} \<longrightarrow> ws' \<noteq> {}) \<and>
        (g_queues g' f ! 0 = []) = (g_queues g f ! 0 = [])"
    and ws: "\<And>u. u \<in> ws' \<longleftrightarrow> fast_waits ((pc(t := p)) u)"
    and own: "\<And>u. fast_owns ((pc(t := p)) u) \<longleftrightarrow> own' = Some u"
    and wk: "\<And>u. fast_wakes (heap W') ((pc(t := p)) u) \<longleftrightarrow> wk' = Some u"
    and atom: "fa_atom (futex_atom fx') = fast_count own' wk' ws'"
    and c: "own' = None \<Longrightarrow> ws' \<noteq> {} \<Longrightarrow> wk' \<noteq> None"
  shows "fast_ok f N W' (pc(t := p)) g' fx' own' wk' ws'"
  unfolding fast_ok_def
proof (intro conjI allI impI)
  fix u show "fast_pc_ok f (heap W') (g_queues g' f ! 0) (wk' \<noteq> None) (ws' \<noteq> {}) ((pc(t := p)) u)"
  proof (cases "u = t")
    case False
    have "fast_pc_ok f (heap W') (g_queues g' f ! 0) (wk' \<noteq> None) (ws' \<noteq> {}) (pc u)"
    proof (rule fast_pc_ok_step [OF fast_okD(2) [OF ok] woken [OF False]])
      assume "fast_owns (pc u)"
      then have "own = Some u" using fast_okD(6) [OF ok] by simp
      from snap [OF False this]
      show "(wk' \<noteq> None \<longrightarrow> wk \<noteq> None) \<and> (ws \<noteq> {} \<longrightarrow> ws' \<noteq> {}) \<and> (g_queues g' f ! 0 = []) = (g_queues g f ! 0 = [])" .
    qed
    with False show ?thesis by simp
  qed (use p in simp)
  show "(pc(t := p)) u \<noteq> FIdle \<Longrightarrow> u < N" using N fast_okD(3) [OF ok, of u] by (auto split: if_splits)
  show "u \<in> ws' \<longleftrightarrow> fast_waits ((pc(t := p)) u)" by (rule ws)
  show "fast_owns ((pc(t := p)) u) \<longleftrightarrow> own' = Some u" by (rule own)
  show "fast_wakes (heap W') ((pc(t := p)) u) \<longleftrightarrow> wk' = Some u" by (rule wk)
  show "own' = None \<and> ws' \<noteq> {} \<Longrightarrow> wk' \<noteq> None" using c by simp
qed (rule T, rule fast_okD(4) [OF ok], rule atom)

text \<open>A step that wakes nobody changes the tokens of the mover only.\<close>

lemma fast_wakes_cong:
  assumes "\<And>w. stage_waiter (r_stage (fast_role p)) = Some w \<Longrightarrow> (wkr h' w = WakerDone \<longleftrightarrow> wkr h w = WakerDone)"
  shows "fast_wakes h' p = fast_wakes h p"
  using assms by (cases p) (auto simp: waiter_stage split: fast_unlock.split)

lemma fast_ok_plain:
  assumes ok: "fast_ok f N W pc g fx own wk ws" and N: "t < N"
    and T: "tasks_ok f 1 W' g' fx' (fast_roles N (pc(t := p)))"
    and wkr: "\<And>u w. u \<noteq> t \<Longrightarrow> stage_waiter (r_stage (fast_role (pc u))) = Some w \<Longrightarrow>
        (wkr (heap W') w = WakerDone \<longleftrightarrow> wkr (heap W) w = WakerDone)"
    and p: "fast_pc_ok f (heap W') (g_queues g' f ! 0) (wk' \<noteq> None) (ws' \<noteq> {}) p"
    and snap: "\<And>u. u \<noteq> t \<Longrightarrow> own = Some u \<Longrightarrow> (wk' \<noteq> None \<longrightarrow> wk \<noteq> None) \<and> (ws \<noteq> {} \<longrightarrow> ws' \<noteq> {}) \<and>
        (g_queues g' f ! 0 = []) = (g_queues g f ! 0 = [])"
    and ws: "ws' = (if fast_waits p then insert t ws else ws - {t})"
    and own: "fast_owns p \<longleftrightarrow> own' = Some t" "\<And>u. u \<noteq> t \<Longrightarrow> own' = Some u \<longleftrightarrow> own = Some u"
    and wk: "fast_wakes (heap W') p \<longleftrightarrow> wk' = Some t" "\<And>u. u \<noteq> t \<Longrightarrow> wk' = Some u \<longleftrightarrow> wk = Some u"
    and atom: "fa_atom (futex_atom fx') = fast_count own' wk' ws'"
    and c: "own' = None \<Longrightarrow> ws' \<noteq> {} \<Longrightarrow> wk' \<noteq> None"
  shows "fast_ok f N W' (pc(t := p)) g' fx' own' wk' ws'"
proof (rule fast_ok_step [OF ok N T _ p snap])
  fix u
  show "u \<in> ws' \<longleftrightarrow> fast_waits ((pc(t := p)) u)"
    using ws fast_okD(5) [OF ok, of u] by auto
  show "fast_owns ((pc(t := p)) u) \<longleftrightarrow> own' = Some u"
    using own fast_okD(6) [OF ok, of u] by (cases "u = t") auto
  show "fast_wakes (heap W') ((pc(t := p)) u) \<longleftrightarrow> wk' = Some u"
  proof (cases "u = t")
    case False
    have "fast_wakes (heap W') (pc u) = fast_wakes (heap W) (pc u)"
      by (rule fast_wakes_cong [OF wkr [OF False]])
    then show ?thesis using False wk(2) fast_okD(7) [OF ok, of u] by simp
  qed (use wk(1) in simp)
qed (use wkr atom c in auto)

definition fast_good :: "ptr \<Rightarrow> nat \<Rightarrow> tid \<Rightarrow> (tid \<Rightarrow> fast_pc) \<Rightarrow> (fast_pc \<times> world) res \<Rightarrow> bool" where
  "fast_good f N t pc r \<longleftrightarrow> (\<exists>p W' g' fx' own' wk' ws'. r = Inr (p, W') \<and>
     fast_ok f N W' (pc(t := p)) g' fx' own' wk' ws')"

lemma fast_goodI: "fast_ok f N W' (pc(t := p)) g' fx' own' wk' ws' \<Longrightarrow> fast_good f N t pc (Inr (p, W'))"
  unfolding fast_good_def by blast

text \<open>A step that changes neither the tokens nor the queue.\<close>

lemma fast_quiet:
  assumes ok: "fast_ok f N W pc g fx own wk ws" and N: "t < N"
    and T: "tasks_ok f 1 W' g fx' (fast_roles N (pc(t := p)))"
    and fx': "fa_atom (futex_atom fx') = fa_atom (futex_atom fx)"
    and wkr: "\<And>w. stage_waiter (r_stage (fast_role (pc t))) \<noteq> Some w \<Longrightarrow>
        (wkr (heap W') w = WakerDone \<longleftrightarrow> wkr (heap W) w = WakerDone)"
    and p: "fast_pc_ok f (heap W') (g_queues g f ! 0) (wk \<noteq> None) (ws \<noteq> {}) p"
    and tok: "fast_waits p = fast_waits (pc t)" "fast_owns p = fast_owns (pc t)"
      "fast_wakes (heap W') p = fast_wakes (heap W) (pc t)"
  shows "fast_good f N t pc (Inr (p, W'))"
proof (rule fast_goodI, rule fast_ok_plain [OF ok N T])
  fix u w assume u: "u \<noteq> t" "stage_waiter (r_stage (fast_role (pc u))) = Some w"
  have "u < N" by (rule fast_okD(3) [OF ok]) (use u in auto)
  then have "stage_waiter (r_stage (fast_role (pc t))) \<noteq> Some w"
    using tasks_sole [OF fast_okD(1) [OF ok], of u w t] u N by auto
  then show "wkr (heap W') w = WakerDone \<longleftrightarrow> wkr (heap W) w = WakerDone" by (rule wkr)
next
  show "ws = (if fast_waits p then insert t ws else ws - {t})"
    using tok(1) fast_okD(5) [OF ok, of t] by auto
  show "fast_owns p \<longleftrightarrow> own = Some t" using tok(2) fast_okD(6) [OF ok, of t] by simp
  show "fast_wakes (heap W') p \<longleftrightarrow> wk = Some t" using tok(3) fast_okD(7) [OF ok, of t] by simp
qed (use p fx' fast_okD(8,9) [OF ok] in auto)

section \<open>The first loop of lock\<close>

lemma fast_start_good:
  assumes ok: "fast_ok f N W pc g fx own wk ws" and t: "pc t = FIdle" "t < N"
    and start: "fast_start f cx addr W = Some r"
  shows "fast_good f N t pc r"
proof -
  note T = fast_okD(1) [OF ok]
  let ?p = "FTop addr (futex_atom fx) cx"
  obtain W' where new: "new_waiter W f 0 0 addr = Some W'"
    using start by (auto simp: fast_start_def split: option.splits)
  have nw: "r_stage (fast_roles N pc t) = NoWaiter" using t by simp
  have q: "unat (0 :: usize) < 1" by simp
  note c = tasks_create [OF T nw new q]
  have T': "tasks_ok f 1 W' g fx (fast_roles N (pc(t := ?p)))"
    using c(1) t by (simp add: fast_roles_same)
  have load: "futex_load RelaxedT W' f = Inr (futex_atom fx)"
    using futex_load_eq [OF tasks_okD(2) [OF T']] by simp
  have r: "r = Inr (?p, W')" using start new load by (simp add: fast_start_def)
  show ?thesis unfolding r
  proof (rule fast_goodI, rule fast_ok_plain [OF ok t(2) T'])
    fix u w assume u: "u \<noteq> t" "stage_waiter (r_stage (fast_role (pc u))) = Some w"
    have "u < N" by (rule fast_okD(3) [OF ok]) (use u in auto)
    then have "w \<noteq> addr"
      using stage_alive [OF tasks_stage [OF T refl], of u w] u c(3) by (auto simp: alive_def)
    then show "wkr (heap W') w = WakerDone \<longleftrightarrow> wkr (heap W) w = WakerDone"
      using c(2) by (simp add: wkr_def)
  qed (use fast_okD(5-7) [OF ok, of t] fast_okD(8,9) [OF ok] t in auto)
qed

lemma fast_retry:
  assumes ok: "fast_ok f N W pc g fx own wk ws" and t: "pc t = FTop w s cx" "t < N"
    and T: "tasks_ok f 1 W1 g fx (fast_roles N pc)"
    and wkr: "\<forall>v. wkr (heap W1) v = WakerDone \<longleftrightarrow> wkr (heap W) v = WakerDone"
  shows "fast_good f N t pc (Inr (FTop w (futex_atom fx) cx, W1))"
proof (rule fast_quiet [OF ok t(2)])
  have "fast_roles N (pc(t := FTop w (futex_atom fx) cx)) = fast_roles N pc"
    using t by (simp add: fast_roles_same fun_upd_idem)
  then show "tasks_ok f 1 W1 g fx (fast_roles N (pc(t := FTop w (futex_atom fx) cx)))" using T by simp
qed (use t wkr in auto)

lemma fast_fits_more: "unwrap_add (at_waiters (fast_decode x)) = Inr (at_waiters (fast_decode x) + 1)"
proof -
  have "checked_plus (at_waiters (fast_decode x)) 1 = Inr (at_waiters (fast_decode x) + 1)"
    using fast_decode_fits [of x] by (auto simp: fast_fits_def intro: checked_plus_1)
  then show ?thesis by (simp add: unwrap_add_def)
qed

lemma fast_acquire_good:
  assumes ok: "fast_ok f N W pc g fx own wk ws" and t: "pc t = FTop w s cx" "t < N"
    and s: "\<not> at_locked (fast_decode (fa_atom s))"
  shows "fast_good f N t pc (fast_iter spurious f W w s cx)"
proof -
  note T = fast_okD(1) [OF ok]
  let ?d = "fast_decode (fa_atom s)"
  let ?new = "fast_encode (?d\<lparr>at_locked := True\<rparr>)"
  let ?fx = "fx\<lparr>futex_atom := \<lparr>fa_atom = ?new, fa_inbox = fa_inbox s\<rparr>\<rparr>"
  have r: "fast_iter spurious f W w s cx =
      (if futex_atom fx = s \<and> \<not> spurious then mapR (Pair FHeld) (waiter_drop (put_futex W f ?fx) w)
       else Inr (FTop w (futex_atom fx) cx, W))"
    using s futex_cmpxchg_weak_eq [OF tasks_okD(2) [OF T], of AcquireT RelaxedT spurious s ?new]
    by (cases spurious; cases "futex_atom fx = s") (simp_all add: fast_iter_def inner_def Let_def)
  show ?thesis
  proof (cases "futex_atom fx = s \<and> \<not> spurious")
    case False
    then show ?thesis unfolding r if_not_P [OF False] by (intro fast_retry [OF ok t T]) simp
  next
    case True
    let ?W = "put_futex W f ?fx"
    have s': "futex_atom fx = s" using True by simp
    have own: "own = None" using fast_now(1) [OF ok s'] s by simp
    have T1: "tasks_ok f 1 ?W g ?fx (fast_roles N pc)"
      by (rule tasks_put_atom [OF T]) (use True in auto)
    have st: "r_stage (fast_roles N pc t) = Fresh w 0" using t by simp
    have d: "waiter_drop ?W w = Inr (freed ?W w)"
      "tasks_ok f 1 (freed ?W w) g ?fx (fast_roles N (pc(t := FHeld)))"
      using tasks_destroy [OF T1, of t w 0] st t by (simp_all add: fast_roles_same idle_role_def)
    have "fast_ok f N (freed ?W w) (pc(t := FHeld)) g ?fx (Some t) wk ws"
    proof (rule fast_ok_plain [OF ok t(2) d(2)])
      fix u v assume u: "u \<noteq> t" "stage_waiter (r_stage (fast_role (pc u))) = Some v"
      have "u < N" by (rule fast_okD(3) [OF ok]) (use u in auto)
      then have "v \<noteq> w" using tasks_sole [OF T, of t w u] u t by auto
      then show "wkr (heap (freed ?W w)) v = WakerDone \<longleftrightarrow> wkr (heap W) v = WakerDone"
        by (simp add: wkr_def)
    next
      show "fa_atom (futex_atom ?fx) = fast_count (Some t) wk ws"
        using fast_bounds(3) [OF ok] s' by (simp add: fast_count_def)
    qed (use own fast_okD(5,7) [OF ok, of t] t in auto)
    then show ?thesis unfolding r if_P [OF True] d(1) using fast_goodI by simp
  qed
qed

lemma fast_park_good:
  assumes ok: "fast_ok f N W pc g fx own wk ws" and t: "pc t = FTop w s cx" "t < N"
    and s: "at_locked (fast_decode (fa_atom s))"
  shows "fast_good f N t pc (fast_iter spurious f W w s cx)"
proof -
  note T = fast_okD(1) [OF ok]
  let ?d = "fast_decode (fa_atom s)"
  let ?new = "fast_encode (?d\<lparr>at_waiters := at_waiters ?d + 1\<rparr>)"
  let ?fx = "fx\<lparr>futex_atom := \<lparr>fa_atom = ?new, fa_inbox = w\<rparr>\<rparr>" and ?g = "push_ghost f w g"
  have st: "r_stage (fast_roles N pc t) = Fresh w 0" using t by simp
  have nd: "wkr (heap W) w \<noteq> WakerDone" using tasks_stage [OF T st] by simp
  obtain W1 wait where p: "wait_begin spurious f W w s ?new cx = Inr
      (if futex_atom fx = s \<and> \<not> spurious then (Inr (Suspended wait), put_futex W1 f ?fx)
       else (Inl (futex_atom fx), W1))"
    "wait_ok f wait" "wf_waiter wait = w" "wf_current wait = s"
    "tasks_ok f 1 W1 g fx (fast_roles N pc)"
    "\<forall>v. wkr (heap W1) v = WakerDone \<longleftrightarrow> wkr (heap W) v = WakerDone"
    "s = futex_atom fx \<longrightarrow> tasks_ok f 1 (put_futex W1 f ?fx) ?g ?fx
       ((fast_roles N pc)(t := (fast_roles N pc t)\<lparr>r_stage := Parked w 0\<rparr>))"
    by (rule wait_begin_good [OF T st, of spurious s ?new cx])
  have r: "fast_iter spurious f W w s cx = Inr
      (if futex_atom fx = s \<and> \<not> spurious then (FWait (Suspended wait), put_futex W1 f ?fx)
       else (FTop w (futex_atom fx) cx, W1))"
    using p(1) s by (auto simp: fast_iter_def inner_def Let_def fast_fits_more)
  show ?thesis
  proof (cases "futex_atom fx = s \<and> \<not> spurious")
    case False
    then show ?thesis unfolding r if_not_P [OF False] by (intro fast_retry [OF ok t p(5,6)])
  next
    case True
    let ?p = "FWait (Suspended wait)"
    have s': "futex_atom fx = s" using True by simp
    have own: "own \<noteq> None" using fast_now(1) [OF ok s'] s by simp
    have nt: "t \<notin> ws" using fast_okD(5) [OF ok, of t] t by simp
    have T1: "tasks_ok f 1 (put_futex W1 f ?fx) ?g ?fx (fast_roles N (pc(t := ?p)))"
      using p(7) s' t p(3) by (simp add: fast_roles_same)
    have "fast_ok f N (put_futex W1 f ?fx) (pc(t := ?p)) ?g ?fx own wk (insert t ws)"
    proof (rule fast_ok_plain [OF ok t(2) T1])
      show "fa_atom (futex_atom ?fx) = fast_count own wk (insert t ws)"
        using fast_bounds(1,3) [OF ok] s' nt by (simp add: fast_count_def add.commute)
    qed (use own nd s p(2,3,4,6) fast_okD(6,7) [OF ok, of t] t in
        \<open>auto simp: push_ghost_def wait_kept_def\<close>)
    then show ?thesis unfolding r if_P [OF True] using fast_goodI by simp
  qed
qed

lemma fast_iter_good:
  assumes ok: "fast_ok f N W pc g fx own wk ws" and t: "pc t = FTop w s cx" "t < N"
  shows "fast_good f N t pc (fast_iter spurious f W w s cx)"
  using fast_acquire_good [OF ok t] fast_park_good [OF ok t] by blast

section \<open>Waiting\<close>

text \<open>A waiter that is in no list may be handed from one role to another.\<close>

lemma tasks_move:
  assumes T: "tasks_ok f n W g fx R" and t: "R t = off_role w" "R u = idle_role"
  shows "tasks_ok f n W g fx (R(t := idle_role, u := off_role w))"
proof -
  let ?R = "R(t := idle_role, u := off_role w)"
  have tu: "t \<noteq> u" using t by (auto simp: off_role_def idle_role_def)
  have same: "r_read (?R v) = r_read (R v)" "r_write (?R v) = r_write (R v)" "r_borrow (?R v) = r_borrow (R v)"
    "r_hand (?R v) = r_hand (R v)" "r_list (?R v) = r_list (R v)" for v
    using t by (auto simp: off_role_def idle_role_def)
  have stage: "r_stage (?R v) = (if v = t then NoWaiter else if v = u then Off w else r_stage (R v))" for v
    using tu by (simp add: off_role_def idle_role_def)
  have st: "stages_held (heap W) g f n R" by (rule tasks_okD(6) [OF T])
  have sole: "stage_waiter (r_stage (R v)) = Some x \<Longrightarrow> stage_waiter (r_stage (R v')) = Some x \<Longrightarrow> v = v'" for v v' x
    using st unfolding stages_held_def by blast
  have off: "stage_ok (heap W) g f n (Off w)"
    by (rule stage_okD [OF st, of t]) (simp add: t)
  have uniq: "v = v'"
    if "stage_waiter (r_stage (?R v)) = Some x" "stage_waiter (r_stage (?R v')) = Some x" for v v' x
  proof -
    define swap where "swap y = (if y = u then t else y)" for y
    have "stage_waiter (r_stage (R (swap y))) = Some x" if "stage_waiter (r_stage (?R y)) = Some x" for y
      using that t tu by (simp add: stage swap_def split: if_splits)
    then have "swap v = swap v'" using sole that by blast
    moreover have "v \<noteq> t" "v' \<noteq> t" using that tu by auto
    ultimately show ?thesis by (simp add: swap_def split: if_splits)
  qed
  have sleep: "\<exists>v. sleeper (r_stage (?R v)) = Some x" if x: "g_loc g x \<noteq> Loose" for x
  proof -
    obtain v where v: "sleeper (r_stage (R v)) = Some x" using st x unfolding stages_held_def by blast
    then have "v \<noteq> t" "v \<noteq> u" using t by auto
    then show ?thesis using v stage by auto
  qed
  have "stages_held (heap W) g f n ?R"
    unfolding stages_held_def
  proof (intro conjI allI impI)
    fix v show "stage_ok (heap W) g f n (r_stage (?R v))"
      unfolding stage using off stage_okD [OF st, of v] by simp
  qed (use uniq sleep in blast)+
  then show ?thesis
    using T unfolding tasks_ok_def guards_held_def hands_held_def same by simp
qed

lemma fast_no_writer:
  assumes ok: "fast_ok f N W pc g fx own wk ws"
  shows "\<not> r_write (fast_roles N pc u)"
proof -
  have wait: "\<not> r_write (wait_role 0 p)" if "wait_kept f (heap W) p" for p
    using that by (cases p) (auto simp: wait_kept_def)
  have "\<not> r_write (fast_role (pc v))" for v
    using fast_okD(2) [OF ok, of v] wait by (cases "pc v") (simp_all add: fu_role_def)
  moreover have "\<not> r_write (spare_role (pc v))" for v
    by (cases "pc v") (simp_all add: off_role_def)
  ultimately show ?thesis by (simp add: fast_roles_def)
qed

text \<open>The common part of the two waits.\<close>

lemma fast_wait_out:
  assumes ok: "fast_ok f N W pc g fx own wk ws" and t: "fast_role (pc t) = wait_role 0 p" "t < N"
    and p: "wait_kept f (heap W) p" and act: "act \<noteq> FDrop" and step: "fast_wait_step t act W p = Some r"
  obtains out W' fx' where "r = Inr (out, W')" "tasks_ok f 1 W' g fx' ((fast_roles N pc)(t := out_role 0 out))"
    "out_waiter out = wait_waiter p" "fa_atom (futex_atom fx') = fa_atom (futex_atom fx)"
    "\<And>v. wkr (heap W') v = WakerDone \<longleftrightarrow> wkr (heap W) v = WakerDone"
    "(\<exists>q. out = Still q \<and> wait_kept f (heap W') q) \<or>
     (\<exists>wait cx. out = Returned True wait cx \<and> wf_current wait = wait_current p \<and>
        wkr (heap W) (wait_waiter p) = WakerDone)"
proof -
  have pok: "wait_task_ok f (heap W) p" "\<And>w d. p \<noteq> Dropping w d" "at_locked (fast_decode (fa_atom (wait_current p)))"
    using p by (auto simp: wait_kept_def)
  obtain act' where act': "wait_advance t act' W p = Some r" "act' \<noteq> Abandon"
    using step act by (cases act) (auto simp: fast_wait_step_def)
  have role: "fast_roles N pc t = wait_role 0 p" using t by simp
  from wait_advance_good [OF fast_okD(1) [OF ok] role pok(1) act'(1)]
  obtain out W' g' fx' where r: "r = Inr (out, W')" "tasks_ok f 1 W' g' fx' ((fast_roles N pc)(t := out_role 0 out))"
    "out_ok f (heap W') out" "out_waiter out = wait_waiter p"
    "wait_moves f 0 (wait_waiter p) (fast_roles N pc) W g fx W' g' fx'"
    by (auto simp: wait_good_def)
  have g': "g' = g" using r(5) fast_no_writer [OF ok] by (auto simp: wait_moves_def)
  note mv = wait_moves_lists [OF r(5)]
  note nd = wait_not_dropped [OF act'(1) [unfolded r(1)] act'(2) pok(2)]
  note cur = wait_advance_current [OF act'(1) [unfolded r(1)] pok(1) act'(2) pok(2)]
  show ?thesis
  proof (rule that [OF r(1) _ r(4) mv(3) mv(2)])
    show "tasks_ok f 1 W' g fx' ((fast_roles N pc)(t := out_role 0 out))" using r(2) g' by simp
    show "(\<exists>q. out = Still q \<and> wait_kept f (heap W') q) \<or>
     (\<exists>wait cx. out = Returned True wait cx \<and> wf_current wait = wait_current p \<and>
        wkr (heap W) (wait_waiter p) = WakerDone)"
    proof (cases out)
      case (Still q)
      then show ?thesis using r(3) nd(1) cur pok(3) by (auto simp: wait_kept_def)
    next
      case (Returned b wait cx)
      then show ?thesis using r(3,4) cur mv(2) by auto
    qed (use nd(2) in blast)
  qed
qed

lemma fast_wait_good:
  assumes ok: "fast_ok f N W pc g fx own wk ws" and t: "pc t = FWait p" "t < N" "act \<noteq> FDrop"
    and step: "fast_wait_step t act W p = Some r"
  shows "fast_good f N t pc (bindR r fast_waited)"
proof -
  have role: "fast_role (pc t) = wait_role 0 p" using t by simp
  have pok: "wait_kept f (heap W) p" using fast_okD(2) [OF ok, of t] t by simp
  obtain out W' fx' where o: "r = Inr (out, W')" "tasks_ok f 1 W' g fx' ((fast_roles N pc)(t := out_role 0 out))"
    "out_waiter out = wait_waiter p" "fa_atom (futex_atom fx') = fa_atom (futex_atom fx)"
    "\<And>v. wkr (heap W') v = WakerDone \<longleftrightarrow> wkr (heap W) v = WakerDone"
    "(\<exists>q. out = Still q \<and> wait_kept f (heap W') q) \<or>
     (\<exists>wait cx. out = Returned True wait cx \<and> wf_current wait = wait_current p \<and>
        wkr (heap W) (wait_waiter p) = WakerDone)"
    using fast_wait_out [OF ok role t(2) pok t(3) step] by metis
  from o(6) show ?thesis
  proof (elim disjE exE conjE)
    fix q assume q: "out = Still q" "wait_kept f (heap W') q"
    have "fast_good f N t pc (Inr (FWait q, W'))"
    proof (rule fast_quiet [OF ok t(2)])
      show "tasks_ok f 1 W' g fx' (fast_roles N (pc(t := FWait q)))"
        using o(2) q t by (simp add: fast_roles_same)
    qed (use o(3-5) q t in auto)
    then show ?thesis by (simp add: o(1) q fast_waited_def)
  next
    fix wait cx assume q: "out = Returned True wait cx" "wf_current wait = wait_current p"
      "wkr (heap W) (wait_waiter p) = WakerDone"
    let ?p = "FNext (wf_waiter wait) (wf_current wait) cx"
    have "fast_good f N t pc (Inr (?p, W'))"
    proof (rule fast_quiet [OF ok t(2)])
      have "tasks_ok f 1 W' g fx' ((fast_roles N pc)(t := off_role (wf_waiter wait), t := idle_role, N + t := off_role (wf_waiter wait)))"
        by (rule tasks_move) (use o(2) q t in simp_all)
      then show "tasks_ok f 1 W' g fx' (fast_roles N (pc(t := ?p)))"
        using t by (simp add: fast_roles_both)
    qed (use o(4,5) q t pok in \<open>auto simp: wait_kept_def\<close>)
    then show ?thesis by (simp add: o(1) q fast_waited_def)
  qed
qed

lemma fast_wait2_good:
  assumes ok: "fast_ok f N W pc g fx own wk ws" and t: "pc t = FWait2 w p" "t < N" "act \<noteq> FDrop"
    and step: "fast_wait_step t act W p = Some r"
  shows "fast_good f N t pc (bindR r (fast_waited2 w))"
proof -
  have role: "fast_role (pc t) = wait_role 0 p" using t by simp
  have pok: "wait_kept f (heap W) p" using fast_okD(2) [OF ok, of t] t by simp
  obtain out W' fx' where o: "r = Inr (out, W')" "tasks_ok f 1 W' g fx' ((fast_roles N pc)(t := out_role 0 out))"
    "out_waiter out = wait_waiter p" "fa_atom (futex_atom fx') = fa_atom (futex_atom fx)"
    "\<And>v. wkr (heap W') v = WakerDone \<longleftrightarrow> wkr (heap W) v = WakerDone"
    "(\<exists>q. out = Still q \<and> wait_kept f (heap W') q) \<or>
     (\<exists>wait cx. out = Returned True wait cx \<and> wf_current wait = wait_current p \<and>
        wkr (heap W) (wait_waiter p) = WakerDone)"
    using fast_wait_out [OF ok role t(2) pok t(3) step] by metis
  from o(6) show ?thesis
  proof (elim disjE exE conjE)
    fix q assume q: "out = Still q" "wait_kept f (heap W') q"
    have "fast_good f N t pc (Inr (FWait2 w q, W'))"
    proof (rule fast_quiet [OF ok t(2)])
      show "tasks_ok f 1 W' g fx' (fast_roles N (pc(t := FWait2 w q)))"
        using o(2) q t by (simp add: fast_roles_same)
    qed (use o(3-5) q t in auto)
    then show ?thesis by (simp add: o(1) q fast_waited2_def)
  next
    fix wait cx assume q: "out = Returned True wait cx" "wf_current wait = wait_current p"
      "wkr (heap W) (wait_waiter p) = WakerDone"
    let ?p = "FNext w (wf_current wait) cx" and ?R = "(fast_roles N pc)(t := out_role 0 out)"
    let ?w2 = "wf_waiter wait"
    have st: "r_stage (?R t) = Off ?w2" using q by simp
    have d: "waiter_drop W' ?w2 = Inr (freed W' ?w2)"
      "tasks_ok f 1 (freed W' ?w2) g fx' (?R(t := (?R t)\<lparr>r_stage := NoWaiter\<rparr>))"
      using tasks_destroy [OF o(2), of t ?w2 0] st by auto
    have "fast_good f N t pc (Inr (?p, freed W' ?w2))"
    proof (rule fast_quiet [OF ok t(2)])
      show "tasks_ok f 1 (freed W' ?w2) g fx' (fast_roles N (pc(t := ?p)))"
        using d(2) q t by (simp add: fast_roles_same)
    qed (use o(3-5) q t pok in \<open>auto simp: wait_kept_def waiter_stage wkr_def\<close>)
    then show ?thesis by (simp add: o(1) q fast_waited2_def d(1))
  qed
qed

section \<open>The second loop of lock\<close>

lemma fast_pin_good:
  assumes ok: "fast_ok f N W pc g fx own wk ws" and t: "pc t = FNext w s cx" "t < N"
    and step: "fast_pin f W w s cx addr = Some r"
  shows "fast_good f N t pc r"
proof -
  note T = fast_okD(1) [OF ok]
  let ?p = "FTop2 w addr s cx"
  obtain W' where new: "new_waiter W f 0 0 addr = Some W'" and r: "r = Inr (?p, W')"
    using step by (auto simp: fast_pin_def)
  have nw: "r_stage (fast_roles N pc t) = NoWaiter" using t by simp
  have q: "unat (0 :: usize) < 1" by simp
  note c = tasks_create [OF T nw new q]
  show ?thesis unfolding r
  proof (rule fast_goodI, rule fast_ok_plain [OF ok t(2)])
    show "tasks_ok f 1 W' g fx (fast_roles N (pc(t := ?p)))"
      using c(1) t by (simp add: fast_roles_same)
    fix u v assume u: "u \<noteq> t" "stage_waiter (r_stage (fast_role (pc u))) = Some v"
    have "u < N" by (rule fast_okD(3) [OF ok]) (use u in auto)
    then have "v \<noteq> addr"
      using stage_alive [OF tasks_stage [OF T refl], of u v] u c(3) by (auto simp: alive_def)
    then show "wkr (heap W') v = WakerDone \<longleftrightarrow> wkr (heap W) v = WakerDone"
      using c(2) by (simp add: wkr_def)
  qed (use fast_okD(2,5-7) [OF ok, of t] fast_okD(8,9) [OF ok] t in auto)
qed

lemma fast_retry2:
  assumes ok: "fast_ok f N W pc g fx own wk ws" and t: "pc t = FTop2 w w2 s cx" "t < N"
    and T: "tasks_ok f 1 W1 g fx (fast_roles N pc)"
    and wkr: "\<forall>v. wkr (heap W1) v = WakerDone \<longleftrightarrow> wkr (heap W) v = WakerDone"
  shows "fast_good f N t pc (Inr (FTop2 w w2 (futex_atom fx) cx, W1))"
proof (rule fast_quiet [OF ok t(2)])
  let ?p = "FTop2 w w2 (futex_atom fx) cx"
  have "fast_roles N (pc(t := ?p)) = fast_roles N pc"
    using t by (simp add: fast_roles_same fun_upd_idem)
  then show "tasks_ok f 1 W1 g fx (fast_roles N (pc(t := ?p)))" using T by simp
  have "ws \<noteq> {}" using fast_okD(5) [OF ok, of t] t by auto
  then show "fast_pc_ok f (heap W1) (g_queues g f ! 0) (wk \<noteq> None) (ws \<noteq> {}) ?p"
    using fast_now(4) [OF ok refl] by simp
qed (use t wkr in auto)

text \<open>A woken task that finds the mutex locked gives the wake-up back and waits again.\<close>

lemma fast_park2_good:
  assumes ok: "fast_ok f N W pc g fx own wk ws" and t: "pc t = FTop2 w w2 s cx" "t < N"
    and s: "at_locked (fast_decode (fa_atom s))"
  shows "fast_good f N t pc (fast_iter2 spurious f W w w2 s cx)"
proof -
  note T = fast_okD(1) [OF ok]
  let ?d = "fast_decode (fa_atom s)"
  let ?new = "fast_encode (?d\<lparr>at_waking := False\<rparr>)"
  let ?fx = "fx\<lparr>futex_atom := \<lparr>fa_atom = ?new, fa_inbox = w2\<rparr>\<rparr>" and ?g = "push_ghost f w2 g"
  have st: "r_stage (fast_roles N pc t) = Fresh w2 0" using t by simp
  have nd: "wkr (heap W) w2 \<noteq> WakerDone" using tasks_stage [OF T st] by simp
  obtain W1 wait where p: "wait_begin spurious f W w2 s ?new cx = Inr
      (if futex_atom fx = s \<and> \<not> spurious then (Inr (Suspended wait), put_futex W1 f ?fx)
       else (Inl (futex_atom fx), W1))"
    "wait_ok f wait" "wf_waiter wait = w2" "wf_current wait = s"
    "tasks_ok f 1 W1 g fx (fast_roles N pc)"
    "\<forall>v. wkr (heap W1) v = WakerDone \<longleftrightarrow> wkr (heap W) v = WakerDone"
    "s = futex_atom fx \<longrightarrow> tasks_ok f 1 (put_futex W1 f ?fx) ?g ?fx
       ((fast_roles N pc)(t := (fast_roles N pc t)\<lparr>r_stage := Parked w2 0\<rparr>))"
    by (rule wait_begin_good [OF T st, of spurious s ?new cx])
  have r: "fast_iter2 spurious f W w w2 s cx = Inr
      (if futex_atom fx = s \<and> \<not> spurious then (FWait2 w (Suspended wait), put_futex W1 f ?fx)
       else (FTop2 w w2 (futex_atom fx) cx, W1))"
    using p(1) s by (auto simp: fast_iter2_def inner_def Let_def)
  show ?thesis
  proof (cases "futex_atom fx = s \<and> \<not> spurious")
    case False
    then show ?thesis unfolding r if_not_P [OF False] by (intro fast_retry2 [OF ok t p(5,6)])
  next
    case True
    let ?p = "FWait2 w (Suspended wait)"
    have s': "futex_atom fx = s" using True by simp
    have own: "own \<noteq> None" using fast_now(1) [OF ok s'] s by simp
    have wk: "wk = Some t" and wt: "t \<in> ws" using fast_okD(5,7) [OF ok, of t] t by auto
    have T1: "tasks_ok f 1 (put_futex W1 f ?fx) ?g ?fx (fast_roles N (pc(t := ?p)))"
      using p(7) s' t p(3) by (simp add: fast_roles_same)
    have "fast_ok f N (put_futex W1 f ?fx) (pc(t := ?p)) ?g ?fx own None ws"
    proof (rule fast_ok_plain [OF ok t(2) T1])
      show "fa_atom (futex_atom ?fx) = fast_count own None ws"
        using fast_bounds(3) [OF ok] s' by (simp add: fast_count_def)
    qed (use own nd s wk wt p(2,3,4,6) fast_okD(6) [OF ok, of t] t in
        \<open>auto simp: push_ghost_def wait_kept_def\<close>)
    then show ?thesis unfolding r if_P [OF True] using fast_goodI by simp
  qed
qed

text \<open>The lock of a woken task takes it out of the count and drops both waiters.\<close>

lemma fast_acquire2_good:
  assumes ok: "fast_ok f N W pc g fx own wk ws" and t: "pc t = FTop2 w w2 s cx" "t < N"
    and s: "\<not> at_locked (fast_decode (fa_atom s))"
  shows "fast_good f N t pc (fast_iter2 spurious f W w w2 s cx)"
proof -
  note T = fast_okD(1) [OF ok]
  let ?d = "fast_decode (fa_atom s)"
  let ?new = "fast_encode \<lparr>at_locked = True, at_waking = False, at_waiters = at_waiters ?d - 1\<rparr>"
  let ?fx = "fx\<lparr>futex_atom := \<lparr>fa_atom = ?new, fa_inbox = fa_inbox s\<rparr>\<rparr>"
  have nz: "checked_minus (at_waiters ?d) 1 = Inr (at_waiters ?d - 1)"
    using fast_okD(2) [OF ok, of t] t s by (intro checked_minus_1) simp
  have r: "fast_iter2 spurious f W w w2 s cx =
      (if futex_atom fx = s \<and> \<not> spurious
       then bindR (waiter_drop (put_futex W f ?fx) w2) (\<lambda>W. mapR (Pair FHeld) (waiter_drop W w))
       else Inr (FTop2 w w2 (futex_atom fx) cx, W))"
    using s nz futex_cmpxchg_weak_eq [OF tasks_okD(2) [OF T], of AcquireT RelaxedT spurious s ?new]
    by (cases spurious; cases "futex_atom fx = s") (simp_all add: fast_iter2_def inner_def Let_def)
  show ?thesis
  proof (cases "futex_atom fx = s \<and> \<not> spurious")
    case False
    then show ?thesis unfolding r if_not_P [OF False] by (intro fast_retry2 [OF ok t T]) simp
  next
    case True
    let ?W = "put_futex W f ?fx" and ?R = "fast_roles N pc"
    have s': "futex_atom fx = s" using True by simp
    have own: "own = None" using fast_now(1) [OF ok s'] s by simp
    have wk: "wk = Some t" and wt: "t \<in> ws" using fast_okD(5,7) [OF ok, of t] t by auto
    have T1: "tasks_ok f 1 ?W g ?fx ?R" by (rule tasks_put_atom [OF T]) (use True in auto)
    have st: "r_stage (?R t) = Fresh w2 0" using t by simp
    have d: "waiter_drop ?W w2 = Inr (freed ?W w2)"
      "tasks_ok f 1 (freed ?W w2) g ?fx (?R(t := (?R t)\<lparr>r_stage := NoWaiter\<rparr>))"
      using tasks_destroy [OF T1, of t w2 0] st by auto
    let ?R2 = "?R(t := (?R t)\<lparr>r_stage := NoWaiter\<rparr>)" and ?W2 = "freed (freed ?W w2) w"
    have st2: "r_stage (?R2 (N + t)) = Off w" using t by simp
    have d2: "waiter_drop (freed ?W w2) w = Inr ?W2"
      "tasks_ok f 1 ?W2 g ?fx (?R2(N + t := (?R2 (N + t))\<lparr>r_stage := NoWaiter\<rparr>))"
      using tasks_destroy [OF d(2), of "N + t" w 0] st2 by auto
    have T2: "tasks_ok f 1 ?W2 g ?fx (fast_roles N (pc(t := FHeld)))"
      using d2(2) t by (simp add: fast_roles_both idle_role_def off_role_def)
    have "fast_ok f N ?W2 (pc(t := FHeld)) g ?fx (Some t) None (ws - {t})"
    proof (rule fast_ok_plain [OF ok t(2) T2])
      fix u v assume u: "u \<noteq> t" "stage_waiter (r_stage (fast_role (pc u))) = Some v"
      have uN: "u < N" by (rule fast_okD(3) [OF ok]) (use u in auto)
      then have "v \<noteq> w2" using tasks_sole [OF T, of t w2 u] u t by auto
      moreover have "v \<noteq> w" using tasks_sole [OF T, of "N + t" w u] u t uN by auto
      ultimately show "wkr (heap ?W2) v = WakerDone \<longleftrightarrow> wkr (heap W) v = WakerDone"
        by (simp add: wkr_def)
    next
      have "(of_nat (card ws) :: usize) = 1 + of_nat (card (ws - {t}))"
        unfolding card_Suc_Diff1 [OF fast_bounds(1) [OF ok] wt, symmetric] by (rule of_nat_Suc)
      then show "fa_atom (futex_atom ?fx) = fast_count (Some t) None (ws - {t})"
        using fast_now(3) [OF ok s'] by (simp add: fast_count_def)
    qed (use own wk fast_okD(6) [OF ok, of t] t in auto)
    then show ?thesis unfolding r if_P [OF True] d(1) using fast_goodI by (simp add: d2(1))
  qed
qed

end
