(* ===== verification/Fast_Unlock.thy ===== *)
theory Fast_Unlock imports Fast_Inv begin

text \<open>
  The unlock of \<open>src/fast_mutex.rs\<close> preserves the invariant: where the waiters are when nobody
  has the wake-up, the fast path, the loop of the slow path, and the hand-over of the wake-up to
  the waiter that is popped. The end collects all steps of a task.
\<close>

section \<open>Where the waiters are\<close>

text \<open>Whatever is on a list belongs to a task that waits for it.\<close>

lemma fast_sleeper:
  assumes T: "tasks_ok f 1 W g fx (fast_roles N pc)" and w: "g_loc g w \<noteq> Loose"
  obtains u p where "u < N" "pc u = FWait p \<or> (\<exists>w1. pc u = FWait2 w1 p)" "wait_waiter p = w"
proof -
  obtain u where u: "sleeper (r_stage (fast_roles N pc u)) = Some w"
    using tasks_okD(6) [OF T] w by (auto simp: stages_held_def)
  have "sleeper (r_stage (spare_role p)) = None" for p by (cases p) simp_all
  then have uN: "u < N" using u by (auto simp: fast_roles_def split: if_splits)
  with u have s: "sleeper (r_stage (fast_role (pc u))) = Some w" by simp
  then obtain p where p: "pc u = FWait p \<or> (\<exists>w1. pc u = FWait2 w1 p)"
    by (cases "pc u") (auto simp: fu_role_def)
  then have "wait_waiter p = w" using sleeper_waiter [OF s] waiter_stage by auto
  with that uN p show ?thesis by blast
qed

text \<open>A waiter in the hands of a task goes with the wake-up.\<close>

lemma fast_hand_wakes: "r_hand (fast_roles N pc u) = Some w \<Longrightarrow> u < N \<and> fast_wakes h (pc u)"
proof -
  assume w: "r_hand (fast_roles N pc u) = Some w"
  have "r_hand (spare_role p) = None" for p by (cases p) simp_all
  then have "u < N" using w by (auto simp: fast_roles_def split: if_splits)
  with w show ?thesis by (cases "pc u") (auto simp: fu_simps split: fast_unlock.splits)
qed

lemma fast_no_list: "r_list (fast_roles N pc u) = []"
proof -
  have "r_list (spare_role p) = []" "r_list (fast_role p) = []" for p
    by (cases p; simp add: fu_simps)+
  then show ?thesis by (simp add: fast_roles_def)
qed

text \<open>While nobody has the wake-up, every waiting task is in the inbox or in the queue.\<close>

lemma fast_listed:
  assumes ok: "fast_ok f N W pc g fx own None ws" and ws: "ws \<noteq> {}"
  shows "g_inbox g f \<noteq> [] \<or> g_queues g f ! 0 \<noteq> []"
proof -
  note T = fast_okD(1) [OF ok]
  obtain t where t: "t \<in> ws" using ws by blast
  then have w: "fast_waits (pc t)" "\<not> fast_wakes (heap W) (pc t)"
    using fast_okD(5,7) [OF ok, of t] by simp_all
  have "pc t \<noteq> FIdle" using w(1) by auto
  then have tN: "t < N" by (rule fast_okD(3) [OF ok])
  from w obtain p where p: "fast_role (pc t) = wait_role 0 p" "wkr (heap W) (wait_waiter p) \<noteq> WakerDone"
    "wait_kept f (heap W) p"
    using fast_okD(2) [OF ok, of t] by (cases "pc t") auto
  then have "r_stage (fast_roles N pc t) = Parked (wait_waiter p) 0"
    using tN by (cases p) (auto simp: wait_kept_def)
  from tasks_stage [OF T this] have "listed f 0 (g_loc g (wait_waiter p))"
    using p(2) by (auto simp: parked_ok_def)
  moreover have "g_loc g (wait_waiter p) \<noteq> InHand u" for u
    using tasks_in_hand [OF T, of u] fast_hand_wakes [of N pc u "wait_waiter p" "heap W"] fast_okD(7) [OF ok, of u]
    by auto
  moreover have "g_loc g (wait_waiter p) \<noteq> InList u" for u
    using tasks_in_list [OF T, of "wait_waiter p" u] tasks_list [OF T, of u] fast_no_list [of N pc u] by auto
  ultimately have "g_loc g (wait_waiter p) = Inbox f \<or> g_loc g (wait_waiter p) = InQueue f 0"
    by (auto simp: listed_def)
  then show ?thesis
    using tasks_in_queue [OF T, of 0 "wait_waiter p"] world_okD(3) [OF tasks_okD(1,2) [OF T]]
    by (auto simp: inbox_ok_def)
qed

text \<open>The present atom as the snapshot of the owner.\<close>

lemma fast_load:
  assumes ok: "fast_ok f N W pc g fx own wk ws"
  shows "fast_snap (g_queues g f ! 0) (wk \<noteq> None) (ws \<noteq> {}) (futex_atom fx)"
proof -
  have "g_queues g f ! 0 \<noteq> []" if "wk = None" "ws \<noteq> {}" "fa_inbox (futex_atom fx) = null"
    using fast_listed [OF ok [unfolded that(1)] that(2)] that(3)
      inbox_null [OF tasks_okD(1,2) [OF fast_okD(1) [OF ok]]] by simp
  then show ?thesis
    using fast_now(2,4) [OF ok refl] unfolding fast_snap_def Let_def by blast
qed

lemma fast_load_slow:
  assumes ok: "fast_ok f N W pc g fx own wk ws"
    and s: "fast_snap xs (wk \<noteq> None) (ws \<noteq> {}) s" "fast_slow s"
  shows "fast_slow (futex_atom fx)"
  using fast_now(2,4) [OF ok refl] s by (simp add: fast_slow_def fast_snap_def Let_def)

lemma fast_slowD:
  assumes "fast_snap xs (wk \<noteq> None) (ws \<noteq> {}) s" "fast_slow s"
  shows "wk = None" "ws \<noteq> {}" "fa_inbox s = null \<Longrightarrow> xs \<noteq> []"
  using assms by (auto simp: fast_slow_def fast_snap_def Let_def)

section \<open>The way to the queue\<close>

abbreviation fu_next :: "fast_unlock \<times> world \<Rightarrow> fast_pc \<times> world" where
  "fu_next \<equiv> \<lambda>(u, W). (if u = FUDone then FIdle else FUnlock u, W)"

text \<open>The steps of an unlock that change neither the tokens nor the lists.\<close>

lemma fu_quiet:
  assumes ok: "fast_ok f N W pc g fx own wk ws" and t: "pc t = FUnlock u" "t < N"
    and T: "tasks_ok f 1 W' g fx' ((fast_roles N pc)(t := fu_role u'))"
    and same: "futex_atom fx' = futex_atom fx" "heap W' = heap W"
    and u': "fu_ok (g_queues g f ! 0) (wk \<noteq> None) (ws \<noteq> {}) u'" "u' \<noteq> FUDone"
    and tok: "fu_owns u' = fu_owns u" "fast_wakes (heap W) (FUnlock u') = fast_wakes (heap W) (FUnlock u)"
  shows "fast_good f N t pc (mapR fu_next (Inr (u', W')))"
proof -
  have "fast_good f N t pc (Inr (FUnlock u', W'))"
  proof (rule fast_quiet [OF ok t(2)])
    show "tasks_ok f 1 W' g fx' (fast_roles N (pc(t := FUnlock u')))"
      using T t by (simp add: fast_roles_same)
  qed (use same u' tok t in simp_all)
  then show ?thesis using u'(2) by simp
qed

lemma fast_free_queue:
  assumes ok: "fast_ok f N W pc g fx own None ws" and t: "pc t = FUnlock (FUBorrow s)" "own = Some t"
  shows "\<not> r_borrow (fast_roles N pc u)"
proof
  assume b: "r_borrow (fast_roles N pc u)"
  have "\<not> r_borrow (spare_role p)" for p by (cases p) simp_all
  then have "r_borrow (fast_role (pc u))" using b by (auto simp: fast_roles_def split: if_splits)
  then obtain v where v: "pc u = FUnlock v" "r_borrow (fu_role v)"
    by (cases "pc u") auto
  then have "v = FUUnborrow \<or> fu_owns v \<or> fast_wakes (heap W) (pc u)"
    by (cases v) (simp_all add: fu_simps fu_owns_def)
  then show False
    using fast_okD(2,6,7) [OF ok, of u] v t by (auto simp: fu_ok_def fu_simps)
qed

lemma fu_guard:
  assumes ok: "fast_ok f N W pc g fx own wk ws" and t: "pc t = FUnlock u" "t < N"
    and u: "u = FULoad \<or> (\<exists>s. u = FULock s) \<or> (\<exists>s. u = FUBorrow s) \<or> (\<exists>w. u = FUDrop w) \<or> (\<exists>k. u = FUCall k)"
    and step: "fast_unlock_step spurious t f W u = Some r"
  shows "fast_good f N t pc (mapR fu_next r)"
proof -
  note T = fast_okD(1) [OF ok]
  let ?R = "fast_roles N pc" and ?xs = "g_queues g f ! 0"
  have uok: "fu_ok ?xs (wk \<noteq> None) (ws \<noteq> {}) u" using fast_okD(2) [OF ok, of t] t by simp
  have role: "?R t = fu_role u" using t by simp
  from u show ?thesis
  proof (elim disjE exE)
    assume u: "u = FULoad"
    have "fast_good f N t pc (mapR fu_next (Inr (FUTry (futex_atom fx), W)))"
    proof (rule fu_quiet [OF ok t])
      show "tasks_ok f 1 W g fx (?R(t := fu_role (FUTry (futex_atom fx))))"
        by (rule same_role [OF T]) (simp add: role u fu_simps)
    qed (use u fast_load [OF ok] in \<open>simp_all add: fu_ok_def fu_owns_def\<close>)
    then show ?thesis
      using step futex_load_eq [OF tasks_okD(2) [OF T], of RelaxedT] by (auto simp: fast_unlock_step_def u)
  next
    fix s assume u: "u = FULock s"
    obtain r' where r': "futex_lock t W f = Some r'" "r = mapR (Pair (FUBorrow s)) r'"
      using step by (auto simp: fast_unlock_step_def u)
    obtain fx' where l: "r' = Inr (put_futex W f fx')" "futex_atom fx' = futex_atom fx"
      "tasks_ok f 1 (put_futex W f fx') g fx' (?R(t := (?R t)\<lparr>r_read := True\<rparr>))"
      by (rule tasks_lock [OF T r'(1)])
    have role': "(?R t)\<lparr>r_read := True\<rparr> = fu_role (FUBorrow s)" by (simp add: role u fu_simps)
    have "fast_good f N t pc (mapR fu_next (Inr (FUBorrow s, put_futex W f fx')))"
      by (rule fu_quiet [OF ok t l(3) [unfolded role']]) (use u uok l(2) in \<open>simp_all add: fu_ok_def fu_owns_def\<close>)
    then show ?thesis by (simp add: r'(2) l(1))
  next
    fix s assume u: "u = FUBorrow s"
    have slow: "fast_snap ?xs (wk \<noteq> None) (ws \<noteq> {}) s" "fast_slow s" using uok u by (simp_all add: fu_ok_def)
    have own: "own = Some t" using fast_okD(6) [OF ok, of t] t u by (simp add: fu_owns_def)
    note free = fast_free_queue [OF ok [unfolded fast_slowD(1) [OF slow]] t(1) [unfolded u] own]
    obtain fx' where l: "queue_lock W f = Inr (put_futex W f fx')" "futex_atom fx' = futex_atom fx"
      "tasks_ok f 1 (put_futex W f fx') g fx' (?R(t := (?R t)\<lparr>r_borrow := True\<rparr>))"
      by (rule tasks_queue_lock [OF T free])
    let ?u = "FULoop (?xs \<noteq> []) s"
    have role': "(?R t)\<lparr>r_borrow := True\<rparr> = fu_role ?u" by (simp add: role u fu_simps)
    have z: "unat (0 :: usize) < 1" by simp
    have "r = Inr (?u, put_futex W f fx')"
      using step l(1) tasks_is_empty [OF l(3) z] by (auto simp: fast_unlock_step_def u)
    moreover have "fast_good f N t pc (mapR fu_next (Inr (?u, put_futex W f fx')))"
      by (rule fu_quiet [OF ok t l(3) [unfolded role']]) (use u slow l(2) in \<open>simp_all add: fu_ok_def fu_owns_def\<close>)
    ultimately show ?thesis by simp
  next
    fix w assume u: "u = FUDrop w"
    have b: "r_borrow (?R t)" by (simp add: role u fu_simps)
    obtain fx' where l: "queue_unlock W f = Inr (put_futex W f fx')" "futex_atom fx' = futex_atom fx"
      "tasks_ok f 1 (put_futex W f fx') g fx' (?R(t := (?R t)\<lparr>r_borrow := False\<rparr>))"
      by (rule tasks_queue_unlock [OF T b])
    have role': "(?R t)\<lparr>r_borrow := False\<rparr> = fu_role (FUWake w)" by (simp add: role u fu_simps)
    have "r = Inr (FUWake w, put_futex W f fx')" using step l(1) by (auto simp: fast_unlock_step_def u)
    moreover have "fast_good f N t pc (mapR fu_next (Inr (FUWake w, put_futex W f fx')))"
      by (rule fu_quiet [OF ok t l(3) [unfolded role']]) (use u l(2) in \<open>simp_all add: fu_ok_def fu_owns_def\<close>)
    ultimately show ?thesis by simp
  next
    fix k assume u: "u = FUCall k"
    have "fast_good f N t pc (mapR fu_next (Inr (FUUnlock, wake_call W k)))"
    proof (rule fu_quiet [OF ok t])
      show "tasks_ok f 1 (wake_call W k) g fx (?R(t := fu_role FUUnlock))"
        by (rule same_role [OF tasks_ok_cong [OF T]]) (simp_all add: role u fu_simps)
    qed (use u in \<open>simp_all add: fu_ok_def fu_owns_def\<close>)
    then show ?thesis using step by (auto simp: fast_unlock_step_def u)
  qed
qed

section \<open>The fast path\<close>

text \<open>
  With a wake-up under way, or with nobody waiting, the mutex is released and that is all.
\<close>

lemma fu_try:
  assumes ok: "fast_ok f N W pc g fx own wk ws" and t: "pc t = FUnlock (FUTry s)" "t < N"
  shows "fast_good f N t pc (mapR fu_next (fast_unlock_try spurious f W s))"
proof -
  note T = fast_okD(1) [OF ok]
  let ?d = "fast_decode (fa_atom s)" and ?R = "fast_roles N pc"
  have role: "?R t = fu_role (FUTry s)" using t by simp
  have snap: "fast_snap (g_queues g f ! 0) (wk \<noteq> None) (ws \<noteq> {}) s"
    using fast_okD(2) [OF ok, of t] t by (simp add: fu_ok_def)
  show ?thesis
  proof (cases "at_waking ?d \<or> at_waiters ?d = 0")
    case slow: False
    have "fast_good f N t pc (mapR fu_next (Inr (FULock s, W)))"
    proof (rule fu_quiet [OF ok t])
      show "tasks_ok f 1 W g fx (?R(t := fu_role (FULock s)))"
        by (rule same_role [OF T]) (simp add: role fu_simps)
    qed (use slow snap in \<open>simp_all add: fu_ok_def fu_owns_def fast_slow_def\<close>)
    then show ?thesis using slow by (simp add: fast_unlock_try_def inner_def Let_def)
  next
    case fast: True
    let ?new = "fast_encode (?d\<lparr>at_locked := False\<rparr>)"
    let ?fx = "fx\<lparr>futex_atom := \<lparr>fa_atom = ?new, fa_inbox = fa_inbox s\<rparr>\<rparr>"
    have r: "fast_unlock_try spurious f W s =
        (if futex_atom fx = s \<and> \<not> spurious then Inr (FUDone, put_futex W f ?fx)
         else Inr (FUTry (futex_atom fx), W))"
      using fast futex_cmpxchg_weak_eq [OF tasks_okD(2) [OF T], of ReleaseT RelaxedT spurious s ?new]
      by (cases spurious; cases "futex_atom fx = s") (simp_all add: fast_unlock_try_def inner_def Let_def)
    show ?thesis
    proof (cases "futex_atom fx = s \<and> \<not> spurious")
      case False
      have "fast_good f N t pc (mapR fu_next (Inr (FUTry (futex_atom fx), W)))"
      proof (rule fu_quiet [OF ok t])
        show "tasks_ok f 1 W g fx (?R(t := fu_role (FUTry (futex_atom fx))))"
          by (rule same_role [OF T]) (simp add: role fu_simps)
      qed (use fast_load [OF ok] in \<open>simp_all add: fu_ok_def fu_owns_def\<close>)
      then show ?thesis unfolding r if_not_P [OF False] .
    next
      case True
      let ?W = "put_futex W f ?fx"
      have s': "futex_atom fx = s" using True by simp
      have own: "own = Some t" using fast_okD(6) [OF ok, of t] t by (simp add: fu_owns_def)
      have T1: "tasks_ok f 1 ?W g ?fx (fast_roles N (pc(t := FIdle)))"
        unfolding fast_roles_same [OF t(2), of FIdle pc, unfolded t(1), simplified]
        by (rule same_role [OF tasks_put_atom [OF T]]) (use True in \<open>simp_all add: role fu_simps\<close>)
      have "fast_ok f N ?W (pc(t := FIdle)) g ?fx None wk ws"
      proof (rule fast_ok_plain [OF ok t(2) T1])
        show "fa_atom (futex_atom ?fx) = fast_count None wk ws"
          using fast_bounds(3) [OF ok] s' by (simp add: fast_count_def)
        show "wk \<noteq> None" if "ws \<noteq> {}"
          using fast fast_now(2,4) [OF ok s'] that by blast
      qed (use own fast_okD(5,7) [OF ok, of t] t in auto)
      then show ?thesis unfolding r if_P [OF True] using fast_goodI by simp
    qed
  qed
qed

section \<open>The slow path\<close>

text \<open>A failed compare-exchange takes the present atom as the new snapshot.\<close>

lemma fu_again:
  assumes ok: "fast_ok f N W pc g fx own wk ws" and t: "pc t = FUnlock (FULoop had s)" "t < N"
  shows "fast_good f N t pc (mapR fu_next (Inr (FULoop had (futex_atom fx), W)))"
proof -
  have u: "fu_ok (g_queues g f ! 0) (wk \<noteq> None) (ws \<noteq> {}) (FULoop had s)"
    using fast_okD(2) [OF ok, of t] t by simp
  show ?thesis
  proof (rule fu_quiet [OF ok t])
    show "tasks_ok f 1 W g fx ((fast_roles N pc)(t := fu_role (FULoop had (futex_atom fx))))"
      by (rule same_role [OF fast_okD(1) [OF ok]]) (use t in \<open>simp add: fu_simps\<close>)
  qed (use u fast_load [OF ok] fast_load_slow [OF ok] in \<open>auto simp: fu_ok_def fu_owns_def\<close>)
qed

text \<open>
  The owner has released the mutex and announced a wake-up; the queue is not empty, so the pop
  succeeds and the popped waiter carries the wake-up.
\<close>

lemma fu_pop:
  assumes ok: "fast_ok f N W pc g fx own wk ws" and t: "pc t = FUnlock (FULoop had s)" "t < N"
    and s: "fa_atom (futex_atom fx) = fa_atom s"
    and T1: "tasks_ok f 1 W1 g1 fx1 (fast_roles N pc)"
    and a1: "fa_atom (futex_atom fx1) = fast_encode ((inner fast_decode s)\<lparr>at_locked := False, at_waking := True\<rparr>)"
    and w1: "\<And>v. wkr (heap W1) v = wkr (heap W) v" and q1: "g_queues g1 f ! 0 \<noteq> []"
  shows "fast_good f N t pc (mapR fu_next (fast_unlock_pop f W1 (inner fast_decode s)))"
proof -
  have u: "fast_snap (g_queues g f ! 0) (wk \<noteq> None) (ws \<noteq> {}) s" "fast_slow s"
    using fast_okD(2) [OF ok, of t] t by (simp_all add: fu_ok_def)
  have own: "own = Some t" using fast_okD(6) [OF ok, of t] t by (simp add: fu_owns_def)
  have z: "unat (0 :: usize) < 1" "unat (0 :: usize) = 0" by simp_all
  obtain w xs where q: "g_queues g1 f ! unat (0 :: usize) = w # xs" using q1 by (cases "g_queues g1 f ! 0") auto
  have R: "r_read (fast_roles N pc t)" "r_hand (fast_roles N pc t) = None" using t by (simp_all add: fu_simps)
  obtain h2 fx2 where p: "queue_pop W1 f 0 = Inr (Some w, put_futex (W1\<lparr>heap := h2\<rparr>) f fx2)"
    "futex_atom fx2 = futex_atom fx1" "\<And>v. wkr h2 v = wkr (heap W1) v"
    "tasks_ok f 1 (put_futex (W1\<lparr>heap := h2\<rparr>) f fx2) (pop_ghost t f (unat (0 :: usize)) g1) fx2
       ((fast_roles N pc)(t := (fast_roles N pc t)\<lparr>r_hand := Some w\<rparr>))"
    by (rule tasks_pop_Cons [OF T1 z(1) R q]) (rule that)
  let ?W = "put_futex (W1\<lparr>heap := h2\<rparr>) f fx2" and ?p = "FUnlock (FUDrop w)"
  have role: "(fast_roles N pc)(t := (fast_roles N pc t)\<lparr>r_hand := Some w\<rparr>) = fast_roles N (pc(t := ?p))"
    using t by (simp add: fast_roles_same fu_simps)
  have "fast_ok f N ?W (pc(t := ?p)) (pop_ghost t f (unat (0 :: usize)) g1) fx2 None (Some t) ws"
  proof (rule fast_ok_plain [OF ok t(2) p(4) [unfolded role]])
    show "fa_atom (futex_atom fx2) = fast_count None (Some t) ws"
      using a1 p(2) fast_bounds(3) [OF ok] s by (simp add: fast_count_def inner_def)
  qed (use own p(3) w1 fast_slowD(1) [OF u] fast_okD(5) [OF ok, of t] t in
      \<open>auto simp: fu_ok_def fu_owns_def\<close>)
  moreover have "fast_unlock_pop f W1 (inner fast_decode s) = Inr (FUDrop w, ?W)"
    using u(2) p(1) by (simp add: fast_unlock_pop_def fast_slow_def inner_def)
  ultimately show ?thesis using fast_goodI by simp
qed

lemma fu_loop:
  assumes ok: "fast_ok f N W pc g fx own wk ws" and t: "pc t = FUnlock (FULoop had s)" "t < N"
  shows "fast_good f N t pc (mapR fu_next (fast_unlock_loop spurious f W had s))"
proof -
  note T = fast_okD(1) [OF ok]
  let ?d = "inner fast_decode s"
  let ?new = "fast_encode (?d\<lparr>at_locked := False, at_waking := True\<rparr>)"
  have u: "fast_snap (g_queues g f ! 0) (wk \<noteq> None) (ws \<noteq> {}) s" "fast_slow s" "had = (g_queues g f ! 0 \<noteq> [])"
    using fast_okD(2) [OF ok, of t] t by (simp_all add: fu_ok_def)
  show ?thesis
  proof (cases had)
    case True
    let ?fx = "fx\<lparr>futex_atom := \<lparr>fa_atom = ?new, fa_inbox = fa_inbox s\<rparr>\<rparr>"
    have r: "fast_unlock_loop spurious f W had s =
        (if futex_atom fx = s \<and> \<not> spurious then fast_unlock_pop f (put_futex W f ?fx) ?d
         else Inr (FULoop had (futex_atom fx), W))"
      using True futex_cmpxchg_weak_eq [OF tasks_okD(2) [OF T], of ReleaseT RelaxedT spurious s ?new]
      by (cases spurious; cases "futex_atom fx = s") (simp_all add: fast_unlock_loop_def Let_def)
    show ?thesis
    proof (cases "futex_atom fx = s \<and> \<not> spurious")
      case False
      then show ?thesis unfolding r if_not_P [OF False] by (intro fu_again [OF ok t])
    next
      case cas: True
      have "tasks_ok f 1 (put_futex W f ?fx) g ?fx (fast_roles N pc)"
        by (rule tasks_put_atom [OF T]) (use cas in auto)
      then show ?thesis unfolding r if_P [OF cas] using cas u(3) True by (intro fu_pop [OF ok t]) auto
    qed
  next
    case False
    then have new: "has_new_waiters s"
      using u(3) fast_slowD(3) [OF u(1,2)] by (auto simp: has_new_waiters_def)
    have relaxed: "cas_orders s (ORDERING RelaxedT)" for s by simp
    obtain h' qs' where e: "cmpxchg_enqueue_weak spurious AcqRelT RelaxedT W f s ?new = Inr
        (if futex_atom fx = s \<and> \<not> spurious
         then (True, s, put_futex (W\<lparr>heap := h'\<rparr>) f
                 (fx\<lparr>futex_atom := \<lparr>fa_atom = ?new, fa_inbox = null\<rparr>, queues := qs'\<rparr>))
         else (False, futex_atom fx, W))"
      "\<And>v. wkr h' v = wkr (heap W) v"
      "tasks_ok f 1 (put_futex (W\<lparr>heap := h'\<rparr>) f
          (fx\<lparr>futex_atom := \<lparr>fa_atom = ?new, fa_inbox = null\<rparr>, queues := qs'\<rparr>))
        (enqueue_ghost (heap W) f g)
        (fx\<lparr>futex_atom := \<lparr>fa_atom = ?new, fa_inbox = null\<rparr>, queues := qs'\<rparr>) (fast_roles N pc)"
      using tasks_cmpxchg_enqueue [OF T relaxed, of spurious AcqRelT s ?new] by blast
    let ?fx = "fx\<lparr>futex_atom := \<lparr>fa_atom = ?new, fa_inbox = null\<rparr>, queues := qs'\<rparr>"
    let ?W = "put_futex (W\<lparr>heap := h'\<rparr>) f ?fx" and ?g = "enqueue_ghost (heap W) f g"
    have r: "fast_unlock_loop spurious f W had s =
        (if futex_atom fx = s \<and> \<not> spurious then fast_unlock_pop f ?W ?d
         else Inr (FULoop had (futex_atom fx), W))"
      using False new e(1) by (simp add: fast_unlock_loop_def Let_def)
    show ?thesis
    proof (cases "futex_atom fx = s \<and> \<not> spurious")
      case False
      then show ?thesis unfolding r if_not_P [OF False] by (intro fu_again [OF ok t])
    next
      case True
      have "g_inbox g f \<noteq> []"
        using new inbox_null [OF tasks_okD(1,2) [OF T]] True by (simp add: has_new_waiters_def)
      then obtain v where "v \<in> set (g_inbox g f)" by (cases "g_inbox g f") auto
      then have v: "g_loc g v = Inbox f"
        using world_okD(3) [OF tasks_okD(1,2) [OF T]] by (auto simp: inbox_ok_def)
      then have "que (heap W) v = 0" using tasks_place [OF T, of v] by (auto simp: parked_ok_def)
      then have "g_loc ?g v = InQueue f 0" using v by (simp add: enqueue_ghost_def)
      then have "v \<in> set (g_queues ?g f ! 0)" using tasks_in_queue [OF e(3), of 0 v] by simp
      then have "g_queues ?g f ! 0 \<noteq> []" by auto
      then show ?thesis unfolding r if_P [OF True] using True e(2) by (intro fu_pop [OF ok t _ e(3)]) auto
    qed
  qed
qed

section \<open>The wake-up\<close>

text \<open>The swap of the waker of the popped waiter gives the wake-up to the task that waits with it.\<close>

lemma fu_wake:
  assumes ok: "fast_ok f N W pc g fx own wk ws" and t: "pc t = FUnlock (FUWake w)" "t < N"
  shows "fast_good f N t pc (mapR fu_next (bindR (wake_swap W w) (\<lambda>(k, W). Inr (FUCall k, W))))"
proof -
  note T = fast_okD(1) [OF ok]
  let ?W = "W\<lparr>heap := put_waker (heap W) w WakerDone\<rparr>" and ?g = "wake_ghost w g" and ?R = "fast_roles N pc"
  have hand: "r_hand (?R t) = Some w" using t by (simp add: fu_simps)
  obtain k where k: "wake_swap W w = Inr (k, ?W)" "wkr (heap W) w = WakerWaiting k"
    "tasks_ok f 1 ?W ?g fx (?R(t := (?R t)\<lparr>r_hand := None\<rparr>))"
    by (rule tasks_wake [OF T hand refl])
  let ?p = "FUnlock (FUCall k)"
  have at: "g_loc g w = InHand t" using tasks_in_hand [OF T] hand by blast
  obtain u p where u: "u < N" "pc u = FWait p \<or> (\<exists>w1. pc u = FWait2 w1 p)" "wait_waiter p = w"
    by (rule fast_sleeper [OF T, of w]) (use at in auto)
  have wk: "wk = Some t" using fast_okD(7) [OF ok, of t] t by simp
  have ut: "u \<noteq> t" using u(2) t(1) by auto
  have alive: "alive (heap W) w" using world_ok_alive [OF tasks_okD(1) [OF T], of w] at by simp
  have wkr: "wkr (heap ?W) v = (if v = w then WakerDone else wkr (heap W) v)" for v
    using alive by (simp add: put_waker_reads)
  have role: "?R(t := (?R t)\<lparr>r_hand := None\<rparr>) = fast_roles N (pc(t := ?p))"
    using t by (simp add: fast_roles_same fu_simps)
  have "fast_ok f N ?W (pc(t := ?p)) ?g fx own (Some u) ws"
  proof (rule fast_ok_step [OF ok t(2) k(3) [unfolded role]])
    fix v
    show "v \<in> ws \<longleftrightarrow> fast_waits ((pc(t := ?p)) v)" using fast_okD(5) [OF ok, of v] t by auto
    show "fast_owns ((pc(t := ?p)) v) \<longleftrightarrow> own = Some v"
      using fast_okD(6) [OF ok, of v] t by (auto simp: fu_owns_def)
    show "fast_wakes (heap ?W) ((pc(t := ?p)) v) \<longleftrightarrow> Some u = Some v"
    proof (cases "v = t \<or> v = u")
      case False
      have "fast_wakes (heap ?W) (pc v) = fast_wakes (heap W) (pc v)"
      proof (rule fast_wakes_cong)
        fix x assume x: "stage_waiter (r_stage (fast_role (pc v))) = Some x"
        have vN: "v < N" by (rule fast_okD(3) [OF ok]) (use x in auto)
        have "stage_waiter (r_stage (?R u)) = Some w" using u waiter_stage by auto
        from tasks_sole [OF T this, of v] have "x \<noteq> w" using x vN False by auto
        then show "wkr (heap ?W) x = WakerDone \<longleftrightarrow> wkr (heap W) x = WakerDone" using wkr by simp
      qed
      then show ?thesis using fast_okD(7) [OF ok, of v] False wk by auto
    qed (use u ut wkr in auto)
  next
    show "fa_atom (futex_atom fx) = fast_count own (Some u) ws"
      using fast_okD(8) [OF ok] wk by (simp add: fast_count_def)
  qed (use wkr wk in \<open>auto simp: wake_ghost_def fu_ok_def\<close>)
  then show ?thesis using fast_goodI by (simp add: k(1))
qed

lemma fu_leave:
  assumes ok: "fast_ok f N W pc g fx own wk ws" and t: "pc t = FUnlock FUUnlock" "t < N"
  shows "fast_good f N t pc (mapR fu_next (mapR (Pair FUDone) (futex_unlock t W f)))"
proof -
  note T = fast_okD(1) [OF ok]
  have R: "r_hand (fast_roles N pc t) = None" "r_list (fast_roles N pc t) = []"
    using t by (simp_all add: fu_simps)
  obtain fx' where l: "futex_unlock t W f = Inr (put_futex W f fx')" "futex_atom fx' = futex_atom fx"
    "tasks_ok f 1 (put_futex W f fx') g fx' ((fast_roles N pc)(t := (fast_roles N pc t)\<lparr>r_read := False\<rparr>))"
    by (rule tasks_unlock [OF T R])
  have "fast_good f N t pc (Inr (FIdle, put_futex W f fx'))"
  proof (rule fast_quiet [OF ok t(2)])
    show "tasks_ok f 1 (put_futex W f fx') g fx' (fast_roles N (pc(t := FIdle)))"
      using l(3) t by (simp add: fast_roles_same fu_simps)
  qed (use l(2) t in \<open>simp_all add: fu_owns_def\<close>)
  then show ?thesis by (simp add: l(1))
qed

lemma fu_good:
  assumes ok: "fast_ok f N W pc g fx own wk ws" and t: "pc t = FUnlock u" "t < N"
    and step: "fast_unlock_step spurious t f W u = Some r"
  shows "fast_good f N t pc (mapR fu_next r)"
proof -
  have "u \<noteq> FUUnborrow" using fast_okD(2) [OF ok, of t] t by (auto simp: fu_ok_def)
  then consider "u = FULoad \<or> (\<exists>s. u = FULock s) \<or> (\<exists>s. u = FUBorrow s) \<or> (\<exists>w. u = FUDrop w) \<or> (\<exists>k. u = FUCall k)"
    | s where "u = FUTry s" | had s where "u = FULoop had s" | w where "u = FUWake w" | "u = FUUnlock"
    using step by (cases u) (auto simp: fast_unlock_step_def)
  then show ?thesis
  proof cases
    case 1
    show ?thesis by (rule fu_guard [OF ok t 1 step])
  next
    case (2 s)
    then show ?thesis using fu_try [OF ok t(1) [unfolded 2] t(2), of spurious] step by (auto simp: fast_unlock_step_def)
  next
    case (3 had s)
    then show ?thesis using fu_loop [OF ok t(1) [unfolded 3] t(2), of spurious] step by (auto simp: fast_unlock_step_def)
  next
    case (4 w)
    then show ?thesis using fu_wake [OF ok t(1) [unfolded 4] t(2)] step by (auto simp: fast_unlock_step_def)
  next
    case 5
    then show ?thesis using fu_leave [OF ok t(1) [unfolded 5] t(2)] step by (auto simp: fast_unlock_step_def)
  qed
qed

section \<open>All steps\<close>

lemma fast_iter2_good:
  assumes ok: "fast_ok f N W pc g fx own wk ws" and t: "pc t = FTop2 w w2 s cx" "t < N"
  shows "fast_good f N t pc (fast_iter2 spurious f W w w2 s cx)"
  using fast_park2_good [OF ok t] fast_acquire2_good [OF ok t] by blast

lemma fast_drop_guard:
  assumes ok: "fast_ok f N W pc g fx own wk ws" and t: "pc t = FHeld" "t < N"
  shows "fast_good f N t pc (Inr (FUnlock FULoad, W))"
proof (rule fast_quiet [OF ok t(2)])
  show "tasks_ok f 1 W g fx (fast_roles N (pc(t := FUnlock FULoad)))"
    unfolding fast_roles_same [OF t(2), of "FUnlock FULoad" pc, unfolded t(1), simplified]
    by (rule same_role [OF fast_okD(1) [OF ok]]) (use t in \<open>simp add: fu_simps\<close>)
qed (use t in \<open>simp_all add: fu_ok_def fu_owns_def\<close>)

lemma fast_task_good:
  assumes ok: "fast_ok f N W pc g fx own wk ws" and t: "t < N" "act = FDrop \<Longrightarrow> pc t = FHeld"
    and step: "fast_task f t act W (pc t) = Some r"
  shows "fast_good f N t pc r"
proof (cases "pc t")
  case FIdle
  then show ?thesis
    using step fast_start_good [OF ok FIdle t(1)] by (cases act) (auto simp: fast_task_def)
next
  case (FTop w s cx)
  then show ?thesis
    using step fast_iter_good [OF ok FTop t(1)] by (cases act) (auto simp: fast_task_def)
next
  case (FWait p)
  have act: "act \<noteq> FDrop" using t(2) FWait by auto
  show ?thesis
    using step fast_wait_good [OF ok FWait t(1) act] by (auto simp: fast_task_def FWait)
next
  case (FNext w s cx)
  then show ?thesis
    using step fast_pin_good [OF ok FNext t(1)] by (cases act) (auto simp: fast_task_def)
next
  case (FTop2 w w2 s cx)
  then show ?thesis
    using step fast_iter2_good [OF ok FTop2 t(1)] by (cases act) (auto simp: fast_task_def)
next
  case (FWait2 w p)
  have act: "act \<noteq> FDrop" using t(2) FWait2 by auto
  show ?thesis
    using step fast_wait2_good [OF ok FWait2 t(1) act] by (auto simp: fast_task_def FWait2)
next
  case FHeld
  then show ?thesis
    using step fast_drop_guard [OF ok FHeld t(1)] by (cases act) (auto simp: fast_task_def)
next
  case (FUnlock u)
  obtain b r' where "act = FRun b" "fast_unlock_step b t f W u = Some r'" "r = mapR fu_next r'"
    using step FUnlock by (cases act) (auto simp: fast_task_def)
  then show ?thesis using fu_good [OF ok FUnlock t(1)] by simp
qed

lemma fast_machine_good:
  assumes inv: "fast_inv f N s" and step: "fast_machine f N (t, act) s = Some r"
  shows "\<exists>s'. r = Inr s' \<and> fast_inv f N s'"
proof -
  obtain g fx own wk ws where ok: "fast_ok f N (fast_world s) (fast_pcs s) g fx own wk ws"
    using inv by (auto simp: fast_inv_def)
  have t: "t < N" "act = FDrop \<Longrightarrow> fast_pcs s t = FHeld"
    using step by (auto simp: fast_machine_def fast_allowed_def split: if_splits)
  obtain r' where r': "fast_task f t act (fast_world s) (fast_pcs s t) = Some r'"
    "r = mapR (\<lambda>(p, W). s\<lparr>fast_world := W, fast_pcs := (fast_pcs s)(t := p)\<rparr>) r'"
    using step by (auto simp: fast_machine_def fast_step_def split: if_splits)
  from fast_task_good [OF ok t r'(1)]
  obtain p W' g' fx' own' wk' ws' where r: "r' = Inr (p, W')"
    and ok': "fast_ok f N W' ((fast_pcs s)(t := p)) g' fx' own' wk' ws'"
    unfolding fast_good_def by blast
  have "fast_inv f N (s\<lparr>fast_world := W', fast_pcs := (fast_pcs s)(t := p)\<rparr>)"
    unfolding fast_inv_def by (intro exI) (use ok' in simp)
  then show ?thesis by (simp add: r'(2) r)
qed

section \<open>The initial state\<close>

definition fast_init :: "ptr \<Rightarrow> nat \<Rightarrow> fast_state \<Rightarrow> bool" where
  "fast_init f N s \<longleftrightarrow> f \<noteq> null \<and> N < 2 ^ 62 \<and> s = fast_new f"

lemma fast_ok_new: "f \<noteq> null \<Longrightarrow> N < 2 ^ 62 \<Longrightarrow> fast_ok f N (fast_world (fast_new f)) (\<lambda>_. FIdle)
    \<lparr>g_loc = (\<lambda>_. Loose), g_inbox = (\<lambda>_. []), g_queues = (\<lambda>_. [[]]), g_list = (\<lambda>_. [])\<rparr>
    (futex_new (fast_encode \<lparr>at_locked = False, at_waking = False, at_waiters = 0\<rparr>) 1) None None {}"
  by (auto simp: fast_ok_def fast_new_def tasks_ok_def world_ok_def waiters_ok_def hands_ok_def
      inbox_ok_def queues_ok_def guards_ok_def futex_new_def guards_held_def hands_held_def
      stages_held_def refcell_new_def fast_count_def fast_roles_def)

interpretation fast: invariant_system "fast_init f N" "fast_machine f N" "fast_inv f N" for f N
proof
  show "fast_inv f N s" if "fast_init f N s" for s
  proof -
    have "f \<noteq> null" "N < 2 ^ 62" and s: "s = fast_new f" using that unfolding fast_init_def by blast+
    note ok = fast_ok_new [OF this(1,2)]
    have pcs: "fast_pcs s = (\<lambda>_. FIdle)" by (simp add: s fast_new_def)
    show ?thesis unfolding fast_inv_def pcs using ok unfolding s by blast
  qed
  show "\<exists>s'. r = Inr s' \<and> fast_inv f N s'" if "fast_inv f N s" "fast_machine f N e s = Some r" for s e r
    using fast_machine_good that by (cases e) blast
qed

end
