(* ===== verification/Fast_Spec.thy ===== *)
theory Fast_Spec imports Fast_Unlock begin

text \<open>
  What \<open>src/fast_mutex.rs\<close> promises: no fault, mutual exclusion, a count that fits its 62 bits and
  is exact, at most one wake-up at a time and none lost, overtaking, and no deadlock. The
  properties are stated on the reachable states of \<open>fast_machine\<close>, the use of the mutex that its
  code supports; the last one shows what happens outside of it.
\<close>

lemma fast_reach_ok:
  assumes "reach (fast_init f N) (fast_machine f N) s"
  obtains g fx own wk ws where "fast_ok f N (fast_world s) (fast_pcs s) g fx own wk ws"
  using fast.reach_inv [OF assms] by (auto simp: fast_inv_def)

lemma fast_futex:
  assumes ok: "fast_ok f N W pc g fx own wk ws"
  shows "get_futex W f = Inr fx"
  using tasks_okD(2) [OF fast_okD(1) [OF ok]] by simp

section \<open>Properties\<close>

text \<open>
  C30: used by fewer than \<open>2 ^ 62\<close> tasks, none of which drops a pending \<open>lock\<close>, the mutex never
  fails: neither the \<open>unwrap\<close> of the popped waiter nor the \<open>assert_eq!\<close> of \<open>unlock\<close> panics, the
  count does not overflow in either direction, the borrow of the queues is never refused, and no
  step dereferences a bad pointer, whatever the interleaving and the spurious failures.
\<close>

theorem fast_mutex_no_fault:
  assumes "reach (fast_init f N) (fast_machine f N) s"
  shows "fast_machine f N e s \<noteq> Some (Inl x)"
  by (rule fast.reach_no_fault [OF assms])

text \<open>
  C31: mutual exclusion: at most one task holds a guard, even though tasks that come later may
  overtake those that wait.
\<close>

theorem fast_mutex_exclusion:
  assumes "reach (fast_init f N) (fast_machine f N) s" "fast_pcs s t = FHeld" "fast_pcs s u = FHeld"
  shows "u = t"
proof -
  obtain g fx own wk ws where ok: "fast_ok f N (fast_world s) (fast_pcs s) g fx own wk ws"
    by (rule fast_reach_ok [OF assms(1)])
  show ?thesis using fast_okD(6) [OF ok, of t] fast_okD(6) [OF ok, of u] assms(2,3) by simp
qed

text \<open>
  C33: the atom is exact. It is the packing of fields that fit: \<open>locked\<close> says whether a task owns
  the mutex, \<open>waking\<close> whether a wake-up is under way (then for one task only), and \<open>waiters\<close> is the
  number of tasks that are queued or have been woken and have not got the mutex.
\<close>

theorem fast_mutex_count:
  assumes "reach (fast_init f N) (fast_machine f N) s"
  shows "\<exists>fx a. get_futex (fast_world s) f = Inr fx \<and> fa_atom (futex_atom fx) = fast_encode a \<and>
    fast_decode (fast_encode a) = a \<and>
    (at_locked a \<longleftrightarrow> (\<exists>t. fast_owns (fast_pcs s t))) \<and>
    (at_waking a \<longleftrightarrow> (\<exists>!t. fast_wakes (heap (fast_world s)) (fast_pcs s t))) \<and>
    (\<not> at_waking a \<longleftrightarrow> (\<forall>t. \<not> fast_wakes (heap (fast_world s)) (fast_pcs s t))) \<and>
    unat (at_waiters a) = card {t. fast_waits (fast_pcs s t)} \<and> unat (at_waiters a) \<le> N \<and> N < 2 ^ 62"
proof -
  obtain g fx own wk ws where ok: "fast_ok f N (fast_world s) (fast_pcs s) g fx own wk ws"
    by (rule fast_reach_ok [OF assms])
  let ?a = "\<lparr>at_locked = (own \<noteq> None), at_waking = (wk \<noteq> None), at_waiters = of_nat (card ws) :: usize\<rparr>"
  note b = fast_bounds [OF ok] and N = fast_okD(4) [OF ok]
  have ws: "{t. fast_waits (fast_pcs s t)} = ws" using fast_okD(5) [OF ok] by blast
  have a: "fa_atom (futex_atom fx) = fast_encode ?a" using fast_okD(8) [OF ok] by (simp add: fast_count_def)
  have u: "unat (at_waiters ?a) = card ws" using b(2) N by (simp add: unat_of_nat take_bit_nat_eq_self)
  have d: "fast_decode (fast_encode ?a) = ?a" using b(3) a by simp
  have own: "fast_owns (fast_pcs s t) \<longleftrightarrow> own = Some t"
    and wk: "fast_wakes (heap (fast_world s)) (fast_pcs s t) \<longleftrightarrow> wk = Some t" for t
    using fast_okD(6,7) [OF ok, of t] by simp_all
  show ?thesis
    by (rule exI [of _ fx], rule exI [of _ ?a], unfold ws own wk)
      (use fast_futex [OF ok] a u d b(2) N in auto)
qed

text \<open>
  C32: no lost wakeup. While a task is suspended and has not been woken, another task owns the
  mutex, or has the wake-up: it will lock the mutex, or suspend again behind an owner.
\<close>

theorem fast_mutex_no_lost_wakeup:
  assumes "reach (fast_init f N) (fast_machine f N) s"
    and "fast_pcs s t = FWait (Suspended wait) \<or> fast_pcs s t = FWait2 w (Suspended wait)"
    and "wkr (heap (fast_world s)) (wf_waiter wait) \<noteq> WakerDone"
  shows "\<exists>u. u \<noteq> t \<and> (fast_owns (fast_pcs s u) \<or> fast_wakes (heap (fast_world s)) (fast_pcs s u))"
proof -
  obtain g fx own wk ws where ok: "fast_ok f N (fast_world s) (fast_pcs s) g fx own wk ws"
    by (rule fast_reach_ok [OF assms(1)])
  have "t \<in> ws" using fast_okD(5) [OF ok, of t] assms(2) by auto
  then obtain u where u: "own = Some u \<or> wk = Some u" using fast_okD(9) [OF ok] by fastforce
  then have e: "fast_owns (fast_pcs s u) \<or> fast_wakes (heap (fast_world s)) (fast_pcs s u)"
    using fast_okD(6,7) [OF ok, of u] by blast
  moreover have "u \<noteq> t" using e assms(2,3) by auto
  ultimately show ?thesis by blast
qed

text \<open>
  Overtaking: a task that has just seen the mutex unlocked locks it in one step, however many
  tasks wait for it, and frees its waiter.
\<close>

theorem fast_mutex_overtakes:
  assumes "reach (fast_init f N) (fast_machine f N) s"
    and "get_futex (fast_world s) f = Inr fx" "\<not> at_locked (fast_decode (fa_atom (futex_atom fx)))"
    and "fast_pcs s t = FTop w (futex_atom fx) cx"
  shows "\<exists>s'. fast_machine f N (t, FRun False) s = Some (Inr s') \<and> fast_pcs s' t = FHeld \<and>
    heap (fast_world s') = (heap (fast_world s))(w := None)"
proof -
  obtain g fx' own wk ws where ok: "fast_ok f N (fast_world s) (fast_pcs s) g fx' own wk ws"
    by (rule fast_reach_ok [OF assms(1)])
  have fx: "futexes (fast_world s) f = Some fx"
    using assms(2) by (simp add: get_futex_def split: option.splits)
  have N: "t < N" using fast_okD(3) [OF ok, of t] assms(4) by simp
  have "r_stage (fast_roles N (fast_pcs s) t) = Fresh w 0" using N assms(4) by simp
  from tasks_stage [OF fast_okD(1) [OF ok] this] have alive: "alive (heap (fast_world s)) w" by simp
  have al: "fast_allowed N (t, FRun False) s" using N by (simp add: fast_allowed_def)
  show ?thesis
    using assms(3,4) alive futex_cmpxchg_weak_eq [OF fx, of AcquireT RelaxedT False "futex_atom fx"] waiter_drop_alive
    by (simp add: fast_machine_def al fast_step_def fast_task_def fast_iter_def inner_def Let_def)
qed

text \<open>
  The tasks inside \<open>lock\<close> or \<open>unlock\<close> that do not await their waiter. A woken task that is about to
  pin its next waiter (\<open>FNext\<close>) waits for the environment to say where.
\<close>

fun fast_running :: "fast_pc \<Rightarrow> bool" where
  "fast_running (FTop w s cx) = True"
| "fast_running (FTop2 w w2 s cx) = True"
| "fast_running (FWait p) = mid_wait p"
| "fast_running (FWait2 w p) = mid_wait p"
| "fast_running (FUnlock u) = True"
| "fast_running _ = False"

lemma fast_reader_runs:
  "r_read (fast_roles N pc u) \<Longrightarrow> u < N \<and> fast_running (pc u) \<and> fast_task f u (FRun b) W (pc u) \<noteq> None"
proof -
  assume r: "r_read (fast_roles N pc u)"
  have "\<not> r_read (spare_role p)" for p by (cases p) simp_all
  with r have "u < N" "r_read (fast_role (pc u))" by (auto simp: fast_roles_def split: if_splits)
  then show ?thesis
    by (cases "pc u") (auto simp: fast_task_def fast_unlock_step_def fu_simps split: fast_unlock.splits)
qed

text \<open>
  No deadlock. While some task is inside \<open>lock\<close>, or \<open>unlock\<close>, some such task can take its next
  step. Outside are the tasks that await their waiter or hold a guard.
\<close>

theorem fast_mutex_not_stuck:
  assumes "reach (fast_init f N) (fast_machine f N) s" "fast_running (fast_pcs s t)"
  shows "\<exists>u. fast_running (fast_pcs s u) \<and> fast_machine f N (u, FRun b) s \<noteq> None"
proof -
  obtain g fx own wk ws where ok: "fast_ok f N (fast_world s) (fast_pcs s) g fx own wk ws"
    by (rule fast_reach_ok [OF assms(1)])
  note T = fast_okD(1) [OF ok]
  have step: "fast_machine f N (u, FRun b) s \<noteq> None"
    if "u < N" "fast_task f u (FRun b) (fast_world s) (fast_pcs s u) \<noteq> None" for u
    using that by (auto simp: fast_machine_def fast_allowed_def fast_step_def)
  from tasks_unblocked [OF T] show ?thesis
  proof (elim disjE exE)
    assume free: "\<forall>t. futex_lock t (fast_world s) f \<noteq> None \<and> write_lock t (fast_world s) f \<noteq> None"
    have "fast_pcs s t \<noteq> FIdle" using assms(2) by auto
    then have N: "t < N" by (rule fast_okD(3) [OF ok])
    have wait: "wait_advance t (Step b) (fast_world s) p \<noteq> None" if "mid_wait p" "wait_kept f (heap (fast_world s)) p" for p
      using that free wait_mid_runs by (auto simp: wait_kept_def)
    have "fast_task f t (FRun b) (fast_world s) (fast_pcs s t) \<noteq> None"
    proof (cases "fast_pcs s t")
      case (FUnlock u)
      have "u \<noteq> FUDone" using fast_okD(2) [OF ok, of t] FUnlock by (auto simp: fu_ok_def)
      then show ?thesis using free FUnlock
        by (cases u) (auto simp: fast_task_def fast_unlock_step_def)
    qed (use assms(2) wait fast_okD(2) [OF ok, of t] in \<open>auto simp: fast_task_def fast_wait_step_def\<close>)
    then show ?thesis using step N assms(2) by blast
  next
    fix u assume "r_write (fast_roles N (fast_pcs s) u)"
    then show ?thesis using fast_no_writer [OF ok] by blast
  next
    fix u assume "r_read (fast_roles N (fast_pcs s) u)"
    from fast_reader_runs [OF this] show ?thesis using step by blast
  qed
qed

text \<open>
  The packing of the atom: every word of memory is the packing of what it decodes to, and
  packing an atom keeps the two flags and the count modulo \<open>2 ^ 62\<close>, so that exactly the atoms that
  fit come back.
\<close>

theorem fast_atom_packing:
  "fast_encode (fast_decode x) = x \<and>
   fast_decode (fast_encode a) = a\<lparr>at_waiters := of_nat (unat (at_waiters a) mod 2 ^ 62)\<rparr> \<and>
   (fast_decode (fast_encode a) = a \<longleftrightarrow> fast_fits a)"
proof (intro conjI)
  have "drop_bit 2 (push_bit 2 (at_waiters a)) = take_bit 62 (at_waiters a)"
    by (rule bit_word_eqI) (auto simp: bit_simps)
  also have "\<dots> = of_nat (unat (at_waiters a) mod 2 ^ 62)"
    by (simp add: word_unat_eq_iff unsigned_take_bit_eq take_bit_eq_mod unat_of_nat unat_mod_distrib)
  finally show "fast_decode (fast_encode a) = a\<lparr>at_waiters := of_nat (unat (at_waiters a) mod 2 ^ 62)\<rparr>"
    using fast_bits [of a] by (simp add: fast_decode_def and_one_eq bit_drop_bit_eq)
  show "fast_decode (fast_encode a) = a \<longleftrightarrow> fast_fits a"
    using fast_decode_fits [of "fast_encode a"] fast_pack.decode_encode [of a] by auto
qed (rule fast_encode_decode)

section \<open>Runs\<close>

text \<open>
  Task 1 holds the mutex, task 2 waits for it and task 3 has started \<open>lock\<close> (\<open>fast_wait_trace\<close>);
  task 1 releases it and wakes task 2 (\<open>fast_wake_trace\<close>), but task 3 overtakes
  (\<open>fast_over_trace\<close>), and the woken task 2 has to wait again (\<open>fast_again_trace\<close>).
\<close>

definition fast_waker :: "nat \<Rightarrow> copy_waker" where
  "fast_waker n = \<lparr>cw_data = of_nat n, cw_vtable = 9\<rparr>"

definition fast_wait_trace :: "(tid \<times> fast_act) list" where
  "fast_wait_trace =
     [(1, FStart (fast_waker 1) 16), (1, FRun False), (2, FStart (fast_waker 2) 32), (2, FRun False)]"

definition fast_wake_trace :: "(tid \<times> fast_act) list" where
  "fast_wake_trace = fast_wait_trace @ (1, FDrop) # replicate 9 (1, FRun False) @ [(3, FStart (fast_waker 3) 48)]"

definition fast_over_trace :: "(tid \<times> fast_act) list" where
  "fast_over_trace = fast_wake_trace @ [(3, FRun False)]"

definition fast_again_trace :: "(tid \<times> fast_act) list" where
  "fast_again_trace = fast_over_trace @
     [(2, FPoll (fast_waker 2)), (2, FRun False), (2, FPin 64), (2, FRun False), (2, FRun False)]"

definition fast_after :: "(tid \<times> fast_act) list \<Rightarrow> fast_state" where
  "fast_after es = (case run (fast_machine 100 10) es (fast_new 100) of Some (Inr s) \<Rightarrow> s | _ \<Rightarrow> fast_new 100)"

lemma fast_after_reach: "reach (fast_init 100 10) (fast_machine 100 10) (fast_after es)"
proof -
  have start: "reach (fast_init 100 10) (fast_machine 100 10) (fast_new 100)"
    by (rule reach.start) (simp add: fast_init_def)
  then show ?thesis
    using run_reach [OF start, of es]
    by (auto simp: fast_after_def split: option.splits sum.splits)
qed

text \<open>
  Outside of that use: a \<open>lock\<close> that is dropped while it waits reaches one of the \<open>todo!()\<close>
  closures, in the first wait and in the second.
\<close>

theorem fast_lock_dropped:
  "run (fast_step 100) (fast_wait_trace @ (2, FDrop) # replicate 8 (2, FRun False)) (fast_new 100) = Some (Inl Todo) \<and>
   run (fast_step 100) (fast_again_trace @ (2, FDrop) # replicate 8 (2, FRun False)) (fast_new 100) = Some (Inl Todo)"
proof
  have "(case run (fast_step 100) (fast_wait_trace @ (2, FDrop) # replicate 8 (2, FRun False)) (fast_new 100) of
      Some (Inl e) \<Rightarrow> e = Todo | _ \<Rightarrow> False)"
    by code_simp
  then show "run (fast_step 100) (fast_wait_trace @ (2, FDrop) # replicate 8 (2, FRun False)) (fast_new 100) = Some (Inl Todo)"
    by (auto split: option.splits sum.splits)
  have "(case run (fast_step 100) (fast_again_trace @ (2, FDrop) # replicate 8 (2, FRun False)) (fast_new 100) of
      Some (Inl e) \<Rightarrow> e = Todo | _ \<Rightarrow> False)"
    by code_simp
  then show "run (fast_step 100) (fast_again_trace @ (2, FDrop) # replicate 8 (2, FRun False)) (fast_new 100) = Some (Inl Todo)"
    by (auto split: option.splits sum.splits)
qed

section \<open>Witnesses\<close>

lemma fast_over_trace_held: "fast_pcs (fast_after fast_over_trace) 3 = FHeld"
proof -
  have "(case fast_pcs (fast_after fast_over_trace) 3 of FHeld \<Rightarrow> True | _ \<Rightarrow> False)" by code_simp
  then show ?thesis by (auto split: fast_pc.splits)
qed

lemma fast_again_trace_waits:
  obtains w wait where "fast_pcs (fast_after fast_again_trace) 2 = FWait2 w (Suspended wait)"
    "wkr (heap (fast_world (fast_after fast_again_trace))) (wf_waiter wait) \<noteq> WakerDone"
proof -
  have "(case fast_pcs (fast_after fast_again_trace) 2 of FWait2 w (Suspended wait) \<Rightarrow>
      wkr (heap (fast_world (fast_after fast_again_trace))) (wf_waiter wait) \<noteq> WakerDone | _ \<Rightarrow> False)"
    by code_simp
  then show ?thesis using that by (auto split: fast_pc.splits wait_task.splits)
qed

theorem fast_mutex_no_fault_witness:
  "fast_machine 100 10 (3, FDrop) (fast_after fast_again_trace) \<noteq> Some (Inl Panic) \<and>
   fast_machine 100 10 (3, FDrop) (fast_after fast_again_trace) \<noteq> None"
proof
  show "fast_machine 100 10 (3, FDrop) (fast_after fast_again_trace) \<noteq> Some (Inl Panic)"
    by (rule fast_mutex_no_fault [OF fast_after_reach])
  have "(case fast_machine 100 10 (3, FDrop) (fast_after fast_again_trace) of None \<Rightarrow> False | _ \<Rightarrow> True)"
    by code_simp
  then show "fast_machine 100 10 (3, FDrop) (fast_after fast_again_trace) \<noteq> None"
    by (auto split: option.splits)
qed

theorem fast_mutex_exclusion_witness:
  "fast_pcs (fast_after fast_over_trace) 3 = FHeld \<and> fast_pcs (fast_after fast_over_trace) 2 \<noteq> FHeld"
  using fast_over_trace_held fast_mutex_exclusion [OF fast_after_reach fast_over_trace_held, of 2] by auto

theorem fast_mutex_count_witness:
  "\<exists>fx a. get_futex (fast_world (fast_after fast_again_trace)) 100 = Inr fx \<and>
    fa_atom (futex_atom fx) = fast_encode a \<and>
    unat (at_waiters a) = card {t. fast_waits (fast_pcs (fast_after fast_again_trace) t)}"
  using fast_mutex_count [OF fast_after_reach, of fast_again_trace] by blast

theorem fast_mutex_no_lost_wakeup_witness:
  "\<exists>u. u \<noteq> 2 \<and> (fast_owns (fast_pcs (fast_after fast_again_trace) u) \<or>
     fast_wakes (heap (fast_world (fast_after fast_again_trace))) (fast_pcs (fast_after fast_again_trace) u))"
proof (rule fast_again_trace_waits)
  fix w wait assume "fast_pcs (fast_after fast_again_trace) 2 = FWait2 w (Suspended wait)"
    "wkr (heap (fast_world (fast_after fast_again_trace))) (wf_waiter wait) \<noteq> WakerDone"
  then show ?thesis using fast_mutex_no_lost_wakeup [OF fast_after_reach] by blast
qed

theorem fast_mutex_overtakes_witness:
  "\<exists>s'. fast_machine 100 10 (3, FRun False) (fast_after fast_wake_trace) = Some (Inr s') \<and> fast_pcs s' 3 = FHeld"
proof -
  let ?s = "fast_after fast_wake_trace"
  have "(case get_futex (fast_world ?s) 100 of Inr fx \<Rightarrow> (case fast_pcs ?s 3 of FTop w a cx \<Rightarrow>
      \<not> at_locked (fast_decode (fa_atom (futex_atom fx))) \<and> a = futex_atom fx | _ \<Rightarrow> False) | _ \<Rightarrow> False)"
    by code_simp
  then obtain fx w cx where t: "get_futex (fast_world ?s) 100 = Inr fx"
    "\<not> at_locked (fast_decode (fa_atom (futex_atom fx)))" "fast_pcs ?s 3 = FTop w (futex_atom fx) cx"
    by (auto split: sum.splits fast_pc.splits)
  from fast_mutex_overtakes [OF fast_after_reach t] show ?thesis by blast
qed

theorem fast_mutex_not_stuck_witness:
  "\<exists>u. fast_running (fast_pcs (fast_after (butlast fast_over_trace)) u) \<and>
     fast_machine 100 10 (u, FRun True) (fast_after (butlast fast_over_trace)) \<noteq> None"
proof (rule fast_mutex_not_stuck [OF fast_after_reach])
  show "fast_running (fast_pcs (fast_after (butlast fast_over_trace)) 3)" by code_simp
qed

end
