(* ===== verification/Channel.thy ===== *)
theory Channel imports Wake_Task begin

text \<open>
  \<open>src/mpsc.rs\<close>: the bounded channel. The buckets form a ring; the atom of the send queue holds
  the next bucket to write and the number of buckets in use, and the messages that do not fit
  stay with their senders, who wait in the queue. A state is the memory, the ring, the
  receiver's waker, the messages in the frames of the senders, and the places of the senders and
  of the receiver in \<open>send\<close> and \<open>recv\<close>. A sender is a task; the receiver, of which there is one
  (\<open>recv\<close> takes \<open>&mut self\<close>), is task 0 for the locks.
\<close>

section \<open>Data\<close>

record send_state =
  ss_write_head :: usize
  ss_size :: usize

definition send_encode :: "send_state \<Rightarrow> usize" where
  "send_encode val = transmute2 (ucast (ss_size val) :: usize_half) (ucast (ss_write_head val))"

definition send_decode :: "usize \<Rightarrow> send_state" where
  "send_decode val =
     (case untransmute2 val of (n, write_head) \<Rightarrow>
        \<lparr>ss_write_head = ucast (write_head :: usize_half), ss_size = ucast (n :: usize_half)\<rparr>)"

definition send_fits :: "send_state \<Rightarrow> bool" where
  "send_fits a \<longleftrightarrow> unat (ss_write_head a) < 2 ^ 32 \<and> unat (ss_size a) < 2 ^ 32"

interpretation send_pack: packable send_encode send_decode send_fits
  by unfold_locales
    (simp add: send_encode_def send_decode_def send_fits_def untransmute2_transmute2 half_up_down)

lemma send_decode_fits: "send_fits (send_decode x)"
  using half_less by (simp add: send_fits_def send_decode_def split: prod.split)

text \<open>The state of the receiver: \<open>Dirty\<close> is encoded by the address of a static.\<close>

datatype recv_state = RecvWaiting copy_waker | RecvDirty

definition recv_encode :: "ptr \<Rightarrow> recv_state \<Rightarrow> usize2" where
  "recv_encode WAITER_NONE_TAG val =
     copy_waker_transmute
       (case val of
          RecvWaiting waker \<Rightarrow> waker
        | RecvDirty \<Rightarrow> \<lparr>cw_data = null, cw_vtable = WAITER_NONE_TAG\<rparr>)"

definition recv_decode :: "ptr \<Rightarrow> usize2 \<Rightarrow> recv_state" where
  "recv_decode WAITER_NONE_TAG val =
     (let waker = copy_waker_untransmute val in
      if cw_vtable waker = WAITER_NONE_TAG then RecvDirty else RecvWaiting waker)"

definition recv_valid :: "ptr \<Rightarrow> recv_state \<Rightarrow> bool" where
  "recv_valid nt val \<longleftrightarrow> (case val of RecvWaiting waker \<Rightarrow> cw_vtable waker \<noteq> nt | RecvDirty \<Rightarrow> True)"

interpretation recv_pack: packable "recv_encode nt" "recv_decode nt" "recv_valid nt" for nt
  by unfold_locales
    (auto simp: recv_encode_def recv_decode_def recv_valid_def copy_waker_pack.decode_encode
       split: recv_state.splits)

text \<open>
  A bucket of the ring: \<open>MaybeUninit\<close> is \<open>None\<close> before it is written and after its content has
  been moved out. A message in the frame of its sender is \<open>Some None\<close> when it has been taken.
\<close>

record 'a bucket =
  bk_filled :: bool
  bk_data :: "'a option"

type_synonym 'a mail = "usize \<Rightarrow> 'a option option"

definition message_take :: "'a mail \<Rightarrow> usize \<Rightarrow> ('a \<times> 'a mail) res" where
  "message_take mail m =
     (case mail m of None \<Rightarrow> Inl Bad_Pointer
      | Some None \<Rightarrow> Inl Panic
      | Some (Some v) \<Rightarrow> Inr (v, mail(m \<mapsto> None)))"

definition message_is_none :: "'a mail \<Rightarrow> usize \<Rightarrow> bool res" where
  "message_is_none mail m = (case mail m of None \<Rightarrow> Inl Bad_Pointer | Some x \<Rightarrow> Inr (x = None))"

definition bucket_at :: "'a bucket list \<Rightarrow> usize \<Rightarrow> 'a bucket res" where
  "bucket_at bs i = (if unat i < length bs then Inr (bs ! unat i) else Inl Bad_Index)"

definition put_bucket :: "'a bucket list \<Rightarrow> usize \<Rightarrow> ('a bucket \<Rightarrow> 'a bucket) \<Rightarrow> 'a bucket list res" where
  "put_bucket bs i u = bindR (bucket_at bs i) (\<lambda>b. Inr (bs[unat i := u b]))"

definition assume_init_read :: "'a option \<Rightarrow> 'a res" where
  "assume_init_read data = (case data of Some v \<Rightarrow> Inr v | None \<Rightarrow> Inl Bad_Pointer)"

text \<open>\<open>(i + 1) % cap\<close>: the remainder by zero panics.\<close>

definition next_index :: "usize \<Rightarrow> usize \<Rightarrow> usize res" where
  "next_index cap i = bindR (checked_plus i 1) (\<lambda>j. bindR (ensure (cap \<noteq> 0)) (\<lambda>_. Inr (j mod cap)))"

section \<open>The places\<close>

text \<open>
  A sender is at the top of the loop (\<open>STop\<close>, with its waiter, the address of its message, its
  snapshot and the waker of the poll); suspended (\<open>SWait\<close>); or it has claimed a bucket, to which
  it will move its message (\<open>SWrite\<close>), which it will mark as filled (\<open>SFill\<close>), before it looks for
  a waiting receiver (\<open>SSwap\<close>) and wakes it (\<open>SCall\<close>).
\<close>

datatype send_pc =
  SIdle
| STop ptr usize raw_futex_atom copy_waker
| SWait usize wait_task
| SWrite ptr usize usize
| SFill ptr usize usize
| SSwap ptr usize
| SCall ptr usize copy_waker

text \<open>
  The receiver looks at the bucket at its head (\<open>RLoad\<close>), parks its waker (\<open>RPark\<close>) and looks
  again (\<open>RCheck\<close>), which leaves it pending (\<open>RPend\<close>, with the number of wake-ups that had
  happened when it parked), or takes the waker back (\<open>RUnpark\<close>). It unmarks the bucket (\<open>RTake\<close>)
  and moves the message out (\<open>RRead\<close>). Then it passes the free bucket on: it takes the guard
  (\<open>RLock\<close>) and the queue (\<open>RBorrow\<close>), and pops a waiter (\<open>RPop\<close>). If there is one the bucket is
  reserved for it (\<open>RLoadW\<close>, \<open>RMove\<close>); if there is none the loop \<open>RShrink\<close> takes new waiters or
  gives the bucket up. The bucket of a waiter is marked (\<open>RFill\<close>), gets its message (\<open>RMsg\<close>), and the
  waiter is woken (\<open>RWake\<close>, \<open>RCall\<close>). \<open>RGot\<close> is the result.
\<close>

datatype 'a recv_pc =
  RIdle
| RLoad usize copy_waker
| RPark usize copy_waker
| RCheck usize copy_waker nat
| RPend copy_waker nat
| RUnpark usize
| RTake usize
| RRead usize
| RLock 'a usize
| RBorrow 'a usize
| RPop 'a usize
| RLoadW 'a usize ptr
| RMove 'a usize ptr raw_futex_atom
| RLoadN 'a usize
| RShrink 'a usize raw_futex_atom
| RFill 'a usize ptr
| RMsg 'a usize ptr
| RWake 'a ptr
| RCall 'a copy_waker
| RUnborrow 'a
| RUnlock 'a
| RGot 'a

record 'a chan_state =
  ch_world :: world
  ch_buckets :: "'a bucket list"
  ch_recv :: recv_state
  ch_head :: usize
  ch_mail :: "'a mail"
  ch_send :: "tid \<Rightarrow> send_pc"
  ch_rpc :: "'a recv_pc"

definition chan_new :: "ptr \<Rightarrow> usize \<Rightarrow> 'a chan_state res" where
  "chan_new f cap =
     bindR (ensure (0 < cap)) (\<lambda>_.
     bindR (ensure (cap \<le> ucast (- 1 :: usize_half))) (\<lambda>_.
       Inr \<lparr>ch_world = \<lparr>heap = Map.empty,
              futexes = [f \<mapsto> futex_new (send_encode \<lparr>ss_write_head = 0, ss_size = 0\<rparr>) 1],
              clones = [], wakes = [], drops = []\<rparr>,
            ch_buckets = replicate (unat cap) \<lparr>bk_filled = False, bk_data = None\<rparr>,
            ch_recv = RecvDirty, ch_head = 0, ch_mail = Map.empty, ch_send = (\<lambda>_. SIdle), ch_rpc = RIdle\<rparr>))"

text \<open>The drop of the channel itself, after both ends are gone.\<close>

definition inner_drop :: "recv_state \<Rightarrow> unit res" where
  "inner_drop r = (case r of RecvWaiting _ \<Rightarrow> Inl Panic | RecvDirty \<Rightarrow> Inr ())"

abbreviation chan_len :: "'a chan_state \<Rightarrow> usize" where
  "chan_len s \<equiv> of_nat (length (ch_buckets s))"

section \<open>send\<close>

definition send_start ::
  "ptr \<Rightarrow> copy_waker \<Rightarrow> ptr \<Rightarrow> usize \<Rightarrow> 'a \<Rightarrow> 'a chan_state \<Rightarrow> (send_pc \<times> 'a chan_state) res option" where
  "send_start f cx addr m x s =
     (if ch_mail s m \<noteq> None then None
      else case new_waiter (ch_world s) f m 0 addr of
          None \<Rightarrow> None
        | Some W \<Rightarrow> Some (bindR (futex_load RelaxedT W f) (\<lambda>a.
            Inr (STop addr m a cx, s\<lparr>ch_world := W, ch_mail := (ch_mail s)(m \<mapsto> Some x)\<rparr>))))"

text \<open>The return of \<open>send\<close>: the waiter and the message, moved out or not, are dropped.\<close>

definition send_done :: "world res \<Rightarrow> usize \<Rightarrow> 'a chan_state \<Rightarrow> (send_pc \<times> 'a chan_state) res" where
  "send_done r m s = bindR r (\<lambda>W. Inr (SIdle, s\<lparr>ch_world := W, ch_mail := (ch_mail s)(m := None)\<rparr>))"

definition send_iter ::
  "bool \<Rightarrow> ptr \<Rightarrow> ptr \<Rightarrow> usize \<Rightarrow> raw_futex_atom \<Rightarrow> copy_waker \<Rightarrow> 'a chan_state \<Rightarrow>
     (send_pc \<times> 'a chan_state) res" where
  "send_iter spurious f w m a cx s =
     (let atom = inner send_decode a in
      if ss_size atom < chan_len s then
        bindR (next_index (chan_len s) (ss_write_head atom)) (\<lambda>write_head.
        bindR (checked_plus (ss_size atom) 1) (\<lambda>n.
        bindR (futex_cmpxchg_weak spurious AcqRelT RelaxedT (ch_world s) f a
                 (send_encode \<lparr>ss_write_head = write_head, ss_size = n\<rparr>)) (\<lambda>(ok, a, W).
          Inr (if ok then SWrite w m (ss_write_head atom) else STop w m a cx, s\<lparr>ch_world := W\<rparr>))))
      else
        bindR (wait_begin spurious f (ch_world s) w a (send_encode atom) cx) (\<lambda>(r, W).
          Inr (case r of Inl a \<Rightarrow> STop w m a cx | Inr p \<Rightarrow> SWait m p, s\<lparr>ch_world := W\<rparr>)))"

definition send_write :: "ptr \<Rightarrow> usize \<Rightarrow> usize \<Rightarrow> 'a chan_state \<Rightarrow> (send_pc \<times> 'a chan_state) res" where
  "send_write w m selected s =
     bindR (message_take (ch_mail s) m) (\<lambda>(x, mail).
     bindR (put_bucket (ch_buckets s) selected (\<lambda>b. b\<lparr>bk_data := Some x\<rparr>)) (\<lambda>bs.
       Inr (SFill w m selected, s\<lparr>ch_mail := mail, ch_buckets := bs\<rparr>)))"

definition send_fill :: "ptr \<Rightarrow> usize \<Rightarrow> usize \<Rightarrow> 'a chan_state \<Rightarrow> (send_pc \<times> 'a chan_state) res" where
  "send_fill w m selected s =
     bindR (bucket_at (ch_buckets s) selected) (\<lambda>b.
     bindR (native_store Release (bk_filled b) True) (\<lambda>filled.
     bindR (put_bucket (ch_buckets s) selected (\<lambda>b. b\<lparr>bk_filled := filled\<rparr>)) (\<lambda>bs.
       Inr (SSwap w m, s\<lparr>ch_buckets := bs\<rparr>))))"

definition send_swap :: "ptr \<Rightarrow> usize \<Rightarrow> 'a chan_state \<Rightarrow> (send_pc \<times> 'a chan_state) res" where
  "send_swap w m s =
     bindR (native_swap AcqRel (ch_recv s) RecvDirty) (\<lambda>(old, new).
       case old of
         RecvWaiting waker \<Rightarrow> Inr (SCall w m waker, s\<lparr>ch_recv := new\<rparr>)
       | RecvDirty \<Rightarrow> send_done (waiter_drop (ch_world s) w) m (s\<lparr>ch_recv := new\<rparr>))"

text \<open>
  After a step of the wait. A woken sender returns: the receiver has taken its message, as the
  closure \<open>on_cancel_woken\<close> asserts.
\<close>

definition send_waited :: "usize \<Rightarrow> 'a chan_state \<Rightarrow> wait_out \<times> world \<Rightarrow> (send_pc \<times> 'a chan_state) res" where
  "send_waited m s = (\<lambda>(out, W).
     case out of
       Still p \<Rightarrow> Inr (SWait m p, s\<lparr>ch_world := W\<rparr>)
     | Returned woken wait cx \<Rightarrow>
         if woken then send_done (waiter_drop W (wf_waiter wait)) m s
         else Inr (STop (wf_waiter wait) m (wf_current wait) cx, s\<lparr>ch_world := W\<rparr>)
     | Cancelled c w \<Rightarrow>
         bindR (if c = Some True then bindR (message_is_none (ch_mail s) m) ensure else Inr ()) (\<lambda>_.
           send_done (wait_finish W c w) m s))"

datatype 'a send_act = SStart copy_waker ptr usize 'a | SPoll copy_waker | SDrop | SRun bool

definition send_wait ::
  "tid \<Rightarrow> 'a send_act \<Rightarrow> world \<Rightarrow> wait_task \<Rightarrow> (wait_out \<times> world) res option" where
  "send_wait t act W p =
     (case act of
        SStart _ _ _ _ \<Rightarrow> None
      | SPoll cx \<Rightarrow> wait_advance t (Repoll cx) W p
      | SDrop \<Rightarrow> wait_advance t Abandon W p
      | SRun spurious \<Rightarrow> wait_advance t (Step spurious) W p)"

definition send_task ::
  "ptr \<Rightarrow> tid \<Rightarrow> 'a send_act \<Rightarrow> 'a chan_state \<Rightarrow> send_pc \<Rightarrow> (send_pc \<times> 'a chan_state) res option" where
  "send_task f t act s p =
     (case (p, act) of
        (SIdle, SStart cx addr m x) \<Rightarrow> send_start f cx addr m x s
      | (STop w m a cx, SRun spurious) \<Rightarrow> Some (send_iter spurious f w m a cx s)
      | (SWait m p, act) \<Rightarrow> map_option (\<lambda>r. bindR r (send_waited m s)) (send_wait t act (ch_world s) p)
      | (SWrite w m selected, SRun _) \<Rightarrow> Some (send_write w m selected s)
      | (SFill w m selected, SRun _) \<Rightarrow> Some (send_fill w m selected s)
      | (SSwap w m, SRun _) \<Rightarrow> Some (send_swap w m s)
      | (SCall w m k, SRun _) \<Rightarrow> Some (send_done (waiter_drop (wake_call (ch_world s) k) w) m s)
      | _ \<Rightarrow> None)"

section \<open>recv\<close>

definition drop_old :: "world \<Rightarrow> recv_state \<Rightarrow> world" where
  "drop_old W old = (case old of RecvWaiting k \<Rightarrow> drop_waker W k | RecvDirty \<Rightarrow> W)"

text \<open>A look at the bucket: \<open>filled.load(Acquire)\<close>.\<close>

definition recv_look :: "usize \<Rightarrow> 'a chan_state \<Rightarrow> bool res" where
  "recv_look head s = bindR (bucket_at (ch_buckets s) head) (\<lambda>b. native_load Acquire (bk_filled b))"

definition recv_park :: "usize \<Rightarrow> copy_waker \<Rightarrow> 'a chan_state \<Rightarrow> ('a recv_pc \<times> 'a chan_state) res" where
  "recv_park head cx s =
     (let W = clone_waker (ch_world s) cx in
      bindR (native_swap AcqRel (ch_recv s) (RecvWaiting cx)) (\<lambda>(old, new).
        Inr (RCheck head cx (length (wakes W)), s\<lparr>ch_world := drop_old W old, ch_recv := new\<rparr>)))"

definition recv_unpark :: "usize \<Rightarrow> 'a chan_state \<Rightarrow> ('a recv_pc \<times> 'a chan_state) res" where
  "recv_unpark head s =
     bindR (native_swap AcqRel (ch_recv s) RecvDirty) (\<lambda>(old, new).
       Inr (RTake head, s\<lparr>ch_world := drop_old (ch_world s) old, ch_recv := new\<rparr>))"

definition recv_take :: "usize \<Rightarrow> 'a chan_state \<Rightarrow> ('a recv_pc \<times> 'a chan_state) res" where
  "recv_take head s =
     bindR (put_bucket (ch_buckets s) head (\<lambda>b. b\<lparr>bk_filled := native_store_mut (bk_filled b) False\<rparr>)) (\<lambda>bs.
       Inr (RRead head, s\<lparr>ch_buckets := bs\<rparr>))"

definition recv_read :: "usize \<Rightarrow> 'a chan_state \<Rightarrow> ('a recv_pc \<times> 'a chan_state) res" where
  "recv_read head s =
     bindR (bucket_at (ch_buckets s) head) (\<lambda>b.
     bindR (assume_init_read (bk_data b)) (\<lambda>v.
     bindR (put_bucket (ch_buckets s) head (\<lambda>b. b\<lparr>bk_data := None\<rparr>)) (\<lambda>bs.
     bindR (next_index (chan_len s) head) (\<lambda>next.
       Inr (RLock v head, s\<lparr>ch_buckets := bs, ch_head := next\<rparr>)))))"

text \<open>The free bucket is reserved for the waiter that was popped: the ring stays full.\<close>

definition recv_move ::
  "bool \<Rightarrow> ptr \<Rightarrow> 'a \<Rightarrow> usize \<Rightarrow> ptr \<Rightarrow> raw_futex_atom \<Rightarrow> 'a chan_state \<Rightarrow> ('a recv_pc \<times> 'a chan_state) res" where
  "recv_move spurious f v head w a s =
     (let atom = inner send_decode a in
      bindR (ensure (ss_size atom = chan_len s)) (\<lambda>_.
      bindR (next_index (chan_len s) (ss_write_head atom)) (\<lambda>write_head.
      bindR (futex_cmpxchg_weak spurious AcqRelT RelaxedT (ch_world s) f a
               (send_encode \<lparr>ss_write_head = write_head, ss_size = ss_size atom\<rparr>)) (\<lambda>(ok, a, W).
        Inr (if ok then RFill v head w else RMove v head w a, s\<lparr>ch_world := W\<rparr>)))))"

text \<open>
  One iteration of the loop without a queued waiter. The pop that follows the loop works on the
  queue, which is borrowed, and is done with the last iteration.
\<close>

definition recv_shrink ::
  "bool \<Rightarrow> ptr \<Rightarrow> 'a \<Rightarrow> usize \<Rightarrow> raw_futex_atom \<Rightarrow> 'a chan_state \<Rightarrow> ('a recv_pc \<times> 'a chan_state) res" where
  "recv_shrink spurious f v head a s =
     (let atom = inner send_decode a in
      bindR (if has_new_waiters a then
               bindR (ensure (ss_size atom = chan_len s)) (\<lambda>_.
               bindR (next_index (chan_len s) (ss_write_head atom)) (\<lambda>write_head.
                 Inr \<lparr>ss_write_head = write_head, ss_size = ss_size atom\<rparr>))
             else
               bindR (checked_minus (ss_size atom) 1) (\<lambda>n.
                 Inr \<lparr>ss_write_head = ss_write_head atom, ss_size = n\<rparr>)) (\<lambda>new.
      bindR (cmpxchg_enqueue_weak spurious AcqRelT RelaxedT (ch_world s) f a (send_encode new)) (\<lambda>(ok, a, W).
        if ok then
          bindR (queue_pop W f 0) (\<lambda>(waiter, W).
            Inr (case waiter of Some w \<Rightarrow> RFill v head w | None \<Rightarrow> RUnborrow v, s\<lparr>ch_world := W\<rparr>))
        else Inr (RShrink v head a, s\<lparr>ch_world := W\<rparr>))))"

definition recv_fill :: "'a \<Rightarrow> usize \<Rightarrow> ptr \<Rightarrow> 'a chan_state \<Rightarrow> ('a recv_pc \<times> 'a chan_state) res" where
  "recv_fill v head w s =
     bindR (put_bucket (ch_buckets s) head (\<lambda>b. b\<lparr>bk_filled := native_store_mut (bk_filled b) True\<rparr>)) (\<lambda>bs.
       Inr (RMsg v head w, s\<lparr>ch_buckets := bs\<rparr>))"

definition recv_message :: "'a \<Rightarrow> usize \<Rightarrow> ptr \<Rightarrow> 'a chan_state \<Rightarrow> ('a recv_pc \<times> 'a chan_state) res" where
  "recv_message v head w s =
     bindR (waiter_message (heap (ch_world s)) w) (\<lambda>m.
     bindR (message_take (ch_mail s) m) (\<lambda>(x, mail).
     bindR (put_bucket (ch_buckets s) head (\<lambda>b. b\<lparr>bk_data := Some x\<rparr>)) (\<lambda>bs.
       Inr (RWake v w, s\<lparr>ch_mail := mail, ch_buckets := bs\<rparr>))))"

definition on_world :: "'a chan_state \<Rightarrow> ('b \<times> world) res \<Rightarrow> ('b \<times> 'a chan_state) res" where
  "on_world s = mapR (\<lambda>(x, W). (x, s\<lparr>ch_world := W\<rparr>))"

definition recv_step ::
  "bool \<Rightarrow> ptr \<Rightarrow> 'a chan_state \<Rightarrow> ('a recv_pc \<times> 'a chan_state) res option" where
  "recv_step spurious f s =
     (case ch_rpc s of
        RLoad head cx \<Rightarrow> Some (bindR (recv_look head s) (\<lambda>filled.
          Inr (if filled then RTake head else RPark head cx, s)))
      | RPark head cx \<Rightarrow> Some (recv_park head cx s)
      | RCheck head cx n \<Rightarrow> Some (bindR (recv_look head s) (\<lambda>filled.
          Inr (if filled then RUnpark head else RPend cx n, s)))
      | RUnpark head \<Rightarrow> Some (recv_unpark head s)
      | RTake head \<Rightarrow> Some (recv_take head s)
      | RRead head \<Rightarrow> Some (recv_read head s)
      | RLock v head \<Rightarrow> map_option (\<lambda>r. on_world s (mapR (Pair (RBorrow v head)) r)) (futex_lock 0 (ch_world s) f)
      | RBorrow v head \<Rightarrow> Some (on_world s (mapR (Pair (RPop v head)) (queue_lock (ch_world s) f)))
      | RPop v head \<Rightarrow> Some (on_world s (bindR (queue_pop (ch_world s) f 0) (\<lambda>(waiter, W).
          Inr (case waiter of Some w \<Rightarrow> RLoadW v head w | None \<Rightarrow> RLoadN v head, W))))
      | RLoadW v head w \<Rightarrow> Some (bindR (futex_load RelaxedT (ch_world s) f) (\<lambda>a. Inr (RMove v head w a, s)))
      | RMove v head w a \<Rightarrow> Some (recv_move spurious f v head w a s)
      | RLoadN v head \<Rightarrow> Some (bindR (futex_load RelaxedT (ch_world s) f) (\<lambda>a. Inr (RShrink v head a, s)))
      | RShrink v head a \<Rightarrow> Some (recv_shrink spurious f v head a s)
      | RFill v head w \<Rightarrow> Some (recv_fill v head w s)
      | RMsg v head w \<Rightarrow> Some (recv_message v head w s)
      | RWake v w \<Rightarrow> Some (on_world s (bindR (wake_swap (ch_world s) w) (\<lambda>(k, W). Inr (RCall v k, W))))
      | RCall v k \<Rightarrow> Some (Inr (RUnborrow v, s\<lparr>ch_world := wake_call (ch_world s) k\<rparr>))
      | RUnborrow v \<Rightarrow> Some (on_world s (mapR (Pair (RUnlock v)) (queue_unlock (ch_world s) f)))
      | RUnlock v \<Rightarrow> Some (on_world s (mapR (Pair (RGot v)) (futex_unlock 0 (ch_world s) f)))
      | _ \<Rightarrow> None)"

text \<open>
  The environment polls a new or a pending \<open>recv\<close> (\<open>RPoll\<close>), drops a pending one, and takes the
  result.
\<close>

datatype recv_act = RPoll copy_waker | RDrop | RTakeResult | RRun bool

definition recv_task :: "ptr \<Rightarrow> recv_act \<Rightarrow> 'a chan_state \<Rightarrow> ('a recv_pc \<times> 'a chan_state) res option" where
  "recv_task f act s =
     (case (act, ch_rpc s) of
        (RPoll cx, RIdle) \<Rightarrow> Some (Inr (RLoad (ch_head s) cx, s))
      | (RPoll cx, RPend _ _) \<Rightarrow> Some (Inr (RLoad (ch_head s) cx, s))
      | (RDrop, RPend _ _) \<Rightarrow> Some (Inr (RIdle, s))
      | (RTakeResult, RGot v) \<Rightarrow> Some (Inr (RIdle, s))
      | (RRun spurious, _) \<Rightarrow> recv_step spurious f s
      | _ \<Rightarrow> None)"

section \<open>The machine\<close>

datatype 'a chan_event = Snd tid "'a send_act" | Rcv recv_act

definition chan_step :: "ptr \<Rightarrow> ('a chan_event, 'a chan_state) machine" where
  "chan_step f e s =
     (case e of
        Snd t act \<Rightarrow>
          map_option (mapR (\<lambda>(p, s). s\<lparr>ch_send := (ch_send s)(t := p)\<rparr>))
            (send_task f (Suc t) act s (ch_send s t))
      | Rcv act \<Rightarrow> map_option (mapR (\<lambda>(p, s). s\<lparr>ch_rpc := p\<rparr>)) (recv_task f act s))"

end
