(* ===== verification/Wait_Calm.thy ===== *)
theory Wait_Calm imports Wake_Task begin

text \<open>
  What the steps on one futex leave alone: the message of every waiter, and the log of the
  wake-ups. A primitive whose invariant speaks of messages carries it along its other steps with
  these frame lemmas.
\<close>

definition calm :: "world \<Rightarrow> world \<Rightarrow> bool" where
  "calm W W' \<longleftrightarrow> (\<forall>v. msg (heap W') v = msg (heap W) v) \<and> wakes W' = wakes W"

lemma calm_refl [simp]: "calm W W"
  by (simp add: calm_def)

lemma msg_links: "links_only h h' A \<Longrightarrow> msg h' w = msg h w"
proof -
  assume "links_only h h' A"
  then have "map_option payload (h' w) = map_option payload (h w)"
    by (simp add: links_only_def)
  then show ?thesis
    by (cases "h w"; cases "h' w") (auto simp: msg_def payload_def)
qed

lemma calm_logs [simp]:
  "calm W (clone_waker W' k) \<longleftrightarrow> calm W W'" "calm W (drop_waker W' k) \<longleftrightarrow> calm W W'"
  "calm W (put_futex W' f fx) \<longleftrightarrow> calm W W'"
  by (simp_all add: calm_def clone_waker_def drop_waker_def put_futex_def)

lemma calm_put_waker [simp]: "calm W (W\<lparr>heap := put_waker (heap W) w k\<rparr>)"
  by (simp add: calm_def put_waker_reads)

lemma calm_links: "links_only (heap W) h' A \<Longrightarrow> calm W (put_futex (W\<lparr>heap := h'\<rparr>) f fx)"
  using msg_links by (auto simp: calm_def put_futex_def)

lemma calm_cas: "raw_cmpxchg_weak spurious so fo W1 f a x = Inr (ok, c, W2) \<Longrightarrow> calm W W2 = calm W W1"
proof -
  assume "raw_cmpxchg_weak spurious so fo W1 f a x = Inr (ok, c, W2)"
  then obtain fx where "W2 = put_futex W1 f fx"
    unfolding raw_cmpxchg_weak_def raw_cmpxchg_weak_on_def bindR_eq_Inr by (elim exE conjE) (auto simp: case_prod_unfold)
  then show ?thesis by simp
qed

lemma calm_write: "write_lock t W f = Some (Inr W') \<Longrightarrow> calm W W'" "write_unlock t W f = Inr W' \<Longrightarrow> calm W W'"
  by (auto simp: write_lock_def write_unlock_def bindR_eq_Inr split: sum.splits if_splits)

lemma calm_trans: "calm W W' \<Longrightarrow> calm W' W'' \<Longrightarrow> calm W W''"
  by (simp add: calm_def)

section \<open>The operations\<close>

lemma calm_pop:
  assumes T: "tasks_ok f n W g fx R" and q: "unat q < n" and t: "r_read (R t)"
    and pop: "queue_pop W f q = Inr (x, W')"
  shows "calm W W'"
proof (cases "g_queues g f ! unat q")
  case Nil
  then show ?thesis using tasks_pop_Nil [OF T q] pop by simp
next
  case (Cons w ws)
  have k: "unat q < length (queues fx)" using q tasks_okD(3) [OF T] by simp
  have rd: "t \<in> rw_readers fx" using tasks_okD(4) [OF T] t by (simp add: guards_held_def)
  obtain h' l where "queue_pop W f q =
       Inr (Some w, put_futex (W\<lparr>heap := h'\<rparr>) f (fx\<lparr>queues := (queues fx)[unat q := l]\<rparr>))"
    "links_only (heap W) h' {v. \<exists>j. g_loc g v = InQueue f j}"
    using queue_pop_Cons [OF tasks_okD(1,2) [OF T] k rd Cons] by metis
  then show ?thesis using pop calm_links by auto
qed

lemma calm_enqueue:
  assumes T: "tasks_ok f n W g fx R" and fo: "cas_orders (ORDERING so) (ORDERING fo)"
    and enq: "cmpxchg_enqueue_weak spurious so fo W f cur new = Inr (ok, a, W')"
  shows "calm W W'"
proof (cases "futex_atom fx = cur \<and> \<not> spurious")
  case True
  obtain h' qs' where "cmpxchg_enqueue_weak False so fo W f (futex_atom fx) new =
       Inr (True, futex_atom fx, put_futex (W\<lparr>heap := h'\<rparr>) f
         (fx\<lparr>futex_atom := \<lparr>fa_atom = new, fa_inbox = null\<rparr>, queues := qs'\<rparr>))"
    "links_only (heap W) h' {v. at_futex f (g_loc g v)}"
    using cmpxchg_enqueue_weak_ok [OF tasks_okD(1,2) [OF T] fo] by metis
  then show ?thesis using enq True calm_links by auto
next
  case False
  then show ?thesis using cmpxchg_enqueue_weak_fail [OF tasks_okD(2) [OF T] fo] enq by auto
qed

lemma calm_flip:
  assumes T: "tasks_ok f n W g fx R" and flip: "flip_iter spurious W f a = Inr (r, W')"
  shows "calm W W'"
proof (cases "fa_inbox a = null \<or> futex_atom fx \<noteq> a \<or> spurious")
  case True
  then have "flip_iter spurious W f a = Inr (None, W) \<or> flip_iter spurious W f a = Inr (Some (futex_atom fx), W)"
    using flip_iter_empty [of a spurious W f] flip_iter_fail [OF tasks_okD(2) [OF T], of a spurious] by blast
  then show ?thesis using flip by auto
next
  case False
  then have a: "futex_atom fx = a" "fa_inbox (futex_atom fx) \<noteq> null" "\<not> spurious" by auto
  obtain h' qs' where "flip_iter False W f (futex_atom fx) =
       Inr (None, put_futex (W\<lparr>heap := h'\<rparr>) f
         (fx\<lparr>futex_atom := (futex_atom fx)\<lparr>fa_inbox := null\<rparr>, queues := qs'\<rparr>))"
    "links_only (heap W) h' {v. at_futex f (g_loc g v)}"
    using flip_iter_ok [OF tasks_okD(1,2) [OF T] a(2)] by metis
  then show ?thesis using flip a calm_links by auto
qed

lemma calm_cancel:
  assumes T: "tasks_ok f n W g fx R" and t: "r_write (R t)" "r_stage (R t) = Unboxed w q"
    and c: "futex_cancel W f w = Inr W'"
  shows "calm W W'"
proof -
  have st: "q < n" "parked_ok (heap W) g f w q" "g_loc g w \<noteq> Inbox f"
    using tasks_stage [OF T t(2)] by simp_all
  show ?thesis
  proof (cases "g_loc g w = Loose")
    case True
    then have "detached (heap W) w" "que (heap W) w < length (queues fx)"
      using st tasks_okD(3) [OF T] by (auto simp: parked_ok_def listed_def)
    then show ?thesis using futex_cancel_detached [OF tasks_okD(1,2) [OF T] True] c by simp
  next
    case False
    then have loc: "g_loc g w = InQueue f q"
      using tasks_writer(2) [OF T t(1) False] st(2,3) by (auto simp: parked_ok_def listed_def)
    obtain h' l where
      "futex_cancel W f w = Inr (put_futex (W\<lparr>heap := h'\<rparr>) f (fx\<lparr>queues := (queues fx)[q := l]\<rparr>))"
      "links_only (heap W) h' {v. v \<noteq> w \<and> (\<exists>j. g_loc g v = InQueue f j)}"
      by (rule futex_cancel_queued [OF tasks_okD(1,2) [OF T] loc]) (rule that)
    then show ?thesis using c calm_links by auto
  qed
qed

section \<open>Waiting\<close>

lemma calm_begin:
  assumes T: "tasks_ok f n W g fx R" and t: "r_stage (R t) = Fresh w q"
    and step: "wait_begin spurious f W w a new cx = Inr (r, W')"
  shows "calm W W'"
proof -
  have st: "alive (heap W) w" "fut (heap W) w = f" "wkr (heap W) w \<noteq> WakerDone"
    using tasks_stage [OF T t] by simp_all
  let ?h = "put_prev (heap W) w (fa_inbox a)"
  have prev: "msg ?h v = msg (heap W) v" "wkr ?h v = wkr (heap W) v" for v
    by (auto simp: put_prev_def msg_def wkr_def)
  define W1 where "W1 = (case wkr (heap W) w of
      WakerNone \<Rightarrow> clone_waker (W\<lparr>heap := put_waker ?h w (WakerWaiting cx)\<rparr>) cx
    | _ \<Rightarrow> W\<lparr>heap := ?h\<rparr>)"
  have c1: "calm W W1"
    using prev(1) by (cases "wkr (heap W) w") (simp_all add: W1_def calm_def put_waker_reads clone_waker_def)
  have enter: "poll_enter spurious cx W wait =
      bindR (raw_cmpxchg_weak spurious AcqRelT AcquireT W1 f a \<lparr>fa_atom = wf_new wait, fa_inbox = w\<rparr>)
        (\<lambda>(ok, current, W). Inr (ok, if ok then wait\<lparr>wf_step := Waiting\<rparr> else wait\<lparr>wf_current := current\<rparr>, W))"
    if "wf_waiter wait = w" "wf_original_futex wait = f" "wf_current wait = a" for wait
    using st that by (cases "wkr (heap W) w") (simp_all add: poll_enter_def link_simps prev W1_def)
  have cas: "calm W W2" if "raw_cmpxchg_weak spurious AcqRelT AcquireT W1 f a x = Inr (ok, c, W2)" for x ok c W2
    using calm_cas [OF that] c1 by simp
  have "cmpxchg_wait_weak W f w a new =
      Inr \<lparr>wf_original_futex = f, wf_current = a, wf_new = new, wf_step = Enter, wf_waiter = w\<rparr>"
    using st by (simp add: cmpxchg_wait_weak_def link_simps)
  with step cas show ?thesis
    by (auto simp: wait_begin_def future_poll_def enter bindR_eq_Inr)
qed

lemma calm_drop_step:
  assumes T: "tasks_ok f n W g fx R" and t: "R t = drop_role w q d" and ok: "drop_ok f d"
    and step: "drop_step spurious t W w d = Some (Inr (d', W'))"
  shows "calm W W'"
proof (cases d)
  case (DropFlip owner a)
  then have "owner = f" using ok by (simp add: drop_ok_def)
  then show ?thesis
    using step calm_flip [OF T] by (auto simp: DropFlip drop_step_def bindR_eq_Inr)
next
  case (DropCancel owner)
  then have "owner = f" using ok by (simp add: drop_ok_def)
  then show ?thesis
    using step calm_cancel [OF T, of t w q] t by (auto simp: DropCancel drop_step_def bindR_eq_Inr mapR_def drop_simps)
qed (use step calm_write in \<open>auto simp: drop_step_def bindR_eq_Inr mapR_def\<close>)

lemma calm_advance:
  assumes T: "tasks_ok f n W g fx R" and t: "R t = wait_role q p" and p: "wait_task_ok f (heap W) p"
    and step: "wait_advance t act W p = Some (Inr (out, W'))"
  shows "calm W W'"
proof (cases p)
  case (Suspended wait)
  show ?thesis
  proof (cases act)
    case (Repoll cx)
    then show ?thesis using step p Suspended
      by (auto simp: wait_advance_def future_poll_def wait_ok_def poll_waiting_def bindR_eq_Inr mapR_def wait_polled_def)
  next
    case Abandon
    then show ?thesis using step p Suspended by (auto simp: wait_advance_def bindR_eq_Inr)
  qed (use step Suspended in \<open>simp add: wait_advance_def\<close>)
next
  case (Polling wait cx k)
  then obtain b where act: "act = Step b" using step by (cases act) (auto simp: wait_advance_def)
  have w: "r_stage (R t) = Parked (wf_waiter wait) q" using t Polling by simp
  note iter = tasks_poll_iter [OF T w refl]
  show ?thesis
  proof (cases k)
    case (WakerWaiting old)
    then show ?thesis using step act Polling
      by (auto simp: wait_advance_def future_loop_def iter(1) wait_polled_def split: if_splits)
  qed (use step act Polling in \<open>auto simp: wait_advance_def future_loop_def poll_waiting_iter_def wait_polled_def\<close>)
next
  case (Dropping w d)
  then obtain b where act: "act = Step b" using step by (cases act) (auto simp: wait_advance_def)
  show ?thesis
  proof (cases "d = DropFinish")
    case True
    then obtain woken where "drop_finish W w = Inr (woken, W')"
      using step act Dropping by (auto simp: wait_advance_def bindR_eq_Inr)
    then obtain k where "drop_finish W w = Inr (woken, W')" "waiter_get_waker (heap W) w = Inr k"
      by (auto simp: drop_finish_def bindR_eq_Inr)
    then show ?thesis by (cases k) (auto simp: drop_finish_def)
  next
    case False
    then obtain d' where "drop_step b t W w d = Some (Inr (d', W'))"
      using step act Dropping by (cases d) (auto simp: wait_advance_def mapR_def bindR_eq_Inr)
    then show ?thesis using calm_drop_step [OF T] t p Dropping by auto
  qed
qed

text \<open>The end of a waiter changes the slot and the memory of that waiter only.\<close>

lemma calm_freed: "wakes (freed W w) = wakes W" "v \<noteq> w \<Longrightarrow> msg (heap (freed W w)) v = msg (heap W) v"
  by (auto simp: freed_def drop_waker_def msg_def split: waiter_waker.splits)

end
