(* ===== verification/Ring.thy ===== *)
theory Ring imports Prelude begin

text \<open>
  The ring of the bounded channel, without the program around it: a window of \<open>length q\<close> indices
  from \<open>i0\<close> on, taken modulo the capacity, holds the messages \<open>q\<close> in order. A bucket of the window
  is filled, or claimed by one task that is filling or emptying it; no other bucket is either.
\<close>

definition slots :: "nat \<Rightarrow> nat \<Rightarrow> nat \<Rightarrow> nat set" where
  "slots c i0 n = (\<lambda>k. k mod c) ` {i0..<i0 + n}"

definition ring_ok ::
  "nat \<Rightarrow> nat \<Rightarrow> (nat \<Rightarrow> bool) \<Rightarrow> (tid \<Rightarrow> nat option) \<Rightarrow> (nat \<Rightarrow> 'a \<Rightarrow> bool) \<Rightarrow> 'a list \<Rightarrow> bool" where
  "ring_ok c i0 filled claim val q \<longleftrightarrow> 0 < c \<and> length q \<le> c \<and>
     (\<forall>i<length q. val ((i0 + i) mod c) (q ! i)) \<and>
     (\<forall>b<c. filled b \<or> (\<exists>u. claim u = Some b) \<longleftrightarrow> b \<in> slots c i0 (length q)) \<and>
     (\<forall>u v b. claim u = Some b \<and> claim v = Some b \<longrightarrow> u = v) \<and> (\<forall>u b. claim u = Some b \<longrightarrow> b < c)"

lemma ring_okD:
  assumes "ring_ok c i0 filled claim val q"
  shows "0 < c" "length q \<le> c" "i < length q \<Longrightarrow> val ((i0 + i) mod c) (q ! i)"
    "b < c \<Longrightarrow> filled b \<or> (\<exists>u. claim u = Some b) \<longleftrightarrow> b \<in> slots c i0 (length q)"
    "claim u = Some b \<Longrightarrow> claim v = Some b \<Longrightarrow> u = v" "claim u = Some b \<Longrightarrow> b < c"
  using assms unfolding ring_ok_def by blast+

lemma ring_okI:
  assumes "0 < c" "length q \<le> c" "\<And>i. i < length q \<Longrightarrow> val ((i0 + i) mod c) (q ! i)"
    "\<And>b. b < c \<Longrightarrow> filled b \<or> (\<exists>u. claim u = Some b) \<longleftrightarrow> b \<in> slots c i0 (length q)"
    "\<And>u v b. claim u = Some b \<Longrightarrow> claim v = Some b \<Longrightarrow> u = v" "\<And>u b. claim u = Some b \<Longrightarrow> b < c"
  shows "ring_ok c i0 filled claim val q"
  using assms unfolding ring_ok_def by blast

text \<open>Two indices less than the capacity apart name different buckets.\<close>

lemma mod_window: "(j :: nat) < k \<Longrightarrow> k < j + c \<Longrightarrow> j mod c \<noteq> k mod c"
proof
  assume jk: "j < k" "k < j + c" and eq: "j mod c = k mod c"
  then have "c dvd k - j" using mod_eq_dvd_iff_nat [of j k c] by simp
  then have "c \<le> k - j" using jk dvd_imp_le [of c "k - j"] by simp
  then show False using jk by simp
qed

lemma slots_Suc: "slots c i0 (Suc n) = insert ((i0 + n) mod c) (slots c i0 n)"
proof -
  have "{i0..<i0 + Suc n} = insert (i0 + n) {i0..<i0 + n}" by auto
  then show ?thesis by (simp add: slots_def)
qed

lemma slots_head: "slots c i0 (Suc n) = insert (i0 mod c) (slots c (Suc i0) n)"
proof -
  have "{i0..<i0 + Suc n} = insert i0 {Suc i0..<Suc i0 + n}" by auto
  then show ?thesis by (simp add: slots_def)
qed

lemma slots_0 [simp]: "slots c i0 0 = {}"
  by (simp add: slots_def)

lemma slots_index: "b \<in> slots c i0 n \<longleftrightarrow> (\<exists>i<n. b = (i0 + i) mod c)"
proof
  assume "b \<in> slots c i0 n"
  then obtain k where "i0 \<le> k" "k < i0 + n" "b = k mod c" by (auto simp: slots_def)
  then show "\<exists>i<n. b = (i0 + i) mod c" by (intro exI [of _ "k - i0"]) simp
qed (auto simp: slots_def)

lemma slots_end: "n < c \<Longrightarrow> (i0 + n) mod c \<notin> slots c i0 n"
proof
  assume n: "n < c" and "(i0 + n) mod c \<in> slots c i0 n"
  then obtain k where "i0 \<le> k" "k < i0 + n" "k mod c = (i0 + n) mod c" by (auto simp: slots_def)
  then show False using mod_window [of k "i0 + n" c] n by simp
qed

lemma slots_begin: "n < c \<Longrightarrow> i0 mod c \<notin> slots c (Suc i0) n"
proof
  assume n: "n < c" and "i0 mod c \<in> slots c (Suc i0) n"
  then obtain k where "k \<in> {Suc i0..<Suc i0 + n}" "i0 mod c = k mod c"
    unfolding slots_def by (elim imageE) simp
  then show False using mod_window [of i0 k c] n by simp
qed

lemma slots_less: "0 < c \<Longrightarrow> b \<in> slots c i0 n \<Longrightarrow> b < c"
  by (auto simp: slots_def)

lemma claim_other:
  "claim u \<noteq> Some b \<Longrightarrow> y \<noteq> Some b \<Longrightarrow> (\<exists>x. (claim(u := y)) x = Some b) \<longleftrightarrow> (\<exists>x. claim x = Some b)"
  by (metis fun_upd_apply)

text \<open>The bucket after the window is free; it is appended when a task claims it.\<close>

lemma ring_free:
  assumes ok: "ring_ok c i0 filled claim val q" and n: "length q < c"
  shows "\<not> filled ((i0 + length q) mod c)" "claim u \<noteq> Some ((i0 + length q) mod c)"
  using ring_okD(4) [OF ok, of "(i0 + length q) mod c"] slots_end [OF n, of i0] ring_okD(1) [OF ok] by auto

lemma ring_claim:
  assumes ok: "ring_ok c i0 filled claim val q" and n: "length q < c" and u: "claim u = None"
    and val: "\<And>i. i < length q \<Longrightarrow> val ((i0 + i) mod c) (q ! i) \<Longrightarrow> val' ((i0 + i) mod c) (q ! i)"
      "val' ((i0 + length q) mod c) v"
  shows "ring_ok c i0 filled (claim(u \<mapsto> (i0 + length q) mod c)) val' (q @ [v])"
proof -
  let ?b = "(i0 + length q) mod c"
  have c: "0 < c" by (rule ring_okD(1) [OF ok])
  note free = ring_free [OF ok n]
  have B: "filled b \<or> (\<exists>x. (claim(u \<mapsto> ?b)) x = Some b) \<longleftrightarrow> b \<in> slots c i0 (length (q @ [v]))" if b: "b < c" for b
  proof (cases "b = ?b")
    case False
    then have "(\<exists>x. (claim(u \<mapsto> ?b)) x = Some b) \<longleftrightarrow> (\<exists>x. claim x = Some b)" using u by (intro claim_other) auto
    then show ?thesis using ring_okD(4) [OF ok b] False by (simp add: slots_Suc)
  qed (auto simp: slots_Suc)
  have A: "val' ((i0 + i) mod c) ((q @ [v]) ! i)" if "i < length (q @ [v])" for i
    using that val ring_okD(3) [OF ok, of i] by (cases "i = length q") (auto simp: nth_append)
  have C: "x = y" if "(claim(u \<mapsto> ?b)) x = Some b" "(claim(u \<mapsto> ?b)) y = Some b" for x y b
    by (cases "x = u"; cases "y = u") (use that free(2) [of x] free(2) [of y] ring_okD(5) [OF ok, of x b y] in auto)
  have D: "b < c" if "(claim(u \<mapsto> ?b)) x = Some b" for x b
    using that ring_okD(6) [OF ok, of x b] c by (auto split: if_splits)
  show ?thesis
  proof (rule ring_okI)
    show "length (q @ [v]) \<le> c" using n by simp
  qed (fact c, fact A, fact B, fact C, fact D)
qed

text \<open>A task that is done with its bucket leaves it filled.\<close>

lemma ring_release:
  assumes ok: "ring_ok c i0 filled claim val q" and u: "claim u = Some b"
    and val: "\<And>i. i < length q \<Longrightarrow> val ((i0 + i) mod c) (q ! i) \<Longrightarrow> val' ((i0 + i) mod c) (q ! i)"
  shows "ring_ok c i0 (filled(b := True)) (claim(u := None)) val' q"
proof -
  have "(filled(b := True)) b' \<or> (\<exists>x. (claim(u := None)) x = Some b') \<longleftrightarrow> b' \<in> slots c i0 (length q)"
    if b': "b' < c" for b'
  proof (cases "b' = b")
    case True
    then show ?thesis using ring_okD(4) [OF ok b'] u by auto
  next
    case False
    then have "(\<exists>x. (claim(u := None)) x = Some b') \<longleftrightarrow> (\<exists>x. claim x = Some b')" using u by (intro claim_other) auto
    then show ?thesis using ring_okD(4) [OF ok b'] False by simp
  qed
  moreover have "\<forall>x y b. (claim(u := None)) x = Some b \<and> (claim(u := None)) y = Some b \<longrightarrow> x = y"
    using ring_okD(5) [OF ok] by (auto split: if_splits)
  ultimately show ?thesis
    using ring_okD(1,2,3,6) [OF ok] val unfolding ring_ok_def by simp
qed

text \<open>A claimed bucket may be marked as filled before it is released.\<close>

lemma ring_fill:
  assumes ok: "ring_ok c i0 filled claim val q" and u: "claim u = Some b"
    and val: "\<And>i. i < length q \<Longrightarrow> val ((i0 + i) mod c) (q ! i) \<Longrightarrow> val' ((i0 + i) mod c) (q ! i)"
  shows "ring_ok c i0 (filled(b := True)) claim val' q"
proof -
  have "(filled(b := True)) b' \<or> (\<exists>x. claim x = Some b') \<longleftrightarrow> b' \<in> slots c i0 (length q)" if b': "b' < c" for b'
    using ring_okD(4) [OF ok b'] u by (cases "b' = b") auto
  then show ?thesis using ring_okD(1,2,3,5,6) [OF ok] val unfolding ring_ok_def by blast
qed

text \<open>A task that claims the first bucket, which was filled, and empties it.\<close>

lemma ring_take:
  assumes ok: "ring_ok c i0 filled claim val q" and u: "claim u = None" "filled b" "b < c"
    and b: "\<And>x. claim x \<noteq> Some b"
    and val: "\<And>i. i < length q \<Longrightarrow> val ((i0 + i) mod c) (q ! i) \<Longrightarrow> val' ((i0 + i) mod c) (q ! i)"
  shows "ring_ok c i0 (filled(b := False)) (claim(u \<mapsto> b)) val' q"
proof -
  have "(filled(b := False)) b' \<or> (\<exists>x. (claim(u \<mapsto> b)) x = Some b') \<longleftrightarrow> b' \<in> slots c i0 (length q)"
    if b': "b' < c" for b'
  proof (cases "b' = b")
    case True
    then show ?thesis using ring_okD(4) [OF ok b'] u by auto
  next
    case False
    then have "(\<exists>x. (claim(u \<mapsto> b)) x = Some b') \<longleftrightarrow> (\<exists>x. claim x = Some b')" using u by (intro claim_other) auto
    then show ?thesis using ring_okD(4) [OF ok b'] False by simp
  qed
  moreover have "x = y" if "(claim(u \<mapsto> b)) x = Some b'" "(claim(u \<mapsto> b)) y = Some b'" for x y b'
    by (cases "x = u"; cases "y = u") (use that b [of x] b [of y] ring_okD(5) [OF ok, of x b' y] in auto)
  moreover have "\<forall>x b'. (claim(u \<mapsto> b)) x = Some b' \<longrightarrow> b' < c"
    using ring_okD(6) [OF ok] u(3) by (auto split: if_splits)
  ultimately show ?thesis
    using ring_okD(1,2,3) [OF ok] val unfolding ring_ok_def by (intro conjI allI impI) (blast | simp)+
qed

text \<open>An empty first bucket leaves the window when its claim is given up.\<close>

lemma ring_drop:
  assumes ok: "ring_ok c i0 filled claim val q" and u: "claim u = Some (i0 mod c)" "\<not> filled (i0 mod c)"
  obtains v q' where "q = v # q'" "val (i0 mod c) v"
    "\<forall>val'. (\<forall>i<length q'. val ((Suc i0 + i) mod c) (q' ! i) \<longrightarrow> val' ((Suc i0 + i) mod c) (q' ! i)) \<longrightarrow>
       ring_ok c (Suc i0) filled (claim(u := None)) val' q'"
proof -
  note c = ring_okD(1,2) [OF ok]
  have "i0 mod c \<in> slots c i0 (length q)"
    using ring_okD(4) [OF ok, of "i0 mod c"] u c by auto
  then obtain v q' where q: "q = v # q'" by (cases q) auto
  have val: "val ((i0 + i) mod c) ((v # q') ! i)" if "i < Suc (length q')" for i
    using ring_okD(3) [OF ok, of i] that q by simp
  show ?thesis
  proof (rule that [OF q], goal_cases)
    case 1
    show "val (i0 mod c) v" using val [of 0] by simp
  next
    case 2
    show ?case
    proof (intro allI impI)
    fix val' :: "nat \<Rightarrow> 'a \<Rightarrow> bool"
    assume val': "\<forall>i<length q'. val ((Suc i0 + i) mod c) (q' ! i) \<longrightarrow> val' ((Suc i0 + i) mod c) (q' ! i)"
    have "filled b \<or> (\<exists>x. (claim(u := None)) x = Some b) \<longleftrightarrow> b \<in> slots c (Suc i0) (length q')" if b: "b < c" for b
    proof (cases "b = i0 mod c")
      case True
      have "(claim(u := None)) x \<noteq> Some b" for x using ring_okD(5) [OF ok, of u b x] u True by auto
      then show ?thesis using True u(2) slots_begin [of "length q'" c i0] c q by auto
    next
      case False
      then have "(\<exists>x. (claim(u := None)) x = Some b) \<longleftrightarrow> (\<exists>x. claim x = Some b)" using u by (intro claim_other) auto
      then show ?thesis using ring_okD(4) [OF ok b] False by (simp add: q slots_head)
    qed
    moreover have "\<forall>x y b. (claim(u := None)) x = Some b \<and> (claim(u := None)) y = Some b \<longrightarrow> x = y"
      using ring_okD(5) [OF ok] by (auto split: if_splits)
    moreover have "val' ((Suc i0 + i) mod c) (q' ! i)" if "i < length q'" for i
      using val' val [of "Suc i"] that by simp
    ultimately show "ring_ok c (Suc i0) filled (claim(u := None)) val' q'"
      using c q ring_okD(6) [OF ok] unfolding ring_ok_def by simp
    qed
  qed
qed

text \<open>Every bucket in use has its index in the window.\<close>

lemma ring_index:
  assumes ok: "ring_ok c i0 filled claim val q" and b: "b < c" "filled b \<or> claim u = Some b"
  obtains i where "i < length q" "b = (i0 + i) mod c" "val b (q ! i)"
proof -
  have "b \<in> slots c i0 (length q)" using ring_okD(4) [OF ok b(1)] b(2) by blast
  then obtain i where "i < length q" "b = (i0 + i) mod c" by (auto simp: slots_index)
  then show ?thesis using that ring_okD(3) [OF ok] by blast
qed

lemma ring_cong:
  assumes "ring_ok c i0 filled claim val q"
    and "\<And>i. i < length q \<Longrightarrow> val ((i0 + i) mod c) (q ! i) \<Longrightarrow> val' ((i0 + i) mod c) (q ! i)"
  shows "ring_ok c i0 filled claim val' q"
  using assms unfolding ring_ok_def by blast

end
