(* ===== verification/Chan_Inv.thy ===== *)
theory Chan_Inv imports Channel Wait_Calm Ring begin

text \<open>
  The invariant of \<open>src/mpsc.rs\<close>. The ring holds the messages that have been sent and not
  received, in order; a bucket that is in use and not filled is claimed by a sender that is
  writing to it, or by the receiver. While a sender waits the ring is full. A message is in the
  frame of its sender until the sender, or the receiver for it, takes it.
\<close>

section \<open>Roles\<close>

fun send_role :: "send_pc \<Rightarrow> role" where
  "send_role SIdle = idle_role"
| "send_role (STop w m a cx) = idle_role\<lparr>r_stage := Fresh w 0\<rparr>"
| "send_role (SWait m p) = wait_role 0 p"
| "send_role (SWrite w m i) = idle_role\<lparr>r_stage := Fresh w 0\<rparr>"
| "send_role (SFill w m i) = idle_role\<lparr>r_stage := Fresh w 0\<rparr>"
| "send_role (SSwap w m) = idle_role\<lparr>r_stage := Fresh w 0\<rparr>"
| "send_role (SCall w m k) = idle_role\<lparr>r_stage := Fresh w 0\<rparr>"

definition recv_reads :: "'a recv_pc \<Rightarrow> bool" where
  "recv_reads p = (case p of RBorrow _ _ \<Rightarrow> True | RPop _ _ \<Rightarrow> True | RLoadW _ _ _ \<Rightarrow> True
     | RMove _ _ _ _ \<Rightarrow> True | RLoadN _ _ \<Rightarrow> True | RShrink _ _ _ \<Rightarrow> True | RFill _ _ _ \<Rightarrow> True
     | RMsg _ _ _ \<Rightarrow> True | RWake _ _ \<Rightarrow> True | RCall _ _ \<Rightarrow> True | RUnborrow _ \<Rightarrow> True | RUnlock _ \<Rightarrow> True
     | _ \<Rightarrow> False)"

definition recv_hand :: "'a recv_pc \<Rightarrow> ptr option" where
  "recv_hand p = (case p of RLoadW _ _ w \<Rightarrow> Some w | RMove _ _ w _ \<Rightarrow> Some w | RFill _ _ w \<Rightarrow> Some w
     | RMsg _ _ w \<Rightarrow> Some w | RWake _ w \<Rightarrow> Some w | _ \<Rightarrow> None)"

definition recv_role :: "'a recv_pc \<Rightarrow> role" where
  "recv_role p = idle_role\<lparr>
     r_read := recv_reads p,
     r_borrow := (recv_reads p \<and> (case p of RBorrow _ _ \<Rightarrow> False | RUnlock _ \<Rightarrow> False | _ \<Rightarrow> True)),
     r_hand := recv_hand p\<rparr>"

definition chan_roles :: "(tid \<Rightarrow> send_pc) \<Rightarrow> 'a recv_pc \<Rightarrow> tid \<Rightarrow> role" where
  "chan_roles sp rp u = (case u of 0 \<Rightarrow> recv_role rp | Suc t \<Rightarrow> send_role (sp t))"

lemma chan_roles_simps [simp]:
  "chan_roles sp rp 0 = recv_role rp" "chan_roles sp rp (Suc t) = send_role (sp t)"
  by (simp_all add: chan_roles_def)

lemma chan_roles_send: "chan_roles (sp(t := p)) rp = (chan_roles sp rp)(Suc t := send_role p)"
  by (rule ext) (simp add: chan_roles_def split: nat.split)

lemma chan_roles_recv: "chan_roles sp rp' = (chan_roles sp rp)(0 := recv_role rp')"
  by (rule ext) (simp add: chan_roles_def split: nat.split)

lemmas recv_simps = recv_role_def recv_reads_def recv_hand_def idle_role_def

section \<open>Claims\<close>

text \<open>
  Who has claimed a bucket, and the frame from which the message of the bucket is still to be
  moved.
\<close>

fun send_claim :: "send_pc \<Rightarrow> nat option" where
  "send_claim (SWrite w m i) = Some (unat i)"
| "send_claim (SFill w m i) = Some (unat i)"
| "send_claim _ = None"

definition recv_claim :: "'a recv_pc \<Rightarrow> nat option" where
  "recv_claim p = (case p of RRead h \<Rightarrow> Some (unat h) | RFill _ h _ \<Rightarrow> Some (unat h)
     | RMsg _ h _ \<Rightarrow> Some (unat h) | _ \<Rightarrow> None)"

definition chan_claim :: "(tid \<Rightarrow> send_pc) \<Rightarrow> 'a recv_pc \<Rightarrow> tid \<Rightarrow> nat option" where
  "chan_claim sp rp u = (case u of 0 \<Rightarrow> recv_claim rp | Suc t \<Rightarrow> send_claim (sp t))"

lemma chan_claim_simps [simp]:
  "chan_claim sp rp 0 = recv_claim rp" "chan_claim sp rp (Suc t) = send_claim (sp t)"
  by (simp_all add: chan_claim_def)

lemma chan_claim_send: "chan_claim (sp(t := p)) rp = (chan_claim sp rp)(Suc t := send_claim p)"
  by (rule ext) (simp add: chan_claim_def split: nat.split)

lemma chan_claim_recv: "chan_claim sp rp' = (chan_claim sp rp)(0 := recv_claim rp')"
  by (rule ext) (simp add: chan_claim_def split: nat.split)

fun send_from :: "send_pc \<Rightarrow> usize option" where
  "send_from (SWrite w m i) = Some m"
| "send_from _ = None"

definition recv_from :: "heap \<Rightarrow> 'a recv_pc \<Rightarrow> usize option" where
  "recv_from h p = (case p of RFill _ _ w \<Rightarrow> Some (msg h w) | RMsg _ _ w \<Rightarrow> Some (msg h w) | _ \<Rightarrow> None)"

definition chan_from :: "heap \<Rightarrow> (tid \<Rightarrow> send_pc) \<Rightarrow> 'a recv_pc \<Rightarrow> tid \<Rightarrow> usize option" where
  "chan_from h sp rp u = (case u of 0 \<Rightarrow> recv_from h rp | Suc t \<Rightarrow> send_from (sp t))"

lemma chan_from_simps [simp]:
  "chan_from h sp rp 0 = recv_from h rp" "chan_from h sp rp (Suc t) = send_from (sp t)"
  by (simp_all add: chan_from_def)

text \<open>The message of a bucket.\<close>

definition chan_val ::
  "heap \<Rightarrow> 'a mail \<Rightarrow> 'a bucket list \<Rightarrow> (tid \<Rightarrow> send_pc) \<Rightarrow> 'a recv_pc \<Rightarrow> nat \<Rightarrow> 'a \<Rightarrow> bool" where
  "chan_val h mail bs sp rp b v \<longleftrightarrow>
     (\<exists>u m. chan_claim sp rp u = Some b \<and> chan_from h sp rp u = Some m \<and> mail m = Some (Some v)) \<or>
     (\<forall>u. chan_claim sp rp u = Some b \<longrightarrow> chan_from h sp rp u = None) \<and> bk_data (bs ! b) = Some v"

lemma chan_val_cong:
  assumes "\<And>u. chan_claim sp' rp' u = Some b \<longleftrightarrow> chan_claim sp rp u = Some b"
    and "\<And>u. chan_claim sp rp u = Some b \<Longrightarrow> chan_from h' sp' rp' u = chan_from h sp rp u"
    and "\<And>u m. chan_claim sp rp u = Some b \<Longrightarrow> chan_from h sp rp u = Some m \<Longrightarrow> mail' m = mail m"
    and "bk_data (bs' ! b) = bk_data (bs ! b)"
  shows "chan_val h' mail' bs' sp' rp' b v \<longleftrightarrow> chan_val h mail bs sp rp b v"
proof -
  have "(\<exists>u m. chan_claim sp' rp' u = Some b \<and> chan_from h' sp' rp' u = Some m \<and> mail' m = Some (Some v)) \<longleftrightarrow>
      (\<exists>u m. chan_claim sp rp u = Some b \<and> chan_from h sp rp u = Some m \<and> mail m = Some (Some v))"
    using assms(1-3) by metis
  moreover have "(\<forall>u. chan_claim sp' rp' u = Some b \<longrightarrow> chan_from h' sp' rp' u = None) \<longleftrightarrow>
      (\<forall>u. chan_claim sp rp u = Some b \<longrightarrow> chan_from h sp rp u = None)"
    using assms(1,2) by metis
  ultimately show ?thesis unfolding chan_val_def assms(4) by simp
qed

lemma chan_val_from:
  assumes "chan_claim sp rp u = Some b" "chan_from h sp rp u = Some m"
    and "\<And>v. chan_claim sp rp v = Some b \<Longrightarrow> v = u"
  shows "chan_val h mail bs sp rp b v \<longleftrightarrow> mail m = Some (Some v)"
  using assms unfolding chan_val_def by (metis option.distinct(1) option.inject)

lemma chan_val_data:
  assumes "\<And>u. chan_claim sp rp u = Some b \<Longrightarrow> chan_from h sp rp u = None"
  shows "chan_val h mail bs sp rp b v \<longleftrightarrow> bk_data (bs ! b) = Some v"
  using assms unfolding chan_val_def by auto

section \<open>Messages\<close>

fun send_mail :: "send_pc \<Rightarrow> usize option" where
  "send_mail SIdle = None"
| "send_mail (STop w m a cx) = Some m"
| "send_mail (SWait m p) = Some m"
| "send_mail (SWrite w m i) = Some m"
| "send_mail (SFill w m i) = Some m"
| "send_mail (SSwap w m) = Some m"
| "send_mail (SCall w m k) = Some m"

text \<open>The message is still in the frame of its sender.\<close>

fun send_full :: "heap \<Rightarrow> 'a recv_pc \<Rightarrow> send_pc \<Rightarrow> bool" where
  "send_full h rp (STop w m a cx) = True"
| "send_full h rp (SWrite w m i) = True"
| "send_full h rp (SWait m p) = (wkr h (wait_waiter p) \<noteq> WakerDone \<and> (\<forall>v. rp \<noteq> RWake v (wait_waiter p)))"
| "send_full h rp _ = False"

definition mail_ok :: "heap \<Rightarrow> 'a mail \<Rightarrow> (tid \<Rightarrow> send_pc) \<Rightarrow> 'a recv_pc \<Rightarrow> bool" where
  "mail_ok h mail sp rp \<longleftrightarrow>
     (\<forall>t u m. send_mail (sp t) = Some m \<and> send_mail (sp u) = Some m \<longrightarrow> t = u) \<and>
     (\<forall>t m. send_mail (sp t) = Some m \<longrightarrow> (\<exists>x. mail m = Some x \<and> (x \<noteq> None \<longleftrightarrow> send_full h rp (sp t))))"

fun send_pc_ok :: "ptr \<Rightarrow> heap \<Rightarrow> send_pc \<Rightarrow> bool" where
  "send_pc_ok f h (STop w m a cx) = (msg h w = m)"
| "send_pc_ok f h (SWait m p) = (wait_task_ok f h p \<and> msg h (wait_waiter p) = m)"
| "send_pc_ok f h _ = True"

section \<open>The receiver\<close>

text \<open>
  After the message has been moved out and before the atom is changed, the bucket is counted in
  \<open>size\<close> and not in the ring.
\<close>

definition recv_taken :: "'a recv_pc \<Rightarrow> bool" where
  "recv_taken p = (case p of RLock _ _ \<Rightarrow> True | RBorrow _ _ \<Rightarrow> True | RPop _ _ \<Rightarrow> True | RLoadW _ _ _ \<Rightarrow> True
     | RMove _ _ _ _ \<Rightarrow> True | RLoadN _ _ \<Rightarrow> True | RShrink _ _ _ \<Rightarrow> True | _ \<Rightarrow> False)"

definition at_head :: "nat \<Rightarrow> nat \<Rightarrow> usize \<Rightarrow> bool" where
  "at_head c i0 h \<longleftrightarrow> unat h = i0 mod c"

definition past_head :: "nat \<Rightarrow> nat \<Rightarrow> usize \<Rightarrow> bool" where
  "past_head c i0 h \<longleftrightarrow> 0 < i0 \<and> unat h = (i0 - 1) mod c"

definition snap_size :: "raw_futex_atom \<Rightarrow> nat" where
  "snap_size a = unat (ss_size (send_decode (fa_atom a)))"

definition recv_ok :: "nat \<Rightarrow> 'a bucket list \<Rightarrow> nat \<Rightarrow> nat \<Rightarrow> ptr list \<Rightarrow> 'a recv_pc \<Rightarrow> bool" where
  "recv_ok c bs i0 n xs p =
     (case p of
        RLoad h _ \<Rightarrow> at_head c i0 h
      | RPark h _ \<Rightarrow> at_head c i0 h
      | RCheck h _ _ \<Rightarrow> at_head c i0 h
      | RUnpark h \<Rightarrow> at_head c i0 h \<and> bk_filled (bs ! unat h)
      | RTake h \<Rightarrow> at_head c i0 h \<and> bk_filled (bs ! unat h)
      | RRead h \<Rightarrow> at_head c i0 h \<and> \<not> bk_filled (bs ! unat h)
      | RLock _ h \<Rightarrow> past_head c i0 h
      | RBorrow _ h \<Rightarrow> past_head c i0 h
      | RPop _ h \<Rightarrow> past_head c i0 h
      | RLoadW _ h _ \<Rightarrow> past_head c i0 h \<and> Suc n = c
      | RMove _ h _ a \<Rightarrow> past_head c i0 h \<and> Suc n = c \<and> snap_size a = c
      | RLoadN _ h \<Rightarrow> past_head c i0 h \<and> xs = []
      | RMsg _ h _ \<Rightarrow> bk_filled (bs ! unat h)
      | RShrink _ h a \<Rightarrow> past_head c i0 h \<and> xs = [] \<and> 0 < snap_size a \<and> (has_new_waiters a \<longrightarrow> snap_size a = c)
      | _ \<Rightarrow> True)"

definition chan_size :: "nat \<Rightarrow> 'a recv_pc \<Rightarrow> nat" where
  "chan_size n p = n + (if recv_taken p then 1 else 0)"

definition send_count :: "nat \<Rightarrow> nat \<Rightarrow> usize" where
  "send_count head n = send_encode \<lparr>ss_write_head = of_nat head, ss_size = of_nat n\<rparr>"

definition atom_ok :: "ptr \<Rightarrow> nat \<Rightarrow> ghost \<Rightarrow> raw_futex \<Rightarrow> nat \<Rightarrow> nat \<Rightarrow> 'a recv_pc \<Rightarrow> bool" where
  "atom_ok f c g fx i0 n p \<longleftrightarrow>
     fa_atom (futex_atom fx) = send_count ((i0 + n) mod c) (chan_size n p) \<and> chan_size n p \<le> c \<and>
     (g_inbox g f \<noteq> [] \<or> g_queues g f ! 0 \<noteq> [] \<longrightarrow> chan_size n p = c)"

text \<open>
  The waker of a parked receiver has been called since, or is about to be, or it is still parked
  and then a sender that has filled the bucket is about to take it.
\<close>

definition called_since :: "copy_waker \<Rightarrow> nat \<Rightarrow> copy_waker list \<Rightarrow> (tid \<Rightarrow> send_pc) \<Rightarrow> bool" where
  "called_since cx k ws sp \<longleftrightarrow> cx \<in> set (drop k ws) \<or> (\<exists>t w m. sp t = SCall w m cx)"

definition wake_ok :: "copy_waker list \<Rightarrow> bool \<Rightarrow> recv_state \<Rightarrow> (tid \<Rightarrow> send_pc) \<Rightarrow> 'a recv_pc \<Rightarrow> bool" where
  "wake_ok ws filled rs sp p =
     (case p of
        RCheck _ cx k \<Rightarrow> k \<le> length ws \<and> (rs = RecvWaiting cx \<or> called_since cx k ws sp)
      | RPend cx k \<Rightarrow> k \<le> length ws \<and>
          (rs = RecvWaiting cx \<and> (filled \<longrightarrow> (\<exists>t w m. sp t = SSwap w m)) \<or> called_since cx k ws sp)
      | _ \<Rightarrow> True)"

section \<open>The invariant\<close>

abbreviation filled_in :: "'a bucket list \<Rightarrow> nat \<Rightarrow> bool" where
  "filled_in bs \<equiv> \<lambda>b. bk_filled (bs ! b)"

definition chan_ring :: "nat \<Rightarrow> 'a chan_state \<Rightarrow> nat \<Rightarrow> 'a list \<Rightarrow> bool" where
  "chan_ring c s i0 q \<longleftrightarrow>
     ring_ok c i0 (filled_in (ch_buckets s)) (chan_claim (ch_send s) (ch_rpc s))
       (chan_val (heap (ch_world s)) (ch_mail s) (ch_buckets s) (ch_send s) (ch_rpc s)) q"

definition chan_ok ::
  "ptr \<Rightarrow> nat \<Rightarrow> 'a chan_state \<Rightarrow> ghost \<Rightarrow> raw_futex \<Rightarrow> nat \<Rightarrow> 'a list \<Rightarrow> bool" where
  "chan_ok f c s g fx i0 q \<longleftrightarrow>
     tasks_ok f 1 (ch_world s) g fx (chan_roles (ch_send s) (ch_rpc s)) \<and> chan_ring c s i0 q \<and>
     length (ch_buckets s) = c \<and> c < 2 ^ 32 \<and> unat (ch_head s) = i0 mod c \<and>
     mail_ok (heap (ch_world s)) (ch_mail s) (ch_send s) (ch_rpc s) \<and>
     (\<forall>t. send_pc_ok f (heap (ch_world s)) (ch_send s t)) \<and>
     (\<forall>t b. send_claim (ch_send s t) = Some b \<longrightarrow> \<not> bk_filled (ch_buckets s ! b)) \<and>
     recv_ok c (ch_buckets s) i0 (length q) (g_queues g f ! 0) (ch_rpc s) \<and>
     atom_ok f c g fx i0 (length q) (ch_rpc s) \<and>
     wake_ok (wakes (ch_world s)) (bk_filled (ch_buckets s ! (i0 mod c))) (ch_recv s) (ch_send s) (ch_rpc s)"

definition chan_inv :: "ptr \<Rightarrow> nat \<Rightarrow> 'a chan_state \<Rightarrow> bool" where
  "chan_inv f c s \<longleftrightarrow> (\<exists>g fx i0 q. chan_ok f c s g fx i0 q)"

lemma chan_okD:
  assumes "chan_ok f c s g fx i0 q"
  shows "tasks_ok f 1 (ch_world s) g fx (chan_roles (ch_send s) (ch_rpc s))" "chan_ring c s i0 q"
    "length (ch_buckets s) = c" "c < 2 ^ 32" "unat (ch_head s) = i0 mod c"
    "mail_ok (heap (ch_world s)) (ch_mail s) (ch_send s) (ch_rpc s)"
    "send_pc_ok f (heap (ch_world s)) (ch_send s t)"
    "send_claim (ch_send s t) = Some b \<Longrightarrow> \<not> bk_filled (ch_buckets s ! b)"
    "recv_ok c (ch_buckets s) i0 (length q) (g_queues g f ! 0) (ch_rpc s)"
    "atom_ok f c g fx i0 (length q) (ch_rpc s)"
    "wake_ok (wakes (ch_world s)) (bk_filled (ch_buckets s ! (i0 mod c))) (ch_recv s) (ch_send s) (ch_rpc s)"
  using assms unfolding chan_ok_def by blast+

end
