(* ===== verification/Chan_Step.thy ===== *)
theory Chan_Step imports Chan_Inv begin

text \<open>
  The frame of the invariant of \<open>src/mpsc.rs\<close>: the abstract queue, and what a step of one sender
  or of the receiver leaves alone in the part of the others.
\<close>

section \<open>The abstract queue\<close>

text \<open>
  The bounded queue that the channel implements. A message is sent when a bucket is claimed for
  it, by its sender or by the receiver, and received when it is moved out of the bucket.
\<close>

datatype 'a commit = Sent 'a | Received 'a

fun queue_commit :: "nat \<Rightarrow> 'a commit option \<Rightarrow> 'a list \<Rightarrow> 'a list option" where
  "queue_commit c None q = Some q"
| "queue_commit c (Some (Sent v)) q = (if length q < c then Some (q @ [v]) else None)"
| "queue_commit c (Some (Received v)) q =
     (case q of [] \<Rightarrow> None | x # q \<Rightarrow> if x = v then Some q else None)"

definition mailed :: "'a mail \<Rightarrow> usize \<Rightarrow> 'a commit option" where
  "mailed mail m = (case mail m of Some (Some v) \<Rightarrow> Some (Sent v) | _ \<Rightarrow> None)"

fun send_commit :: "'a mail \<Rightarrow> send_pc \<Rightarrow> send_pc \<Rightarrow> 'a commit option" where
  "send_commit mail (STop w m a cx) (SWrite w' m' i) = mailed mail m"
| "send_commit mail p p' = None"

definition recv_commit :: "heap \<Rightarrow> 'a mail \<Rightarrow> 'a recv_pc \<Rightarrow> 'a recv_pc \<Rightarrow> 'a commit option" where
  "recv_commit h mail p p' =
     (case (p, p') of
        (RRead _, RLock v _) \<Rightarrow> Some (Received v)
      | (RMove _ _ _ _, RFill _ _ w) \<Rightarrow> mailed mail (msg h w)
      | (RShrink _ _ _, RFill _ _ w) \<Rightarrow> mailed mail (msg h w)
      | _ \<Rightarrow> None)"

definition chan_commit :: "'a chan_event \<Rightarrow> 'a chan_state \<Rightarrow> 'a chan_state \<Rightarrow> 'a commit option" where
  "chan_commit e s s' =
     (case e of
        Snd t _ \<Rightarrow> send_commit (ch_mail s) (ch_send s t) (ch_send s' t)
      | Rcv _ \<Rightarrow> recv_commit (heap (ch_world s)) (ch_mail s) (ch_rpc s) (ch_rpc s'))"

definition chan_abs :: "ptr \<Rightarrow> nat \<Rightarrow> 'a chan_state \<Rightarrow> 'a list \<Rightarrow> bool" where
  "chan_abs f c s q \<longleftrightarrow> (\<exists>g fx i0. chan_ok f c s g fx i0 q)"

text \<open>A result that keeps the invariant and moves the queue as the step commits.\<close>

definition chan_good :: "ptr \<Rightarrow> nat \<Rightarrow> 'a chan_event \<Rightarrow> 'a chan_state \<Rightarrow> 'a list \<Rightarrow> 'a chan_state res \<Rightarrow> bool" where
  "chan_good f c e s q r \<longleftrightarrow>
     (\<exists>s' q'. r = Inr s' \<and> chan_abs f c s' q' \<and> queue_commit c (chan_commit e s s') q = Some q')"

lemma chan_goodI:
  "chan_ok f c s' g fx i0 q' \<Longrightarrow> queue_commit c (chan_commit e s s') q = Some q' \<Longrightarrow>
     chan_good f c e s q (Inr s')"
  by (auto simp: chan_good_def chan_abs_def)

section \<open>The atom\<close>

lemma chan_bounds:
  assumes ok: "chan_ok f c s g fx i0 q"
  shows "0 < c" "unat (of_nat c :: usize) = c" "length q \<le> chan_size (length q) (ch_rpc s)"
    "chan_size (length q) (ch_rpc s) \<le> c"
    "send_decode (fa_atom (futex_atom fx)) =
       \<lparr>ss_write_head = of_nat ((i0 + length q) mod c), ss_size = of_nat (chan_size (length q) (ch_rpc s))\<rparr>"
    "snap_size (futex_atom fx) = chan_size (length q) (ch_rpc s)"
    "send_encode (send_decode (fa_atom (futex_atom fx))) = fa_atom (futex_atom fx)"
proof -
  note a = chan_okD(10) [OF ok, unfolded atom_ok_def]
  show c: "0 < c" using chan_okD(2) [OF ok] by (auto simp: chan_ring_def ring_ok_def)
  have small: "unat (of_nat k :: usize) = k" if "k \<le> c" for k
    using that chan_okD(4) [OF ok] by (simp add: unat_of_nat take_bit_nat_eq_self)
  then show "unat (of_nat c :: usize) = c" by simp
  show "length q \<le> chan_size (length q) (ch_rpc s)" by (simp add: chan_size_def)
  show n: "chan_size (length q) (ch_rpc s) \<le> c" using a by simp
  have m: "(i0 + length q) mod c < c" using c by simp
  let ?st = "\<lparr>ss_write_head = of_nat ((i0 + length q) mod c), ss_size = of_nat (chan_size (length q) (ch_rpc s))\<rparr>"
  have "send_fits ?st"
    using small [OF less_imp_le [OF m]] small [OF n] m n chan_okD(4) [OF ok] by (simp add: send_fits_def)
  then show d: "send_decode (fa_atom (futex_atom fx)) = ?st"
    using a by (simp add: send_count_def send_pack.decode_encode)
  then show "snap_size (futex_atom fx) = chan_size (length q) (ch_rpc s)"
    using small [OF n] by (simp add: snap_size_def)
  show "send_encode (send_decode (fa_atom (futex_atom fx))) = fa_atom (futex_atom fx)"
    unfolding d using a by (simp add: send_count_def)
qed

lemma next_index_ok:
  assumes "c < 2 ^ 32" "0 < c" "i < 2 ^ 32"
  shows "next_index (of_nat c) (of_nat i) = Inr (of_nat (Suc i mod c))"
proof -
  have u: "unat (of_nat k :: usize) = k" if "k \<le> 2 ^ 32" for k
    using that by (simp add: unat_of_nat take_bit_nat_eq_self)
  have "(of_nat i :: usize) + 1 = of_nat (Suc i)" by simp
  moreover have "checked_plus (of_nat i :: usize) 1 = Inr (of_nat (Suc i))"
    using u [of i] u [of "Suc i"] assms by (simp add: checked_plus_def)
  moreover have "(of_nat (Suc i) :: usize) mod of_nat c = of_nat (Suc i mod c)"
  proof -
    have "Suc i mod c < c" using assms by simp
    then have "unat (of_nat (Suc i mod c) :: usize) = Suc i mod c" using u [of "Suc i mod c"] assms(1) by linarith
    then show ?thesis
      using u [of c] u [of "Suc i"] assms by (simp add: word_unat_eq_iff unat_mod_distrib del: of_nat_Suc)
  qed
  moreover have "(of_nat c :: usize) \<noteq> 0" using u [of c] assms by (auto simp: word_unat_eq_iff)
  ultimately show ?thesis by (simp add: next_index_def)
qed

text \<open>The next write head, computed from a snapshot.\<close>

lemma head_next:
  assumes ok: "chan_ok f c s g fx i0 q"
  obtains head where "next_index (chan_len s) (ss_write_head (send_decode (fa_atom a))) = Inr head"
    "futex_atom fx = a \<Longrightarrow> head = of_nat (Suc ((i0 + length q) mod c) mod c)"
proof -
  note b = chan_bounds [OF ok]
  let ?d = "send_decode (fa_atom a)"
  have "unat (ss_write_head ?d) < 2 ^ 32" using send_decode_fits by (simp add: send_fits_def)
  then have n: "next_index (chan_len s) (ss_write_head ?d) = Inr (of_nat (Suc (unat (ss_write_head ?d)) mod c))"
    using next_index_ok [of c "unat (ss_write_head ?d)"] chan_okD(3,4) [OF ok] b(1) by simp
  have u: "unat (of_nat ((i0 + length q) mod c) :: usize) = (i0 + length q) mod c"
    using chan_okD(4) [OF ok] mod_less_divisor [OF b(1), of "i0 + length q"]
    by (simp add: unat_of_nat take_bit_nat_eq_self)
  show ?thesis by (rule that [OF n]) (use u b(5) in auto)
qed

section \<open>Steps of a sender\<close>

text \<open>The message that the receiver will move is that of the sender whose waiter it has popped.\<close>

lemma sleeper_wait: "sleeper (r_stage (send_role p)) = Some w \<Longrightarrow> \<exists>m x. p = SWait m x \<and> wait_waiter x = w"
  using sleeper_waiter waiter_stage by (cases p) (auto dest!: sleeper_waiter simp: waiter_stage)

lemma hand_sleeper:
  assumes T: "tasks_ok f 1 W g fx (chan_roles sp rp)" and w: "recv_hand rp = Some w"
  obtains t m p where "sp t = SWait m p" "wait_waiter p = w" "g_loc g w = InHand 0" "wkr (heap W) w \<noteq> WakerDone"
proof -
  have loc: "g_loc g w = InHand 0"
    using tasks_in_hand [OF T, of 0 w] w by (simp add: recv_role_def)
  obtain u q where u: "sleeper (r_stage (chan_roles sp rp u)) = Some w" "parked_ok (heap W) g f w q"
    using tasks_place [OF T, of w] loc by auto
  then obtain t where "u = Suc t" by (cases u) (auto simp: recv_role_def)
  with u sleeper_wait [of "sp t" w] obtain m p where "sp t = SWait m p" "wait_waiter p = w" by auto
  then show ?thesis using that loc parked_woken(1) [OF T u(2)] by simp
qed

lemma send_claim_mail: "send_from p = Some m \<Longrightarrow> send_mail p = Some m"
  by (cases p) auto

lemma chan_from_mail:
  assumes T: "tasks_ok f 1 W g fx (chan_roles sp rp)" and p: "\<And>t. send_pc_ok f (heap W) (sp t)"
    and src: "chan_from (heap W) sp rp u = Some m"
  obtains t where "send_mail (sp t) = Some m" "send_full (heap W) rp (sp t)"
    "u = Suc t \<or> u = 0 \<and> recv_hand rp = stage_waiter (r_stage (send_role (sp t)))"
proof (cases u)
  case 0
  then obtain w where w: "recv_hand rp = Some w" "m = msg (heap W) w" "\<And>v. rp \<noteq> RWake v w" "\<And>v x. rp \<noteq> RWake v x"
    using src by (auto simp: recv_from_def recv_hand_def split: recv_pc.splits)
  obtain t m' p where t: "sp t = SWait m' p" "wait_waiter p = w" "wkr (heap W) w \<noteq> WakerDone"
    by (rule hand_sleeper [OF T w(1)]) (rule that)
  show ?thesis
  proof (rule that [of t])
    show "send_mail (sp t) = Some m" using p [of t] t w(2) by simp
    show "send_full (heap W) rp (sp t)" using t w(4) by simp
  qed (use 0 t w(1) in \<open>simp add: waiter_stage\<close>)
next
  case (Suc t)
  then have "send_mail (sp t) = Some m \<and> send_full (heap W) rp (sp t)" using src by (cases "sp t") auto
  with Suc show ?thesis by (intro that [of t]) auto
qed

lemma mail_okD:
  assumes "mail_ok h mail sp rp" "send_mail (sp t) = Some m"
  obtains x where "mail m = Some x" "x \<noteq> None \<longleftrightarrow> send_full h rp (sp t)"
    "\<And>u. send_mail (sp u) = Some m \<Longrightarrow> u = t"
  using assms unfolding mail_ok_def by metis

lemma mail_sole: "mail_ok h mail sp rp \<Longrightarrow> send_mail (sp t) = Some m \<Longrightarrow> send_mail (sp u) = Some m \<Longrightarrow> u = t"
  unfolding mail_ok_def by blast

lemma send_pc_ok_step:
  assumes "send_pc_ok f h p"
    and "\<And>v. stage_waiter (r_stage (send_role p)) = Some v \<Longrightarrow>
      msg h' v = msg h v \<and> (wkr h v = WakerDone \<longrightarrow> wkr h' v = WakerDone)"
  shows "send_pc_ok f h' p"
proof (cases p)
  case (SWait m x)
  then have "msg h' (wait_waiter x) = msg h (wait_waiter x) \<and>
      (wkr h (wait_waiter x) = WakerDone \<longrightarrow> wkr h' (wait_waiter x) = WakerDone)"
    using assms(2) waiter_stage by simp
  with SWait assms(1) show ?thesis by (cases x) auto
qed (use assms in auto)

lemma send_full_step:
  assumes "\<And>v. stage_waiter (r_stage (send_role p)) = Some v \<Longrightarrow> (wkr h' v = WakerDone \<longleftrightarrow> wkr h v = WakerDone)"
  shows "send_full h' rp p = send_full h rp p"
  using assms by (cases p) (auto simp: waiter_stage)

lemma chan_sender:
  assumes ok: "chan_ok f c s g fx i0 q"
    and s': "ch_send s' = (ch_send s)(t := p)" "ch_rpc s' = ch_rpc s" "ch_head s' = ch_head s"
      "length (ch_buckets s') = length (ch_buckets s)"
    and T: "tasks_ok f 1 (ch_world s') g' fx' ((chan_roles (ch_send s) (ch_rpc s))(Suc t := send_role p))"
    and others: "\<And>u v. u \<noteq> t \<Longrightarrow> stage_waiter (r_stage (send_role (ch_send s u))) = Some v \<Longrightarrow>
        msg (heap (ch_world s')) v = msg (heap (ch_world s)) v \<and>
        (wkr (heap (ch_world s')) v = WakerDone \<longleftrightarrow> wkr (heap (ch_world s)) v = WakerDone)"
    and p: "send_pc_ok f (heap (ch_world s')) p"
    and mail: "\<And>u m. u \<noteq> t \<Longrightarrow> send_mail (ch_send s u) = Some m \<Longrightarrow> ch_mail s' m = ch_mail s m"
      "\<And>m. send_mail p = Some m \<Longrightarrow> send_mail (ch_send s t) = Some m \<or> ch_mail s m = None"
      "\<And>m. send_mail p = Some m \<Longrightarrow>
        \<exists>x. ch_mail s' m = Some x \<and> (x \<noteq> None \<longleftrightarrow> send_full (heap (ch_world s')) (ch_rpc s) p)"
    and unfilled: "\<And>u b. send_claim (if u = t then p else ch_send s u) = Some b \<Longrightarrow> \<not> bk_filled (ch_buckets s' ! b)"
    and ring: "chan_ring c s' i0 q'"
    and recv: "recv_ok c (ch_buckets s') i0 (length q') (g_queues g' f ! 0) (ch_rpc s)"
    and atom: "atom_ok f c g' fx' i0 (length q') (ch_rpc s)"
    and wake: "wake_ok (wakes (ch_world s')) (bk_filled (ch_buckets s' ! (i0 mod c))) (ch_recv s')
        ((ch_send s)(t := p)) (ch_rpc s)"
  shows "chan_ok f c s' g' fx' i0 q'"
proof -
  note M = chan_okD(6) [OF ok, unfolded mail_ok_def]
  have sole: "send_mail (ch_send s u) \<noteq> Some m" if "send_mail p = Some m" "u \<noteq> t" for u m
    using mail(2) [OF that(1)] M that(2) by (metis option.distinct(1))
  have "mail_ok (heap (ch_world s')) (ch_mail s') (ch_send s') (ch_rpc s')"
    unfolding mail_ok_def s'
  proof (intro conjI allI impI)
    fix u v m
    assume "send_mail (((ch_send s)(t := p)) u) = Some m \<and> send_mail (((ch_send s)(t := p)) v) = Some m"
    then show "u = v" using sole M by (cases "u = t"; cases "v = t") auto
  next
    fix u m assume u: "send_mail (((ch_send s)(t := p)) u) = Some m"
    show "\<exists>x. ch_mail s' m = Some x \<and>
        (x \<noteq> None \<longleftrightarrow> send_full (heap (ch_world s')) (ch_rpc s) (((ch_send s)(t := p)) u))"
    proof (cases "u = t")
      case False
      then have "send_full (heap (ch_world s')) (ch_rpc s) (ch_send s u) = send_full (heap (ch_world s)) (ch_rpc s) (ch_send s u)"
        using others by (intro send_full_step) auto
      then show ?thesis using False u mail(1) [OF False] M by auto
    qed (use u mail(3) in simp)
  qed
  moreover have "send_pc_ok f (heap (ch_world s')) (ch_send s' u)" for u
    using p send_pc_ok_step [OF chan_okD(7) [OF ok]] others by (cases "u = t") (simp_all add: s')
  moreover have "tasks_ok f 1 (ch_world s') g' fx' (chan_roles (ch_send s') (ch_rpc s'))"
    using T by (simp add: s' chan_roles_send)
  moreover have "\<not> bk_filled (ch_buckets s' ! b)" if "send_claim (ch_send s' u) = Some b" for u b
    using that unfilled [of u] by (simp add: s' split: if_splits)
  ultimately show ?thesis
    using chan_okD(3,4,5) [OF ok] ring recv atom wake s' unfolding chan_ok_def by simp
qed

text \<open>A step that leaves the ring alone.\<close>

lemma called_since_send:
  "called_since cx k ws sp \<Longrightarrow> (\<And>w m k. sp t \<noteq> SCall w m k) \<Longrightarrow> called_since cx k ws (sp(t := p))"
  unfolding called_since_def by (metis fun_upd_apply)

lemma wake_ok_same:
  assumes "wake_ok ws b rs sp rp" "\<And>w m. sp t \<noteq> SSwap w m" "\<And>w m k. sp t \<noteq> SCall w m k"
  shows "wake_ok ws b rs (sp(t := p)) rp"
proof -
  have "\<exists>u w m. (sp(t := p)) u = SSwap w m" if "\<exists>u w m. sp u = SSwap w m"
    using that assms(2) by (metis fun_upd_apply)
  moreover have "called_since cx k ws (sp(t := p))" if "called_since cx k ws sp" for cx k
    using called_since_send [OF that, of t p] assms(3) by blast
  ultimately show ?thesis using assms(1)
    unfolding wake_ok_def by (auto split: recv_pc.splits simp del: fun_upd_apply)
qed

lemma recv_ok_lists:
  "recv_ok c bs i0 n xs rp \<Longrightarrow> xs' = xs \<or> \<not> recv_reads rp \<Longrightarrow> recv_ok c bs i0 n xs' rp"
  by (auto simp: recv_ok_def recv_reads_def split: recv_pc.splits)

lemma chan_quiet:
  assumes ok: "chan_ok f c s g fx i0 q"
    and s': "ch_send s' = (ch_send s)(t := p)" "ch_rpc s' = ch_rpc s" "ch_head s' = ch_head s"
      "ch_buckets s' = ch_buckets s"
    and T: "tasks_ok f 1 (ch_world s') g' fx' ((chan_roles (ch_send s) (ch_rpc s))(Suc t := send_role p))"
    and others: "\<And>u v. u \<noteq> t \<Longrightarrow> stage_waiter (r_stage (send_role (ch_send s u))) = Some v \<Longrightarrow>
        msg (heap (ch_world s')) v = msg (heap (ch_world s)) v \<and>
        (wkr (heap (ch_world s')) v = WakerDone \<longleftrightarrow> wkr (heap (ch_world s)) v = WakerDone)"
    and own: "\<And>v. recv_hand (ch_rpc s) = Some v \<Longrightarrow> stage_waiter (r_stage (send_role (ch_send s t))) = Some v \<Longrightarrow>
        msg (heap (ch_world s')) v = msg (heap (ch_world s)) v"
    and p: "send_pc_ok f (heap (ch_world s')) p" "send_claim p = None" "send_claim (ch_send s t) = None"
    and mail: "\<And>u m. send_mail (ch_send s u) = Some m \<Longrightarrow>
        u \<noteq> t \<or> recv_hand (ch_rpc s) = stage_waiter (r_stage (send_role (ch_send s t))) \<Longrightarrow> ch_mail s' m = ch_mail s m"
      "\<And>m. send_mail p = Some m \<Longrightarrow> send_mail (ch_send s t) = Some m \<or> ch_mail s m = None"
      "\<And>m. send_mail p = Some m \<Longrightarrow>
        \<exists>x. ch_mail s' m = Some x \<and> (x \<noteq> None \<longleftrightarrow> send_full (heap (ch_world s')) (ch_rpc s) p)"
    and lists: "g_queues g' f ! 0 = g_queues g f ! 0 \<or> \<not> recv_reads (ch_rpc s)"
    and atom: "atom_ok f c g' fx' i0 (length q) (ch_rpc s)"
    and wake: "wake_ok (wakes (ch_world s')) (bk_filled (ch_buckets s ! (i0 mod c))) (ch_recv s')
        ((ch_send s)(t := p)) (ch_rpc s)"
  shows "chan_ok f c s' g' fx' i0 q"
proof (rule chan_sender [OF ok s'(1-3) _ T others p(1)])
  have hand: "msg (heap (ch_world s')) v = msg (heap (ch_world s)) v" if v: "recv_hand (ch_rpc s) = Some v" for v
  proof -
    obtain u m x where u: "ch_send s u = SWait m x" "wait_waiter x = v"
      by (rule hand_sleeper [OF chan_okD(1) [OF ok] v]) (rule that)
    then have "stage_waiter (r_stage (send_role (ch_send s u))) = Some v" by (simp add: waiter_stage)
    then show ?thesis using own [OF v] others by (cases "u = t") auto
  qed
  have src: "chan_claim (ch_send s') (ch_rpc s') = chan_claim (ch_send s) (ch_rpc s)"
    using p by (intro ext) (simp add: s' chan_claim_send)
  have val: "chan_val (heap (ch_world s')) (ch_mail s') (ch_buckets s') (ch_send s') (ch_rpc s') b v \<longleftrightarrow>
      chan_val (heap (ch_world s)) (ch_mail s) (ch_buckets s) (ch_send s) (ch_rpc s) b v" for b v
  proof (rule chan_val_cong)
    fix u assume u: "chan_claim (ch_send s) (ch_rpc s) u = Some b"
    then have "u \<noteq> Suc t" using p by auto
    then show "chan_from (heap (ch_world s')) (ch_send s') (ch_rpc s') u = chan_from (heap (ch_world s)) (ch_send s) (ch_rpc s) u"
      using hand by (auto simp: s' chan_from_def recv_from_def recv_hand_def split: nat.splits recv_pc.splits)
    fix m assume "chan_from (heap (ch_world s)) (ch_send s) (ch_rpc s) u = Some m"
    then show "ch_mail s' m = ch_mail s m"
    proof (rule chan_from_mail [OF chan_okD(1,7) [OF ok]])
      fix v assume "send_mail (ch_send s v) = Some m"
        "u = Suc v \<or> u = 0 \<and> recv_hand (ch_rpc s) = stage_waiter (r_stage (send_role (ch_send s v)))"
      then show ?thesis using mail(1) [of v m] \<open>u \<noteq> Suc t\<close> by (cases "v = t") auto
    qed
  qed (simp_all only: src s'(4))
  show "chan_ring c s' i0 q"
    unfolding chan_ring_def src s'(4)
    by (rule ring_cong [OF chan_okD(2) [OF ok, unfolded chan_ring_def]]) (use val s'(4) in simp)
  show "recv_ok c (ch_buckets s') i0 (length q) (g_queues g' f ! 0) (ch_rpc s)"
    unfolding s' using recv_ok_lists [OF chan_okD(9) [OF ok] lists] .
  fix u b assume "send_claim (if u = t then p else ch_send s u) = Some b"
  then show "\<not> bk_filled (ch_buckets s' ! b)"
    using chan_okD(8) [OF ok, of u b] p(2) by (simp add: s' split: if_splits)
qed (use mail atom wake s' in auto)

end
