(* ===== verification/Chan_Send.thy ===== *)
theory Chan_Send imports Chan_Step begin

text \<open>
  The steps of \<open>send\<close> in \<open>src/mpsc.rs\<close>: none of them fails, and each keeps the invariant and
  moves the abstract queue as it commits.
\<close>

abbreviation send_ends :: "ptr \<Rightarrow> nat \<Rightarrow> tid \<Rightarrow> 'a send_act \<Rightarrow> 'a chan_state \<Rightarrow> 'a list \<Rightarrow>
    (send_pc \<times> 'a chan_state) res \<Rightarrow> bool" where
  "send_ends f c t act s q r \<equiv>
     chan_good f c (Snd t act) s q (mapR (\<lambda>(p, s). s\<lparr>ch_send := (ch_send s)(t := p)\<rparr>) r)"

lemma send_endsI:
  assumes "r = Inr (p, s')" "chan_ok f c (s'\<lparr>ch_send := (ch_send s')(t := p)\<rparr>) g fx i0 q'"
    "queue_commit c (send_commit (ch_mail s) (ch_send s t) p) q = Some q'"
  shows "send_ends f c t act s q r"
  using assms by (auto simp: chan_commit_def intro!: chan_goodI)

lemma send_ends_ok:
  "chan_ok f c s1 g fx i0 q' \<Longrightarrow> s1 = s'\<lparr>ch_send := (ch_send s')(t := p)\<rparr> \<Longrightarrow>
     queue_commit c (send_commit (ch_mail s) (ch_send s t) p) q = Some q' \<Longrightarrow> send_ends f c t act s q (Inr (p, s'))"
  by (rule send_endsI) simp_all

lemma send_commit_None [simp]:
  "(\<And>w m i. p' \<noteq> SWrite w m i) \<Longrightarrow> send_commit mail p p' = None"
  by (cases p; cases p') auto

lemma chan_other_waiter:
  assumes ok: "chan_ok f c s g fx i0 q" and w: "stage_waiter (r_stage (send_role (ch_send s t))) = Some w"
    and u: "u \<noteq> t" "stage_waiter (r_stage (send_role (ch_send s u))) = Some v"
  shows "v \<noteq> w"
  using tasks_sole [OF chan_okD(1) [OF ok], of "Suc t" w "Suc u"] w u by auto

section \<open>The start\<close>

lemma send_start_good:
  assumes ok: "chan_ok f c s g fx i0 q" and t: "ch_send s t = SIdle"
    and start: "send_start f cx addr m x s = Some r"
  shows "send_ends f c t act s q r"
proof -
  note T = chan_okD(1) [OF ok]
  let ?p = "STop addr m (futex_atom fx) cx" and ?R = "chan_roles (ch_send s) (ch_rpc s)"
  obtain W' where m: "ch_mail s m = None" and new: "new_waiter (ch_world s) f m 0 addr = Some W'"
    using start by (auto simp: send_start_def split: option.splits if_splits)
  have nw: "r_stage (?R (Suc t)) = NoWaiter" using t by simp
  have q: "unat (0 :: usize) < 1" by simp
  note c = tasks_create [OF T nw new q]
  have T': "tasks_ok f 1 W' g fx (?R(Suc t := send_role ?p))" using c(1) t by simp
  have r: "r = Inr (?p, s\<lparr>ch_world := W', ch_mail := (ch_mail s)(m \<mapsto> Some x)\<rparr>)"
    using start new m futex_load_eq [OF tasks_okD(2) [OF T']] by (simp add: send_start_def)
  have calm: "v \<noteq> addr \<Longrightarrow> heap W' v = heap (ch_world s) v" "wakes W' = wakes (ch_world s)" for v
    using c(2) by simp_all
  let ?s = "s\<lparr>ch_world := W', ch_mail := (ch_mail s)(m \<mapsto> Some x), ch_send := (ch_send s)(t := ?p)\<rparr>"
  have "chan_ok f c ?s g fx i0 q"
  proof (rule chan_quiet [OF ok])
    fix u v assume u: "stage_waiter (r_stage (send_role (ch_send s u))) = Some v"
    then have "v \<noteq> addr" using stage_alive [OF tasks_stage [OF T refl], of "Suc u" v] c(3) by (auto simp: alive_def)
    then show "msg (heap (ch_world ?s)) v = msg (heap (ch_world s)) v \<and>
        (wkr (heap (ch_world ?s)) v = WakerDone \<longleftrightarrow> wkr (heap (ch_world s)) v = WakerDone)"
      using calm by (simp add: msg_def wkr_def)
  next
    fix u m' assume u: "send_mail (ch_send s u) = Some m'"
    show "ch_mail ?s m' = ch_mail s m'"
      by (rule mail_okD [OF chan_okD(6) [OF ok] u]) (use m in auto)
  qed (use T' t m calm(2) c(2) chan_okD(10) [OF ok] wake_ok_same [OF chan_okD(11) [OF ok], of t ?p] in
      \<open>auto simp: msg_def waiter_new_def\<close>)
  with r t show ?thesis by (intro send_endsI [OF r]) simp_all
qed

section \<open>The return\<close>

lemma send_return:
  assumes ok: "chan_ok f c s g fx i0 q" and t: "send_mail (ch_send s t) = Some m" "send_claim (ch_send s t) = None"
    and own: "\<And>w. stage_waiter (r_stage (send_role (ch_send s t))) = Some w \<Longrightarrow> recv_hand (ch_rpc s) \<noteq> Some w"
      "stage_waiter (r_stage (send_role (ch_send s t))) \<noteq> None"
    and T: "tasks_ok f 1 W' g' fx' ((chan_roles (ch_send s) (ch_rpc s))(Suc t := idle_role))"
    and others: "\<And>u v. u \<noteq> t \<Longrightarrow> stage_waiter (r_stage (send_role (ch_send s u))) = Some v \<Longrightarrow>
        msg (heap W') v = msg (heap (ch_world s)) v \<and>
        (wkr (heap W') v = WakerDone \<longleftrightarrow> wkr (heap (ch_world s)) v = WakerDone)"
    and lists: "g_queues g' f ! 0 = g_queues g f ! 0 \<or> \<not> recv_reads (ch_rpc s)"
    and atom: "atom_ok f c g' fx' i0 (length q) (ch_rpc s)"
    and wake: "wake_ok (wakes W') (bk_filled (ch_buckets s ! (i0 mod c))) rs ((ch_send s)(t := SIdle)) (ch_rpc s)"
  shows "send_ends f c t act s q (send_done (Inr W') m (s\<lparr>ch_recv := rs\<rparr>))"
proof (rule send_endsI)
  let ?s = "s\<lparr>ch_recv := rs, ch_world := W', ch_mail := (ch_mail s)(m := None), ch_send := (ch_send s)(t := SIdle)\<rparr>"
  show "send_done (Inr W') m (s\<lparr>ch_recv := rs\<rparr>) =
      Inr (SIdle, s\<lparr>ch_recv := rs, ch_world := W', ch_mail := (ch_mail s)(m := None)\<rparr>)"
    by (simp add: send_done_def)
  have "chan_ok f c ?s g' fx' i0 q"
  proof (rule chan_quiet [OF ok])
    fix u m' assume u: "send_mail (ch_send s u) = Some m'"
      "u \<noteq> t \<or> recv_hand (ch_rpc s) = stage_waiter (r_stage (send_role (ch_send s t)))"
    then have "u \<noteq> t" using own by (metis option.exhaust)
    then have "m' \<noteq> m" using mail_sole [OF chan_okD(6) [OF ok] t(1)] u(1) by blast
    then show "ch_mail ?s m' = ch_mail s m'" by simp
  qed (use T others lists atom wake own t in auto)
  then show "chan_ok f c ((s\<lparr>ch_recv := rs, ch_world := W', ch_mail := (ch_mail s)(m := None)\<rparr>)
      \<lparr>ch_send := (ch_send (s\<lparr>ch_recv := rs, ch_world := W', ch_mail := (ch_mail s)(m := None)\<rparr>))(t := SIdle)\<rparr>)
      g' fx' i0 q"
    by simp
qed simp

section \<open>The loop\<close>

text \<open>A step that keeps the messages, the ring and the waker of the receiver.\<close>

lemma send_calm:
  assumes ok: "chan_ok f c s g fx i0 q"
    and T: "tasks_ok f 1 W' g' fx' ((chan_roles (ch_send s) (ch_rpc s))(Suc t := send_role p))"
    and calm: "calm (ch_world s) W'" "\<And>v. wkr (heap W') v = WakerDone \<longleftrightarrow> wkr (heap (ch_world s)) v = WakerDone"
    and p: "send_pc_ok f (heap W') p" "send_claim p = None" "send_claim (ch_send s t) = None"
      "send_mail p = send_mail (ch_send s t)"
      "send_full (heap W') (ch_rpc s) p = send_full (heap (ch_world s)) (ch_rpc s) (ch_send s t)"
    and t: "\<And>w m. ch_send s t \<noteq> SSwap w m" "\<And>w m k. ch_send s t \<noteq> SCall w m k"
    and lists: "g_queues g' f ! 0 = g_queues g f ! 0 \<or> \<not> recv_reads (ch_rpc s)"
    and atom: "atom_ok f c g' fx' i0 (length q) (ch_rpc s)"
  shows "send_ends f c t act s q (Inr (p, s\<lparr>ch_world := W'\<rparr>))"
proof (rule send_endsI)
  let ?s = "s\<lparr>ch_world := W', ch_send := (ch_send s)(t := p)\<rparr>"
  have "chan_ok f c ?s g' fx' i0 q"
  proof (rule chan_quiet [OF ok])
    fix m assume "send_mail p = Some m"
    with p(4) have m: "send_mail (ch_send s t) = Some m" by simp
    obtain x where "ch_mail s m = Some x" "x \<noteq> None \<longleftrightarrow> send_full (heap (ch_world s)) (ch_rpc s) (ch_send s t)"
      by (rule mail_okD [OF chan_okD(6) [OF ok] m]) (rule that)
    then show "\<exists>x. ch_mail ?s m = Some x \<and> (x \<noteq> None) = send_full (heap (ch_world ?s)) (ch_rpc s) p"
      using p(5) by (intro exI [of _ x]) simp
  next
    show "wake_ok (wakes (ch_world ?s)) (bk_filled (ch_buckets s ! (i0 mod c))) (ch_recv ?s) ((ch_send s)(t := p)) (ch_rpc s)"
      using wake_ok_same [OF chan_okD(11) [OF ok] t] calm(1) by (simp add: calm_def)
  qed (use T p(1-4) calm lists atom in \<open>simp_all add: calm_def\<close>)
  then show "chan_ok f c ((s\<lparr>ch_world := W'\<rparr>)\<lparr>ch_send := (ch_send (s\<lparr>ch_world := W'\<rparr>))(t := p)\<rparr>) g' fx' i0 q"
    by simp
  have "\<And>w m i. p \<noteq> SWrite w m i" using p(2) by auto
  then show "queue_commit c (send_commit (ch_mail s) (ch_send s t) p) q = Some q" by simp
qed simp

lemma send_retry:
  assumes ok: "chan_ok f c s g fx i0 q" and t: "ch_send s t = STop w m a cx"
    and T: "tasks_ok f 1 W1 g fx (chan_roles (ch_send s) (ch_rpc s))"
    and calm: "calm (ch_world s) W1" "\<And>v. wkr (heap W1) v = WakerDone \<longleftrightarrow> wkr (heap (ch_world s)) v = WakerDone"
  shows "send_ends f c t act s q (Inr (STop w m (futex_atom fx) cx, s\<lparr>ch_world := W1\<rparr>))"
proof (rule send_calm [OF ok _ calm])
  have "(chan_roles (ch_send s) (ch_rpc s))(Suc t := send_role (STop w m (futex_atom fx) cx)) =
      chan_roles (ch_send s) (ch_rpc s)"
    using t by (intro ext) simp
  then show "tasks_ok f 1 W1 g fx ((chan_roles (ch_send s) (ch_rpc s))(Suc t := send_role (STop w m (futex_atom fx) cx)))"
    using T by simp
  show "send_pc_ok f (heap W1) (STop w m (futex_atom fx) cx)"
    using chan_okD(7) [OF ok, of t] t calm(1) by (simp add: calm_def)
qed (use t chan_okD(10) [OF ok] in auto)

lemma send_park_good:
  assumes ok: "chan_ok f c s g fx i0 q" and t: "ch_send s t = STop w m a cx"
    and full: "\<not> ss_size (send_decode (fa_atom a)) < chan_len s"
  shows "send_ends f c t act s q (send_iter spurious f w m a cx s)"
proof -
  note T = chan_okD(1) [OF ok]
  let ?R = "chan_roles (ch_send s) (ch_rpc s)" and ?new = "send_encode (send_decode (fa_atom a))"
  let ?fx = "fx\<lparr>futex_atom := \<lparr>fa_atom = ?new, fa_inbox = w\<rparr>\<rparr>" and ?g = "push_ghost f w g"
  have st: "r_stage (?R (Suc t)) = Fresh w 0" using t by simp
  have nd: "wkr (heap (ch_world s)) w \<noteq> WakerDone" and loc: "g_loc g w = Loose"
    using tasks_stage [OF T st] by simp_all
  obtain W1 wait where p: "wait_begin spurious f (ch_world s) w a ?new cx = Inr
      (if futex_atom fx = a \<and> \<not> spurious then (Inr (Suspended wait), put_futex W1 f ?fx)
       else (Inl (futex_atom fx), W1))"
    "wait_ok f wait" "wf_waiter wait = w" "wf_current wait = a"
    "tasks_ok f 1 W1 g fx ?R" "\<forall>v. v \<noteq> w \<longrightarrow> heap W1 v = heap (ch_world s) v"
    "\<forall>v. wkr (heap W1) v = WakerDone \<longleftrightarrow> wkr (heap (ch_world s)) v = WakerDone"
    "a = futex_atom fx \<longrightarrow> tasks_ok f 1 (put_futex W1 f ?fx) ?g ?fx (?R(Suc t := (?R (Suc t))\<lparr>r_stage := Parked w 0\<rparr>))"
    by (rule wait_begin_good [OF T st, of spurious a ?new cx])
  have r: "send_iter spurious f w m a cx s = Inr
      (if futex_atom fx = a \<and> \<not> spurious then (SWait m (Suspended wait), s\<lparr>ch_world := put_futex W1 f ?fx\<rparr>)
       else (STop w m (futex_atom fx) cx, s\<lparr>ch_world := W1\<rparr>))"
    using p(1) full by (auto simp: send_iter_def inner_def Let_def)
  show ?thesis
  proof (cases "futex_atom fx = a \<and> \<not> spurious")
    case False
    have "calm (ch_world s) W1" using calm_begin [OF T st p(1) [unfolded if_not_P [OF False]]] .
    then show ?thesis unfolding r if_not_P [OF False] using p(7) by (intro send_retry [OF ok t p(5)]) auto
  next
    case True
    have a: "futex_atom fx = a" using True by simp
    have calm: "calm (ch_world s) (put_futex W1 f ?fx)" using calm_begin [OF T st p(1) [unfolded if_P [OF True]]] .
    note b = chan_bounds [OF ok]
    have size: "chan_size (length q) (ch_rpc s) = c"
      using full b(2,4,5) a chan_okD(3) [OF ok] by (simp add: word_less_nat_alt unat_of_nat take_bit_nat_eq_self)
    show ?thesis unfolding r if_P [OF True]
    proof (rule send_calm [OF ok _ calm])
      show "tasks_ok f 1 (put_futex W1 f ?fx) ?g ?fx (?R(Suc t := send_role (SWait m (Suspended wait))))"
        using p(3,8) a t by simp
      show "send_pc_ok f (heap (put_futex W1 f ?fx)) (SWait m (Suspended wait))"
        using chan_okD(7) [OF ok, of t] t calm p(2,3) by (simp add: calm_def)
      show "atom_ok f c ?g ?fx i0 (length q) (ch_rpc s)"
        using chan_okD(10) [OF ok] b(7) a size by (simp add: atom_ok_def)
      have "recv_hand (ch_rpc s) \<noteq> Some w" using tasks_in_hand [OF T, of 0 w] loc by (simp add: recv_role_def)
      then have "ch_rpc s \<noteq> RWake v w" for v by (auto simp: recv_hand_def)
      then show "send_full (heap (put_futex W1 f ?fx)) (ch_rpc s) (SWait m (Suspended wait)) =
          send_full (heap (ch_world s)) (ch_rpc s) (ch_send s t)"
        using t nd p(3,7) by simp
    qed (use t p(7) in \<open>auto simp: push_ghost_def\<close>)
  qed
qed

section \<open>Claiming a bucket\<close>

text \<open>The other buckets keep their messages.\<close>

lemma chan_val_send:
  assumes "send_claim (sp t) \<noteq> Some b" "send_claim p \<noteq> Some b" "bk_data (bs' ! b) = bk_data (bs ! b)"
    and "\<And>u m. chan_claim sp rp u = Some b \<Longrightarrow> chan_from h sp rp u = Some m \<Longrightarrow> mail' m = mail m"
  shows "chan_val h mail' bs' (sp(t := p)) rp b v \<longleftrightarrow> chan_val h mail bs sp rp b v"
proof (rule chan_val_cong [OF _ _ assms(4) assms(3)])
  fix u show "chan_claim (sp(t := p)) rp u = Some b \<longleftrightarrow> chan_claim sp rp u = Some b"
    using assms(1,2) by (cases u) (auto simp: chan_claim_def)
  assume "chan_claim sp rp u = Some b"
  then show "chan_from h (sp(t := p)) rp u = chan_from h sp rp u"
    using assms(1) by (cases u) (auto simp: chan_from_def chan_claim_def)
qed

lemma recv_ok_more: "recv_ok c bs i0 n xs rp \<Longrightarrow> chan_size n rp < c \<Longrightarrow> recv_ok c bs i0 (Suc n) xs rp"
  by (auto simp: recv_ok_def chan_size_def recv_taken_def split: recv_pc.splits)

lemma chan_claim_ring:
  assumes ok: "chan_ok f c s g fx i0 q" and n: "length q < c"
    and t: "send_claim (ch_send s t) = None" "ch_mail s m = Some (Some v)"
    and b: "unat i = (i0 + length q) mod c" and p: "p = SWrite w m i"
  shows "ring_ok c i0 (filled_in (ch_buckets s)) (chan_claim ((ch_send s)(t := p)) (ch_rpc s))
      (chan_val (heap (ch_world s)) (ch_mail s) (ch_buckets s) ((ch_send s)(t := p)) (ch_rpc s)) (q @ [v])"
proof -
  note R = chan_okD(2) [OF ok, unfolded chan_ring_def]
  note free = ring_free [OF R n]
  have claim: "chan_claim ((ch_send s)(t := p)) (ch_rpc s) = (chan_claim (ch_send s) (ch_rpc s))(Suc t \<mapsto> (i0 + length q) mod c)"
    using b p by (simp add: chan_claim_send)
  show ?thesis unfolding claim
  proof (rule ring_claim [OF R n])
    show "chan_claim (ch_send s) (ch_rpc s) (Suc t) = None" using t by simp
    fix j assume j: "j < length q"
      and val: "chan_val (heap (ch_world s)) (ch_mail s) (ch_buckets s) (ch_send s) (ch_rpc s) ((i0 + j) mod c) (q ! j)"
    have "(i0 + j) mod c \<noteq> (i0 + length q) mod c" using j n by (intro mod_window) simp_all
    then show "chan_val (heap (ch_world s)) (ch_mail s) (ch_buckets s) ((ch_send s)(t := p)) (ch_rpc s) ((i0 + j) mod c) (q ! j)"
      using val t b p by (subst chan_val_send) auto
  next
    show "chan_val (heap (ch_world s)) (ch_mail s) (ch_buckets s) ((ch_send s)(t := p)) (ch_rpc s) ((i0 + length q) mod c) v"
    proof (subst chan_val_from [where u = "Suc t" and m = m])
      fix u assume "chan_claim ((ch_send s)(t := p)) (ch_rpc s) u = Some ((i0 + length q) mod c)"
      then show "u = Suc t" using free(2) [of u] unfolding claim by (auto split: if_splits)
    qed (use t b p in auto)
  qed
qed

lemma send_claim_good:
  assumes ok: "chan_ok f c s g fx i0 q" and t: "ch_send s t = STop w m a cx"
    and room: "ss_size (send_decode (fa_atom a)) < chan_len s"
  shows "send_ends f c t act s q (send_iter spurious f w m a cx s)"
proof -
  note T = chan_okD(1) [OF ok] and b = chan_bounds [OF ok]
  let ?R = "chan_roles (ch_send s) (ch_rpc s)" and ?d = "send_decode (fa_atom a)"
  obtain head where head: "next_index (chan_len s) (ss_write_head ?d) = Inr head"
    "futex_atom fx = a \<Longrightarrow> head = of_nat (Suc ((i0 + length q) mod c) mod c)"
    by (rule head_next [OF ok]) (rule that)
  have size: "checked_plus (ss_size ?d) 1 = Inr (ss_size ?d + 1)"
    using send_decode_fits by (intro checked_plus_1 [of _ "2 ^ 32"]) (simp_all add: send_fits_def)
  let ?new = "send_encode \<lparr>ss_write_head = head, ss_size = ss_size ?d + 1\<rparr>"
  let ?fx = "fx\<lparr>futex_atom := \<lparr>fa_atom = ?new, fa_inbox = fa_inbox a\<rparr>\<rparr>"
  let ?i = "ss_write_head ?d" and ?W = "put_futex (ch_world s) f ?fx"
  have r: "send_iter spurious f w m a cx s = Inr
      (if futex_atom fx = a \<and> \<not> spurious then (SWrite w m ?i, s\<lparr>ch_world := ?W\<rparr>)
       else (STop w m (futex_atom fx) cx, s\<lparr>ch_world := ch_world s\<rparr>))"
    using room head(1) size futex_cmpxchg_weak_eq [OF tasks_okD(2) [OF T], of AcqRelT RelaxedT spurious a ?new]
    by (cases spurious; cases "futex_atom fx = a") (simp_all add: send_iter_def inner_def Let_def)
  show ?thesis
  proof (cases "futex_atom fx = a \<and> \<not> spurious")
    case False
    then show ?thesis unfolding r if_not_P [OF False] by (intro send_retry [OF ok t T]) simp_all
  next
    case True
    let ?p = "SWrite w m ?i" and ?n = "chan_size (length q) (ch_rpc s)"
    have a: "futex_atom fx = a" using True by simp
    have d: "?i = of_nat ((i0 + length q) mod c)" "ss_size ?d = of_nat ?n" using b(5) a by simp_all
    have i: "unat ?i = (i0 + length q) mod c"
      using chan_okD(4) [OF ok] mod_less_divisor [OF b(1), of "i0 + length q"]
      by (simp add: d unat_of_nat take_bit_nat_eq_self)
    have n: "?n < c"
      using room b(2,4) chan_okD(3,4) [OF ok] by (simp add: d word_less_nat_alt unat_of_nat take_bit_nat_eq_self)
    then have q: "length q < c" using b(3) by linarith
    obtain v where v: "ch_mail s m = Some (Some v)"
      using mail_okD [OF chan_okD(6) [OF ok], of t m] t by fastforce
    let ?s = "s\<lparr>ch_world := ?W, ch_send := (ch_send s)(t := ?p)\<rparr>"
    have "chan_ok f c ?s g ?fx i0 (q @ [v])"
    proof (rule chan_sender [OF ok])
      have T1: "tasks_ok f 1 ?W g ?fx ?R" by (rule tasks_put_atom [OF T]) (simp add: a)
      then show "tasks_ok f 1 (ch_world ?s) g ?fx (?R(Suc t := send_role ?p))"
        using same_role [OF T1, of "Suc t"] t by simp
      show "chan_ring c ?s i0 (q @ [v])"
        using chan_claim_ring [OF ok q _ v i refl, of t] t by (simp add: chan_ring_def)
      show "recv_ok c (ch_buckets ?s) i0 (length (q @ [v])) (g_queues g f ! 0) (ch_rpc s)"
        using recv_ok_more [OF chan_okD(9) [OF ok] n] by simp
      show "atom_ok f c g ?fx i0 (length (q @ [v])) (ch_rpc s)"
        using chan_okD(10) [OF ok] n head(2) [OF a]
        by (auto simp: atom_ok_def send_count_def chan_size_def d(2) mod_Suc_eq add.commute)
      show "wake_ok (wakes (ch_world ?s)) (bk_filled (ch_buckets ?s ! (i0 mod c))) (ch_recv ?s) ((ch_send s)(t := ?p)) (ch_rpc s)"
        using wake_ok_same [OF chan_okD(11) [OF ok], of t ?p] t by simp
      fix u k assume "send_claim (if u = t then ?p else ch_send s u) = Some k"
      then show "\<not> bk_filled (ch_buckets ?s ! k)"
        using ring_free(1) [OF chan_okD(2) [OF ok, unfolded chan_ring_def] q] chan_okD(8) [OF ok, of u k] i
        by (auto split: if_splits)
    qed (use t v in auto)
    then show ?thesis unfolding r if_P [OF True]
      by (rule send_ends_ok) (use t v q in \<open>simp_all add: mailed_def\<close>)
  qed
qed

section \<open>Filling the bucket\<close>

lemma fresh_not_hand:
  assumes ok: "chan_ok f c s g fx i0 q" and t: "r_stage (send_role (ch_send s t)) = Fresh w k"
  shows "recv_hand (ch_rpc s) \<noteq> Some w"
  using tasks_stage [OF chan_okD(1) [OF ok], of "Suc t"] t tasks_in_hand [OF chan_okD(1) [OF ok], of 0 w]
  by (simp add: recv_role_def)

lemma claim_bound:
  assumes ok: "chan_ok f c s g fx i0 q" and t: "send_claim (ch_send s t) = Some b"
  shows "b < c" "b < length (ch_buckets s)"
  using ring_okD(6) [OF chan_okD(2) [OF ok, unfolded chan_ring_def], of "Suc t" b] chan_okD(3) [OF ok] t by simp_all

lemma claim_sole:
  assumes ok: "chan_ok f c s g fx i0 q" and t: "send_claim (ch_send s t) = Some b"
    and u: "chan_claim (ch_send s) (ch_rpc s) u = Some b"
  shows "u = Suc t"
  using ring_okD(5) [OF chan_okD(2) [OF ok, unfolded chan_ring_def] u, of "Suc t"] t by simp

lemma recv_ok_buckets:
  assumes "recv_ok c bs i0 n xs rp"
    and "\<And>b. bk_filled (bs ! b) \<Longrightarrow> bk_filled (bs' ! b)"
    and "recv_claim rp = Some (i0 mod c) \<Longrightarrow> bk_filled (bs' ! (i0 mod c)) = bk_filled (bs ! (i0 mod c))"
  shows "recv_ok c bs' i0 n xs rp"
  using assms by (auto simp: recv_ok_def recv_claim_def at_head_def split: recv_pc.splits)

text \<open>The messages of all buckets when a sender moves its own.\<close>

lemma write_vals:
  assumes ok: "chan_ok f c s g fx i0 q" and t: "ch_send s t = SWrite w m i" "ch_mail s m = Some (Some x)"
    and bs: "bs = (ch_buckets s)[unat i := (ch_buckets s ! unat i)\<lparr>bk_data := Some x\<rparr>]"
  shows "chan_val (heap (ch_world s)) ((ch_mail s)(m \<mapsto> None)) bs ((ch_send s)(t := SFill w m i)) (ch_rpc s) b v \<longleftrightarrow>
    chan_val (heap (ch_world s)) (ch_mail s) (ch_buckets s) (ch_send s) (ch_rpc s) b v"
proof (cases "b = unat i")
  case False
  show ?thesis
  proof (rule chan_val_send)
    fix u m' assume u: "chan_claim (ch_send s) (ch_rpc s) u = Some b" "chan_from (heap (ch_world s)) (ch_send s) (ch_rpc s) u = Some m'"
    have "m' \<noteq> m"
    proof (rule chan_from_mail [OF chan_okD(1,7) [OF ok] u(2)])
      fix t' assume t': "send_mail (ch_send s t') = Some m'"
        "u = Suc t' \<or> u = 0 \<and> recv_hand (ch_rpc s) = stage_waiter (r_stage (send_role (ch_send s t')))"
      have "m' = m \<Longrightarrow> t' = t" using mail_sole [OF chan_okD(6) [OF ok], of t m t'] t t'(1) by simp
      moreover have "t' \<noteq> t" using t'(2) fresh_not_hand [OF ok, of t w 0] u(1) False t by auto
      ultimately show "m' \<noteq> m" by blast
    qed
    then show "((ch_mail s)(m \<mapsto> None)) m' = ch_mail s m'" by simp
  qed (use t False bs in auto)
next
  case True
  have t': "send_claim (ch_send s t) = Some b" using t True by simp
  note sole = claim_sole [OF ok t'] and b = claim_bound(2) [OF ok t']
  have "chan_val (heap (ch_world s)) (ch_mail s) (ch_buckets s) (ch_send s) (ch_rpc s) b v \<longleftrightarrow> ch_mail s m = Some (Some v)"
    by (rule chan_val_from [of _ _ "Suc t"]) (use t True sole in auto)
  moreover have "chan_val (heap (ch_world s)) ((ch_mail s)(m \<mapsto> None)) bs ((ch_send s)(t := SFill w m i)) (ch_rpc s) b v \<longleftrightarrow>
      bk_data (bs ! b) = Some v"
  proof (rule chan_val_data)
    fix u assume "chan_claim ((ch_send s)(t := SFill w m i)) (ch_rpc s) u = Some b"
    then have "u = Suc t" using sole [of u] by (cases "u = Suc t") (auto simp: chan_claim_send)
    then show "chan_from (heap (ch_world s)) ((ch_send s)(t := SFill w m i)) (ch_rpc s) u = None" by simp
  qed
  ultimately show ?thesis using t b True bs by auto
qed

lemma send_write_good:
  assumes ok: "chan_ok f c s g fx i0 q" and t: "ch_send s t = SWrite w m i"
  shows "send_ends f c t act s q (send_write w m i s)"
proof -
  note T = chan_okD(1) [OF ok]
  let ?R = "chan_roles (ch_send s) (ch_rpc s)" and ?p = "SFill w m i"
  obtain x where x: "ch_mail s m = Some (Some x)"
    using mail_okD [OF chan_okD(6) [OF ok], of t m] t by fastforce
  have b: "unat i < length (ch_buckets s)" by (rule claim_bound(2) [OF ok, of t]) (simp add: t)
  let ?bs = "(ch_buckets s)[unat i := (ch_buckets s ! unat i)\<lparr>bk_data := Some x\<rparr>]"
  let ?m = "(ch_mail s)(m \<mapsto> None)"
  have r: "send_write w m i s = Inr (?p, s\<lparr>ch_mail := ?m, ch_buckets := ?bs\<rparr>)"
    using x b by (simp add: send_write_def message_take_def put_bucket_def bucket_at_def)
  let ?s = "s\<lparr>ch_mail := ?m, ch_buckets := ?bs, ch_send := (ch_send s)(t := ?p)\<rparr>"
  have filled: "bk_filled (?bs ! k) = bk_filled (ch_buckets s ! k)" for k
    using b by (cases "k = unat i") simp_all
  have claim: "chan_claim ((ch_send s)(t := ?p)) (ch_rpc s) = chan_claim (ch_send s) (ch_rpc s)"
    using t by (intro ext) (simp add: chan_claim_send)
  have "chan_ok f c ?s g fx i0 q"
  proof (rule chan_sender [OF ok])
    show "tasks_ok f 1 (ch_world ?s) g fx (?R(Suc t := send_role ?p))"
      using same_role [OF T, of "Suc t"] t by simp
    show "chan_ring c ?s i0 q"
    proof -
      have "chan_val (heap (ch_world s)) ?m ?bs ((ch_send s)(t := ?p)) (ch_rpc s) =
          chan_val (heap (ch_world s)) (ch_mail s) (ch_buckets s) (ch_send s) (ch_rpc s)"
        by (intro ext) (rule write_vals [OF ok t x refl])
      moreover have "filled_in ?bs = filled_in (ch_buckets s)" by (intro ext) (rule filled)
      ultimately show ?thesis using chan_okD(2) [OF ok] claim by (simp add: chan_ring_def)
    qed
    show "recv_ok c (ch_buckets ?s) i0 (length q) (g_queues g f ! 0) (ch_rpc s)"
      by (rule recv_ok_buckets [OF chan_okD(9) [OF ok]]) (use filled in simp_all)
    show "wake_ok (wakes (ch_world ?s)) (bk_filled (ch_buckets ?s ! (i0 mod c))) (ch_recv ?s) ((ch_send s)(t := ?p)) (ch_rpc s)"
      using wake_ok_same [OF chan_okD(11) [OF ok], of t ?p] t filled by simp
    fix u k assume k: "send_claim (if u = t then ?p else ch_send s u) = Some k"
    then have "send_claim (ch_send s u) = Some k" using t by (auto split: if_splits)
    then show "\<not> bk_filled (ch_buckets ?s ! k)" using chan_okD(8) [OF ok] filled by simp
  next
    fix u m' assume u: "u \<noteq> t" "send_mail (ch_send s u) = Some m'"
    then have "m' \<noteq> m" using mail_okD [OF chan_okD(6) [OF ok], of t m] t by fastforce
    then show "ch_mail ?s m' = ch_mail s m'" by simp
  qed (use t chan_okD(10) [OF ok] in auto)
  then show ?thesis unfolding r by (rule send_ends_ok) simp_all
qed

text \<open>The mark may wake the receiver, which the sender looks for next.\<close>

lemma wake_ok_fill:
  assumes "wake_ok ws b rs sp rp" "\<And>w m. sp t \<noteq> SSwap w m" "\<And>w m k. sp t \<noteq> SCall w m k"
  shows "wake_ok ws b' rs (sp(t := SSwap w m)) rp"
proof -
  have "\<exists>u w' m'. (sp(t := SSwap w m)) u = SSwap w' m'" by (intro exI [of _ t]) simp
  moreover have "called_since cx k ws (sp(t := SSwap w m))" if "called_since cx k ws sp" for cx k
    using called_since_send [OF that, of t] assms(3) by blast
  ultimately show ?thesis using assms(1)
    unfolding wake_ok_def by (auto split: recv_pc.splits simp del: fun_upd_apply)
qed

lemma send_fill_good:
  assumes ok: "chan_ok f c s g fx i0 q" and t: "ch_send s t = SFill w m i"
  shows "send_ends f c t act s q (send_fill w m i s)"
proof -
  note T = chan_okD(1) [OF ok]
  let ?R = "chan_roles (ch_send s) (ch_rpc s)" and ?p = "SSwap w m"
  have t': "send_claim (ch_send s t) = Some (unat i)" using t by simp
  note b = claim_bound [OF ok t'] and sole = claim_sole [OF ok t']
  let ?bs = "(ch_buckets s)[unat i := (ch_buckets s ! unat i)\<lparr>bk_filled := True\<rparr>]"
  have r: "send_fill w m i s = Inr (?p, s\<lparr>ch_buckets := ?bs\<rparr>)"
    using b by (simp add: send_fill_def put_bucket_def bucket_at_def native_store_def)
  let ?s = "s\<lparr>ch_buckets := ?bs, ch_send := (ch_send s)(t := ?p)\<rparr>"
  have filled: "filled_in ?bs = (filled_in (ch_buckets s))(unat i := True)"
    using b by (intro ext) (auto simp: nth_list_update)
  have data: "bk_data (?bs ! k) = bk_data (ch_buckets s ! k)" for k
    using b by (cases "k = unat i") simp_all
  have claim: "chan_claim ((ch_send s)(t := ?p)) (ch_rpc s) = (chan_claim (ch_send s) (ch_rpc s))(Suc t := None)"
    by (simp add: chan_claim_send)
  have val: "chan_val (heap (ch_world s)) (ch_mail s) ?bs ((ch_send s)(t := ?p)) (ch_rpc s) k v \<longleftrightarrow>
      chan_val (heap (ch_world s)) (ch_mail s) (ch_buckets s) (ch_send s) (ch_rpc s) k v" for k v
  proof (cases "k = unat i")
    case True
    have "chan_val (heap (ch_world s)) (ch_mail s) (ch_buckets s) (ch_send s) (ch_rpc s) k v \<longleftrightarrow> bk_data (ch_buckets s ! k) = Some v"
      by (rule chan_val_data) (use sole True t in fastforce)
    moreover have "chan_val (heap (ch_world s)) (ch_mail s) ?bs ((ch_send s)(t := ?p)) (ch_rpc s) k v \<longleftrightarrow> bk_data (?bs ! k) = Some v"
      by (rule chan_val_data) (use sole True in \<open>fastforce simp: claim split: if_splits\<close>)
    ultimately show ?thesis by (simp only: data)
  next
    case False
    then show ?thesis by (intro chan_val_send) (use t data in auto)
  qed
  have "chan_ok f c ?s g fx i0 q"
  proof (rule chan_sender [OF ok])
    show "tasks_ok f 1 (ch_world ?s) g fx (?R(Suc t := send_role ?p))"
      using same_role [OF T, of "Suc t"] t by simp
    have "ring_ok c i0 ((filled_in (ch_buckets s))(unat i := True)) ((chan_claim (ch_send s) (ch_rpc s))(Suc t := None))
        (chan_val (heap (ch_world s)) (ch_mail s) ?bs ((ch_send s)(t := ?p)) (ch_rpc s)) q"
      by (rule ring_release [OF chan_okD(2) [OF ok, unfolded chan_ring_def]]) (use t val in simp_all)
    then show "chan_ring c ?s i0 q" by (simp add: chan_ring_def claim filled)
    show "recv_ok c (ch_buckets ?s) i0 (length q) (g_queues g f ! 0) (ch_rpc s)"
    proof (rule recv_ok_buckets [OF chan_okD(9) [OF ok]])
      assume "recv_claim (ch_rpc s) = Some (i0 mod c)"
      then have "unat i \<noteq> i0 mod c" using sole [of 0] by auto
      then show "bk_filled (ch_buckets ?s ! (i0 mod c)) = bk_filled (ch_buckets s ! (i0 mod c))" by simp
    qed (use fun_cong [OF filled] in simp)
    show "wake_ok (wakes (ch_world ?s)) (bk_filled (ch_buckets ?s ! (i0 mod c))) (ch_recv ?s) ((ch_send s)(t := ?p)) (ch_rpc s)"
      using wake_ok_fill [OF chan_okD(11) [OF ok], of t] t by simp
    fix u k assume k: "send_claim (if u = t then ?p else ch_send s u) = Some k"
    then have u: "u \<noteq> t" "send_claim (ch_send s u) = Some k" by (auto split: if_splits)
    then have "k \<noteq> unat i" using sole [of "Suc u"] by auto
    then show "\<not> bk_filled (ch_buckets ?s ! k)" using chan_okD(8) [OF ok u(2)] by simp
  next
    fix m' assume "send_mail ?p = Some m'"
    then show "\<exists>x. ch_mail ?s m' = Some x \<and> (x \<noteq> None) = send_full (heap (ch_world ?s)) (ch_rpc s) ?p"
      using mail_okD [OF chan_okD(6) [OF ok], of t m'] t by fastforce
  qed (use t chan_okD(10) [OF ok] in auto)
  then show ?thesis unfolding r by (rule send_ends_ok) simp_all
qed

section \<open>Waking the receiver\<close>

lemma wake_ok_taken:
  assumes ok: "wake_ok ws b (RecvWaiting k) sp rp" and t: "\<And>w m k. sp t \<noteq> SCall w m k"
  shows "wake_ok ws b rs (sp(t := SCall w m k)) rp"
proof -
  have "called_since cx n ws (sp(t := SCall w m k))" if "called_since cx n ws sp \<or> cx = k" for cx n
    using that
  proof
    assume "cx = k"
    then have "\<exists>u w' m'. (sp(t := SCall w m k)) u = SCall w' m' cx" by (intro exI [of _ t]) simp
    then show ?thesis unfolding called_since_def by (rule disjI2)
  next
    assume "called_since cx n ws sp"
    then show ?thesis using called_since_send [of cx n ws sp t] t by blast
  qed
  with ok show ?thesis unfolding wake_ok_def by (auto split: recv_pc.splits simp del: fun_upd_apply)
qed

lemma wake_ok_dirty:
  assumes ok: "wake_ok ws b RecvDirty sp rp" and t: "\<And>w m k. sp t \<noteq> SCall w m k"
  shows "wake_ok ws b' RecvDirty (sp(t := p)) rp"
proof -
  have "called_since cx n ws (sp(t := p))" if "called_since cx n ws sp" for cx n
    using called_since_send [OF that, of t p] t by blast
  with ok show ?thesis unfolding wake_ok_def by (auto split: recv_pc.splits simp del: fun_upd_apply)
qed

lemma wake_ok_called:
  assumes ok: "wake_ok ws b rs sp rp" and t: "sp t = SCall w m k"
  shows "wake_ok (ws @ [k]) b rs (sp(t := SIdle)) rp"
proof -
  have call: "called_since cx n (ws @ [k]) (sp(t := SIdle))" if "called_since cx n ws sp" "n \<le> length ws" for cx n
  proof (cases "cx = k")
    case False
    then have "\<exists>u w m. (sp(t := SIdle)) u = SCall w m cx" if "\<exists>u w m. sp u = SCall w m cx"
      using that t by (metis fun_upd_apply send_pc.inject(6))
    then show ?thesis using \<open>called_since cx n ws sp\<close> by (auto simp: called_since_def simp del: fun_upd_apply)
  qed (use that in \<open>simp add: called_since_def\<close>)
  have "\<exists>u w m. (sp(t := SIdle)) u = SSwap w m" if "\<exists>u w m. sp u = SSwap w m"
    using that t by (metis fun_upd_apply send_pc.distinct(41))
  with ok call show ?thesis unfolding wake_ok_def by (auto split: recv_pc.splits simp del: fun_upd_apply)
qed

text \<open>The return of a sender whose waiter never waited.\<close>

lemma send_return_fresh:
  assumes ok: "chan_ok f c s g fx i0 q" and t: "send_role (ch_send s t) = idle_role\<lparr>r_stage := Fresh w 0\<rparr>"
      "send_mail (ch_send s t) = Some m" "send_claim (ch_send s t) = None"
    and W: "heap W = heap (ch_world s)" "futexes W = futexes (ch_world s)"
    and wake: "wake_ok (wakes W) (bk_filled (ch_buckets s ! (i0 mod c))) rs ((ch_send s)(t := SIdle)) (ch_rpc s)"
  shows "send_ends f c t act s q (send_done (waiter_drop W w) m (s\<lparr>ch_recv := rs\<rparr>))"
proof -
  let ?R = "chan_roles (ch_send s) (ch_rpc s)"
  have T: "tasks_ok f 1 W g fx ?R" by (rule tasks_ok_cong [OF chan_okD(1) [OF ok]]) (use W in simp_all)
  have st: "r_stage (?R (Suc t)) = Fresh w 0" using t by simp
  have d: "waiter_drop W w = Inr (freed W w)"
    "tasks_ok f 1 (freed W w) g fx (?R(Suc t := (?R (Suc t))\<lparr>r_stage := NoWaiter\<rparr>))"
    using tasks_destroy [OF T, of "Suc t" w 0] st by simp_all
  show ?thesis unfolding d(1)
  proof (rule send_return [OF ok t(2,3)])
    show "tasks_ok f 1 (freed W w) g fx (?R(Suc t := idle_role))"
      using d(2) t(1) by (simp add: idle_role_def)
    show "recv_hand (ch_rpc s) \<noteq> Some v" if "stage_waiter (r_stage (send_role (ch_send s t))) = Some v" for v
      using that fresh_not_hand [OF ok, of t w 0] t by simp
    fix u v assume "u \<noteq> t" "stage_waiter (r_stage (send_role (ch_send s u))) = Some v"
    then have "v \<noteq> w" using chan_other_waiter [OF ok, of t w u v] t(1) by simp
    then show "msg (heap (freed W w)) v = msg (heap (ch_world s)) v \<and>
        (wkr (heap (freed W w)) v = WakerDone \<longleftrightarrow> wkr (heap (ch_world s)) v = WakerDone)"
      using W by (simp add: msg_def wkr_def)
  qed (use t wake chan_okD(10) [OF ok] in \<open>simp_all add: calm_freed\<close>)
qed

lemma send_swap_good:
  assumes ok: "chan_ok f c s g fx i0 q" and t: "ch_send s t = SSwap w m"
  shows "send_ends f c t act s q (send_swap w m s)"
proof (cases "ch_recv s")
  case RecvDirty
  have "wake_ok (wakes (ch_world s)) (bk_filled (ch_buckets s ! (i0 mod c))) RecvDirty ((ch_send s)(t := SIdle)) (ch_rpc s)"
    by (rule wake_ok_dirty) (use chan_okD(11) [OF ok] RecvDirty t in simp_all)
  with t RecvDirty show ?thesis
    unfolding send_swap_def native_swap_def
    by (simp, intro send_return_fresh [OF ok]) simp_all
next
  case (RecvWaiting k)
  let ?p = "SCall w m k"
  have r: "send_swap w m s = Inr (?p, s\<lparr>ch_recv := RecvDirty\<rparr>)"
    using RecvWaiting by (simp add: send_swap_def native_swap_def)
  let ?s = "s\<lparr>ch_recv := RecvDirty, ch_send := (ch_send s)(t := ?p)\<rparr>"
  have "chan_ok f c ?s g fx i0 q"
  proof (rule chan_quiet [OF ok])
    show "tasks_ok f 1 (ch_world ?s) g fx ((chan_roles (ch_send s) (ch_rpc s))(Suc t := send_role ?p))"
      using same_role [OF chan_okD(1) [OF ok], of "Suc t"] t by simp
    show "wake_ok (wakes (ch_world ?s)) (bk_filled (ch_buckets s ! (i0 mod c))) (ch_recv ?s) ((ch_send s)(t := ?p)) (ch_rpc s)"
      using wake_ok_taken [of _ _ k "ch_send s" _ t] chan_okD(11) [OF ok] RecvWaiting t by simp
    fix m' assume "send_mail ?p = Some m'"
    then show "\<exists>x. ch_mail ?s m' = Some x \<and> (x \<noteq> None) = send_full (heap (ch_world ?s)) (ch_rpc s) ?p"
      using mail_okD [OF chan_okD(6) [OF ok], of t m'] t by fastforce
  qed (use t chan_okD(10) [OF ok] in auto)
  then show ?thesis unfolding r by (rule send_ends_ok) simp_all
qed

lemma send_call_good:
  assumes ok: "chan_ok f c s g fx i0 q" and t: "ch_send s t = SCall w m k"
  shows "send_ends f c t act s q (send_done (waiter_drop (wake_call (ch_world s) k) w) m s)"
proof -
  have "wake_ok (wakes (wake_call (ch_world s) k)) (bk_filled (ch_buckets s ! (i0 mod c))) (ch_recv s)
      ((ch_send s)(t := SIdle)) (ch_rpc s)"
    using wake_ok_called [OF chan_okD(11) [OF ok] t] by (simp add: wake_call_def)
  from send_return_fresh [OF ok _ _ _ _ _ this] show ?thesis using t by simp
qed

section \<open>Waiting\<close>

lemma send_wait_good:
  assumes ok: "chan_ok f c s g fx i0 q" and t: "ch_send s t = SWait m p"
    and step: "send_wait (Suc t) act (ch_world s) p = Some r"
  shows "send_ends f c t act s q (bindR r (send_waited m s))"
proof -
  note T = chan_okD(1) [OF ok]
  let ?R = "chan_roles (ch_send s) (ch_rpc s)" and ?w = "wait_waiter p"
  have pok: "wait_task_ok f (heap (ch_world s)) p" "msg (heap (ch_world s)) ?w = m"
    using chan_okD(7) [OF ok, of t] t by simp_all
  have role: "?R (Suc t) = wait_role 0 p" using t by simp
  obtain act' where act': "wait_advance (Suc t) act' (ch_world s) p = Some r"
    using step by (cases act) (auto simp: send_wait_def)
  obtain out W' g' fx' where r: "r = Inr (out, W')" "tasks_ok f 1 W' g' fx' (?R(Suc t := out_role 0 out))"
    "out_ok f (heap W') out" "out_waiter out = ?w" "wait_moves f 0 ?w ?R (ch_world s) g fx W' g' fx'"
    using wait_advance_good [OF T role pok(1) act'] by (auto simp: wait_good_def)
  have calm: "calm (ch_world s) W'" by (rule calm_advance [OF T role pok(1) act' [unfolded r(1)]])
  have wkr: "wkr (heap W') v = WakerDone \<longleftrightarrow> wkr (heap (ch_world s)) v = WakerDone" for v
    by (rule wait_moves_lists(2) [OF r(5)])
  have lists: "g_queues g' f ! 0 = g_queues g f ! 0 \<or> \<not> recv_reads (ch_rpc s)"
  proof (cases "g' = g")
    case False
    then have "\<forall>u. \<not> r_read (?R u)" using r(5) unfolding wait_moves_def by blast
    from spec [OF this, of 0] show ?thesis by (simp add: recv_role_def)
  qed simp
  have atom: "atom_ok f c g' fx' i0 (length q) (ch_rpc s)"
    using chan_okD(10) [OF ok] wait_moves_lists(3) [OF r(5)] wait_moves_empty [OF r(5) T, of 0]
    by (auto simp: atom_ok_def)
  have wake: "wake_ok (wakes (ch_world s)) (bk_filled (ch_buckets s ! (i0 mod c))) (ch_recv s) ((ch_send s)(t := x)) (ch_rpc s)" for x
    by (rule wake_ok_same [OF chan_okD(11) [OF ok]]) (use t in auto)
  text \<open>The end of a wait.\<close>
  have ended: "send_ends f c t act s q (send_done (Inr W2) m s)"
    if off: "out_role 0 out = off_role ?w" and W2: "heap W2 = (heap W')(?w := None)" "wakes W2 = wakes W'"
      and T2: "tasks_ok f 1 W2 g' fx' (?R(Suc t := idle_role))" for W2
  proof -
    have "g_loc g' ?w = Loose" using tasks_stage [OF r(2), of "Suc t" "Off ?w"] off by simp
    then have hand: "recv_hand (ch_rpc s) \<noteq> Some ?w"
      using tasks_in_hand [OF T2, of 0 ?w] by (simp add: recv_role_def)
    have "send_ends f c t act s q (send_done (Inr W2) m (s\<lparr>ch_recv := ch_recv s\<rparr>))"
    proof (rule send_return [OF ok _ _ _ _ T2])
      fix u v assume "u \<noteq> t" "stage_waiter (r_stage (send_role (ch_send s u))) = Some v"
      then have "v \<noteq> ?w" using chan_other_waiter [OF ok, of t ?w u v] t by (simp add: waiter_stage)
      then show "msg (heap W2) v = msg (heap (ch_world s)) v \<and>
          (wkr (heap W2) v = WakerDone \<longleftrightarrow> wkr (heap (ch_world s)) v = WakerDone)"
        using wkr [of v] calm by (simp add: W2 msg_def wkr_def calm_def)
    qed (use t hand lists atom wake W2 calm in \<open>simp_all add: waiter_stage calm_def\<close>)
    then show ?thesis by simp
  qed
  show ?thesis
  proof (cases out)
    case (Still p')
    have "send_ends f c t act s q (Inr (SWait m p', s\<lparr>ch_world := W'\<rparr>))"
      by (rule send_calm [OF ok _ calm wkr])
        (use r(2-4) t lists atom pok(2) calm wkr Still in \<open>simp_all add: calm_def\<close>)
    then show ?thesis by (simp add: r(1) Still send_waited_def)
  next
    case (Returned woken wait cx)
    let ?R2 = "?R(Suc t := out_role 0 out)"
    have o: "woken" "wf_waiter wait = ?w" using r(3,4) Returned by simp_all
    have "r_stage (?R2 (Suc t)) = Off ?w" using Returned o by simp
    then have d: "waiter_drop W' ?w = Inr (freed W' ?w)"
      "tasks_ok f 1 (freed W' ?w) g' fx' (?R2(Suc t := (?R2 (Suc t))\<lparr>r_stage := NoWaiter\<rparr>))"
      using tasks_destroy [OF r(2), of "Suc t" ?w 0] by simp_all
    have "send_ends f c t act s q (send_done (Inr (freed W' ?w)) m s)"
      by (rule ended) (use d(2) Returned o in \<open>simp_all add: calm_freed\<close>)
    then show ?thesis using o d(1) by (simp add: r(1) Returned send_waited_def)
  next
    case (Cancelled k w)
    let ?R2 = "?R(Suc t := out_role 0 out)"
    have o: "w = ?w" "k = Some (wkr (heap W') ?w = WakerDone)" using r(3,4) Cancelled by simp_all
    have off: "r_stage (?R2 (Suc t)) = Off ?w" using Cancelled o by simp
    let ?W = "W'\<lparr>heap := (heap W')(?w := None)\<rparr>"
    have d1: "wait_finish W' k ?w = Inr ?W"
      using tasks_clear(1) [OF r(2) off] o(2) by (simp add: wait_finish_def)
    have d2: "tasks_ok f 1 ?W g' fx' (?R2(Suc t := (?R2 (Suc t))\<lparr>r_stage := NoWaiter\<rparr>))"
      by (rule tasks_clear(2) [OF r(2) off])
    have ens: "(if k = Some True then bindR (message_is_none (ch_mail s) m) ensure else Inr ()) = Inr ()"
    proof (cases "k = Some True")
      case True
      then have "wkr (heap (ch_world s)) ?w = WakerDone" using o(2) wkr by simp
      then have "ch_mail s m = Some None"
        using mail_okD [OF chan_okD(6) [OF ok], of t m] t by fastforce
      then show ?thesis by (simp add: message_is_none_def)
    qed simp
    have "send_ends f c t act s q (send_done (Inr ?W) m s)"
      by (rule ended) (use d2 Cancelled o in simp_all)
    then show ?thesis using ens d1 o(1) by (simp add: r(1) Cancelled send_waited_def)
  qed
qed

section \<open>A step of a sender\<close>

lemma send_task_good:
  assumes ok: "chan_ok f c s g fx i0 q" and step: "send_task f (Suc t) act s (ch_send s t) = Some r"
  shows "send_ends f c t act s q r"
proof (cases "ch_send s t")
  case SIdle
  with step show ?thesis using send_start_good [OF ok SIdle] by (cases act) (auto simp: send_task_def)
next
  case (STop w m a cx)
  with step obtain b where "r = send_iter b f w m a cx s" by (cases act) (auto simp: send_task_def)
  then show ?thesis using send_claim_good [OF ok STop] send_park_good [OF ok STop] by blast
next
  case (SWait m p)
  with step obtain r' where "send_wait (Suc t) act (ch_world s) p = Some r'" "r = bindR r' (send_waited m s)"
    by (auto simp: send_task_def)
  then show ?thesis using send_wait_good [OF ok SWait] by simp
next
  case (SWrite w m i)
  with step show ?thesis using send_write_good [OF ok SWrite] by (cases act) (auto simp: send_task_def)
next
  case (SFill w m i)
  with step show ?thesis using send_fill_good [OF ok SFill] by (cases act) (auto simp: send_task_def)
next
  case (SSwap w m)
  with step show ?thesis using send_swap_good [OF ok SSwap] by (cases act) (auto simp: send_task_def)
next
  case (SCall w m k)
  with step show ?thesis using send_call_good [OF ok SCall] by (cases act) (auto simp: send_task_def)
qed

end
