(* ===== verification/Chan_Recv.thy ===== *)
theory Chan_Recv imports Chan_Step begin

text \<open>
  The steps of \<open>recv\<close> in \<open>src/mpsc.rs\<close>: none of them fails, and each keeps the invariant and
  moves the abstract queue as it commits.
\<close>

abbreviation recv_ends :: "ptr \<Rightarrow> nat \<Rightarrow> recv_act \<Rightarrow> 'a chan_state \<Rightarrow> 'a list \<Rightarrow>
    ('a recv_pc \<times> 'a chan_state) res \<Rightarrow> bool" where
  "recv_ends f c act s q r \<equiv> chan_good f c (Rcv act) s q (mapR (\<lambda>(p, s). s\<lparr>ch_rpc := p\<rparr>) r)"

lemma recv_ends_ok:
  assumes "chan_ok f c s1 g fx i0 q'" "s1 = s'\<lparr>ch_rpc := p\<rparr>"
    "queue_commit c (recv_commit (heap (ch_world s)) (ch_mail s) (ch_rpc s) p) q = Some q'"
  shows "recv_ends f c act s q (Inr (p, s'))"
  using assms by (auto simp: chan_commit_def intro!: chan_goodI)

section \<open>Steps of the receiver\<close>

lemma chan_receiver:
  assumes ok: "chan_ok f c s g fx i0 q"
    and s': "ch_send s' = ch_send s" "length (ch_buckets s') = length (ch_buckets s)" "unat (ch_head s') = i1 mod c"
    and T: "tasks_ok f 1 (ch_world s') g' fx' ((chan_roles (ch_send s) (ch_rpc s))(0 := recv_role (ch_rpc s')))"
    and heap: "\<And>v. msg (heap (ch_world s')) v = msg (heap (ch_world s)) v"
      "\<And>v. wkr (heap (ch_world s)) v = WakerDone \<Longrightarrow> wkr (heap (ch_world s')) v = WakerDone"
    and mail: "mail_ok (heap (ch_world s')) (ch_mail s') (ch_send s) (ch_rpc s')"
    and unfilled: "\<And>t b. send_claim (ch_send s t) = Some b \<Longrightarrow> \<not> bk_filled (ch_buckets s' ! b)"
    and ring: "chan_ring c s' i1 q'"
    and recv: "recv_ok c (ch_buckets s') i1 (length q') (g_queues g' f ! 0) (ch_rpc s')"
    and atom: "atom_ok f c g' fx' i1 (length q') (ch_rpc s')"
    and wake: "wake_ok (wakes (ch_world s')) (bk_filled (ch_buckets s' ! (i1 mod c))) (ch_recv s')
        (ch_send s) (ch_rpc s')"
  shows "chan_ok f c s' g' fx' i1 q'"
proof -
  have "send_pc_ok f (heap (ch_world s')) (ch_send s t)" for t
    by (rule send_pc_ok_step [OF chan_okD(7) [OF ok]]) (use heap in auto)
  moreover have "tasks_ok f 1 (ch_world s') g' fx' (chan_roles (ch_send s') (ch_rpc s'))"
    using T chan_roles_recv [of "ch_send s" "ch_rpc s'" "ch_rpc s"] by (simp add: s')
  ultimately show ?thesis
    using chan_okD(3,4) [OF ok] s' mail unfilled ring recv atom wake unfolding chan_ok_def by simp
qed

lemma mail_ok_rpc:
  assumes "mail_ok h mail sp rp" "\<And>v. wkr h' v = WakerDone \<longleftrightarrow> wkr h v = WakerDone"
    "\<And>v w. rp \<noteq> RWake v w" "\<And>v w. p \<noteq> RWake v w"
  shows "mail_ok h' mail sp p"
proof -
  have "send_full h' p (sp t) = send_full h rp (sp t)" for t
    using assms(2-4) by (cases "sp t") auto
  with assms(1) show ?thesis by (simp add: mail_ok_def)
qed

text \<open>A step that leaves the ring and the messages alone.\<close>

lemma recv_calm:
  assumes ok: "chan_ok f c s g fx i0 q"
    and T: "tasks_ok f 1 W' g' fx' ((chan_roles (ch_send s) (ch_rpc s))(0 := recv_role p))"
    and heap: "\<And>v. msg (heap W') v = msg (heap (ch_world s)) v"
      "\<And>v. wkr (heap W') v = WakerDone \<longleftrightarrow> wkr (heap (ch_world s)) v = WakerDone"
    and p: "recv_claim p = recv_claim (ch_rpc s)" "recv_from (heap W') p = recv_from (heap (ch_world s)) (ch_rpc s)"
      "\<And>v w. ch_rpc s \<noteq> RWake v w" "\<And>v w. p \<noteq> RWake v w"
      "recv_commit (heap (ch_world s)) (ch_mail s) (ch_rpc s) p = None"
    and recv: "recv_ok c (ch_buckets s) i0 (length q) (g_queues g' f ! 0) p"
    and atom: "atom_ok f c g' fx' i0 (length q) p"
    and wake: "wake_ok (wakes W') (bk_filled (ch_buckets s ! (i0 mod c))) rs (ch_send s) p"
    and s': "s' = s\<lparr>ch_world := W', ch_recv := rs\<rparr>"
  shows "recv_ends f c act s q (Inr (p, s'))"
proof (rule recv_ends_ok)
  let ?s = "s\<lparr>ch_world := W', ch_recv := rs, ch_rpc := p\<rparr>"
  show "chan_ok f c ?s g' fx' i0 q"
  proof (rule chan_receiver [OF ok])
    show "mail_ok (heap (ch_world ?s)) (ch_mail ?s) (ch_send s) (ch_rpc ?s)"
      using mail_ok_rpc [OF chan_okD(6) [OF ok] heap(2) p(3,4)] by simp
    have claim: "chan_claim (ch_send s) p = chan_claim (ch_send s) (ch_rpc s)"
      using p(1) by (intro ext) (simp add: chan_claim_def split: nat.split)
    have src: "chan_from (heap W') (ch_send s) p = chan_from (heap (ch_world s)) (ch_send s) (ch_rpc s)"
      using p(2) by (intro ext) (simp add: chan_from_def split: nat.split)
    have "chan_val (heap W') (ch_mail s) (ch_buckets s) (ch_send s) p =
        chan_val (heap (ch_world s)) (ch_mail s) (ch_buckets s) (ch_send s) (ch_rpc s)"
      unfolding chan_val_def claim src ..
    then show "chan_ring c ?s i0 q" using chan_okD(2) [OF ok] claim by (simp add: chan_ring_def)
  qed (use T heap recv atom wake chan_okD(5,8) [OF ok] in simp_all)
  show "queue_commit c (recv_commit (heap (ch_world s)) (ch_mail s) (ch_rpc s) p) q = Some q"
    by (simp only: p(5) queue_commit.simps)
qed (simp add: s')

text \<open>A step that leaves the memory of the futex alone too.\<close>

lemma recv_still:
  assumes ok: "chan_ok f c s g fx i0 q"
    and W': "heap W' = heap (ch_world s)" "futexes W' = futexes (ch_world s)"
    and p: "recv_role p = recv_role (ch_rpc s)"
      "recv_claim p = recv_claim (ch_rpc s)" "\<And>h. recv_from h p = recv_from h (ch_rpc s)"
      "\<And>v w. ch_rpc s \<noteq> RWake v w" "\<And>v w. p \<noteq> RWake v w"
      "recv_commit (heap (ch_world s)) (ch_mail s) (ch_rpc s) p = None" "recv_taken p = recv_taken (ch_rpc s)"
    and recv: "recv_ok c (ch_buckets s) i0 (length q) (g_queues g f ! 0) p"
    and wake: "wake_ok (wakes W') (bk_filled (ch_buckets s ! (i0 mod c))) rs (ch_send s) p"
    and s': "s' = s\<lparr>ch_world := W', ch_recv := rs\<rparr>"
  shows "recv_ends f c act s q (Inr (p, s'))"
proof (rule recv_calm [OF ok _ _ _ p(2) _ p(4-6) recv _ wake s'])
  have "(chan_roles (ch_send s) (ch_rpc s))(0 := recv_role p) = chan_roles (ch_send s) (ch_rpc s)"
    using p(1) by (intro ext) simp
  then show "tasks_ok f 1 W' g fx ((chan_roles (ch_send s) (ch_rpc s))(0 := recv_role p))"
    using tasks_ok_cong [OF chan_okD(1) [OF ok] W'] by simp
  show "atom_ok f c g fx i0 (length q) p"
    using chan_okD(10) [OF ok] p(7) by (simp add: atom_ok_def chan_size_def)
qed (use W' p(3) in simp_all)

section \<open>Looking and parking\<close>

lemma head_bound:
  assumes ok: "chan_ok f c s g fx i0 q"
  shows "i0 mod c < c" "i0 mod c < length (ch_buckets s)"
  using chan_bounds(1) [OF ok] chan_okD(3) [OF ok] by simp_all

lemma recv_look_at:
  assumes ok: "chan_ok f c s g fx i0 q" and h: "at_head c i0 h"
  shows "recv_look h s = Inr (bk_filled (ch_buckets s ! (i0 mod c)))"
  using h head_bound(2) [OF ok] by (simp add: recv_look_def bucket_at_def native_load_def at_head_def)

lemmas recv_pc_simps = recv_role_def recv_reads_def recv_hand_def recv_claim_def recv_from_def
  recv_taken_def recv_commit_def recv_ok_def wake_ok_def

lemma chan_same: "s\<lparr>ch_world := ch_world s, ch_recv := ch_recv s\<rparr> = s"
  by simp

lemma recv_poll_good:
  assumes ok: "chan_ok f c s g fx i0 q" and t: "ch_rpc s = RIdle \<or> (\<exists>k n. ch_rpc s = RPend k n)"
  shows "recv_ends f c act s q (Inr (RLoad (ch_head s) cx, s))"
  by (rule recv_still [OF ok refl refl, of _ "ch_recv s"])
    (use t chan_okD(5) [OF ok] in \<open>auto simp: recv_pc_simps at_head_def\<close>)

lemma recv_leave_good:
  assumes ok: "chan_ok f c s g fx i0 q" and t: "(\<exists>v. ch_rpc s = RGot v) \<or> (\<exists>k n. ch_rpc s = RPend k n)"
  shows "recv_ends f c act s q (Inr (RIdle, s))"
  by (rule recv_still [OF ok refl refl, of _ "ch_recv s"]) (use t in \<open>auto simp: recv_pc_simps\<close>)

lemma recv_load_good:
  assumes ok: "chan_ok f c s g fx i0 q" and t: "ch_rpc s = RLoad h cx"
  shows "recv_ends f c act s q (bindR (recv_look h s) (\<lambda>filled. Inr (if filled then RTake h else RPark h cx, s)))"
proof -
  have h: "at_head c i0 h" using chan_okD(9) [OF ok] t by (simp add: recv_ok_def)
  have "recv_ends f c act s q (Inr (if bk_filled (ch_buckets s ! (i0 mod c)) then RTake h else RPark h cx, s))"
    by (rule recv_still [OF ok refl refl, of _ "ch_recv s"])
      (use t h in \<open>auto simp: recv_pc_simps at_head_def\<close>)
  then show ?thesis by (simp add: recv_look_at [OF ok h])
qed

lemma drop_old_simps [simp]:
  "heap (drop_old W old) = heap W" "futexes (drop_old W old) = futexes W" "wakes (drop_old W old) = wakes W"
  by (simp_all add: drop_old_def drop_waker_def split: recv_state.split)

lemma recv_park_good:
  assumes ok: "chan_ok f c s g fx i0 q" and t: "ch_rpc s = RPark h cx"
  shows "recv_ends f c act s q (recv_park h cx s)"
proof -
  have h: "at_head c i0 h" using chan_okD(9) [OF ok] t by (simp add: recv_ok_def)
  show ?thesis unfolding recv_park_def native_swap_def Let_def bindR_simps split
    by (rule recv_still [OF ok, of "drop_old (clone_waker (ch_world s) cx) (ch_recv s)" _ "RecvWaiting cx"])
      (use t h in \<open>auto simp: recv_pc_simps clone_waker_def\<close>)
qed

lemma recv_check_good:
  assumes ok: "chan_ok f c s g fx i0 q" and t: "ch_rpc s = RCheck h cx n"
  shows "recv_ends f c act s q (bindR (recv_look h s) (\<lambda>filled. Inr (if filled then RUnpark h else RPend cx n, s)))"
proof -
  have h: "at_head c i0 h" using chan_okD(9) [OF ok] t by (simp add: recv_ok_def)
  have "recv_ends f c act s q (Inr (if bk_filled (ch_buckets s ! (i0 mod c)) then RUnpark h else RPend cx n, s))"
    by (rule recv_still [OF ok refl refl, of _ "ch_recv s"])
      (use t h chan_okD(11) [OF ok] in \<open>auto simp: recv_pc_simps at_head_def\<close>)
  then show ?thesis by (simp add: recv_look_at [OF ok h])
qed

lemma recv_unpark_good:
  assumes ok: "chan_ok f c s g fx i0 q" and t: "ch_rpc s = RUnpark h"
  shows "recv_ends f c act s q (recv_unpark h s)"
  unfolding recv_unpark_def native_swap_def bindR_simps split
  by (rule recv_still [OF ok, of "drop_old (ch_world s) (ch_recv s)" _ RecvDirty])
    (use t chan_okD(9) [OF ok] in \<open>auto simp: recv_pc_simps\<close>)

section \<open>Taking the message\<close>

lemma recv_take_good:
  assumes ok: "chan_ok f c s g fx i0 q" and t: "ch_rpc s = RTake h"
  shows "recv_ends f c act s q (recv_take h s)"
proof -
  let ?b = "i0 mod c" and ?p = "RRead h"
  let ?bs = "(ch_buckets s)[?b := (ch_buckets s ! ?b)\<lparr>bk_filled := False\<rparr>]"
  have h: "unat h = ?b" "bk_filled (ch_buckets s ! ?b)"
    using chan_okD(9) [OF ok] t by (auto simp: recv_ok_def at_head_def)
  note b = head_bound [OF ok]
  have r: "recv_take h s = Inr (?p, s\<lparr>ch_buckets := ?bs\<rparr>)"
    using h b by (simp add: recv_take_def put_bucket_def bucket_at_def native_store_mut_def)
  let ?s = "s\<lparr>ch_buckets := ?bs, ch_rpc := ?p\<rparr>"
  have filled: "filled_in ?bs = (filled_in (ch_buckets s))(?b := False)"
    using b by (intro ext) (auto simp: nth_list_update)
  have data: "bk_data (?bs ! k) = bk_data (ch_buckets s ! k)" for k
    using b by (cases "k = ?b") simp_all
  have claim: "chan_claim (ch_send s) ?p = (chan_claim (ch_send s) (ch_rpc s))(0 \<mapsto> ?b)"
    using h(1) by (simp add: chan_claim_recv [of _ ?p "ch_rpc s"] recv_claim_def)
  have none: "chan_claim (ch_send s) (ch_rpc s) u \<noteq> Some ?b" for u
    using chan_okD(8) [OF ok, of _ ?b] h(2) t by (cases u) (auto simp: chan_claim_def recv_claim_def)
  have src: "chan_from (heap (ch_world s)) (ch_send s) ?p = chan_from (heap (ch_world s)) (ch_send s) (ch_rpc s)"
    using t by (intro ext) (simp add: chan_from_def recv_from_def split: nat.split)
  have val: "chan_val (heap (ch_world s)) (ch_mail s) ?bs (ch_send s) ?p k v \<longleftrightarrow>
      chan_val (heap (ch_world s)) (ch_mail s) (ch_buckets s) (ch_send s) (ch_rpc s) k v" for k v
  proof (cases "k = ?b")
    case True
    have "chan_val (heap (ch_world s)) (ch_mail s) (ch_buckets s) (ch_send s) (ch_rpc s) k v \<longleftrightarrow> bk_data (ch_buckets s ! k) = Some v"
      by (rule chan_val_data) (use none True in blast)
    moreover have "chan_val (heap (ch_world s)) (ch_mail s) ?bs (ch_send s) ?p k v \<longleftrightarrow> bk_data (?bs ! k) = Some v"
      by (rule chan_val_data) (use none True in \<open>auto simp: claim recv_from_def split: if_splits\<close>)
    ultimately show ?thesis by (simp only: data)
  next
    case False
    then show ?thesis by (intro chan_val_cong) (auto simp: claim src data t recv_claim_def)
  qed
  have "chan_ok f c ?s g fx i0 q"
  proof (rule chan_receiver [OF ok])
    show "tasks_ok f 1 (ch_world ?s) g fx ((chan_roles (ch_send s) (ch_rpc s))(0 := recv_role (ch_rpc ?s)))"
      using same_role [OF chan_okD(1) [OF ok], of 0 "recv_role ?p"] t by (simp add: recv_pc_simps)
    have "ring_ok c i0 ((filled_in (ch_buckets s))(?b := False)) ((chan_claim (ch_send s) (ch_rpc s))(0 \<mapsto> ?b))
        (chan_val (heap (ch_world s)) (ch_mail s) ?bs (ch_send s) ?p) q"
      by (rule ring_take [OF chan_okD(2) [OF ok, unfolded chan_ring_def] _ h(2) b(1) none])
        (use val t in \<open>simp_all add: recv_claim_def\<close>)
    then show "chan_ring c ?s i0 q" by (simp add: chan_ring_def claim filled)
    show "mail_ok (heap (ch_world ?s)) (ch_mail ?s) (ch_send s) (ch_rpc ?s)"
      using mail_ok_rpc [OF chan_okD(6) [OF ok], of _ ?p] t by simp
    fix u k assume "send_claim (ch_send s u) = Some k"
    then show "\<not> bk_filled (ch_buckets ?s ! k)" using chan_okD(8) [OF ok] fun_cong [OF filled, of k] by simp
  qed (use t h b chan_okD(5,10) [OF ok] in \<open>simp_all add: recv_pc_simps at_head_def atom_ok_def chan_size_def\<close>)
  then show ?thesis unfolding r by (rule recv_ends_ok) (use t in \<open>simp_all add: recv_commit_def\<close>)
qed

lemma recv_read_good:
  assumes ok: "chan_ok f c s g fx i0 q" and t: "ch_rpc s = RRead h"
  shows "recv_ends f c act s q (recv_read h s)"
proof -
  let ?b = "i0 mod c"
  let ?bs = "(ch_buckets s)[?b := (ch_buckets s ! ?b)\<lparr>bk_data := None\<rparr>]"
  let ?h' = "of_nat (Suc i0 mod c) :: usize"
  note R = chan_okD(2) [OF ok, unfolded chan_ring_def] and b = head_bound [OF ok]
  have h: "unat h = ?b" "\<not> bk_filled (ch_buckets s ! ?b)"
    using chan_okD(9) [OF ok] t by (auto simp: recv_ok_def at_head_def)
  have own: "chan_claim (ch_send s) (ch_rpc s) 0 = Some ?b" using t h by (simp add: recv_claim_def)
  have sole: "chan_claim (ch_send s) (ch_rpc s) u = Some ?b \<Longrightarrow> u = 0" for u
    using ring_okD(5) [OF R own, of u] by simp
  obtain v q' where q: "q = v # q'"
    "chan_val (heap (ch_world s)) (ch_mail s) (ch_buckets s) (ch_send s) (ch_rpc s) ?b v"
    "\<forall>val'. (\<forall>i<length q'.
        chan_val (heap (ch_world s)) (ch_mail s) (ch_buckets s) (ch_send s) (ch_rpc s) ((Suc i0 + i) mod c) (q' ! i) \<longrightarrow>
        val' ((Suc i0 + i) mod c) (q' ! i)) \<longrightarrow>
      ring_ok c (Suc i0) (filled_in (ch_buckets s)) ((chan_claim (ch_send s) (ch_rpc s))(0 := None)) val' q'"
    by (rule ring_drop [OF R own h(2)]) (rule that)
  let ?p = "RLock v h"
  have data: "bk_data (ch_buckets s ! ?b) = Some v"
  proof -
    have "chan_from (heap (ch_world s)) (ch_send s) (ch_rpc s) u = None"
      if "chan_claim (ch_send s) (ch_rpc s) u = Some ?b" for u
      using sole [OF that] t by (simp add: recv_from_def)
    from chan_val_data [OF this] q(2) show ?thesis by simp
  qed
  have next_h: "next_index (chan_len s) h = Inr ?h'"
  proof -
    have "unat h < 2 ^ 32" using h b chan_okD(4) [OF ok] by simp
    then have "next_index (of_nat c) (of_nat (unat h)) = Inr (of_nat (Suc (unat h) mod c) :: usize)"
      by (rule next_index_ok [OF chan_okD(4) [OF ok] chan_bounds(1) [OF ok]])
    moreover have "(of_nat (unat h) :: usize) = h" by simp
    ultimately show ?thesis using h(1) chan_okD(3) [OF ok] by (simp only:) (simp add: mod_Suc_eq)
  qed
  have r: "recv_read h s = Inr (?p, s\<lparr>ch_buckets := ?bs, ch_head := ?h'\<rparr>)"
    using h b data next_h
    by (simp add: recv_read_def put_bucket_def bucket_at_def assume_init_read_def)
  let ?s = "s\<lparr>ch_buckets := ?bs, ch_head := ?h', ch_rpc := ?p\<rparr>"
  have filled: "filled_in ?bs = filled_in (ch_buckets s)"
    using b by (intro ext) (auto simp: nth_list_update)
  have claim: "chan_claim (ch_send s) ?p = (chan_claim (ch_send s) (ch_rpc s))(0 := None)"
    by (simp add: chan_claim_recv [of _ ?p "ch_rpc s"] recv_claim_def)
  have src: "chan_from (heap (ch_world s)) (ch_send s) ?p = chan_from (heap (ch_world s)) (ch_send s) (ch_rpc s)"
    using t by (intro ext) (simp add: chan_from_def recv_from_def split: nat.split)
  have len: "length q' < c" using ring_okD(2) [OF R] q(1) by simp
  have "chan_ok f c ?s g fx (Suc i0) q'"
  proof (rule chan_receiver [OF ok])
    show "tasks_ok f 1 (ch_world ?s) g fx ((chan_roles (ch_send s) (ch_rpc s))(0 := recv_role (ch_rpc ?s)))"
      using same_role [OF chan_okD(1) [OF ok], of 0 "recv_role ?p"] t by (simp add: recv_pc_simps)
    have "ring_ok c (Suc i0) (filled_in (ch_buckets s)) ((chan_claim (ch_send s) (ch_rpc s))(0 := None))
        (chan_val (heap (ch_world s)) (ch_mail s) ?bs (ch_send s) ?p) q'"
    proof (rule q(3) [rule_format])
      fix i assume i: "i < length q'"
        and val: "chan_val (heap (ch_world s)) (ch_mail s) (ch_buckets s) (ch_send s) (ch_rpc s) ((Suc i0 + i) mod c) (q' ! i)"
      have "i0 mod c \<noteq> (Suc i0 + i) mod c" using i len by (intro mod_window) simp_all
      then show "chan_val (heap (ch_world s)) (ch_mail s) ?bs (ch_send s) ?p ((Suc i0 + i) mod c) (q' ! i)"
        using val by (subst chan_val_cong) (use own in \<open>auto simp: claim src\<close>)
    qed
    then show "chan_ring c ?s (Suc i0) q'" by (simp add: chan_ring_def claim filled)
    show "mail_ok (heap (ch_world ?s)) (ch_mail ?s) (ch_send s) (ch_rpc ?s)"
      using mail_ok_rpc [OF chan_okD(6) [OF ok], of _ ?p] t by simp
    show "\<not> bk_filled (ch_buckets ?s ! k)" if "send_claim (ch_send s u) = Some k" for u k
      using chan_okD(8) [OF ok that] fun_cong [OF filled, of k] by simp
    show "recv_ok c (ch_buckets ?s) (Suc i0) (length q') (g_queues g f ! 0) (ch_rpc ?s)"
      using h by (simp add: recv_ok_def past_head_def)
    show "atom_ok f c g fx (Suc i0) (length q') (ch_rpc ?s)"
      using chan_okD(10) [OF ok] t q(1) by (simp add: atom_ok_def chan_size_def recv_taken_def)
    have "Suc i0 mod c < 2 ^ 32" using mod_less_divisor [of c "Suc i0"] chan_bounds(1) [OF ok] chan_okD(4) [OF ok] by linarith
    then show "unat (ch_head ?s) = Suc i0 mod c" by (simp add: unat_of_nat take_bit_nat_eq_self)
  qed (simp_all add: wake_ok_def)
  then show ?thesis unfolding r
    by (rule recv_ends_ok) (use t q(1) in \<open>simp_all add: recv_commit_def\<close>)
qed

section \<open>The locks\<close>

lemma recv_lock_good:
  assumes ok: "chan_ok f c s g fx i0 q" and t: "ch_rpc s = RLock v h" and step: "futex_lock 0 (ch_world s) f = Some r"
  shows "recv_ends f c act s q (on_world s (mapR (Pair (RBorrow v h)) r))"
proof -
  have role: "recv_role (RBorrow v h) = (chan_roles (ch_send s) (ch_rpc s) 0)\<lparr>r_read := True\<rparr>"
    using t by (simp add: recv_pc_simps idle_role_def)
  obtain fx' where l: "r = Inr (put_futex (ch_world s) f fx')" "futex_atom fx' = futex_atom fx"
    "tasks_ok f 1 (put_futex (ch_world s) f fx') g fx'
      ((chan_roles (ch_send s) (ch_rpc s))(0 := (chan_roles (ch_send s) (ch_rpc s) 0)\<lparr>r_read := True\<rparr>))"
    by (rule tasks_lock [OF chan_okD(1) [OF ok] step])
  have "recv_ends f c act s q (Inr (RBorrow v h, s\<lparr>ch_world := put_futex (ch_world s) f fx'\<rparr>))"
    by (rule recv_calm [OF ok, of "put_futex (ch_world s) f fx'" g fx' _ "ch_recv s"])
      (unfold role, use l(2,3) in simp_all, use t chan_okD(9,10) [OF ok] in \<open>simp_all add: recv_pc_simps atom_ok_def chan_size_def\<close>)
  then show ?thesis by (simp add: l(1) on_world_def)
qed

lemma recv_borrow_good:
  assumes ok: "chan_ok f c s g fx i0 q" and t: "ch_rpc s = RBorrow v h"
  shows "recv_ends f c act s q (on_world s (mapR (Pair (RPop v h)) (queue_lock (ch_world s) f)))"
proof -
  have none: "\<not> r_borrow (chan_roles (ch_send s) (ch_rpc s) u)" for u
    using t by (cases u; cases "ch_send s (u - 1)") (simp_all add: recv_pc_simps idle_role_def)
  have role: "recv_role (RPop v h) = (chan_roles (ch_send s) (ch_rpc s) 0)\<lparr>r_borrow := True\<rparr>"
    using t by (simp add: recv_pc_simps idle_role_def)
  obtain fx' where l: "queue_lock (ch_world s) f = Inr (put_futex (ch_world s) f fx')" "futex_atom fx' = futex_atom fx"
    "tasks_ok f 1 (put_futex (ch_world s) f fx') g fx'
      ((chan_roles (ch_send s) (ch_rpc s))(0 := (chan_roles (ch_send s) (ch_rpc s) 0)\<lparr>r_borrow := True\<rparr>))"
    by (rule tasks_queue_lock [OF chan_okD(1) [OF ok] none])
  have "recv_ends f c act s q (Inr (RPop v h, s\<lparr>ch_world := put_futex (ch_world s) f fx'\<rparr>))"
    by (rule recv_calm [OF ok, of "put_futex (ch_world s) f fx'" g fx' _ "ch_recv s"])
      (unfold role, use l(2,3) in simp_all, use t chan_okD(9,10) [OF ok] in \<open>simp_all add: recv_pc_simps atom_ok_def chan_size_def\<close>)
  then show ?thesis by (simp add: l(1) on_world_def)
qed

lemma recv_unborrow_good:
  assumes ok: "chan_ok f c s g fx i0 q" and t: "ch_rpc s = RUnborrow v"
  shows "recv_ends f c act s q (on_world s (mapR (Pair (RUnlock v)) (queue_unlock (ch_world s) f)))"
proof -
  have b: "r_borrow (chan_roles (ch_send s) (ch_rpc s) 0)" using t by (simp add: recv_pc_simps)
  have role: "recv_role (RUnlock v) = (chan_roles (ch_send s) (ch_rpc s) 0)\<lparr>r_borrow := False\<rparr>"
    using t by (simp add: recv_pc_simps idle_role_def)
  obtain fx' where l: "queue_unlock (ch_world s) f = Inr (put_futex (ch_world s) f fx')" "futex_atom fx' = futex_atom fx"
    "tasks_ok f 1 (put_futex (ch_world s) f fx') g fx'
      ((chan_roles (ch_send s) (ch_rpc s))(0 := (chan_roles (ch_send s) (ch_rpc s) 0)\<lparr>r_borrow := False\<rparr>))"
    by (rule tasks_queue_unlock [OF chan_okD(1) [OF ok] b])
  have "recv_ends f c act s q (Inr (RUnlock v, s\<lparr>ch_world := put_futex (ch_world s) f fx'\<rparr>))"
    by (rule recv_calm [OF ok, of "put_futex (ch_world s) f fx'" g fx' _ "ch_recv s"])
      (unfold role, use l(2,3) in simp_all, use t chan_okD(9,10) [OF ok] in \<open>simp_all add: recv_pc_simps atom_ok_def chan_size_def\<close>)
  then show ?thesis by (simp add: l(1) on_world_def)
qed

lemma recv_unlock_good:
  assumes ok: "chan_ok f c s g fx i0 q" and t: "ch_rpc s = RUnlock v"
  shows "recv_ends f c act s q (on_world s (mapR (Pair (RGot v)) (futex_unlock 0 (ch_world s) f)))"
proof -
  have b: "r_hand (chan_roles (ch_send s) (ch_rpc s) 0) = None" "r_list (chan_roles (ch_send s) (ch_rpc s) 0) = []"
    using t by (simp_all add: recv_pc_simps)
  have role: "recv_role (RGot v) = (chan_roles (ch_send s) (ch_rpc s) 0)\<lparr>r_read := False\<rparr>"
    using t by (simp add: recv_pc_simps idle_role_def)
  obtain fx' where l: "futex_unlock 0 (ch_world s) f = Inr (put_futex (ch_world s) f fx')" "futex_atom fx' = futex_atom fx"
    "tasks_ok f 1 (put_futex (ch_world s) f fx') g fx'
      ((chan_roles (ch_send s) (ch_rpc s))(0 := (chan_roles (ch_send s) (ch_rpc s) 0)\<lparr>r_read := False\<rparr>))"
    by (rule tasks_unlock [OF chan_okD(1) [OF ok] b])
  have "recv_ends f c act s q (Inr (RGot v, s\<lparr>ch_world := put_futex (ch_world s) f fx'\<rparr>))"
    by (rule recv_calm [OF ok, of "put_futex (ch_world s) f fx'" g fx' _ "ch_recv s"])
      (unfold role, use l(2,3) in simp_all, use t chan_okD(9,10) [OF ok] in \<open>simp_all add: recv_pc_simps atom_ok_def chan_size_def\<close>)
  then show ?thesis by (simp add: l(1) on_world_def)
qed

section \<open>Passing the bucket on\<close>

lemma waiting_full:
  assumes ok: "chan_ok f c s g fx i0 q" and w: "g_inbox g f \<noteq> [] \<or> g_queues g f ! 0 \<noteq> []" and t: "recv_taken (ch_rpc s)"
  shows "Suc (length q) = c"
  using chan_okD(10) [OF ok] w t by (simp add: atom_ok_def chan_size_def)

lemma pop_lists:
  assumes T: "tasks_ok f 1 W g fx R"
  shows "g_queues (pop_ghost t f 0 g) f ! 0 = tl (g_queues g f ! 0)" "g_inbox (pop_ghost t f 0 g) = g_inbox g"
  using enqueue_lists(3) [OF T] by (simp_all add: pop_ghost_def)

lemma recv_pop_good:
  assumes ok: "chan_ok f c s g fx i0 q" and t: "ch_rpc s = RPop v h"
  shows "recv_ends f c act s q (on_world s (bindR (queue_pop (ch_world s) f 0) (\<lambda>(waiter, W).
      Inr (case waiter of Some w \<Rightarrow> RLoadW v h w | None \<Rightarrow> RLoadN v h, W))))"
proof -
  note T = chan_okD(1) [OF ok]
  let ?R = "chan_roles (ch_send s) (ch_rpc s)"
  have q: "unat (0 :: usize) < 1" by simp
  have h: "past_head c i0 h" using chan_okD(9) [OF ok] t by (simp add: recv_ok_def)
  show ?thesis
  proof (cases "g_queues g f ! 0")
    case Nil
    then have pop: "queue_pop (ch_world s) f 0 = Inr (None, ch_world s)"
      using tasks_pop_Nil [OF T q] by simp
    have "recv_ends f c act s q (Inr (RLoadN v h, s))"
      by (rule recv_still [OF ok refl refl, of _ "ch_recv s"]) (use t h Nil in \<open>simp_all add: recv_pc_simps\<close>)
    then show ?thesis by (simp add: pop on_world_def)
  next
    case (Cons w ws)
    have hand: "r_read (?R 0)" "r_hand (?R 0) = None" and role: "recv_role (RLoadW v h w) = (?R 0)\<lparr>r_hand := Some w\<rparr>"
      using t by (simp_all add: recv_pc_simps idle_role_def)
    obtain h' fx' where pop: "queue_pop (ch_world s) f 0 = Inr (Some w, put_futex ((ch_world s)\<lparr>heap := h'\<rparr>) f fx')"
      "futex_atom fx' = futex_atom fx" "\<And>v. wkr h' v = wkr (heap (ch_world s)) v"
      "tasks_ok f 1 (put_futex ((ch_world s)\<lparr>heap := h'\<rparr>) f fx') (pop_ghost 0 f (unat 0) g) fx'
         (?R(0 := (?R 0)\<lparr>r_hand := Some w\<rparr>))"
      by (rule tasks_pop_Cons [OF T q hand, of w ws]) (use Cons in simp_all)
    let ?W = "put_futex ((ch_world s)\<lparr>heap := h'\<rparr>) f fx'"
    have calm: "calm (ch_world s) ?W" by (rule calm_pop [OF T q hand(1) pop(1)])
    have full: "Suc (length q) = c" by (rule waiting_full [OF ok]) (use Cons t in \<open>simp_all add: recv_taken_def\<close>)
    have "recv_ends f c act s q (Inr (RLoadW v h w, s\<lparr>ch_world := ?W\<rparr>))"
    proof (rule recv_calm [OF ok])
      show "tasks_ok f 1 ?W (pop_ghost 0 f 0 g) fx' (?R(0 := recv_role (RLoadW v h w)))"
        unfolding role using pop(4) by (simp only: unat_0)
      show "atom_ok f c (pop_ghost 0 f 0 g) fx' i0 (length q) (RLoadW v h w)"
        using chan_okD(10) [OF ok] t full pop(2) by (simp add: atom_ok_def chan_size_def recv_taken_def)
      show "s\<lparr>ch_world := ?W\<rparr> = s\<lparr>ch_world := ?W, ch_recv := ch_recv s\<rparr>" by simp
    qed (use t h full calm pop(3) in \<open>simp_all add: recv_pc_simps calm_def\<close>)
    then show ?thesis by (simp add: pop(1) on_world_def)
  qed
qed

lemma recv_loadw_good:
  assumes ok: "chan_ok f c s g fx i0 q" and t: "ch_rpc s = RLoadW v h w"
  shows "recv_ends f c act s q (bindR (futex_load RelaxedT (ch_world s) f) (\<lambda>a. Inr (RMove v h w a, s)))"
proof -
  have "recv_ends f c act s q (Inr (RMove v h w (futex_atom fx), s))"
    by (rule recv_still [OF ok refl refl, of _ "ch_recv s"])
      (use t chan_okD(9) [OF ok] chan_bounds(6) [OF ok] in \<open>simp_all add: recv_pc_simps chan_size_def\<close>)
  then show ?thesis using futex_load_eq [OF tasks_okD(2) [OF chan_okD(1) [OF ok]]] by simp
qed

text \<open>The snapshot of the second loop: there is a bucket to give up, or the ring is full.\<close>

lemma shrink_snap:
  assumes ok: "chan_ok f c s g fx i0 q" and t: "recv_taken (ch_rpc s)"
  shows "0 < snap_size (futex_atom fx)" "has_new_waiters (futex_atom fx) \<Longrightarrow> snap_size (futex_atom fx) = c"
  using chan_bounds(6) [OF ok] t waiting_full [OF ok _ t] has_new_waiters_iff [OF tasks_okD(1,2) [OF chan_okD(1) [OF ok]]]
  by (auto simp: chan_size_def)

lemma recv_loadn_good:
  assumes ok: "chan_ok f c s g fx i0 q" and t: "ch_rpc s = RLoadN v h"
  shows "recv_ends f c act s q (bindR (futex_load RelaxedT (ch_world s) f) (\<lambda>a. Inr (RShrink v h a, s)))"
proof -
  have "recv_taken (ch_rpc s)" using t by (simp add: recv_taken_def)
  note snap = shrink_snap [OF ok this]
  have "recv_ends f c act s q (Inr (RShrink v h (futex_atom fx), s))"
    by (rule recv_still [OF ok refl refl, of _ "ch_recv s"])
      (use t chan_okD(9) [OF ok] snap in \<open>simp_all add: recv_pc_simps\<close>)
  then show ?thesis using futex_load_eq [OF tasks_okD(2) [OF chan_okD(1) [OF ok]]] by simp
qed

text \<open>The freed bucket follows the last one when the ring was full.\<close>

lemma past_head_end:
  assumes "past_head c i0 h" "Suc n = c"
  shows "unat h = (i0 + n) mod c"
proof -
  have "i0 + n = (i0 - 1) + c" using assms by (simp add: past_head_def)
  then have "(i0 + n) mod c = (i0 - 1) mod c" by simp
  then show ?thesis using assms(1) by (simp add: past_head_def)
qed

text \<open>The message of a popped waiter is in the frame of its sender.\<close>

lemma hand_mail:
  assumes ok: "chan_ok f c s g fx i0 q" and T: "tasks_ok f 1 W g' fx' (chan_roles (ch_send s) p)"
    and w: "recv_hand p = Some w" and same: "\<And>v. wkr (heap W) v = wkr (heap (ch_world s)) v" "\<And>v. ch_rpc s \<noteq> RWake v w"
  obtains x where "ch_mail s (msg (heap (ch_world s)) w) = Some (Some x)"
proof (rule hand_sleeper [OF T w])
  fix t m y assume t: "ch_send s t = SWait m y" "wait_waiter y = w" "wkr (heap W) w \<noteq> WakerDone"
  have m: "msg (heap (ch_world s)) w = m" using chan_okD(7) [OF ok, of t] t by simp
  have "send_mail (ch_send s t) = Some m" using t by simp
  then obtain x where "ch_mail s m = Some x" "x \<noteq> None \<longleftrightarrow> send_full (heap (ch_world s)) (ch_rpc s) (ch_send s t)"
    by (rule mail_okD [OF chan_okD(6) [OF ok]]) (rule that)
  then show thesis using that t same m by auto
qed

lemma recv_claim_ring:
  assumes ok: "chan_ok f c s g fx i0 q" and full: "Suc (length q) = c" and h: "past_head c i0 h"
    and t: "recv_claim (ch_rpc s) = None" and x: "ch_mail s (msg h' w) = Some (Some x)"
  shows "ring_ok c i0 (filled_in (ch_buckets s)) (chan_claim (ch_send s) (RFill v h w))
      (chan_val h' (ch_mail s) (ch_buckets s) (ch_send s) (RFill v h w)) (q @ [x])"
proof -
  note R = chan_okD(2) [OF ok, unfolded chan_ring_def] and b = past_head_end [OF h full]
  have n: "length q < c" using full by simp
  let ?p = "RFill v h w" and ?b = "(i0 + length q) mod c"
  have claim: "chan_claim (ch_send s) ?p = (chan_claim (ch_send s) (ch_rpc s))(0 \<mapsto> ?b)"
    using b by (simp add: chan_claim_recv [of _ ?p "ch_rpc s"] recv_claim_def)
  show ?thesis unfolding claim
  proof (rule ring_claim [OF R n])
    show "chan_claim (ch_send s) (ch_rpc s) 0 = None" using t by simp
    fix j assume j: "j < length q"
      and val: "chan_val (heap (ch_world s)) (ch_mail s) (ch_buckets s) (ch_send s) (ch_rpc s) ((i0 + j) mod c) (q ! j)"
    have ne: "(i0 + j) mod c \<noteq> ?b" using j n by (intro mod_window) simp_all
    have "chan_val h' (ch_mail s) (ch_buckets s) (ch_send s) ?p ((i0 + j) mod c) (q ! j) \<longleftrightarrow>
        chan_val (heap (ch_world s)) (ch_mail s) (ch_buckets s) (ch_send s) (ch_rpc s) ((i0 + j) mod c) (q ! j)"
    proof (rule chan_val_cong)
      fix u show "chan_claim (ch_send s) ?p u = Some ((i0 + j) mod c) \<longleftrightarrow>
          chan_claim (ch_send s) (ch_rpc s) u = Some ((i0 + j) mod c)"
        using ne t by (cases u) (auto simp: claim)
      assume "chan_claim (ch_send s) (ch_rpc s) u = Some ((i0 + j) mod c)"
      then show "chan_from h' (ch_send s) ?p u = chan_from (heap (ch_world s)) (ch_send s) (ch_rpc s) u"
        using t by (cases u) auto
    qed simp_all
    with val show "chan_val h' (ch_mail s) (ch_buckets s) (ch_send s) ?p ((i0 + j) mod c) (q ! j)" by simp
  next
    show "chan_val h' (ch_mail s) (ch_buckets s) (ch_send s) ?p ?b x"
    proof (subst chan_val_from [where u = 0 and m = "msg h' w"])
      fix u assume "chan_claim (ch_send s) ?p u = Some ?b"
      then show "u = 0" using ring_free(2) [OF R n, of u] unfolding claim by (auto split: if_splits)
    qed (use b x in \<open>simp_all add: recv_claim_def recv_from_def\<close>)
  qed
qed

text \<open>The bucket is reserved for the waiter \<open>w\<close>.\<close>

lemma recv_reserve:
  assumes ok: "chan_ok f c s g fx i0 q"
    and full: "Suc (length q) = c" and h: "past_head c i0 h"
    and t: "recv_claim (ch_rpc s) = None" "\<And>v w. ch_rpc s \<noteq> RWake v w"
    and T: "tasks_ok f 1 W g' fx' ((chan_roles (ch_send s) (ch_rpc s))(0 := recv_role (RFill v h w)))"
    and heap: "\<And>v. msg (heap W) v = msg (heap (ch_world s)) v" "\<And>v. wkr (heap W) v = wkr (heap (ch_world s)) v"
    and atom: "fa_atom (futex_atom fx') = send_encode \<lparr>ss_write_head = of_nat (Suc ((i0 + length q) mod c) mod c), ss_size = of_nat c\<rparr>"
    and commit: "recv_commit (heap (ch_world s)) (ch_mail s) (ch_rpc s) (RFill v h w) = mailed (ch_mail s) (msg (heap (ch_world s)) w)"
  shows "recv_ends f c act s q (Inr (RFill v h w, s\<lparr>ch_world := W\<rparr>))"
proof -
  let ?p = "RFill v h w"
  let ?s = "s\<lparr>ch_world := W, ch_rpc := ?p\<rparr>"
  have hand: "recv_hand ?p = Some w" by (simp add: recv_hand_def)
  have T': "tasks_ok f 1 W g' fx' (chan_roles (ch_send s) ?p)"
    using T by (simp add: chan_roles_recv [of _ ?p "ch_rpc s"])
  obtain x where x: "ch_mail s (msg (heap (ch_world s)) w) = Some (Some x)"
    by (rule hand_mail [OF ok T' hand heap(2) t(2)]) (rule that)
  have ok': "chan_ok f c ?s g' fx' i0 (q @ [x])"
  proof (rule chan_receiver [OF ok])
    show "chan_ring c ?s i0 (q @ [x])"
      using recv_claim_ring [OF ok full h t(1), of "heap W" w x v] x heap(1) by (simp add: chan_ring_def)
    show "mail_ok (heap (ch_world ?s)) (ch_mail ?s) (ch_send s) (ch_rpc ?s)"
      using mail_ok_rpc [OF chan_okD(6) [OF ok], of "heap W" ?p] t(2) heap(2) by simp
    have "(i0 + length (q @ [x])) mod c = Suc ((i0 + length q) mod c) mod c" by (simp add: mod_Suc_eq)
    then show "atom_ok f c g' fx' i0 (length (q @ [x])) (ch_rpc ?s)"
      using atom full by (simp add: atom_ok_def chan_size_def recv_taken_def send_count_def)
  qed (use T heap chan_okD(5,8) [OF ok] in \<open>simp_all add: recv_ok_def wake_ok_def\<close>)
  show ?thesis
    by (rule recv_ends_ok [OF ok']) (use commit x full in \<open>simp_all add: mailed_def\<close>)
qed

lemma snap_full:
  assumes "snap_size a = c" "length (ch_buckets s) = c" "c < 2 ^ 32"
  shows "ss_size (send_decode (fa_atom a)) = chan_len s"
proof -
  have "unat (of_nat c :: usize) = c" using assms(3) by (simp add: unat_of_nat take_bit_nat_eq_self)
  then show ?thesis using assms(1,2) by (simp add: snap_size_def word_unat_eq_iff)
qed

lemma recv_move_good:
  assumes ok: "chan_ok f c s g fx i0 q" and t: "ch_rpc s = RMove v h w a"
  shows "recv_ends f c act s q (recv_move spurious f v h w a s)"
proof -
  note T = chan_okD(1) [OF ok]
  let ?R = "chan_roles (ch_send s) (ch_rpc s)" and ?d = "send_decode (fa_atom a)"
  have h: "past_head c i0 h" "Suc (length q) = c" "snap_size a = c"
    using chan_okD(9) [OF ok] t by (simp_all add: recv_ok_def)
  have size: "ss_size ?d = chan_len s" by (rule snap_full [OF h(3) chan_okD(3,4) [OF ok]])
  obtain head where head: "next_index (chan_len s) (ss_write_head ?d) = Inr head"
    "futex_atom fx = a \<Longrightarrow> head = of_nat (Suc ((i0 + length q) mod c) mod c)"
    by (rule head_next [OF ok]) (rule that)
  let ?new = "send_encode \<lparr>ss_write_head = head, ss_size = ss_size ?d\<rparr>"
  let ?fx = "fx\<lparr>futex_atom := \<lparr>fa_atom = ?new, fa_inbox = fa_inbox a\<rparr>\<rparr>"
  let ?W = "put_futex (ch_world s) f ?fx"
  have r: "recv_move spurious f v h w a s = Inr
      (if futex_atom fx = a \<and> \<not> spurious then (RFill v h w, s\<lparr>ch_world := ?W\<rparr>)
       else (RMove v h w (futex_atom fx), s))"
    using size head(1) futex_cmpxchg_weak_eq [OF tasks_okD(2) [OF T], of AcqRelT RelaxedT spurious a ?new]
    by (cases spurious; cases "futex_atom fx = a") (simp_all add: recv_move_def inner_def Let_def)
  show ?thesis
  proof (cases "futex_atom fx = a \<and> \<not> spurious")
    case False
    have "recv_ends f c act s q (Inr (RMove v h w (futex_atom fx), s))"
      by (rule recv_still [OF ok refl refl, of _ "ch_recv s"])
        (use t h chan_bounds(6) [OF ok] in \<open>simp_all add: recv_pc_simps chan_size_def\<close>)
    then show ?thesis unfolding r if_not_P [OF False] .
  next
    case True
    have a: "futex_atom fx = a" using True by simp
    have T1: "tasks_ok f 1 ?W g ?fx ?R" by (rule tasks_put_atom [OF T]) (simp add: a)
    show ?thesis unfolding r if_P [OF True]
    proof (rule recv_reserve [OF ok h(2,1)])
      show "tasks_ok f 1 ?W g ?fx (?R(0 := recv_role (RFill v h w)))"
        using same_role [OF T1, of 0] t by (simp add: recv_pc_simps)
    qed (use t head(2) [OF a] size chan_okD(3) [OF ok] in \<open>simp_all add: recv_claim_def recv_commit_def\<close>)
  qed
qed

text \<open>The last step of the loop without queued waiters.\<close>

lemma recv_shrink_eq:
  assumes ok: "chan_ok f c s g fx i0 q" and t: "ch_rpc s = RShrink v h a"
  obtains new where "recv_shrink spurious f v h a s =
      bindR (cmpxchg_enqueue_weak spurious AcqRelT RelaxedT (ch_world s) f a (send_encode new)) (\<lambda>(ok, a, W).
        if ok then
          bindR (queue_pop W f 0) (\<lambda>(waiter, W).
            Inr (case waiter of Some w \<Rightarrow> RFill v h w | None \<Rightarrow> RUnborrow v, s\<lparr>ch_world := W\<rparr>))
        else Inr (RShrink v h a, s\<lparr>ch_world := W\<rparr>))"
    "futex_atom fx = a \<Longrightarrow> has_new_waiters a \<Longrightarrow>
       new = \<lparr>ss_write_head = of_nat (Suc ((i0 + length q) mod c) mod c), ss_size = of_nat c\<rparr>"
    "futex_atom fx = a \<Longrightarrow> \<not> has_new_waiters a \<Longrightarrow>
       new = \<lparr>ss_write_head = of_nat ((i0 + length q) mod c), ss_size = of_nat (length q)\<rparr>"
proof -
  let ?d = "send_decode (fa_atom a)"
  have h: "0 < snap_size a" "has_new_waiters a \<Longrightarrow> snap_size a = c"
    using chan_okD(9) [OF ok] t by (simp_all add: recv_ok_def)
  obtain head where head: "next_index (chan_len s) (ss_write_head ?d) = Inr head"
    "futex_atom fx = a \<Longrightarrow> head = of_nat (Suc ((i0 + length q) mod c) mod c)"
    by (rule head_next [OF ok]) (rule that)
  show ?thesis
  proof (cases "has_new_waiters a")
    case True
    have size: "ss_size ?d = chan_len s" by (rule snap_full [OF h(2) [OF True] chan_okD(3,4) [OF ok]])
    show ?thesis
      by (rule that [of "\<lparr>ss_write_head = head, ss_size = ss_size ?d\<rparr>"])
        (use True size head chan_okD(3) [OF ok] in \<open>simp_all add: recv_shrink_def inner_def Let_def\<close>)
  next
    case False
    have "ss_size ?d \<noteq> 0" using h(1) by (auto simp: snap_size_def)
    note sub = checked_minus_1 [OF this]
    show ?thesis
      by (rule that [of "\<lparr>ss_write_head = ss_write_head ?d, ss_size = ss_size ?d - 1\<rparr>"])
        (use False sub chan_bounds(5) [OF ok] t in
          \<open>simp_all add: recv_shrink_def inner_def Let_def chan_size_def recv_taken_def\<close>)
  qed
qed

lemma recv_shrink_good:
  assumes ok: "chan_ok f c s g fx i0 q" and t: "ch_rpc s = RShrink v h a"
  shows "recv_ends f c act s q (recv_shrink spurious f v h a s)"
proof -
  note T = chan_okD(1) [OF ok]
  let ?R = "chan_roles (ch_send s) (ch_rpc s)" and ?g = "enqueue_ghost (heap (ch_world s)) f g"
  have taken: "recv_taken (ch_rpc s)" using t by (simp add: recv_taken_def)
  have h: "past_head c i0 h" "g_queues g f ! 0 = []"
    using chan_okD(9) [OF ok] t by (simp_all add: recv_ok_def)
  have fo: "cas_orders s (ORDERING RelaxedT)" for s by simp
  obtain new where r: "recv_shrink spurious f v h a s =
      bindR (cmpxchg_enqueue_weak spurious AcqRelT RelaxedT (ch_world s) f a (send_encode new)) (\<lambda>(ok, a, W).
        if ok then
          bindR (queue_pop W f 0) (\<lambda>(waiter, W).
            Inr (case waiter of Some w \<Rightarrow> RFill v h w | None \<Rightarrow> RUnborrow v, s\<lparr>ch_world := W\<rparr>))
        else Inr (RShrink v h a, s\<lparr>ch_world := W\<rparr>))"
    and new: "futex_atom fx = a \<Longrightarrow> has_new_waiters a \<Longrightarrow>
       new = \<lparr>ss_write_head = of_nat (Suc ((i0 + length q) mod c) mod c), ss_size = of_nat c\<rparr>"
    "futex_atom fx = a \<Longrightarrow> \<not> has_new_waiters a \<Longrightarrow>
       new = \<lparr>ss_write_head = of_nat ((i0 + length q) mod c), ss_size = of_nat (length q)\<rparr>"
    by (rule recv_shrink_eq [OF ok t, of spurious]) (rule that)
  let ?a = "\<lparr>fa_atom = send_encode new, fa_inbox = null\<rparr>"
  obtain h' qs' where enq: "cmpxchg_enqueue_weak spurious AcqRelT RelaxedT (ch_world s) f a (send_encode new) = Inr
      (if futex_atom fx = a \<and> \<not> spurious
       then (True, a, put_futex ((ch_world s)\<lparr>heap := h'\<rparr>) f (fx\<lparr>futex_atom := ?a, queues := qs'\<rparr>))
       else (False, futex_atom fx, ch_world s))"
    "\<And>v. wkr h' v = wkr (heap (ch_world s)) v"
    "tasks_ok f 1 (put_futex ((ch_world s)\<lparr>heap := h'\<rparr>) f (fx\<lparr>futex_atom := ?a, queues := qs'\<rparr>)) ?g
      (fx\<lparr>futex_atom := ?a, queues := qs'\<rparr>) ?R"
    by (rule tasks_cmpxchg_enqueue [OF T fo, of spurious AcqRelT a "send_encode new"]) (rule that)
  let ?fx1 = "fx\<lparr>futex_atom := ?a, queues := qs'\<rparr>"
  let ?W1 = "put_futex ((ch_world s)\<lparr>heap := h'\<rparr>) f ?fx1"
  show ?thesis
  proof (cases "futex_atom fx = a \<and> \<not> spurious")
    case False
    have "recv_ends f c act s q (Inr (RShrink v h (futex_atom fx), s))"
      by (rule recv_still [OF ok refl refl, of _ "ch_recv s"])
        (use t h shrink_snap [OF ok taken] in \<open>simp_all add: recv_pc_simps\<close>)
    then show ?thesis unfolding r enq(1) if_not_P [OF False] by simp
  next
    case True
    have a: "futex_atom fx = a" using True by simp
    have calm1: "calm (ch_world s) ?W1"
      by (rule calm_enqueue [OF T fo enq(1) [unfolded if_P [OF True]]])
    have q: "unat (0 :: usize) < 1" by simp
    have lists: "g_queues ?g f ! 0 = rev (g_inbox g f)" "g_inbox ?g f = []"
      using enqueue_one [OF T] enqueue_lists(2) [OF T] h(2) by simp_all
    have iff: "has_new_waiters a \<longleftrightarrow> g_inbox g f \<noteq> []"
      using has_new_waiters_iff [OF tasks_okD(1,2) [OF T]] a by simp
    show ?thesis
    proof (cases "has_new_waiters a")
      case False
      then have pop: "queue_pop ?W1 f 0 = Inr (None, ?W1)"
        using tasks_pop_Nil [OF enq(3) q] iff lists by simp
      have "recv_ends f c act s q (Inr (RUnborrow v, s\<lparr>ch_world := ?W1\<rparr>))"
      proof (rule recv_calm [OF ok])
        show "tasks_ok f 1 ?W1 ?g ?fx1 (?R(0 := recv_role (RUnborrow v)))"
          using same_role [OF enq(3), of 0] t by (simp add: recv_pc_simps)
        show "atom_ok f c ?g ?fx1 i0 (length q) (RUnborrow v)"
          using new(2) [OF a False] iff False lists chan_bounds(3,4) [OF ok]
          by (simp add: atom_ok_def chan_size_def recv_taken_def send_count_def)
        show "s\<lparr>ch_world := ?W1\<rparr> = s\<lparr>ch_world := ?W1, ch_recv := ch_recv s\<rparr>" by simp
      qed (use t calm1 enq(2) in \<open>simp_all add: recv_pc_simps calm_def\<close>)
      then show ?thesis unfolding r enq(1) if_P [OF True] by (simp add: pop)
    next
      case new_waiters: True
      then obtain w ws where ws: "g_queues ?g f ! 0 = w # ws"
        using iff lists(1) by (metis neq_Nil_conv rev_is_Nil_conv)
      have full: "Suc (length q) = c" using waiting_full [OF ok _ taken] iff new_waiters by simp
      have hand: "r_read (?R 0)" "r_hand (?R 0) = None" and role: "recv_role (RFill v h w) = (?R 0)\<lparr>r_hand := Some w\<rparr>"
        using t by (simp_all add: recv_pc_simps idle_role_def)
      obtain h2 fx2 where pop: "queue_pop ?W1 f 0 = Inr (Some w, put_futex (?W1\<lparr>heap := h2\<rparr>) f fx2)"
        "futex_atom fx2 = futex_atom ?fx1" "\<And>v. wkr h2 v = wkr (heap ?W1) v"
        "tasks_ok f 1 (put_futex (?W1\<lparr>heap := h2\<rparr>) f fx2) (pop_ghost 0 f (unat 0) ?g) fx2
           (?R(0 := (?R 0)\<lparr>r_hand := Some w\<rparr>))"
        by (rule tasks_pop_Cons [OF enq(3) q hand, of w ws]) (use ws in simp_all)
      let ?W2 = "put_futex (?W1\<lparr>heap := h2\<rparr>) f fx2"
      have calm: "calm (ch_world s) ?W2" by (rule calm_trans [OF calm1 calm_pop [OF enq(3) q hand(1) pop(1)]])
      have "recv_ends f c act s q (Inr (RFill v h w, s\<lparr>ch_world := ?W2\<rparr>))"
      proof (rule recv_reserve [OF ok full h(1)])
        show "tasks_ok f 1 ?W2 (pop_ghost 0 f 0 ?g) fx2 (?R(0 := recv_role (RFill v h w)))"
          unfolding role using pop(4) by (simp only: unat_0)
      qed (use t calm pop(2,3) enq(2) new(1) [OF a new_waiters] in \<open>simp_all add: recv_pc_simps calm_def\<close>)
      then show ?thesis unfolding r enq(1) if_P [OF True] by (simp add: pop(1))
    qed
  qed
qed

section \<open>Backfilling\<close>

lemma recv_claim_bound:
  assumes ok: "chan_ok f c s g fx i0 q" and t: "recv_claim (ch_rpc s) = Some b"
  shows "b < length (ch_buckets s)" "chan_claim (ch_send s) (ch_rpc s) u = Some b \<Longrightarrow> u = 0"
  using ring_okD(6) [OF chan_okD(2) [OF ok, unfolded chan_ring_def], of 0 b] chan_okD(3) [OF ok] t
    ring_okD(5) [OF chan_okD(2) [OF ok, unfolded chan_ring_def], of 0 b u] by simp_all

lemma recv_fill_good:
  assumes ok: "chan_ok f c s g fx i0 q" and t: "ch_rpc s = RFill v h w"
  shows "recv_ends f c act s q (recv_fill v h w s)"
proof -
  let ?b = "unat h" and ?p = "RMsg v h w"
  let ?bs = "(ch_buckets s)[?b := (ch_buckets s ! ?b)\<lparr>bk_filled := True\<rparr>]"
  have own: "recv_claim (ch_rpc s) = Some ?b" using t by (simp add: recv_claim_def)
  note b = recv_claim_bound [OF ok own]
  have r: "recv_fill v h w s = Inr (?p, s\<lparr>ch_buckets := ?bs\<rparr>)"
    using b(1) by (simp add: recv_fill_def put_bucket_def bucket_at_def native_store_mut_def)
  let ?s = "s\<lparr>ch_buckets := ?bs, ch_rpc := ?p\<rparr>"
  have filled: "filled_in ?bs = (filled_in (ch_buckets s))(?b := True)"
    using b by (intro ext) (auto simp: nth_list_update)
  have data: "bk_data (?bs ! k) = bk_data (ch_buckets s ! k)" for k
    using b by (cases "k = ?b") simp_all
  have claim: "chan_claim (ch_send s) ?p = chan_claim (ch_send s) (ch_rpc s)"
    using t by (intro ext) (simp add: chan_claim_def recv_claim_def split: nat.split)
  have src: "chan_from (heap (ch_world s)) (ch_send s) ?p = chan_from (heap (ch_world s)) (ch_send s) (ch_rpc s)"
    using t by (intro ext) (simp add: chan_from_def recv_from_def split: nat.split)
  have "chan_ok f c ?s g fx i0 q"
  proof (rule chan_receiver [OF ok])
    show "tasks_ok f 1 (ch_world ?s) g fx ((chan_roles (ch_send s) (ch_rpc s))(0 := recv_role (ch_rpc ?s)))"
      using same_role [OF chan_okD(1) [OF ok], of 0 "recv_role ?p"] t by (simp add: recv_pc_simps)
    have "ring_ok c i0 ((filled_in (ch_buckets s))(?b := True)) (chan_claim (ch_send s) (ch_rpc s))
        (chan_val (heap (ch_world s)) (ch_mail s) ?bs (ch_send s) ?p) q"
      by (rule ring_fill [OF chan_okD(2) [OF ok, unfolded chan_ring_def], of 0])
        (use own in \<open>simp_all add: chan_val_def claim src data\<close>)
    then show "chan_ring c ?s i0 q" by (simp add: chan_ring_def claim filled)
    show "mail_ok (heap (ch_world ?s)) (ch_mail ?s) (ch_send s) (ch_rpc ?s)"
      using mail_ok_rpc [OF chan_okD(6) [OF ok], of _ ?p] t by simp
    fix u k assume u: "send_claim (ch_send s u) = Some k"
    then have "k \<noteq> ?b" using b(2) [of "Suc u"] by auto
    then show "\<not> bk_filled (ch_buckets ?s ! k)" using chan_okD(8) [OF ok u] by simp
  qed (use t b chan_okD(5,10) [OF ok] in \<open>simp_all add: recv_pc_simps atom_ok_def chan_size_def\<close>)
  then show ?thesis unfolding r by (rule recv_ends_ok) (use t in \<open>simp_all add: recv_commit_def\<close>)
qed

lemma recv_message_good:
  assumes ok: "chan_ok f c s g fx i0 q" and t: "ch_rpc s = RMsg v h w"
  shows "recv_ends f c act s q (recv_message v h w s)"
proof -
  note T = chan_okD(1) [OF ok] and R = chan_okD(2) [OF ok, unfolded chan_ring_def]
  let ?b = "unat h" and ?p = "RWake v w" and ?m = "msg (heap (ch_world s)) w"
  have own: "recv_claim (ch_rpc s) = Some ?b" using t by (simp add: recv_claim_def)
  note b = recv_claim_bound [OF ok own]
  have hand: "recv_hand (ch_rpc s) = Some w" using t by (simp add: recv_hand_def)
  obtain u y where u: "ch_send s u = SWait ?m y" "wait_waiter y = w" "g_loc g w = InHand 0" "wkr (heap (ch_world s)) w \<noteq> WakerDone"
  proof (rule hand_sleeper [OF T hand])
    fix u m y assume "ch_send s u = SWait m y" "wait_waiter y = w" "g_loc g w = InHand 0" "wkr (heap (ch_world s)) w \<noteq> WakerDone"
    then show thesis using that [of u y] chan_okD(7) [OF ok, of u] by simp
  qed
  have mail: "send_mail (ch_send s u) = Some ?m" using u(1) by simp
  obtain x where x: "ch_mail s ?m = Some (Some x)"
    by (rule hand_mail [OF ok T hand refl]) (use t that in auto)
  have alive: "alive (heap (ch_world s)) w"
    using world_ok_alive [OF tasks_okD(1) [OF T], of w] u(3) by simp
  let ?bs = "(ch_buckets s)[?b := (ch_buckets s ! ?b)\<lparr>bk_data := Some x\<rparr>]"
  let ?mail = "(ch_mail s)(?m \<mapsto> None)"
  have r: "recv_message v h w s = Inr (?p, s\<lparr>ch_mail := ?mail, ch_buckets := ?bs\<rparr>)"
    using x b(1) alive by (simp add: recv_message_def link_simps message_take_def put_bucket_def bucket_at_def)
  let ?s = "s\<lparr>ch_mail := ?mail, ch_buckets := ?bs, ch_rpc := ?p\<rparr>"
  have filled: "filled_in ?bs = filled_in (ch_buckets s)"
    using b by (intro ext) (auto simp: nth_list_update)
  have claim: "chan_claim (ch_send s) ?p = (chan_claim (ch_send s) (ch_rpc s))(0 := None)"
    by (simp add: chan_claim_recv [of _ ?p "ch_rpc s"] recv_claim_def)
  have val: "chan_val (heap (ch_world s)) ?mail ?bs (ch_send s) ?p k z \<longleftrightarrow>
      chan_val (heap (ch_world s)) (ch_mail s) (ch_buckets s) (ch_send s) (ch_rpc s) k z" for k z
  proof (cases "k = ?b")
    case True
    have "chan_val (heap (ch_world s)) (ch_mail s) (ch_buckets s) (ch_send s) (ch_rpc s) k z \<longleftrightarrow> ch_mail s ?m = Some (Some z)"
      by (rule chan_val_from [of _ _ 0]) (use own True b(2) t in \<open>simp_all add: recv_from_def\<close>)
    moreover have "chan_claim (ch_send s) ?p i \<noteq> Some k" for i
      using b(2) [of i] True unfolding claim by (cases "i = 0") auto
    then have "chan_val (heap (ch_world s)) ?mail ?bs (ch_send s) ?p k z \<longleftrightarrow> bk_data (?bs ! k) = Some z"
      by (intro chan_val_data) blast
    ultimately show ?thesis using True b(1) x by simp
  next
    case False
    show ?thesis
    proof (rule chan_val_cong)
      fix i show "chan_claim (ch_send s) ?p i = Some k \<longleftrightarrow> chan_claim (ch_send s) (ch_rpc s) i = Some k"
        using False own by (cases i) (auto simp: claim)
      assume i: "chan_claim (ch_send s) (ch_rpc s) i = Some k"
      then obtain j where j: "i = Suc j" using False own by (cases i) auto
      then show "chan_from (heap (ch_world s)) (ch_send s) ?p i = chan_from (heap (ch_world s)) (ch_send s) (ch_rpc s) i" by simp
      fix m assume "chan_from (heap (ch_world s)) (ch_send s) (ch_rpc s) i = Some m"
      then have m: "send_from (ch_send s j) = Some m" using j by simp
      then have "j \<noteq> u" using u(1) by auto
      then have "m \<noteq> ?m" using mail_sole [OF chan_okD(6) [OF ok] mail, of j] send_claim_mail [OF m] by auto
      then show "?mail m = ch_mail s m" by simp
    qed (use False in simp)
  qed
  have "chan_ok f c ?s g fx i0 q"
  proof (rule chan_receiver [OF ok])
    show "tasks_ok f 1 (ch_world ?s) g fx ((chan_roles (ch_send s) (ch_rpc s))(0 := recv_role (ch_rpc ?s)))"
      using same_role [OF T, of 0 "recv_role ?p"] t by (simp add: recv_pc_simps)
    have "bk_filled (ch_buckets s ! ?b)" using chan_okD(9) [OF ok] t by (simp add: recv_ok_def)
    then have fill: "(filled_in (ch_buckets s))(?b := True) = filled_in (ch_buckets s)" by (intro ext) simp
    have "ring_ok c i0 ((filled_in (ch_buckets s))(?b := True)) ((chan_claim (ch_send s) (ch_rpc s))(0 := None))
        (chan_val (heap (ch_world s)) ?mail ?bs (ch_send s) ?p) q"
      by (rule ring_release [OF R]) (use own val in simp_all)
    then show "chan_ring c ?s i0 q" unfolding fill by (simp add: chan_ring_def claim filled)
    show "mail_ok (heap (ch_world ?s)) (ch_mail ?s) (ch_send s) (ch_rpc ?s)"
      unfolding mail_ok_def
    proof (intro conjI allI impI)
      fix i j m assume "send_mail (ch_send s i) = Some m \<and> send_mail (ch_send s j) = Some m"
      then show "i = j" using mail_sole [OF chan_okD(6) [OF ok]] by blast
    next
      fix i m assume i: "send_mail (ch_send s i) = Some m"
      show "\<exists>x. ch_mail ?s m = Some x \<and> (x \<noteq> None \<longleftrightarrow> send_full (heap (ch_world ?s)) (ch_rpc ?s) (ch_send s i))"
      proof (cases "i = u")
        case True
        then show ?thesis using i u mail by simp
      next
        case False
        then have "m \<noteq> ?m" using mail_sole [OF chan_okD(6) [OF ok] mail] i by auto
        moreover have "stage_waiter (r_stage (send_role (ch_send s u))) = Some w" using u by (simp add: waiter_stage)
        then have "stage_waiter (r_stage (send_role (ch_send s i))) \<noteq> Some w"
          using tasks_sole [OF T, of "Suc u" w "Suc i"] False by simp
        then have "send_full (heap (ch_world s)) ?p (ch_send s i) = send_full (heap (ch_world s)) (ch_rpc s) (ch_send s i)"
          using t by (cases "ch_send s i") (auto simp: waiter_stage)
        moreover obtain x' where "ch_mail s m = Some x'"
          "x' \<noteq> None \<longleftrightarrow> send_full (heap (ch_world s)) (ch_rpc s) (ch_send s i)"
          by (rule mail_okD [OF chan_okD(6) [OF ok] i]) (rule that)
        ultimately show ?thesis by (intro exI [of _ x']) simp
      qed
    qed
    show "\<not> bk_filled (ch_buckets ?s ! k)" if "send_claim (ch_send s i) = Some k" for i k
      using chan_okD(8) [OF ok that] fun_cong [OF filled, of k] by simp
  qed (use t chan_okD(5,10) [OF ok] in \<open>simp_all add: recv_pc_simps atom_ok_def chan_size_def\<close>)
  then show ?thesis unfolding r by (rule recv_ends_ok) (use t in \<open>simp_all add: recv_commit_def\<close>)
qed

section \<open>Waking the sender\<close>

lemma recv_wake_good:
  assumes ok: "chan_ok f c s g fx i0 q" and t: "ch_rpc s = RWake v w"
  shows "recv_ends f c act s q (on_world s (bindR (wake_swap (ch_world s) w) (\<lambda>(k, W). Inr (RCall v k, W))))"
proof -
  note T = chan_okD(1) [OF ok]
  let ?R = "chan_roles (ch_send s) (ch_rpc s)"
  let ?W = "(ch_world s)\<lparr>heap := put_waker (heap (ch_world s)) w WakerDone\<rparr>"
  have hand: "r_hand (?R 0) = Some w" using t by (simp add: recv_pc_simps)
  obtain k where k: "wake_swap (ch_world s) w = Inr (k, ?W)"
    "tasks_ok f 1 ?W (wake_ghost w g) fx (?R(0 := (?R 0)\<lparr>r_hand := None\<rparr>))"
    by (rule tasks_wake [OF T hand refl]) (rule that)
  let ?p = "RCall v k"
  let ?s = "s\<lparr>ch_world := ?W, ch_rpc := ?p\<rparr>"
  have role: "recv_role ?p = (?R 0)\<lparr>r_hand := None\<rparr>" using t by (simp add: recv_pc_simps idle_role_def)
  have claim: "chan_claim (ch_send s) ?p = chan_claim (ch_send s) (ch_rpc s)"
    using t by (intro ext) (simp add: chan_claim_def recv_claim_def split: nat.split)
  have src: "chan_from (heap ?W) (ch_send s) ?p = chan_from (heap (ch_world s)) (ch_send s) (ch_rpc s)"
    using t by (intro ext) (simp add: chan_from_def recv_from_def split: nat.split)
  have "chan_ok f c ?s (wake_ghost w g) fx i0 q"
  proof (rule chan_receiver [OF ok])
    show "tasks_ok f 1 (ch_world ?s) (wake_ghost w g) fx (?R(0 := recv_role (ch_rpc ?s)))"
      using k(2) role by simp
    have "chan_val (heap ?W) (ch_mail s) (ch_buckets s) (ch_send s) ?p =
        chan_val (heap (ch_world s)) (ch_mail s) (ch_buckets s) (ch_send s) (ch_rpc s)"
      unfolding chan_val_def claim src ..
    then show "chan_ring c ?s i0 q" using chan_okD(2) [OF ok] claim by (simp add: chan_ring_def)
    have "send_full (heap ?W) ?p (ch_send s i) = send_full (heap (ch_world s)) (ch_rpc s) (ch_send s i)" for i
      using t by (cases "ch_send s i") (auto simp: put_waker_reads)
    then show "mail_ok (heap (ch_world ?s)) (ch_mail ?s) (ch_send s) (ch_rpc ?s)"
      using chan_okD(6) [OF ok] by (simp add: mail_ok_def)
  qed (use t chan_okD(5,8,10) [OF ok] in
      \<open>simp_all add: put_waker_reads recv_pc_simps atom_ok_def chan_size_def wake_ghost_def\<close>)
  then have "recv_ends f c act s q (Inr (?p, s\<lparr>ch_world := ?W\<rparr>))"
    by (rule recv_ends_ok) (use t in \<open>simp_all add: recv_commit_def\<close>)
  then show ?thesis by (simp add: k(1) on_world_def)
qed

lemma recv_call_good:
  assumes ok: "chan_ok f c s g fx i0 q" and t: "ch_rpc s = RCall v k"
  shows "recv_ends f c act s q (Inr (RUnborrow v, s\<lparr>ch_world := wake_call (ch_world s) k\<rparr>))"
  by (rule recv_still [OF ok, of "wake_call (ch_world s) k" _ "ch_recv s"])
    (use t in \<open>simp_all add: recv_pc_simps\<close>)

section \<open>A step of the receiver\<close>

lemma recv_step_good:
  assumes ok: "chan_ok f c s g fx i0 q" and step: "recv_step spurious f s = Some r"
  shows "recv_ends f c act s q r"
proof (cases "ch_rpc s")
  case (RLock v h)
  then obtain r' where "futex_lock 0 (ch_world s) f = Some r'" "r = on_world s (mapR (Pair (RBorrow v h)) r')"
    using step by (auto simp: recv_step_def)
  then show ?thesis using recv_lock_good [OF ok RLock] by simp
next
  case (RCall v k)
  then have "r = Inr (RUnborrow v, s\<lparr>ch_world := wake_call (ch_world s) k\<rparr>)"
    using step by (simp add: recv_step_def)
  then show ?thesis using recv_call_good [OF ok RCall] by blast
next
  case (RLoad h cx)
  then show ?thesis using recv_load_good [OF ok RLoad] step by (simp add: recv_step_def)
next
  case (RPark h cx)
  then show ?thesis using recv_park_good [OF ok RPark] step by (simp add: recv_step_def)
next
  case (RCheck h cx n)
  then show ?thesis using recv_check_good [OF ok RCheck] step by (simp add: recv_step_def)
next
  case (RUnpark h)
  then show ?thesis using recv_unpark_good [OF ok RUnpark] step by (simp add: recv_step_def)
next
  case (RTake h)
  then show ?thesis using recv_take_good [OF ok RTake] step by (simp add: recv_step_def)
next
  case (RRead h)
  then show ?thesis using recv_read_good [OF ok RRead] step by (simp add: recv_step_def)
next
  case (RBorrow v h)
  then show ?thesis using recv_borrow_good [OF ok RBorrow] step by (simp add: recv_step_def)
next
  case (RPop v h)
  then show ?thesis using recv_pop_good [OF ok RPop] step by (simp add: recv_step_def)
next
  case (RLoadW v h w)
  then show ?thesis using recv_loadw_good [OF ok RLoadW] step by (simp add: recv_step_def)
next
  case (RMove v h w a)
  then show ?thesis using recv_move_good [OF ok RMove, of act spurious] step by (simp add: recv_step_def)
next
  case (RLoadN v h)
  then show ?thesis using recv_loadn_good [OF ok RLoadN] step by (simp add: recv_step_def)
next
  case (RShrink v h a)
  then show ?thesis using recv_shrink_good [OF ok RShrink, of act spurious] step by (simp add: recv_step_def)
next
  case (RFill v h w)
  then show ?thesis using recv_fill_good [OF ok RFill] step by (simp add: recv_step_def)
next
  case (RMsg v h w)
  then show ?thesis using recv_message_good [OF ok RMsg] step by (simp add: recv_step_def)
next
  case (RWake v w)
  then show ?thesis using recv_wake_good [OF ok RWake] step by (simp add: recv_step_def)
next
  case (RUnborrow v)
  then show ?thesis using recv_unborrow_good [OF ok RUnborrow] step by (simp add: recv_step_def)
next
  case (RUnlock v)
  then show ?thesis using recv_unlock_good [OF ok RUnlock] step by (simp add: recv_step_def)
qed (use step in \<open>simp_all add: recv_step_def\<close>)

lemma recv_task_good:
  assumes ok: "chan_ok f c s g fx i0 q" and step: "recv_task f act s = Some r"
  shows "recv_ends f c act s q r"
proof (cases act)
  case (RPoll cx)
  then have "(ch_rpc s = RIdle \<or> (\<exists>k n. ch_rpc s = RPend k n)) \<and> r = Inr (RLoad (ch_head s) cx, s)"
    using step by (auto simp: recv_task_def split: recv_pc.splits)
  then show ?thesis using recv_poll_good [OF ok] by blast
next
  case RDrop
  then have "(\<exists>k n. ch_rpc s = RPend k n) \<and> r = Inr (RIdle, s)"
    using step by (auto simp: recv_task_def split: recv_pc.splits)
  then show ?thesis using recv_leave_good [OF ok] by blast
next
  case RTakeResult
  then have "(\<exists>v. ch_rpc s = RGot v) \<and> r = Inr (RIdle, s)"
    using step by (auto simp: recv_task_def split: recv_pc.splits)
  then show ?thesis using recv_leave_good [OF ok] by blast
next
  case (RRun spurious)
  then show ?thesis using recv_step_good [OF ok] step by (simp add: recv_task_def)
qed

end
