(* ===== verification/Chan_Fifo.thy ===== *)
theory Chan_Fifo imports Chan_Send Chan_Recv begin

text \<open>
  The channel of \<open>src/mpsc.rs\<close> as an implementation of a bounded queue: the interface of a
  machine that refines an abstract one, its interpretation on the channel, and what the moves of
  the queue mean for the messages that are sent and received.
\<close>

section \<open>Refinement\<close>

text \<open>
  A machine implements an abstract machine: its states represent abstract ones, and every enabled
  step succeeds and makes the abstract move it commits to, if any.
\<close>

definition committed :: "'c option \<Rightarrow> 'c list" where
  "committed k = (case k of None \<Rightarrow> [] | Some k \<Rightarrow> [k])"

lemma committed_simps [simp]: "committed None = []" "committed (Some k) = [k]"
  by (simp_all add: committed_def)

fun commits :: "('e, 's) machine \<Rightarrow> ('e \<Rightarrow> 's \<Rightarrow> 's \<Rightarrow> 'c option) \<Rightarrow> 'e list \<Rightarrow> 's \<Rightarrow> 'c list" where
  "commits step commit [] s = []"
| "commits step commit (e # es) s =
     (case step e s of
        Some (Inr s') \<Rightarrow> committed (commit e s s') @ commits step commit es s'
      | _ \<Rightarrow> [])"

fun spec_run :: "('c option \<Rightarrow> 'a \<Rightarrow> 'a option) \<Rightarrow> 'c list \<Rightarrow> 'a \<Rightarrow> 'a option" where
  "spec_run spec [] a = Some a"
| "spec_run spec (k # ks) a = (case spec (Some k) a of None \<Rightarrow> None | Some a' \<Rightarrow> spec_run spec ks a')"

locale refining_system =
  fixes init :: "'s \<Rightarrow> bool"
    and step :: "('e, 's) machine"
    and commit :: "'e \<Rightarrow> 's \<Rightarrow> 's \<Rightarrow> 'c option"
    and abs :: "'s \<Rightarrow> 'a \<Rightarrow> bool"
    and spec :: "'c option \<Rightarrow> 'a \<Rightarrow> 'a option"
    and start :: 'a
  assumes abs_init: "init s \<Longrightarrow> abs s start"
    and abs_step: "abs s a \<Longrightarrow> step e s = Some r \<Longrightarrow>
      \<exists>s' a'. r = Inr s' \<and> abs s' a' \<and> spec (commit e s s') a = Some a'"
    and spec_None: "spec None a = Some a"
begin

lemma abs_run:
  "abs s a \<Longrightarrow> run step es s = Some (Inr s') \<Longrightarrow>
     \<exists>a'. spec_run spec (commits step commit es s) a = Some a' \<and> abs s' a'"
proof (induction es arbitrary: s a)
  case (Cons e es)
  then obtain s1 where s1: "step e s = Some (Inr s1)" "run step es s1 = Some (Inr s')"
    by (auto split: option.splits sum.splits)
  obtain a1 where a1: "abs s1 a1" "spec (commit e s s1) a = Some a1"
    using abs_step [OF Cons.prems(1) s1(1)] by auto
  obtain a' where "spec_run spec (commits step commit es s1) a1 = Some a'" "abs s' a'"
    using Cons.IH [OF a1(1) s1(2)] by blast
  then show ?case using s1(1) a1(2) spec_None by (cases "commit e s s1") (auto)
qed simp

lemma inits_run:
  "init s \<Longrightarrow> run step es s = Some (Inr s') \<Longrightarrow>
     \<exists>a'. spec_run spec (commits step commit es s) start = Some a' \<and> abs s' a'"
  using abs_run abs_init by blast

end

sublocale refining_system \<subseteq> invariant_system init step "\<lambda>s. \<exists>a. abs s a"
  by unfold_locales (use abs_init abs_step in blast)+

section \<open>The channel\<close>

definition chan_init :: "ptr \<Rightarrow> nat \<Rightarrow> 'a chan_state \<Rightarrow> bool" where
  "chan_init f c s \<longleftrightarrow> f \<noteq> null \<and> (\<exists>cap. chan_new f cap = Inr s \<and> unat cap = c)"

lemma chan_new_eq:
  "chan_new f cap = Inr s \<longleftrightarrow> 0 < unat cap \<and> unat cap < 2 ^ 32 \<and>
     s = \<lparr>ch_world = \<lparr>heap = Map.empty,
            futexes = [f \<mapsto> futex_new (send_encode \<lparr>ss_write_head = 0, ss_size = 0\<rparr>) 1],
            clones = [], wakes = [], drops = []\<rparr>,
          ch_buckets = replicate (unat cap) \<lparr>bk_filled = False, bk_data = None\<rparr>,
          ch_recv = RecvDirty, ch_head = 0, ch_mail = Map.empty, ch_send = (\<lambda>_. SIdle), ch_rpc = RIdle\<rparr>"
proof -
  have "unat (ucast (- 1 :: usize_half) :: usize) = 4294967295" by (simp add: unsigned_ucast_eq unsigned_minus_1_eq_mask mask_eq_exp_minus_1 take_bit_nat_eq_self)
  then have "cap \<le> ucast (- 1 :: usize_half) \<longleftrightarrow> unat cap < 2 ^ 32" by (simp add: word_le_nat_alt, presburger)
  moreover have "0 < cap \<longleftrightarrow> 0 < unat cap" by (simp add: word_less_nat_alt)
  ultimately show ?thesis by (auto simp: chan_new_def ensure_def)
qed

lemma chan_ok_new:
  assumes "chan_init f c s"
  shows "chan_ok f c s \<lparr>g_loc = (\<lambda>_. Loose), g_inbox = (\<lambda>_. []), g_queues = (\<lambda>_. [[]]), g_list = (\<lambda>_. [])\<rparr>
    (futex_new (send_encode \<lparr>ss_write_head = 0, ss_size = 0\<rparr>) 1) 0 []"
proof -
  have c: "f \<noteq> null" "0 < c" "c < 2 ^ 32" and s: "ch_world s = \<lparr>heap = Map.empty,
            futexes = [f \<mapsto> futex_new (send_encode \<lparr>ss_write_head = 0, ss_size = 0\<rparr>) 1],
            clones = [], wakes = [], drops = []\<rparr>"
      "ch_buckets s = replicate c \<lparr>bk_filled = False, bk_data = None\<rparr>" "ch_head s = 0"
      "ch_send s = (\<lambda>_. SIdle)" "ch_rpc s = RIdle"
    using assms by (auto simp: chan_init_def chan_new_eq)
  let ?g = "\<lparr>g_loc = (\<lambda>_. Loose), g_inbox = (\<lambda>_. []), g_queues = (\<lambda>_. [[]]), g_list = (\<lambda>_. [])\<rparr>"
  have roles: "chan_roles (\<lambda>_. SIdle) RIdle = (\<lambda>_. idle_role)"
    by (intro ext) (simp add: chan_roles_def recv_simps split: nat.split)
  have T: "tasks_ok f 1 (ch_world s) ?g (futex_new (send_encode \<lparr>ss_write_head = 0, ss_size = 0\<rparr>) 1) (\<lambda>_. idle_role)"
    using c by (auto simp: s tasks_ok_def world_ok_def waiters_ok_def hands_ok_def inbox_ok_def queues_ok_def
        guards_ok_def futex_new_def guards_held_def hands_held_def stages_held_def refcell_new_def)
  have claim: "chan_claim (\<lambda>_. SIdle) RIdle = (\<lambda>_. None)"
    by (intro ext) (simp add: chan_claim_def recv_claim_def split: nat.split)
  show ?thesis
    unfolding chan_ok_def
    using T c by (simp add: s roles chan_ring_def claim ring_ok_def mail_ok_def recv_ok_def atom_ok_def
        chan_size_def recv_taken_def send_count_def futex_new_def wake_ok_def)
qed

lemma chan_step_good:
  assumes "chan_ok f c s g fx i0 q" "chan_step f e s = Some r"
  shows "chan_good f c e s q r"
proof (cases e)
  case (Snd t act)
  then show ?thesis using assms send_task_good [OF assms(1), where t = t and act = act] by (auto simp: chan_step_def)
next
  case (Rcv act)
  then show ?thesis using assms recv_task_good [OF assms(1), where act = act] by (auto simp: chan_step_def)
qed

interpretation chan: refining_system "chan_init f c" "chan_step f" chan_commit "chan_abs f c" "queue_commit c" "[]" for f c
proof
  show "chan_abs f c s []" if "chan_init f c s" for s :: "'a chan_state"
    using chan_ok_new [OF that] by (auto simp: chan_abs_def)
  show "\<exists>s' q'. r = Inr s' \<and> chan_abs f c s' q' \<and> queue_commit c (chan_commit e s s') q = Some q'"
    if "chan_abs f c s q" "chan_step f e s = Some r" for s :: "'a chan_state" and q e r
    using chan_step_good that by (fastforce simp: chan_abs_def chan_good_def)
qed simp

lemma chan_reach_ok:
  assumes "reach (chan_init f c) (chan_step f) s"
  obtains g fx i0 q where "chan_ok f c s g fx i0 q"
  using chan.reach_inv [OF assms] by (auto simp: chan_abs_def)

section \<open>First in, first out\<close>

fun sent_values :: "'a commit list \<Rightarrow> 'a list" where
  "sent_values [] = []"
| "sent_values (Sent v # ks) = v # sent_values ks"
| "sent_values (Received v # ks) = sent_values ks"

fun received_values :: "'a commit list \<Rightarrow> 'a list" where
  "received_values [] = []"
| "received_values (Sent v # ks) = received_values ks"
| "received_values (Received v # ks) = v # received_values ks"

lemma values_append:
  "sent_values (ks @ ls) = sent_values ks @ sent_values ls"
  "received_values (ks @ ls) = received_values ks @ received_values ls"
  by (induction ks rule: sent_values.induct) simp_all

lemma queue_fifo:
  "spec_run (queue_commit c) ks q = Some q' \<Longrightarrow> length q \<le> c \<Longrightarrow>
     q @ sent_values ks = received_values ks @ q' \<and> length q' \<le> c"
proof (induction ks arbitrary: q)
  case (Cons k ks)
  show ?case
  proof (cases k)
    case (Sent v)
    then show ?thesis using Cons.prems Cons.IH [of "q @ [v]"] by (auto split: if_splits)
  next
    case (Received v)
    then obtain q1 where "q = v # q1" "spec_run (queue_commit c) ks q1 = Some q'"
      using Cons.prems by (auto split: list.splits if_splits)
    then show ?thesis using Received Cons.prems Cons.IH [of q1] by auto
  qed
qed simp

text \<open>The message that \<open>recv\<close> carries between the bucket and its result, and the results.\<close>

definition recv_carry :: "'a recv_pc \<Rightarrow> 'a list" where
  "recv_carry p = (case p of RLock v _ \<Rightarrow> [v] | RBorrow v _ \<Rightarrow> [v] | RPop v _ \<Rightarrow> [v] | RLoadW v _ _ \<Rightarrow> [v]
     | RMove v _ _ _ \<Rightarrow> [v] | RLoadN v _ \<Rightarrow> [v] | RShrink v _ _ \<Rightarrow> [v] | RFill v _ _ \<Rightarrow> [v]
     | RMsg v _ _ \<Rightarrow> [v] | RWake v _ \<Rightarrow> [v] | RCall v _ \<Rightarrow> [v] | RUnborrow v \<Rightarrow> [v] | RUnlock v \<Rightarrow> [v]
     | RGot v \<Rightarrow> [v] | _ \<Rightarrow> [])"

definition recv_result :: "'a chan_event \<Rightarrow> 'a chan_state \<Rightarrow> 'a list" where
  "recv_result e s = (case (e, ch_rpc s) of (Rcv RTakeResult, RGot v) \<Rightarrow> [v] | _ \<Rightarrow> [])"

fun recv_results :: "ptr \<Rightarrow> 'a chan_event list \<Rightarrow> 'a chan_state \<Rightarrow> 'a list" where
  "recv_results f [] s = []"
| "recv_results f (e # es) s =
     (case chan_step f e s of Some (Inr s') \<Rightarrow> recv_result e s @ recv_results f es s' | _ \<Rightarrow> [])"

lemma received_mailed [simp]: "received_values (committed (mailed mail m)) = []"
  by (auto simp: committed_def mailed_def split: option.splits)

lemma recv_step_carry:
  assumes "recv_step spurious f s = Some (Inr (p, s1))"
  shows "recv_carry (ch_rpc s) @ received_values (committed (recv_commit (heap (ch_world s)) (ch_mail s) (ch_rpc s) p)) =
    recv_carry p"
proof (cases "ch_rpc s")
  case (RMove v h w a)
  with assms have "p = RFill v h w \<or> (\<exists>a. p = RMove v h w a)"
    by (auto simp: recv_step_def recv_move_def Let_def bindR_eq_Inr split: if_splits)
  with RMove show ?thesis by (elim disjE exE) (simp_all add: recv_commit_def recv_carry_def)
next
  case (RShrink v h a)
  with assms have "(\<exists>w. p = RFill v h w) \<or> p = RUnborrow v \<or> (\<exists>a. p = RShrink v h a)"
    by (auto simp: recv_step_def recv_shrink_def Let_def bindR_eq_Inr split: if_splits option.splits)
  with RShrink show ?thesis by (elim disjE exE) (simp_all add: recv_commit_def recv_carry_def)
next
  case (RPop v h)
  with assms have "p = RLoadN v h \<or> (\<exists>w. p = RLoadW v h w)"
    by (auto simp: recv_step_def on_world_def mapR_def bindR_eq_Inr split: option.splits)
  with RPop show ?thesis by (elim disjE exE) (simp_all add: recv_commit_def recv_carry_def)
qed (use assms in \<open>(auto simp: recv_step_def recv_park_def recv_unpark_def recv_take_def recv_read_def
    recv_fill_def recv_message_def on_world_def mapR_def Let_def bindR_eq_Inr)[1];
    simp add: recv_commit_def recv_carry_def\<close>)+

text \<open>A step of a sender leaves the places of all others alone.\<close>

lemma send_done_rpc: "send_done r m s = Inr (p, s1) \<Longrightarrow> ch_rpc s1 = ch_rpc s \<and> ch_send s1 = ch_send s"
  by (auto simp: send_done_def bindR_eq_Inr)

lemma send_waited_rpc:
  assumes "send_waited m s (out, W) = Inr (p, s1)"
  shows "ch_rpc s1 = ch_rpc s \<and> ch_send s1 = ch_send s"
proof (cases out)
  case (Returned woken wait cx)
  show ?thesis
  proof (cases woken)
    case True
    with assms Returned have "send_done (waiter_drop W (wf_waiter wait)) m s = Inr (p, s1)"
      by (simp add: send_waited_def)
    from send_done_rpc [OF this] show ?thesis .
  qed (use assms Returned in \<open>auto simp: send_waited_def\<close>)
next
  case (Cancelled k w)
  with assms have "send_done (wait_finish W k w) m s = Inr (p, s1)"
    by (auto simp: send_waited_def bindR_eq_Inr)
  from send_done_rpc [OF this] show ?thesis .
qed (use assms in \<open>auto simp: send_waited_def\<close>)

lemma send_task_rpc:
  assumes "send_task f t act s p = Some (Inr (p', s1))"
  shows "ch_rpc s1 = ch_rpc s \<and> ch_send s1 = ch_send s"
proof (cases p)
  case SIdle
  with assms show ?thesis
    by (cases act) (auto simp: send_task_def send_start_def bindR_eq_Inr split: if_splits option.splits)
next
  case (STop w m a cx)
  with assms show ?thesis
    by (cases act) (auto simp: send_task_def send_iter_def Let_def bindR_eq_Inr split: if_splits)
next
  case (SWait m x)
  then obtain r where "bindR r (send_waited m s) = Inr (p', s1)" using assms by (auto simp: send_task_def)
  then obtain out W where "send_waited m s (out, W) = Inr (p', s1)" unfolding bindR_eq_Inr by auto
  then show ?thesis by (rule send_waited_rpc)
next
  case (SWrite w m i)
  with assms show ?thesis by (cases act) (auto simp: send_task_def send_write_def bindR_eq_Inr)
next
  case (SFill w m i)
  with assms show ?thesis by (cases act) (auto simp: send_task_def send_fill_def bindR_eq_Inr)
next
  case (SSwap w m)
  then have r: "send_swap w m s = Inr (p', s1)" using assms by (cases act) (auto simp: send_task_def)
  show ?thesis
  proof (cases "ch_recv s")
    case RecvDirty
    with r have "send_done (waiter_drop (ch_world s) w) m (s\<lparr>ch_recv := RecvDirty\<rparr>) = Inr (p', s1)"
      by (simp add: send_swap_def native_swap_def)
    from send_done_rpc [OF this] show ?thesis by simp
  qed (use r in \<open>auto simp: send_swap_def native_swap_def\<close>)
next
  case (SCall w m k)
  then have "send_done (waiter_drop (wake_call (ch_world s) k) w) m s = Inr (p', s1)"
    using assms by (cases act) (auto simp: send_task_def)
  from send_done_rpc [OF this] show ?thesis .
qed

lemma chan_step_carry:
  assumes "chan_step f e s = Some (Inr s')"
  shows "recv_carry (ch_rpc s) @ received_values (committed (chan_commit e s s')) = recv_result e s @ recv_carry (ch_rpc s')"
proof (cases e)
  case (Snd t act)
  obtain p s1 where s1: "send_task f (Suc t) act s (ch_send s t) = Some (Inr (p, s1))"
    "s' = s1\<lparr>ch_send := (ch_send s1)(t := p)\<rparr>"
    using assms Snd by (auto simp: chan_step_def mapR_def bindR_eq_Inr)
  have "ch_rpc s1 = ch_rpc s" using send_task_rpc [OF s1(1)] by simp
  moreover have "received_values (committed (send_commit (ch_mail s) (ch_send s t) p)) = []"
    by (cases "ch_send s t"; cases p) auto
  ultimately show ?thesis using Snd s1(2) by (simp add: chan_commit_def recv_result_def)
next
  case (Rcv act)
  obtain p s1 where s1: "recv_task f act s = Some (Inr (p, s1))" "s' = s1\<lparr>ch_rpc := p\<rparr>"
    using assms Rcv by (auto simp: chan_step_def mapR_def bindR_eq_Inr)
  show ?thesis
  proof (cases act)
    case (RRun spurious)
    then show ?thesis using s1 recv_step_carry [of spurious f s p s1] Rcv
      by (simp add: recv_task_def chan_commit_def recv_result_def)
  qed (use s1 Rcv in \<open>cases "ch_rpc s"; auto simp: recv_task_def chan_commit_def recv_result_def recv_commit_def recv_carry_def\<close>)+
qed

lemma recv_results_received:
  "run (chan_step f) es s = Some (Inr s') \<Longrightarrow>
     recv_carry (ch_rpc s) @ received_values (commits (chan_step f) chan_commit es s) =
     recv_results f es s @ recv_carry (ch_rpc s')"
proof (induction es arbitrary: s)
  case (Cons e es)
  then obtain s1 where s1: "chan_step f e s = Some (Inr s1)" "run (chan_step f) es s1 = Some (Inr s')"
    by (auto split: option.splits sum.splits)
  show ?case
    using chan_step_carry [OF s1(1)] Cons.IH [OF s1(2)] s1(1) by (simp add: values_append)
      (metis append.assoc)
qed simp

end
