(* ===== verification/Chan_Spec.thy ===== *)
theory Chan_Spec imports Chan_Fifo begin

text \<open>
  What \<open>src/mpsc.rs\<close> promises: no fault, messages in order and each of them once, a bounded
  ring, no lost wake-up on either side, and no deadlock. The properties hold for every number of
  senders, every interleaving, every capacity, and senders that are dropped at any point.
\<close>

section \<open>Properties\<close>

text \<open>
  C7: no reachable step of \<open>send\<close>, of \<open>recv\<close> or of their cancellation fails: the two assertions on \<open>size\<close> and the one in
  \<open>on_cancel_woken\<close> hold, no message is taken twice, \<open>size - 1\<close> and the other arithmetic do not
  overflow, no index is out of range, no uninitialised bucket is read and no bad pointer followed.
\<close>

theorem chan_no_fault:
  assumes "reach (chan_init f c) (chan_step f) s"
  shows "chan_step f e s \<noteq> Some (Inl x)"
  by (rule chan.reach_no_fault [OF assms])

text \<open>
  C5: the channel refines a bounded queue: along every run the steps that claim a bucket append
  their message to a queue that is not full, and the steps that move a message out of a bucket
  take the first one.
\<close>

theorem chan_refines_queue:
  assumes "chan_init f c s0" "run (chan_step f) es s0 = Some (Inr s)"
  shows "\<exists>q. spec_run (queue_commit c) (commits (chan_step f) chan_commit es s0) [] = Some q \<and> chan_abs f c s q"
  by (rule chan.inits_run [OF assms])

text \<open>
  C6: first in, first out: the results of \<open>recv\<close> so far, then the message that a running \<open>recv\<close> is
  carrying, then at most \<open>c\<close> messages in the channel are exactly the messages sent, in the order in
  which they were sent.
\<close>

theorem chan_fifo:
  assumes "chan_init f c s0" "run (chan_step f) es s0 = Some (Inr s)"
  shows "\<exists>q. sent_values (commits (chan_step f) chan_commit es s0) = recv_results f es s0 @ recv_carry (ch_rpc s) @ q \<and>
    length q \<le> c"
proof -
  obtain q where "spec_run (queue_commit c) (commits (chan_step f) chan_commit es s0) [] = Some q"
    using chan.inits_run [OF assms] by blast
  from queue_fifo [OF this]
  have "sent_values (commits (chan_step f) chan_commit es s0) =
      received_values (commits (chan_step f) chan_commit es s0) @ q" "length q \<le> c" by simp_all
  moreover have "recv_carry (ch_rpc s0) = []"
    using assms(1) by (auto simp: chan_init_def chan_new_eq recv_carry_def)
  ultimately show ?thesis using recv_results_received [OF assms(2)] by (intro exI [of _ q]) simp
qed

text \<open>
  The ring at rest: while no sender has a claimed bucket and no \<open>recv\<close> is at work, the messages
  of the queue are in the buckets from the head on, in order, those buckets are filled and no
  other is, and the atom packs the index after the last one and their number.
\<close>

theorem chan_ring_at_rest:
  assumes "chan_abs f c s q" "\<And>t. send_claim (ch_send s t) = None" "ch_rpc s = RIdle \<or> ch_rpc s = RPend cx n"
  shows "length q \<le> c \<and> (\<forall>i<length q. bk_data (ch_buckets s ! ((unat (ch_head s) + i) mod c)) = Some (q ! i)) \<and>
    (\<forall>b<c. bk_filled (ch_buckets s ! b) \<longleftrightarrow> (\<exists>i<length q. b = (unat (ch_head s) + i) mod c)) \<and>
    (\<exists>fx. get_futex (ch_world s) f = Inr fx \<and> fa_atom (futex_atom fx) =
       send_encode \<lparr>ss_write_head = of_nat ((unat (ch_head s) + length q) mod c), ss_size = of_nat (length q)\<rparr>)"
proof -
  obtain g fx i0 where ok: "chan_ok f c s g fx i0 q" using assms(1) by (auto simp: chan_abs_def)
  note R = chan_okD(2) [OF ok, unfolded chan_ring_def]
  have claim: "chan_claim (ch_send s) (ch_rpc s) u = None" for u
    using assms(2,3) by (cases u) (auto simp: recv_claim_def)
  have mod: "(unat (ch_head s) + i) mod c = (i0 + i) mod c" for i
    using chan_okD(5) [OF ok] by (simp add: mod_add_left_eq)
  have val: "bk_data (ch_buckets s ! ((i0 + i) mod c)) = Some (q ! i)" if "i < length q" for i
    using ring_okD(3) [OF R that] claim by (simp add: chan_val_def)
  have filled: "bk_filled (ch_buckets s ! b) \<longleftrightarrow> (\<exists>i<length q. b = (i0 + i) mod c)" if "b < c" for b
    using ring_okD(4) [OF R that] claim by (simp add: slots_index)
  have atom: "fa_atom (futex_atom fx) = send_count ((i0 + length q) mod c) (length q)"
    using chan_okD(10) [OF ok] assms(3) by (auto simp: atom_ok_def chan_size_def recv_taken_def)
  have fx: "get_futex (ch_world s) f = Inr fx" using tasks_okD(2) [OF chan_okD(1) [OF ok]] by simp
  show ?thesis
    unfolding mod using ring_okD(2) [OF R] val filled atom fx by (simp add: send_count_def)
qed

text \<open>
  C8: the receiver is not left asleep: if it is pending while the bucket at its head is filled, the
  waker it parked has been called since, or a sender is about to call it.
\<close>

theorem chan_receiver_woken:
  assumes "reach (chan_init f c) (chan_step f) s" "ch_rpc s = RPend cx n"
    and "bk_filled (ch_buckets s ! unat (ch_head s))"
  shows "cx \<in> set (drop n (wakes (ch_world s))) \<or>
    (\<exists>t w m. ch_send s t = SCall w m cx \<or> ch_send s t = SSwap w m \<and> ch_recv s = RecvWaiting cx)"
proof -
  obtain g fx i0 q where ok: "chan_ok f c s g fx i0 q" by (rule chan_reach_ok [OF assms(1)])
  show ?thesis
    using chan_okD(11) [OF ok] chan_okD(5) [OF ok] assms(2,3)
    by (auto simp: wake_ok_def called_since_def)
qed

text \<open>
  C9: the senders are not left asleep: while one is suspended and has not been woken, the receiver
  has popped its waiter, or all buckets are in use; then, unless \<open>recv\<close> is running, the bucket at its
  head holds a message or a sender is putting one there.
\<close>

theorem chan_sender_woken:
  assumes "reach (chan_init f c) (chan_step f) s" "ch_send s t = SWait m (Suspended wait)"
    and "wkr (heap (ch_world s)) (wf_waiter wait) \<noteq> WakerDone"
  shows "recv_hand (ch_rpc s) = Some (wf_waiter wait) \<or>
    (\<exists>fx. get_futex (ch_world s) f = Inr fx \<and> ss_size (send_decode (fa_atom (futex_atom fx))) = chan_len s) \<and>
    (ch_rpc s = RIdle \<or> ch_rpc s = RPend cx n \<longrightarrow>
       bk_filled (ch_buckets s ! unat (ch_head s)) \<or>
       (\<exists>u w m. ch_send s u = SWrite w m (ch_head s) \<or> ch_send s u = SFill w m (ch_head s)))"
proof -
  obtain g fx i0 q where ok: "chan_ok f c s g fx i0 q" by (rule chan_reach_ok [OF assms(1)])
  note T = chan_okD(1) [OF ok] and R = chan_okD(2) [OF ok, unfolded chan_ring_def]
  let ?w = "wf_waiter wait"
  have "r_stage (chan_roles (ch_send s) (ch_rpc s) (Suc t)) = Parked ?w 0" using assms(2) by simp
  from tasks_stage [OF T this] have parked: "parked_ok (heap (ch_world s)) g f ?w 0" by simp
  then have listed: "listed f 0 (g_loc g ?w)" using assms(3) by (auto simp: parked_ok_def)
  have hand: "r_hand (chan_roles (ch_send s) (ch_rpc s) u) = Some ?w \<Longrightarrow> u = 0" for u
    by (cases u; cases "ch_send s (u - 1)") simp_all
  have "g_list g u = []" for u
    using tasks_list [OF T, of u] by (cases u; cases "ch_send s (u - 1)") (simp_all add: recv_role_def)
  then have "g_loc g ?w \<noteq> InList u" for u using tasks_in_list [OF T, of ?w u] by simp
  then consider "g_loc g ?w = InHand 0" | "g_loc g ?w = Inbox f \<or> g_loc g ?w = InQueue f 0"
    using listed tasks_in_hand [OF T, of _ ?w] hand by (auto simp: listed_def)
  then show ?thesis
  proof cases
    case 1
    then show ?thesis using tasks_in_hand [OF T, of 0 ?w] by (simp add: recv_role_def)
  next
    case 2
    then have "?w \<in> set (g_inbox g f) \<or> ?w \<in> set (g_queues g f ! 0)"
      using tasks_in_queue [OF T, of 0 ?w] world_okD(3) [OF tasks_okD(1,2) [OF T]] by (auto simp: inbox_ok_def)
    then have "g_inbox g f \<noteq> [] \<or> g_queues g f ! 0 \<noteq> []" by auto
    then have size: "chan_size (length q) (ch_rpc s) = c"
      using chan_okD(10) [OF ok] by (simp add: atom_ok_def)
    have "bk_filled (ch_buckets s ! unat (ch_head s)) \<or>
       (\<exists>u w m. ch_send s u = SWrite w m (ch_head s) \<or> ch_send s u = SFill w m (ch_head s))"
      if rest: "ch_rpc s = RIdle \<or> ch_rpc s = RPend cx n"
    proof -
      have "length q = c" "0 < c"
        using size rest chan_bounds(1) [OF ok] by (auto simp: chan_size_def recv_taken_def)
      then have "i0 mod c \<in> slots c i0 (length q)" by (auto simp: slots_index intro: exI [of _ 0])
      then have "bk_filled (ch_buckets s ! (i0 mod c)) \<or> (\<exists>u. chan_claim (ch_send s) (ch_rpc s) u = Some (i0 mod c))"
        using ring_okD(4) [OF R, of "i0 mod c"] \<open>0 < c\<close> by simp
      then show ?thesis
      proof (elim disjE exE)
        fix u assume u: "chan_claim (ch_send s) (ch_rpc s) u = Some (i0 mod c)"
        then obtain v where "send_claim (ch_send s v) = Some (unat (ch_head s))"
          using rest chan_okD(5) [OF ok] by (cases u) (auto simp: recv_claim_def)
        then show ?thesis by (cases "ch_send s v") (auto dest!: unsigned_word_eqI)
      qed (use chan_okD(5) [OF ok] in simp)
    qed
    moreover have "ss_size (send_decode (fa_atom (futex_atom fx))) = chan_len s"
      using chan_bounds(5) [OF ok] size chan_okD(3) [OF ok] by simp
    ultimately show ?thesis using tasks_okD(2) [OF T] by auto
  qed
qed

text \<open>
  A send that returns has handed its message over: it has been moved out of the frame of the
  sender, whether by the sender or by the receiver.
\<close>

theorem chan_send_hands_over:
  assumes "reach (chan_init f c) (chan_step f) s" "chan_step f (Snd t act) s = Some (Inr s')"
    and "send_mail (ch_send s t) = Some m" "ch_send s' t = SIdle"
    and "act \<noteq> SDrop" "\<And>w d. ch_send s t \<noteq> SWait m (Dropping w d)"
  shows "ch_mail s m = Some None"
proof -
  obtain g fx i0 q where ok: "chan_ok f c s g fx i0 q" by (rule chan_reach_ok [OF assms(1)])
  obtain p s1 where s1: "send_task f (Suc t) act s (ch_send s t) = Some (Inr (p, s1))"
    "s' = s1\<lparr>ch_send := (ch_send s1)(t := p)\<rparr>"
    using assms(2) by (auto simp: chan_step_def mapR_def bindR_eq_Inr)
  then have p: "p = SIdle" using assms(4) by simp
  have "\<not> send_full (heap (ch_world s)) (ch_rpc s) (ch_send s t)"
  proof (cases "ch_send s t")
    case (STop w m a cx)
    with s1(1) p show ?thesis
      by (cases act) ((auto simp: send_task_def send_iter_def Let_def bindR_eq_Inr split: if_splits sum.splits)[1];
          metis sum.exhaust)+
  next
    case (SWrite w m i)
    with s1(1) p show ?thesis by (cases act) (auto simp: send_task_def send_write_def bindR_eq_Inr)
  next
    case (SWait m' x)
    then have m: "m' = m" using assms(3) by simp
    obtain r where r: "send_wait (Suc t) act (ch_world s) x = Some r" "bindR r (send_waited m s) = Inr (SIdle, s1)"
      using s1(1) SWait p m by (auto simp: send_task_def)
    obtain out W' where out: "r = Inr (out, W')" "send_waited m s (out, W') = Inr (SIdle, s1)"
      using r(2) unfolding bindR_eq_Inr by auto
    obtain act' where act': "wait_advance (Suc t) act' (ch_world s) x = Some r" "act' \<noteq> Abandon"
      using r(1) assms(5) by (cases act) (auto simp: send_wait_def)
    have role: "chan_roles (ch_send s) (ch_rpc s) (Suc t) = wait_role 0 x" using SWait by simp
    have x: "wait_task_ok f (heap (ch_world s)) x" "\<And>w d. x \<noteq> Dropping w d"
      using chan_okD(7) [OF ok, of t] SWait assms(6) m by auto
    obtain g' fx' where w: "out_ok f (heap W') out" "out_waiter out = wait_waiter x"
      "wait_moves f 0 (wait_waiter x) (chan_roles (ch_send s) (ch_rpc s)) (ch_world s) g fx W' g' fx'"
      using wait_advance_good [OF chan_okD(1) [OF ok] role x(1) act'(1)] out(1) by (auto simp: wait_good_def)
    note nd = wait_not_dropped [OF act'(1) [unfolded out(1)] act'(2) x(2)]
    show ?thesis
    proof (cases out)
      case (Returned b wait cx)
      then have "wkr (heap W') (wait_waiter x) = WakerDone" using w by auto
      then show ?thesis using SWait wait_moves_lists(2) [OF w(3)] by simp
    qed (use out(2) nd(2) in \<open>auto simp: send_waited_def\<close>)
  qed simp_all
  then show ?thesis
    using mail_okD [OF chan_okD(6) [OF ok] assms(3)] by (metis not_None_eq)
qed

text \<open>
  C12: the data of a channel stays well-formed: the ring keeps its length, all indices in use are
  inside of it, a bucket that a sender is writing to is its own and not filled, and every sender
  has a message cell of its own.
\<close>

theorem chan_well_formed:
  assumes "reach (chan_init f c) (chan_step f) s"
  shows "length (ch_buckets s) = c \<and> unat (ch_head s) < c \<and>
    (\<forall>t i. send_claim (ch_send s t) = Some i \<longrightarrow> i < c \<and> \<not> bk_filled (ch_buckets s ! i)) \<and>
    (\<forall>t u i. send_claim (ch_send s t) = Some i \<and> send_claim (ch_send s u) = Some i \<longrightarrow> t = u) \<and>
    (\<forall>t m. send_mail (ch_send s t) = Some m \<longrightarrow> ch_mail s m \<noteq> None) \<and>
    (\<forall>t u m. send_mail (ch_send s t) = Some m \<and> send_mail (ch_send s u) = Some m \<longrightarrow> t = u)"
proof -
  obtain g fx i0 q where ok: "chan_ok f c s g fx i0 q" by (rule chan_reach_ok [OF assms])
  have "t = u" if "send_claim (ch_send s t) = Some i" "send_claim (ch_send s u) = Some i" for t u i
    using claim_sole [OF ok that(1), of "Suc u"] that(2) by simp
  moreover have "i < c \<and> \<not> bk_filled (ch_buckets s ! i)" if "send_claim (ch_send s t) = Some i" for t i
    using claim_bound(1) [OF ok that] chan_okD(8) [OF ok that] by simp
  moreover have "unat (ch_head s) < c" using head_bound(1) [OF ok] chan_okD(5) [OF ok] by simp
  ultimately show ?thesis
    using chan_okD(3,6) [OF ok] unfolding mail_ok_def by blast
qed

section \<open>Progress\<close>

text \<open>The tasks inside \<open>send\<close> or \<open>recv\<close> that do not await a wake-up.\<close>

fun send_running :: "send_pc \<Rightarrow> bool" where
  "send_running SIdle = False"
| "send_running (SWait m p) = mid_wait p"
| "send_running _ = True"

definition recv_running :: "'a recv_pc \<Rightarrow> bool" where
  "recv_running p = (case p of RIdle \<Rightarrow> False | RPend _ _ \<Rightarrow> False | RGot _ \<Rightarrow> False | _ \<Rightarrow> True)"

lemma recv_runs:
  "recv_running (ch_rpc s) \<Longrightarrow> (\<And>v h. ch_rpc s = RLock v h \<Longrightarrow> futex_lock 0 (ch_world s) f \<noteq> None) \<Longrightarrow>
     chan_step f (Rcv (RRun b)) s \<noteq> None"
  by (cases "ch_rpc s") (simp_all add: chan_step_def recv_task_def recv_step_def recv_running_def)

text \<open>
  C11: no deadlock: while some task is inside \<open>send\<close> or \<open>recv\<close>, one such task can take its next step.
  Outside are the senders that await their waiter and a receiver that is pending.
\<close>

theorem chan_not_stuck:
  assumes "reach (chan_init f c) (chan_step f) s" "send_running (ch_send s t) \<or> recv_running (ch_rpc s)"
  shows "(\<exists>u. send_running (ch_send s u) \<and> chan_step f (Snd u (SRun b)) s \<noteq> None) \<or>
    recv_running (ch_rpc s) \<and> chan_step f (Rcv (RRun b)) s \<noteq> None"
proof -
  obtain g fx i0 q where ok: "chan_ok f c s g fx i0 q" by (rule chan_reach_ok [OF assms(1)])
  note T = chan_okD(1) [OF ok]
  have wait: "chan_step f (Snd u (SRun b)) s \<noteq> None"
    if "ch_send s u = SWait m p" "wait_advance (Suc u) (Step b) (ch_world s) p \<noteq> None" for u m p
    using that by (auto simp: chan_step_def send_task_def send_wait_def)
  from tasks_unblocked [OF T] show ?thesis
  proof (elim disjE exE)
    assume free: "\<forall>t. futex_lock t (ch_world s) f \<noteq> None \<and> write_lock t (ch_world s) f \<noteq> None"
    have "chan_step f (Snd t (SRun b)) s \<noteq> None" if "send_running (ch_send s t)"
    proof (cases "ch_send s t")
      case (SWait m p)
      then have "wait_advance (Suc t) (Step b) (ch_world s) p \<noteq> None"
        using that free chan_okD(7) [OF ok, of t] by (intro wait_mid_runs) auto
      then show ?thesis by (rule wait [OF SWait])
    qed (use that in \<open>simp_all add: chan_step_def send_task_def\<close>)
    then show ?thesis using assms(2) recv_runs [of s f b] free by blast
  next
    fix u assume u: "r_write (chan_roles (ch_send s) (ch_rpc s) u)"
    then obtain t m p where t: "u = Suc t" "ch_send s t = SWait m p" "r_write (wait_role 0 p)"
      by (cases u; cases "ch_send s (u - 1)") (auto simp: recv_role_def)
    then have "mid_wait p" by (cases p) (simp_all add: mid_wait_def)
    then show ?thesis using wait [OF t(2)] wait_write_runs [OF t(3)] t(2) by (intro disjI1 exI [of _ t]) simp
  next
    fix u assume u: "r_read (chan_roles (ch_send s) (ch_rpc s) u)"
    then have "recv_reads (ch_rpc s)"
      by (cases u; cases "ch_send s (u - 1)") (auto simp: recv_role_def)
    then have "recv_running (ch_rpc s)" "\<And>v h. ch_rpc s \<noteq> RLock v h"
      by (auto simp: recv_reads_def recv_running_def split: recv_pc.splits)
    then show ?thesis using recv_runs [of s f b] by blast
  qed
qed

text \<open>
  How many steps \<open>recv\<close> may still take on its own: a compare-exchange can fail once, on a snapshot
  that is out of date.
\<close>

definition recv_rank :: "raw_futex_atom \<Rightarrow> 'a recv_pc \<Rightarrow> nat" where
  "recv_rank now p = (case p of RLoad _ _ \<Rightarrow> 18 | RPark _ _ \<Rightarrow> 17 | RCheck _ _ _ \<Rightarrow> 16 | RUnpark _ \<Rightarrow> 15
     | RTake _ \<Rightarrow> 14 | RRead _ \<Rightarrow> 13 | RLock _ _ \<Rightarrow> 12 | RBorrow _ _ \<Rightarrow> 11 | RPop _ _ \<Rightarrow> 10
     | RLoadW _ _ _ \<Rightarrow> 9 | RLoadN _ _ \<Rightarrow> 9 | RMove _ _ _ a \<Rightarrow> (if a = now then 7 else 8)
     | RShrink _ _ a \<Rightarrow> (if a = now then 7 else 8) | RFill _ _ _ \<Rightarrow> 6 | RMsg _ _ _ \<Rightarrow> 5 | RWake _ _ \<Rightarrow> 4
     | RCall _ _ \<Rightarrow> 3 | RUnborrow _ \<Rightarrow> 2 | RUnlock _ \<Rightarrow> 1 | _ \<Rightarrow> 0)"

definition atom_now :: "ptr \<Rightarrow> 'a chan_state \<Rightarrow> raw_futex_atom" where
  "atom_now f s = (case futexes (ch_world s) f of Some fx \<Rightarrow> futex_atom fx | None \<Rightarrow> \<lparr>fa_atom = 0, fa_inbox = null\<rparr>)"

lemma recv_step_send:
  assumes "recv_step spurious f s = Some (Inr (p, s1))"
  shows "ch_send s1 = ch_send s"
proof (cases "ch_rpc s")
  case (RMove v h w a)
  with assms show ?thesis by (auto simp: recv_step_def recv_move_def Let_def bindR_eq_Inr)
next
  case (RShrink v h a)
  with assms show ?thesis by (auto simp: recv_step_def recv_shrink_def Let_def bindR_eq_Inr split: if_splits)
qed (use assms in \<open>(auto simp: recv_step_def recv_park_def recv_unpark_def recv_take_def recv_read_def
    recv_fill_def recv_message_def on_world_def mapR_def Let_def bindR_eq_Inr)[1]\<close>)+

lemma recv_step_rank:
  assumes ok: "chan_ok f c s g fx i0 q" and step: "recv_step False f s = Some (Inr (p, s1))"
  shows "recv_rank (atom_now f s1) p < recv_rank (atom_now f s) (ch_rpc s)" "ch_send s1 = ch_send s"
proof -
  have fx: "futexes (ch_world s) f = Some fx" by (rule tasks_okD(2) [OF chan_okD(1) [OF ok]])
  have now: "atom_now f s = futex_atom fx" by (simp add: atom_now_def fx)
  have "recv_rank (atom_now f s1) p < recv_rank (atom_now f s) (ch_rpc s) \<and> ch_send s1 = ch_send s"
  proof (cases "ch_rpc s")
    case (RLoadW v h w)
    then have "p = RMove v h w (futex_atom fx) \<and> s1 = s"
      using step futex_load_eq [OF fx] by (simp add: recv_step_def)
    then show ?thesis using RLoadW now by (simp add: recv_rank_def)
  next
    case (RLoadN v h)
    then have "p = RShrink v h (futex_atom fx) \<and> s1 = s"
      using step futex_load_eq [OF fx] by (simp add: recv_step_def)
    then show ?thesis using RLoadN now by (simp add: recv_rank_def)
  next
    case (RMove v h w a)
    then have mv: "recv_move False f v h w a s = Inr (p, s1)" using step by (simp add: recv_step_def)
    have "(p = RFill v h w \<and> ch_send s1 = ch_send s) \<or> p = RMove v h w (futex_atom fx) \<and> futex_atom fx \<noteq> a \<and> s1 = s"
      using mv futex_cmpxchg_weak_eq [OF fx, of AcqRelT RelaxedT False a]
      by (cases "futex_atom fx = a") (auto simp: recv_move_def Let_def bindR_eq_Inr)
    then show ?thesis using RMove now by (auto simp: recv_rank_def)
  next
    case (RShrink v h a)
    then have mv: "recv_shrink False f v h a s = Inr (p, s1)" using step by (simp add: recv_step_def)
    obtain new where r: "recv_shrink False f v h a s =
      bindR (cmpxchg_enqueue_weak False AcqRelT RelaxedT (ch_world s) f a (send_encode new)) (\<lambda>(ok, a, W).
        if ok then
          bindR (queue_pop W f 0) (\<lambda>(waiter, W).
            Inr (case waiter of Some w \<Rightarrow> RFill v h w | None \<Rightarrow> RUnborrow v, s\<lparr>ch_world := W\<rparr>))
        else Inr (RShrink v h a, s\<lparr>ch_world := W\<rparr>))"
      by (rule recv_shrink_eq [OF ok RShrink, of False]) (rule that)
    have fo: "cas_orders s (ORDERING RelaxedT)" for s by simp
    obtain h' qs' where enq: "cmpxchg_enqueue_weak False AcqRelT RelaxedT (ch_world s) f a (send_encode new) = Inr
        (if futex_atom fx = a \<and> \<not> False
         then (True, a, put_futex ((ch_world s)\<lparr>heap := h'\<rparr>) f
                 (fx\<lparr>futex_atom := \<lparr>fa_atom = send_encode new, fa_inbox = null\<rparr>, queues := qs'\<rparr>))
         else (False, futex_atom fx, ch_world s))"
      by (rule tasks_cmpxchg_enqueue [OF chan_okD(1) [OF ok] fo, of False AcqRelT a "send_encode new"]) (rule that)
    have "((\<exists>w. p = RFill v h w) \<or> p = RUnborrow v) \<and> ch_send s1 = ch_send s \<or>
        p = RShrink v h (futex_atom fx) \<and> futex_atom fx \<noteq> a \<and> s1 = s"
      using mv unfolding r enq by (cases "futex_atom fx = a") (auto simp: bindR_eq_Inr split: option.splits)
    then show ?thesis using RShrink now by (auto simp: recv_rank_def)
  qed (use step in \<open>(auto simp: recv_step_def recv_park_def recv_unpark_def recv_take_def recv_read_def
    recv_fill_def recv_message_def on_world_def mapR_def Let_def bindR_eq_Inr)[1];
    simp add: recv_rank_def split: option.split\<close>)+
  then show "recv_rank (atom_now f s1) p < recv_rank (atom_now f s) (ch_rpc s)" "ch_send s1 = ch_send s" by blast+
qed

definition send_writes :: "send_pc \<Rightarrow> bool" where
  "send_writes p = (case p of SWait m (Dropping w d) \<Rightarrow>
     (case d of DropFinish \<Rightarrow> False | DropWrite _ \<Rightarrow> False | _ \<Rightarrow> True) | _ \<Rightarrow> False)"

lemma send_writes_role: "r_write (send_role p) \<longleftrightarrow> send_writes p"
proof (cases p)
  case (SWait m x)
  then show ?thesis
    by (cases x) (auto simp: send_writes_def drop_simps split: drop_pc.split)
qed (simp_all add: send_writes_def idle_role_def)

lemma recv_alone:
  assumes "reach (chan_init f c) (chan_step f) s" "\<And>t. \<not> send_writes (ch_send s t)"
    and "recv_rank (atom_now f s) (ch_rpc s) \<le> k"
  shows "\<exists>n s'. n \<le> k \<and> run (chan_step f) (replicate n (Rcv (RRun False))) s = Some (Inr s') \<and> \<not> recv_running (ch_rpc s')"
  using assms
proof (induction k arbitrary: s)
  case 0
  then have "\<not> recv_running (ch_rpc s)"
    by (auto simp: recv_rank_def recv_running_def split: recv_pc.splits if_splits)
  then show ?case by (intro exI [of _ 0] exI [of _ s]) simp
next
  case (Suc k)
  show ?case
  proof (cases "recv_running (ch_rpc s)")
    case False
    then show ?thesis by (intro exI [of _ 0] exI [of _ s]) simp
  next
    case True
    obtain g fx i0 q where ok: "chan_ok f c s g fx i0 q" by (rule chan_reach_ok [OF Suc.prems(1)])
    note T = chan_okD(1) [OF ok]
    have "\<not> r_write (chan_roles (ch_send s) (ch_rpc s) u)" for u
      using Suc.prems(2) send_writes_role by (cases u) (auto simp: recv_role_def idle_role_def)
    then have "rw_writer fx = None"
      using tasks_okD(4) [OF T] by (cases "rw_writer fx") (auto simp: guards_held_def)
    then have "futex_lock 0 (ch_world s) f \<noteq> None"
      using tasks_okD(2) [OF T] by (simp add: futex_lock_def)
    then have "chan_step f (Rcv (RRun False)) s \<noteq> None" using recv_runs [OF True] by blast
    then obtain s1 where s1: "chan_step f (Rcv (RRun False)) s = Some (Inr s1)"
      using chan.reach_no_fault [OF Suc.prems(1), of "Rcv (RRun False)"]
      by (metis not_None_eq old.sum.exhaust)
    then obtain p s2 where s2: "recv_step False f s = Some (Inr (p, s2))" "s1 = s2\<lparr>ch_rpc := p\<rparr>"
      by (auto simp: chan_step_def recv_task_def mapR_def bindR_eq_Inr)
    note rank = recv_step_rank [OF ok s2(1)]
    have "atom_now f s1 = atom_now f s2" using s2(2) by (simp add: atom_now_def)
    then have "recv_rank (atom_now f s1) (ch_rpc s1) \<le> k" using rank(1) Suc.prems(3) s2(2) by simp
    moreover have "\<not> send_writes (ch_send s1 t)" for t using Suc.prems(2) rank(2) s2(2) by simp
    ultimately obtain n s' where "n \<le> k" "run (chan_step f) (replicate n (Rcv (RRun False))) s1 = Some (Inr s')"
      "\<not> recv_running (ch_rpc s')"
      using Suc.IH [OF reach.move [OF Suc.prems(1) s1]] by blast
    then show ?thesis using s1 by (intro exI [of _ "Suc n"] exI [of _ s']) simp
  qed
qed

text \<open>
  C10: \<open>recv\<close> terminates: run on its own, with compare-exchanges that do not fail spuriously and
  while no sender that cancels its wait holds the lock of the list, a poll of \<open>recv\<close> returns within
  18 steps, with a message or pending.
\<close>

theorem chan_recv_terminates:
  assumes "reach (chan_init f c) (chan_step f) s" "\<And>t. \<not> send_writes (ch_send s t)"
  shows "\<exists>n s'. n \<le> 18 \<and> run (chan_step f) (replicate n (Rcv (RRun False))) s = Some (Inr s') \<and>
    \<not> recv_running (ch_rpc s')"
  by (rule recv_alone [OF assms]) (simp add: recv_rank_def split: recv_pc.split)

text \<open>
  The packings of the two atomics: exactly the states that fit come back, and every word of memory
  is the packing of what it decodes to.
\<close>

lemma send_state_packing:
  "(send_decode (send_encode a) = a \<longleftrightarrow> send_fits a) \<and> (recv_decode nt (recv_encode nt b) = b \<longleftrightarrow> recv_valid nt b)"
proof
  show "send_decode (send_encode a) = a \<longleftrightarrow> send_fits a"
    using send_decode_fits [of "send_encode a"] send_pack.decode_encode [of a] by auto
  show "recv_decode nt (recv_encode nt b) = b \<longleftrightarrow> recv_valid nt b"
    by (cases b) (auto simp: recv_encode_def recv_decode_def recv_valid_def copy_waker_pack.decode_encode)
qed

text \<open>
  C13: outside of its contract: if a pending \<open>recv\<close> is dropped whose waker has not been called since
  its poll and is not about to be called by a sender, its waker stays parked, and then the drop of
  the channel panics, unless a sender has taken the waker out before.
\<close>

theorem chan_dropped_recv:
  assumes "reach (chan_init f c) (chan_step f) s" "ch_rpc s = RPend cx n"
    and "cx \<notin> set (drop n (wakes (ch_world s)))" "\<forall>t w m. ch_send s t \<noteq> SCall w m cx"
  shows "\<exists>s'. chan_step f (Rcv RDrop) s = Some (Inr s') \<and> ch_rpc s' = RIdle \<and> ch_send s' = ch_send s \<and>
    ch_recv s' = RecvWaiting cx \<and> inner_drop (ch_recv s') = Inl Panic"
proof -
  obtain g fx i0 q where ok: "chan_ok f c s g fx i0 q" by (rule chan_reach_ok [OF assms(1)])
  have "ch_recv s = RecvWaiting cx"
    using chan_okD(11) [OF ok] assms(2-4) by (auto simp: wake_ok_def called_since_def)
  then show ?thesis using assms(2) by (auto simp: chan_step_def recv_task_def inner_drop_def)
qed

section \<open>Runs\<close>

text \<open>
  A channel with one bucket: sender 0 fills it (\<open>chan_fill_trace\<close>), sender 1 finds it in use and
  waits (\<open>chan_wait_trace\<close>), \<open>recv\<close> takes the first message and moves the second one into the bucket
  (\<open>chan_backfill_trace\<close>), and sender 1 returns (\<open>chan_return_trace\<close>).
\<close>

definition chan_waker :: "nat \<Rightarrow> copy_waker" where
  "chan_waker n = \<lparr>cw_data = of_nat n, cw_vtable = 9\<rparr>"

definition chan_one :: "nat chan_state" where
  "chan_one = (case chan_new 100 1 of Inr s \<Rightarrow> s | Inl _ \<Rightarrow> undefined)"

abbreviation chan_runs :: "tid \<Rightarrow> nat \<Rightarrow> nat chan_event list" where
  "chan_runs t n \<equiv> replicate n (Snd t (SRun False))"

definition chan_fill_trace :: "nat chan_event list" where
  "chan_fill_trace = Snd 0 (SStart (chan_waker 1) 16 1000 5) # chan_runs 0 4"

definition chan_wait_trace :: "nat chan_event list" where
  "chan_wait_trace = chan_fill_trace @ Snd 1 (SStart (chan_waker 2) 32 1001 7) # chan_runs 1 1"

definition chan_backfill_trace :: "nat chan_event list" where
  "chan_backfill_trace = chan_wait_trace @ Rcv (RPoll (chan_waker 3)) # replicate 14 (Rcv (RRun False))"

definition chan_return_trace :: "nat chan_event list" where
  "chan_return_trace = chan_backfill_trace @ [Rcv RTakeResult, Snd 1 (SPoll (chan_waker 2)), Snd 1 (SRun False)]"

definition chan_after :: "nat chan_event list \<Rightarrow> nat chan_state" where
  "chan_after es = (case run (chan_step 100) es chan_one of Some (Inr s) \<Rightarrow> s | _ \<Rightarrow> chan_one)"

section \<open>Witnesses\<close>

lemma chan_one_init: "chan_init 100 1 chan_one"
proof -
  have "(case chan_new 100 1 of Inr (s :: nat chan_state) \<Rightarrow> True | Inl _ \<Rightarrow> False)" by code_simp
  then obtain s :: "nat chan_state" where "chan_new 100 1 = Inr s" by (auto split: sum.splits)
  then show ?thesis by (auto simp: chan_init_def chan_one_def intro!: exI [of _ 1])
qed

lemma chan_init_send: "chan_init f c s \<Longrightarrow> ch_send s = (\<lambda>_. SIdle)"
  by (auto simp: chan_init_def chan_new_eq)

lemma chan_after_run:
  assumes "(case run (chan_step 100) es chan_one of Some (Inr s) \<Rightarrow> True | _ \<Rightarrow> False)"
  shows "run (chan_step 100) es chan_one = Some (Inr (chan_after es))"
  using assms by (auto simp: chan_after_def split: option.splits sum.splits)

lemma chan_after_reach: "reach (chan_init 100 1) (chan_step 100) (chan_after es)"
proof -
  have start: "reach (chan_init 100 1) (chan_step 100) chan_one"
    by (rule reach.start) (rule chan_one_init)
  then show ?thesis
    using run_reach [OF start, of es] by (auto simp: chan_after_def split: option.splits sum.splits)
qed

text \<open>A sender that takes no step stays in its place.\<close>

lemma chan_step_other:
  assumes "chan_step f e s = Some (Inr s')" "\<And>act. e \<noteq> Snd t act"
  shows "ch_send s' t = ch_send s t"
proof (cases e)
  case (Snd u act)
  then obtain p s1 where "send_task f (Suc u) act s (ch_send s u) = Some (Inr (p, s1))"
    "s' = s1\<lparr>ch_send := (ch_send s1)(u := p)\<rparr>"
    using assms(1) by (auto simp: chan_step_def mapR_def bindR_eq_Inr)
  then show ?thesis using send_task_rpc [of f "Suc u" act s] Snd assms(2) by auto
next
  case (Rcv act)
  obtain p s1 where s1: "recv_task f act s = Some (Inr (p, s1))" "s' = s1\<lparr>ch_rpc := p\<rparr>"
    using assms(1) Rcv by (auto simp: chan_step_def mapR_def bindR_eq_Inr)
  show ?thesis
  proof (cases act)
    case (RRun b)
    then have "recv_step b f s = Some (Inr (p, s1))" using s1(1) by (simp add: recv_task_def)
    then show ?thesis using recv_step_send s1(2) by fastforce
  qed (use s1 in \<open>cases "ch_rpc s"; auto simp: recv_task_def\<close>)+
qed

lemma chan_after_other:
  assumes "\<And>act. Snd t act \<notin> set es"
  shows "ch_send (chan_after es) t = SIdle"
proof -
  have "ch_send s' t = ch_send s t"
    if "run (chan_step 100) es s = Some (Inr s')" for s s' :: "nat chan_state"
    using that assms
  proof (induction es arbitrary: s)
    case (Cons e es)
    then obtain s1 where s1: "chan_step 100 e s = Some (Inr s1)" "run (chan_step 100) es s1 = Some (Inr s')"
      by (auto split: option.splits sum.splits)
    then show ?case
      using Cons.IH [OF s1(2)] chan_step_other [OF s1(1), of t] Cons.prems(2)
      by auto
  qed simp
  moreover have "ch_send chan_one t = SIdle" using chan_init_send [OF chan_one_init] by simp
  ultimately show ?thesis
    by (auto simp: chan_after_def split: option.splits sum.splits)
qed

definition chan_pend_trace :: "nat chan_event list" where
  "chan_pend_trace = Rcv (RPoll (chan_waker 3)) # replicate 3 (Rcv (RRun False))"

theorem chan_no_fault_witness:
  "chan_step 100 (Rcv (RRun True)) (chan_after (butlast chan_backfill_trace)) \<noteq> Some (Inl Panic) \<and>
   chan_step 100 (Rcv (RRun True)) (chan_after (butlast chan_backfill_trace)) \<noteq> None"
proof
  show "chan_step 100 (Rcv (RRun True)) (chan_after (butlast chan_backfill_trace)) \<noteq> Some (Inl Panic)"
    by (rule chan_no_fault [OF chan_after_reach])
  have "(case chan_step 100 (Rcv (RRun True)) (chan_after (butlast chan_backfill_trace)) of None \<Rightarrow> False | _ \<Rightarrow> True)"
    by code_simp
  then show "chan_step 100 (Rcv (RRun True)) (chan_after (butlast chan_backfill_trace)) \<noteq> None"
    by (auto split: option.splits)
qed

lemma chan_return_run: "run (chan_step 100) chan_return_trace chan_one = Some (Inr (chan_after chan_return_trace))"
  by (rule chan_after_run) code_simp

lemma chan_return_commits:
  "commits (chan_step 100) chan_commit chan_return_trace chan_one = [Sent 5, Received 5, Sent 7]"
  by code_simp

theorem chan_refines_queue_witness:
  "spec_run (queue_commit 1) [Sent 5, Received 5, Sent (7 :: nat)] [] = Some [7] \<and>
   chan_abs 100 1 (chan_after chan_return_trace) [7]"
  using chan_refines_queue [OF chan_one_init chan_return_run] unfolding chan_return_commits by auto

theorem chan_fifo_witness:
  "\<exists>q. [5, 7] = recv_results 100 chan_return_trace chan_one @ recv_carry (ch_rpc (chan_after chan_return_trace)) @ q \<and>
     length q \<le> 1 \<and> recv_results 100 chan_return_trace chan_one = [5]"
proof -
  have "recv_results 100 chan_return_trace chan_one = [5]" by code_simp
  then show ?thesis
    using chan_fifo [OF chan_one_init chan_return_run] unfolding chan_return_commits by simp
qed

theorem chan_ring_at_rest_witness:
  "\<exists>q. chan_abs 100 1 (chan_after chan_return_trace) q \<and> length q \<le> 1 \<and>
     (\<exists>fx. get_futex (ch_world (chan_after chan_return_trace)) 100 = Inr fx \<and>
        fa_atom (futex_atom fx) = send_encode \<lparr>ss_write_head = 0, ss_size = of_nat (length q)\<rparr>)"
proof -
  obtain q where q: "chan_abs 100 1 (chan_after chan_return_trace) q"
    using chan.inits_run [OF chan_one_init chan_return_run] by blast
  have idle: "send_claim (ch_send (chan_after chan_return_trace) t) = None" for t
  proof (cases "t = 0 \<or> t = 1")
    case True
    have "send_claim (ch_send (chan_after chan_return_trace) 0) = None \<and>
        send_claim (ch_send (chan_after chan_return_trace) 1) = None" by code_simp
    then show ?thesis using True by auto
  next
    case False
    have "set chan_return_trace \<subseteq> {Snd u act | u act. u = 0 \<or> u = 1} \<union> {Rcv act | act. True}"
      by (auto simp: chan_return_trace_def chan_backfill_trace_def chan_wait_trace_def chan_fill_trace_def)
    then show ?thesis using False chan_after_other [of t chan_return_trace] by fastforce
  qed
  have "(case ch_rpc (chan_after chan_return_trace) of RIdle \<Rightarrow> True | _ \<Rightarrow> False)" by code_simp
  then have "ch_rpc (chan_after chan_return_trace) = RIdle" by (auto split: recv_pc.splits)
  from chan_ring_at_rest [OF q idle disjI1 [OF this]] q show ?thesis by auto
qed

theorem chan_receiver_woken_witness:
  "chan_waker 3 \<in> set (drop 0 (wakes (ch_world (chan_after (chan_pend_trace @ butlast chan_fill_trace))))) \<or>
    (\<exists>t w m. ch_send (chan_after (chan_pend_trace @ butlast chan_fill_trace)) t = SCall w m (chan_waker 3) \<or>
      ch_send (chan_after (chan_pend_trace @ butlast chan_fill_trace)) t = SSwap w m \<and>
      ch_recv (chan_after (chan_pend_trace @ butlast chan_fill_trace)) = RecvWaiting (chan_waker 3))"
proof (rule chan_receiver_woken [OF chan_after_reach])
  let ?s = "chan_after (chan_pend_trace @ butlast chan_fill_trace)"
  have "(case ch_rpc ?s of RPend cx n \<Rightarrow> cx = chan_waker 3 \<and> n = 0 | _ \<Rightarrow> False)" by code_simp
  then show "ch_rpc ?s = RPend (chan_waker 3) 0" by (auto split: recv_pc.splits)
  show "bk_filled (ch_buckets ?s ! unat (ch_head ?s))" by code_simp
qed

lemma chan_wait_trace_waits:
  obtains m wait where "ch_send (chan_after chan_wait_trace) 1 = SWait m (Suspended wait)"
    "wkr (heap (ch_world (chan_after chan_wait_trace))) (wf_waiter wait) \<noteq> WakerDone"
proof -
  have "(case ch_send (chan_after chan_wait_trace) 1 of SWait m (Suspended wait) \<Rightarrow>
      wkr (heap (ch_world (chan_after chan_wait_trace))) (wf_waiter wait) \<noteq> WakerDone | _ \<Rightarrow> False)"
    by code_simp
  then show ?thesis using that by (auto split: send_pc.splits wait_task.splits)
qed

theorem chan_sender_woken_witness:
  "bk_filled (ch_buckets (chan_after chan_wait_trace) ! unat (ch_head (chan_after chan_wait_trace))) \<and>
   (\<exists>fx. get_futex (ch_world (chan_after chan_wait_trace)) 100 = Inr fx \<and>
      ss_size (send_decode (fa_atom (futex_atom fx))) = chan_len (chan_after chan_wait_trace))"
proof (rule chan_wait_trace_waits)
  let ?s = "chan_after chan_wait_trace"
  fix m wait assume w: "ch_send ?s 1 = SWait m (Suspended wait)" "wkr (heap (ch_world ?s)) (wf_waiter wait) \<noteq> WakerDone"
  have "(case ch_rpc ?s of RIdle \<Rightarrow> True | _ \<Rightarrow> False)" by code_simp
  then have "ch_rpc ?s = RIdle" by (auto split: recv_pc.splits)
  moreover have "bk_filled (ch_buckets ?s ! unat (ch_head ?s))" by code_simp
  ultimately show ?thesis
    using chan_sender_woken [OF chan_after_reach w, of undefined 0] by (auto simp: recv_hand_def)
qed

theorem chan_send_hands_over_witness:
  "ch_mail (chan_after (butlast chan_return_trace)) 1001 = Some None"
proof (rule chan_send_hands_over [OF chan_after_reach])
  let ?s = "chan_after (butlast chan_return_trace)"
  have "(case ch_send ?s 1 of SWait m (Polling wait cx k) \<Rightarrow> m = 1001 | _ \<Rightarrow> False)" by code_simp
  then obtain wait cx k where w: "ch_send ?s 1 = SWait 1001 (Polling wait cx k)"
    by (auto split: send_pc.splits wait_task.splits)
  then show "send_mail (ch_send ?s 1) = Some 1001" "\<And>w d. ch_send ?s 1 \<noteq> SWait 1001 (Dropping w d)" by simp_all
  have "(case chan_step 100 (Snd 1 (SRun False)) ?s of Some (Inr s') \<Rightarrow> ch_send s' 1 = SIdle | _ \<Rightarrow> False)"
    by code_simp
  then obtain s' where s': "chan_step 100 (Snd 1 (SRun False)) ?s = Some (Inr s')" "ch_send s' 1 = SIdle"
    by (auto split: option.splits sum.splits)
  then show "chan_step 100 (Snd 1 (SRun False)) ?s = Some (Inr (the (map_option projr (chan_step 100 (Snd 1 (SRun False)) ?s))))"
    by simp
  show "ch_send (the (map_option projr (chan_step 100 (Snd 1 (SRun False)) ?s))) 1 = SIdle" using s' by simp
qed simp

theorem chan_well_formed_witness:
  "length (ch_buckets (chan_after chan_wait_trace)) = 1 \<and> ch_mail (chan_after chan_wait_trace) 1001 \<noteq> None"
proof (rule chan_wait_trace_waits)
  fix m wait assume "ch_send (chan_after chan_wait_trace) 1 = SWait m (Suspended wait)"
  have "send_mail (ch_send (chan_after chan_wait_trace) 1) = Some 1001" by code_simp
  then show ?thesis using chan_well_formed [OF chan_after_reach, of chan_wait_trace] by blast
qed

theorem chan_not_stuck_witness:
  "(\<exists>u. send_running (ch_send (chan_after (butlast chan_fill_trace)) u) \<and>
      chan_step 100 (Snd u (SRun True)) (chan_after (butlast chan_fill_trace)) \<noteq> None) \<or>
   recv_running (ch_rpc (chan_after (butlast chan_fill_trace))) \<and>
      chan_step 100 (Rcv (RRun True)) (chan_after (butlast chan_fill_trace)) \<noteq> None"
proof (rule chan_not_stuck [OF chan_after_reach disjI1])
  show "send_running (ch_send (chan_after (butlast chan_fill_trace)) 0)" by code_simp
qed

theorem chan_recv_terminates_witness:
  "\<exists>n s'. n \<le> 18 \<and>
     run (chan_step 100) (replicate n (Rcv (RRun False))) (chan_after (take 8 chan_backfill_trace)) = Some (Inr s') \<and>
     \<not> recv_running (ch_rpc s')"
proof (rule chan_recv_terminates [OF chan_after_reach])
  fix t show "\<not> send_writes (ch_send (chan_after (take 8 chan_backfill_trace)) t)"
  proof (cases "t = 0 \<or> t = 1")
    case True
    have "\<not> send_writes (ch_send (chan_after (take 8 chan_backfill_trace)) 0) \<and>
        \<not> send_writes (ch_send (chan_after (take 8 chan_backfill_trace)) 1)" by code_simp
    then show ?thesis using True by auto
  next
    case False
    have "set chan_backfill_trace \<subseteq> {Snd u act | u act. u = 0 \<or> u = 1} \<union> {Rcv act | act. True}"
      by (auto simp: chan_backfill_trace_def chan_wait_trace_def chan_fill_trace_def)
    then show ?thesis
      using False chan_after_other [of t "take 8 chan_backfill_trace"] in_set_takeD by (fastforce simp: send_writes_def)
  qed
qed

text \<open>No sender has done anything yet.\<close>

theorem chan_dropped_recv_witness:
  "\<exists>s'. chan_step 100 (Rcv RDrop) (chan_after chan_pend_trace) = Some (Inr s') \<and> inner_drop (ch_recv s') = Inl Panic"
proof -
  let ?s = "chan_after chan_pend_trace"
  have "(case ch_rpc ?s of RPend cx n \<Rightarrow> cx = chan_waker 3 \<and> n = 0 | _ \<Rightarrow> False)" by code_simp
  then have pend: "ch_rpc ?s = RPend (chan_waker 3) 0" by (auto split: recv_pc.splits)
  have asleep: "chan_waker 3 \<notin> set (drop 0 (wakes (ch_world ?s)))" by code_simp
  have idle: "ch_send ?s t = SIdle" for t
  proof (rule chan_after_other)
    show "(Snd t act) \<notin> set chan_pend_trace" for act by (auto simp: chan_pend_trace_def)
  qed
  show ?thesis using chan_dropped_recv [OF chan_after_reach pend asleep] idle by auto
qed

end
