(* ===== verification/Queue2.thy ===== *)
theory Queue2 imports Atomics begin

text \<open>
  \<open>src/futex2/mod.rs\<close>: the second futex. A queue hands every waiter and every notification the
  next number of its kind; the waiter and the notification of a number meet in a bucket of the
  current generation, a ring of buckets. Where a bucket is still in use the generation is
  replaced by one of twice its size, and all waiters of the old one are woken.
\<close>

section \<open>Buckets\<close>

datatype bucket2 =
  BEmpty usize_half
| BWoken usize_half
| BWaiting copy_waker
| BWaking
| BTombstone

text \<open>A bucket is packed as a waker; the addresses of four static vtables tell the others.\<close>

record bucket_tags =
  tag_woken :: ptr
  tag_waking :: ptr
  tag_empty :: ptr
  tag_tombstone :: ptr

definition bucket_encode :: "bucket_tags \<Rightarrow> bucket2 \<Rightarrow> usize2" where
  "bucket_encode tags val = copy_waker_transmute
     (case val of
        BWaiting waker \<Rightarrow> waker
      | BWoken iteration \<Rightarrow> \<lparr>cw_data = ucast iteration, cw_vtable = tag_woken tags\<rparr>
      | BWaking \<Rightarrow> \<lparr>cw_data = null, cw_vtable = tag_waking tags\<rparr>
      | BEmpty iteration \<Rightarrow> \<lparr>cw_data = ucast iteration, cw_vtable = tag_empty tags\<rparr>
      | BTombstone \<Rightarrow> \<lparr>cw_data = null, cw_vtable = tag_tombstone tags\<rparr>)"

definition bucket_decode :: "bucket_tags \<Rightarrow> usize2 \<Rightarrow> bucket2" where
  "bucket_decode tags val =
     (let waker = copy_waker_untransmute val in
      if cw_vtable waker = tag_woken tags then BWoken (ucast (cw_data waker))
      else if cw_vtable waker = tag_waking tags then BWaking
      else if cw_vtable waker = tag_empty tags then BEmpty (ucast (cw_data waker))
      else if cw_vtable waker = tag_tombstone tags then BTombstone
      else BWaiting waker)"

text \<open>Different statics have different addresses, and no other waker has one of them.\<close>

definition tag_list :: "bucket_tags \<Rightarrow> ptr list" where
  "tag_list tags = [tag_woken tags, tag_waking tags, tag_empty tags, tag_tombstone tags]"

definition bucket_fits :: "bucket_tags \<Rightarrow> bucket2 \<Rightarrow> bool" where
  "bucket_fits tags b \<longleftrightarrow> distinct (tag_list tags) \<and>
     (case b of BWaiting waker \<Rightarrow> cw_vtable waker \<notin> set (tag_list tags) | _ \<Rightarrow> True)"

interpretation bucket_pack: packable "bucket_encode tags" "bucket_decode tags" "bucket_fits tags"
  for tags
proof
  fix b assume "bucket_fits tags b"
  then show "bucket_decode tags (bucket_encode tags b) = b"
    by (cases b) (auto simp: bucket_fits_def tag_list_def bucket_encode_def bucket_decode_def
        copy_waker_pack.decode_encode half_down_up)
qed

text \<open>
  C26: packing a bucket as a waker loses nothing, so that a compare-exchange on the packed bucket is
  one on the bucket itself, provided that the wakers stored are not made with the static vtables
  that mark the other states.
\<close>

theorem bucket_packing:
  assumes "bucket_fits tags b" "bucket_fits tags current"
  shows "bucket_decode tags (bucket_encode tags b) = b \<and>
    atomic_cmpxchg_weak (bucket_encode tags) (bucket_decode tags) spurious s f (bucket_encode tags b) current new =
      mapR (\<lambda>(ok, cur, b'). (ok, cur, bucket_encode tags b')) (cell_cmpxchg_weak spurious s f b current new)"
  using bucket_pack.decode_encode [OF assms(1)] bucket_pack.cmpxchg_weak_refines [OF assms] by blast

theorem bucket_packing_witness:
  "let tags = \<lparr>tag_woken = 8, tag_waking = 16, tag_empty = 24, tag_tombstone = 32\<rparr>;
       waiting = BWaiting \<lparr>cw_data = 7, cw_vtable = 40\<rparr> in
   bucket_decode tags (bucket_encode tags waiting) = waiting \<and>
   atomic_cmpxchg_weak (bucket_encode tags) (bucket_decode tags) False AcqRel Acquire (bucket_encode tags waiting) waiting BWaking =
     Inr (True, waiting, bucket_encode tags BWaking)"
proof -
  let ?tags = "\<lparr>tag_woken = 8, tag_waking = 16, tag_empty = 24, tag_tombstone = 32\<rparr>"
  let ?w = "BWaiting \<lparr>cw_data = 7, cw_vtable = 40\<rparr>"
  have "bucket_fits ?tags ?w" by (simp add: bucket_fits_def tag_list_def)
  from bucket_packing [OF this this, of False AcqRel Acquire BWaking] show ?thesis by (simp add: Let_def)
qed

section \<open>The queue\<close>

record atom2 =
  a2_generation :: ptr
  a2_waits :: usize_half
  a2_notifies :: usize_half

text \<open>
  A generation is the list of its buckets, in a box of its own; the boxes are never freed. The
  mutex over the list of generations is its list and the task that has locked it. The logs are
  the wakers that were cloned, called and dropped.
\<close>

type_synonym generation2 = "bucket2 list"

record queue2 =
  q2_atom :: atom2
  q2_boxes :: "ptr \<rightharpoonup> generation2"
  q2_generations :: "ptr list"
  q2_guard :: "tid option"
  q2_clones :: "copy_waker list"
  q2_wakes :: "copy_waker list"
  q2_drops :: "copy_waker list"

definition generation_new :: "nat \<Rightarrow> generation2 res" where
  "generation_new cap =
     (if cap \<le> 2 ^ 32 then Inr (map (\<lambda>iteration. BEmpty (of_nat iteration)) [0..<cap]) else Inl Panic)"

definition generation_index :: "generation2 \<Rightarrow> usize_half \<Rightarrow> nat res" where
  "generation_index waiters index =
     (if waiters = [] then Inl Panic else Inr (unat index mod length waiters))"

definition generation_drop :: "generation2 \<Rightarrow> copy_waker list" where
  "generation_drop waiters =
     concat (map (\<lambda>b. case b of BWaiting waker \<Rightarrow> [waker] | _ \<Rightarrow> []) waiters)"

definition with_capacity :: "nat \<Rightarrow> ptr \<Rightarrow> queue2 res" where
  "with_capacity cap generation =
     bindR (generation_new cap) (\<lambda>buckets. Inr
       \<lparr>q2_atom = \<lparr>a2_generation = generation, a2_waits = 0, a2_notifies = 0\<rparr>,
        q2_boxes = [generation \<mapsto> buckets], q2_generations = [generation], q2_guard = None,
        q2_clones = [], q2_wakes = [], q2_drops = []\<rparr>)"

definition clone2 :: "queue2 \<Rightarrow> copy_waker \<Rightarrow> queue2" where
  "clone2 Q waker = Q\<lparr>q2_clones := q2_clones Q @ [waker]\<rparr>"

definition wake2 :: "queue2 \<Rightarrow> copy_waker \<Rightarrow> queue2" where
  "wake2 Q waker = Q\<lparr>q2_wakes := q2_wakes Q @ [waker]\<rparr>"

definition drop2 :: "queue2 \<Rightarrow> copy_waker \<Rightarrow> queue2" where
  "drop2 Q waker = Q\<lparr>q2_drops := q2_drops Q @ [waker]\<rparr>"

definition get_generation :: "queue2 \<Rightarrow> ptr \<Rightarrow> generation2 res" where
  "get_generation Q g = (case q2_boxes Q g of None \<Rightarrow> Inl Bad_Pointer | Some waiters \<Rightarrow> Inr waiters)"

definition put_bucket :: "queue2 \<Rightarrow> ptr \<Rightarrow> generation2 \<Rightarrow> nat \<Rightarrow> bucket2 \<Rightarrow> queue2" where
  "put_bucket Q g waiters b x = Q\<lparr>q2_boxes := (q2_boxes Q)(g \<mapsto> waiters[b := x])\<rparr>"

text \<open>A load and a weak compare-exchange of \<open>(*generation)[iteration]\<close>, and of the atom.\<close>

definition bucket_load :: "queue2 \<Rightarrow> ptr \<Rightarrow> usize_half \<Rightarrow> bucket2 res" where
  "bucket_load Q g iteration =
     bindR (get_generation Q g) (\<lambda>waiters.
     bindR (generation_index waiters iteration) (\<lambda>b. cell_load Acquire (waiters ! b)))"

definition bucket_cas ::
  "bool \<Rightarrow> queue2 \<Rightarrow> ptr \<Rightarrow> usize_half \<Rightarrow> bucket2 \<Rightarrow> bucket2 \<Rightarrow> (bool \<times> bucket2 \<times> queue2) res" where
  "bucket_cas spurious Q g iteration current new =
     bindR (get_generation Q g) (\<lambda>waiters.
     bindR (generation_index waiters iteration) (\<lambda>b.
     bindR (cell_cmpxchg_weak spurious AcqRel Acquire (waiters ! b) current new) (\<lambda>(ok, current, x).
       Inr (ok, current, put_bucket Q g waiters b x))))"

definition atom2_cas ::
  "bool \<Rightarrow> queue2 \<Rightarrow> atom2 \<Rightarrow> atom2 \<Rightarrow> (bool \<times> atom2 \<times> queue2) res" where
  "atom2_cas spurious Q current new =
     bindR (cell_cmpxchg_weak spurious AcqRel Acquire (q2_atom Q) current new) (\<lambda>(ok, current, x).
       Inr (ok, current, Q\<lparr>q2_atom := x\<rparr>))"

text \<open>
  What the environment decides for one step: whether a weak compare-exchange fails spuriously,
  the address of a new box, and the result of the condition of a wait.
\<close>

datatype choice2 = Go bool | Alloc ptr | Answer bool

section \<open>expand\<close>

text \<open>
  The mutex is to be locked; bucket \<open>i\<close> is the next to be replaced by a tombstone, or, after the
  last one, the new generation to be allocated; a waker is to be called; the new generation goes
  to the atom, and to the list; the mutex is to be unlocked.
\<close>

datatype expand2 =
  ELock ptr
| EScan ptr nat nat
| ECall ptr nat nat copy_waker
| ESwap ptr
| EPush ptr
| EUnlock
| EDone

text \<open>\<open>waiters.len() * 2\<close>, which a debug build checks for overflow.\<close>

definition double_capacity :: "generation2 \<Rightarrow> nat res" where
  "double_capacity waiters =
     (if length waiters * 2 < 2 ^ 64 then Inr (length waiters * 2) else Inl Overflow)"

definition expand_lock :: "tid \<Rightarrow> queue2 \<Rightarrow> ptr \<Rightarrow> (expand2 \<times> queue2) res option" where
  "expand_lock t Q generation =
     (if q2_guard Q \<noteq> None then None
      else Some (
        let Q = Q\<lparr>q2_guard := Some t\<rparr> in
        if q2_generations Q = [] then Inl Panic
        else if last (q2_generations Q) = generation then
          bindR (get_generation Q generation) (\<lambda>waiters.
          bindR (double_capacity waiters) (\<lambda>new_capacity. Inr (EScan generation new_capacity 0, Q)))
        else Inr (EUnlock, Q)))"

definition expand_scan :: "queue2 \<Rightarrow> ptr \<Rightarrow> nat \<Rightarrow> generation2 \<Rightarrow> nat \<Rightarrow> (expand2 \<times> queue2) res" where
  "expand_scan Q generation new_capacity waiters i =
     bindR (native_swap AcqRel (waiters ! i) BTombstone) (\<lambda>(old, x).
       let Q = put_bucket Q generation waiters i x in
       case old of
         BWaiting waker \<Rightarrow> Inr (ECall generation new_capacity (Suc i) waker, Q)
       | _ \<Rightarrow> Inr (EScan generation new_capacity (Suc i), Q))"

definition expand_alloc :: "queue2 \<Rightarrow> nat \<Rightarrow> ptr \<Rightarrow> (expand2 \<times> queue2) res option" where
  "expand_alloc Q new_capacity addr =
     (if addr = null \<or> q2_boxes Q addr \<noteq> None then None
      else Some (bindR (generation_new new_capacity) (\<lambda>waiters.
        Inr (ESwap addr, Q\<lparr>q2_boxes := (q2_boxes Q)(addr \<mapsto> waiters)\<rparr>))))"

definition expand_step :: "tid \<Rightarrow> choice2 \<Rightarrow> queue2 \<Rightarrow> expand2 \<Rightarrow> (expand2 \<times> queue2) res option" where
  "expand_step t ch Q e =
     (case (e, ch) of
        (ELock g, Go _) \<Rightarrow> expand_lock t Q g
      | (EScan g cap i, Go _) \<Rightarrow> (case get_generation Q g of
          Inl x \<Rightarrow> Some (Inl x)
        | Inr waiters \<Rightarrow> if i < length waiters then Some (expand_scan Q g cap waiters i) else None)
      | (EScan g cap i, Alloc addr) \<Rightarrow> (case get_generation Q g of
          Inl x \<Rightarrow> Some (Inl x)
        | Inr waiters \<Rightarrow> if i < length waiters then None else expand_alloc Q cap addr)
      | (ECall g cap i waker, Go _) \<Rightarrow> Some (Inr (EScan g cap i, wake2 Q waker))
      | (ESwap g, Go _) \<Rightarrow> Some (
          bindR (native_swap AcqRel (q2_atom Q) \<lparr>a2_generation = g, a2_waits = 0, a2_notifies = 0\<rparr>)
            (\<lambda>(_, x). Inr (EPush g, Q\<lparr>q2_atom := x\<rparr>)))
      | (EPush g, Go _) \<Rightarrow> Some (Inr (EUnlock, Q\<lparr>q2_generations := q2_generations Q @ [g]\<rparr>))
      | (EUnlock, Go _) \<Rightarrow> Some (Inr (EDone, Q\<lparr>q2_guard := None\<rparr>))
      | _ \<Rightarrow> None)"

section \<open>notify\<close>

text \<open>
  The load of the atom and its loop; the load of the bucket of iteration \<open>i\<close>, the loop over it,
  and the call of its waker, where the last iteration is the one before \<open>n\<close>.
\<close>

datatype notify2 =
  NLoad usize_half
| NCas usize_half atom2
| NNext ptr usize_half usize_half
| NTry ptr usize_half usize_half bucket2
| NCall ptr usize_half usize_half copy_waker
| NExpand expand2
| NDone

definition notify_from :: "ptr \<Rightarrow> usize_half \<Rightarrow> usize_half \<Rightarrow> notify2" where
  "notify_from generation iteration new_notifies =
     (if iteration < new_notifies then NNext generation iteration new_notifies else NDone)"

definition notify_cas :: "bool \<Rightarrow> queue2 \<Rightarrow> usize_half \<Rightarrow> atom2 \<Rightarrow> (notify2 \<times> queue2) res" where
  "notify_cas spurious Q add atom =
     bindR (checked_plus (a2_notifies atom) add) (\<lambda>sum.
       let new_notifies = min sum (a2_waits atom) in
       bindR (atom2_cas spurious Q atom (atom\<lparr>a2_notifies := new_notifies\<rparr>)) (\<lambda>(ok, atom, Q).
         Inr (if ok then notify_from (a2_generation atom) (a2_notifies atom) new_notifies
              else NCas add atom, Q)))"

definition notify_try ::
  "bool \<Rightarrow> queue2 \<Rightarrow> ptr \<Rightarrow> usize_half \<Rightarrow> usize_half \<Rightarrow> bucket2 \<Rightarrow> (notify2 \<times> queue2) res" where
  "notify_try spurious Q g i n old =
     (case old of
        BWaiting waker \<Rightarrow>
          bindR (bucket_cas spurious Q g i old BWaking) (\<lambda>(ok, old, Q).
            Inr (if ok then NCall g i n waker else NTry g i n old, Q))
      | BEmpty old_iteration \<Rightarrow>
          if i = old_iteration then
            bindR (bucket_cas spurious Q g i old (BWoken i)) (\<lambda>(ok, old, Q).
              Inr (if ok then notify_from g (i + 1) n else NTry g i n old, Q))
          else Inr (NExpand (ELock g), Q)
      | _ \<Rightarrow> Inr (NExpand (ELock g), Q))"

definition notify_step :: "tid \<Rightarrow> choice2 \<Rightarrow> queue2 \<Rightarrow> notify2 \<Rightarrow> (notify2 \<times> queue2) res option" where
  "notify_step t ch Q x =
     (case (x, ch) of
        (NLoad add, Go _) \<Rightarrow> Some (bindR (cell_load Acquire (q2_atom Q)) (\<lambda>atom. Inr (NCas add atom, Q)))
      | (NCas add atom, Go spurious) \<Rightarrow> Some (notify_cas spurious Q add atom)
      | (NNext g i n, Go _) \<Rightarrow> Some (bindR (bucket_load Q g i) (\<lambda>old. Inr (NTry g i n old, Q)))
      | (NTry g i n old, Go spurious) \<Rightarrow> Some (notify_try spurious Q g i n old)
      | (NCall g i n waker, Go _) \<Rightarrow> Some (Inr (notify_from g (i + 1) n, wake2 Q waker))
      | (NExpand e, _) \<Rightarrow>
          map_option (mapR (\<lambda>(e, Q). (if e = EDone then NDone else NExpand e, Q))) (expand_step t ch Q e)
      | _ \<Rightarrow> None)"

section \<open>WaitFuture\<close>

text \<open>
  \<open>poll_enter\<close> loads the atom (\<open>WLoad\<close>) and takes a number (\<open>WCas\<close>), claims the bucket (\<open>WTry\<close>)
  and asks the condition (\<open>WCond\<close>); \<open>poll_waiting\<close> is \<open>PLoad\<close> and \<open>PTry\<close>. Both can end in \<open>expand\<close>,
  the first in a \<open>notify\<close>. \<open>WPend\<close> and \<open>WReady\<close> are the results of a poll.
\<close>

datatype wait2 =
  WLoad copy_waker
| WCas copy_waker atom2
| WTry ptr usize_half copy_waker bucket2
| WCond ptr usize_half copy_waker
| WNotify notify2
| WExpand expand2
| PLoad ptr usize_half copy_waker
| PTry ptr usize_half copy_waker bucket2
| PExpand expand2 copy_waker
| WPend ptr usize_half
| WReady

definition enter_cas :: "bool \<Rightarrow> queue2 \<Rightarrow> copy_waker \<Rightarrow> atom2 \<Rightarrow> (wait2 \<times> queue2) res" where
  "enter_cas spurious Q cx atom =
     bindR (checked_plus (a2_waits atom) 1) (\<lambda>waits.
     bindR (atom2_cas spurious Q atom (atom\<lparr>a2_waits := waits\<rparr>)) (\<lambda>(ok, atom, Q).
       if ok then
         let iteration = a2_waits atom; generation = a2_generation atom in
         bindR (get_generation Q generation) (\<lambda>waiters.
         bindR (generation_index waiters iteration) (\<lambda>_.
           Inr (WTry generation iteration cx (BEmpty iteration), clone2 Q cx)))
       else Inr (WCas cx atom, Q)))"

text \<open>\<open>Bucket::Empty { iteration: iteration + cap }\<close>, with \<open>cap = waiters.len() as usize_half\<close>.\<close>

definition next_empty :: "queue2 \<Rightarrow> ptr \<Rightarrow> usize_half \<Rightarrow> bucket2 res" where
  "next_empty Q g iteration =
     bindR (get_generation Q g) (\<lambda>waiters. mapR BEmpty (checked_plus iteration (of_nat (length waiters))))"

definition enter_try ::
  "bool \<Rightarrow> queue2 \<Rightarrow> ptr \<Rightarrow> usize_half \<Rightarrow> copy_waker \<Rightarrow> bucket2 \<Rightarrow> (wait2 \<times> queue2) res" where
  "enter_try spurious Q g iteration waker current =
     (let expand = Inr (WExpand (ELock g), drop2 Q waker) in
      case current of
        BEmpty iteration2 \<Rightarrow>
          if iteration = iteration2 then
            bindR (bucket_cas spurious Q g iteration current (BWaiting waker)) (\<lambda>(ok, current, Q).
              Inr (if ok then WCond g iteration waker else WTry g iteration waker current, Q))
          else expand
      | BWoken iteration2 \<Rightarrow>
          if iteration2 = iteration then
            bindR (next_empty Q g iteration) (\<lambda>empty.
            bindR (bucket_cas spurious Q g iteration current empty) (\<lambda>(ok, current, Q).
              Inr (if ok then (WReady, drop2 Q waker) else (WTry g iteration waker current, Q))))
          else expand
      | _ \<Rightarrow> expand)"

definition waiting_try ::
  "bool \<Rightarrow> queue2 \<Rightarrow> ptr \<Rightarrow> usize_half \<Rightarrow> copy_waker \<Rightarrow> bucket2 \<Rightarrow> (wait2 \<times> queue2) res" where
  "waiting_try spurious Q g iteration waker current =
     (case current of
        BWaiting old_waker \<Rightarrow>
          bindR (bucket_cas spurious Q g iteration current (BWaiting waker)) (\<lambda>(ok, current, Q).
            Inr (if ok then (WPend g iteration, drop2 Q old_waker) else (PTry g iteration waker current, Q)))
      | BWaking \<Rightarrow>
          bindR (next_empty Q g iteration) (\<lambda>empty.
          bindR (bucket_cas spurious Q g iteration current empty) (\<lambda>(ok, current, Q).
            Inr (if ok then (WReady, drop2 Q waker) else (PTry g iteration waker current, Q))))
      | BTombstone \<Rightarrow> Inr (PExpand (ELock g) waker, Q)
      | _ \<Rightarrow> Inl Panic)"

definition wait2_step :: "tid \<Rightarrow> choice2 \<Rightarrow> queue2 \<Rightarrow> wait2 \<Rightarrow> (wait2 \<times> queue2) res option" where
  "wait2_step t ch Q w =
     (case (w, ch) of
        (WLoad cx, Go _) \<Rightarrow> Some (bindR (cell_load Acquire (q2_atom Q)) (\<lambda>atom. Inr (WCas cx atom, Q)))
      | (WCas cx atom, Go spurious) \<Rightarrow> Some (enter_cas spurious Q cx atom)
      | (WTry g i waker current, Go spurious) \<Rightarrow> Some (enter_try spurious Q g i waker current)
      | (WCond g i waker, Answer b) \<Rightarrow> Some (Inr (if b then WPend g i else WNotify (NLoad 1), Q))
      | (WNotify x, _) \<Rightarrow>
          map_option (mapR (\<lambda>(x, Q). (if x = NDone then WReady else WNotify x, Q))) (notify_step t ch Q x)
      | (WExpand e, _) \<Rightarrow>
          map_option (mapR (\<lambda>(e, Q). (if e = EDone then WReady else WExpand e, Q))) (expand_step t ch Q e)
      | (PLoad g i cx, Go _) \<Rightarrow> Some (bindR (bucket_load (clone2 Q cx) g i) (\<lambda>current.
          Inr (PTry g i cx current, clone2 Q cx)))
      | (PTry g i waker current, Go spurious) \<Rightarrow> Some (waiting_try spurious Q g i waker current)
      | (PExpand e waker, _) \<Rightarrow>
          map_option (mapR (\<lambda>(e, Q). if e = EDone then (WReady, drop2 Q waker) else (PExpand e waker, Q)))
            (expand_step t ch Q e)
      | _ \<Rightarrow> None)"

text \<open>The states of a future between its polls, and its drop.\<close>

datatype future2 = Entering2 | Waiting2 ptr usize_half | Done2

definition wait2_poll :: "copy_waker \<Rightarrow> future2 \<Rightarrow> wait2 res" where
  "wait2_poll cx step =
     (case step of
        Entering2 \<Rightarrow> Inr (WLoad cx)
      | Waiting2 generation iteration \<Rightarrow> Inr (PLoad generation iteration cx)
      | Done2 \<Rightarrow> Inl Panic)"

definition wait2_drop :: "future2 \<Rightarrow> unit res" where
  "wait2_drop step = (case step of Entering2 \<Rightarrow> Inr () | Waiting2 _ _ \<Rightarrow> Inl Todo | Done2 \<Rightarrow> Inr ())"

section \<open>Tasks on a queue\<close>

text \<open>
  A task does nothing, owns a future that is not being polled, polls it, or notifies. The
  condition of a wait may have any result.
\<close>

datatype q2_pc = Q2Idle | Q2Future future2 | Q2Poll wait2 | Q2Notify notify2

datatype q2_act = AWaitIf | APoll copy_waker | ADrop | ANotify usize | AStep choice2

record q2_state =
  q2_queue :: queue2
  q2_pcs :: "tid \<Rightarrow> q2_pc"

definition wait2_settle :: "wait2 \<Rightarrow> q2_pc" where
  "wait2_settle w =
     (case w of WPend g i \<Rightarrow> Q2Future (Waiting2 g i) | WReady \<Rightarrow> Q2Future Done2 | w \<Rightarrow> Q2Poll w)"

definition notify2_settle :: "notify2 \<Rightarrow> q2_pc" where
  "notify2_settle x = (case x of NDone \<Rightarrow> Q2Idle | x \<Rightarrow> Q2Notify x)"

definition q2_task :: "tid \<Rightarrow> q2_act \<Rightarrow> queue2 \<Rightarrow> q2_pc \<Rightarrow> (q2_pc \<times> queue2) res option" where
  "q2_task t act Q p =
     (case (p, act) of
        (Q2Idle, AWaitIf) \<Rightarrow> Some (Inr (Q2Future Entering2, Q))
      | (Q2Idle, ANotify add) \<Rightarrow> Some (Inr (Q2Notify (NLoad (ucast add)), Q))
      | (Q2Future step, APoll cx) \<Rightarrow> Some (mapR (\<lambda>w. (Q2Poll w, Q)) (wait2_poll cx step))
      | (Q2Future step, ADrop) \<Rightarrow> Some (mapR (\<lambda>_. (Q2Idle, Q)) (wait2_drop step))
      | (Q2Poll w, AStep ch) \<Rightarrow> map_option (mapR (\<lambda>(w, Q). (wait2_settle w, Q))) (wait2_step t ch Q w)
      | (Q2Notify x, AStep ch) \<Rightarrow>
          map_option (mapR (\<lambda>(x, Q). (notify2_settle x, Q))) (notify_step t ch Q x)
      | _ \<Rightarrow> None)"

definition q2_step :: "(tid \<times> q2_act, q2_state) machine" where
  "q2_step = (\<lambda>(t, act) s.
     map_option (mapR (\<lambda>(p, Q). \<lparr>q2_queue = Q, q2_pcs = (q2_pcs s)(t := p)\<rparr>))
       (q2_task t act (q2_queue s) (q2_pcs s t)))"

text \<open>
  The one bound of the model: no generation has exactly \<open>2 ^ 32\<close> buckets, which take 64 GiB. The
  code allows it, but its number of buckets as a half word, which a waiter adds to its number when
  it leaves its bucket, would be 0. A generation of more buckets is refused by an assertion.
\<close>

definition expand_small :: "choice2 \<Rightarrow> expand2 \<Rightarrow> bool" where
  "expand_small ch e =
     (case (e, ch) of (EScan g cap i, Alloc addr) \<Rightarrow> cap \<noteq> 2 ^ 32 | _ \<Rightarrow> True)"

definition notify_small :: "choice2 \<Rightarrow> notify2 \<Rightarrow> bool" where
  "notify_small ch x = (case x of NExpand e \<Rightarrow> expand_small ch e | _ \<Rightarrow> True)"

definition wait2_small :: "choice2 \<Rightarrow> wait2 \<Rightarrow> bool" where
  "wait2_small ch w =
     (case w of
        WNotify x \<Rightarrow> notify_small ch x
      | WExpand e \<Rightarrow> expand_small ch e
      | PExpand e waker \<Rightarrow> expand_small ch e
      | _ \<Rightarrow> True)"

definition q2_allowed :: "q2_act \<Rightarrow> q2_pc \<Rightarrow> bool" where
  "q2_allowed act p =
     (case (p, act) of
        (Q2Poll w, AStep ch) \<Rightarrow> wait2_small ch w
      | (Q2Notify x, AStep ch) \<Rightarrow> notify_small ch x
      | _ \<Rightarrow> True)"

definition q2_machine :: "(tid \<times> q2_act, q2_state) machine" where
  "q2_machine = (\<lambda>(t, act) s. if q2_allowed act (q2_pcs s t) then q2_step (t, act) s else None)"

definition q2_init :: "nat \<Rightarrow> q2_state \<Rightarrow> bool" where
  "q2_init cap s \<longleftrightarrow> 0 < cap \<and> cap < 2 ^ 32 \<and>
     (\<exists>addr Q. addr \<noteq> null \<and> with_capacity cap addr = Inr Q \<and> s = \<lparr>q2_queue = Q, q2_pcs = (\<lambda>_. Q2Idle)\<rparr>)"

text \<open>Evaluated without powers of natural numbers.\<close>

lemma queue2_code [code]:
  "generation_new cap =
     (if int cap \<le> 4294967296 then Inr (map (\<lambda>iteration. BEmpty (of_nat iteration)) [0..<cap]) else Inl Panic)"
  "double_capacity waiters =
     (if int (length waiters) < 9223372036854775808 then Inr (length waiters * 2) else Inl Overflow)"
  "expand_small ch e = (case (e, ch) of (EScan g cap i, Alloc addr) \<Rightarrow> int cap \<noteq> 4294967296 | _ \<Rightarrow> True)"
  by (auto simp: generation_new_def double_capacity_def expand_small_def split: expand2.split choice2.split)

end
