(* ===== verification/Ring2.thy ===== *)
theory Ring2 imports Queue2 begin

text \<open>
  The current generation of a queue as a ring, without the program around it. Every task has at
  most one number as a waiter (with the flag whether it has claimed its bucket) and at most one
  interval of notifications that it has still to deliver. The bucket of a class of numbers modulo
  the length is in the round of one number; it goes to the next round when its waiter leaves it,
  and as many notifications have been delivered to it as it has left rounds, one more if it is
  marked in this one.
\<close>

section \<open>The ring\<close>

fun claimed2 :: "bucket2 \<Rightarrow> bool" where
  "claimed2 (BWaiting w) = True"
| "claimed2 BWaking = True"
| "claimed2 _ = False"

fun marked2 :: "bucket2 \<Rightarrow> bool" where
  "marked2 (BWoken i) = True"
| "marked2 BWaking = True"
| "marked2 _ = False"

fun number2 :: "bucket2 \<Rightarrow> nat option" where
  "number2 (BEmpty i) = Some (unat i)"
| "number2 (BWoken i) = Some (unat i)"
| "number2 _ = None"

type_synonym tickets = "tid \<Rightarrow> (nat \<times> bool) option"
type_synonym spans = "tid \<Rightarrow> (nat \<times> nat) option"

definition span :: "nat \<Rightarrow> nat \<Rightarrow> (nat \<times> nat) option" where
  "span lo hi = (if lo < hi then Some (lo, hi) else None)"

definition in_span :: "nat \<Rightarrow> (nat \<times> nat) option \<Rightarrow> bool" where
  "in_span j p = (case p of None \<Rightarrow> False | Some (lo, hi) \<Rightarrow> lo \<le> j \<and> j < hi)"

definition served :: "nat \<Rightarrow> nat \<Rightarrow> nat \<Rightarrow> spans \<Rightarrow> nat set" where
  "served n m b P = {j. j < m \<and> j mod n = b \<and> (\<forall>t. \<not> in_span j (P t))}"

definition bucket2_ok :: "nat \<Rightarrow> nat \<Rightarrow> nat \<Rightarrow> nat \<Rightarrow> bucket2 \<Rightarrow> bool" where
  "bucket2_ok n w b k x \<longleftrightarrow>
     (x \<noteq> BTombstone \<longrightarrow> k mod n = b \<and> k < w + n \<and> (claimed2 x \<longrightarrow> k < w) \<and>
        (\<forall>i. number2 x = Some i \<longrightarrow> i = k))"

definition ticket2_ok :: "nat \<Rightarrow> bucket2 \<Rightarrow> nat \<Rightarrow> bool \<Rightarrow> bool" where
  "ticket2_ok k x i claimed \<longleftrightarrow>
     (x \<noteq> BTombstone \<longrightarrow> (if claimed then claimed2 x \<and> k = i else k \<le> i \<and> (claimed2 x \<longrightarrow> k \<noteq> i)))"

definition ring2 ::
  "generation2 \<Rightarrow> (nat \<Rightarrow> nat) \<Rightarrow> nat \<Rightarrow> nat \<Rightarrow> tickets \<Rightarrow> spans \<Rightarrow> bool \<Rightarrow> bool" where
  "ring2 bs c w m K P alive \<longleftrightarrow>
     bs \<noteq> [] \<and> m \<le> w \<and>
     (\<forall>b<length bs. bucket2_ok (length bs) w b (c b) (bs ! b)) \<and>
     (\<forall>t i k. K t = Some (i, k) \<longrightarrow>
        i < w \<and> ticket2_ok (c (i mod length bs)) (bs ! (i mod length bs)) i k) \<and>
     (\<forall>t u i k l. K t = Some (i, k) \<and> K u = Some (i, l) \<longrightarrow> t = u) \<and>
     (\<forall>t j. in_span j (P t) \<longrightarrow> j < m) \<and>
     (\<forall>t u j. in_span j (P t) \<and> in_span j (P u) \<longrightarrow> t = u) \<and>
     (alive \<longrightarrow> (\<forall>b<length bs. bs ! b \<noteq> BTombstone \<and>
        card (served (length bs) m b P) = c b div length bs + of_bool (marked2 (bs ! b))))"

lemma ring2D:
  assumes "ring2 bs c w m K P alive"
  shows "bs \<noteq> []" "0 < length bs" "m \<le> w"
    "b < length bs \<Longrightarrow> bucket2_ok (length bs) w b (c b) (bs ! b)"
    "K t = Some (i, k) \<Longrightarrow> i < w"
    "K t = Some (i, k) \<Longrightarrow> ticket2_ok (c (i mod length bs)) (bs ! (i mod length bs)) i k"
    "K t = Some (i, k) \<Longrightarrow> K u = Some (i, l) \<Longrightarrow> t = u"
    "in_span j (P t) \<Longrightarrow> j < m"
    "in_span j (P t) \<Longrightarrow> in_span j (P u) \<Longrightarrow> t = u"
    "alive \<Longrightarrow> b < length bs \<Longrightarrow> bs ! b \<noteq> BTombstone"
    "alive \<Longrightarrow> b < length bs \<Longrightarrow>
       card (served (length bs) m b P) = c b div length bs + of_bool (marked2 (bs ! b))"
  using assms unfolding ring2_def by blast+

lemma ring2I:
  assumes "bs \<noteq> []" "m \<le> w"
    and "\<And>b. b < length bs \<Longrightarrow> bucket2_ok (length bs) w b (c b) (bs ! b)"
    and "\<And>t i k. K t = Some (i, k) \<Longrightarrow>
      i < w \<and> ticket2_ok (c (i mod length bs)) (bs ! (i mod length bs)) i k"
    and "\<And>t u i k l. K t = Some (i, k) \<Longrightarrow> K u = Some (i, l) \<Longrightarrow> t = u"
    and "\<And>t j. in_span j (P t) \<Longrightarrow> j < m"
    and "\<And>t u j. in_span j (P t) \<Longrightarrow> in_span j (P u) \<Longrightarrow> t = u"
    and "\<And>b. alive \<Longrightarrow> b < length bs \<Longrightarrow> bs ! b \<noteq> BTombstone \<and>
      card (served (length bs) m b P) = c b div length bs + of_bool (marked2 (bs ! b))"
  shows "ring2 bs c w m K P alive"
  using assms unfolding ring2_def by blast

lemma in_span_span [simp]: "in_span j (span lo hi) \<longleftrightarrow> lo \<le> j \<and> j < hi"
  by (simp add: in_span_def span_def)

lemma in_span_simps [simp]: "\<not> in_span j None" "in_span j (Some (lo, hi)) \<longleftrightarrow> lo \<le> j \<and> j < hi"
  by (simp_all add: in_span_def)

lemma served_finite [simp]: "finite (served n m b P)"
  by (simp add: served_def)

lemma congruent_le:
  assumes "k mod n = i mod n" "k < i + n" "0 < n"
  shows "k \<le> (i :: nat)"
proof (rule ccontr)
  assume "\<not> k \<le> i"
  then have "i < k" by simp
  then obtain d where "k = i + n * d" using assms(1) by (metis mod_eq_nat1E nat_less_le)
  then show False using assms(2) \<open>i < k\<close> by (cases d) auto
qed

lemma congruent_less:
  assumes "k mod n = i mod n" "k < i" "0 < n"
  shows "k + n \<le> (i :: nat)"
  using congruent_le [of "k + n" n i] assms by simp

section \<open>The numbers of waiters\<close>

lemma ring2_enter:
  assumes R: "ring2 bs c w m K P alive" and "K t = None"
  shows "ring2 bs c (Suc w) m (K(t := Some (w, False))) P alive"
proof (rule ring2I)
  let ?n = "length bs" and ?b = "w mod length bs"
  have b: "?b < ?n" using ring2D(2) [OF R] by simp
  show "bucket2_ok ?n (Suc w) b (c b) (bs ! b)" if "b < ?n" for b
    using ring2D(4) [OF R that] by (auto simp: bucket2_ok_def)
  have new: "ticket2_ok (c ?b) (bs ! ?b) w False"
    using ring2D(4) [OF R b] congruent_le [of "c ?b" ?n w] ring2D(2) [OF R]
    by (auto simp: bucket2_ok_def ticket2_ok_def)
  show "i < Suc w \<and> ticket2_ok (c (i mod ?n)) (bs ! (i mod ?n)) i k"
    if "(K(t := Some (w, False))) u = Some (i, k)" for u i k
    using that new ring2D(5,6) [OF R, of u i k] by (auto split: if_splits)
  show "u = v" if "(K(t := Some (w, False))) u = Some (i, k)" "(K(t := Some (w, False))) v = Some (i, l)"
    for u v i k l
    using that ring2D(5) [OF R] ring2D(7) [OF R] by (fastforce split: if_splits)
qed (use ring2D(1) [OF R] ring2D(3) [OF R] ring2D(8-11) [OF R] in auto)

lemma ring2_bucket:
  assumes R: "ring2 bs c w m K P alive" and b: "b < length bs"
    and x: "bucket2_ok (length bs) w b k x" "alive \<Longrightarrow> x \<noteq> BTombstone"
    and K: "\<And>u i l. K' u = Some (i, l) \<Longrightarrow>
      i < w \<and> (if i mod length bs = b then ticket2_ok k x i l else K u = Some (i, l))"
    and K': "\<And>u v i l l'. K' u = Some (i, l) \<Longrightarrow> K' v = Some (i, l') \<Longrightarrow> u = v"
    and P: "\<And>u j. in_span j (P' u) \<Longrightarrow> in_span j (P u)"
    and C: "\<And>b'. alive \<Longrightarrow> b' < length bs \<Longrightarrow> card (served (length bs) m b' P') =
      (if b' = b then k div length bs + of_bool (marked2 x) else card (served (length bs) m b' P))"
  shows "ring2 (bs[b := x]) (c(b := k)) w m K' P' alive"
proof (rule ring2I)
  let ?bs = "bs[b := x]" and ?c = "c(b := k)"
  show "bucket2_ok (length ?bs) w a (?c a) (?bs ! a)" if "a < length ?bs" for a
    using that ring2D(4) [OF R, of a] x by (auto simp: nth_list_update)
  show "i < w \<and> ticket2_ok (?c (i mod length ?bs)) (?bs ! (i mod length ?bs)) i l" if "K' u = Some (i, l)" for u i l
    using K [OF that] b ring2D(6) [OF R, of u i l] by (auto simp: nth_list_update split: if_splits)
  show "?bs ! a \<noteq> BTombstone \<and> card (served (length ?bs) m a P') = ?c a div length ?bs + of_bool (marked2 (?bs ! a))"
    if "alive" "a < length ?bs" for a
    using that C [OF that(1), of a] ring2D(10,11) [OF R that(1), of a] x(2)
    by (auto simp: nth_list_update)
  show "j < m" if "in_span j (P' u)" for u j using ring2D(8) [OF R P [OF that]] .
  show "u = v" if "in_span j (P' u)" "in_span j (P' v)" for u v j
    using ring2D(9) [OF R P [OF that(1)] P [OF that(2)]] .
qed (use ring2D(1,3) [OF R] K' in auto)

lemma ring2_claim:
  assumes R: "ring2 bs c w m K P alive" and t: "K t = Some (i, False)"
    and x: "bs ! (i mod length bs) = BEmpty j" "unat j = i"
  shows "ring2 (bs[i mod length bs := BWaiting v]) c w m (K(t := Some (i, True))) P alive"
proof -
  let ?b = "i mod length bs"
  have b: "?b < length bs" using ring2D(2) [OF R] by simp
  have c: "c ?b = i" using ring2D(4) [OF R b] x by (simp add: bucket2_ok_def)
  have "ring2 (bs[?b := BWaiting v]) (c(?b := c ?b)) w m (K(t := Some (i, True))) P alive"
  proof (rule ring2_bucket [OF R b])
    show "bucket2_ok (length bs) w ?b (c ?b) (BWaiting v)"
      using ring2D(4) [OF R b] ring2D(5) [OF R t] c x by (simp add: bucket2_ok_def)
    show "i' < w \<and> (if i' mod length bs = ?b then ticket2_ok (c ?b) (BWaiting v) i' l else K u = Some (i', l))"
      if u: "(K(t := Some (i, True))) u = Some (i', l)" for u i' l
    proof (cases "u = t")
      case False
      then have u': "K u = Some (i', l)" using u by simp
      have "i' \<noteq> i" using ring2D(7) [OF R] t u' False by blast
      then show ?thesis using ring2D(5,6) [OF R u'] u' x c by (auto simp: ticket2_ok_def)
    qed (use u c ring2D(5) [OF R t] in \<open>auto simp: ticket2_ok_def\<close>)
    show "u = v" if "(K(t := Some (i, True))) u = Some (i', l)" "(K(t := Some (i, True))) v = Some (i', l')" for u v i' l l'
      using that t ring2D(7) [OF R] by (fastforce split: if_splits)
  qed (use ring2D(11) [OF R] b x in auto)
  then show ?thesis by simp
qed

text \<open>The waiter of a marked bucket leaves it, and the bucket goes to its next round.\<close>

lemma ring2_leave:
  assumes R: "ring2 bs c w m K P alive" and t: "K t = Some (i, k)"
    and x: "bs ! (i mod length bs) = BWaking \<and> k \<or> (\<exists>j. bs ! (i mod length bs) = BWoken j \<and> unat j = i)"
    and j: "unat j = i + length bs"
  shows "ring2 (bs[i mod length bs := BEmpty j]) (c(i mod length bs := i + length bs)) w m (K(t := None)) P alive"
proof -
  let ?b = "i mod length bs"
  have n: "0 < length bs" and b: "?b < length bs" using ring2D(2) [OF R] by simp_all
  have c: "c ?b = i" using ring2D(4) [OF R b] ring2D(6) [OF R t] x by (auto simp: bucket2_ok_def ticket2_ok_def)
  show ?thesis
  proof (rule ring2_bucket [OF R b])
    show "bucket2_ok (length bs) w ?b (i + length bs) (BEmpty j)"
      using ring2D(5) [OF R t] j by (simp add: bucket2_ok_def)
    show "i' < w \<and> (if i' mod length bs = ?b then ticket2_ok (i + length bs) (BEmpty j) i' l else K u = Some (i', l))"
      if u: "(K(t := None)) u = Some (i', l)" for u i' l
    proof -
      have u': "K u = Some (i', l)" "u \<noteq> t" using u by (auto split: if_splits)
      have ne: "i' \<noteq> i" using ring2D(7) [OF R] t u' by blast
      have "ticket2_ok (i + length bs) (BEmpty j) i' l" if same: "i' mod length bs = ?b"
      proof -
        have "\<not> l" "i \<le> i'" using ring2D(6) [OF R u'(1)] same c x ne by (auto simp: ticket2_ok_def split: if_splits)
        then show ?thesis using congruent_less [of i "length bs" i'] same ne n by (simp add: ticket2_ok_def)
      qed
      then show ?thesis using ring2D(5) [OF R u'(1)] u' by simp
    qed
    have "(i + length bs) div length bs = Suc (i div length bs)" using n by (simp add: div_add_self2)
    then show "card (served (length bs) m b' P) =
        (if b' = ?b then (i + length bs) div length bs + of_bool (marked2 (BEmpty j)) else card (served (length bs) m b' P))"
      if "alive" "b' < length bs" for b'
      using ring2D(11) [OF R that(1) b] x c n by auto
  qed (use ring2D(7) [OF R] in \<open>auto split: if_splits\<close>)
qed

text \<open>A waiter that polls again stores its new waker.\<close>

lemma ring2_again:
  assumes R: "ring2 bs c w m K P alive" and b: "b < length bs" and x: "bs ! b = BWaiting v"
  shows "ring2 (bs[b := BWaiting v']) c w m K P alive"
proof -
  have "ring2 (bs[b := BWaiting v']) (c(b := c b)) w m K P alive"
  proof (rule ring2_bucket [OF R b])
    show "bucket2_ok (length bs) w b (c b) (BWaiting v')" using ring2D(4) [OF R b] x by (simp add: bucket2_ok_def)
    show "i < w \<and> (if i mod length bs = b then ticket2_ok (c b) (BWaiting v') i l else K u = Some (i, l))"
      if "K u = Some (i, l)" for u i l
      using ring2D(5,6) [OF R that] that x by (auto simp: ticket2_ok_def)
  qed (use ring2D(11) [OF R] b x ring2D(7) [OF R] in auto)
  then show ?thesis by simp
qed

section \<open>Notifications\<close>

lemma ring2_notify:
  assumes R: "ring2 bs c w m K P alive" and t: "P t = None" and m': "m \<le> m'" "m' \<le> w"
  shows "ring2 bs c w m' K (P(t := span m m')) alive"
proof (rule ring2I)
  let ?P = "P(t := span m m')"
  have "served (length bs) m' b ?P = served (length bs) m b P" for b
    using t m' ring2D(8) [OF R] by (auto simp: served_def)
  then show "bs ! b \<noteq> BTombstone \<and> card (served (length bs) m' b ?P) = c b div length bs + of_bool (marked2 (bs ! b))"
    if "alive" "b < length bs" for b
    using ring2D(10,11) [OF R that] by simp
  show "j < m'" if "in_span j (?P u)" for u j
    using that ring2D(8) [OF R, of j u] m' by (auto split: if_splits)
  show "u = v" if "in_span j (?P u)" "in_span j (?P v)" for u v j
    using that ring2D(8) [OF R, of j u] ring2D(8) [OF R, of j v] ring2D(9) [OF R, of j u v]
    by (auto split: if_splits)
qed (use ring2D(1) [OF R] ring2D(4-7) [OF R] m' in auto)

text \<open>A notification is delivered to a bucket, which marks it.\<close>

lemma ring2_mark:
  assumes R: "ring2 bs c w m K P alive" and t: "P t = Some (i, hi)" "i < hi"
    and x: "(\<exists>v. bs ! (i mod length bs) = BWaiting v) \<and> x = BWaking \<or>
      (\<exists>j. bs ! (i mod length bs) = BEmpty j \<and> x = BWoken j)"
  shows "ring2 (bs[i mod length bs := x]) c w m K (P(t := span (Suc i) hi)) alive"
proof -
  let ?b = "i mod length bs" and ?P = "P(t := span (Suc i) hi)"
  have b: "?b < length bs" using ring2D(2) [OF R] by simp
  have i: "in_span i (P t)" using t by simp
  have more: "served (length bs) m b' ?P = (if b' = ?b then insert i (served (length bs) m b' P) else served (length bs) m b' P)" for b'
  proof -
    have "(\<forall>u. \<not> in_span j (?P u)) \<longleftrightarrow> j = i \<or> (\<forall>u. \<not> in_span j (P u))" for j
      using ring2D(9) [OF R i] t by (auto simp: Suc_le_eq) (metis in_span_simps(2) nat_less_le)+
    then show ?thesis using ring2D(8) [OF R i] by (auto simp: served_def)
  qed
  have new: "i \<notin> served (length bs) m ?b P" using i by (auto simp: served_def)
  have "ring2 (bs[?b := x]) (c(?b := c ?b)) w m K ?P alive"
  proof (rule ring2_bucket [OF R b])
    show "bucket2_ok (length bs) w ?b (c ?b) x" using ring2D(4) [OF R b] x by (auto simp: bucket2_ok_def)
    show "i' < w \<and> (if i' mod length bs = ?b then ticket2_ok (c ?b) x i' l else K u = Some (i', l))"
      if "K u = Some (i', l)" for u i' l
      using ring2D(5,6) [OF R that] that x by (auto simp: ticket2_ok_def)
    show "card (served (length bs) m b' ?P) =
        (if b' = ?b then c ?b div length bs + of_bool (marked2 x) else card (served (length bs) m b' P))"
      if "alive" "b' < length bs" for b'
      using ring2D(11) [OF R that(1) b] x new more by auto
    show "in_span j (P u)" if "in_span j (?P u)" for u j using that t by (auto split: if_splits)
  qed (use ring2D(7) [OF R] x in auto)
  then show ?thesis by simp
qed

section \<open>The end of a generation\<close>

lemma ring2_forget:
  assumes "ring2 bs c w m K P alive"
  shows "ring2 bs c w m (K(t := None)) P alive" "ring2 bs c w m K (P(t := None)) False"
    "ring2 bs c w m K P False"
  using assms unfolding ring2_def by (fastforce split: if_splits)+

lemma ring2_tombstone:
  assumes R: "ring2 bs c w m K P False" and b: "b < length bs"
  shows "ring2 (bs[b := BTombstone]) c w m K P False"
proof -
  have "ring2 (bs[b := BTombstone]) (c(b := c b)) w m K P False"
    by (rule ring2_bucket [OF R b])
      (use ring2D(5,7) [OF R] in \<open>auto simp: bucket2_ok_def ticket2_ok_def\<close>)
  then show ?thesis by simp
qed

lemma ring2_new:
  assumes "0 < n" "n \<le> 2 ^ 32"
  shows "ring2 (map (\<lambda>i. BEmpty (of_nat i)) [0..<n]) (\<lambda>b. b) 0 0 (\<lambda>_. None) (\<lambda>_. None) alive"
  using assms by (auto simp: ring2_def bucket2_ok_def served_def unat_of_nat take_bit_nat_eq_self)

text \<open>
  A waiter that still waits although its number has been notified: a notification for its bucket
  is still to be delivered.
\<close>

lemma ring2_undelivered:
  assumes R: "ring2 bs c w m K P True" and t: "K t = Some (i, True)"
    and x: "bs ! (i mod length bs) = BWaiting v" and i: "i < m"
  shows "\<exists>u j. in_span j (P u) \<and> j mod length bs = i mod length bs"
proof (rule ccontr)
  assume none: "\<not> ?thesis"
  let ?n = "length bs" and ?b = "i mod length bs"
  have n: "0 < ?n" using ring2D(2) [OF R] .
  have c: "c ?b = i" using ring2D(6) [OF R t] x by (simp add: ticket2_ok_def)
  have "(\<lambda>q. q * ?n + ?b) ` {0..i div ?n} \<subseteq> served ?n m ?b P"
  proof
    fix j assume "j \<in> (\<lambda>q. q * ?n + ?b) ` {0..i div ?n}"
    then obtain q where q: "q \<le> i div ?n" "j = q * ?n + ?b" by auto
    then have "j \<le> i" using mult_le_mono1 [of q "i div ?n" ?n] div_mult_mod_eq [of i ?n] by linarith
    moreover have "j mod ?n = ?b" using q(2) by simp
    ultimately show "j \<in> served ?n m ?b P" using none i by (auto simp: served_def)
  qed
  then have "card ((\<lambda>q. q * ?n + ?b) ` {0..i div ?n}) \<le> card (served ?n m ?b P)"
    by (intro card_mono) simp_all
  moreover have "card ((\<lambda>q. q * ?n + ?b) ` {0..i div ?n}) = Suc (i div ?n)"
    using n by (subst card_image) (auto simp: inj_on_def)
  ultimately show False using ring2D(11) [OF R _ , of ?b] n c x by simp
qed

end
