(* ===== verification/Queue2_Inv.thy ===== *)
theory Queue2_Inv imports Ring2 begin

text \<open>
  The invariant of the second futex, over the roles that its tasks play: whether a task is at work
  on an expansion, which number it has as a waiter, and which notifications it has to deliver.
  Only the current generation is a ring; all buckets of the ones before are tombstones.
\<close>

section \<open>Roles\<close>

record role2 =
  r2_exp :: "expand2 option"
  r2_ticket :: "(ptr \<times> usize_half \<times> bool) option"
  r2_pend :: "(ptr \<times> nat \<times> nat) option"

abbreviation no_role :: role2 where
  "no_role \<equiv> \<lparr>r2_exp = None, r2_ticket = None, r2_pend = None\<rparr>"

definition exp_role :: "expand2 \<Rightarrow> role2" where
  "exp_role e = \<lparr>r2_exp = (if e = EDone then None else Some e), r2_ticket = None, r2_pend = None\<rparr>"

abbreviation ticket_role :: "ptr \<Rightarrow> usize_half \<Rightarrow> bool \<Rightarrow> role2" where
  "ticket_role g i k \<equiv> \<lparr>r2_exp = None, r2_ticket = Some (g, i, k), r2_pend = None\<rparr>"

abbreviation pend_role :: "ptr \<Rightarrow> nat \<Rightarrow> nat \<Rightarrow> role2" where
  "pend_role g lo hi \<equiv> \<lparr>r2_exp = None, r2_ticket = None, r2_pend = Some (g, lo, hi)\<rparr>"

fun notify_role :: "notify2 \<Rightarrow> role2" where
  "notify_role (NNext g i n) = pend_role g (unat i) (unat n)"
| "notify_role (NTry g i n old) = pend_role g (unat i) (unat n)"
| "notify_role (NCall g i n waker) = pend_role g (Suc (unat i)) (unat n)"
| "notify_role (NExpand e) = exp_role e"
| "notify_role _ = no_role"

fun wait2_role :: "wait2 \<Rightarrow> role2" where
  "wait2_role (WTry g i waker current) = ticket_role g i False"
| "wait2_role (WCond g i waker) = ticket_role g i True"
| "wait2_role (WNotify x) = notify_role x"
| "wait2_role (WExpand e) = exp_role e"
| "wait2_role (PLoad g i cx) = ticket_role g i True"
| "wait2_role (PTry g i waker current) = ticket_role g i True"
| "wait2_role (PExpand e waker) = exp_role e"
| "wait2_role (WPend g i) = ticket_role g i True"
| "wait2_role _ = no_role"

fun future2_role :: "future2 \<Rightarrow> role2" where
  "future2_role (Waiting2 g i) = ticket_role g i True"
| "future2_role _ = no_role"

fun q2_role :: "q2_pc \<Rightarrow> role2" where
  "q2_role Q2Idle = no_role"
| "q2_role (Q2Future step) = future2_role step"
| "q2_role (Q2Poll w) = wait2_role w"
| "q2_role (Q2Notify x) = notify_role x"

lemma settle_role [simp]:
  "q2_role (wait2_settle w) = wait2_role w" "q2_role (notify2_settle x) = notify_role x"
  by (cases w; simp add: wait2_settle_def) (cases x; simp add: notify2_settle_def)

text \<open>The numbers of one generation.\<close>

definition tick :: "ptr \<Rightarrow> role2 \<Rightarrow> (nat \<times> bool) option" where
  "tick g r = (case r2_ticket r of None \<Rightarrow> None
     | Some (g', i, k) \<Rightarrow> if g' = g then Some (unat i, k) else None)"

definition pend :: "ptr \<Rightarrow> role2 \<Rightarrow> (nat \<times> nat) option" where
  "pend g r = (case r2_pend r of None \<Rightarrow> None
     | Some (g', lo, hi) \<Rightarrow> if g' = g then span lo hi else None)"

lemma tick_simps [simp]:
  "r2_exp (exp_role e) = (if e = EDone then None else Some e)" "r2_ticket (exp_role e) = None"
  "r2_pend (exp_role e) = None"
  "tick g no_role = None" "tick g (exp_role e) = None" "tick g (pend_role g' lo hi) = None"
  "tick g (ticket_role g' i k) = (if g' = g then Some (unat i, k) else None)"
  "pend g no_role = None" "pend g (exp_role e) = None" "pend g (ticket_role g' i k) = None"
  "pend g (pend_role g' lo hi) = (if g' = g then span lo hi else None)"
  by (simp_all add: tick_def pend_def exp_role_def)

section \<open>Expansions\<close>

fun exp_target :: "expand2 \<Rightarrow> ptr option" where
  "exp_target (ELock g) = Some g"
| "exp_target (EScan g cap i) = Some g"
| "exp_target (ECall g cap i waker) = Some g"
| "exp_target _ = None"

definition locks2 :: "expand2 \<Rightarrow> bool" where
  "locks2 e \<longleftrightarrow> (\<forall>g. e \<noteq> ELock g)"

definition cur2 :: "queue2 \<Rightarrow> ptr" where
  "cur2 Q = a2_generation (q2_atom Q)"

definition known2 :: "queue2 \<Rightarrow> ptr set" where
  "known2 Q = insert (cur2 Q) (set (q2_generations Q))"

lemma cur2_simps [simp]:
  "cur2 (Q\<lparr>q2_boxes := B\<rparr>) = cur2 Q" "known2 (Q\<lparr>q2_boxes := B\<rparr>) = known2 Q"
  "cur2 (Q\<lparr>q2_guard := o'\<rparr>) = cur2 Q" "known2 (Q\<lparr>q2_guard := o'\<rparr>) = known2 Q"
  "cur2 (Q\<lparr>q2_generations := gs\<rparr>) = cur2 Q"
  by (simp_all add: cur2_def known2_def)

lemma put_bucket_simps [simp]:
  "q2_boxes (put_bucket Q g bs b x) = (q2_boxes Q)(g \<mapsto> bs[b := x])"
  "q2_atom (put_bucket Q g bs b x) = q2_atom Q" "cur2 (put_bucket Q g bs b x) = cur2 Q"
  "q2_generations (put_bucket Q g bs b x) = q2_generations Q"
  "known2 (put_bucket Q g bs b x) = known2 Q" "q2_guard (put_bucket Q g bs b x) = q2_guard Q"
  by (simp_all add: put_bucket_def cur2_def known2_def)

definition dead2 :: "generation2 \<Rightarrow> bool" where
  "dead2 bs \<longleftrightarrow> (\<forall>b<length bs. bs ! b = BTombstone)"

definition scan_ok :: "queue2 \<Rightarrow> ptr \<Rightarrow> nat \<Rightarrow> nat \<Rightarrow> bool" where
  "scan_ok Q g cap i \<longleftrightarrow> g = cur2 Q \<and> g = last (q2_generations Q) \<and>
     (\<exists>bs. q2_boxes Q g = Some bs \<and> cap = length bs * 2 \<and> i \<le> length bs \<and> (\<forall>b<i. bs ! b = BTombstone))"

fun exp2_ok :: "queue2 \<Rightarrow> expand2 \<Rightarrow> bool" where
  "exp2_ok Q (ELock g) = (g \<in> known2 Q)"
| "exp2_ok Q (EScan g cap i) = scan_ok Q g cap i"
| "exp2_ok Q (ECall g cap i waker) = scan_ok Q g cap i"
| "exp2_ok Q (ESwap g) = (g \<notin> known2 Q \<and> cur2 Q = last (q2_generations Q) \<and>
     (\<exists>n. q2_boxes Q g = Some (map (\<lambda>i. BEmpty (of_nat i)) [0..<n])) \<and>
     (\<exists>bs. q2_boxes Q (cur2 Q) = Some bs \<and> dead2 bs))"
| "exp2_ok Q (EPush g) = (g = cur2 Q)"
| "exp2_ok Q EUnlock = (cur2 Q = last (q2_generations Q))"
| "exp2_ok Q EDone = False"

definition alive2 :: "(tid \<Rightarrow> expand2 option) \<Rightarrow> ptr \<Rightarrow> bool" where
  "alive2 X g \<longleftrightarrow> (\<forall>t e. X t = Some e \<longrightarrow> exp_target e \<noteq> Some g \<and> (\<forall>g'. e \<noteq> ESwap g'))"

section \<open>The invariant\<close>

definition atom2_ok :: "atom2 \<Rightarrow> bool" where
  "atom2_ok a \<longleftrightarrow> a2_notifies a \<le> a2_waits a"

definition shape2 :: "queue2 \<Rightarrow> bool" where
  "shape2 Q \<longleftrightarrow> atom2_ok (q2_atom Q) \<and> q2_generations Q \<noteq> [] \<and> known2 Q \<subseteq> dom (q2_boxes Q) \<and>
     (\<forall>g bs. q2_boxes Q g = Some bs \<longrightarrow> bs \<noteq> [] \<and> length bs < 2 ^ 32)"

definition phase2 :: "queue2 \<Rightarrow> (tid \<Rightarrow> expand2 option) \<Rightarrow> bool" where
  "phase2 Q X \<longleftrightarrow>
     (\<forall>t. q2_guard Q = Some t \<longleftrightarrow> (\<exists>e. X t = Some e \<and> locks2 e)) \<and>
     (q2_guard Q = None \<longrightarrow> cur2 Q = last (q2_generations Q)) \<and>
     (\<forall>t e. X t = Some e \<longrightarrow> exp2_ok Q e) \<and>
     (\<forall>g bs. q2_boxes Q g = Some bs \<and> g \<noteq> cur2 Q \<longrightarrow> dead2 bs \<or> (\<exists>t. X t = Some (ESwap g)))"

definition refs2 :: "queue2 \<Rightarrow> (tid \<Rightarrow> role2) \<Rightarrow> bool" where
  "refs2 Q R \<longleftrightarrow>
     (\<forall>t g i k. r2_ticket (R t) = Some (g, i, k) \<longrightarrow> g \<in> known2 Q) \<and>
     (\<forall>t g lo hi. r2_pend (R t) = Some (g, lo, hi) \<longrightarrow> g \<in> known2 Q)"

definition exps :: "(tid \<Rightarrow> role2) \<Rightarrow> tid \<Rightarrow> expand2 option" where
  "exps R t = r2_exp (R t)"

lemma exps_upd [simp]: "exps (R(t := r)) = (exps R)(t := r2_exp r)"
  by (auto simp: exps_def)

definition current2 :: "queue2 \<Rightarrow> (nat \<Rightarrow> nat) \<Rightarrow> (tid \<Rightarrow> role2) \<Rightarrow> generation2 \<Rightarrow> bool" where
  "current2 Q c R bs \<longleftrightarrow>
     ring2 bs c (unat (a2_waits (q2_atom Q))) (unat (a2_notifies (q2_atom Q)))
       (tick (cur2 Q) \<circ> R) (pend (cur2 Q) \<circ> R) (alive2 (exps R) (cur2 Q))"

definition queue2_ok :: "queue2 \<Rightarrow> (nat \<Rightarrow> nat) \<Rightarrow> (tid \<Rightarrow> role2) \<Rightarrow> bool" where
  "queue2_ok Q c R \<longleftrightarrow> shape2 Q \<and> phase2 Q (exps R) \<and> refs2 Q R \<and>
     (\<exists>bs. q2_boxes Q (cur2 Q) = Some bs \<and> current2 Q c R bs)"

lemma queue2_okD:
  assumes "queue2_ok Q c R"
  shows "shape2 Q" "phase2 Q (exps R)" "refs2 Q R"
    "q2_boxes Q (cur2 Q) = Some bs \<Longrightarrow> current2 Q c R bs"
  using assms unfolding queue2_ok_def by auto

lemma shape2D:
  assumes "shape2 Q"
  shows "atom2_ok (q2_atom Q)" "q2_generations Q \<noteq> []"
    "g \<in> known2 Q \<Longrightarrow> \<exists>bs. q2_boxes Q g = Some bs"
    "q2_boxes Q g = Some bs \<Longrightarrow> bs \<noteq> [] \<and> length bs < 2 ^ 32"
  using assms unfolding shape2_def by blast+

lemma phase2D:
  assumes "phase2 Q X"
  shows "q2_guard Q = Some t \<longleftrightarrow> (\<exists>e. X t = Some e \<and> locks2 e)"
    "q2_guard Q = None \<Longrightarrow> cur2 Q = last (q2_generations Q)"
    "X t = Some e \<Longrightarrow> exp2_ok Q e"
    "q2_boxes Q g = Some bs \<Longrightarrow> g \<noteq> cur2 Q \<Longrightarrow> dead2 bs \<or> (\<exists>t. X t = Some (ESwap g))"
  using assms unfolding phase2_def by blast+

lemma refs2D:
  assumes "refs2 Q R"
  shows "r2_ticket (R t) = Some (g, i, k) \<Longrightarrow> g \<in> known2 Q"
    "r2_pend (R t) = Some (g, lo, hi) \<Longrightarrow> g \<in> known2 Q"
  using assms unfolding refs2_def by blast+

text \<open>A generation that is known and is not the current one has only tombstones.\<close>

lemma known_dead:
  assumes "queue2_ok Q c R" "g \<in> known2 Q" "g \<noteq> cur2 Q" "q2_boxes Q g = Some bs"
  shows "dead2 bs"
  using phase2D(3,4) [OF queue2_okD(2) [OF assms(1)]] assms by fastforce

text \<open>Two different tasks do not both own the mutex over the generations.\<close>

lemma holder_unique:
  assumes "phase2 Q X" "X t = Some e" "locks2 e" "X u = Some e'" "locks2 e'"
  shows "t = u"
  using phase2D(1) [OF assms(1), of t] phase2D(1) [OF assms(1), of u] assms(2-5) by auto

section \<open>Steps that change no memory\<close>

lemma queue2_cong:
  assumes same: "q2_atom Q' = q2_atom Q" "q2_boxes Q' = q2_boxes Q" "q2_generations Q' = q2_generations Q"
    "q2_guard Q' = q2_guard Q"
  shows "queue2_ok Q' c R \<longleftrightarrow> queue2_ok Q c R"
proof -
  have c: "cur2 Q' = cur2 Q" "known2 Q' = known2 Q" using same by (simp_all add: cur2_def known2_def)
  have "exp2_ok Q' e = exp2_ok Q e" for e
    by (cases e) (simp_all add: scan_ok_def c same)
  then have "phase2 Q' X = phase2 Q X" for X by (simp only: phase2_def c same)
  moreover have "shape2 Q' = shape2 Q" "refs2 Q' R = refs2 Q R" "current2 Q' c R bs = current2 Q c R bs" for bs
    by (simp_all only: shape2_def refs2_def current2_def c same)
  ultimately show ?thesis by (simp only: queue2_ok_def c same)
qed

lemma queue2_logs [simp]:
  "queue2_ok (clone2 Q k) c R \<longleftrightarrow> queue2_ok Q c R" "queue2_ok (wake2 Q k) c R \<longleftrightarrow> queue2_ok Q c R"
  "queue2_ok (drop2 Q k) c R \<longleftrightarrow> queue2_ok Q c R"
  by (rule queue2_cong; simp add: clone2_def wake2_def drop2_def)+

lemma refs2_upd:
  assumes "refs2 Q R" "\<And>g i k. r2_ticket r = Some (g, i, k) \<Longrightarrow> g \<in> known2 Q"
    "\<And>g lo hi. r2_pend r = Some (g, lo, hi) \<Longrightarrow> g \<in> known2 Q"
  shows "refs2 Q (R(t := r))"
  using assms by (auto simp: refs2_def)

text \<open>The ring stays as it is: a task that forgets its number or has nothing left to deliver.\<close>

lemma upd_same: "f r = f (R t) \<Longrightarrow> f \<circ> (R(t := r)) = f \<circ> R"
  by (simp add: fun_upd_comp fun_upd_idem)

lemma queue2_forget:
  assumes ok: "queue2_ok Q c R" and t: "r2_exp (R t) = None" "pend (cur2 Q) (R t) = None"
  shows "queue2_ok Q c (R(t := no_role))"
proof -
  obtain bs where bs: "q2_boxes Q (cur2 Q) = Some bs" using ok by (auto simp: queue2_ok_def)
  note R = queue2_okD(4) [OF ok bs, unfolded current2_def]
  have same: "exps (R(t := no_role)) = exps R" "pend (cur2 Q) \<circ> R(t := no_role) = pend (cur2 Q) \<circ> R"
    using t by (auto intro!: upd_same simp: exps_def fun_upd_idem)
  have "current2 Q c (R(t := no_role)) bs"
    unfolding current2_def same using ring2_forget(1) [OF R, of t] by (simp add: fun_upd_comp)
  then show ?thesis
    using queue2_okD(1,2) [OF ok] bs refs2_upd [OF queue2_okD(3) [OF ok], of no_role t]
    unfolding queue2_ok_def same by auto
qed

lemma queue2_restrict:
  assumes ok: "queue2_ok Q c R" and r: "r2_exp r = r2_exp (R t)" "tick (cur2 Q) r = tick (cur2 Q) (R t)"
    "pend (cur2 Q) r = pend (cur2 Q) (R t)" "\<And>g i k. r2_ticket r = Some (g, i, k) \<Longrightarrow> g \<in> known2 Q"
    "\<And>g lo hi. r2_pend r = Some (g, lo, hi) \<Longrightarrow> g \<in> known2 Q"
  shows "queue2_ok Q c (R(t := r))"
proof -
  have same: "exps (R(t := r)) = exps R" "pend (cur2 Q) \<circ> R(t := r) = pend (cur2 Q) \<circ> R"
    "tick (cur2 Q) \<circ> R(t := r) = tick (cur2 Q) \<circ> R"
    using r(1-3) by (auto intro!: upd_same simp: exps_def fun_upd_idem)
  show ?thesis
    using ok refs2_upd [OF queue2_okD(3) [OF ok], of r t] r(4,5) unfolding queue2_ok_def current2_def same by blast
qed

end
