(* ===== verification/Queue2_Expand.thy ===== *)
theory Queue2_Expand imports Queue2_Inv begin

text \<open>
  \<open>expand\<close> of \<open>src/futex2/mod.rs\<close>: every step keeps the invariant and does not fault. The task
  that has locked the mutex over the generations is the only one past the lock, and from its
  first step to its last no notification is counted on in the generation that it replaces.
\<close>

section \<open>The owner of the mutex\<close>

lemma others_wait:
  assumes "phase2 Q X" "X t = Some e" "locks2 e" "X u = Some e'" "u \<noteq> t"
  shows "\<exists>g. e' = ELock g \<and> g \<in> known2 Q"
proof -
  have "\<not> locks2 e'" using holder_unique [OF assms(1-4)] assms(5) by blast
  then obtain g where g: "e' = ELock g" by (auto simp: locks2_def)
  then show ?thesis using phase2D(3) [OF assms(1,4)] by simp
qed

lemma phase2_holder:
  assumes P: "phase2 Q X" and t: "X t = Some e" "locks2 e" and e': "locks2 e'" "exp2_ok Q' e'"
    and Q': "q2_guard Q' = q2_guard Q" "known2 Q \<subseteq> known2 Q'"
    and dead: "\<And>g bs. q2_boxes Q' g = Some bs \<Longrightarrow> g \<noteq> cur2 Q' \<Longrightarrow> dead2 bs \<or> e' = ESwap g"
  shows "phase2 Q' (X(t := Some e'))"
proof -
  have guard: "q2_guard Q = Some t" using phase2D(1) [OF P] t by auto
  have others: "u = t" if "X u = Some e''" "locks2 e''" for u e''
    using holder_unique [OF P that t] by simp
  have "q2_guard Q' = Some u \<longleftrightarrow> (\<exists>e. (X(t := Some e')) u = Some e \<and> locks2 e)" for u
    using guard Q'(1) others e'(1) by auto
  moreover have "exp2_ok Q' e''" if "(X(t := Some e')) u = Some e''" for u e''
    using that others_wait [OF P t, of u e''] e'(2) Q'(2) by (cases "u = t") auto
  ultimately show ?thesis using guard Q'(1) dead unfolding phase2_def by (metis fun_upd_same option.distinct(1))
qed

text \<open>What the owner knows of the other generations.\<close>

lemma holder_dead:
  assumes "phase2 Q X" "X t = Some e" "locks2 e" "q2_boxes Q g = Some bs" "g \<noteq> cur2 Q"
  shows "dead2 bs \<or> e = ESwap g"
  using phase2D(4) [OF assms(1,4,5)] holder_unique [OF assms(1-3)] assms(2) by (fastforce simp: locks2_def)

lemma ring2_alive: "ring2 bs c w m K P alive \<Longrightarrow> (alive' \<Longrightarrow> alive) \<Longrightarrow> ring2 bs c w m K P alive'"
  using ring2_forget(3) by (cases alive') auto

lemma alive2_at: "alive2 (X(t := Some e)) g \<Longrightarrow> exp_target e \<noteq> Some g \<and> (\<forall>g'. e \<noteq> ESwap g')"
  unfolding alive2_def by (metis fun_upd_same)

lemma alive2_back:
  "alive2 (X(t := x)) g \<Longrightarrow> (\<And>e. X t = Some e \<Longrightarrow> exp_target e \<noteq> Some g \<and> (\<forall>g'. e \<noteq> ESwap g')) \<Longrightarrow> alive2 X g"
  unfolding alive2_def by (metis fun_upd_other)

text \<open>A step from one place of an expansion to another has no effect on numbers and notifications.\<close>

lemma exp_role_upd:
  assumes "R t = exp_role e"
  shows "tick g \<circ> R(t := exp_role e') = tick g \<circ> R" "pend g \<circ> R(t := exp_role e') = pend g \<circ> R"
    "exps (R(t := exp_role e')) = (exps R)(t := if e' = EDone then None else Some e')"
    "refs2 Q R \<Longrightarrow> known2 Q \<subseteq> known2 Q' \<Longrightarrow> refs2 Q' (R(t := exp_role e'))"
proof -
  show "tick g \<circ> R(t := exp_role e') = tick g \<circ> R" "pend g \<circ> R(t := exp_role e') = pend g \<circ> R"
    using assms by (auto intro!: upd_same)
  show "exps (R(t := exp_role e')) = (exps R)(t := if e' = EDone then None else Some e')"
    by (simp add: exp_role_def)
  show "refs2 Q' (R(t := exp_role e'))" if "refs2 Q R" "known2 Q \<subseteq> known2 Q'"
    using that unfolding refs2_def by (simp add: exp_role_def) blast
qed

lemma exp_known:
  assumes "queue2_ok Q c R" "R t = exp_role (ELock g)"
  shows "g \<in> known2 Q"
  using phase2D(3) [OF queue2_okD(2) [OF assms(1)], of t "ELock g"] assms(2) by (simp add: exp_role_def exps_def)

section \<open>The steps\<close>

definition expand_good :: "(tid \<Rightarrow> role2) \<Rightarrow> tid \<Rightarrow> (expand2 \<times> queue2) res \<Rightarrow> bool" where
  "expand_good R t r \<longleftrightarrow> (\<exists>e Q c. r = Inr (e, Q) \<and> queue2_ok Q c (R(t := exp_role e)))"

lemma expand_goodI: "queue2_ok Q c (R(t := exp_role e)) \<Longrightarrow> expand_good R t (Inr (e, Q))"
  by (auto simp: expand_good_def)

lemma expand_lock_good:
  assumes ok: "queue2_ok Q c R" and t: "R t = exp_role (ELock g)" and r: "expand_lock t Q g = Some r"
  shows "expand_good R t r"
proof -
  note S = queue2_okD(1) [OF ok] and P = queue2_okD(2) [OF ok]
  have guard: "q2_guard Q = None" using r by (auto simp: expand_lock_def split: if_splits)
  then have cur: "cur2 Q = last (q2_generations Q)" by (rule phase2D(2) [OF P])
  obtain bs where bs: "q2_boxes Q (cur2 Q) = Some bs" using ok by (auto simp: queue2_ok_def)
  define Q' where "Q' = Q\<lparr>q2_guard := Some t\<rparr>"
  have same: "cur2 Q' = cur2 Q" "known2 Q' = known2 Q" "q2_boxes Q' = q2_boxes Q" "q2_atom Q' = q2_atom Q"
    "q2_generations Q' = q2_generations Q"
    by (simp_all add: Q'_def cur2_def known2_def)
  have xt: "exps R t = Some (ELock g)" using t by (simp add: exp_role_def exps_def)
  have free: "\<not> locks2 e" if "exps R u = Some e" for u e
    using phase2D(1) [OF P, of u] that guard by auto
  have step: "queue2_ok Q' c (R(t := exp_role e'))"
    if e': "locks2 e'" "e' \<noteq> EDone" "exp2_ok Q' e'"
      and alive: "alive2 ((exps R)(t := Some e')) (cur2 Q) \<Longrightarrow> alive2 (exps R) (cur2 Q)" for e'
  proof -
    have "exp2_ok Q' e''" if "((exps R)(t := Some e')) u = Some e''" for u e''
      using that e'(3) free [of u e''] phase2D(3) [OF P, of u e''] same
      by (auto simp: locks2_def split: if_splits)
    moreover have "\<not> (\<exists>u. exps R u = Some (ESwap a))" for a using free by (fastforce simp: locks2_def)
    then have "dead2 bs'" if "q2_boxes Q' a = Some bs'" "a \<noteq> cur2 Q'" for a bs'
      using phase2D(4) [OF P, of a bs'] that same by simp
    moreover have "q2_guard Q' = Some u \<longleftrightarrow> (\<exists>e. ((exps R)(t := Some e')) u = Some e \<and> locks2 e)" for u
      using free e'(1) by (auto simp: Q'_def)
    ultimately have "phase2 Q' ((exps R)(t := Some e'))"
      unfolding phase2_def by (auto simp: Q'_def)
    moreover have "shape2 Q'" using S by (simp add: shape2_def same)
    moreover have "current2 Q' c (R(t := exp_role e')) bs"
      using ring2_alive [OF queue2_okD(4) [OF ok bs, unfolded current2_def] alive] e'(2)
      by (simp add: current2_def exp_role_upd [of R t, OF t] same)
    ultimately show ?thesis
      using e'(2) bs exp_role_upd(4) [of R t, OF t queue2_okD(3) [OF ok], of Q' e'] same
      by (simp add: queue2_ok_def exp_role_upd(3) [of R t, OF t])
  qed
  show ?thesis
  proof (cases "last (q2_generations Q) = g")
    case True
    have r': "r = Inr (EScan g (length bs * 2) 0, Q')"
      using r True guard bs cur shape2D(2) [OF S] shape2D(4) [OF S bs]
      by (auto simp: expand_lock_def Q'_def get_generation_def double_capacity_def Let_def)
    show ?thesis unfolding r'
    proof (rule expand_goodI, rule step)
      show "exp2_ok Q' (EScan g (length bs * 2) 0)" using True cur bs by (simp add: scan_ok_def same)
      show "alive2 (exps R) (cur2 Q)" if "alive2 ((exps R)(t := Some (EScan g (length bs * 2) 0))) (cur2 Q)"
        using alive2_at [OF that] True cur by simp
    qed (simp_all add: locks2_def)
  next
    case False
    have r': "r = Inr (EUnlock, Q')"
      using r False guard shape2D(2) [OF S] by (auto simp: expand_lock_def Q'_def Let_def)
    show ?thesis unfolding r'
    proof (rule expand_goodI, rule step)
      show "exp2_ok Q' EUnlock" using cur by (simp add: same)
      show "alive2 (exps R) (cur2 Q)" if "alive2 ((exps R)(t := Some EUnlock)) (cur2 Q)"
        using alive2_back [OF that] False cur xt by simp
    qed (simp_all add: locks2_def)
  qed
qed

lemma expand_unlock_good:
  assumes ok: "queue2_ok Q c R" and t: "R t = exp_role EUnlock"
  shows "expand_good R t (Inr (EDone, Q\<lparr>q2_guard := None\<rparr>))"
proof (rule expand_goodI)
  let ?Q = "Q\<lparr>q2_guard := None\<rparr>"
  note P = queue2_okD(2) [OF ok]
  obtain bs where bs: "q2_boxes Q (cur2 Q) = Some bs" using ok by (auto simp: queue2_ok_def)
  have same: "cur2 ?Q = cur2 Q" "known2 ?Q = known2 Q" by (simp_all add: cur2_def known2_def)
  have xt: "exps R t = Some EUnlock" "locks2 EUnlock" using t by (simp_all add: exp_role_def exps_def locks2_def)
  note others = others_wait [OF P xt]
  have "exp2_ok ?Q e" "\<not> locks2 e" if "((exps R)(t := None)) u = Some e" for u e
    using others [of u e] that by (auto simp: same locks2_def split: if_splits)
  moreover have "cur2 Q = last (q2_generations Q)" using phase2D(3) [OF P xt(1)] by simp
  moreover have "dead2 bs'" if "q2_boxes Q g = Some bs'" "g \<noteq> cur2 Q" for g bs'
    using holder_dead [OF P xt that] by simp
  ultimately have "phase2 ?Q ((exps R)(t := None))" unfolding phase2_def by (auto simp: same)
  moreover have "current2 ?Q c (R(t := exp_role EDone)) bs"
  proof -
    have "alive2 (exps R) (cur2 Q)" if "alive2 ((exps R)(t := None)) (cur2 Q)"
      using alive2_back [OF that] xt(1) by simp
    then show ?thesis
      using ring2_alive [OF queue2_okD(4) [OF ok bs, unfolded current2_def]]
      by (simp add: current2_def exp_role_upd [of R t, OF t] same)
  qed
  ultimately show "queue2_ok ?Q c (R(t := exp_role EDone))"
    using queue2_okD(1) [OF ok] bs exp_role_upd(4) [of R t, OF t queue2_okD(3) [OF ok], of ?Q EDone]
    by (simp add: queue2_ok_def exp_role_upd(3) [of R t, OF t] shape2_def same)
qed

text \<open>The owner of the mutex moves on: the scan, the calls, the new generation.\<close>

lemma queue2_holder:
  assumes ok: "queue2_ok Q c R" and t: "R t = exp_role e" "e \<noteq> EDone" "locks2 e"
    and e': "locks2 e'" "e' \<noteq> EDone" "exp2_ok Q' e'"
    and Q': "shape2 Q'" "q2_guard Q' = q2_guard Q" "known2 Q \<subseteq> known2 Q'"
    and dead: "\<And>g bs. q2_boxes Q' g = Some bs \<Longrightarrow> g \<noteq> cur2 Q' \<Longrightarrow> dead2 bs \<or> e' = ESwap g"
    and bs: "q2_boxes Q' (cur2 Q') = Some bs"
      "current2 Q' c' (R(t := exp_role e')) bs"
  shows "queue2_ok Q' c' (R(t := exp_role e'))"
proof -
  have xt: "exps R t = Some e" using t(1,2) by (simp add: exp_role_def exps_def)
  show ?thesis
    using Q'(1) phase2_holder [OF queue2_okD(2) [OF ok] xt t(3) e'(1,3) Q'(2,3) dead] e'(2) bs
      exp_role_upd(4) [of R t, OF t(1) queue2_okD(3) [OF ok] Q'(3)]
    by (simp add: queue2_ok_def exp_role_upd(3) [of R t, OF t(1)])
qed

lemma not_alive: "exps R t = Some e \<Longrightarrow> exp_target e = Some g \<or> e = ESwap g' \<Longrightarrow> \<not> alive2 (exps R) g"
  unfolding alive2_def by blast

lemma scan_current:
  assumes ok: "queue2_ok Q c R" and t: "R t = exp_role e" "e = EScan g cap i \<or> e = ECall g cap i waker"
  obtains bs where "g = cur2 Q" "g = last (q2_generations Q)" "q2_boxes Q g = Some bs" "cap = length bs * 2"
    "i \<le> length bs" "\<forall>b<i. bs ! b = BTombstone"
    "ring2 bs c (unat (a2_waits (q2_atom Q))) (unat (a2_notifies (q2_atom Q)))
       (tick (cur2 Q) \<circ> R) (pend (cur2 Q) \<circ> R) False"
proof -
  have xt: "exps R t = Some e" using t by (auto simp: exp_role_def exps_def)
  then have "scan_ok Q g cap i" using phase2D(3) [OF queue2_okD(2) [OF ok] xt] t(2) by auto
  then obtain bs where bs: "g = cur2 Q" "g = last (q2_generations Q)" "q2_boxes Q g = Some bs" "cap = length bs * 2"
    "i \<le> length bs" "\<forall>b<i. bs ! b = BTombstone"
    by (auto simp: scan_ok_def)
  have "\<not> alive2 (exps R) (cur2 Q)" using not_alive [OF xt] t(2) bs(1) by auto
  then show thesis
    using that [OF bs] queue2_okD(4) [OF ok, of bs] bs by (simp add: current2_def)
qed

lemma expand_scan_good:
  assumes ok: "queue2_ok Q c R" and t: "R t = exp_role (EScan g cap i)"
    and bs: "q2_boxes Q g = Some bs" "i < length bs"
  shows "expand_good R t (expand_scan Q g cap bs i)"
proof -
  obtain bs' where S: "g = cur2 Q" "g = last (q2_generations Q)" "q2_boxes Q g = Some bs'" "cap = length bs' * 2"
      "\<forall>b<i. bs' ! b = BTombstone"
    and ring: "ring2 bs' c (unat (a2_waits (q2_atom Q))) (unat (a2_notifies (q2_atom Q)))
       (tick (cur2 Q) \<circ> R) (pend (cur2 Q) \<circ> R) False"
    by (rule scan_current [OF ok t]) auto
  have eq: "bs' = bs" using S(3) bs(1) by simp
  note S = S [unfolded eq] and ring = ring [unfolded eq]
  let ?Q = "put_bucket Q g bs i BTombstone" and ?bs = "bs[i := BTombstone]"
  have scan: "scan_ok ?Q g cap (Suc i)"
    using S bs by (auto simp: scan_ok_def nth_list_update less_Suc_eq)
  have step: "queue2_ok ?Q c (R(t := exp_role e))"
    if e: "e = EScan g cap (Suc i) \<or> e = ECall g cap (Suc i) waker" for e waker
  proof (rule queue2_holder [OF ok t])
    show "exp2_ok ?Q e" using e scan by auto
    show "shape2 ?Q" using queue2_okD(1) [OF ok] bs(1) by (auto simp: shape2_def)
    show "dead2 bs' \<or> e = ESwap a" if "q2_boxes ?Q a = Some bs'" "a \<noteq> cur2 ?Q" for a bs'
      using holder_dead [OF queue2_okD(2) [OF ok], of t "EScan g cap i" a bs'] that S(1) t
      by (auto simp: exps_def locks2_def split: if_splits)
    show "q2_boxes ?Q (cur2 ?Q) = Some ?bs" using S(1) by simp
    show "current2 ?Q c (R(t := exp_role e)) ?bs"
      using ring2_tombstone [OF ring bs(2)] not_alive [of "R(t := exp_role e)" t e g] S(1) e
      unfolding current2_def put_bucket_simps exp_role_upd(1,2) [of R t, OF t] by (auto simp: exp_role_def)
  qed (use e in \<open>auto simp: locks2_def\<close>)
  show ?thesis
    using step by (auto simp: expand_scan_def native_swap_def Let_def intro: expand_goodI split: bucket2.split)
qed

lemma expand_call_good:
  assumes ok: "queue2_ok Q c R" and t: "R t = exp_role (ECall g cap i waker)"
  shows "expand_good R t (Inr (EScan g cap i, wake2 Q waker))"
proof (rule expand_goodI)
  obtain bs where S: "g = cur2 Q" "g = last (q2_generations Q)" "q2_boxes Q g = Some bs" "cap = length bs * 2"
    "i \<le> length bs" "\<forall>b<i. bs ! b = BTombstone"
    and ring: "ring2 bs c (unat (a2_waits (q2_atom Q))) (unat (a2_notifies (q2_atom Q)))
       (tick (cur2 Q) \<circ> R) (pend (cur2 Q) \<circ> R) False"
    by (rule scan_current [OF ok t]) auto
  have "queue2_ok Q c (R(t := exp_role (EScan g cap i)))"
  proof (rule queue2_holder [OF ok t])
    show "exp2_ok Q (EScan g cap i)" using S by (auto simp: scan_ok_def)
    show "dead2 bs' \<or> EScan g cap i = ESwap a" if "q2_boxes Q a = Some bs'" "a \<noteq> cur2 Q" for a bs'
      using holder_dead [OF queue2_okD(2) [OF ok], of t "ECall g cap i waker" a bs'] that t
      by (auto simp: exp_role_def exps_def locks2_def)
    show "current2 Q c (R(t := exp_role (EScan g cap i))) bs"
      using ring not_alive [of "R(t := exp_role (EScan g cap i))" t "EScan g cap i" g] S(1)
      unfolding current2_def exp_role_upd(1,2) [of R t, OF t] by (auto simp: exp_role_def)
  qed (use S queue2_okD(1) [OF ok] in \<open>auto simp: locks2_def\<close>)
  then show "queue2_ok (wake2 Q waker) c (R(t := exp_role (EScan g cap i)))" by simp
qed

lemma expand_alloc_good:
  assumes ok: "queue2_ok Q c R" and t: "R t = exp_role (EScan g cap i)"
    and bs: "q2_boxes Q g = Some bs" "length bs \<le> i" and small: "cap < 2 ^ 32"
    and r: "expand_alloc Q cap addr = Some r"
  shows "expand_good R t r"
proof -
  obtain bs' where S: "g = cur2 Q" "g = last (q2_generations Q)" "q2_boxes Q g = Some bs'" "cap = length bs' * 2"
      "\<forall>b<i. bs' ! b = BTombstone"
    and ring: "ring2 bs' c (unat (a2_waits (q2_atom Q))) (unat (a2_notifies (q2_atom Q)))
       (tick (cur2 Q) \<circ> R) (pend (cur2 Q) \<circ> R) False"
    by (rule scan_current [OF ok t]) auto
  have eq: "bs' = bs" using S(3) bs(1) by simp
  note S = S [unfolded eq] and ring = ring [unfolded eq]
  let ?new = "map (\<lambda>i. BEmpty (of_nat i)) [0..<cap]"
  let ?Q = "Q\<lparr>q2_boxes := (q2_boxes Q)(addr \<mapsto> ?new)\<rparr>"
  have addr: "q2_boxes Q addr = None" using r by (auto simp: expand_alloc_def split: if_splits)
  then have fresh: "addr \<notin> known2 Q" using shape2D(3) [OF queue2_okD(1) [OF ok], of addr] by auto
  have same: "cur2 ?Q = cur2 Q" "known2 ?Q = known2 Q" by (simp_all add: cur2_def known2_def)
  have ne: "addr \<noteq> cur2 Q" using fresh by (auto simp: known2_def)
  have "queue2_ok ?Q c (R(t := exp_role (ESwap addr)))"
  proof (rule queue2_holder [OF ok t])
    show "exp2_ok ?Q (ESwap addr)"
      using fresh S bs ne by (auto simp: dead2_def)
    show "shape2 ?Q"
      using queue2_okD(1) [OF ok] shape2D(4) [OF queue2_okD(1) [OF ok] bs(1)] S(4) small
      by (auto simp: shape2_def same)
    show "dead2 bs' \<or> ESwap addr = ESwap a" if "q2_boxes ?Q a = Some bs'" "a \<noteq> cur2 ?Q" for a bs'
      using holder_dead [OF queue2_okD(2) [OF ok], of t "EScan g cap i" a bs'] that t
      by (auto simp: same exps_def locks2_def split: if_splits)
    show "q2_boxes ?Q (cur2 ?Q) = Some bs" using bs S(1) ne by (simp add: same)
    show "current2 ?Q c (R(t := exp_role (ESwap addr))) bs"
      using ring not_alive [of "R(t := exp_role (ESwap addr))" t "ESwap addr" "cur2 Q" addr]
      unfolding current2_def same exp_role_upd(1,2) [of R t, OF t] by auto
  qed (auto simp: locks2_def same)
  moreover have "r = Inr (ESwap addr, ?Q)"
    using r small by (auto simp: expand_alloc_def generation_new_def split: if_splits)
  ultimately show ?thesis by (simp add: expand_goodI)
qed

lemma expand_swap_good:
  assumes ok: "queue2_ok Q c R" and t: "R t = exp_role (ESwap g)"
  shows "expand_good R t (Inr (EPush g, Q\<lparr>q2_atom := \<lparr>a2_generation = g, a2_waits = 0, a2_notifies = 0\<rparr>\<rparr>))"
proof (rule expand_goodI)
  let ?Q = "Q\<lparr>q2_atom := \<lparr>a2_generation = g, a2_waits = 0, a2_notifies = 0\<rparr>\<rparr>"
  have xt: "exps R t = Some (ESwap g)" "locks2 (ESwap g)" using t by (simp_all add: exps_def locks2_def)
  note P = queue2_okD(2) [OF ok] and S = queue2_okD(1) [OF ok]
  obtain n where n: "g \<notin> known2 Q" "cur2 Q = last (q2_generations Q)"
      "q2_boxes Q g = Some (map (\<lambda>i. BEmpty (of_nat i)) [0..<n])" "\<exists>bs. q2_boxes Q (cur2 Q) = Some bs \<and> dead2 bs"
    using phase2D(3) [OF P xt(1)] by auto
  have known: "cur2 ?Q = g" "known2 ?Q = insert g (known2 Q)"
    using n(2) shape2D(2) [OF S] by (auto simp: cur2_def known2_def)
  show "queue2_ok ?Q (\<lambda>b. b) (R(t := exp_role (EPush g)))"
  proof (rule queue2_holder [OF ok t])
    show "shape2 ?Q" using S n(3) unfolding shape2_def known by (auto simp: atom2_ok_def)
    show "dead2 bs \<or> EPush g = ESwap a" if "q2_boxes ?Q a = Some bs" "a \<noteq> cur2 ?Q" for a bs
      using holder_dead [OF P xt, of a bs] that n(4) unfolding known by (cases "a = cur2 Q") auto
    show "q2_boxes ?Q (cur2 ?Q) = Some (map (\<lambda>i. BEmpty (of_nat i)) [0..<n])" using n(3) unfolding known by simp
    have "tick g \<circ> R = (\<lambda>_. None)" "pend g \<circ> R = (\<lambda>_. None)"
      using refs2D [OF queue2_okD(3) [OF ok]] n(1)
      by (fastforce simp: tick_def pend_def split: option.split)+
    moreover have "0 < n" "n \<le> 2 ^ 32" using shape2D(4) [OF S n(3)] by auto
    ultimately show "current2 ?Q (\<lambda>b. b) (R(t := exp_role (EPush g))) (map (\<lambda>i. BEmpty (of_nat i)) [0..<n])"
      unfolding current2_def known exp_role_upd(1,2) [of R t, OF t] by (simp add: ring2_new)
  qed (use xt known in \<open>auto simp: locks2_def\<close>)
qed

lemma expand_push_good:
  assumes ok: "queue2_ok Q c R" and t: "R t = exp_role (EPush g)"
  shows "expand_good R t (Inr (EUnlock, Q\<lparr>q2_generations := q2_generations Q @ [g]\<rparr>))"
proof (rule expand_goodI)
  let ?Q = "Q\<lparr>q2_generations := q2_generations Q @ [g]\<rparr>"
  have xt: "exps R t = Some (EPush g)" "locks2 (EPush g)" using t by (simp_all add: exps_def locks2_def)
  note P = queue2_okD(2) [OF ok]
  have g: "g = cur2 Q" using phase2D(3) [OF P xt(1)] by simp
  have known: "cur2 ?Q = cur2 Q" "known2 ?Q = known2 Q" using g by (auto simp: cur2_def known2_def)
  obtain bs where bs: "q2_boxes Q (cur2 Q) = Some bs" using ok by (auto simp: queue2_ok_def)
  show "queue2_ok ?Q c (R(t := exp_role EUnlock))"
  proof (rule queue2_holder [OF ok t])
    show "exp2_ok ?Q EUnlock" using g known(1) by simp
    show "shape2 ?Q" using queue2_okD(1) [OF ok] unfolding shape2_def known by auto
    show "dead2 bs \<or> EUnlock = ESwap a" if "q2_boxes ?Q a = Some bs" "a \<noteq> cur2 ?Q" for a bs
      using holder_dead [OF P xt, of a bs] that unfolding known by simp
    have "alive2 (exps R) (cur2 Q)" if "alive2 ((exps R)(t := Some EUnlock)) (cur2 Q)"
      using alive2_back [OF that] xt(1) by simp
    then show "current2 ?Q c (R(t := exp_role EUnlock)) bs"
      using ring2_alive [OF queue2_okD(4) [OF ok bs, unfolded current2_def]]
      unfolding current2_def known exp_role_upd(1,2) [of R t, OF t] by simp
  qed (use bs known in \<open>auto simp: locks2_def\<close>)
qed

text \<open>The only fault: the assertion that the new generation is not too large.\<close>

definition expand_fault :: "choice2 \<Rightarrow> expand2 \<Rightarrow> fault option" where
  "expand_fault ch e =
     (case (e, ch) of (EScan g cap i, Alloc addr) \<Rightarrow> if 2 ^ 32 < cap then Some Panic else None | _ \<Rightarrow> None)"

lemma expand_step_fault:
  assumes ok: "queue2_ok Q c R" and t: "R t = exp_role e"
    and x: "expand_fault ch e = Some x" and r: "expand_step t ch Q e = Some r"
  shows "r = Inl x"
proof -
  obtain g cap i addr where e: "e = EScan g cap i" "ch = Alloc addr" "2 ^ 32 < cap" "x = Panic"
    using x by (auto simp: expand_fault_def split: expand2.splits choice2.splits if_splits)
  obtain bs where "q2_boxes Q g = Some bs"
    using phase2D(3) [OF queue2_okD(2) [OF ok], of t e] t e by (auto simp: exps_def scan_ok_def)
  then show ?thesis
    using r e
    by (auto simp: expand_step_def get_generation_def expand_alloc_def generation_new_def split: if_splits)
qed

theorem expand_step_good:
  assumes ok: "queue2_ok Q c R" and t: "R t = exp_role e"
    and small: "expand_small ch e" "expand_fault ch e = None" and r: "expand_step t ch Q e = Some r"
  shows "expand_good R t r"
proof -
  have scan: "\<exists>bs. q2_boxes Q g = Some bs" if "e = EScan g cap i" for g cap i
    using phase2D(3) [OF queue2_okD(2) [OF ok], of t e] t that by (auto simp: exps_def scan_ok_def)
  show ?thesis
  proof (cases e)
    case (EScan g cap i)
    then obtain bs where bs: "q2_boxes Q g = Some bs" using scan by blast
    show ?thesis
      using r EScan bs small expand_scan_good [OF ok t [unfolded EScan] bs]
        expand_alloc_good [OF ok t [unfolded EScan] bs]
      by (cases ch) (auto simp: expand_step_def get_generation_def expand_small_def expand_fault_def split: if_splits)
  qed (use r t expand_lock_good [OF ok] expand_call_good [OF ok] expand_swap_good [OF ok]
        expand_push_good [OF ok] expand_unlock_good [OF ok] in
      \<open>cases ch; auto simp: expand_step_def native_swap_def\<close>)+
qed

end
