(* ===== verification/Queue2_Wait.thy ===== *)
theory Queue2_Wait imports Queue2_Expand begin

text \<open>
  \<open>notify\<close> and the polls of \<open>WaitFuture\<close> of \<open>src/futex2/mod.rs\<close>: every step keeps the
  invariant, or has a fault that is stated here.
\<close>

section \<open>Accesses to a bucket\<close>

lemma known_boxes:
  assumes "queue2_ok Q c R" "g \<in> known2 Q"
  obtains bs where "q2_boxes Q g = Some bs" "bs \<noteq> []" "length bs < 2 ^ 32"
  using shape2D(3,4) [OF queue2_okD(1) [OF assms(1)]] assms(2) by blast

lemma put_bucket_same: "q2_boxes Q g = Some bs \<Longrightarrow> put_bucket Q g bs b (bs ! b) = Q"
proof -
  assume "q2_boxes Q g = Some bs"
  then have "(q2_boxes Q)(g \<mapsto> bs) = q2_boxes Q" by (rule map_upd_triv)
  then show ?thesis by (simp add: put_bucket_def)
qed

lemma bucket_load_known:
  assumes "queue2_ok Q c R" "g \<in> known2 Q"
  obtains bs where "q2_boxes Q g = Some bs" "bucket_load Q g i = Inr (bs ! (unat i mod length bs))"
proof -
  obtain bs where bs: "q2_boxes Q g = Some bs" "bs \<noteq> []" by (rule known_boxes [OF assms])
  then show thesis
    using that [of bs] by (simp add: bucket_load_def get_generation_def generation_index_def)
qed

text \<open>A compare-exchange that expects no tombstone succeeds in the current generation only.\<close>

lemma bucket_cas_known:
  assumes ok: "queue2_ok Q c R" and g: "g \<in> known2 Q" and cur: "current \<noteq> BTombstone"
  obtains (fail) bs where "q2_boxes Q g = Some bs"
      "bucket_cas spurious Q g i current new = Inr (False, bs ! (unat i mod length bs), Q)"
  | (hit) bs where "g = cur2 Q" "q2_boxes Q (cur2 Q) = Some bs" "unat i mod length bs < length bs"
      "bs ! (unat i mod length bs) = current"
      "bucket_cas spurious Q g i current new = Inr (True, current, put_bucket Q (cur2 Q) bs (unat i mod length bs) new)"
proof -
  obtain bs where bs: "q2_boxes Q g = Some bs" "bs \<noteq> []" by (rule known_boxes [OF ok g])
  let ?b = "unat i mod length bs"
  have b: "?b < length bs" using bs(2) by simp
  have cas: "bucket_cas spurious Q g i current new =
      (if bs ! ?b = current \<and> \<not> spurious then Inr (True, current, put_bucket Q g bs ?b new)
       else Inr (False, bs ! ?b, Q))"
    using bs put_bucket_same [OF bs(1)]
    by (simp add: bucket_cas_def get_generation_def generation_index_def)
  show thesis
  proof (cases "bs ! ?b = current \<and> \<not> spurious")
    case True
    then have "\<not> dead2 bs" using b cur by (auto simp: dead2_def)
    then have "g = cur2 Q" using known_dead [OF ok g] bs(1) by blast
    then show ?thesis using hit [of bs] True bs cas b by simp
  qed (use fail [OF bs(1)] cas in auto)
qed

lemma alive2_same: "x = X t \<Longrightarrow> alive2 (X(t := x)) g = alive2 X g"
  by simp

lemma queue2_bucket:
  assumes ok: "queue2_ok Q c R" and bs: "q2_boxes Q (cur2 Q) = Some bs" "b < length bs" "bs ! b \<noteq> BTombstone"
    and r: "r2_exp r = r2_exp (R t)" "\<And>g i k. r2_ticket r = Some (g, i, k) \<Longrightarrow> g \<in> known2 Q"
      "\<And>g lo hi. r2_pend r = Some (g, lo, hi) \<Longrightarrow> g \<in> known2 Q"
    and ring: "ring2 (bs[b := x]) c' (unat (a2_waits (q2_atom Q))) (unat (a2_notifies (q2_atom Q)))
       ((tick (cur2 Q) \<circ> R)(t := tick (cur2 Q) r)) ((pend (cur2 Q) \<circ> R)(t := pend (cur2 Q) r))
       (alive2 (exps R) (cur2 Q))"
  shows "queue2_ok (put_bucket Q (cur2 Q) bs b x) c' (R(t := r))"
proof -
  let ?Q = "put_bucket Q (cur2 Q) bs b x"
  note S = queue2_okD(1) [OF ok] and P = queue2_okD(2) [OF ok]
  have X: "exps (R(t := r)) = exps R" using r(1) by (simp add: fun_upd_idem exps_def)
  have "exp2_ok ?Q e" if e: "exps R u = Some e" for u e
  proof -
    have "exp2_ok Q e" by (rule phase2D(3) [OF P e])
    moreover have "a \<noteq> cur2 Q" if "a \<notin> known2 Q" for a using that by (auto simp: known2_def)
    ultimately show ?thesis
      using bs by (cases e) (auto simp: scan_ok_def nth_list_update dead2_def)
  qed
  then have "phase2 ?Q (exps R)"
    using P unfolding phase2_def by simp
  moreover have "shape2 ?Q" using S bs(1) by (auto simp: shape2_def)
  moreover have "refs2 ?Q (R(t := r))"
    using refs2_upd [OF queue2_okD(3) [OF ok], of r t] r(2,3) by (simp add: refs2_def)
  moreover have "current2 ?Q c' (R(t := r)) (bs[b := x])"
    using ring unfolding current2_def X by (simp add: fun_upd_comp)
  ultimately show ?thesis unfolding queue2_ok_def X by auto
qed

lemma queue2_atom:
  assumes ok: "queue2_ok Q c R" and a: "a2_generation a = cur2 Q" "atom2_ok a"
    and r: "r2_exp r = r2_exp (R t)" "\<And>g i k. r2_ticket r = Some (g, i, k) \<Longrightarrow> g \<in> known2 Q"
      "\<And>g lo hi. r2_pend r = Some (g, lo, hi) \<Longrightarrow> g \<in> known2 Q"
    and ring: "\<And>bs. ring2 bs c (unat (a2_waits (q2_atom Q))) (unat (a2_notifies (q2_atom Q)))
         (tick (cur2 Q) \<circ> R) (pend (cur2 Q) \<circ> R) (alive2 (exps R) (cur2 Q)) \<Longrightarrow>
       ring2 bs c (unat (a2_waits a)) (unat (a2_notifies a))
         ((tick (cur2 Q) \<circ> R)(t := tick (cur2 Q) r)) ((pend (cur2 Q) \<circ> R)(t := pend (cur2 Q) r))
         (alive2 (exps R) (cur2 Q))"
  shows "queue2_ok (Q\<lparr>q2_atom := a\<rparr>) c (R(t := r))"
proof -
  let ?Q = "Q\<lparr>q2_atom := a\<rparr>"
  have same: "cur2 ?Q = cur2 Q" "known2 ?Q = known2 Q" using a(1) by (simp_all add: cur2_def known2_def)
  have X: "exps (R(t := r)) = exps R" using r(1) by (simp add: fun_upd_idem exps_def)
  obtain bs where bs: "q2_boxes Q (cur2 Q) = Some bs" using ok by (auto simp: queue2_ok_def)
  have "exp2_ok ?Q e = exp2_ok Q e" for e by (cases e) (simp_all add: scan_ok_def same)
  then have "phase2 ?Q (exps R)" using queue2_okD(2) [OF ok] unfolding phase2_def same by simp
  moreover have "shape2 ?Q" using queue2_okD(1) [OF ok] a(2) unfolding shape2_def same by simp
  moreover have "refs2 ?Q (R(t := r))"
    using refs2_upd [OF queue2_okD(3) [OF ok], of r t] r(2,3) unfolding refs2_def same by simp
  moreover have "current2 ?Q c (R(t := r)) bs"
    using ring [OF queue2_okD(4) [OF ok bs, unfolded current2_def]]
    unfolding current2_def X same by (simp add: fun_upd_comp)
  ultimately show ?thesis unfolding queue2_ok_def X same using bs by auto
qed

text \<open>A task gives its number or its notifications up for an expansion.\<close>

lemma queue2_to_lock:
  assumes ok: "queue2_ok Q c R" and t: "r2_exp (R t) = None" "g \<in> known2 Q"
    "pend (cur2 Q) (R t) = None \<or> g = cur2 Q"
  shows "queue2_ok Q c (R(t := exp_role (ELock g)))"
proof -
  let ?X = "(exps R)(t := Some (ELock g))"
  note P = queue2_okD(2) [OF ok]
  obtain bs where bs: "q2_boxes Q (cur2 Q) = Some bs" using ok by (auto simp: queue2_ok_def)
  note ring = queue2_okD(4) [OF ok bs, unfolded current2_def]
  have xt: "exps R t = None" using t(1) by (simp add: exps_def)
  have "q2_guard Q = Some u \<longleftrightarrow> (\<exists>e. ?X u = Some e \<and> locks2 e)" for u
    using phase2D(1) [OF P, of u] xt by (auto simp: locks2_def)
  moreover have "exp2_ok Q e" if "?X u = Some e" for u e
    using phase2D(3) [OF P, of u e] that t(2) by (auto split: if_splits)
  moreover have "dead2 bs' \<or> (\<exists>u. ?X u = Some (ESwap a))" if "q2_boxes Q a = Some bs'" "a \<noteq> cur2 Q" for a bs'
    using phase2D(4) [OF P that] xt by (metis fun_upd_other option.distinct(1))
  ultimately have phase: "phase2 Q ?X"
    using phase2D(2) [OF P] unfolding phase2_def by blast
  have "ring2 bs c (unat (a2_waits (q2_atom Q))) (unat (a2_notifies (q2_atom Q)))
      ((tick (cur2 Q) \<circ> R)(t := None)) ((pend (cur2 Q) \<circ> R)(t := None)) (alive2 ?X (cur2 Q))"
  proof (cases "g = cur2 Q")
    case True
    then have "\<not> alive2 ?X (cur2 Q)" using alive2_at by fastforce
    then show ?thesis using ring2_forget(2) [OF ring2_forget(1) [OF ring]] by simp
  next
    case False
    then have "(pend (cur2 Q) \<circ> R)(t := None) = pend (cur2 Q) \<circ> R" using t(3) by (simp add: fun_upd_idem)
    moreover have "alive2 (exps R) (cur2 Q)" if "alive2 ?X (cur2 Q)" using alive2_back [OF that] xt by simp
    ultimately show ?thesis using ring2_alive [OF ring2_forget(1) [OF ring, of t]] by simp
  qed
  then show ?thesis
    using queue2_okD(1) [OF ok] phase bs refs2_upd [OF queue2_okD(3) [OF ok], of "exp_role (ELock g)" t]
    by (simp add: queue2_ok_def current2_def fun_upd_comp)
qed

section \<open>notify\<close>

fun notify_pc_ok :: "notify2 \<Rightarrow> bool" where
  "notify_pc_ok (NCas add a) = atom2_ok a"
| "notify_pc_ok (NNext g i n) = (i < n)"
| "notify_pc_ok (NTry g i n old) = (i < n)"
| "notify_pc_ok (NCall g i n waker) = (i < n)"
| "notify_pc_ok _ = True"

definition notify_good :: "(tid \<Rightarrow> role2) \<Rightarrow> tid \<Rightarrow> (notify2 \<times> queue2) res \<Rightarrow> bool" where
  "notify_good R t r \<longleftrightarrow>
     (\<exists>x Q c. r = Inr (x, Q) \<and> notify_pc_ok x \<and> queue2_ok Q c (R(t := notify_role x)))"

lemma notify_goodI:
  "notify_pc_ok x \<Longrightarrow> queue2_ok Q c (R(t := notify_role x)) \<Longrightarrow> notify_good R t (Inr (x, Q))"
  by (auto simp: notify_good_def)

lemma notify_from_role:
  "tick g' (notify_role (notify_from g i n)) = None"
  "pend g' (notify_role (notify_from g i n)) = (if g = g' then span (unat i) (unat n) else None)"
  "r2_exp (notify_role (notify_from g i n)) = None"
  "r2_ticket (notify_role (notify_from g i n)) = None"
  "r2_pend (notify_role (notify_from g i n)) = Some (h, lo, hi) \<Longrightarrow> h = g"
  "notify_pc_ok (notify_from g i n)"
  by (auto simp: notify_from_def span_def word_less_nat_alt split: if_splits)

lemma unat_Suc: "i < n \<Longrightarrow> unat (i + 1 :: usize_half) = Suc (unat i)"
  using unat_plus_1 [of i "unat n"] unsigned_less [of n, where ?'a = nat] by (simp add: word_less_nat_alt)

lemma notify_cas_good:
  assumes ok: "queue2_ok Q c R" and t: "R t = no_role" and small: "unat (a2_notifies a) + unat add < 2 ^ 32" and a: "atom2_ok a"
  shows "notify_good R t (notify_cas spurious Q add a)"
proof -
  let ?n = "min (a2_notifies a + add) (a2_waits a)" and ?a = "q2_atom Q"
  have le: "unat (a2_notifies a) \<le> unat (a2_waits a)"
    using a by (simp add: atom2_ok_def word_le_nat_alt)
  have plus: "checked_plus (a2_notifies a) add = Inr (a2_notifies a + add)" using small by (simp add: checked_plus_def)
  have sum: "unat (a2_notifies a + add) = unat (a2_notifies a) + unat add"
    using small by (simp add: unat_word_ariths)
  have n: "unat (a2_notifies a) \<le> unat ?n" "unat ?n \<le> unat (a2_waits a)"
    using le sum by (simp_all add: min_def word_le_nat_alt)
  show ?thesis
  proof (cases "?a = a \<and> \<not> spurious")
    case True
    let ?x = "notify_from (a2_generation a) (a2_notifies a) ?n"
    have cur: "a2_generation a = cur2 Q" using True by (simp add: cur2_def)
    have "queue2_ok (Q\<lparr>q2_atom := a\<lparr>a2_notifies := ?n\<rparr>\<rparr>) c (R(t := notify_role ?x))"
    proof (rule queue2_atom [OF ok])
      show "atom2_ok (a\<lparr>a2_notifies := ?n\<rparr>)" using a by (simp add: atom2_ok_def)
      show "r2_exp (notify_role ?x) = r2_exp (R t)" using t by (simp add: notify_from_role)
      show "g \<in> known2 Q" if "r2_pend (notify_role ?x) = Some (g, lo, hi)" for g lo hi
        using notify_from_role(5) [OF that] cur by (simp add: known2_def)
      fix bs assume ring: "ring2 bs c (unat (a2_waits ?a)) (unat (a2_notifies ?a))
         (tick (cur2 Q) \<circ> R) (pend (cur2 Q) \<circ> R) (alive2 (exps R) (cur2 Q))"
      have "(tick (cur2 Q) \<circ> R)(t := None) = tick (cur2 Q) \<circ> R" using t by (simp add: fun_upd_idem)
      then show "ring2 bs c (unat (a2_waits (a\<lparr>a2_notifies := ?n\<rparr>))) (unat (a2_notifies (a\<lparr>a2_notifies := ?n\<rparr>)))
         ((tick (cur2 Q) \<circ> R)(t := tick (cur2 Q) (notify_role ?x)))
         ((pend (cur2 Q) \<circ> R)(t := pend (cur2 Q) (notify_role ?x))) (alive2 (exps R) (cur2 Q))"
        using ring2_notify [OF ring, of t "unat ?n"] t n True cur by (simp add: notify_from_role)
    qed (simp_all add: cur notify_from_role)
    then show ?thesis
      using True plus notify_from_role(6)
      by (auto simp: notify_cas_def atom2_cas_def Let_def intro!: notify_goodI)
  next
    case False
    have "queue2_ok Q c (R(t := no_role))" using ok t by (simp add: fun_upd_idem)
    moreover have "atom2_ok ?a" using shape2D(1) [OF queue2_okD(1) [OF ok]] .
    ultimately have "notify_good R t (Inr (NCas add ?a, Q))" by (auto intro: notify_goodI)
    moreover have "notify_cas spurious Q add a = Inr (NCas add ?a, Q)"
      using False plus by (auto simp: notify_cas_def atom2_cas_def Let_def)
    ultimately show ?thesis by simp
  qed
qed

lemma notify_mark:
  assumes ok: "queue2_ok Q c R" and t: "R t = pend_role g (unat i) (unat n)" "i < n"
    and old: "(\<exists>v. old = BWaiting v) \<and> new = BWaking \<or> (\<exists>j. old = BEmpty j \<and> new = BWoken j)"
    and x: "r2_exp (notify_role x) = None" "r2_ticket (notify_role x) = None"
      "\<And>h lo hi. r2_pend (notify_role x) = Some (h, lo, hi) \<Longrightarrow> h = g"
      "pend g (notify_role x) = span (Suc (unat i)) (unat n)" "notify_pc_ok x"
  shows "notify_good R t (bindR (bucket_cas spurious Q g i old new) (\<lambda>(ok, old, Q).
     Inr (if ok then x else NTry g i n old, Q)))"
proof -
  have g: "g \<in> known2 Q" using refs2D(2) [OF queue2_okD(3) [OF ok], of t g] t by simp
  have "old \<noteq> BTombstone" using old by auto
  from ok g this show ?thesis
  proof (cases rule: bucket_cas_known [where spurious = spurious and i = i and new = new])
    case (fail bs)
    have "R(t := pend_role g (unat i) (unat n)) = R" using t(1) by (simp add: fun_upd_idem)
    then have "notify_good R t (Inr (NTry g i n (bs ! (unat i mod length bs)), Q))"
      using ok t(2) by (intro notify_goodI [of _ _ c]) simp_all
    then show ?thesis using fail by simp
  next
    case (hit bs)
    let ?b = "unat i mod length bs"
    note ring = queue2_okD(4) [OF ok hit(2), unfolded current2_def]
    have lt: "unat i < unat n" using t(2) by (simp add: word_less_nat_alt)
    have "queue2_ok (put_bucket Q (cur2 Q) bs ?b new) c (R(t := notify_role x))"
    proof (rule queue2_bucket [OF ok hit(2,3)])
      have "(tick (cur2 Q) \<circ> R)(t := None) = tick (cur2 Q) \<circ> R" using t by (simp add: fun_upd_idem)
      moreover have "tick (cur2 Q) (notify_role x) = None" using x(2) by (simp add: tick_def)
      moreover have "(pend (cur2 Q) \<circ> R) t = Some (unat i, unat n)"
        using t hit(1) lt by (simp add: span_def)
      ultimately show "ring2 (bs[?b := new]) c (unat (a2_waits (q2_atom Q))) (unat (a2_notifies (q2_atom Q)))
         ((tick (cur2 Q) \<circ> R)(t := tick (cur2 Q) (notify_role x)))
         ((pend (cur2 Q) \<circ> R)(t := pend (cur2 Q) (notify_role x))) (alive2 (exps R) (cur2 Q))"
        using ring2_mark [OF ring, of t "unat i" "unat n" new] old hit(4) lt x(4) hit(1) by auto
    qed (use x g t old hit(4) in auto)
    then show ?thesis using hit x(5) by (auto intro: notify_goodI)
  qed
qed

lemma notify_try_good:
  assumes ok: "queue2_ok Q c R" and t: "R t = pend_role g (unat i) (unat n)" "i < n"
  shows "notify_good R t (notify_try spurious Q g i n old)"
proof -
  have g: "g \<in> known2 Q" using refs2D(2) [OF queue2_okD(3) [OF ok], of t g] t by simp
  have expand: "notify_good R t (Inr (NExpand (ELock g), Q))"
    using queue2_to_lock [OF ok, of t g] g t(1) by (intro notify_goodI [of _ _ c]) auto
  show ?thesis
  proof (cases old)
    case (BWaiting w)
    then show ?thesis
      using notify_mark [OF ok t, of old BWaking "NCall g i n w" spurious] t(2)
      by (auto simp: notify_try_def)
  next
    case (BEmpty j)
    have "pend g (notify_role (notify_from g (i + 1) n)) = span (Suc (unat i)) (unat n)"
      using unat_Suc [OF t(2)] by (simp add: notify_from_role)
    then show ?thesis
      using notify_mark [OF ok t, of old "BWoken i" "notify_from g (i + 1) n" spurious] expand BEmpty
        notify_from_role
      by (auto simp: notify_try_def)
  qed (use expand in \<open>simp_all add: notify_try_def\<close>)
qed

text \<open>The only faults: the sum of the notifications, and those of an expansion.\<close>

definition notify_fault :: "choice2 \<Rightarrow> notify2 \<Rightarrow> fault option" where
  "notify_fault ch x =
     (case (x, ch) of
        (NCas add a, Go _) \<Rightarrow> if 2 ^ 32 \<le> unat (a2_notifies a) + unat add then Some Overflow else None
      | (NExpand e, _) \<Rightarrow> expand_fault ch e
      | _ \<Rightarrow> None)"

lemma notify_step_fault:
  assumes ok: "queue2_ok Q c R" and t: "R t = notify_role x"
    and y: "notify_fault ch x = Some y" and r: "notify_step t ch Q x = Some r"
  shows "r = Inl y"
proof (cases x)
  case (NCas add a)
  then show ?thesis
    using y r by (cases ch) (auto simp: notify_step_def notify_fault_def notify_cas_def checked_plus_def split: if_splits)
next
  case (NExpand e)
  then obtain r' where r': "expand_step t ch Q e = Some r'"
    "r = mapR (\<lambda>(e, Q). (if e = EDone then NDone else NExpand e, Q)) r'"
    using r by (cases ch) (auto simp: notify_step_def)
  then show ?thesis using expand_step_fault [OF ok _ _ r'(1)] t y NExpand by (simp add: notify_fault_def)
qed (use y in \<open>simp_all add: notify_fault_def\<close>)

theorem notify_step_good:
  assumes ok: "queue2_ok Q c R" and t: "R t = notify_role x" and pc: "notify_pc_ok x"
    and small: "notify_small ch x" "notify_fault ch x = None" and r: "notify_step t ch Q x = Some r"
  shows "notify_good R t r"
proof (cases x)
  case (NLoad add)
  have "queue2_ok Q c (R(t := no_role))" using ok t NLoad by (simp add: fun_upd_idem)
  then show ?thesis
    using r NLoad pc shape2D(1) [OF queue2_okD(1) [OF ok]]
    by (cases ch) (auto simp: notify_step_def intro!: notify_goodI)
next
  case (NCas add a)
  then show ?thesis
    using r pc t small notify_cas_good [OF ok] by (cases ch) (auto simp: notify_step_def notify_fault_def split: if_splits)
next
  case (NNext g i n)
  then have "g \<in> known2 Q" using refs2D(2) [OF queue2_okD(3) [OF ok], of t g] t by simp
  with ok obtain bs where "bucket_load Q g i = Inr (bs ! (unat i mod length bs))" by (rule bucket_load_known)
  moreover have "queue2_ok Q c (R(t := pend_role g (unat i) (unat n)))" using ok t NNext by (simp add: fun_upd_idem)
  ultimately show ?thesis
    using r NNext pc by (cases ch) (auto simp: notify_step_def intro!: notify_goodI)
next
  case (NTry g i n old)
  then show ?thesis using r pc t notify_try_good [OF ok] by (cases ch) (auto simp: notify_step_def)
next
  case (NCall g i n w)
  have "queue2_ok Q c (R(t := notify_role (notify_from g (i + 1) n)))"
    using refs2D(2) [OF queue2_okD(3) [OF ok], of t g] t NCall pc notify_from_role
    by (intro queue2_restrict [OF ok]) (fastforce simp: unat_Suc)+
  then show ?thesis
    using r NCall notify_from_role(6) by (cases ch) (auto simp: notify_step_def intro!: notify_goodI)
next
  case (NExpand e)
  then obtain r' where r': "expand_step t ch Q e = Some r'"
    "r = mapR (\<lambda>(e, Q). (if e = EDone then NDone else NExpand e, Q)) r'"
    using r by (cases ch) (auto simp: notify_step_def)
  moreover have "expand_good R t r'"
    using expand_step_good [OF ok _ _ _ r'(1)] t NExpand small by (simp add: notify_small_def notify_fault_def)
  then obtain e' Q' c' where e': "r' = Inr (e', Q')" "queue2_ok Q' c' (R(t := exp_role e'))"
    by (auto simp: expand_good_def)
  moreover have "exp_role EDone = no_role" by (simp add: exp_role_def)
  ultimately show ?thesis by (cases "e' = EDone") (auto intro!: notify_goodI [of _ _ c'])
qed (use r in \<open>cases ch; simp add: notify_step_def\<close>)

end
