(* ===== verification/Queue2_Poll.thy ===== *)
theory Queue2_Poll imports Queue2_Wait begin

text \<open>
  The polls of \<open>WaitFuture\<close> of \<open>src/futex2/mod.rs\<close>: every step keeps the invariant, or has a
  fault that is stated here; in particular \<open>poll_waiting\<close> does not reach its \<open>unreachable!()\<close>.
\<close>

fun wait_pc_ok :: "wait2 \<Rightarrow> bool" where
  "wait_pc_ok (WCas cx a) = atom2_ok a"
| "wait_pc_ok (WNotify x) = notify_pc_ok x"
| "wait_pc_ok (PTry g i waker current) = (claimed2 current \<or> current = BTombstone)"
| "wait_pc_ok _ = True"

text \<open>The next number of a bucket is too large for a half word.\<close>

definition full2 :: "queue2 \<Rightarrow> ptr \<Rightarrow> usize_half \<Rightarrow> bool" where
  "full2 Q g i \<longleftrightarrow> (case q2_boxes Q g of None \<Rightarrow> False | Some bs \<Rightarrow> 2 ^ 32 \<le> unat i + length bs)"

definition wait_good2 :: "(tid \<Rightarrow> role2) \<Rightarrow> tid \<Rightarrow> (wait2 \<times> queue2) res \<Rightarrow> bool" where
  "wait_good2 R t r \<longleftrightarrow>
     (\<exists>w Q c. r = Inr (w, Q) \<and> wait_pc_ok w \<and> queue2_ok Q c (R(t := wait2_role w)))"

lemma wait_good2I:
  "wait_pc_ok w \<Longrightarrow> queue2_ok Q c (R(t := wait2_role w)) \<Longrightarrow> wait_good2 R t (Inr (w, Q))"
  by (auto simp: wait_good2_def)

lemma wait_stays:
  "queue2_ok Q c R \<Longrightarrow> R t = wait2_role w \<Longrightarrow> wait_pc_ok w \<Longrightarrow> wait_good2 R t (Inr (w, Q))"
  by (rule wait_good2I [of _ _ c]) (simp_all add: fun_upd_idem)

lemma ticket_known: "queue2_ok Q c R \<Longrightarrow> R t = ticket_role g i k \<Longrightarrow> g \<in> known2 Q"
  using refs2D(1) [OF queue2_okD(3), of Q c R t] by simp

section \<open>A number and its bucket\<close>

lemma enter_cas_good:
  assumes ok: "queue2_ok Q c R" and t: "R t = no_role" and a: "atom2_ok a" "unat (a2_waits a) + 1 < 2 ^ 32"
  shows "wait_good2 R t (enter_cas spurious Q cx a)"
proof -
  let ?a = "q2_atom Q" and ?w = "a2_waits a + 1"
  have plus: "checked_plus (a2_waits a) 1 = Inr ?w" using a(2) by (simp add: checked_plus_def)
  have w: "unat ?w = Suc (unat (a2_waits a))" using a(2) by (simp add: unat_word_ariths)
  show ?thesis
  proof (cases "?a = a \<and> \<not> spurious")
    case True
    then have eq: "?a = a" by simp
    let ?g = "a2_generation a" and ?i = "a2_waits a"
    have cur: "?g = cur2 Q" using True by (simp add: cur2_def)
    then have g: "?g \<in> known2 Q" by (simp add: known2_def)
    obtain bs where bs: "q2_boxes Q ?g = Some bs" "bs \<noteq> []" by (rule known_boxes [OF ok g])
    have "queue2_ok (Q\<lparr>q2_atom := a\<lparr>a2_waits := ?w\<rparr>\<rparr>) c (R(t := ticket_role ?g ?i False))"
    proof (rule queue2_atom [OF ok])
      show "atom2_ok (a\<lparr>a2_waits := ?w\<rparr>)"
        using a w by (simp add: atom2_ok_def word_le_nat_alt)
      fix bs assume ring: "ring2 bs c (unat (a2_waits ?a)) (unat (a2_notifies ?a))
         (tick (cur2 Q) \<circ> R) (pend (cur2 Q) \<circ> R) (alive2 (exps R) (cur2 Q))"
      have "(pend (cur2 Q) \<circ> R)(t := None) = pend (cur2 Q) \<circ> R" using t by (simp add: fun_upd_idem)
      then show "ring2 bs c (unat (a2_waits (a\<lparr>a2_waits := ?w\<rparr>))) (unat (a2_notifies (a\<lparr>a2_waits := ?w\<rparr>)))
         ((tick (cur2 Q) \<circ> R)(t := tick (cur2 Q) (ticket_role ?g ?i False)))
         ((pend (cur2 Q) \<circ> R)(t := pend (cur2 Q) (ticket_role ?g ?i False))) (alive2 (exps R) (cur2 Q))"
        using ring2_enter [OF ring, of t] t eq cur w by simp
    qed (use g cur t in auto)
    moreover have "enter_cas spurious Q cx a =
        Inr (WTry ?g ?i cx (BEmpty ?i), clone2 (Q\<lparr>q2_atom := a\<lparr>a2_waits := ?w\<rparr>\<rparr>) cx)"
      using True plus bs
      by (simp add: enter_cas_def atom2_cas_def Let_def get_generation_def generation_index_def)
    ultimately show ?thesis using a(2) by (auto intro!: wait_good2I [of _ _ c])
  next
    case False
    have "wait_good2 R t (Inr (WCas cx ?a, Q))"
      using ok t shape2D(1) [OF queue2_okD(1) [OF ok]] by (intro wait_stays) simp_all
    moreover have "enter_cas spurious Q cx a = Inr (WCas cx ?a, Q)"
      using False plus by (auto simp: enter_cas_def atom2_cas_def Let_def)
    ultimately show ?thesis by simp
  qed
qed

lemma next_empty_known:
  assumes "queue2_ok Q c R" "g \<in> known2 Q" "\<not> full2 Q g i"
  obtains bs j where "q2_boxes Q g = Some bs" "next_empty Q g i = Inr (BEmpty j)" "unat j = unat i + length bs"
proof -
  obtain bs where bs: "q2_boxes Q g = Some bs" "length bs < 2 ^ 32" by (rule known_boxes [OF assms(1,2)])
  let ?n = "of_nat (length bs) :: usize_half"
  have n: "unat ?n = length bs" using bs(2) by (simp add: unat_of_nat take_bit_nat_eq_self)
  then have "unat i + unat ?n < 2 ^ 32" using assms(3) bs by (simp add: full2_def)
  then have "checked_plus i ?n = Inr (i + ?n)" "unat (i + ?n) = unat i + length bs"
    using n by (simp_all add: checked_plus_def unat_word_ariths)
  then show thesis using that [OF bs(1)] bs(1) by (simp add: next_empty_def get_generation_def)
qed

text \<open>A step of the loops over a bucket: it fails, and sees the bucket, or it changes the bucket.\<close>

lemma wait_cas_good:
  assumes ok: "queue2_ok Q c R" and t: "R t = ticket_role g i k" and cur: "current \<noteq> BTombstone"
    and fail: "\<And>bs. q2_boxes Q g = Some bs \<Longrightarrow> wait2_role (again (bs ! (unat i mod length bs))) = R t \<and>
      wait_pc_ok (again (bs ! (unat i mod length bs)))"
    and hit: "\<And>bs. g = cur2 Q \<Longrightarrow> q2_boxes Q (cur2 Q) = Some bs \<Longrightarrow> bs ! (unat i mod length bs) = current \<Longrightarrow>
      ring2 bs c (unat (a2_waits (q2_atom Q))) (unat (a2_notifies (q2_atom Q)))
        (tick (cur2 Q) \<circ> R) (pend (cur2 Q) \<circ> R) (alive2 (exps R) (cur2 Q)) \<Longrightarrow>
      \<exists>c'. ring2 (bs[unat i mod length bs := new]) c' (unat (a2_waits (q2_atom Q))) (unat (a2_notifies (q2_atom Q)))
        ((tick (cur2 Q) \<circ> R)(t := tick (cur2 Q) (wait2_role w))) (pend (cur2 Q) \<circ> R) (alive2 (exps R) (cur2 Q))"
    and w: "wait2_role w = ticket_role g i True \<or> wait2_role w = no_role" "wait_pc_ok w"
    and after: "\<And>Q c R. queue2_ok (after Q) c R = queue2_ok Q c R"
  shows "wait_good2 R t (bindR (bucket_cas spurious Q g i current new) (\<lambda>(ok, current, Q).
     Inr (if ok then (w, after Q) else (again current, Q))))"
proof -
  have g: "g \<in> known2 Q" by (rule ticket_known [OF ok t])
  from ok g cur show ?thesis
  proof (cases rule: bucket_cas_known [where spurious = spurious and i = i and new = new])
    case (fail bs)
    then show ?thesis using assms(4) [OF fail(1)] wait_stays [OF ok] by simp
  next
    case (hit bs)
    let ?b = "unat i mod length bs"
    obtain c' where c': "ring2 (bs[?b := new]) c' (unat (a2_waits (q2_atom Q))) (unat (a2_notifies (q2_atom Q)))
        ((tick (cur2 Q) \<circ> R)(t := tick (cur2 Q) (wait2_role w))) (pend (cur2 Q) \<circ> R) (alive2 (exps R) (cur2 Q))"
      using assms(5) [OF hit(1,2,4) queue2_okD(4) [OF ok hit(2), unfolded current2_def]] by blast
    have p: "(pend (cur2 Q) \<circ> R)(t := pend (cur2 Q) (wait2_role w)) = pend (cur2 Q) \<circ> R"
      using t w(1) by (auto simp: fun_upd_idem)
    have "queue2_ok (put_bucket Q (cur2 Q) bs ?b new) c' (R(t := wait2_role w))"
    proof (rule queue2_bucket [OF ok hit(2,3)])
      show "ring2 (bs[?b := new]) c' (unat (a2_waits (q2_atom Q))) (unat (a2_notifies (q2_atom Q)))
        ((tick (cur2 Q) \<circ> R)(t := tick (cur2 Q) (wait2_role w)))
        ((pend (cur2 Q) \<circ> R)(t := pend (cur2 Q) (wait2_role w))) (alive2 (exps R) (cur2 Q))"
        unfolding p by (rule c')
    qed (use w(1) t g hit(4) cur in auto)
    then show ?thesis using hit(5) w(2) after by (auto intro: wait_good2I)
  qed
qed

lemma enter_try_good:
  assumes ok: "queue2_ok Q c R" and t: "R t = ticket_role g i False" and i: "current = BWoken i \<longrightarrow> \<not> full2 Q g i"
  shows "wait_good2 R t (enter_try spurious Q g i waker current)"
proof -
  have g: "g \<in> known2 Q" by (rule ticket_known [OF ok t])
  have expand: "wait_good2 R t (Inr (WExpand (ELock g), drop2 Q waker))"
    using queue2_to_lock [OF ok, of t g] g t by (intro wait_good2I [of _ _ c]) auto
  show ?thesis
  proof (cases current)
    case (BEmpty j)
    have "wait_good2 R t (bindR (bucket_cas spurious Q g i current (BWaiting waker)) (\<lambda>(ok, current, Q).
       Inr (if ok then (WCond g i waker, Q) else (WTry g i waker current, Q))))" if j: "j = i"
    proof (rule wait_cas_good [OF ok t, where after = "\<lambda>Q. Q"])
      fix bs assume h: "g = cur2 Q" "bs ! (unat i mod length bs) = current"
        "ring2 bs c (unat (a2_waits (q2_atom Q))) (unat (a2_notifies (q2_atom Q)))
          (tick (cur2 Q) \<circ> R) (pend (cur2 Q) \<circ> R) (alive2 (exps R) (cur2 Q))"
      then show "\<exists>c'. ring2 (bs[unat i mod length bs := BWaiting waker]) c' (unat (a2_waits (q2_atom Q)))
          (unat (a2_notifies (q2_atom Q))) ((tick (cur2 Q) \<circ> R)(t := tick (cur2 Q) (wait2_role (WCond g i waker))))
          (pend (cur2 Q) \<circ> R) (alive2 (exps R) (cur2 Q))"
        using ring2_claim [OF h(3), of t "unat i" j waker] t BEmpty j by auto
    qed (use BEmpty t in auto)
    then show ?thesis
      using BEmpty expand by (auto simp: enter_try_def Let_def if_distrib [of "\<lambda>x. (x, _)"])
  next
  case (BWoken j)
    show ?thesis
    proof (cases "j = i")
      case True
      obtain bs' k where k: "q2_boxes Q g = Some bs'" "next_empty Q g i = Inr (BEmpty k)" "unat k = unat i + length bs'"
        by (rule next_empty_known [OF ok g]) (use i BWoken True in simp)
      have "wait_good2 R t (bindR (bucket_cas spurious Q g i current (BEmpty k)) (\<lambda>(ok, current, Q).
         Inr (if ok then (WReady, drop2 Q waker) else (WTry g i waker current, Q))))"
      proof (rule wait_cas_good [OF ok t])
        fix bs assume h: "g = cur2 Q" "q2_boxes Q (cur2 Q) = Some bs" "bs ! (unat i mod length bs) = current"
          "ring2 bs c (unat (a2_waits (q2_atom Q))) (unat (a2_notifies (q2_atom Q)))
            (tick (cur2 Q) \<circ> R) (pend (cur2 Q) \<circ> R) (alive2 (exps R) (cur2 Q))"
        then show "\<exists>c'. ring2 (bs[unat i mod length bs := BEmpty k]) c' (unat (a2_waits (q2_atom Q)))
            (unat (a2_notifies (q2_atom Q))) ((tick (cur2 Q) \<circ> R)(t := tick (cur2 Q) (wait2_role WReady)))
            (pend (cur2 Q) \<circ> R) (alive2 (exps R) (cur2 Q))"
          using ring2_leave [OF h(4), of t "unat i" False k] t BWoken True k by auto
      qed (use BWoken t in auto)
      then show ?thesis using BWoken True k(2) by (simp add: enter_try_def Let_def)
    next
      case False
      then show ?thesis using BWoken expand by (simp add: enter_try_def Let_def)
    qed
  qed (use expand in \<open>simp_all add: enter_try_def Let_def\<close>)
qed

text \<open>What a pending waiter sees in its bucket.\<close>

lemma waiting_sees:
  assumes ok: "queue2_ok Q c R" and t: "R t = ticket_role g i True" and bs: "q2_boxes Q g = Some bs"
  shows "claimed2 (bs ! (unat i mod length bs)) \<or> bs ! (unat i mod length bs) = BTombstone"
proof (cases "g = cur2 Q")
  case True
  note ring = queue2_okD(4) [OF ok, of bs, unfolded current2_def]
  show ?thesis
    using ring2D(6) [OF ring, of t "unat i" True] True bs t by (auto simp: ticket2_ok_def)
next
  case False
  have "length bs \<noteq> 0" using shape2D(4) [OF queue2_okD(1) [OF ok] bs] by simp
  then show ?thesis
    using known_dead [OF ok ticket_known [OF ok t] False bs] by (simp add: dead2_def)
qed

lemma waiting_try_good:
  assumes ok: "queue2_ok Q c R" and t: "R t = ticket_role g i True" and i: "current = BWaking \<longrightarrow> \<not> full2 Q g i"
    and sees: "claimed2 current \<or> current = BTombstone"
  shows "wait_good2 R t (waiting_try spurious Q g i waker current)"
proof (cases current)
  case (BWaiting old)
  have "wait_good2 R t (bindR (bucket_cas spurious Q g i current (BWaiting waker)) (\<lambda>(ok, current, Q).
     Inr (if ok then (WPend g i, drop2 Q old) else (PTry g i waker current, Q))))"
  proof (rule wait_cas_good [OF ok t])
    fix bs assume h: "g = cur2 Q" "q2_boxes Q (cur2 Q) = Some bs" "bs ! (unat i mod length bs) = current"
      and ring: "ring2 bs c (unat (a2_waits (q2_atom Q))) (unat (a2_notifies (q2_atom Q)))
        (tick (cur2 Q) \<circ> R) (pend (cur2 Q) \<circ> R) (alive2 (exps R) (cur2 Q))"
    have "(tick (cur2 Q) \<circ> R)(t := tick (cur2 Q) (wait2_role (WPend g i))) = tick (cur2 Q) \<circ> R"
      using t by (simp add: fun_upd_idem)
    then show "\<exists>c'. ring2 (bs[unat i mod length bs := BWaiting waker]) c' (unat (a2_waits (q2_atom Q)))
        (unat (a2_notifies (q2_atom Q))) ((tick (cur2 Q) \<circ> R)(t := tick (cur2 Q) (wait2_role (WPend g i))))
        (pend (cur2 Q) \<circ> R) (alive2 (exps R) (cur2 Q))"
      using ring2_again [OF ring, of "unat i mod length bs" old waker] ring2D(2) [OF ring] h BWaiting by auto
  qed (use BWaiting t waiting_sees [OF ok t] in auto)
  then show ?thesis using BWaiting by (simp add: waiting_try_def)
next
  case BWaking
  obtain bs' k where k: "q2_boxes Q g = Some bs'" "next_empty Q g i = Inr (BEmpty k)" "unat k = unat i + length bs'"
    by (rule next_empty_known [OF ok ticket_known [OF ok t]]) (use i BWaking in simp)
  have "wait_good2 R t (bindR (bucket_cas spurious Q g i current (BEmpty k)) (\<lambda>(ok, current, Q).
     Inr (if ok then (WReady, drop2 Q waker) else (PTry g i waker current, Q))))"
  proof (rule wait_cas_good [OF ok t])
    fix bs assume h: "g = cur2 Q" "q2_boxes Q (cur2 Q) = Some bs" "bs ! (unat i mod length bs) = current"
      "ring2 bs c (unat (a2_waits (q2_atom Q))) (unat (a2_notifies (q2_atom Q)))
        (tick (cur2 Q) \<circ> R) (pend (cur2 Q) \<circ> R) (alive2 (exps R) (cur2 Q))"
    then show "\<exists>c'. ring2 (bs[unat i mod length bs := BEmpty k]) c' (unat (a2_waits (q2_atom Q)))
        (unat (a2_notifies (q2_atom Q))) ((tick (cur2 Q) \<circ> R)(t := tick (cur2 Q) (wait2_role WReady)))
        (pend (cur2 Q) \<circ> R) (alive2 (exps R) (cur2 Q))"
      using ring2_leave [OF h(4), of t "unat i" True k] t BWaking k by auto
  qed (use BWaking t waiting_sees [OF ok t] in auto)
  then show ?thesis using BWaking k(2) by (simp add: waiting_try_def)
next
  case BTombstone
  then show ?thesis
    using queue2_to_lock [OF ok, of t g] ticket_known [OF ok t] t
    by (auto simp: waiting_try_def intro!: wait_good2I [of _ _ c])
qed (use sees in simp_all)

section \<open>Every step of a poll\<close>

text \<open>The only faults: the sums with the numbers of waiters, and those of a notification or an expansion.\<close>

definition wait2_fault :: "choice2 \<Rightarrow> queue2 \<Rightarrow> wait2 \<Rightarrow> fault option" where
  "wait2_fault ch Q w =
     (case (w, ch) of
        (WCas cx a, Go _) \<Rightarrow> if 2 ^ 32 \<le> unat (a2_waits a) + 1 then Some Overflow else None
      | (WTry g i waker (BWoken j), Go _) \<Rightarrow> if j = i \<and> full2 Q g i then Some Overflow else None
      | (PTry g i waker BWaking, Go _) \<Rightarrow> if full2 Q g i then Some Overflow else None
      | (WNotify x, _) \<Rightarrow> notify_fault ch x
      | (WExpand e, _) \<Rightarrow> expand_fault ch e
      | (PExpand e waker, _) \<Rightarrow> expand_fault ch e
      | _ \<Rightarrow> None)"

lemma next_empty_full:
  assumes ok: "queue2_ok Q c R" and full: "full2 Q g i"
  shows "next_empty Q g i = Inl Overflow"
proof -
  obtain bs where bs: "q2_boxes Q g = Some bs" "2 ^ 32 \<le> unat i + length bs"
    using full by (auto simp: full2_def split: option.splits)
  have "unat (of_nat (length bs) :: usize_half) = length bs"
    using shape2D(4) [OF queue2_okD(1) [OF ok] bs(1)] by (simp add: unat_of_nat take_bit_nat_eq_self)
  then have "checked_plus i (of_nat (length bs)) = Inl Overflow" using bs(2) by (simp add: checked_plus_def)
  then show ?thesis using bs(1) by (simp add: next_empty_def get_generation_def)
qed

lemma wait2_step_fault:
  assumes ok: "queue2_ok Q c R" and t: "R t = wait2_role w"
    and x: "wait2_fault ch Q w = Some x" and r: "wait2_step t ch Q w = Some r"
  shows "r = Inl x"
proof (cases w)
  case (WCas cx a)
  then show ?thesis
    using x r by (cases ch) (auto simp: wait2_step_def wait2_fault_def enter_cas_def checked_plus_def split: if_splits)
next
  case (WTry g i waker current)
  then show ?thesis
    using x r next_empty_full [OF ok, of g i]
    by (cases ch; cases current) (auto simp: wait2_step_def wait2_fault_def enter_try_def Let_def split: if_splits)
next
  case (PTry g i waker current)
  then show ?thesis
    using x r next_empty_full [OF ok, of g i]
    by (cases ch; cases current) (auto simp: wait2_step_def wait2_fault_def waiting_try_def split: if_splits)
next
  case (WNotify y)
  then obtain r' where "notify_step t ch Q y = Some r'"
    "r = mapR (\<lambda>(x, Q). (if x = NDone then WReady else WNotify x, Q)) r'"
    using r by (cases ch) (auto simp: wait2_step_def)
  then show ?thesis using notify_step_fault [OF ok, of t y ch x r'] t x WNotify by (simp add: wait2_fault_def)
next
  case (WExpand e)
  then obtain r' where "expand_step t ch Q e = Some r'"
    "r = mapR (\<lambda>(e, Q). (if e = EDone then WReady else WExpand e, Q)) r'"
    using r by (cases ch) (auto simp: wait2_step_def)
  then show ?thesis using expand_step_fault [OF ok, of t e ch x r'] t x WExpand by (simp add: wait2_fault_def)
next
  case (PExpand e waker)
  then obtain r' where "expand_step t ch Q e = Some r'"
    "r = mapR (\<lambda>(e, Q). if e = EDone then (WReady, drop2 Q waker) else (PExpand e waker, Q)) r'"
    using r by (cases ch) (auto simp: wait2_step_def)
  then show ?thesis using expand_step_fault [OF ok, of t e ch x r'] t x PExpand by (simp add: wait2_fault_def)
qed (use x in \<open>simp_all add: wait2_fault_def\<close>)

theorem wait2_step_good:
  assumes ok: "queue2_ok Q c R" and t: "R t = wait2_role w" and pc: "wait_pc_ok w"
    and small: "wait2_small ch w" "wait2_fault ch Q w = None" and r: "wait2_step t ch Q w = Some r"
  shows "wait_good2 R t r"
proof (cases w)
  case (WLoad cx)
  then have "wait_good2 R t (Inr (WCas cx (q2_atom Q), Q))"
    using ok t shape2D(1) [OF queue2_okD(1) [OF ok]] by (intro wait_stays) simp_all
  then show ?thesis using r WLoad by (cases ch) (auto simp: wait2_step_def)
next
  case (WCas cx a)
  then show ?thesis
    using r pc t small enter_cas_good [OF ok] by (cases ch) (auto simp: wait2_step_def wait2_fault_def split: if_splits)
next
  case (WTry g i waker current)
  then show ?thesis using r pc t small enter_try_good [OF ok]
    by (cases ch; cases current) (auto simp: wait2_step_def wait2_fault_def split: if_splits)
next
  case (WCond g i waker)
  have "wait_good2 R t (Inr (WPend g i, Q))" using ok t pc WCond by (intro wait_stays) simp_all
  moreover have "queue2_ok Q c (R(t := no_role))" using queue2_forget [OF ok, of t] t WCond by simp
  then have "wait_good2 R t (Inr (WNotify (NLoad 1), Q))" by (intro wait_good2I [of _ _ c]) simp_all
  ultimately show ?thesis using r WCond by (cases ch) (auto simp: wait2_step_def)
next
  case (WNotify x)
  then obtain r' where r': "notify_step t ch Q x = Some r'"
    "r = mapR (\<lambda>(x, Q). (if x = NDone then WReady else WNotify x, Q)) r'"
    using r by (cases ch) (auto simp: wait2_step_def)
  have "notify_good R t r'"
    using notify_step_good [OF ok _ _ _ _ r'(1)] t WNotify pc small by (simp add: wait2_small_def wait2_fault_def)
  then obtain x' Q' c' where "r' = Inr (x', Q')" "notify_pc_ok x'" "queue2_ok Q' c' (R(t := notify_role x'))"
    by (auto simp: notify_good_def)
  then show ?thesis using r'(2) by (cases "x' = NDone") (auto intro!: wait_good2I [of _ _ c'])
next
  case (WExpand e)
  then obtain r' where r': "expand_step t ch Q e = Some r'"
    "r = mapR (\<lambda>(e, Q). (if e = EDone then WReady else WExpand e, Q)) r'"
    using r by (cases ch) (auto simp: wait2_step_def)
  have "expand_good R t r'"
    using expand_step_good [OF ok _ _ _ r'(1)] t WExpand small by (simp add: wait2_small_def wait2_fault_def)
  then obtain e' Q' c' where "r' = Inr (e', Q')" "queue2_ok Q' c' (R(t := exp_role e'))"
    by (auto simp: expand_good_def)
  moreover have "exp_role EDone = no_role" by (simp add: exp_role_def)
  ultimately show ?thesis using r'(2) by (cases "e' = EDone") (auto intro!: wait_good2I [of _ _ c'])
next
  case (PLoad g i cx)
  have g: "g \<in> known2 Q" using ticket_known [OF ok, of t g i True] t PLoad by simp
  obtain bs where bs: "q2_boxes Q g = Some bs" "bucket_load Q g i = Inr (bs ! (unat i mod length bs))"
    by (rule bucket_load_known [OF ok g])
  have "bucket_load (clone2 Q cx) g i = bucket_load Q g i"
    by (simp add: bucket_load_def get_generation_def clone2_def)
  moreover have "queue2_ok Q c (R(t := ticket_role g i True))" using ok t PLoad by (simp add: fun_upd_idem)
  ultimately show ?thesis
    using r PLoad bs pc waiting_sees [OF ok _ bs(1), of t i] t
    by (cases ch) (auto simp: wait2_step_def intro!: wait_good2I [of _ _ c])
next
  case (PTry g i waker current)
  then show ?thesis using r pc t small waiting_try_good [OF ok]
    by (cases ch; cases current) (auto simp: wait2_step_def wait2_fault_def split: if_splits)
next
  case (PExpand e waker)
  then obtain r' where r': "expand_step t ch Q e = Some r'"
    "r = mapR (\<lambda>(e, Q). if e = EDone then (WReady, drop2 Q waker) else (PExpand e waker, Q)) r'"
    using r by (cases ch) (auto simp: wait2_step_def)
  have "expand_good R t r'"
    using expand_step_good [OF ok _ _ _ r'(1)] t PExpand small by (simp add: wait2_small_def wait2_fault_def)
  then obtain e' Q' c' where "r' = Inr (e', Q')" "queue2_ok Q' c' (R(t := exp_role e'))"
    by (auto simp: expand_good_def)
  moreover have "exp_role EDone = no_role" by (simp add: exp_role_def)
  ultimately show ?thesis using r'(2) by (cases "e' = EDone") (auto intro!: wait_good2I [of _ _ c'])
qed (use r in \<open>cases ch; simp add: wait2_step_def\<close>)+

section \<open>The tasks on a queue\<close>

fun q2_pc_ok :: "q2_pc \<Rightarrow> bool" where
  "q2_pc_ok (Q2Poll w) = wait_pc_ok w"
| "q2_pc_ok (Q2Notify x) = notify_pc_ok x"
| "q2_pc_ok _ = True"

text \<open>
  The faults of a task: those of its polls and notifications, and what it must not do with a future,
  to poll it after it was ready, and to drop it while it is suspended.
\<close>

definition q2_fault :: "q2_act \<Rightarrow> queue2 \<Rightarrow> q2_pc \<Rightarrow> fault option" where
  "q2_fault act Q p =
     (case (p, act) of
        (Q2Future Done2, APoll _) \<Rightarrow> Some Panic
      | (Q2Future (Waiting2 _ _), ADrop) \<Rightarrow> Some Todo
      | (Q2Poll w, AStep ch) \<Rightarrow> wait2_fault ch Q w
      | (Q2Notify x, AStep ch) \<Rightarrow> notify_fault ch x
      | _ \<Rightarrow> None)"

definition q2_inv :: "q2_state \<Rightarrow> bool" where
  "q2_inv s \<longleftrightarrow> (\<exists>c. queue2_ok (q2_queue s) c (q2_role \<circ> q2_pcs s)) \<and> (\<forall>t. q2_pc_ok (q2_pcs s t))"

lemma settle_ok [simp]:
  "q2_pc_ok (wait2_settle w) = wait_pc_ok w" "q2_pc_ok (notify2_settle x) = notify_pc_ok x"
  by (cases w; simp add: wait2_settle_def) (cases x; simp add: notify2_settle_def)

lemma q2_invI:
  "queue2_ok Q c ((q2_role \<circ> q2_pcs s)(t := q2_role p)) \<Longrightarrow> q2_pc_ok p \<Longrightarrow> (\<And>u. q2_pc_ok (q2_pcs s u)) \<Longrightarrow>
     q2_inv \<lparr>q2_queue = Q, q2_pcs = (q2_pcs s)(t := p)\<rparr>"
  by (auto simp: q2_inv_def fun_upd_comp)

lemma q2_task_fault:
  assumes ok: "queue2_ok Q c (q2_role \<circ> pcs)"
    and x: "q2_fault act Q (pcs t) = Some x" and r: "q2_task t act Q (pcs t) = Some r"
  shows "r = Inl x"
proof (cases "pcs t")
  case (Q2Future step)
  then show ?thesis
    using x r by (cases act; cases step) (auto simp: q2_fault_def q2_task_def wait2_poll_def wait2_drop_def)
next
  case (Q2Poll w)
  then obtain ch r' where r': "act = AStep ch" "wait2_step t ch Q w = Some r'"
      "r = mapR (\<lambda>(w, Q). (wait2_settle w, Q)) r'"
    using r by (cases act) (auto simp: q2_task_def)
  then show ?thesis using wait2_step_fault [OF ok _ _ r'(2)] x Q2Poll by (simp add: q2_fault_def)
next
  case (Q2Notify y)
  then obtain ch r' where r': "act = AStep ch" "notify_step t ch Q y = Some r'"
      "r = mapR (\<lambda>(x, Q). (notify2_settle x, Q)) r'"
    using r by (cases act) (auto simp: q2_task_def)
  then show ?thesis using notify_step_fault [OF ok _ _ r'(2)] x Q2Notify by (simp add: q2_fault_def)
qed (use x in \<open>simp add: q2_fault_def\<close>)

lemma q2_task_good:
  assumes ok: "queue2_ok Q c (q2_role \<circ> pcs)" and pc: "q2_pc_ok (pcs t)"
    and small: "q2_allowed act (pcs t)" "q2_fault act Q (pcs t) = None"
    and r: "q2_task t act Q (pcs t) = Some r"
  shows "\<exists>p Q' c'. r = Inr (p, Q') \<and> q2_pc_ok p \<and> queue2_ok Q' c' ((q2_role \<circ> pcs)(t := q2_role p))"
proof (cases "pcs t")
  case Q2Idle
  then have "queue2_ok Q c ((q2_role \<circ> pcs)(t := no_role))" using ok by (simp add: fun_upd_idem)
  then show ?thesis using r Q2Idle by (cases act) (auto simp: q2_task_def)
next
  case (Q2Future step)
  have "queue2_ok Q c ((q2_role \<circ> pcs)(t := future2_role step))" using ok Q2Future by (simp add: fun_upd_idem)
  then show ?thesis
    using r Q2Future small pc by (cases act; cases step) (auto simp: q2_task_def q2_fault_def wait2_poll_def wait2_drop_def)
next
  case (Q2Poll w)
  then obtain ch r' where r': "act = AStep ch" "wait2_step t ch Q w = Some r'"
      "r = mapR (\<lambda>(w, Q). (wait2_settle w, Q)) r'"
    using r by (cases act) (auto simp: q2_task_def)
  have "wait_good2 (q2_role \<circ> pcs) t r'"
    using wait2_step_good [OF ok _ _ _ _ r'(2)] Q2Poll pc small r'(1) by (simp add: q2_allowed_def q2_fault_def)
  then show ?thesis using r'(3) by (auto simp: wait_good2_def)
next
  case (Q2Notify x)
  then obtain ch r' where r': "act = AStep ch" "notify_step t ch Q x = Some r'"
      "r = mapR (\<lambda>(x, Q). (notify2_settle x, Q)) r'"
    using r by (cases act) (auto simp: q2_task_def)
  have "notify_good (q2_role \<circ> pcs) t r'"
    using notify_step_good [OF ok _ _ _ _ r'(2)] Q2Notify pc small r'(1) by (simp add: q2_allowed_def q2_fault_def)
  then show ?thesis using r'(3) by (auto simp: notify_good_def)
qed

lemma q2_init_inv:
  assumes "q2_init cap s"
  shows "q2_inv s"
proof -
  obtain addr where cap: "0 < cap" "cap < 2 ^ 32" and s: "s = \<lparr>q2_queue =
      \<lparr>q2_atom = \<lparr>a2_generation = addr, a2_waits = 0, a2_notifies = 0\<rparr>,
        q2_boxes = [addr \<mapsto> map (\<lambda>i. BEmpty (of_nat i)) [0..<cap]], q2_generations = [addr], q2_guard = None,
        q2_clones = [], q2_wakes = [], q2_drops = []\<rparr>, q2_pcs = (\<lambda>_. Q2Idle)\<rparr>"
    using assms by (auto simp: q2_init_def with_capacity_def generation_new_def)
  have idle: "q2_role \<circ> q2_pcs s = (\<lambda>_. no_role)" using s by auto
  have "ring2 (map (\<lambda>i. BEmpty (of_nat i)) [0..<cap]) (\<lambda>b. b) 0 0 (\<lambda>_. None) (\<lambda>_. None) True"
    using cap by (intro ring2_new) simp_all
  then have "queue2_ok (q2_queue s) (\<lambda>b. b) (q2_role \<circ> q2_pcs s)"
    unfolding idle using s cap
    by (auto simp: queue2_ok_def shape2_def atom2_ok_def phase2_def refs2_def current2_def cur2_def known2_def
        exps_def alive2_def comp_def split: if_splits)
  then show ?thesis using s by (auto simp: q2_inv_def)
qed

interpretation q2: returning_system "q2_init cap" q2_machine q2_inv for cap
proof
  show "q2_inv s" if "q2_init cap s" for s using q2_init_inv [OF that] .
next
  fix s e s' assume inv: "q2_inv s" and s': "q2_machine e s = Some (Inr s')"
  obtain t act where e: "e = (t, act)" by (cases e)
  obtain c where ok: "queue2_ok (q2_queue s) c (q2_role \<circ> q2_pcs s)" and pc: "\<And>u. q2_pc_ok (q2_pcs s u)"
    using inv by (auto simp: q2_inv_def)
  obtain r where r: "q2_allowed act (q2_pcs s t)" "q2_task t act (q2_queue s) (q2_pcs s t) = Some r"
    "Inr s' = mapR (\<lambda>(p, Q). \<lparr>q2_queue = Q, q2_pcs = (q2_pcs s)(t := p)\<rparr>) r"
    using s' e by (auto simp: q2_machine_def q2_step_def split: if_splits)
  have "q2_fault act (q2_queue s) (q2_pcs s t) = None"
    using q2_task_fault [OF ok _ r(2)] r(3) by (cases "q2_fault act (q2_queue s) (q2_pcs s t)") auto
  from q2_task_good [OF ok pc r(1) this r(2)] show "q2_inv s'" using r(3) pc by (fastforce intro!: q2_invI)
qed

end
