(* ===== verification/Queue2_Spec.thy ===== *)
theory Queue2_Spec imports Queue2_Poll begin

text \<open>
  What the queue of \<open>src/futex2/mod.rs\<close> promises, for any number of tasks that wait and notify in
  any interleaving, with conditions that have any result.
\<close>

section \<open>Faults\<close>

text \<open>The step that \<open>q2_machine\<close> leaves out, to a generation of \<open>2 ^ 32\<close> buckets, does not fault.\<close>

lemma expand_large:
  assumes ok: "queue2_ok Q c R" and t: "R t = exp_role e" and large: "\<not> expand_small ch e"
  shows "expand_step t ch Q e \<noteq> Some (Inl x)" "expand_fault ch e = None"
proof -
  obtain g i addr where e: "e = EScan g (2 ^ 32) i" "ch = Alloc addr"
    using large by (auto simp: expand_small_def split: expand2.splits choice2.splits)
  have "exps R t = Some e" using t e by (simp add: exps_def exp_role_def)
  then obtain bs where "q2_boxes Q g = Some bs"
    using phase2D(3) [OF queue2_okD(2) [OF ok], of t e] e by (auto simp: scan_ok_def)
  then show "expand_step t ch Q e \<noteq> Some (Inl x)"
    by (simp add: e expand_step_def get_generation_def expand_alloc_def generation_new_def)
  show "expand_fault ch e = None" by (simp add: e expand_fault_def)
qed

lemma notify_large:
  assumes ok: "queue2_ok Q c R" and t: "R t = notify_role x" and large: "\<not> notify_small ch x"
  shows "notify_step t ch Q x \<noteq> Some (Inl y)" "notify_fault ch x = None"
proof -
  obtain e where e: "x = NExpand e" "\<not> expand_small ch e"
    using large by (auto simp: notify_small_def split: notify2.splits)
  note large = expand_large [OF ok _ e(2), of t]
  show "notify_step t ch Q x \<noteq> Some (Inl y)"
    using large(1) [of y] t e
    by (cases ch; cases "expand_step t ch Q e") (auto simp: notify_step_def mapR_def bindR_def split: sum.splits)
  show "notify_fault ch x = None" using large(2) t e by (simp add: notify_fault_def)
qed

lemma wait2_large:
  assumes ok: "queue2_ok Q c R" and t: "R t = wait2_role w" and large: "\<not> wait2_small ch w"
  shows "wait2_step t ch Q w \<noteq> Some (Inl x)" "wait2_fault ch Q w = None"
proof -
  have "wait2_step t ch Q w \<noteq> Some (Inl x) \<and> wait2_fault ch Q w = None"
  proof (cases w)
    case (WNotify y)
    then have "\<not> notify_small ch y" using large by (simp add: wait2_small_def)
    from notify_large [OF ok _ this, of t] show ?thesis
      using WNotify t by (cases ch; cases "notify_step t ch Q y")
        (auto simp: wait2_step_def wait2_fault_def mapR_def bindR_def split: sum.splits)
  next
    case (WExpand e)
    then have "\<not> expand_small ch e" using large by (simp add: wait2_small_def)
    from expand_large [OF ok _ this, of t] show ?thesis
      using WExpand t by (cases ch; cases "expand_step t ch Q e")
        (auto simp: wait2_step_def wait2_fault_def mapR_def bindR_def split: sum.splits)
  next
    case (PExpand e k)
    then have "\<not> expand_small ch e" using large by (simp add: wait2_small_def)
    from expand_large [OF ok _ this, of t] show ?thesis
      using PExpand t by (cases ch; cases "expand_step t ch Q e")
        (auto simp: wait2_step_def wait2_fault_def mapR_def bindR_def split: sum.splits if_splits)
  qed (use large in \<open>simp_all add: wait2_small_def\<close>)
  then show "wait2_step t ch Q w \<noteq> Some (Inl x)" "wait2_fault ch Q w = None" by simp_all
qed

lemma q2_task_faults:
  assumes inv: "q2_inv s" and r: "q2_task t act (q2_queue s) (q2_pcs s t) = Some r"
  shows "r = Inl x \<longleftrightarrow> q2_fault act (q2_queue s) (q2_pcs s t) = Some x"
proof -
  obtain c where ok: "queue2_ok (q2_queue s) c (q2_role \<circ> q2_pcs s)" and pc: "q2_pc_ok (q2_pcs s t)"
    using inv by (auto simp: q2_inv_def)
  show ?thesis
  proof (cases "q2_fault act (q2_queue s) (q2_pcs s t)")
    case (Some y)
    then show ?thesis using q2_task_fault [OF ok Some r] by auto
  next
    case None
    have "r \<noteq> Inl x"
    proof (cases "q2_allowed act (q2_pcs s t)")
      case True
      then show ?thesis using q2_task_good [OF ok pc True None r] by auto
    next
      case False
      then consider w ch where "q2_pcs s t = Q2Poll w" "act = AStep ch" "\<not> wait2_small ch w"
        | y ch where "q2_pcs s t = Q2Notify y" "act = AStep ch" "\<not> notify_small ch y"
        by (auto simp: q2_allowed_def split: q2_pc.splits q2_act.splits)
      then show ?thesis
      proof cases
        case 1
        then show ?thesis
          using wait2_large(1) [OF ok _ 1(3), of t x] r
          by (cases "wait2_step t ch (q2_queue s) w"; cases r) (auto simp: q2_task_def mapR_def bindR_def split: sum.splits)
      next
        case 2
        then show ?thesis
          using notify_large(1) [OF ok _ 2(3), of t x] r
          by (cases "notify_step t ch (q2_queue s) y"; cases r) (auto simp: q2_task_def mapR_def bindR_def split: sum.splits)
      qed
    qed
    then show ?thesis using None by simp
  qed
qed

text \<open>
  C15: the faults of the queue: in every reachable state, a step of the code that can be taken fails
  exactly when \<open>q2_fault\<close> says so: when it polls a future that was ready, which is a \<open>panic!()\<close>;
  when it drops one that is suspended, which is a \<open>todo!()\<close>; when a number of the current generation,
  or the sum of the notifications made and to be made, does not fit into a half word; or when a
  generation of more than \<open>2 ^ 32\<close> buckets is to be made, which an assertion refuses. In particular
  \<open>poll_waiting\<close> does not reach its \<open>unreachable!()\<close>, and generations that were replaced can still
  be read.
\<close>

theorem queue2_no_fault:
  assumes "reach (q2_init cap) q2_machine s" "q2_step (t, act) s = Some r"
  shows "r = Inl x \<longleftrightarrow> q2_fault act (q2_queue s) (q2_pcs s t) = Some x"
proof -
  obtain r' where r': "q2_task t act (q2_queue s) (q2_pcs s t) = Some r'"
    "r = mapR (\<lambda>(p, Q). \<lparr>q2_queue = Q, q2_pcs = (q2_pcs s)(t := p)\<rparr>) r'"
    using assms(2) by (auto simp: q2_step_def)
  have "r = Inl x \<longleftrightarrow> r' = Inl x" using r'(2) by (cases r') auto
  then show ?thesis using q2_task_faults [OF q2.reach_inv [OF assms(1)] r'(1)] by simp
qed

lemma queue2_reach_ok:
  assumes "reach (q2_init cap) q2_machine s"
  obtains c where "queue2_ok (q2_queue s) c (q2_role \<circ> q2_pcs s)"
  using q2.reach_inv [OF assms] by (auto simp: q2_inv_def)

lemma queue2_ring:
  assumes ok: "queue2_ok Q c R" and g: "g \<in> known2 Q" and bs: "q2_boxes Q g = Some bs"
    and live: "b < length bs" "bs ! b \<noteq> BTombstone"
  shows "g = cur2 Q" "ring2 bs c (unat (a2_waits (q2_atom Q))) (unat (a2_notifies (q2_atom Q)))
    (tick g \<circ> R) (pend g \<circ> R) (alive2 (exps R) g)"
proof -
  show "g = cur2 Q" using known_dead [OF ok g _ bs] live by (auto simp: dead2_def)
  then show "ring2 bs c (unat (a2_waits (q2_atom Q))) (unat (a2_notifies (q2_atom Q)))
      (tick g \<circ> R) (pend g \<circ> R) (alive2 (exps R) g)"
    using queue2_okD(4) [OF ok, of bs] bs by (simp add: current2_def)
qed

section \<open>Notifications\<close>

text \<open>
  C14: no notification is lost: while a waiter is suspended, its bucket still holds its waker, and its
  number has been notified, some task has a notification in hand that is for this bucket and not
  yet delivered, or is about to replace the generation and to wake all its waiters.
\<close>

theorem queue2_no_lost_notification:
  assumes "reach (q2_init cap) q2_machine s" "q2_pcs s t = Q2Future (Waiting2 g i)"
    and "q2_boxes (q2_queue s) g = Some bs" "bs ! (unat i mod length bs) = BWaiting v"
    and "i < a2_notifies (q2_atom (q2_queue s))"
  shows "(\<exists>u lo hi j. r2_pend (q2_role (q2_pcs s u)) = Some (g, lo, hi) \<and> lo \<le> j \<and> j < hi \<and>
      j mod length bs = unat i mod length bs) \<or>
    (\<exists>u e. r2_exp (q2_role (q2_pcs s u)) = Some e \<and> exp_target e = Some g)"
proof -
  let ?R = "q2_role \<circ> q2_pcs s" and ?b = "unat i mod length bs" and ?Q = "q2_queue s"
  obtain c where ok: "queue2_ok ?Q c ?R" by (rule queue2_reach_ok [OF assms(1)])
  have t: "?R t = ticket_role g i True" using assms(2) by simp
  have b: "?b < length bs" "bs ! ?b \<noteq> BTombstone"
    using shape2D(4) [OF queue2_okD(1) [OF ok] assms(3)] assms(4) by simp_all
  note g = queue2_ring [OF ok ticket_known [OF ok t] assms(3) b]
  show ?thesis
  proof (cases "alive2 (exps ?R) g")
    case True
    have ring: "ring2 bs c (unat (a2_waits (q2_atom ?Q))) (unat (a2_notifies (q2_atom ?Q)))
        (tick g \<circ> ?R) (pend g \<circ> ?R) True"
      using g(2) True by simp
    obtain u j where "in_span j ((pend g \<circ> ?R) u)" "j mod length bs = ?b"
      using ring2_undelivered [OF ring, of t "unat i" v] t assms(4,5) by (auto simp: word_less_nat_alt)
    then show ?thesis by (auto simp: pend_def split: option.splits if_splits)
  next
    case False
    have "\<not> dead2 bs" using b by (auto simp: dead2_def)
    then have "exps ?R u \<noteq> Some (ESwap g')" for u g'
      using phase2D(3) [OF queue2_okD(2) [OF ok], of u "ESwap g'"] g(1) assms(3) by auto
    then obtain u e where "exps ?R u = Some e" "exp_target e = Some g" using False by (auto simp: alive2_def)
    then show ?thesis by (auto simp: exps_def)
  qed
qed

text \<open>The task is about to call a waker.\<close>

fun expand_calls :: "expand2 \<Rightarrow> copy_waker option" where
  "expand_calls (ECall g cap i waker) = Some waker"
| "expand_calls _ = None"

fun notify_calls :: "notify2 \<Rightarrow> copy_waker option" where
  "notify_calls (NCall g i n waker) = Some waker"
| "notify_calls (NExpand e) = expand_calls e"
| "notify_calls _ = None"

fun wait2_calls :: "wait2 \<Rightarrow> copy_waker option" where
  "wait2_calls (WNotify x) = notify_calls x"
| "wait2_calls (WExpand e) = expand_calls e"
| "wait2_calls (PExpand e waker) = expand_calls e"
| "wait2_calls _ = None"

fun q2_calls :: "q2_pc \<Rightarrow> copy_waker option" where
  "q2_calls (Q2Poll w) = wait2_calls w"
| "q2_calls (Q2Notify x) = notify_calls x"
| "q2_calls _ = None"

lemma settle_calls [simp]:
  "q2_calls (wait2_settle w) = wait2_calls w" "q2_calls (notify2_settle x) = notify_calls x"
  by (cases w; simp add: wait2_settle_def) (cases x; simp add: notify2_settle_def)

text \<open>What happens to a bucket that holds a waker.\<close>

definition kept :: "queue2 \<Rightarrow> queue2 \<Rightarrow> ptr \<Rightarrow> nat \<Rightarrow> copy_waker \<Rightarrow> bool" where
  "kept Q Q' g b v \<longleftrightarrow> (\<forall>bs. q2_boxes Q g = Some bs \<and> bs ! b = BWaiting v \<and> b < length bs \<longrightarrow>
     (\<exists>bs'. q2_boxes Q' g = Some bs' \<and> length bs' = length bs \<and> bs' ! b = BWaiting v))"

lemma kept_logs [simp]:
  "kept Q Q g b v" "kept Q (wake2 Q' k) g b v = kept Q Q' g b v" "kept Q (drop2 Q' k) g b v = kept Q Q' g b v"
  "kept Q (clone2 Q' k) g b v = kept Q Q' g b v"
  by (simp_all add: kept_def wake2_def drop2_def clone2_def)

lemma bucket_cas_kept:
  assumes "bucket_cas spurious Q g i current new = Inr (ok, x, Q')" "\<not> (ok \<and> current = BWaiting v)"
  shows "kept Q Q' g' b v"
  using assms
  by (fastforce simp: kept_def bucket_cas_def bindR_eq_Inr get_generation_def generation_index_def put_bucket_def
      nth_list_update split: option.splits if_splits)

lemma atom2_cas_kept: "atom2_cas spurious Q a a' = Inr (ok, x, Q') \<Longrightarrow> kept Q Q' g b v"
  by (auto simp: kept_def atom2_cas_def bindR_eq_Inr split: prod.splits if_splits)

lemma expand_step_kept:
  assumes "expand_step t ch Q e = Some (Inr (e', Q'))"
  shows "kept Q Q' g b v \<or> expand_calls e' = Some v"
  using assms
  by (auto simp: expand_step_def expand_lock_def expand_scan_def expand_alloc_def Let_def bindR_eq_Inr native_swap_def
      kept_def get_generation_def put_bucket_def nth_list_update wake2_def
      split: expand2.splits choice2.splits if_splits option.splits bucket2.splits sum.splits)

lemma notify_step_kept:
  assumes "notify_step t ch Q x = Some (Inr (x', Q'))"
  shows "kept Q Q' g b v \<or> notify_calls x' = Some v"
proof (cases x)
  case (NCas add a)
  then have "notify_cas (case ch of Go spurious \<Rightarrow> spurious) Q add a = Inr (x', Q')"
    using assms by (auto simp: notify_step_def split: choice2.splits)
  then show ?thesis using atom2_cas_kept by (auto simp: notify_cas_def Let_def bindR_eq_Inr)
next
  case (NTry h i n old)
  then have "notify_try (case ch of Go spurious \<Rightarrow> spurious) Q h i n old = Inr (x', Q')"
    using assms by (auto simp: notify_step_def split: choice2.splits)
  then show ?thesis
    by (cases old) (auto simp: notify_try_def bindR_eq_Inr dest!: bucket_cas_kept [where v = v and b = b and g' = g]
        split: if_splits)
next
  case (NExpand e)
  then obtain e' where "expand_step t ch Q e = Some (Inr (e', Q'))" "x' = (if e' = EDone then NDone else NExpand e')"
    using assms by (cases ch) (auto simp: notify_step_def mapR_def bindR_eq_Inr)
  then show ?thesis using expand_step_kept [of t ch Q e e' Q' g b v] by auto
qed (use assms in \<open>auto simp: notify_step_def bindR_eq_Inr split: choice2.splits\<close>)

lemma wait2_step_kept:
  assumes "wait2_step t ch Q w = Some (Inr (w', Q'))"
  shows "kept Q Q' g b v \<or> wait2_calls w' = Some v \<or>
    (\<exists>h i k. w = PTry h i k (BWaiting v)) \<and> q2_drops Q' = q2_drops Q @ [v]"
proof (cases w)
  case (WCas cx a)
  then have "enter_cas (case ch of Go spurious \<Rightarrow> spurious) Q cx a = Inr (w', Q')"
    using assms by (auto simp: wait2_step_def split: choice2.splits)
  then show ?thesis using atom2_cas_kept by (auto simp: enter_cas_def Let_def bindR_eq_Inr split: if_splits)
next
  case (WTry h i k current)
  then have "enter_try (case ch of Go spurious \<Rightarrow> spurious) Q h i k current = Inr (w', Q')"
    using assms by (auto simp: wait2_step_def split: choice2.splits)
  then show ?thesis
    by (cases current) (auto simp: enter_try_def Let_def bindR_eq_Inr
        dest!: bucket_cas_kept [where v = v and b = b and g' = g] split: if_splits)
next
  case (PTry h i k current)
  then have tried: "waiting_try (case ch of Go spurious \<Rightarrow> spurious) Q h i k current = Inr (w', Q')"
    using assms by (auto simp: wait2_step_def split: choice2.splits)
  have drops: "q2_drops Q1 = q2_drops Q" if "bucket_cas sp Q h i current new = Inr (ok, x, Q1)" for sp new ok x Q1
    using that by (auto simp: bucket_cas_def bindR_eq_Inr put_bucket_def split: if_splits prod.splits)
  have logged: "q2_drops (drop2 Q1 k') = q2_drops Q1 @ [k']" for Q1 k' by (simp add: drop2_def)
  show ?thesis
  proof (cases "current = BWaiting v")
    case True
    then show ?thesis
      using tried PTry drops logged
      by (auto simp: waiting_try_def bindR_eq_Inr dest: bucket_cas_kept [where v = v and b = b and g' = g] split: if_splits)
  next
    case False
    then show ?thesis
      using tried
      by (cases current) (auto simp: waiting_try_def bindR_eq_Inr
          dest: bucket_cas_kept [where v = v and b = b and g' = g] split: if_splits)
  qed
next
  case (WNotify x)
  then obtain x' where "notify_step t ch Q x = Some (Inr (x', Q'))" "w' = (if x' = NDone then WReady else WNotify x')"
    using assms by (cases ch) (auto simp: wait2_step_def mapR_def bindR_eq_Inr)
  then show ?thesis using notify_step_kept [of t ch Q x x' Q' g b v] by auto
next
  case (WExpand e)
  then obtain e' where "expand_step t ch Q e = Some (Inr (e', Q'))" "w' = (if e' = EDone then WReady else WExpand e')"
    using assms by (cases ch) (auto simp: wait2_step_def mapR_def bindR_eq_Inr)
  then show ?thesis using expand_step_kept [of t ch Q e e' Q' g b v] by auto
next
  case (PExpand e k)
  then obtain e' Q1 where "expand_step t ch Q e = Some (Inr (e', Q1))"
      "(w', Q') = (if e' = EDone then (WReady, drop2 Q1 k) else (PExpand e' k, Q1))"
    using assms by (cases ch) (auto simp: wait2_step_def mapR_def bindR_eq_Inr)
  then show ?thesis using expand_step_kept [of t ch Q e e' Q1 g b v] by (auto split: if_splits)
qed (use assms in \<open>auto simp: wait2_step_def bindR_eq_Inr split: choice2.splits\<close>)

text \<open>
  A waker is not forgotten: when a step removes the waker of a waiter from its bucket, the task
  that took the step is about to call it, or is the waiter itself, which has polled again, has put
  a new waker there and dropped the old one.
\<close>

theorem queue2_waker_leaves:
  assumes "q2_machine (t, act) s = Some (Inr s')"
    and "q2_boxes (q2_queue s) g = Some bs" "b < length bs" "bs ! b = BWaiting v"
  shows "(\<exists>bs'. q2_boxes (q2_queue s') g = Some bs' \<and> length bs' = length bs \<and> bs' ! b = BWaiting v) \<or>
    q2_calls (q2_pcs s' t) = Some v \<or>
    (\<exists>h i k. q2_pcs s t = Q2Poll (PTry h i k (BWaiting v))) \<and>
      q2_drops (q2_queue s') = q2_drops (q2_queue s) @ [v]"
proof -
  obtain p Q' where step: "q2_task t act (q2_queue s) (q2_pcs s t) = Some (Inr (p, Q'))"
    "s' = \<lparr>q2_queue = Q', q2_pcs = (q2_pcs s)(t := p)\<rparr>"
    using assms(1) by (auto simp: q2_machine_def q2_step_def mapR_def bindR_eq_Inr split: if_splits)
  have "kept (q2_queue s) Q' g b v \<or> q2_calls p = Some v \<or>
      (\<exists>h i k. q2_pcs s t = Q2Poll (PTry h i k (BWaiting v))) \<and> q2_drops Q' = q2_drops (q2_queue s) @ [v]"
  proof (cases "q2_pcs s t")
    case (Q2Poll w)
    then obtain ch w' where "wait2_step t ch (q2_queue s) w = Some (Inr (w', Q'))" "p = wait2_settle w'"
      using step(1) by (cases act) (auto simp: q2_task_def mapR_def bindR_eq_Inr)
    then show ?thesis using wait2_step_kept [of t ch "q2_queue s" w w' Q' g b v] Q2Poll by auto
  next
    case (Q2Notify x)
    then obtain ch x' where "notify_step t ch (q2_queue s) x = Some (Inr (x', Q'))" "p = notify2_settle x'"
      using step(1) by (cases act) (auto simp: q2_task_def mapR_def bindR_eq_Inr)
    then show ?thesis using notify_step_kept [of t ch "q2_queue s" x x' Q' g b v] by auto
  qed (use step(1) in \<open>cases act; auto simp: q2_task_def mapR_def bindR_eq_Inr\<close>)+
  then show ?thesis using step(2) assms(2-4) unfolding kept_def by auto
qed

section \<open>expand, alone\<close>

text \<open>
  The reference definition of \<open>expand\<close>: in one go, all buckets of the old generation become
  tombstones, the wakers that were in them are called in order, and a new generation of twice the
  size takes over.
\<close>

definition expand_all :: "queue2 \<Rightarrow> ptr \<Rightarrow> generation2 \<Rightarrow> ptr \<Rightarrow> queue2" where
  "expand_all Q g bs addr = Q\<lparr>
     q2_atom := \<lparr>a2_generation = addr, a2_waits = 0, a2_notifies = 0\<rparr>,
     q2_boxes := (q2_boxes Q)(g \<mapsto> replicate (length bs) BTombstone,
       addr \<mapsto> map (\<lambda>i. BEmpty (of_nat i)) [0..<length bs * 2]),
     q2_generations := q2_generations Q @ [addr],
     q2_wakes := q2_wakes Q @ generation_drop bs\<rparr>"

fun expand_run :: "tid \<Rightarrow> choice2 list \<Rightarrow> expand2 \<times> queue2 \<Rightarrow> (expand2 \<times> queue2) res option" where
  "expand_run t [] c = Some (Inr c)"
| "expand_run t (ch # chs) (e, Q) =
     (case expand_step t ch Q e of
        Some (Inr c) \<Rightarrow> expand_run t chs c
      | r \<Rightarrow> r)"

lemma expand_run_append:
  "expand_run t chs c = Some (Inr c') \<Longrightarrow> expand_run t (chs @ chs') c = expand_run t chs' c'"
  by (induction t chs c rule: expand_run.induct) (auto split: option.splits sum.splits)

lemma expand_scan_run:
  assumes "q2_boxes Q g = Some (replicate i BTombstone @ xs)"
  shows "\<exists>chs. expand_run t chs (EScan g cap i, Q) = Some (Inr (EScan g cap (i + length xs),
    Q\<lparr>q2_boxes := (q2_boxes Q)(g \<mapsto> replicate (i + length xs) BTombstone),
      q2_wakes := q2_wakes Q @ generation_drop xs\<rparr>))"
  using assms
proof (induction xs arbitrary: Q i)
  case Nil
  then have "(q2_boxes Q)(g \<mapsto> replicate i BTombstone) = q2_boxes Q" by (simp add: map_upd_triv)
  then show ?case by (intro exI [of _ "[]"]) (simp add: generation_drop_def)
next
  case (Cons x xs)
  let ?bs = "replicate i BTombstone @ x # xs"
  let ?Q = "put_bucket Q g ?bs i BTombstone"
  have upd: "?bs[i := BTombstone] = replicate (Suc i) BTombstone @ xs"
    by (simp add: list_update_append replicate_append_same)
  have swap: "expand_step t (Go b) Q (EScan g cap i) = Some (Inr (case x of
      BWaiting w \<Rightarrow> (ECall g cap (Suc i) w, ?Q) | _ \<Rightarrow> (EScan g cap (Suc i), ?Q)))" for b
    using Cons.prems by (cases x) (simp_all add: expand_step_def get_generation_def expand_scan_def native_swap_def Let_def nth_append)
  define Q1 where "Q1 = (case x of BWaiting w \<Rightarrow> wake2 ?Q w | _ \<Rightarrow> ?Q)"
  have first: "\<exists>chs. expand_run t chs (EScan g cap i, Q) = Some (Inr (EScan g cap (Suc i), Q1))"
  proof (cases x)
    case (BWaiting w)
    have "expand_run t [Go False, Go False] (EScan g cap i, Q) = Some (Inr (EScan g cap (Suc i), Q1))"
      using swap BWaiting by (simp add: Q1_def expand_step_def [of _ _ _ "ECall g cap (Suc i) w"])
    then show ?thesis by blast
  qed (use swap in \<open>auto simp: Q1_def intro!: exI [of _ "[Go False]"]\<close>)
  have "q2_boxes Q1 = (q2_boxes Q)(g \<mapsto> ?bs[i := BTombstone])"
    by (cases x) (simp_all add: Q1_def put_bucket_def wake2_def)
  then have boxes: "q2_boxes Q1 = (q2_boxes Q)(g \<mapsto> replicate (Suc i) BTombstone @ xs)"
    unfolding upd .
  then have "q2_boxes Q1 g = Some (replicate (Suc i) BTombstone @ xs)" by simp
  from Cons.IH [OF this] obtain chs where "expand_run t chs (EScan g cap (Suc i), Q1) =
      Some (Inr (EScan g cap (Suc i + length xs), Q1\<lparr>q2_boxes := (q2_boxes Q1)(g \<mapsto> replicate (Suc i + length xs) BTombstone),
        q2_wakes := q2_wakes Q1 @ generation_drop xs\<rparr>))" by blast
  moreover have "Q1\<lparr>q2_boxes := (q2_boxes Q1)(g \<mapsto> replicate (Suc i + length xs) BTombstone),
        q2_wakes := q2_wakes Q1 @ generation_drop xs\<rparr> =
      Q\<lparr>q2_boxes := (q2_boxes Q)(g \<mapsto> replicate (i + length (x # xs)) BTombstone),
        q2_wakes := q2_wakes Q @ generation_drop (x # xs)\<rparr>"
    by (cases x) (simp_all add: Q1_def put_bucket_def wake2_def generation_drop_def)
  moreover obtain chs' where "expand_run t chs' (EScan g cap i, Q) = Some (Inr (EScan g cap (Suc i), Q1))"
    using first by blast
  ultimately have "expand_run t (chs' @ chs) (EScan g cap i, Q) = Some (Inr (EScan g cap (i + length (x # xs)),
    Q\<lparr>q2_boxes := (q2_boxes Q)(g \<mapsto> replicate (i + length (x # xs)) BTombstone),
      q2_wakes := q2_wakes Q @ generation_drop (x # xs)\<rparr>))"
    by (simp add: expand_run_append)
  then show ?case by blast
qed

text \<open>
  C18: \<open>expand\<close> is equivalent to its reference definition: called on the current generation and run
  without interference it ends, and its effect is exactly that of \<open>expand_all\<close>.
\<close>

theorem queue2_expand_alone:
  assumes "q2_guard Q = None" "q2_generations Q \<noteq> []" "last (q2_generations Q) = g" "q2_boxes Q g = Some bs"
    and "length bs * 2 \<le> 2 ^ 32" "addr \<noteq> null" "q2_boxes Q addr = None"
  shows "\<exists>chs. expand_run t chs (ELock g, Q) = Some (Inr (EDone, expand_all Q g bs addr))"
proof -
  let ?n = "length bs" and ?Q = "Q\<lparr>q2_guard := Some t\<rparr>"
  let ?S = "?Q\<lparr>q2_boxes := (q2_boxes ?Q)(g \<mapsto> replicate ?n BTombstone), q2_wakes := q2_wakes ?Q @ generation_drop bs\<rparr>"
  have lock: "expand_run t [Go False] (ELock g, Q) = Some (Inr (EScan g (?n * 2) 0, ?Q))"
    using assms(1-5) by (simp add: expand_step_def expand_lock_def get_generation_def double_capacity_def Let_def)
  have "q2_boxes ?Q g = Some (replicate 0 BTombstone @ bs)" using assms(4) by simp
  from expand_scan_run [OF this, of t "?n * 2"] obtain chs where
    scan: "expand_run t chs (EScan g (?n * 2) 0, ?Q) = Some (Inr (EScan g (?n * 2) ?n, ?S))" by auto
  have ne: "addr \<noteq> g" using assms(4,7) by auto
  have rest: "expand_run t [Alloc addr, Go False, Go False, Go False] (EScan g (?n * 2) ?n, ?S) =
      Some (Inr (EDone, expand_all Q g bs addr))"
    using assms ne
    by (simp add: expand_step_def get_generation_def expand_alloc_def generation_new_def native_swap_def expand_all_def)
  have "expand_run t ([Go False] @ chs @ [Alloc addr, Go False, Go False, Go False]) (ELock g, Q) =
      Some (Inr (EDone, expand_all Q g bs addr))"
    by (simp only: expand_run_append [OF lock] expand_run_append [OF scan] rest)
  then show ?thesis by blast
qed

section \<open>Witnesses\<close>

definition q2_waker :: "ptr \<Rightarrow> copy_waker" where
  "q2_waker x = \<lparr>cw_data = x, cw_vtable = 40\<rparr>"

definition q2_one :: q2_state where
  "q2_one = (case with_capacity 1 100 of Inr Q \<Rightarrow> \<lparr>q2_queue = Q, q2_pcs = (\<lambda>_. Q2Idle)\<rparr> | Inl _ \<Rightarrow> undefined)"

definition q2_after :: "(tid \<times> q2_act) list \<Rightarrow> q2_state" where
  "q2_after es = (case run q2_machine es q2_one of Some (Inr s) \<Rightarrow> s | _ \<Rightarrow> q2_one)"

lemma q2_one_init: "q2_init 1 q2_one"
  by (auto simp: q2_init_def q2_one_def with_capacity_def generation_new_def intro!: exI [of _ 100])

lemma q2_after_reach: "reach (q2_init 1) q2_machine (q2_after es)"
proof -
  have start: "reach (q2_init 1) q2_machine q2_one" using q2_one_init by (rule reach.start)
  then show ?thesis
    using run_reach [OF start, of es] by (auto simp: q2_after_def split: option.splits sum.splits)
qed

text \<open>Task 1 waits; then task 2 notifies, up to its claim of the notification, and delivers it.\<close>

definition q2_wait_trace :: "(tid \<times> q2_act) list" where
  "q2_wait_trace = [(1, AWaitIf), (1, APoll (q2_waker 1))] @ replicate 3 (1, AStep (Go False)) @ [(1, AStep (Answer True))]"

definition q2_notify_trace :: "(tid \<times> q2_act) list" where
  "q2_notify_trace = q2_wait_trace @ (2, ANotify 1) # replicate 2 (2, AStep (Go False))"

theorem queue2_no_fault_witness:
  "(\<exists>s. q2_step (2, AStep (Go False)) (q2_after q2_notify_trace) = Some (Inr s)) \<and>
   q2_step (1, ADrop) (q2_after q2_notify_trace) = Some (Inl Todo)"
proof
  have some: "(case q2_step (2, AStep (Go False)) (q2_after q2_notify_trace) of None \<Rightarrow> False | _ \<Rightarrow> True)"
    "(case q2_step (1, ADrop) (q2_after q2_notify_trace) of None \<Rightarrow> False | _ \<Rightarrow> True)"
    "q2_fault (AStep (Go False)) (q2_queue (q2_after q2_notify_trace)) (q2_pcs (q2_after q2_notify_trace) 2) = None"
    "q2_fault ADrop (q2_queue (q2_after q2_notify_trace)) (q2_pcs (q2_after q2_notify_trace) 1) = Some Todo"
    by code_simp+
  obtain r where r: "q2_step (2, AStep (Go False)) (q2_after q2_notify_trace) = Some r"
    using some(1) by (auto split: option.splits)
  show "\<exists>s. q2_step (2, AStep (Go False)) (q2_after q2_notify_trace) = Some (Inr s)"
    using queue2_no_fault [OF q2_after_reach r] some(3) r by (cases r) auto
  obtain r' where r': "q2_step (1, ADrop) (q2_after q2_notify_trace) = Some r'"
    using some(2) by (auto split: option.splits)
  show "q2_step (1, ADrop) (q2_after q2_notify_trace) = Some (Inl Todo)"
    using queue2_no_fault [OF q2_after_reach r', of Todo] some(4) r' by simp
qed

text \<open>
  An overflow that is easy to reach: \<open>notify(usize::MAX)\<close>, to wake all waiters, once a notification
  has been made.
\<close>

theorem queue2_notify_overflow:
  "run q2_machine (q2_notify_trace @ (3, ANotify (- 1)) # replicate 2 (3, AStep (Go False))) q2_one = Some (Inl Overflow)"
proof -
  have "(case run q2_machine (q2_notify_trace @ (3, ANotify (- 1)) # replicate 2 (3, AStep (Go False))) q2_one of
      Some (Inl x) \<Rightarrow> x = Overflow | _ \<Rightarrow> False)" by code_simp
  then show ?thesis by (auto split: option.splits sum.splits)
qed

lemma q2_notify_trace_state:
  "q2_pcs (q2_after q2_notify_trace) 1 = Q2Future (Waiting2 100 0)"
  "q2_boxes (q2_queue (q2_after q2_notify_trace)) 100 = Some [BWaiting (q2_waker 1)]"
  "0 < a2_notifies (q2_atom (q2_queue (q2_after q2_notify_trace)))"
  by code_simp+

theorem queue2_no_lost_notification_witness:
  "(\<exists>u lo hi j. r2_pend (q2_role (q2_pcs (q2_after q2_notify_trace) u)) = Some (100, lo, hi) \<and> lo \<le> j \<and> j < hi \<and> j mod 1 = 0) \<or>
   (\<exists>u e. r2_exp (q2_role (q2_pcs (q2_after q2_notify_trace) u)) = Some e \<and> exp_target e = Some 100)"
  using queue2_no_lost_notification [OF q2_after_reach q2_notify_trace_state(1,2) _ q2_notify_trace_state(3)] by simp

theorem queue2_waker_leaves_witness:
  "q2_boxes (q2_queue (q2_after (q2_notify_trace @ replicate 2 (2, AStep (Go False))))) 100 = Some [BWaking] \<and>
   q2_calls (q2_pcs (q2_after (q2_notify_trace @ replicate 2 (2, AStep (Go False)))) 2) = Some (q2_waker 1)"
proof -
  let ?s = "q2_after (q2_notify_trace @ [(2, AStep (Go False))])"
  let ?s' = "q2_after (q2_notify_trace @ replicate 2 (2, AStep (Go False)))"
  have step: "q2_machine (2, AStep (Go False)) ?s = Some (Inr ?s')"
  proof -
    let ?es = "q2_notify_trace @ [(2, AStep (Go False))]"
    have "(case run q2_machine (?es @ [(2, AStep (Go False))]) q2_one of Some (Inr s) \<Rightarrow> True | _ \<Rightarrow> False)"
      "(case run q2_machine ?es q2_one of Some (Inr s) \<Rightarrow> True | _ \<Rightarrow> False)"
      by code_simp+
    then obtain s s' where s: "run q2_machine ?es q2_one = Some (Inr s)"
      "run q2_machine (?es @ [(2, AStep (Go False))]) q2_one = Some (Inr s')"
      by (auto split: option.splits sum.splits)
    then have "q2_machine (2, AStep (Go False)) s = Some (Inr s')"
      using run_append [OF s(1), of "[(2, AStep (Go False))]"] by (auto split: option.splits sum.splits)
    then show ?thesis using s by (simp add: q2_after_def numeral_2_eq_2)
  qed
  have bs: "q2_boxes (q2_queue ?s) 100 = Some [BWaiting (q2_waker 1)]" by code_simp
  have after: "q2_boxes (q2_queue ?s') 100 = Some [BWaking]" by code_simp
  have idle: "(case q2_pcs ?s 2 of Q2Poll w \<Rightarrow> False | _ \<Rightarrow> True)" by code_simp
  show ?thesis using queue2_waker_leaves [OF step bs, of 0] after idle by auto
qed

theorem queue2_expand_alone_witness:
  "\<exists>chs. expand_run 3 chs (ELock 100, q2_queue (q2_after q2_wait_trace)) =
     Some (Inr (EDone, expand_all (q2_queue (q2_after q2_wait_trace)) 100 [BWaiting (q2_waker 1)] 200))"
proof (rule queue2_expand_alone)
  have "(case q2_guard (q2_queue (q2_after q2_wait_trace)) of None \<Rightarrow> True | _ \<Rightarrow> False)" by code_simp
  then show "q2_guard (q2_queue (q2_after q2_wait_trace)) = None" by (auto split: option.splits)
  have gens: "q2_generations (q2_queue (q2_after q2_wait_trace)) = [100]" by code_simp
  then show "q2_generations (q2_queue (q2_after q2_wait_trace)) \<noteq> []"
    "last (q2_generations (q2_queue (q2_after q2_wait_trace))) = 100" by simp_all
  show "q2_boxes (q2_queue (q2_after q2_wait_trace)) 100 = Some [BWaiting (q2_waker 1)]" by code_simp
  show "q2_boxes (q2_queue (q2_after q2_wait_trace)) 200 = None" by code_simp
qed simp_all

end
