(* ===== verification/Queue2_Wakers.thy ===== *)
theory Queue2_Wakers imports Queue2_Spec "HOL-Library.Multiset" begin

text \<open>
  The wakers of the queue of \<open>src/futex2/mod.rs\<close>. A \<open>CopyWaker\<close> is copied without a reference
  count, so the code itself has to call or drop every clone exactly once. The ledger: the clones
  made are the wakers called, the wakers dropped, those in the buckets, and those in the hands of
  the tasks.
\<close>

section \<open>Who owns a waker\<close>

fun bucket_wakers :: "bucket2 \<Rightarrow> copy_waker multiset" where
  "bucket_wakers (BWaiting w) = {#w#}"
| "bucket_wakers _ = {#}"

fun expand_hand :: "expand2 \<Rightarrow> copy_waker multiset" where
  "expand_hand (ECall g cap i waker) = {#waker#}"
| "expand_hand _ = {#}"

fun notify_hand :: "notify2 \<Rightarrow> copy_waker multiset" where
  "notify_hand (NCall g i n waker) = {#waker#}"
| "notify_hand (NExpand e) = expand_hand e"
| "notify_hand _ = {#}"

fun wait2_hand :: "wait2 \<Rightarrow> copy_waker multiset" where
  "wait2_hand (WTry g i waker current) = {#waker#}"
| "wait2_hand (WNotify x) = notify_hand x"
| "wait2_hand (WExpand e) = expand_hand e"
| "wait2_hand (PTry g i waker current) = {#waker#}"
| "wait2_hand (PExpand e waker) = add_mset waker (expand_hand e)"
| "wait2_hand _ = {#}"

fun q2_hand :: "q2_pc \<Rightarrow> copy_waker multiset" where
  "q2_hand (Q2Poll w) = wait2_hand w"
| "q2_hand (Q2Notify x) = notify_hand x"
| "q2_hand _ = {#}"

lemma settle_hand [simp]:
  "q2_hand (wait2_settle w) = wait2_hand w" "q2_hand (notify2_settle x) = notify_hand x"
  by (cases w; simp add: wait2_settle_def) (cases x; simp add: notify2_settle_def)

definition stored2 :: "queue2 \<Rightarrow> copy_waker multiset" where
  "stored2 Q = (\<Sum>g\<in>dom (q2_boxes Q). mset (generation_drop (the (q2_boxes Q g))))"

definition owned2 :: "queue2 \<Rightarrow> copy_waker multiset" where
  "owned2 Q = mset (q2_wakes Q) + mset (q2_drops Q) + stored2 Q"

text \<open>A step keeps the ledger of the task that takes it.\<close>

definition ledger2 :: "queue2 \<Rightarrow> copy_waker multiset \<Rightarrow> queue2 \<Rightarrow> copy_waker multiset \<Rightarrow> bool" where
  "ledger2 Q h Q' h' \<longleftrightarrow> finite (dom (q2_boxes Q')) \<and>
     mset (q2_clones Q') + (owned2 Q + h) = mset (q2_clones Q) + (owned2 Q' + h')"

lemma ledger2_same [simp]: "finite (dom (q2_boxes Q)) \<Longrightarrow> ledger2 Q h Q h' \<longleftrightarrow> h = h'"
  by (auto simp: ledger2_def)

lemma owned2_logs [simp]:
  "owned2 (clone2 Q w) = owned2 Q" "owned2 (wake2 Q w) = add_mset w (owned2 Q)" "owned2 (drop2 Q w) = add_mset w (owned2 Q)"
  by (simp_all add: owned2_def stored2_def clone2_def wake2_def drop2_def)

lemma ledger2_logs [simp]:
  "ledger2 Q h (wake2 Q' w) h' \<longleftrightarrow> ledger2 Q h Q' (add_mset w h')"
  "ledger2 Q h (drop2 Q' w) h' \<longleftrightarrow> ledger2 Q h Q' (add_mset w h')"
  "ledger2 Q h (clone2 Q' w) (add_mset w h') \<longleftrightarrow> ledger2 Q h Q' h'"
proof -
  have "q2_boxes (wake2 Q' w) = q2_boxes Q'" "q2_clones (wake2 Q' w) = q2_clones Q'"
    "q2_boxes (drop2 Q' w) = q2_boxes Q'" "q2_clones (drop2 Q' w) = q2_clones Q'"
    "q2_boxes (clone2 Q' w) = q2_boxes Q'" "mset (q2_clones (clone2 Q' w)) = add_mset w (mset (q2_clones Q'))"
    by (simp_all add: wake2_def drop2_def clone2_def)
  then show "ledger2 Q h (wake2 Q' w) h' \<longleftrightarrow> ledger2 Q h Q' (add_mset w h')"
    "ledger2 Q h (drop2 Q' w) h' \<longleftrightarrow> ledger2 Q h Q' (add_mset w h')"
    "ledger2 Q h (clone2 Q' w) (add_mset w h') \<longleftrightarrow> ledger2 Q h Q' h'"
    by (simp_all add: ledger2_def)
qed

section \<open>Buckets\<close>

lemma generation_drop_update:
  "b < length bs \<Longrightarrow> mset (generation_drop (bs[b := x])) + bucket_wakers (bs ! b) =
     mset (generation_drop bs) + bucket_wakers x"
proof (induction bs arbitrary: b)
  case (Cons y ys)
  have cons: "mset (generation_drop (z # zs)) = bucket_wakers z + mset (generation_drop zs)" for z zs
    by (cases z) (simp_all add: generation_drop_def)
  show ?case using Cons.IH [of "b - 1"] Cons.prems by (cases b) (simp_all add: cons ac_simps)
qed simp

lemma generation_drop_new: "generation_drop (map (\<lambda>i. BEmpty (f i)) xs) = []"
  by (simp add: generation_drop_def)

lemma stored2_bucket:
  assumes "finite (dom (q2_boxes Q))" "q2_boxes Q g = Some bs" "b < length bs"
  shows "owned2 (put_bucket Q g bs b x) + bucket_wakers (bs ! b) = owned2 Q + bucket_wakers x"
proof -
  let ?D = "dom (q2_boxes Q)"
  have g: "g \<in> ?D" and ins: "insert g ?D = ?D" using assms(2) by auto
  have "stored2 (put_bucket Q g bs b x) = mset (generation_drop (bs[b := x])) +
      (\<Sum>h\<in>?D - {g}. mset (generation_drop (the (q2_boxes Q h))))"
    using assms(1) g by (simp add: stored2_def put_bucket_def ins sum.remove)
  moreover have "stored2 Q = mset (generation_drop bs) + (\<Sum>h\<in>?D - {g}. mset (generation_drop (the (q2_boxes Q h))))"
    using assms g by (simp add: stored2_def sum.remove)
  ultimately show ?thesis
    using generation_drop_update [OF assms(3), of x] by (simp add: owned2_def put_bucket_def ac_simps)
qed

lemma ledger2_bucket:
  assumes "finite (dom (q2_boxes Q))" "q2_boxes Q g = Some bs" "b < length bs"
    and "h + bucket_wakers (bs ! b) = h' + bucket_wakers x"
  shows "ledger2 Q h (put_bucket Q g bs b x) h'"
proof -
  let ?Q = "put_bucket Q g bs b x"
  have "owned2 ?Q + h' + (bucket_wakers (bs ! b) + bucket_wakers x) = owned2 Q + h + (bucket_wakers x + bucket_wakers (bs ! b))"
    using stored2_bucket [OF assms(1-3), of x] assms(4) by (metis (no_types, lifting) add.assoc add.commute)
  then have "owned2 ?Q + h' = owned2 Q + h" by (simp add: ac_simps)
  then show ?thesis using assms(1) by (simp add: ledger2_def put_bucket_def)
qed

text \<open>A compare-exchange on a bucket swaps what the bucket owns, if it succeeds.\<close>

lemma bucket_cas_ledger:
  assumes fin: "finite (dom (q2_boxes Q))" and cas: "bucket_cas spurious Q g i current new = Inr (ok, x, Q')"
    and h: "ok \<Longrightarrow> h + bucket_wakers current = h' + bucket_wakers new" "\<not> ok \<Longrightarrow> h = h'"
  shows "ledger2 Q h Q' h'"
proof -
  obtain bs where bs: "q2_boxes Q g = Some bs" "bs \<noteq> []"
    and Q': "(ok \<and> bs ! (unat i mod length bs) = current \<and> Q' = put_bucket Q g bs (unat i mod length bs) new) \<or>
      (\<not> ok \<and> Q' = put_bucket Q g bs (unat i mod length bs) (bs ! (unat i mod length bs)))"
    using cas by (auto simp: bucket_cas_def bindR_eq_Inr get_generation_def generation_index_def
        split: option.splits if_splits)
  have b: "unat i mod length bs < length bs" using bs(2) by simp
  show ?thesis using ledger2_bucket [OF fin bs(1) b] Q' h by auto
qed

lemma atom2_cas_ledger:
  assumes "finite (dom (q2_boxes Q))" "atom2_cas spurious Q a a' = Inr (ok, x, Q')"
  shows "ledger2 Q h Q' h"
proof -
  obtain y where "Q' = Q\<lparr>q2_atom := y\<rparr>" using assms(2) by (auto simp: atom2_cas_def bindR_eq_Inr split: prod.splits if_splits)
  then show ?thesis using assms(1) by (simp add: ledger2_def owned2_def stored2_def)
qed

section \<open>Steps\<close>

lemma expand_scan_ledger:
  assumes "finite (dom (q2_boxes Q))" "q2_boxes Q g = Some bs" "i < length bs"
    and "expand_scan Q g cap bs i = Inr (e', Q')"
  shows "ledger2 Q {#} Q' (expand_hand e')"
  using ledger2_bucket [OF assms(1-3), of "{#}" _ BTombstone] assms(4)
  by (auto simp: expand_scan_def native_swap_def Let_def split: bucket2.splits)

lemma expand_step_ledger:
  assumes fin: "finite (dom (q2_boxes Q))" and step: "expand_step t ch Q e = Some (Inr (e', Q'))"
  shows "ledger2 Q (expand_hand e) Q' (expand_hand e')"
proof (cases e)
  case (ELock g)
  then have "expand_lock t Q g = Some (Inr (e', Q'))" using step by (cases ch) (auto simp: expand_step_def)
  then have "Q' = Q\<lparr>q2_guard := Some t\<rparr>" "expand_hand e' = {#}"
    by (auto simp: expand_lock_def Let_def bindR_eq_Inr split: if_splits)
  then show ?thesis using fin ELock by (simp add: ledger2_def owned2_def stored2_def)
next
  case (EScan g cap i)
  then obtain bs where bs: "q2_boxes Q g = Some bs"
    using step by (cases ch) (auto simp: expand_step_def get_generation_def split: option.splits)
  show ?thesis
  proof (cases "i < length bs")
    case True
    then have "expand_scan Q g cap bs i = Inr (e', Q')"
      using step EScan bs by (cases ch) (auto simp: expand_step_def get_generation_def)
    then show ?thesis using expand_scan_ledger [OF fin bs True] EScan by simp
  next
    case False
    then obtain addr where "expand_alloc Q cap addr = Some (Inr (e', Q'))"
      using step EScan bs by (cases ch) (auto simp: expand_step_def get_generation_def)
    then have new: "q2_boxes Q addr = None" "e' = ESwap addr"
      "Q' = Q\<lparr>q2_boxes := (q2_boxes Q)(addr \<mapsto> map (\<lambda>i. BEmpty (of_nat i)) [0..<cap])\<rparr>"
      by (auto simp: expand_alloc_def generation_new_def bindR_eq_Inr split: if_splits)
    then have "stored2 Q' = stored2 Q"
      using fin by (auto simp: stored2_def generation_drop_new domIff intro!: sum.cong)
    then show ?thesis using fin new EScan by (simp add: ledger2_def owned2_def)
  qed
qed (use step fin in \<open>cases ch; auto simp: expand_step_def native_swap_def ledger2_def owned2_def stored2_def wake2_def\<close>)+

lemma notify_from_hand [simp]: "notify_hand (notify_from g i n) = {#}"
  by (simp add: notify_from_def)

lemma notify_step_ledger:
  assumes fin: "finite (dom (q2_boxes Q))" and step: "notify_step t ch Q x = Some (Inr (x', Q'))"
  shows "ledger2 Q (notify_hand x) Q' (notify_hand x')"
proof (cases x)
  case (NCas add a)
  then have "notify_cas (case ch of Go spurious \<Rightarrow> spurious) Q add a = Inr (x', Q')"
    using step by (auto simp: notify_step_def split: choice2.splits)
  then show ?thesis using NCas atom2_cas_ledger [OF fin] by (auto simp: notify_cas_def Let_def bindR_eq_Inr)
next
  case (NTry h i n old)
  then have "notify_try (case ch of Go spurious \<Rightarrow> spurious) Q h i n old = Inr (x', Q')"
    using step by (auto simp: notify_step_def split: choice2.splits)
  then show ?thesis
    using fin NTry
    by (cases old) (auto simp: notify_try_def bindR_eq_Inr intro: bucket_cas_ledger [OF fin] split: if_splits)
next
  case (NExpand e)
  then obtain e' where "expand_step t ch Q e = Some (Inr (e', Q'))" "x' = (if e' = EDone then NDone else NExpand e')"
    using step by (cases ch) (auto simp: notify_step_def mapR_def bindR_eq_Inr)
  then show ?thesis using expand_step_ledger [OF fin, of t ch e e' Q'] NExpand by auto
qed (use step fin in \<open>auto simp: notify_step_def bindR_eq_Inr split: choice2.splits\<close>)

lemma wait2_step_ledger:
  assumes fin: "finite (dom (q2_boxes Q))" and step: "wait2_step t ch Q w = Some (Inr (w', Q'))"
  shows "ledger2 Q (wait2_hand w) Q' (wait2_hand w')"
proof (cases w)
  case (WCas cx a)
  then have "enter_cas (case ch of Go spurious \<Rightarrow> spurious) Q cx a = Inr (w', Q')"
    using step by (auto simp: wait2_step_def split: choice2.splits)
  then show ?thesis
    using WCas atom2_cas_ledger [OF fin] by (auto simp: enter_cas_def Let_def bindR_eq_Inr split: if_splits)
next
  case (WTry h i k current)
  then have "enter_try (case ch of Go spurious \<Rightarrow> spurious) Q h i k current = Inr (w', Q')"
    using step by (auto simp: wait2_step_def split: choice2.splits)
  then show ?thesis
    using fin WTry
    by (cases current) ((auto simp: enter_try_def next_empty_def mapR_def Let_def bindR_eq_Inr
        split: if_splits)[1]; (erule bucket_cas_ledger [OF fin]; simp)?)+
next
  case (PTry h i k current)
  then have "waiting_try (case ch of Go spurious \<Rightarrow> spurious) Q h i k current = Inr (w', Q')"
    using step by (auto simp: wait2_step_def split: choice2.splits)
  then show ?thesis
    using fin PTry
    by (cases current) ((auto simp: waiting_try_def next_empty_def mapR_def bindR_eq_Inr
        split: if_splits)[1]; (erule bucket_cas_ledger [OF fin]; simp)?)+
next
  case (WNotify x)
  then obtain x' where "notify_step t ch Q x = Some (Inr (x', Q'))" "w' = (if x' = NDone then WReady else WNotify x')"
    using step by (cases ch) (auto simp: wait2_step_def mapR_def bindR_eq_Inr)
  then show ?thesis using notify_step_ledger [OF fin, of t ch x x' Q'] WNotify by auto
next
  case (WExpand e)
  then obtain e' where "expand_step t ch Q e = Some (Inr (e', Q'))" "w' = (if e' = EDone then WReady else WExpand e')"
    using step by (cases ch) (auto simp: wait2_step_def mapR_def bindR_eq_Inr)
  then show ?thesis using expand_step_ledger [OF fin, of t ch e e' Q'] WExpand by auto
next
  case (PExpand e k)
  then obtain e' Q1 where "expand_step t ch Q e = Some (Inr (e', Q1))"
      "(w', Q') = (if e' = EDone then (WReady, drop2 Q1 k) else (PExpand e' k, Q1))"
    using step by (cases ch) (auto simp: wait2_step_def mapR_def bindR_eq_Inr)
  moreover have "ledger2 Q (add_mset k h) Q1 (add_mset k h')" if "ledger2 Q h Q1 h'" for h h'
    using that by (simp add: ledger2_def)
  ultimately show ?thesis
    using expand_step_ledger [OF fin, of t ch e e' Q1] PExpand by (auto split: if_splits)
qed (use step fin in \<open>auto simp: wait2_step_def bindR_eq_Inr split: choice2.splits\<close>)

section \<open>The ledger of the queue\<close>

definition ledger_ok :: "q2_state \<Rightarrow> bool" where
  "ledger_ok s \<longleftrightarrow> finite (dom (q2_boxes (q2_queue s))) \<and>
     (\<exists>T. finite T \<and> (\<forall>t. t \<notin> T \<longrightarrow> q2_hand (q2_pcs s t) = {#}) \<and>
        mset (q2_clones (q2_queue s)) = owned2 (q2_queue s) + (\<Sum>t\<in>T. q2_hand (q2_pcs s t)))"

lemma ledger_move:
  assumes "ledger_ok s" "ledger2 (q2_queue s) (q2_hand (q2_pcs s t)) Q (q2_hand p)"
  shows "ledger_ok \<lparr>q2_queue = Q, q2_pcs = (q2_pcs s)(t := p)\<rparr>"
proof -
  obtain T where T: "finite T" "\<And>u. u \<notin> T \<Longrightarrow> q2_hand (q2_pcs s u) = {#}"
    "mset (q2_clones (q2_queue s)) = owned2 (q2_queue s) + (\<Sum>t\<in>T. q2_hand (q2_pcs s t))"
    using assms(1) by (auto simp: ledger_ok_def)
  let ?h = "\<lambda>u. q2_hand (q2_pcs s u)" and ?h' = "\<lambda>u. q2_hand (((q2_pcs s)(t := p)) u)"
  let ?rest = "\<Sum>u\<in>T - {t}. ?h u"
  have "(\<Sum>u\<in>T. ?h u) = ?h t + ?rest"
    using T(1,2) by (cases "t \<in> T") (simp_all add: sum.remove)
  moreover have "(\<Sum>u\<in>insert t T. ?h' u) = q2_hand p + ?rest"
    using T(1) by (simp add: sum.insert_remove)
  moreover have "mset (q2_clones Q) + (owned2 (q2_queue s) + ?h t) = mset (q2_clones (q2_queue s)) + (owned2 Q + q2_hand p)"
    using assms(2) by (simp add: ledger2_def)
  ultimately have "mset (q2_clones Q) = owned2 Q + (\<Sum>u\<in>insert t T. ?h' u)"
    using T(3) by (simp add: ac_simps)
  then show ?thesis
    using T assms(2) unfolding ledger_ok_def ledger2_def by (auto intro!: exI [of _ "insert t T"])
qed

lemma ledger_step:
  assumes "ledger_ok s" "q2_machine (t, act) s = Some (Inr s')"
  shows "ledger_ok s'"
proof -
  have fin: "finite (dom (q2_boxes (q2_queue s)))" using assms(1) by (simp add: ledger_ok_def)
  obtain p Q' where step: "q2_task t act (q2_queue s) (q2_pcs s t) = Some (Inr (p, Q'))"
    "s' = \<lparr>q2_queue = Q', q2_pcs = (q2_pcs s)(t := p)\<rparr>"
    using assms(2) by (auto simp: q2_machine_def q2_step_def mapR_def bindR_eq_Inr split: if_splits)
  have "ledger2 (q2_queue s) (q2_hand (q2_pcs s t)) Q' (q2_hand p)"
  proof (cases "q2_pcs s t")
    case (Q2Poll w)
    then obtain ch w' where "wait2_step t ch (q2_queue s) w = Some (Inr (w', Q'))" "p = wait2_settle w'"
      using step(1) by (cases act) (auto simp: q2_task_def mapR_def bindR_eq_Inr)
    then show ?thesis using wait2_step_ledger [OF fin] Q2Poll by simp
  next
    case (Q2Notify x)
    then obtain ch x' where "notify_step t ch (q2_queue s) x = Some (Inr (x', Q'))" "p = notify2_settle x'"
      using step(1) by (cases act) (auto simp: q2_task_def mapR_def bindR_eq_Inr)
    then show ?thesis using notify_step_ledger [OF fin] Q2Notify by simp
  qed (use step(1) fin in \<open>cases act; auto simp: q2_task_def mapR_def bindR_eq_Inr wait2_poll_def split: future2.splits\<close>)+
  then show ?thesis using ledger_move [OF assms(1)] step(2) by simp
qed

lemma ledger_reach:
  assumes "reach (q2_init cap) q2_machine s"
  shows "ledger_ok s"
  using assms
proof (induction rule: reach.induct)
  case (start s)
  then obtain addr where "q2_boxes (q2_queue s) = [addr \<mapsto> map (\<lambda>i. BEmpty (of_nat i)) [0..<cap]]"
    "q2_clones (q2_queue s) = []" "q2_wakes (q2_queue s) = []" "q2_drops (q2_queue s) = []" "q2_pcs s = (\<lambda>_. Q2Idle)"
    by (auto simp: q2_init_def with_capacity_def generation_new_def)
  then show ?case
    by (auto simp: ledger_ok_def owned2_def stored2_def generation_drop_new intro!: exI [of _ "{}"])
next
  case (move s e s')
  then show ?case using ledger_step by (cases e) auto
qed

text \<open>
  C16: every clone of a waker is accounted for, and once: in every reachable state the clones made so
  far are the wakers that were called, those that were dropped, those that the drops of the
  generations would drop, and those that tasks at work have in their hands.
\<close>

theorem queue2_wakers_accounted:
  assumes "reach (q2_init cap) q2_machine s"
  shows "\<exists>T. finite T \<and> (\<forall>t. t \<in> T \<longleftrightarrow> q2_hand (q2_pcs s t) \<noteq> {#}) \<and>
    mset (q2_clones (q2_queue s)) = mset (q2_wakes (q2_queue s)) + mset (q2_drops (q2_queue s)) +
      (\<Sum>g\<in>dom (q2_boxes (q2_queue s)). mset (generation_drop (the (q2_boxes (q2_queue s) g)))) +
      (\<Sum>t\<in>T. q2_hand (q2_pcs s t))"
proof -
  obtain T where T: "finite T" "\<And>t. t \<notin> T \<Longrightarrow> q2_hand (q2_pcs s t) = {#}"
    "mset (q2_clones (q2_queue s)) = owned2 (q2_queue s) + (\<Sum>t\<in>T. q2_hand (q2_pcs s t))"
    using ledger_reach [OF assms] by (auto simp: ledger_ok_def)
  let ?S = "{t \<in> T. q2_hand (q2_pcs s t) \<noteq> {#}}"
  have "(\<Sum>t\<in>T. q2_hand (q2_pcs s t)) = (\<Sum>t\<in>?S. q2_hand (q2_pcs s t))"
    using T(1) by (intro sum.mono_neutral_right) auto
  then show ?thesis using T unfolding owned2_def stored2_def by (intro exI [of _ ?S]) auto
qed

theorem queue2_wakers_accounted_witness:
  "\<exists>T. finite T \<and> mset (q2_clones (q2_queue (q2_after q2_wait_trace))) =
     mset (q2_wakes (q2_queue (q2_after q2_wait_trace))) + mset (q2_drops (q2_queue (q2_after q2_wait_trace))) +
     (\<Sum>g\<in>dom (q2_boxes (q2_queue (q2_after q2_wait_trace))).
        mset (generation_drop (the (q2_boxes (q2_queue (q2_after q2_wait_trace)) g)))) +
     (\<Sum>t\<in>T. q2_hand (q2_pcs (q2_after q2_wait_trace) t)) \<and>
     q2_clones (q2_queue (q2_after q2_wait_trace)) = [q2_waker 1]"
proof -
  have "q2_clones (q2_queue (q2_after q2_wait_trace)) = [q2_waker 1]" by code_simp
  then show ?thesis using queue2_wakers_accounted [OF q2_after_reach, of q2_wait_trace] by auto
qed

end
