(* ===== verification/Queue2_Owner.thy ===== *)
theory Queue2_Owner imports Queue2_Spec begin

text \<open>
  Whose waker a bucket of the queue of \<open>src/futex2/mod.rs\<close> holds: the bucket of a suspended waiter
  holds the waker of its latest poll, until it is taken out to be called.
\<close>

section \<open>The waker of a task\<close>

text \<open>The wakers that the tasks were polled with last; \<open>K\<close> is what they were before.\<close>

fun last_wakers :: "(tid \<Rightarrow> copy_waker option) \<Rightarrow> (tid \<times> q2_act) list \<Rightarrow> tid \<Rightarrow> copy_waker option" where
  "last_wakers K [] = K"
| "last_wakers K ((t, APoll cx) # es) = last_wakers (K(t := Some cx)) es"
| "last_wakers K ((t, act) # es) = last_wakers K es"

text \<open>The waker that a poll carries, and the number of a waiter whose bucket has been claimed with it.\<close>

fun wait2_waker :: "wait2 \<Rightarrow> copy_waker option" where
  "wait2_waker (WLoad cx) = Some cx"
| "wait2_waker (WCas cx a) = Some cx"
| "wait2_waker (WTry g i waker current) = Some waker"
| "wait2_waker (WCond g i waker) = Some waker"
| "wait2_waker (PLoad g i cx) = Some cx"
| "wait2_waker (PTry g i waker current) = Some waker"
| "wait2_waker _ = None"

fun wait2_posted :: "wait2 \<Rightarrow> (ptr \<times> usize_half) option" where
  "wait2_posted (WCond g i waker) = Some (g, i)"
| "wait2_posted (WPend g i) = Some (g, i)"
| "wait2_posted _ = None"

fun q2_waker_of :: "q2_pc \<Rightarrow> copy_waker option" where
  "q2_waker_of (Q2Poll w) = wait2_waker w"
| "q2_waker_of _ = None"

fun q2_posted :: "q2_pc \<Rightarrow> (ptr \<times> usize_half) option" where
  "q2_posted (Q2Poll w) = wait2_posted w"
| "q2_posted (Q2Future (Waiting2 g i)) = Some (g, i)"
| "q2_posted _ = None"

lemma settle_owner [simp]:
  "q2_posted (wait2_settle w) = wait2_posted w" "q2_posted (notify2_settle x) = None"
  "q2_waker_of (notify2_settle x) = None"
  "q2_waker_of (wait2_settle w) = wait2_waker w"
  by (cases w; cases x; simp add: wait2_settle_def notify2_settle_def)+

lemma posted_role:
  assumes "q2_posted p = Some (g, i)"
  shows "q2_role p = ticket_role g i True"
proof (cases p)
  case (Q2Future step)
  then show ?thesis using assms by (cases step) simp_all
next
  case (Q2Poll w)
  then show ?thesis using assms by (cases w) simp_all
qed (use assms in simp_all)

section \<open>Who puts a waker into a bucket\<close>

definition holds2 :: "queue2 \<Rightarrow> ptr \<Rightarrow> usize_half \<Rightarrow> bucket2 \<Rightarrow> bool" where
  "holds2 Q g i x \<longleftrightarrow> (\<exists>bs. q2_boxes Q g = Some bs \<and> bs \<noteq> [] \<and> bs ! (unat i mod length bs) = x)"

lemma holds2_logs [simp]:
  "holds2 (wake2 Q k) g i x = holds2 Q g i x" "holds2 (drop2 Q k) g i x = holds2 Q g i x"
  "holds2 (clone2 Q k) g i x = holds2 Q g i x"
  by (simp_all add: holds2_def wake2_def drop2_def clone2_def)

lemma holds2_atom [simp]: "holds2 (Q\<lparr>q2_atom := a\<rparr>) g i x = holds2 Q g i x"
  by (simp add: holds2_def)

text \<open>The bucket of \<open>i\<close> is that of \<open>j\<close>.\<close>

definition same2 :: "queue2 \<Rightarrow> ptr \<Rightarrow> usize_half \<Rightarrow> usize_half \<Rightarrow> bool" where
  "same2 Q g i j \<longleftrightarrow> (\<exists>bs. q2_boxes Q g = Some bs \<and> unat i mod length bs = unat j mod length bs)"

lemma bucket_cas_holds:
  assumes "bucket_cas spurious Q h j current new = Inr (ok, x, Q')" "holds2 Q' g i y"
  shows "holds2 Q g i y \<or> ok \<and> y = new \<and> h = g \<and> same2 Q g i j \<and> holds2 Q g i current"
  using assms
  by (auto simp: holds2_def same2_def bucket_cas_def bindR_eq_Inr get_generation_def generation_index_def put_bucket_def
      nth_list_update split: option.splits if_splits)

lemma bucket_cas_put:
  assumes "bucket_cas spurious Q h j current new = Inr (True, x, Q')" "holds2 Q' h j y"
  shows "y = new"
  using assms
  by (auto simp: holds2_def bucket_cas_def bindR_eq_Inr get_generation_def generation_index_def put_bucket_def
      split: option.splits if_splits)

lemma expand_step_holds:
  assumes "expand_step t ch Q e = Some (Inr (e', Q'))" "holds2 Q' g i (BWaiting v)"
  shows "holds2 Q g i (BWaiting v)"
proof -
  have fresh: "n = 0" if "map (\<lambda>n. BEmpty (of_nat n)) [0..<n] ! (unat i mod n) = BWaiting v" for n
    using that by (cases "n = 0") (simp_all add: nth_map)
  show ?thesis
    using assms
    by (auto dest!: fresh simp: expand_step_def expand_lock_def expand_scan_def expand_alloc_def Let_def bindR_eq_Inr native_swap_def
        generation_new_def holds2_def get_generation_def put_bucket_def nth_list_update wake2_def
        split: expand2.splits choice2.splits if_splits option.splits bucket2.splits sum.splits)
qed

lemma notify_step_holds:
  assumes "notify_step t ch Q x = Some (Inr (x', Q'))" "holds2 Q' g i (BWaiting v)"
  shows "holds2 Q g i (BWaiting v)"
proof (cases x)
  case (NCas add a)
  then have "notify_cas (case ch of Go spurious \<Rightarrow> spurious) Q add a = Inr (x', Q')"
    using assms(1) by (auto simp: notify_step_def split: choice2.splits)
  then show ?thesis
    using assms(2) by (auto simp: notify_cas_def atom2_cas_def Let_def bindR_eq_Inr split: if_splits)
next
  case (NTry h j n old)
  then have "notify_try (case ch of Go spurious \<Rightarrow> spurious) Q h j n old = Inr (x', Q')"
    using assms(1) by (auto simp: notify_step_def split: choice2.splits)
  then show ?thesis
    using assms(2) by (cases old) (auto simp: notify_try_def bindR_eq_Inr dest: bucket_cas_holds split: if_splits)
next
  case (NExpand e)
  then obtain e' where "expand_step t ch Q e = Some (Inr (e', Q'))"
    using assms(1) by (cases ch) (auto simp: notify_step_def mapR_def bindR_eq_Inr)
  then show ?thesis using expand_step_holds assms(2) by blast
qed (use assms in \<open>auto simp: notify_step_def bindR_eq_Inr split: choice2.splits\<close>)

text \<open>A poll puts its own waker into the bucket of its number, which it found empty or its own.\<close>

lemma wait2_step_holds:
  assumes "wait2_step t ch Q w = Some (Inr (w', Q'))" "holds2 Q' g i (BWaiting v)"
  shows "holds2 Q g i (BWaiting v) \<or>
    (\<exists>j x. same2 Q g i j \<and> holds2 Q g i x \<and>
       (w = WTry g j v x \<and> x = BEmpty j \<or> w = PTry g j v x \<and> claimed2 x))"
proof (cases w)
  case (WCas cx a)
  then have "enter_cas (case ch of Go spurious \<Rightarrow> spurious) Q cx a = Inr (w', Q')"
    using assms(1) by (auto simp: wait2_step_def split: choice2.splits)
  then show ?thesis
    using assms(2) by (auto simp: enter_cas_def atom2_cas_def Let_def bindR_eq_Inr split: if_splits)
next
  case (WTry h j k current)
  then have "enter_try (case ch of Go spurious \<Rightarrow> spurious) Q h j k current = Inr (w', Q')"
    using assms(1) by (auto simp: wait2_step_def split: choice2.splits)
  then show ?thesis
    using assms(2) WTry
    by (cases current) (auto simp: enter_try_def next_empty_def Let_def bindR_eq_Inr mapR_def
        dest!: bucket_cas_holds split: if_splits)
next
  case (PTry h j k current)
  then have "waiting_try (case ch of Go spurious \<Rightarrow> spurious) Q h j k current = Inr (w', Q')"
    using assms(1) by (auto simp: wait2_step_def split: choice2.splits)
  then show ?thesis
    using assms(2) PTry
    by (cases current) (auto simp: waiting_try_def next_empty_def bindR_eq_Inr mapR_def
        dest!: bucket_cas_holds split: if_splits)
next
  case (WNotify x)
  then obtain x' where "notify_step t ch Q x = Some (Inr (x', Q'))"
    using assms(1) by (cases ch) (auto simp: wait2_step_def mapR_def bindR_eq_Inr)
  then show ?thesis using notify_step_holds assms(2) by blast
next
  case (WExpand e)
  then obtain e' where "expand_step t ch Q e = Some (Inr (e', Q'))"
    using assms(1) by (cases ch) (auto simp: wait2_step_def mapR_def bindR_eq_Inr)
  then show ?thesis using expand_step_holds assms(2) by blast
next
  case (PExpand e k)
  then obtain e' Q1 where e': "expand_step t ch Q e = Some (Inr (e', Q1))"
      "(w', Q') = (if e' = EDone then (WReady, drop2 Q1 k) else (PExpand e' k, Q1))"
    using assms(1) by (cases ch) (auto simp: wait2_step_def mapR_def bindR_eq_Inr)
  then have "holds2 Q1 g i (BWaiting v)" using assms(2) by (auto split: if_splits)
  then show ?thesis using expand_step_holds [OF e'(1)] by blast
qed (use assms in \<open>auto simp: wait2_step_def bindR_eq_Inr split: choice2.splits\<close>)

text \<open>A poll keeps its waker, and claims its bucket with it.\<close>

lemma wait2_step_owner:
  assumes "wait2_step t ch Q w = Some (Inr (w', Q'))"
  shows "(wait2_waker w' = None \<or> wait2_waker w' = wait2_waker w) \<and>
    (wait2_posted w' = Some (g, i) \<and> holds2 Q' g i (BWaiting v) \<longrightarrow>
       wait2_waker w = Some v \<or> wait2_posted w = Some (g, i) \<and> holds2 Q g i (BWaiting v))"
proof (cases w)
  case (WCas cx a)
  then have "enter_cas (case ch of Go spurious \<Rightarrow> spurious) Q cx a = Inr (w', Q')"
    using assms(1) by (auto simp: wait2_step_def split: choice2.splits)
  then show ?thesis
    using WCas by (auto simp: enter_cas_def Let_def bindR_eq_Inr split: if_splits)
next
  case (WTry h j k current)
  then have "enter_try (case ch of Go spurious \<Rightarrow> spurious) Q h j k current = Inr (w', Q')"
    using assms(1) by (auto simp: wait2_step_def split: choice2.splits)
  then show ?thesis
    using WTry by (cases current) (auto simp: enter_try_def Let_def bindR_eq_Inr dest: bucket_cas_put split: if_splits)
next
  case (PTry h j k current)
  then have "waiting_try (case ch of Go spurious \<Rightarrow> spurious) Q h j k current = Inr (w', Q')"
    using assms(1) by (auto simp: wait2_step_def split: choice2.splits)
  then show ?thesis
    using PTry by (cases current) (auto simp: waiting_try_def bindR_eq_Inr dest: bucket_cas_put split: if_splits)
next
  case (WNotify x)
  then obtain x' where "w' = (if x' = NDone then WReady else WNotify x')"
    using assms(1) by (cases ch) (auto simp: wait2_step_def mapR_def bindR_eq_Inr)
  then show ?thesis by auto
next
  case (WExpand e)
  then obtain e' where "w' = (if e' = EDone then WReady else WExpand e')"
    using assms(1) by (cases ch) (auto simp: wait2_step_def mapR_def bindR_eq_Inr)
  then show ?thesis by auto
next
  case (PExpand e k)
  then obtain e' Q1 where "expand_step t ch Q e = Some (Inr (e', Q1))"
      "(w', Q') = (if e' = EDone then (WReady, drop2 Q1 k) else (PExpand e' k, Q1))"
    using assms(1) by (cases ch) (auto simp: wait2_step_def mapR_def bindR_eq_Inr)
  then show ?thesis by (auto split: if_splits)
qed (use assms in \<open>auto simp: wait2_step_def bindR_eq_Inr split: choice2.splits if_splits\<close>)

section \<open>The wakers of all tasks\<close>

text \<open>
  A task that polls carries its latest waker, and if the bucket of a task with a claimed number
  holds a waker, then it is the latest of this task.
\<close>

definition latest2_ok :: "queue2 \<Rightarrow> (tid \<Rightarrow> copy_waker option) \<Rightarrow> (tid \<Rightarrow> q2_pc) \<Rightarrow> bool" where
  "latest2_ok Q K pcs \<longleftrightarrow>
     (\<forall>t k. q2_waker_of (pcs t) = Some k \<longrightarrow> K t = Some k) \<and>
     (\<forall>t g i v. q2_posted (pcs t) = Some (g, i) \<and> holds2 Q g i (BWaiting v) \<longrightarrow> K t = Some v)"

lemma latest2_okD:
  assumes "latest2_ok Q K pcs"
  shows "q2_waker_of (pcs t) = Some k \<Longrightarrow> K t = Some k"
    "q2_posted (pcs t) = Some (g, i) \<Longrightarrow> holds2 Q g i (BWaiting v) \<Longrightarrow> K t = Some v"
  using assms unfolding latest2_ok_def by blast+

text \<open>The bucket that a poll of another task is about to write is not that of a claimed number.\<close>

lemma posted_apart:
  assumes ok: "queue2_ok Q c R" and u: "R u = ticket_role g i True" and t: "R t = wait2_role w" "t \<noteq> u"
    and same: "same2 Q g i j" and x: "holds2 Q g i x"
  shows "\<not> (w = WTry g j v x \<and> x = BEmpty j \<or> w = PTry g j v x \<and> claimed2 x)"
proof
  assume w: "w = WTry g j v x \<and> x = BEmpty j \<or> w = PTry g j v x \<and> claimed2 x"
  obtain bs where bs: "q2_boxes Q g = Some bs" "bs \<noteq> []" "bs ! (unat i mod length bs) = x"
    using x by (auto simp: holds2_def)
  have b: "unat i mod length bs < length bs" "bs ! (unat i mod length bs) \<noteq> BTombstone"
    using bs w by auto
  note ring = queue2_ring(2) [OF ok ticket_known [OF ok u] bs(1) b]
  have tick_u: "(tick g \<circ> R) u = Some (unat i, True)" using u by simp
  note u_ok = ring2D(6) [OF ring tick_u]
  have eq: "unat j mod length bs = unat i mod length bs" using same bs(1) by (auto simp: same2_def)
  show False
  proof (cases "claimed2 x")
    case True
    then have "w = PTry g j v x" using w by auto
    then have tick_t: "(tick g \<circ> R) t = Some (unat j, True)" using t(1) by simp
    have "unat i = unat j"
      using u_ok ring2D(6) [OF ring tick_t] b(2) unfolding eq by (simp add: ticket2_ok_def)
    then show False using ring2D(7) [OF ring tick_t, of u True] tick_u t(2) by simp
  next
    case False
    then show False using u_ok bs(3) b(2) by (simp add: ticket2_ok_def)
  qed
qed

lemma latest2_poll:
  assumes own: "latest2_ok Q K pcs" and ok: "queue2_ok Q c (q2_role \<circ> pcs)"
    and t: "pcs t = Q2Poll w" and step: "wait2_step t ch Q w = Some (Inr (w', Q'))"
  shows "latest2_ok Q' K (pcs(t := wait2_settle w'))"
  unfolding latest2_ok_def
proof (intro conjI allI impI)
  fix u k assume "q2_waker_of ((pcs(t := wait2_settle w')) u) = Some k"
  then show "K u = Some k"
    using latest2_okD(1) [OF own, of u k] wait2_step_owner [OF step] t by (auto split: if_splits)
next
  fix u g i v assume u: "q2_posted ((pcs(t := wait2_settle w')) u) = Some (g, i) \<and> holds2 Q' g i (BWaiting v)"
  show "K u = Some v"
  proof (cases "u = t")
    case True
    then show ?thesis
      using wait2_step_owner [OF step, of g i v] latest2_okD [OF own, of t] t u by auto
  next
    case False
    then have role: "(q2_role \<circ> pcs) u = ticket_role g i True" using u by (simp add: posted_role)
    have "holds2 Q g i (BWaiting v)"
      using wait2_step_holds [OF step conjunct2 [OF u]] posted_apart [OF ok role, of t w] t False by auto
    then show ?thesis using latest2_okD(2) [OF own, of u g i v] u False by simp
  qed
qed

lemma latest2_same:
  assumes own: "latest2_ok Q K pcs" and "q2_waker_of p = None" "q2_posted p = None"
    and "\<And>g i v. holds2 Q' g i (BWaiting v) \<Longrightarrow> holds2 Q g i (BWaiting v)"
  shows "latest2_ok Q' K (pcs(t := p))"
  unfolding latest2_ok_def
proof (intro conjI allI impI)
  show "K u = Some k" if "q2_waker_of ((pcs(t := p)) u) = Some k" for u k
    using that latest2_okD(1) [OF own] assms(2) by (cases "u = t") simp_all
  show "K u = Some v" if "q2_posted ((pcs(t := p)) u) = Some (g, i) \<and> holds2 Q' g i (BWaiting v)" for u g i v
    using that latest2_okD(2) [OF own, of u g i v] assms(3) assms(4) [of g i v] by (cases "u = t") simp_all
qed

lemma latest2_step:
  assumes own: "latest2_ok (q2_queue s) K (q2_pcs s)" and inv: "q2_inv s"
    and step: "q2_machine (t, act) s = Some (Inr s')"
  shows "latest2_ok (q2_queue s') (last_wakers K [(t, act)]) (q2_pcs s')"
proof -
  obtain c where ok: "queue2_ok (q2_queue s) c (q2_role \<circ> q2_pcs s)" using inv by (auto simp: q2_inv_def)
  obtain p Q' where task: "q2_task t act (q2_queue s) (q2_pcs s t) = Some (Inr (p, Q'))"
    "s' = \<lparr>q2_queue = Q', q2_pcs = (q2_pcs s)(t := p)\<rparr>"
    using step by (auto simp: q2_machine_def q2_step_def mapR_def bindR_eq_Inr split: if_splits)
  have "latest2_ok Q' (last_wakers K [(t, act)]) ((q2_pcs s)(t := p))"
  proof (cases "q2_pcs s t")
    case Q2Idle
    then show ?thesis
      using task(1) by (cases act) (auto simp: q2_task_def intro!: latest2_same [OF own])
  next
    case (Q2Future step)
    show ?thesis
    proof (cases act)
      case (APoll cx)
      then have "Q' = q2_queue s" "q2_posted p = None" "q2_waker_of p = Some cx"
        using task(1) Q2Future by (cases step; auto simp: q2_task_def wait2_poll_def)+
      then show ?thesis using own APoll unfolding latest2_ok_def by auto
    next
      case ADrop
      then show ?thesis
        using task(1) Q2Future by (auto simp: q2_task_def bindR_eq_Inr mapR_def intro!: latest2_same [OF own])
    qed (use task(1) Q2Future in \<open>simp_all add: q2_task_def\<close>)
  next
    case (Q2Poll w)
    then obtain ch w' where "act = AStep ch" "wait2_step t ch (q2_queue s) w = Some (Inr (w', Q'))" "p = wait2_settle w'"
      using task(1) by (cases act) (auto simp: q2_task_def mapR_def bindR_eq_Inr)
    then show ?thesis using latest2_poll [OF own ok Q2Poll] by simp
  next
    case (Q2Notify x)
    then obtain ch x' where "act = AStep ch" "notify_step t ch (q2_queue s) x = Some (Inr (x', Q'))" "p = notify2_settle x'"
      using task(1) by (cases act) (auto simp: q2_task_def mapR_def bindR_eq_Inr)
    then show ?thesis using notify_step_holds by (auto intro!: latest2_same [OF own])
  qed
  then show ?thesis using task(2) by simp
qed

lemma last_wakers_Cons: "last_wakers K (e # es) = last_wakers (last_wakers K [e]) es"
  by (cases e; cases "snd e") simp_all

lemma latest2_run:
  assumes "latest2_ok (q2_queue s) K (q2_pcs s)" "q2_inv s" "run q2_machine es s = Some (Inr s')"
  shows "latest2_ok (q2_queue s') (last_wakers K es) (q2_pcs s')"
  using assms
proof (induction es arbitrary: s K)
  case Nil
  then show ?case by simp
next
  case (Cons e es)
  then obtain s1 where s1: "q2_machine e s = Some (Inr s1)" "run q2_machine es s1 = Some (Inr s')"
    by (auto split: option.splits sum.splits)
  have "q2_inv s1" by (rule q2.keep_inv [OF Cons.prems(2) s1(1)])
  then show ?case
    using Cons.IH [OF _ _ s1(2), of "last_wakers K [e]"] latest2_step [OF Cons.prems(1,2), of "fst e" "snd e" s1] s1(1)
    by (simp only: last_wakers_Cons [of K e es]) simp
qed

text \<open>
  C17: the buckets of waiters: the bucket of a suspended waiter, unless it is a tombstone, holds the
  waker that this waiter was polled with last, or that waker has been taken out and is being called,
  and two suspended waiters have different buckets unless these are tombstones.
\<close>

theorem queue2_waiters_apart:
  assumes "q2_init cap s0" "run q2_machine es s0 = Some (Inr s)" "q2_pcs s t = Q2Future (Waiting2 g i)"
    and "q2_boxes (q2_queue s) g = Some bs" "bs ! (unat i mod length bs) \<noteq> BTombstone"
  shows "g = a2_generation (q2_atom (q2_queue s)) \<and> unat i mod length bs < length bs \<and>
    (bs ! (unat i mod length bs) = BWaking \<or>
      (\<exists>v. bs ! (unat i mod length bs) = BWaiting v \<and> last_wakers (\<lambda>_. None) es t = Some v)) \<and>
    (\<forall>u j. q2_pcs s u = Q2Future (Waiting2 g j) \<and> unat j mod length bs = unat i mod length bs \<longrightarrow> u = t)"
proof -
  let ?R = "q2_role \<circ> q2_pcs s" and ?b = "unat i mod length bs"
  have start: "reach (q2_init cap) q2_machine s0" using assms(1) by (rule reach.start)
  obtain c where ok: "queue2_ok (q2_queue s) c ?R" by (rule queue2_reach_ok [OF run_reach [OF start assms(2)]])
  have "latest2_ok (q2_queue s0) (\<lambda>_. None) (q2_pcs s0)"
    using assms(1) by (auto simp: q2_init_def latest2_ok_def)
  then have own: "latest2_ok (q2_queue s) (last_wakers (\<lambda>_. None) es) (q2_pcs s)"
    using latest2_run assms(2) q2.reach_inv [OF start] by blast
  have t: "?R t = ticket_role g i True" using assms(3) by simp
  have b: "bs \<noteq> []" "?b < length bs" using shape2D(4) [OF queue2_okD(1) [OF ok] assms(4)] by simp_all
  note g = queue2_ring [OF ok ticket_known [OF ok t] assms(4) b(2) assms(5)]
  have tick: "(tick g \<circ> ?R) v = Some (unat j, True)" if "q2_pcs s v = Q2Future (Waiting2 g j)" for v j
    using that by simp
  note mine = ring2D(6) [OF g(2) tick [OF assms(3)]]
  have "u = t" if u: "q2_pcs s u = Q2Future (Waiting2 g j)" and same: "unat j mod length bs = ?b" for u j
  proof -
    have "unat j = unat i" using ring2D(6) [OF g(2) tick [OF u]] mine same assms(5) by (simp add: ticket2_ok_def)
    then show ?thesis using ring2D(7) [OF g(2) tick [OF u]] tick [OF assms(3)] by simp
  qed
  moreover have "last_wakers (\<lambda>_. None) es t = Some v" if "bs ! ?b = BWaiting v" for v
    using latest2_okD(2) [OF own, of t g i v] assms(3,4) b that by (simp add: holds2_def)
  moreover have "bs ! ?b = BWaking \<or> (\<exists>v. bs ! ?b = BWaiting v)"
    using mine assms(5) by (cases "bs ! ?b") (simp_all add: ticket2_ok_def)
  ultimately show ?thesis using b g(1) by (auto simp: cur2_def)
qed

text \<open>Task 1 waits and is polled again, with another waker.\<close>

definition q2_again_trace :: "(tid \<times> q2_act) list" where
  "q2_again_trace = q2_wait_trace @ (1, APoll (q2_waker 9)) # replicate 2 (1, AStep (Go False))"

theorem queue2_waiters_apart_witness:
  "q2_boxes (q2_queue (q2_after q2_again_trace)) 100 = Some [BWaiting (q2_waker 9)] \<and>
   last_wakers (\<lambda>_. None) q2_again_trace 1 = Some (q2_waker 9) \<and>
   q2_pcs (q2_after q2_again_trace) 2 \<noteq> Q2Future (Waiting2 100 0)"
proof -
  have "(case run q2_machine q2_again_trace q2_one of Some (Inr s) \<Rightarrow> True | _ \<Rightarrow> False)" by code_simp
  then have ran: "run q2_machine q2_again_trace q2_one = Some (Inr (q2_after q2_again_trace))"
    by (auto simp: q2_after_def split: option.splits sum.splits)
  have pc: "q2_pcs (q2_after q2_again_trace) 1 = Q2Future (Waiting2 100 0)" by code_simp
  have bs: "q2_boxes (q2_queue (q2_after q2_again_trace)) 100 = Some [BWaiting (q2_waker 9)]" by code_simp
  have all: "(\<exists>v. BWaiting (q2_waker 9) = BWaiting v \<and> last_wakers (\<lambda>_. None) q2_again_trace 1 = Some v) \<and>
     (\<forall>u j. q2_pcs (q2_after q2_again_trace) u = Q2Future (Waiting2 100 j) \<longrightarrow> u = 1)"
    using queue2_waiters_apart [OF q2_one_init ran pc bs] by simp
  show ?thesis using bs all by fastforce
qed

end
