(* ===== verification/Mutex2.thy ===== *)
theory Mutex2 imports Queue2_Poll begin

text \<open>
  \<open>src/futex2/mutex.rs\<close>: a mutex over the second futex. Its atom is 0 (free), 1 (locked) or 2
  (locked, and somebody may wait). A state is the atom, the queue and the place of every task.
\<close>

section \<open>lock and unlock\<close>

text \<open>
  A task is at the first compare-exchange of \<open>lock\<close> (\<open>M2First\<close>), at the top of its loop with the
  state that it has seen (\<open>M2Loop\<close>), in a poll of a wait (\<open>M2Wait\<close>), suspended (\<open>M2Pend\<close>), the owner
  of a guard (\<open>M2Held\<close>), in the loop of \<open>unlock\<close> (\<open>M2Unlock\<close>) or in its \<open>notify\<close> (\<open>M2Notify\<close>).
\<close>

datatype m2_pc =
  M2Idle
| M2First copy_waker
| M2Loop usize copy_waker
| M2Wait wait2 copy_waker
| M2Pend ptr usize_half
| M2Held
| M2Unlock usize
| M2Notify notify2

datatype m2_act = MLock copy_waker | MPoll copy_waker | MDrop | MStep choice2

record mutex2 =
  m2_atom :: usize
  m2_queue :: queue2
  m2_pcs :: "tid \<Rightarrow> m2_pc"

definition mutex2_new :: "ptr \<Rightarrow> mutex2 res" where
  "mutex2_new addr =
     bindR (with_capacity 1 addr) (\<lambda>Q. Inr \<lparr>m2_atom = 0, m2_queue = Q, m2_pcs = (\<lambda>_. M2Idle)\<rparr>)"

definition mutex2_first :: "usize \<Rightarrow> copy_waker \<Rightarrow> (m2_pc \<times> usize) res" where
  "mutex2_first a cx =
     bindR (cell_cmpxchg_weak False AcqRel Acquire a 0 1) (\<lambda>(ok, state, a).
       Inr (if ok then M2Held else M2Loop state cx, a))"

text \<open>A state other than 0, 1 and 2 would keep the loop spinning.\<close>

definition mutex2_loop :: "bool \<Rightarrow> usize \<Rightarrow> usize \<Rightarrow> copy_waker \<Rightarrow> (m2_pc \<times> usize) res" where
  "mutex2_loop spurious a state cx =
     (if state = 0 then
        bindR (cell_cmpxchg_weak spurious AcqRel Acquire a state 2) (\<lambda>(ok, state, a).
          Inr (if ok then M2Held else M2Loop state cx, a))
      else if state = 1 then
        bindR (cell_cmpxchg_weak spurious AcqRel Acquire a state 2) (\<lambda>(ok, state, a).
          Inr (if ok then M2Loop 2 cx else M2Loop state cx, a))
      else if state = 2 then mapR (\<lambda>w. (M2Wait w cx, a)) (wait2_poll cx Entering2)
      else Inl Diverges)"

text \<open>The condition of the wait: the atom is still 2. After the wait the loop goes on with state 0.\<close>

definition mutex2_settle :: "copy_waker \<Rightarrow> wait2 \<Rightarrow> m2_pc" where
  "mutex2_settle cx w = (case w of WPend g i \<Rightarrow> M2Pend g i | WReady \<Rightarrow> M2Loop 0 cx | w \<Rightarrow> M2Wait w cx)"

definition mutex2_wait :: "tid \<Rightarrow> choice2 \<Rightarrow> usize \<Rightarrow> queue2 \<Rightarrow> wait2 \<Rightarrow> (wait2 \<times> queue2) res option" where
  "mutex2_wait t ch a Q w =
     (case w of
        WCond g i waker \<Rightarrow> (case ch of
          Go _ \<Rightarrow> (case cell_load Acquire a of
              Inl x \<Rightarrow> Some (Inl x)
            | Inr state \<Rightarrow> wait2_step t (Answer (state = 2)) Q w)
        | _ \<Rightarrow> None)
      | _ \<Rightarrow> wait2_step t ch Q w)"

definition mutex2_unlock :: "bool \<Rightarrow> usize \<Rightarrow> usize \<Rightarrow> (m2_pc \<times> usize) res" where
  "mutex2_unlock spurious a atom =
     bindR (cell_cmpxchg_weak spurious AcqRel Relaxed a atom 0) (\<lambda>(ok, atom, a).
       Inr (if ok then if atom = 2 then M2Notify (NLoad 1) else M2Idle else M2Unlock atom, a))"

definition mutex2_task ::
  "tid \<Rightarrow> m2_act \<Rightarrow> usize \<Rightarrow> queue2 \<Rightarrow> m2_pc \<Rightarrow> (m2_pc \<times> usize \<times> queue2) res option" where
  "mutex2_task t act a Q p =
     (let on_atom = mapR (\<lambda>(p, a). (p, a, Q)) in
      case (p, act) of
        (M2Idle, MLock cx) \<Rightarrow> Some (Inr (M2First cx, a, Q))
      | (M2First cx, MStep (Go _)) \<Rightarrow> Some (on_atom (mutex2_first a cx))
      | (M2Loop state cx, MStep (Go spurious)) \<Rightarrow> Some (on_atom (mutex2_loop spurious a state cx))
      | (M2Wait w cx, MStep ch) \<Rightarrow>
          map_option (mapR (\<lambda>(w, Q). (mutex2_settle cx w, a, Q))) (mutex2_wait t ch a Q w)
      | (M2Pend g i, MPoll cx) \<Rightarrow> Some (mapR (\<lambda>w. (M2Wait w cx, a, Q)) (wait2_poll cx (Waiting2 g i)))
      | (M2Pend g i, MDrop) \<Rightarrow> Some (mapR (\<lambda>_. (M2Idle, a, Q)) (wait2_drop (Waiting2 g i)))
      | (M2Held, MDrop) \<Rightarrow> Some (Inr (M2Unlock 1, a, Q))
      | (M2Unlock atom, MStep (Go spurious)) \<Rightarrow> Some (on_atom (mutex2_unlock spurious a atom))
      | (M2Notify x, MStep ch) \<Rightarrow>
          map_option (mapR (\<lambda>(x, Q). (if x = NDone then M2Idle else M2Notify x, a, Q))) (notify_step t ch Q x)
      | _ \<Rightarrow> None)"

definition mutex2_step :: "(tid \<times> m2_act, mutex2) machine" where
  "mutex2_step = (\<lambda>(t, act) s.
     map_option (mapR (\<lambda>(p, a, Q). \<lparr>m2_atom = a, m2_queue = Q, m2_pcs = (m2_pcs s)(t := p)\<rparr>))
       (mutex2_task t act (m2_atom s) (m2_queue s) (m2_pcs s t)))"

text \<open>The bound of the queue.\<close>

definition mutex2_allowed :: "m2_act \<Rightarrow> m2_pc \<Rightarrow> bool" where
  "mutex2_allowed act p =
     (case (p, act) of
        (M2Wait w cx, MStep ch) \<Rightarrow> wait2_small ch w
      | (M2Notify x, MStep ch) \<Rightarrow> notify_small ch x
      | _ \<Rightarrow> True)"

definition mutex2_machine :: "(tid \<times> m2_act, mutex2) machine" where
  "mutex2_machine = (\<lambda>(t, act) s.
     if mutex2_allowed act (m2_pcs s t) then mutex2_step (t, act) s else None)"

definition mutex2_init :: "mutex2 \<Rightarrow> bool" where
  "mutex2_init s \<longleftrightarrow> (\<exists>addr. addr \<noteq> null \<and> mutex2_new addr = Inr s)"

end
