(* ===== verification/Mutex2_Spec.thy ===== *)
theory Mutex2_Spec imports Mutex2 Queue2_Spec begin

text \<open>
  What \<open>src/futex2/mutex.rs\<close> promises and what it does not: its faults, exclusion, and a use of the
  queue within its contract; but a run in which a wake-up is lost.
\<close>

section \<open>The mutex as a client of the queue\<close>

fun m2_queue_pc :: "m2_pc \<Rightarrow> q2_pc" where
  "m2_queue_pc (M2Wait w cx) = Q2Poll w"
| "m2_queue_pc (M2Pend g i) = Q2Future (Waiting2 g i)"
| "m2_queue_pc (M2Notify x) = Q2Notify x"
| "m2_queue_pc _ = Q2Idle"

definition m2_view :: "mutex2 \<Rightarrow> q2_state" where
  "m2_view s = \<lparr>q2_queue = m2_queue s, q2_pcs = m2_queue_pc \<circ> m2_pcs s\<rparr>"

section \<open>The owner\<close>

fun m2_holds :: "m2_pc \<Rightarrow> bool" where
  "m2_holds M2Held = True"
| "m2_holds (M2Unlock a) = True"
| "m2_holds _ = False"

fun m2_pc_ok :: "m2_pc \<Rightarrow> bool" where
  "m2_pc_ok (M2Loop state cx) = (state \<in> {0, 1, 2})"
| "m2_pc_ok _ = True"

definition owner2 :: "usize \<Rightarrow> (tid \<Rightarrow> m2_pc) \<Rightarrow> tid option \<Rightarrow> bool" where
  "owner2 a pcs own \<longleftrightarrow> a \<in> {0, 1, 2} \<and> (a = 0 \<longleftrightarrow> own = None) \<and>
     (\<forall>t. m2_holds (pcs t) \<longleftrightarrow> own = Some t) \<and> (\<forall>t. m2_pc_ok (pcs t))"

lemma owner2_keep:
  "owner2 a pcs own \<Longrightarrow> m2_holds p = m2_holds (pcs t) \<Longrightarrow> m2_pc_ok p \<Longrightarrow> a' \<in> {0, 1, 2} \<Longrightarrow>
     (a' = 0 \<longleftrightarrow> a = 0) \<Longrightarrow> owner2 a' (pcs(t := p)) own"
  by (auto simp: owner2_def)

lemma owner2_same:
  "owner2 a pcs own \<Longrightarrow> m2_holds p = m2_holds (pcs t) \<Longrightarrow> m2_pc_ok p \<Longrightarrow> owner2 a (pcs(t := p)) own"
  by (auto simp: owner2_def)

lemma owner2_values: "owner2 a pcs own \<Longrightarrow> a \<in> {0, 1, 2}" "owner2 a pcs own \<Longrightarrow> m2_pc_ok (pcs t)"
  by (auto simp: owner2_def)

lemma owner2_acquire:
  "owner2 0 pcs own \<Longrightarrow> a \<in> {1, 2} \<Longrightarrow> owner2 a (pcs(t := M2Held)) (Some t)"
  by (auto simp: owner2_def)

lemma owner2_release:
  "owner2 a pcs own \<Longrightarrow> m2_holds (pcs t) \<Longrightarrow> \<not> m2_holds p \<Longrightarrow> m2_pc_ok p \<Longrightarrow> owner2 0 (pcs(t := p)) None"
  by (auto simp: owner2_def)

section \<open>Steps\<close>

definition m2_good :: "mutex2 \<Rightarrow> tid \<Rightarrow> (m2_pc \<times> usize \<times> queue2) res \<Rightarrow> bool" where
  "m2_good s t r \<longleftrightarrow> (\<exists>p a Q own es. r = Inr (p, a, Q) \<and> owner2 a ((m2_pcs s)(t := p)) own \<and>
     run q2_machine es (m2_view s) =
       Some (Inr \<lparr>q2_queue = Q, q2_pcs = (q2_pcs (m2_view s))(t := m2_queue_pc p)\<rparr>))"

lemma m2_goodI:
  assumes "owner2 a ((m2_pcs s)(t := p)) own" "run q2_machine es (m2_view s) =
       Some (Inr \<lparr>q2_queue = Q, q2_pcs = (q2_pcs (m2_view s))(t := m2_queue_pc p)\<rparr>)"
  shows "m2_good s t (Inr (p, a, Q))"
  using assms by (auto simp: m2_good_def)

text \<open>A step on the atom alone.\<close>

lemma m2_good_atom:
  assumes "owner2 a ((m2_pcs s)(t := p)) own" "m2_queue_pc p = m2_queue_pc (m2_pcs s t)"
  shows "m2_good s t (Inr (p, a, m2_queue s))"
proof (rule m2_goodI [OF assms(1)])
  show "run q2_machine [] (m2_view s) =
       Some (Inr \<lparr>q2_queue = m2_queue s, q2_pcs = (q2_pcs (m2_view s))(t := m2_queue_pc p)\<rparr>)"
    by (simp add: m2_view_def assms(2) fun_upd_idem)
qed

lemma q2_machine_simps:
  "q2_machine (t, act) \<lparr>q2_queue = Q, q2_pcs = pcs\<rparr> = (if q2_allowed act (pcs t) then
     map_option (mapR (\<lambda>(p, Q). \<lparr>q2_queue = Q, q2_pcs = pcs(t := p)\<rparr>)) (q2_task t act Q (pcs t)) else None)"
  by (simp add: q2_machine_def q2_step_def)

text \<open>The faults of the queue in it.\<close>

definition m2_fault :: "m2_act \<Rightarrow> queue2 \<Rightarrow> m2_pc \<Rightarrow> fault option" where
  "m2_fault act Q p =
     (case (p, act) of
        (M2Pend g i, MDrop) \<Rightarrow> Some Todo
      | (M2Wait w cx, MStep ch) \<Rightarrow> wait2_fault ch Q w
      | (M2Notify x, MStep ch) \<Rightarrow> notify_fault ch x
      | _ \<Rightarrow> None)"

lemma view_wait_faults:
  assumes inv: "q2_inv (m2_view s)" and t: "m2_pcs s t = M2Wait w cx" and r: "wait2_step t ch (m2_queue s) w = Some r"
  shows "r = Inl x \<longleftrightarrow> wait2_fault ch (m2_queue s) w = Some x"
proof -
  have "q2_task t (AStep ch) (q2_queue (m2_view s)) (q2_pcs (m2_view s) t) = Some (mapR (\<lambda>(w, Q). (wait2_settle w, Q)) r)"
    using t r by (simp add: m2_view_def q2_task_def)
  from q2_task_faults [OF inv this, of x] show ?thesis
    using t by (cases r) (auto simp: m2_view_def q2_fault_def)
qed

lemma view_notify_faults:
  assumes inv: "q2_inv (m2_view s)" and t: "m2_pcs s t = M2Notify y" and r: "notify_step t ch (m2_queue s) y = Some r"
  shows "r = Inl x \<longleftrightarrow> notify_fault ch y = Some x"
proof -
  have "q2_task t (AStep ch) (q2_queue (m2_view s)) (q2_pcs (m2_view s) t) = Some (mapR (\<lambda>(x, Q). (notify2_settle x, Q)) r)"
    using t r by (simp add: m2_view_def q2_task_def)
  from q2_task_faults [OF inv this, of x] show ?thesis
    using t by (cases r) (auto simp: m2_view_def q2_fault_def)
qed

lemma mutex2_wait_step:
  assumes "mutex2_wait t ch a Q w = Some r"
  obtains ch' where "wait2_step t ch' Q w = Some r" "wait2_fault ch' Q w = wait2_fault ch Q w"
    "wait2_small ch' w = wait2_small ch w"
  using assms
  by (cases w) (auto simp: mutex2_wait_def wait2_fault_def wait2_small_def split: choice2.splits intro: that)

text \<open>A step of a wait: the queue takes it, and a future that is ready is dropped.\<close>

lemma m2_wait_good:
  assumes own: "owner2 (m2_atom s) (m2_pcs s) own" and reach: "reach (q2_init 1) q2_machine (m2_view s)"
    and t: "m2_pcs s t = M2Wait w cx" and small: "wait2_small ch w"
    and r: "wait2_step t ch (m2_queue s) w = Some r" and fault: "wait2_fault ch (m2_queue s) w = None"
  shows "m2_good s t (mapR (\<lambda>(w, Q). (mutex2_settle cx w, m2_atom s, Q)) r)"
proof -
  let ?pcs = "q2_pcs (m2_view s)"
  have view: "m2_view s = \<lparr>q2_queue = m2_queue s, q2_pcs = ?pcs\<rparr>" "?pcs t = Q2Poll w"
    using t by (simp_all add: m2_view_def)
  have step: "q2_machine (t, AStep ch) (m2_view s) =
      Some (mapR (\<lambda>(w, Q). \<lparr>q2_queue = Q, q2_pcs = ?pcs(t := wait2_settle w)\<rparr>) r)"
    by (subst view(1), subst q2_machine_simps)
      (simp add: view(2) q2_allowed_def small q2_task_def r mapR_def bindR_def split: sum.split)
  obtain w' Q where r': "r = Inr (w', Q)"
    using view_wait_faults [OF q2.reach_inv [OF reach] t r] fault by (cases r) auto
  then have step: "q2_machine (t, AStep ch) (m2_view s) =
      Some (Inr \<lparr>q2_queue = Q, q2_pcs = ?pcs(t := wait2_settle w')\<rparr>)"
    using step by simp
  have "owner2 (m2_atom s) ((m2_pcs s)(t := mutex2_settle cx w')) own"
    using t by (intro owner2_same [OF own]; cases w'; simp add: mutex2_settle_def)
  moreover have "\<exists>es. run q2_machine es (m2_view s) =
       Some (Inr \<lparr>q2_queue = Q, q2_pcs = ?pcs(t := m2_queue_pc (mutex2_settle cx w'))\<rparr>)"
  proof (cases "w' = WReady")
    case True
    then have "run q2_machine [(t, AStep ch), (t, ADrop)] (m2_view s) =
         Some (Inr \<lparr>q2_queue = Q, q2_pcs = ?pcs(t := m2_queue_pc (mutex2_settle cx w'))\<rparr>)"
      using step by (simp add: q2_machine_simps wait2_settle_def mutex2_settle_def q2_allowed_def q2_task_def wait2_drop_def)
    then show ?thesis by blast
  next
    case False
    then have "m2_queue_pc (mutex2_settle cx w') = wait2_settle w'"
      by (cases w') (simp_all add: mutex2_settle_def wait2_settle_def)
    then have "run q2_machine [(t, AStep ch)] (m2_view s) =
         Some (Inr \<lparr>q2_queue = Q, q2_pcs = ?pcs(t := m2_queue_pc (mutex2_settle cx w'))\<rparr>)"
      using step by simp
    then show ?thesis by blast
  qed
  ultimately show ?thesis using r' by (auto simp: m2_good_def)
qed

lemma m2_first_good:
  assumes own: "owner2 (m2_atom s) (m2_pcs s) own" and t: "m2_pcs s t = M2First cx"
  shows "m2_good s t (mapR (\<lambda>(p, a). (p, a, m2_queue s)) (mutex2_first (m2_atom s) cx))"
proof (cases "m2_atom s = 0")
  case True
  then have "owner2 1 ((m2_pcs s)(t := M2Held)) (Some t)" using own by (intro owner2_acquire) auto
  then show ?thesis using True t m2_good_atom [of 1 s t M2Held] by (simp add: mutex2_first_def)
next
  case False
  have "owner2 (m2_atom s) ((m2_pcs s)(t := M2Loop (m2_atom s) cx)) own"
    using owner2_same [OF own, of "M2Loop (m2_atom s) cx" t] owner2_values(1) [OF own] t by simp
  then show ?thesis using False t m2_good_atom [of "m2_atom s" s t "M2Loop (m2_atom s) cx"]
    by (simp add: mutex2_first_def)
qed

lemma m2_loop_good:
  assumes own: "owner2 (m2_atom s) (m2_pcs s) own" and t: "m2_pcs s t = M2Loop state cx"
  shows "m2_good s t (mapR (\<lambda>(p, a). (p, a, m2_queue s)) (mutex2_loop spurious (m2_atom s) state cx))"
proof -
  let ?a = "m2_atom s"
  have a: "?a \<in> {0, 1, 2}" and st: "state \<in> {0, 1, 2}"
    using owner2_values(1) [OF own] owner2_values(2) [OF own, of t] t by simp_all
  have again: "m2_good s t (Inr (M2Loop b cx, a', m2_queue s))"
    if "b \<in> {0, 1, 2}" "a' \<in> {0, 1, 2}" "a' = 0 \<longleftrightarrow> ?a = 0" for a' b
    using m2_good_atom [OF owner2_keep [OF own, of "M2Loop b cx" t a']] that t by simp
  have held: "m2_good s t (Inr (M2Held, 2, m2_queue s))" if "?a = 0"
    using m2_good_atom [OF owner2_acquire [of "m2_pcs s" own 2 t]] own that t by simp
  consider "state = 0" | "state = 1" | "state = 2" using st by auto
  then show ?thesis
  proof cases
    case 1
    then show ?thesis using again [of ?a ?a] held a by (auto simp: mutex2_loop_def)
  next
    case 2
    then show ?thesis using again [of ?a ?a] again [of 2 2] a by (auto simp: mutex2_loop_def)
  next
    case 3
    have "m2_good s t (Inr (M2Wait (WLoad cx) cx, ?a, m2_queue s))"
    proof (rule m2_goodI)
      show "owner2 ?a ((m2_pcs s)(t := M2Wait (WLoad cx) cx)) own"
        using owner2_same [OF own, of "M2Wait (WLoad cx) cx" t] t by simp
      show "run q2_machine [(t, AWaitIf), (t, APoll cx)] (m2_view s) = Some (Inr \<lparr>q2_queue = m2_queue s,
          q2_pcs = (q2_pcs (m2_view s))(t := m2_queue_pc (M2Wait (WLoad cx) cx))\<rparr>)"
        using t by (simp add: m2_view_def q2_machine_simps q2_allowed_def q2_task_def wait2_poll_def)
    qed
    then show ?thesis using 3 by (simp add: mutex2_loop_def wait2_poll_def)
  qed
qed

lemma m2_unlock_good:
  assumes own: "owner2 (m2_atom s) (m2_pcs s) own" and t: "m2_pcs s t = M2Unlock atom"
  shows "m2_good s t (mapR (\<lambda>(p, a). (p, a, m2_queue s)) (mutex2_unlock spurious (m2_atom s) atom))"
proof -
  let ?a = "m2_atom s"
  have again: "m2_good s t (Inr (M2Unlock ?a, ?a, m2_queue s))"
    using m2_good_atom [OF owner2_same [OF own, of "M2Unlock ?a" t]] t by simp
  have free: "owner2 0 ((m2_pcs s)(t := p)) None" if "\<not> m2_holds p" "m2_pc_ok p" for p
    using owner2_release [OF own, of t] that t by simp
  have idle: "m2_good s t (Inr (M2Idle, 0, m2_queue s))" using m2_good_atom [OF free] t by simp
  have notify: "m2_good s t (Inr (M2Notify (NLoad 1), 0, m2_queue s))"
  proof (rule m2_goodI [OF free])
    show "run q2_machine [(t, ANotify 1)] (m2_view s) = Some (Inr \<lparr>q2_queue = m2_queue s,
        q2_pcs = (q2_pcs (m2_view s))(t := m2_queue_pc (M2Notify (NLoad 1)))\<rparr>)"
      using t by (simp add: m2_view_def q2_machine_simps q2_allowed_def q2_task_def)
  qed simp_all
  show ?thesis
    using again idle notify by (auto simp: mutex2_unlock_def)
qed

lemma m2_notify_good:
  assumes own: "owner2 (m2_atom s) (m2_pcs s) own" and reach: "reach (q2_init 1) q2_machine (m2_view s)"
    and t: "m2_pcs s t = M2Notify x" and small: "notify_small ch x"
    and r: "notify_step t ch (m2_queue s) x = Some r" and fault: "notify_fault ch x = None"
  shows "m2_good s t (mapR (\<lambda>(x, Q). (if x = NDone then M2Idle else M2Notify x, m2_atom s, Q)) r)"
proof -
  let ?pcs = "q2_pcs (m2_view s)"
  have view: "m2_view s = \<lparr>q2_queue = m2_queue s, q2_pcs = ?pcs\<rparr>" "?pcs t = Q2Notify x"
    using t by (simp_all add: m2_view_def)
  have step: "q2_machine (t, AStep ch) (m2_view s) =
      Some (mapR (\<lambda>(x, Q). \<lparr>q2_queue = Q, q2_pcs = ?pcs(t := notify2_settle x)\<rparr>) r)"
    by (subst view(1), subst q2_machine_simps)
      (simp add: view(2) q2_allowed_def small q2_task_def r mapR_def bindR_def split: sum.split)
  obtain x' Q where r': "r = Inr (x', Q)"
    using view_notify_faults [OF q2.reach_inv [OF reach] t r] fault by (cases r) auto
  let ?p = "if x' = NDone then M2Idle else M2Notify x'"
  have "m2_queue_pc ?p = notify2_settle x'" by (cases x') (simp_all add: notify2_settle_def)
  then have "run q2_machine [(t, AStep ch)] (m2_view s) =
      Some (Inr \<lparr>q2_queue = Q, q2_pcs = ?pcs(t := m2_queue_pc ?p)\<rparr>)"
    using step r' by simp
  moreover have "owner2 (m2_atom s) ((m2_pcs s)(t := ?p)) own"
    using owner2_same [OF own, of ?p t] t by simp
  ultimately have "m2_good s t (Inr (?p, m2_atom s, Q))" by (intro m2_goodI)
  then show ?thesis using r' by simp
qed

lemma mutex2_allowed_simp:
  "mutex2_allowed (MStep ch) (M2Wait w cx) = wait2_small ch w" "mutex2_allowed (MStep ch) (M2Notify x) = notify_small ch x"
  by (simp_all add: mutex2_allowed_def)

lemma m2_fault_simp:
  "m2_fault (MStep ch) Q (M2Wait w cx) = wait2_fault ch Q w" "m2_fault (MStep ch) Q (M2Notify x) = notify_fault ch x"
  by (simp_all add: m2_fault_def)

lemma mutex2_task_good:
  assumes own: "owner2 (m2_atom s) (m2_pcs s) own" and reach: "reach (q2_init 1) q2_machine (m2_view s)"
    and small: "mutex2_allowed act (m2_pcs s t)" "m2_fault act (m2_queue s) (m2_pcs s t) = None"
    and r: "mutex2_task t act (m2_atom s) (m2_queue s) (m2_pcs s t) = Some r"
  shows "m2_good s t r"
proof (cases "m2_pcs s t")
  case M2Idle
  then obtain cx where "r = Inr (M2First cx, m2_atom s, m2_queue s)"
    using r by (cases act) (auto simp: mutex2_task_def)
  then show ?thesis
    using m2_good_atom [OF owner2_same [OF own, of "M2First cx" t]] M2Idle by simp
next
  case (M2First cx)
  then obtain b where "r = mapR (\<lambda>(p, a). (p, a, m2_queue s)) (mutex2_first (m2_atom s) cx)"
    using r by (auto simp: mutex2_task_def split: m2_act.splits choice2.splits)
  then show ?thesis using m2_first_good [OF own M2First] by simp
next
  case (M2Loop state cx)
  then obtain b where "r = mapR (\<lambda>(p, a). (p, a, m2_queue s)) (mutex2_loop b (m2_atom s) state cx)"
    using r by (auto simp: mutex2_task_def split: m2_act.splits choice2.splits)
  then show ?thesis using m2_loop_good [OF own M2Loop] by simp
next
  case (M2Wait w cx)
  obtain ch r' where r': "act = MStep ch" "mutex2_wait t ch (m2_atom s) (m2_queue s) w = Some r'"
    "r = mapR (\<lambda>(w, Q). (mutex2_settle cx w, m2_atom s, Q)) r'"
    using r M2Wait by (auto simp: mutex2_task_def split: m2_act.splits)
  obtain ch' where "wait2_step t ch' (m2_queue s) w = Some r'" "wait2_small ch' w" "wait2_fault ch' (m2_queue s) w = None"
    using mutex2_wait_step [OF r'(2)] small M2Wait r'(1) by (metis mutex2_allowed_simp(1) m2_fault_simp(1))
  then show ?thesis using m2_wait_good [OF own reach M2Wait] r'(3) by simp
next
  case (M2Pend g i)
  then obtain cx where act: "act = MPoll cx"
    using r small by (cases act) (auto simp: mutex2_task_def m2_fault_def)
  have "m2_good s t (Inr (M2Wait (PLoad g i cx) cx, m2_atom s, m2_queue s))"
  proof (rule m2_goodI)
    show "owner2 (m2_atom s) ((m2_pcs s)(t := M2Wait (PLoad g i cx) cx)) own"
      using owner2_same [OF own, of "M2Wait (PLoad g i cx) cx" t] M2Pend by simp
    show "run q2_machine [(t, APoll cx)] (m2_view s) = Some (Inr \<lparr>q2_queue = m2_queue s,
        q2_pcs = (q2_pcs (m2_view s))(t := m2_queue_pc (M2Wait (PLoad g i cx) cx))\<rparr>)"
      using M2Pend by (simp add: m2_view_def q2_machine_simps q2_allowed_def q2_task_def wait2_poll_def)
  qed
  then show ?thesis using r act M2Pend by (simp add: mutex2_task_def wait2_poll_def)
next
  case M2Held
  then have "r = Inr (M2Unlock 1, m2_atom s, m2_queue s)" using r by (cases act) (auto simp: mutex2_task_def)
  then show ?thesis
    using m2_good_atom [OF owner2_same [OF own, of "M2Unlock 1" t]] M2Held by simp
next
  case (M2Unlock atom)
  then obtain b where "r = mapR (\<lambda>(p, a). (p, a, m2_queue s)) (mutex2_unlock b (m2_atom s) atom)"
    using r by (auto simp: mutex2_task_def split: m2_act.splits choice2.splits)
  then show ?thesis using m2_unlock_good [OF own M2Unlock] by simp
next
  case (M2Notify x)
  obtain ch r' where r': "act = MStep ch" "notify_step t ch (m2_queue s) x = Some r'"
    "r = mapR (\<lambda>(x, Q). (if x = NDone then M2Idle else M2Notify x, m2_atom s, Q)) r'"
    using r M2Notify by (auto simp: mutex2_task_def split: m2_act.splits)
  then show ?thesis using m2_notify_good [OF own reach M2Notify _ r'(2)] small M2Notify
    by (simp add: mutex2_allowed_simp m2_fault_simp)
qed

definition m2_inv :: "mutex2 \<Rightarrow> bool" where
  "m2_inv s \<longleftrightarrow> (\<exists>own. owner2 (m2_atom s) (m2_pcs s) own) \<and> reach (q2_init 1) q2_machine (m2_view s)"

lemma mutex2_task_faults:
  assumes inv: "m2_inv s" and r: "mutex2_task t act (m2_atom s) (m2_queue s) (m2_pcs s t) = Some r"
  shows "r = Inl x \<longleftrightarrow> m2_fault act (m2_queue s) (m2_pcs s t) = Some x"
proof -
  obtain own where own: "owner2 (m2_atom s) (m2_pcs s) own" and reach: "reach (q2_init 1) q2_machine (m2_view s)"
    using inv by (auto simp: m2_inv_def)
  note view = q2.reach_inv [OF reach]
  show ?thesis
  proof (cases "m2_pcs s t")
    case (M2Wait w cx)
    then obtain ch r' where r': "act = MStep ch" "mutex2_wait t ch (m2_atom s) (m2_queue s) w = Some r'"
      "r = mapR (\<lambda>(w, Q). (mutex2_settle cx w, m2_atom s, Q)) r'"
      using r by (auto simp: mutex2_task_def split: m2_act.splits)
    obtain ch' where ch': "wait2_step t ch' (m2_queue s) w = Some r'"
      "wait2_fault ch' (m2_queue s) w = wait2_fault ch (m2_queue s) w"
      using mutex2_wait_step [OF r'(2)] .
    have "r = Inl x \<longleftrightarrow> r' = Inl x" using r'(3) by (cases r') auto
    then show ?thesis using view_wait_faults [OF view M2Wait ch'(1), of x] ch'(2) M2Wait r'(1) by (simp add: m2_fault_simp)
  next
    case (M2Notify y)
    then obtain ch r' where r': "act = MStep ch" "notify_step t ch (m2_queue s) y = Some r'"
      "r = mapR (\<lambda>(x, Q). (if x = NDone then M2Idle else M2Notify x, m2_atom s, Q)) r'"
      using r by (auto simp: mutex2_task_def split: m2_act.splits)
    have "r = Inl x \<longleftrightarrow> r' = Inl x" using r'(3) by (cases r') auto
    then show ?thesis using view_notify_faults [OF view M2Notify r'(2), of x] M2Notify r'(1) by (simp add: m2_fault_simp)
  next
    case (M2Pend g i)
    then show ?thesis
      using r by (cases act) (auto simp: mutex2_task_def m2_fault_def wait2_poll_def wait2_drop_def)
  qed (use mutex2_task_good [OF own reach _ _ r] in \<open>auto simp: m2_good_def m2_fault_def mutex2_allowed_def\<close>)
qed

interpretation m2: returning_system mutex2_init mutex2_machine m2_inv
proof
  fix s assume "mutex2_init s"
  then obtain addr Q where s: "addr \<noteq> null" "with_capacity 1 addr = Inr Q" "s = \<lparr>m2_atom = 0, m2_queue = Q, m2_pcs = (\<lambda>_. M2Idle)\<rparr>"
    by (auto simp: mutex2_init_def mutex2_new_def bindR_eq_Inr)
  then have "q2_init 1 (m2_view s)" by (auto simp: q2_init_def m2_view_def comp_def)
  moreover have "owner2 (m2_atom s) (m2_pcs s) None" using s by (simp add: owner2_def)
  ultimately show "m2_inv s" by (auto simp: m2_inv_def intro: reach.start)
next
  fix s e s' assume inv: "m2_inv s" and s': "mutex2_machine e s = Some (Inr s')"
  obtain t act where e: "e = (t, act)" by (cases e)
  obtain own where own: "owner2 (m2_atom s) (m2_pcs s) own" and reach: "reach (q2_init 1) q2_machine (m2_view s)"
    using inv by (auto simp: m2_inv_def)
  obtain r' where r': "mutex2_allowed act (m2_pcs s t)"
    "mutex2_task t act (m2_atom s) (m2_queue s) (m2_pcs s t) = Some r'"
    "Inr s' = mapR (\<lambda>(p, a, Q). \<lparr>m2_atom = a, m2_queue = Q, m2_pcs = (m2_pcs s)(t := p)\<rparr>) r'"
    using s' e by (auto simp: mutex2_machine_def mutex2_step_def split: if_splits)
  have "m2_fault act (m2_queue s) (m2_pcs s t) = None"
    using mutex2_task_faults [OF inv r'(2)] r'(3) by (cases "m2_fault act (m2_queue s) (m2_pcs s t)"; cases r') auto
  then obtain p a Q own' es where g: "r' = Inr (p, a, Q)" "owner2 a ((m2_pcs s)(t := p)) own'"
    "run q2_machine es (m2_view s) = Some (Inr \<lparr>q2_queue = Q, q2_pcs = (q2_pcs (m2_view s))(t := m2_queue_pc p)\<rparr>)"
    using mutex2_task_good [OF own reach r'(1) _ r'(2)] by (auto simp: m2_good_def)
  let ?s = "\<lparr>m2_atom = a, m2_queue = Q, m2_pcs = (m2_pcs s)(t := p)\<rparr>"
  have "m2_view ?s = \<lparr>q2_queue = Q, q2_pcs = (q2_pcs (m2_view s))(t := m2_queue_pc p)\<rparr>"
    by (simp add: m2_view_def fun_upd_comp)
  then have "reach (q2_init 1) q2_machine (m2_view ?s)" using run_reach [OF reach g(3)] by simp
  then show "m2_inv s'" using r'(3) g(1,2) by (auto simp: m2_inv_def)
qed

section \<open>Properties\<close>

lemma mutex2_reach_inv: "reach mutex2_init mutex2_machine s \<Longrightarrow> m2_inv s"
  by (rule m2.reach_inv)

text \<open>
  C19: the mutex excludes: at most one task owns it, and the atom is 0 exactly while no task does; and a
  step of the code that can be taken fails exactly when \<open>m2_fault\<close> says so: when a suspended \<open>lock\<close> is
  dropped, which is the \<open>todo!()\<close> of \<open>WaitFuture\<close>, or by an overflow in its wait or its notification.
\<close>

theorem mutex2_exclusion:
  assumes "reach mutex2_init mutex2_machine s"
  shows "(m2_holds (m2_pcs s t) \<and> m2_holds (m2_pcs s u) \<longrightarrow> t = u) \<and>
    (m2_atom s = 0 \<longleftrightarrow> (\<forall>v. \<not> m2_holds (m2_pcs s v))) \<and> m2_atom s \<in> {0, 1, 2} \<and>
    (mutex2_step (w, act) s = Some r \<longrightarrow>
      (r = Inl x \<longleftrightarrow> m2_fault act (m2_queue s) (m2_pcs s w) = Some x))"
proof -
  obtain own where own: "owner2 (m2_atom s) (m2_pcs s) own"
    using mutex2_reach_inv [OF assms] by (auto simp: m2_inv_def)
  then have "m2_holds (m2_pcs s t) \<and> m2_holds (m2_pcs s u) \<longrightarrow> t = u"
    "m2_atom s = 0 \<longleftrightarrow> (\<forall>v. \<not> m2_holds (m2_pcs s v))" "m2_atom s \<in> {0, 1, 2}"
    by (auto simp: owner2_def)
  moreover have "r = Inl x \<longleftrightarrow> m2_fault act (m2_queue s) (m2_pcs s w) = Some x"
    if step: "mutex2_step (w, act) s = Some r"
  proof -
    obtain r' where r': "mutex2_task w act (m2_atom s) (m2_queue s) (m2_pcs s w) = Some r'"
      "r = mapR (\<lambda>(p, a, Q). \<lparr>m2_atom = a, m2_queue = Q, m2_pcs = (m2_pcs s)(w := p)\<rparr>) r'"
      using step by (auto simp: mutex2_step_def)
    have "r = Inl x \<longleftrightarrow> r' = Inl x" using r'(2) by (cases r') auto
    then show ?thesis using mutex2_task_faults [OF mutex2_reach_inv [OF assms] r'(1)] by simp
  qed
  ultimately show ?thesis by blast
qed

text \<open>
  C20: the mutex is a client of the queue that keeps its contract: what every run does to the queue is
  a run of the machine of the queue, so that all its properties hold in the mutex.
\<close>

theorem mutex2_uses_queue:
  assumes "reach mutex2_init mutex2_machine s"
  shows "reach (q2_init 1) q2_machine \<lparr>q2_queue = m2_queue s, q2_pcs = m2_queue_pc \<circ> m2_pcs s\<rparr>"
  using mutex2_reach_inv [OF assms] by (simp add: m2_inv_def m2_view_def)

section \<open>A lost wake-up\<close>

definition m2_waker :: "ptr \<Rightarrow> copy_waker" where
  "m2_waker x = \<lparr>cw_data = x, cw_vtable = 40\<rparr>"

definition m2_one :: mutex2 where
  "m2_one = (case mutex2_new 100 of Inr s \<Rightarrow> s | Inl _ \<Rightarrow> undefined)"

definition m2_after :: "(tid \<times> m2_act) list \<Rightarrow> mutex2" where
  "m2_after es = (case run mutex2_machine es m2_one of Some (Inr s) \<Rightarrow> s | _ \<Rightarrow> m2_one)"

definition m2_steps :: "tid \<Rightarrow> nat \<Rightarrow> (tid \<times> m2_act) list" where
  "m2_steps t n = replicate n (t, MStep (Go False))"

lemma m2_one_init: "mutex2_init m2_one"
  by (auto simp: mutex2_init_def m2_one_def mutex2_new_def with_capacity_def generation_new_def intro!: exI [of _ 100])

lemma m2_after_reach: "reach mutex2_init mutex2_machine (m2_after es)"
proof -
  have start: "reach mutex2_init mutex2_machine m2_one" by (rule reach.start) (rule m2_one_init)
  then show ?thesis
    using run_reach [OF start, of es] by (auto simp: m2_after_def split: option.splits sum.splits)
qed

text \<open>A task that takes no step stays in its place.\<close>

lemma m2_after_other:
  assumes "\<And>act. (t, act) \<notin> set es"
  shows "m2_pcs (m2_after es) t = M2Idle"
proof -
  have "m2_pcs s' t = m2_pcs s t" if "run mutex2_machine es s = Some (Inr s')" for s s'
    using that assms
  proof (induction es arbitrary: s)
    case (Cons e es)
    then obtain s1 where s1: "mutex2_machine e s = Some (Inr s1)" "run mutex2_machine es s1 = Some (Inr s')"
      by (auto split: option.splits sum.splits)
    moreover have "fst e \<noteq> t" using Cons.prems(2) [of "snd e"] by (cases e) auto
    ultimately have "m2_pcs s1 t = m2_pcs s t"
      by (cases e) (auto simp: mutex2_machine_def mutex2_step_def mapR_def bindR_eq_Inr split: if_splits)
    then show ?case using Cons.IH [OF s1(2)] Cons.prems(2) by auto
  qed simp
  moreover have "m2_pcs m2_one t = M2Idle"
    by (simp add: m2_one_def mutex2_new_def with_capacity_def generation_new_def)
  ultimately show ?thesis by (auto simp: m2_after_def split: option.splits sum.splits)
qed

text \<open>
  Task 0 owns the mutex; tasks 1 and 2 wait for it in a generation of four buckets; task 3 has seen
  the state 2 and is about to wait. Task 0 unlocks and wakes task 1. Now task 3 takes number 2, claims
  its bucket, finds that the atom is not 2 and passes a notification on, which goes to number 1, that
  is to task 2; its own waker stays in its bucket. Task 1 gets the mutex; tasks 3 and 2 wait again,
  with the numbers 3 and 4. Task 1 unlocks, and its notification goes to number 2.
\<close>

definition m2_setup_trace :: "(tid \<times> m2_act) list" where
  "m2_setup_trace =
     (0, MLock (m2_waker 0)) # m2_steps 0 1 @ (1, MLock (m2_waker 1)) # m2_steps 1 7 @
     (2, MLock (m2_waker 2)) # m2_steps 2 9 @ (2, MStep (Alloc 200)) # m2_steps 2 3 @
     (1, MPoll (m2_waker 1)) # m2_steps 1 10 @ m2_steps 2 6 @
     (3, MLock (m2_waker 3)) # m2_steps 3 11 @ (3, MStep (Alloc 300)) # m2_steps 3 5 @
     (1, MPoll (m2_waker 1)) # m2_steps 1 10 @ (2, MPoll (m2_waker 2)) # m2_steps 2 10"

definition m2_lost_trace :: "(tid \<times> m2_act) list" where
  "m2_lost_trace = m2_setup_trace @
     (0, MDrop) # m2_steps 0 7 @ m2_steps 3 9 @ (1, MPoll (m2_waker 1)) # m2_steps 1 3 @ m2_steps 3 6 @
     (2, MPoll (m2_waker 2)) # m2_steps 2 8 @ (1, MDrop) # m2_steps 1 7 @ (3, MPoll (m2_waker 3)) # m2_steps 3 2"

text \<open>
  C21: a wake-up can be lost: a state is reachable in which the mutex is free and no task is at work,
  yet two tasks are suspended in \<open>lock\<close>, with their wakers still in their buckets, uncalled.
\<close>

theorem mutex2_lost_wakeup:
  "\<exists>s. reach mutex2_init mutex2_machine s \<and> m2_atom s = 0 \<and>
     m2_pcs s = (\<lambda>_. M2Idle)(2 := M2Pend 300 4, 3 := M2Pend 300 3) \<and>
     bucket_load (m2_queue s) 300 4 = Inr (BWaiting (m2_waker 2)) \<and>
     bucket_load (m2_queue s) 300 3 = Inr (BWaiting (m2_waker 3))"
proof (intro exI conjI)
  let ?s = "m2_after m2_lost_trace"
  show "reach mutex2_init mutex2_machine ?s" by (rule m2_after_reach)
  have "(case run mutex2_machine m2_lost_trace m2_one of
      Some (Inr s) \<Rightarrow> m2_atom s = 0 \<and> m2_pcs s 0 = M2Idle \<and> m2_pcs s 1 = M2Idle \<and>
        m2_pcs s 2 = M2Pend 300 4 \<and> m2_pcs s 3 = M2Pend 300 3 \<and>
        bucket_load (m2_queue s) 300 4 = Inr (BWaiting (m2_waker 2)) \<and>
        bucket_load (m2_queue s) 300 3 = Inr (BWaiting (m2_waker 3))
    | _ \<Rightarrow> False)"
    by code_simp
  then have all: "m2_atom ?s = 0" "m2_pcs ?s 0 = M2Idle" "m2_pcs ?s 1 = M2Idle" "m2_pcs ?s 2 = M2Pend 300 4"
      "m2_pcs ?s 3 = M2Pend 300 3" "bucket_load (m2_queue ?s) 300 4 = Inr (BWaiting (m2_waker 2))"
      "bucket_load (m2_queue ?s) 300 3 = Inr (BWaiting (m2_waker 3))"
    by (auto simp: m2_after_def split: option.splits sum.splits)
  show "m2_atom ?s = 0" "bucket_load (m2_queue ?s) 300 4 = Inr (BWaiting (m2_waker 2))"
    "bucket_load (m2_queue ?s) 300 3 = Inr (BWaiting (m2_waker 3))" by (rule all)+
  show "m2_pcs ?s = (\<lambda>_. M2Idle)(2 := M2Pend 300 4, 3 := M2Pend 300 3)"
  proof
    fix t
    show "m2_pcs ?s t = ((\<lambda>_. M2Idle)(2 := M2Pend 300 4, 3 := M2Pend 300 3)) t"
    proof (cases "t = 0 \<or> t = 1 \<or> t = 2 \<or> t = 3")
      case True
      then show ?thesis using all by auto
    next
      case False
      then have "(t, act) \<notin> set m2_lost_trace" for act
        by (auto simp: m2_lost_trace_def m2_setup_trace_def m2_steps_def)
      then show ?thesis using m2_after_other False by simp
    qed
  qed
qed

section \<open>Witnesses\<close>

definition m2_held_trace :: "(tid \<times> m2_act) list" where
  "m2_held_trace = (0, MLock (m2_waker 0)) # m2_steps 0 1 @ (1, MLock (m2_waker 1)) # m2_steps 1 7"

theorem mutex2_exclusion_witness:
  "m2_holds (m2_pcs (m2_after m2_held_trace) 0) \<and> \<not> m2_holds (m2_pcs (m2_after m2_held_trace) 1) \<and>
   mutex2_step (1, MDrop) (m2_after m2_held_trace) = Some (Inl Todo)"
proof -
  have pcs: "m2_holds (m2_pcs (m2_after m2_held_trace) 0)" "m2_pcs (m2_after m2_held_trace) 1 = M2Pend 100 0"
    "(case mutex2_step (1, MDrop) (m2_after m2_held_trace) of None \<Rightarrow> False | _ \<Rightarrow> True)"
    by code_simp+
  then obtain r where r: "mutex2_step (1, MDrop) (m2_after m2_held_trace) = Some r" by (auto split: option.splits)
  note all = mutex2_exclusion [OF m2_after_reach, of m2_held_trace 0 1 1 MDrop r Todo]
  have "r = Inl Todo" using all r pcs(2) by (simp add: m2_fault_def)
  then show ?thesis using all r pcs(1,2) by auto
qed

theorem mutex2_uses_queue_witness:
  "reach (q2_init 1) q2_machine \<lparr>q2_queue = m2_queue (m2_after m2_held_trace),
     q2_pcs = m2_queue_pc \<circ> m2_pcs (m2_after m2_held_trace)\<rparr> \<and>
   m2_queue_pc (m2_pcs (m2_after m2_held_trace) 1) = Q2Future (Waiting2 100 0)"
proof
  show "m2_queue_pc (m2_pcs (m2_after m2_held_trace) 1) = Q2Future (Waiting2 100 0)" by code_simp
qed (rule mutex2_uses_queue [OF m2_after_reach])

end
