(* ===== verification/Condvar.thy ===== *)
theory Condvar imports Fair_Mutex begin

text \<open>
  \<open>src/condvar.rs\<close>: a condition variable for the fair mutex. Its atom is 0 or the address of the
  mutex that it is used with. \<open>wait\<close> queues its waiter on the futex of the condition variable and
  unlocks the mutex; \<open>notify\<close>, which needs a guard, moves waiters from there to the futex of the
  mutex, where \<open>unlock\<close> will wake them as if they had called \<open>lock\<close>. The futex of the condition
  variable is at \<open>c\<close>, that of the mutex at \<open>f\<close>, and the mutex itself at \<open>m\<close>.
\<close>

section \<open>notify\<close>

text \<open>
  The accesses of \<open>notify\<close>, in the order of the code: \<open>TLock\<close> takes the read guard of the
  condition variable, \<open>TBorrow\<close> borrows its queues, \<open>TEnqueue\<close> is the loop around
  \<open>cmpxchg_enqueue_weak\<close> and the \<open>pop_many\<close> after it, \<open>TUnborrow\<close> ends the borrow, \<open>TLockM\<close> takes the
  read guard of the mutex. \<open>requeue\<close> stores the futex of every waiter (\<open>TStore\<close>, with the rest of
  the iterator) and pushes the list (\<open>TPush\<close>); then the guards go, in the reverse order
  (\<open>TUnlockM\<close>, \<open>TUnlock\<close>).
\<close>

datatype transfer_pc =
  TLock raw_futex_atom
| TBorrow raw_futex_atom
| TEnqueue raw_futex_atom
| TUnborrow waiter_list
| TLockM waiter_list
| TStore waiter_list waiter_list
| TPush waiter_list raw_futex_atom
| TUnlockM
| TUnlock
| TDone

definition condvar_notify :: "ptr \<Rightarrow> usize \<Rightarrow> world \<Rightarrow> transfer_pc res" where
  "condvar_notify c m W =
     bindR (futex_load AcquireT W c) (\<lambda>atom.
       let mutex = inner id atom in
       if mutex = 0 then Inr TDone
       else if m \<noteq> mutex then Inl Panic
       else Inr (TLock atom))"

definition condvar_pop :: "ptr \<Rightarrow> usize \<Rightarrow> world \<Rightarrow> (transfer_pc \<times> world) res" where
  "condvar_pop c count W = bindR (queue_pop_many W c count 0) (\<lambda>(list, W). Inr (TUnborrow list, W))"

definition requeue_start :: "waiter_list \<Rightarrow> transfer_pc" where
  "requeue_start list = (if wl_head list = null then TUnlockM else TStore list list)"

definition condvar_notify_step ::
  "bool \<Rightarrow> tid \<Rightarrow> ptr \<Rightarrow> ptr \<Rightarrow> usize \<Rightarrow> usize \<Rightarrow> world \<Rightarrow> transfer_pc \<Rightarrow> (transfer_pc \<times> world) res option" where
  "condvar_notify_step spurious t c f m count W n =
     (case n of
        TLock atom \<Rightarrow> map_option (mapR (Pair (TBorrow atom))) (futex_lock t W c)
      | TBorrow atom \<Rightarrow> Some (mapR (Pair (TEnqueue atom)) (queue_lock W c))
      | TEnqueue atom \<Rightarrow> Some (
          bindR (cmpxchg_enqueue_weak spurious AcquireT RelaxedT W c atom m) (\<lambda>(ok, atom, W).
            if ok then condvar_pop c count W else Inr (TEnqueue atom, W)))
      | TUnborrow list \<Rightarrow> Some (mapR (Pair (TLockM list)) (queue_unlock W c))
      | TLockM list \<Rightarrow> map_option (mapR (Pair (requeue_start list))) (futex_lock t W f)
      | TStore list iter \<Rightarrow> Some (
          bindR (handle_iter_next (heap W) iter) (\<lambda>(iter, next).
            case next of
              Some waiter \<Rightarrow> mapR (Pair (TStore list iter)) (requeue_store W f waiter)
            | None \<Rightarrow> bindR (futex_load AcquireT W f) (\<lambda>atom. Inr (TPush list atom, W))))
      | TPush list atom \<Rightarrow> Some (
          bindR (requeue_iter spurious W f list atom) (\<lambda>(r, W).
            Inr (case r of Some atom \<Rightarrow> TPush list atom | None \<Rightarrow> TUnlockM, W)))
      | TUnlockM \<Rightarrow> Some (mapR (Pair TUnlock) (futex_unlock t W f))
      | TUnlock \<Rightarrow> Some (mapR (Pair TDone) (futex_unlock t W c))
      | TDone \<Rightarrow> None)"

section \<open>wait\<close>

text \<open>
  A task is in an operation of the mutex or between two of them (\<open>VFair\<close>), at the top of the loop
  of \<open>wait\<close> (\<open>VTop\<close>), in the \<open>unlock\<close> that the first poll runs once the waiter is queued
  (\<open>VUnlock\<close>), suspended (\<open>VPending\<close>), in a later poll (\<open>VPolling\<close>), in the drop of a suspended
  \<open>wait\<close> (\<open>VDrop\<close>, and \<open>VCancel\<close> in the \<open>unlock\<close> of \<open>on_cancel_woken\<close>), or in \<open>notify\<close>.
\<close>

datatype cond_pc =
  VFair fair_pc
| VTop ptr raw_futex_atom copy_waker
| VUnlock wait_future unlock_pc
| VPending wait_future
| VPolling wait_future copy_waker waiter_waker
| VDrop ptr drop_pc
| VCancel ptr unlock_pc
| VNotify usize transfer_pc

text \<open>The guard that \<open>wait\<close> is called with is forgotten: the task owns the mutex without it.\<close>

definition condvar_wait :: "ptr \<Rightarrow> copy_waker \<Rightarrow> ptr \<Rightarrow> world \<Rightarrow> (cond_pc \<times> world) res option" where
  "condvar_wait c cx addr W =
     (case new_waiter W c 0 0 addr of
        None \<Rightarrow> None
      | Some W \<Rightarrow> Some (bindR (futex_load RelaxedT W c) (\<lambda>atom. Inr (VTop addr atom cx, W))))"

text \<open>After a poll of the wait; \<open>pend\<close> is where the task goes when it is pending.\<close>

definition condvar_polled ::
  "(wait_future \<Rightarrow> cond_pc) \<Rightarrow> copy_waker \<Rightarrow> waiter_waker poll \<times> wait_future \<times> world \<Rightarrow>
     (cond_pc \<times> world) res" where
  "condvar_polled pend cx = (\<lambda>(r, wait, W).
     case r of
       Pending \<Rightarrow> Inr (pend wait, W)
     | Loop k \<Rightarrow> Inr (VPolling wait cx k, W)
     | Ready woken \<Rightarrow>
         if woken then mapR (Pair (VFair Held)) (waiter_drop W (wf_waiter wait))
         else Inr (VTop (wf_waiter wait) (wf_current wait) cx, W))"

definition condvar_wait_iter ::
  "bool \<Rightarrow> ptr \<Rightarrow> usize \<Rightarrow> world \<Rightarrow> ptr \<Rightarrow> raw_futex_atom \<Rightarrow> copy_waker \<Rightarrow> (cond_pc \<times> world) res" where
  "condvar_wait_iter spurious c m W waiter current cx =
     (let atom = inner id current in
      bindR (ensure (atom = 0 \<or> atom = m)) (\<lambda>_.
      bindR (cmpxchg_wait_weak W c waiter current m) (\<lambda>wait.
      bindR (future_poll spurious cx W wait) (condvar_polled (\<lambda>wait. VUnlock wait ULock) cx))))"

text \<open>
  The drop of a suspended \<open>wait\<close>. Where its waiter has not been woken, the closure
  \<open>on_cancel_sleeping\<close> is \<open>todo!()\<close>.
\<close>

definition cond_drop :: "world \<Rightarrow> wait_future \<Rightarrow> (cond_pc \<times> world) res" where
  "cond_drop W wait =
     bindR (future_drop W wait) (\<lambda>d.
       case d of
         Some d \<Rightarrow> Inr (VDrop (wf_waiter wait) d, W)
       | None \<Rightarrow> mapR (Pair (VFair Idle)) (waiter_drop W (wf_waiter wait)))"

definition cond_drop_step ::
  "bool \<Rightarrow> tid \<Rightarrow> world \<Rightarrow> ptr \<Rightarrow> drop_pc \<Rightarrow> (cond_pc \<times> world) res option" where
  "cond_drop_step spurious t W waiter d =
     (case d of
        DropFinish \<Rightarrow> Some (
          bindR (drop_finish W waiter) (\<lambda>(woken, W).
            if woken then Inr (VCancel waiter ULock, W) else Inl Todo))
      | _ \<Rightarrow> map_option (mapR (\<lambda>(d, W). (VDrop waiter d, W))) (drop_step spurious t W waiter d))"

section \<open>The machine\<close>

text \<open>
  Beside the events of the mutex, a task that owns a guard may poll a new \<open>wait\<close> or call \<open>notify\<close>
  with some count; \<open>condvar_notify_all\<close> is the count \<open>usize::MAX\<close>.
\<close>

datatype cond_action = Act action | Wait copy_waker ptr | Notify usize

definition condvar_notify_all :: cond_action where
  "condvar_notify_all = Notify usize_MAX"

record cond_state =
  cv_world :: world
  cv_pc :: "tid \<Rightarrow> cond_pc"

definition cond_task ::
  "ptr \<Rightarrow> ptr \<Rightarrow> usize \<Rightarrow> tid \<Rightarrow> cond_action \<Rightarrow> world \<Rightarrow> cond_pc \<Rightarrow> (cond_pc \<times> world) res option" where
  "cond_task c f m t act W p =
     (case (p, act) of
        (VFair p, Act act) \<Rightarrow> map_option (mapR (\<lambda>(p, W). (VFair p, W))) (fair_task f t act W p)
      | (VFair Held, Wait cx addr) \<Rightarrow> condvar_wait c cx addr W
      | (VFair Held, Notify count) \<Rightarrow> Some (
          bindR (condvar_notify c m W) (\<lambda>n.
            Inr (if n = TDone then VFair Held else VNotify count n, W)))
      | (VTop waiter atom cx, Act (Run spurious)) \<Rightarrow> Some (condvar_wait_iter spurious c m W waiter atom cx)
      | (VUnlock wait u, Act (Run spurious)) \<Rightarrow>
          map_option (mapR (\<lambda>(u, W). (if u = UDone then VPending wait else VUnlock wait u, W)))
            (unlock_step spurious t f W u)
      | (VPending wait, Act (Poll cx _)) \<Rightarrow> Some (
          bindR (future_poll False cx W wait) (condvar_polled VPending cx))
      | (VPolling wait cx k, Act (Run spurious)) \<Rightarrow> Some (
          bindR (future_loop spurious cx W wait k) (condvar_polled VPending cx))
      | (VPending wait, Act Drop) \<Rightarrow> Some (cond_drop W wait)
      | (VDrop waiter d, Act (Run spurious)) \<Rightarrow> cond_drop_step spurious t W waiter d
      | (VCancel waiter u, Act (Run spurious)) \<Rightarrow>
          map_option (\<lambda>r. bindR r (\<lambda>(u, W).
            if u = UDone then mapR (\<lambda>(p, W). (VFair p, W)) (lock_cancelled W waiter)
            else Inr (VCancel waiter u, W)))
            (unlock_step spurious t f W u)
      | (VNotify count n, Act (Run spurious)) \<Rightarrow>
          map_option (mapR (\<lambda>(n, W). (if n = TDone then VFair Held else VNotify count n, W)))
            (condvar_notify_step spurious t c f m count W n)
      | _ \<Rightarrow> None)"

definition cond_step :: "ptr \<Rightarrow> ptr \<Rightarrow> usize \<Rightarrow> (tid \<times> cond_action, cond_state) machine" where
  "cond_step c f m = (\<lambda>(t, act) s.
     map_option (mapR (\<lambda>(p, W). s\<lparr>cv_world := W, cv_pc := (cv_pc s)(t := p)\<rparr>))
       (cond_task c f m t act (cv_world s) (cv_pc s t)))"

text \<open>\<open>Condvar::new\<close> and \<open>Mutex::new\<close>.\<close>

definition cond_new :: "ptr \<Rightarrow> ptr \<Rightarrow> cond_state" where
  "cond_new c f =
     \<lparr>cv_world = \<lparr>heap = Map.empty, futexes = [c \<mapsto> futex_new 0 1, f \<mapsto> futex_new 0 1],
                  clones = [], wakes = [], drops = []\<rparr>,
      cv_pc = (\<lambda>_. VFair Idle)\<rparr>"

text \<open>
  The machine of \<open>N\<close> tasks, of which none drops a suspended \<open>wait\<close>.
\<close>

fun drops_wait :: "cond_action \<Rightarrow> cond_pc \<Rightarrow> bool" where
  "drops_wait (Act Drop) (VPending wait) = True"
| "drops_wait act p = False"

definition cond_machine :: "nat \<Rightarrow> ptr \<Rightarrow> ptr \<Rightarrow> usize \<Rightarrow> (tid \<times> cond_action, cond_state) machine" where
  "cond_machine N c f m = (\<lambda>(t, act) s.
     if t < N \<and> \<not> drops_wait act (cv_pc s t) then cond_step c f m (t, act) s else None)"

end
