(* ===== verification/Futex_Frame.thy ===== *)
theory Futex_Frame imports Fair_Mutex begin

text \<open>
  Operations on a part of the memory. The program of a futex runs on the waiters and the futexes
  that it reaches; where it succeeds on that part alone, it does the same on the whole memory and
  leaves the rest as it was. With this, what is proved of one futex holds beside another.
\<close>

section \<open>Results\<close>

text \<open>Where the left side succeeds, so does the right side, with a related result.\<close>

definition sim_res :: "('a \<Rightarrow> 'b \<Rightarrow> bool) \<Rightarrow> 'a res \<Rightarrow> 'b res \<Rightarrow> bool" where
  "sim_res Q r1 r \<longleftrightarrow> (\<forall>x. r1 = Inr x \<longrightarrow> (\<exists>y. r = Inr y \<and> Q x y))"

lemma sim_fault [simp]: "sim_res Q (Inl e) r"
  by (simp add: sim_res_def)

lemma sim_value [simp]: "sim_res Q (Inr x) (Inr y) = Q x y"
  by (simp add: sim_res_def)

lemma sim_same [simp]: "sim_res (=) r r"
  by (simp add: sim_res_def)

lemma sim_bind:
  "sim_res P r1 r \<Longrightarrow> (\<And>x y. P x y \<Longrightarrow> sim_res Q (k1 x) (k y)) \<Longrightarrow> sim_res Q (bindR r1 k1) (bindR r k)"
  by (cases r1) (auto simp: sim_res_def)

lemma sim_map: "sim_res P r1 r \<Longrightarrow> (\<And>x y. P x y \<Longrightarrow> Q (f x) (g y)) \<Longrightarrow> sim_res Q (mapR f r1) (mapR g r)"
  by (cases r1) (auto simp: sim_res_def)

lemma sim_weaken: "sim_res P r1 r \<Longrightarrow> (\<And>x y. P x y \<Longrightarrow> Q x y) \<Longrightarrow> sim_res Q r1 r"
  by (auto simp: sim_res_def)

section \<open>Heaps\<close>

definition heap_rel :: "ptr set \<Rightarrow> heap \<Rightarrow> heap \<Rightarrow> heap \<Rightarrow> bool" where
  "heap_rel A h0 h1 h \<longleftrightarrow> h1 = h |` A \<and> (\<forall>p. p \<notin> A \<longrightarrow> h p = h0 p)"

definition heap_rel2 :: "ptr set \<Rightarrow> heap \<Rightarrow> heap \<times> 'a \<Rightarrow> heap \<times> 'a \<Rightarrow> bool" where
  "heap_rel2 A h0 x y \<longleftrightarrow> heap_rel A h0 (fst x) (fst y) \<and> snd x = snd y"

lemma heap_rel2_pair [simp]: "heap_rel2 A h0 (h1, x) (h, y) = (heap_rel A h0 h1 h \<and> x = y)"
  by (simp add: heap_rel2_def)

lemma deref_frame: "heap_rel A h0 h1 h \<Longrightarrow> sim_res (=) (deref h1 p) (deref h p)"
  by (auto simp: heap_rel_def deref_def sim_res_def restrict_map_def split: if_splits option.splits)

lemma modify_frame: "heap_rel A h0 h1 h \<Longrightarrow> sim_res (heap_rel A h0) (modify F h1 p) (modify F h p)"
proof -
  assume r: "heap_rel A h0 h1 h"
  have "heap_rel A h0 (h1(p \<mapsto> F w)) (h(p \<mapsto> F w))" if "deref h1 p = Inr w" for w
    using r that
    by (auto simp: heap_rel_def deref_def restrict_map_def fun_eq_iff split: if_splits option.splits)
  then show ?thesis
    using deref_frame [OF r, of p] by (auto simp: modify_def sim_res_def bindR_eq_Inr)
qed

lemma waiter_frame:
  assumes "heap_rel A h0 h1 h"
  shows "sim_res (=) (waiter_get_waker h1 p) (waiter_get_waker h p)"
    "sim_res (=) (waiter_futex h1 p) (waiter_futex h p)"
    "sim_res (=) (waiter_next h1 p) (waiter_next h p)"
    "sim_res (=) (waiter_prev h1 p) (waiter_prev h p)"
    "sim_res (=) (waiter_queue h1 p) (waiter_queue h p)"
    "sim_res (heap_rel A h0) (set_next h1 p q) (set_next h p q)"
    "sim_res (heap_rel A h0) (set_prev h1 p q) (set_prev h p q)"
    "sim_res (heap_rel A h0) (set_waker h1 p k) (set_waker h p k)"
    "sim_res (heap_rel A h0) (set_futex h1 p q) (set_futex h p q)"
  unfolding waiter_get_waker_def waiter_futex_def waiter_next_def waiter_prev_def waiter_queue_def
    set_next_def set_prev_def set_waker_def set_futex_def
  by (auto intro!: sim_map [OF deref_frame [OF assms]] modify_frame [OF assms])

text \<open>One rule for a read that is followed by anything, and one for a write.\<close>

lemma sim_read:
  "sim_res (=) r1 r \<Longrightarrow> (\<And>x. sim_res Q (k1 x) (k x)) \<Longrightarrow> sim_res Q (bindR r1 k1) (bindR r k)"
  by (rule sim_bind [where P = "(=)"]) auto

lemma sim_pair:
  "sim_res (heap_rel2 A h0) r1 r \<Longrightarrow> (\<And>h1 h x. heap_rel A h0 h1 h \<Longrightarrow> sim_res Q (k1 (h1, x)) (k (h, x))) \<Longrightarrow>
     sim_res Q (bindR r1 k1) (bindR r k)"
  by (rule sim_bind [where P = "heap_rel2 A h0"]) (auto simp: heap_rel2_def)

section \<open>Lists\<close>

lemma pop_front_frame:
  assumes "heap_rel A h0 h1 h"
  shows "sim_res (heap_rel2 A h0) (pop_front h1 l) (pop_front h l)"
  unfolding pop_front_def Let_def
  by (auto intro!: sim_read waiter_frame [OF assms] sim_bind [where P = "heap_rel A h0"] waiter_frame assms)

lemma push_back_frame:
  assumes "heap_rel A h0 h1 h"
  shows "sim_res (heap_rel2 A h0) (push_back h1 l w) (push_back h l w)"
  unfolding push_back_def
  by (auto intro!: sim_bind [where P = "heap_rel A h0"] waiter_frame assms)

lemma remove_waiter_frame:
  assumes "heap_rel A h0 h1 h"
  shows "sim_res (heap_rel2 A h0) (remove_waiter h1 l w) (remove_waiter h l w)"
  unfolding remove_waiter_def
  by (auto intro!: sim_read waiter_frame [OF assms] sim_pair sim_map [where P = "heap_rel A h0"]
      waiter_frame assms)

lemma skip_links_frame:
  assumes "heap_rel A h0 h1 h"
  shows "sim_res (=) (skip_links h1 p n) (skip_links h p n)"
proof (induction n arbitrary: p)
  case (Suc n)
  then show ?case by (auto intro!: sim_read waiter_frame [OF assms])
qed simp

lemma pop_front_many_frame:
  assumes "heap_rel A h0 h1 h"
  shows "sim_res (heap_rel2 A h0) (pop_front_many h1 l count) (pop_front_many h l count)"
  unfolding pop_front_many_def Let_def
  by (auto intro!: sim_read skip_links_frame [OF assms] waiter_frame [OF assms]
      sim_bind [where P = "heap_rel A h0"] waiter_frame simp: assms)

text \<open>The loops: where the one on the part ends, the other one does.\<close>

lemma from_stack_loop_ends:
  assumes "from_stack_loop h1 p = Some y" "y = Inr (h1', q)" "heap_rel A h0 h1 h"
  shows "\<exists>h'. from_stack_loop h p = Some (Inr (h', q)) \<and> heap_rel A h0 h1' h'"
  using assms
proof (induction h1 p y arbitrary: h rule: from_stack_loop.raw_induct [rotated, consumes 1, case_names step])
  case (step loop h1 p y)
  have "\<exists>prev. waiter_prev h1 p = Inr prev"
    using step.hyps step.prems by (auto split: sum.splits)
  then obtain prev where prev: "waiter_prev h1 p = Inr prev" ..
  then have prev': "waiter_prev h p = Inr prev"
    using waiter_frame(4) [OF step.prems(2), of p] by (auto simp: sim_res_def)
  show ?case
  proof (cases "prev = null")
    case True
    then show ?thesis
      using step.hyps step.prems prev prev' by (subst from_stack_loop.simps) auto
  next
    case False
    then obtain h2 where h2: "set_next h1 prev p = Inr h2" "loop h2 prev = Some y"
      using step.hyps step.prems prev by (auto split: sum.splits)
    obtain h' where h': "set_next h prev p = Inr h'" "heap_rel A h0 h2 h'"
      using waiter_frame(6) [OF step.prems(2), of prev p] h2(1) by (auto simp: sim_res_def)
    show ?thesis
      using step.IH [OF h2(2) step.prems(1) h'(2)] False prev' h'(1)
      by (subst from_stack_loop.simps) simp
  qed
qed

lemma total_Inr: "total r = Inr x \<longleftrightarrow> r = Some (Inr x)"
  by (cases r) auto

lemma from_stack_frame:
  assumes "heap_rel A h0 h1 h"
  shows "sim_res (heap_rel2 A h0) (from_stack h1 p) (from_stack h p)"
proof -
  have "sim_res (heap_rel2 A h0) (total (from_stack_loop h1 p)) (total (from_stack_loop h p))"
    unfolding sim_res_def total_Inr by (auto dest: from_stack_loop_ends [OF _ refl assms])
  then show ?thesis
    unfolding from_stack_def by (auto intro!: sim_pair simp: assms)
qed

lemma enqueue_loop_ends:
  assumes "enqueue_loop h1 l qs = Some y" "y = Inr (h1', qs')" "heap_rel A h0 h1 h"
  shows "\<exists>h'. enqueue_loop h l qs = Some (Inr (h', qs')) \<and> heap_rel A h0 h1' h'"
  using assms
proof (induction h1 l qs y arbitrary: h rule: enqueue_loop.raw_induct [rotated, consumes 1, case_names step])
  case (step loop h1 l qs y)
  obtain h2 l2 o2 where pop: "pop_front h1 l = Inr (h2, l2, o2)"
    using step.hyps step.prems by (auto split: sum.splits)
  obtain h3 where pop': "pop_front h l = Inr (h3, l2, o2)" "heap_rel A h0 h2 h3"
    using pop_front_frame [OF step.prems(2), of l] pop by (auto simp: sim_res_def heap_rel2_def)
  show ?case
  proof (cases o2)
    case None
    then show ?thesis
      using step.hyps step.prems pop pop' by (subst enqueue_loop.simps) auto
  next
    case (Some w)
    obtain q where q: "waiter_queue h2 w = Inr q" "unat q < length qs"
      using step.hyps step.prems pop Some by (auto split: sum.splits if_splits)
    obtain h4 l4 where push: "push_back h2 (qs ! unat q) w = Inr (h4, l4)"
      "loop h4 l2 (qs[unat q := l4]) = Some y"
      using step.hyps step.prems pop Some q by (auto split: sum.splits)
    have q': "waiter_queue h3 w = Inr q"
      using waiter_frame(5) [OF pop'(2), of w] q(1) by (auto simp: sim_res_def)
    obtain h5 where push': "push_back h3 (qs ! unat q) w = Inr (h5, l4)" "heap_rel A h0 h4 h5"
      using push_back_frame [OF pop'(2), of "qs ! unat q" w] push(1)
      by (auto simp: sim_res_def heap_rel2_def)
    show ?thesis
      using step.IH [OF push(2) step.prems(1) push'(2)] Some pop' q(2) q' push'(1)
      by (subst enqueue_loop.simps) simp
  qed
qed

lemma enqueue_frame:
  assumes "heap_rel A h0 h1 h"
  shows "sim_res (heap_rel2 A h0) (enqueue h1 qs p) (enqueue h qs p)"
  unfolding enqueue_def
proof (rule sim_pair [OF from_stack_frame [OF assms]], clarify)
  fix h1 h l assume r: "heap_rel A h0 h1 h"
  show "sim_res (heap_rel2 A h0) (total (enqueue_loop h1 l qs)) (total (enqueue_loop h l qs))"
    unfolding sim_res_def total_Inr by (auto dest: enqueue_loop_ends [OF _ refl r])
qed

section \<open>Worlds\<close>

text \<open>
  The part of a world on the waiters \<open>A\<close> and the futexes \<open>B\<close>; and a world that is a given part
  together with the rest of \<open>W0\<close>.
\<close>

definition part :: "ptr set \<Rightarrow> ptr set \<Rightarrow> world \<Rightarrow> world" where
  "part A B W = W\<lparr>heap := heap W |` A, futexes := futexes W |` B\<rparr>"

definition world_rel :: "ptr set \<Rightarrow> ptr set \<Rightarrow> world \<Rightarrow> world \<Rightarrow> world \<Rightarrow> bool" where
  "world_rel A B W0 V W \<longleftrightarrow> V = part A B W \<and> (\<forall>p. p \<notin> A \<longrightarrow> heap W p = heap W0 p) \<and>
     (\<forall>f. f \<notin> B \<longrightarrow> futexes W f = futexes W0 f)"

definition world_rel2 :: "ptr set \<Rightarrow> ptr set \<Rightarrow> world \<Rightarrow> 'a \<times> world \<Rightarrow> 'a \<times> world \<Rightarrow> bool" where
  "world_rel2 A B W0 x y \<longleftrightarrow> fst x = fst y \<and> world_rel A B W0 (snd x) (snd y)"

definition world_rel3 ::
  "ptr set \<Rightarrow> ptr set \<Rightarrow> world \<Rightarrow> 'a \<times> 'b \<times> world \<Rightarrow> 'a \<times> 'b \<times> world \<Rightarrow> bool" where
  "world_rel3 A B W0 x y \<longleftrightarrow> fst x = fst y \<and> world_rel2 A B W0 (snd x) (snd y)"

lemma world_rel_pair [simp]:
  "world_rel2 A B W0 (x, V) (y, W) = (x = y \<and> world_rel A B W0 V W)"
  "world_rel3 A B W0 (x, x', V) (y, y', W) = (x = y \<and> x' = y' \<and> world_rel A B W0 V W)"
  by (auto simp: world_rel2_def world_rel3_def)

lemma part_simps [simp]:
  "heap (part A B W) = heap W |` A" "futexes (part A B W) = futexes W |` B"
  "clones (part A B W) = clones W" "wakes (part A B W) = wakes W" "drops (part A B W) = drops W"
  by (simp_all add: part_def)

lemma world_rel_refl: "world_rel A B W (part A B W) W"
  by (simp add: world_rel_def)

lemma world_rel_heap: "world_rel A B W0 V W \<Longrightarrow> heap_rel A (heap W0) (heap V) (heap W)"
  by (auto simp: world_rel_def heap_rel_def)

lemma world_rel_put_heap:
  "world_rel A B W0 V W \<Longrightarrow> heap_rel A (heap W0) h1 h \<Longrightarrow> world_rel A B W0 (V\<lparr>heap := h1\<rparr>) (W\<lparr>heap := h\<rparr>)"
  by (auto simp: world_rel_def heap_rel_def part_def)

lemma world_rel_put_futex:
  "world_rel A B W0 V W \<Longrightarrow> f \<in> B \<Longrightarrow> world_rel A B W0 (put_futex V f fx) (put_futex W f fx)"
  by (auto simp: world_rel_def put_futex_def part_def restrict_map_def fun_eq_iff)

lemma world_rel_logs:
  "world_rel A B W0 V W \<Longrightarrow> world_rel A B W0 (clone_waker V k) (clone_waker W k)"
  "world_rel A B W0 V W \<Longrightarrow> world_rel A B W0 (drop_waker V k) (drop_waker W k)"
  "world_rel A B W0 V W \<Longrightarrow> world_rel A B W0 (wake_call V k) (wake_call W k)"
  by (auto simp: world_rel_def part_def clone_waker_def drop_waker_def wake_call_def)

lemma world_rel_free:
  "world_rel A B W0 V W \<Longrightarrow> w \<in> A \<Longrightarrow>
     world_rel A B W0 (V\<lparr>heap := (heap V)(w := None)\<rparr>) (W\<lparr>heap := (heap W)(w := None)\<rparr>)"
  by (rule world_rel_put_heap) (auto simp: world_rel_def heap_rel_def fun_eq_iff restrict_map_def)

lemma sim_world:
  "sim_res (world_rel A B W0) r1 r \<Longrightarrow>
     (\<And>V W. world_rel A B W0 V W \<Longrightarrow> sim_res Q (k1 V) (k W)) \<Longrightarrow> sim_res Q (bindR r1 k1) (bindR r k)"
  by (rule sim_bind [where P = "world_rel A B W0"])

lemma sim_world2:
  "sim_res (world_rel2 A B W0) r1 r \<Longrightarrow>
     (\<And>V W x. world_rel A B W0 V W \<Longrightarrow> sim_res Q (k1 (x, V)) (k (x, W))) \<Longrightarrow>
     sim_res Q (bindR r1 k1) (bindR r k)"
  by (rule sim_bind [where P = "world_rel2 A B W0"]) (auto simp: world_rel2_def)

lemma sim_world3:
  "sim_res (world_rel3 A B W0) r1 r \<Longrightarrow>
     (\<And>V W x y. world_rel A B W0 V W \<Longrightarrow> sim_res Q (k1 (x, y, V)) (k (x, y, W))) \<Longrightarrow>
     sim_res Q (bindR r1 k1) (bindR r k)"
  by (rule sim_bind [where P = "world_rel3 A B W0"]) (auto simp: world_rel2_def world_rel3_def)

lemma sim_heap:
  "sim_res (heap_rel A h0) r1 r \<Longrightarrow>
     (\<And>h1 h. heap_rel A h0 h1 h \<Longrightarrow> sim_res Q (k1 h1) (k h)) \<Longrightarrow> sim_res Q (bindR r1 k1) (bindR r k)"
  by (rule sim_bind [where P = "heap_rel A h0"])

lemma get_futex_frame: "world_rel A B W0 V W \<Longrightarrow> sim_res (=) (get_futex V f) (get_futex W f)"
  by (auto simp: world_rel_def get_futex_def sim_res_def restrict_map_def split: if_splits option.splits)

lemma sim_futex:
  assumes "world_rel A B W0 V W" "\<And>fx. f \<in> B \<Longrightarrow> sim_res Q (k1 fx) (k fx)"
  shows "sim_res Q (bindR (get_futex V f) k1) (bindR (get_futex W f) k)"
proof (cases "f \<in> B")
  case True
  then show ?thesis by (auto intro!: sim_read get_futex_frame [OF assms(1)] assms(2))
next
  case False
  then have "get_futex V f = Inl Bad_Pointer"
    using assms(1) by (simp add: world_rel_def get_futex_def)
  then show ?thesis by simp
qed

section \<open>The futex\<close>

lemma futex_load_frame:
  assumes "world_rel A B W0 V W"
  shows "sim_res (=) (futex_load o' V f) (futex_load o' W f)"
  unfolding futex_load_def by (rule sim_futex [OF assms]) simp

lemma raw_cmpxchg_weak_frame:
  assumes "world_rel A B W0 V W"
  shows "sim_res (world_rel3 A B W0) (raw_cmpxchg_weak s o1 o2 V f cur new) (raw_cmpxchg_weak s o1 o2 W f cur new)"
  unfolding raw_cmpxchg_weak_def raw_cmpxchg_weak_on_def
  by (auto intro!: sim_futex [OF assms] sim_read world_rel_put_futex [OF assms])

lemma futex_cmpxchg_weak_frame:
  assumes "world_rel A B W0 V W"
  shows "sim_res (world_rel3 A B W0) (futex_cmpxchg_weak s o1 o2 V f cur new) (futex_cmpxchg_weak s o1 o2 W f cur new)"
  using raw_cmpxchg_weak_frame [OF assms]
  by (simp add: futex_cmpxchg_weak_def futex_cmpxchg_weak_on_def raw_cmpxchg_weak_def)

lemma futex_unlock_frame:
  assumes "world_rel A B W0 V W"
  shows "sim_res (world_rel A B W0) (futex_unlock t V f) (futex_unlock t W f)"
    "sim_res (world_rel A B W0) (write_unlock t V f) (write_unlock t W f)"
    "sim_res (world_rel A B W0) (queue_lock V f) (queue_lock W f)"
    "sim_res (world_rel A B W0) (queue_unlock V f) (queue_unlock W f)"
  unfolding futex_unlock_def write_unlock_def queue_lock_def queue_unlock_def
  by (auto intro!: sim_futex [OF assms] sim_read world_rel_put_futex [OF assms])

lemma waiter_drop_frame:
  assumes "world_rel A B W0 V W"
  shows "sim_res (world_rel A B W0) (waiter_drop V w) (waiter_drop W w)"
proof (cases "w \<in> A")
  case True
  then show ?thesis
    using world_rel_free [OF assms] world_rel_free [OF world_rel_logs(2) [OF assms]]
    unfolding waiter_drop_def Let_def
    by (auto intro!: sim_read waiter_frame(1) [OF world_rel_heap [OF assms]] split: waiter_waker.splits)
next
  case False
  then have "waiter_drop V w = Inl Bad_Pointer"
    using assms by (auto simp: waiter_drop_def waiter_get_waker_def deref_def world_rel_def)
  then show ?thesis by simp
qed

lemma drop_clear_frame:
  assumes "world_rel A B W0 V W"
  shows "sim_res (world_rel A B W0) (drop_clear V w) (drop_clear W w)"
  unfolding drop_clear_def
  by (auto intro!: sim_heap waiter_frame(8) world_rel_heap [OF assms] world_rel_put_heap [OF assms])

lemma wake_swap_frame:
  assumes "world_rel A B W0 V W"
  shows "sim_res (world_rel2 A B W0) (wake_swap V w) (wake_swap W w)"
  unfolding wake_swap_def
  by (rule sim_read [OF waiter_frame(1) [OF world_rel_heap [OF assms]]],
      rule sim_heap [OF waiter_frame(8) [OF world_rel_heap [OF assms]]])
    (auto simp: world_rel_put_heap [OF assms] split: waiter_waker.splits)

lemma requeue_store_frame:
  assumes "world_rel A B W0 V W"
  shows "sim_res (world_rel A B W0) (requeue_store V f w) (requeue_store W f w)"
  unfolding requeue_store_def
  by (auto intro!: sim_heap waiter_frame(9) world_rel_heap [OF assms] world_rel_put_heap [OF assms])

lemma with_queue_frame:
  assumes "world_rel A B W0 V W"
    and "\<And>h1 h l. heap_rel A (heap W0) h1 h \<Longrightarrow> sim_res (heap_rel2 A (heap W0)) (op h1 l) (op h l)"
  shows "sim_res (world_rel2 A B W0) (with_queue V f q op) (with_queue W f q op)"
  unfolding with_queue_def
  by (auto intro!: sim_futex [OF assms(1)] sim_pair assms(2) world_rel_heap [OF assms(1)]
      world_rel_put_futex world_rel_put_heap [OF assms(1)])

lemma queue_pop_frame:
  assumes "world_rel A B W0 V W"
  shows "sim_res (world_rel2 A B W0) (queue_pop V f q) (queue_pop W f q)"
    "sim_res (world_rel2 A B W0) (queue_pop_many V f c q) (queue_pop_many W f c q)"
  unfolding queue_pop_def queue_pop_many_def
  by (auto intro!: with_queue_frame [OF assms] pop_front_frame pop_front_many_frame)

lemma futex_enqueue_frame:
  assumes "world_rel A B W0 V W"
  shows "sim_res (world_rel A B W0) (futex_enqueue V f s) (futex_enqueue W f s)"
  unfolding futex_enqueue_def
  by (auto intro!: sim_futex [OF assms] sim_pair enqueue_frame world_rel_heap [OF assms]
      world_rel_put_futex world_rel_put_heap [OF assms])

lemma futex_cancel_frame:
  assumes "world_rel A B W0 V W"
  shows "sim_res (world_rel A B W0) (futex_cancel V f w) (futex_cancel W f w)"
  unfolding futex_cancel_def
  by (auto intro!: sim_read waiter_frame(5) world_rel_heap [OF assms] sim_map [where P = "world_rel2 A B W0"]
      with_queue_frame [OF assms] sim_map [where P = "heap_rel2 A (heap W0)"] remove_waiter_frame
      simp: world_rel2_def heap_rel2_def)

lemma cmpxchg_enqueue_weak_frame:
  assumes "world_rel A B W0 V W"
  shows "sim_res (world_rel3 A B W0) (cmpxchg_enqueue_weak s o1 o2 V f cur new) (cmpxchg_enqueue_weak s o1 o2 W f cur new)"
  unfolding cmpxchg_enqueue_weak_def
  by (rule sim_world3 [OF raw_cmpxchg_weak_frame [OF assms]])
    (auto intro!: sim_world futex_enqueue_frame)

lemma flip_iter_frame:
  assumes "world_rel A B W0 V W"
  shows "sim_res (world_rel2 A B W0) (flip_iter s V f a) (flip_iter s W f a)"
proof (cases "fa_inbox a = null")
  case False
  show ?thesis
    unfolding flip_iter_def if_not_P [OF False]
    by (rule sim_world3 [OF raw_cmpxchg_weak_frame [OF assms]])
      (auto intro!: sim_world futex_enqueue_frame)
qed (simp add: flip_iter_def assms)

lemma requeue_iter_frame:
  assumes "world_rel A B W0 V W"
  shows "sim_res (world_rel2 A B W0) (requeue_iter s V f l a) (requeue_iter s W f l a)"
  unfolding requeue_iter_def
  by (rule sim_heap [OF waiter_frame(7) [OF world_rel_heap [OF assms]]],
      rule sim_world3 [OF raw_cmpxchg_weak_frame [OF world_rel_put_heap [OF assms]]])
    auto

text \<open>Operations that may block, or are not enabled.\<close>

definition sim_opt :: "('a \<Rightarrow> 'b \<Rightarrow> bool) \<Rightarrow> 'a res option \<Rightarrow> 'b res option \<Rightarrow> bool" where
  "sim_opt Q o1 o2 \<longleftrightarrow> (\<forall>r. o2 = Some r \<longrightarrow> (\<exists>r1. o1 = Some r1 \<and> sim_res Q r1 r))"

lemma sim_opt_simps [simp]:
  "sim_opt Q o1 None" "sim_opt Q (Some r1) (Some r) = sim_res Q r1 r"
  by (simp_all add: sim_opt_def)

lemma sim_opt_map:
  "sim_opt P o1 o2 \<Longrightarrow> (\<And>r1 r. sim_res P r1 r \<Longrightarrow> sim_res Q (F r1) (G r)) \<Longrightarrow>
     sim_opt Q (map_option F o1) (map_option G o2)"
  by (auto simp: sim_opt_def)

lemma lock_frame:
  assumes "world_rel A B W0 V W"
  shows "sim_opt (world_rel A B W0) (futex_lock t V f) (futex_lock t W f)"
    "sim_opt (world_rel A B W0) (write_lock t V f) (write_lock t W f)"
proof -
  have *: "get_futex V f = (if f \<in> B then get_futex W f else Inl Bad_Pointer)"
    using assms by (auto simp: world_rel_def get_futex_def)
  show "sim_opt (world_rel A B W0) (futex_lock t V f) (futex_lock t W f)"
    "sim_opt (world_rel A B W0) (write_lock t V f) (write_lock t W f)"
    by (auto simp: futex_lock_def write_lock_def * sim_opt_def world_rel_put_futex [OF assms] split: sum.splits)
qed

section \<open>The wait future\<close>

lemma poll_enter_frame:
  assumes "world_rel A B W0 V W"
  shows "sim_res (world_rel3 A B W0) (poll_enter s cx V wait) (poll_enter s cx W wait)"
  unfolding poll_enter_def Let_def
proof (rule sim_heap [OF waiter_frame(7) [OF world_rel_heap [OF assms]]], rule sim_read [OF waiter_frame(1)], assumption,
    rule sim_world)
  fix h1 h slot assume h: "heap_rel A (heap W0) h1 h"
  note W = world_rel_put_heap [OF assms h]
  show "sim_res (world_rel A B W0)
      (case slot of
         WakerNone \<Rightarrow> mapR (\<lambda>h. clone_waker (V\<lparr>heap := h\<rparr>) cx) (set_waker h1 (wf_waiter wait) (WakerWaiting cx))
       | WakerWaiting _ \<Rightarrow> Inr (V\<lparr>heap := h1\<rparr>) | WakerDone \<Rightarrow> Inl Panic)
      (case slot of
         WakerNone \<Rightarrow> mapR (\<lambda>h. clone_waker (W\<lparr>heap := h\<rparr>) cx) (set_waker h (wf_waiter wait) (WakerWaiting cx))
       | WakerWaiting _ \<Rightarrow> Inr (W\<lparr>heap := h\<rparr>) | WakerDone \<Rightarrow> Inl Panic)"
    by (auto intro!: sim_map [OF waiter_frame(8) [OF h]] world_rel_logs world_rel_put_heap [OF assms]
        simp: W split: waiter_waker.splits)
next
  fix V W assume "world_rel A B W0 V W"
  from raw_cmpxchg_weak_frame [OF this]
  show "sim_res (world_rel3 A B W0)
      (bindR (raw_cmpxchg_weak s AcqRelT AcquireT V (wf_original_futex wait) (wf_current wait)
               \<lparr>fa_atom = wf_new wait, fa_inbox = wf_waiter wait\<rparr>) (\<lambda>(ok, current, W).
        Inr (ok, if ok then wait\<lparr>wf_step := Waiting\<rparr> else wait\<lparr>wf_current := current\<rparr>, W)))
      (bindR (raw_cmpxchg_weak s AcqRelT AcquireT W (wf_original_futex wait) (wf_current wait)
               \<lparr>fa_atom = wf_new wait, fa_inbox = wf_waiter wait\<rparr>) (\<lambda>(ok, current, W).
        Inr (ok, if ok then wait\<lparr>wf_step := Waiting\<rparr> else wait\<lparr>wf_current := current\<rparr>, W)))"
    by (rule sim_world3) auto
qed

lemma poll_waiting_frame:
  assumes "world_rel A B W0 V W"
  shows "sim_res (world_rel2 A B W0) (poll_waiting cx V w) (poll_waiting cx W w)"
  unfolding poll_waiting_def
  by (auto intro!: sim_read waiter_frame(1) world_rel_heap [OF assms] world_rel_logs assms)

lemma poll_waiting_iter_frame:
  assumes "world_rel A B W0 V W"
  shows "sim_res (world_rel2 A B W0) (poll_waiting_iter s cx V w k) (poll_waiting_iter s cx W w k)"
proof (cases k)
  case (WakerWaiting old)
  show ?thesis
    unfolding poll_waiting_iter_def WakerWaiting waiter_waker.case
    by (rule sim_read [OF waiter_frame(1) [OF world_rel_heap [OF assms]]], rule sim_read [OF sim_same],
        clarify, rule sim_heap [OF waiter_frame(8) [OF world_rel_heap [OF assms]]])
      (auto intro!: world_rel_logs world_rel_put_heap [OF assms])
qed (simp_all add: poll_waiting_iter_def world_rel_logs assms)

lemma future_poll_frame:
  assumes "world_rel A B W0 V W"
  shows "sim_res (world_rel3 A B W0) (future_poll s cx V wait) (future_poll s cx W wait)"
    "sim_res (world_rel3 A B W0) (future_loop s cx V wait k) (future_loop s cx W wait k)"
  unfolding future_poll_def future_loop_def
  by (auto intro!: sim_world3 [OF poll_enter_frame [OF assms]] sim_world2 [OF poll_waiting_frame [OF assms]]
      sim_world2 [OF poll_waiting_iter_frame [OF assms]] split: wait_step.splits)

lemma drop_start_frame:
  assumes "world_rel A B W0 V W"
  shows "sim_res (=) (drop_start V w) (drop_start W w)"
  unfolding drop_start_def
  by (rule sim_map [where P = "(=)"]) (auto intro!: sim_read waiter_frame(2) world_rel_heap [OF assms])

lemma future_drop_frame:
  assumes "world_rel A B W0 V W"
  shows "sim_res (=) (future_drop V wait) (future_drop W wait)"
  unfolding future_drop_def
  by (auto intro!: sim_map [OF drop_start_frame [OF assms]] split: wait_step.splits)

lemma drop_finish_frame:
  assumes "world_rel A B W0 V W"
  shows "sim_res (world_rel2 A B W0) (drop_finish V w) (drop_finish W w)"
  unfolding drop_finish_def
  by (auto intro!: sim_read waiter_frame(1) world_rel_heap [OF assms] world_rel_logs assms split: waiter_waker.splits)

lemma sim_tag: "sim_res (world_rel A B W0) r1 r \<Longrightarrow> sim_res (world_rel2 A B W0) (mapR (Pair x) r1) (mapR (Pair x) r)"
  by (rule sim_map [where P = "world_rel A B W0"]) auto

lemma sim_wrap: "sim_res (world_rel2 A B W0) r1 r \<Longrightarrow>
    sim_res (world_rel2 A B W0) (mapR (\<lambda>(u, W). (C u, W)) r1) (mapR (\<lambda>(u, W). (C u, W)) r)"
  by (rule sim_map [where P = "world_rel2 A B W0"]) (auto simp: world_rel2_def)

lemma drop_step_frame:
  assumes "world_rel A B W0 V W"
  shows "sim_opt (world_rel2 A B W0) (drop_step s t V w d) (drop_step s t W w d)"
proof (cases d)
  case (DropWrite owner)
  then show ?thesis
    by (auto simp: drop_step_def intro!: sim_opt_map lock_frame [OF assms] sim_tag)
next
  case (DropCheck owner)
  have "sim_res (=) (bindR (waiter_futex (heap V) w) (cell_load Relaxed)) (bindR (waiter_futex (heap W) w) (cell_load Relaxed))"
    by (auto intro!: sim_read waiter_frame(2) world_rel_heap [OF assms])
  then show ?thesis using assms
    by (auto simp: drop_step_def DropCheck intro!: sim_read)
next
  case (DropFlip owner a)
  then show ?thesis
    by (auto simp: drop_step_def intro!: sim_world2 [OF flip_iter_frame [OF assms]])
qed (auto simp: drop_step_def assms intro!: sim_tag futex_unlock_frame [OF assms] futex_cancel_frame [OF assms]
    sim_read [OF futex_load_frame [OF assms]])

section \<open>The fair mutex\<close>

lemma unlock_step_frame:
  assumes "world_rel A B W0 V W"
  shows "sim_opt (world_rel2 A B W0) (unlock_step s t f V u) (unlock_step s t f W u)"
proof (cases u)
  case ULock
  then show ?thesis
    by (auto simp: unlock_step_def intro!: sim_opt_map lock_frame [OF assms] sim_tag)
next
  case UBorrow
  then show ?thesis
    by (auto simp: unlock_step_def intro!: sim_world futex_unlock_frame [OF assms]
        sim_world2 [OF queue_pop_frame(1)])
next
  case (ULoop a)
  have "sim_res (world_rel2 A B W0)
      (bindR (queue_pop V f 0) (\<lambda>(p, W). case p of Some waiter \<Rightarrow> Inr (UDrop waiter, W) | None \<Rightarrow> Inl Panic))
      (bindR (queue_pop W f 0) (\<lambda>(p, W). case p of Some waiter \<Rightarrow> Inr (UDrop waiter, W) | None \<Rightarrow> Inl Panic))"
    if "world_rel A B W0 V W" for V W
    by (auto intro!: sim_world2 [OF queue_pop_frame(1) [OF that]] split: option.splits)
  then show ?thesis
    by (auto simp: unlock_step_def ULoop intro!: sim_tag futex_unlock_frame [OF assms]
        sim_world3 [OF cmpxchg_enqueue_weak_frame [OF assms]])
qed (auto simp: unlock_step_def intro!: sim_tag futex_unlock_frame [OF assms] world_rel_logs assms
    sim_world2 [OF wake_swap_frame [OF assms]] sim_read [OF futex_load_frame [OF assms]]
    sim_world3 [OF futex_cmpxchg_weak_frame [OF assms]])

lemma lock_polled_frame:
  "world_rel A B W0 V W \<Longrightarrow> sim_res (world_rel2 A B W0) (lock_polled w cx (r, wait, V)) (lock_polled w cx (r, wait, W))"
  by (auto simp: lock_polled_def intro!: sim_tag waiter_drop_frame split: poll.splits)

lemma lock_iter_frame:
  assumes "world_rel A B W0 V W"
  shows "sim_res (world_rel2 A B W0) (lock_iter s f V w a cx) (lock_iter s f W w a cx)"
proof (cases "inner id a = 0")
  case True
  then show ?thesis unfolding lock_iter_def if_P [OF True]
    by (auto intro!: sim_world3 [OF futex_cmpxchg_weak_frame [OF assms]] sim_tag waiter_drop_frame)
next
  case False
  have "sim_res (=) (cmpxchg_wait_weak V f w a 1) (cmpxchg_wait_weak W f w a 1)"
    unfolding cmpxchg_wait_weak_def
    by (auto intro!: sim_read waiter_frame(2) world_rel_heap [OF assms])
  then show ?thesis unfolding lock_iter_def if_not_P [OF False]
    by (rule sim_read) (auto intro!: sim_world3 [OF future_poll_frame(1) [OF assms]] lock_polled_frame)
qed

lemma lock_cancelled_frame:
  assumes "world_rel A B W0 V W"
  shows "sim_res (world_rel2 A B W0) (lock_cancelled V w) (lock_cancelled W w)"
  unfolding lock_cancelled_def
  by (intro sim_tag sim_world [OF drop_clear_frame [OF assms]] waiter_drop_frame)

lemma lock_drop_frame:
  assumes "world_rel A B W0 V W"
  shows "sim_res (world_rel2 A B W0) (lock_drop V wait) (lock_drop W wait)"
  unfolding lock_drop_def
  by (rule sim_read [OF future_drop_frame [OF assms]])
    (auto intro!: sim_tag waiter_drop_frame assms split: option.splits)

lemma lock_drop_step_frame:
  assumes "world_rel A B W0 V W"
  shows "sim_opt (world_rel2 A B W0) (lock_drop_step s t V w d) (lock_drop_step s t W w d)"
proof (cases "d = DropFinish")
  case True
  then show ?thesis
    by (auto simp: lock_drop_step_def intro!: sim_world2 [OF drop_finish_frame [OF assms]] lock_cancelled_frame)
next
  case False
  then have *: "lock_drop_step s t W w d = map_option (mapR (\<lambda>(d, W). (LDrop w d, W))) (drop_step s t W w d)" for W
    by (cases d) (simp_all add: lock_drop_step_def)
  show ?thesis
    unfolding * by (rule sim_opt_map [OF drop_step_frame [OF assms] sim_wrap])
qed

text \<open>A waiter is created where the memory is free; the part may then have it as its own.\<close>

lemma new_waiter_frame:
  assumes "world_rel A B W0 V W" "addr \<in> A" "new_waiter W f m q addr = Some W'"
  obtains V' where "new_waiter V f m q addr = Some V'" "world_rel A B W0 V' W'"
proof -
  have "heap V addr = None"
    using assms by (auto simp: world_rel_def new_waiter_def split: if_splits)
  moreover have "world_rel A B W0 (V\<lparr>heap := (heap V)(addr \<mapsto> x)\<rparr>) (W\<lparr>heap := (heap W)(addr \<mapsto> x)\<rparr>)" for x
    using assms(1,2)
    by (auto intro!: world_rel_put_heap [OF assms(1)] simp: world_rel_def heap_rel_def fun_eq_iff restrict_map_def)
  ultimately show ?thesis
    using assms(3) that by (auto simp: new_waiter_def split: if_splits)
qed

lemma lock_start_frame:
  assumes "world_rel A B W0 V W" "addr \<in> A"
  shows "sim_opt (world_rel2 A B W0) (lock_start f cx addr V) (lock_start f cx addr W)"
proof (cases "new_waiter W f 0 0 addr")
  case (Some W')
  then obtain V' where V': "new_waiter V f 0 0 addr = Some V'" "world_rel A B W0 V' W'"
    by (rule new_waiter_frame [OF assms])
  show ?thesis
    unfolding lock_start_def Some V'(1)
    by (auto intro!: sim_read [OF futex_load_frame [OF V'(2)]] V'(2))
qed (simp add: lock_start_def)

lemma fair_task_frame:
  assumes "world_rel A B W0 V W" "\<And>cx addr. act = Poll cx addr \<Longrightarrow> p = Idle \<Longrightarrow> addr \<in> A"
  shows "sim_opt (world_rel2 A B W0) (fair_task f t act V p) (fair_task f t act W p)"
proof (cases p)
  case Idle
  then show ?thesis
    by (cases act) (auto simp: fair_task_def intro!: lock_start_frame assms)
next
  case (LTop w a cx)
  then show ?thesis
    by (cases act) (auto simp: fair_task_def intro!: lock_iter_frame assms(1))
next
  case (LPending wait)
  then show ?thesis
    by (cases act) (auto simp: fair_task_def intro!: lock_drop_frame assms(1)
        sim_world3 [OF future_poll_frame(1) [OF assms(1)]] lock_polled_frame)
next
  case (LPolling wait cx k)
  then show ?thesis
    by (cases act) (auto simp: fair_task_def intro!: sim_world3 [OF future_poll_frame(2) [OF assms(1)]] lock_polled_frame)
next
  case (LDrop w d)
  then show ?thesis
    by (cases act) (auto simp: fair_task_def intro!: lock_drop_step_frame assms(1))
next
  case (LCancel w u)
  have "sim_res (world_rel2 A B W0)
      (bindR r1 (\<lambda>(u, W). if u = UDone then lock_cancelled W w else Inr (LCancel w u, W)))
      (bindR r (\<lambda>(u, W). if u = UDone then lock_cancelled W w else Inr (LCancel w u, W)))"
    if "sim_res (world_rel2 A B W0) r1 r" for r1 r
    by (rule sim_world2 [OF that]) (auto intro!: lock_cancelled_frame)
  then show ?thesis using LCancel
    by (cases act) (auto simp: fair_task_def intro!: sim_opt_map unlock_step_frame [OF assms(1)])
next
  case Held
  then show ?thesis
    by (cases act) (auto simp: fair_task_def assms(1))
next
  case (Unlocking u)
  from sim_opt_map [OF unlock_step_frame [OF assms(1)] sim_wrap] show ?thesis using Unlocking
    by (cases act) (auto simp: fair_task_def)
qed

end
