(* ===== verification/Requeue.thy ===== *)
theory Requeue imports Fair_Mutex_Inv Wake_Task begin

text \<open>
  The contract of \<open>FutexWaitersGuard::requeue\<close>: a list of waiters leaves the futex that it was
  popped from, belongs to the task that moves it, and joins the inbox of another futex, as if its
  tasks had queued their waiters there in the order of the list.
\<close>

section \<open>A list leaves a futex\<close>

definition shed_ghost :: "tid \<Rightarrow> ghost \<Rightarrow> ghost" where
  "shed_ghost t g = g\<lparr>g_loc := (\<lambda>w. if g_loc g w = InList t then Loose else g_loc g w), g_list := (g_list g)(t := [])\<rparr>"

lemma shed_ghost_simps [simp]:
  "g_loc (shed_ghost t g) w = (if g_loc g w = InList t then Loose else g_loc g w)"
  "g_inbox (shed_ghost t g) = g_inbox g" "g_queues (shed_ghost t g) = g_queues g"
  "g_list (shed_ghost t g) = (g_list g)(t := [])"
  by (simp_all add: shed_ghost_def)

lemma world_ok_shed:
  assumes ok: "world_ok W g" and W': "heap W' = heap W |` (- set (g_list g t))" "futexes W' = futexes W"
  shows "world_ok W' (shed_ghost t g)"
proof -
  have at: "set (g_list g u) = {w. g_loc g w = InList u}" for u
    using world_okD(2) [OF ok] by (simp add: hands_ok_def)
  have "world_ok W (shed_ghost t g)"
    unfolding world_ok_def
  proof (intro conjI allI impI)
    show "waiters_ok (heap W) (shed_ghost t g)"
      by (rule waiters_ok_frame [OF world_okD(1) [OF ok], where A = "{}"]) (auto split: if_splits)
    show "hands_ok (heap W) (shed_ghost t g)"
      using world_okD(2) [OF ok] by (auto simp: hands_ok_def)
    fix f fx assume fx: "futexes W f = Some fx"
    show "inbox_ok (heap W) f fx (shed_ghost t g)"
      by (rule inbox_ok_frame [OF world_okD(3) [OF ok fx], where A = "{}"]) auto
    show "queues_ok (heap W) f fx (shed_ghost t g)"
      by (rule queues_ok_frame [OF world_okD(4) [OF ok fx], where A = "{}"]) auto
    show "guards_ok (heap W) f fx (shed_ghost t g)"
      by (rule guards_ok_frame [OF world_okD(5) [OF ok fx]]) (auto split: if_splits)
  qed
  then show ?thesis
  proof (rule world_ok_agree)
    fix v assume "g_loc (shed_ghost t g) v \<noteq> Loose"
    then have "v \<notin> set (g_list g t)" using at [of t] by (auto split: if_splits)
    then show "heap W' v = heap W v" by (simp add: W')
  qed (use world_okD(1) [OF ok] in \<open>auto simp: W' waiters_ok_def restrict_map_def\<close>)
qed

definition shed_role :: "tid \<Rightarrow> ptr set \<Rightarrow> (tid \<Rightarrow> role) \<Rightarrow> tid \<Rightarrow> role" where
  "shed_role t A R u = (R u)\<lparr>
     r_list := (if u = t then [] else r_list (R u)),
     r_stage := (if \<exists>w\<in>A. sleeper (r_stage (R u)) = Some w then NoWaiter else r_stage (R u))\<rparr>"

lemma shed_role_simps [simp]:
  "r_read (shed_role t A R u) = r_read (R u)" "r_write (shed_role t A R u) = r_write (R u)"
  "r_borrow (shed_role t A R u) = r_borrow (R u)" "r_hand (shed_role t A R u) = r_hand (R u)"
  "r_list (shed_role t A R u) = (if u = t then [] else r_list (R u))"
  "r_stage (shed_role t A R u) =
     (if \<exists>w\<in>A. sleeper (r_stage (R u)) = Some w then NoWaiter else r_stage (R u))"
  by (simp_all add: shed_role_def)

lemma tasks_listed: "tasks_ok f n W g fx R \<Longrightarrow> w \<in> set (r_list (R t)) \<longleftrightarrow> g_loc g w = InList t"
proof -
  assume T: "tasks_ok f n W g fx R"
  have "set (g_list g t) = {w. g_loc g w = InList t}"
    using world_okD(2) [OF tasks_okD(1) [OF T]] by (simp add: hands_ok_def)
  then show ?thesis using tasks_list [OF T, of t] by auto
qed

lemma tasks_shed:
  assumes T: "tasks_ok f n W g fx R"
    and W': "heap W' = heap W |` (- set (r_list (R t)))" "futexes W' = futexes W"
  shows "tasks_ok f n W' (shed_ghost t g) fx (shed_role t (set (r_list (R t))) R)"
  unfolding tasks_ok_def
proof (intro conjI)
  let ?A = "set (r_list (R t))"
  have gl: "g_list g t = r_list (R t)" by (rule tasks_list [OF T])
  have at: "w \<in> ?A \<longleftrightarrow> g_loc g w = InList t" for w
    by (rule tasks_listed [OF T])
  show "world_ok W' (shed_ghost t g)"
    by (rule world_ok_shed [OF tasks_okD(1) [OF T]]) (simp_all add: W' gl)
  show "hands_held (shed_ghost t g) (shed_role t ?A R)"
    using tasks_okD(5) [OF T] unfolding hands_held_def
    by simp (metis place.distinct(19))
  have keep: "stage_ok (heap W') (shed_ghost t g) f n st" if "stage_ok (heap W) g f n st"
    "\<And>w. stage_waiter st = Some w \<Longrightarrow> w \<notin> ?A" for st
    using stage_ok_cong [of st "heap W'" "heap W" "shed_ghost t g" g f n] that at by (simp add: W')
  have own: "sleeper (r_stage (R u)) = Some w" if w: "stage_waiter (r_stage (R u)) = Some w" "w \<in> ?A" for u w
  proof -
    obtain v where v: "sleeper (r_stage (R v)) = Some w"
      using tasks_okD(6) [OF T] w(2) at unfolding stages_held_def by (metis place.distinct(7))
    then have "v = u"
      using tasks_okD(6) [OF T] w(1) sleeper_waiter [OF v] by (auto simp: stages_held_def)
    with v show ?thesis by simp
  qed
  show "stages_held (heap W') (shed_ghost t g) f n (shed_role t ?A R)"
    unfolding stages_held_def
  proof (intro conjI allI impI)
    fix u show "stage_ok (heap W') (shed_ghost t g) f n (r_stage (shed_role t ?A R u))"
      using keep [OF tasks_stage [OF T refl, of u]] own [of u] by auto
  next
    fix u v w
    assume "stage_waiter (r_stage (shed_role t ?A R u)) = Some w \<and> stage_waiter (r_stage (shed_role t ?A R v)) = Some w"
    then show "u = v"
      using tasks_okD(6) [OF T] by (auto simp: stages_held_def split: if_splits)
  next
    fix w assume w: "g_loc (shed_ghost t g) w \<noteq> Loose"
    then have "g_loc g w \<noteq> Loose" "w \<notin> ?A" using at by (auto split: if_splits)
    then show "\<exists>u. sleeper (r_stage (shed_role t ?A R u)) = Some w"
      using tasks_okD(6) [OF T] unfolding stages_held_def by (metis option.inject shed_role_simps(6))
  qed
qed (use T W' in \<open>auto simp: tasks_ok_def guards_held_def\<close>)

text \<open>What the moving task knows of its list.\<close>

lemma tasks_list_waiters:
  assumes T: "tasks_ok f n W g fx R" and w: "w \<in> set (r_list (R t))"
  shows "\<exists>u. sleeper (r_stage (R u)) = Some w" "alive (heap W) w" "que (heap W) w < n"
    "\<exists>k. wkr (heap W) w = WakerWaiting k"
proof -
  have at: "g_loc g w = InList t"
    using tasks_listed [OF T] w by simp
  then obtain u q where u: "sleeper (r_stage (R u)) = Some w" "q < n" "parked_ok (heap W) g f w q"
    using tasks_place [OF T, of w] by auto
  then show "\<exists>u. sleeper (r_stage (R u)) = Some w" "alive (heap W) w" "que (heap W) w < n"
    "\<exists>k. wkr (heap W) w = WakerWaiting k"
    using world_ok_waiting [OF tasks_okD(1) [OF T], of w] at by (auto simp: parked_ok_def)
qed

section \<open>A list joins a futex\<close>

lemma stack_push_list:
  "dls h a xs b \<Longrightarrow> is_stack h a st \<Longrightarrow> is_stack h (last (a # xs)) (rev xs @ st)"
proof (induction xs arbitrary: a st)
  case (Cons x xs)
  then have "is_stack h x (x # st)" by simp
  with Cons show ?case by (cases xs) auto
qed simp

definition join_ghost :: "ptr \<Rightarrow> ptr list \<Rightarrow> ghost \<Rightarrow> ghost" where
  "join_ghost f ws g = g\<lparr>g_loc := (\<lambda>w. if w \<in> set ws then Inbox f else g_loc g w),
     g_inbox := (g_inbox g)(f := rev ws @ g_inbox g f)\<rparr>"

lemma join_ghost_simps [simp]:
  "g_loc (join_ghost f ws g) w = (if w \<in> set ws then Inbox f else g_loc g w)"
  "g_inbox (join_ghost f ws g) f' = (if f' = f then rev ws @ g_inbox g f else g_inbox g f')"
  "g_queues (join_ghost f ws g) = g_queues g" "g_list (join_ghost f ws g) = g_list g"
  by (simp_all add: join_ghost_def)

definition joining :: "heap \<Rightarrow> heap \<Rightarrow> ptr \<Rightarrow> nat \<Rightarrow> ptr \<Rightarrow> ptr list \<Rightarrow> bool" where
  "joining h h' f n inbox ws \<longleftrightarrow> ws \<noteq> [] \<and> distinct ws \<and> dls h' inbox ws null \<and>
     (\<forall>w. w \<notin> set ws \<longrightarrow> h' w = h w) \<and>
     (\<forall>w\<in>set ws. h w = None \<and> fut h' w = f \<and> que h' w < n \<and> (\<exists>k. wkr h' w = WakerWaiting k))"

lemma joiningD:
  assumes "joining h h' f n inbox ws"
  shows "ws \<noteq> []" "distinct ws" "dls h' inbox ws null" "w \<notin> set ws \<Longrightarrow> h' w = h w"
    "w \<in> set ws \<Longrightarrow> h w = None" "w \<in> set ws \<Longrightarrow> fut h' w = f" "w \<in> set ws \<Longrightarrow> que h' w < n"
    "w \<in> set ws \<Longrightarrow> \<exists>k. wkr h' w = WakerWaiting k" "w \<in> set ws \<Longrightarrow> alive h' w"
  using assms dls_alive by (auto simp: joining_def)

lemma world_ok_join:
  assumes ok: "world_ok W g" and fx: "futexes W f = Some fx" and n: "length (queues fx) = n"
    and join: "joining (heap W) (heap W') f n (fa_inbox (futex_atom fx)) ws"
    and W': "futexes W' = (futexes W)(f \<mapsto> fx')"
      "fx' = fx\<lparr>futex_atom := \<lparr>fa_atom = a, fa_inbox = last ws\<rparr>\<rparr>"
  shows "world_ok W' (join_ghost f ws g)"
proof -
  note J = joiningD [OF join]
  have loose: "g_loc g w = Loose" if "w \<in> set ws" for w
    using world_ok_alive [OF ok, of w] J(5) [OF that] by (auto simp: alive_def)
  define V where "V = W\<lparr>heap := heap W'\<rparr>"
  have V: "world_ok V g"
  proof (rule world_ok_agree [OF ok])
    show "heap V null = None"
      using J(4) [of null] J(9) [of null] world_okD(1) [OF ok] by (auto simp: V_def waiters_ok_def)
  qed (use loose J(4) in \<open>auto simp: V_def\<close>)
  have h: "heap V = heap W'" "futexes V = futexes W" by (simp_all add: V_def)
  note fxV = fx [folded h(2)]
  show ?thesis
    unfolding world_ok_def
  proof (intro conjI allI impI)
    show "waiters_ok (heap W') (join_ghost f ws g)"
      using world_okD(1) [OF V] J(8,9) by (auto simp: waiters_ok_def h)
    show "hands_ok (heap W') (join_ghost f ws g)"
      by (rule hands_ok_frame [OF world_okD(2) [OF V], where A = "{}"]) (use loose in \<open>auto simp: h split: if_splits\<close>)
    fix f' y assume f': "futexes W' f' = Some y"
    have same: "f' = f \<Longrightarrow> y = fx'" and other: "f' \<noteq> f \<Longrightarrow> futexes V f' = Some y"
      using f' by (auto simp: W' h)
    show "queues_ok (heap W') f' y (join_ghost f ws g)"
    proof (cases "f' = f")
      case True
      show ?thesis unfolding True
        by (rule queues_ok_frame [OF world_okD(4) [OF V fxV], where A = "{}"])
          (use loose same [OF True] in \<open>auto simp: h W'\<close>)
    next
      case False
      show ?thesis
        by (rule queues_ok_frame [OF world_okD(4) [OF V other [OF False]], where A = "{}"]) (use loose in \<open>auto simp: h\<close>)
    qed
    show "guards_ok (heap W') f' y (join_ghost f ws g)"
    proof (cases "f' = f")
      case True
      show ?thesis unfolding True
        by (rule guards_ok_frame [OF world_okD(5) [OF V fxV]]) (use same [OF True] in \<open>auto simp: W' h split: if_splits\<close>)
    next
      case False
      show ?thesis
        by (rule guards_ok_frame [OF world_okD(5) [OF V other [OF False]]]) (auto simp: h split: if_splits)
    qed
    show "inbox_ok (heap W') f' y (join_ghost f ws g)"
    proof (cases "f' = f")
      case True
      note ib = world_okD(3) [OF V fxV]
      have "is_stack (heap W') (last ws) (rev ws @ g_inbox g f)"
        using stack_push_list [OF J(3), of "g_inbox g f"] ib J(1) by (simp add: inbox_ok_def h)
      moreover have "nxt (heap W') (last ws) = null"
        using J(1,3) by (cases ws rule: rev_cases) (auto simp: dls_append)
      moreover have "hd (rev ws @ g_inbox g f) = last ws" using J(1) by (simp add: hd_rev)
      moreover have "set (g_inbox g f) \<inter> set ws = {}"
        using ib loose by (auto simp: inbox_ok_def)
      ultimately show ?thesis
        using ib J(1,2,6,7) n unfolding True same [OF True] W'(2)
        by (auto simp: inbox_ok_def h)
    next
      case False
      show ?thesis
        by (rule inbox_ok_frame [OF world_okD(3) [OF V other [OF False]], where A = "{}"])
          (use loose False in \<open>auto simp: h\<close>)
    qed
  qed
qed

text \<open>Every waiter of the list becomes the one of a task that had none.\<close>

definition joins :: "ptr set \<Rightarrow> role \<Rightarrow> role \<Rightarrow> bool" where
  "joins A r r' \<longleftrightarrow> r' = r \<or> r_stage r = NoWaiter \<and> (\<exists>w\<in>A. r' = r\<lparr>r_stage := Parked w 0\<rparr>)"

lemma tasks_join:
  assumes T: "tasks_ok f 1 W g fx R"
    and join: "joining (heap W) (heap W') f 1 (fa_inbox (futex_atom fx)) ws"
    and W': "futexes W' = (futexes W)(f \<mapsto> fx')"
      "fx' = fx\<lparr>futex_atom := \<lparr>fa_atom = a, fa_inbox = last ws\<rparr>\<rparr>"
    and R': "\<And>u. joins (set ws) (R u) (R' u)"
      "\<And>w. w \<in> set ws \<Longrightarrow> \<exists>u. r_stage (R' u) = Parked w 0"
      "\<And>u v w. w \<in> set ws \<Longrightarrow> r_stage (R' u) = Parked w 0 \<Longrightarrow> r_stage (R' v) = Parked w 0 \<Longrightarrow> u = v"
  shows "tasks_ok f 1 W' (join_ghost f ws g) fx' R'"
  unfolding tasks_ok_def
proof (intro conjI)
  note J = joiningD [OF join]
  have loose: "g_loc g w = Loose" if "w \<in> set ws" for w
    using world_ok_alive [OF tasks_okD(1) [OF T], of w] J(5) [OF that] by (auto simp: alive_def)
  have plain: "r_read (R' u) = r_read (R u)" "r_write (R' u) = r_write (R u)" "r_borrow (R' u) = r_borrow (R u)"
    "r_hand (R' u) = r_hand (R u)" "r_list (R' u) = r_list (R u)" for u
    using R'(1) [of u] by (auto simp: joins_def)
  show "world_ok W' (join_ghost f ws g)"
    by (rule world_ok_join [OF tasks_okD(1-3) [OF T] join W'])
  show "futexes W' f = Some fx'" by (simp add: W')
  show "length (queues fx') = 1" using tasks_okD(3) [OF T] by (simp add: W')
  show "guards_held fx' R'"
    using tasks_okD(4) [OF T] by (simp add: guards_held_def W' plain)
  show "hands_held (join_ghost f ws g) R'"
    using tasks_okD(5) [OF T] loose unfolding hands_held_def by (simp add: plain) (metis place.distinct(5))
  have old: "stage_waiter (r_stage (R u)) = Some w \<Longrightarrow> w \<notin> set ws" for u w
    using stage_alive [OF tasks_stage [OF T refl, of u]] J(5) [of w] by (auto simp: alive_def)
  have shape: "r_stage (R' u) = r_stage (R u) \<or> (\<exists>w\<in>set ws. r_stage (R' u) = Parked w 0 \<and> r_stage (R u) = NoWaiter)" for u
    using R'(1) [of u] by (auto simp: joins_def)
  show "stages_held (heap W') (join_ghost f ws g) f 1 R'"
    unfolding stages_held_def
  proof (intro conjI allI impI)
    fix u
    have "stage_ok (heap W') (join_ghost f ws g) f 1 (r_stage (R u))"
      using stage_ok_cong [of "r_stage (R u)" "heap W'" "heap W" "join_ghost f ws g" g f 1]
        tasks_stage [OF T refl, of u] old [of u] J(4) by simp
    then show "stage_ok (heap W') (join_ghost f ws g) f 1 (r_stage (R' u))"
      using shape [of u] J(6,7,9) by (auto simp: parked_ok_def listed_def)
  next
    fix u v w assume uv: "stage_waiter (r_stage (R' u)) = Some w \<and> stage_waiter (r_stage (R' v)) = Some w"
    show "u = v"
    proof (cases "w \<in> set ws")
      case True
      then have "r_stage (R' u) = Parked w 0" "r_stage (R' v) = Parked w 0"
        using uv old [of u w] old [of v w] shape [of u] shape [of v] by auto
      then show ?thesis by (rule R'(3) [OF True])
    next
      case False
      then have "r_stage (R' u) = r_stage (R u)" "r_stage (R' v) = r_stage (R v)"
        using uv shape [of u] shape [of v] by auto
      with uv show ?thesis using tasks_okD(6) [OF T] by (auto simp: stages_held_def)
    qed
  next
    fix w assume w: "g_loc (join_ghost f ws g) w \<noteq> Loose"
    show "\<exists>u. sleeper (r_stage (R' u)) = Some w"
    proof (cases "w \<in> set ws")
      case True
      with R'(2) [OF this] show ?thesis by (metis sleeper.simps(1))
    next
      case False
      then obtain u where u: "sleeper (r_stage (R u)) = Some w"
        using w tasks_okD(6) [OF T] by (auto simp: stages_held_def)
      then have "r_stage (R' u) = r_stage (R u)"
        using shape [of u] by auto
      with u show ?thesis by metis
    qed
  qed
qed

text \<open>For the fair mutex, the tasks of the list are then suspended in \<open>lock\<close>.\<close>

definition enters :: "ptr \<Rightarrow> ptr set \<Rightarrow> fair_pc \<Rightarrow> fair_pc \<Rightarrow> bool" where
  "enters f A p p' \<longleftrightarrow> p' = p \<or> p = Idle \<and> (\<exists>wait. wf_waiter wait \<in> A \<and> wait_ok f wait \<and>
     (p' = LPending wait \<or> (\<exists>cx k. p' = LPolling wait cx (WakerWaiting k))))"

lemma fair_join:
  assumes ok: "fair_ok f W pc g fx own" and own: "own \<noteq> None"
    and join: "joining (heap W) (heap W') f 1 (fa_inbox (futex_atom fx)) ws"
    and W': "futexes W' = (futexes W)(f \<mapsto> fx')"
      "fx' = fx\<lparr>futex_atom := \<lparr>fa_atom = fa_atom (futex_atom fx), fa_inbox = last ws\<rparr>\<rparr>"
    and pc': "\<And>u. enters f (set ws) (pc u) (pc' u)"
      "\<And>w. w \<in> set ws \<Longrightarrow> \<exists>u. sleeper (r_stage (fair_role (pc' u))) = Some w"
      "\<And>u v w. w \<in> set ws \<Longrightarrow> sleeper (r_stage (fair_role (pc' u))) = Some w \<Longrightarrow>
         sleeper (r_stage (fair_role (pc' v))) = Some w \<Longrightarrow> u = v"
  shows "fair_ok f W' pc' (join_ghost f ws g) fx' own"
proof -
  note J = joiningD [OF join]
  note T = fair_okD(1) [OF ok]
  have old: "stage_waiter (r_stage (fair_role (pc u))) = Some w \<Longrightarrow> w \<notin> set ws" for u w
    using stage_alive [OF tasks_stage [OF T refl, of u]] J(5) [of w] by (auto simp: alive_def)
  have joins: "joins (set ws) (fair_role (pc u)) (fair_role (pc' u))" for u
    using pc'(1) [of u] by (auto simp: enters_def joins_def idle_role_def)
  have new: "r_stage (fair_role (pc' u)) = Parked w 0" if "w \<in> set ws" "sleeper (r_stage (fair_role (pc' u))) = Some w" for u w
  proof -
    have "r_stage (fair_role (pc' u)) \<noteq> r_stage (fair_role (pc u))"
      using old [of u w] that sleeper_waiter by metis
    with joins [of u] that(2) show ?thesis by (auto simp: joins_def)
  qed
  have keep: "wkr (heap W') w = wkr (heap W) w" if "w \<notin> set ws" for w
    using J(4) [OF that] by (simp add: wkr_def)
  show ?thesis
    unfolding fair_ok_def
  proof (intro conjI allI)
    show "tasks_ok f 1 W' (join_ghost f ws g) fx' (\<lambda>t. fair_role (pc' t))"
    proof (rule tasks_join [OF T join W' joins])
      fix w assume w: "w \<in> set ws"
      from pc'(2) [OF w] new [OF w] show "\<exists>u. r_stage (fair_role (pc' u)) = Parked w 0" by blast
      fix u v assume "r_stage (fair_role (pc' u)) = Parked w 0" "r_stage (fair_role (pc' v)) = Parked w 0"
      then show "u = v" by (intro pc'(3) [OF w]) simp_all
    qed
  next
    fix u
    have p: "pc_ok f (heap W') (pc u)"
      by (rule pc_ok_mono [OF fair_okD(2) [OF ok]]) (use old keep in auto)
    then show "pc_ok f (heap W') (pc' u)"
      using pc'(1) [of u] by (auto simp: enters_def)
    have "owns (heap W') (pc u) = owns (heap W) (pc u)"
      by (rule owns_cong) (use old keep in auto)
    moreover have "pc' u \<noteq> pc u \<Longrightarrow> \<not> owns (heap W') (pc' u) \<and> \<not> owns (heap W) (pc u)"
      using pc'(1) [of u] J(8) by (fastforce simp: enters_def)
    ultimately show "owns (heap W') (pc' u) \<longleftrightarrow> own = Some u"
      using fair_okD(4) [OF ok, of u] by metis
    fix x show "in_unlock (pc' u) = Some x \<and> unlock_empty x \<longrightarrow> g_queues (join_ghost f ws g) f ! 0 = []"
      using fair_okD(3) [OF ok, of u x] pc'(1) [of u] by (auto simp: enters_def)
  qed (use own fair_okD(5) [OF ok] in \<open>auto simp: W'\<close>)
qed

end
