(* ===== verification/Condvar_Inv.thy ===== *)
theory Condvar_Inv imports Condvar Futex_Frame Requeue begin

text \<open>
  The invariant of \<open>src/condvar.rs\<close>. The memory has three parts: the waiters of the mutex (\<open>A\<close>) and
  its futex, those of the condition variable (\<open>C\<close>) and its futex, and the waiters that a \<open>notify\<close>
  is moving (\<open>mv\<close>). On the first part the tasks are tasks of the fair mutex: a task \<open>t\<close> itself, and
  beside it \<open>t + N\<close>, which is suspended in \<open>lock\<close> while the waiter of the \<open>wait\<close> of \<open>t\<close> is there.
\<close>

section \<open>The mutex\<close>

definition transfer_main :: "transfer_pc \<Rightarrow> fair_pc" where
  "transfer_main n =
     (case n of TStore l i \<Rightarrow> Unlocking UBorrow | TPush l a \<Rightarrow> Unlocking UBorrow
      | TUnlockM \<Rightarrow> Unlocking UBorrow | _ \<Rightarrow> Held)"

fun cond_main :: "cond_pc \<Rightarrow> fair_pc" where
  "cond_main (VFair p) = p"
| "cond_main (VTop w a cx) = Held"
| "cond_main (VUnlock wait u) = Unlocking u"
| "cond_main (VNotify count n) = transfer_main n"
| "cond_main _ = Idle"

definition on_mutex :: "ptr \<Rightarrow> wait_future \<Rightarrow> wait_future" where
  "on_mutex f wait = wait\<lparr>wf_original_futex := f\<rparr>"

lemma on_mutex_simps [simp]:
  "wf_waiter (on_mutex f wait) = wf_waiter wait" "wf_step (on_mutex f wait) = wf_step wait"
  "wf_original_futex (on_mutex f wait) = f"
  by (simp_all add: on_mutex_def)

fun cond_sleep :: "ptr \<Rightarrow> ptr set \<Rightarrow> cond_pc \<Rightarrow> fair_pc" where
  "cond_sleep f A (VUnlock wait u) = (if wf_waiter wait \<in> A then LPending (on_mutex f wait) else Idle)"
| "cond_sleep f A (VPending wait) = (if wf_waiter wait \<in> A then LPending (on_mutex f wait) else Idle)"
| "cond_sleep f A (VPolling wait cx k) = (if wf_waiter wait \<in> A then LPolling (on_mutex f wait) cx k else Idle)"
| "cond_sleep f A _ = Idle"

definition mutex_view :: "nat \<Rightarrow> ptr \<Rightarrow> ptr set \<Rightarrow> (tid \<Rightarrow> cond_pc) \<Rightarrow> tid \<Rightarrow> fair_pc" where
  "mutex_view N f A pcs v = (if v < N then cond_main (pcs v) else cond_sleep f A (pcs (v - N)))"

lemma mutex_view_at [simp]:
  "t < N \<Longrightarrow> mutex_view N f A pcs t = cond_main (pcs t)"
  "mutex_view N f A pcs (t + N) = cond_sleep f A (pcs t)"
  by (simp_all add: mutex_view_def)

lemma mutex_view_upd:
  "t < N \<Longrightarrow> mutex_view N f A (pcs(t := q)) = (mutex_view N f A pcs)(t := cond_main q, t + N := cond_sleep f A q)"
  by (auto simp: mutex_view_def fun_eq_iff)

lemma mutex_view_main:
  assumes "t < N" "cond_sleep f A q = cond_sleep f A (pcs t)"
  shows "mutex_view N f A (pcs(t := q)) = (mutex_view N f A pcs)(t := cond_main q)"
  unfolding mutex_view_upd [OF assms(1)] assms(2)
  by (rule fun_upd_idem) (use assms(1) in simp)

lemma mutex_view_same:
  assumes "t < N" "cond_main q = cond_main (pcs t)" "cond_sleep f A q = cond_sleep f A (pcs t)"
  shows "mutex_view N f A (pcs(t := q)) = mutex_view N f A pcs"
  unfolding mutex_view_main [of t N f A q pcs, OF assms(1,3)] by (rule fun_upd_idem) (use assms in simp)

lemma mutex_view_sleep:
  assumes "t < N" "cond_main q = cond_main (pcs t)"
  shows "mutex_view N f A (pcs(t := q)) = (mutex_view N f A pcs)(t + N := cond_sleep f A q)"
proof -
  have "(mutex_view N f A pcs)(t := cond_main q) = mutex_view N f A pcs"
    using assms by (intro fun_upd_idem) simp
  then show ?thesis by (simp add: mutex_view_upd [OF assms(1)])
qed

section \<open>The condition variable\<close>

fun cond_waiter :: "cond_pc \<Rightarrow> ptr option" where
  "cond_waiter (VUnlock wait u) = Some (wf_waiter wait)"
| "cond_waiter (VPending wait) = Some (wf_waiter wait)"
| "cond_waiter (VPolling wait cx k) = Some (wf_waiter wait)"
| "cond_waiter _ = None"

definition transfer_role :: "transfer_pc \<Rightarrow> role" where
  "transfer_role n = idle_role\<lparr>
     r_read := (case n of TLock a \<Rightarrow> False | TDone \<Rightarrow> False | _ \<Rightarrow> True),
     r_borrow := (case n of TEnqueue a \<Rightarrow> True | TUnborrow l \<Rightarrow> True | _ \<Rightarrow> False)\<rparr>"

definition cond_role :: "ptr set \<Rightarrow> cond_pc \<Rightarrow> role" where
  "cond_role C p =
     (case p of
        VTop w a cx \<Rightarrow> idle_role\<lparr>r_stage := Fresh w 0\<rparr>
      | VNotify count n \<Rightarrow> transfer_role n
      | _ \<Rightarrow> (case cond_waiter p of
               Some w \<Rightarrow> if w \<in> C then idle_role\<lparr>r_stage := Parked w 0\<rparr> else idle_role
             | None \<Rightarrow> idle_role))"

lemma cond_role_simps [simp]:
  "cond_role C (VFair p) = idle_role" "cond_role C (VTop w a cx) = idle_role\<lparr>r_stage := Fresh w 0\<rparr>"
  "cond_role C (VNotify count n) = transfer_role n"
  "cond_role C (VUnlock wait u) = (if wf_waiter wait \<in> C then idle_role\<lparr>r_stage := Parked (wf_waiter wait) 0\<rparr> else idle_role)"
  "cond_role C (VPending wait) = (if wf_waiter wait \<in> C then idle_role\<lparr>r_stage := Parked (wf_waiter wait) 0\<rparr> else idle_role)"
  "cond_role C (VPolling wait cx k) = (if wf_waiter wait \<in> C then idle_role\<lparr>r_stage := Parked (wf_waiter wait) 0\<rparr> else idle_role)"
  by (simp_all add: cond_role_def)

fun cond_pc_ok :: "usize \<Rightarrow> ptr set \<Rightarrow> cond_pc \<Rightarrow> bool" where
  "cond_pc_ok m A (VTop w a cx) = (fa_atom a \<in> {0, m})"
| "cond_pc_ok m A (VUnlock wait u) = (wf_step wait = Waiting)"
| "cond_pc_ok m A (VPending wait) = (wf_step wait = Waiting)"
| "cond_pc_ok m A (VPolling wait cx k) =
     (wf_step wait = Waiting \<and> (wf_waiter wait \<notin> A \<longrightarrow> (\<exists>old. k = WakerWaiting old)))"
| "cond_pc_ok m A (VDrop w d) = False"
| "cond_pc_ok m A (VCancel w u) = False"
| "cond_pc_ok m A (VNotify count n) = (n \<noteq> TDone)"
| "cond_pc_ok m A _ = True"

section \<open>The waiters on their way\<close>

text \<open>
  Stores go along the list; the push sets the \<open>prev\<close> of its head, again in every round of the loop.
\<close>

fun carry_ok :: "ptr \<Rightarrow> heap \<Rightarrow> ptr list \<Rightarrow> cond_pc \<Rightarrow> bool" where
  "carry_ok f h mv (VNotify count (TUnborrow l)) = dlist h l mv"
| "carry_ok f h mv (VNotify count (TLockM l)) = dlist h l mv"
| "carry_ok f h mv (VNotify count (TStore l i)) = (mv \<noteq> [] \<and> dlist h l mv \<and>
     (\<exists>xs ys. mv = xs @ ys \<and> wl_head i = hd (ys @ [null]) \<and> (\<forall>w\<in>set xs. fut h w = f)))"
| "carry_ok f h mv (VNotify count (TPush l a)) = (mv \<noteq> [] \<and> wl_head l = hd mv \<and> wl_tail l = last mv \<and>
     (\<exists>p. dls h p mv null) \<and> (\<forall>w\<in>set mv. fut h w = f))"
| "carry_ok f h mv p = True"

fun carries :: "cond_pc \<Rightarrow> bool" where
  "carries (VNotify count (TUnborrow l)) = True"
| "carries (VNotify count (TLockM l)) = True"
| "carries (VNotify count (TStore l i)) = True"
| "carries (VNotify count (TPush l a)) = True"
| "carries p = False"

definition moving_ok :: "ptr \<Rightarrow> heap \<Rightarrow> ptr list \<Rightarrow> (tid \<Rightarrow> cond_pc) \<Rightarrow> bool" where
  "moving_ok f h mv pcs \<longleftrightarrow> distinct mv \<and> (\<forall>t. carry_ok f h mv (pcs t)) \<and>
     (mv \<noteq> [] \<longrightarrow> (\<exists>t. carries (pcs t))) \<and>
     (\<forall>w\<in>set mv. alive h w \<and> que h w = 0 \<and> (\<exists>t. cond_waiter (pcs t) = Some w))"

text \<open>
  Every suspended \<open>wait\<close> has its own waiter, in one of the three parts, and nobody wakes it before
  it is on the mutex.
\<close>

definition waits_ok :: "heap \<Rightarrow> ptr set \<Rightarrow> ptr set \<Rightarrow> ptr list \<Rightarrow> (tid \<Rightarrow> cond_pc) \<Rightarrow> bool" where
  "waits_ok h A C mv pcs \<longleftrightarrow>
     (\<forall>t w. cond_waiter (pcs t) = Some w \<longrightarrow> w \<in> A \<union> C \<union> set mv \<and>
        (w \<notin> A \<longrightarrow> (\<exists>k. wkr h w = WakerWaiting k))) \<and>
     (\<forall>t u w. cond_waiter (pcs t) = Some w \<longrightarrow> cond_waiter (pcs u) = Some w \<longrightarrow> t = u)"

section \<open>The invariant\<close>

definition cond_ok :: "nat \<Rightarrow> ptr \<Rightarrow> ptr \<Rightarrow> usize \<Rightarrow> world \<Rightarrow> (tid \<Rightarrow> cond_pc) \<Rightarrow> ptr set \<Rightarrow> ptr set \<Rightarrow>
    ptr list \<Rightarrow> ghost \<Rightarrow> ghost \<Rightarrow> raw_futex \<Rightarrow> raw_futex \<Rightarrow> tid option \<Rightarrow> bool" where
  "cond_ok N c f m W pcs A C mv gf gc xf xc own \<longleftrightarrow>
     fair_ok f (part A {f} W) (mutex_view N f A pcs) gf xf own \<and>
     tasks_ok c 1 (part C {c} W) gc xc (\<lambda>t. cond_role C (pcs t)) \<and>
     fa_atom (futex_atom xc) \<in> {0, m} \<and>
     (c \<noteq> f \<and> A \<inter> C = {} \<and> set mv \<inter> (A \<union> C) = {}) \<and>
     (\<forall>t. cond_pc_ok m A (pcs t)) \<and> (\<forall>t. N \<le> t \<longrightarrow> pcs t = VFair Idle) \<and>
     moving_ok f (heap W) mv pcs \<and> waits_ok (heap W) A C mv pcs"

definition cond_inv :: "nat \<Rightarrow> ptr \<Rightarrow> ptr \<Rightarrow> usize \<Rightarrow> cond_state \<Rightarrow> bool" where
  "cond_inv N c f m s \<longleftrightarrow> (\<exists>A C mv gf gc xf xc own. cond_ok N c f m (cv_world s) (cv_pc s) A C mv gf gc xf xc own)"

lemma cond_okD:
  assumes "cond_ok N c f m W pcs A C mv gf gc xf xc own"
  shows "fair_ok f (part A {f} W) (mutex_view N f A pcs) gf xf own"
    "tasks_ok c 1 (part C {c} W) gc xc (\<lambda>t. cond_role C (pcs t))"
    "fa_atom (futex_atom xc) \<in> {0, m}" "c \<noteq> f" "A \<inter> C = {}" "set mv \<inter> (A \<union> C) = {}"
    "cond_pc_ok m A (pcs t)" "N \<le> t \<Longrightarrow> pcs t = VFair Idle"
    "moving_ok f (heap W) mv pcs" "waits_ok (heap W) A C mv pcs"
  using assms unfolding cond_ok_def by blast+

lemma moving_okD:
  assumes "moving_ok f h mv pcs"
  shows "distinct mv" "carry_ok f h mv (pcs t)" "mv \<noteq> [] \<Longrightarrow> \<exists>t. carries (pcs t)"
    "w \<in> set mv \<Longrightarrow> alive h w" "w \<in> set mv \<Longrightarrow> que h w = 0"
    "w \<in> set mv \<Longrightarrow> \<exists>t. cond_waiter (pcs t) = Some w"
  using assms unfolding moving_ok_def by blast+

lemma waits_okD:
  assumes "waits_ok h A C mv pcs"
  shows "cond_waiter (pcs t) = Some w \<Longrightarrow> w \<in> A \<union> C \<union> set mv"
    "cond_waiter (pcs t) = Some w \<Longrightarrow> w \<notin> A \<Longrightarrow> \<exists>k. wkr h w = WakerWaiting k"
    "cond_waiter (pcs t) = Some w \<Longrightarrow> cond_waiter (pcs u) = Some w \<Longrightarrow> t = u"
  using assms unfolding waits_ok_def by blast+

text \<open>What is said of a part does not depend on the logs.\<close>

lemma fair_ok_logs:
  "fair_ok f W pc g fx own \<Longrightarrow> heap W' = heap W \<Longrightarrow> futexes W' = futexes W \<Longrightarrow> fair_ok f W' pc g fx own"
  using tasks_ok_cong [of f 1 W g fx "\<lambda>t. fair_role (pc t)" W'] by (simp add: fair_ok_def)

text \<open>What is said of the moving waiters depends on them alone.\<close>

lemma carry_ok_cong:
  assumes "\<And>w. w \<in> set mv \<Longrightarrow> h' w = h w"
  shows "carry_ok f h' mv p = carry_ok f h mv p"
proof -
  have d: "dlist h' l mv = dlist h l mv" "dls h' a mv b = dls h a mv b" for l a b
    using dlist_cong [OF assms] dls_cong [OF assms] by auto
  have sub: "(\<forall>w\<in>set xs. fut h' w = f) = (\<forall>w\<in>set xs. fut h w = f)" if "set xs \<subseteq> set mv" for xs
    using assms that by (intro ball_cong refl) (auto simp: fut_def)
  have "(mv = xs @ ys \<and> e \<and> (\<forall>w\<in>set xs. fut h' w = f)) = (mv = xs @ ys \<and> e \<and> (\<forall>w\<in>set xs. fut h w = f))"
    for xs ys e
    using sub [of xs] by (cases "mv = xs @ ys") simp_all
  then show ?thesis
    using sub [OF subset_refl]
    by (cases "(f, h', mv, p)" rule: carry_ok.cases) (simp_all add: d)
qed

lemma moving_step:
  assumes ok: "moving_ok f h mv pcs" and h': "\<And>w. w \<in> set mv \<Longrightarrow> h' w = h w"
    and q: "carry_ok f h mv q" "carries (pcs t) \<Longrightarrow> mv \<noteq> [] \<Longrightarrow> carries q"
      "\<And>w. cond_waiter (pcs t) = Some w \<Longrightarrow> w \<in> set mv \<Longrightarrow> cond_waiter q = Some w"
  shows "moving_ok f h' mv (pcs(t := q))"
  unfolding moving_ok_def
proof (intro conjI allI impI ballI)
  note M = moving_okD [OF ok]
  show "distinct mv" by (rule M)
  fix u show "carry_ok f h' mv ((pcs(t := q)) u)"
    using carry_ok_cong [of mv h' h f, OF h'] q(1) M(2) [of u] by simp
next
  assume "mv \<noteq> []"
  with moving_okD(3) [OF ok] q(2) show "\<exists>u. carries ((pcs(t := q)) u)" by (metis fun_upd_apply)
next
  fix w assume w: "w \<in> set mv"
  then show "alive h' w" "que h' w = 0"
    using moving_okD(4,5) [OF ok w] h' [OF w] by (simp_all add: alive_def que_def)
  show "\<exists>u. cond_waiter ((pcs(t := q)) u) = Some w"
    using moving_okD(6) [OF ok w] q(3) [OF _ w] by (metis fun_upd_apply)
qed

lemma waits_step:
  assumes ok: "waits_ok h A C mv pcs"
    and h': "\<And>u w. u \<noteq> t \<Longrightarrow> cond_waiter (pcs u) = Some w \<Longrightarrow> w \<notin> A \<Longrightarrow>
        (\<exists>k. wkr h w = WakerWaiting k) \<Longrightarrow> \<exists>k. wkr h' w = WakerWaiting k"
    and q: "\<And>w. cond_waiter q = Some w \<Longrightarrow> w \<in> A \<union> C \<union> set mv"
      "\<And>w. cond_waiter q = Some w \<Longrightarrow> w \<notin> A \<Longrightarrow> \<exists>k. wkr h' w = WakerWaiting k"
      "\<And>u w. cond_waiter q = Some w \<Longrightarrow> u \<noteq> t \<Longrightarrow> cond_waiter (pcs u) \<noteq> Some w"
  shows "waits_ok h' A C mv (pcs(t := q))"
  unfolding waits_ok_def
proof (intro conjI allI impI)
  fix u w assume w: "cond_waiter ((pcs(t := q)) u) = Some w"
  show "w \<in> A \<union> C \<union> set mv"
    using w q(1) waits_okD(1) [OF ok, of u w] by (auto split: if_splits)
  show "w \<notin> A \<Longrightarrow> \<exists>k. wkr h' w = WakerWaiting k"
    using w q(2) waits_okD(2) [OF ok, of u w] h' [of u w] by (auto split: if_splits)
  fix v assume v: "cond_waiter ((pcs(t := q)) v) = Some w"
  show "u = v"
    using w v q(3) waits_okD(3) [OF ok, of u w v] by (auto split: if_splits)
qed

end
