(* ===== verification/Condvar_Step.thy ===== *)
theory Condvar_Step imports Condvar_Inv begin

text \<open>
  The steps of the mutex and of \<open>wait\<close> of \<open>src/condvar.rs\<close>: every one keeps the invariant and does
  not fault. A step on one part of the memory leaves the other parts as they are.
\<close>

definition cond_good ::
  "nat \<Rightarrow> ptr \<Rightarrow> ptr \<Rightarrow> usize \<Rightarrow> tid \<Rightarrow> (tid \<Rightarrow> cond_pc) \<Rightarrow> (cond_pc \<times> world) res \<Rightarrow> bool" where
  "cond_good N c f m t pcs r \<longleftrightarrow> (\<exists>q W' A C mv gf gc xf xc own. r = Inr (q, W') \<and>
     cond_ok N c f m W' (pcs(t := q)) A C mv gf gc xf xc own)"

lemma cond_goodI:
  "cond_ok N c f m W' (pcs(t := q)) A C mv gf gc xf xc own \<Longrightarrow> cond_good N c f m t pcs (Inr (q, W'))"
  unfolding cond_good_def by blast

section \<open>Steps on one part\<close>

lemma part_same:
  assumes "world_rel A B W V W'" "C \<inter> A = {}" "D \<inter> B = {}"
  shows "heap (part C D W') = heap (part C D W)" "futexes (part C D W') = futexes (part C D W)"
    "w \<in> C \<Longrightarrow> heap W' w = heap W w"
  using assms by (auto simp: world_rel_def restrict_map_def fun_eq_iff)

lemma part_read: "w \<in> A \<Longrightarrow> wkr (heap (part A B W)) w = wkr (heap W) w"
  by (simp add: wkr_def)

lemma wkr_same: "heap W' w = heap W w \<Longrightarrow> wkr (heap W') w = wkr (heap W) w"
  by (simp add: wkr_def)

lemma cond_mutex_step:
  assumes ok: "cond_ok N c f m W pcs A C mv gf gc xf xc own" and t: "t < N"
    and F: "fair_ok f V' (mutex_view N f A (pcs(t := q))) gf' xf' own'" and rel: "world_rel A {f} W V' W'"
    and q: "cond_role C q = cond_role C (pcs t)" "cond_pc_ok m A q" "carry_ok f (heap W) mv q"
      "carries (pcs t) \<Longrightarrow> mv \<noteq> [] \<Longrightarrow> carries q"
      "cond_waiter q = cond_waiter (pcs t) \<or>
         cond_waiter q = None \<and> (\<forall>w. cond_waiter (pcs t) = Some w \<longrightarrow> w \<in> A)"
  shows "cond_ok N c f m W' (pcs(t := q)) A C mv gf' gc xf' xc own'"
proof -
  note D = cond_okD [OF ok]
  have V': "part A {f} W' = V'" using rel by (simp add: world_rel_def)
  have dis: "C \<inter> A = {}" "{c} \<inter> {f} = {}" using D(4,5) by auto
  have keep: "w \<notin> A \<Longrightarrow> heap W' w = heap W w" for w
    using rel by (simp add: world_rel_def)
  have roles: "(\<lambda>u. cond_role C ((pcs(t := q)) u)) = (\<lambda>u. cond_role C (pcs u))"
    using q(1) by auto
  show ?thesis
    unfolding cond_ok_def V' roles
  proof (intro conjI allI impI)
    show "tasks_ok c 1 (part C {c} W') gc xc (\<lambda>u. cond_role C (pcs u))"
      by (rule tasks_ok_cong [OF D(2) part_same(1,2) [OF rel dis]])
    show "moving_ok f (heap W') mv (pcs(t := q))"
      by (rule moving_step [OF D(9)]) (use keep q(3-5) D(6) in auto)
    show "waits_ok (heap W') A C mv (pcs(t := q))"
    proof (rule waits_step [OF D(10)])
      fix u w assume "w \<notin> A" "\<exists>k. wkr (heap W) w = WakerWaiting k"
      then show "\<exists>k. wkr (heap W') w = WakerWaiting k"
        using wkr_same [OF keep] by simp
    next
      fix w assume w: "cond_waiter q = Some w"
      then have old: "cond_waiter (pcs t) = Some w" using q(5) by auto
      show "w \<in> A \<union> C \<union> set mv" by (rule waits_okD(1) [OF D(10) old])
      show "w \<notin> A \<Longrightarrow> \<exists>k. wkr (heap W') w = WakerWaiting k"
        using waits_okD(2) [OF D(10) old] wkr_same [OF keep] by simp
      show "u \<noteq> t \<Longrightarrow> cond_waiter (pcs u) \<noteq> Some w" for u
        using waits_okD(3) [OF D(10) old, of u] by auto
    qed
  next
    fix u show "cond_pc_ok m A ((pcs(t := q)) u)"
      using q(2) D(7) [of u] by simp
    show "N \<le> u \<Longrightarrow> (pcs(t := q)) u = VFair Idle" using D(8) [of u] t by simp
  qed (use F D(3-6) in simp_all)
qed

lemma cond_condvar_step:
  assumes ok: "cond_ok N c f m W pcs A C mv gf gc xf xc own" and t: "t < N"
    and F: "fair_ok f (part A {f} W) (mutex_view N f A (pcs(t := q))) gf' xf' own'"
    and T: "tasks_ok c 1 V' gc' xc' ((\<lambda>u. cond_role C (pcs u))(t := cond_role C q))"
    and rel: "world_rel C {c} W V' W'" and atom: "fa_atom (futex_atom xc') \<in> {0, m}"
    and wkr: "\<And>u w. u \<noteq> t \<Longrightarrow> cond_waiter (pcs u) = Some w \<Longrightarrow> w \<in> C \<Longrightarrow>
        wkr (heap V') w = wkr (heap (part C {c} W)) w"
    and q: "cond_pc_ok m A q" "carry_ok f (heap W) mv q" "carries (pcs t) \<Longrightarrow> mv \<noteq> [] \<Longrightarrow> carries q"
      "cond_waiter (pcs t) \<noteq> None \<Longrightarrow> cond_waiter q = cond_waiter (pcs t)"
      "\<And>w. cond_waiter q = Some w \<Longrightarrow> w \<in> C \<and> (\<exists>k. wkr (heap V') w = WakerWaiting k)"
  shows "cond_ok N c f m W' (pcs(t := q)) A C mv gf' gc' xf' xc' own'"
proof -
  note D = cond_okD [OF ok]
  have V': "part C {c} W' = V'" using rel by (simp add: world_rel_def)
  have dis: "A \<inter> C = {}" "{f} \<inter> {c} = {}" using D(4,5) by auto
  have keep: "w \<notin> C \<Longrightarrow> heap W' w = heap W w" for w
    using rel by (simp add: world_rel_def)
  have at: "w \<in> C \<Longrightarrow> heap W' w = heap V' w" for w
    using V' by auto
  have roles: "(\<lambda>u. cond_role C ((pcs(t := q)) u)) = (\<lambda>u. cond_role C (pcs u))(t := cond_role C q)"
    by auto
  have stage: "stage_waiter (r_stage (cond_role C p)) = Some w" if "cond_waiter p = Some w" "w \<in> C" for p w
    using that by (cases p) auto
  show ?thesis
    unfolding cond_ok_def V' roles
  proof (intro conjI allI impI)
    show "fair_ok f (part A {f} W') (mutex_view N f A (pcs(t := q))) gf' xf' own'"
      by (rule fair_ok_logs [OF F part_same(1,2) [OF rel dis]])
    show "moving_ok f (heap W') mv (pcs(t := q))"
      by (rule moving_step [OF D(9)]) (use keep q(2-4) D(6) in auto)
    show "waits_ok (heap W') A C mv (pcs(t := q))"
    proof (rule waits_step [OF D(10)])
      fix u w assume u: "u \<noteq> t" "cond_waiter (pcs u) = Some w" "\<exists>k. wkr (heap W) w = WakerWaiting k"
      show "\<exists>k. wkr (heap W') w = WakerWaiting k"
      proof (cases "w \<in> C")
        case True
        then show ?thesis
          using wkr [OF u(1,2) True] u(3) wkr_same [OF at [OF True]] part_read [OF True] by metis
      next
        case False
        then show ?thesis using wkr_same [OF keep] u(3) by simp
      qed
    next
      fix w assume w: "cond_waiter q = Some w"
      show "w \<in> A \<union> C \<union> set mv" using q(5) [OF w] by simp
      show "w \<notin> A \<Longrightarrow> \<exists>k. wkr (heap W') w = WakerWaiting k"
        using q(5) [OF w] wkr_same [OF at] by simp
      show "cond_waiter (pcs u) \<noteq> Some w" if "u \<noteq> t" for u
        using tasks_sole [OF T, of t w u] stage [of q w] stage [of "pcs u" w] q(5) [OF w] w that by auto
    qed
  next
    fix u show "cond_pc_ok m A ((pcs(t := q)) u)"
      using q(1) D(7) [of u] by simp
    show "N \<le> u \<Longrightarrow> (pcs(t := q)) u = VFair Idle" using D(8) [of u] t by simp
  qed (use T atom D(4-6) in simp_all)
qed

section \<open>The operations of the mutex\<close>

text \<open>A step of the fair mutex, carried over from its part to the whole memory.\<close>

lemma mutex_lift:
  assumes ok: "cond_ok N c f m W pcs A C mv gf gc xf xc own"
    and step: "fair_task f t act W (mutex_view N f A pcs v) = Some r"
    and addr: "\<And>cx addr. act = Poll cx addr \<Longrightarrow> mutex_view N f A pcs v = Idle \<Longrightarrow> addr \<in> A"
    and same: "fair_task f t act (part A {f} W) (mutex_view N f A pcs v) =
      fair_task f v act (part A {f} W) (mutex_view N f A pcs v)"
  obtains p' W' V' gf' xf' own' where "r = Inr (p', W')" "world_rel A {f} W V' W'"
    "fair_ok f V' ((mutex_view N f A pcs)(v := p')) gf' xf' own'"
proof -
  have "sim_opt (world_rel2 A {f} W) (fair_task f t act (part A {f} W) (mutex_view N f A pcs v)) (Some r)"
    unfolding step [symmetric] by (rule fair_task_frame [OF world_rel_refl addr])
  then obtain r1 where r1: "fair_task f v act (part A {f} W) (mutex_view N f A pcs v) = Some r1"
    "sim_res (world_rel2 A {f} W) r1 r"
    unfolding same sim_opt_def by auto
  have "fair_good f v (mutex_view N f A pcs) gf own r1"
    by (rule fair_task_good [OF cond_okD(1) [OF ok] r1(1)])
  then obtain p' V' gf' xf' own' where g: "r1 = Inr (p', V')"
    "fair_ok f V' ((mutex_view N f A pcs)(v := p')) gf' xf' own'"
    unfolding fair_good_def by blast
  from r1(2) g(1) obtain W' where "r = Inr (p', W')" "world_rel A {f} W V' W'"
    by (auto simp: sim_res_def world_rel2_def)
  with g(2) that show ?thesis by blast
qed

text \<open>An address that is free may be taken into a part.\<close>

lemma part_insert: "heap W a = None \<Longrightarrow> part (insert a A) B W = part A B W" "heap W a = None \<Longrightarrow> part (A - {a}) B W = part A B W"
  by (auto simp: part_def restrict_map_def fun_eq_iff)

lemma cond_waiter_alive:
  assumes ok: "cond_ok N c f m W pcs A C mv gf gc xf xc own" and w: "cond_waiter (pcs t) = Some w"
  shows "alive (heap W) w"
proof -
  note D = cond_okD [OF ok]
  have "t < N" using D(8) [of t] w by (cases "t < N") auto
  consider "w \<in> A" | "w \<in> C" | "w \<in> set mv" using waits_okD(1) [OF D(10) w] by auto
  then show ?thesis
  proof cases
    case 1
    have "stage_waiter (r_stage (fair_role (mutex_view N f A pcs (t + N)))) = Some w"
      unfolding mutex_view_at using w 1 by (cases "pcs t") auto
    from stage_alive [OF tasks_stage [OF fair_okD(1) [OF D(1)] refl] this] show ?thesis
      by (auto simp: alive_def restrict_map_def split: if_splits)
  next
    case 2
    have "stage_waiter (r_stage (cond_role C (pcs t))) = Some w"
      using w 2 by (cases "pcs t") auto
    from stage_alive [OF tasks_stage [OF D(2) refl] this] show ?thesis
      by (auto simp: alive_def restrict_map_def split: if_splits)
  next
    case 3
    from moving_okD(4) [OF D(9) 3] show ?thesis .
  qed
qed

lemma cond_claim:
  assumes ok: "cond_ok N c f m W pcs A C mv gf gc xf xc own" and free: "heap W a = None"
    and AC: "A' = insert a A \<and> C' = C - {a} \<or> A' = A - {a} \<and> C' = insert a C"
  shows "cond_ok N c f m W pcs A' C' mv gf gc xf xc own"
proof -
  note D = cond_okD [OF ok]
  have not: "cond_waiter (pcs t) \<noteq> Some a" for t
    using cond_waiter_alive [OF ok, of t a] free by (auto simp: alive_def)
  have "a \<notin> set mv" using moving_okD(4) [OF D(9), of a] free by (auto simp: alive_def)
  have in': "w \<in> A' \<longleftrightarrow> w \<in> A" "w \<in> C' \<longleftrightarrow> w \<in> C" if "w \<noteq> a" for w
    using AC that by auto
  have view: "mutex_view N f A' pcs = mutex_view N f A pcs"
  proof
    fix v have "cond_sleep f A' p = cond_sleep f A p" if "cond_waiter p \<noteq> Some a" for p
      using that in' by (cases p) auto
    then show "mutex_view N f A' pcs v = mutex_view N f A pcs v"
      using not by (simp add: mutex_view_def)
  qed
  have role: "cond_role C' (pcs t) = cond_role C (pcs t)" for t
    using not [of t] in' by (cases "pcs t") (auto simp: cond_role_def)
  have pc: "cond_pc_ok m A' (pcs t)" for t
    using D(7) [of t] not [of t] in' by (cases "pcs t") auto
  have "part A' {f} W = part A {f} W" "part C' {c} W = part C {c} W"
    using AC part_insert [OF free] by auto
  moreover have "waits_ok (heap W) A' C' mv pcs"
    using D(10) not in' unfolding waits_ok_def by (metis Un_iff)
  ultimately show ?thesis
    using D \<open>a \<notin> set mv\<close> AC pc unfolding cond_ok_def view role by auto
qed

lemma cond_fair_good:
  assumes ok: "cond_ok N c f m W pcs A C mv gf gc xf xc own" and t: "t < N" "pcs t = VFair p"
    and step: "fair_task f t act W p = Some r"
  shows "cond_good N c f m t pcs (mapR (\<lambda>(p, W). (VFair p, W)) r)"
proof -
  obtain A' C' where ok': "cond_ok N c f m W pcs A' C' mv gf gc xf xc own"
    and addr: "\<And>cx addr. act = Poll cx addr \<Longrightarrow> p = Idle \<Longrightarrow> addr \<in> A'"
  proof (cases "\<exists>cx addr. act = Poll cx addr \<and> p = Idle")
    case True
    then obtain cx addr where a: "act = Poll cx addr" "p = Idle" by blast
    with step have "heap W addr = None"
      by (auto simp: fair_task_def lock_start_def new_waiter_def split: if_splits)
    from that [OF cond_claim [OF ok this disjI1]] a show ?thesis by auto
  next
    case False
    with that [OF ok] show ?thesis by auto
  qed
  have view: "mutex_view N f A' pcs t = p" using t by simp
  obtain p' W' V' gf' xf' own' where g: "r = Inr (p', W')" "world_rel A' {f} W V' W'"
    "fair_ok f V' ((mutex_view N f A' pcs)(t := p')) gf' xf' own'"
    by (rule mutex_lift [OF ok', of t act t r]) (use step addr view in auto)
  have "cond_ok N c f m W' (pcs(t := VFair p')) A' C' mv gf' gc xf' xc own'"
    by (rule cond_mutex_step [OF ok' t(1) _ g(2)])
      (use g(3) t in \<open>simp_all add: mutex_view_main\<close>)
  from cond_goodI [OF this] show ?thesis by (simp add: g(1))
qed

lemma cond_unlock_good:
  assumes ok: "cond_ok N c f m W pcs A C mv gf gc xf xc own" and t: "t < N" "pcs t = VUnlock wait u"
    and step: "unlock_step spurious t f W u = Some r"
  shows "cond_good N c f m t pcs (mapR (\<lambda>(u, W). (if u = UDone then VPending wait else VUnlock wait u, W)) r)"
proof -
  have view: "mutex_view N f A pcs t = Unlocking u" using t by simp
  have "fair_task f t (Run spurious) W (mutex_view N f A pcs t) =
      Some (mapR (\<lambda>(u, W). (if u = UDone then Idle else Unlocking u, W)) r)"
    by (simp add: view fair_task_def step)
  then obtain p' W' V' gf' xf' own' where
    g: "mapR (\<lambda>(u, W). (if u = UDone then Idle else Unlocking u, W)) r = Inr (p', W')"
    "world_rel A {f} W V' W'" "fair_ok f V' ((mutex_view N f A pcs)(t := p')) gf' xf' own'"
    by (rule mutex_lift [OF ok]) (simp_all only: view fair_pc.distinct refl action.distinct)
  then obtain u' where r: "r = Inr (u', W')" "p' = (if u' = UDone then Idle else Unlocking u')"
    by (cases r) auto
  let ?q = "if u' = UDone then VPending wait else VUnlock wait u'"
  have "cond_ok N c f m W' (pcs(t := ?q)) A C mv gf' gc xf' xc own'"
    by (rule cond_mutex_step [OF ok t(1) _ g(2)])
      (use g(3) t r(2) cond_okD(7) [OF ok, of t] in \<open>auto simp: mutex_view_main\<close>)
  from cond_goodI [OF this] show ?thesis by (simp add: r(1))
qed

section \<open>Polls of a suspended wait\<close>

text \<open>A step of no part.\<close>

lemma cond_quiet:
  assumes ok: "cond_ok N c f m W pcs A C mv gf gc xf xc own" and t: "t < N"
    and q: "cond_main q = cond_main (pcs t)" "cond_sleep f A q = cond_sleep f A (pcs t)"
      "cond_role C q = cond_role C (pcs t)" "cond_pc_ok m A q" "carry_ok f (heap W) mv q"
      "carries (pcs t) \<Longrightarrow> mv \<noteq> [] \<Longrightarrow> carries q" "cond_waiter q = cond_waiter (pcs t)"
  shows "cond_ok N c f m W (pcs(t := q)) A C mv gf gc xf xc own"
proof (rule cond_mutex_step [OF ok t _ world_rel_refl])
  have "mutex_view N f A (pcs(t := q)) = mutex_view N f A pcs"
    by (rule mutex_view_same) (use t q in simp_all)
  then show "fair_ok f (part A {f} W) (mutex_view N f A (pcs(t := q))) gf xf own"
    using cond_okD(1) [OF ok] by simp
qed (use q in auto)

lemma cond_ok_logs:
  assumes ok: "cond_ok N c f m W pcs A C mv gf gc xf xc own"
    and W': "heap W' = heap W" "futexes W' = futexes W"
  shows "cond_ok N c f m W' pcs A C mv gf gc xf xc own"
proof -
  note D = cond_okD [OF ok]
  show ?thesis
    using fair_ok_logs [OF D(1), of "part A {f} W'"] tasks_ok_cong [OF D(2), of "part C {c} W'"] ok
    by (auto simp: cond_ok_def W')
qed

text \<open>While the waiter is on its way.\<close>

lemma cond_moving_change:
  assumes ok: "cond_ok N c f m W pcs A C mv gf gc xf xc own"
    and h: "\<And>v. v \<notin> set mv \<Longrightarrow> heap W' v = heap W v" "futexes W' = futexes W"
    and mv: "moving_ok f (heap W') mv pcs"
      "\<And>v. v \<in> set mv \<Longrightarrow> (\<exists>k. wkr (heap W) v = WakerWaiting k) \<Longrightarrow> \<exists>k. wkr (heap W') v = WakerWaiting k"
  shows "cond_ok N c f m W' pcs A C mv gf gc xf xc own"
proof -
  note D = cond_okD [OF ok]
  have parts: "heap (part A {f} W') = heap (part A {f} W)" "heap (part C {c} W') = heap (part C {c} W)"
    using D(6) h(1) by (auto simp: restrict_map_def fun_eq_iff)
  have "\<exists>k. wkr (heap W') v = WakerWaiting k" if "\<exists>k. wkr (heap W) v = WakerWaiting k" for v
    using that mv(2) [of v] wkr_same [OF h(1)] by (cases "v \<in> set mv") auto
  then have "waits_ok (heap W') A C mv pcs"
    using D(10) unfolding waits_ok_def by blast
  then show ?thesis
    using fair_ok_logs [OF D(1) parts(1)] tasks_ok_cong [OF D(2) parts(2)] D(3-8) mv(1) h(2)
    by (auto simp: cond_ok_def)
qed

lemma cond_moving_waker:
  assumes ok: "cond_ok N c f m W pcs A C mv gf gc xf xc own" and w: "w \<in> set mv"
    and W': "heap W' = put_waker (heap W) w (WakerWaiting k)" "futexes W' = futexes W"
  shows "cond_ok N c f m W' pcs A C mv gf gc xf xc own"
proof (rule cond_moving_change [OF ok])
  note D = cond_okD [OF ok]
  have a: "alive (heap W) w" by (rule moving_okD(4) [OF D(9) w])
  have "carry_ok f (heap W') mv p = carry_ok f (heap W) mv p" for p
    by (cases "(f, heap W, mv, p)" rule: carry_ok.cases) (simp_all add: W' put_waker_lists [OF a] put_waker_reads)
  then show "moving_ok f (heap W') mv pcs"
    using D(9) unfolding moving_ok_def by (simp add: W' put_waker_lists [OF a] put_waker_reads)
  show "heap W' v = heap W v" if "v \<notin> set mv" for v
    using w that by (auto simp: W' put_waker_def)
  show "\<exists>k. wkr (heap W') v = WakerWaiting k" if "\<exists>k. wkr (heap W) v = WakerWaiting k" for v
    using that by (auto simp: W' put_waker_reads)
qed (fact W'(2))

lemma future_waiting:
  "wf_step wait = Waiting \<Longrightarrow>
     bindR (future_poll s cx W wait) (condvar_polled pend cx) =
       mapR (\<lambda>(k, W). (VPolling wait cx k, W)) (poll_waiting cx W (wf_waiter wait))"
  "wf_step wait = Waiting \<Longrightarrow>
     bindR (future_poll s cx W wait) (lock_polled (wf_waiter wait) cx) =
       mapR (\<lambda>(k, W). (LPolling wait cx k, W)) (poll_waiting cx W (wf_waiter wait))"
  by (cases "poll_waiting cx W (wf_waiter wait)"; auto simp: future_poll_def condvar_polled_def lock_polled_def)+

lemma cond_poll_good:
  assumes ok: "cond_ok N c f m W pcs A C mv gf gc xf xc own" and t: "t < N" "pcs t = VPending wait"
  shows "cond_good N c f m t pcs (bindR (future_poll False cx W wait) (condvar_polled VPending cx))"
proof -
  let ?w = "wf_waiter wait"
  note D = cond_okD [OF ok]
  have st: "wf_step wait = Waiting" using D(7) [of t] t by simp
  have w: "cond_waiter (pcs t) = Some ?w" using t by simp
  consider "?w \<in> A" | "?w \<notin> A" by blast
  then have "\<exists>k W' A C mv gf gc xf xc own. poll_waiting cx W ?w = Inr (k, W') \<and>
      cond_ok N c f m W' (pcs(t := VPolling wait cx k)) A C mv gf gc xf xc own"
  proof cases
    case 1
    have view: "mutex_view N f A pcs (t + N) = LPending (on_mutex f wait)"
      unfolding mutex_view_at using t(2) 1 by simp
    have "fair_task f t (Poll cx null) W (mutex_view N f A pcs (t + N)) =
        Some (mapR (\<lambda>(k, W). (LPolling (on_mutex f wait) cx k, W)) (poll_waiting cx W ?w))"
      using future_waiting(2) [of "on_mutex f wait" False cx W] st unfolding view by (simp add: fair_task_def)
    then obtain p' W' V' gf' xf' own' where
      g: "mapR (\<lambda>(k, W). (LPolling (on_mutex f wait) cx k, W)) (poll_waiting cx W ?w) = Inr (p', W')"
      "world_rel A {f} W V' W'" "fair_ok f V' ((mutex_view N f A pcs)(t + N := p')) gf' xf' own'"
      by (rule mutex_lift [OF ok]) (simp_all only: view fair_pc.distinct fair_task_def fair_pc.case action.case prod.case)
    then obtain k where k: "poll_waiting cx W ?w = Inr (k, W')" "p' = LPolling (on_mutex f wait) cx k"
      by (cases "poll_waiting cx W ?w") auto
    have "cond_ok N c f m W' (pcs(t := VPolling wait cx k)) A C mv gf' gc xf' xc own'"
      by (rule cond_mutex_step [OF ok t(1) _ g(2)])
        (use g(3) t k(2) 1 st in \<open>auto simp: mutex_view_sleep\<close>)
    with k(1) show ?thesis by blast
  next
    case 2
    obtain old where old: "wkr (heap W) ?w = WakerWaiting old"
      using waits_okD(2) [OF D(10) w 2] by blast
    have "poll_waiting cx W ?w = Inr (WakerWaiting old, clone_waker W cx)"
      using cond_waiter_alive [OF ok w] old by (simp add: poll_waiting_def link_simps)
    moreover have "cond_ok N c f m (clone_waker W cx) (pcs(t := VPolling wait cx (WakerWaiting old))) A C mv gf gc xf xc own"
      by (rule cond_quiet [OF cond_ok_logs [OF ok] t(1)]) (use t 2 st in simp_all)
    ultimately show ?thesis by blast
  qed
  then show ?thesis
    unfolding future_waiting(1) [OF st] by (auto intro: cond_goodI)
qed

lemma poll_iter_alive:
  "alive (heap W) w \<Longrightarrow> poll_waiting_iter s new W w (WakerWaiting old) = Inr
     (if wkr (heap W) w = WakerWaiting old \<and> \<not> s
      then (Pending, drop_waker (W\<lparr>heap := put_waker (heap W) w (WakerWaiting new)\<rparr>) old)
      else (Loop (wkr (heap W) w), W))"
  by (simp add: poll_waiting_iter_def link_simps put_waker_idem)

lemma poll_iter_ready: "poll_waiting_iter s new W w k = Inr (Ready b, W') \<Longrightarrow> b"
  by (auto simp: poll_waiting_iter_def bindR_eq_Inr split: waiter_waker.splits if_splits)

lemma cond_sleeping_waker:
  assumes ok: "cond_ok N c f m W pcs A C mv gf gc xf xc own" and w: "cond_waiter (pcs t) = Some w" "w \<notin> A"
    and t: "t < N"
    and old: "wkr (heap W) w = WakerWaiting old"
    and W': "W' = drop_waker (W\<lparr>heap := put_waker (heap W) w (WakerWaiting k)\<rparr>) old"
  shows "cond_ok N c f m W' pcs A C mv gf gc xf xc own"
proof -
  note D = cond_okD [OF ok]
  consider "w \<in> set mv" | "w \<in> C" using waits_okD(1) [OF D(10) w(1)] w(2) by auto
  then show ?thesis
  proof cases
    case 1
    show ?thesis by (rule cond_moving_waker [OF ok 1]) (simp_all add: W')
  next
    case 2
    let ?V = "part C {c} W"
    have st: "r_stage (cond_role C (pcs t)) = Parked w 0" using w(1) 2 by (cases "pcs t") auto
    have V': "part C {c} W' = drop_waker (?V\<lparr>heap := put_waker (heap ?V) w (WakerWaiting k)\<rparr>) old"
      using 2 by (auto simp: W' part_def drop_waker_def put_waker_def restrict_map_def fun_eq_iff)
    have rel: "world_rel C {c} W (part C {c} W') W'"
      using 2 by (auto simp: world_rel_def W' put_waker_def)
    have T: "tasks_ok c 1 (part C {c} W') gc xc (\<lambda>u. cond_role C (pcs u))"
      unfolding V' by (rule tasks_poll_iter(2) [OF D(2) st refl]) (use old part_read [OF 2, of "{c}" W] in simp)
    have "cond_ok N c f m W' (pcs(t := pcs t)) A C mv gf gc xf xc own"
    proof (rule cond_condvar_step [OF ok t _ _ rel D(3)])
      show "fair_ok f (part A {f} W) (mutex_view N f A (pcs(t := pcs t))) gf xf own" using D(1) by simp
      show "tasks_ok c 1 (part C {c} W') gc xc ((\<lambda>u. cond_role C (pcs u))(t := cond_role C (pcs t)))"
        using T by (simp add: fun_upd_idem)
      show "carry_ok f (heap W) mv (pcs t)" by (rule moving_okD(2) [OF D(9)])
    next
      fix u v assume "u \<noteq> t" "cond_waiter (pcs u) = Some v"
      then have "v \<noteq> w" using waits_okD(3) [OF D(10) w(1)] by auto
      then show "wkr (heap (part C {c} W')) v = wkr (heap ?V) v"
        by (simp add: V' put_waker_reads)
    next
      fix v assume "cond_waiter (pcs t) = Some v"
      then show "v \<in> C \<and> (\<exists>k. wkr (heap (part C {c} W')) v = WakerWaiting k)"
        using w(1) 2 by (simp add: V' put_waker_reads)
    qed (use D(7) in auto)
    then show ?thesis by simp
  qed
qed

lemma fair_pass:
  assumes ok: "fair_ok f W pc g fx own" and p: "pc v = Held" "pc t = Idle"
  shows "fair_ok f W (pc(v := Idle, t := Held)) g fx (Some t)"
proof -
  have own: "own = Some v" using fair_okD(4) [OF ok, of v] p(1) by simp
  have "v \<noteq> t" using p by auto
  have roles: "(\<lambda>u. fair_role ((pc(v := Idle, t := Held)) u)) = (\<lambda>u. fair_role (pc u))"
    using p by auto
  show ?thesis
    unfolding fair_ok_def roles
  proof (intro conjI allI)
    fix u show "pc_ok f (heap W) ((pc(v := Idle, t := Held)) u)"
      using fair_okD(2) [OF ok, of u] by simp
    show "owns (heap W) ((pc(v := Idle, t := Held)) u) \<longleftrightarrow> Some t = Some u"
      using fair_okD(4) [OF ok, of u] own by auto
    fix x show "in_unlock ((pc(v := Idle, t := Held)) u) = Some x \<and> unlock_empty x \<longrightarrow> g_queues g f ! 0 = []"
      using fair_okD(3) [OF ok, of u x] by auto
  qed (use fair_okD(1,5) [OF ok] own in auto)
qed

lemma cond_loop_good:
  assumes ok: "cond_ok N c f m W pcs A C mv gf gc xf xc own" and t: "t < N" "pcs t = VPolling wait cx k"
  shows "cond_good N c f m t pcs (bindR (future_loop s cx W wait k) (condvar_polled VPending cx))"
proof -
  let ?w = "wf_waiter wait" and ?wait = "on_mutex f wait"
  note D = cond_okD [OF ok]
  have st: "wf_step wait = Waiting" using D(7) [of t] t by simp
  show ?thesis
  proof (cases "?w \<in> A")
    case True
    have view: "mutex_view N f A pcs (t + N) = LPolling ?wait cx k"
      unfolding mutex_view_at using t(2) True by simp
    have "fair_task f t (Run s) W (mutex_view N f A pcs (t + N)) =
        Some (bindR (future_loop s cx W ?wait k) (lock_polled ?w cx))"
      unfolding view by (simp add: fair_task_def)
    then obtain p' W' V' gf' xf' own' where
      g: "bindR (future_loop s cx W ?wait k) (lock_polled ?w cx) = Inr (p', W')"
      "world_rel A {f} W V' W'" "fair_ok f V' ((mutex_view N f A pcs)(t + N := p')) gf' xf' own'"
      by (rule mutex_lift [OF ok]) (simp_all only: view fair_pc.distinct fair_task_def fair_pc.case action.case prod.case)
    then obtain r W1 where r: "poll_waiting_iter s cx W ?w k = Inr (r, W1)"
      by (cases "poll_waiting_iter s cx W ?w k") (auto simp: future_loop_def)
    show ?thesis
    proof (cases r)
      case (Ready b)
      then have b: "b" using poll_iter_ready r by blast
      then obtain drop: "waiter_drop W1 ?w = Inr W'" "p' = Held"
        using g(1) r Ready by (cases "waiter_drop W1 ?w") (auto simp: future_loop_def lock_polled_def)
      have "fair_ok f V' ((mutex_view N f A pcs)(t + N := Held, t + N := Idle, t := Held)) gf' xf' (Some t)"
        by (rule fair_pass [OF g(3) [unfolded drop(2)]]) (use t in auto)
      then have F: "fair_ok f V' (mutex_view N f A (pcs(t := VFair Held))) gf' xf' (Some t)"
        using t(1) by (simp add: mutex_view_upd fun_upd_twist)
      have "cond_ok N c f m W' (pcs(t := VFair Held)) A C mv gf' gc xf' xc (Some t)"
        by (rule cond_mutex_step [OF ok t(1) F g(2)]) (use t True D(5) in auto)
      from cond_goodI [OF this] show ?thesis
        by (simp add: future_loop_def r Ready b condvar_polled_def drop)
    next
      case (Loop k')
      then have W': "W' = W1" "p' = LPolling ?wait cx k'" using g(1) r by (auto simp: future_loop_def lock_polled_def)
      have "cond_ok N c f m W' (pcs(t := VPolling wait cx k')) A C mv gf' gc xf' xc own'"
        by (rule cond_mutex_step [OF ok t(1) _ g(2)])
          (use g(3) t W'(2) True st in \<open>auto simp: mutex_view_sleep\<close>)
      from cond_goodI [OF this] show ?thesis by (simp add: future_loop_def r Loop condvar_polled_def W')
    next
      case Pending
      then have W': "W' = W1" "p' = LPending ?wait" using g(1) r by (auto simp: future_loop_def lock_polled_def)
      have "cond_ok N c f m W' (pcs(t := VPending wait)) A C mv gf' gc xf' xc own'"
        by (rule cond_mutex_step [OF ok t(1) _ g(2)])
          (use g(3) t W'(2) True st in \<open>auto simp: mutex_view_sleep\<close>)
      from cond_goodI [OF this] show ?thesis by (simp add: future_loop_def r Pending condvar_polled_def W')
    qed
  next
    case False
    obtain old where k: "k = WakerWaiting old" using D(7) [of t] t False by auto
    have w: "cond_waiter (pcs t) = Some ?w" using t by simp
    obtain cur where cur: "wkr (heap W) ?w = WakerWaiting cur"
      using waits_okD(2) [OF D(10) w False] by blast
    let ?W1 = "drop_waker (W\<lparr>heap := put_waker (heap W) ?w (WakerWaiting cx)\<rparr>) old"
    have iter: "poll_waiting_iter s cx W ?w k = Inr (if cur = old \<and> \<not> s then (Pending, ?W1) else (Loop (WakerWaiting cur), W))"
      unfolding k poll_iter_alive [OF cond_waiter_alive [OF ok w]] cur by simp
    show ?thesis
    proof (cases "cur = old \<and> \<not> s")
      case True
      have ok': "cond_ok N c f m ?W1 pcs A C mv gf gc xf xc own"
        by (rule cond_sleeping_waker [OF ok w False t(1) _ refl]) (use cur True in simp)
      have "cond_ok N c f m ?W1 (pcs(t := VPending wait)) A C mv gf gc xf xc own"
        by (rule cond_quiet [OF ok' t(1)]) (use t False st in simp_all)
      from cond_goodI [OF this] show ?thesis
        unfolding future_loop_def iter if_P [OF True] by (simp add: condvar_polled_def)
    next
      case no: False
      have "cond_ok N c f m W (pcs(t := VPolling wait cx (WakerWaiting cur))) A C mv gf gc xf xc own"
        by (rule cond_quiet [OF ok t(1)]) (use t False st in simp_all)
      from cond_goodI [OF this] show ?thesis
        unfolding future_loop_def iter if_not_P [OF no] by (simp add: condvar_polled_def)
    qed
  qed
qed

end
