(* ===== verification/Condvar_Wait.thy ===== *)
theory Condvar_Wait imports Condvar_Step begin

text \<open>
  \<open>wait\<close> of \<open>src/condvar.rs\<close> up to the end of its first poll, and the steps of \<open>notify\<close> on the futex
  of the condition variable.
\<close>

section \<open>wait\<close>

lemma cond_futex: "cond_ok N c f m W pcs A C mv gf gc xf xc own \<Longrightarrow> futexes W c = Some xc"
proof -
  assume "cond_ok N c f m W pcs A C mv gf gc xf xc own"
  then have "futexes (part C {c} W) c = Some xc" by (rule tasks_okD(2) [OF cond_okD(2)])
  then show ?thesis by simp
qed

lemma cond_load:
  "cond_ok N c f m W pcs A C mv gf gc xf xc own \<Longrightarrow> load_order (ORDERING o') \<Longrightarrow>
     futex_load o' W c = Inr (futex_atom xc)"
  by (rule futex_load_eq [OF cond_futex])

lemma cond_wait_good:
  assumes ok: "cond_ok N c f m W pcs A C mv gf gc xf xc own" and t: "t < N" "pcs t = VFair Held"
    and step: "condvar_wait c cx addr W = Some r"
  shows "cond_good N c f m t pcs r"
proof -
  obtain W1 where W1: "new_waiter W c 0 0 addr = Some W1"
    "r = bindR (futex_load RelaxedT W1 c) (\<lambda>atom. Inr (VTop addr atom cx, W1))"
    using step by (auto simp: condvar_wait_def split: option.splits)
  then have free: "heap W addr = None" and f1: "futexes W1 = futexes W"
    by (auto simp: new_waiter_def split: if_splits)
  let ?A = "A - {addr}" and ?C = "insert addr C"
  have ok': "cond_ok N c f m W pcs ?A ?C mv gf gc xf xc own"
    by (rule cond_claim [OF ok free]) simp
  note D = cond_okD [OF ok']
  obtain V1 where V1: "new_waiter (part ?C {c} W) c 0 0 addr = Some V1" "world_rel ?C {c} W V1 W1"
    by (rule new_waiter_frame [OF world_rel_refl insertI1 W1(1)])
  have T: "tasks_ok c 1 V1 gc xc ((\<lambda>u. cond_role ?C (pcs u))(t := idle_role\<lparr>r_stage := Fresh addr 0\<rparr>))"
    and h: "heap V1 = (heap (part ?C {c} W))(addr \<mapsto> waiter_new c 0 0)"
    using tasks_create [OF D(2) _ V1(1), of t] t by (simp_all add: idle_role_def)
  have load: "futex_load RelaxedT W1 c = Inr (futex_atom xc)"
    by (rule futex_load_eq) (use cond_futex [OF ok] f1 in simp_all)
  let ?q = "VTop addr (futex_atom xc) cx"
  have "cond_ok N c f m W1 (pcs(t := ?q)) ?A ?C mv gf gc xf xc own"
  proof (rule cond_condvar_step [OF ok' t(1) _ _ V1(2) D(3)])
    show "fair_ok f (part ?A {f} W) (mutex_view N f ?A (pcs(t := ?q))) gf xf own"
      using D(1) mutex_view_same [OF t(1), of ?q pcs f ?A] t(2) by simp
    show "tasks_ok c 1 V1 gc xc ((\<lambda>u. cond_role ?C (pcs u))(t := cond_role ?C ?q))"
      using T by simp
    fix u w assume "cond_waiter (pcs u) = Some w"
    then have "w \<noteq> addr" using cond_waiter_alive [OF ok', of u w] free by (auto simp: alive_def)
    then show "wkr (heap V1) w = wkr (heap (part ?C {c} W)) w" by (simp add: h wkr_def restrict_map_def)
  qed (use t D(3) in auto)
  from cond_goodI [OF this] show ?thesis by (simp add: W1(2) load)
qed

lemma cond_iter_good:
  assumes ok: "cond_ok N c f m W pcs A C mv gf gc xf xc own" and t: "t < N" "pcs t = VTop w a cx"
  shows "cond_good N c f m t pcs (condvar_wait_iter spurious c m W w a cx)"
proof -
  note D = cond_okD [OF ok]
  let ?V = "part C {c} W"
  have role: "r_stage (cond_role C (pcs t)) = Fresh w 0" using t by simp
  have st: "alive (heap ?V) w" "fut (heap ?V) w = c"
    using tasks_stage [OF D(2) role] by simp_all
  then have wC: "w \<in> C" and alive: "alive (heap W) w" and fut: "fut (heap W) w = c"
    by (auto simp: alive_def fut_def restrict_map_def split: if_splits)
  have a: "fa_atom a \<in> {0, m}" using D(7) [of t] t by simp
  define wait where "wait = \<lparr>wf_original_futex = c, wf_current = a, wf_new = m, wf_step = Enter, wf_waiter = w\<rparr>"
  have wt: "cmpxchg_wait_weak W c w a m = Inr wait"
    using alive fut by (simp add: cmpxchg_wait_weak_def link_simps wait_def)
  obtain V1 k where V1: "poll_enter spurious cx ?V wait = Inr
      (if futex_atom xc = a \<and> \<not> spurious
       then (True, wait\<lparr>wf_step := Waiting\<rparr>, put_futex V1 c (xc\<lparr>futex_atom := \<lparr>fa_atom = m, fa_inbox = w\<rparr>\<rparr>))
       else (False, wait\<lparr>wf_current := futex_atom xc\<rparr>, V1))"
    "tasks_ok c 1 V1 gc xc (\<lambda>u. cond_role C (pcs u))" "wkr (heap V1) w = WakerWaiting k"
    "\<forall>v. v \<noteq> w \<longrightarrow> heap V1 v = heap ?V v"
    "a = futex_atom xc \<longrightarrow>
       tasks_ok c 1 (put_futex V1 c (xc\<lparr>futex_atom := \<lparr>fa_atom = m, fa_inbox = w\<rparr>\<rparr>))
         (push_ghost c w gc) (xc\<lparr>futex_atom := \<lparr>fa_atom = m, fa_inbox = w\<rparr>\<rparr>)
         ((\<lambda>u. cond_role C (pcs u))(t := (cond_role C (pcs t))\<lparr>r_stage := Parked w 0\<rparr>))"
    by (rule tasks_poll_enter [OF D(2) role, of wait a m spurious cx]) (simp_all add: wait_def)
  note fr = poll_enter_frame [OF world_rel_refl, of C "{c}" W spurious cx wait]
  have others: "wkr (heap V1) v = wkr (heap ?V) v" if "u \<noteq> t" "cond_waiter (pcs u) = Some v" "v \<in> C" for u v
  proof -
    have "stage_waiter (r_stage (cond_role C (pcs u))) = Some v" using that by (cases "pcs u") auto
    then have "v \<noteq> w" using tasks_sole [OF D(2), of t w u] role that(1) by auto
    then show ?thesis using V1(4) by (simp add: wkr_def)
  qed
  have iter: "condvar_wait_iter spurious c m W w a cx =
      bindR (poll_enter spurious cx W wait) (\<lambda>(pending, wait, W).
        Inr (if pending then (VUnlock wait ULock, W) else (VTop (wf_waiter wait) (wf_current wait) cx, W)))"
    using a wt by (cases "poll_enter spurious cx W wait")
      (auto simp: condvar_wait_iter_def Let_def inner_def future_poll_def wait_def condvar_polled_def)
  show ?thesis
  proof (cases "futex_atom xc = a \<and> \<not> spurious")
    case True
    let ?V2 = "put_futex V1 c (xc\<lparr>futex_atom := \<lparr>fa_atom = m, fa_inbox = w\<rparr>\<rparr>)"
    obtain W2 where W2: "poll_enter spurious cx W wait = Inr (True, wait\<lparr>wf_step := Waiting\<rparr>, W2)"
      "world_rel C {c} W ?V2 W2"
      using fr unfolding V1(1) if_P [OF True] by (auto simp: sim_res_def world_rel3_def world_rel2_def)
    let ?q = "VUnlock (wait\<lparr>wf_step := Waiting\<rparr>) ULock"
    have "fair_good f t (mutex_view N f A pcs) gf own (Inr (Unlocking ULock, part A {f} W))"
      by (rule fair_task_good [OF D(1), where act = Drop]) (use t in \<open>simp add: fair_task_def\<close>)
    then obtain gf' xf' own' where F: "fair_ok f (part A {f} W) ((mutex_view N f A pcs)(t := Unlocking ULock)) gf' xf' own'"
      by (auto simp: fair_good_def)
    have "w \<notin> A" using D(5) wC by auto
    have "cond_ok N c f m W2 (pcs(t := ?q)) A C mv gf' (push_ghost c w gc) xf' (xc\<lparr>futex_atom := \<lparr>fa_atom = m, fa_inbox = w\<rparr>\<rparr>) own'"
    proof (rule cond_condvar_step [OF ok t(1) _ _ W2(2)])
      show "fair_ok f (part A {f} W) (mutex_view N f A (pcs(t := ?q))) gf' xf' own'"
        using F t \<open>w \<notin> A\<close> by (simp add: mutex_view_main wait_def)
      show "tasks_ok c 1 ?V2 (push_ghost c w gc) (xc\<lparr>futex_atom := \<lparr>fa_atom = m, fa_inbox = w\<rparr>\<rparr>)
          ((\<lambda>u. cond_role C (pcs u))(t := cond_role C ?q))"
        using V1(5) True t wC by (simp add: wait_def idle_role_def)
    qed (use others V1(3) wC t in \<open>auto simp: wait_def\<close>)
    from cond_goodI [OF this] show ?thesis by (simp add: iter W2(1))
  next
    case False
    obtain W2 where W2: "poll_enter spurious cx W wait = Inr (False, wait\<lparr>wf_current := futex_atom xc\<rparr>, W2)"
      "world_rel C {c} W V1 W2"
      using fr unfolding V1(1) if_not_P [OF False] by (auto simp: sim_res_def world_rel3_def world_rel2_def)
    let ?q = "VTop w (futex_atom xc) cx"
    have "cond_ok N c f m W2 (pcs(t := ?q)) A C mv gf gc xf xc own"
    proof (rule cond_condvar_step [OF ok t(1) _ _ W2(2) D(3)])
      show "fair_ok f (part A {f} W) (mutex_view N f A (pcs(t := ?q))) gf xf own"
        using D(1) mutex_view_same [OF t(1), of ?q pcs f A] t(2) by simp
      show "tasks_ok c 1 V1 gc xc ((\<lambda>u. cond_role C (pcs u))(t := cond_role C ?q))"
        using V1(2) t by (simp add: fun_upd_idem)
    qed (use others D(3) t in auto)
    from cond_goodI [OF this] show ?thesis unfolding iter W2(1) by (simp add: wait_def)
  qed
qed

section \<open>notify on the condition variable\<close>

lemma cond_owner:
  assumes ok: "cond_ok N c f m W pcs A C mv gf gc xf xc own" and t: "t < N" "cond_main (pcs t) = Held"
    and u: "owns h (cond_main (pcs u))" "\<And>wait. cond_main (pcs u) \<noteq> LPending wait"
      "\<And>wait cx k. cond_main (pcs u) \<noteq> LPolling wait cx k" "\<And>w d. cond_main (pcs u) \<noteq> LDrop w d"
  shows "u = t"
proof -
  note D = cond_okD [OF ok]
  have "u < N" using D(8) [of u] u(1) by (cases "u < N") auto
  moreover have "owns (heap (part A {f} W)) (cond_main (pcs u))"
    using u by (cases "cond_main (pcs u)") auto
  ultimately show ?thesis
    using fair_unique [OF D(1), of t u] t by simp
qed

lemma transfer_owns: "pcs u = VNotify count n \<Longrightarrow> n \<noteq> TDone \<Longrightarrow> owns h (cond_main (pcs u))"
  by (cases n) (auto simp: transfer_main_def unlock_owns_def)

lemma cond_transfer_sole:
  assumes ok: "cond_ok N c f m W pcs A C mv gf gc xf xc own" and t: "t < N" "cond_main (pcs t) = Held"
    and u: "pcs u = VNotify count n"
  shows "u = t"
proof (rule cond_owner [OF ok t])
  have "n \<noteq> TDone" using cond_okD(7) [OF ok, of u] u by simp
  then show "owns h (cond_main (pcs u))" for h using transfer_owns [of pcs u count n h] u by simp
qed (use u in \<open>auto simp: transfer_main_def split: transfer_pc.splits\<close>)

lemma carries_notify: "carries p \<Longrightarrow> \<exists>count n. p = VNotify count n"
  by (cases p) auto

lemma borrows_notify: "r_borrow (cond_role C p) \<Longrightarrow> \<exists>count n. p = VNotify count n"
  by (cases p) (auto simp: cond_role_def idle_role_def split: option.splits if_splits)

lemmas transfer_simps = transfer_role_def transfer_main_def idle_role_def

text \<open>A step of the notifying task on the guards of the condition variable.\<close>

lemma cond_transfer_step:
  assumes ok: "cond_ok N c f m W pcs A C mv gf gc xf xc own" and t: "t < N" "pcs t = VNotify count n"
    and n': "n' \<noteq> TDone \<and> q = VNotify count n' \<or> n' = TDone \<and> q = VFair Held"
      "transfer_main n = Held" "transfer_main n' = Held"
    and T: "tasks_ok c 1 V' gc' xc' ((\<lambda>u. cond_role C (pcs u))(t := transfer_role n'))"
    and rel: "world_rel C {c} W V' W'" and atom: "fa_atom (futex_atom xc') \<in> {0, m}"
    and wkr: "\<And>w. wkr (heap V') w = wkr (heap (part C {c} W)) w"
    and q: "carry_ok f (heap W) mv (VNotify count n')"
      "carries (VNotify count n) \<Longrightarrow> mv \<noteq> [] \<Longrightarrow> carries (VNotify count n')"
  shows "cond_good N c f m t pcs (Inr (q, W'))"
proof -
  note D = cond_okD [OF ok]
  have "cond_main q = cond_main (pcs t)" "cond_sleep f A q = cond_sleep f A (pcs t)"
    using n' t by auto
  then have F: "fair_ok f (part A {f} W) (mutex_view N f A (pcs(t := q))) gf xf own"
    using D(1) mutex_view_same [OF t(1), of q pcs f A] by simp
  have role: "cond_role C q = transfer_role n'"
    using n'(1) by (auto simp: transfer_simps)
  have "cond_ok N c f m W' (pcs(t := q)) A C mv gf gc' xf xc' own"
  proof (rule cond_condvar_step [OF ok t(1) F _ rel atom])
    show "tasks_ok c 1 V' gc' xc' ((\<lambda>u. cond_role C (pcs u))(t := cond_role C q))"
      unfolding role by (rule T)
  qed (use wkr t n'(1) q in auto)
  then show ?thesis by (rule cond_goodI)
qed

lemma cond_notify_good:
  assumes ok: "cond_ok N c f m W pcs A C mv gf gc xf xc own" and t: "t < N" "pcs t = VFair Held"
  shows "cond_good N c f m t pcs (bindR (condvar_notify c m W) (\<lambda>n.
      Inr (if n = TDone then VFair Held else VNotify count n, W)))"
proof -
  note D = cond_okD [OF ok]
  let ?a = "futex_atom xc"
  have load: "futex_load AcquireT W c = Inr ?a" by (rule cond_load [OF ok]) simp
  show ?thesis
  proof (cases "fa_atom ?a = 0")
    case True
    have "cond_good N c f m t pcs (Inr (VFair Held, W))"
      by (rule cond_goodI [of _ _ _ _ _ _ _ _ A C mv gf gc xf xc own]) (use ok t in \<open>simp add: fun_upd_idem\<close>)
    then show ?thesis using True by (simp add: condvar_notify_def load inner_def)
  next
    case False
    have "cond_ok N c f m W (pcs(t := VNotify count (TLock ?a))) A C mv gf gc xf xc own"
      by (rule cond_quiet [OF ok t(1)]) (use t in \<open>simp_all add: transfer_simps\<close>)
    from cond_goodI [OF this] show ?thesis
      using False D(3) by (simp add: condvar_notify_def load inner_def)
  qed
qed

lemma cond_lock_good:
  assumes ok: "cond_ok N c f m W pcs A C mv gf gc xf xc own" and t: "t < N" "pcs t = VNotify count (TLock a)"
    and step: "futex_lock t W c = Some r"
  shows "cond_good N c f m t pcs (mapR (\<lambda>W. (VNotify count (TBorrow a), W)) r)"
proof -
  note D = cond_okD [OF ok]
  obtain r1 where r1: "futex_lock t (part C {c} W) c = Some r1" "sim_res (world_rel C {c} W) r1 r"
    using lock_frame(1) [OF world_rel_refl, of C "{c}" W t c] step by (auto simp: sim_opt_def)
  obtain xc' where l: "r1 = Inr (put_futex (part C {c} W) c xc')" "futex_atom xc' = futex_atom xc"
    "tasks_ok c 1 (put_futex (part C {c} W) c xc') gc xc'
      ((\<lambda>u. cond_role C (pcs u))(t := (cond_role C (pcs t))\<lparr>r_read := True\<rparr>))"
    by (rule tasks_lock [OF D(2) r1(1)])
  obtain W' where W': "r = Inr W'" "world_rel C {c} W (put_futex (part C {c} W) c xc') W'"
    using r1(2) l(1) by (auto simp: sim_res_def)
  have "cond_good N c f m t pcs (Inr (VNotify count (TBorrow a), W'))"
    by (rule cond_transfer_step [OF ok t _ _ _ _ W'(2), where n' = "TBorrow a" and gc' = gc and xc' = xc'])
      (use l(2,3) D(3) t in \<open>simp_all add: transfer_simps\<close>)
  then show ?thesis by (simp add: W'(1))
qed

lemma cond_borrow_good:
  assumes ok: "cond_ok N c f m W pcs A C mv gf gc xf xc own" and t: "t < N" "pcs t = VNotify count (TBorrow a)"
  shows "cond_good N c f m t pcs (mapR (\<lambda>W. (VNotify count (TEnqueue a), W)) (queue_lock W c))"
proof -
  note D = cond_okD [OF ok]
  have main: "cond_main (pcs t) = Held" using t by (simp add: transfer_simps)
  have free: "\<not> r_borrow (cond_role C (pcs u))" for u
    using cond_transfer_sole [OF ok t(1) main] borrows_notify [of C "pcs u"] t(2)
    by (auto simp: transfer_simps)
  obtain xc' where l: "queue_lock (part C {c} W) c = Inr (put_futex (part C {c} W) c xc')" "futex_atom xc' = futex_atom xc"
    "tasks_ok c 1 (put_futex (part C {c} W) c xc') gc xc'
      ((\<lambda>u. cond_role C (pcs u))(t := (cond_role C (pcs t))\<lparr>r_borrow := True\<rparr>))"
    by (rule tasks_queue_lock [OF D(2) free])
  obtain W' where W': "queue_lock W c = Inr W'" "world_rel C {c} W (put_futex (part C {c} W) c xc') W'"
    using futex_unlock_frame(3) [OF world_rel_refl, of C "{c}" W c] l(1) by (auto simp: sim_res_def)
  have "cond_good N c f m t pcs (Inr (VNotify count (TEnqueue a), W'))"
    by (rule cond_transfer_step [OF ok t _ _ _ _ W'(2), where n' = "TEnqueue a" and gc' = gc and xc' = xc'])
      (use l(2,3) D(3) t in \<open>simp_all add: transfer_simps\<close>)
  then show ?thesis by (simp add: W'(1))
qed

lemma cond_unborrow_good:
  assumes ok: "cond_ok N c f m W pcs A C mv gf gc xf xc own" and t: "t < N" "pcs t = VNotify count (TUnborrow l)"
  shows "cond_good N c f m t pcs (mapR (\<lambda>W. (VNotify count (TLockM l), W)) (queue_unlock W c))"
proof -
  note D = cond_okD [OF ok]
  obtain xc' where l: "queue_unlock (part C {c} W) c = Inr (put_futex (part C {c} W) c xc')" "futex_atom xc' = futex_atom xc"
    "tasks_ok c 1 (put_futex (part C {c} W) c xc') gc xc'
      ((\<lambda>u. cond_role C (pcs u))(t := (cond_role C (pcs t))\<lparr>r_borrow := False\<rparr>))"
    by (rule tasks_queue_unlock [OF D(2), of t]) (use t in \<open>simp add: transfer_simps\<close>)
  obtain W' where W': "queue_unlock W c = Inr W'" "world_rel C {c} W (put_futex (part C {c} W) c xc') W'"
    using futex_unlock_frame(4) [OF world_rel_refl, of C "{c}" W c] l(1) by (auto simp: sim_res_def)
  have "cond_good N c f m t pcs (Inr (VNotify count (TLockM l), W'))"
    by (rule cond_transfer_step [OF ok t _ _ _ _ W'(2), where n' = "TLockM l" and gc' = gc and xc' = xc'])
      (use l(2,3) D(3) t moving_okD(2) [OF D(9), of t] in \<open>simp_all add: transfer_simps\<close>)
  then show ?thesis by (simp add: W'(1))
qed

lemma cond_leave_good:
  assumes ok: "cond_ok N c f m W pcs A C mv gf gc xf xc own" and t: "t < N" "pcs t = VNotify count TUnlock"
  shows "cond_good N c f m t pcs (mapR (\<lambda>W. (VFair Held, W)) (futex_unlock t W c))"
proof -
  note D = cond_okD [OF ok]
  obtain xc' where l: "futex_unlock t (part C {c} W) c = Inr (put_futex (part C {c} W) c xc')" "futex_atom xc' = futex_atom xc"
    "tasks_ok c 1 (put_futex (part C {c} W) c xc') gc xc'
      ((\<lambda>u. cond_role C (pcs u))(t := (cond_role C (pcs t))\<lparr>r_read := False\<rparr>))"
    by (rule tasks_unlock [OF D(2), of t]) (use t in \<open>simp_all add: transfer_simps\<close>)
  obtain W' where W': "futex_unlock t W c = Inr W'" "world_rel C {c} W (put_futex (part C {c} W) c xc') W'"
    using futex_unlock_frame(1) [OF world_rel_refl, of C "{c}" W t c] l(1) by (auto simp: sim_res_def)
  have "cond_good N c f m t pcs (Inr (VFair Held, W'))"
    by (rule cond_transfer_step [OF ok t _ _ _ _ W'(2), where n' = TDone and gc' = gc and xc' = xc'])
      (use l(2,3) D(3) t in \<open>simp_all add: transfer_simps\<close>)
  then show ?thesis by (simp add: W'(1))
qed

end
