(* ===== verification/Condvar_Move.thy ===== *)
theory Condvar_Move imports Condvar_Wait begin

text \<open>
  The waiters that \<open>notify\<close> of \<open>src/condvar.rs\<close> moves: popped from the futex of the condition
  variable, on their way, and on the futex of the mutex.
\<close>

section \<open>Off the condition variable\<close>

lemma cond_not_moving:
  assumes ok: "cond_ok N c f m W pcs A C mv gf gc xf xc own" and t: "t < N" "cond_main (pcs t) = Held" "\<not> carries (pcs t)"
  shows "mv = []"
proof (rule ccontr)
  assume "mv \<noteq> []"
  then obtain u where u: "carries (pcs u)" using moving_okD(3) [OF cond_okD(9) [OF ok]] by blast
  then have "u = t" using cond_transfer_sole [OF ok t(1,2)] carries_notify by blast
  with u t(3) show False by simp
qed

lemma cond_role_shed:
  "(cond_role C p)\<lparr>r_stage := (if \<exists>w\<in>B. sleeper (r_stage (cond_role C p)) = Some w then NoWaiter
      else r_stage (cond_role C p))\<rparr> = cond_role (C - B) p"
  by (cases p) (auto simp: cond_role_def transfer_role_def idle_role_def split: option.splits)

lemma sleeper_waits: "sleeper (r_stage (cond_role C p)) = Some w \<Longrightarrow> cond_waiter p = Some w"
  by (cases p) (auto simp: cond_role_def transfer_role_def idle_role_def split: option.splits if_splits)

lemma cond_pop_good:
  assumes ok: "cond_ok N c f m W pcs A C mv gf gc xf xc own" and t: "t < N" "pcs t = VNotify count (TEnqueue a)"
    and rel: "world_rel C {c} W V2 W2" and T2: "tasks_ok c 1 V2 g2 x2 (\<lambda>u. cond_role C (pcs u))"
    and x2: "fa_atom (futex_atom x2) \<in> {0, m}" and wkr2: "\<And>w. wkr (heap V2) w = wkr (heap (part C {c} W)) w"
  shows "cond_good N c f m t pcs (mapR (\<lambda>(n, W). (VNotify count n, W)) (condvar_pop c count W2))"
proof -
  note D = cond_okD [OF ok]
  have nil: "mv = []" by (rule cond_not_moving [OF ok t(1)]) (use t in \<open>simp_all add: transfer_simps\<close>)
  define ws where "ws = take (taken count (g_queues g2 c ! 0)) (g_queues g2 c ! 0)"
  have z: "unat (0 :: usize) = 0" by simp
  obtain h3 x3 l where pop: "queue_pop_many V2 c count 0 = Inr (l, put_futex (V2\<lparr>heap := h3\<rparr>) c x3)"
    "futex_atom x3 = futex_atom x2" "\<And>v. wkr h3 v = wkr (heap V2) v" "list_ends l ws"
    "tasks_ok c 1 (put_futex (V2\<lparr>heap := h3\<rparr>) c x3) (pop_many_ghost t c 0 (taken count (g_queues g2 c ! 0)) g2) x3
       ((\<lambda>u. cond_role C (pcs u))(t := (cond_role C (pcs t))\<lparr>r_list := ws\<rparr>))"
    by (rule tasks_pop_many [OF T2, of 0 t "taken count (g_queues g2 c ! 0)" count, unfolded z, folded ws_def])
      (use t in \<open>simp_all add: transfer_simps\<close>)
  let ?V = "put_futex (V2\<lparr>heap := h3\<rparr>) c x3" and ?R = "(\<lambda>u. cond_role C (pcs u))(t := (cond_role C (pcs t))\<lparr>r_list := ws\<rparr>)"
  obtain W3 where W3: "queue_pop_many W2 c count 0 = Inr (l, W3)" "world_rel C {c} W ?V W3"
    using queue_pop_frame(2) [OF rel, of c count 0] pop(1) by (auto simp: sim_res_def world_rel2_def)
  have V: "part C {c} W3 = ?V" using W3(2) by (simp add: world_rel_def)
  have Rt: "r_list (?R t) = ws" by simp
  let ?C = "C - set ws" and ?q = "VNotify count (TUnborrow l)"
  obtain g4 where T4: "tasks_ok c 1 (part ?C {c} W3) g4 x3 (shed_role t (set ws) ?R)"
  proof -
    have "heap (part ?C {c} W3) = heap ?V |` (- set ws)" "futexes (part ?C {c} W3) = futexes ?V"
      unfolding V [symmetric] by (auto simp: restrict_map_def fun_eq_iff)
    from tasks_shed [OF pop(5), of "part ?C {c} W3" t, unfolded Rt, OF this] that show ?thesis by blast
  qed
  have roles: "shed_role t (set ws) ?R = (\<lambda>u. cond_role ?C ((pcs(t := ?q)) u))"
  proof
    fix u show "shed_role t (set ws) ?R u = cond_role ?C ((pcs(t := ?q)) u)"
      using cond_role_shed [where C = C and p = "pcs u" and B = "set ws"] t(2)
      by (cases "u = t") (simp add: shed_role_def transfer_simps, auto simp: shed_role_def split: if_splits)
  qed
  have list: "\<exists>u. cond_waiter (pcs u) = Some w" "alive h3 w" "que h3 w = 0" if "w \<in> set ws" for w
  proof -
    have w: "w \<in> set (r_list (?R t))" using that by simp
    obtain u where u: "sleeper (r_stage (?R u)) = Some w" using tasks_list_waiters(1) [OF pop(5) w] by blast
    then have "cond_waiter (pcs u) = Some w"
      using sleeper_waits [of C "pcs u" w] by (auto split: if_splits)
    then show "\<exists>u. cond_waiter (pcs u) = Some w" by blast
    show "alive h3 w" "que h3 w = 0" using tasks_list_waiters(2,3) [OF pop(5) w] by simp_all
  qed
  have h3: "heap W3 w = h3 w" if "w \<in> C" for w
    using arg_cong [OF V, of heap] that by (auto simp: fun_eq_iff restrict_map_def split: if_splits)
  have wsC: "w \<in> C" if "w \<in> set ws" for w
    using list(2) [OF that] arg_cong [OF V, of heap] by (auto simp: alive_def fun_eq_iff restrict_map_def split: if_splits)
  have out: "heap W3 w = heap W w" if "w \<notin> C" for w
    using W3(2) that by (simp add: world_rel_def)
  have wk: "wkr (heap W3) w = wkr (heap W) w" for w
  proof (cases "w \<in> C")
    case True
    have "wkr (heap W3) w = wkr h3 w" using h3 [OF True] by (simp add: wkr_def)
    also have "\<dots> = wkr (heap W) w" using pop(3) wkr2 part_read [OF True] by simp
    finally show ?thesis .
  next
    case False
    show ?thesis by (rule wkr_same [OF out [OF False]])
  qed
  have sole: "\<And>u n k. pcs u = VNotify k n \<Longrightarrow> u = t"
    by (rule cond_transfer_sole [OF ok t(1)]) (use t in \<open>simp_all add: transfer_simps\<close>)
  have dl: "dlist (heap W3) l ws"
  proof -
    have gl: "g_list (pop_many_ghost t c 0 (taken count (g_queues g2 c ! 0)) g2) t = ws"
      using tasks_list [OF pop(5), of t] by simp
    have "dlist (heap ?V) l ws"
      using tasks_dlist [OF pop(5), of l t] gl pop(4) by simp
    then show ?thesis
      using dlist_cong [of ws "heap W3" h3 l] h3 wsC by auto
  qed
  have "cond_ok N c f m W3 (pcs(t := ?q)) A ?C ws gf g4 xf x3 own"
    unfolding cond_ok_def
  proof (intro conjI allI impI)
    have "fair_ok f (part A {f} W3) (mutex_view N f A pcs) gf xf own"
      by (rule fair_ok_logs [OF D(1)]) (use W3(2) D(4,5) in \<open>auto simp: world_rel_def restrict_map_def fun_eq_iff\<close>)
    then show "fair_ok f (part A {f} W3) (mutex_view N f A (pcs(t := ?q))) gf xf own"
      using mutex_view_same [OF t(1), of ?q pcs f A] t(2) by (simp add: transfer_simps)
    show "tasks_ok c 1 (part ?C {c} W3) g4 x3 (\<lambda>u. cond_role ?C ((pcs(t := ?q)) u))"
      using T4 unfolding roles .
    show "moving_ok f (heap W3) ws (pcs(t := ?q))"
      unfolding moving_ok_def
    proof (intro conjI allI impI ballI)
      show "distinct ws" using dl by (simp add: dlist_def)
      fix u show "carry_ok f (heap W3) ws ((pcs(t := ?q)) u)"
        using dl sole [of u] by (cases "pcs u") auto
    next
      show "\<exists>u. carries ((pcs(t := ?q)) u)" by (rule exI [of _ t]) simp
    next
      fix w assume w: "w \<in> set ws"
      show "alive (heap W3) w" "que (heap W3) w = 0"
        using list(2,3) [OF w] h3 [OF wsC [OF w]] by (simp_all add: alive_def que_def)
      show "\<exists>u. cond_waiter ((pcs(t := ?q)) u) = Some w"
        using list(1) [OF w] t(2) by (metis cond_waiter.simps(8) fun_upd_apply option.distinct(1))
    qed
    show "waits_ok (heap W3) A ?C ws (pcs(t := ?q))"
      using D(10) wk nil wsC t(2) unfolding waits_ok_def by auto
  next
    fix u show "cond_pc_ok m A ((pcs(t := ?q)) u)" using D(7) [of u] by simp
    show "N \<le> u \<Longrightarrow> (pcs(t := ?q)) u = VFair Idle" using D(8) [of u] t by simp
  qed (use D(4,5) x2 pop(2) wsC in auto)
  from cond_goodI [OF this] show ?thesis by (simp add: condvar_pop_def W3(1))
qed

lemma cond_enqueue_good:
  assumes ok: "cond_ok N c f m W pcs A C mv gf gc xf xc own" and t: "t < N" "pcs t = VNotify count (TEnqueue a)"
  shows "cond_good N c f m t pcs (mapR (\<lambda>(n, W). (VNotify count n, W))
      (bindR (cmpxchg_enqueue_weak spurious AcquireT RelaxedT W c a m) (\<lambda>(ok, atom, W).
        if ok then condvar_pop c count W else Inr (TEnqueue atom, W))))"
proof -
  note D = cond_okD [OF ok]
  let ?V = "part C {c} W"
  let ?x = "\<lambda>qs. xc\<lparr>futex_atom := \<lparr>fa_atom = m, fa_inbox = null\<rparr>, queues := qs\<rparr>"
  obtain h' qs where enq: "cmpxchg_enqueue_weak spurious AcquireT RelaxedT ?V c a m = Inr
      (if futex_atom xc = a \<and> \<not> spurious then (True, a, put_futex (?V\<lparr>heap := h'\<rparr>) c (?x qs))
       else (False, futex_atom xc, ?V))"
    "\<And>v. wkr h' v = wkr (heap ?V) v"
    "tasks_ok c 1 (put_futex (?V\<lparr>heap := h'\<rparr>) c (?x qs)) (enqueue_ghost (heap ?V) c gc) (?x qs) (\<lambda>u. cond_role C (pcs u))"
    by (rule tasks_cmpxchg_enqueue [OF D(2), of AcquireT RelaxedT spurious a m]) simp_all
  note fr = cmpxchg_enqueue_weak_frame [OF world_rel_refl, of C "{c}" W spurious AcquireT RelaxedT c a m]
  show ?thesis
  proof (cases "futex_atom xc = a \<and> \<not> spurious")
    case True
    obtain W2 where W2: "cmpxchg_enqueue_weak spurious AcquireT RelaxedT W c a m = Inr (True, a, W2)"
      "world_rel C {c} W (put_futex (?V\<lparr>heap := h'\<rparr>) c (?x qs)) W2"
      using fr unfolding enq(1) if_P [OF True] by (auto simp: sim_res_def world_rel3_def world_rel2_def)
    show ?thesis
      unfolding W2(1) by (simp, rule cond_pop_good [OF ok t W2(2) enq(3)]) (use enq(2) in simp_all)
  next
    case False
    obtain W2 where W2: "cmpxchg_enqueue_weak spurious AcquireT RelaxedT W c a m = Inr (False, futex_atom xc, W2)"
      "world_rel C {c} W ?V W2"
      using fr unfolding enq(1) if_not_P [OF False] by (auto simp: sim_res_def world_rel3_def world_rel2_def)
    have T: "tasks_ok c 1 ?V gc xc ((\<lambda>u. cond_role C (pcs u))(t := transfer_role (TEnqueue (futex_atom xc))))"
      using D(2) t by (simp add: fun_upd_idem transfer_simps)
    have "cond_good N c f m t pcs (Inr (VNotify count (TEnqueue (futex_atom xc)), W2))"
      by (rule cond_transfer_step [OF ok t _ _ _ T W2(2) D(3)]) (simp_all add: transfer_simps)
    then show ?thesis unfolding W2(1) by simp
  qed
qed

section \<open>On their way\<close>

lemma cond_mutex_futex: "cond_ok N c f m W pcs A C mv gf gc xf xc own \<Longrightarrow> futexes W f = Some xf"
proof -
  assume "cond_ok N c f m W pcs A C mv gf gc xf xc own"
  then have "futexes (part A {f} W) f = Some xf" by (rule tasks_okD(2) [OF fair_okD(1) [OF cond_okD(1)]])
  then show ?thesis by simp
qed

text \<open>In the part of the mutex, the notifying task has begun to unlock and taken the read guard.\<close>

lemma cond_lockm_good:
  assumes ok: "cond_ok N c f m W pcs A C mv gf gc xf xc own" and t: "t < N" "pcs t = VNotify count (TLockM l)"
    and step: "futex_lock t W f = Some r"
  shows "cond_good N c f m t pcs (mapR (\<lambda>W. (VNotify count (requeue_start l), W)) r)"
proof -
  note D = cond_okD [OF ok]
  let ?view = "mutex_view N f A pcs"
  have "fair_good f t ?view gf own (Inr (Unlocking ULock, part A {f} W))"
    by (rule fair_task_good [OF D(1), where act = Drop]) (use t in \<open>simp add: fair_task_def transfer_simps\<close>)
  then obtain g1 x1 own1 where F1: "fair_ok f (part A {f} W) (?view(t := Unlocking ULock)) g1 x1 own1"
    by (auto simp: fair_good_def)
  obtain r1 where r1: "futex_lock t (part A {f} W) f = Some r1" "sim_res (world_rel A {f} W) r1 r"
    using lock_frame(1) [OF world_rel_refl, of A "{f}" W t f] step by (auto simp: sim_opt_def)
  have "fair_good f t (?view(t := Unlocking ULock)) g1 own1 (mapR (Pair (Unlocking UBorrow)) r1)"
    by (rule fair_task_good [OF F1, where act = "Run False"])
      (cases r1; simp add: fair_task_def unlock_step_def r1(1))
  then obtain V' g2 x2 own2 where F2: "r1 = Inr V'" "fair_ok f V' (?view(t := Unlocking UBorrow)) g2 x2 own2"
    by (cases r1) (auto simp: fair_good_def)
  obtain W' where W': "r = Inr W'" "world_rel A {f} W V' W'"
    using r1(2) F2(1) by (auto simp: sim_res_def)
  have dl: "dlist (heap W) l mv" using moving_okD(2) [OF D(9), of t] t by simp
  let ?q = "VNotify count (requeue_start l)"
  have "cond_ok N c f m W' (pcs(t := ?q)) A C mv g2 gc x2 xc own2"
  proof (rule cond_mutex_step [OF ok t(1) _ W'(2)])
    show "fair_ok f V' (mutex_view N f A (pcs(t := ?q))) g2 x2 own2"
      using F2(2) t by (simp add: mutex_view_main requeue_start_def transfer_simps)
    show "carry_ok f (heap W) mv ?q"
    proof (cases "mv = []")
      case False
      have "\<exists>xs ys. mv = xs @ ys \<and> wl_head l = hd (ys @ [null]) \<and> (\<forall>w\<in>set xs. fut (heap W) w = f)"
        by (intro exI [of _ "[]"] exI [of _ mv]) (use dl in \<open>simp add: dlist_def del: hd_append\<close>)
      with False dl dlist_head [OF dl] show ?thesis by (simp add: requeue_start_def)
    qed (use dlist_head [OF dl] in \<open>simp add: requeue_start_def\<close>)
    show "carries ?q" if "mv \<noteq> []"
      using dlist_head [OF dl] that by (simp add: requeue_start_def)
  qed (use t in \<open>simp_all add: requeue_start_def transfer_simps\<close>)
  from cond_goodI [OF this] show ?thesis by (simp add: W'(1))
qed

lemma cond_notify_sole:
  assumes ok: "cond_ok N c f m W pcs A C mv gf gc xf xc own" and n: "pcs t = VNotify j n" "pcs u = VNotify k x"
  shows "u = t"
proof -
  have *: "v < N \<and> owns h (mutex_view N f A pcs v)" if v: "pcs v = VNotify k n" for v k n h
  proof -
    have "v < N" using cond_okD(8) [OF ok, of v] v by (cases "v < N") simp_all
    then show ?thesis
      using transfer_owns [of pcs v k n h, OF v] cond_okD(7) [OF ok, of v] v by (simp del: cond_main.simps)
  qed
  show ?thesis
    by (rule fair_unique [OF cond_okD(1) [OF ok]]) (use * [OF n(1)] * [OF n(2)] in blast)+
qed

lemma iter_next_dls:
  assumes "dls h a (w # ws) null" "wl_head i = w"
  obtains i' where "handle_iter_next h i = Inr (i', Some w)" "wl_head i' = hd (ws @ [null])"
proof -
  have w: "alive h w" "nxt h w = hd (ws @ [null])" using assms(1) by simp_all
  then have "wl_head i \<noteq> null" using assms(2) alive_not_null by simp
  then show ?thesis
    using that w(2) access_alive(1) [OF w(1)] assms(2)
    by (cases "nxt h w = null") (simp_all add: handle_iter_next_def Let_def del: hd_append)
qed

lemma cond_store_good:
  assumes ok: "cond_ok N c f m W pcs A C mv gf gc xf xc own" and t: "t < N" "pcs t = VNotify count (TStore l i)"
  shows "cond_good N c f m t pcs (mapR (\<lambda>(n, W). (VNotify count n, W))
      (bindR (handle_iter_next (heap W) i) (\<lambda>(iter, next).
            case next of
              Some waiter \<Rightarrow> mapR (Pair (TStore l iter)) (requeue_store W f waiter)
            | None \<Rightarrow> bindR (futex_load AcquireT W f) (\<lambda>atom. Inr (TPush l atom, W)))))"
proof -
  note D = cond_okD [OF ok]
  have "carry_ok f (heap W) mv (pcs t)" by (rule moving_okD(2) [OF D(9)])
  then obtain xs ys where mv: "mv \<noteq> []" "dlist (heap W) l mv" "mv = xs @ ys" "wl_head i = hd (ys @ [null])"
    "\<And>w. w \<in> set xs \<Longrightarrow> fut (heap W) w = f"
    using t(2) by auto
  show ?thesis
  proof (cases ys)
    case Nil
    have it: "handle_iter_next (heap W) i = Inr (i, None)"
      using mv(4) Nil by (simp add: handle_iter_next_def)
    have load: "futex_load AcquireT W f = Inr (futex_atom xf)"
      by (rule futex_load_eq [OF cond_mutex_futex [OF ok]]) simp
    have "cond_ok N c f m W (pcs(t := VNotify count (TPush l (futex_atom xf)))) A C mv gf gc xf xc own"
      by (rule cond_quiet [OF ok t(1)])
        (use t mv Nil in \<open>auto simp: transfer_simps dlist_def\<close>)
    from cond_goodI [OF this] show ?thesis by (simp add: it load)
  next
    case (Cons w ws)
    have w: "w \<in> set mv" by (simp add: mv(3) Cons)
    have a: "alive (heap W) w" by (rule moving_okD(4) [OF D(9) w])
    have "dls (heap W) (last (null # xs)) (w # ws) null"
      using mv(2) by (simp add: dlist_def mv(3) Cons dls_append del: dls.simps)
    then obtain i' where it: "handle_iter_next (heap W) i = Inr (i', Some w)" "wl_head i' = hd (ws @ [null])"
      by (rule iter_next_dls) (use mv(4) Cons in simp)
    define W' where "W' = W\<lparr>heap := (heap W)(w \<mapsto> (the (heap W w))\<lparr>w_futex := f\<rparr>)\<rparr>"
    have store: "requeue_store W f w = Inr W'"
      using a by (simp add: requeue_store_def set_futex_def modify_def W'_def)
    have reads: "alive (heap W') v = alive (heap W) v" "nxt (heap W') v = nxt (heap W) v" "prv (heap W') v = prv (heap W) v"
      "que (heap W') v = que (heap W) v" "wkr (heap W') v = wkr (heap W) v"
      "fut (heap W') v = (if v = w then f else fut (heap W) v)" for v
      using a by (auto simp: W'_def alive_def nxt_def prv_def que_def wkr_def fut_def)
    have dls: "dls (heap W') p vs q = dls (heap W) p vs q" for p vs q
      by (induction vs arbitrary: p) (simp_all add: reads)
    have sole: "\<And>u n k. pcs u = VNotify k n \<Longrightarrow> u = t"
      by (rule cond_notify_sole [OF ok t(2)])
    have carry: "carry_ok f (heap W') mv (VNotify count (TStore l j))" if "wl_head j \<in> {hd (ys @ [null]), hd (ws @ [null])}" for j
    proof -
      have "\<exists>xs ys. mv = xs @ ys \<and> wl_head j = hd (ys @ [null]) \<and> (\<forall>v\<in>set xs. fut (heap W') v = f)"
      proof (cases "wl_head j = hd (ws @ [null])")
        case True
        then show ?thesis using mv(5) by (intro exI [of _ "xs @ [w]"] exI [of _ ws]) (auto simp: mv(3) Cons reads)
      next
        case False
        then show ?thesis using that mv(5) by (intro exI [of _ xs] exI [of _ ys]) (auto simp: mv(3) reads)
      qed
      then show ?thesis using mv(1,2) by (simp add: dlist_def dls)
    qed
    have ok': "cond_ok N c f m W' pcs A C mv gf gc xf xc own"
    proof (rule cond_moving_change [OF ok])
      show "heap W' v = heap W v" if "v \<notin> set mv" for v using w that by (auto simp: W'_def)
      show "futexes W' = futexes W" by (simp add: W'_def)
      show "moving_ok f (heap W') mv pcs"
        unfolding moving_ok_def
      proof (intro conjI allI impI ballI)
        fix u show "carry_ok f (heap W') mv (pcs u)"
        proof (cases "u = t")
          case True
          then show ?thesis using carry [of i] mv(4) t(2) by simp
        next
          case False
          then show ?thesis using sole [of u] by (cases "pcs u") auto
        qed
      qed (use moving_okD [OF D(9)] reads in auto)
    qed (simp add: reads)
    have "cond_ok N c f m W' (pcs(t := VNotify count (TStore l i'))) A C mv gf gc xf xc own"
      by (rule cond_quiet [OF ok' t(1)])
        (use t carry [of i'] it(2) in \<open>simp_all add: transfer_simps del: carry_ok.simps\<close>)
    from cond_goodI [OF this] show ?thesis by (simp add: it(1) store)
  qed
qed

section \<open>On the mutex\<close>

lemma put_prev_payload:
  "alive h w \<Longrightarrow> alive (put_prev h w p) v = alive h v" "que (put_prev h w p) v = que h v"
  "wkr (put_prev h w p) v = wkr h v" "fut (put_prev h w p) v = fut h v"
  by (auto simp: put_prev_def alive_def que_def wkr_def fut_def)

lemma dls_new_prev: "dls h p (w # ws) b \<Longrightarrow> w \<notin> set ws \<Longrightarrow> dls (put_prev h w q) q (w # ws) b"
  using dls_put_prev [of w ws h q w b] by (auto simp: link_simps)

lemma mutex_sleeper:
  assumes ok: "cond_ok N c f m W pcs A C mv gf gc xf xc own"
    and w: "sleeper (r_stage (fair_role (mutex_view N f A pcs v))) = Some w"
  shows "w \<in> A"
  using stage_alive [OF tasks_stage [OF fair_okD(1) [OF cond_okD(1) [OF ok]] refl] sleeper_waiter [OF w]]
  by (auto simp: alive_def restrict_map_def split: if_splits)

lemma sleep_waiter: "sleeper (r_stage (fair_role (cond_sleep f A p))) = Some w \<longleftrightarrow> cond_waiter p = Some w \<and> w \<in> A"
  by (cases p) (auto simp: idle_role_def)

lemma cond_join:
  assumes ok: "cond_ok N c f m W pcs A C mv gf gc xf xc own" and t: "t < N" "pcs t = VNotify count (TPush l (futex_atom xf))"
    and W': "W' = put_futex (W\<lparr>heap := put_prev (heap W) (wl_head l) (fa_inbox (futex_atom xf))\<rparr>) f
        (xf\<lparr>futex_atom := \<lparr>fa_atom = fa_atom (futex_atom xf), fa_inbox = wl_tail l\<rparr>\<rparr>)"
  shows "cond_good N c f m t pcs (Inr (VNotify count TUnlockM, W'))"
proof -
  note D = cond_okD [OF ok] and M = moving_okD [OF cond_okD(9) [OF ok]]
  let ?a = "futex_atom xf" and ?A = "A \<union> set mv" and ?q = "VNotify count TUnlockM"
  let ?pcs = "pcs(t := ?q)" and ?x = "xf\<lparr>futex_atom := \<lparr>fa_atom = fa_atom (futex_atom xf), fa_inbox = last mv\<rparr>\<rparr>"
  obtain p where mv: "mv \<noteq> []" "wl_head l = hd mv" "wl_tail l = last mv" "dls (heap W) p mv null"
    "\<And>w. w \<in> set mv \<Longrightarrow> fut (heap W) w = f"
    using M(2) [of t] t by auto
  have hd: "alive (heap W) (hd mv)" using M(4) mv(1) by simp
  have h': "heap W' = put_prev (heap W) (hd mv) (fa_inbox ?a)" "futexes W' = (futexes W)(f \<mapsto> ?x)"
    by (simp_all add: W' mv(2,3))
  have dls: "dls (heap W') (fa_inbox ?a) mv null"
    using mv(1,4) M(1) dls_new_prev unfolding h' by (cases mv) auto
  have keep: "heap W' w = heap W w" if "w \<notin> set mv" for w
    using that mv(1) by (auto simp: h' put_prev_def)
  have wk: "wkr (heap W') w = wkr (heap W) w" for w by (simp add: h' put_prev_payload)
  have waiting: "\<exists>k. wkr (heap W) w = WakerWaiting k" if "w \<in> set mv" for w
    using M(6) [OF that] waits_okD(2) [OF D(10)] D(6) that by blast
  have out: "w \<notin> A" "w \<notin> C" if "w \<in> set mv" for w using D(6) that by auto
  have join: "joining (heap (part A {f} W)) (heap (part ?A {f} W')) f 1 (fa_inbox ?a) mv"
    unfolding joining_def
  proof (intro conjI ballI allI impI)
    show "dls (heap (part ?A {f} W')) (fa_inbox ?a) mv null"
      using dls dls_cong [of mv "heap (part ?A {f} W')" "heap W'"] by simp
    fix w assume "w \<notin> set mv"
    then show "heap (part ?A {f} W') w = heap (part A {f} W) w" using keep by (simp add: restrict_map_def)
  next
    fix w assume w: "w \<in> set mv"
    have at: "heap (part ?A {f} W') w = heap W' w" using w by simp
    show "heap (part A {f} W) w = None" using out(1) [OF w] by simp
    show "fut (heap (part ?A {f} W')) w = f" "que (heap (part ?A {f} W')) w < 1"
      using mv(5) [OF w] M(5) [OF w] put_prev_payload(2,4) [of "heap W" "hd mv" "fa_inbox ?a" w]
      unfolding fut_def que_def at h' by simp_all
    show "\<exists>k. wkr (heap (part ?A {f} W')) w = WakerWaiting k"
      using waiting [OF w] wk [of w] unfolding wkr_def at by simp
  qed (use mv(1) M(1) in simp_all)
  have main: "cond_main ?q = cond_main (pcs t)" using t by (simp add: transfer_simps)
  have sleep: "cond_sleep f B ?q = cond_sleep f B (pcs t)" for B using t by simp
  have view: "mutex_view N f ?A ?pcs = mutex_view N f ?A pcs"
    by (rule mutex_view_same) (use t(1) main sleep in simp_all)
  have F: "fair_ok f (part ?A {f} W') (mutex_view N f ?A ?pcs) (join_ghost f mv gf) ?x own"
    unfolding view
  proof (rule fair_join [OF D(1) _ join _ refl])
    show "own \<noteq> None"
      using fair_okD(4) [OF D(1), of t] t by (auto simp: transfer_simps unlock_owns_def)
    show "futexes (part ?A {f} W') = (futexes (part A {f} W))(f \<mapsto> ?x)"
      by (auto simp: h' restrict_map_def fun_eq_iff)
  next
    fix v
    show "enters f (set mv) (mutex_view N f A pcs v) (mutex_view N f ?A pcs v)"
    proof (cases "v < N")
      case False
      have "cond_pc_ok m A (pcs (v - N))" by (rule D(7))
      then show ?thesis
        using False by (cases "pcs (v - N)") (auto simp: mutex_view_def enters_def wait_ok_def)
    qed (simp add: mutex_view_def enters_def)
  next
    fix w assume w: "w \<in> set mv"
    have *: "N \<le> v \<and> cond_waiter (pcs (v - N)) = Some w"
      if "sleeper (r_stage (fair_role (mutex_view N f ?A pcs v))) = Some w" for v
    proof (cases "v < N")
      case True
      then have "mutex_view N f ?A pcs v = mutex_view N f A pcs v" by (simp add: mutex_view_def)
      with mutex_sleeper [OF ok, of v w] that out(1) [OF w] show ?thesis by simp
    next
      case False
      with that show ?thesis by (simp add: mutex_view_def sleep_waiter)
    qed
    obtain u where u: "cond_waiter (pcs u) = Some w" using M(6) [OF w] by blast
    have "sleeper (r_stage (fair_role (mutex_view N f ?A pcs (u + N)))) = Some w"
      unfolding mutex_view_at sleep_waiter using u w by simp
    then show "\<exists>v. sleeper (r_stage (fair_role (mutex_view N f ?A pcs v))) = Some w" by blast
    fix v v' assume "sleeper (r_stage (fair_role (mutex_view N f ?A pcs v))) = Some w"
      "sleeper (r_stage (fair_role (mutex_view N f ?A pcs v'))) = Some w"
    from * [OF this(1)] * [OF this(2)] show "v = v'"
      using waits_okD(3) [OF D(10), of "v - N" w "v' - N"] by auto
  qed
  have "cond_ok N c f m W' ?pcs ?A C [] (join_ghost f mv gf) gc ?x xc own"
    unfolding cond_ok_def
  proof (intro conjI allI impI)
    show "fair_ok f (part ?A {f} W') (mutex_view N f ?A ?pcs) (join_ghost f mv gf) ?x own" by (rule F)
    have roles: "(\<lambda>u. cond_role C (?pcs u)) = (\<lambda>u. cond_role C (pcs u))"
      using t by (auto simp: transfer_simps)
    show "tasks_ok c 1 (part C {c} W') gc xc (\<lambda>u. cond_role C (?pcs u))"
      unfolding roles
    proof (rule tasks_ok_cong [OF D(2)])
      show "heap (part C {c} W') = heap (part C {c} W)"
        using keep out(2) by (auto simp: restrict_map_def fun_eq_iff)
      show "futexes (part C {c} W') = futexes (part C {c} W)"
        using D(4) by (auto simp: h' restrict_map_def fun_eq_iff)
    qed
    have sole: "\<And>u n k. pcs u = VNotify k n \<Longrightarrow> u = t"
      by (rule cond_notify_sole [OF ok t(2)])
    have "carry_ok f (heap W') [] (?pcs u)" for u
      using sole [of u] by (cases "pcs u") auto
    then show "moving_ok f (heap W') [] ?pcs" by (simp add: moving_ok_def)
    have "cond_waiter (?pcs u) = Some w \<Longrightarrow> cond_waiter (pcs u) = Some w" for u w
      by (auto split: if_splits)
    then show "waits_ok (heap W') ?A C [] ?pcs"
      using D(10) unfolding waits_ok_def wk by (auto simp del: fun_upd_apply) blast+
  next
    fix u
    have "cond_pc_ok m ?A (pcs u)" using D(7) [of u] by (cases "pcs u") auto
    then show "cond_pc_ok m ?A (?pcs u)" by simp
    show "N \<le> u \<Longrightarrow> ?pcs u = VFair Idle" using D(8) [of u] t by simp
  qed (use D(3-6) out in auto)
  then show ?thesis by (rule cond_goodI)
qed

lemma cond_push_good:
  assumes ok: "cond_ok N c f m W pcs A C mv gf gc xf xc own" and t: "t < N" "pcs t = VNotify count (TPush l a)"
  shows "cond_good N c f m t pcs (mapR (\<lambda>(n, W). (VNotify count n, W))
      (bindR (requeue_iter spurious W f l a) (\<lambda>(r, W).
            Inr (case r of Some atom \<Rightarrow> TPush l atom | None \<Rightarrow> TUnlockM, W))))"
proof -
  note D = cond_okD [OF ok] and M = moving_okD [OF cond_okD(9) [OF ok]]
  obtain p where mv: "mv \<noteq> []" "wl_head l = hd mv" "wl_tail l = last mv" "dls (heap W) p mv null"
    "\<And>w. w \<in> set mv \<Longrightarrow> fut (heap W) w = f"
    using M(2) [of t] t by auto
  have hd: "alive (heap W) (hd mv)" using M(4) mv(1) by simp
  define W1 where "W1 = W\<lparr>heap := put_prev (heap W) (hd mv) (fa_inbox a)\<rparr>"
  have f: "futexes W1 f = Some xf" using cond_mutex_futex [OF ok] by (simp add: W1_def)
  have iter: "requeue_iter spurious W f l a = Inr
      (if futex_atom xf = a \<and> \<not> spurious
       then (None, put_futex W1 f (xf\<lparr>futex_atom := \<lparr>fa_atom = fa_atom a, fa_inbox = wl_tail l\<rparr>\<rparr>))
       else (Some (futex_atom xf), W1))"
    unfolding requeue_iter_def mv(2) access_alive(8) [OF hd] bindR_simps W1_def [symmetric]
    by (subst raw_cmpxchg_weak_eq [OF f]) simp_all
  show ?thesis
  proof (cases "futex_atom xf = a \<and> \<not> spurious")
    case True
    have "cond_good N c f m t pcs (Inr (VNotify count TUnlockM,
        put_futex W1 f (xf\<lparr>futex_atom := \<lparr>fa_atom = fa_atom a, fa_inbox = wl_tail l\<rparr>\<rparr>)))"
    proof (rule cond_join [OF ok t(1)])
      show "pcs t = VNotify count (TPush l (futex_atom xf))" using t True by simp
      show "put_futex W1 f (xf\<lparr>futex_atom := \<lparr>fa_atom = fa_atom a, fa_inbox = wl_tail l\<rparr>\<rparr>) =
          put_futex (W\<lparr>heap := put_prev (heap W) (wl_head l) (fa_inbox (futex_atom xf))\<rparr>) f
            (xf\<lparr>futex_atom := \<lparr>fa_atom = fa_atom (futex_atom xf), fa_inbox = wl_tail l\<rparr>\<rparr>)"
        unfolding W1_def mv(2) using True by simp
    qed
    then show ?thesis unfolding iter if_P [OF True] by simp
  next
    case False
    have dls: "dls (heap W1) (fa_inbox a) mv null"
      using mv(1,4) M(1) dls_new_prev unfolding W1_def by (cases mv) auto
    have carry: "carry_ok f (heap W1) mv (VNotify count (TPush l b))" for b
      using dls mv by (auto simp: W1_def put_prev_payload)
    have ok': "cond_ok N c f m W1 pcs A C mv gf gc xf xc own"
    proof (rule cond_moving_change [OF ok])
      show "heap W1 v = heap W v" if "v \<notin> set mv" for v using that mv(1) by (auto simp: W1_def put_prev_def)
      show "moving_ok f (heap W1) mv pcs"
        unfolding moving_ok_def
      proof (intro conjI allI impI ballI)
        fix u show "carry_ok f (heap W1) mv (pcs u)"
        proof (cases "u = t")
          case True
          then show ?thesis using carry [of a] t(2) by simp
        next
          case False
          then show ?thesis using cond_notify_sole [OF ok t(2), of u] by (cases "pcs u") auto
        qed
      qed (use M hd in \<open>auto simp: W1_def put_prev_payload\<close>)
    qed (simp_all add: W1_def put_prev_payload)
    have "cond_ok N c f m W1 (pcs(t := VNotify count (TPush l (futex_atom xf)))) A C mv gf gc xf xc own"
      by (rule cond_quiet [OF ok' t(1)])
        (use t carry in \<open>simp_all add: transfer_simps del: carry_ok.simps\<close>)
    from cond_goodI [OF this] show ?thesis unfolding iter if_not_P [OF False] by simp
  qed
qed

lemma cond_unlockm_good:
  assumes ok: "cond_ok N c f m W pcs A C mv gf gc xf xc own" and t: "t < N" "pcs t = VNotify count TUnlockM"
  shows "cond_good N c f m t pcs (mapR (\<lambda>W. (VNotify count TUnlock, W)) (futex_unlock t W f))"
proof -
  note D = cond_okD [OF ok]
  let ?view = "mutex_view N f A pcs"
  have at: "?view t = Unlocking UBorrow" using t by (simp add: transfer_simps)
  obtain x1 where l: "futex_unlock t (part A {f} W) f = Inr (put_futex (part A {f} W) f x1)" "futex_atom x1 = futex_atom xf"
    "tasks_ok f 1 (put_futex (part A {f} W) f x1) gf x1
      ((\<lambda>u. fair_role (?view u))(t := (fair_role (?view t))\<lparr>r_read := False\<rparr>))"
    by (rule tasks_unlock [OF fair_okD(1) [OF D(1)], of t]) (simp_all only: at, simp_all add: unlock_simps)
  have role: "(fair_role (?view t))\<lparr>r_read := False\<rparr> = fair_role Held" unfolding at by (simp add: unlock_simps)
  have F: "fair_ok f (put_futex (part A {f} W) f x1) (?view(t := Held)) gf x1 own"
    by (rule fair_ok_quiet [OF D(1) l(3) [unfolded role]]) (use l(2) in \<open>simp_all only: at, simp_all add: unlock_simps\<close>)
  obtain W' where W': "futex_unlock t W f = Inr W'" "world_rel A {f} W (put_futex (part A {f} W) f x1) W'"
    using futex_unlock_frame(1) [OF world_rel_refl, of A "{f}" W t f] l(1) by (auto simp: sim_res_def)
  have "cond_ok N c f m W' (pcs(t := VNotify count TUnlock)) A C mv gf gc x1 xc own"
    by (rule cond_mutex_step [OF ok t(1) _ W'(2)]) (use F t in \<open>simp_all add: mutex_view_main transfer_simps\<close>)
  from cond_goodI [OF this] show ?thesis by (simp add: W'(1))
qed

end
