(* ===== verification/Condvar_Spec.thy ===== *)
theory Condvar_Spec imports Condvar_Move begin

text \<open>
  What the condition variable of \<open>src/condvar.rs\<close> promises to tasks that use it with one mutex and
  do not drop a suspended \<open>wait\<close>; and what a dropped \<open>wait\<close> does.
\<close>

section \<open>The invariant is kept\<close>

definition cond_init :: "ptr \<Rightarrow> ptr \<Rightarrow> cond_state \<Rightarrow> bool" where
  "cond_init c f s \<longleftrightarrow> c \<noteq> null \<and> f \<noteq> null \<and> c \<noteq> f \<and> s = cond_new c f"

lemma cond_init_inv:
  assumes "cond_init c f s"
  shows "cond_inv N c f m s"
proof -
  let ?g = "\<lparr>g_loc = (\<lambda>_. Loose), g_inbox = (\<lambda>_. []), g_queues = (\<lambda>_. [[]]), g_list = (\<lambda>_. [])\<rparr>"
  have s: "s = cond_new c f" and c: "c \<noteq> null" "f \<noteq> null" "c \<noteq> f"
    using assms by (simp_all add: cond_init_def)
  have view: "mutex_view N f {} (cv_pc s) = (\<lambda>_. Idle)"
    by (auto simp: s cond_new_def mutex_view_def)
  have part: "part {} {x} (cv_world s) = fm_world (fair_new x)" if "x = c \<or> x = f" for x
    using that c(3) by (auto simp: s part_def cond_new_def fair_new_def restrict_map_def fun_eq_iff)
  have roles: "(\<lambda>t. cond_role {} (cv_pc s t)) = (\<lambda>t. fair_role (fm_pc (fair_new c) t))"
    by (simp add: s cond_new_def fair_new_def)
  have "cond_ok N c f m (cv_world s) (cv_pc s) {} {} [] ?g ?g (futex_new 0 1) (futex_new 0 1) None"
    unfolding cond_ok_def view roles
  proof (intro conjI allI impI)
    show "fair_ok f (part {} {f} (cv_world s)) (\<lambda>_. Idle) ?g (futex_new 0 1) None"
      using fair_ok_new [OF c(2)] part [of f] by (simp add: fair_new_def)
    show "tasks_ok c 1 (part {} {c} (cv_world s)) ?g (futex_new 0 1) (\<lambda>t. fair_role (fm_pc (fair_new c) t))"
      using fair_okD(1) [OF fair_ok_new [OF c(1)]] part [of c] by simp
  qed (use c(3) in \<open>simp_all add: s cond_new_def futex_new_def moving_ok_def waits_ok_def\<close>)
  then show ?thesis unfolding cond_inv_def by blast
qed

lemma transfer_done:
  "condvar_notify_step spurious t c f m count W n = Some (Inr (TDone, W')) \<Longrightarrow> n = TUnlock"
  by (cases n) (auto simp: condvar_notify_step_def condvar_pop_def requeue_start_def mapR_def bindR_eq_Inr
      split: option.splits prod.splits if_splits)

lemma map_pair: "mapR (\<lambda>(n, W). (g n, W)) (mapR (Pair x) r) = mapR (\<lambda>W. (g x, W)) r"
  by (cases r) auto

lemma cond_transfer_good:
  assumes ok: "cond_ok N c f m W pcs A C mv gf gc xf xc own" and t: "t < N" "pcs t = VNotify count n"
    and step: "condvar_notify_step spurious t c f m count W n = Some r"
  shows "cond_good N c f m t pcs (mapR (\<lambda>(n, W). (if n = TDone then VFair Held else VNotify count n, W)) r)"
proof (cases "n = TUnlock")
  case True
  have r: "r = mapR (Pair TDone) (futex_unlock t W c)"
    using step by (simp add: True condvar_notify_step_def)
  show ?thesis
    unfolding r map_pair using cond_leave_good [OF ok t(1) t(2) [unfolded True]] by simp
next
  case False
  have "mapR (\<lambda>(n, W). (if n = TDone then VFair Held else VNotify count n, W)) r =
      mapR (\<lambda>(n, W). (VNotify count n, W)) r"
    using transfer_done [of spurious t c f m count W n] step False by (cases r) auto
  moreover have "cond_good N c f m t pcs (mapR (\<lambda>(n, W). (VNotify count n, W)) r)"
  proof (cases n)
    case (TLock a)
    then obtain r0 where "futex_lock t W c = Some r0" "r = mapR (Pair (TBorrow a)) r0"
      using step by (auto simp: condvar_notify_step_def)
    with cond_lock_good [OF ok t(1) t(2) [unfolded TLock]] show ?thesis by (simp add: map_pair)
  next
    case (TBorrow a)
    with step cond_borrow_good [OF ok t(1) t(2) [unfolded TBorrow]] show ?thesis
      by (auto simp: condvar_notify_step_def map_pair)
  next
    case (TEnqueue a)
    with step cond_enqueue_good [OF ok t(1) t(2) [unfolded TEnqueue]] show ?thesis
      by (auto simp: condvar_notify_step_def)
  next
    case (TUnborrow l)
    with step cond_unborrow_good [OF ok t(1) t(2) [unfolded TUnborrow]] show ?thesis
      by (auto simp: condvar_notify_step_def map_pair)
  next
    case (TLockM l)
    then obtain r0 where "futex_lock t W f = Some r0" "r = mapR (Pair (requeue_start l)) r0"
      using step by (auto simp: condvar_notify_step_def)
    with cond_lockm_good [OF ok t(1) t(2) [unfolded TLockM]] show ?thesis by (simp add: map_pair)
  next
    case (TStore l i)
    with step cond_store_good [OF ok t(1) t(2) [unfolded TStore]] show ?thesis
      by (auto simp: condvar_notify_step_def)
  next
    case (TPush l a)
    with step cond_push_good [OF ok t(1) t(2) [unfolded TPush]] show ?thesis
      by (auto simp: condvar_notify_step_def)
  next
    case TUnlockM
    with step cond_unlockm_good [OF ok t(1) t(2) [unfolded TUnlockM]] show ?thesis
      by (auto simp: condvar_notify_step_def map_pair)
  qed (use False step in \<open>simp_all add: condvar_notify_step_def\<close>)
  ultimately show ?thesis by simp
qed

lemma cond_task_fair:
  "cond_task c f m t (Act a) W (VFair p) = map_option (mapR (\<lambda>(p, W). (VFair p, W))) (fair_task f t a W p)"
  by (cases p) (simp_all add: cond_task_def)

lemma cond_task_good:
  assumes ok: "cond_ok N c f m W pcs A C mv gf gc xf xc own" and t: "t < N" "\<not> drops_wait act (pcs t)"
    and step: "cond_task c f m t act W (pcs t) = Some r"
  shows "cond_good N c f m t pcs r"
proof (cases "pcs t")
  case (VFair p)
  show ?thesis
  proof (cases act)
    case (Act a)
    then obtain r0 where "fair_task f t a W p = Some r0" "r = mapR (\<lambda>(p, W). (VFair p, W)) r0"
      using step VFair by (auto simp: cond_task_fair)
    with cond_fair_good [OF ok t(1) VFair] show ?thesis by simp
  next
    case (Wait cx addr)
    then have "p = Held" "condvar_wait c cx addr W = Some r"
      using step VFair by (auto simp: cond_task_def split: fair_pc.splits)
    with cond_wait_good [OF ok t(1)] VFair show ?thesis by simp
  next
    case (Notify count)
    then have "p = Held" "r = bindR (condvar_notify c m W) (\<lambda>n.
        Inr (if n = TDone then VFair Held else VNotify count n, W))"
      using step VFair by (auto simp: cond_task_def split: fair_pc.splits)
    with cond_notify_good [OF ok t(1)] VFair show ?thesis by simp
  qed
next
  case (VTop w a cx)
  with step cond_iter_good [OF ok t(1) VTop] show ?thesis
    by (auto simp: cond_task_def split: cond_action.splits action.splits)
next
  case (VUnlock wait u)
  with step cond_unlock_good [OF ok t(1) VUnlock] show ?thesis
    by (auto simp: cond_task_def split: cond_action.splits action.splits)
next
  case (VPending wait)
  with step t(2) cond_poll_good [OF ok t(1) VPending] show ?thesis
    by (auto simp: cond_task_def split: cond_action.splits action.splits)
next
  case (VPolling wait cx k)
  with step cond_loop_good [OF ok t(1) VPolling] show ?thesis
    by (auto simp: cond_task_def split: cond_action.splits action.splits)
next
  case (VNotify count n)
  with step cond_transfer_good [OF ok t(1) VNotify] show ?thesis
    by (auto simp: cond_task_def split: cond_action.splits action.splits)
qed (use cond_okD(7) [OF ok, of t] in simp_all)

interpretation cv: invariant_system "cond_init c f" "cond_machine N c f m" "cond_inv N c f m" for N c f m
proof
  fix s assume "cond_init c f s"
  then show "cond_inv N c f m s" by (rule cond_init_inv)
next
  fix s e r assume inv: "cond_inv N c f m s" and step: "cond_machine N c f m e s = Some r"
  obtain t act where e: "e = (t, act)" by (cases e)
  obtain A C mv gf gc xf xc own where ok: "cond_ok N c f m (cv_world s) (cv_pc s) A C mv gf gc xf xc own"
    using inv unfolding cond_inv_def by blast
  obtain r0 where r0: "t < N" "\<not> drops_wait act (cv_pc s t)"
    "cond_task c f m t act (cv_world s) (cv_pc s t) = Some r0"
    "r = mapR (\<lambda>(p, W). s\<lparr>cv_world := W, cv_pc := (cv_pc s)(t := p)\<rparr>) r0"
    using step by (auto simp: e cond_machine_def cond_step_def split: if_splits)
  from cond_task_good [OF ok r0(1-3)] show "\<exists>s'. r = Inr s' \<and> cond_inv N c f m s'"
    unfolding cond_good_def cond_inv_def by (auto simp: r0(4)) blast
qed

lemma cond_reach_ok:
  assumes "reach (cond_init c f) (cond_machine N c f m) s"
  obtains A C mv gf gc xf xc own where "cond_ok N c f m (cv_world s) (cv_pc s) A C mv gf gc xf xc own"
  using cv.reach_inv [OF assms] unfolding cond_inv_def by blast

section \<open>Properties\<close>

text \<open>
  C23: no reachable step of the condition variable or of its mutex fails: the assertion of \<open>wait\<close>
  on the atom, the panic of \<open>notify\<close> for a different mutex, the unwraps, the borrows and the pointers
  hold, for any number of tasks that lock, wait, notify and cancel a pending \<open>lock\<close>, as long as no
  suspended \<open>wait\<close> is dropped.
\<close>

theorem condvar_no_fault:
  assumes "reach (cond_init c f) (cond_machine N c f m) s"
  shows "cond_machine N c f m e s \<noteq> Some (Inl x)"
  by (rule cv.reach_no_fault [OF assms])

text \<open>A task has the mutex while it has a guard, and in \<open>wait\<close> until its waiter is queued.\<close>

fun cond_holds :: "cond_pc \<Rightarrow> bool" where
  "cond_holds (VFair p) = (p = Held)"
| "cond_holds (VTop w a cx) = True"
| "cond_holds (VNotify count n) = True"
| "cond_holds p = False"

text \<open>
  C24: at most one task has the mutex, be it by \<open>lock\<close> or by a \<open>wait\<close> that returned its guard.
\<close>

theorem condvar_exclusion:
  assumes "reach (cond_init c f) (cond_machine N c f m) s"
    and "cond_holds (cv_pc s t)" "cond_holds (cv_pc s u)"
  shows "t = u"
proof -
  obtain A C mv gf gc xf xc own where ok: "cond_ok N c f m (cv_world s) (cv_pc s) A C mv gf gc xf xc own"
    by (rule cond_reach_ok [OF assms(1)])
  have "v < N \<and> owns h (mutex_view N f A (cv_pc s) v)" if h: "cond_holds (cv_pc s v)" for v h
  proof -
    have "v < N" using cond_okD(8) [OF ok, of v] h by (cases "v < N") auto
    moreover have "owns h (cond_main (cv_pc s v))"
      using h cond_okD(7) [OF ok, of v] by (cases "cv_pc s v")
        (auto simp: transfer_main_def unlock_owns_def split: transfer_pc.splits)
    ultimately show ?thesis by simp
  qed
  with assms(2,3) show ?thesis
    by (intro fair_unique [OF cond_okD(1) [OF ok]]) blast+
qed

text \<open>
  A task is about to have the mutex or to pass it on: it has it, it is in \<open>unlock\<close> before it has
  woken the next one, or it is suspended in \<open>lock\<close> or \<open>wait\<close> and has been woken.
\<close>

definition cond_active :: "heap \<Rightarrow> cond_pc \<Rightarrow> bool" where
  "cond_active h p \<longleftrightarrow> owns h (cond_main p) \<or> (\<exists>w. cond_waiter p = Some w \<and> wkr h w = WakerDone)"

lemma owns_part:
  assumes ok: "fair_ok f (part A B W) pc g fx own"
  shows "owns (heap (part A B W)) (pc v) = owns (heap W) (pc v)"
proof (rule owns_cong)
  fix w assume "stage_waiter (r_stage (fair_role (pc v))) = Some w"
  from stage_alive [OF tasks_stage [OF fair_okD(1) [OF ok] refl] this] have "w \<in> A"
    by (auto simp: alive_def restrict_map_def split: if_splits)
  then show "wkr (heap (part A B W)) w = wkr (heap W) w" by (rule part_read)
qed

text \<open>
  C22: a notified \<open>wait\<close> is not lost. While a suspended \<open>wait\<close> whose waiter has been moved to the
  futex of the mutex is not woken, some task has the mutex and will pass it on, or has been woken to
  have it.
\<close>

theorem condvar_no_lost_wakeup:
  assumes "reach (cond_init c f) (cond_machine N c f m) s"
    and wait: "cv_pc s t = VPending wait" "fut (heap (cv_world s)) (wf_waiter wait) = f"
      "wkr (heap (cv_world s)) (wf_waiter wait) \<noteq> WakerDone"
  shows "\<exists>u. cond_active (heap (cv_world s)) (cv_pc s u)"
proof -
  obtain A C mv gf gc xf xc own where ok: "cond_ok N c f m (cv_world s) (cv_pc s) A C mv gf gc xf xc own"
    by (rule cond_reach_ok [OF assms(1)])
  note D = cond_okD [OF ok]
  let ?w = "wf_waiter wait"
  have w: "cond_waiter (cv_pc s t) = Some ?w" using wait(1) by simp
  have owner: "\<exists>u. cond_active (heap (cv_world s)) (cv_pc s u)" if v: "own = Some v" for v
  proof -
    have "owns (heap (cv_world s)) (mutex_view N f A (cv_pc s) v)"
      using fair_okD(4) [OF D(1), of v] owns_part [OF D(1), of v] v by simp
    then have "cond_active (heap (cv_world s)) (cv_pc s (if v < N then v else v - N))"
      by (cases "v < N"; cases "cv_pc s (v - N)") (auto simp: mutex_view_def cond_active_def split: if_splits)
    then show ?thesis by blast
  qed
  consider "?w \<in> A" | "?w \<in> C" | "?w \<in> set mv" using waits_okD(1) [OF D(10) w] by auto
  then show ?thesis
  proof cases
    case 1
    have "r_stage (fair_role (mutex_view N f A (cv_pc s) (t + N))) = Parked ?w 0"
      unfolding mutex_view_at using wait(1) 1 by simp
    then have p: "parked_ok (heap (part A {f} (cv_world s))) gf f ?w 0"
      using tasks_stage [OF fair_okD(1) [OF D(1)]] by fastforce
    have "own \<noteq> None"
    proof
      assume "own = None"
      then have "g_loc gf ?w = Loose" by (rule fair_okD(6) [OF D(1)])
      then have "wkr (heap (part A {f} (cv_world s))) ?w = WakerDone"
        using parked_woken(1) [OF fair_okD(1) [OF D(1)] p] by simp
      with wait(3) part_read [OF 1, of "{f}" "cv_world s"] show False by simp
    qed
    with owner show ?thesis by auto
  next
    case 2
    have "r_stage (cond_role C (cv_pc s t)) = Parked ?w 0" using wait(1) 2 by simp
    from tasks_stage [OF D(2) this] have "fut (heap (part C {c} (cv_world s))) ?w = c"
      by (simp add: parked_ok_def)
    then have "fut (heap (cv_world s)) ?w = c" using 2 by (simp add: fut_def)
    with wait(2) D(4) show ?thesis by simp
  next
    case 3
    then obtain u where u: "carries (cv_pc s u)" using moving_okD(3) [OF D(9)] by (cases mv) auto
    then have "owns h (cond_main (cv_pc s u))" for h
      by (cases "cv_pc s u" rule: carries.cases) (auto simp: transfer_main_def unlock_owns_def)
    then show ?thesis unfolding cond_active_def by blast
  qed
qed

text \<open>
  C25: \<open>requeue\<close>, once its compare-exchange succeeds, puts the waiters of the list on the inbox
  on top of those that were there, the last of the list on top, so that they will be served after
  them and in the order of the list; the atom stays.
\<close>

theorem requeue_appends:
  assumes "dlist (heap W) l ws" "ws \<noteq> []" "futexes W f = Some fx"
    and "is_stack (heap W) (fa_inbox (futex_atom fx)) st" "set ws \<inter> set st = {}"
  shows "\<exists>W' fx'. requeue_iter False W f l (futex_atom fx) = Inr (None, W') \<and> futexes W' f = Some fx' \<and>
    is_stack (heap W') (fa_inbox (futex_atom fx')) (rev ws @ st) \<and> fa_atom (futex_atom fx') = fa_atom (futex_atom fx)"
proof -
  let ?a = "futex_atom fx"
  have hd: "alive (heap W) (hd ws)" "wl_head l = hd ws" "wl_tail l = last ws"
    using assms(1,2) dlist_alive [OF assms(1), of "hd ws"] by (auto simp: dlist_def)
  define W1 where "W1 = W\<lparr>heap := put_prev (heap W) (hd ws) (fa_inbox ?a)\<rparr>"
  have f: "futexes W1 f = Some fx" using assms(3) by (simp add: W1_def)
  have iter: "requeue_iter False W f l ?a = Inr (None, put_futex W1 f (fx\<lparr>futex_atom := \<lparr>fa_atom = fa_atom ?a, fa_inbox = last ws\<rparr>\<rparr>))"
    unfolding requeue_iter_def hd(2,3) access_alive(8) [OF hd(1)] bindR_simps W1_def [symmetric]
    by (subst raw_cmpxchg_weak_eq [OF f]) simp_all
  have dls: "dls (heap W1) (fa_inbox ?a) ws null"
    using assms(1,2) dls_new_prev unfolding W1_def by (cases ws) (auto simp: dlist_def)
  have "is_stack (heap W1) (fa_inbox ?a) st"
    using assms(2,4,5) stack_put_prev [of "hd ws" st "heap W"] by (cases ws) (auto simp: W1_def)
  from stack_push_list [OF dls this] iter assms(2) show ?thesis by simp
qed

section \<open>Concrete runs\<close>

text \<open>
  Task 0 takes the mutex and waits; task 1 takes it and notifies; when it drops its guard, task 0 is
  woken, and its next poll returns with the guard.
\<close>

definition cond_waker :: "tid \<Rightarrow> copy_waker" where
  "cond_waker t = \<lparr>cw_data = of_nat t, cw_vtable = 900\<rparr>"

definition cond_runs :: "tid \<Rightarrow> nat \<Rightarrow> (tid \<times> cond_action) list" where
  "cond_runs t n = replicate n (t, Act (Run False))"

definition cond_wait_trace :: "(tid \<times> cond_action) list" where
  "cond_wait_trace = (0, Act (Poll (cond_waker 0) 8)) # cond_runs 0 1 @ (0, Wait (cond_waker 0) 16) # cond_runs 0 7"

definition cond_notify_trace :: "(tid \<times> cond_action) list" where
  "cond_notify_trace = cond_wait_trace @ (1, Act (Poll (cond_waker 1) 24)) # cond_runs 1 1 @ (1, Notify 1) # cond_runs 1 10"

definition cond_after :: "(tid \<times> cond_action) list \<Rightarrow> cond_state" where
  "cond_after es = (case run (cond_machine 2 100 200 300) es (cond_new 100 200) of
     Some (Inr s) \<Rightarrow> s | _ \<Rightarrow> cond_new 100 200)"

lemma cond_after_reach: "reach (cond_init 100 200) (cond_machine 2 100 200 300) (cond_after es)"
proof -
  have start: "reach (cond_init 100 200) (cond_machine 2 100 200 300) (cond_new 100 200)"
    by (rule reach.start) (simp add: cond_init_def)
  then show ?thesis
    using run_reach [OF start, of es]
    by (auto simp: cond_after_def split: option.splits sum.splits)
qed

theorem condvar_no_fault_witness:
  "cond_machine 2 100 200 300 (1, Act Drop) (cond_after cond_notify_trace) \<noteq> Some (Inl Panic) \<and>
   cond_machine 2 100 200 300 (1, Act Drop) (cond_after cond_notify_trace) \<noteq> None"
proof
  show "cond_machine 2 100 200 300 (1, Act Drop) (cond_after cond_notify_trace) \<noteq> Some (Inl Panic)"
    by (rule condvar_no_fault [OF cond_after_reach])
  have "(case cond_machine 2 100 200 300 (1, Act Drop) (cond_after cond_notify_trace) of None \<Rightarrow> False | _ \<Rightarrow> True)"
    by code_simp
  then show "cond_machine 2 100 200 300 (1, Act Drop) (cond_after cond_notify_trace) \<noteq> None"
    by (auto split: option.splits)
qed

theorem condvar_exclusion_witness:
  "cond_holds (cv_pc (cond_after cond_notify_trace) 1) \<and> \<not> cond_holds (cv_pc (cond_after cond_notify_trace) 0)"
proof -
  have 1: "cond_holds (cv_pc (cond_after cond_notify_trace) 1)" by code_simp
  with condvar_exclusion [OF cond_after_reach, of cond_notify_trace 1 0] show ?thesis by auto
qed

theorem condvar_no_lost_wakeup_witness:
  "\<exists>u. cond_active (heap (cv_world (cond_after cond_notify_trace))) (cv_pc (cond_after cond_notify_trace) u)"
proof -
  have "(case cv_pc (cond_after cond_notify_trace) 0 of VPending wait \<Rightarrow>
      fut (heap (cv_world (cond_after cond_notify_trace))) (wf_waiter wait) = 200 \<and>
      wkr (heap (cv_world (cond_after cond_notify_trace))) (wf_waiter wait) \<noteq> WakerDone | _ \<Rightarrow> False)"
    by code_simp
  then obtain wait where "cv_pc (cond_after cond_notify_trace) 0 = VPending wait"
    "fut (heap (cv_world (cond_after cond_notify_trace))) (wf_waiter wait) = 200"
    "wkr (heap (cv_world (cond_after cond_notify_trace))) (wf_waiter wait) \<noteq> WakerDone"
    by (auto split: cond_pc.splits)
  from condvar_no_lost_wakeup [OF cond_after_reach this] show ?thesis .
qed

lemma condvar_notified_returns:
  "cv_pc (cond_after (cond_notify_trace @ (1, Act Drop) # cond_runs 1 8 @
     (0, Act (Poll (cond_waker 0) 0)) # cond_runs 0 1)) 0 = VFair Held"
  by code_simp

text \<open>
  A suspended \<open>wait\<close> that is dropped before it was notified runs into the \<open>todo!()\<close> of
  \<open>on_cancel_sleeping\<close>.
\<close>

theorem condvar_dropped_wait:
  "run (cond_step 100 200 300) (cond_wait_trace @ (0, Act Drop) # cond_runs 0 7) (cond_new 100 200) = Some (Inl Todo)"
proof -
  have "(case run (cond_step 100 200 300) (cond_wait_trace @ (0, Act Drop) # cond_runs 0 7) (cond_new 100 200) of
      Some (Inl e) \<Rightarrow> e = Todo | _ \<Rightarrow> False)"
    by code_simp
  then show ?thesis by (auto split: option.splits sum.splits)
qed

definition requeue_world :: world where
  "requeue_world = \<lparr>
     heap = [8 \<mapsto> (waiter_new 200 0 0)\<lparr>w_next := 16\<rparr>, 16 \<mapsto> (waiter_new 200 0 0)\<lparr>w_prev := 8\<rparr>,
             24 \<mapsto> waiter_new 200 0 0],
     futexes = [200 \<mapsto> (futex_new 1 1)\<lparr>futex_atom := \<lparr>fa_atom = 1, fa_inbox = 24\<rparr>\<rparr>],
     clones = [], wakes = [], drops = []\<rparr>"

theorem requeue_appends_witness:
  "\<exists>W' fx'. requeue_iter False requeue_world 200 \<lparr>wl_head = 8, wl_tail = 16\<rparr> \<lparr>fa_atom = 1, fa_inbox = 24\<rparr> = Inr (None, W') \<and>
     futexes W' 200 = Some fx' \<and> is_stack (heap W') (fa_inbox (futex_atom fx')) [16, 8, 24]"
proof -
  let ?fx = "(futex_new 1 1)\<lparr>futex_atom := \<lparr>fa_atom = 1, fa_inbox = 24\<rparr>\<rparr>"
  have "\<exists>W' fx'. requeue_iter False requeue_world 200 \<lparr>wl_head = 8, wl_tail = 16\<rparr> (futex_atom ?fx) = Inr (None, W') \<and>
     futexes W' 200 = Some fx' \<and> is_stack (heap W') (fa_inbox (futex_atom fx')) (rev [8, 16] @ [24]) \<and>
     fa_atom (futex_atom fx') = fa_atom (futex_atom ?fx)"
    by (rule requeue_appends)
      (simp_all add: requeue_world_def dlist_def alive_def nxt_def prv_def waiter_new_def)
  then show ?thesis by auto
qed

end
