(* ===== verification/Spec2Isabelle.thy ===== *)
theory Spec2Isabelle imports Fair_Mutex_Spec Spin_Lock Once_Spec Rw_Spec Fast_Spec Chan_Spec Queue2_Wakers Queue2_Owner Mutex2_Spec Condvar_Spec begin

text \<open>
  A verification of the synchronisation primitives of the \<open>async-mutex\<close> crate (sources under
  \<open>src/src\<close>): mutexes, a reader-writer lock, a once cell and channels for tasks that are polled
  as futures, all built on one futex with intrusive lists of waiters.

  The program and its theories.

  \<^item> \<open>Prelude\<close>: machine types of a 64-bit target, faults and results, checked arithmetic, and
    labelled transition systems with their reachable states. Its locales \<open>returning_system\<close> and
    \<open>invariant_system\<close> are the contracts of an invariant, which the steps that return keep, and in
    the second one no step faults; every machine of the development interprets one of them.
  \<^item> \<open>Atomic_Ordering\<close>, \<open>Atomics\<close> (\<open>atomic/*.rs\<close>): the ordering markers, the native atomics, and
    \<open>Atomic<T>\<close> over an encoding. The locale \<open>packable\<close> is what an encoding promises, and proves
    that the packed container implements a cell that holds the value; it is interpreted for every
    \<open>Packable\<close> of the program, in the theory that defines it.
  \<^item> \<open>Futex_State\<close> (\<open>futex/state.rs\<close>, \<open>futex/atomic_refcell.rs\<close>), \<open>Waiter_List\<close>
    (\<open>futex/waiter.rs\<close>), \<open>Futex\<close> and \<open>Futex_Ops\<close> (\<open>futex/mod.rs\<close>), \<open>Wait_Future\<close>
    (\<open>futex/wait_future.rs\<close>): the futex. Waiters live in an explicit heap; every access goes
    through \<open>deref\<close>, so that a dangling or null pointer is a fault. \<open>dlist\<close> says that a heap holds
    a doubly linked list, \<open>world_ok\<close> where every waiter of a futex is (in no list, in the inbox, in
    a queue, in the hands of a task), and there is one lemma per operation of how it moves them.
  \<^item> \<open>Futex_Tasks\<close>, \<open>Wait_Task\<close>, \<open>Wake_Task\<close>: the interface between the futex and the primitives
    on top of it. A task plays a role (the guards it holds, the waiters in its hands, the stage of
    its own waiter), \<open>tasks_ok\<close> ties the roles to the memory, and every futex operation, every step
    of a wait or of its cancellation, and the loop that wakes a list move roles to roles.
  \<^item> \<open>Fair_Mutex\<close>, \<open>Fair_Mutex_Inv\<close>, \<open>Fair_Mutex_Spec\<close> (\<open>fair_mutex.rs\<close>): the mutex that hands
    itself over; it refines an abstract lock that serves its waiters in order.
  \<^item> \<open>Condvar\<close> (\<open>condvar.rs\<close>): the condition variable, which moves waiters from its own futex to
    that of a fair mutex. \<open>Futex_Frame\<close> shows that an operation on one part of the memory does the
    same on the whole, \<open>Requeue\<close> is the contract of \<open>requeue\<close>; \<open>Condvar_Inv\<close> is the invariant, in
    which the two futexes and the waiters on their way are three parts of the memory,
    \<open>Condvar_Step\<close>, \<open>Condvar_Wait\<close> and \<open>Condvar_Move\<close> are the steps of the mutex, of \<open>wait\<close> and of
    \<open>notify\<close>, and \<open>Condvar_Spec\<close> the properties.
  \<^item> \<open>Rw_Lock\<close>, \<open>Rw_Inv\<close>, \<open>Rw_Unlock\<close>, \<open>Rw_Spec\<close> (\<open>rwlock.rs\<close>): the reader-writer lock.
  \<^item> \<open>Fast_Mutex\<close>, \<open>Fast_Inv\<close>, \<open>Fast_Unlock\<close>, \<open>Fast_Spec\<close> (\<open>fast_mutex.rs\<close>): the mutex that lets
    running tasks overtake.
  \<^item> \<open>Once_Cell\<close>, \<open>Once_Inv\<close>, \<open>Once_Spec\<close> (\<open>lazy.rs\<close>): the once cell.
  \<^item> \<open>Channel\<close> (\<open>mpsc.rs\<close>): the bounded channel. \<open>Ring\<close> is its ring of buckets without the
    program around it, \<open>Wait_Calm\<close> what the steps of the futex leave alone; \<open>Chan_Inv\<close> is the
    invariant, \<open>Chan_Step\<close> its frame, \<open>Chan_Send\<close> and \<open>Chan_Recv\<close> the steps of the senders and of
    the receiver, \<open>Chan_Fifo\<close> the refinement of a bounded queue, through the locale
    \<open>refining_system\<close>, and \<open>Chan_Spec\<close> the properties.
  \<^item> \<open>Spin_Lock\<close> (\<open>spin_lock.rs\<close>, \<open>yield_now\<close> of \<open>util.rs\<close>): the spin lock.
  \<^item> \<open>Queue2\<close> (\<open>futex2/mod.rs\<close>): the queue of the second futex, which matches waiters and
    notifications by number in a growing ring of buckets. \<open>Ring2\<close> is the ring without the program
    around it, \<open>Queue2_Inv\<close> the invariant over the roles of the tasks; \<open>Queue2_Expand\<close>,
    \<open>Queue2_Wait\<close> and \<open>Queue2_Poll\<close> are the steps of \<open>expand\<close>, of \<open>notify\<close> and of the polls,
    \<open>Queue2_Spec\<close> the properties, \<open>Queue2_Wakers\<close> the ledger of its wakers and \<open>Queue2_Owner\<close>
    whose waker a bucket holds.
  \<^item> \<open>Mutex2\<close>, \<open>Mutex2_Spec\<close> (\<open>futex2/mutex.rs\<close>): the mutex over that queue. Each of its
    steps is a step of a client of the queue, so that the invariant of the queue carries over.

  How the code is modelled. A primitive is a machine: a state (the memory of the futex and, for
  every task, its program counter with its local variables) and a step function from an event to
  the next state, to a fault, or to \<open>None\<close> where the event is not enabled. One step makes one
  access to shared memory. An event names the task that moves and what the environment chooses
  for it: polls and drops of futures and guards, the waker of a poll, the address of an
  allocation, whether a weak compare-exchange fails spuriously. The theorems quantify over all
  reachable states, hence over all interleavings. Each primitive has its invariant: \<open>fair_ok\<close>,
  \<open>rw_ok\<close>, \<open>fast_ok\<close>, \<open>once_ok\<close> and \<open>chan_ok\<close> contain \<open>tasks_ok\<close> for the roles that the program
  counters have; \<open>cond_ok\<close> has \<open>fair_ok\<close> for the part of the mutex and \<open>tasks_ok\<close> for that of the
  condition variable; the second futex has \<open>queue2_ok\<close>. One lemma per kind of step shows that the
  step keeps the invariant and does not fault, or, for the cell and the second futex, which fault it
  has.

  What is shown. For every lock and the channel on the first futex: no step of its machine faults (no
  \<open>panic!\<close>, \<open>unwrap\<close>, \<open>assert!\<close>, \<open>todo!()\<close>, overflow, bad pointer, endless list), exclusion, no
  lost wakeup, no deadlock of the tasks that are inside an operation; and what is particular to each:
  order for the fair mutex, writers first and exact counters for the reader-writer lock, the exact
  atom and overtaking for the fast mutex, and for the channel messages received in the order in which
  they were sent, each of them once. For the once cell: a value that never changes, one initialiser
  at a time, no lost wakeup, and its one fault: the orderings of the compare-exchange that claims the
  cell, where the atomics reject them. The packings round-trip. For the condition variable: no step
  of its machine faults, its mutex excludes, and a \<open>wait\<close> that was notified is not lost: while it is
  suspended on the mutex some task will pass the mutex on; \<open>requeue\<close> appends its list in order.
  \<open>condvar_dropped_wait\<close> is a run of a dropped \<open>wait\<close> into \<open>todo!()\<close>. For the queue of the second
  futex: exactly which steps of the code fault (\<open>q2_fault\<close>), no notification is lost, the bucket of a
  waiter holds the waker of its latest poll and is its own, every clone of a waker is called or
  dropped once, and an undisturbed \<open>expand\<close> does what a reference function says. For its mutex:
  exclusion and exactly which steps fault (\<open>m2_fault\<close>), but it loses a wakeup: \<open>mutex2_lost_wakeup\<close>
  is a run after which the mutex is free and two tasks sleep for it.

  Bounds. The counters of the reader-writer lock have 32 bits and the count of the fast mutex 62:
  their machines are used by \<open>N\<close> tasks with \<open>N < 2 ^ 32\<close> and \<open>N < 2 ^ 62\<close>. The cancellation of a
  \<open>write\<close> that was not woken, of a pending \<open>lock\<close> of the fast mutex and of a suspended \<open>wait\<close> that was
  not woken is \<open>todo!()\<close> in the code: the machine of the reader-writer lock has no drop of a write that
  was not woken, that of the fast mutex none of a pending lock, and that of the condition variable
  none of a suspended wait. The condition variable is used by any number \<open>N\<close> of tasks, with one
  mutex. The channel has the capacity that \<open>channel\<close> accepts, less than \<open>2 ^ 32\<close>, and any number of
  senders. The queue of the second futex starts with at least one bucket, and no generation has
  exactly \<open>2 ^ 32\<close> buckets, which take 64 GiB; its faults are states that \<open>reach\<close> does not go beyond, since
  a fault ends the run. There is no fuel: the loops of the code are steps of a machine, or
  \<open>partial_function (option)\<close> list traversals that are proved to end.

  Not modelled. The atomics are sequentially consistent: orderings matter only where a load, a store
  or a compare-exchange panics on them. The rule for a compare-exchange is that of the standard library
  of the toolchains this crate needs (\<open>cas_orders\<close>); for the claim of the once cell, the one place
  that breaks it, what the atomics accept is an argument (\<open>accepts\<close>), since those of loom differ. The
  protected value of a lock is not part of its state (\<open>Deref\<close> and \<open>get_mut\<close> borrow it). The drop of
  a channel is a function of the state that its handles leave behind (\<open>inner_drop\<close>), not an event. The
  atom of the second futex is transmuted from a structure without a specified layout: it stays a
  pair. The poisoning of the standard mutex cannot be seen, since a fault ends a run.
  \<open>async_traits.rs\<close>, most of \<open>util.rs\<close> (commented out), \<open>lib.rs\<close>, \<open>loom.rs\<close> and the tests have no
  behaviour of the library.
\<close>

end
